(* ===== verification/Prelude.thy ===== *)
theory Prelude
  imports Complex_Main "HOL-Library.Monad_Syntax" "HOL-Library.Multiset"
begin

text \<open>
  The vocabulary every component shares.

  A C++ function that may read or write outside a vector, or loop for ever, is a function into
  \<open>option\<close>: \<open>None\<close> stands for undefined behaviour and for a loop that does not end, so a
  theorem that gives a \<open>Some\<close> result says that neither happens. \<open>vget\<close> and \<open>vset\<close> are the
  checked \<open>v[i]\<close> and \<open>v[i] = x\<close>; \<open>for_range\<close> is \<open>for (i = lo; i < hi; ++i)\<close>;
  \<open>for_brk\<close> the same loop with an early exit; \<open>loop\<close> a \<open>while\<close> loop.

  \<open>ok m Q\<close> is the total-correctness judgement: \<open>m\<close> returns, and what it returns satisfies
  \<open>Q\<close>. Its simp rules take a \<open>do\<close> block apart, and one rule per loop form carries an invariant.
\<close>

named_theorems vcg \<open>invariant rules of the loop forms\<close>

section \<open>Total correctness of computations that may be undefined\<close>

definition ok :: "'a option \<Rightarrow> ('a \<Rightarrow> bool) \<Rightarrow> bool" where
  "ok m Q \<longleftrightarrow> (\<exists>x. m = Some x \<and> Q x)"

lemma ok_Some [simp]: "ok (Some x) Q = Q x"
  by (simp add: ok_def)

lemma ok_None [simp]: "ok None Q = False"
  by (simp add: ok_def)

lemma ok_bind [simp]: "ok (Option.bind m f) Q = ok m (\<lambda>x. ok (f x) Q)"
  by (cases m) simp_all

lemma ok_if [simp]: "ok (if b then m else m') Q = (if b then ok m Q else ok m' Q)"
  by simp

lemma ok_case_prod [simp]: "ok (case p of (a, b) \<Rightarrow> f a b) Q = (case p of (a, b) \<Rightarrow> ok (f a b) Q)"
  by (cases p) simp

lemma ok_case_option [simp]:
  "ok (case x of None \<Rightarrow> m | Some y \<Rightarrow> f y) Q = (case x of None \<Rightarrow> ok m Q | Some y \<Rightarrow> ok (f y) Q)"
  by (cases x) simp_all

lemma ok_case_sum [simp]:
  "ok (case x of Inl a \<Rightarrow> f a | Inr b \<Rightarrow> g b) Q = (case x of Inl a \<Rightarrow> ok (f a) Q | Inr b \<Rightarrow> ok (g b) Q)"
  by (cases x) simp_all

lemma ok_mono: "ok m P \<Longrightarrow> (\<And>x. P x \<Longrightarrow> Q x) \<Longrightarrow> ok m Q"
  by (auto simp: ok_def)

lemma ok_conj: "ok m P \<Longrightarrow> ok m Q \<Longrightarrow> ok m (\<lambda>x. P x \<and> Q x)"
  by (auto simp: ok_def)

lemma ok_ex: "ok m Q \<Longrightarrow> \<exists>x. m = Some x \<and> Q x"
  by (simp add: ok_def)

lemma ok_the: "ok m Q \<Longrightarrow> m = Some x \<Longrightarrow> Q x"
  by (simp add: ok_def)

section \<open>Checked vector access\<close>

definition inb :: "'a list \<Rightarrow> int \<Rightarrow> bool" where
  "inb xs i \<longleftrightarrow> 0 \<le> i \<and> i < int (length xs)"

definition vget :: "'a list \<Rightarrow> int \<Rightarrow> 'a option" where
  "vget xs i = (if 0 \<le> i \<and> i < int (length xs) then Some (xs ! nat i) else None)"

definition vset :: "'a list \<Rightarrow> int \<Rightarrow> 'a \<Rightarrow> 'a list option" where
  "vset xs i x = (if 0 \<le> i \<and> i < int (length xs) then Some (xs[nat i := x]) else None)"

lemma ok_vget [simp]: "ok (vget xs i) Q \<longleftrightarrow> 0 \<le> i \<and> i < int (length xs) \<and> Q (xs ! nat i)"
  by (auto simp: vget_def)

lemma ok_vset [simp]:
  "ok (vset xs i x) Q \<longleftrightarrow> 0 \<le> i \<and> i < int (length xs) \<and> Q (xs[nat i := x])"
  by (auto simp: vset_def)

lemma vget_eq_Some: "vget xs i = Some x \<longleftrightarrow> 0 \<le> i \<and> i < int (length xs) \<and> x = xs ! nat i"
  by (auto simp: vget_def)

text \<open>\<open>xs !! i\<close> with an integer index, for specifications only (always inside the bounds).\<close>

definition elt :: "'a list \<Rightarrow> int \<Rightarrow> 'a" where
  "elt xs i = xs ! nat i"

lemma at_update:
  "0 \<le> i \<Longrightarrow> 0 \<le> j \<Longrightarrow> j < int (length xs) \<Longrightarrow>
   elt (xs[nat j := x]) i = (if i = j then x else elt xs i)"
  by (auto simp: elt_def nth_list_update)

lemma elt_replicate: "0 \<le> i \<Longrightarrow> i < int n \<Longrightarrow> elt (replicate n x) i = x"
  by (simp add: elt_def nat_less_iff)

lemma elt_in_set: "0 \<le> i \<Longrightarrow> i < int (length xs) \<Longrightarrow> elt xs i \<in> set xs"
  by (simp add: elt_def nat_less_iff)

lemma in_set_elt: "x \<in> set xs \<longleftrightarrow> (\<exists>i. 0 \<le> i \<and> i < int (length xs) \<and> elt xs i = x)"
proof
  assume "x \<in> set xs"
  then obtain k where "k < length xs" "xs ! k = x" by (auto simp: in_set_conv_nth)
  then show "\<exists>i. 0 \<le> i \<and> i < int (length xs) \<and> elt xs i = x" by (intro exI [of _ "int k"]) (simp add: elt_def)
qed (auto intro: elt_in_set)

lemma elt_snoc: "0 \<le> i \<Longrightarrow> i \<le> int (length xs) \<Longrightarrow> elt (xs @ [x]) i = (if i < int (length xs) then elt xs i else x)"
  by (auto simp: elt_def nth_append nat_less_iff)

section \<open>Loops\<close>

fun forM :: "'i list \<Rightarrow> ('i \<Rightarrow> 's \<Rightarrow> 's option) \<Rightarrow> 's \<Rightarrow> 's option" where
  "forM [] f s = Some s"
| "forM (x # xs) f s = Option.bind (f x s) (forM xs f)"

definition for_range :: "int \<Rightarrow> int \<Rightarrow> (int \<Rightarrow> 's \<Rightarrow> 's option) \<Rightarrow> 's \<Rightarrow> 's option" where
  "for_range lo hi f s = forM [lo..hi - 1] f s"

fun forM_brk :: "'i list \<Rightarrow> ('i \<Rightarrow> 's \<Rightarrow> ('r + 's) option) \<Rightarrow> 's \<Rightarrow> ('r + 's) option" where
  "forM_brk [] f s = Some (Inr s)"
| "forM_brk (x # xs) f s =
     Option.bind (f x s) (\<lambda>r. case r of Inl a \<Rightarrow> Some (Inl a) | Inr s' \<Rightarrow> forM_brk xs f s')"

definition for_brk :: "int \<Rightarrow> int \<Rightarrow> (int \<Rightarrow> 's \<Rightarrow> ('r + 's) option) \<Rightarrow> 's \<Rightarrow> ('r + 's) option" where
  "for_brk lo hi f s = forM_brk [lo..hi - 1] f s"

partial_function (option) loop :: "('s \<Rightarrow> ('r + 's) option) \<Rightarrow> 's \<Rightarrow> 'r option" where
  "loop f s = Option.bind (f s) (\<lambda>x. case x of Inl r \<Rightarrow> Some r | Inr s' \<Rightarrow> loop f s')"

declare loop.simps [code]

lemma forM_ok:
  assumes "I [] xs s"
    and "\<And>pre x suf s. xs = pre @ x # suf \<Longrightarrow> I pre (x # suf) s \<Longrightarrow> ok (f x s) (I (pre @ [x]) suf)"
    and "\<And>s. I xs [] s \<Longrightarrow> Q s"
  shows "ok (forM xs f s) Q"
proof -
  have "ok (forM ys f s) Q" if "xs = pre @ ys" "I pre ys s" for pre ys s
    using that
  proof (induction ys arbitrary: pre s)
    case Nil
    then show ?case using assms(3) by simp
  next
    case (Cons y ys)
    from assms(2)[OF Cons.prems] show ?case
      by (auto simp: ok_def dest!: Cons.IH[rotated] intro: Cons.IH simp: Cons.prems(1))
  qed
  from this[of "[]" xs s] assms(1) show ?thesis by simp
qed

lemma for_range_ok [vcg]:
  assumes "I lo s"
    and "\<And>j s. lo \<le> j \<Longrightarrow> j < hi \<Longrightarrow> I j s \<Longrightarrow> ok (f j s) (I (j + 1))"
    and "\<And>s. I (max lo hi) s \<Longrightarrow> Q s"
  shows "ok (for_range lo hi f s) Q"
proof -
  have "ok (forM [j..hi - 1] f s) Q" if "lo \<le> j" "j \<le> max lo hi" "I j s" for j s
    using that
  proof (induction "nat (hi - j)" arbitrary: j s)
    case 0
    then have "[j..hi - 1] = []" "j = max lo hi" by auto
    with 0 assms(3) show ?case by simp
  next
    case (Suc k)
    then have j: "j < hi" by simp
    then have "[j..hi - 1] = j # [j + 1..hi - 1]"
      by (simp add: upto_rec1)
    moreover have "ok (f j s) (\<lambda>s'. ok (forM [j + 1..hi - 1] f s') Q)"
      using assms(2)[OF Suc.prems(1) j Suc.prems(3)]
      by (rule ok_mono) (use Suc j in auto)
    ultimately show ?case by simp
  qed
  from this[of lo s] assms(1) show ?thesis by (simp add: for_range_def)
qed

lemma for_brk_ok [vcg]:
  assumes "I lo s"
    and "\<And>j s. lo \<le> j \<Longrightarrow> j < hi \<Longrightarrow> I j s \<Longrightarrow>
           ok (f j s) (\<lambda>r. case r of Inl a \<Rightarrow> Q (Inl a) | Inr s' \<Rightarrow> I (j + 1) s')"
    and "\<And>s. I (max lo hi) s \<Longrightarrow> Q (Inr s)"
  shows "ok (for_brk lo hi f s) Q"
proof -
  have "ok (forM_brk [j..hi - 1] f s) Q" if "lo \<le> j" "j \<le> max lo hi" "I j s" for j s
    using that
  proof (induction "nat (hi - j)" arbitrary: j s)
    case 0
    then have "[j..hi - 1] = []" "j = max lo hi" by auto
    with 0 assms(3) show ?case by simp
  next
    case (Suc k)
    then have j: "j < hi" by simp
    then have "[j..hi - 1] = j # [j + 1..hi - 1]"
      by (simp add: upto_rec1)
    moreover have "ok (f j s) (\<lambda>r. case r of Inl a \<Rightarrow> Q (Inl a) | Inr s' \<Rightarrow> ok (forM_brk [j + 1..hi - 1] f s') Q)"
      using assms(2)[OF Suc.prems(1) j Suc.prems(3)]
      by (rule ok_mono) (use Suc j in \<open>auto split: sum.splits\<close>)
    ultimately show ?case by (simp cong: sum.case_cong)
  qed
  from this[of lo s] assms(1) show ?thesis by (simp add: for_brk_def)
qed

lemma loop_ok [vcg]:
  fixes m :: "'s \<Rightarrow> nat"
  assumes "I s"
    and "\<And>s. I s \<Longrightarrow> ok (f s) (\<lambda>x. case x of Inl r \<Rightarrow> Q r | Inr s' \<Rightarrow> I s' \<and> m s' < m s)"
  shows "ok (loop f s) Q"
  using assms(1)
proof (induction "m s" arbitrary: s rule: less_induct)
  case less
  have "ok (f s) (\<lambda>x. ok (case x of Inl r \<Rightarrow> Some r | Inr s' \<Rightarrow> loop f s') Q)"
    using assms(2)[OF less.prems]
    by (rule ok_mono) (auto split: sum.splits intro: less.hyps)
  then show ?case by (subst loop.simps) simp
qed

text \<open>A loop without an iteration, and one more iteration at either end.\<close>

lemma for_range_empty [simp]: "hi \<le> lo \<Longrightarrow> for_range lo hi f s = Some s"
  by (simp add: for_range_def)

lemma for_range_step:
  "lo < hi \<Longrightarrow> for_range lo hi f s = Option.bind (f lo s) (for_range (lo + 1) hi f)"
  by (simp add: for_range_def[abs_def] upto_rec1)

lemma forM_append: "forM (xs @ ys) f s = Option.bind (forM xs f s) (forM ys f)"
proof (induction xs arbitrary: s)
  case (Cons x xs)
  then show ?case by (cases "f x s") simp_all
qed simp

text \<open>A loop that only searches: it leaves with \<open>e\<close> at the first bad index.\<close>

lemma forM_brk_search:
  assumes "\<And>x. x \<in> set xs \<Longrightarrow> f x s = Some (if bad x then Inl e else Inr s)"
  shows "forM_brk xs f s = Some (if \<exists>x \<in> set xs. bad x then Inl e else Inr s)"
  using assms by (induction xs) auto

lemma for_brk_search:
  assumes "\<And>j. lo \<le> j \<Longrightarrow> j < hi \<Longrightarrow> f j s = Some (if bad j then Inl e else Inr s)"
  shows "for_brk lo hi f s = Some (if \<exists>j. lo \<le> j \<and> j < hi \<and> bad j then Inl e else Inr s)"
proof -
  have "for_brk lo hi f s = Some (if \<exists>j \<in> set [lo..hi - 1]. bad j then Inl e else Inr s)"
    unfolding for_brk_def by (rule forM_brk_search) (use assms in auto)
  also have "(\<exists>j \<in> set [lo..hi - 1]. bad j) \<longleftrightarrow> (\<exists>j. lo \<le> j \<and> j < hi \<and> bad j)"
    by auto
  finally show ?thesis .
qed

text \<open>A loop whose body is always defined is a fold.\<close>

lemma forM_fold:
  assumes "\<And>x s. x \<in> set xs \<Longrightarrow> f x s = Some (g x s)"
  shows "forM xs f s = Some (fold g xs s)"
  using assms by (induction xs arbitrary: s) auto

lemma vget_at: "0 \<le> i \<Longrightarrow> i < int (length xs) \<Longrightarrow> vget xs i = Some (elt xs i)"
  by (simp add: vget_def elt_def)

lemma all_below_Suc:
  fixes j :: int
  assumes "lo \<le> j"
  shows "(\<forall>i. lo \<le> i \<and> i < j + 1 \<longrightarrow> P i) \<longleftrightarrow> (\<forall>i. lo \<le> i \<and> i < j \<longrightarrow> P i) \<and> P j"
    "(\<forall>i. lo \<le> i \<and> i \<le> j \<longrightarrow> P i) \<longleftrightarrow> (\<forall>i. lo \<le> i \<and> i < j \<longrightarrow> P i) \<and> P j"
  using assms by (metis order_less_le order_refl zle_add1_eq_le)+

text \<open>A loop that skips some indices, one that agrees with another on its indices, and one that
  collects.\<close>

lemma forM_skip:
  "forM xs (\<lambda>x s. if P x then Some s else f x s) = forM (filter (\<lambda>x. \<not> P x) xs) f"
proof (induction xs)
  case (Cons x xs)
  then show ?case by (intro ext) simp
qed (intro ext, simp)

lemma forM_cong:
  "(\<And>x s. x \<in> set xs \<Longrightarrow> f x s = g x s) \<Longrightarrow> forM xs f s = forM xs g s"
proof (induction xs arbitrary: s)
  case (Cons x xs)
  then show ?case by (cases "g x s") simp_all
qed simp

lemma for_range_collect:
  assumes "\<And>k acc. lo \<le> k \<Longrightarrow> k < hi \<Longrightarrow> g k acc = Some (acc @ [h k])"
  shows "for_range lo hi g acc = Some (acc @ map h [lo..hi - 1])"
proof -
  have "forM [lo..hi - 1] g acc = Some (fold (\<lambda>k acc. acc @ [h k]) [lo..hi - 1] acc)"
    by (rule forM_fold) (use assms in simp)
  moreover have "fold (\<lambda>k acc. acc @ [h k]) ks acc = acc @ map h ks" for ks
    by (induction ks arbitrary: acc) simp_all
  ultimately show ?thesis by (simp add: for_range_def)
qed

lemma forM_concat: "forM (concat (map g xs)) f = forM xs (\<lambda>x. forM (g x) f)"
proof (induction xs)
  case (Cons x xs)
  then show ?case by (intro ext) (simp add: forM_append)
qed (intro ext, simp)

lemma forM_map: "forM (map g xs) f = forM xs (\<lambda>x. f (g x))"
proof (induction xs)
  case (Cons x xs)
  then show ?case by (intro ext) simp
qed (intro ext, simp)

lemma forM_single [simp]: "forM [x] f = f x"
proof (intro ext)
  fix s show "forM [x] f s = f x s" by (cases "f x s") simp_all
qed

text \<open>Bounded quantifiers over integers in an executable form.\<close>

lemma all_int_set: "(\<forall>k. lo \<le> k \<and> k < hi \<longrightarrow> P k) \<longleftrightarrow> (\<forall>k \<in> set [lo..hi - 1]. P k)" for lo :: int
  by auto

end
