(* ===== verification/SmfTypes.thy ===== *)
theory SmfTypes
  imports Prelude "HOL-Library.Word"
begin

unbundle bit_operations_syntax

text \<open>
  The scalar types and enumerations of \<open>solver/include/smf/types.hpp\<close> and \<open>error.hpp\<close>.

  \<open>Int\<close> (\<open>int32_t\<close>) is \<open>int\<close>: the components index vectors with it, and every index is checked
  against its vector. Where a signed operation could leave the 32-bit range (undefined behaviour in
  C++) the model uses \<open>iadd32\<close>, which is \<open>None\<close> there. \<open>LongInt\<close> (\<open>int64_t\<close>) is a
  64-bit word in the checked arithmetic, whose point is the overflow.
\<close>

section \<open>Machine integers\<close>

definition in_int32 :: "int \<Rightarrow> bool" where
  "in_int32 x \<longleftrightarrow> - (2 ^ 31) \<le> x \<and> x < 2 ^ 31"

definition iadd32 :: "int \<Rightarrow> int \<Rightarrow> int option" where
  "iadd32 a b = (if in_int32 (a + b) then Some (a + b) else None)"

text \<open>\<open>static_cast<Int>\<close> of a \<open>std::size_t\<close>: modulo \<open>2 ^ 32\<close>, into the signed range.\<close>

definition narrow32 :: "int \<Rightarrow> int" where
  "narrow32 x = (x + 2 ^ 31) mod 2 ^ 32 - 2 ^ 31"

lemma narrow32_id: "in_int32 x \<Longrightarrow> narrow32 x = x"
  by (simp add: in_int32_def narrow32_def)

lemma narrow32_small [simp]: "0 \<le> x \<Longrightarrow> x < 2 ^ 31 \<Longrightarrow> narrow32 x = x"
  by (simp add: narrow32_def)

text \<open>\<open>static_cast<std::size_t>\<close> of a signed integer: modulo \<open>2 ^ 64\<close>.\<close>

definition size_t :: "int \<Rightarrow> nat" where
  "size_t x = nat (x mod 2 ^ 64)"

lemma size_t_nonneg: "0 \<le> x \<Longrightarrow> x < 2 ^ 64 \<Longrightarrow> size_t x = nat x"
  by (simp add: size_t_def)

lemma size_t_neg: "- (2 ^ 63) \<le> x \<Longrightarrow> x < 0 \<Longrightarrow> 2 ^ 63 \<le> size_t x"
proof -
  assume x: "- (2 ^ 63) \<le> x" "x < 0"
  have "x mod 2 ^ 64 = (x + 2 ^ 64) mod 2 ^ 64" by simp
  also have "\<dots> = x + 2 ^ 64" by (rule mod_pos_pos_trivial) (use x in simp_all)
  finally show ?thesis using x by (simp add: size_t_def)
qed

lemma ok_iadd32 [simp]: "ok (iadd32 a b) Q \<longleftrightarrow> in_int32 (a + b) \<and> Q (a + b)"
  by (simp add: iadd32_def)

section \<open>Enumerations\<close>

datatype error_code =
  Success | NotInitialised | AllocationError | IllegalValue | SingularMatrix
  | NotPositiveDefinite | MaxIterations | OrderingFailed | FeatureNotAvailable
  | InertiaExceeded | WorkLimitExceeded | InternalError

datatype matrix_type = RealSymmetricPositiveDefinite | RealSymmetricIndefinite

datatype ordering_method = AutoSerial | AutoParallel | AMD | METIS | UserSupplied | Matching

datatype amalgamation = Smf | SmfPlusCholmod | CostModel

datatype factor_status =
  FactorSuccess | FactorNotPositiveDefinite | FactorSingular | MaxPivotDelays | FactorInertiaExceeded

datatype matching_trigger = Predicted | RealizedDelays

datatype matching_trial = TrialNone | Exact | RejectedInitial | ResumedExact | Diagonal

datatype matching_algorithm = ShortestPath | Hybrid

datatype refine_method = Classical | Fgmres | RefineAuto

datatype front_kernel = Tpp | Aptp | KernelAuto

datatype posdef_front_kernel = Ldlt | Lapack

datatype scaling_method = ScaleNone | Equilibration | MatchingScaling | UserScaling | ScaleAuto

datatype slack_elimination = SlackOff | SlackAuto | SlackOn

datatype solve_job = Full | Forward | DiagOnly | Backward | DiagBack

datatype pivoting = Threshold | Static

text \<open>\<open>parse_pivoting\<close>: \<open>None\<close> is the null pointer; the result is the new value of \<open>out\<close>
  with the returned flag.\<close>

definition parse_pivoting :: "string option \<Rightarrow> pivoting \<Rightarrow> bool \<times> pivoting" where
  "parse_pivoting s out =
     (case s of None \<Rightarrow> (False, out)
      | Some v \<Rightarrow>
          if v = ''threshold'' then (True, Threshold)
          else if v = ''static'' then (True, Static)
          else (False, out))"

section \<open>Checked 64-bit arithmetic\<close>

type_synonym i64 = "64 word"

definition i64_max :: i64 where
  "i64_max = 0x7FFFFFFFFFFFFFFF"

definition kMaxFactorStorageEntries :: i64 where
  "kMaxFactorStorageEntries = push_bit 29 1"

definition checked_add_i64 :: "i64 \<Rightarrow> i64 \<Rightarrow> i64 option" where
  "checked_add_i64 a b =
     (if a <s 0 \<or> b <s 0 then None
      else if i64_max - b <s a then None
      else Some (a + b))"

text \<open>Both operands are positive at the division, where the signed and the unsigned quotient agree.\<close>

definition checked_mul_i64 :: "i64 \<Rightarrow> i64 \<Rightarrow> i64 option" where
  "checked_mul_i64 a b =
     (if a <s 0 \<or> b <s 0 then None
      else if a = 0 \<or> b = 0 then Some 0
      else if i64_max div b <s a then None
      else Some (a * b))"

definition checked_storage_elements :: "i64 \<Rightarrow> i64 \<Rightarrow> i64 \<Rightarrow> i64 option \<times> bool" where
  "checked_storage_elements rows cols max_entries =
     (case checked_mul_i64 rows cols of
        None \<Rightarrow> (None, False)
      | Some out \<Rightarrow> (Some out, out \<le>s max_entries))"

definition is_finite_bits :: "i64 \<Rightarrow> bool" where
  "is_finite_bits bits \<longleftrightarrow> (bits AND 0x7FF0000000000000) \<noteq> 0x7FF0000000000000"

lemma sint_i64_max [simp]: "sint i64_max = 2 ^ 63 - 1"
  by (simp add: i64_max_def)

lemma mod_small_int:
  "0 \<le> x \<Longrightarrow> x < 2 ^ 63 \<Longrightarrow> (2 ^ 63 - 1 - x) mod 2 ^ 64 = 2 ^ 63 - 1 - (x :: int)"
  "0 \<le> x \<Longrightarrow> x < 2 ^ 63 \<Longrightarrow> (x + 2 ^ 63) mod 2 ^ 64 = x + 2 ^ 63"
  "\<not> x < 2 ^ 63 \<Longrightarrow> x < 2 ^ 64 \<Longrightarrow> (x - 2 ^ 63) mod 2 ^ 64 = x - 2 ^ 63"
  by simp_all

lemma int_div_less_iff:
  assumes "0 < b"
  shows "m div b < a \<longleftrightarrow> m < a * (b :: int)"
proof
  assume "m div b < a"
  then have "(m div b + 1) * b \<le> a * b" using assms by (intro mult_right_mono) auto
  moreover have "m < (m div b + 1) * b"
    using div_mult_mod_eq [of m b] pos_mod_bound [OF assms, of m]
    by (simp only: distrib_right)
  ultimately show "m < a * b" by linarith
next
  assume m: "m < a * b"
  show "m div b < a"
  proof (rule ccontr)
    assume "\<not> m div b < a"
    then have "a * b \<le> (m div b) * b" using assms by (intro mult_right_mono) auto
    also have "\<dots> \<le> m"
      using div_mult_mod_eq [of m b] pos_mod_sign [OF assms, of m] by linarith
    finally show False using m by simp
  qed
qed

lemma sint_i64_eq: "sint (a :: i64) = (if uint a < 2 ^ 63 then uint a else uint a - 2 ^ 64)"
proof -
  have eq: "sint a = (uint a + 2 ^ 63) mod 2 ^ 64 - 2 ^ 63"
    by (simp add: sint_uint signed_take_bit_eq_take_bit_shift take_bit_eq_mod)
  have b: "0 \<le> uint a" "uint a < 2 ^ 64"
    using uint_lt2p [of a] by simp_all
  show ?thesis
  proof (cases "uint a < 2 ^ 63")
    case True
    with b(1) have "(uint a + 2 ^ 63) mod 2 ^ 64 = uint a + 2 ^ 63"
      by (rule mod_small_int(2))
    with eq True show ?thesis by simp
  next
    case False
    have "(uint a + 2 ^ 63) mod 2 ^ 64 = ((uint a - 2 ^ 63) + 2 ^ 64) mod 2 ^ 64"
      by (simp add: algebra_simps)
    also have "\<dots> = (uint a - 2 ^ 63) mod 2 ^ 64"
      by (rule mod_add_self2)
    also have "\<dots> = uint a - 2 ^ 63"
      by (rule mod_small_int(3) [OF False b(2)])
    finally show ?thesis using eq False by simp
  qed
qed

lemma uint_i64_bounds: "0 \<le> uint (a :: i64)" "uint a < 2 ^ 64"
  using uint_lt2p [of a] by simp_all

lemma sint_nonneg_uint: "0 \<le> sint a \<Longrightarrow> sint (a :: i64) = uint a \<and> uint a < 2 ^ 63"
  using uint_i64_bounds [of a] by (simp add: sint_i64_eq split: if_splits)

lemma sint_diff_max: "0 \<le> sint b \<Longrightarrow> sint (i64_max - b) = 2 ^ 63 - 1 - sint (b :: i64)"
proof -
  assume "0 \<le> sint b"
  then have b: "sint b = uint b" "uint b < 2 ^ 63" using sint_nonneg_uint [of b] by auto
  have "uint (i64_max - b) = (2 ^ 63 - 1 - uint b) mod 2 ^ 64"
    by (simp add: uint_word_ariths i64_max_def)
  also have "\<dots> = 2 ^ 63 - 1 - uint b"
    by (rule mod_small_int(1) [OF uint_i64_bounds(1) b(2)])
  finally have eq: "uint (i64_max - b) = 2 ^ 63 - 1 - uint b" .
  then have "uint (i64_max - b) < 2 ^ 63"
    using uint_i64_bounds(1) [of b] by linarith
  with eq b(1) show ?thesis by (simp only: sint_i64_eq [of "i64_max - b"] if_True)
qed

lemma sint_add_exact:
  "0 \<le> sint a \<Longrightarrow> 0 \<le> sint b \<Longrightarrow> sint a + sint b < 2 ^ 63 \<Longrightarrow>
   sint (a + b :: i64) = sint a + sint b"
  using uint_i64_bounds [of a] uint_i64_bounds [of b]
  by (auto simp: sint_nonneg_uint sint_i64_eq [of "a + b"] uint_word_ariths)

lemma sint_mult_exact:
  "0 \<le> sint a \<Longrightarrow> 0 \<le> sint b \<Longrightarrow> sint a * sint b < 2 ^ 63 \<Longrightarrow>
   sint (a * b :: i64) = sint a * sint b"
  using uint_i64_bounds [of a] uint_i64_bounds [of b]
  by (auto simp: sint_nonneg_uint sint_i64_eq [of "a * b"] uint_word_ariths)

lemma sint_div_max:
  assumes "0 < sint b"
  shows "sint (i64_max div b) = (2 ^ 63 - 1) div sint (b :: i64)"
proof -
  have b: "sint b = uint b" using assms by (simp add: sint_nonneg_uint)
  have "uint (i64_max div b) = (2 ^ 63 - 1) div uint b"
    by (simp add: uint_div_distrib i64_max_def)
  moreover have "(2 ^ 63 - 1) div uint b < 2 ^ 63"
    using zdiv_mono2 [of "2 ^ 63 - 1" 1 "uint b"] assms b by simp
  ultimately show ?thesis using b by (simp add: sint_i64_eq)
qed

lemma word_of_int_sint_ops:
  "word_of_int (sint a + sint b) = (a + b :: i64)"
  "word_of_int (sint a * sint b) = (a * b :: i64)"
  by (simp_all add: wi_hom_syms)

text \<open>\<open>checked_add_i64\<close> and \<open>checked_mul_i64\<close> succeed exactly when both operands are
  nonnegative and the mathematical result fits in an \<open>int64_t\<close>, and then store it: no accepted
  operation wraps around, and none that fits is refused.\<close>

theorem checked_arith_exact:
  "checked_add_i64 a b =
     (if 0 \<le> sint a \<and> 0 \<le> sint b \<and> sint a + sint b < 2 ^ 63
      then Some (word_of_int (sint a + sint b)) else None)
   \<and> checked_mul_i64 a b =
     (if 0 \<le> sint a \<and> 0 \<le> sint b \<and> sint a * sint b < 2 ^ 63
      then Some (word_of_int (sint a * sint b)) else None)"
proof
  show "checked_add_i64 a b =
     (if 0 \<le> sint a \<and> 0 \<le> sint b \<and> sint a + sint b < 2 ^ 63
      then Some (word_of_int (sint a + sint b)) else None)"
    by (auto simp: checked_add_i64_def word_sless_alt sint_diff_max not_less word_of_int_sint_ops)
  have pos: "a \<noteq> 0 \<Longrightarrow> 0 \<le> sint a \<Longrightarrow> 0 < sint a" for a :: i64
    by (metis order_le_less signed_eq_0_iff)
  show "checked_mul_i64 a b =
     (if 0 \<le> sint a \<and> 0 \<le> sint b \<and> sint a * sint b < 2 ^ 63
      then Some (word_of_int (sint a * sint b)) else None)"
  proof (cases "0 \<le> sint a \<and> 0 \<le> sint b \<and> a \<noteq> 0 \<and> b \<noteq> 0")
    case True
    then have p: "0 < sint a" "0 < sint b" using pos by auto
    have "(2 ^ 63 - 1) div sint b < sint a \<longleftrightarrow> 2 ^ 63 - 1 < sint a * sint b"
      by (rule int_div_less_iff [OF p(2)])
    then show ?thesis
      using True p by (auto simp: checked_mul_i64_def word_sless_alt sint_div_max word_of_int_sint_ops)
  next
    case False
    then show ?thesis by (auto simp: checked_mul_i64_def word_sless_alt word_of_int_sint_ops)
  qed
qed

end
