(* ===== verification/Csc.thy ===== *)
theory Csc
  imports SmfTypes
begin

text \<open>
  Compressed sparse column storage of the lower triangle (\<open>csc_matrix.hpp/.cpp\<close>), with the
  abstraction the matrix builders share: a matrix is the list of its columns, each a list of
  (row, value) entries, and \<open>csc_of_cols\<close> lays the columns out as the builders do. Values are
  of any type with the operations used, so nothing here depends on how they round.
\<close>

record 'v csc =
  csc_n :: int
  col_ptr :: "int list"
  row_idx :: "int list"
  vals :: "'v list"

definition nnz :: "'v csc \<Rightarrow> int" where
  "nnz A = (if col_ptr A = [] then 0 else last (col_ptr A))"

section \<open>\<open>CscLower::validate_shape\<close>\<close>

text \<open>The read of \<open>col_ptr[0]\<close> is not guarded: with \<open>n = -1\<close> the size test compares with 0,
  and an empty \<open>col_ptr\<close> is read.\<close>

definition validate_monotone :: "'v csc \<Rightarrow> (error_code + unit) option" where
  "validate_monotone A =
     for_brk 0 (csc_n A) (\<lambda>j _. do {
       hi \<leftarrow> vget (col_ptr A) (j + 1);
       lo \<leftarrow> vget (col_ptr A) j;
       Some (if hi < lo then Inl IllegalValue else Inr ())
     }) ()"

definition validate_rows :: "'v csc \<Rightarrow> (error_code + unit) option" where
  "validate_rows A =
     for_brk 0 (csc_n A) (\<lambda>j _. do {
       lo \<leftarrow> vget (col_ptr A) j;
       hi \<leftarrow> vget (col_ptr A) (j + 1);
       for_brk lo hi (\<lambda>k _. do {
         row \<leftarrow> vget (row_idx A) k;
         Some (if row < j \<or> row \<ge> csc_n A then Inl IllegalValue else Inr ())
       }) ()
     }) ()"

definition validate_shape :: "'v csc \<Rightarrow> error_code option" where
  "validate_shape A = do {
     n1 \<leftarrow> iadd32 (csc_n A) 1;
     if length (col_ptr A) \<noteq> size_t n1 then Some IllegalValue
     else do {
       c0 \<leftarrow> vget (col_ptr A) 0;
       if c0 \<noteq> 0 then Some IllegalValue
       else do {
         mono \<leftarrow> validate_monotone A;
         case mono of Inl e \<Rightarrow> Some e
         | Inr _ \<Rightarrow> do {
             cn \<leftarrow> vget (col_ptr A) (csc_n A);
             let nnz_count = size_t cn;
             if length (row_idx A) \<noteq> nnz_count then Some IllegalValue
             else if length (vals A) \<noteq> nnz_count then Some IllegalValue
             else do {
               rows \<leftarrow> validate_rows A;
               case rows of Inl e \<Rightarrow> Some e | Inr _ \<Rightarrow> Some Success
             }
           }
       }
     }
   }"

section \<open>Well-formed matrices\<close>

definition csc_ptr_ok :: "'v csc \<Rightarrow> bool" where
  "csc_ptr_ok A \<longleftrightarrow>
     0 \<le> csc_n A \<and> int (length (col_ptr A)) = csc_n A + 1 \<and> elt (col_ptr A) 0 = 0
     \<and> (\<forall>j. 0 \<le> j \<and> j < csc_n A \<longrightarrow> elt (col_ptr A) j \<le> elt (col_ptr A) (j + 1))
     \<and> int (length (row_idx A)) = elt (col_ptr A) (csc_n A)
     \<and> int (length (vals A)) = elt (col_ptr A) (csc_n A)"

definition csc_rows_ok :: "'v csc \<Rightarrow> bool" where
  "csc_rows_ok A \<longleftrightarrow>
     (\<forall>j k. 0 \<le> j \<and> j < csc_n A \<and> elt (col_ptr A) j \<le> k \<and> k < elt (col_ptr A) (j + 1) \<longrightarrow>
        j \<le> elt (row_idx A) k \<and> elt (row_idx A) k < csc_n A)"

definition csc_sorted :: "'v csc \<Rightarrow> bool" where
  "csc_sorted A \<longleftrightarrow>
     (\<forall>j k. 0 \<le> j \<and> j < csc_n A \<and> elt (col_ptr A) j \<le> k \<and> k + 1 < elt (col_ptr A) (j + 1) \<longrightarrow>
        elt (row_idx A) k < elt (row_idx A) (k + 1))"

definition csc_valid :: "'v csc \<Rightarrow> bool" where
  "csc_valid A \<longleftrightarrow> csc_ptr_ok A \<and> csc_rows_ok A"

lemma csc_ptr_mono:
  assumes "csc_ptr_ok A" "0 \<le> i" "i \<le> j" "j \<le> csc_n A"
  shows "elt (col_ptr A) i \<le> elt (col_ptr A) j"
  using assms(3,4)
proof (induction "nat (j - i)" arbitrary: j)
  case 0
  then show ?case by simp
next
  case (Suc k)
  then have "elt (col_ptr A) i \<le> elt (col_ptr A) (j - 1)" by simp
  also have "\<dots> \<le> elt (col_ptr A) j"
    using assms(1,2) Suc.prems Suc.hyps(2)
    by (auto simp: csc_ptr_ok_def dest: spec [of _ "j - 1"])
  finally show ?case .
qed

lemma csc_ptr_bounds:
  assumes "csc_ptr_ok A" "0 \<le> j" "j \<le> csc_n A"
  shows "0 \<le> elt (col_ptr A) j" "elt (col_ptr A) j \<le> int (length (row_idx A))"
  using csc_ptr_mono [OF assms(1) _ assms(2,3)] csc_ptr_mono [OF assms order_refl] assms(1)
  by (simp_all add: csc_ptr_ok_def)

lemma csc_len_ptr: "csc_ptr_ok A \<Longrightarrow> int (length (col_ptr A)) = csc_n A + 1"
  by (simp add: csc_ptr_ok_def)

lemma csc_len_vals: "csc_ptr_ok A \<Longrightarrow> length (vals A) = length (row_idx A)"
  by (simp add: csc_ptr_ok_def)

lemma csc_slot_bounds:
  assumes "csc_ptr_ok A" "0 \<le> j" "j < csc_n A" "elt (col_ptr A) j \<le> k" "k < elt (col_ptr A) (j + 1)"
  shows "0 \<le> k" "k < int (length (row_idx A))" "k < int (length (vals A))"
  using csc_ptr_bounds [OF assms(1), of j] csc_ptr_bounds [OF assms(1), of "j + 1"] assms
  by (simp_all add: csc_len_vals)


section \<open>What \<open>validate_shape\<close> decides\<close>

definition csc_machine :: "'v csc \<Rightarrow> bool" where
  "csc_machine A \<longleftrightarrow>
     in_int32 (csc_n A) \<and> (\<forall>x \<in> set (col_ptr A). in_int32 x) \<and> int (length (col_ptr A)) < 2 ^ 63"

lemma validate_monotone_eq:
  assumes "0 \<le> csc_n A" "int (length (col_ptr A)) = csc_n A + 1"
  shows "validate_monotone A =
           Some (if \<exists>j. 0 \<le> j \<and> j < csc_n A \<and> elt (col_ptr A) (j + 1) < elt (col_ptr A) j
                 then Inl IllegalValue else Inr ())"
  unfolding validate_monotone_def
  by (rule for_brk_search) (use assms in \<open>simp add: vget_at\<close>)

lemma validate_rows_eq:
  assumes "csc_ptr_ok A"
  shows "validate_rows A = Some (if csc_rows_ok A then Inr () else Inl IllegalValue)"
proof -
  let ?bad = "\<lambda>j. \<exists>k. elt (col_ptr A) j \<le> k \<and> k < elt (col_ptr A) (j + 1) \<and>
                     (elt (row_idx A) k < j \<or> elt (row_idx A) k \<ge> csc_n A)"
  have "validate_rows A = Some (if \<exists>j. 0 \<le> j \<and> j < csc_n A \<and> ?bad j then Inl IllegalValue else Inr ())"
    unfolding validate_rows_def
  proof (rule for_brk_search)
    fix j assume j: "0 \<le> j" "j < csc_n A"
    have "for_brk (elt (col_ptr A) j) (elt (col_ptr A) (j + 1)) (\<lambda>k _. do {
         row \<leftarrow> vget (row_idx A) k;
         Some (if row < j \<or> row \<ge> csc_n A then Inl IllegalValue else Inr ())
       }) () = Some (if ?bad j then Inl IllegalValue else Inr ())"
      by (rule for_brk_search) (use csc_slot_bounds [OF assms j] in \<open>simp add: vget_at\<close>)
    then show "(do {
       lo \<leftarrow> vget (col_ptr A) j;
       hi \<leftarrow> vget (col_ptr A) (j + 1);
       for_brk lo hi (\<lambda>k _. do {
         row \<leftarrow> vget (row_idx A) k;
         Some (if row < j \<or> row \<ge> csc_n A then Inl IllegalValue else Inr ())
       }) ()
     }) = Some (if ?bad j then Inl IllegalValue else Inr ())"
      using j csc_len_ptr [OF assms] by (simp add: vget_at)
  qed
  moreover have "(\<exists>j. 0 \<le> j \<and> j < csc_n A \<and> ?bad j) \<longleftrightarrow> \<not> csc_rows_ok A"
    unfolding csc_rows_ok_def by (meson not_le)
  ultimately show ?thesis by simp
qed

lemma validate_shape_neg:
  assumes "csc_machine A" "csc_n A < 0"
  shows "validate_shape A = (if csc_n A = -1 \<and> col_ptr A = [] then None else Some IllegalValue)"
proof -
  have add: "iadd32 (csc_n A) 1 = Some (csc_n A + 1)"
    using assms by (simp add: iadd32_def csc_machine_def in_int32_def)
  show ?thesis
  proof (cases "csc_n A = -1")
    case True
    then show ?thesis using add by (auto simp: validate_shape_def size_t_def vget_def)
  next
    case False
    with assms have "2 ^ 63 \<le> size_t (csc_n A + 1)"
      by (intro size_t_neg) (auto simp: csc_machine_def in_int32_def)
    then have "length (col_ptr A) \<noteq> size_t (csc_n A + 1)"
      using assms by (auto simp: csc_machine_def)
    then show ?thesis using False add by (simp add: validate_shape_def)
  qed
qed

definition ptr_monotone :: "'v csc \<Rightarrow> bool" where
  "ptr_monotone A \<longleftrightarrow> (\<forall>j. 0 \<le> j \<and> j < csc_n A \<longrightarrow> elt (col_ptr A) j \<le> elt (col_ptr A) (j + 1))"

lemma ptr_monotone_nonneg:
  assumes "ptr_monotone A" "elt (col_ptr A) 0 = 0" "0 \<le> csc_n A"
  shows "0 \<le> elt (col_ptr A) (csc_n A)"
proof -
  have "0 \<le> elt (col_ptr A) (int k)" if "int k \<le> csc_n A" for k
    using that
  proof (induction k)
    case (Suc k)
    then have "elt (col_ptr A) (int k) \<le> elt (col_ptr A) (int k + 1)"
      using assms(1) by (simp add: ptr_monotone_def)
    with Suc show ?case by (simp add: add.commute)
  qed (use assms(2) in simp)
  from this [of "nat (csc_n A)"] assms(3) show ?thesis by simp
qed

lemma validate_shape_sized:
  assumes "csc_machine A" "0 \<le> csc_n A" "csc_n A < 2 ^ 31 - 1" "int (length (col_ptr A)) = csc_n A + 1"
  shows "validate_shape A = Some (if csc_valid A then Success else IllegalValue)"
proof -
  have add: "iadd32 (csc_n A) 1 = Some (csc_n A + 1)" and sz: "size_t (csc_n A + 1) = nat (csc_n A + 1)"
    using assms by (simp_all add: iadd32_def in_int32_def size_t_nonneg)
  have lenn: "length (col_ptr A) = nat (csc_n A + 1)" using assms(4) by (metis nat_int)
  have get: "vget (col_ptr A) 0 = Some (elt (col_ptr A) 0)"
    "vget (col_ptr A) (csc_n A) = Some (elt (col_ptr A) (csc_n A))"
    using assms by (simp_all add: vget_at)
  have "elt (col_ptr A) (csc_n A) \<in> set (col_ptr A)" using assms(2,4) by (simp add: elt_def)
  then have cn: "elt (col_ptr A) (csc_n A) < 2 ^ 64"
    using assms(1) by (fastforce simp: csc_machine_def in_int32_def)
  have m: "validate_monotone A = Some (if ptr_monotone A then Inr () else Inl IllegalValue)"
    using validate_monotone_eq [OF assms(2,4)] unfolding ptr_monotone_def by (auto simp: not_le)
  show ?thesis
  proof (cases "csc_ptr_ok A")
    case True
    then have "size_t (elt (col_ptr A) (csc_n A)) = length (row_idx A)"
      "size_t (elt (col_ptr A) (csc_n A)) = length (vals A)"
      using cn by (metis csc_ptr_ok_def size_t_nonneg nat_int of_nat_0_le_iff)+
    moreover have "ptr_monotone A" using True by (simp add: csc_ptr_ok_def ptr_monotone_def)
    ultimately show ?thesis
      using True by (simp add: validate_shape_def add sz lenn get m validate_rows_eq csc_valid_def csc_ptr_ok_def)
  next
    case False
    have "size_t (elt (col_ptr A) (csc_n A)) = nat (elt (col_ptr A) (csc_n A))"
      if "elt (col_ptr A) 0 = 0" "ptr_monotone A"
      using ptr_monotone_nonneg [OF that(2,1) assms(2)] cn by (simp add: size_t_nonneg)
    then show ?thesis
      using assms False ptr_monotone_nonneg [of A]
      by (auto simp: validate_shape_def add sz lenn get m Let_def nat_eq_iff2 csc_valid_def csc_ptr_ok_def
          ptr_monotone_def [symmetric])
  qed
qed

lemma validate_shape_eq:
  assumes "csc_machine A"
  shows "validate_shape A =
           (if csc_n A = 2 ^ 31 - 1 \<or> (csc_n A = -1 \<and> col_ptr A = []) then None
            else Some (if csc_valid A then Success else IllegalValue))"
proof -
  consider "csc_n A = 2 ^ 31 - 1" | "csc_n A < 0" | "0 \<le> csc_n A" "csc_n A < 2 ^ 31 - 1"
    using assms by (fastforce simp: csc_machine_def in_int32_def)
  then show ?thesis
  proof cases
    case 1
    then show ?thesis by (simp add: validate_shape_def iadd32_def in_int32_def)
  next
    case 2
    then show ?thesis using validate_shape_neg [OF assms] by (auto simp: csc_valid_def csc_ptr_ok_def)
  next
    case 3
    show ?thesis
    proof (cases "int (length (col_ptr A)) = csc_n A + 1")
      case True
      then show ?thesis using validate_shape_sized [OF assms 3] 3 by auto
    next
      case False
      then have "length (col_ptr A) \<noteq> size_t (csc_n A + 1)" "\<not> csc_valid A"
        using 3 by (auto simp: csc_valid_def csc_ptr_ok_def size_t_nonneg)
      then show ?thesis using 3 by (simp add: validate_shape_def iadd32_def in_int32_def)
    qed
  qed
qed

text \<open>C39: for every machine-sized input, \<open>validate_shape\<close> reads inside its vectors and answers
  \<open>Success\<close> exactly for the valid lower triangles, except in two cases that are undefined:
  \<open>n\<close> the largest \<open>int32_t\<close> (\<open>n + 1\<close> overflows), and \<open>n = -1\<close> with an empty \<open>col_ptr\<close>, where the
  size test passes and \<open>col_ptr[0]\<close> is read out of bounds.\<close>

theorem validate_shape_correct:
  assumes "csc_machine A"
  shows "validate_shape A =
           (if csc_n A = 2 ^ 31 - 1 \<or> (csc_n A = -1 \<and> col_ptr A = []) then None
            else Some (if csc_valid A then Success else IllegalValue))"
  by (rule validate_shape_eq [OF assms])

theorem validate_shape_correct_witness:
  "csc_valid \<lparr>csc_n = 2, col_ptr = [0, 2, 3], row_idx = [0, 1, 1], vals = [4, 1, 3 :: int]\<rparr>
   \<and> validate_shape \<lparr>csc_n = -1, col_ptr = [], row_idx = [], vals = [] :: int list\<rparr> = None"
proof -
  let ?A = "\<lparr>csc_n = 2, col_ptr = [0, 2, 3], row_idx = [0, 1, 1], vals = [4, 1, 3 :: int]\<rparr>"
  let ?B = "\<lparr>csc_n = -1, col_ptr = [], row_idx = [], vals = [] :: int list\<rparr>"
  have "csc_machine ?A" "csc_machine ?B" by (simp_all add: csc_machine_def in_int32_def)
  moreover have "validate_shape ?A = Some Success" by code_simp
  ultimately show ?thesis
    using validate_shape_correct [of ?A] validate_shape_correct [of ?B] by (auto split: if_splits)
qed

end
