(* ===== verification/CscBuild.thy ===== *)
theory CscBuild
  imports Csc
begin

text \<open>
  Building a lower triangle column by column: the layout \<open>csc_of_cols\<close> that every builder
  produces, the sorted merge of duplicate rows, and the two builders that use them,
  \<open>clean_lower_csc\<close> (\<open>check_matrix.cpp\<close>) and \<open>coo_to_lower_csc\<close> (\<open>coo_to_csc.cpp\<close>).
  \<open>std::sort\<close> by row is \<open>sort_key\<close>: it leaves equal rows in input order, one of the orders
  \<open>std::sort\<close> may leave them in, and the sums below hold in any order.
\<close>

section \<open>Columns laid out one after another\<close>

definition csc_of_cols :: "(int \<times> 'v) list list \<Rightarrow> 'v csc" where
  "csc_of_cols cols =
     \<lparr>csc_n = int (length cols),
      col_ptr = map (\<lambda>k. int (length (concat (take k cols)))) [0..<Suc (length cols)],
      row_idx = map fst (concat cols),
      vals = map snd (concat cols)\<rparr>"

definition entry :: "'v::monoid_add csc \<Rightarrow> int \<Rightarrow> int \<Rightarrow> 'v" where
  "entry A i j =
     (\<Sum>k\<leftarrow>[elt (col_ptr A) j..elt (col_ptr A) (j + 1) - 1]. if elt (row_idx A) k = i then elt (vals A) k else 0)"

lemma concat_split_at:
  "j < length cols \<Longrightarrow> concat cols = concat (take j cols) @ cols ! j @ concat (drop (Suc j) cols)"
  by (metis append_assoc concat.simps(2) concat_append id_take_nth_drop)

lemma length_concat_take_Suc:
  "j < length cols \<Longrightarrow> length (concat (take (Suc j) cols)) = length (concat (take j cols)) + length (cols ! j)"
  by (simp add: take_Suc_conv_app_nth)

lemma nth_concat_at:
  "j < length cols \<Longrightarrow> p < length (cols ! j) \<Longrightarrow> concat cols ! (length (concat (take j cols)) + p) = cols ! j ! p"
  by (subst concat_split_at [of j cols]) (simp_all add: nth_append)

lemma csc_of_cols_simps [simp]:
  "csc_n (csc_of_cols cols) = int (length cols)"
  "length (col_ptr (csc_of_cols cols)) = Suc (length cols)"
  "length (row_idx (csc_of_cols cols)) = length (concat cols)"
  "length (vals (csc_of_cols cols)) = length (concat cols)"
  by (simp_all add: csc_of_cols_def length_concat)

lemma csc_of_cols_ptr:
  "0 \<le> j \<Longrightarrow> j \<le> int (length cols) \<Longrightarrow>
   elt (col_ptr (csc_of_cols cols)) j = int (length (concat (take (nat j) cols)))"
  unfolding csc_of_cols_def elt_def csc.simps
  by (subst nth_map) (auto simp: nth_upt simp del: upt_Suc)

lemma csc_of_cols_ptr_step:
  assumes "0 \<le> j" "j < int (length cols)"
  shows "elt (col_ptr (csc_of_cols cols)) (j + 1) =
         elt (col_ptr (csc_of_cols cols)) j + int (length (cols ! nat j))"
  using assms by (simp add: csc_of_cols_ptr nat_add_distrib length_concat_take_Suc)

lemma csc_of_cols_slot:
  assumes "0 \<le> j" "j < int (length cols)" "p < length (cols ! nat j)"
  shows "elt (row_idx (csc_of_cols cols)) (elt (col_ptr (csc_of_cols cols)) j + int p) = fst (cols ! nat j ! p)"
        "elt (vals (csc_of_cols cols)) (elt (col_ptr (csc_of_cols cols)) j + int p) = snd (cols ! nat j ! p)"
proof -
  let ?k = "length (concat (take (nat j) cols)) + p"
  have k: "elt (col_ptr (csc_of_cols cols)) j + int p = int ?k"
    using assms by (simp add: csc_of_cols_ptr)
  have "concat cols ! ?k = cols ! nat j ! p"
    by (rule nth_concat_at) (use assms in auto)
  moreover have "?k < length (concat cols)"
    using assms concat_split_at [of "nat j" cols] by auto
  ultimately show
    "elt (row_idx (csc_of_cols cols)) (elt (col_ptr (csc_of_cols cols)) j + int p) = fst (cols ! nat j ! p)"
    "elt (vals (csc_of_cols cols)) (elt (col_ptr (csc_of_cols cols)) j + int p) = snd (cols ! nat j ! p)"
    unfolding k by (simp_all only: elt_def nat_int csc_of_cols_def csc.simps nth_map)
qed

lemma csc_of_cols_slot_cases:
  assumes "0 \<le> j" "j < int (length cols)"
    "elt (col_ptr (csc_of_cols cols)) j \<le> k" "k < elt (col_ptr (csc_of_cols cols)) (j + 1)"
  obtains p where "p < length (cols ! nat j)" "k = elt (col_ptr (csc_of_cols cols)) j + int p"
proof
  show "nat (k - elt (col_ptr (csc_of_cols cols)) j) < length (cols ! nat j)"
    using assms by (simp add: csc_of_cols_ptr_step)
qed (use assms in simp)

lemma csc_of_cols_ptr_ok: "csc_ptr_ok (csc_of_cols cols)"
  unfolding csc_ptr_ok_def
proof (intro conjI allI impI, goal_cases)
  case (4 j)
  then show ?case using csc_of_cols_ptr_step [of j cols] by simp
qed (simp_all add: csc_of_cols_ptr)

lemma csc_of_cols_rows_ok:
  assumes "\<And>j i v. j < length cols \<Longrightarrow> (i, v) \<in> set (cols ! j) \<Longrightarrow> int j \<le> i \<and> i < int (length cols)"
  shows "csc_rows_ok (csc_of_cols cols)"
  unfolding csc_rows_ok_def
proof (intro allI impI, elim conjE)
  fix j k assume a: "0 \<le> j" "j < csc_n (csc_of_cols cols)"
    "elt (col_ptr (csc_of_cols cols)) j \<le> k" "k < elt (col_ptr (csc_of_cols cols)) (j + 1)"
  then have j: "0 \<le> j" "j < int (length cols)" by simp_all
  from csc_of_cols_slot_cases [OF j a(3,4)] obtain p
    where p: "p < length (cols ! nat j)" "k = elt (col_ptr (csc_of_cols cols)) j + int p" .
  have "cols ! nat j ! p \<in> set (cols ! nat j)" using p(1) by simp
  with assms [of "nat j" "fst (cols ! nat j ! p)" "snd (cols ! nat j ! p)"] j
  show "j \<le> elt (row_idx (csc_of_cols cols)) k \<and> elt (row_idx (csc_of_cols cols)) k < csc_n (csc_of_cols cols)"
    unfolding p(2) csc_of_cols_slot [OF j p(1)] by simp
qed

lemma csc_of_cols_sorted:
  assumes "\<And>j. j < length cols \<Longrightarrow> sorted_wrt (<) (map fst (cols ! j))"
  shows "csc_sorted (csc_of_cols cols)"
  unfolding csc_sorted_def
proof (intro allI impI, elim conjE)
  fix j k assume a: "0 \<le> j" "j < csc_n (csc_of_cols cols)"
    "elt (col_ptr (csc_of_cols cols)) j \<le> k" "k + 1 < elt (col_ptr (csc_of_cols cols)) (j + 1)"
  then have j: "0 \<le> j" "j < int (length cols)" and k: "k < elt (col_ptr (csc_of_cols cols)) (j + 1)"
    by simp_all
  from csc_of_cols_slot_cases [OF j a(3) k] obtain p
    where p: "p < length (cols ! nat j)" "k = elt (col_ptr (csc_of_cols cols)) j + int p" .
  from a(4) p j have p': "Suc p < length (cols ! nat j)" by (simp add: csc_of_cols_ptr_step)
  have k': "k + 1 = elt (col_ptr (csc_of_cols cols)) j + int (Suc p)" using p(2) by simp
  have "fst (cols ! nat j ! p) < fst (cols ! nat j ! Suc p)"
    using sorted_wrt_nth_less [OF assms [of "nat j"], of p "Suc p"] j p' by simp
  then show "elt (row_idx (csc_of_cols cols)) k < elt (row_idx (csc_of_cols cols)) (k + 1)"
    unfolding k' csc_of_cols_slot [OF j p'] unfolding p(2) csc_of_cols_slot [OF j p(1)] .
qed

lemma csc_of_cols_entry:
  assumes "0 \<le> j" "j < int (length cols)"
  shows "entry (csc_of_cols cols) i j = (\<Sum>(r, v)\<leftarrow>cols ! nat j. if r = i then v else 0)"
proof -
  let ?lo = "elt (col_ptr (csc_of_cols cols)) j" and ?m = "length (cols ! nat j)"
  have shift: "[?lo..?lo + int ?m - 1] = map (\<lambda>p. ?lo + int p) [0..<?m]"
    by (rule nth_equalityI) (auto simp: nth_upto)
  have "entry (csc_of_cols cols) i j = (\<Sum>p\<leftarrow>[0..<?m].
      if elt (row_idx (csc_of_cols cols)) (?lo + int p) = i then elt (vals (csc_of_cols cols)) (?lo + int p) else 0)"
    unfolding entry_def csc_of_cols_ptr_step [OF assms] shift by (simp only: map_map comp_def)
  also have "\<dots> = (\<Sum>p\<leftarrow>[0..<?m]. (\<lambda>(r, v). if r = i then v else 0) (cols ! nat j ! p))"
    by (rule arg_cong [where f = sum_list], rule map_cong)
       (simp_all only: set_upt atLeastLessThan_iff csc_of_cols_slot [OF assms] split_def)
  also have "\<dots> = (\<Sum>(r, v)\<leftarrow>cols ! nat j. if r = i then v else 0)"
    using arg_cong [OF map_nth [of "cols ! nat j"], of "\<lambda>l. sum_list (map (\<lambda>(r, v). if r = i then v else 0) l)"]
    by (simp only: map_map comp_def)
  finally show ?thesis .
qed

text \<open>The loop that builds a matrix column by column, one \<open>push_back\<close> per entry and \<open>col_ptr\<close>
  filled as it goes, produces the layout.\<close>

lemma csc_of_cols_eqI:
  assumes "length ptr = Suc (length cols)"
    and "\<And>j. 0 \<le> j \<Longrightarrow> j \<le> int (length cols) \<Longrightarrow> elt ptr j = int (length (concat (take (nat j) cols)))"
  shows "col_ptr (csc_of_cols cols) = ptr"
proof (rule nth_equalityI)
  fix i assume "i < length (col_ptr (csc_of_cols cols))"
  then have "elt (col_ptr (csc_of_cols cols)) (int i) = elt ptr (int i)"
    by (simp add: csc_of_cols_ptr assms(2))
  then show "col_ptr (csc_of_cols cols) ! i = ptr ! i" by (simp add: elt_def)
qed (simp add: assms(1))

lemma take_map_upto:
  "0 \<le> j \<Longrightarrow> j \<le> n \<Longrightarrow> take (nat j) (map C [0..n - 1]) = map C [0..j - 1]"
  unfolding take_map by (rule arg_cong [where f = "map _"], rule nth_equalityI) auto

lemma build_cols_ok:
  fixes C :: "int \<Rightarrow> (int \<times> 'v) list"
  assumes n: "0 \<le> n"
    and body: "\<And>j ptr rows vals. 0 \<le> j \<Longrightarrow> j < n \<Longrightarrow> int (length ptr) = n + 1 \<Longrightarrow>
      rows = map fst (concat (map C [0..j - 1])) \<Longrightarrow>
      body j (ptr, rows, vals) = Some (ptr[nat (j + 1) := int (length rows + length (C j))],
        rows @ map fst (C j), vals @ map snd (C j))"
  shows "for_range 0 n body (replicate (nat (n + 1)) 0, [], []) =
    Some (col_ptr (csc_of_cols (map C [0..n - 1])), row_idx (csc_of_cols (map C [0..n - 1])),
      Csc.vals (csc_of_cols (map C [0..n - 1])))"
proof -
  let ?L = "\<lambda>j. concat (map C [0..j - 1])"
  define I where "I j s \<longleftrightarrow> (case s of (ptr, rows, vs) \<Rightarrow> 0 \<le> j \<and> int (length ptr) = n + 1
      \<and> (\<forall>i. 0 \<le> i \<and> i \<le> j \<longrightarrow> elt ptr i = int (length (?L i))) \<and> rows = map fst (?L j) \<and> vs = map snd (?L j))" for j s
  have "ok (for_range 0 n body (replicate (nat (n + 1)) 0, [], [])) (I n)"
  proof (rule for_range_ok [where I = I], goal_cases)
    case 1
    then show ?case using n by (auto simp: I_def elt_def)
  next
    case (2 j s)
    obtain ptr rows vs where s: "s = (ptr, rows, vs)" by (cases s)
    have len: "int (length ptr) = n + 1" using 2(3) s by (simp add: I_def)
    have L: "?L (j + 1) = ?L j @ C j" using 2(1) by (simp add: upto_rec2)
    have "elt (ptr[nat (j + 1) := int (length rows + length (C j))]) i = int (length (?L i))"
      if "0 \<le> i" "i \<le> j + 1" for i
      using that 2(1,2,3) len s L by (cases "i = j + 1") (simp_all add: I_def at_update)
    then show ?case using 2 s len L by (simp add: I_def body [OF 2(1,2) len HOL.refl])
  next
    case (3 s)
    then show ?case using n by (simp add: max_def)
  qed
  then obtain ptr rows vs where r: "for_range 0 n body (replicate (nat (n + 1)) 0, [], []) = Some (ptr, rows, vs)"
    and I: "I n (ptr, rows, vs)" unfolding ok_def by (metis surj_pair)
  have "col_ptr (csc_of_cols (map C [0..n - 1])) = ptr"
  proof (rule csc_of_cols_eqI)
    have "int (length ptr) = n + 1" using I by (simp add: I_def)
    moreover have "int (length (map C [0..n - 1])) = n" using n by simp
    ultimately show "length ptr = Suc (length (map C [0..n - 1]))" by linarith
    fix j assume j: "0 \<le> j" "j \<le> int (length (map C [0..n - 1]))"
    then have "j \<le> n" using n by simp
    then show "elt ptr j = int (length (concat (take (nat j) (map C [0..n - 1]))))"
      using I j take_map_upto [OF j(1), of n C] by (simp add: I_def)
  qed
  then show ?thesis using r I by (simp add: I_def csc_of_cols_def)
qed

section \<open>Merging duplicate rows\<close>

text \<open>The single pass over a sorted column: each run of equal rows becomes one entry with the
  sum of the run's values, added left to right.\<close>

function merge_runs :: "('e \<Rightarrow> int) \<Rightarrow> ('e \<Rightarrow> 'v::plus) \<Rightarrow> 'e list \<Rightarrow> (int \<times> 'v) list" where
  "merge_runs row val [] = []"
| "merge_runs row val (e # es) =
     (row e, foldl (\<lambda>a x. a + val x) (val e) (takeWhile (\<lambda>x. row x = row e) es))
       # merge_runs row val (dropWhile (\<lambda>x. row x = row e) es)"
  by pat_completeness auto
termination
  by (relation "measure (\<lambda>(_, _, es). length es)") (auto simp: le_imp_less_Suc length_dropWhile_le)

lemma merge_runs_rows:
  "sorted (map row es) \<Longrightarrow>
   sorted_wrt (<) (map fst (merge_runs row val es)) \<and> fst ` set (merge_runs row val es) = row ` set es"
proof (induction row val es rule: merge_runs.induct)
  case (2 row val e es)
  let ?rest = "dropWhile (\<lambda>x. row x = row e) es"
  have split: "es = takeWhile (\<lambda>x. row x = row e) es @ ?rest" by simp
  have srest: "sorted (map row ?rest)"
  proof -
    have "map row es = map row (takeWhile (\<lambda>x. row x = row e) es) @ map row ?rest"
      by (simp flip: map_append)
    with 2(2) show ?thesis by (simp add: sorted_append)
  qed
  have above: "row e < row x" if "x \<in> set ?rest" for x
  proof (cases ?rest)
    case (Cons y ys)
    then have "row y \<noteq> row e" using hd_dropWhile [of "\<lambda>x. row x = row e" es] by simp
    moreover have "y \<in> set es" using Cons set_dropWhileD [of y "\<lambda>x. row x = row e" es] by simp
    then have "row e \<le> row y" using 2(2) by simp
    ultimately have "row e < row y" by simp
    moreover have "row y \<le> row x" using that srest Cons by auto
    ultimately show ?thesis by simp
  next
    case Nil
    with that show ?thesis by (simp only: list.set empty_iff)
  qed
  have "row ` set es = row ` set (takeWhile (\<lambda>x. row x = row e) es) \<union> row ` set ?rest"
    by (subst split) (simp only: set_append image_Un)
  moreover have "row ` set (takeWhile (\<lambda>x. row x = row e) es) \<subseteq> {row e}"
    by (auto dest: set_takeWhileD)
  ultimately have "insert (row e) (row ` set es) = insert (row e) (row ` set ?rest)" by auto
  with 2(1) [OF srest] above show ?case by auto
qed simp

lemma merge_runs_length: "length (merge_runs row val es) \<le> length es"
proof (induction row val es rule: merge_runs.induct)
  case (2 row val e es)
  then show ?case using length_dropWhile_le [of "\<lambda>x. row x = row e" es] by simp
qed simp

lemma foldl_plus_sum: "foldl (\<lambda>a x. a + val x) a es = a + (\<Sum>x\<leftarrow>es. val x :: 'v::monoid_add)"
  by (induction es arbitrary: a) (simp_all add: add.assoc)

lemma sum_filter_takeWhile:
  "(\<Sum>x\<leftarrow>takeWhile (\<lambda>x. row x = r) es. if row x = i then val x else (0 :: 'v::monoid_add)) =
   (if r = i then \<Sum>x\<leftarrow>takeWhile (\<lambda>x. row x = r) es. val x else 0)"
  by (induction es) auto

lemma merge_runs_sum:
  "(\<Sum>(r, v)\<leftarrow>merge_runs row val es. if r = i then v else 0) =
   (\<Sum>x\<leftarrow>es. if row x = i then val x else (0 :: 'v::monoid_add))"
proof (induction row val es rule: merge_runs.induct)
  case (2 row val e es)
  let ?g = "\<lambda>x. if row x = i then val x else 0"
  let ?run = "takeWhile (\<lambda>x. row x = row e) es" and ?rest = "dropWhile (\<lambda>x. row x = row e) es"
  have "map ?g es = map ?g ?run @ map ?g ?rest"
    by (simp flip: map_append)
  then have "(\<Sum>x\<leftarrow>es. ?g x) = (\<Sum>x\<leftarrow>?run. ?g x) + (\<Sum>x\<leftarrow>?rest. ?g x)"
    by (simp only: sum_list.append)
  with 2 show ?case by (auto simp: sum_filter_takeWhile foldl_plus_sum add.assoc)
qed simp

lemma sum_list_sort_key:
  "(\<Sum>x\<leftarrow>sort_key f es. g x) = (\<Sum>x\<leftarrow>es. g x :: 'v::comm_monoid_add)"
  by (metis mset_map mset_sort sum_mset_sum_list)

lemma sum_list_filter_valid:
  "(\<And>x. x \<in> set es \<Longrightarrow> \<not> P x \<Longrightarrow> g x = 0) \<Longrightarrow>
   (\<Sum>x\<leftarrow>filter P es. g x) = (\<Sum>x\<leftarrow>es. g x :: 'v::monoid_add)"
  by (induction es) auto

end
