(* ===== verification/CscClean.thy ===== *)
theory CscClean
  imports CscBuild
begin

text \<open>
  \<open>clean_lower_csc\<close> (\<open>check_matrix.cpp\<close>): the shape checks, the fast scan that recognises clean
  input, and the slow path that drops entries outside the lower triangle, sorts each column,
  sums duplicates and records where every input entry went. The gathered entries of a column
  are sorted with \<open>sort_key\<close>; counters are mathematical integers (they are at most \<open>nnz\<close>).
\<close>

section \<open>The code\<close>

record 'v cleaned =
  clean :: "'v csc"
  original_to_clean :: "int list"
  duplicates :: int
  out_of_range :: int
  missing_diag :: int
  was_clean :: bool

record matrix_info =
  status :: error_code
  matrix_duplicates :: int
  matrix_out_of_range :: int
  matrix_missing_diag :: int

definition empty_csc :: "'v csc" where
  "empty_csc = \<lparr>csc_n = 0, col_ptr = [], row_idx = [], vals = []\<rparr>"

definition cleaned_default :: "'v cleaned" where
  "cleaned_default = \<lparr>clean = empty_csc, original_to_clean = [], duplicates = 0, out_of_range = 0,
     missing_diag = 0, was_clean = False\<rparr>"

definition clean_shape_ok :: "'v csc \<Rightarrow> bool option" where
  "clean_shape_ok A =
     (if csc_n A < 0 then Some False
      else if length (col_ptr A) \<noteq> size_t (csc_n A) + 1 then Some False
      else do {
        c0 \<leftarrow> vget (col_ptr A) 0;
        if c0 \<noteq> 0 then Some False
        else do {
          mono \<leftarrow> for_brk 0 (csc_n A) (\<lambda>j _. do {
            hi \<leftarrow> vget (col_ptr A) (j + 1);
            lo \<leftarrow> vget (col_ptr A) j;
            Some (if hi < lo then Inl () else Inr ())
          }) ();
          case mono of Inl _ \<Rightarrow> Some False
          | Inr _ \<Rightarrow> do {
              cn \<leftarrow> vget (col_ptr A) (csc_n A);
              Some (length (row_idx A) = size_t cn \<and> length (vals A) = size_t cn)
            }
        }
      })"

definition count_missing :: "'v csc \<Rightarrow> int \<Rightarrow> int \<Rightarrow> int option" where
  "count_missing A j missing = do {
     k0 \<leftarrow> vget (col_ptr A) j;
     k1 \<leftarrow> vget (col_ptr A) (j + 1);
     if k0 = k1 then Some (missing + 1)
     else do {
       i0 \<leftarrow> vget (row_idx A) k0;
       Some (if i0 \<noteq> j then missing + 1 else missing)
     }
   }"

definition scan_column :: "'v csc \<Rightarrow> int \<Rightarrow> (unit + int) option" where
  "scan_column A j = do {
     k0 \<leftarrow> vget (col_ptr A) j;
     k1 \<leftarrow> vget (col_ptr A) (j + 1);
     for_brk k0 k1 (\<lambda>k prev. do {
       i \<leftarrow> vget (row_idx A) k;
       Some (if i \<le> prev \<or> i \<ge> csc_n A then Inl () else Inr i)
     }) (j - 1)
   }"

text \<open>The fast scan: \<open>Inr missing\<close> when every column is clean, \<open>Inl\<close> at the first that is not
  (its count is discarded: the slow path counts again).\<close>

definition fast_scan :: "'v csc \<Rightarrow> (int + int) option" where
  "fast_scan A =
     for_brk 0 (csc_n A) (\<lambda>j missing. do {
       c \<leftarrow> scan_column A j;
       missing' \<leftarrow> count_missing A j missing;
       Some (case c of Inl _ \<Rightarrow> Inl missing' | Inr _ \<Rightarrow> Inr missing')
     }) 0"

record 'v gathered =
  g_row :: int
  g_val :: 'v
  g_orig :: int

definition gather_column :: "'v csc \<Rightarrow> int \<Rightarrow> int \<Rightarrow> (int \<times> 'v gathered list) option" where
  "gather_column A j oor = do {
     col_start \<leftarrow> vget (col_ptr A) j;
     col_end \<leftarrow> vget (col_ptr A) (j + 1);
     for_range col_start col_end (\<lambda>k (oor, entries). do {
       i \<leftarrow> vget (row_idx A) k;
       v \<leftarrow> vget (vals A) k;
       Some (if i < j \<or> i \<ge> csc_n A then (oor + 1, entries)
             else (oor, entries @ [\<lparr>g_row = i, g_val = v, g_orig = k\<rparr>]))
     }) (oor, [])
   }"

record 'v clean_st =
  s_map :: "int list"
  s_dups :: int
  s_oor :: int
  s_missing :: int
  s_ptr :: "int list"
  s_rows :: "int list"
  s_vals :: "'v list"
  s_idx :: int

text \<open>The deduplication loop over the sorted entries of column \<open>j\<close>; the second component is
  \<open>has_diagonal\<close>.\<close>

function clean_runs ::
  "int \<Rightarrow> 'v::plus gathered list \<Rightarrow> 'v clean_st \<Rightarrow> bool \<Rightarrow> ('v clean_st \<times> bool) option" where
  "clean_runs j [] st diag = Some (st, diag)"
| "clean_runs j (e # es) st diag = do {
     let run = takeWhile (\<lambda>x. g_row x = g_row e) es;
     let sum_val = foldl (\<lambda>a x. a + g_val x) (g_val e) run;
     m \<leftarrow> forM (e # run) (\<lambda>x m. vset m (g_orig x) (s_idx st)) (s_map st);
     clean_runs j (dropWhile (\<lambda>x. g_row x = g_row e) es)
       (st\<lparr>s_rows := s_rows st @ [g_row e], s_vals := s_vals st @ [sum_val], s_map := m,
           s_dups := s_dups st + int (length run), s_idx := s_idx st + 1\<rparr>)
       (diag \<or> g_row e = j)
   }"
  by pat_completeness auto
termination
  by (relation "measure (\<lambda>(_, es, _, _). length es)") (auto simp: le_imp_less_Suc length_dropWhile_le)

definition clean_column :: "'v::plus csc \<Rightarrow> int \<Rightarrow> 'v clean_st \<Rightarrow> 'v clean_st option" where
  "clean_column A j st = do {
     (oor, entries) \<leftarrow> gather_column A j (s_oor st);
     (st', has_diagonal) \<leftarrow> clean_runs j (sort_key g_row entries) (st\<lparr>s_oor := oor\<rparr>) False;
     ptr \<leftarrow> vset (s_ptr st') (j + 1) (s_idx st');
     Some (st'\<lparr>s_missing := (if has_diagonal then s_missing st' else s_missing st' + 1), s_ptr := ptr\<rparr>)
   }"

definition clean_slow :: "'v::plus csc \<Rightarrow> 'v cleaned option" where
  "clean_slow A = do {
     nnz' \<leftarrow> vget (col_ptr A) (csc_n A);
     st \<leftarrow> for_range 0 (csc_n A) (clean_column A)
       \<lparr>s_map = replicate (nat nnz') (-1), s_dups = 0, s_oor = 0, s_missing = 0,
        s_ptr = replicate (nat (csc_n A) + 1) 0, s_rows = [], s_vals = [], s_idx = 0\<rparr>;
     Some \<lparr>clean = \<lparr>csc_n = csc_n A, col_ptr = s_ptr st, row_idx = s_rows st, vals = s_vals st\<rparr>,
           original_to_clean = s_map st, duplicates = s_dups st, out_of_range = s_oor st,
           missing_diag = s_missing st, was_clean = False\<rparr>
   }"

definition clean_lower_csc ::
  "'v::plus csc \<Rightarrow> matrix_info \<Rightarrow> bool \<Rightarrow> ('v cleaned \<times> matrix_info) option" where
  "clean_lower_csc A info check = do {
     shape \<leftarrow> clean_shape_ok A;
     if \<not> shape then Some (cleaned_default, info\<lparr>status := IllegalValue\<rparr>)
     else do {
       scan \<leftarrow> if check then fast_scan A
               else map_option Inr (for_range 0 (csc_n A) (count_missing A) 0);
       case scan of
         Inr missing \<Rightarrow> Some
           (\<lparr>clean = A, original_to_clean = [0..int (length (row_idx A)) - 1], duplicates = 0,
             out_of_range = 0, missing_diag = missing, was_clean = True\<rparr>,
            info\<lparr>matrix_duplicates := 0, matrix_out_of_range := 0, matrix_missing_diag := missing\<rparr>)
       | Inl _ \<Rightarrow> do {
           r \<leftarrow> clean_slow A;
           Some (r, info\<lparr>matrix_duplicates := duplicates r, matrix_out_of_range := out_of_range r,
                         matrix_missing_diag := missing_diag r\<rparr>)
         }
     }
   }"

section \<open>The fast scan\<close>

definition col_clean :: "'v csc \<Rightarrow> int \<Rightarrow> bool" where
  "col_clean A j \<longleftrightarrow>
     (\<forall>k. elt (col_ptr A) j \<le> k \<and> k < elt (col_ptr A) (j + 1) \<longrightarrow> j \<le> elt (row_idx A) k \<and> elt (row_idx A) k < csc_n A)
     \<and> (\<forall>k. elt (col_ptr A) j \<le> k \<and> k + 1 < elt (col_ptr A) (j + 1) \<longrightarrow> elt (row_idx A) k < elt (row_idx A) (k + 1))"

definition has_diag :: "'v csc \<Rightarrow> int \<Rightarrow> bool" where
  "has_diag A j \<longleftrightarrow> (\<exists>k. elt (col_ptr A) j \<le> k \<and> k < elt (col_ptr A) (j + 1) \<and> elt (row_idx A) k = j)"

definition missing_upto :: "'v csc \<Rightarrow> int \<Rightarrow> int" where
  "missing_upto A j = int (card {i. 0 \<le> i \<and> i < j \<and> \<not> has_diag A i})"

lemma missing_upto_0 [simp]: "missing_upto A 0 = 0"
proof -
  have "{i. 0 \<le> i \<and> i < (0::int) \<and> \<not> has_diag A i} = {}" by auto
  then show ?thesis by (simp only: missing_upto_def card.empty of_nat_0)
qed

lemma missing_upto_Suc:
  assumes "0 \<le> j"
  shows "missing_upto A (j + 1) = missing_upto A j + (if has_diag A j then 0 else 1)"
proof -
  have fin: "finite {i. 0 \<le> i \<and> i < j \<and> \<not> has_diag A i}"
    by (rule finite_subset [of _ "{0..<j}"]) auto
  have "{i. 0 \<le> i \<and> i < j + 1 \<and> \<not> has_diag A i} =
        (if has_diag A j then {i. 0 \<le> i \<and> i < j \<and> \<not> has_diag A i}
         else insert j {i. 0 \<le> i \<and> i < j \<and> \<not> has_diag A i})"
    using assms by (auto simp: order_less_le)
  then show ?thesis using fin by (simp add: missing_upto_def)
qed

lemma col_clean_all: "csc_rows_ok A \<and> csc_sorted A \<longleftrightarrow> (\<forall>j. 0 \<le> j \<and> j < csc_n A \<longrightarrow> col_clean A j)"
  unfolding csc_rows_ok_def csc_sorted_def col_clean_def by blast

lemma scan_column_ok:
  assumes "csc_ptr_ok A" "0 \<le> j" "j < csc_n A"
  shows "ok (scan_column A j) (\<lambda>r. isl r \<longleftrightarrow> \<not> col_clean A j)"
proof -
  let ?lo = "elt (col_ptr A) j" and ?hi = "elt (col_ptr A) (j + 1)" and ?row = "elt (row_idx A)"
  have le: "?lo \<le> ?hi" using csc_ptr_mono [OF assms(1,2)] assms by simp
  define I where "I k prev \<longleftrightarrow> (if k = ?lo then prev = j - 1 else prev = ?row (k - 1) \<and> j \<le> prev) \<and>
      (\<forall>k'. ?lo \<le> k' \<and> k' < k \<longrightarrow> j \<le> ?row k' \<and> ?row k' < csc_n A) \<and>
      (\<forall>k'. ?lo \<le> k' \<and> k' + 1 < k \<longrightarrow> ?row k' < ?row (k' + 1))" for k prev
  have step: "if i \<le> prev \<or> i \<ge> csc_n A then \<not> col_clean A j else I (k + 1) i"
    if k: "?lo \<le> k" "k < ?hi" and inv: "I k prev" and i: "i = ?row k" for k prev i
  proof (cases "i \<le> prev \<or> i \<ge> csc_n A")
    case True
    show ?thesis
    proof (cases "k = ?lo")
      case True
      with inv have "i < j \<or> i \<ge> csc_n A" using \<open>i \<le> prev \<or> i \<ge> csc_n A\<close> by (auto simp: I_def)
      then show ?thesis using k i \<open>i \<le> prev \<or> i \<ge> csc_n A\<close> by (auto simp: col_clean_def not_le not_less)
    next
      case False
      then have "?row k \<le> ?row (k - 1) \<or> i \<ge> csc_n A" "?lo \<le> k - 1"
        using inv True i k by (auto simp: I_def)
      moreover have "?row (k - 1) < ?row k" "?row k < csc_n A" if "col_clean A j"
      proof -
        from that have "?lo \<le> k - 1 \<and> (k - 1) + 1 < ?hi \<longrightarrow> ?row (k - 1) < ?row ((k - 1) + 1)"
          unfolding col_clean_def by blast
        with k \<open>?lo \<le> k - 1\<close> show "?row (k - 1) < ?row k" by simp
        from that k show "?row k < csc_n A" by (simp add: col_clean_def)
      qed
      ultimately have "\<not> col_clean A j" using i by auto
      then show ?thesis using True by simp
    qed
  next
    case False
    have rows: "j \<le> ?row k'" "?row k' < csc_n A" if "?lo \<le> k'" "k' < k + 1" for k'
      using inv that False i by (cases "k' = k"; force simp: I_def split: if_splits)+
    have sorted: "?row k' < ?row (k' + 1)" if "?lo \<le> k'" "k' + 1 < k + 1" for k'
      using inv that False i by (cases "k' + 1 = k") (auto simp: I_def)
    show ?thesis using False i rows sorted k by (simp add: I_def)
  qed
  have "ok (for_brk ?lo ?hi (\<lambda>k prev. do {
       i \<leftarrow> vget (row_idx A) k;
       Some (if i \<le> prev \<or> i \<ge> csc_n A then Inl () else Inr i)
     }) (j - 1)) (\<lambda>r. isl r \<longleftrightarrow> \<not> col_clean A j)"
  proof (rule for_brk_ok [where I = I], goal_cases)
    case 1
    then show ?case by (simp add: I_def)
  next
    case (2 k prev)
    then show ?case using step [of k prev] csc_slot_bounds [OF assms, of k]
      by (auto simp: elt_def)
  next
    case (3 prev)
    then show ?case using le by (simp add: I_def max_def col_clean_def)
  qed
  moreover have "vget (col_ptr A) j = Some ?lo" "vget (col_ptr A) (j + 1) = Some ?hi"
    using assms csc_len_ptr [OF assms(1)] by (simp_all add: vget_at)
  ultimately show ?thesis by (simp add: scan_column_def)
qed

lemma count_missing_eq:
  assumes "csc_ptr_ok A" "0 \<le> j" "j < csc_n A"
  shows "ok (count_missing A j m)
           (\<lambda>m'. col_clean A j \<longrightarrow> m' = m + (if has_diag A j then 0 else 1))"
proof -
  let ?lo = "elt (col_ptr A) j" and ?hi = "elt (col_ptr A) (j + 1)" and ?row = "elt (row_idx A)"
  have le: "?lo \<le> ?hi" using csc_ptr_mono [OF assms(1,2)] assms by simp
  have ptr: "vget (col_ptr A) j = Some ?lo" "vget (col_ptr A) (j + 1) = Some ?hi"
    using assms csc_len_ptr [OF assms(1)] by (simp_all add: vget_at)
  have first: "has_diag A j \<longleftrightarrow> ?row ?lo = j" if "col_clean A j" "?lo < ?hi"
  proof
    assume "has_diag A j"
    then obtain k where k: "?lo \<le> k" "k < ?hi" "?row k = j" by (auto simp: has_diag_def)
    have "?row ?lo \<le> ?row k'" if "?lo \<le> k'" "k' < ?hi" for k'
      using that
    proof (induction k' rule: int_ge_induct)
      case (step k')
      then have "?row k' < ?row (k' + 1)" using \<open>col_clean A j\<close> by (simp add: col_clean_def)
      with step show ?case by simp
    qed simp
    with k have "?row ?lo \<le> j" by fastforce
    with that show "?row ?lo = j" by (fastforce simp: col_clean_def)
  next
    assume "?row ?lo = j"
    with that(2) show "has_diag A j" by (auto simp: has_diag_def)
  qed
  show ?thesis
  proof (cases "?lo = ?hi")
    case True
    then show ?thesis using ptr by (auto simp: count_missing_def has_diag_def)
  next
    case False
    with le have "?lo < ?hi" by simp
    moreover have "vget (row_idx A) ?lo = Some (?row ?lo)"
      using csc_slot_bounds [OF assms, of ?lo] \<open>?lo < ?hi\<close> by (simp add: vget_at)
    ultimately show ?thesis using ptr first by (simp add: count_missing_def)
  qed
qed

lemma fast_scan_ok:
  assumes "csc_ptr_ok A"
  shows "ok (fast_scan A) (\<lambda>r. case r of Inl _ \<Rightarrow> \<not> (csc_rows_ok A \<and> csc_sorted A)
           | Inr m \<Rightarrow> csc_rows_ok A \<and> csc_sorted A \<and> m = missing_upto A (csc_n A))"
  unfolding fast_scan_def
proof (rule for_brk_ok [where I = "\<lambda>j m. 0 \<le> j \<and> (\<forall>i. 0 \<le> i \<and> i < j \<longrightarrow> col_clean A i) \<and> m = missing_upto A j"],
    goal_cases)
  case (2 j m)
  then have j: "0 \<le> j" "j < csc_n A" by simp_all
  show ?case
    using ok_ex [OF scan_column_ok [OF assms j]] ok_ex [OF count_missing_eq [OF assms j, of m]] 2
      col_clean_all [of A]
    by (auto simp: missing_upto_Suc all_below_Suc split: sum.splits)
next
  case (3 m)
  then show ?case using assms col_clean_all [of A] by (auto simp: csc_ptr_ok_def max_def split: if_splits)
qed auto

section \<open>The slow path\<close>

abbreviation bad_slot :: "'v csc \<Rightarrow> int \<Rightarrow> int \<Rightarrow> bool" where
  "bad_slot A j k \<equiv> elt (row_idx A) k < j \<or> elt (row_idx A) k \<ge> csc_n A"

abbreviation slots :: "'v csc \<Rightarrow> int \<Rightarrow> int list" where
  "slots A j \<equiv> [elt (col_ptr A) j..elt (col_ptr A) (j + 1) - 1]"

definition gathered_at :: "'v csc \<Rightarrow> int \<Rightarrow> 'v gathered" where
  "gathered_at A k = \<lparr>g_row = elt (row_idx A) k, g_val = elt (vals A) k, g_orig = k\<rparr>"

definition gathered_col :: "'v csc \<Rightarrow> int \<Rightarrow> 'v gathered list" where
  "gathered_col A j = map (gathered_at A) (filter (\<lambda>k. \<not> bad_slot A j k) (slots A j))"

definition bad_count :: "'v csc \<Rightarrow> int \<Rightarrow> int" where
  "bad_count A j = int (length (filter (bad_slot A j) (slots A j)))"

definition clean_col :: "'v::plus csc \<Rightarrow> int \<Rightarrow> (int \<times> 'v) list" where
  "clean_col A j = merge_runs g_row g_val (sort_key g_row (gathered_col A j))"

lemma gathered_at_simps [simp]:
  "g_row (gathered_at A k) = elt (row_idx A) k" "g_val (gathered_at A k) = elt (vals A) k"
  "g_orig (gathered_at A k) = k"
  by (simp_all add: gathered_at_def)

lemma fold_partition:
  "fold (\<lambda>k (c, es). if P k then (c + 1, es) else (c, es @ [f k])) ks (c :: int, es) =
   (c + int (length (filter P ks)), es @ map f (filter (\<lambda>k. \<not> P k) ks))"
  by (induction ks arbitrary: c es) auto

lemma gather_column_eq:
  assumes "csc_ptr_ok A" "0 \<le> j" "j < csc_n A"
  shows "gather_column A j oor = Some (oor + bad_count A j, gathered_col A j)"
proof -
  let ?step = "\<lambda>k (oor, es). if bad_slot A j k then (oor + 1, es) else (oor, es @ [gathered_at A k])"
  have "vget (col_ptr A) j = Some (elt (col_ptr A) j)"
    "vget (col_ptr A) (j + 1) = Some (elt (col_ptr A) (j + 1))"
    using assms csc_len_ptr [OF assms(1)] by (simp_all add: vget_at)
  moreover have "for_range (elt (col_ptr A) j) (elt (col_ptr A) (j + 1)) (\<lambda>k (oor, entries). do {
       i \<leftarrow> vget (row_idx A) k;
       v \<leftarrow> vget (vals A) k;
       Some (if i < j \<or> i \<ge> csc_n A then (oor + 1, entries)
             else (oor, entries @ [\<lparr>g_row = i, g_val = v, g_orig = k\<rparr>]))
     }) (oor, []) = Some (fold ?step (slots A j) (oor, []))"
    unfolding for_range_def
  proof (rule forM_fold)
    fix k and s :: "int \<times> 'a gathered list" assume "k \<in> set (slots A j)"
    then have k: "elt (col_ptr A) j \<le> k" "k < elt (col_ptr A) (j + 1)" by simp_all
    show "(case s of (oor, entries) \<Rightarrow> do {
       i \<leftarrow> vget (row_idx A) k;
       v \<leftarrow> vget (vals A) k;
       Some (if i < j \<or> i \<ge> csc_n A then (oor + 1, entries)
             else (oor, entries @ [\<lparr>g_row = i, g_val = v, g_orig = k\<rparr>]))
     }) = Some (?step k s)"
      using csc_slot_bounds [OF assms k] by (cases s) (simp add: vget_at gathered_at_def)
  qed
  ultimately show ?thesis
    by (simp add: gather_column_def fold_partition bad_count_def gathered_col_def)
qed

lemma forM_vset_all:
  assumes "\<And>x. x \<in> set es \<Longrightarrow> 0 \<le> g x \<and> g x < int (length m)"
  shows "ok (forM es (\<lambda>x m. vset m (g x) v) m)
    (\<lambda>m'. length m' = length m \<and> (\<forall>k \<ge> 0. elt m' k = (if k \<in> g ` set es then v else elt m k)))"
  using assms
proof (induction es arbitrary: m)
  case (Cons e es)
  have "ok (forM es (\<lambda>x m. vset m (g x) v) (m[nat (g e) := v]))
     (\<lambda>m'. length m' = length m \<and>
        (\<forall>k \<ge> 0. elt m' k = (if k \<in> g ` set es then v else elt (m[nat (g e) := v]) k)))"
    using Cons.IH [of "m[nat (g e) := v]"] Cons.prems by simp
  from ok_mono [OF this] show ?case
    using Cons.prems by (simp add: at_update ball_Un)
qed simp

definition runs_post ::
  "int \<Rightarrow> 'v::plus gathered list \<Rightarrow> 'v clean_st \<Rightarrow> bool \<Rightarrow> 'v clean_st \<Rightarrow> bool \<Rightarrow> bool" where
  "runs_post j es st diag st' diag' \<longleftrightarrow>
     s_rows st' = s_rows st @ map fst (merge_runs g_row g_val es)
     \<and> s_vals st' = s_vals st @ map snd (merge_runs g_row g_val es)
     \<and> s_idx st' = s_idx st + int (length (merge_runs g_row g_val es))
     \<and> s_dups st' = s_dups st + int (length es) - int (length (merge_runs g_row g_val es))
     \<and> s_oor st' = s_oor st \<and> s_missing st' = s_missing st \<and> s_ptr st' = s_ptr st
     \<and> diag' = (diag \<or> (\<exists>e \<in> set es. g_row e = j))
     \<and> length (s_map st') = length (s_map st)"

definition runs_map :: "'v::plus gathered list \<Rightarrow> int \<Rightarrow> int list \<Rightarrow> int list \<Rightarrow> bool" where
  "runs_map es idx m m' \<longleftrightarrow>
     (\<forall>k \<ge> 0. k \<notin> g_orig ` set es \<longrightarrow> elt m' k = elt m k)
     \<and> (\<forall>e \<in> set es. \<exists>p < length (merge_runs g_row g_val es).
          elt m' (g_orig e) = idx + int p \<and> fst (merge_runs g_row g_val es ! p) = g_row e)"

text \<open>One run: its entries are mapped to \<open>idx\<close>, the rest of the loop handles the others.\<close>

lemma runs_map_Cons:
  fixes e :: "'v::plus gathered" and es
  defines "run \<equiv> takeWhile (\<lambda>x. g_row x = g_row e) es" and "rest \<equiv> dropWhile (\<lambda>x. g_row x = g_row e) es"
  assumes rest: "runs_map rest (idx + 1) m1 m'"
    and m1: "\<And>k. 0 \<le> k \<Longrightarrow> elt m1 k = (if k \<in> g_orig ` set (e # run) then idx else elt m k)"
    and dist: "distinct (map g_orig (e # es))"
    and pos: "\<And>x. x \<in> set (e # es) \<Longrightarrow> 0 \<le> g_orig x"
  shows "runs_map (e # es) idx m m'"
proof -
  have es: "es = run @ rest" by (simp add: run_def rest_def)
  have run: "g_row x = g_row e" if "x \<in> set (e # run)" for x
    using that by (auto simp: run_def dest: set_takeWhileD)
  have disj: "g_orig x \<notin> g_orig ` set rest" if "x \<in> set (e # run)" for x
    using dist that unfolding es by auto
  have old: "elt m' k = elt m k" if "0 \<le> k" "k \<notin> g_orig ` set (e # es)" for k
  proof -
    have "k \<notin> g_orig ` set rest" "k \<notin> g_orig ` set (e # run)"
      using that(2) unfolding es by auto
    then show ?thesis using that(1) rest m1 [OF that(1)] unfolding runs_map_def by (simp del: list.set)
  qed
  have merged: "merge_runs g_row g_val (e # es) =
      (g_row e, foldl (\<lambda>a x. a + g_val x) (g_val e) run) # merge_runs g_row g_val rest"
    by (simp add: run_def rest_def)
  have new: "\<exists>p < length (merge_runs g_row g_val (e # es)).
      elt m' (g_orig x) = idx + int p \<and> fst (merge_runs g_row g_val (e # es) ! p) = g_row x"
    if x: "x \<in> set (e # es)" for x
  proof (cases "x \<in> set (e # run)")
    case True
    have "elt m' (g_orig x) = elt m1 (g_orig x)"
      using rest disj [OF True] pos [OF x] by (simp add: runs_map_def)
    also have "\<dots> = idx" using m1 pos [OF x] True by auto
    finally show ?thesis using run [OF True] unfolding merged by (intro exI [of _ 0]) simp
  next
    case False
    then have "x \<in> set rest" using x es by auto
    then obtain p where p: "p < length (merge_runs g_row g_val rest)" "elt m' (g_orig x) = idx + 1 + int p"
      "fst (merge_runs g_row g_val rest ! p) = g_row x"
      using rest by (auto simp: runs_map_def)
    then show ?thesis unfolding merged by (intro exI [of _ "Suc p"]) simp
  qed
  show ?thesis unfolding runs_map_def using old new by blast
qed

lemma clean_runs_ok:
  assumes "distinct (map g_orig es)"
    and "\<And>e. e \<in> set es \<Longrightarrow> 0 \<le> g_orig e \<and> g_orig e < int (length (s_map st))"
  shows "ok (clean_runs j es st diag)
    (\<lambda>(st', diag'). runs_post j es st diag st' diag' \<and> runs_map es (s_idx st) (s_map st) (s_map st'))"
  using assms
proof (induction j es st diag rule: clean_runs.induct)
  case (1 j st diag)
  then show ?case by (simp add: runs_post_def runs_map_def)
next
  case (2 j e es st diag)
  let ?run = "takeWhile (\<lambda>x. g_row x = g_row e) es" and ?rest = "dropWhile (\<lambda>x. g_row x = g_row e) es"
  have es: "es = ?run @ ?rest" by simp
  have sub: "set ?run \<subseteq> set es" "set ?rest \<subseteq> set es"
    by (auto dest: set_takeWhileD set_dropWhileD)
  have len: "length es = length ?run + length ?rest"
    using arg_cong [OF es, of length] unfolding length_append .
  have diag: "(\<exists>x \<in> set (e # es). g_row x = j) \<longleftrightarrow> g_row e = j \<or> (\<exists>x \<in> set ?rest. g_row x = j)"
  proof -
    have "(\<exists>x \<in> set es. g_row x = j) \<longleftrightarrow> (\<exists>x \<in> set ?run. g_row x = j) \<or> (\<exists>x \<in> set ?rest. g_row x = j)"
      using arg_cong [OF es, of "\<lambda>l. \<exists>x \<in> set l. g_row x = j"] unfolding set_append bex_Un .
    moreover have "(\<exists>x \<in> set ?run. g_row x = j) \<Longrightarrow> g_row e = j"
      by (auto dest: set_takeWhileD)
    ultimately show ?thesis unfolding list.set by auto
  qed
  have "distinct (map g_orig ?run @ map g_orig ?rest)"
    using "2.prems"(1) by (simp flip: map_append)
  then have rest: "distinct (map g_orig ?rest)" by simp
  obtain m where fm: "forM (e # ?run) (\<lambda>x m. vset m (g_orig x) (s_idx st)) (s_map st) = Some m"
    and lm: "length m = length (s_map st)"
    and am: "\<forall>k \<ge> 0. elt m k = (if k \<in> g_orig ` set (e # ?run) then s_idx st else elt (s_map st) k)"
    using ok_ex [OF forM_vset_all [of "e # ?run" g_orig "s_map st" "s_idx st"]] "2.prems"(2) sub by auto
  let ?st = "st\<lparr>s_rows := s_rows st @ [g_row e], s_vals := s_vals st @ [foldl (\<lambda>a x. a + g_val x) (g_val e) ?run],
      s_map := m, s_dups := s_dups st + int (length ?run), s_idx := s_idx st + 1\<rparr>"
  have bound: "0 \<le> g_orig x \<and> g_orig x < int (length (s_map ?st))" if "x \<in> set ?rest" for x
    using "2.prems"(2) [of x] sub(2) that lm by auto
  show ?case
    unfolding clean_runs.simps Let_def ok_bind fm ok_Some
  proof (rule ok_mono, rule "2.IH" [OF refl refl fm rest], rule bound, assumption, goal_cases)
    case (1 r)
    obtain st' d where r: "r = (st', d)" by (cases r)
    with 1 have post: "runs_post j ?rest ?st (diag \<or> g_row e = j) st' d"
      and map: "runs_map ?rest (s_idx st + 1) m (s_map st')" by simp_all
    have "runs_post j (e # es) st diag st' d"
      using post lm len diag unfolding runs_post_def merge_runs.simps by simp
    moreover have "runs_map (e # es) (s_idx st) (s_map st) (s_map st')"
      by (rule runs_map_Cons [OF map]) (use am "2.prems" in auto)
    ultimately show ?case using r by simp
  qed
qed

definition col_mapped :: "'v::plus csc \<Rightarrow> int \<Rightarrow> int \<Rightarrow> int list \<Rightarrow> bool" where
  "col_mapped A j idx m \<longleftrightarrow>
     (\<forall>k. elt (col_ptr A) j \<le> k \<and> k < elt (col_ptr A) (j + 1) \<longrightarrow>
        (if bad_slot A j k then elt m k = -1
         else \<exists>p < length (clean_col A j). elt m k = idx + int p \<and> fst (clean_col A j ! p) = elt (row_idx A) k))"

definition column_post :: "'v::plus csc \<Rightarrow> int \<Rightarrow> 'v clean_st \<Rightarrow> 'v clean_st \<Rightarrow> bool" where
  "column_post A j st st' \<longleftrightarrow>
     s_rows st' = s_rows st @ map fst (clean_col A j)
     \<and> s_vals st' = s_vals st @ map snd (clean_col A j)
     \<and> s_idx st' = s_idx st + int (length (clean_col A j))
     \<and> s_ptr st' = (s_ptr st)[nat (j + 1) := s_idx st']
     \<and> s_oor st' = s_oor st + bad_count A j
     \<and> s_dups st' = s_dups st + int (length (gathered_col A j)) - int (length (clean_col A j))
     \<and> s_missing st' = s_missing st + (if has_diag A j then 0 else 1)
     \<and> length (s_map st') = length (s_map st)
     \<and> (\<forall>k \<ge> 0. k < elt (col_ptr A) j \<or> elt (col_ptr A) (j + 1) \<le> k \<longrightarrow> elt (s_map st') k = elt (s_map st) k)"

lemma has_diag_gathered:
  assumes "0 \<le> j" "j < csc_n A"
  shows "(\<exists>e \<in> set (gathered_col A j). g_row e = j) \<longleftrightarrow> has_diag A j"
  using assms by (force simp: gathered_col_def has_diag_def)

lemma gathered_bad_count:
  assumes "elt (col_ptr A) j \<le> elt (col_ptr A) (j + 1)"
  shows "int (length (gathered_col A j)) + bad_count A j = elt (col_ptr A) (j + 1) - elt (col_ptr A) j"
  using sum_length_filter_compl [of "bad_slot A j" "slots A j"] assms
  by (simp add: gathered_col_def bad_count_def)

lemma clean_column_ok:
  assumes A: "csc_ptr_ok A" "0 \<le> j" "j < csc_n A"
    and len: "int (length (s_ptr st)) = csc_n A + 1" "length (s_map st) = length (row_idx A)"
    and fresh: "\<And>k. elt (col_ptr A) j \<le> k \<Longrightarrow> k < elt (col_ptr A) (j + 1) \<Longrightarrow> elt (s_map st) k = -1"
  shows "ok (clean_column A j st) (\<lambda>st'. column_post A j st st' \<and> col_mapped A j (s_idx st) (s_map st'))"
proof -
  let ?es = "sort_key g_row (gathered_col A j)" and ?st = "st\<lparr>s_oor := s_oor st + bad_count A j\<rparr>"
  have slot: "0 \<le> k" "k < int (length (s_map st))" if "k \<in> set (slots A j)" for k
    using csc_slot_bounds [OF A, of k] that len(2) by simp_all
  have orig: "g_orig ` set ?es = {k \<in> set (slots A j). \<not> bad_slot A j k}"
    by (force simp: gathered_col_def)
  have "distinct (map g_orig (gathered_col A j))"
    by (simp add: gathered_col_def comp_def)
  then have "distinct (map g_orig ?es)"
    by (metis mset_map mset_sort mset_eq_imp_distinct_iff)
  then have runs: "ok (clean_runs j ?es ?st False) (\<lambda>(st', d). runs_post j ?es ?st False st' d
      \<and> runs_map ?es (s_idx ?st) (s_map ?st) (s_map st'))"
    by (rule clean_runs_ok) (use slot in \<open>auto simp: gathered_col_def\<close>)
  have "runs_map ?es idx m m' \<Longrightarrow> (\<And>k. k \<in> set (slots A j) \<Longrightarrow> elt m k = -1) \<Longrightarrow> col_mapped A j idx m'" for idx m m'
    unfolding col_mapped_def
  proof (intro allI impI)
    fix k assume map: "runs_map ?es idx m m'" and m: "\<And>k. k \<in> set (slots A j) \<Longrightarrow> elt m k = -1"
      and k: "elt (col_ptr A) j \<le> k \<and> k < elt (col_ptr A) (j + 1)"
    then have ks: "k \<in> set (slots A j)" by simp
    show "if bad_slot A j k then elt m' k = -1
      else \<exists>p < length (clean_col A j). elt m' k = idx + int p \<and> fst (clean_col A j ! p) = elt (row_idx A) k"
    proof (cases "bad_slot A j k")
      case True
      then have "k \<notin> g_orig ` set ?es" unfolding orig by simp
      then show ?thesis using map m [OF ks] slot [OF ks] True by (simp add: runs_map_def)
    next
      case False
      then have "gathered_at A k \<in> set ?es" using ks by (simp add: gathered_col_def)
      with map obtain p where "p < length (clean_col A j)" "elt m' (g_orig (gathered_at A k)) = idx + int p"
        "fst (clean_col A j ! p) = g_row (gathered_at A k)"
        unfolding runs_map_def clean_col_def by blast
      then show ?thesis unfolding if_not_P [OF False] by auto
    qed
  qed
  note mapped = this
  have off: "k \<notin> g_orig ` set ?es" if "k < elt (col_ptr A) j \<or> elt (col_ptr A) (j + 1) \<le> k" for k
    unfolding orig using that by auto
  have "ok (clean_runs j ?es ?st False) (\<lambda>(st', d). ok (vset (s_ptr st') (j + 1) (s_idx st')) (\<lambda>ptr.
      column_post A j st (st'\<lparr>s_missing := (if d then s_missing st' else s_missing st' + 1), s_ptr := ptr\<rparr>)
      \<and> col_mapped A j (s_idx st) (s_map st')))"
  proof (rule ok_mono [OF runs])
    fix r assume r: "case r of (st', d) \<Rightarrow> runs_post j ?es ?st False st' d
      \<and> runs_map ?es (s_idx ?st) (s_map ?st) (s_map st')"
    obtain st' d where [simp]: "r = (st', d)" by (cases r)
    have post: "runs_post j ?es ?st False st' d" and map: "runs_map ?es (s_idx st) (s_map st) (s_map st')"
      using r by simp_all
    have "col_mapped A j (s_idx st) (s_map st')" by (rule mapped [OF map]) (use fresh in simp)
    moreover have "d = has_diag A j"
      using post has_diag_gathered [OF A(2,3)] by (simp add: runs_post_def)
    moreover have "elt (s_map st') k = elt (s_map st) k"
      if "0 \<le> k" "k < elt (col_ptr A) j \<or> elt (col_ptr A) (j + 1) \<le> k" for k
      using map that(1) off [OF that(2)] by (simp add: runs_map_def)
    ultimately show "case r of (st', d) \<Rightarrow> ok (vset (s_ptr st') (j + 1) (s_idx st')) (\<lambda>ptr.
      column_post A j st (st'\<lparr>s_missing := (if d then s_missing st' else s_missing st' + 1), s_ptr := ptr\<rparr>)
      \<and> col_mapped A j (s_idx st) (s_map st'))"
      using post len A by (simp add: runs_post_def column_post_def clean_col_def)
  qed
  then show ?thesis
    by (simp add: clean_column_def gather_column_eq [OF A] split_def)
qed

definition clean_cols :: "'v::plus csc \<Rightarrow> int \<Rightarrow> (int \<times> 'v) list list" where
  "clean_cols A j = map (clean_col A) [0..j - 1]"

definition bad_upto :: "'v csc \<Rightarrow> int \<Rightarrow> int" where
  "bad_upto A j = (\<Sum>i\<leftarrow>[0..j - 1]. bad_count A i)"

abbreviation cols_len :: "'v::plus csc \<Rightarrow> int \<Rightarrow> int" where
  "cols_len A j \<equiv> int (length (concat (clean_cols A j)))"

definition slow_inv :: "'v::plus csc \<Rightarrow> int \<Rightarrow> 'v clean_st \<Rightarrow> bool" where
  "slow_inv A j st \<longleftrightarrow>
     0 \<le> j \<and> int (length (s_ptr st)) = csc_n A + 1 \<and> length (s_map st) = length (row_idx A)
     \<and> s_rows st = map fst (concat (clean_cols A j)) \<and> s_vals st = map snd (concat (clean_cols A j))
     \<and> s_idx st = cols_len A j
     \<and> (\<forall>i. 0 \<le> i \<and> i \<le> j \<longrightarrow> elt (s_ptr st) i = cols_len A i)
     \<and> s_oor st = bad_upto A j \<and> s_oor st + s_dups st + s_idx st = elt (col_ptr A) j
     \<and> s_missing st = missing_upto A j
     \<and> (\<forall>i. 0 \<le> i \<and> i < j \<longrightarrow> col_mapped A i (cols_len A i) (s_map st))
     \<and> (\<forall>k. elt (col_ptr A) j \<le> k \<and> k < int (length (row_idx A)) \<longrightarrow> elt (s_map st) k = -1)"

lemma clean_cols_Suc: "0 \<le> j \<Longrightarrow> clean_cols A (j + 1) = clean_cols A j @ [clean_col A j]"
  by (simp add: clean_cols_def upto_rec2)

lemma bad_upto_Suc: "0 \<le> j \<Longrightarrow> bad_upto A (j + 1) = bad_upto A j + bad_count A j"
  by (simp add: bad_upto_def upto_rec2)

lemma slow_inv_step:
  assumes A: "csc_ptr_ok A" "j < csc_n A" and inv: "slow_inv A j st"
    and post: "column_post A j st st'" and map: "col_mapped A j (s_idx st) (s_map st')"
  shows "slow_inv A (j + 1) st'"
proof -
  have j: "0 \<le> j" using inv by (simp add: slow_inv_def)
  have mono: "elt (col_ptr A) j \<le> elt (col_ptr A) (j + 1)" "0 \<le> elt (col_ptr A) j"
    using csc_ptr_mono [OF A(1) j, of "j + 1"] csc_ptr_bounds [OF A(1) j] A(2) by simp_all
  have old: "elt (s_map st') k = elt (s_map st) k" if "0 \<le> k" "k < elt (col_ptr A) j \<or> elt (col_ptr A) (j + 1) \<le> k" for k
    using post that by (auto simp: column_post_def)
  have slot: "0 \<le> k" "k < elt (col_ptr A) j"
    if "0 \<le> i" "i < j" "elt (col_ptr A) i \<le> k" "k < elt (col_ptr A) (i + 1)" for i k
    using csc_ptr_bounds(1) [OF A(1), of i] csc_ptr_mono [OF A(1), of "i + 1" j] that A(2) by simp_all
  have "col_mapped A i (cols_len A i) (s_map st')" if "0 \<le> i" "i < j" for i
  proof -
    have "col_mapped A i (cols_len A i) (s_map st)" using inv that by (simp add: slow_inv_def)
    then show ?thesis unfolding col_mapped_def using old slot [OF that] by simp
  qed
  moreover have "col_mapped A j (cols_len A j) (s_map st')"
    using map inv by (simp add: slow_inv_def)
  moreover have "elt (s_map st') k = -1" if "elt (col_ptr A) (j + 1) \<le> k" "k < int (length (row_idx A))" for k
    using old [of k] inv that mono by (simp add: slow_inv_def)
  moreover have "elt (s_ptr st') i = cols_len A i" if "0 \<le> i" "i \<le> j + 1" for i
    using that post inv j A(2)
    by (cases "i = j + 1") (simp_all add: slow_inv_def column_post_def at_update clean_cols_Suc)
  moreover have "s_oor st' + s_dups st' + s_idx st' = elt (col_ptr A) (j + 1)"
    using post inv gathered_bad_count [OF mono(1)] by (simp add: slow_inv_def column_post_def)
  ultimately show ?thesis
    using inv post j
    by (simp add: slow_inv_def column_post_def clean_cols_Suc bad_upto_Suc missing_upto_Suc all_below_Suc)
qed

definition slow_post :: "'v::plus csc \<Rightarrow> 'v cleaned \<Rightarrow> bool" where
  "slow_post A r \<longleftrightarrow>
     clean r = csc_of_cols (clean_cols A (csc_n A)) \<and> \<not> was_clean r
     \<and> length (original_to_clean r) = length (row_idx A)
     \<and> out_of_range r = bad_upto A (csc_n A)
     \<and> out_of_range r + duplicates r + int (length (row_idx (clean r))) = int (length (row_idx A))
     \<and> missing_diag r = missing_upto A (csc_n A)
     \<and> (\<forall>i. 0 \<le> i \<and> i < csc_n A \<longrightarrow> col_mapped A i (cols_len A i) (original_to_clean r))"

lemma clean_cols_take:
  "0 \<le> i \<Longrightarrow> i \<le> j \<Longrightarrow> clean_cols A i = take (nat i) (clean_cols A j)"
  unfolding clean_cols_def take_map by (rule arg_cong [where f = "map _"], rule nth_equalityI) auto

lemma clean_cols_length: "0 \<le> j \<Longrightarrow> int (length (clean_cols A j)) = j"
  by (simp add: clean_cols_def)

lemma slow_ptr:
  assumes "0 \<le> n" "int (length ptr) = n + 1" "\<And>i. 0 \<le> i \<Longrightarrow> i \<le> n \<Longrightarrow> elt ptr i = cols_len A i"
  shows "ptr = col_ptr (csc_of_cols (clean_cols A n))"
proof (rule nth_equalityI)
  show len: "length ptr = length (col_ptr (csc_of_cols (clean_cols A n)))"
    using assms(1,2) clean_cols_length [OF assms(1), of A] by simp
  fix i assume "i < length ptr"
  then have i: "0 \<le> int i" "int i \<le> n" using assms(2) by simp_all
  then have "elt ptr (int i) = elt (col_ptr (csc_of_cols (clean_cols A n))) (int i)"
    using assms(3) [OF i] clean_cols_take [OF i, of A] clean_cols_length [OF assms(1), of A]
    by (simp add: csc_of_cols_ptr)
  then show "ptr ! i = col_ptr (csc_of_cols (clean_cols A n)) ! i" by (simp add: elt_def)
qed

lemma clean_slow_ok:
  assumes "csc_ptr_ok A"
  shows "ok (clean_slow A) (slow_post A)"
proof -
  let ?init = "\<lparr>s_map = replicate (nat (elt (col_ptr A) (csc_n A))) (-1), s_dups = 0, s_oor = 0, s_missing = 0,
        s_ptr = replicate (nat (csc_n A) + 1) 0, s_rows = [], s_vals = [], s_idx = 0\<rparr>"
  have n: "0 \<le> csc_n A" using assms by (simp add: csc_ptr_ok_def)
  have "ok (for_range 0 (csc_n A) (clean_column A) ?init) (slow_inv A (csc_n A))"
  proof (rule for_range_ok [where I = "slow_inv A"], goal_cases)
    case 1
    then show ?case using assms n
      by (auto simp: slow_inv_def clean_cols_def bad_upto_def csc_ptr_ok_def elt_def)
  next
    case (2 j st)
    have "ok (clean_column A j st) (\<lambda>st'. column_post A j st st' \<and> col_mapped A j (s_idx st) (s_map st'))"
      using 2(3) csc_slot_bounds(2) [OF assms 2(1,2)]
      by (intro clean_column_ok [OF assms 2(1,2)]) (simp_all add: slow_inv_def)
    then show ?case by (rule ok_mono) (use slow_inv_step [OF assms 2(2,3)] in blast)
  next
    case (3 st)
    then show ?case using n by (simp add: max_def)
  qed
  moreover have "vget (col_ptr A) (csc_n A) = Some (elt (col_ptr A) (csc_n A))"
    using csc_len_ptr [OF assms] n by (simp add: vget_at)
  moreover have "slow_post A \<lparr>clean = \<lparr>csc_n = csc_n A, col_ptr = s_ptr st, row_idx = s_rows st, vals = s_vals st\<rparr>,
           original_to_clean = s_map st, duplicates = s_dups st, out_of_range = s_oor st,
           missing_diag = s_missing st, was_clean = False\<rparr>" if inv: "slow_inv A (csc_n A) st" for st
  proof -
    have "s_ptr st = col_ptr (csc_of_cols (clean_cols A (csc_n A)))"
      by (rule slow_ptr) (use inv n in \<open>simp_all add: slow_inv_def\<close>)
    then show ?thesis
      using inv assms n clean_cols_length [OF n, of A]
      by (simp add: slow_inv_def slow_post_def csc_of_cols_def csc_ptr_ok_def)
  qed
  ultimately show ?thesis by (auto simp: clean_slow_def intro: ok_mono)
qed

section \<open>What \<open>clean_lower_csc\<close> returns\<close>

lemma clean_shape_ok_eq:
  assumes "csc_machine A"
  shows "clean_shape_ok A = Some (csc_ptr_ok A)"
proof (cases "0 \<le> csc_n A \<and> int (length (col_ptr A)) = csc_n A + 1")
  case False
  have "size_t (csc_n A) = nat (csc_n A)" if "0 \<le> csc_n A"
    using that assms by (simp add: csc_machine_def in_int32_def size_t_nonneg)
  with False have "clean_shape_ok A = Some False" by (auto simp: clean_shape_ok_def)
  then show ?thesis using False by (auto simp: csc_ptr_ok_def)
next
  case len: True
  let ?bad = "\<exists>j. 0 \<le> j \<and> j < csc_n A \<and> elt (col_ptr A) (j + 1) < elt (col_ptr A) j"
  have sz: "size_t (csc_n A) = nat (csc_n A)"
    using len assms by (simp add: csc_machine_def in_int32_def size_t_nonneg)
  have mono: "for_brk 0 (csc_n A) (\<lambda>j _. do {
            hi \<leftarrow> vget (col_ptr A) (j + 1);
            lo \<leftarrow> vget (col_ptr A) j;
            Some (if hi < lo then Inl () else Inr ())
          }) () = Some (if ?bad then Inl () else Inr ())"
    by (rule for_brk_search) (use len in \<open>simp add: vget_at\<close>)
  have get: "vget (col_ptr A) 0 = Some (elt (col_ptr A) 0)"
    "vget (col_ptr A) (csc_n A) = Some (elt (col_ptr A) (csc_n A))"
    using len by (simp_all add: vget_at)
  have "elt (col_ptr A) (csc_n A) \<in> set (col_ptr A)" using len [THEN conjunct1] len [THEN conjunct2]
    by (simp add: elt_def)
  then have cn: "in_int32 (elt (col_ptr A) (csc_n A))" using assms by (auto simp: csc_machine_def)
  have nonneg: "0 \<le> elt (col_ptr A) (csc_n A)" if "elt (col_ptr A) 0 = 0" "\<not> ?bad"
  proof -
    have "elt (col_ptr A) 0 \<le> elt (col_ptr A) (int k)" if "int k \<le> csc_n A" for k
      using that
    proof (induction k)
      case (Suc k)
      then have "elt (col_ptr A) (int k) \<le> elt (col_ptr A) (int k + 1)"
        using \<open>\<not> ?bad\<close> Suc.prems by (auto simp: not_less dest: spec [of _ "int k"])
      with Suc show ?case by (simp add: add.commute)
    qed simp
    from this [of "nat (csc_n A)"] show ?thesis using len that(1) by simp
  qed
  then have "size_t (elt (col_ptr A) (csc_n A)) = nat (elt (col_ptr A) (csc_n A))"
    if "elt (col_ptr A) 0 = 0" "\<not> ?bad"
    using that cn by (simp add: in_int32_def size_t_nonneg)
  then show ?thesis
    using len sz mono get nonneg
    by (auto simp: clean_shape_ok_def csc_ptr_ok_def nat_eq_iff2 not_less)
qed

definition csc_clean :: "'v csc \<Rightarrow> bool" where
  "csc_clean A \<longleftrightarrow> csc_valid A \<and> csc_sorted A"

lemma csc_cleanD: "csc_clean A \<Longrightarrow> csc_ptr_ok A" "csc_clean A \<Longrightarrow> 0 \<le> csc_n A"
  by (simp_all add: csc_clean_def csc_valid_def csc_ptr_ok_def)

definition clean_post :: "'v::plus csc \<Rightarrow> matrix_info \<Rightarrow> 'v cleaned \<Rightarrow> matrix_info \<Rightarrow> bool" where
  "clean_post A info r info' \<longleftrightarrow>
     info' = info\<lparr>matrix_duplicates := duplicates r, matrix_out_of_range := out_of_range r,
                  matrix_missing_diag := missing_diag r\<rparr>
     \<and> (if csc_rows_ok A \<and> csc_sorted A
        then r = \<lparr>clean = A, original_to_clean = [0..int (length (row_idx A)) - 1], duplicates = 0,
                  out_of_range = 0, missing_diag = missing_upto A (csc_n A), was_clean = True\<rparr>
        else slow_post A r)"

lemma fast_scan_cases:
  assumes "csc_ptr_ok A"
  obtains (is_clean) "csc_rows_ok A \<and> csc_sorted A" "fast_scan A = Some (Inr (missing_upto A (csc_n A)))"
    | (not_clean) m where "\<not> (csc_rows_ok A \<and> csc_sorted A)" "fast_scan A = Some (Inl m)"
proof -
  from ok_ex [OF fast_scan_ok [OF assms]] obtain x where x: "fast_scan A = Some x"
    "case x of Inl _ \<Rightarrow> \<not> (csc_rows_ok A \<and> csc_sorted A)
     | Inr m \<Rightarrow> csc_rows_ok A \<and> csc_sorted A \<and> m = missing_upto A (csc_n A)" by blast
  show thesis
  proof (cases x)
    case (Inl m)
    with x that(2) show thesis by simp
  next
    case (Inr m)
    with x that(1) show thesis by simp
  qed
qed

lemma csc_cleanI:
  assumes "csc_machine A" "clean_shape_ok A = Some True" "map_option isl (fast_scan A) = Some False"
  shows "csc_clean A"
proof -
  have ptr: "csc_ptr_ok A" using clean_shape_ok_eq [OF assms(1)] assms(2) by simp
  then show ?thesis
    by (cases rule: fast_scan_cases) (use assms(3) ptr in \<open>simp_all add: csc_clean_def csc_valid_def\<close>)
qed

lemma count_missing_loop:
  assumes "csc_ptr_ok A" "csc_rows_ok A" "csc_sorted A"
  shows "for_range 0 (csc_n A) (count_missing A) 0 = Some (missing_upto A (csc_n A))"
proof -
  have n: "0 \<le> csc_n A" using assms by (simp add: csc_ptr_ok_def)
  have "ok (for_range 0 (csc_n A) (count_missing A) 0) (\<lambda>m. m = missing_upto A (csc_n A))"
  proof (rule for_range_ok [where I = "\<lambda>j m. 0 \<le> j \<and> m = missing_upto A j"], goal_cases)
    case (2 j m)
    then show ?case
      using ok_ex [OF count_missing_eq [OF assms(1) 2(1,2), of m]] assms(2,3) col_clean_all [of A]
      by (auto simp: missing_upto_Suc)
  qed (use n in \<open>auto simp: max_def\<close>)
  then show ?thesis by (simp add: ok_def)
qed

lemma clean_lower_ok:
  assumes "csc_machine A" "csc_ptr_ok A" "check \<or> csc_rows_ok A \<and> csc_sorted A"
  shows "ok (clean_lower_csc A info check) (\<lambda>(r, info'). clean_post A info r info')"
  using assms(2)
proof (cases rule: fast_scan_cases)
  case is_clean
  then show ?thesis
    using count_missing_loop [OF assms(2)]
    by (simp add: clean_lower_csc_def clean_shape_ok_eq [OF assms(1)] assms(2) clean_post_def)
next
  case (not_clean m)
  then have check using assms(3) by blast
  then show ?thesis
    using ok_ex [OF clean_slow_ok [OF assms(2)]] not_clean
    by (auto simp: clean_lower_csc_def clean_shape_ok_eq [OF assms(1)] assms(2) clean_post_def)
qed

lemma clean_col_rows:
  "sorted_wrt (<) (map fst (clean_col A j))"
  "fst ` set (clean_col A j) = {elt (row_idx A) k | k. k \<in> set (slots A j) \<and> \<not> bad_slot A j k}"
proof -
  have "sorted (map g_row (sort_key g_row (gathered_col A j)))" by simp
  from merge_runs_rows [OF this, of g_val]
  show "sorted_wrt (<) (map fst (clean_col A j))"
    "fst ` set (clean_col A j) = {elt (row_idx A) k | k. k \<in> set (slots A j) \<and> \<not> bad_slot A j k}"
    unfolding clean_col_def by (force simp: gathered_col_def image_iff)+
qed

lemma clean_cols_nth: "0 \<le> n \<Longrightarrow> j < length (clean_cols A n) \<Longrightarrow> clean_cols A n ! j = clean_col A (int j)"
  by (simp add: clean_cols_def)

lemma slow_result_valid:
  fixes A :: "'v::plus csc"
  assumes "0 \<le> csc_n A"
  defines "B \<equiv> csc_of_cols (clean_cols A (csc_n A))"
  shows "csc_valid B" "csc_sorted B" "csc_n B = csc_n A"
proof -
  show n: "csc_n B = csc_n A" using clean_cols_length [OF assms(1), of A] by (simp add: B_def)
  have "csc_rows_ok B" unfolding B_def
  proof (rule csc_of_cols_rows_ok)
    fix j i v assume j: "j < length (clean_cols A (csc_n A))" and iv: "(i, v) \<in> set (clean_cols A (csc_n A) ! j)"
    have "i \<in> fst ` set (clean_col A (int j))"
      using iv clean_cols_nth [OF assms(1) j] by (force simp: image_iff)
    then show "int j \<le> i \<and> i < int (length (clean_cols A (csc_n A)))"
      unfolding clean_col_rows(2) clean_cols_length [OF assms(1)] by auto
  qed
  then show "csc_valid B" by (simp add: csc_valid_def B_def csc_of_cols_ptr_ok)
  show "csc_sorted B" unfolding B_def
    by (rule csc_of_cols_sorted) (simp add: clean_cols_nth [OF assms(1)] clean_col_rows(1))
qed

lemma clean_col_sum:
  fixes A :: "'v::comm_monoid_add csc"
  assumes "j \<le> i" "i < csc_n A"
  shows "(\<Sum>(r, v)\<leftarrow>clean_col A j. if r = i then v else 0) = entry A i j"
proof -
  have "(\<Sum>(r, v)\<leftarrow>clean_col A j. if r = i then v else 0) =
        (\<Sum>x\<leftarrow>gathered_col A j. if g_row x = i then g_val x else 0)"
    unfolding clean_col_def merge_runs_sum by (rule sum_list_sort_key)
  also have "\<dots> = (\<Sum>k\<leftarrow>filter (\<lambda>k. \<not> bad_slot A j k) (slots A j). if elt (row_idx A) k = i then elt (vals A) k else 0)"
    by (simp add: gathered_col_def comp_def cong: if_cong)
  also have "\<dots> = entry A i j"
    unfolding entry_def by (rule sum_list_filter_valid) (use assms in auto)
  finally show ?thesis .
qed

lemma slow_result_entry:
  fixes A :: "'v::comm_monoid_add csc"
  assumes "0 \<le> j" "j \<le> i" "i < csc_n A"
  shows "entry (csc_of_cols (clean_cols A (csc_n A))) i j = entry A i j"
proof -
  have n: "0 \<le> csc_n A" using assms by simp
  have j: "j < int (length (clean_cols A (csc_n A)))" using assms clean_cols_length [OF n, of A] by simp
  have "clean_cols A (csc_n A) ! nat j = clean_col A j"
    using clean_cols_nth [OF n, of "nat j" A] j assms(1) by simp
  then show ?thesis by (simp add: csc_of_cols_entry [OF assms(1) j] clean_col_sum assms)
qed

definition empty_info :: matrix_info where
  "empty_info = \<lparr>status = Success, matrix_duplicates = 0, matrix_out_of_range = 0, matrix_missing_diag = 0\<rparr>"

text \<open>A column with an unsorted, a duplicate and an out-of-range entry, and one without a diagonal.\<close>

definition example_dirty :: "int csc" where
  "example_dirty = \<lparr>csc_n = 3, col_ptr = [0, 4, 5, 6], row_idx = [2, 0, 2, 7, 2, 2], vals = [4, 1, 3, 9, 5, 6]\<rparr>"

lemma example_dirty_ok: "csc_machine example_dirty" "csc_ptr_ok example_dirty"
proof -
  show m: "csc_machine example_dirty" by (simp add: example_dirty_def csc_machine_def in_int32_def)
  have "clean_shape_ok example_dirty = Some True" by code_simp
  then show "csc_ptr_ok example_dirty" by (simp add: clean_shape_ok_eq [OF m])
qed

text \<open>C15: cleaning a matrix whose column pointers are well formed never fails and never reads out
  of bounds; the result is a valid lower triangle with strictly increasing rows in every column,
  and each position of the lower triangle holds the sum of the input's entries there.\<close>

theorem clean_lower_csc_result:
  fixes A :: "'v::comm_monoid_add csc"
  assumes "csc_machine A" "csc_ptr_ok A" "check \<or> csc_rows_ok A \<and> csc_sorted A"
  shows "\<exists>r info'. clean_lower_csc A info check = Some (r, info')
    \<and> status info' = status info \<and> csc_n (clean r) = csc_n A
    \<and> csc_valid (clean r) \<and> csc_sorted (clean r)
    \<and> (\<forall>i j. 0 \<le> j \<and> j \<le> i \<and> i < csc_n A \<longrightarrow> entry (clean r) i j = entry A i j)"
proof -
  obtain r info' where r: "clean_lower_csc A info check = Some (r, info')" "clean_post A info r info'"
    using ok_ex [OF clean_lower_ok [OF assms, of info]] by auto
  have n: "0 \<le> csc_n A" using assms(2) by (simp add: csc_ptr_ok_def)
  show ?thesis
  proof (cases "csc_rows_ok A \<and> csc_sorted A")
    case True
    then show ?thesis using r assms(2) by (simp add: clean_post_def csc_valid_def)
  next
    case False
    then have "clean r = csc_of_cols (clean_cols A (csc_n A))"
      using r(2) unfolding clean_post_def if_not_P [OF False] slow_post_def by blast
    moreover have "status info' = status info" using r(2) by (simp add: clean_post_def)
    ultimately show ?thesis
      using r(1) slow_result_valid [OF n] slow_result_entry [of _ _ A] by simp
  qed
qed

theorem clean_lower_csc_result_witness:
  "\<exists>r info'. clean_lower_csc example_dirty empty_info True = Some (r, info')
     \<and> csc_valid (clean r) \<and> csc_sorted (clean r) \<and> entry (clean r) 2 0 = 7"
proof -
  have "entry example_dirty 2 0 = 7" by code_simp
  then show ?thesis
    using clean_lower_csc_result [OF example_dirty_ok, of True empty_info]
    by (auto simp: example_dirty_def)
qed

text \<open>C24: the map from original to clean entries: an entry outside the lower triangle maps to -1,
  every other entry to the clean entry of its own row and column.\<close>

theorem original_to_clean_correct:
  fixes A :: "'v::plus csc"
  assumes "csc_machine A" "csc_ptr_ok A" "check \<or> csc_rows_ok A \<and> csc_sorted A"
    and "clean_lower_csc A info check = Some (r, info')"
    and "0 \<le> j" "j < csc_n A" "elt (col_ptr A) j \<le> k" "k < elt (col_ptr A) (j + 1)"
  shows "let m = elt (original_to_clean r) k in
    length (original_to_clean r) = length (row_idx A)
    \<and> (if elt (row_idx A) k < j \<or> elt (row_idx A) k \<ge> csc_n A then m = -1
       else elt (col_ptr (clean r)) j \<le> m \<and> m < elt (col_ptr (clean r)) (j + 1)
         \<and> elt (row_idx (clean r)) m = elt (row_idx A) k)"
proof -
  have post: "clean_post A info r info'"
    using ok_the [OF clean_lower_ok [OF assms(1-3), of info] assms(4)] by simp
  have n: "0 \<le> csc_n A" using assms(2) by (simp add: csc_ptr_ok_def)
  show ?thesis
  proof (cases "csc_rows_ok A \<and> csc_sorted A")
    case True
    have "j \<le> elt (row_idx A) k" "elt (row_idx A) k < csc_n A"
      using True assms(5-8) unfolding csc_rows_ok_def by blast+
    moreover have "elt [0..int (length (row_idx A)) - 1] k = k"
      using csc_slot_bounds [OF assms(2,5-8)] by (simp add: elt_def)
    ultimately show ?thesis using post True assms(7,8) by (simp add: clean_post_def)
  next
    case False
    then have slow: "slow_post A r" using post unfolding clean_post_def if_not_P [OF False] by blast
    let ?B = "csc_of_cols (clean_cols A (csc_n A))"
    have j: "j < int (length (clean_cols A (csc_n A)))" using assms(6) clean_cols_length [OF n, of A] by simp
    have col: "clean_cols A (csc_n A) ! nat j = clean_col A j"
      using clean_cols_nth [OF n, of "nat j" A] j assms(5) by simp
    have start: "elt (col_ptr ?B) j = cols_len A j"
      using clean_cols_take [of j "csc_n A" A] assms(5,6) j by (simp add: csc_of_cols_ptr)
    have map: "col_mapped A j (cols_len A j) (original_to_clean r)"
      and len: "length (original_to_clean r) = length (row_idx A)" and clean: "clean r = ?B"
      using slow assms(5,6) unfolding slow_post_def by blast+
    show ?thesis
    proof (cases "bad_slot A j k")
      case True
      then show ?thesis using map len assms(7,8) by (simp add: col_mapped_def)
    next
      case False
      have "\<exists>p < length (clean_col A j). elt (original_to_clean r) k = cols_len A j + int p
          \<and> fst (clean_col A j ! p) = elt (row_idx A) k"
        using map [unfolded col_mapped_def, rule_format, OF conjI, OF assms(7,8)]
        unfolding if_not_P [OF False] .
      then obtain p where p: "p < length (clean_col A j)"
        "elt (original_to_clean r) k = elt (col_ptr ?B) j + int p" "fst (clean_col A j ! p) = elt (row_idx A) k"
        unfolding start by blast
      then show ?thesis
        using False len csc_of_cols_slot(1) [OF assms(5) j, of p] csc_of_cols_ptr_step [OF assms(5) j]
        by (simp add: clean col Let_def)
    qed
  qed
qed

theorem original_to_clean_correct_witness:
  "\<exists>r info'. clean_lower_csc example_dirty empty_info True = Some (r, info')
     \<and> elt (original_to_clean r) 3 = -1
     \<and> elt (row_idx (clean r)) (elt (original_to_clean r) 2) = 2"
proof -
  have "map_option fst (clean_lower_csc example_dirty empty_info True) \<noteq> None" by code_simp
  then obtain r info' where r: "clean_lower_csc example_dirty empty_info True = Some (r, info')" by auto
  show ?thesis
    using original_to_clean_correct [OF example_dirty_ok _ r, of 0 3]
      original_to_clean_correct [OF example_dirty_ok _ r, of 0 2] r
    by (simp add: example_dirty_def elt_def Let_def)
qed

text \<open>the diagnostics account for every input entry: each is out of range, merged into an
  earlier duplicate, or kept. \<open>missing_diag\<close> counts the columns without a diagonal entry,
  \<open>was_clean\<close> is set exactly for clean input, and all three counters reach \<open>Info\<close>.\<close>

theorem clean_lower_csc_counts:
  fixes A :: "'v::plus csc"
  assumes "csc_machine A" "csc_ptr_ok A" "check \<or> csc_rows_ok A \<and> csc_sorted A"
  shows "\<exists>r info'. clean_lower_csc A info check = Some (r, info')
    \<and> out_of_range r + duplicates r + int (length (row_idx (clean r))) = int (length (row_idx A))
    \<and> out_of_range r = (\<Sum>j\<leftarrow>[0..csc_n A - 1]. int (length (filter (\<lambda>k. elt (row_idx A) k < j \<or> elt (row_idx A) k \<ge> csc_n A)
          [elt (col_ptr A) j..elt (col_ptr A) (j + 1) - 1])))
    \<and> missing_diag r = int (card {j. 0 \<le> j \<and> j < csc_n A \<and> \<not> has_diag A j})
    \<and> (was_clean r \<longleftrightarrow> csc_rows_ok A \<and> csc_sorted A)
    \<and> matrix_duplicates info' = duplicates r \<and> matrix_out_of_range info' = out_of_range r
    \<and> matrix_missing_diag info' = missing_diag r"
proof -
  obtain r info' where r: "clean_lower_csc A info check = Some (r, info')" "clean_post A info r info'"
    using ok_ex [OF clean_lower_ok [OF assms, of info]] by auto
  show ?thesis
  proof (cases "csc_rows_ok A \<and> csc_sorted A")
    case True
    have "bad_count A j = 0" if "j \<in> set [0..csc_n A - 1]" for j
      using True that by (auto simp: bad_count_def filter_empty_conv csc_rows_ok_def not_less not_le)
    then have "map (bad_count A) [0..csc_n A - 1] = map (\<lambda>_. 0) [0..csc_n A - 1]" by simp
    then have "bad_upto A (csc_n A) = 0" unfolding bad_upto_def by (simp del: map_eq_conv)
    then show ?thesis using r True by (simp add: clean_post_def missing_upto_def bad_upto_def bad_count_def)
  next
    case False
    then have "slow_post A r" using r(2) unfolding clean_post_def if_not_P [OF False] by blast
    then have facts: "out_of_range r + duplicates r + int (length (row_idx (clean r))) = int (length (row_idx A))"
      "out_of_range r = bad_upto A (csc_n A)" "missing_diag r = missing_upto A (csc_n A)" "\<not> was_clean r"
      unfolding slow_post_def by blast+
    have info: "info' = info\<lparr>matrix_duplicates := duplicates r, matrix_out_of_range := out_of_range r,
        matrix_missing_diag := missing_diag r\<rparr>"
      using r(2) unfolding clean_post_def by blast
    show ?thesis
      using facts False
      by (intro exI [of _ r] exI [of _ info'] conjI r(1))
        (simp_all add: info missing_upto_def bad_upto_def bad_count_def)
  qed
qed

theorem clean_lower_csc_counts_witness:
  "\<exists>r info'. clean_lower_csc example_dirty empty_info True = Some (r, info')
     \<and> out_of_range r = 1 \<and> duplicates r + int (length (row_idx (clean r))) = 5"
  using clean_lower_csc_counts [OF example_dirty_ok, of True empty_info]
  by (auto simp: example_dirty_def elt_def upto_rec1)

text \<open>C40: on malformed column pointers \<open>clean_lower_csc\<close> sets \<open>IllegalValue\<close>, returns the empty
  result and touches nothing else, without an out-of-bounds read whatever the sizes are (unlike
  \<open>validate_shape\<close>, it tests the sign of \<open>n\<close> first); it sets it on nothing else.\<close>

theorem clean_lower_csc_rejects:
  assumes "csc_machine A" "\<not> csc_ptr_ok A"
  shows "clean_lower_csc A info check = Some (cleaned_default, info\<lparr>status := IllegalValue\<rparr>)"
  by (simp add: clean_lower_csc_def clean_shape_ok_eq assms)

theorem clean_lower_csc_rejects_witness:
  "clean_lower_csc \<lparr>csc_n = -1, col_ptr = [], row_idx = [], vals = [] :: int list\<rparr> empty_info True =
     Some (cleaned_default, empty_info\<lparr>status := IllegalValue\<rparr>)"
  by (rule clean_lower_csc_rejects) (simp_all add: csc_machine_def in_int32_def csc_ptr_ok_def)

end
