(* ===== verification/Bucket.thy ===== *)
theory Bucket
  imports Prelude
begin

text \<open>
  The counting sort every sparse structure of the solver is built with: count the items of each
  key, turn the counts into start offsets by a prefix sum, and scatter the items with a cursor
  per key. The result is the items of key 0, then those of key 1, and so on, each group in input
  order: \<open>concat (buckets key n xs)\<close>.
\<close>

section \<open>The three loops\<close>

definition bump :: "int list \<Rightarrow> int \<Rightarrow> int list option" where
  "bump cnt k = do { c \<leftarrow> vget cnt k; vset cnt k (c + 1) }"

definition prefix_step :: "int list \<Rightarrow> int \<Rightarrow> int list \<Rightarrow> int list option" where
  "prefix_step cnt j ptr = do {
     p \<leftarrow> vget ptr j;
     c \<leftarrow> vget cnt j;
     vset ptr (j + 1) (p + c)
   }"

definition place :: "('a \<Rightarrow> int) \<Rightarrow> ('a \<Rightarrow> 'b) \<Rightarrow> 'a \<Rightarrow> int list \<times> 'b list \<Rightarrow> (int list \<times> 'b list) option" where
  "place key val x = (\<lambda>(cur, out). do {
     pos \<leftarrow> vget cur (key x);
     cur \<leftarrow> vset cur (key x) (pos + 1);
     out \<leftarrow> vset out pos (val x);
     Some (cur, out)
   })"

section \<open>Buckets\<close>

definition buckets :: "('a \<Rightarrow> int) \<Rightarrow> int \<Rightarrow> 'a list \<Rightarrow> 'a list list" where
  "buckets key n xs = map (\<lambda>j. filter (\<lambda>x. key x = j) xs) [0..n - 1]"

definition bcount :: "('a \<Rightarrow> int) \<Rightarrow> 'a list \<Rightarrow> int \<Rightarrow> int" where
  "bcount key xs j = int (length (filter (\<lambda>x. key x = j) xs))"

definition bptr :: "('a \<Rightarrow> int) \<Rightarrow> 'a list \<Rightarrow> int \<Rightarrow> int" where
  "bptr key xs j = int (length (concat (buckets key j xs)))"

lemma buckets_length: "0 \<le> n \<Longrightarrow> int (length (buckets key n xs)) = n"
  by (simp add: buckets_def)

lemma buckets_nth: "j < length (buckets key n xs) \<Longrightarrow> buckets key n xs ! j = filter (\<lambda>x. key x = int j) xs"
  by (simp add: buckets_def)

lemma buckets_Suc: "0 \<le> j \<Longrightarrow> buckets key (j + 1) xs = buckets key j xs @ [filter (\<lambda>x. key x = j) xs]"
  by (simp add: buckets_def upto_rec2)

lemma buckets_take: "0 \<le> j \<Longrightarrow> j \<le> n \<Longrightarrow> take (nat j) (buckets key n xs) = buckets key j xs"
  unfolding buckets_def take_map by (rule arg_cong [where f = "map _"], rule nth_equalityI) auto

lemma bcount_simps [simp]:
  "bcount key [] j = 0"
  "bcount key (xs @ ys) j = bcount key xs j + bcount key ys j"
  "bcount key [x] j = (if key x = j then 1 else 0)"
  by (simp_all add: bcount_def)

lemma bcount_nonneg: "0 \<le> bcount key xs j"
  by (simp add: bcount_def)

lemma bptr_0 [simp]: "bptr key xs 0 = 0"
  by (simp add: bptr_def buckets_def)

lemma bptr_Suc: "0 \<le> j \<Longrightarrow> bptr key xs (j + 1) = bptr key xs j + bcount key xs j"
  by (simp add: bptr_def bcount_def buckets_Suc)

lemma bptr_mono:
  assumes "0 \<le> i" "i \<le> j"
  shows "bptr key xs i \<le> bptr key xs j"
  using assms(2)
proof (induction j rule: int_ge_induct)
  case (step j)
  then show ?case using bptr_Suc [of j key xs] bcount_nonneg [of key xs j] assms(1) by simp
qed simp

lemma bptr_below: "0 \<le> i \<Longrightarrow> i < j \<Longrightarrow> bptr key xs i + bcount key xs i \<le> bptr key xs j"
  using bptr_mono [of "i + 1" j key xs] bptr_Suc [of i key xs] by simp

lemma bptr_nonneg: "0 \<le> j \<Longrightarrow> 0 \<le> bptr key xs j"
  using bptr_mono [of 0 j key xs] by simp

lemma buckets_mset:
  assumes "\<forall>x \<in> set xs. 0 \<le> key x \<and> key x < n"
  shows "mset (concat (buckets key n xs)) = mset xs"
proof -
  have "mset (concat (buckets key (int k) xs)) = mset (filter (\<lambda>x. key x < int k) xs)"
    if "\<And>x. x \<in> set xs \<Longrightarrow> 0 \<le> key x" for k
  proof (induction k)
    case 0
    have "filter (\<lambda>x. key x < 0) xs = []" using that by (auto simp: filter_empty_conv not_less)
    then show ?case by (simp add: buckets_def)
  next
    case (Suc k)
    have "mset (filter (\<lambda>x. key x < int (Suc k)) xs) =
        mset (filter (\<lambda>x. key x < int k) xs) + mset (filter (\<lambda>x. key x = int k) xs)"
      by (induction xs) auto
    then show ?case using Suc buckets_Suc [of "int k" key xs] by (simp add: add.commute)
  qed
  from this [of "nat n"] assms(1) have "mset (concat (buckets key (int (nat n)) xs)) = mset (filter (\<lambda>x. key x < int (nat n)) xs)"
    by blast
  moreover have "filter (\<lambda>x. key x < int (nat n)) xs = xs"
    using assms by (fastforce simp: filter_id_conv)
  moreover have "buckets key (int (nat n)) xs = buckets key n xs"
    by (simp add: buckets_def)
  ultimately show ?thesis by metis
qed

lemma bptr_total:
  assumes "\<forall>x \<in> set xs. 0 \<le> key x \<and> key x < n"
  shows "bptr key xs n = int (length xs)"
  using buckets_mset [OF assms] by (metis bptr_def size_mset)

section \<open>The loops compute the buckets\<close>

lemma count_ok:
  assumes "\<And>x. x \<in> set xs \<Longrightarrow> 0 \<le> key x \<and> key x < int (length cnt)"
  shows "ok (forM xs (\<lambda>x cnt. bump cnt (key x)) cnt)
    (\<lambda>cnt'. length cnt' = length cnt \<and> (\<forall>j \<ge> 0. elt cnt' j = elt cnt j + bcount key xs j))"
proof (rule forM_ok [where I = "\<lambda>pre _ c. length c = length cnt \<and> (\<forall>j \<ge> 0. elt c j = elt cnt j + bcount key pre j)"],
    goal_cases)
  case (2 pre x suf c)
  then show ?case using assms by (auto simp: bump_def at_update elt_def [symmetric])
qed simp_all

lemma prefix_ok:
  assumes "int (length ptr) = n + 1" "int (length cnt) = n" "elt ptr 0 = 0"
    "\<And>j. 0 \<le> j \<Longrightarrow> j < n \<Longrightarrow> elt cnt j = bcount key xs j"
  shows "ok (for_range 0 n (prefix_step cnt) ptr)
    (\<lambda>ptr'. int (length ptr') = n + 1 \<and> (\<forall>j. 0 \<le> j \<and> j \<le> n \<longrightarrow> elt ptr' j = bptr key xs j))"
proof (rule for_range_ok [where I = "\<lambda>j p. 0 \<le> j \<and> int (length p) = n + 1
      \<and> (\<forall>i. 0 \<le> i \<and> i \<le> j \<longrightarrow> elt p i = bptr key xs i)"], goal_cases)
  case 1
  then show ?case using assms(1,3) by (auto simp: order_antisym_conv)
next
  case (2 j p)
  then show ?case using assms(2,4)
    by (auto simp: prefix_step_def at_update elt_def [symmetric] bptr_Suc)
next
  case (3 p)
  then show ?case using assms(2) by (simp add: max_def)
qed

definition filled :: "('a \<Rightarrow> int) \<Rightarrow> ('a \<Rightarrow> 'b) \<Rightarrow> int \<Rightarrow> 'a list \<Rightarrow> 'a list \<Rightarrow> 'b list \<Rightarrow> bool" where
  "filled key val n xs pre out \<longleftrightarrow>
     (\<forall>j p. 0 \<le> j \<and> j < n \<and> p < length (filter (\<lambda>x. key x = j) pre) \<longrightarrow>
        elt out (bptr key xs j + int p) = val (filter (\<lambda>x. key x = j) pre ! p))"

lemma filled_Nil [simp]: "filled key val n xs [] out"
  by (simp add: filled_def)

text \<open>The slot of the next item: inside the array, and no earlier slot.\<close>

lemma slot_bound:
  assumes "xs = pre @ x # suf" "\<forall>x \<in> set xs. 0 \<le> key x \<and> key x < n"
  shows "0 \<le> bptr key xs (key x) + bcount key pre (key x)"
    "bptr key xs (key x) + bcount key pre (key x) < int (length xs)"
proof -
  have x: "0 \<le> key x" "key x < n" using assms by auto
  then show "0 \<le> bptr key xs (key x) + bcount key pre (key x)"
    using bptr_nonneg [of "key x" key xs] bcount_nonneg [of key pre "key x"] by simp
  have "bcount key pre (key x) < bcount key xs (key x)"
    using assms(1) by (simp add: bcount_def)
  then show "bptr key xs (key x) + bcount key pre (key x) < int (length xs)"
    using bptr_below [OF x, of key xs] bptr_total [OF assms(2)] by simp
qed

lemma filled_step:
  assumes xs: "xs = pre @ x # suf" "\<forall>x \<in> set xs. 0 \<le> key x \<and> key x < n"
    and out: "length xs \<le> length out" "filled key val n xs pre out"
  shows "filled key val n xs (pre @ [x]) (out[nat (bptr key xs (key x) + bcount key pre (key x)) := val x])"
  unfolding filled_def
proof (intro allI impI, elim conjE)
  fix j p assume j: "0 \<le> j" "j < n" and p: "p < length (filter (\<lambda>x. key x = j) (pre @ [x]))"
  let ?slot = "bptr key xs (key x) + bcount key pre (key x)"
  have kx: "0 \<le> key x" using xs by auto
  have pc: "int p < bcount key xs j"
    using p xs(1) by (auto simp: bcount_def split: if_splits)
  note upd = at_update [of "bptr key xs j + int p" ?slot out "val x"]
  have bounds: "0 \<le> bptr key xs j + int p" "0 \<le> ?slot" "?slot < int (length out)"
    using slot_bound [OF xs] out(1) bptr_nonneg [OF j(1), of key xs] by simp_all
  show "elt (out[nat ?slot := val x]) (bptr key xs j + int p) = val (filter (\<lambda>x. key x = j) (pre @ [x]) ! p)"
  proof (cases "key x = j")
    case False
    have "int p < bcount key pre j" using p False by (simp add: bcount_def)
    have "bcount key pre (key x) < bcount key xs (key x)" using xs(1) by (simp add: bcount_def)
    then have "bptr key xs j + int p \<noteq> ?slot"
      using bptr_below [of j "key x" key xs] bptr_below [of "key x" j key xs] False j kx pc
        bcount_nonneg [of key pre "key x"] by (cases "j < key x") linarith+
    then show ?thesis using upd bounds out(2) j p False by (simp add: filled_def)
  next
    case True
    show ?thesis
    proof (cases "int p = bcount key pre j")
      case True
      then show ?thesis using upd bounds \<open>key x = j\<close> by (simp add: bcount_def nth_append)
    next
      case False
      with p \<open>key x = j\<close> have "p < length (filter (\<lambda>x. key x = j) pre)" by (simp add: bcount_def)
      moreover have "bptr key xs j + int p \<noteq> ?slot" using False \<open>key x = j\<close> by simp
      ultimately show ?thesis using upd bounds out(2) j by (simp add: filled_def nth_append)
    qed
  qed
qed

lemma filled_all:
  assumes keys: "\<forall>x \<in> set xs. 0 \<le> key x \<and> key x < n"
    and out: "length xs \<le> length out" "filled key val n xs xs out" and n: "0 \<le> n"
  shows "take (length xs) out = map val (concat (buckets key n xs))"
proof -
  have "take (nat (bptr key xs j)) out = map val (concat (buckets key j xs))" if "0 \<le> j" "j \<le> n" for j
    using that
  proof (induction j rule: int_ge_induct)
    case (step j)
    have le: "bptr key xs (j + 1) \<le> int (length out)"
      using bptr_mono [of "j + 1" n key xs] step bptr_total [OF keys] out(1) by simp
    have eq: "nat (bptr key xs (j + 1)) = nat (bptr key xs j) + length (filter (\<lambda>x. key x = j) xs)"
      using bptr_Suc [OF step(1), of key xs] bptr_nonneg [OF step(1), of key xs] by (simp add: bcount_def nat_add_distrib)
    have "take (length (filter (\<lambda>x. key x = j) xs)) (drop (nat (bptr key xs j)) out) =
        map val (filter (\<lambda>x. key x = j) xs)"
    proof (rule nth_equalityI)
      show "length (take (length (filter (\<lambda>x. key x = j) xs)) (drop (nat (bptr key xs j)) out)) =
          length (map val (filter (\<lambda>x. key x = j) xs))"
        using le eq by simp
      fix p assume "p < length (take (length (filter (\<lambda>x. key x = j) xs)) (drop (nat (bptr key xs j)) out))"
      then have p: "p < length (filter (\<lambda>x. key x = j) xs)" by simp
      moreover have "out ! (nat (bptr key xs j) + p) = elt out (bptr key xs j + int p)"
        using bptr_nonneg [OF step(1), of key xs] by (simp add: elt_def nat_add_distrib)
      ultimately show "take (length (filter (\<lambda>x. key x = j) xs)) (drop (nat (bptr key xs j)) out) ! p =
          map val (filter (\<lambda>x. key x = j) xs) ! p"
        using out(2) step(1,3) le eq by (simp add: filled_def)
    qed
    then show ?case using step by (simp add: eq take_add buckets_Suc)
  qed (simp add: buckets_def)
  from this [of n] n bptr_total [OF keys] out(1) show ?thesis by simp
qed

text \<open>The state of the scatter after the items \<open>pre\<close>.\<close>

definition place_inv ::
  "('a \<Rightarrow> int) \<Rightarrow> ('a \<Rightarrow> 'b) \<Rightarrow> int \<Rightarrow> 'a list \<Rightarrow> 'a list \<Rightarrow> int list \<times> 'b list \<Rightarrow> bool" where
  "place_inv key val n xs pre = (\<lambda>(cur, out). n \<le> int (length cur) \<and> length xs \<le> length out
     \<and> (\<forall>j. 0 \<le> j \<and> j < n \<longrightarrow> elt cur j = bptr key xs j + bcount key pre j) \<and> filled key val n xs pre out)"

lemma place_step:
  assumes keys: "\<forall>x \<in> set xs. 0 \<le> key x \<and> key x < n" and xs: "xs = pre @ x # suf"
    and inv: "place_inv key val n xs pre s"
  shows "ok (place key val x s) (\<lambda>s'. place_inv key val n xs (pre @ [x]) s'
    \<and> length (fst s') = length (fst s) \<and> length (snd s') = length (snd s))"
proof -
  obtain c arr where s: "s = (c, arr)" by (cases s)
  have x: "0 \<le> key x" "key x < n" using keys xs by auto
  have "elt c (key x) = bptr key xs (key x) + bcount key pre (key x)"
    using inv x s by (simp add: place_inv_def)
  then show ?thesis
    using inv s x slot_bound [OF xs keys] filled_step [OF xs keys, of arr val]
    by (auto simp: place_inv_def place_def elt_def [symmetric] at_update)
qed

lemma place_run:
  assumes keys: "\<forall>x \<in> set xs. 0 \<le> key x \<and> key x < n" and xs: "xs = pre @ ys @ suf"
    and inv: "place_inv key val n xs pre s"
  shows "ok (forM ys (place key val) s) (\<lambda>s'. place_inv key val n xs (pre @ ys) s'
    \<and> length (fst s') = length (fst s) \<and> length (snd s') = length (snd s))"
  using xs inv
proof (induction ys arbitrary: pre s)
  case (Cons y ys)
  have "ok (place key val y s) (\<lambda>s'. place_inv key val n xs (pre @ [y]) s'
      \<and> length (fst s') = length (fst s) \<and> length (snd s') = length (snd s))"
    by (rule place_step [OF keys _ Cons.prems(2)]) (use Cons.prems(1) in simp)
  then obtain s1 where s1: "place key val y s = Some s1" "place_inv key val n xs (pre @ [y]) s1"
    "length (fst s1) = length (fst s)" "length (snd s1) = length (snd s)" using ok_ex by blast
  have "ok (forM ys (place key val) s1)
      (\<lambda>s'. place_inv key val n xs ((pre @ [y]) @ ys) s'
        \<and> length (fst s') = length (fst s1) \<and> length (snd s') = length (snd s1))"
    by (rule Cons.IH) (use Cons.prems(1) s1(2) in simp_all)
  then show ?case using s1 by simp
qed simp

lemma place_inv_start:
  "n \<le> int (length cur) \<Longrightarrow> (\<And>j. 0 \<le> j \<Longrightarrow> j < n \<Longrightarrow> elt cur j = bptr key xs j) \<Longrightarrow>
   length xs \<le> length out \<Longrightarrow> place_inv key val n xs [] (cur, out)"
  by (simp add: place_inv_def)

lemma place_inv_end:
  assumes "\<forall>x \<in> set xs. 0 \<le> key x \<and> key x < n" "0 \<le> n" "place_inv key val n xs xs (cur, out)"
  shows "take (length xs) out = map val (concat (buckets key n xs))" "\<And>j. 0 \<le> j \<Longrightarrow> j < n \<Longrightarrow> elt cur j = bptr key xs (j + 1)"
  using assms filled_all [OF assms(1) _ _ assms(2), of out val] by (auto simp: place_inv_def bptr_Suc)

lemma place_ge_ok:
  assumes keys: "\<forall>x \<in> set xs. 0 \<le> key x \<and> key x < n" and n: "0 \<le> n"
    and cur: "n \<le> int (length cur)" "\<And>j. 0 \<le> j \<Longrightarrow> j < n \<Longrightarrow> elt cur j = bptr key xs j"
    and out: "length xs \<le> length out"
  shows "ok (forM xs (place key val) (cur, out)) (\<lambda>(cur', out'). length cur' = length cur \<and> length out' = length out
    \<and> (\<forall>j. 0 \<le> j \<and> j < n \<longrightarrow> elt cur' j = bptr key xs (j + 1))
    \<and> take (length xs) out' = map val (concat (buckets key n xs)))"
  using ok_ex [OF place_run [OF keys _ place_inv_start [OF cur out], of xs "[]" val]] place_inv_end [OF keys n]
  by (auto simp: ok_def)

lemma place_ok:
  assumes keys: "\<forall>x \<in> set xs. 0 \<le> key x \<and> key x < n" and n: "0 \<le> n"
    and cur: "n \<le> int (length cur)" "\<And>j. 0 \<le> j \<Longrightarrow> j < n \<Longrightarrow> elt cur j = bptr key xs j"
    and out: "length out = length xs"
  shows "ok (forM xs (place key val) (cur, out)) (\<lambda>(cur', out'). length cur' = length cur
    \<and> (\<forall>j. 0 \<le> j \<and> j < n \<longrightarrow> elt cur' j = bptr key xs (j + 1)) \<and> out' = map val (concat (buckets key n xs)))"
  using place_ge_ok [OF keys n cur, of out val] out by (auto elim!: ok_mono)

text \<open>The same scatter into two parallel arrays.\<close>

definition place2 :: "('a \<Rightarrow> int) \<Rightarrow> ('a \<Rightarrow> 'b) \<Rightarrow> ('a \<Rightarrow> 'c) \<Rightarrow> 'a \<Rightarrow>
    int list \<times> 'b list \<times> 'c list \<Rightarrow> (int list \<times> 'b list \<times> 'c list) option" where
  "place2 key f g x = (\<lambda>(cur, a, b). do {
     pos \<leftarrow> vget cur (key x);
     cur \<leftarrow> vset cur (key x) (pos + 1);
     a \<leftarrow> vset a pos (f x);
     b \<leftarrow> vset b pos (g x);
     Some (cur, a, b)
   })"

lemma place2_ok:
  assumes keys: "\<forall>x \<in> set xs. 0 \<le> key x \<and> key x < n" and n: "0 \<le> n"
    and cur: "n \<le> int (length cur)" "\<And>j. 0 \<le> j \<Longrightarrow> j < n \<Longrightarrow> elt cur j = bptr key xs j"
    and out: "length a = length xs" "length b = length xs"
  shows "ok (forM xs (place2 key f g) (cur, a, b)) (\<lambda>(cur', a', b').
    a' = map f (concat (buckets key n xs)) \<and> b' = map g (concat (buckets key n xs)))"
proof (rule forM_ok [where I = "\<lambda>pre _ (c, a', b'). length c = length cur
      \<and> length a' = length xs \<and> length b' = length xs
      \<and> (\<forall>j. 0 \<le> j \<and> j < n \<longrightarrow> elt c j = bptr key xs j + bcount key pre j)
      \<and> filled key f n xs pre a' \<and> filled key g n xs pre b'"], goal_cases)
  case 1
  then show ?case using cur(2) out by simp
next
  case (2 pre x suf s)
  obtain c a' b' where s: "s = (c, a', b')" by (cases s)
  have x: "0 \<le> key x" "key x < n" using keys 2(1) by auto
  have "elt c (key x) = bptr key xs (key x) + bcount key pre (key x)" using 2(2) x s by simp
  then show ?case
    using 2(2) s x cur(1) slot_bound [OF 2(1) keys] filled_step [OF 2(1) keys, of a' f]
      filled_step [OF 2(1) keys, of b' g]
    by (auto simp: place2_def elt_def [symmetric] at_update)
next
  case (3 s)
  obtain c a' b' where s: "s = (c, a', b')" by (cases s)
  then show ?case using 3 filled_all [OF keys _ _ n, of a' f] filled_all [OF keys _ _ n, of b' g] by simp
qed

text \<open>The variant with the counts one position to the right and the prefix sum in place.\<close>

definition prefix_inplace :: "int \<Rightarrow> int list \<Rightarrow> int list option" where
  "prefix_inplace k ptr = do {
     b \<leftarrow> vget ptr (k + 1);
     a \<leftarrow> vget ptr k;
     vset ptr (k + 1) (b + a)
   }"

lemma prefix_inplace_ok:
  assumes "0 \<le> n" "int (length ptr) = n + 1" "elt ptr 0 = 0"
    "\<And>j. 0 \<le> j \<Longrightarrow> j < n \<Longrightarrow> elt ptr (j + 1) = bcount key xs j"
  shows "ok (for_range 0 n prefix_inplace ptr)
    (\<lambda>ptr'. int (length ptr') = n + 1 \<and> (\<forall>j. 0 \<le> j \<and> j \<le> n \<longrightarrow> elt ptr' j = bptr key xs j))"
proof (rule for_range_ok [where I = "\<lambda>j p. 0 \<le> j \<and> int (length p) = n + 1
      \<and> (\<forall>i. 0 \<le> i \<and> i \<le> j \<longrightarrow> elt p i = bptr key xs i)
      \<and> (\<forall>i. j < i \<and> i \<le> n \<longrightarrow> elt p i = bcount key xs (i - 1))"], goal_cases)
  case 1
  have "elt ptr i = bcount key xs (i - 1)" if "0 < i" "i \<le> n" for i
    using assms(4) [of "i - 1"] that by simp
  then show ?case using assms(2,3) by (auto simp: order_antisym_conv)
next
  case (2 j p)
  then show ?case by (auto simp: prefix_inplace_def at_update elt_def [symmetric] bptr_Suc)
next
  case (3 p)
  then show ?case using assms(1) by (simp add: max_def)
qed

lemma count_shift_ok:
  assumes keys: "\<forall>x \<in> set xs. 0 \<le> key x \<and> key x < n" and n: "0 \<le> n"
  shows "ok (forM xs (\<lambda>x cnt. bump cnt (key x + 1)) (replicate (nat (n + 1)) 0))
    (\<lambda>cnt. int (length cnt) = n + 1 \<and> elt cnt 0 = 0 \<and> (\<forall>j. 0 \<le> j \<and> j < n \<longrightarrow> elt cnt (j + 1) = bcount key xs j))"
proof -
  have "ok (forM xs (\<lambda>x cnt. bump cnt (key x + 1)) (replicate (nat (n + 1)) 0))
    (\<lambda>cnt. length cnt = length (replicate (nat (n + 1)) (0 :: int))
      \<and> (\<forall>j \<ge> 0. elt cnt j = elt (replicate (nat (n + 1)) 0) j + bcount (\<lambda>x. key x + 1) xs j))"
    by (rule count_ok) (use keys n in fastforce)
  moreover have "bcount (\<lambda>x. key x + 1) xs (j + 1) = bcount key xs j" for j by (simp add: bcount_def)
  moreover have "bcount (\<lambda>x. key x + 1) xs 0 = 0"
    using keys by (fastforce simp: bcount_def filter_empty_conv)
  moreover have "elt (replicate (nat (n + 1)) (0 :: int)) j = 0" if "0 \<le> j" "j \<le> n" for j
    using that by (simp add: elt_def)
  ultimately show ?thesis using n unfolding ok_def by fastforce
qed

end
