(* ===== verification/CooToCsc.thy ===== *)
theory CooToCsc
  imports SmfTypes CscBuild Bucket
begin

text \<open>
  \<open>coo_to_lower_csc\<close> (\<open>coo_to_csc.cpp\<close>): triplets in any order to a lower triangle with sorted,
  unique rows. Triplets outside the matrix or above the diagonal are dropped, duplicates summed.
  The counting sort is the one of \<open>Bucket\<close>.
\<close>

section \<open>The code\<close>

record 'v coo =
  coo_n :: int
  coo_row :: "int list"
  coo_col :: "int list"
  coo_val :: "'v list"

definition coo_nnz :: "'v coo \<Rightarrow> int" where
  "coo_nnz c = narrow32 (int (length (coo_val c)))"

definition coo_skip :: "int \<Rightarrow> int \<Rightarrow> int \<Rightarrow> bool" where
  "coo_skip n r c \<longleftrightarrow> (r < 0 \<or> c < 0 \<or> r \<ge> n \<or> c \<ge> n) \<or> c > r"

definition coo_count :: "'v coo \<Rightarrow> int list option" where
  "coo_count coo =
     for_range 0 (coo_nnz coo) (\<lambda>k cnt. do {
       r \<leftarrow> vget (coo_row coo) k;
       c \<leftarrow> vget (coo_col coo) k;
       if coo_skip (coo_n coo) r c then Some cnt else bump cnt c
     }) (replicate (nat (coo_n coo)) 0)"

definition coo_scatter ::
  "'v::zero coo \<Rightarrow> int list \<Rightarrow> int \<Rightarrow> (int list \<times> int list \<times> 'v list) option" where
  "coo_scatter coo ptr total_valid =
     for_range 0 (coo_nnz coo) (\<lambda>k (cursor, tmp_row, tmp_val). do {
       r \<leftarrow> vget (coo_row coo) k;
       c \<leftarrow> vget (coo_col coo) k;
       v \<leftarrow> vget (coo_val coo) k;
       if coo_skip (coo_n coo) r c then Some (cursor, tmp_row, tmp_val)
       else do {
         pos \<leftarrow> vget cursor c;
         cursor \<leftarrow> vset cursor c (pos + 1);
         tmp_row \<leftarrow> vset tmp_row pos r;
         tmp_val \<leftarrow> vset tmp_val pos v;
         Some (cursor, tmp_row, tmp_val)
       }
     }) (ptr, replicate (nat total_valid) 0, replicate (nat total_valid) 0)"

definition coo_column ::
  "int list \<Rightarrow> int list \<Rightarrow> 'v::plus list \<Rightarrow> int \<Rightarrow> int list \<times> int list \<times> 'v list \<Rightarrow>
    (int list \<times> int list \<times> 'v list) option" where
  "coo_column ptr tmp_row tmp_val j = (\<lambda>(rptr, rows, vs). do {
     col_start \<leftarrow> vget ptr j;
     col_end \<leftarrow> vget ptr (j + 1);
     let count = col_end - col_start;
     if count = 0 then do {
       rptr \<leftarrow> vset rptr (j + 1) (narrow32 (int (length rows)));
       Some (rptr, rows, vs)
     }
     else if count = 1 then do {
       r \<leftarrow> vget tmp_row col_start;
       v \<leftarrow> vget tmp_val col_start;
       rptr \<leftarrow> vset rptr (j + 1) (narrow32 (int (length (rows @ [r]))));
       Some (rptr, rows @ [r], vs @ [v])
     }
     else do {
       pairs \<leftarrow> for_range col_start col_end (\<lambda>k pairs. do {
         r \<leftarrow> vget tmp_row k;
         v \<leftarrow> vget tmp_val k;
         Some (pairs @ [(r, v)])
       }) [];
       let merged = merge_runs fst snd (sort_key fst pairs);
       rptr \<leftarrow> vset rptr (j + 1) (narrow32 (int (length (rows @ map fst merged))));
       Some (rptr, rows @ map fst merged, vs @ map snd merged)
     }
   })"

definition coo_to_lower_csc :: "'v::{plus,zero} coo \<Rightarrow> 'v csc option" where
  "coo_to_lower_csc coo =
     (if coo_n coo \<le> 0 then Some \<lparr>csc_n = 0, col_ptr = [0], row_idx = [], vals = []\<rparr>
      else do {
        let n = coo_n coo;
        col_count \<leftarrow> coo_count coo;
        ptr \<leftarrow> for_range 0 n (prefix_step col_count) (replicate (nat (n + 1)) 0);
        total_valid \<leftarrow> vget ptr n;
        (_, tmp_row, tmp_val) \<leftarrow> coo_scatter coo ptr total_valid;
        (rptr, rows, vs) \<leftarrow> for_range 0 n (coo_column ptr tmp_row tmp_val) (replicate (nat (n + 1)) 0, [], []);
        Some \<lparr>csc_n = n, col_ptr = rptr, row_idx = rows, vals = vs\<rparr>
      })"

section \<open>What the steps compute\<close>

definition coo_ok :: "'v coo \<Rightarrow> bool" where
  "coo_ok coo \<longleftrightarrow> length (coo_val coo) \<le> length (coo_row coo) \<and> length (coo_val coo) \<le> length (coo_col coo)"

definition coo_items :: "'v coo \<Rightarrow> int list" where
  "coo_items coo = filter (\<lambda>k. \<not> coo_skip (coo_n coo) (elt (coo_row coo) k) (elt (coo_col coo) k)) [0..coo_nnz coo - 1]"

abbreviation coo_key :: "'v coo \<Rightarrow> int \<Rightarrow> int" where
  "coo_key coo \<equiv> elt (coo_col coo)"

definition coo_pairs :: "'v coo \<Rightarrow> int \<Rightarrow> (int \<times> 'v) list" where
  "coo_pairs coo j = map (\<lambda>k. (elt (coo_row coo) k, elt (coo_val coo) k))
     (filter (\<lambda>k. coo_key coo k = j) (coo_items coo))"

definition coo_col_out :: "'v::plus coo \<Rightarrow> int \<Rightarrow> (int \<times> 'v) list" where
  "coo_col_out coo j = merge_runs fst snd (sort_key fst (coo_pairs coo j))"

text \<open>The count is at most the number of triplets, and all of them when there are fewer than \<open>2^31\<close>.\<close>

lemma coo_nnz_bounds:
  "coo_nnz coo \<le> int (length (coo_val coo))" "coo_nnz coo < 2 ^ 31"
  "int (length (coo_val coo)) < 2 ^ 31 \<Longrightarrow> coo_nnz coo = int (length (coo_val coo))"
proof -
  let ?x = "int (length (coo_val coo))"
  have b: "(?x + 2 ^ 31) mod 2 ^ 32 < 2 ^ 32" by (rule pos_mod_bound) simp
  then show "coo_nnz coo < 2 ^ 31" by (simp add: coo_nnz_def narrow32_def)
  have "(?x + 2 ^ 31) mod 2 ^ 32 \<le> ?x + 2 ^ 31" by (rule zmod_le_nonneg_dividend) simp
  then show "coo_nnz coo \<le> ?x" by (simp add: coo_nnz_def narrow32_def)
  show "?x < 2 ^ 31 \<Longrightarrow> coo_nnz coo = ?x" by (simp add: coo_nnz_def)
qed

lemma coo_items_length: "int (length (coo_items coo)) < 2 ^ 31"
proof -
  have "length (coo_items coo) \<le> length [0..coo_nnz coo - 1]" unfolding coo_items_def by (rule length_filter_le)
  then show ?thesis using coo_nnz_bounds(2) [of coo] by (simp split: if_splits)
qed

lemma coo_items_keys: "\<forall>k \<in> set (coo_items coo). 0 \<le> coo_key coo k \<and> coo_key coo k < coo_n coo"
  by (auto simp: coo_items_def coo_skip_def)

lemma coo_get:
  assumes "coo_ok coo" "0 \<le> k" "k < coo_nnz coo"
  shows "vget (coo_row coo) k = Some (elt (coo_row coo) k)" "vget (coo_col coo) k = Some (elt (coo_col coo) k)"
    "vget (coo_val coo) k = Some (elt (coo_val coo) k)"
  using assms coo_nnz_bounds(1) [of coo] by (simp_all add: coo_ok_def vget_at)

lemma coo_count_ok:
  assumes "coo_ok coo" "0 < coo_n coo"
  shows "ok (coo_count coo) (\<lambda>cnt. int (length cnt) = coo_n coo
    \<and> (\<forall>j. 0 \<le> j \<and> j < coo_n coo \<longrightarrow> elt cnt j = bcount (coo_key coo) (coo_items coo) j))"
proof -
  let ?zero = "replicate (nat (coo_n coo)) (0 :: int)"
  have "coo_count coo = forM [0..coo_nnz coo - 1] (\<lambda>k cnt.
      if coo_skip (coo_n coo) (elt (coo_row coo) k) (elt (coo_col coo) k) then Some cnt
      else bump cnt (coo_key coo k)) ?zero"
    unfolding coo_count_def for_range_def by (rule forM_cong) (simp add: coo_get [OF assms(1)])
  also have "\<dots> = forM (coo_items coo) (\<lambda>k cnt. bump cnt (coo_key coo k)) ?zero"
    unfolding forM_skip coo_items_def ..
  also have "ok \<dots> (\<lambda>cnt. length cnt = length ?zero
      \<and> (\<forall>j \<ge> 0. elt cnt j = elt ?zero j + bcount (coo_key coo) (coo_items coo) j))"
    by (rule count_ok) (use coo_items_keys [of coo] in auto)
  ultimately show ?thesis
    using assms(2) by (auto simp: ok_def elt_def)
qed

lemma coo_scatter_ok:
  fixes coo :: "'v::zero coo"
  assumes "coo_ok coo" "0 < coo_n coo" "int (length ptr) = coo_n coo + 1"
    and "\<And>j. 0 \<le> j \<Longrightarrow> j \<le> coo_n coo \<Longrightarrow> elt ptr j = bptr (coo_key coo) (coo_items coo) j"
  shows "ok (coo_scatter coo ptr (bptr (coo_key coo) (coo_items coo) (coo_n coo))) (\<lambda>(cur, a, b).
    a = map (elt (coo_row coo)) (concat (buckets (coo_key coo) (coo_n coo) (coo_items coo)))
    \<and> b = map (elt (coo_val coo)) (concat (buckets (coo_key coo) (coo_n coo) (coo_items coo))))"
proof -
  let ?m = "length (coo_items coo)"
  have total: "bptr (coo_key coo) (coo_items coo) (coo_n coo) = int ?m"
    by (rule bptr_total [OF coo_items_keys])
  let ?s = "(ptr, replicate ?m (0 :: int), replicate ?m (0 :: 'v))"
  have "coo_scatter coo ptr (int ?m) = forM [0..coo_nnz coo - 1] (\<lambda>k s.
      if coo_skip (coo_n coo) (elt (coo_row coo) k) (elt (coo_col coo) k) then Some s
      else place2 (coo_key coo) (elt (coo_row coo)) (elt (coo_val coo)) k s) ?s"
    unfolding coo_scatter_def for_range_def nat_int
    by (rule forM_cong) (auto simp: coo_get [OF assms(1)] place2_def split: prod.splits)
  also have "\<dots> = forM (coo_items coo) (place2 (coo_key coo) (elt (coo_row coo)) (elt (coo_val coo))) ?s"
    unfolding forM_skip coo_items_def ..
  finally show ?thesis
    unfolding total
    using place2_ok [OF coo_items_keys, of coo ptr "replicate ?m 0" "replicate ?m (0 :: 'v)"
        "elt (coo_row coo)" "elt (coo_val coo)"] assms by simp
qed

lemma coo_column_eq:
  fixes coo :: "'v::plus coo"
  assumes n: "0 < coo_n coo" and j: "0 \<le> j" "j < coo_n coo"
    and ptr: "int (length ptr) = coo_n coo + 1"
      "\<And>j. 0 \<le> j \<Longrightarrow> j \<le> coo_n coo \<Longrightarrow> elt ptr j = bptr (coo_key coo) (coo_items coo) j"
    and len: "int (length rptr) = coo_n coo + 1" and small: "int (length rows + length (coo_col_out coo j)) < 2 ^ 31"
  defines "B \<equiv> concat (buckets (coo_key coo) (coo_n coo) (coo_items coo))"
  shows "coo_column ptr (map (elt (coo_row coo)) B) (map (elt (coo_val coo)) B) j (rptr, rows, vs) =
    Some (rptr[nat (j + 1) := int (length rows + length (coo_col_out coo j))],
      rows @ map fst (coo_col_out coo j), vs @ map snd (coo_col_out coo j))"
proof -
  let ?b = "buckets (coo_key coo) (coo_n coo) (coo_items coo)"
  let ?C = "filter (\<lambda>k. coo_key coo k = j) (coo_items coo)"
  let ?lo = "bptr (coo_key coo) (coo_items coo) j"
  have b: "nat j < length ?b" "?b ! nat j = ?C"
    using buckets_length [of "coo_n coo" "coo_key coo" "coo_items coo"] j n
      buckets_nth [of "nat j" "coo_key coo" "coo_n coo" "coo_items coo"] by simp_all
  have lo: "0 \<le> ?lo" "nat ?lo = length (concat (take (nat j) ?b))"
    using buckets_take [of j "coo_n coo" "coo_key coo" "coo_items coo"] j by (simp_all add: bptr_def)
  have hi: "elt ptr (j + 1) = ?lo + int (length ?C)" "elt ptr j = ?lo"
    using ptr(2) [of "j + 1"] ptr(2) [of j] j by (simp_all add: bptr_Suc bcount_def)
  have get: "vget ptr j = Some ?lo" "vget ptr (j + 1) = Some (?lo + int (length ?C))"
    using ptr(1) j hi by (simp_all add: vget_at)
  have slot: "B ! (nat ?lo + p) = ?C ! p" "nat ?lo + p < length B" if "p < length ?C" for p
    unfolding B_def lo(2) using nth_concat_at [of "nat j" ?b p] concat_split_at [OF b(1)] that b
    by simp_all
  have vslot: "vget (map (elt (coo_row coo)) B) (?lo + int p) = Some (elt (coo_row coo) (?C ! p))"
    "vget (map (elt (coo_val coo)) B) (?lo + int p) = Some (elt (coo_val coo) (?C ! p))" if "p < length ?C" for p
    using slot [OF that] lo(1) by (simp_all add: vget_def nat_add_distrib)
  have pairs: "coo_pairs coo j = map (\<lambda>k. (elt (coo_row coo) k, elt (coo_val coo) k)) ?C"
    by (simp add: coo_pairs_def)
  have set: "vset rptr (j + 1) x = Some (rptr[nat (j + 1) := x])" for x
    using len j by (simp add: vset_def)
  consider "length ?C = 0" | "length ?C = 1" | "2 \<le> length ?C" by linarith
  then show ?thesis
  proof cases
    case 1
    then show ?thesis using small by (simp add: coo_column_def get set coo_col_out_def pairs)
  next
    case 2
    then obtain k where "?C = [k]" by (metis One_nat_def length_0_conv length_Suc_conv)
    then show ?thesis using vslot(1) [of 0] vslot(2) [of 0] small
      by (simp add: coo_column_def get set coo_col_out_def pairs)
  next
    case 3
    have inB: "k < int (length B)" "0 \<le> k" if "?lo \<le> k" "k < ?lo + int (length ?C)" for k
    proof -
      have "nat (k - ?lo) < length ?C" using that by linarith
      from slot(2) [OF this] show "k < int (length B)" using that lo(1) by linarith
      show "0 \<le> k" using that lo(1) by linarith
    qed
    have "[?lo..?lo + int (length ?C) - 1] = map (\<lambda>p. ?lo + int p) [0..<length ?C]"
      by (rule nth_equalityI) auto
    then have "map (\<lambda>k. (elt (map (elt (coo_row coo)) B) k, elt (map (elt (coo_val coo)) B) k))
        [?lo..?lo + int (length ?C) - 1] = map (\<lambda>p. (elt (coo_row coo) (?C ! p), elt (coo_val coo) (?C ! p))) [0..<length ?C]"
      using vslot by (simp add: vget_eq_Some elt_def [of "map _ B"])
    also have "\<dots> = coo_pairs coo j" by (rule nth_equalityI) (simp_all add: pairs)
    finally have all: "map (\<lambda>k. (elt (map (elt (coo_row coo)) B) k, elt (map (elt (coo_val coo)) B) k))
        [?lo..?lo + int (length ?C) - 1] = coo_pairs coo j" .
    have "for_range ?lo (?lo + int (length ?C)) (\<lambda>k pairs. do {
         r \<leftarrow> vget (map (elt (coo_row coo)) B) k;
         v \<leftarrow> vget (map (elt (coo_val coo)) B) k;
         Some (pairs @ [(r, v)])
       }) [] = Some ([] @ map (\<lambda>k. (elt (map (elt (coo_row coo)) B) k, elt (map (elt (coo_val coo)) B) k))
        [?lo..?lo + int (length ?C) - 1])"
      by (rule for_range_collect) (simp add: vget_at inB)
    moreover have "int (length ?C) \<noteq> 0" "int (length ?C) \<noteq> 1" using 3 by linarith+
    ultimately show ?thesis
      unfolding all coo_column_def prod.case get bind.simps Let_def
      using small by (simp add: set coo_col_out_def del: length_0_conv of_nat_eq_0_iff of_nat_eq_1_iff)
  qed
qed

section \<open>What the conversion returns\<close>

lemma coo_out_length:
  assumes "0 \<le> j"
  shows "int (length (concat (map (coo_col_out coo) [0..j - 1]))) < 2 ^ 31"
proof -
  have col: "length (coo_col_out coo i) \<le> length (filter (\<lambda>k. coo_key coo k = i) (coo_items coo))" for i
    using merge_runs_length [of fst snd "sort_key fst (coo_pairs coo i)"] by (simp add: coo_col_out_def coo_pairs_def)
  have "int (length (concat (map (coo_col_out coo) [0..j - 1]))) \<le> int (length (filter (\<lambda>k. coo_key coo k < j) (coo_items coo)))"
    using assms
  proof (induction j rule: int_ge_induct)
    case base
    then show ?case by simp
  next
    case (step j)
    have "length (filter (\<lambda>k. coo_key coo k < j + 1) xs) = length (filter (\<lambda>k. coo_key coo k < j) xs) + length (filter (\<lambda>k. coo_key coo k = j) xs)" for xs
      by (induction xs) auto
    then show ?case using step col [of j] by (simp add: upto_rec2)
  qed
  moreover have "length (filter (\<lambda>k. coo_key coo k < j) (coo_items coo)) \<le> length (coo_items coo)" by simp
  ultimately show ?thesis using coo_items_length [of coo] by linarith
qed

lemma coo_to_lower_csc_eq:
  fixes coo :: "'v::{plus,zero} coo"
  assumes "coo_ok coo"
  shows "coo_to_lower_csc coo = Some (csc_of_cols (map (coo_col_out coo) [0..coo_n coo - 1]))"
proof (cases "coo_n coo \<le> 0")
  case True
  then show ?thesis by (simp add: coo_to_lower_csc_def csc_of_cols_def)
next
  case False
  then have n: "0 < coo_n coo" by simp
  let ?ptr = "bptr (coo_key coo) (coo_items coo)"
  obtain cnt where cnt: "coo_count coo = Some cnt" "int (length cnt) = coo_n coo"
    "\<forall>j. 0 \<le> j \<and> j < coo_n coo \<longrightarrow> elt cnt j = bcount (coo_key coo) (coo_items coo) j"
    using ok_ex [OF coo_count_ok [OF assms n]] by blast
  have "ok (for_range 0 (coo_n coo) (prefix_step cnt) (replicate (nat (coo_n coo + 1)) 0))
    (\<lambda>ptr. int (length ptr) = coo_n coo + 1 \<and> (\<forall>j. 0 \<le> j \<and> j \<le> coo_n coo \<longrightarrow> elt ptr j = ?ptr j))"
    by (rule prefix_ok) (use n cnt in \<open>simp_all add: elt_def\<close>)
  then obtain ptr where ptr: "for_range 0 (coo_n coo) (prefix_step cnt) (replicate (nat (coo_n coo + 1)) 0) = Some ptr"
    "int (length ptr) = coo_n coo + 1" "\<And>j. 0 \<le> j \<Longrightarrow> j \<le> coo_n coo \<Longrightarrow> elt ptr j = ?ptr j"
    unfolding ok_def by blast
  let ?B = "concat (buckets (coo_key coo) (coo_n coo) (coo_items coo))"
  obtain cur where "coo_scatter coo ptr (?ptr (coo_n coo)) =
      Some (cur, map (elt (coo_row coo)) ?B, map (elt (coo_val coo)) ?B)"
    using ok_ex [OF coo_scatter_ok [OF assms n ptr(2,3)]] by auto
  moreover have "vget ptr (coo_n coo) = Some (?ptr (coo_n coo))" using ptr(2,3) n by (simp add: vget_at)
  moreover have "for_range 0 (coo_n coo) (coo_column ptr (map (elt (coo_row coo)) ?B) (map (elt (coo_val coo)) ?B))
      (replicate (nat (coo_n coo + 1)) 0, [], []) =
    Some (col_ptr (csc_of_cols (map (coo_col_out coo) [0..coo_n coo - 1])),
      row_idx (csc_of_cols (map (coo_col_out coo) [0..coo_n coo - 1])),
      vals (csc_of_cols (map (coo_col_out coo) [0..coo_n coo - 1])))"
  proof (rule build_cols_ok)
    fix j rptr rows vs assume j: "0 \<le> j" "j < coo_n coo" and len: "int (length (rptr :: int list)) = coo_n coo + 1"
      and rows: "rows = map fst (concat (map (coo_col_out coo) [0..j - 1]))"
    have "length rows + length (coo_col_out coo j) = length (concat (map (coo_col_out coo) [0..j]))"
      using j(1) by (simp add: rows upto_rec2)
    then have "int (length rows + length (coo_col_out coo j)) < 2 ^ 31" using coo_out_length [of "j + 1" coo] j by simp
    then show "coo_column ptr (map (elt (coo_row coo)) ?B) (map (elt (coo_val coo)) ?B) j (rptr, rows, vs)
        = Some (rptr[nat (j + 1) := int (length rows + length (coo_col_out coo j))], rows @ map fst (coo_col_out coo j), vs @ map snd (coo_col_out coo j))"
      using coo_column_eq [OF n j ptr(2,3) len] by simp
  qed (use n in simp)
  moreover have "csc_n (csc_of_cols (map (coo_col_out coo) [0..coo_n coo - 1])) = coo_n coo"
    using n by simp
  ultimately show ?thesis
    using n cnt(1) ptr(1) by (simp add: coo_to_lower_csc_def Let_def csc_of_cols_def)
qed

lemma coo_col_out_rows:
  "sorted_wrt (<) (map fst (coo_col_out coo j))"
  "fst ` set (coo_col_out coo j) = {elt (coo_row coo) k | k. k \<in> set (coo_items coo) \<and> coo_key coo k = j}"
proof -
  have "sorted (map fst (sort_key fst (coo_pairs coo j)))" by simp
  from merge_runs_rows [OF this, of snd]
  show "sorted_wrt (<) (map fst (coo_col_out coo j))"
    "fst ` set (coo_col_out coo j) = {elt (coo_row coo) k | k. k \<in> set (coo_items coo) \<and> coo_key coo k = j}"
    unfolding coo_col_out_def by (force simp: coo_pairs_def image_iff)+
qed

lemma coo_col_out_sum:
  fixes coo :: "'v::comm_monoid_add coo"
  assumes "0 \<le> j" "j \<le> i" "i < coo_n coo"
  shows "(\<Sum>(r, v)\<leftarrow>coo_col_out coo j. if r = i then v else 0) =
    (\<Sum>k\<leftarrow>[0..coo_nnz coo - 1]. if elt (coo_row coo) k = i \<and> elt (coo_col coo) k = j then elt (coo_val coo) k else 0)"
proof -
  let ?g = "\<lambda>k. if elt (coo_row coo) k = i \<and> elt (coo_col coo) k = j then elt (coo_val coo) k else 0"
  have "(\<Sum>(r, v)\<leftarrow>coo_col_out coo j. if r = i then v else 0) =
      (\<Sum>x\<leftarrow>coo_pairs coo j. if fst x = i then snd x else 0)"
    unfolding coo_col_out_def merge_runs_sum by (rule sum_list_sort_key)
  also have "\<dots> = (\<Sum>k\<leftarrow>filter (\<lambda>k. coo_key coo k = j) (coo_items coo). ?g k)"
    unfolding coo_pairs_def map_map by (rule arg_cong [where f = sum_list], rule map_cong) auto
  also have "\<dots> = (\<Sum>k\<leftarrow>coo_items coo. ?g k)"
    by (rule sum_list_filter_valid) simp
  also have "\<dots> = (\<Sum>k\<leftarrow>[0..coo_nnz coo - 1]. ?g k)"
    unfolding coo_items_def by (rule sum_list_filter_valid) (use assms in \<open>auto simp: coo_skip_def\<close>)
  finally show ?thesis .
qed

text \<open>C23: converting triplets never reads or writes out of bounds; the result is a valid lower
  triangle with strictly increasing rows in every column, and each position of the lower triangle
  holds the sum of the triplets given for it, whatever else the input contains. The triplets are the
  first \<open>nnz()\<close> ones, a count that is an \<open>Int\<close>: all of them when there are fewer than \<open>2^31\<close>.\<close>

theorem coo_to_lower_csc_correct:
  fixes coo :: "'v::comm_monoid_add coo"
  assumes "coo_ok coo"
  shows "\<exists>A. coo_to_lower_csc coo = Some A \<and> csc_n A = max 0 (coo_n coo) \<and> csc_valid A \<and> csc_sorted A
    \<and> (\<forall>i j. 0 \<le> j \<and> j \<le> i \<and> i < coo_n coo \<longrightarrow>
        entry A i j = (\<Sum>k\<leftarrow>[0..coo_nnz coo - 1].
          if elt (coo_row coo) k = i \<and> elt (coo_col coo) k = j then elt (coo_val coo) k else 0))
    \<and> (int (length (coo_val coo)) < 2 ^ 31 \<longrightarrow> coo_nnz coo = int (length (coo_val coo)))"
proof -
  let ?cols = "map (coo_col_out coo) [0..coo_n coo - 1]"
  have len: "int (length ?cols) = max 0 (coo_n coo)" by simp
  have nth: "?cols ! j = coo_col_out coo (int j)" if "j < length ?cols" for j
    using that by simp
  have "csc_rows_ok (csc_of_cols ?cols)"
  proof (rule csc_of_cols_rows_ok)
    fix j i v assume j: "j < length ?cols" and "(i, v) \<in> set (?cols ! j)"
    then have "i \<in> fst ` set (coo_col_out coo (int j))" using nth [OF j] by (force simp: image_iff)
    then show "int j \<le> i \<and> i < int (length ?cols)"
      unfolding coo_col_out_rows(2) len by (auto simp: coo_items_def coo_skip_def)
  qed
  then have "csc_valid (csc_of_cols ?cols)" by (simp add: csc_valid_def csc_of_cols_ptr_ok)
  moreover have "csc_sorted (csc_of_cols ?cols)"
    by (rule csc_of_cols_sorted) (simp only: nth coo_col_out_rows(1))
  moreover have "entry (csc_of_cols ?cols) i j = (\<Sum>k\<leftarrow>[0..coo_nnz coo - 1].
      if elt (coo_row coo) k = i \<and> elt (coo_col coo) k = j then elt (coo_val coo) k else 0)"
    if "0 \<le> j" "j \<le> i" "i < coo_n coo" for i j
    using csc_of_cols_entry [of j ?cols i] coo_col_out_sum [OF that] nth [of "nat j"] that by simp
  ultimately show ?thesis using coo_to_lower_csc_eq [OF assms] len coo_nnz_bounds(3) [of coo] by (intro exI [of _ "csc_of_cols ?cols"]) simp
qed

definition example_coo :: "int coo" where
  "example_coo = \<lparr>coo_n = 3, coo_row = [2, 0, 0, 2, 1, 5], coo_col = [0, 0, 1, 0, 1, 0], coo_val = [4, 1, 9, 3, 2, 8]\<rparr>"

theorem coo_to_lower_csc_correct_witness:
  "\<exists>A. coo_to_lower_csc example_coo = Some A \<and> csc_valid A \<and> csc_sorted A \<and> entry A 2 0 = 7"
proof -
  have ok: "coo_ok example_coo" by (simp add: coo_ok_def example_coo_def)
  have "(\<Sum>k\<leftarrow>[0..coo_nnz example_coo - 1]. if elt (coo_row example_coo) k = 2 \<and> elt (coo_col example_coo) k = 0
      then elt (coo_val example_coo) k else 0) = 7" by code_simp
  moreover have "coo_n example_coo = 3" by (simp add: example_coo_def)
  ultimately show ?thesis using coo_to_lower_csc_correct [OF ok] by fastforce
qed

end
