(* ===== verification/SymGraph.thy ===== *)
theory SymGraph
  imports SmfTypes CscClean Bucket
begin

text \<open>
  The symmetric adjacency graph of a lower triangle (\<open>sym_graph.cpp\<close>, and the two builders of
  \<open>ordering_amd.cpp\<close>) and the greedy structural-rank estimate. The ordering libraries get this
  graph; the elimination tree is computed from it. The offsets of all three builders are \<open>Int\<close>s that
  reach twice the off-diagonal entries: their sums are checked, \<open>None\<close> past \<open>2^31 - 1\<close>. A degree is
  below the order, and a fill position below the next offset, so no other addition can overflow.
\<close>

section \<open>The code\<close>

text \<open>The nested loop over the stored entries, column by column.\<close>

definition column_entries ::
  "'v csc \<Rightarrow> (int \<Rightarrow> int \<Rightarrow> 's \<Rightarrow> 's option) \<Rightarrow> int \<Rightarrow> 's \<Rightarrow> 's option" where
  "column_entries A f j s = do {
     lo \<leftarrow> vget (col_ptr A) j;
     hi \<leftarrow> vget (col_ptr A) (j + 1);
     for_range lo hi (\<lambda>k s. do { i \<leftarrow> vget (row_idx A) k; f i j s }) s
   }"

definition sym_degrees :: "'v csc \<Rightarrow> int list option" where
  "sym_degrees A =
     for_range 0 (csc_n A) (column_entries A (\<lambda>i j deg.
       if i \<noteq> j then do { deg \<leftarrow> bump deg j; bump deg i } else Some deg))
     (replicate (nat (csc_n A)) 0)"

definition sym_place :: "int \<Rightarrow> int \<Rightarrow> int list \<times> int list \<Rightarrow> (int list \<times> int list) option" where
  "sym_place i j s =
     (if i \<noteq> j then do { s \<leftarrow> place fst snd (j, i) s; place fst snd (i, j) s } else Some s)"

fun merge2 :: "int list \<Rightarrow> int list \<Rightarrow> int list" where
  "merge2 [] ys = ys"
| "merge2 xs [] = xs"
| "merge2 (x # xs) (y # ys) = (if y < x then y # merge2 (x # xs) ys else x # merge2 xs (y # ys))"

text \<open>\<open>std::inplace_merge\<close> on positions of a vector: both halves must be sorted.\<close>

definition segment :: "'a list \<Rightarrow> int \<Rightarrow> int \<Rightarrow> 'a list" where
  "segment xs a b = take (nat (b - a)) (drop (nat a) xs)"

definition inplace_merge :: "int list \<Rightarrow> int \<Rightarrow> int \<Rightarrow> int \<Rightarrow> int list option" where
  "inplace_merge xs a m b =
     (if 0 \<le> a \<and> a \<le> m \<and> m \<le> b \<and> b \<le> int (length xs) \<and> sorted (segment xs a m) \<and> sorted (segment xs m b)
      then Some (take (nat a) xs @ merge2 (segment xs a m) (segment xs m b) @ drop (nat b) xs)
      else None)"

definition sort_range :: "int list \<Rightarrow> int \<Rightarrow> int \<Rightarrow> int list option" where
  "sort_range xs a b =
     (if 0 \<le> a \<and> a \<le> b \<and> b \<le> int (length xs)
      then Some (take (nat a) xs @ sort (segment xs a b) @ drop (nat b) xs) else None)"

text \<open>\<open>xadj[v + 1] = xadj[v] + deg[v]\<close> in \<open>Int\<close>.\<close>

definition prefix_step32 :: "int list \<Rightarrow> int \<Rightarrow> int list \<Rightarrow> int list option" where
  "prefix_step32 deg v xadj = do {
     x \<leftarrow> vget xadj v;
     d \<leftarrow> vget deg v;
     y \<leftarrow> iadd32 x d;
     vset xadj (v + 1) y
   }"

definition build_symmetric_adjacency :: "'v csc \<Rightarrow> (int list \<times> int list) option" where
  "build_symmetric_adjacency A = do {
     let n = csc_n A;
     deg \<leftarrow> sym_degrees A;
     xadj \<leftarrow> for_range 0 n (prefix_step32 deg) (replicate (nat (n + 1)) 0);
     total_edges \<leftarrow> vget xadj n;
     (_, adjncy, mid) \<leftarrow> for_range 0 n (\<lambda>j (cursor, adjncy, mid). do {
         (cursor, adjncy) \<leftarrow> column_entries A sym_place j (cursor, adjncy);
         c \<leftarrow> vget cursor j;
         mid \<leftarrow> vset mid j c;
         Some (cursor, adjncy, mid)
       }) (take (nat n) xadj, replicate (nat total_edges) 0, replicate (nat n) 0);
     adjncy \<leftarrow> for_range 0 n (\<lambda>v adjncy. do {
         a \<leftarrow> vget xadj v;
         m \<leftarrow> vget mid v;
         b \<leftarrow> vget xadj (v + 1);
         inplace_merge adjncy a m b
       }) adjncy;
     Some (xadj, adjncy)
   }"

definition build_symmetric_csr :: "'v csc \<Rightarrow> (int list \<times> int list) option" where
  "build_symmetric_csr A = do {
     let n = csc_n A;
     deg \<leftarrow> sym_degrees A;
     xadj \<leftarrow> for_range 0 n (prefix_step32 deg) (replicate (nat (n + 1)) 0);
     total_edges \<leftarrow> vget xadj n;
     (_, adjncy) \<leftarrow> for_range 0 n (column_entries A sym_place)
       (take (nat n) xadj, replicate (nat total_edges) 0);
     adjncy \<leftarrow> for_range 0 n (\<lambda>i adjncy. do {
         a \<leftarrow> vget xadj i;
         b \<leftarrow> vget xadj (i + 1);
         sort_range adjncy a b
       }) adjncy;
     Some (xadj, adjncy)
   }"

definition lower_csc_adjacency_size :: "'v csc \<Rightarrow> int option" where
  "lower_csc_adjacency_size A = do {
     diag \<leftarrow> for_range 0 (csc_n A) (\<lambda>j diag. do {
       lo \<leftarrow> vget (col_ptr A) j;
       hi \<leftarrow> vget (col_ptr A) (j + 1);
       if hi > lo then do {
         i \<leftarrow> vget (row_idx A) lo;
         Some (if i = j then diag + 1 else diag)
       } else Some diag
     }) 0;
     cn \<leftarrow> vget (col_ptr A) (csc_n A);
     Some (2 * (cn - diag))
   }"

text \<open>The start of a column past its diagonal: \<open>if (k < k1 && row_idx[k] == j) ++k\<close>.\<close>

definition below_diagonal :: "'v csc \<Rightarrow> int \<Rightarrow> (int \<times> int) option" where
  "below_diagonal A j = do {
     k \<leftarrow> vget (col_ptr A) j;
     k1 \<leftarrow> vget (col_ptr A) (j + 1);
     if k < k1 then do {
       i \<leftarrow> vget (row_idx A) k;
       Some (if i = j then k + 1 else k, k1)
     } else Some (k, k1)
   }"

definition adjacency_degrees :: "'v csc \<Rightarrow> int list \<Rightarrow> int list option" where
  "adjacency_degrees A = for_range 0 (csc_n A) (\<lambda>j xadj. do {
         (k, k1) \<leftarrow> below_diagonal A j;
         d \<leftarrow> vget xadj j;
         xadj \<leftarrow> vset xadj j (d + (k1 - k));
         for_range k k1 (\<lambda>k xadj. do { i \<leftarrow> vget (row_idx A) k; bump xadj i }) xadj
       })"

definition adjacency_fill :: "'v csc \<Rightarrow> int list \<times> int list \<Rightarrow> (int list \<times> int list) option" where
  "adjacency_fill A = for_range 0 (csc_n A) (\<lambda>j s. do {
         (k, k1) \<leftarrow> below_diagonal A j;
         for_range k k1 (\<lambda>k s. do {
           i \<leftarrow> vget (row_idx A) k;
           s \<leftarrow> place fst snd (j, i) s;
           place fst snd (i, j) s
         }) s
       })"

definition lower_csc_adjacency :: "'v csc \<Rightarrow> int list \<Rightarrow> int list \<Rightarrow> (int list \<times> int list) option" where
  "lower_csc_adjacency A xadj adj = do {
     let n = csc_n A;
     xadj \<leftarrow> adjacency_degrees A (replicate (nat (n + 1)) 0 @ drop (nat (n + 1)) xadj);
     (xadj, start) \<leftarrow> for_range 0 n (\<lambda>v (xadj, start). do {
         d \<leftarrow> vget xadj v;
         xadj \<leftarrow> vset xadj v start;
         start \<leftarrow> iadd32 start d;
         Some (xadj, start)
       }) (xadj, 0);
     xadj \<leftarrow> vset xadj n start;
     (xadj, adj) \<leftarrow> adjacency_fill A (xadj, adj);
     xadj \<leftarrow> for_range 0 n (\<lambda>t xadj. do {
         x \<leftarrow> vget xadj (n - t - 1);
         vset xadj (n - t) x
       }) xadj;
     xadj \<leftarrow> vset xadj 0 0;
     Some (xadj, adj)
   }"

definition structural_rank :: "'v csc \<Rightarrow> int option" where
  "structural_rank A = do {
     (_, matched) \<leftarrow> for_range 0 (csc_n A) (\<lambda>j (row_used, matched). do {
         lo \<leftarrow> vget (col_ptr A) j;
         hi \<leftarrow> vget (col_ptr A) (j + 1);
         r \<leftarrow> for_brk lo hi (\<lambda>k _. do {
             i \<leftarrow> vget (row_idx A) k;
             u \<leftarrow> vget row_used i;
             Some (if \<not> u then Inl i else Inr ())
           }) ();
         case r of
           Inl i \<Rightarrow> do { row_used \<leftarrow> vset row_used i True; Some (row_used, matched + 1) }
         | Inr _ \<Rightarrow> Some (row_used, matched)
       }) (replicate (nat (csc_n A)) False, 0);
     Some matched
   }"

section \<open>The graph\<close>

definition col_rows :: "'v csc \<Rightarrow> int \<Rightarrow> int list" where
  "col_rows A j = map (elt (row_idx A)) [elt (col_ptr A) j..elt (col_ptr A) (j + 1) - 1]"

definition col_edges :: "'v csc \<Rightarrow> int \<Rightarrow> (int \<times> int) list" where
  "col_edges A j = concat (map (\<lambda>i. [(j, i), (i, j)]) (filter (\<lambda>i. i \<noteq> j) (col_rows A j)))"

definition sym_edges :: "'v csc \<Rightarrow> int \<Rightarrow> (int \<times> int) list" where
  "sym_edges A n = concat (map (col_edges A) [0..n - 1])"

definition neighbours :: "'v csc \<Rightarrow> int \<Rightarrow> int list" where
  "neighbours A v = filter (\<lambda>j. v \<in> set (col_rows A j)) [0..v - 1] @ filter (\<lambda>i. i \<noteq> v) (col_rows A v)"

lemma col_rows_bounds:
  assumes "csc_clean A" "0 \<le> j" "j < csc_n A" "i \<in> set (col_rows A j)"
  shows "j \<le> i" "i < csc_n A"
  using assms by (auto simp: csc_clean_def csc_valid_def csc_rows_ok_def col_rows_def)

lemma col_rows_sorted:
  assumes "csc_clean A" "0 \<le> j" "j < csc_n A"
  shows "sorted_wrt (<) (col_rows A j)"
proof -
  let ?lo = "elt (col_ptr A) j" and ?hi = "elt (col_ptr A) (j + 1)"
  have next_row: "elt (row_idx A) k < elt (row_idx A) (k + 1)" if "?lo \<le> k" "k + 1 < ?hi" for k
    using assms that by (simp add: csc_clean_def csc_sorted_def)
  have less: "elt (row_idx A) k < elt (row_idx A) k'" if "?lo \<le> k" "k < k'" "k' < ?hi" for k k'
  proof -
    have "k + 1 \<le> k'" using that by simp
    then show ?thesis using that(3)
    proof (induction k' rule: int_ge_induct)
      case base
      then show ?case using next_row [of k] that(1) by simp
    next
      case (step k')
      then have "elt (row_idx A) k < elt (row_idx A) k'" by simp
      also have "\<dots> < elt (row_idx A) (k' + 1)" by (rule next_row) (use step that(1) in simp_all)
      finally show ?case .
    qed
  qed
  show ?thesis
    unfolding col_rows_def sorted_wrt_map sorted_wrt_iff_nth_less
    using less by auto
qed

lemma column_entries_eq:
  assumes "csc_ptr_ok A" "0 \<le> j" "j < csc_n A"
  shows "column_entries A f j s = forM (col_rows A j) (\<lambda>i. f i j) s"
proof -
  have "vget (col_ptr A) j = Some (elt (col_ptr A) j)" "vget (col_ptr A) (j + 1) = Some (elt (col_ptr A) (j + 1))"
    using assms csc_len_ptr [OF assms(1)] by (simp_all add: vget_at)
  then show ?thesis
    unfolding column_entries_def col_rows_def forM_map for_range_def
    by (simp, intro forM_cong) (use csc_slot_bounds [OF assms] in \<open>simp add: vget_at\<close>)
qed

lemma forM_pairs:
  "forM (filter P xs) (\<lambda>i s. do { s \<leftarrow> g (a i) s; g (b i) s }) =
   forM (concat (map (\<lambda>i. [a i, b i]) (filter P xs))) g"
proof -
  have "forM [a i, b i] g = (\<lambda>s. do { s \<leftarrow> g (a i) s; g (b i) s })" for i
    by (intro ext) (simp only: forM.simps(2) [of "a i"] forM_single)
  then show ?thesis unfolding forM_concat by simp
qed

lemma sym_place_column:
  assumes "csc_ptr_ok A" "0 \<le> j" "j < csc_n A"
  shows "column_entries A sym_place j s = forM (col_edges A j) (place fst snd) s"
proof -
  have "forM (col_rows A j) (\<lambda>i. sym_place i j) =
      forM (filter (\<lambda>i. \<not> i = j) (col_rows A j)) (\<lambda>i s. do { s \<leftarrow> place fst snd (j, i) s; place fst snd (i, j) s })"
    unfolding forM_skip [symmetric] by (intro ext forM_cong) (simp add: sym_place_def)
  then show ?thesis
    unfolding column_entries_eq [OF assms] col_edges_def
    using forM_pairs [where g = "place fst snd" and a = "\<lambda>i. (j, i)" and b = "\<lambda>i. (i, j)"
        and P = "\<lambda>i. i \<noteq> j" and xs = "col_rows A j"] by simp
qed

lemma edges_filter:
  "map snd (filter (\<lambda>e. fst e = v) (concat (map (\<lambda>i. [(j, i), (i, j)]) xs))) =
   concat (map (\<lambda>i. (if j = v then [i] else []) @ (if i = v then [j] else [])) xs)"
  by (induction xs) auto

lemma neighbours_eq:
  assumes "csc_clean A" "0 \<le> v" "v < csc_n A"
  shows "map snd (filter (\<lambda>e. fst e = v) (sym_edges A (csc_n A))) = neighbours A v"
proof -
  let ?C = "\<lambda>j. map snd (filter (\<lambda>e. fst e = v) (col_edges A j))"
  let ?rows = "\<lambda>j. filter (\<lambda>i. i \<noteq> j) (col_rows A j)"
  have "[0..csc_n A - 1] = [0..v - 1] @ v # [v + 1..csc_n A - 1]"
    using assms upto_split1 [of 0 v "csc_n A - 1"] upto_rec1 [of v "csc_n A - 1"] by simp
  then have all: "map snd (filter (\<lambda>e. fst e = v) (sym_edges A (csc_n A))) =
      concat (map ?C [0..v - 1]) @ ?C v @ concat (map ?C [v + 1..csc_n A - 1])"
    by (simp add: sym_edges_def filter_concat map_concat comp_def)
  have low: "?C j = (if v \<in> set (col_rows A j) then [j] else [])" if "0 \<le> j" "j < v" for j
  proof -
    have "distinct (?rows j)"
      using col_rows_sorted [OF assms(1) that(1)] that assms by (simp add: strict_sorted_iff)
    moreover have "distinct xs \<Longrightarrow> concat (map (\<lambda>i. if i = v then [j] else []) xs) = (if v \<in> set xs then [j] else [])"
      for xs by (induction xs) auto
    ultimately have "concat (map (\<lambda>i. if i = v then [j] else []) (?rows j)) = (if v \<in> set (?rows j) then [j] else [])"
      by blast
    then show ?thesis using that unfolding col_edges_def edges_filter by simp
  qed
  have "concat (map ?C [0..v - 1]) = filter (\<lambda>j. v \<in> set (col_rows A j)) [0..v - 1]"
  proof -
    have C: "map ?C [0..v - 1] = map (\<lambda>j. if v \<in> set (col_rows A j) then [j] else []) [0..v - 1]"
      by (rule map_cong) (use low in simp_all)
    have F: "concat (map (\<lambda>j. if P j then [j] else []) xs) = filter P xs" for P and xs :: "int list"
      by (induction xs) auto
    show ?thesis unfolding C F ..
  qed
  moreover have "?C v = ?rows v"
  proof -
    have "map (\<lambda>i. (if v = v then [i] else []) @ (if i = v then [v] else [])) (?rows v) = map (\<lambda>i. [i]) (?rows v)"
      by simp
    then show ?thesis unfolding col_edges_def edges_filter by (simp only: concat_map_singleton) simp
  qed
  moreover have "?C j = []" if "v < j" "j < csc_n A" for j
  proof -
    have "v \<notin> set (col_rows A j)" using col_rows_bounds [OF assms(1), of j v] that assms(2) by auto
    then show ?thesis using that unfolding col_edges_def edges_filter by (auto simp: concat_eq_Nil_conv)
  qed
  then have "concat (map ?C [v + 1..csc_n A - 1]) = []" by simp
  ultimately show ?thesis unfolding all neighbours_def by simp
qed

lemma sym_edges_cases:
  assumes "csc_clean A" "e \<in> set (sym_edges A (csc_n A))"
  obtains j i where "0 \<le> j" "j < i" "i < csc_n A" "i \<in> set (col_rows A j)" "e = (j, i) \<or> e = (i, j)"
proof -
  from assms(2) obtain j i where "0 \<le> j" "j < csc_n A" "i \<in> set (col_rows A j)" "i \<noteq> j" "e = (j, i) \<or> e = (i, j)"
    unfolding sym_edges_def col_edges_def by auto
  then show thesis using col_rows_bounds [OF assms(1), of j i] that by fastforce
qed

lemma sym_edges_keys:
  assumes "csc_clean A"
  shows "\<forall>e \<in> set (sym_edges A (csc_n A)). 0 \<le> fst e \<and> fst e < csc_n A"
  using sym_edges_cases [OF assms] by (metis fst_conv order_less_imp_le order_less_trans order_trans)

lemma sym_edges_Suc: "0 \<le> j \<Longrightarrow> sym_edges A (j + 1) = sym_edges A j @ col_edges A j"
  by (simp add: sym_edges_def upto_rec2)

lemma sym_edges_split:
  assumes "0 \<le> j" "j < n"
  shows "\<exists>suf. sym_edges A n = sym_edges A j @ col_edges A j @ suf"
proof -
  have "[0..n - 1] = [0..j - 1] @ j # [j + 1..n - 1]"
    using assms upto_split1 [of 0 j "n - 1"] upto_rec1 [of j "n - 1"] by simp
  then show ?thesis by (simp add: sym_edges_def)
qed

lemma neighbours_sorted:
  assumes "csc_clean A" "0 \<le> v" "v < csc_n A"
  shows "sorted_wrt (<) (neighbours A v)"
proof -
  have "sorted_wrt (<) (filter (\<lambda>i. i \<noteq> v) (col_rows A v))"
    by (rule sorted_wrt_filter) (rule col_rows_sorted [OF assms])
  moreover have "sorted_wrt (<) (filter (\<lambda>j. v \<in> set (col_rows A j)) [0..v - 1])"
    by (rule sorted_wrt_filter) simp
  ultimately show ?thesis
    using col_rows_bounds(1) [OF assms] by (force simp: neighbours_def sorted_wrt_append)
qed

abbreviation offset :: "'v csc \<Rightarrow> int \<Rightarrow> int" where
  "offset A v \<equiv> bptr fst (sym_edges A (csc_n A)) v"

definition graph_adj :: "'v csc \<Rightarrow> int list" where
  "graph_adj A = concat (map (neighbours A) [0..csc_n A - 1])"

lemma graph_adj_eq:
  assumes "csc_clean A"
  shows "map snd (concat (buckets fst (csc_n A) (sym_edges A (csc_n A)))) = graph_adj A"
  unfolding buckets_def graph_adj_def map_concat map_map comp_def
  by (rule arg_cong [where f = concat], rule map_cong) (simp_all add: neighbours_eq [OF assms])

lemma offset_eq:
  assumes "csc_clean A" "0 \<le> v" "v \<le> csc_n A"
  shows "offset A v = int (length (concat (map (neighbours A) [0..v - 1])))"
proof -
  have "map (\<lambda>j. length (filter (\<lambda>e. fst e = j) (sym_edges A (csc_n A)))) [0..v - 1] =
      map (\<lambda>j. length (neighbours A j)) [0..v - 1]"
    by (rule map_cong [OF refl]) (use neighbours_eq [OF assms(1)] assms(3) in \<open>auto simp flip: length_map [of snd]\<close>)
  then show ?thesis by (simp only: bptr_def buckets_def length_concat map_map comp_def)
qed

lemma sym_degrees_ok:
  assumes "csc_clean A"
  shows "ok (sym_degrees A) (\<lambda>deg. int (length deg) = csc_n A
    \<and> (\<forall>v. 0 \<le> v \<and> v < csc_n A \<longrightarrow> elt deg v = bcount fst (sym_edges A (csc_n A)) v))"
proof -
  note A = csc_cleanD [OF assms]
  let ?f = "\<lambda>i j deg. if i \<noteq> j then do { deg \<leftarrow> bump deg j; bump deg i } else Some deg"
  have col: "column_entries A ?f j deg = forM (col_edges A j) (\<lambda>e deg. bump deg (fst e)) deg"
    if "0 \<le> j" "j < csc_n A" for j deg
  proof -
    have "forM (col_rows A j) (\<lambda>i. ?f i j) =
        forM (filter (\<lambda>i. \<not> i = j) (col_rows A j)) (\<lambda>i s. do { s \<leftarrow> bump s j; bump s i })"
      unfolding forM_skip [symmetric] by (intro ext forM_cong) simp
    then show ?thesis
      unfolding column_entries_eq [OF A(1) that] col_edges_def
      using forM_pairs [where g = "\<lambda>e deg. bump deg (fst e)" and a = "\<lambda>i. (j, i)" and b = "\<lambda>i. (i, j)"
        and P = "\<lambda>i. i \<noteq> j" and xs = "col_rows A j"] by simp
  qed
  have "sym_degrees A = forM (sym_edges A (csc_n A)) (\<lambda>e deg. bump deg (fst e)) (replicate (nat (csc_n A)) 0)"
    unfolding sym_degrees_def for_range_def sym_edges_def forM_concat
    by (rule forM_cong) (simp add: col)
  moreover have "ok \<dots> (\<lambda>deg. length deg = length (replicate (nat (csc_n A)) (0 :: int)) \<and>
      (\<forall>j \<ge> 0. elt deg j = elt (replicate (nat (csc_n A)) 0) j + bcount fst (sym_edges A (csc_n A)) j))"
    by (rule count_ok) (use sym_edges_keys [OF assms] A(2) in auto)
  ultimately show ?thesis using A(2) by (auto simp: ok_def elt_def)
qed

text \<open>Twice the entries off the diagonal: the length of the neighbour array.\<close>

definition adjacency_entries :: "'v csc \<Rightarrow> int" where
  "adjacency_entries A = 2 * (\<Sum>j\<leftarrow>[0..csc_n A - 1]. int (length (filter (\<lambda>i. i \<noteq> j) (col_rows A j))))"

lemma adjacency_entries_eq: "adjacency_entries A = int (length (sym_edges A (csc_n A)))"
proof -
  have "int (length (concat (map (col_edges A) js))) = 2 * (\<Sum>j\<leftarrow>js. int (length (filter (\<lambda>i. i \<noteq> j) (col_rows A j))))" for js
    by (induction js) (simp_all add: col_edges_def length_concat comp_def sum_list_triv)
  then show ?thesis by (simp add: adjacency_entries_def sym_edges_def)
qed

lemma offset_total: "csc_clean A \<Longrightarrow> offset A (csc_n A) = adjacency_entries A"
  unfolding adjacency_entries_eq by (rule bptr_total [OF sym_edges_keys])

lemma prefix32_ok:
  assumes "int (length ptr) = n + 1" "int (length cnt) = n" "elt ptr 0 = 0"
    "\<And>j. 0 \<le> j \<Longrightarrow> j < n \<Longrightarrow> elt cnt j = bcount key xs j" and fits: "bptr key xs n < 2 ^ 31"
  shows "ok (for_range 0 n (prefix_step32 cnt) ptr)
    (\<lambda>ptr'. int (length ptr') = n + 1 \<and> (\<forall>j. 0 \<le> j \<and> j \<le> n \<longrightarrow> elt ptr' j = bptr key xs j))"
proof (rule for_range_ok [where I = "\<lambda>j p. 0 \<le> j \<and> int (length p) = n + 1
      \<and> (\<forall>i. 0 \<le> i \<and> i \<le> j \<longrightarrow> elt p i = bptr key xs i)"], goal_cases)
  case 1
  then show ?case using assms(1,3) by (auto simp: order_antisym_conv)
next
  case (2 j p)
  have "0 \<le> bptr key xs (j + 1)" by (rule bptr_nonneg) (use 2 in simp)
  moreover have "bptr key xs (j + 1) \<le> bptr key xs n" by (rule bptr_mono) (use 2 in simp_all)
  ultimately have "in_int32 (bptr key xs j + bcount key xs j)" using fits 2(1) by (simp add: in_int32_def bptr_Suc)
  then show ?case using 2 assms(2,4)
    by (auto simp: prefix_step32_def at_update elt_def [symmetric] bptr_Suc)
next
  case (3 p)
  then show ?case using assms(2) by (simp add: max_def)
qed

text \<open>The checked sums succeed only when the last offset is an \<open>Int\<close>.\<close>

lemma prefix32_exact:
  assumes "for_range 0 n (prefix_step32 cnt) ptr = Some ptr'" "int (length ptr) = n + 1" "int (length cnt) = n" "elt ptr 0 = 0"
    "\<And>j. 0 \<le> j \<Longrightarrow> j < n \<Longrightarrow> elt cnt j = bcount key xs j" and n: "0 \<le> n"
  shows "bptr key xs n < 2 ^ 31"
proof (cases "n = 0")
  case False
  have step: "prefix_step cnt j s = Some t" if "prefix_step32 cnt j s = Some t" for j s t
    using that by (auto simp: prefix_step32_def prefix_step_def iadd32_def bind_eq_Some_conv split: if_splits)
  have refine: "forM js (prefix_step32 cnt) s = Some t \<Longrightarrow> forM js (prefix_step cnt) s = Some t" for js s t
    by (induction js arbitrary: s) (auto simp: bind_eq_Some_conv dest: step)
  have "[0..n - 1] = [0..n - 2] @ [n - 1]" using upto_rec2 [of 0 "n - 1"] n False by simp
  then obtain p where p: "forM [0..n - 2] (prefix_step32 cnt) ptr = Some p" "prefix_step32 cnt (n - 1) p = Some ptr'"
    using assms(1) by (auto simp: for_range_def forM_append bind_eq_Some_conv)
  have "for_range 0 n (prefix_step cnt) ptr = Some ptr'" using refine assms(1) by (simp add: for_range_def)
  from ok_the [OF prefix_ok [OF assms(2,3,4,5)] this]
  have e: "int (length ptr') = n + 1" "elt ptr' n = bptr key xs n" using n by auto
  obtain y where "in_int32 y" "vset p n y = Some ptr'" using p(2) by (auto simp: prefix_step32_def iadd32_def bind_eq_Some_conv split: if_splits)
  then have "elt ptr' n = y" using e(1) n by (auto simp: vset_def elt_def inb_def split: if_splits)
  then show ?thesis using e(2) \<open>in_int32 y\<close> by (simp add: in_int32_def)
qed simp

lemma sym_xadj_ok:
  assumes "csc_clean A" "adjacency_entries A < 2 ^ 31"
  shows "ok (do { deg \<leftarrow> sym_degrees A; for_range 0 (csc_n A) (prefix_step32 deg) (replicate (nat (csc_n A + 1)) 0) })
    (\<lambda>xadj. int (length xadj) = csc_n A + 1 \<and> (\<forall>v. 0 \<le> v \<and> v \<le> csc_n A \<longrightarrow> elt xadj v = offset A v))"
  unfolding ok_bind
proof (rule ok_mono [OF sym_degrees_ok [OF assms(1)]], elim conjE, rule prefix32_ok)
qed (use csc_cleanD [OF assms(1)] assms(2) offset_total [OF assms(1)] in \<open>simp_all add: elt_def\<close>)

lemma graph_segment:
  assumes "csc_clean A" "0 \<le> v" "v < csc_n A"
  shows "segment (graph_adj A) (offset A v) (offset A (v + 1)) = neighbours A v"
    "0 \<le> offset A v" "offset A v \<le> offset A (v + 1)" "offset A (v + 1) \<le> int (length (graph_adj A))"
proof -
  let ?L = "map (neighbours A) [0..csc_n A - 1]"
  have len: "nat v < length ?L" "?L ! nat v = neighbours A v"
    using assms by simp_all
  have take: "map (neighbours A) [0..v - 1] = take (nat v) ?L"
    using take_map_upto [of v "csc_n A" "neighbours A"] assms by simp
  have split: "graph_adj A = concat (take (nat v) ?L) @ neighbours A v @ concat (drop (Suc (nat v)) ?L)"
    unfolding graph_adj_def using concat_split_at [OF len(1)] len(2) by simp
  have off: "offset A v = int (length (concat (take (nat v) ?L)))"
    using offset_eq [OF assms(1,2)] assms(3) take by simp
  have off': "offset A (v + 1) = offset A v + int (length (neighbours A v))"
    using offset_eq [OF assms(1,2)] offset_eq [OF assms(1), of "v + 1"] assms by (simp add: upto_rec2)
  show "segment (graph_adj A) (offset A v) (offset A (v + 1)) = neighbours A v"
    unfolding segment_def off' off by (subst split) simp
  show "0 \<le> offset A v" "offset A v \<le> offset A (v + 1)" by (simp_all add: off off')
  show "offset A (v + 1) \<le> int (length (graph_adj A))"
    unfolding off' off by (subst split) simp
qed

lemma for_range_segment:
  assumes "0 \<le> a" "a \<le> b" "b \<le> int (length xs)"
  shows "for_range a b (\<lambda>p s. do { u \<leftarrow> vget xs p; f u s }) s = forM (segment xs a b) f s"
proof -
  have "segment xs a b = map (elt xs) [a..b - 1]"
    using assms by (intro nth_equalityI) (auto simp: segment_def elt_def nat_add_distrib)
  then show ?thesis
    unfolding for_range_def by (simp add: forM_map, intro forM_cong) (use assms in \<open>simp add: vget_at\<close>)
qed

lemma merge2_Nil2 [simp]: "merge2 xs [] = xs"
  by (cases xs) simp_all

lemma segment_rejoin:
  assumes "0 \<le> a" "a \<le> b" "b \<le> int (length xs)"
  shows "take (nat a) xs @ segment xs a b @ drop (nat b) xs = xs"
proof -
  have "nat b = nat a + nat (b - a)" using assms by simp
  then show ?thesis unfolding segment_def by (metis append.assoc append_take_drop_id take_add)
qed

lemma forM_id: "(\<And>x. x \<in> set xs \<Longrightarrow> f x s = Some s) \<Longrightarrow> forM xs f s = Some s"
  by (induction xs) simp_all

lemma strict_sorted_le: "sorted_wrt (<) xs \<Longrightarrow> sorted (xs :: int list)"
  by (simp add: strict_sorted_iff)

lemma merge_loop:
  assumes "csc_clean A"
    and "\<And>v. 0 \<le> v \<Longrightarrow> v \<le> csc_n A \<Longrightarrow> vget xadj v = Some (offset A v)"
    and "\<And>v. 0 \<le> v \<Longrightarrow> v < csc_n A \<Longrightarrow> vget mid v = Some (offset A (v + 1))"
  shows "for_range 0 (csc_n A) (\<lambda>v adjncy. do {
         a \<leftarrow> vget xadj v;
         m \<leftarrow> vget mid v;
         b \<leftarrow> vget xadj (v + 1);
         inplace_merge adjncy a m b
       }) (graph_adj A) = Some (graph_adj A)"
  unfolding for_range_def
proof (rule forM_id)
  fix v assume "v \<in> set [0..csc_n A - 1]"
  then have v: "0 \<le> v" "v < csc_n A" by simp_all
  note seg = graph_segment [OF assms(1) v]
  have "sorted (neighbours A v)" by (rule strict_sorted_le [OF neighbours_sorted [OF assms(1) v]])
  moreover have "segment (graph_adj A) (offset A (v + 1)) (offset A (v + 1)) = []" by (simp add: segment_def)
  ultimately have "inplace_merge (graph_adj A) (offset A v) (offset A (v + 1)) (offset A (v + 1)) = Some (graph_adj A)"
    using seg segment_rejoin [OF seg(2,3,4)] by (simp add: inplace_merge_def)
  then show "(do {
         a \<leftarrow> vget xadj v;
         m \<leftarrow> vget mid v;
         b \<leftarrow> vget xadj (v + 1);
         inplace_merge (graph_adj A) a m b
       }) = Some (graph_adj A)" using assms(2,3) v by simp
qed

lemma sort_loop:
  assumes "csc_clean A" "\<And>v. 0 \<le> v \<Longrightarrow> v \<le> csc_n A \<Longrightarrow> vget xadj v = Some (offset A v)"
  shows "for_range 0 (csc_n A) (\<lambda>v adjncy. do {
         a \<leftarrow> vget xadj v;
         b \<leftarrow> vget xadj (v + 1);
         sort_range adjncy a b
       }) (graph_adj A) = Some (graph_adj A)"
  unfolding for_range_def
proof (rule forM_id)
  fix v assume "v \<in> set [0..csc_n A - 1]"
  then have v: "0 \<le> v" "v < csc_n A" by simp_all
  note seg = graph_segment [OF assms(1) v]
  have "sort (neighbours A v) = neighbours A v"
    by (rule sorted_sort_id [OF strict_sorted_le [OF neighbours_sorted [OF assms(1) v]]])
  then have "sort_range (graph_adj A) (offset A v) (offset A (v + 1)) = Some (graph_adj A)"
    using seg segment_rejoin [OF seg(2,3,4)] by (simp add: sort_range_def)
  then show "(do {
         a \<leftarrow> vget xadj v;
         b \<leftarrow> vget xadj (v + 1);
         sort_range (graph_adj A) a b
       }) = Some (graph_adj A)" using assms(2) v by simp
qed

text \<open>After column \<open>j\<close> the cursor of \<open>j\<close> has reached the start of the next vertex: all neighbours
  of \<open>j\<close> are written, so the merge of the two halves has nothing to do.\<close>

lemma later_edges:
  assumes "csc_clean A" "0 \<le> j" "j < csc_n A"
  shows "bcount fst (sym_edges A (j + 1)) j = bcount fst (sym_edges A (csc_n A)) j"
proof -
  have none: "bcount fst (col_edges A k) j = 0" if "j < k" "k < csc_n A" for k
    using col_rows_bounds(1) [OF assms(1), of k] that assms(2)
    by (fastforce simp: bcount_def col_edges_def filter_empty_conv)
  have "bcount fst (sym_edges A (j + 1)) j = bcount fst (sym_edges A m) j" if "j + 1 \<le> m" "m \<le> csc_n A" for m
    using that
  proof (induction m rule: int_ge_induct)
    case (step m)
    then show ?case using none [of m] sym_edges_Suc [of m A] assms(2) by simp
  qed simp
  then show ?thesis using assms by simp
qed

lemma fill_mid_ok:
  assumes "csc_clean A" "int (length cur) = csc_n A" "\<And>v. 0 \<le> v \<Longrightarrow> v < csc_n A \<Longrightarrow> elt cur v = offset A v"
    and "int (length adj) = offset A (csc_n A)" "int (length mid) = csc_n A"
  shows "ok (for_range 0 (csc_n A) (\<lambda>j (cursor, adjncy, mid). do {
         (cursor, adjncy) \<leftarrow> column_entries A sym_place j (cursor, adjncy);
         c \<leftarrow> vget cursor j;
         mid \<leftarrow> vset mid j c;
         Some (cursor, adjncy, mid)
       }) (cur, adj, mid))
    (\<lambda>(_, adj', mid'). adj' = graph_adj A \<and> int (length mid') = csc_n A
       \<and> (\<forall>v. 0 \<le> v \<and> v < csc_n A \<longrightarrow> elt mid' v = offset A (v + 1)))"
proof (rule for_range_ok [where I = "\<lambda>j (c, a, m). 0 \<le> j \<and> int (length c) = csc_n A \<and> int (length m) = csc_n A
      \<and> length a = length adj \<and> place_inv fst snd (csc_n A) (sym_edges A (csc_n A)) (sym_edges A j) (c, a)
      \<and> (\<forall>v. 0 \<le> v \<and> v < j \<longrightarrow> elt m v = offset A (v + 1))"], goal_cases)
  note keys = sym_edges_keys [OF assms(1)] and A = csc_cleanD [OF assms(1)]
  {
    case 1
    have "place_inv fst snd (csc_n A) (sym_edges A (csc_n A)) [] (cur, adj)"
      by (rule place_inv_start) (use assms bptr_total [OF keys] in simp_all)
    then show ?case using assms by (simp add: sym_edges_def)
  next
    case (2 j s)
    obtain c a m where s: "s = (c, a, m)" by (cases s)
    obtain suf where suf: "sym_edges A (csc_n A) = sym_edges A j @ col_edges A j @ suf"
      using sym_edges_split [OF 2(1,2)] by blast
    have "ok (forM (col_edges A j) (place fst snd) (c, a))
        (\<lambda>s'. place_inv fst snd (csc_n A) (sym_edges A (csc_n A)) (sym_edges A j @ col_edges A j) s'
           \<and> length (fst s') = length (fst (c, a)) \<and> length (snd s') = length (snd (c, a)))"
      by (rule place_run [OF keys suf]) (use 2(3) s in simp)
    then obtain c' a' where p: "forM (col_edges A j) (place fst snd) (c, a) = Some (c', a')" "length c' = length c"
      "length a' = length a"
      and inv: "place_inv fst snd (csc_n A) (sym_edges A (csc_n A)) (sym_edges A (j + 1)) (c', a')"
      using 2(1) by (auto simp: ok_def sym_edges_Suc)
    have "elt c' j = offset A (j + 1)"
      using inv 2(1,2) later_edges [OF assms(1) 2(1,2)] by (simp add: place_inv_def bptr_Suc)
    moreover have "vget c' j = Some (elt c' j)" using p(2) 2 s by (simp add: vget_at)
    ultimately show ?case
      using 2 s p inv by (auto simp: sym_place_column [OF A(1) 2(1,2)] at_update)
  next
    case (3 s)
    have "length adj = length (sym_edges A (csc_n A))" using assms(4) bptr_total [OF keys] by simp
    moreover obtain c a m where s: "s = (c, a, m)" by (cases s)
    moreover have "place_inv fst snd (csc_n A) (sym_edges A (csc_n A)) (sym_edges A (csc_n A)) (c, a)"
      "length a = length adj" using 3 s A(2) by (simp_all add: max_def)
    ultimately have "a = graph_adj A"
      using place_inv_end(1) [OF keys A(2)] graph_adj_eq [OF assms(1)] by fastforce
    then show ?case using 3 s A(2) by (simp add: max_def)
  }
qed

lemma take_xadj:
  assumes "int (length xadj) = n + 1" "0 \<le> n"
  shows "int (length (take (nat n) xadj)) = n" "0 \<le> v \<Longrightarrow> v < n \<Longrightarrow> elt (take (nat n) xadj) v = elt xadj v"
  using assms by (simp_all add: elt_def)

lemma build_symmetric_adjacency_eq:
  assumes "csc_clean A" "adjacency_entries A < 2 ^ 31"
  shows "\<exists>xadj. build_symmetric_adjacency A = Some (xadj, graph_adj A)
    \<and> int (length xadj) = csc_n A + 1 \<and> (\<forall>v. 0 \<le> v \<and> v \<le> csc_n A \<longrightarrow> elt xadj v = offset A v)"
proof -
  have n: "0 \<le> csc_n A" by (rule csc_cleanD(2) [OF assms(1)])
  obtain deg xadj where x: "sym_degrees A = Some deg"
    "for_range 0 (csc_n A) (prefix_step32 deg) (replicate (nat (csc_n A + 1)) 0) = Some xadj"
    "int (length xadj) = csc_n A + 1" "\<And>v. 0 \<le> v \<Longrightarrow> v \<le> csc_n A \<Longrightarrow> elt xadj v = offset A v"
    using sym_xadj_ok [OF assms] by (auto simp: ok_def bind_eq_Some_conv)
  have get: "vget xadj v = Some (offset A v)" if "0 \<le> v" "v \<le> csc_n A" for v
    using x(3,4) that by (simp add: vget_at)
  have tot: "0 \<le> offset A (csc_n A)" using n by (rule bptr_nonneg)
  obtain c mid where fill: "for_range 0 (csc_n A) (\<lambda>j (cursor, adjncy, mid). do {
         (cursor, adjncy) \<leftarrow> column_entries A sym_place j (cursor, adjncy);
         c \<leftarrow> vget cursor j;
         mid \<leftarrow> vset mid j c;
         Some (cursor, adjncy, mid)
       }) (take (nat (csc_n A)) xadj, replicate (nat (offset A (csc_n A))) 0, replicate (nat (csc_n A)) 0) =
      Some (c, graph_adj A, mid)" "int (length mid) = csc_n A"
      "\<And>v. 0 \<le> v \<Longrightarrow> v < csc_n A \<Longrightarrow> elt mid v = offset A (v + 1)"
    using ok_ex [OF fill_mid_ok [OF assms(1), of "take (nat (csc_n A)) xadj" "replicate (nat (offset A (csc_n A))) 0"
        "replicate (nat (csc_n A)) 0"]] take_xadj [OF x(3) n] x(4) n tot by auto
  have "vget mid v = Some (offset A (v + 1))" if "0 \<le> v" "v < csc_n A" for v
    using fill(2,3) that by (simp add: vget_at)
  with merge_loop [OF assms(1) get] fill(1) show ?thesis
    unfolding build_symmetric_adjacency_def Let_def x(1) bind.simps x(2)
    using get [OF n order_refl] x(3,4) by (simp add: split_def)
qed

text \<open>With more entries a sum overflows.\<close>

lemma build_symmetric_adjacency_fits:
  assumes A: "csc_clean A" and b: "build_symmetric_adjacency A = Some r"
  shows "adjacency_entries A < 2 ^ 31"
proof -
  obtain deg xadj where d: "sym_degrees A = Some deg"
    "for_range 0 (csc_n A) (prefix_step32 deg) (replicate (nat (csc_n A + 1)) 0) = Some xadj"
    using b by (auto simp: build_symmetric_adjacency_def Let_def bind_eq_Some_conv)
  note g = ok_the [OF sym_degrees_ok [OF A] d(1)] and n = csc_cleanD(2) [OF A]
  show ?thesis unfolding offset_total [OF A, symmetric]
    by (rule prefix32_exact [OF d(2)]) (use g n in \<open>simp_all add: elt_def\<close>)
qed

lemma build_symmetric_adjacency_Some:
  assumes "csc_clean A" "build_symmetric_adjacency A = Some (xadj, adj)"
  shows "adj = graph_adj A" "int (length xadj) = csc_n A + 1" "0 \<le> v \<Longrightarrow> v \<le> csc_n A \<Longrightarrow> elt xadj v = offset A v"
  using build_symmetric_adjacency_eq [OF assms(1) build_symmetric_adjacency_fits [OF assms]] assms(2) by auto

lemma forM_columns:
  assumes "csc_ptr_ok A"
  shows "for_range 0 (csc_n A) (column_entries A sym_place) s =
    forM (sym_edges A (csc_n A)) (place fst snd) s"
  unfolding for_range_def sym_edges_def forM_concat
  by (rule forM_cong) (simp add: sym_place_column [OF assms])

lemma build_symmetric_csr_eq:
  assumes "csc_clean A" "adjacency_entries A < 2 ^ 31"
  shows "\<exists>xadj. build_symmetric_csr A = Some (xadj, graph_adj A)
    \<and> int (length xadj) = csc_n A + 1 \<and> (\<forall>v. 0 \<le> v \<and> v \<le> csc_n A \<longrightarrow> elt xadj v = offset A v)"
proof -
  have n: "0 \<le> csc_n A" by (rule csc_cleanD(2) [OF assms(1)])
  note keys = sym_edges_keys [OF assms(1)]
  obtain deg xadj where x: "sym_degrees A = Some deg"
    "for_range 0 (csc_n A) (prefix_step32 deg) (replicate (nat (csc_n A + 1)) 0) = Some xadj"
    "int (length xadj) = csc_n A + 1" "\<And>v. 0 \<le> v \<Longrightarrow> v \<le> csc_n A \<Longrightarrow> elt xadj v = offset A v"
    using sym_xadj_ok [OF assms] by (auto simp: ok_def bind_eq_Some_conv)
  have get: "vget xadj v = Some (offset A v)" if "0 \<le> v" "v \<le> csc_n A" for v
    using x(3,4) that by (simp add: vget_at)
  have "ok (forM (sym_edges A (csc_n A)) (place fst snd)
      (take (nat (csc_n A)) xadj, replicate (nat (offset A (csc_n A))) 0))
    (\<lambda>(c, a). length c = length (take (nat (csc_n A)) xadj)
      \<and> (\<forall>j. 0 \<le> j \<and> j < csc_n A \<longrightarrow> elt c j = offset A (j + 1))
      \<and> a = map snd (concat (buckets fst (csc_n A) (sym_edges A (csc_n A)))))"
    by (rule place_ok [OF keys n]) (use take_xadj [OF x(3) n] x(4) bptr_total [OF keys] in auto)
  then obtain c where "forM (sym_edges A (csc_n A)) (place fst snd)
      (take (nat (csc_n A)) xadj, replicate (nat (offset A (csc_n A))) 0) = Some (c, graph_adj A)"
    unfolding graph_adj_eq [OF assms(1)] by (auto simp: ok_def)
  with sort_loop [OF assms(1) get] show ?thesis
    unfolding build_symmetric_csr_def Let_def x(1) bind.simps x(2) forM_columns [OF csc_cleanD(1) [OF assms(1)]]
    using get [OF n order_refl] x(3,4) by simp
qed

section \<open>The caller-owned arrays of \<open>lower_csc_adjacency\<close>\<close>

text \<open>In a clean column the diagonal, when present, is the first entry.\<close>

lemma below_diagonal_eq:
  assumes "csc_clean A" "0 \<le> j" "j < csc_n A"
  obtains k where "below_diagonal A j = Some (k, elt (col_ptr A) (j + 1))"
    "elt (col_ptr A) j \<le> k" "k \<le> elt (col_ptr A) (j + 1)"
    "map (elt (row_idx A)) [k..elt (col_ptr A) (j + 1) - 1] = filter (\<lambda>i. i \<noteq> j) (col_rows A j)"
    "k - elt (col_ptr A) j = (if j \<in> set (col_rows A j) then 1 else 0)"
proof -
  let ?lo = "elt (col_ptr A) j" and ?hi = "elt (col_ptr A) (j + 1)"
  note A = csc_cleanD(1) [OF assms(1)]
  have get: "vget (col_ptr A) j = Some ?lo" "vget (col_ptr A) (j + 1) = Some ?hi"
    using assms csc_len_ptr [OF A] by (simp_all add: vget_at)
  have le: "?lo \<le> ?hi" using csc_ptr_mono [OF A assms(2), of "j + 1"] assms by simp
  note sorted = col_rows_sorted [OF assms]
  show thesis
  proof (cases "?lo < ?hi")
    case False
    then have "col_rows A j = []" using le by (simp add: col_rows_def)
    then show thesis using that [of ?lo] get le False by (simp add: below_diagonal_def)
  next
    case True
    then have rows: "col_rows A j = elt (row_idx A) ?lo # map (elt (row_idx A)) [?lo + 1..?hi - 1]"
      by (simp add: col_rows_def upto_rec1)
    have first: "vget (row_idx A) ?lo = Some (elt (row_idx A) ?lo)"
      using csc_slot_bounds [OF A assms(2,3), of ?lo] True by (simp add: vget_at)
    have above: "j < x" if "x \<in> set (map (elt (row_idx A)) [?lo + 1..?hi - 1])" for x
      using sorted rows that col_rows_bounds(1) [OF assms, of "elt (row_idx A) ?lo"] by fastforce
    then have rest: "filter (\<lambda>i. i \<noteq> j) (map (elt (row_idx A)) [?lo + 1..?hi - 1]) =
        map (elt (row_idx A)) [?lo + 1..?hi - 1]"
      by (intro filter_True) auto
    show thesis
    proof (cases "elt (row_idx A) ?lo = j")
      case eq: True
      then show thesis
        using that [of "?lo + 1"] get first True rest rows by (simp add: below_diagonal_def)
    next
      case False
      then have "j \<notin> set (col_rows A j)" using rows above by auto
      then show thesis
        using that [of ?lo] get first True rest rows False by (simp add: below_diagonal_def col_rows_def)
    qed
  qed
qed

lemma range_rows:
  assumes "csc_clean A" "0 \<le> j" "j < csc_n A" "elt (col_ptr A) j \<le> k"
    "map (elt (row_idx A)) [k..elt (col_ptr A) (j + 1) - 1] = xs"
  shows "for_range k (elt (col_ptr A) (j + 1)) (\<lambda>k s. do { i \<leftarrow> vget (row_idx A) k; f i s }) s = forM xs f s"
  unfolding for_range_def assms(5) [symmetric] forM_map
  by (rule forM_cong) (use csc_slot_bounds [OF csc_cleanD(1) [OF assms(1)] assms(2,3)] assms(4) in \<open>simp add: vget_at\<close>)

lemma bcount_col_edges:
  "bcount fst (col_edges A j) v =
     (if v = j then int (length (filter (\<lambda>i. i \<noteq> j) (col_rows A j))) else 0)
     + bcount (\<lambda>i. i) (filter (\<lambda>i. i \<noteq> j) (col_rows A j)) v"
proof -
  have "bcount fst (concat (map (\<lambda>i. [(j, i), (i, j)]) xs)) v =
      (if v = j then int (length xs) else 0) + bcount (\<lambda>i. i) xs v" for xs
    by (induction xs) (auto simp: bcount_def)
  then show ?thesis by (simp add: col_edges_def)
qed

lemma adjacency_degrees_ok:
  assumes "csc_clean A" "csc_n A \<le> int (length xadj)" "\<And>v. 0 \<le> v \<Longrightarrow> v < csc_n A \<Longrightarrow> elt xadj v = 0"
  shows "ok (adjacency_degrees A xadj) (\<lambda>d. length d = length xadj
    \<and> (\<forall>v. 0 \<le> v \<and> v < csc_n A \<longrightarrow> elt d v = bcount fst (sym_edges A (csc_n A)) v))"
  unfolding adjacency_degrees_def
proof (rule for_range_ok [where I = "\<lambda>j d. 0 \<le> j \<and> length d = length xadj
      \<and> (\<forall>v. 0 \<le> v \<and> v < csc_n A \<longrightarrow> elt d v = bcount fst (sym_edges A j) v)"], goal_cases)
  case 1
  then show ?case using assms(3) by (simp add: sym_edges_def)
next
  case (2 j d)
  obtain k where k: "below_diagonal A j = Some (k, elt (col_ptr A) (j + 1))"
    "elt (col_ptr A) j \<le> k" "k \<le> elt (col_ptr A) (j + 1)"
    "map (elt (row_idx A)) [k..elt (col_ptr A) (j + 1) - 1] = filter (\<lambda>i. i \<noteq> j) (col_rows A j)"
    by (rule below_diagonal_eq [OF assms(1) 2(1,2)]) blast
  let ?rows = "filter (\<lambda>i. i \<noteq> j) (col_rows A j)" and ?k1 = "elt (col_ptr A) (j + 1)"
  have cnt: "?k1 - k = int (length ?rows)" using arg_cong [OF k(4), of length] k(3) by simp
  let ?d = "d[nat j := elt d j + (?k1 - k)]"
  have len: "j < int (length d)" using 2 assms(2) by simp
  have "ok (forM ?rows (\<lambda>i d. bump d i) ?d)
      (\<lambda>d'. length d' = length ?d \<and> (\<forall>v \<ge> 0. elt d' v = elt ?d v + bcount (\<lambda>i. i) ?rows v))"
    by (rule count_ok) (use col_rows_bounds [OF assms(1) 2(1,2)] 2 assms(2) in fastforce)
  then have "ok (forM ?rows (\<lambda>i d. bump d i) ?d) (\<lambda>d'. 0 \<le> j + 1 \<and> length d' = length xadj
      \<and> (\<forall>v. 0 \<le> v \<and> v < csc_n A \<longrightarrow> elt d' v = bcount fst (sym_edges A (j + 1)) v))"
    by (rule ok_mono) (use 2 len in \<open>auto simp: sym_edges_Suc bcount_col_edges at_update cnt\<close>)
  then show ?case
    using 2 len by (simp add: k(1) vget_at range_rows [OF assms(1) 2(1,2) k(2,4)] vset_def)
next
  case (3 d)
  then show ?case using csc_cleanD(2) [OF assms(1)] by (simp add: max_def)
qed

lemma starts_ok:
  assumes "0 \<le> n" "int (length d) = n + 1" "\<And>v. 0 \<le> v \<Longrightarrow> v < n \<Longrightarrow> elt d v = bcount key xs v"
    and fits: "bptr key xs n < 2 ^ 31"
  shows "ok (for_range 0 n (\<lambda>v (xadj, start). do {
         d \<leftarrow> vget xadj v;
         xadj \<leftarrow> vset xadj v start;
         start \<leftarrow> iadd32 start d;
         Some (xadj, start)
       }) (d, 0)) (\<lambda>(x, start). int (length x) = n + 1 \<and> start = bptr key xs n
      \<and> (\<forall>v. 0 \<le> v \<and> v < n \<longrightarrow> elt x v = bptr key xs v))"
proof (rule for_range_ok [where I = "\<lambda>j (x, start). 0 \<le> j \<and> int (length x) = n + 1 \<and> start = bptr key xs j
      \<and> (\<forall>v. 0 \<le> v \<and> v < n \<longrightarrow> elt x v = (if v < j then bptr key xs v else bcount key xs v))"], goal_cases)
  case (2 j s)
  have "0 \<le> bptr key xs (j + 1)" by (rule bptr_nonneg) (use 2 in simp)
  moreover have "bptr key xs (j + 1) \<le> bptr key xs n" by (rule bptr_mono) (use 2 in simp_all)
  ultimately have "in_int32 (bptr key xs j + bcount key xs j)" using fits 2(1) by (simp add: in_int32_def bptr_Suc)
  with 2 show ?case by (auto simp: elt_def [symmetric] at_update bptr_Suc)
qed (use assms in \<open>auto simp: max_def\<close>)

lemma shift_ok:
  assumes "0 \<le> n" "int (length x) = n + 1" "\<And>v. 0 \<le> v \<Longrightarrow> v < n \<Longrightarrow> elt x v = f (v + 1)"
  shows "ok (for_range 0 n (\<lambda>t x. do { y \<leftarrow> vget x (n - t - 1); vset x (n - t) y }) x)
    (\<lambda>x. int (length x) = n + 1 \<and> (\<forall>v. 0 < v \<and> v \<le> n \<longrightarrow> elt x v = f v))"
proof (rule for_range_ok [where I = "\<lambda>t x. 0 \<le> t \<and> int (length x) = n + 1
      \<and> (\<forall>v. n - t < v \<and> v \<le> n \<longrightarrow> elt x v = f v) \<and> (\<forall>v. 0 \<le> v \<and> v < n - t \<longrightarrow> elt x v = f (v + 1))"], goal_cases)
  case (2 t x)
  then show ?case by (auto simp: elt_def [symmetric] at_update)
qed (use assms in \<open>auto simp: max_def\<close>)

lemma adjacency_fill_eq:
  assumes "csc_clean A"
  shows "adjacency_fill A s = forM (sym_edges A (csc_n A)) (place fst snd) s"
  unfolding adjacency_fill_def for_range_def [of 0] sym_edges_def forM_concat
proof (rule forM_cong)
  fix j s assume "j \<in> set [0..csc_n A - 1]"
  then have j: "0 \<le> j" "j < csc_n A" by simp_all
  obtain k where k: "below_diagonal A j = Some (k, elt (col_ptr A) (j + 1))"
    "elt (col_ptr A) j \<le> k" "k \<le> elt (col_ptr A) (j + 1)"
    "map (elt (row_idx A)) [k..elt (col_ptr A) (j + 1) - 1] = filter (\<lambda>i. i \<noteq> j) (col_rows A j)"
    by (rule below_diagonal_eq [OF assms j]) blast
  show "(do {
         (k, k1) \<leftarrow> below_diagonal A j;
         for_range k k1 (\<lambda>k s. do {
           i \<leftarrow> vget (row_idx A) k;
           s \<leftarrow> place fst snd (j, i) s;
           place fst snd (i, j) s
         }) s
       }) = forM (col_edges A j) (place fst snd) s"
    unfolding k(1) bind.simps prod.case range_rows [OF assms j k(2,4)] col_edges_def
    using forM_pairs [where g = "place fst snd" and a = "\<lambda>i. (j, i)" and b = "\<lambda>i. (i, j)"
        and P = "\<lambda>i. i \<noteq> j" and xs = "col_rows A j"] by simp
qed

lemma lower_csc_adjacency_ok:
  assumes "csc_clean A" "int (length x0) = csc_n A + 1" "int (length adj) = offset A (csc_n A)" and fits: "adjacency_entries A < 2 ^ 31"
  shows "\<exists>xadj. lower_csc_adjacency A x0 adj = Some (xadj, graph_adj A)
    \<and> int (length xadj) = csc_n A + 1 \<and> (\<forall>v. 0 \<le> v \<and> v \<le> csc_n A \<longrightarrow> elt xadj v = offset A v)"
proof -
  note A = csc_cleanD [OF assms(1)] and keys = sym_edges_keys [OF assms(1)]
  let ?n = "csc_n A" and ?zero = "replicate (nat (csc_n A + 1)) 0 @ drop (nat (csc_n A + 1)) x0"
  have zero: "int (length ?zero) = ?n + 1" using assms(2) A(2) by simp
  obtain d where d: "adjacency_degrees A ?zero = Some d" "length d = length ?zero"
    "\<And>v. 0 \<le> v \<Longrightarrow> v < ?n \<Longrightarrow> elt d v = bcount fst (sym_edges A ?n) v"
    using ok_ex [OF adjacency_degrees_ok [OF assms(1), of ?zero]] zero by (auto simp: elt_def nth_append)
  have dlen: "int (length d) = ?n + 1" using d(2) zero by (simp only:)
  obtain x1 where x1: "for_range 0 ?n (\<lambda>v (xadj, start). do {
         d \<leftarrow> vget xadj v;
         xadj \<leftarrow> vset xadj v start;
         start \<leftarrow> iadd32 start d;
         Some (xadj, start)
       }) (d, 0) = Some (x1, offset A ?n)" "int (length x1) = ?n + 1"
    "\<And>v. 0 \<le> v \<Longrightarrow> v < ?n \<Longrightarrow> elt x1 v = offset A v"
    using ok_ex [OF starts_ok [OF A(2) dlen d(3)]] fits offset_total [OF assms(1)] by auto
  let ?x2 = "x1[nat ?n := offset A ?n]"
  have x2: "vset x1 ?n (offset A ?n) = Some ?x2" using x1(2) A(2) by (simp add: vset_def)
  have "ok (adjacency_fill A (?x2, adj)) (\<lambda>(c, a). length c = length ?x2
      \<and> (\<forall>j. 0 \<le> j \<and> j < ?n \<longrightarrow> elt c j = offset A (j + 1))
      \<and> a = map snd (concat (buckets fst ?n (sym_edges A ?n))))"
    unfolding adjacency_fill_eq [OF assms(1)]
    by (rule place_ok [OF keys A(2)]) (use x1 A(2) assms(3) bptr_total [OF keys] in \<open>auto simp: at_update\<close>)
  then obtain x3 where x3: "adjacency_fill A (?x2, adj) = Some (x3, graph_adj A)" "int (length x3) = ?n + 1"
    "\<And>v. 0 \<le> v \<Longrightarrow> v < ?n \<Longrightarrow> elt x3 v = offset A (v + 1)"
    unfolding graph_adj_eq [OF assms(1)] using x1(2) by (auto simp: ok_def)
  obtain x4 where x4: "for_range 0 ?n (\<lambda>t x. do { y \<leftarrow> vget x (?n - t - 1); vset x (?n - t) y }) x3 = Some x4"
    "int (length x4) = ?n + 1" "\<And>v. 0 < v \<Longrightarrow> v \<le> ?n \<Longrightarrow> elt x4 v = offset A v"
    using ok_ex [OF shift_ok [OF A(2) x3(2), of "offset A"]] x3(3) by auto
  have "vset x4 0 0 = Some (x4[0 := 0])" using x4(2) A(2) by (simp add: vset_def)
  moreover have "elt (x4[0 := 0]) v = offset A v" if "0 \<le> v" "v \<le> ?n" for v
    using at_update [of v 0 x4 0] x4 that by (cases "v = 0") simp_all
  ultimately show ?thesis
    unfolding lower_csc_adjacency_def Let_def d(1) bind.simps x1(1) prod.case x2 x3(1) x4(1)
    using x4(2) by simp
qed

lemma sym_edges_length:
  assumes "csc_clean A"
  shows "ok (lower_csc_adjacency_size A) (\<lambda>sz. sz = int (length (sym_edges A (csc_n A))))"
proof -
  note A = csc_cleanD [OF assms]
  have "ok (for_range 0 (csc_n A) (\<lambda>j diag. do {
       lo \<leftarrow> vget (col_ptr A) j;
       hi \<leftarrow> vget (col_ptr A) (j + 1);
       if hi > lo then do {
         i \<leftarrow> vget (row_idx A) lo;
         Some (if i = j then diag + 1 else diag)
       } else Some diag
     }) 0) (\<lambda>diag. int (length (sym_edges A (csc_n A))) = 2 * (elt (col_ptr A) (csc_n A) - diag))"
  proof (rule for_range_ok [where I = "\<lambda>j diag. 0 \<le> j
      \<and> int (length (sym_edges A j)) = 2 * (elt (col_ptr A) j - diag)"], goal_cases)
    case 1
    then show ?case using A(1) by (simp add: sym_edges_def csc_ptr_ok_def)
  next
    case (2 j diag)
    let ?k1 = "elt (col_ptr A) (j + 1)"
    obtain k where k: "below_diagonal A j = Some (k, ?k1)" "k \<le> ?k1"
      "map (elt (row_idx A)) [k..?k1 - 1] = filter (\<lambda>i. i \<noteq> j) (col_rows A j)"
      by (rule below_diagonal_eq [OF assms 2(1,2)]) blast
    have get: "vget (col_ptr A) j = Some (elt (col_ptr A) j)" "vget (col_ptr A) (j + 1) = Some ?k1"
      using 2 csc_len_ptr [OF A(1)] by (simp_all add: vget_at)
    have body: "(do {
       lo \<leftarrow> vget (col_ptr A) j;
       hi \<leftarrow> vget (col_ptr A) (j + 1);
       if hi > lo then do {
         i \<leftarrow> vget (row_idx A) lo;
         Some (if i = j then diag + 1 else diag)
       } else Some diag
     }) = Some (diag + (k - elt (col_ptr A) j))"
      using k(1) get by (auto simp: below_diagonal_def bind_eq_Some_conv split: if_splits)
    have "length (col_edges A j) = 2 * length (filter (\<lambda>i. i \<noteq> j) (col_rows A j))"
      by (simp add: col_edges_def length_concat comp_def sum_list_triv)
    moreover have "int (length (filter (\<lambda>i. i \<noteq> j) (col_rows A j))) = ?k1 - k"
      using arg_cong [OF k(3), of length] k(2) by simp
    ultimately show ?case using 2 unfolding body by (simp add: sym_edges_Suc)
  next
    case (3 diag)
    then show ?case using A(2) by (simp add: max_def)
  qed
  then show ?thesis
    using csc_len_ptr [OF A(1)] A(2) by (auto simp: lower_csc_adjacency_size_def ok_def vget_at)
qed

section \<open>Properties\<close>

text \<open>Two vertices are adjacent when one is stored below the other's diagonal.\<close>

definition adjacent :: "'v csc \<Rightarrow> int \<Rightarrow> int \<Rightarrow> bool" where
  "adjacent A u v \<longleftrightarrow> 0 \<le> u \<and> 0 \<le> v \<and> u < csc_n A \<and> v < csc_n A \<and> u \<noteq> v
     \<and> max u v \<in> set (col_rows A (min u v))"

lemma set_neighbours:
  assumes "csc_clean A" "0 \<le> v" "v < csc_n A"
  shows "set (neighbours A v) = {u. adjacent A v u}"
proof (rule set_eqI)
  fix u
  have mem: "u \<in> set (neighbours A v) \<longleftrightarrow> 0 \<le> u \<and> u < v \<and> v \<in> set (col_rows A u) \<or> u \<noteq> v \<and> u \<in> set (col_rows A v)"
    by (auto simp: neighbours_def)
  consider "u < v" | "u = v" | "v < u" by linarith
  then show "u \<in> set (neighbours A v) \<longleftrightarrow> u \<in> {u. adjacent A v u}"
  proof cases
    case 1
    have "u \<notin> set (col_rows A v)" using col_rows_bounds(1) [OF assms, of u] 1 by auto
    then show ?thesis unfolding mem using 1 assms(2,3) by (auto simp: adjacent_def)
  next
    case 3
    have "u < csc_n A" if "u \<in> set (col_rows A v)" using col_rows_bounds(2) [OF assms that] .
    then show ?thesis unfolding mem using 3 assms(2,3) by (auto simp: adjacent_def)
  next
    case 2
    then show ?thesis unfolding mem by (simp add: adjacent_def)
  qed
qed

definition same_offsets :: "'v csc \<Rightarrow> int list \<Rightarrow> bool" where
  "same_offsets A xadj \<longleftrightarrow> int (length xadj) = csc_n A + 1 \<and> (\<forall>v. 0 \<le> v \<and> v \<le> csc_n A \<longrightarrow> elt xadj v = offset A v)"

lemma same_offsets_unique: "same_offsets A x \<Longrightarrow> same_offsets A y \<Longrightarrow> x = y"
proof (rule nth_equalityI)
  assume h: "same_offsets A x" "same_offsets A y"
  then show "length x = length y" by (simp add: same_offsets_def)
  fix i assume "i < length x"
  then have "0 \<le> int i" "int i \<le> csc_n A" using h by (simp_all add: same_offsets_def)
  then have "elt x (int i) = elt y (int i)" using h unfolding same_offsets_def by metis
  then show "x ! i = y ! i" by (simp add: elt_def)
qed

definition example_clean :: "int csc" where
  "example_clean = \<lparr>csc_n = 4, col_ptr = [0, 3, 5, 6, 7], row_idx = [0, 2, 3, 1, 3, 2, 3], vals = [1, 1, 1, 1, 1, 1, 1]\<rparr>"

lemma example_clean_ok: "csc_clean example_clean"
proof (rule csc_cleanI)
  show "csc_machine example_clean" by (simp add: example_clean_def csc_machine_def in_int32_def)
  show "clean_shape_ok example_clean = Some True" by code_simp
  show "map_option isl (fast_scan example_clean) = Some False" by code_simp
qed

text \<open>C25: on a clean matrix whose neighbour array can be indexed with an \<open>Int\<close>,
  \<open>build_symmetric_adjacency\<close> returns the adjacency graph: the list of
  each vertex holds exactly its neighbours in strictly increasing order (no self loop, no
  duplicate), lies between consecutive offsets, and the offsets start at 0 and end at the length
  of the array. No read or write leaves its vector, no offset overflows, and every range handed to
  \<open>std::inplace_merge\<close> is made of two sorted halves. With \<open>2^31\<close> neighbours or more the sum of
  the degrees does overflow.\<close>

theorem build_symmetric_adjacency_correct:
  assumes "csc_clean A"
  shows "(adjacency_entries A < 2 ^ 31 \<longrightarrow> (\<exists>xadj adjncy. build_symmetric_adjacency A = Some (xadj, adjncy)
    \<and> int (length xadj) = csc_n A + 1 \<and> elt xadj 0 = 0 \<and> elt xadj (csc_n A) = int (length adjncy)
    \<and> int (length adjncy) = adjacency_entries A
    \<and> (\<forall>v. 0 \<le> v \<and> v < csc_n A \<longrightarrow>
        (let nbrs = segment adjncy (elt xadj v) (elt xadj (v + 1)) in
         elt xadj v \<le> elt xadj (v + 1) \<and> sorted_wrt (<) nbrs \<and> set nbrs = {u. adjacent A v u}))))
    \<and> (2 ^ 31 \<le> adjacency_entries A \<longrightarrow> build_symmetric_adjacency A = None)"
proof (intro conjI impI)
  assume fits: "adjacency_entries A < 2 ^ 31"
  obtain xadj where x: "build_symmetric_adjacency A = Some (xadj, graph_adj A)"
    "int (length xadj) = csc_n A + 1" "\<And>v. 0 \<le> v \<Longrightarrow> v \<le> csc_n A \<Longrightarrow> elt xadj v = offset A v"
    using build_symmetric_adjacency_eq [OF assms fits] by blast
  have n: "0 \<le> csc_n A" by (rule csc_cleanD(2) [OF assms])
  have len: "offset A (csc_n A) = int (length (graph_adj A))"
    using offset_eq [OF assms n order_refl] by (simp add: graph_adj_def)
  have segs: "elt xadj v \<le> elt xadj (v + 1) \<and> sorted_wrt (<) (segment (graph_adj A) (elt xadj v) (elt xadj (v + 1)))
      \<and> set (segment (graph_adj A) (elt xadj v) (elt xadj (v + 1))) = {u. adjacent A v u}"
    if "0 \<le> v" "v < csc_n A" for v
    using x(3) [of v] x(3) [of "v + 1"] that graph_segment [OF assms that] neighbours_sorted [OF assms that]
      set_neighbours [OF assms that] by simp
  show "\<exists>xadj adjncy. build_symmetric_adjacency A = Some (xadj, adjncy)
    \<and> int (length xadj) = csc_n A + 1 \<and> elt xadj 0 = 0 \<and> elt xadj (csc_n A) = int (length adjncy)
    \<and> int (length adjncy) = adjacency_entries A
    \<and> (\<forall>v. 0 \<le> v \<and> v < csc_n A \<longrightarrow>
        (let nbrs = segment adjncy (elt xadj v) (elt xadj (v + 1)) in
         elt xadj v \<le> elt xadj (v + 1) \<and> sorted_wrt (<) nbrs \<and> set nbrs = {u. adjacent A v u}))"
    using x n len segs offset_total [OF assms] by (intro exI [of _ xadj] exI [of _ "graph_adj A"]) (simp add: Let_def)
next
  assume "2 ^ 31 \<le> adjacency_entries A"
  then show "build_symmetric_adjacency A = None"
    using build_symmetric_adjacency_fits [OF assms] by (cases "build_symmetric_adjacency A") force+
qed

lemma example_clean_entries: "adjacency_entries example_clean < 2 ^ 31"
  by code_simp

theorem build_symmetric_adjacency_correct_witness:
  "\<exists>xadj adjncy. build_symmetric_adjacency example_clean = Some (xadj, adjncy)
     \<and> set (segment adjncy (elt xadj 3) (elt xadj 4)) = {u. adjacent example_clean 3 u}"
proof -
  have n: "csc_n example_clean = 4" by (simp add: example_clean_def)
  obtain xadj adjncy where g: "build_symmetric_adjacency example_clean = Some (xadj, adjncy)"
    "\<And>v. 0 \<le> v \<Longrightarrow> v < 4 \<Longrightarrow> set (segment adjncy (elt xadj v) (elt xadj (v + 1))) = {u. adjacent example_clean v u}"
    using build_symmetric_adjacency_correct [OF example_clean_ok] example_clean_entries unfolding n Let_def by blast
  from g(2) [of 3] have "set (segment adjncy (elt xadj 3) (elt xadj 4)) = {u. adjacent example_clean 3 u}" by simp
  with g(1) show ?thesis by blast
qed

text \<open>C26: the three graph builders agree: on a clean matrix \<open>build_symmetric_csr\<close> (which sorts
  every list) and \<open>lower_csc_adjacency\<close> (which counts, fills and shifts inside the caller's two
  arrays) return the very arrays of \<open>build_symmetric_adjacency\<close>, whatever the caller's arrays
  held, and \<open>lower_csc_adjacency_size\<close> (a \<open>size_t\<close>) is the length of the neighbour array; the
  offsets are \<open>Int\<close>s, so the size must be below \<open>2^31\<close>.\<close>

theorem graph_builders_agree:
  assumes "csc_clean A" "int (length x0) = csc_n A + 1"
    and "lower_csc_adjacency_size A = Some (int (length a0))" and small: "int (length a0) < 2 ^ 31"
  shows "\<exists>xadj adjncy. build_symmetric_adjacency A = Some (xadj, adjncy)
    \<and> build_symmetric_csr A = Some (xadj, adjncy)
    \<and> lower_csc_adjacency A x0 a0 = Some (xadj, adjncy)
    \<and> length a0 = length adjncy"
proof -
  have n: "0 \<le> csc_n A" by (rule csc_cleanD(2) [OF assms(1)])
  have len: "int (length a0) = offset A (csc_n A)"
    using ok_the [OF sym_edges_length [OF assms(1)] assms(3)] bptr_total [OF sym_edges_keys [OF assms(1)]] by simp
  have fits: "adjacency_entries A < 2 ^ 31" using len small offset_total [OF assms(1)] by simp
  obtain x1 where x1: "build_symmetric_adjacency A = Some (x1, graph_adj A)" "same_offsets A x1"
    using build_symmetric_adjacency_eq [OF assms(1) fits] unfolding same_offsets_def by blast
  obtain x2 where x2: "build_symmetric_csr A = Some (x2, graph_adj A)" "same_offsets A x2"
    using build_symmetric_csr_eq [OF assms(1) fits] unfolding same_offsets_def by blast
  obtain x3 where x3: "lower_csc_adjacency A x0 a0 = Some (x3, graph_adj A)" "same_offsets A x3"
    using lower_csc_adjacency_ok [OF assms(1,2) len fits] unfolding same_offsets_def by blast
  have "x2 = x1" "x3 = x1" by (rule same_offsets_unique; use x1 x2 x3 in blast)+
  moreover have "length a0 = length (graph_adj A)"
    using len offset_eq [OF assms(1) n order_refl] by (simp add: graph_adj_def)
  ultimately show ?thesis using x1 x2 x3 by simp
qed

theorem graph_builders_agree_witness:
  "build_symmetric_csr example_clean = lower_csc_adjacency example_clean [9, 9, 9, 9, 9] [5, 5, 5, 5, 5, 5]"
proof -
  have "lower_csc_adjacency_size example_clean = Some 6" by code_simp
  then show ?thesis
    using graph_builders_agree [OF example_clean_ok, of "[9, 9, 9, 9, 9]" "[5, 5, 5, 5, 5, 5]"]
    by (auto simp: example_clean_def)
qed

section \<open>Greedy structural rank\<close>

definition matching_of :: "'v csc \<Rightarrow> int \<Rightarrow> (int \<times> int) set \<Rightarrow> bool" where
  "matching_of A j M \<longleftrightarrow> finite M \<and> inj_on fst M \<and> inj_on snd M
     \<and> (\<forall>(i, c) \<in> M. 0 \<le> c \<and> c < j \<and> i \<in> set (col_rows A c))"

definition rank_inv :: "'v csc \<Rightarrow> int \<Rightarrow> bool list \<times> int \<Rightarrow> (int \<times> int) set \<Rightarrow> bool" where
  "rank_inv A j s M \<longleftrightarrow> (case s of (used, matched) \<Rightarrow> 0 \<le> j \<and> int (length used) = csc_n A
     \<and> matching_of A j M \<and> matched = int (card M)
     \<and> (\<forall>i. 0 \<le> i \<and> i < csc_n A \<longrightarrow> (elt used i \<longleftrightarrow> i \<in> fst ` M))
     \<and> (\<forall>c i. 0 \<le> c \<and> c < j \<and> i \<in> set (col_rows A c) \<longrightarrow> c \<in> snd ` M \<or> i \<in> fst ` M))"

lemma rank_inv_match:
  assumes inv: "rank_inv A j (used, matched) M" and i: "i \<in> set (col_rows A j)" "0 \<le> i" "i < csc_n A" "\<not> elt used i"
  shows "rank_inv A (j + 1) (used[nat i := True], matched + 1) (insert (i, j) M)"
proof -
  have new: "i \<notin> fst ` M" using inv i by (auto simp: rank_inv_def)
  have col: "j \<notin> snd ` M" using inv by (force simp: rank_inv_def matching_of_def)
  then have "card (insert (i, j) M) = Suc (card M)"
    using inv by (subst card_insert_disjoint) (force simp: rank_inv_def matching_of_def)+
  moreover have "elt (used[nat i := True]) k \<longleftrightarrow> k \<in> fst ` insert (i, j) M" if "0 \<le> k" "k < csc_n A" for k
    using inv that i by (auto simp: rank_inv_def at_update)
  moreover have "matching_of A (j + 1) (insert (i, j) M)"
  proof -
    have M: "finite M" "inj_on fst M" "inj_on snd M" "0 \<le> j"
      "\<And>r c. (r, c) \<in> M \<Longrightarrow> 0 \<le> c \<and> c < j \<and> r \<in> set (col_rows A c)"
      using inv by (auto simp: rank_inv_def matching_of_def)
    have "inj_on fst (insert (i, j) M)" "inj_on snd (insert (i, j) M)"
      using M(2,3) new col by (auto simp: inj_on_insert image_iff)
    moreover have "\<forall>(r, c) \<in> insert (i, j) M. 0 \<le> c \<and> c < j + 1 \<and> r \<in> set (col_rows A c)"
      using M(4,5) i(1) by fastforce
    ultimately show ?thesis using M(1) by (simp add: matching_of_def)
  qed
  moreover have "c \<in> snd ` insert (i, j) M \<or> r \<in> fst ` insert (i, j) M"
    if "0 \<le> c" "c < j + 1" "r \<in> set (col_rows A c)" for c r
  proof (cases "c = j")
    case False
    then have "c < j" using that by simp
    then show ?thesis using inv that unfolding rank_inv_def prod.case by blast
  qed simp
  ultimately show ?thesis using inv by (simp add: rank_inv_def)
qed

lemma rank_inv_skip:
  assumes "rank_inv A j (used, matched) M" "\<And>i. i \<in> set (col_rows A j) \<Longrightarrow> 0 \<le> i \<and> i < csc_n A \<and> elt used i"
  shows "rank_inv A (j + 1) (used, matched) M"
  unfolding rank_inv_def prod.case
proof (intro conjI allI impI)
  fix c i assume "0 \<le> c \<and> c < j + 1 \<and> i \<in> set (col_rows A c)"
  then show "c \<in> snd ` M \<or> i \<in> fst ` M" using assms by (cases "c = j") (auto simp: rank_inv_def)
next
  show "matching_of A (j + 1) M" using assms(1) by (fastforce simp: rank_inv_def matching_of_def)
qed (use assms(1) in \<open>auto simp: rank_inv_def\<close>)

lemma rank_search:
  assumes "csc_valid A" "0 \<le> j" "j < csc_n A" "int (length used) = csc_n A"
  shows "ok (for_brk (elt (col_ptr A) j) (elt (col_ptr A) (j + 1)) (\<lambda>k _. do {
             i \<leftarrow> vget (row_idx A) k;
             u \<leftarrow> vget used i;
             Some (if \<not> u then Inl i else Inr ())
           }) ())
    (\<lambda>r. case r of Inl i \<Rightarrow> i \<in> set (col_rows A j) \<and> 0 \<le> i \<and> i < csc_n A \<and> \<not> elt used i
         | Inr _ \<Rightarrow> \<forall>i \<in> set (col_rows A j). 0 \<le> i \<and> i < csc_n A \<and> elt used i)"
proof (rule for_brk_ok [where I = "\<lambda>k _. \<forall>k'. elt (col_ptr A) j \<le> k' \<and> k' < k \<longrightarrow>
      0 \<le> elt (row_idx A) k' \<and> elt (row_idx A) k' < csc_n A \<and> elt used (elt (row_idx A) k')"], goal_cases)
  case 1
  then show ?case by auto
next
  case (2 k u)
  have ptr: "csc_ptr_ok A" using assms(1) by (simp add: csc_valid_def)
  have row: "j \<le> elt (row_idx A) k" "elt (row_idx A) k < csc_n A"
    using assms(1-3) 2(1,2) unfolding csc_valid_def csc_rows_ok_def by blast+
  have "elt (row_idx A) k \<in> set (col_rows A j)" using 2(1,2) by (simp add: col_rows_def)
  moreover have "vget (row_idx A) k = Some (elt (row_idx A) k)"
    "vget used (elt (row_idx A) k) = Some (elt used (elt (row_idx A) k))"
    using csc_slot_bounds [OF ptr assms(2,3) 2(1,2)] row assms by (simp_all add: vget_at)
  ultimately show ?case using 2(1,3) row assms(2) by (simp add: all_below_Suc)
next
  case (3 u)
  then show ?case using csc_ptr_mono [of A j "j + 1"] assms
    by (auto simp: col_rows_def csc_valid_def max_def)
qed

text \<open>C27: \<open>structural_rank\<close> is the size of a matching of columns to distinct rows through stored
  entries, hence a lower bound of the true structural rank (the header also calls it an upper
  bound, which it is not), and that matching is maximal: no stored entry joins an unmatched
  column to an unmatched row.\<close>

theorem structural_rank_matching:
  assumes "csc_valid A"
  shows "\<exists>r M. structural_rank A = Some r \<and> r = int (card M) \<and> r \<le> csc_n A
    \<and> finite M \<and> inj_on fst M \<and> inj_on snd M
    \<and> (\<forall>(i, c) \<in> M. 0 \<le> c \<and> c < csc_n A \<and> i \<in> set (col_rows A c))
    \<and> (\<forall>c i. 0 \<le> c \<and> c < csc_n A \<and> i \<in> set (col_rows A c) \<longrightarrow> c \<in> snd ` M \<or> i \<in> fst ` M)"
proof -
  have n: "0 \<le> csc_n A" and ptr: "csc_ptr_ok A" using assms by (simp_all add: csc_valid_def csc_ptr_ok_def)
  have "ok (structural_rank A) (\<lambda>r. \<exists>M used. rank_inv A (csc_n A) (used, r) M)"
    unfolding structural_rank_def ok_bind
  proof (rule for_range_ok [where I = "\<lambda>j s. \<exists>M. rank_inv A j s M"], goal_cases)
    case 1
    then show ?case using n by (auto simp: rank_inv_def matching_of_def elt_def intro!: exI [of _ "{}"])
  next
    case (2 j s)
    obtain used matched M where s: "s = (used, matched)" and inv: "rank_inv A j (used, matched) M"
      using 2(3) by (cases s) auto
    have get: "vget (col_ptr A) j = Some (elt (col_ptr A) j)" "vget (col_ptr A) (j + 1) = Some (elt (col_ptr A) (j + 1))"
      using 2(1,2) csc_len_ptr [OF ptr] by (simp_all add: vget_at)
    have len: "int (length used) = csc_n A" using inv by (simp add: rank_inv_def)
    show ?case unfolding s prod.case get bind.simps ok_bind
    proof (rule ok_mono [OF rank_search [OF assms 2(1,2) len]])
      fix r assume r: "case r of Inl i \<Rightarrow> i \<in> set (col_rows A j) \<and> 0 \<le> i \<and> i < csc_n A \<and> \<not> elt used i
         | Inr _ \<Rightarrow> \<forall>i \<in> set (col_rows A j). 0 \<le> i \<and> i < csc_n A \<and> elt used i"
      show "ok (case r of Inl i \<Rightarrow> do { row_used \<leftarrow> vset used i True; Some (row_used, matched + 1) }
           | Inr _ \<Rightarrow> Some (used, matched)) (\<lambda>s. \<exists>M. rank_inv A (j + 1) s M)"
        using r len rank_inv_match [OF inv] rank_inv_skip [OF inv] by (cases r) auto
    qed
  next
    case (3 s)
    then show ?case using n by (cases s) (auto simp: max_def)
  qed
  then obtain r M used where r: "structural_rank A = Some r" and inv: "rank_inv A (csc_n A) (used, r) M"
    by (auto simp: ok_def)
  have "card M = card (snd ` M)" using inv by (simp add: rank_inv_def matching_of_def card_image)
  also have "\<dots> \<le> card {0..<csc_n A}"
    using inv by (intro card_mono) (auto simp: rank_inv_def matching_of_def)
  finally have "int (card M) \<le> csc_n A" using n by simp
  moreover have "r = int (card M)" using inv by (simp add: rank_inv_def)
  ultimately show ?thesis
    using r inv unfolding rank_inv_def matching_of_def prod.case
    by (intro exI [of _ r] exI [of _ M] conjI) (elim conjE; assumption | simp)+
qed

theorem structural_rank_matching_witness:
  "\<exists>M :: (int \<times> int) set. structural_rank example_clean = Some (int (card M)) \<and> inj_on fst M \<and> inj_on snd M"
proof -
  have "csc_valid example_clean" using example_clean_ok by (simp add: csc_clean_def)
  from structural_rank_matching [OF this] show ?thesis
  proof (elim exE conjE)
    fix r :: int and M :: "(int \<times> int) set"
    assume "structural_rank example_clean = Some r" "r = int (card M)" "inj_on fst M" "inj_on snd M"
    then show ?thesis by (intro exI [of _ M]) simp
  qed
qed

end
