(* ===== verification/Etree.thy ===== *)
theory Etree
  imports SymGraph
begin

text \<open>
  The elimination tree (\<open>etree.cpp\<close>): Liu's path-compressed algorithm over the rows of the
  permuted matrix, in its three forms. The specification is graph-theoretic: \<open>fills\<close> is the fill
  path condition for an entry of the factor, and the parent of a column is the first row below
  its diagonal where the factor has an entry.
\<close>

section \<open>The code\<close>

record elimination_tree =
  et_parent :: "int list"
  et_postorder :: "int list"
  et_max_depth :: int

text \<open>The inner loop body shared by the three functions: walk from \<open>r\<close> to the root of its virtual
  tree, pointing every node passed at \<open>k\<close>, and make \<open>k\<close> the parent of an unlinked root.\<close>

definition liu_walk :: "int \<Rightarrow> int \<times> int list \<Rightarrow> (int \<times> int list) option" where
  "liu_walk k = loop (\<lambda>(r, ancestor). do {
     a \<leftarrow> vget ancestor r;
     if a \<noteq> -1 \<and> a \<noteq> k then do {
       ancestor \<leftarrow> vset ancestor r k;
       Some (Inr (a, ancestor))
     } else Some (Inl (r, ancestor))
   })"

definition liu_link :: "int \<Rightarrow> int \<Rightarrow> int list \<times> int list \<Rightarrow> (int list \<times> int list) option" where
  "liu_link k r = (\<lambda>(parent, ancestor). do {
     (r, ancestor) \<leftarrow> liu_walk k (r, ancestor);
     a \<leftarrow> vget ancestor r;
     if a = -1 then do {
       parent \<leftarrow> vset parent r k;
       ancestor \<leftarrow> vset ancestor r k;
       Some (parent, ancestor)
     } else Some (parent, ancestor)
   })"

definition etree_from_adjacency ::
  "int \<Rightarrow> int list \<Rightarrow> int list \<Rightarrow> int list \<Rightarrow> int list \<Rightarrow> (int list \<times> int list) option" where
  "etree_from_adjacency n xadj adj perm iperm =
     for_range 0 n (\<lambda>k s. do {
       v \<leftarrow> vget perm k;
       lo \<leftarrow> vget xadj v;
       hi \<leftarrow> vget xadj (v + 1);
       for_range lo hi (\<lambda>p s. do {
         u \<leftarrow> vget adj p;
         r \<leftarrow> vget iperm u;
         if r \<ge> k then Some s else liu_link k r s
       }) s
     }) (replicate (nat n) (-1), replicate (nat n) (-1))"

text \<open>The transpose that \<open>build_elimination_tree\<close> starts with: rows of the lower triangle.\<close>

definition upper_csc :: "'v csc \<Rightarrow> (int list \<times> int list) option" where
  "upper_csc A = do {
     let n = csc_n A;
     ucol \<leftarrow> for_range 0 n (column_entries A (\<lambda>i j ucol. if i = j then Some ucol else bump ucol (i + 1)))
       (replicate (nat (n + 1)) 0);
     ucol \<leftarrow> for_range 0 n prefix_inplace ucol;
     total_edges \<leftarrow> vget ucol n;
     (_, urow) \<leftarrow> for_range 0 n (column_entries A (\<lambda>i j s. if i = j then Some s else place fst snd (i, j) s))
       (take (nat n) ucol, replicate (nat total_edges) 0);
     Some (ucol, urow)
   }"

definition liu_rows :: "int \<Rightarrow> int list \<Rightarrow> int list \<Rightarrow> (int list \<times> int list) option" where
  "liu_rows n row_ptr row_cols =
     for_range 0 n (\<lambda>k s. do {
       lo \<leftarrow> vget row_ptr k;
       hi \<leftarrow> vget row_ptr (k + 1);
       for_range lo hi (\<lambda>p s. do {
         r \<leftarrow> vget row_cols p;
         if r \<ge> k then Some s else liu_link k r s
       }) s
     }) (replicate (nat n) (-1), replicate (nat n) (-1))"

section \<open>The fill graph\<close>

text \<open>\<open>nb k\<close> lists the neighbours of \<open>k\<close> numbered below it, in any order and with repetitions.\<close>

definition edge :: "(int \<Rightarrow> int list) \<Rightarrow> int \<Rightarrow> int \<Rightarrow> bool" where
  "edge nb u v \<longleftrightarrow> 0 \<le> u \<and> 0 \<le> v \<and> (u < v \<and> u \<in> set (nb v) \<or> v < u \<and> v \<in> set (nb u))"

inductive reach :: "(int \<Rightarrow> int list) \<Rightarrow> int \<Rightarrow> int \<Rightarrow> int \<Rightarrow> bool" for nb m where
  refl: "0 \<le> u \<Longrightarrow> u \<le> m \<Longrightarrow> reach nb m u u"
| step: "reach nb m u v \<Longrightarrow> edge nb v w \<Longrightarrow> w \<le> m \<Longrightarrow> reach nb m u w"

definition fills :: "(int \<Rightarrow> int list) \<Rightarrow> int \<Rightarrow> int \<Rightarrow> bool" where
  "fills nb i j \<longleftrightarrow> j < i \<and> (\<exists>u. reach nb j j u \<and> edge nb u i)"

text \<open>\<open>p\<close> is the parent of \<open>j\<close> among the columns below \<open>k\<close>; -1 when there is none yet.\<close>

definition min_fill :: "(int \<Rightarrow> int list) \<Rightarrow> int \<Rightarrow> int \<Rightarrow> int \<Rightarrow> bool" where
  "min_fill nb k j p \<longleftrightarrow>
     (if p = -1 then \<forall>i < k. \<not> fills nb i j
      else p < k \<and> fills nb p j \<and> (\<forall>i < p. \<not> fills nb i j))"

lemma edge_sym: "edge nb u v \<longleftrightarrow> edge nb v u"
  by (auto simp: edge_def)

lemma reach_bounds: "reach nb m u v \<Longrightarrow> 0 \<le> u \<and> u \<le> m \<and> 0 \<le> v \<and> v \<le> m"
  by (induction rule: reach.induct) (auto simp: edge_def)

lemma reach_trans: "reach nb m v w \<Longrightarrow> reach nb m u v \<Longrightarrow> reach nb m u w"
  by (induction rule: reach.induct) (auto intro: reach.step)

lemma reach_edge: "edge nb u v \<Longrightarrow> u \<le> m \<Longrightarrow> v \<le> m \<Longrightarrow> reach nb m u v"
  by (rule reach.step [OF reach.refl]) (auto simp: edge_def)

lemma reach_sym: "reach nb m u v \<Longrightarrow> reach nb m v u"
proof (induction rule: reach.induct)
  case (step u v w)
  have "reach nb m w v" using step reach_bounds [OF step(1)] by (intro reach_edge) (auto simp: edge_sym)
  then show ?case using step(4) reach_trans by blast
qed (simp add: reach.refl)

lemma reach_mono: "reach nb m u v \<Longrightarrow> m \<le> m' \<Longrightarrow> reach nb m' u v"
  by (induction rule: reach.induct) (auto intro: reach.intros)

lemma fills_reach: "fills nb i j \<Longrightarrow> reach nb i j i"
proof -
  assume "fills nb i j"
  then obtain u where u: "j < i" "reach nb j j u" "edge nb u i" by (auto simp: fills_def)
  then have "reach nb i j u" by (intro reach_mono [OF u(2)]) simp
  then show ?thesis by (rule reach.step) (use u in simp_all)
qed

text \<open>Leaving the vertices up to \<open>u\<close> on a path from \<open>u\<close> gives an entry of column \<open>u\<close>.\<close>

lemma reach_leaves: "reach nb m u v \<Longrightarrow> reach nb u u v \<or> (\<exists>w. fills nb w u \<and> w \<le> m)"
proof (induction rule: reach.induct)
  case (refl u)
  then show ?case by (simp add: reach.refl)
next
  case (step u v w)
  then show ?case
    by (metis fills_def not_le reach.step)
qed

lemma reach_fills: "reach nb m u v \<Longrightarrow> u < v \<Longrightarrow> \<exists>w. fills nb w u \<and> w \<le> m"
  using reach_leaves reach_bounds by fastforce

section \<open>The parent forest\<close>

definition stepP :: "(int \<Rightarrow> int) \<Rightarrow> int \<Rightarrow> int \<Rightarrow> bool" where
  "stepP P x y \<longleftrightarrow> 0 \<le> x \<and> P x = y \<and> y \<noteq> -1"

abbreviation above :: "(int \<Rightarrow> int) \<Rightarrow> int \<Rightarrow> int \<Rightarrow> bool" where
  "above P \<equiv> (stepP P)\<^sup>*\<^sup>*"

lemma above_root: "above P x y \<Longrightarrow> above P x r \<Longrightarrow> P r = -1 \<Longrightarrow> above P y r"
proof (induction rule: converse_rtranclp_induct)
  case (step x z)
  have "x \<noteq> r" using step.hyps(1) step.prems(2) by (auto simp: stepP_def)
  with step.prems(1) obtain z' where "stepP P x z'" "above P z' r" by (cases rule: converse_rtranclpE) auto
  then have "above P z r" using step.hyps(1) by (simp add: stepP_def)
  then show ?case by (rule step.IH [OF _ step.prems(2)])
qed simp

text \<open>\<open>forest k P\<close>: \<open>P\<close> is the elimination forest of the leading \<open>k\<close> columns.\<close>

definition forest :: "(int \<Rightarrow> int list) \<Rightarrow> int \<Rightarrow> (int \<Rightarrow> int) \<Rightarrow> bool" where
  "forest nb k P \<longleftrightarrow> (\<forall>j. 0 \<le> j \<longrightarrow> min_fill nb k j (P j))"

lemma forest_step:
  assumes "forest nb k P" "stepP P x y"
  shows "x < y" "y < k" "fills nb y x"
  using assms by (auto simp: forest_def stepP_def min_fill_def fills_def)

lemma forest_above:
  assumes "forest nb k P" "above P x y"
  shows "x \<le> y" "x = y \<or> y < k" "0 \<le> x \<Longrightarrow> reach nb y x y"
  using assms(2)
proof (induction rule: rtranclp_induct)
  case base
  { case 1 show ?case by simp next case 2 show ?case by simp next case 3 then show ?case by (simp add: reach.refl) }
next
  case (step y z)
  note st = forest_step [OF assms(1) step(2)]
  { case 1 show ?case using step(3) st by simp
  next case 2 show ?case using st by simp
  next case 3
    then have "reach nb z x y" using step(5) reach_mono st(1) by fastforce
    moreover have "reach nb z y z" by (rule fills_reach [OF st(3)])
    ultimately show ?case using reach_trans by blast }
qed

text \<open>Every vertex connected to \<open>v\<close> through vertices up to \<open>v\<close> lies below \<open>v\<close> in the forest.\<close>

lemma reach_above:
  assumes "forest nb k P" "reach nb v u v" "v < k"
  shows "above P u v"
  using assms(2)
proof (induction "nat (v - u)" arbitrary: u rule: less_induct)
  case less
  note b = reach_bounds [OF less.prems]
  show ?case
  proof (cases "u = v")
    case False
    then have "u < v" using b by simp
    then obtain w where w: "fills nb w u" "w \<le> v" using reach_fills [OF less.prems] by blast
    have mf: "min_fill nb k u (P u)" using assms(1) b by (simp add: forest_def)
    then have "P u \<noteq> -1" using w assms(3) by (auto simp: min_fill_def)
    with mf have p: "fills nb (P u) u" "\<forall>i < P u. \<not> fills nb i u" by (simp_all add: min_fill_def)
    then have pw: "P u \<le> w" using w by (meson not_le)
    then have "u < P u" "reach nb v u (P u)"
      using reach_mono [OF fills_reach [OF p(1)], of v] w pw p(1) by (auto simp: fills_def)
    then have "reach nb v (P u) v" using less.prems reach_sym reach_trans by blast
    then have "above P (P u) v" using less.hyps [of "P u"] \<open>u < P u\<close> pw w b by simp
    moreover have "stepP P u (P u)" using \<open>P u \<noteq> -1\<close> b by (simp add: stepP_def)
    ultimately show ?thesis by (rule converse_rtranclp_into_rtranclp [rotated])
  qed simp
qed

lemma min_fill_unique: "min_fill nb k j p \<Longrightarrow> min_fill nb k j q \<Longrightarrow> p = q"
  by (auto simp: min_fill_def fills_def split: if_splits) (meson linorder_neqE)+

section \<open>One column\<close>

definition anc_ok :: "(int \<Rightarrow> int) \<Rightarrow> int set \<Rightarrow> int \<Rightarrow> int \<Rightarrow> int \<Rightarrow> bool" where
  "anc_ok P L k j a \<longleftrightarrow> a \<noteq> -1 \<longrightarrow>
     (a = k \<and> (\<exists>r \<in> L. above P j r)) \<or> (a \<noteq> k \<and> above P j a \<and> j < a)"

definition col_inv :: "int \<Rightarrow> int \<Rightarrow> (int \<Rightarrow> int) \<Rightarrow> int set \<Rightarrow> int list \<times> int list \<Rightarrow> bool" where
  "col_inv n k P L = (\<lambda>(parent, anc). int (length parent) = n \<and> int (length anc) = n
     \<and> (\<forall>r \<in> L. 0 \<le> r \<and> r < k \<and> P r = -1)
     \<and> (\<forall>j. 0 \<le> j \<and> j < n \<longrightarrow> elt parent j = (if j \<in> L then k else P j)
          \<and> (elt anc j = -1 \<longleftrightarrow> elt parent j = -1) \<and> anc_ok P L k j (elt anc j)))"

lemma forest_root_above: "above P r y \<Longrightarrow> P r = -1 \<Longrightarrow> y = r"
  by (induction rule: rtranclp_induct) (auto simp: stepP_def)

lemma forest_beyond:
  assumes "forest nb k P" "k \<le> j" "0 \<le> j"
  shows "P j = -1"
proof -
  have "min_fill nb k j (P j)" using assms by (simp add: forest_def)
  then show ?thesis using assms(2) by (auto simp: min_fill_def fills_def split: if_splits)
qed

definition walk_inv :: "int \<Rightarrow> (int \<Rightarrow> int) \<Rightarrow> int \<Rightarrow> int list \<Rightarrow> int \<times> int list \<Rightarrow> bool" where
  "walk_inv k P r0 anc = (\<lambda>(r, anc'). above P r0 r \<and> 0 \<le> r \<and> r < k \<and> length anc' = length anc
     \<and> (\<forall>x \<ge> r. elt anc' x = elt anc x)
     \<and> (\<forall>x. 0 \<le> x \<and> x < r \<longrightarrow> elt anc' x = elt anc x \<or> elt anc' x = k \<and> elt anc x \<noteq> -1 \<and> above P x r))"

lemma liu_walk_ok:
  assumes P: "forest nb k P" "k < n" and inv: "col_inv n k P L (parent, anc)" and r0: "0 \<le> r0" "r0 < k"
  shows "ok (liu_walk k (r0, anc)) (\<lambda>(r, anc'). walk_inv k P r0 anc (r, anc') \<and> (elt anc r = -1 \<or> elt anc r = k))"
  unfolding liu_walk_def
proof (rule loop_ok [where I = "walk_inv k P r0 anc" and m = "\<lambda>(r, _). nat (k - r)"], goal_cases)
  case 1
  then show ?case using r0 by (simp add: walk_inv_def)
next
  case (2 s)
  obtain r anc' where s: "s = (r, anc')" by (cases s)
  have w: "above P r0 r" "0 \<le> r" "r < k" "length anc' = length anc" "elt anc' r = elt anc r"
    using 2 s by (simp_all add: walk_inv_def)
  have get: "vget anc' r = Some (elt anc r)"
    using w inv P(2) by (simp add: vget_at col_inv_def)
  show ?case
  proof (cases "elt anc r \<noteq> -1 \<and> elt anc r \<noteq> k")
    case False
    then show ?thesis using 2 s get by auto
  next
    case True
    let ?t = "elt anc r"
    have "anc_ok P L k r ?t" using inv w(2,3) P(2) by (simp add: col_inv_def)
    then have t: "above P r ?t" "r < ?t" using True by (auto simp: anc_ok_def)
    then have "?t < k" using forest_above(2) [OF P(1) t(1)] by simp
    have set: "vset anc' r k = Some (anc'[nat r := k])"
      using w inv P(2) by (simp add: vset_def col_inv_def)
    have "walk_inv k P r0 anc (?t, anc'[nat r := k])"
      unfolding walk_inv_def prod.case
    proof (intro conjI allI impI)
      fix x assume "?t \<le> x"
      then show "elt (anc'[nat r := k]) x = elt anc x"
        using 2 s t(2) w at_update [of x r anc' k] inv P(2) by (simp add: walk_inv_def col_inv_def)
    next
      fix x assume x: "0 \<le> x \<and> x < ?t"
      have upd: "elt (anc'[nat r := k]) x = (if x = r then k else elt anc' x)"
        using at_update [of x r anc' k] x w inv P(2) by (simp add: col_inv_def)
      show "elt (anc'[nat r := k]) x = elt anc x \<or> elt (anc'[nat r := k]) x = k \<and> elt anc x \<noteq> -1 \<and> above P x ?t"
      proof (cases "x < r")
        case True
        then show ?thesis using 2 s x t(1) unfolding upd by (auto simp: walk_inv_def)
      next
        case False
        then show ?thesis using 2 s x t(1) True unfolding upd by (auto simp: walk_inv_def)
      qed
    qed (use w t \<open>?t < k\<close> in auto)
    then show ?thesis using s get set True t(2) \<open>?t < k\<close> by simp
  qed
qed

lemma liu_link_ok:
  assumes P: "forest nb k P" "k < n" and inv: "col_inv n k P L (parent, anc)" and r0: "0 \<le> r0" "r0 < k"
  shows "ok (liu_link k r0 (parent, anc)) (\<lambda>s'. \<exists>r. above P r0 r \<and> P r = -1
     \<and> col_inv n k P (insert r L) s')"
proof -
  obtain r anc' where walk: "liu_walk k (r0, anc) = Some (r, anc')"
    and w: "walk_inv k P r0 anc (r, anc')" and stop: "elt anc r = -1 \<or> elt anc r = k"
    using ok_ex [OF liu_walk_ok [OF assms]] by auto
  have r: "above P r0 r" "0 \<le> r" "r < k" "length anc' = length anc" "elt anc' r = elt anc r"
    using w by (simp_all add: walk_inv_def)
  have len: "int (length parent) = n" "int (length anc) = n" using inv by (simp_all add: col_inv_def)
  have get: "vget anc' r = Some (elt anc r)" using r len P(2) by (simp add: vget_at)
  have old: "elt parent j = (if j \<in> L then k else P j)" "elt anc j = -1 \<longleftrightarrow> elt parent j = -1"
    "anc_ok P L k j (elt anc j)" if "0 \<le> j" "j < n" for j
    using inv that by (simp_all add: col_inv_def)
  have mod: "elt anc' j = elt anc j \<or> elt anc' j = k \<and> elt anc j \<noteq> -1 \<and> above P j r" if "0 \<le> j" for j
    using w that by (cases "j < r") (auto simp: walk_inv_def)
  show ?thesis
  proof (cases "elt anc r = -1")
    case True
    have "elt parent r = -1" using old(2) [of r] True r P(2) by simp
    then have root: "r \<notin> L" "P r = -1" using old(1) [of r] r P(2) by (auto split: if_splits)
    let ?p = "parent[nat r := k]" and ?a = "anc'[nat r := k]"
    have upd: "elt ?p j = (if j = r then k else elt parent j)" "elt ?a j = (if j = r then k else elt anc' j)"
      if "0 \<le> j" for j
      using at_update [of j r parent k] at_update [of j r anc' k] that r len P(2) by simp_all
    have "col_inv n k P (insert r L) (?p, ?a)"
      unfolding col_inv_def prod.case
    proof (intro conjI allI impI ballI, goal_cases)
      case (6 j)
      then show ?case using upd [of j] old(1) [of j] by auto
    next
      case (7 j)
      then show ?case using upd [of j] old(2) [of j] mod [of j] r(2,3) by (auto split: if_splits)
    next
      case (8 j)
      then have "anc_ok P L k j (elt anc j)" using old(3) by blast
      then show ?case using upd [of j] mod [of j] 8 by (auto simp: anc_ok_def)
    qed (use inv len r root in \<open>auto simp: col_inv_def\<close>)
    then show ?thesis
      using walk get True r root len P(2) by (auto simp: liu_link_def vset_def)
  next
    case False
    with stop have ak: "elt anc r = k" by simp
    have "anc_ok P L k r (elt anc r)" using old(3) r P(2) by simp
    then obtain q where q: "q \<in> L" "above P r q" using ak False by (auto simp: anc_ok_def)
    have "above P r0 q" using r(1) q(2) by (rule rtranclp_trans)
    have "P q = -1" using inv q(1) by (simp add: col_inv_def)
    have "col_inv n k P (insert q L) (parent, anc')"
      unfolding col_inv_def prod.case insert_absorb [OF q(1)]
    proof (intro conjI allI impI ballI, goal_cases)
      case (7 j)
      then show ?case using old(2) [of j] mod [of j] r(2,3) by auto
    next
      case (8 j)
      then have "anc_ok P L k j (elt anc j)" using old(3) by blast
      moreover have "above P j r \<Longrightarrow> above P j q" using q(2) by (rule rtranclp_trans [rotated])
      ultimately show ?case using mod [of j] 8 q(1) by (auto simp: anc_ok_def)
    qed (use inv r(4) in \<open>auto simp: col_inv_def\<close>)
    then show ?thesis
      using walk get ak False \<open>above P r0 q\<close> \<open>P q = -1\<close> by (auto simp: liu_link_def)
  qed
qed

section \<open>All columns\<close>

text \<open>\<open>rows_ok\<close>: the neighbour lists name earlier columns only.\<close>

definition rows_ok :: "(int \<Rightarrow> int list) \<Rightarrow> int \<Rightarrow> bool" where
  "rows_ok nb n \<longleftrightarrow> (\<forall>k. 0 \<le> k \<and> k < n \<longrightarrow> (\<forall>r \<in> set (nb k). 0 \<le> r \<and> r < k))"

definition parent_fun :: "int list \<Rightarrow> int \<Rightarrow> int" where
  "parent_fun parent j = (if 0 \<le> j \<and> j < int (length parent) then elt parent j else -1)"

lemma liu_column_ok:
  assumes P: "forest nb k P" "k < n" and inv: "col_inv n k P {} s" and nb: "\<forall>r \<in> set rs. 0 \<le> r \<and> r < k"
  shows "ok (forM rs (liu_link k) s) (\<lambda>s'. \<exists>L. col_inv n k P L s'
    \<and> (\<forall>r \<in> set rs. \<exists>q \<in> L. above P r q) \<and> (\<forall>q \<in> L. \<exists>r \<in> set rs. above P r q))"
proof (rule forM_ok [where I = "\<lambda>pre _ s. \<exists>L. col_inv n k P L s
    \<and> (\<forall>r \<in> set pre. \<exists>q \<in> L. above P r q) \<and> (\<forall>q \<in> L. \<exists>r \<in> set pre. above P r q)"], goal_cases)
  case (2 pre x suf s)
  then obtain L where L: "col_inv n k P L s" "\<forall>r \<in> set pre. \<exists>q \<in> L. above P r q"
    "\<forall>q \<in> L. \<exists>r \<in> set pre. above P r q" by blast
  have x: "0 \<le> x" "x < k" using nb 2(1) by auto
  have "ok (liu_link k x s) (\<lambda>s'. \<exists>q. above P x q \<and> P q = -1 \<and> col_inv n k P (insert q L) s')"
    using liu_link_ok [OF P _ x, of L "fst s" "snd s"] L(1) by simp
  then show ?case
  proof (rule ok_mono, elim exE conjE)
    fix s' q assume "above P x q" "col_inv n k P (insert q L) s'"
    then show "\<exists>L. col_inv n k P L s' \<and> (\<forall>r \<in> set (pre @ [x]). \<exists>q \<in> L. above P r q)
        \<and> (\<forall>q \<in> L. \<exists>r \<in> set (pre @ [x]). above P r q)"
      using L(2,3) by (intro exI [of _ "insert q L"]) auto
  qed
qed (use inv in auto)

lemma forest_next:
  assumes P: "forest nb k P" "0 \<le> k" and L: "\<forall>q \<in> L. 0 \<le> q \<and> q < k \<and> P q = -1"
    and nb: "\<forall>r \<in> set (nb k). 0 \<le> r \<and> r < k"
    and cover: "\<forall>r \<in> set (nb k). \<exists>q \<in> L. above P r q" "\<forall>q \<in> L. \<exists>r \<in> set (nb k). above P r q"
  shows "forest nb (k + 1) (\<lambda>j. if j \<in> L then k else P j)"
  unfolding forest_def
proof (intro allI impI)
  fix j assume j: "(0::int) \<le> j"
  have mf: "min_fill nb k j (P j)" using P(1) j by (simp add: forest_def)
  show "min_fill nb (k + 1) j (if j \<in> L then k else P j)"
  proof (cases "j \<in> L")
    case True
    then obtain r where r: "r \<in> set (nb k)" "above P r j" using cover(2) by blast
    have "reach nb j r j" using forest_above(3) [OF P(1) r(2)] nb r(1) by blast
    moreover have "edge nb r k" using nb r(1) P(2) by (auto simp: edge_def)
    ultimately have "fills nb k j" using L True reach_sym unfolding fills_def by blast
    then show ?thesis using True mf L P(2) by (auto simp: min_fill_def)
  next
    case False
    have "\<not> fills nb k j" if root: "P j = -1"
    proof
      assume "fills nb k j"
      then obtain u where u: "j < k" "reach nb j j u" "edge nb u k" by (auto simp: fills_def)
      have "u < k" using reach_bounds [OF u(2)] u(1) by simp
      then have "u \<in> set (nb k)" using u(3) by (simp add: edge_def)
      then obtain q where q: "q \<in> L" "above P u q" using cover(1) by blast
      have "above P u j" by (rule reach_above [OF P(1) reach_sym [OF u(2)] u(1)])
      then have "above P j q" using above_root q(2) L q(1) by blast
      then have "q = j" using forest_root_above root by blast
      then show False using q(1) False by simp
    qed
    then show ?thesis using mf False by (auto simp: min_fill_def zless_add1_eq le_less)
  qed
qed

lemma col_inv_next:
  assumes P: "forest nb k P" and inv: "col_inv n k P L s" and k: "0 \<le> k" "k < n"
    and P': "forest nb (k + 1) (\<lambda>j. if j \<in> L then k else P j)"
  shows "col_inv n (k + 1) (\<lambda>j. if j \<in> L then k else P j) {} s"
proof -
  let ?P = "\<lambda>j. if j \<in> L then k else P j"
  obtain parent anc where s: "s = (parent, anc)" by (cases s)
  have L: "\<forall>q \<in> L. 0 \<le> q \<and> q < k \<and> P q = -1" using inv s by (simp add: col_inv_def)
  have "stepP P x y \<Longrightarrow> stepP ?P x y" for x y using L by (auto simp: stepP_def)
  note st = this
  have up: "above ?P x y" if "above P x y" for x y
    using that by (induction rule: rtranclp_induct) (blast intro: st rtranclp.rtrancl_into_rtrancl)+
  have "anc_ok ?P {} (k + 1) j (elt anc j)" if j: "0 \<le> j" "j < n" for j
  proof -
    have a: "anc_ok P L k j (elt anc j)" using inv s j by (simp add: col_inv_def)
    show ?thesis
    proof (cases "elt anc j = k")
      case True
      then obtain q where q: "q \<in> L" "above P j q" using a k by (auto simp: anc_ok_def)
      then have "above ?P j q" by (intro up)
      moreover have "stepP ?P q k" using q(1) L k by (auto simp: stepP_def)
      ultimately have "above ?P j k" by (rule rtranclp.rtrancl_into_rtrancl)
      moreover have "j < k" using forest_above(1) [OF P q(2)] q(1) L by fastforce
      ultimately show ?thesis using True by (simp add: anc_ok_def)
    next
      case False
      show ?thesis unfolding anc_ok_def
      proof (intro impI disjI2)
        assume "elt anc j \<noteq> -1"
        then have b: "above P j (elt anc j)" "j < elt anc j" using a False by (auto simp: anc_ok_def)
        then have "elt anc j < k" using forest_above(2) [OF P b(1)] by auto
        then show "elt anc j \<noteq> k + 1 \<and> above ?P j (elt anc j) \<and> j < elt anc j" using up [OF b(1)] b(2) by simp
      qed
    qed
  qed
  then show ?thesis using inv s by (simp add: col_inv_def)
qed

lemma liu_ok:
  assumes "0 \<le> n" "rows_ok nb n"
  shows "ok (for_range 0 n (\<lambda>k. forM (nb k) (liu_link k)) (replicate (nat n) (-1), replicate (nat n) (-1)))
    (\<lambda>(parent, anc). int (length parent) = n \<and> (\<forall>j. 0 \<le> j \<and> j < n \<longrightarrow> min_fill nb n j (elt parent j)))"
proof (rule for_range_ok [where I = "\<lambda>k s. 0 \<le> k \<and> (\<exists>P. forest nb k P \<and> col_inv n k P {} s)"], goal_cases)
  case 1
  have "forest nb 0 (\<lambda>_. -1)" by (auto simp: forest_def min_fill_def fills_def)
  then show ?case using assms(1) by (auto simp: col_inv_def anc_ok_def elt_def intro!: exI [of _ "\<lambda>_. -1"])
next
  case (2 k s)
  then obtain P where P: "forest nb k P" "col_inv n k P {} s" by blast
  have nb: "\<forall>r \<in> set (nb k). 0 \<le> r \<and> r < k" using assms(2) 2(1,2) unfolding rows_ok_def by blast
  show ?case
  proof (rule ok_mono [OF liu_column_ok [OF P(1) 2(2) P(2) nb]], elim exE conjE)
    fix s' L assume L: "col_inv n k P L s'" "\<forall>r \<in> set (nb k). \<exists>q \<in> L. above P r q"
      "\<forall>q \<in> L. \<exists>r \<in> set (nb k). above P r q"
    have roots: "\<forall>q \<in> L. 0 \<le> q \<and> q < k \<and> P q = -1" using L(1) by (cases s') (simp add: col_inv_def)
    note P' = forest_next [OF P(1) 2(1) roots nb L(2,3)]
    show "0 \<le> k + 1 \<and> (\<exists>P. forest nb (k + 1) P \<and> col_inv n (k + 1) P {} s')"
      using P' col_inv_next [OF P(1) L(1) 2(1,2) P'] 2(1) by auto
  qed
next
  case (3 s)
  then show ?case using assms(1) by (auto simp: col_inv_def forest_def max_def)
qed

section \<open>From the adjacency graph\<close>

text \<open>\<open>perm[new] = old\<close>, \<open>iperm[old] = new\<close>.\<close>

definition inverse_perms :: "int \<Rightarrow> int list \<Rightarrow> int list \<Rightarrow> bool" where
  "inverse_perms n perm iperm \<longleftrightarrow> int (length perm) = n \<and> int (length iperm) = n
     \<and> (\<forall>k. 0 \<le> k \<and> k < n \<longrightarrow> 0 \<le> elt perm k \<and> elt perm k < n \<and> elt iperm (elt perm k) = k)
     \<and> (\<forall>v. 0 \<le> v \<and> v < n \<longrightarrow> 0 \<le> elt iperm v \<and> elt iperm v < n \<and> elt perm (elt iperm v) = v)"

definition perm_row :: "'v csc \<Rightarrow> int list \<Rightarrow> int list \<Rightarrow> int \<Rightarrow> int list" where
  "perm_row A perm iperm k = filter (\<lambda>r. r < k) (map (elt iperm) (neighbours A (elt perm k)))"

lemma perm_row_iff:
  assumes "csc_clean A" "inverse_perms (csc_n A) perm iperm" "0 \<le> k" "k < csc_n A"
  shows "r \<in> set (perm_row A perm iperm k) \<longleftrightarrow> 0 \<le> r \<and> r < k \<and> adjacent A (elt perm k) (elt perm r)"
proof -
  have p: "0 \<le> elt perm k" "elt perm k < csc_n A" using assms by (simp_all add: inverse_perms_def)
  note set = set_neighbours [OF assms(1) p]
  show ?thesis
  proof
    assume "r \<in> set (perm_row A perm iperm k)"
    then obtain u where "adjacent A (elt perm k) u" "r = elt iperm u" "r < k"
      using set by (auto simp: perm_row_def)
    then show "0 \<le> r \<and> r < k \<and> adjacent A (elt perm k) (elt perm r)"
      using assms(2) by (auto simp: inverse_perms_def adjacent_def)
  next
    assume r: "0 \<le> r \<and> r < k \<and> adjacent A (elt perm k) (elt perm r)"
    then have "elt iperm (elt perm r) = r" using assms(2,4) by (simp add: inverse_perms_def)
    then show "r \<in> set (perm_row A perm iperm k)"
      using r set by (force simp: perm_row_def image_iff)
  qed
qed

lemma adjacent_sym: "adjacent A u v \<longleftrightarrow> adjacent A v u"
  by (auto simp: adjacent_def max.commute min.commute)

lemma perm_edge:
  assumes "csc_clean A" "inverse_perms (csc_n A) perm iperm" "0 \<le> u" "u < csc_n A" "0 \<le> v" "v < csc_n A"
  shows "edge (perm_row A perm iperm) u v \<longleftrightarrow> adjacent A (elt perm u) (elt perm v)"
proof -
  have "\<not> adjacent A (elt perm u) (elt perm u)" by (simp add: adjacent_def)
  then show ?thesis
    using perm_row_iff [OF assms(1,2,3,4), of v] perm_row_iff [OF assms(1,2,5,6), of u] assms(3,5)
      adjacent_sym [of A "elt perm u" "elt perm v"]
    by (cases u v rule: linorder_cases) (auto simp: edge_def)
qed

lemma etree_from_adjacency_eq:
  assumes "csc_clean A" "inverse_perms (csc_n A) perm iperm"
    and "build_symmetric_adjacency A = Some (xadj, adj)"
  shows "etree_from_adjacency (csc_n A) xadj adj perm iperm =
    for_range 0 (csc_n A) (\<lambda>k. forM (perm_row A perm iperm k) (liu_link k))
      (replicate (nat (csc_n A)) (-1), replicate (nat (csc_n A)) (-1))"
  unfolding etree_from_adjacency_def for_range_def [of 0]
proof (rule forM_cong)
  fix k s assume "k \<in> set [0..csc_n A - 1]"
  then have k: "0 \<le> k" "k < csc_n A" by simp_all
  have adj: "adj = graph_adj A" and x: "int (length xadj) = csc_n A + 1"
    "\<And>v. 0 \<le> v \<Longrightarrow> v \<le> csc_n A \<Longrightarrow> elt xadj v = offset A v"
    by (rule build_symmetric_adjacency_Some [OF assms(1,3)])+
  have p: "0 \<le> elt perm k" "elt perm k < csc_n A" "int (length perm) = csc_n A"
    using assms(2) k by (simp_all add: inverse_perms_def)
  let ?v = "elt perm k"
  have get: "vget perm k = Some ?v" "vget xadj ?v = Some (offset A ?v)" "vget xadj (?v + 1) = Some (offset A (?v + 1))"
    using p k x by (simp_all add: vget_at)
  note seg = graph_segment [OF assms(1) p(1,2)]
  have "for_range (offset A ?v) (offset A (?v + 1)) (\<lambda>p s. do {
         u \<leftarrow> vget adj p;
         r \<leftarrow> vget iperm u;
         if r \<ge> k then Some s else liu_link k r s
       }) s = forM (neighbours A ?v) (\<lambda>u s. do {
         r \<leftarrow> vget iperm u;
         if r \<ge> k then Some s else liu_link k r s
       }) s"
    unfolding adj seg(1) [symmetric] by (rule for_range_segment [OF seg(2,3,4)])
  also have "\<dots> = forM (neighbours A ?v) (\<lambda>u s. if \<not> elt iperm u < k then Some s else liu_link k (elt iperm u) s) s"
  proof (rule forM_cong)
    fix u s assume "u \<in> set (neighbours A ?v)"
    then have "0 \<le> u" "u < int (length iperm)"
      using set_neighbours [OF assms(1) p(1,2)] assms(2) by (auto simp: adjacent_def inverse_perms_def)
    then show "(do { r \<leftarrow> vget iperm u; if r \<ge> k then Some s else liu_link k r s }) =
        (if \<not> elt iperm u < k then Some s else liu_link k (elt iperm u) s)"
      by (simp add: vget_at not_less)
  qed
  also have "\<dots> = forM (perm_row A perm iperm k) (liu_link k) s"
    unfolding forM_skip perm_row_def filter_map forM_map by (simp add: comp_def)
  finally show "(do {
       v \<leftarrow> vget perm k;
       lo \<leftarrow> vget xadj v;
       hi \<leftarrow> vget xadj (v + 1);
       for_range lo hi (\<lambda>p s. do {
         u \<leftarrow> vget adj p;
         r \<leftarrow> vget iperm u;
         if r \<ge> k then Some s else liu_link k r s
       }) s
     }) = forM (perm_row A perm iperm k) (liu_link k) s"
    by (simp add: get)
qed

text \<open>C21: \<open>etree_from_adjacency\<close> computes the elimination tree of the permuted matrix. Its edges
  are those of the graph of \<open>A\<close> under \<open>perm\<close>; the parent of \<open>j\<close> is the least \<open>i > j\<close> that a path
  through vertices up to \<open>j\<close> leads to from \<open>j\<close> (the first row below the diagonal in which column
  \<open>j\<close> of the factor has an entry), and -1 when the factor's column has none. The path-compressing
  walk always ends, and stays inside its arrays.\<close>

theorem etree_from_adjacency_correct:
  assumes "csc_clean A" "inverse_perms (csc_n A) perm iperm"
    and "build_symmetric_adjacency A = Some (xadj, adj)"
  shows "\<exists>parent ancestor. etree_from_adjacency (csc_n A) xadj adj perm iperm = Some (parent, ancestor)
    \<and> int (length parent) = csc_n A
    \<and> (\<forall>j. 0 \<le> j \<and> j < csc_n A \<longrightarrow> min_fill (perm_row A perm iperm) (csc_n A) j (elt parent j))
    \<and> (\<forall>u v. 0 \<le> u \<and> u < csc_n A \<and> 0 \<le> v \<and> v < csc_n A \<longrightarrow>
        (edge (perm_row A perm iperm) u v \<longleftrightarrow> adjacent A (elt perm u) (elt perm v)))"
proof -
  have "rows_ok (perm_row A perm iperm) (csc_n A)"
    using perm_row_iff [OF assms(1,2)] by (auto simp: rows_ok_def)
  from liu_ok [OF csc_cleanD(2) [OF assms(1)] this] show ?thesis
    unfolding etree_from_adjacency_eq [OF assms, symmetric]
    using perm_edge [OF assms(1,2)] by (auto simp: ok_def)
qed

theorem etree_from_adjacency_correct_witness:
  "\<exists>xadj adj parent ancestor. build_symmetric_adjacency example_clean = Some (xadj, adj)
     \<and> etree_from_adjacency 4 xadj adj [3, 1, 0, 2] [2, 1, 3, 0] = Some (parent, ancestor)
     \<and> min_fill (perm_row example_clean [3, 1, 0, 2] [2, 1, 3, 0]) 4 0 (elt parent 0)"
proof -
  have n: "csc_n example_clean = 4" by (simp add: example_clean_def)
  have "inverse_perms (csc_n example_clean) [3, 1, 0, 2] [2, 1, 3, 0]"
    unfolding inverse_perms_def all_int_set n by code_simp
  moreover have "build_symmetric_adjacency example_clean = Some ([0, 2, 3, 4, 6], [2, 3, 3, 0, 0, 1])"
    by code_simp
  ultimately show ?thesis
    using etree_from_adjacency_correct [OF example_clean_ok] unfolding n by fastforce
qed

end
