(* ===== verification/EtreePost.thy ===== *)
theory EtreePost
  imports Etree
begin

text \<open>
  The postorder of the elimination tree and its depth (\<open>etree_postorder\<close> in \<open>etree.cpp\<close>), and the
  two builders that return a whole \<open>EliminationTree\<close>. The iterative depth-first search with its
  two stacks is refined to the recursive postorder \<open>post\<close>.
\<close>

section \<open>The code\<close>

text \<open>The stacks hold \<open>tp\<close> (\<open>top\<close>) frames of a node and the index of its next child.\<close>

definition post_roots :: "int \<Rightarrow> int list \<Rightarrow> int list \<times> int list \<times> int \<Rightarrow> (int list \<times> int list \<times> int) option" where
  "post_roots n parent =
     for_range 0 n (\<lambda>t (node, ci, tp). do {
       let j = n - 1 - t;
       p \<leftarrow> vget parent j;
       if p = -1 then do {
         node \<leftarrow> vset node tp j;
         ci \<leftarrow> vset ci tp 0;
         Some (node, ci, tp + 1)
       } else Some (node, ci, tp)
     })"

definition post_dfs ::
  "int list \<Rightarrow> int list \<Rightarrow> int list \<times> int list \<times> int \<times> int list \<times> int \<Rightarrow> (int list \<times> int list \<times> int) option" where
  "post_dfs ch_start children = loop (\<lambda>(node, ci, tp, postorder, npost).
     if tp > 0 then do {
       v \<leftarrow> vget node (tp - 1);
       c \<leftarrow> vget ci (tp - 1);
       c0 \<leftarrow> vget ch_start v;
       c1 \<leftarrow> vget ch_start (v + 1);
       if c0 + c < c1 then do {
         ci \<leftarrow> vset ci (tp - 1) (c + 1);
         child \<leftarrow> vget children (c0 + c);
         node \<leftarrow> vset node tp child;
         ci \<leftarrow> vset ci tp 0;
         Some (Inr (node, ci, tp + 1, postorder, npost))
       } else do {
         postorder \<leftarrow> vset postorder npost v;
         Some (Inr (node, ci, tp - 1, postorder, npost + 1))
       }
     } else Some (Inl (node, postorder, npost)))"

definition post_depth :: "int list \<Rightarrow> int list \<Rightarrow> int \<Rightarrow> int list \<Rightarrow> int option" where
  "post_depth parent postorder npost depth = do {
     (_, max_depth) \<leftarrow> for_range 0 npost (\<lambda>k (depth, max_depth). do {
       j \<leftarrow> vget postorder k;
       pj \<leftarrow> vget parent j;
       d \<leftarrow> vget depth j;
       depth \<leftarrow> (if pj \<ge> 0 then do {
           dp \<leftarrow> vget depth pj;
           vset depth pj (max dp (d + 1))
         } else Some depth);
       d \<leftarrow> vget depth j;
       Some (depth, max max_depth d)
     }) (depth, 0);
     Some max_depth
   }"

text \<open>The four slices of \<open>work\<close>: \<open>ch_start\<close> (n + 1), \<open>children\<close>, \<open>stk_node\<close> and \<open>stk_ci\<close> (n each).
  \<open>stk_ci\<close> is the fill cursor before the search, \<open>stk_node\<close> the depth array after it.\<close>

definition etree_postorder :: "int \<Rightarrow> int list \<Rightarrow> int list \<Rightarrow> int list \<Rightarrow> (int list \<times> int) option" where
  "etree_postorder n parent postorder work = do {
     let children = segment work (n + 1) (2 * n + 1);
     let stk_node = segment work (2 * n + 1) (3 * n + 1);
     ch_start \<leftarrow> for_range 0 n (\<lambda>j ch. do {
       p \<leftarrow> vget parent j;
       if p \<ge> 0 then bump ch (p + 1) else Some ch
     }) (replicate (nat (n + 1)) 0);
     ch_start \<leftarrow> for_range 0 n prefix_inplace ch_start;
     (stk_ci, children) \<leftarrow> for_range 0 n (\<lambda>j s. do {
       p \<leftarrow> vget parent j;
       if p \<ge> 0 then place (\<lambda>_. p) (\<lambda>j. j) j s else Some s
     }) (take (nat n) ch_start, children);
     (stk_node, stk_ci, tp) \<leftarrow> post_roots n parent (stk_node, stk_ci, 0);
     (stk_node, postorder, npost) \<leftarrow> post_dfs ch_start children (stk_node, stk_ci, tp, postorder, 0);
     max_depth \<leftarrow> post_depth parent postorder npost (replicate (nat n) 0 @ drop (nat n) stk_node);
     Some (postorder, max_depth)
   }"

definition finish_elimination_tree :: "int \<Rightarrow> int list \<Rightarrow> elimination_tree option" where
  "finish_elimination_tree n parent = do {
     (postorder, max_depth) \<leftarrow> etree_postorder n parent (replicate (nat n) 0) (replicate (nat (4 * n + 1)) 0);
     Some \<lparr>et_parent = parent, et_postorder = postorder, et_max_depth = max_depth\<rparr>
   }"

definition empty_etree :: elimination_tree where
  "empty_etree = \<lparr>et_parent = [], et_postorder = [], et_max_depth = 0\<rparr>"

definition build_elimination_tree :: "'v csc \<Rightarrow> elimination_tree option" where
  "build_elimination_tree A =
     (if csc_n A = 0 then Some empty_etree
      else do {
        (ucol, urow) \<leftarrow> upper_csc A;
        (parent, _) \<leftarrow> for_range 0 (csc_n A) (\<lambda>k s. do {
            lo \<leftarrow> vget ucol k;
            hi \<leftarrow> vget ucol (k + 1);
            for_range lo hi (\<lambda>p s. do { r \<leftarrow> vget urow p; liu_link k r s }) s
          }) (replicate (nat (csc_n A)) (-1), replicate (nat (csc_n A)) (-1));
        finish_elimination_tree (csc_n A) parent
      })"

definition build_elimination_tree_from_rows :: "int \<Rightarrow> int list \<Rightarrow> int list \<Rightarrow> elimination_tree option" where
  "build_elimination_tree_from_rows n row_ptr row_cols =
     (if n = 0 then Some empty_etree
      else do {
        (parent, _) \<leftarrow> liu_rows n row_ptr row_cols;
        finish_elimination_tree n parent
      })"

section \<open>The recursive postorder\<close>

definition children_of :: "(int \<Rightarrow> int) \<Rightarrow> int \<Rightarrow> int list" where
  "children_of P v = filter (\<lambda>j. P j = v) [0..v - 1]"

function post :: "(int \<Rightarrow> int) \<Rightarrow> int \<Rightarrow> int list" where
  "post P v = concat (map (post P) (filter (\<lambda>j. P j = v) [0..v - 1])) @ [v]"
  by pat_completeness auto
termination
  by (relation "measure (\<lambda>(_, v). nat v)") auto

declare post.simps [simp del]

lemma post_unfold: "post P v = concat (map (post P) (children_of P v)) @ [v]"
  by (subst post.simps) (simp add: children_of_def)

definition roots_of :: "(int \<Rightarrow> int) \<Rightarrow> int \<Rightarrow> int list" where
  "roots_of P n = filter (\<lambda>j. P j = -1) [0..n - 1]"

definition full_post :: "(int \<Rightarrow> int) \<Rightarrow> int \<Rightarrow> int list" where
  "full_post P n = concat (map (post P) (roots_of P n))"

definition ordered_forest :: "(int \<Rightarrow> int) \<Rightarrow> int \<Rightarrow> bool" where
  "ordered_forest P n \<longleftrightarrow> (\<forall>j. 0 \<le> j \<and> j < n \<longrightarrow> P j = -1 \<or> j < P j \<and> P j < n)"

text \<open>The weaker condition the search needs: a negative link is no child of any node.\<close>

definition up_links :: "(int \<Rightarrow> int) \<Rightarrow> int \<Rightarrow> bool" where
  "up_links P n \<longleftrightarrow> (\<forall>j. 0 \<le> j \<and> j < n \<longrightarrow> P j < 0 \<or> j < P j \<and> P j < n)"

lemma forest_up_links: "ordered_forest P n \<Longrightarrow> up_links P n"
  unfolding ordered_forest_def up_links_def by force

text \<open>What a stack of frames, top first, still has to output.\<close>

fun frames_rest :: "(int \<Rightarrow> int) \<Rightarrow> (int \<times> int) list \<Rightarrow> int list" where
  "frames_rest P [] = []"
| "frames_rest P ((v, c) # fs) = concat (map (post P) (drop (nat c) (children_of P v))) @ v # frames_rest P fs"

lemma frames_rest_append: "frames_rest P (fs @ gs) = frames_rest P fs @ frames_rest P gs"
  by (induction P fs rule: frames_rest.induct) simp_all

lemma frames_rest_fresh: "frames_rest P (map (\<lambda>v. (v, 0)) vs) = concat (map (post P) vs)"
  by (induction vs) (simp_all add: post_unfold)

lemma frames_rest_length: "length fs \<le> length (frames_rest P fs)"
  by (induction P fs rule: frames_rest.induct) simp_all

lemma frames_rest_push:
  assumes "0 \<le> c" "nat c < length (children_of P v)"
  shows "frames_rest P ((children_of P v ! nat c, 0) # (v, c + 1) # fs) = frames_rest P ((v, c) # fs)"
  using assms Cons_nth_drop_Suc [OF assms(2), symmetric]
  by (simp add: post_unfold [of P "children_of P v ! nat c"] nat_add_distrib)

lemma frames_rest_pop:
  "length (children_of P v) \<le> nat c \<Longrightarrow> frames_rest P ((v, c) # fs) = v # frames_rest P fs"
  by simp

section \<open>The postorder is a permutation with children first\<close>

lemma children_of_iff: "j \<in> set (children_of P v) \<longleftrightarrow> 0 \<le> j \<and> j < v \<and> P j = v"
  by (auto simp: children_of_def)

text \<open>\<open>below P v u\<close>: \<open>u\<close> lies in the subtree of \<open>v\<close>.\<close>

inductive below :: "(int \<Rightarrow> int) \<Rightarrow> int \<Rightarrow> int \<Rightarrow> bool" for P where
  below_refl: "below P v v"
| below_child: "below P v (P u) \<Longrightarrow> 0 \<le> u \<Longrightarrow> u < P u \<Longrightarrow> below P v u"

lemma below_le: "below P v u \<Longrightarrow> u \<le> v"
  by (induction rule: below.induct) simp_all

lemma below_trans: "below P v u \<Longrightarrow> below P w v \<Longrightarrow> below P w u"
  by (induction rule: below.induct) (auto intro: below.intros)

lemma set_post: "set (post P v) = {u. below P v u}"
proof (induction P v rule: post.induct)
  case (1 P v)
  have "below P v u \<Longrightarrow> u = v \<or> (\<exists>c \<in> set (children_of P v). below P c u)" for u
  proof (induction rule: below.induct)
    case (below_child v u)
    show ?case
    proof (cases "P u = v")
      case True
      then show ?thesis using below_child by (auto simp: children_of_iff intro: below.below_refl)
    next
      case False
      then show ?thesis using below_child by (auto intro: below.below_child)
    qed
  qed simp
  moreover have "below P v u" if "c \<in> set (children_of P v)" "below P c u" for c u
  proof -
    have "below P v c" using that(1) by (auto simp: children_of_iff intro: below.intros)
    then show ?thesis by (rule below_trans [OF that(2)])
  qed
  ultimately have "{u. below P v u} = (\<Union>c \<in> set (children_of P v). {u. below P c u}) \<union> {v}"
    by (auto intro: below.below_refl)
  moreover have "set (post P c) = {u. below P c u}" if "c \<in> set (children_of P v)" for c
    using 1 [of c] that by (simp add: children_of_iff)
  ultimately show ?case by (subst post_unfold) simp
qed

text \<open>Two subtrees that share a vertex are nested.\<close>

lemma below_linear: "below P v u \<Longrightarrow> below P w u \<Longrightarrow> below P v w \<or> below P w v"
proof (induction arbitrary: rule: below.induct)
  case (below_child v u)
  from below_child.prems show ?case
  proof cases
    case below_refl
    then show ?thesis using below_child.hyps by (auto intro: below.below_child)
  next
    case below_child
    then show ?thesis using \<open>below P w (P u) \<Longrightarrow> below P v w \<or> below P w v\<close> by simp
  qed
qed simp

lemma below_sibling:
  assumes "P a = P b" "below P a u" "below P b u" "a < P a \<or> P a = -1" "b < P b \<or> P b = -1"
  shows "a = b"
proof -
  have strict: "x = y" if "below P x y" "P x = P y" "x < P x \<or> P x = -1" for x y
    using that
  proof (cases rule: below.cases)
    case below_child
    then show ?thesis using below_le [of P x "P y"] that by simp
  qed simp
  show ?thesis using below_linear [OF assms(2,3)] strict [of a b] strict [of b a] assms by auto
qed

lemma distinct_concat_map:
  assumes "distinct xs" "\<And>x. x \<in> set xs \<Longrightarrow> distinct (f x)"
    and "\<And>x y u. x \<in> set xs \<Longrightarrow> y \<in> set xs \<Longrightarrow> u \<in> set (f x) \<Longrightarrow> u \<in> set (f y) \<Longrightarrow> x = y"
  shows "distinct (concat (map f xs))"
  using assms
proof (induction xs)
  case (Cons a xs)
  have "distinct (concat (map f xs))"
    by (rule Cons.IH) (use Cons.prems in auto)
  moreover have "set (f a) \<inter> set (concat (map f xs)) = {}"
  proof (intro equals0I, elim IntE)
    fix u assume "u \<in> set (f a)" "u \<in> set (concat (map f xs))"
    then obtain x where "x \<in> set xs" "u \<in> set (f x)" by auto
    then have "a = x" using Cons.prems(3) [of a x u] \<open>u \<in> set (f a)\<close> by simp
    then show False using Cons.prems(1) \<open>x \<in> set xs\<close> by simp
  qed
  ultimately show ?case using Cons.prems(2) by simp
qed simp

lemma distinct_post: "distinct (post P v)"
proof (induction P v rule: post.induct)
  case (1 P v)
  have "distinct (concat (map (post P) (children_of P v)))"
  proof (rule distinct_concat_map)
    show "distinct (children_of P v)" by (simp add: children_of_def)
    fix c assume "c \<in> set (children_of P v)"
    then show "distinct (post P c)" using 1 [of c] by (simp add: children_of_iff)
  next
    fix a b u assume "a \<in> set (children_of P v)" "b \<in> set (children_of P v)" "u \<in> set (post P a)" "u \<in> set (post P b)"
    then show "a = b" using below_sibling [of P a b u] by (simp add: children_of_iff set_post)
  qed
  moreover have "v \<notin> set (concat (map (post P) (children_of P v)))"
    using below_le by (fastforce simp: children_of_iff set_post)
  ultimately show ?case by (subst post_unfold) simp
qed

lemma root_above:
  assumes "ordered_forest P n" "0 \<le> u" "u < n"
  shows "\<exists>r \<in> set (roots_of P n). below P r u"
  using assms(2,3)
proof (induction "nat (n - u)" arbitrary: u rule: less_induct)
  case less
  show ?case
  proof (cases "P u = -1")
    case True
    then show ?thesis using less.prems by (auto simp: roots_of_def intro: below.below_refl)
  next
    case False
    then have "u < P u" "P u < n" using assms(1) less.prems by (auto simp: ordered_forest_def)
    then show ?thesis using less.hyps [of "P u"] less.prems by (auto intro: below.below_child)
  qed
qed

lemma below_nonneg: "below P r u \<Longrightarrow> 0 \<le> r \<Longrightarrow> 0 \<le> u"
  by (induction rule: below.induct) simp_all

lemma full_post_bounds:
  shows "u \<in> set (full_post P n) \<Longrightarrow> 0 \<le> u \<and> u < n" "distinct (full_post P n)" "int (length (full_post P n)) \<le> max 0 n"
proof -
  have s: "0 \<le> u \<and> u < n" if u: "u \<in> set (full_post P n)" for u
  proof -
    obtain r where r: "0 \<le> r" "r < n" "below P r u" using u by (auto simp: full_post_def set_post roots_of_def)
    show ?thesis using below_le [OF r(3)] below_nonneg [OF r(3,1)] r(2) by simp
  qed
  then show "u \<in> set (full_post P n) \<Longrightarrow> 0 \<le> u \<and> u < n" .
  show dist: "distinct (full_post P n)" unfolding full_post_def
  proof (rule distinct_concat_map)
    fix a b u assume "a \<in> set (roots_of P n)" "b \<in> set (roots_of P n)" "u \<in> set (post P a)" "u \<in> set (post P b)"
    then show "a = b" using below_sibling [of P a b u] by (simp add: roots_of_def set_post)
  qed (simp_all add: roots_of_def distinct_post)
  have "card (set (full_post P n)) \<le> card {0..<n}" by (rule card_mono) (use s in auto)
  then show "int (length (full_post P n)) \<le> max 0 n" using distinct_card [OF dist] by simp
qed

lemma full_post_set:
  assumes "ordered_forest P n"
  shows "set (full_post P n) = {u. 0 \<le> u \<and> u < n}" "distinct (full_post P n)" "int (length (full_post P n)) = max 0 n"
proof -
  show set: "set (full_post P n) = {u. 0 \<le> u \<and> u < n}"
  proof (intro set_eqI iffI)
    fix u assume "u \<in> set (full_post P n)"
    then show "u \<in> {u. 0 \<le> u \<and> u < n}" using full_post_bounds(1) by blast
  next
    fix u assume "u \<in> {u. 0 \<le> u \<and> u < n}"
    then obtain r where "r \<in> set (roots_of P n)" "below P r u" using root_above [OF assms] by blast
    then show "u \<in> set (full_post P n)" by (auto simp: full_post_def set_post)
  qed
  show dist: "distinct (full_post P n)" by (rule full_post_bounds(2))
  have "{u. 0 \<le> u \<and> u < n} = {0..<n}" by auto
  then show "int (length (full_post P n)) = max 0 n"
    using distinct_card [OF dist] set by simp
qed

text \<open>Children come before their parent.\<close>

definition children_first :: "(int \<Rightarrow> int) \<Rightarrow> int list \<Rightarrow> bool" where
  "children_first P xs \<longleftrightarrow> (\<forall>pre v suf. xs = pre @ v # suf \<longrightarrow> (\<forall>u. 0 \<le> u \<and> u < v \<and> P u = v \<longrightarrow> u \<in> set pre))"

lemma children_first_append:
  assumes "children_first P xs" "children_first P ys"
  shows "children_first P (xs @ ys)"
  unfolding children_first_def
proof (intro allI impI, elim conjE)
  fix pre v suf u assume eq: "xs @ ys = pre @ v # suf" and u: "0 \<le> u" "u < v" "P u = v"
  from eq obtain us where "xs = pre @ us \<and> us @ ys = v # suf \<or> xs @ us = pre \<and> ys = us @ v # suf"
    by (auto simp: append_eq_append_conv2)
  then show "u \<in> set pre"
  proof (elim disjE conjE)
    assume us: "xs = pre @ us" "us @ ys = v # suf"
    show ?thesis
    proof (cases us)
      case Nil
      then have "u \<in> set []" using assms(2) us u unfolding children_first_def by (metis append_Nil)
      then show ?thesis by simp
    next
      case (Cons w ws)
      then show ?thesis using assms(1) us u unfolding children_first_def by auto
    qed
  next
    assume us: "xs @ us = pre" "ys = us @ v # suf"
    then have "u \<in> set us" using assms(2) u unfolding children_first_def by blast
    then show ?thesis using us(1) by auto
  qed
qed

lemma children_first_concat:
  "(\<And>x. x \<in> set xs \<Longrightarrow> children_first P (f x)) \<Longrightarrow> children_first P (concat (map f xs))"
  by (induction xs) (simp_all add: children_first_append, simp add: children_first_def)

lemma children_first_post: "children_first P (post P v)"
proof (induction P v rule: post.induct)
  case (1 P v)
  have sub: "children_first P (concat (map (post P) (children_of P v)))"
    by (rule children_first_concat) (use 1 in \<open>simp add: children_of_iff\<close>)
  show ?case
    unfolding post_unfold [of P v] children_first_def
  proof (intro allI impI, elim conjE)
    fix pre w suf u assume eq: "concat (map (post P) (children_of P v)) @ [v] = pre @ w # suf"
      and u: "0 \<le> u" "u < w" "P u = w"
    show "u \<in> set pre"
    proof (cases "suf = []")
      case True
      then have "v = w" "concat (map (post P) (children_of P v)) = pre" using eq by auto
      then show ?thesis using u by (fastforce simp: children_of_iff set_post intro: below.below_refl)
    next
      case False
      then obtain suf' where "suf = suf' @ [v]" using eq by (metis append_butlast_last_id last_appendR last_snoc list.distinct(1) last_ConsR)
      then have "concat (map (post P) (children_of P v)) = pre @ w # suf'" using eq by simp
      then show ?thesis using sub u unfolding children_first_def by blast
    qed
  qed
qed

lemma children_first_full: "children_first P (full_post P n)"
  unfolding full_post_def by (rule children_first_concat) (rule children_first_post)

section \<open>The children lists\<close>

definition kids :: "int list \<Rightarrow> int \<Rightarrow> int list" where
  "kids parent n = filter (\<lambda>j. elt parent j \<ge> 0) [0..n - 1]"

lemma bucket_children:
  assumes "up_links (elt parent) n" "0 \<le> v" "v < n"
  shows "filter (\<lambda>j. elt parent j = v) (kids parent n) = children_of (elt parent) v"
proof -
  have "[0..n - 1] = [0..v - 1] @ [v..n - 1]" using assms upto_split1 [of 0 v "n - 1"] by simp
  moreover have "filter (\<lambda>j. elt parent j = v) [v..n - 1] = []"
    unfolding filter_empty_conv
  proof
    fix j assume "j \<in> set [v..n - 1]"
    then have j: "v \<le> j" "j < n" "0 \<le> j" using assms(2) by auto
    then have "elt parent j < 0 \<or> j < elt parent j" using assms(1) unfolding up_links_def by blast
    then show "elt parent j \<noteq> v" using assms(2) j by auto
  qed
  moreover have "filter (\<lambda>j. elt parent j = v) (kids parent n) = filter (\<lambda>j. elt parent j = v) [0..n - 1]"
    unfolding kids_def filter_filter by (rule filter_cong) (use assms(2) in auto)
  ultimately show ?thesis by (simp add: children_of_def)
qed

lemma kids_keys:
  assumes "up_links (elt parent) n"
  shows "\<forall>j \<in> set (kids parent n). 0 \<le> elt parent j \<and> elt parent j < n"
  using assms by (auto simp: kids_def up_links_def)

definition child_table :: "int list \<Rightarrow> int \<Rightarrow> int list \<Rightarrow> int list \<Rightarrow> bool" where
  "child_table parent n ch_start children \<longleftrightarrow> (\<forall>v. 0 \<le> v \<and> v < n \<longrightarrow>
     (\<exists>c0. vget ch_start v = Some c0 \<and> vget ch_start (v + 1) = Some (c0 + int (length (children_of (elt parent) v)))
        \<and> (\<forall>c. 0 \<le> c \<and> c < int (length (children_of (elt parent) v)) \<longrightarrow>
             vget children (c0 + c) = Some (children_of (elt parent) v ! nat c))))"

lemma child_tableI:
  assumes forest: "up_links (elt parent) n"
    and ch: "int (length ch) = n + 1" "\<And>j. 0 \<le> j \<Longrightarrow> j \<le> n \<Longrightarrow> elt ch j = bptr (elt parent) (kids parent n) j"
    and children: "take (length (kids parent n)) children = concat (buckets (elt parent) n (kids parent n))"
      "length (kids parent n) \<le> length children"
  shows "child_table parent n ch children"
  unfolding child_table_def
proof (intro allI impI, elim conjE)
  fix v assume v: "0 \<le> v" "v < n"
  let ?b = "buckets (elt parent) n (kids parent n)" and ?C = "children_of (elt parent) v"
  let ?c0 = "bptr (elt parent) (kids parent n) v"
  have b: "nat v < length ?b" "?b ! nat v = ?C"
    using buckets_length [of n "elt parent" "kids parent n"] v buckets_nth [of "nat v" "elt parent" n "kids parent n"]
      bucket_children [OF forest v] by simp_all
  have off: "?c0 = int (length (concat (take (nat v) ?b)))" "0 \<le> ?c0"
    using buckets_take [of v n "elt parent" "kids parent n"] v by (simp_all add: bptr_def)
  have next_off: "bptr (elt parent) (kids parent n) (v + 1) = ?c0 + int (length ?C)"
    using bptr_Suc [OF v(1), of "elt parent" "kids parent n"] bucket_children [OF forest v] by (simp add: bcount_def)
  have total: "length (concat ?b) = length (kids parent n)"
    using bptr_total [OF kids_keys [OF forest]] by (simp add: bptr_def)
  have "vget children (?c0 + c) = Some (?C ! nat c)" if c: "0 \<le> c" "c < int (length ?C)" for c
  proof -
    have p: "nat c < length (?b ! nat v)" using c b(2) by simp
    have idx: "nat (?c0 + c) = length (concat (take (nat v) ?b)) + nat c" using off c by (simp add: nat_add_distrib)
    have "nat (?c0 + c) < length (concat ?b)"
      unfolding idx using concat_split_at [OF b(1)] p by simp
    moreover have "concat ?b ! nat (?c0 + c) = ?C ! nat c"
      unfolding idx using nth_concat_at [OF b(1) p] b(2) by simp
    moreover have "children ! nat (?c0 + c) = take (length (kids parent n)) children ! nat (?c0 + c)"
      using calculation(1) total by simp
    moreover have "?c0 + c < int (length children)" "0 \<le> ?c0 + c"
      using calculation(1) children(2) total off c by linarith+
    ultimately show ?thesis using children(1) unfolding vget_def by simp
  qed
  then show "\<exists>c0. vget ch v = Some c0 \<and> vget ch (v + 1) = Some (c0 + int (length ?C))
      \<and> (\<forall>c. 0 \<le> c \<and> c < int (length ?C) \<longrightarrow> vget children (c0 + c) = Some (?C ! nat c))"
    using ch v next_off by (intro exI [of _ ?c0]) (simp add: vget_at)
qed

lemma child_table_ok:
  assumes n: "0 \<le> n" and forest: "ordered_forest (elt parent) n" and len: "int (length parent) = n"
    and children: "int (length children) = n"
  shows "ok (do {
     ch_start \<leftarrow> for_range 0 n (\<lambda>j ch. do {
       p \<leftarrow> vget parent j;
       if p \<ge> 0 then bump ch (p + 1) else Some ch
     }) (replicate (nat (n + 1)) 0);
     ch_start \<leftarrow> for_range 0 n prefix_inplace ch_start;
     (stk_ci, children) \<leftarrow> for_range 0 n (\<lambda>j s. do {
       p \<leftarrow> vget parent j;
       if p \<ge> 0 then place (\<lambda>_. p) (\<lambda>j. j) j s else Some s
     }) (take (nat n) ch_start, children);
     Some (ch_start, stk_ci, children)
   }) (\<lambda>(ch, ci, children). child_table parent n ch children \<and> int (length ci) = n)"
proof -
  let ?kids = "kids parent n"
  note up = forest_up_links [OF forest] note keys = kids_keys [OF up]
  have "for_range 0 n (\<lambda>j ch. do { p \<leftarrow> vget parent j; if p \<ge> 0 then bump ch (p + 1) else Some ch }) s =
      forM [0..n - 1] (\<lambda>j ch. if \<not> elt parent j \<ge> 0 then Some ch else bump ch (elt parent j + 1)) s" for s
    unfolding for_range_def by (rule forM_cong) (use len in \<open>simp add: vget_at\<close>)
  then have loop1: "for_range 0 n (\<lambda>j ch. do { p \<leftarrow> vget parent j; if p \<ge> 0 then bump ch (p + 1) else Some ch }) s =
      forM ?kids (\<lambda>j ch. bump ch (elt parent j + 1)) s" for s
    unfolding forM_skip kids_def by simp
  have "for_range 0 n (\<lambda>j s. do { p \<leftarrow> vget parent j; if p \<ge> 0 then place (\<lambda>_. p) (\<lambda>j. j) j s else Some s }) s =
      forM [0..n - 1] (\<lambda>j s. if \<not> elt parent j \<ge> 0 then Some s else place (elt parent) (\<lambda>j. j) j s) s" for s
    unfolding for_range_def by (rule forM_cong) (use len in \<open>simp add: vget_at place_def\<close>)
  then have loop2: "for_range 0 n (\<lambda>j s. do { p \<leftarrow> vget parent j; if p \<ge> 0 then place (\<lambda>_. p) (\<lambda>j. j) j s else Some s }) s =
      forM ?kids (place (elt parent) (\<lambda>j. j)) s" for s
    unfolding forM_skip kids_def by simp
  obtain cnt where cnt: "forM ?kids (\<lambda>j ch. bump ch (elt parent j + 1)) (replicate (nat (n + 1)) 0) = Some cnt"
    "int (length cnt) = n + 1" "elt cnt 0 = 0" "\<And>j. 0 \<le> j \<Longrightarrow> j < n \<Longrightarrow> elt cnt (j + 1) = bcount (elt parent) ?kids j"
    using ok_ex [OF count_shift_ok [OF keys n]] by blast
  obtain ch where ch: "for_range 0 n prefix_inplace cnt = Some ch" "int (length ch) = n + 1"
    "\<And>j. 0 \<le> j \<Longrightarrow> j \<le> n \<Longrightarrow> elt ch j = bptr (elt parent) ?kids j"
    using ok_ex [OF prefix_inplace_ok [OF n cnt(2-4)]] by blast
  have "length ?kids \<le> length [0..n - 1]" unfolding kids_def by (rule length_filter_le)
  then have fits: "length ?kids \<le> length children" using children n by simp
  obtain ci ch' where pl: "forM ?kids (place (elt parent) (\<lambda>j. j)) (take (nat n) ch, children) = Some (ci, ch')"
    "length ci = length (take (nat n) ch)" "length ch' = length children"
    "take (length ?kids) ch' = map (\<lambda>j. j) (concat (buckets (elt parent) n ?kids))"
    using ok_ex [OF place_ge_ok [OF keys n, of "take (nat n) ch" children "\<lambda>j. j"]] take_xadj [OF ch(2) n] ch(3) n fits
    by auto
  have "child_table parent n ch ch'"
    by (rule child_tableI [OF up ch(2,3)]) (use pl fits in simp_all)
  then show ?thesis
    unfolding loop1 loop2 cnt(1) bind.simps ch(1) using pl take_xadj(1) [OF ch(2) n] by simp
qed

section \<open>The search refines the recursion\<close>

definition frames :: "int list \<Rightarrow> int list \<Rightarrow> int \<Rightarrow> (int \<times> int) list" where
  "frames node ci tp = map (\<lambda>i. (elt node i, elt ci i)) (rev [0..tp - 1])"

lemma frames_0 [simp]: "frames node ci 0 = []"
  by (simp add: frames_def)

lemma frames_length: "0 \<le> tp \<Longrightarrow> int (length (frames node ci tp)) = tp"
  by (simp add: frames_def)

lemma frames_top: "0 < tp \<Longrightarrow> frames node ci tp = (elt node (tp - 1), elt ci (tp - 1)) # frames node ci (tp - 1)"
  by (simp add: frames_def upto_rec2)

lemma frames_update:
  assumes "tp \<le> i" "0 \<le> i"
  shows "frames (node[nat i := v]) ci tp = frames node ci tp" "frames node (ci[nat i := c]) tp = frames node ci tp"
  using assms by (auto simp: frames_def elt_def)

lemma frames_push:
  assumes "0 \<le> tp" "tp < int (length node)" "tp < int (length ci)"
  shows "frames (node[nat tp := v]) (ci[nat tp := c]) (tp + 1) = (v, c) # frames node ci tp"
  using assms frames_top [of "tp + 1" "node[nat tp := v]" "ci[nat tp := c]"]
  by (simp add: frames_update elt_def)

lemma post_roots_ok:
  assumes "0 \<le> n" "int (length parent) = n" "int (length node) = n" "int (length ci) = n"
  shows "ok (post_roots n parent (node, ci, 0)) (\<lambda>(node, ci, tp). int (length node) = n \<and> int (length ci) = n
     \<and> 0 \<le> tp \<and> frames node ci tp = map (\<lambda>v. (v, 0)) (roots_of (elt parent) n))"
  unfolding post_roots_def
proof (rule for_range_ok [where I = "\<lambda>t (node, ci, tp). 0 \<le> t \<and> int (length node) = n \<and> int (length ci) = n
     \<and> 0 \<le> tp \<and> tp \<le> t \<and> frames node ci tp = map (\<lambda>v. (v, 0)) (filter (\<lambda>j. elt parent j = -1) [n - t..n - 1])"],
    goal_cases)
  case 1
  then show ?case using assms by simp
next
  case (2 t s)
  obtain node ci tp where s: "s = (node, ci, tp)" by (cases s)
  have "[n - (t + 1)..n - 1] = (n - 1 - t) # [n - t..n - 1]" using 2 by (subst upto_rec1) (simp_all add: algebra_simps)
  moreover have "vget parent (n - 1 - t) = Some (elt parent (n - 1 - t))" using 2 assms(2) by (simp add: vget_at)
  ultimately show ?case using 2 s
    by (auto simp: Let_def vset_def frames_push simp del: upto.simps)
next
  case (3 s)
  then show ?case using assms(1) by (auto simp: roots_of_def max_def)
qed

definition dfs_inv :: "int list \<Rightarrow> int \<Rightarrow> int list \<times> int list \<times> int \<times> int list \<times> int \<Rightarrow> bool" where
  "dfs_inv parent n = (\<lambda>(node, ci, tp, po, np). int (length node) = n \<and> int (length ci) = n \<and> int (length po) = n
     \<and> 0 \<le> tp \<and> 0 \<le> np \<and> np \<le> n
     \<and> (\<forall>(v, c) \<in> set (frames node ci tp). 0 \<le> v \<and> v < n \<and> 0 \<le> c)
     \<and> take (nat np) po @ frames_rest (elt parent) (frames node ci tp) = full_post (elt parent) n)"

lemma dfs_count:
  assumes "dfs_inv parent n (node, ci, tp, po, np)"
  shows "np + int (length (frames_rest (elt parent) (frames node ci tp))) = int (length (full_post (elt parent) n))"
    "np + int (length (frames_rest (elt parent) (frames node ci tp))) \<le> n" "np + tp \<le> n"
proof -
  have I: "int (length po) = n" "0 \<le> tp" "0 \<le> np" "np \<le> n"
    "take (nat np) po @ frames_rest (elt parent) (frames node ci tp) = full_post (elt parent) n"
    using assms by (simp_all add: dfs_inv_def)
  show count: "np + int (length (frames_rest (elt parent) (frames node ci tp))) = int (length (full_post (elt parent) n))"
    using arg_cong [OF I(5), of length] I(1,3,4) by simp
  then show le: "np + int (length (frames_rest (elt parent) (frames node ci tp))) \<le> n"
    using full_post_bounds(3) [of "elt parent" n] I(3,4) by simp
  show "np + tp \<le> n" using frames_rest_length [of "frames node ci tp" "elt parent"] frames_length [OF I(2), of node ci] le by simp
qed

text \<open>One iteration of the search: the top frame is read, and either its next child is pushed or its node is output.\<close>

lemma dfs_get:
  assumes inv: "dfs_inv parent n (node, ci, tp, po, np)" and table: "child_table parent n ch children" and tp: "0 < tp"
  obtains c0 where "vget node (tp - 1) = Some (elt node (tp - 1))" "vget ci (tp - 1) = Some (elt ci (tp - 1))"
    "0 \<le> elt node (tp - 1)" "elt node (tp - 1) < n" "0 \<le> elt ci (tp - 1)" "vget ch (elt node (tp - 1)) = Some c0"
    "vget ch (elt node (tp - 1) + 1) = Some (c0 + int (length (children_of (elt parent) (elt node (tp - 1)))))"
    "\<And>c. 0 \<le> c \<Longrightarrow> c < int (length (children_of (elt parent) (elt node (tp - 1)))) \<Longrightarrow>
       vget children (c0 + c) = Some (children_of (elt parent) (elt node (tp - 1)) ! nat c)"
proof -
  have I: "int (length node) = n" "int (length ci) = n" "0 \<le> np" "\<forall>(v, c) \<in> set (frames node ci tp). 0 \<le> v \<and> v < n \<and> 0 \<le> c"
    using inv by (simp_all add: dfs_inv_def)
  have vc: "0 \<le> elt node (tp - 1)" "elt node (tp - 1) < n" "0 \<le> elt ci (tp - 1)" using I(4) frames_top [OF tp, of node ci] by auto
  have "vget node (tp - 1) = Some (elt node (tp - 1))" "vget ci (tp - 1) = Some (elt ci (tp - 1))"
    using tp dfs_count(3) [OF inv] I(1-3) by (simp_all add: vget_at)
  then show ?thesis using that vc table [unfolded child_table_def, rule_format, of "elt node (tp - 1)"] by blast
qed

lemma dfs_push:
  assumes inv: "dfs_inv parent n (node, ci, tp, po, np)" and tp: "0 < tp"
    and c: "elt ci (tp - 1) < int (length (children_of (elt parent) (elt node (tp - 1))))"
  shows "dfs_inv parent n (node[nat tp := children_of (elt parent) (elt node (tp - 1)) ! nat (elt ci (tp - 1))],
    ci[nat (tp - 1) := elt ci (tp - 1) + 1, nat tp := 0], tp + 1, po, np)" "np + tp + 1 \<le> n"
proof -
  let ?P = "elt parent" let ?v = "elt node (tp - 1)" and ?c = "elt ci (tp - 1)" and ?fs = "frames node ci (tp - 1)"
  let ?child = "children_of ?P ?v ! nat ?c" and ?ci1 = "ci[nat (tp - 1) := ?c + 1]"
  have I: "int (length node) = n" "int (length ci) = n" "int (length po) = n" "0 \<le> np" "np \<le> n"
    "\<forall>(v, c) \<in> set (frames node ci tp). 0 \<le> v \<and> v < n \<and> 0 \<le> c"
    "take (nat np) po @ frames_rest ?P (frames node ci tp) = full_post ?P n"
    using inv by (simp_all add: dfs_inv_def)
  note fr = frames_top [OF tp, of node ci]
  have vc: "0 \<le> ?v" "?v < n" "0 \<le> ?c" using I(6) fr by auto
  have fs1: "frames node ?ci1 tp = (?v, ?c + 1) # ?fs"
    using frames_top [OF tp, of node ?ci1] frames_update(2) [of "tp - 1" "tp - 1" node ci] tp dfs_count(3) [OF inv] I(2,4) by (simp add: elt_def)
  have rest: "frames_rest ?P ((?child, 0) # (?v, ?c + 1) # ?fs) = frames_rest ?P (frames node ci tp)"
    unfolding fr by (rule frames_rest_push) (use vc c in simp_all)
  have "length ((?child, 0 :: int) # (?v, ?c + 1) # ?fs) \<le> length (frames_rest ?P ((?child, 0) # (?v, ?c + 1) # ?fs))"
    by (rule frames_rest_length)
  then show room: "np + tp + 1 \<le> n" using dfs_count(2) [OF inv] frames_length [of "tp - 1" node ci] tp unfolding rest by simp
  have "frames (node[nat tp := ?child]) (?ci1[nat tp := 0]) (tp + 1) = (?child, 0) # (?v, ?c + 1) # ?fs"
    using frames_push [of tp node ?ci1 ?child 0] fs1 I(1,2,4) tp room by simp
  moreover have "?child \<in> set (children_of ?P ?v)" using c vc(3) by simp
  then have "0 \<le> ?child" "?child < n" using vc by (simp_all add: children_of_iff)
  ultimately show "dfs_inv parent n (node[nat tp := ?child], ?ci1[nat tp := 0], tp + 1, po, np)"
    using I vc rest fr tp by (simp add: dfs_inv_def del: frames_rest.simps)
qed

lemma dfs_pop:
  assumes inv: "dfs_inv parent n (node, ci, tp, po, np)" and tp: "0 < tp"
    and c: "\<not> elt ci (tp - 1) < int (length (children_of (elt parent) (elt node (tp - 1))))"
  shows "dfs_inv parent n (node, ci, tp - 1, po[nat np := elt node (tp - 1)], np + 1)" "np < n" "0 \<le> np"
proof -
  let ?P = "elt parent" let ?v = "elt node (tp - 1)" and ?c = "elt ci (tp - 1)" and ?fs = "frames node ci (tp - 1)"
  have I: "int (length node) = n" "int (length ci) = n" "int (length po) = n" "0 \<le> np" "np \<le> n"
    "\<forall>(v, c) \<in> set (frames node ci tp). 0 \<le> v \<and> v < n \<and> 0 \<le> c"
    "take (nat np) po @ frames_rest ?P (frames node ci tp) = full_post ?P n"
    using inv by (simp_all add: dfs_inv_def)
  note fr = frames_top [OF tp, of node ci]
  have vc: "0 \<le> ?v" "?v < n" "0 \<le> ?c" using I(6) fr by auto
  have rest: "frames_rest ?P (frames node ci tp) = ?v # frames_rest ?P ?fs"
    unfolding fr by (rule frames_rest_pop) (use c vc in simp)
  then show np: "np < n" using dfs_count(2) [OF inv] by simp
  show "0 \<le> np" by (rule I(4))
  have "take (nat (np + 1)) (po[nat np := ?v]) = take (nat np) po @ [?v]"
    using np I(3,4) by (simp add: nat_add_distrib take_Suc_conv_app_nth)
  then show "dfs_inv parent n (node, ci, tp - 1, po[nat np := ?v], np + 1)"
    using I np fr rest tp by (simp add: dfs_inv_def del: frames_rest.simps)
qed

lemma dfs_done:
  assumes inv: "dfs_inv parent n (node, ci, tp, po, np)" and tp: "\<not> 0 < tp"
  shows "np = int (length (full_post (elt parent) n))" "take (nat np) po = full_post (elt parent) n"
proof -
  have "tp = 0" using inv tp by (simp add: dfs_inv_def)
  then show "np = int (length (full_post (elt parent) n))" "take (nat np) po = full_post (elt parent) n"
    using dfs_count(1) [OF inv] inv by (simp_all add: dfs_inv_def)
qed

lemma post_dfs_ok:
  assumes n: "0 \<le> n" and forest: "ordered_forest (elt parent) n" and table: "child_table parent n ch children"
    and inv: "dfs_inv parent n (node, ci, tp, po, 0)"
  shows "ok (post_dfs ch children (node, ci, tp, po, 0))
    (\<lambda>(node, po, np). np = n \<and> po = full_post (elt parent) n \<and> int (length node) = n)"
  unfolding post_dfs_def
proof (rule loop_ok [where I = "dfs_inv parent n" and m = "\<lambda>(node, ci, tp, po, np). nat (2 * (n - np) - tp)"],
    goal_cases)
  case 1
  show ?case by (rule inv)
next
  case (2 s)
  obtain node ci tp po np where s: "s = (node, ci, tp, po, np)" by (cases s)
  have inv: "dfs_inv parent n (node, ci, tp, po, np)" using 2 s by simp
  have I: "int (length node) = n" "int (length ci) = n" "int (length po) = n" "0 \<le> tp" using inv by (simp_all add: dfs_inv_def)
  show ?case
  proof (cases "0 < tp")
    case False
    then show ?thesis using s dfs_done [OF inv False] full_post_set(3) [OF forest] n I by simp
  next
    case True
    from dfs_get [OF inv table True] obtain c0 where g: "vget node (tp - 1) = Some (elt node (tp - 1))" "vget ci (tp - 1) = Some (elt ci (tp - 1))"
      "0 \<le> elt ci (tp - 1)" "vget ch (elt node (tp - 1)) = Some c0"
      "vget ch (elt node (tp - 1) + 1) = Some (c0 + int (length (children_of (elt parent) (elt node (tp - 1)))))"
      "\<And>c. 0 \<le> c \<Longrightarrow> c < int (length (children_of (elt parent) (elt node (tp - 1)))) \<Longrightarrow>
         vget children (c0 + c) = Some (children_of (elt parent) (elt node (tp - 1)) ! nat c)"
      by metis
    show ?thesis
    proof (cases "elt ci (tp - 1) < int (length (children_of (elt parent) (elt node (tp - 1))))")
      case push: True
      note dp = dfs_push [OF inv True push]
      have "0 \<le> np" using inv by (simp add: dfs_inv_def)
      then show ?thesis using s True g push dp I by (simp add: vset_def)
    next
      case pop: False
      then show ?thesis using s True g dfs_pop [OF inv True pop] dfs_count(3) [OF inv] I by (simp add: vset_def)
    qed
  qed
qed

section \<open>Depth\<close>

text \<open>The longest path from \<open>v\<close> down to a leaf of its subtree.\<close>

function height :: "(int \<Rightarrow> int) \<Rightarrow> int \<Rightarrow> int" where
  "height P v = Max (insert 0 ((\<lambda>c. height P c + 1) ` set (filter (\<lambda>j. P j = v) [0..v - 1])))"
  by pat_completeness auto
termination
  by (relation "measure (\<lambda>(_, v). nat v)") auto

declare height.simps [simp del]

lemma height_unfold: "height P v = Max (insert 0 ((\<lambda>c. height P c + 1) ` set (children_of P v)))"
  by (subst height.simps) (simp add: children_of_def)

lemma Max_insert_image:
  fixes f :: "'a \<Rightarrow> int"
  assumes "finite S"
  shows "Max (insert 0 (f ` insert x S)) = max (Max (insert 0 (f ` S))) (f x)"
proof -
  have "insert 0 (f ` insert x S) = insert (f x) (insert 0 (f ` S))" by auto
  then show ?thesis using assms by (simp only: Max_insert finite_insert finite_imageI insert_not_empty max.commute simp_thms)
qed

definition depth_inv :: "(int \<Rightarrow> int) \<Rightarrow> int \<Rightarrow> int list \<Rightarrow> int list \<times> int \<Rightarrow> bool" where
  "depth_inv P n seen = (\<lambda>(depth, md). int (length depth) = n
     \<and> (\<forall>v. 0 \<le> v \<and> v < n \<longrightarrow> elt depth v = Max (insert 0 ((\<lambda>c. height P c + 1) ` {c \<in> set seen. P c = v})))
     \<and> md = Max (insert 0 (height P ` set seen)))"

lemma post_depth_ok:
  assumes n: "0 \<le> n" and forest: "ordered_forest (elt parent) n" and len: "int (length parent) = n"
    and depth: "int (length depth) = n" "\<And>v. 0 \<le> v \<Longrightarrow> v < n \<Longrightarrow> elt depth v = 0"
  shows "ok (post_depth parent (full_post (elt parent) n) n depth)
    (\<lambda>md. md = Max (insert 0 (height (elt parent) ` {v. 0 \<le> v \<and> v < n})))"
proof -
  let ?P = "elt parent" and ?po = "full_post (elt parent) n"
  have plen: "int (length ?po) = n" using full_post_set(3) [OF forest] n by simp
  have "ok (for_range 0 n (\<lambda>k (depth, max_depth). do {
       j \<leftarrow> vget ?po k;
       pj \<leftarrow> vget parent j;
       d \<leftarrow> vget depth j;
       depth \<leftarrow> (if pj \<ge> 0 then do {
           dp \<leftarrow> vget depth pj;
           vset depth pj (max dp (d + 1))
         } else Some depth);
       d \<leftarrow> vget depth j;
       Some (depth, max max_depth d)
     }) (depth, 0)) (depth_inv ?P n ?po)"
  proof (rule for_range_ok [where I = "\<lambda>k s. 0 \<le> k \<and> depth_inv ?P n (take (nat k) ?po) s"], goal_cases)
    case 1
    then show ?case using depth by (simp add: depth_inv_def)
  next
    case (2 k s)
    obtain dep md where s: "s = (dep, md)" by (cases s)
    let ?j = "?po ! nat k" and ?seen = "take (nat k) ?po"
    have kl: "nat k < length ?po" using 2(1,2) plen by linarith
    have j: "0 \<le> ?j" "?j < n" using full_post_set(1) [OF forest] nth_mem [OF kl] by auto
    have getj: "vget ?po k = Some ?j" using 2(1,2) plen by (simp add: vget_def)
    have getp: "vget parent ?j = Some (?P ?j)" using j len by (simp add: vget_at)
    have next_seen: "take (nat (k + 1)) ?po = ?seen @ [?j]"
      using kl 2(1) by (simp add: nat_add_distrib take_Suc_conv_app_nth)
    have I: "int (length dep) = n" "md = Max (insert 0 (height ?P ` set ?seen))"
      "\<And>v. 0 \<le> v \<Longrightarrow> v < n \<Longrightarrow> elt dep v = Max (insert 0 ((\<lambda>c. height ?P c + 1) ` {c \<in> set ?seen. ?P c = v}))"
      using 2(3) s by (simp_all add: depth_inv_def)
    have split: "?po = ?seen @ ?j # drop (Suc (nat k)) ?po" by (rule id_take_nth_drop [OF kl])
    have "{c \<in> set ?seen. ?P c = ?j} = set (children_of ?P ?j)"
    proof (intro set_eqI iffI)
      fix c assume c: "c \<in> {c \<in> set ?seen. ?P c = ?j}"
      then have "0 \<le> c" "c < n" using full_post_set(1) [OF forest] set_take_subset by fastforce+
      then show "c \<in> set (children_of ?P ?j)"
        using c forest j(1) unfolding ordered_forest_def children_of_iff by fastforce
    next
      fix c assume "c \<in> set (children_of ?P ?j)"
      then show "c \<in> {c \<in> set ?seen. ?P c = ?j}"
        using children_first_full [of ?P n] split unfolding children_first_def children_of_iff by blast
    qed
    then have dj: "elt dep ?j = height ?P ?j"
      unfolding height_unfold [of ?P ?j] using I(3) [OF j] by simp
    have getd: "vget dep ?j = Some (height ?P ?j)" using j I(1) dj by (simp add: vget_at)
    have pj: "?P ?j = -1 \<or> ?j < ?P ?j \<and> ?P ?j < n" using forest j by (simp add: ordered_forest_def)
    let ?dep = "if ?P ?j \<ge> 0 then dep[nat (?P ?j) := max (elt dep (?P ?j)) (height ?P ?j + 1)] else dep"
    have upd: "elt ?dep v = (if v = ?P ?j then max (elt dep v) (height ?P ?j + 1) else elt dep v)" if "0 \<le> v" for v
      using at_update [of v "?P ?j" dep] that pj I(1) by auto
    have sets: "{c \<in> set (?seen @ [?j]). ?P c = v} =
        (if v = ?P ?j then insert ?j {c \<in> set ?seen. ?P c = v} else {c \<in> set ?seen. ?P c = v})" for v
      by auto
    have "depth_inv ?P n (?seen @ [?j]) (?dep, max md (height ?P ?j))"
      unfolding depth_inv_def prod.case
    proof (intro conjI allI impI)
      fix v assume v: "0 \<le> v \<and> v < n"
      have fin: "finite {c \<in> set ?seen. ?P c = v}" by simp
      note Iv = I(3) [OF conjunct1 [OF v] conjunct2 [OF v]]
      show "elt ?dep v = Max (insert 0 ((\<lambda>c. height ?P c + 1) ` {c \<in> set (?seen @ [?j]). ?P c = v}))"
      proof (cases "v = ?P ?j")
        case True
        show ?thesis
          unfolding upd [OF conjunct1 [OF v]] sets if_P [OF True] Iv Max_insert_image [OF fin] ..
      next
        case False
        show ?thesis unfolding upd [OF conjunct1 [OF v]] sets if_not_P [OF False] Iv ..
      qed
    next
      have "set (?seen @ [?j]) = insert ?j (set ?seen)" by simp
      then show "max md (height ?P ?j) = Max (insert 0 (height ?P ` set (?seen @ [?j])))"
        unfolding I(2) by (simp only: Max_insert_image finite_set)
    qed (use I(1) in simp)
    moreover have "vget ?dep ?j = Some (height ?P ?j)"
    proof -
      have "int (length ?dep) = n" using I(1) by simp
      moreover have "elt ?dep ?j = height ?P ?j"
        unfolding upd [OF j(1)] using dj pj j(1) by (cases "?j = ?P ?j") simp_all
      ultimately show ?thesis using j by (simp only: vget_at)
    qed
    moreover have "(if ?P ?j \<ge> 0 then Option.bind (vget dep (?P ?j)) (\<lambda>dp. vset dep (?P ?j) (max dp (height ?P ?j + 1)))
        else Some dep) = Some ?dep"
    proof (cases "?P ?j \<ge> 0")
      case True
      then have "?P ?j < int (length dep)" using pj I(1) by linarith
      then show ?thesis using True by (simp add: vget_at vset_def)
    qed simp
    ultimately show ?case
      unfolding s prod.case next_seen getj getp getd Option.bind.simps ok_Some ok_bind
      using 2(1) by (simp only: ok_Some ok_bind prod.case Option.bind.simps) simp
  next
    case (3 s)
    then show ?case using n plen by (simp add: max_def)
  qed
  then show ?thesis
    unfolding post_depth_def using full_post_set(1) [OF forest] by (auto simp: ok_def depth_inv_def)
qed

section \<open>The whole function\<close>

lemma dfs_inv_start:
  assumes "0 \<le> n" "int (length node) = n" "int (length ci) = n" "int (length po) = n"
    "0 \<le> tp" "frames node ci tp = map (\<lambda>v. (v, 0)) (roots_of (elt parent) n)"
  shows "dfs_inv parent n (node, ci, tp, po, 0)"
  using assms frames_rest_fresh [of "elt parent" "roots_of (elt parent) n"]
  by (auto simp: dfs_inv_def full_post_def roots_of_def)

lemma segment_length: "0 \<le> lo \<Longrightarrow> lo \<le> hi \<Longrightarrow> hi \<le> int (length xs) \<Longrightarrow> int (length (segment xs lo hi)) = hi - lo"
  by (simp add: segment_def)

definition max_height :: "(int \<Rightarrow> int) \<Rightarrow> int \<Rightarrow> int" where
  "max_height P n = Max (insert 0 (height P ` {v. 0 \<le> v \<and> v < n}))"

lemma etree_postorder_ok:
  assumes n: "0 \<le> n" and forest: "ordered_forest (elt parent) n" and len: "int (length parent) = n"
    and po: "int (length po) = n" and work: "4 * n + 1 \<le> int (length work)"
  shows "etree_postorder n parent po work = Some (full_post (elt parent) n, max_height (elt parent) n)"
proof -
  let ?children = "segment work (n + 1) (2 * n + 1)" and ?node = "segment work (2 * n + 1) (3 * n + 1)"
  have lens: "int (length ?children) = n" "int (length ?node) = n"
    using n work by (simp_all add: segment_length)
  obtain ch ci children where t: "do {
     ch_start \<leftarrow> for_range 0 n (\<lambda>j ch. do {
       p \<leftarrow> vget parent j;
       if p \<ge> 0 then bump ch (p + 1) else Some ch
     }) (replicate (nat (n + 1)) 0);
     ch_start \<leftarrow> for_range 0 n prefix_inplace ch_start;
     (stk_ci, children) \<leftarrow> for_range 0 n (\<lambda>j s. do {
       p \<leftarrow> vget parent j;
       if p \<ge> 0 then place (\<lambda>_. p) (\<lambda>j. j) j s else Some s
     }) (take (nat n) ch_start, ?children);
     Some (ch_start, stk_ci, children)
   } = Some (ch, ci, children)" "child_table parent n ch children" "int (length ci) = n"
    using ok_ex [OF child_table_ok [OF n forest len lens(1)]] by auto
  obtain node' ci' tp where r: "post_roots n parent (?node, ci, 0) = Some (node', ci', tp)"
    "int (length node') = n" "int (length ci') = n" "0 \<le> tp"
    "frames node' ci' tp = map (\<lambda>v. (v, 0)) (roots_of (elt parent) n)"
    using ok_ex [OF post_roots_ok [OF n len lens(2) t(3)]] by auto
  obtain node2 where d: "post_dfs ch children (node', ci', tp, po, 0) = Some (node2, full_post (elt parent) n, n)"
    "int (length node2) = n"
    using ok_ex [OF post_dfs_ok [OF n forest t(2) dfs_inv_start [OF n r(2,3) po r(4,5)]]] by auto
  have "ok (post_depth parent (full_post (elt parent) n) n (replicate (nat n) 0 @ drop (nat n) node2))
    (\<lambda>md. md = Max (insert 0 (height (elt parent) ` {v. 0 \<le> v \<and> v < n})))"
    by (rule post_depth_ok [OF n forest len]) (use n d(2) in \<open>simp_all add: elt_def nth_append\<close>)
  then have m: "post_depth parent (full_post (elt parent) n) n (replicate (nat n) 0 @ drop (nat n) node2)
      = Some (max_height (elt parent) n)"
    by (auto simp: ok_def max_height_def)
  show ?thesis
    using t(1) r(1) d(1) m
    unfolding etree_postorder_def Let_def
    by (auto split: Option.bind_splits)
qed

lemma full_post_good:
  assumes "ordered_forest P n"
  shows "distinct (full_post P n) \<and> set (full_post P n) = {v. 0 \<le> v \<and> v < n} \<and> children_first P (full_post P n)"
  using full_post_set [OF assms] children_first_full by simp

text \<open>C22: \<open>etree_postorder\<close>, given the parent array of a forest whose parents follow their
  children (-1 at a root) and a work array of at least \<open>4 n + 1\<close> entries, stays inside its four
  slices and ends. What it writes is the recursive depth-first postorder (the subtrees of the
  children in ascending order, then the node; roots ascending): a permutation of the columns with
  every child before its parent; what it returns is the height of the tallest tree.\<close>

theorem etree_postorder_correct:
  assumes "0 \<le> n" "ordered_forest (elt parent) n" "int (length parent) = n" "int (length po) = n"
    "4 * n + 1 \<le> int (length work)"
  shows "\<exists>postorder. etree_postorder n parent po work = Some (postorder, max_height (elt parent) n)
    \<and> postorder = full_post (elt parent) n \<and> distinct postorder
    \<and> set postorder = {v. 0 \<le> v \<and> v < n} \<and> children_first (elt parent) postorder"
  using etree_postorder_ok [OF assms] full_post_good [OF assms(2)] by simp

theorem etree_postorder_correct_witness:
  "\<exists>postorder. etree_postorder 5 [2, 2, 4, 4, -1] (replicate 5 0) (replicate 21 7) =
       Some (postorder, max_height (elt [2, 2, 4, 4, -1]) 5)
     \<and> postorder = [0, 1, 2, 3, 4]"
proof -
  have forest: "ordered_forest (elt [2, 2, 4, 4, -1]) 5"
    unfolding ordered_forest_def all_int_set by code_simp
  have "full_post (elt [2, 2, 4, 4, -1]) 5 = [0, 1, 2, 3, 4]" by code_simp
  then show ?thesis
    using etree_postorder_correct [of 5 "[2, 2, 4, 4, -1]" "replicate 5 0" "replicate 21 7"] forest by simp
qed

end
