(* ===== verification/EtreeBuild.thy ===== *)
theory EtreeBuild
  imports EtreePost
begin

text \<open>
  Correctness of the two builders of \<open>etree.cpp\<close> that return a whole \<open>EliminationTree\<close>: the
  counting-sort transpose delivers row \<open>k\<close> of the lower triangle, Liu's algorithm over the rows
  gives the least fill parents, and these form an ordered forest the postorder accepts.
\<close>

section \<open>Rows of the lower triangle\<close>

lemma bucket_segment:
  assumes keys: "\<forall>x \<in> set xs. 0 \<le> key x \<and> key x < n" and k: "0 \<le> k" "k < n"
  shows "segment (map val (concat (buckets key n xs))) (bptr key xs k) (bptr key xs (k + 1)) = map val (filter (\<lambda>x. key x = k) xs)"
    "0 \<le> bptr key xs k" "bptr key xs k \<le> bptr key xs (k + 1)"
    "bptr key xs (k + 1) \<le> int (length (map val (concat (buckets key n xs))))"
proof -
  let ?b = "buckets key n xs"
  have b: "nat k < length ?b" "?b ! nat k = filter (\<lambda>x. key x = k) xs"
    using buckets_length [of n key xs] k buckets_nth [of "nat k" key n xs] by simp_all
  have off: "bptr key xs k = int (length (concat (take (nat k) ?b)))"
    using buckets_take [of k n key xs] k by (simp add: bptr_def)
  have off': "bptr key xs (k + 1) = bptr key xs k + int (length (?b ! nat k))"
    using bptr_Suc [OF k(1), of key xs] b(2) by (simp add: bcount_def)
  note split = concat_split_at [OF b(1)]
  show "segment (map val (concat ?b)) (bptr key xs k) (bptr key xs (k + 1)) = map val (filter (\<lambda>x. key x = k) xs)"
    unfolding segment_def off' off b(2) [symmetric] by (subst split) simp
  show "0 \<le> bptr key xs k" "bptr key xs k \<le> bptr key xs (k + 1)" by (simp_all add: off off')
  show "bptr key xs (k + 1) \<le> int (length (map val (concat ?b)))"
    unfolding off' off by (subst split) simp
qed

definition row_cols :: "'v csc \<Rightarrow> int \<Rightarrow> int list" where
  "row_cols A k = filter (\<lambda>j. k \<in> set (col_rows A j)) [0..k - 1]"

definition lower_entries :: "'v csc \<Rightarrow> int \<Rightarrow> (int \<times> int) list" where
  "lower_entries A n = concat (map (\<lambda>j. map (\<lambda>i. (i, j)) (filter (\<lambda>i. i \<noteq> j) (col_rows A j))) [0..n - 1])"

lemma lower_entries_keys:
  assumes "csc_clean A"
  shows "\<forall>e \<in> set (lower_entries A (csc_n A)). 0 \<le> fst e \<and> fst e < csc_n A"
proof
  fix e assume "e \<in> set (lower_entries A (csc_n A))"
  then obtain j where "0 \<le> j" "j < csc_n A" "fst e \<in> set (col_rows A j)" by (auto simp: lower_entries_def)
  then show "0 \<le> fst e \<and> fst e < csc_n A" using col_rows_bounds [OF assms, of j "fst e"] by simp
qed

lemma lower_entries_row:
  assumes "csc_clean A" "0 \<le> k" "k < csc_n A"
  shows "map snd (filter (\<lambda>e. fst e = k) (lower_entries A (csc_n A))) = row_cols A k"
proof -
  let ?C = "\<lambda>j. map snd (filter (\<lambda>e. fst e = k) (map (\<lambda>i. (i, j)) (filter (\<lambda>i. i \<noteq> j) (col_rows A j))))"
  have C: "?C j = (if k \<in> set (col_rows A j) \<and> j < k then [j] else [])" if "j \<in> set [0..csc_n A - 1]" for j
  proof -
    have j: "0 \<le> j" "j < csc_n A" using that by simp_all
    have dist: "distinct (col_rows A j)" using col_rows_sorted [OF assms(1) j] by (simp add: strict_sorted_iff)
    have le: "k \<in> set (col_rows A j) \<Longrightarrow> j \<le> k" using col_rows_bounds(1) [OF assms(1) j] .
    have single: "distinct xs \<Longrightarrow> map snd (filter (\<lambda>e. fst e = k) (map (\<lambda>i. (i, j)) (filter (\<lambda>i. i \<noteq> j) xs))) =
        (if k \<in> set xs \<and> k \<noteq> j then [j] else [])" for xs :: "int list"
      by (induction xs) auto
    show ?thesis unfolding single [OF dist] using le by auto
  qed
  have F: "concat (map (\<lambda>j. if P j then [j] else []) xs) = filter P xs" for P and xs :: "int list"
    by (induction xs) auto
  have "map snd (filter (\<lambda>e. fst e = k) (lower_entries A (csc_n A))) = concat (map ?C [0..csc_n A - 1])"
    by (simp add: lower_entries_def filter_concat map_concat comp_def)
  also have "map ?C [0..csc_n A - 1] = map (\<lambda>j. if k \<in> set (col_rows A j) \<and> j < k then [j] else []) [0..csc_n A - 1]"
    using C by (rule map_cong [OF HOL.refl])
  finally have all: "map snd (filter (\<lambda>e. fst e = k) (lower_entries A (csc_n A))) =
      filter (\<lambda>j. k \<in> set (col_rows A j) \<and> j < k) [0..csc_n A - 1]"
    unfolding F .
  have "[0..csc_n A - 1] = [0..k - 1] @ [k..csc_n A - 1]"
    using assms upto_split1 [of 0 k "csc_n A - 1"] by simp
  moreover have "filter (\<lambda>j. k \<in> set (col_rows A j) \<and> j < k) [k..csc_n A - 1] = []"
    by (auto simp: filter_empty_conv)
  moreover have "filter (\<lambda>j. k \<in> set (col_rows A j) \<and> j < k) [0..k - 1] = row_cols A k"
    unfolding row_cols_def by (rule filter_cong) auto
  ultimately show ?thesis unfolding all by simp
qed

lemma off_diagonal_column:
  assumes "csc_ptr_ok A" "0 \<le> j" "j < csc_n A"
  shows "column_entries A (\<lambda>i j s. if i = j then Some s else f (i, j) s) j =
    forM (map (\<lambda>i. (i, j)) (filter (\<lambda>i. i \<noteq> j) (col_rows A j))) f"
  unfolding forM_map forM_skip [symmetric]
  by (intro ext, subst column_entries_eq [OF assms], rule forM_cong) simp

lemma off_diagonal_all:
  assumes "csc_ptr_ok A"
  shows "for_range 0 (csc_n A) (column_entries A (\<lambda>i j s. if i = j then Some s else f (i, j) s)) s =
    forM (lower_entries A (csc_n A)) f s"
  unfolding for_range_def lower_entries_def forM_concat
  by (rule forM_cong) (simp add: off_diagonal_column [OF assms])

lemma upper_csc_ok:
  assumes "csc_clean A"
  shows "ok (upper_csc A) (\<lambda>(ucol, urow). int (length ucol) = csc_n A + 1
    \<and> (\<forall>j. 0 \<le> j \<and> j \<le> csc_n A \<longrightarrow> elt ucol j = bptr fst (lower_entries A (csc_n A)) j)
    \<and> urow = map snd (concat (buckets fst (csc_n A) (lower_entries A (csc_n A)))))"
proof -
  let ?n = "csc_n A" and ?E = "lower_entries A (csc_n A)"
  note ptr = csc_cleanD(1) [OF assms] and n = csc_cleanD(2) [OF assms]
  note keys = lower_entries_keys [OF assms]
  have loop1: "for_range 0 ?n (column_entries A (\<lambda>i j ucol. if i = j then Some ucol else bump ucol (i + 1))) s =
      forM ?E (\<lambda>e cnt. bump cnt (fst e + 1)) s" for s
    using off_diagonal_all [OF ptr, of "\<lambda>e cnt. bump cnt (fst e + 1)" s] unfolding fst_conv .
  obtain cnt where cnt: "forM ?E (\<lambda>e cnt. bump cnt (fst e + 1)) (replicate (nat (?n + 1)) 0) = Some cnt"
    "int (length cnt) = ?n + 1" "elt cnt 0 = 0" "\<And>j. 0 \<le> j \<Longrightarrow> j < ?n \<Longrightarrow> elt cnt (j + 1) = bcount fst ?E j"
    using ok_ex [OF count_shift_ok [OF keys n]] by blast
  obtain u where u: "for_range 0 ?n prefix_inplace cnt = Some u" "int (length u) = ?n + 1"
    "\<And>j. 0 \<le> j \<Longrightarrow> j \<le> ?n \<Longrightarrow> elt u j = bptr fst ?E j"
    using ok_ex [OF prefix_inplace_ok [OF n cnt(2-4)]] by blast
  have last: "vget u ?n = Some (int (length ?E))"
    using u(2,3) n bptr_total [OF keys] by (simp add: vget_at)
  obtain cur urow where pl: "forM ?E (place fst snd) (take (nat ?n) u, replicate (nat (int (length ?E))) 0) = Some (cur, urow)"
    "urow = map snd (concat (buckets fst ?n ?E))"
    using ok_ex [OF place_ok [OF keys n, of "take (nat ?n) u" "replicate (nat (int (length ?E))) 0" snd]]
      take_xadj [OF u(2) n] u(3) n by auto
  show ?thesis
    unfolding upper_csc_def Let_def loop1 off_diagonal_all [OF ptr]
    using cnt(1) u last pl by simp
qed

section \<open>The trees\<close>

definition tree_ok :: "(int \<Rightarrow> int list) \<Rightarrow> int \<Rightarrow> elimination_tree \<Rightarrow> bool" where
  "tree_ok nb n t \<longleftrightarrow> int (length (et_parent t)) = n
     \<and> (\<forall>j. 0 \<le> j \<and> j < n \<longrightarrow> min_fill nb n j (elt (et_parent t) j))
     \<and> distinct (et_postorder t) \<and> set (et_postorder t) = {v. 0 \<le> v \<and> v < n}
     \<and> children_first (elt (et_parent t)) (et_postorder t)
     \<and> et_max_depth t = max_height (elt (et_parent t)) n"

lemma min_fill_forest:
  assumes "\<And>j. 0 \<le> j \<Longrightarrow> j < n \<Longrightarrow> min_fill nb n j (P j)"
  shows "ordered_forest P n"
  unfolding ordered_forest_def
proof (intro allI impI, elim conjE)
  fix j assume "0 \<le> j" "j < n"
  then show "P j = -1 \<or> j < P j \<and> P j < n"
    using assms [of j] by (auto simp: min_fill_def fills_def split: if_splits)
qed

lemma finish_elimination_tree_ok:
  assumes n: "0 \<le> n" and len: "int (length parent) = n"
    and fill: "\<And>j. 0 \<le> j \<Longrightarrow> j < n \<Longrightarrow> min_fill nb n j (elt parent j)"
  shows "ok (finish_elimination_tree n parent) (tree_ok nb n)"
proof -
  note forest = min_fill_forest [OF fill]
  have "etree_postorder n parent (replicate (nat n) 0) (replicate (nat (4 * n + 1)) 0) =
      Some (full_post (elt parent) n, max_height (elt parent) n)"
    by (rule etree_postorder_ok [OF n forest len]) (use n in simp_all)
  then show ?thesis
    using full_post_good [OF forest] len fill by (simp add: finish_elimination_tree_def tree_ok_def)
qed

lemma rows_finish_ok:
  assumes n: "0 \<le> n" and rows: "rows_ok nb n"
  shows "ok (do {
    (parent, _) \<leftarrow> for_range 0 n (\<lambda>k. forM (nb k) (liu_link k)) (replicate (nat n) (-1), replicate (nat n) (-1));
    finish_elimination_tree n parent }) (tree_ok nb n)"
proof -
  obtain parent anc where l: "for_range 0 n (\<lambda>k. forM (nb k) (liu_link k)) (replicate (nat n) (-1), replicate (nat n) (-1)) = Some (parent, anc)"
    "int (length parent) = n" "\<And>j. 0 \<le> j \<Longrightarrow> j < n \<Longrightarrow> min_fill nb n j (elt parent j)"
    using ok_ex [OF liu_ok [OF n rows]] by auto
  show ?thesis using l(1) finish_elimination_tree_ok [OF n l(2,3)] by simp
qed

lemma tree_ok_empty: "tree_ok nb 0 empty_etree"
proof -
  have "{v. 0 \<le> v \<and> v < (0 :: int)} = {}" by auto
  then have "max_height P 0 = 0" for P unfolding max_height_def by (simp only: image_empty) simp
  then show ?thesis
    by (auto simp: tree_ok_def empty_etree_def children_first_def)
qed

lemma row_cols_iff:
  assumes "csc_clean A" "0 \<le> k" "k < csc_n A"
  shows "j \<in> set (row_cols A k) \<longleftrightarrow> 0 \<le> j \<and> j < k \<and> adjacent A k j"
proof -
  have "k \<in> set (col_rows A j) \<longleftrightarrow> adjacent A k j" if "0 \<le> j" "j < k" for j
    using that assms by (simp add: adjacent_def)
  then show ?thesis by (auto simp: row_cols_def)
qed

lemma row_cols_ok:
  assumes "csc_clean A"
  shows "rows_ok (row_cols A) (csc_n A)"
    "0 \<le> u \<Longrightarrow> u < csc_n A \<Longrightarrow> 0 \<le> v \<Longrightarrow> v < csc_n A \<Longrightarrow> edge (row_cols A) u v \<longleftrightarrow> adjacent A u v"
proof -
  show "rows_ok (row_cols A) (csc_n A)" by (auto simp: rows_ok_def row_cols_def)
  have "\<not> adjacent A u u" by (simp add: adjacent_def)
  then show "edge (row_cols A) u v \<longleftrightarrow> adjacent A u v" if "0 \<le> u" "u < csc_n A" "0 \<le> v" "v < csc_n A"
    using row_cols_iff [OF assms that(1,2), of v] row_cols_iff [OF assms that(3,4), of u] that
      adjacent_sym [of A u v]
    by (cases u v rule: linorder_cases) (auto simp: edge_def)
qed

lemma liu_columns_eq:
  assumes A: "csc_clean A" and u: "upper_csc A = Some (ucol, urow)"
  shows "for_range 0 (csc_n A) (\<lambda>k s. do {
            lo \<leftarrow> vget ucol k;
            hi \<leftarrow> vget ucol (k + 1);
            for_range lo hi (\<lambda>p s. do { r \<leftarrow> vget urow p; liu_link k r s }) s
          }) s = for_range 0 (csc_n A) (\<lambda>k. forM (row_cols A k) (liu_link k)) s"
  unfolding for_range_def [of 0]
proof (rule forM_cong)
  fix k s assume "k \<in> set [0..csc_n A - 1]"
  then have k: "0 \<le> k" "k < csc_n A" by simp_all
  let ?E = "lower_entries A (csc_n A)"
  have U: "int (length ucol) = csc_n A + 1" "\<And>j. 0 \<le> j \<Longrightarrow> j \<le> csc_n A \<Longrightarrow> elt ucol j = bptr fst ?E j"
    "urow = map snd (concat (buckets fst (csc_n A) ?E))"
    using ok_the [OF upper_csc_ok [OF A] u] by auto
  have get: "vget ucol k = Some (bptr fst ?E k)" "vget ucol (k + 1) = Some (bptr fst ?E (k + 1))"
    using k U(1,2) by (simp_all add: vget_at)
  note keys = lower_entries_keys [OF A]
  note seg = bucket_segment(1) [OF keys k, of snd] bucket_segment(2,3) [OF keys k] bucket_segment(4) [OF keys k, of snd]
  show "do {
       lo \<leftarrow> vget ucol k;
       hi \<leftarrow> vget ucol (k + 1);
       for_range lo hi (\<lambda>p s. do { r \<leftarrow> vget urow p; liu_link k r s }) s
     } = forM (row_cols A k) (liu_link k) s"
    unfolding get bind.simps U(3) for_range_segment [OF seg(2,3,4)] seg(1) lower_entries_row [OF A k] ..
qed

lemma build_elimination_tree_ok:
  assumes A: "csc_clean A"
  shows "ok (build_elimination_tree A) (tree_ok (row_cols A) (csc_n A))"
proof (cases "csc_n A = 0")
  case True
  then show ?thesis using tree_ok_empty [of "row_cols A"] by (simp add: build_elimination_tree_def)
next
  case False
  obtain ucol urow where u: "upper_csc A = Some (ucol, urow)" using ok_ex [OF upper_csc_ok [OF A]] by auto
  show ?thesis
    using False rows_finish_ok [OF csc_cleanD(2) [OF A] row_cols_ok(1) [OF A]]
    unfolding build_elimination_tree_def u bind.simps prod.case liu_columns_eq [OF A u] by simp
qed

text \<open>Compressed rows as \<open>build_elimination_tree_from_rows\<close> takes them: entries on or right of
  the diagonal are ignored.\<close>

definition csr_ok :: "int \<Rightarrow> int list \<Rightarrow> int list \<Rightarrow> bool" where
  "csr_ok n ptr idx \<longleftrightarrow> 0 \<le> n \<and> int (length ptr) = n + 1
     \<and> (\<forall>k. 0 \<le> k \<and> k < n \<longrightarrow> 0 \<le> elt ptr k \<and> elt ptr k \<le> elt ptr (k + 1) \<and> elt ptr (k + 1) \<le> int (length idx))
     \<and> (\<forall>c \<in> set idx. 0 \<le> c)"

definition csr_row :: "int list \<Rightarrow> int list \<Rightarrow> int \<Rightarrow> int list" where
  "csr_row ptr idx k = filter (\<lambda>r. r < k) (segment idx (elt ptr k) (elt ptr (k + 1)))"

lemma csr_rows_ok:
  assumes "csr_ok n ptr idx"
  shows "rows_ok (csr_row ptr idx) n"
proof -
  have "r \<in> set (segment idx a b) \<Longrightarrow> r \<in> set idx" for r a b
    by (auto simp: segment_def dest: in_set_takeD in_set_dropD)
  then show ?thesis using assms by (auto simp: csr_ok_def rows_ok_def csr_row_def)
qed

lemma liu_rows_eq:
  assumes "csr_ok n ptr idx"
  shows "liu_rows n ptr idx = for_range 0 n (\<lambda>k. forM (csr_row ptr idx k) (liu_link k)) (replicate (nat n) (-1), replicate (nat n) (-1))"
  unfolding liu_rows_def for_range_def [of 0]
proof (rule forM_cong)
  fix k s assume "k \<in> set [0..n - 1]"
  then have k: "0 \<le> k" "k < n" by simp_all
  have get: "vget ptr k = Some (elt ptr k)" "vget ptr (k + 1) = Some (elt ptr (k + 1))"
    and b: "0 \<le> elt ptr k" "elt ptr k \<le> elt ptr (k + 1)" "elt ptr (k + 1) \<le> int (length idx)"
    using assms k by (simp_all add: csr_ok_def vget_at)
  have "forM (segment idx (elt ptr k) (elt ptr (k + 1))) (\<lambda>r s. if r \<ge> k then Some s else liu_link k r s) s =
      forM (csr_row ptr idx k) (liu_link k) s"
    unfolding forM_skip csr_row_def by (simp add: not_le)
  then show "do {
       lo \<leftarrow> vget ptr k;
       hi \<leftarrow> vget ptr (k + 1);
       for_range lo hi (\<lambda>p s. do {
         r \<leftarrow> vget idx p;
         if r \<ge> k then Some s else liu_link k r s
       }) s
     } = forM (csr_row ptr idx k) (liu_link k) s"
    unfolding get bind.simps for_range_segment [OF b] .
qed

lemma build_from_rows_ok:
  assumes "csr_ok n ptr idx"
  shows "ok (build_elimination_tree_from_rows n ptr idx) (tree_ok (csr_row ptr idx) n)"
proof (cases "n = 0")
  case True
  then show ?thesis using tree_ok_empty [of "csr_row ptr idx"] by (simp add: build_elimination_tree_from_rows_def)
next
  case False
  have n: "0 \<le> n" using assms by (simp add: csr_ok_def)
  show ?thesis
    using False rows_finish_ok [OF n csr_rows_ok [OF assms]]
    unfolding build_elimination_tree_from_rows_def liu_rows_eq [OF assms] by simp
qed

text \<open>The tree depends on the graph only.\<close>

lemma fills_edges:
  assumes "\<And>u v. 0 \<le> u \<Longrightarrow> u < n \<Longrightarrow> 0 \<le> v \<Longrightarrow> v < n \<Longrightarrow> edge nb u v \<longleftrightarrow> edge nb' u v" "i < n"
  shows "fills nb i j \<longleftrightarrow> fills nb' i j"
proof -
  have R: "reach nb j a u \<Longrightarrow> j < n \<Longrightarrow> reach nb' j a u"
    if "\<And>u v. 0 \<le> u \<Longrightarrow> u < n \<Longrightarrow> 0 \<le> v \<Longrightarrow> v < n \<Longrightarrow> edge nb u v \<Longrightarrow> edge nb' u v" for nb nb' j a u
  proof (induction rule: reach.induct)
    case (step u v w)
    have "0 \<le> v \<and> v \<le> j" "0 \<le> w" using reach_bounds [OF step(1)] step(2) by (simp_all add: edge_def)
    then have "edge nb' v w" using that [of v w] step by simp
    then show ?case using step by (auto intro: reach.step)
  qed (rule reach.refl)
  have "fills nb i j \<Longrightarrow> fills nb' i j"
    if e: "\<And>u v. 0 \<le> u \<Longrightarrow> u < n \<Longrightarrow> 0 \<le> v \<Longrightarrow> v < n \<Longrightarrow> edge nb u v \<longleftrightarrow> edge nb' u v" for nb nb'
  proof -
    assume "fills nb i j"
    then obtain u where u: "j < i" "reach nb j j u" "edge nb u i" by (auto simp: fills_def)
    have "reach nb' j j u" using R [OF _ u(2), of nb'] e u(1) assms(2) by simp
    moreover have "edge nb' u i" using e [of u i] u reach_bounds [OF u(2)] assms(2) by (simp add: edge_def)
    ultimately show ?thesis using u(1) by (auto simp: fills_def)
  qed
  from this [of nb nb'] this [of nb' nb] show ?thesis using assms(1) by auto
qed

lemma min_fill_edges:
  assumes "\<And>u v. 0 \<le> u \<Longrightarrow> u < n \<Longrightarrow> 0 \<le> v \<Longrightarrow> v < n \<Longrightarrow> edge nb u v \<longleftrightarrow> edge nb' u v"
  shows "min_fill nb n j p \<longleftrightarrow> min_fill nb' n j p"
proof -
  have f: "i < n \<Longrightarrow> fills nb i j \<longleftrightarrow> fills nb' i j" for i using fills_edges [OF assms] .
  show ?thesis
  proof (cases "p = -1")
    case True
    then show ?thesis using f by (simp add: min_fill_def)
  next
    case False
    have "p < n \<Longrightarrow> (fills nb p j \<and> (\<forall>i < p. \<not> fills nb i j)) \<longleftrightarrow> (fills nb' p j \<and> (\<forall>i < p. \<not> fills nb' i j))"
      using f order.strict_trans by blast
    then show ?thesis using False by (auto simp: min_fill_def)
  qed
qed

lemma liu_parents_agree:
  assumes n: "0 \<le> n" and rows: "rows_ok nb n" "rows_ok nb' n"
    and edges: "\<And>u v. 0 \<le> u \<Longrightarrow> u < n \<Longrightarrow> 0 \<le> v \<Longrightarrow> v < n \<Longrightarrow> edge nb u v \<longleftrightarrow> edge nb' u v"
    and "for_range 0 n (\<lambda>k. forM (nb k) (liu_link k)) (replicate (nat n) (-1), replicate (nat n) (-1)) = Some (parent, a)"
    and "for_range 0 n (\<lambda>k. forM (nb' k) (liu_link k)) (replicate (nat n) (-1), replicate (nat n) (-1)) = Some (parent', a')"
  shows "parent = parent'"
proof (rule nth_equalityI)
  have l: "int (length parent) = n" "\<And>j. 0 \<le> j \<Longrightarrow> j < n \<Longrightarrow> min_fill nb n j (elt parent j)"
    using ok_the [OF liu_ok [OF n rows(1)] assms(5)] by auto
  have l': "int (length parent') = n" "\<And>j. 0 \<le> j \<Longrightarrow> j < n \<Longrightarrow> min_fill nb' n j (elt parent' j)"
    using ok_the [OF liu_ok [OF n rows(2)] assms(6)] by auto
  show "length parent = length parent'" using l(1) l'(1) by simp
  fix i assume "i < length parent"
  then have i: "0 \<le> int i" "int i < n" using l(1) by simp_all
  have "elt parent (int i) = elt parent' (int i)"
    using min_fill_unique [OF l(2) [OF i]] l'(2) [OF i] min_fill_edges [OF edges] by simp
  then show "parent ! i = parent' ! i" by (simp add: elt_def)
qed

lemma csr_edges:
  assumes A: "csc_clean A" and csr: "csr_ok (csc_n A) ptr idx"
    and same: "\<And>k j. 0 \<le> k \<Longrightarrow> k < csc_n A \<Longrightarrow> j < k \<Longrightarrow> j \<in> set (csr_row ptr idx k) \<longleftrightarrow> adjacent A k j"
    and uv: "0 \<le> u" "u < csc_n A" "0 \<le> v" "v < csc_n A"
  shows "edge (row_cols A) u v \<longleftrightarrow> edge (csr_row ptr idx) u v"
  using same [of v u] same [of u v] row_cols_iff [OF A uv(1,2), of v] row_cols_iff [OF A uv(3,4), of u] uv
  by (auto simp: edge_def)

lemma build_trees_agree:
  assumes A: "csc_clean A" and csr: "csr_ok (csc_n A) ptr idx"
    and same: "\<And>k j. 0 \<le> k \<Longrightarrow> k < csc_n A \<Longrightarrow> j < k \<Longrightarrow> j \<in> set (csr_row ptr idx k) \<longleftrightarrow> adjacent A k j"
  shows "build_elimination_tree_from_rows (csc_n A) ptr idx = build_elimination_tree A"
proof (cases "csc_n A = 0")
  case False
  let ?n = "csc_n A"
  let ?liu = "\<lambda>nb. for_range 0 ?n (\<lambda>k. forM (nb k) (liu_link k)) (replicate (nat ?n) (-1), replicate (nat ?n) (-1))"
  note n = csc_cleanD(2) [OF A]
  obtain ucol urow where u: "upper_csc A = Some (ucol, urow)" using ok_ex [OF upper_csc_ok [OF A]] by auto
  obtain parent anc where l: "?liu (row_cols A) = Some (parent, anc)"
    using ok_ex [OF liu_ok [OF n row_cols_ok(1) [OF A]]] by auto
  obtain parent' anc' where l': "?liu (csr_row ptr idx) = Some (parent', anc')"
    using ok_ex [OF liu_ok [OF n csr_rows_ok [OF csr]]] by auto
  have "parent = parent'"
    by (rule liu_parents_agree [OF n row_cols_ok(1) [OF A] csr_rows_ok [OF csr] csr_edges [OF A csr same] l l'])
  then show ?thesis
    using False l l'
    unfolding build_elimination_tree_def build_elimination_tree_from_rows_def u bind.simps prod.case
      liu_columns_eq [OF A u] liu_rows_eq [OF csr] by simp
qed (simp add: build_elimination_tree_def build_elimination_tree_from_rows_def)

section \<open>Properties\<close>

text \<open>C13: \<open>build_elimination_tree\<close> of a clean lower-triangular matrix, with its counting-sort
  transpose, computes the elimination tree: the parent of column \<open>j\<close> is the first row below the
  diagonal where column \<open>j\<close> of the factor has an entry (by the fill-path condition on the graph of
  the matrix), the postorder is a permutation with children first, and \<open>max_depth\<close> is the height.\<close>

theorem build_elimination_tree_correct:
  assumes "csc_clean A"
  shows "\<exists>t. build_elimination_tree A = Some t \<and> tree_ok (row_cols A) (csc_n A) t
    \<and> (\<forall>u v. 0 \<le> u \<and> u < csc_n A \<and> 0 \<le> v \<and> v < csc_n A \<longrightarrow>
        (edge (row_cols A) u v \<longleftrightarrow> adjacent A u v))"
  using ok_ex [OF build_elimination_tree_ok [OF assms]] row_cols_ok(2) [OF assms] by blast

theorem build_elimination_tree_correct_witness:
  "\<exists>t. build_elimination_tree example_clean = Some t \<and> tree_ok (row_cols example_clean) 4 t
     \<and> et_parent t = [2, 3, 3, -1]"
proof -
  have n: "csc_n example_clean = 4" by (simp add: example_clean_def)
  obtain t where t: "build_elimination_tree example_clean = Some t" "tree_ok (row_cols example_clean) 4 t"
    using build_elimination_tree_correct [OF example_clean_ok] unfolding n by blast
  have "map_option et_parent (build_elimination_tree example_clean) = Some [2, 3, 3, -1]" by code_simp
  then show ?thesis using t by simp
qed

text \<open>C28: both builders return the same tree, parent array, postorder and depth, when the
  compressed rows given to \<open>build_elimination_tree_from_rows\<close> list the same edges left of the
  diagonal, in any order and with any repetitions and entries on or right of the diagonal.\<close>

theorem build_from_rows_agrees:
  assumes "csc_clean A" "csr_ok (csc_n A) ptr idx"
    and "\<And>k j. 0 \<le> k \<Longrightarrow> k < csc_n A \<Longrightarrow> j < k \<Longrightarrow> j \<in> set (csr_row ptr idx k) \<longleftrightarrow> adjacent A k j"
  shows "build_elimination_tree_from_rows (csc_n A) ptr idx = build_elimination_tree A
    \<and> build_elimination_tree A \<noteq> None"
  using build_trees_agree [OF assms] build_elimination_tree_ok [OF assms(1)] by (auto simp: ok_def)

theorem build_from_rows_agrees_witness:
  "build_elimination_tree_from_rows 4 [0, 1, 1, 4, 8] [3, 2, 0, 0, 3, 0, 1, 1] = build_elimination_tree example_clean"
proof -
  have n: "csc_n example_clean = 4" by (simp add: example_clean_def)
  have csr: "csr_ok (csc_n example_clean) [0, 1, 1, 4, 8] [3, 2, 0, 0, 3, 0, 1, 1]"
    unfolding csr_ok_def all_int_set n by code_simp
  have "\<forall>k \<in> set [0..4 - 1]. \<forall>j \<in> set [0..4 - 1]. j < k \<longrightarrow>
      (j \<in> set (csr_row [0, 1, 1, 4, 8] [3, 2, 0, 0, 3, 0, 1, 1] k) \<longleftrightarrow> adjacent example_clean k j)"
    by code_simp
  then have same: "j \<in> set (csr_row [0, 1, 1, 4, 8] [3, 2, 0, 0, 3, 0, 1, 1] k) \<longleftrightarrow> adjacent example_clean k j"
    if "0 \<le> k" "k < 4" "0 \<le> j" "j < k" for k j
    using that by simp
  have neg: "j \<in> set (csr_row [0, 1, 1, 4, 8] [3, 2, 0, 0, 3, 0, 1, 1] k) \<longleftrightarrow> adjacent example_clean k j"
    if "0 \<le> k" "k < 4" "j < k" for k j
    using same [of k j] that csr_rows_ok [OF csr] unfolding n
    by (cases "0 \<le> j") (auto simp: rows_ok_def adjacent_def)
  show ?thesis
    using build_from_rows_agrees [OF example_clean_ok csr] neg unfolding n by blast
qed

end
