(* ===== verification/ChildrenCsr.thy ===== *)
theory ChildrenCsr
  imports EtreeBuild
begin

text \<open>
  Supernodes and their children lists: \<open>struct Supernode\<close> and \<open>build_children_csr\<close> of
  \<open>supernode_detection.cpp\<close>, a counting sort that fills every list from the back.
\<close>

section \<open>The code\<close>

record supernode =
  sn_start :: int
  sn_end :: int
  sn_parent :: int

definition width :: "supernode \<Rightarrow> int" where
  "width s = sn_end s - sn_start s"

definition children_count :: "supernode list \<Rightarrow> int list option" where
  "children_count snodes = for_range 0 (int (length snodes)) (\<lambda>s child_ptr. do {
       sn \<leftarrow> vget snodes s;
       if sn_parent sn \<ge> 0 then bump child_ptr (sn_parent sn + 1) else Some child_ptr
     }) (replicate (length snodes + 1) 0)"

text \<open>Pass 2: \<open>slot = --child_ptr[par + 1]; child_idx[slot] = s\<close>.\<close>

definition place_back :: "('a \<Rightarrow> int) \<Rightarrow> ('a \<Rightarrow> 'b) \<Rightarrow> 'a \<Rightarrow> int list \<times> 'b list \<Rightarrow> (int list \<times> 'b list) option" where
  "place_back key val x = (\<lambda>(ptr, out). do {
     e \<leftarrow> vget ptr (key x + 1);
     ptr \<leftarrow> vset ptr (key x + 1) (e - 1);
     out \<leftarrow> vset out (e - 1) (val x);
     Some (ptr, out)
   })"

definition build_children_csr :: "supernode list \<Rightarrow> (int list \<times> int list) option" where
  "build_children_csr snodes = do {
     let nsn = int (length snodes);
     child_ptr \<leftarrow> children_count snodes;
     child_ptr \<leftarrow> for_range 0 nsn prefix_inplace child_ptr;
     size \<leftarrow> vget child_ptr nsn;
     (child_ptr, child_idx) \<leftarrow> for_range 0 nsn (\<lambda>s st. do {
       sn \<leftarrow> vget snodes s;
       if sn_parent sn \<ge> 0 then place_back (\<lambda>_. sn_parent sn) (\<lambda>s. s) s st else Some st
     }) (child_ptr, replicate (nat size) 0);
     child_ptr \<leftarrow> for_range 0 nsn (\<lambda>s child_ptr. do {
       p \<leftarrow> vget child_ptr (s + 1);
       vset child_ptr s p
     }) child_ptr;
     child_ptr \<leftarrow> vset child_ptr nsn (int (length child_idx));
     Some (child_ptr, child_idx)
   }"

section \<open>Filling buckets from the back\<close>

definition filled_back :: "('a \<Rightarrow> int) \<Rightarrow> ('a \<Rightarrow> 'b) \<Rightarrow> int \<Rightarrow> 'a list \<Rightarrow> 'a list \<Rightarrow> 'b list \<Rightarrow> bool" where
  "filled_back key val n xs pre out \<longleftrightarrow>
     (\<forall>j q. 0 \<le> j \<and> j < n \<and> q < length (filter (\<lambda>x. key x = j) pre) \<longrightarrow>
        elt out (bptr key xs (j + 1) - 1 - int q) = val (filter (\<lambda>x. key x = j) pre ! q))"

definition back_inv ::
  "('a \<Rightarrow> int) \<Rightarrow> ('a \<Rightarrow> 'b) \<Rightarrow> int \<Rightarrow> 'a list \<Rightarrow> 'a list \<Rightarrow> int list \<times> 'b list \<Rightarrow> bool" where
  "back_inv key val n xs pre = (\<lambda>(ptr, out). int (length ptr) = n + 1 \<and> length out = length xs
     \<and> (\<forall>j. 0 \<le> j \<and> j < n \<longrightarrow> elt ptr (j + 1) = bptr key xs (j + 1) - bcount key pre j)
     \<and> filled_back key val n xs pre out)"

lemma back_slot:
  assumes "xs = pre @ suf" "0 \<le> j" "0 \<le> q" "q < bcount key pre j"
  shows "bptr key xs j \<le> bptr key xs (j + 1) - 1 - q" "bptr key xs (j + 1) - 1 - q < bptr key xs (j + 1)"
  using assms bptr_Suc [OF assms(2), of key xs] bcount_nonneg [of key suf j] by simp_all

lemma back_step:
  assumes keys: "\<forall>x \<in> set xs. 0 \<le> key x \<and> key x < n" and xs: "xs = pre @ x # suf"
    and inv: "back_inv key val n xs pre s"
  shows "ok (place_back key val x s) (back_inv key val n xs (pre @ [x]))"
proof -
  obtain ptr out where s: "s = (ptr, out)" by (cases s)
  have x: "0 \<le> key x" "key x < n" using keys xs by auto
  have I: "int (length ptr) = n + 1" "length out = length xs"
    "\<And>j. 0 \<le> j \<Longrightarrow> j < n \<Longrightarrow> elt ptr (j + 1) = bptr key xs (j + 1) - bcount key pre j"
    "filled_back key val n xs pre out" using inv s by (simp_all add: back_inv_def)
  let ?slot = "bptr key xs (key x + 1) - bcount key pre (key x) - 1"
  have own: "bcount key (pre @ [x]) (key x) = bcount key pre (key x) + 1" by simp
  have slot: "bptr key xs (key x) \<le> ?slot" "?slot < bptr key xs (key x + 1)"
    using back_slot [of xs "pre @ [x]" suf "key x" "bcount key pre (key x)" key] xs x bcount_nonneg [of key pre "key x"]
    by simp_all
  have "bptr key xs (key x + 1) \<le> bptr key xs n" by (rule bptr_mono) (use x in simp_all)
  then have top: "?slot < int (length xs)" using slot(2) bptr_total [OF keys] by simp
  have bot: "0 \<le> ?slot" using slot(1) bptr_nonneg [OF x(1), of key xs] by simp
  have other: "elt (out[nat ?slot := val x]) (bptr key xs (j + 1) - 1 - int q) = elt out (bptr key xs (j + 1) - 1 - int q)"
    if "0 \<le> j" "j < n" "q < length (filter (\<lambda>y. key y = j) pre)" for j q
  proof -
    have q: "0 \<le> int q" "int q < bcount key pre j" using that(3) by (simp_all add: bcount_def)
    note r = back_slot [OF xs that(1) q]
    have "bptr key xs (j + 1) - 1 - int q \<noteq> ?slot"
    proof (cases j "key x" rule: linorder_cases)
      case less
      then have "bptr key xs (j + 1) \<le> bptr key xs (key x)" using that(1) by (intro bptr_mono) simp_all
      then show ?thesis using r slot by simp
    next
      case greater
      then have "bptr key xs (key x + 1) \<le> bptr key xs j" using x(1) by (intro bptr_mono) simp_all
      then show ?thesis using r slot by simp
    qed (use q in simp)
    moreover have "0 \<le> bptr key xs (j + 1) - 1 - int q" using r(1) bptr_nonneg [OF that(1), of key xs] by simp
    ultimately show ?thesis using bot top I(2) by (simp add: at_update)
  qed
  have "filled_back key val n xs (pre @ [x]) (out[nat ?slot := val x])"
    unfolding filled_back_def
  proof (intro allI impI, elim conjE)
    fix j q assume j: "0 \<le> j" "j < n" "q < length (filter (\<lambda>y. key y = j) (pre @ [x]))"
    show "elt (out[nat ?slot := val x]) (bptr key xs (j + 1) - 1 - int q) = val (filter (\<lambda>y. key y = j) (pre @ [x]) ! q)"
    proof (cases "q < length (filter (\<lambda>y. key y = j) pre)")
      case True
      then have "filter (\<lambda>y. key y = j) (pre @ [x]) ! q = filter (\<lambda>y. key y = j) pre ! q" by (simp add: nth_append)
      then show ?thesis using other [OF j(1,2) True] I(4) j True unfolding filled_back_def by simp
    next
      case False
      then have "j = key x" using j(3) by (auto split: if_splits)
      moreover have q: "q = length (filter (\<lambda>y. key y = j) pre)" using j(3) False calculation by simp
      moreover have e: "bptr key xs (j + 1) - 1 - int q = ?slot" using calculation by (simp add: bcount_def)
      ultimately show ?thesis unfolding e using at_update [OF bot bot, of out "val x"] top I(2) by (simp add: nth_append)
    qed
  qed
  then show ?thesis
    using s I(1,2) I(3) x bot top
    by (auto simp: place_back_def back_inv_def elt_def [symmetric] at_update)
qed

lemma back_ok:
  assumes keys: "\<forall>x \<in> set xs. 0 \<le> key x \<and> key x < n"
    and "int (length ptr) = n + 1" "\<And>j. 0 \<le> j \<Longrightarrow> j \<le> n \<Longrightarrow> elt ptr j = bptr key xs j" "length out = length xs"
  shows "ok (forM xs (place_back key val) (ptr, out)) (back_inv key val n xs xs)"
proof (rule forM_ok [where I = "\<lambda>pre _. back_inv key val n xs pre"])
  show "back_inv key val n xs [] (ptr, out)" using assms(2-4) by (simp add: back_inv_def filled_back_def)
next
  fix pre x suf s assume "xs = pre @ x # suf" "back_inv key val n xs pre s"
  then show "ok (place_back key val x s) (back_inv key val n xs (pre @ [x]))" by (rule back_step [OF keys])
qed

lemma back_segment:
  assumes keys: "\<forall>x \<in> set xs. 0 \<le> key x \<and> key x < n" and inv: "back_inv key val n xs xs (ptr, out)" and j: "0 \<le> j" "j < n"
  shows "segment out (bptr key xs j) (bptr key xs (j + 1)) = rev (map val (filter (\<lambda>x. key x = j) xs))"
    "elt ptr (j + 1) = bptr key xs j"
proof -
  have next_ptr: "bptr key xs (j + 1) = bptr key xs j + int (length (filter (\<lambda>x. key x = j) xs))"
    using bptr_Suc [OF j(1), of key xs] by (simp add: bcount_def)
  have I: "length out = length xs" "filled_back key val n xs xs out" using inv by (simp_all add: back_inv_def)
  have "bptr key xs (j + 1) \<le> bptr key xs n" by (rule bptr_mono) (use j in simp_all)
  then have fits: "bptr key xs (j + 1) \<le> int (length out)" using bptr_total [OF keys] I(1) by simp
  note lo = bptr_nonneg [OF j(1), of key xs]
  show "segment out (bptr key xs j) (bptr key xs (j + 1)) = rev (map val (filter (\<lambda>x. key x = j) xs))"
  proof (rule nth_equalityI)
    show len: "length (segment out (bptr key xs j) (bptr key xs (j + 1))) = length (rev (map val (filter (\<lambda>x. key x = j) xs)))"
      using fits lo next_ptr by (simp add: segment_def)
    fix i assume "i < length (segment out (bptr key xs j) (bptr key xs (j + 1)))"
    then have i: "i < length (filter (\<lambda>x. key x = j) xs)" using len by simp
    let ?q = "length (filter (\<lambda>x. key x = j) xs) - 1 - i"
    have "segment out (bptr key xs j) (bptr key xs (j + 1)) ! i = out ! (nat (bptr key xs j) + i)"
      using i next_ptr lo fits by (simp add: segment_def)
    also have "\<dots> = elt out (bptr key xs (j + 1) - 1 - int ?q)"
      unfolding elt_def next_ptr using i lo by (intro arg_cong [where f = "nth out"]) simp
    also have "\<dots> = val (filter (\<lambda>x. key x = j) xs ! ?q)"
      by (rule I(2) [unfolded filled_back_def, rule_format]) (use j i in simp)
    finally show "segment out (bptr key xs j) (bptr key xs (j + 1)) ! i = rev (map val (filter (\<lambda>x. key x = j) xs)) ! i"
      using i by (simp add: rev_nth)
  qed
  show "elt ptr (j + 1) = bptr key xs j" using inv j bptr_Suc [OF j(1), of key xs] by (simp add: back_inv_def)
qed

section \<open>The children lists\<close>

definition snode_parent :: "supernode list \<Rightarrow> int \<Rightarrow> int" where
  "snode_parent snodes s = sn_parent (elt snodes s)"

definition snode_children :: "supernode list \<Rightarrow> int \<Rightarrow> int list" where
  "snode_children snodes p = rev (filter (\<lambda>s. snode_parent snodes s = p) [0..int (length snodes) - 1])"

definition linked :: "supernode list \<Rightarrow> int list" where
  "linked snodes = filter (\<lambda>s. snode_parent snodes s \<ge> 0) [0..int (length snodes) - 1]"

lemma linked_bucket:
  "0 \<le> p \<Longrightarrow> filter (\<lambda>s. snode_parent snodes s = p) (linked snodes) = filter (\<lambda>s. snode_parent snodes s = p) [0..int (length snodes) - 1]"
  unfolding linked_def filter_filter by (rule filter_cong) auto

definition parents_in_range :: "supernode list \<Rightarrow> bool" where
  "parents_in_range snodes \<longleftrightarrow> (\<forall>s \<in> set snodes. sn_parent s < int (length snodes))"

lemma snode_loop:
  "for_range 0 (int (length snodes)) (\<lambda>s st. do {
       sn \<leftarrow> vget snodes s;
       if sn_parent sn \<ge> 0 then f (sn_parent sn) s st else Some st
     }) st = forM (linked snodes) (\<lambda>s. f (snode_parent snodes s) s) st"
proof -
  have "for_range 0 (int (length snodes)) (\<lambda>s st. do {
       sn \<leftarrow> vget snodes s;
       if sn_parent sn \<ge> 0 then f (sn_parent sn) s st else Some st
     }) st = forM [0..int (length snodes) - 1] (\<lambda>s st. if \<not> snode_parent snodes s \<ge> 0 then Some st
        else f (snode_parent snodes s) s st) st"
    unfolding for_range_def by (rule forM_cong) (simp add: vget_at snode_parent_def)
  then show ?thesis unfolding forM_skip linked_def by simp
qed

lemma shift_down_ok:
  assumes "int (length ptr) = n + 1" "0 \<le> n"
  shows "ok (for_range 0 n (\<lambda>s ptr. do { p \<leftarrow> vget ptr (s + 1); vset ptr s p }) ptr)
    (\<lambda>ptr'. int (length ptr') = n + 1 \<and> (\<forall>j. 0 \<le> j \<and> j < n \<longrightarrow> elt ptr' j = elt ptr (j + 1)))"
proof (rule for_range_ok [where I = "\<lambda>s p. 0 \<le> s \<and> int (length p) = n + 1
    \<and> (\<forall>j. 0 \<le> j \<and> j < s \<longrightarrow> elt p j = elt ptr (j + 1)) \<and> (\<forall>j. s \<le> j \<and> j \<le> n \<longrightarrow> elt p j = elt ptr j)"], goal_cases)
  case (2 s p)
  then have "elt p (s + 1) = elt ptr (s + 1)" by simp
  then show ?case using 2 by (auto simp: at_update elt_def [symmetric])
qed (use assms in \<open>auto simp: max_def\<close>)

lemma build_children_csr_ok:
  assumes "parents_in_range snodes"
  shows "ok (build_children_csr snodes) (\<lambda>(ptr, idx). int (length ptr) = int (length snodes) + 1
    \<and> (\<forall>p. 0 \<le> p \<and> p \<le> int (length snodes) \<longrightarrow> elt ptr p = bptr (snode_parent snodes) (linked snodes) p)
    \<and> length idx = length (linked snodes)
    \<and> (\<forall>p. 0 \<le> p \<and> p < int (length snodes) \<longrightarrow> segment idx (elt ptr p) (elt ptr (p + 1)) = snode_children snodes p))"
proof -
  let ?n = "int (length snodes)" and ?xs = "linked snodes" and ?key = "snode_parent snodes"
  have keys: "\<forall>s \<in> set ?xs. 0 \<le> ?key s \<and> ?key s < ?n"
    using assms by (auto simp: linked_def snode_parent_def parents_in_range_def elt_def)
  obtain cnt where cnt: "forM ?xs (\<lambda>s cnt. bump cnt (?key s + 1)) (replicate (nat (?n + 1)) 0) = Some cnt"
    "int (length cnt) = ?n + 1" "elt cnt 0 = 0" "\<And>j. 0 \<le> j \<Longrightarrow> j < ?n \<Longrightarrow> elt cnt (j + 1) = bcount ?key ?xs j"
    using ok_ex [OF count_shift_ok [OF keys]] by auto
  have "nat (?n + 1) = length snodes + 1" by simp
  then have c: "children_count snodes = Some cnt"
    unfolding children_count_def snode_loop [where f = "\<lambda>p s cnt. bump cnt (p + 1)"] using cnt(1) by simp
  obtain ptr where ptr: "for_range 0 ?n prefix_inplace cnt = Some ptr" "int (length ptr) = ?n + 1"
    "\<And>j. 0 \<le> j \<Longrightarrow> j \<le> ?n \<Longrightarrow> elt ptr j = bptr ?key ?xs j"
    using ok_ex [OF prefix_inplace_ok [OF _ cnt(2-4)]] by auto
  have tot: "vget ptr ?n = Some (int (length ?xs))"
    using ptr bptr_total [OF keys] by (simp add: vget_at)
  have pb: "place_back (\<lambda>_. p) (\<lambda>s. s) s = place_back (\<lambda>_. p) (\<lambda>s. s) s" for p s :: int by simp
  have "ok (forM ?xs (place_back ?key (\<lambda>s. s)) (ptr, replicate (nat (int (length ?xs))) 0)) (back_inv ?key (\<lambda>s. s) ?n ?xs ?xs)"
    by (rule back_ok [OF keys ptr(2,3)]) simp_all
  then obtain e idx where b: "forM ?xs (place_back ?key (\<lambda>s. s)) (ptr, replicate (nat (int (length ?xs))) 0) = Some (e, idx)"
    "back_inv ?key (\<lambda>s. s) ?n ?xs ?xs (e, idx)" by (auto simp: ok_def)
  have "(\<lambda>s. place_back (\<lambda>_. ?key s) (\<lambda>s. s) s) = place_back ?key (\<lambda>s. s)"
    by (intro ext) (simp add: place_back_def)
  then have l2: "for_range 0 ?n (\<lambda>s st. do {
       sn \<leftarrow> vget snodes s;
       if sn_parent sn \<ge> 0 then place_back (\<lambda>_. sn_parent sn) (\<lambda>s. s) s st else Some st
     }) (ptr, replicate (nat (int (length ?xs))) 0) = Some (e, idx)"
    unfolding snode_loop [where f = "\<lambda>p. place_back (\<lambda>_. p) (\<lambda>s. s)"] using b(1) by simp
  have elen: "int (length e) = ?n + 1" "length idx = length ?xs" using b(2) by (simp_all add: back_inv_def)
  obtain f where f: "for_range 0 ?n (\<lambda>s ptr. do { p \<leftarrow> vget ptr (s + 1); vset ptr s p }) e = Some f"
    "int (length f) = ?n + 1" "\<And>j. 0 \<le> j \<Longrightarrow> j < ?n \<Longrightarrow> elt f j = elt e (j + 1)"
    using ok_ex [OF shift_down_ok [OF elen(1)]] by auto
  let ?f = "f[nat ?n := int (length idx)]"
  have fin: "elt ?f j = bptr ?key ?xs j" if "0 \<le> j" "j \<le> ?n" for j
  proof (cases "j = ?n")
    case True
    then show ?thesis using at_update [of j ?n f] f(2) elen(2) bptr_total [OF keys] by simp
  next
    case False
    then have j: "0 \<le> j" "j < ?n" using that by simp_all
    have "elt ?f j = elt f j" using at_update [of j ?n f] f(2) j by simp
    also have "\<dots> = bptr ?key ?xs j" using f(3) [OF j] back_segment(2) [OF keys b(2) j] by simp
    finally show ?thesis .
  qed
  have seg: "segment idx (elt ?f p) (elt ?f (p + 1)) = snode_children snodes p" if "0 \<le> p" "p < ?n" for p
    using fin [of p] fin [of "p + 1"] that back_segment(1) [OF keys b(2) that] linked_bucket [OF that(1)]
    by (simp add: snode_children_def rev_map)
  have "build_children_csr snodes = Some (?f, idx)"
    unfolding build_children_csr_def Let_def c bind.simps ptr(1) tot l2 prod.case f(1)
    using f(2) by (simp add: vset_def)
  then show ?thesis using fin seg f(2) elen(2) by simp
qed

text \<open>\<open>build_children_csr\<close> of any parent links below the number of supernodes stays inside its
  vectors and gives the children of every supernode in descending order, in one array with one
  slot per supernode that has a parent. The pointers, decremented while filling, are restored.\<close>

theorem build_children_csr_correct:
  assumes "parents_in_range snodes"
  shows "\<exists>ptr idx. build_children_csr snodes = Some (ptr, idx)
    \<and> length ptr = length snodes + 1 \<and> elt ptr 0 = 0 \<and> elt ptr (int (length snodes)) = int (length idx)
    \<and> (\<forall>p. 0 \<le> p \<and> p < int (length snodes) \<longrightarrow>
        segment idx (elt ptr p) (elt ptr (p + 1)) = rev (filter (\<lambda>s. snode_parent snodes s = p) [0..int (length snodes) - 1]))"
proof -
  have keys: "\<forall>s \<in> set (linked snodes). 0 \<le> snode_parent snodes s \<and> snode_parent snodes s < int (length snodes)"
    using assms by (auto simp: linked_def snode_parent_def parents_in_range_def elt_def)
  show ?thesis
    using ok_ex [OF build_children_csr_ok [OF assms]] bptr_total [OF keys] by (auto simp: snode_children_def)
qed

definition example_snodes :: "supernode list" where
  "example_snodes = [\<lparr>sn_start = 0, sn_end = 2, sn_parent = 2\<rparr>, \<lparr>sn_start = 2, sn_end = 3, sn_parent = 2\<rparr>,
     \<lparr>sn_start = 3, sn_end = 6, sn_parent = -1\<rparr>]"

theorem build_children_csr_correct_witness:
  "\<exists>ptr idx. build_children_csr example_snodes = Some (ptr, idx) \<and> segment idx (elt ptr 2) (elt ptr 3) = [1, 0]"
proof -
  have "parents_in_range example_snodes" by (simp add: parents_in_range_def example_snodes_def)
  then obtain ptr idx where r: "build_children_csr example_snodes = Some (ptr, idx)"
    "\<And>p. 0 \<le> p \<Longrightarrow> p < 3 \<Longrightarrow> segment idx (elt ptr p) (elt ptr (p + 1)) = rev (filter (\<lambda>s. snode_parent example_snodes s = p) [0..3 - 1])"
    using build_children_csr_correct [of example_snodes] by (auto simp: example_snodes_def)
  have "rev (filter (\<lambda>s. snode_parent example_snodes s = 2) [0..3 - 1]) = [1, 0]" by code_simp
  then show ?thesis using r(1) r(2) [of 2] by simp
qed

end
