(* ===== verification/CpuTopology.thy ===== *)
theory CpuTopology
  imports SmfTypes
begin

text \<open>
  Counting the processor cores a run may use (\<open>thread_plan.cpp\<close>, first part): the parser of sysfs
  CPU lists, the fold over \<open>/proc/cpuinfo\<close>, the physical and the performance core counts. The
  files' contents, the affinity mask and \<open>std::thread::hardware_concurrency\<close> are arguments.
\<close>

section \<open>The code\<close>

text \<open>\<open>binary_search\<close> over a sorted vector is membership.\<close>

definition binary_search :: "int list \<Rightarrow> int \<Rightarrow> bool" where
  "binary_search xs x \<longleftrightarrow> x \<in> set xs"

definition count_allowed_cores :: "int list list \<Rightarrow> int list \<Rightarrow> int" where
  "count_allowed_cores core_cpus allowed_cpus =
     (if allowed_cpus = [] then int (length core_cpus)
      else let allowed = sort allowed_cpus in
        fold (\<lambda>cpus cores. if \<exists>c \<in> set cpus. binary_search allowed c then cores + 1 else cores) core_cpus 0)"

definition is_allowed :: "int list \<Rightarrow> int list \<Rightarrow> bool" where
  "is_allowed allowed cpus \<longleftrightarrow> allowed = [] \<or> (\<exists>c \<in> set cpus. binary_search allowed c)"

definition count_allowed_performance_cores :: "int list list \<Rightarrow> int list \<Rightarrow> int list \<Rightarrow> int" where
  "count_allowed_performance_cores core_cpus core_class allowed_cpus =
     (if length core_class \<noteq> length core_cpus then count_allowed_cores core_cpus allowed_cpus
      else let allowed = sort allowed_cpus;
             (any, tp) = fold (\<lambda>(cpus, cls) (any, tp).
                 if is_allowed allowed cpus then (True, if any then max tp cls else cls) else (any, tp))
               (zip core_cpus core_class) (False, 0)
           in fold (\<lambda>(cpus, cls) cores. if any \<and> cls = tp \<and> is_allowed allowed cpus then cores + 1 else cores)
               (zip core_cpus core_class) 0)"

record cpu_topology =
  t_core_cpus :: "int list list"
  t_core_class :: "int list"
  t_allowed :: "int list"

text \<open>\<open>read_cpulist\<close> after the first line of the file was read. The characters still to read stand
  for the index \<open>i\<close>; \<open>number\<close> fails without a digit and on a value above \<open>2^20\<close>.\<close>

definition digit_value :: "char \<Rightarrow> int" where
  "digit_value c = of_char c - of_char CHR ''0''"

definition is_digit :: "char \<Rightarrow> bool" where
  "is_digit c \<longleftrightarrow> 0 \<le> digit_value c \<and> digit_value c \<le> 9"

fun cpulist_digits :: "int \<Rightarrow> string \<Rightarrow> (int \<times> string) option" where
  "cpulist_digits v [] = Some (v, [])"
| "cpulist_digits v (c # cs) =
     (if is_digit c then
        (let v' = v * 10 + digit_value c in if v' > 2 ^ 20 then None else cpulist_digits v' cs)
      else Some (v, c # cs))"

definition cpulist_number :: "string \<Rightarrow> (int \<times> string) option" where
  "cpulist_number text = (case text of [] \<Rightarrow> None | c # _ \<Rightarrow> if is_digit c then cpulist_digits 0 text else None)"

definition cpulist_item :: "string \<Rightarrow> (int list \<times> string) option" where
  "cpulist_item text = do {
     (lo, rest) \<leftarrow> cpulist_number text;
     (case rest of
        CHR ''-'' # rest \<Rightarrow> do {
          (hi, rest) \<leftarrow> cpulist_number rest;
          if hi < lo then None else Some ([lo..hi], rest)
        }
      | _ \<Rightarrow> Some ([lo..lo], rest))
   }"

lemma cpulist_digits_length: "cpulist_digits v cs = Some (w, rest) \<Longrightarrow> length rest \<le> length cs"
  by (induction v cs rule: cpulist_digits.induct) (fastforce simp: Let_def split: if_splits)+

lemma cpulist_number_length: "cpulist_number cs = Some (w, rest) \<Longrightarrow> length rest < length cs"
proof -
  assume a: "cpulist_number cs = Some (w, rest)"
  then obtain c cs' where cs: "cs = c # cs'" "is_digit c" "cpulist_digits 0 (c # cs') = Some (w, rest)"
    by (auto simp: cpulist_number_def split: list.splits if_splits)
  then have "cpulist_digits (digit_value c) cs' = Some (w, rest)" by (auto simp: Let_def split: if_splits)
  then show ?thesis using cpulist_digits_length cs(1) by fastforce
qed

lemma cpulist_item_length: "cpulist_item cs = Some (is, rest) \<Longrightarrow> length rest < length cs"
  unfolding cpulist_item_def
  by (auto split: Option.bind_splits list.splits char.splits if_splits bool.splits dest!: cpulist_number_length)

function cpulist_loop :: "string \<Rightarrow> int list \<Rightarrow> int list option" where
  "cpulist_loop text cpus =
     (if text = [] then Some cpus
      else case cpulist_item text of
        None \<Rightarrow> None
      | Some (items, rest) \<Rightarrow>
          (case rest of CHR '','' # rest \<Rightarrow> cpulist_loop rest (cpus @ items) | _ \<Rightarrow> Some (cpus @ items)))"
  by pat_completeness auto
termination
  by (relation "measure (\<lambda>(text, _). length text)") (auto dest!: cpulist_item_length)

declare cpulist_loop.simps [simp del]

definition read_cpulist :: "string option \<Rightarrow> int list" where
  "read_cpulist line = (case line of
     None \<Rightarrow> []
   | Some text \<Rightarrow> (case cpulist_loop text [] of None \<Rightarrow> [] | Some cpus \<Rightarrow> sort cpus))"

text \<open>One line of \<open>/proc/cpuinfo\<close>: \<open>proc\<close>, \<open>phys\<close> and the ordered map from (physical id, core
  id) to the logical CPUs. \<open>atoi\<close> skips white space and reads an optional sign and digits; a value
  that is no \<open>int\<close> is undefined behaviour.\<close>

fun atoi_digits :: "int \<Rightarrow> string \<Rightarrow> int" where
  "atoi_digits v [] = v"
| "atoi_digits v (c # cs) = (if is_digit c then atoi_digits (v * 10 + digit_value c) cs else v)"

definition is_space :: "char \<Rightarrow> bool" where
  "is_space c \<longleftrightarrow> c \<in> {CHR '' '', CHR 0x09, CHR 0x0A, CHR 0x0B, CHR 0x0C, CHR 0x0D}"

definition atoi :: "string \<Rightarrow> int option" where
  "atoi text = (let v = (case dropWhile is_space text of
       CHR ''-'' # cs \<Rightarrow> - atoi_digits 0 cs
     | CHR ''+'' # cs \<Rightarrow> atoi_digits 0 cs
     | cs \<Rightarrow> atoi_digits 0 cs)
   in if in_int32 v then Some v else None)"

fun core_add :: "int \<times> int \<Rightarrow> int \<Rightarrow> ((int \<times> int) \<times> int list) list \<Rightarrow> ((int \<times> int) \<times> int list) list" where
  "core_add k p [] = [(k, [p])]"
| "core_add k p ((k', ps) # m) =
     (if k = k' then (k', ps @ [p]) # m
      else if fst k < fst k' \<or> fst k = fst k' \<and> snd k < snd k' then (k, [p]) # (k', ps) # m
      else (k', ps) # core_add k p m)"

definition starts_with :: "string \<Rightarrow> string \<Rightarrow> bool" where
  "starts_with prefix line \<longleftrightarrow> take (length prefix) line = prefix"

definition cpuinfo_line ::
  "string \<Rightarrow> int \<times> int \<times> ((int \<times> int) \<times> int list) list \<Rightarrow> (int \<times> int \<times> ((int \<times> int) \<times> int list) list) option" where
  "cpuinfo_line line = (\<lambda>(proc, phys, cores).
     case dropWhile (\<lambda>c. c \<noteq> CHR '':'') line of
       [] \<Rightarrow> Some (proc, phys, cores)
     | _ # value \<Rightarrow> do {
         v \<leftarrow> atoi value;
         Some (if starts_with ''processor'' line then (v, 0, cores)
           else if starts_with ''physical id'' line then (proc, v, cores)
           else if starts_with ''core id'' line \<and> proc \<ge> 0 then (proc, phys, core_add (phys, v) proc cores)
           else (proc, phys, cores))
       })"

definition read_topology ::
  "string list \<Rightarrow> string option \<Rightarrow> string option \<Rightarrow> int list option \<Rightarrow> cpu_topology option" where
  "read_topology cpuinfo core_cpus_line atom_cpus_line affinity = do {
     (_, _, cores) \<leftarrow> forM cpuinfo cpuinfo_line (-1, 0, []);
     let cpus = map snd cores;
     let p_cpus = read_cpulist core_cpus_line;
     let e_cpus = read_cpulist atom_cpus_line;
     Some \<lparr>t_core_cpus = cpus,
       t_core_class = (if p_cpus \<noteq> [] \<and> e_cpus \<noteq> []
         then map (\<lambda>cpus. fold (\<lambda>c cls. if binary_search p_cpus c then 1 else cls) cpus 0) cpus else []),
       t_allowed = (case affinity of None \<Rightarrow> [] | Some cpus \<Rightarrow> cpus)\<rparr>
   }"

text \<open>\<open>topology\<close> is \<open>None\<close> when reading it threw.\<close>

definition count_cores :: "bool \<Rightarrow> int \<Rightarrow> cpu_topology option \<Rightarrow> int" where
  "count_cores performance hw topology =
     (let fallback = (if hw > 0 then hw else 1) in
      case topology of
        None \<Rightarrow> fallback
      | Some t \<Rightarrow>
          let allowed_cpus = (if t_allowed t = [] then fallback else int (length (t_allowed t))) in
          if t_core_cpus t = [] then max 1 (min fallback allowed_cpus)
          else let cores = (if performance
                  then count_allowed_performance_cores (t_core_cpus t) (t_core_class t) (t_allowed t)
                  else count_allowed_cores (t_core_cpus t) (t_allowed t)) in
            if cores = 0 then max 1 (min fallback allowed_cpus)
            else max 1 (min cores allowed_cpus))"

section \<open>The counts\<close>

text \<open>A core is usable when it has a CPU the process may run on; no list means every CPU.\<close>

definition usable :: "int list \<Rightarrow> int list \<Rightarrow> bool" where
  "usable allowed cpus \<longleftrightarrow> allowed = [] \<or> set cpus \<inter> set allowed \<noteq> {}"

lemma is_allowed_sort: "is_allowed (sort allowed) cpus \<longleftrightarrow> usable allowed cpus"
proof -
  have "sort allowed = [] \<longleftrightarrow> allowed = []" by (metis set_sort set_empty)
  then show ?thesis by (auto simp: is_allowed_def usable_def binary_search_def)
qed

lemma fold_count: "fold (\<lambda>x n. if P x then n + 1 else n) xs k = k + int (length (filter P xs))"
  by (induction xs arbitrary: k) simp_all

lemma count_allowed_cores_eq: "count_allowed_cores cores al = int (length (filter (usable al) cores))"
proof (cases "al = []")
  case True
  then show ?thesis by (simp add: count_allowed_cores_def usable_def)
next
  case False
  have "(\<lambda>cpus n. if \<exists>c \<in> set cpus. binary_search (sort al) c then n + 1 else n)
      = (\<lambda>cpus n. if usable al cpus then n + (1 :: int) else n)"
    using False by (auto simp: binary_search_def usable_def intro!: ext)
  then show ?thesis using False fold_count [of "usable al" cores 0] by (simp add: count_allowed_cores_def Let_def)
qed

definition top_class :: "int list list \<Rightarrow> int list \<Rightarrow> int list \<Rightarrow> int" where
  "top_class cores cls al = Max (snd ` set (filter (usable al \<circ> fst) (zip cores cls)))"

lemma fold_top_class:
  "fold (\<lambda>(cpus, cls) (any, tp). if U cpus then (True, if any then max tp cls else cls) else (any, tp)) xs (any, tp) =
   (if filter (U \<circ> fst) xs = [] then (any, tp)
    else (True, if any then max tp (Max (snd ` set (filter (U \<circ> fst) xs))) else Max (snd ` set (filter (U \<circ> fst) xs))))"
proof (induction xs arbitrary: any tp)
  case (Cons x xs)
  obtain cpus cls where x: "x = (cpus, cls)" by (cases x)
  show ?case
  proof (cases "filter (U \<circ> fst) xs = []")
    case True
    then show ?thesis using Cons x by (simp add: comp_def)
  next
    case False
    then have "snd ` set (filter (U \<circ> fst) xs) \<noteq> {}" by (metis image_is_empty set_empty)
    then show ?thesis using Cons x False by (auto simp: comp_def max.assoc max.commute max.left_commute)
  qed
qed simp

lemma count_performance_eq:
  assumes "length cls = length cores"
  shows "count_allowed_performance_cores cores cls al =
    int (length (filter (\<lambda>(cpus, c). usable al cpus \<and> c = top_class cores cls al) (zip cores cls)))"
proof -
  let ?xs = "zip cores cls"
  have fold2: "fold (\<lambda>(cpus, cls) n. if any \<and> cls = tp \<and> is_allowed (sort al) cpus then n + 1 else n) ?xs 0 =
      int (length (filter (\<lambda>(cpus, cls). any \<and> cls = tp \<and> usable al cpus) ?xs))" for any tp
    using fold_count [of "\<lambda>(cpus, cls). any \<and> cls = tp \<and> usable al cpus" ?xs 0]
    by (simp add: is_allowed_sort case_prod_unfold)
  show ?thesis
  proof (cases "filter (usable al \<circ> fst) ?xs = []")
    case True
    then have "filter (\<lambda>(cpus, c). usable al cpus \<and> c = top_class cores cls al) ?xs = []"
      by (auto simp: filter_empty_conv)
    then show ?thesis
      using assms True fold_top_class [of "usable al" ?xs False 0] fold2 [of False 0]
      by (simp add: count_allowed_performance_cores_def Let_def is_allowed_sort)
  next
    case False
    then show ?thesis
      using assms fold_top_class [of "usable al" ?xs False 0] fold2 [of True "top_class cores cls al"]
      by (simp add: count_allowed_performance_cores_def Let_def is_allowed_sort top_class_def conj_commute)
  qed
qed

lemma top_class_core:
  assumes "length cls = length cores" "filter (usable al) cores \<noteq> []"
  shows "filter (\<lambda>(cpus, c). usable al cpus \<and> c = top_class cores cls al) (zip cores cls) \<noteq> []"
proof -
  let ?S = "set (filter (usable al \<circ> fst) (zip cores cls))"
  obtain cpus where cpus: "cpus \<in> set cores" "usable al cpus" using assms(2) by (auto simp: filter_empty_conv)
  then obtain i where i: "i < length cores" "cores ! i = cpus" by (auto simp: in_set_conv_nth)
  then have "(cpus, cls ! i) \<in> set (zip cores cls)" using assms(1) by (auto simp: set_zip)
  then have "snd ` ?S \<noteq> {}" using cpus(2) by auto
  then have "top_class cores cls al \<in> snd ` ?S" unfolding top_class_def by (intro Max_in) auto
  then show ?thesis by (auto simp: filter_empty_conv)
qed

lemma filter_zip_le:
  "length cls = length cores \<Longrightarrow>
   length (filter (\<lambda>(x, c). U x \<and> Q c) (zip cores cls)) \<le> length (filter U cores)"
proof (induction cores arbitrary: cls)
  case (Cons x cores)
  then obtain c cls' where "cls = c # cls'" "length cls' = length cores" by (cases cls) auto
  then show ?case using Cons.IH [of cls'] by simp
qed simp

lemma performance_le: "count_allowed_performance_cores cores cls al \<le> count_allowed_cores cores al"
proof (cases "length cls = length cores")
  case True
  show ?thesis
    unfolding count_performance_eq [OF True] count_allowed_cores_eq
    using filter_zip_le [OF True] by simp
qed (simp add: count_allowed_performance_cores_def)

lemma performance_pos: "count_allowed_performance_cores cores cls al = 0 \<longleftrightarrow> count_allowed_cores cores al = 0"
proof (cases "length cls = length cores")
  case True
  show ?thesis
    using top_class_core [OF True, of al] performance_le [of cores cls al]
    unfolding count_performance_eq [OF True] count_allowed_cores_eq
    by auto
qed (simp add: count_allowed_performance_cores_def)

lemma count_cores_performance_le: "count_cores True hw topology \<le> count_cores False hw topology"
proof (cases topology)
  case (Some t)
  let ?perf = "count_allowed_performance_cores (t_core_cpus t) (t_core_class t) (t_allowed t)"
  let ?phys = "count_allowed_cores (t_core_cpus t) (t_allowed t)"
  have "?perf \<le> ?phys" by (rule performance_le)
  moreover have "?perf = 0 \<longleftrightarrow> ?phys = 0" by (rule performance_pos)
  ultimately show ?thesis using Some by (auto simp: count_cores_def Let_def max_def min_def)
qed (simp add: count_cores_def)

lemma count_cores_bounds:
  "1 \<le> count_cores performance hw topology"
  "topology = Some t \<Longrightarrow> t_allowed t \<noteq> [] \<Longrightarrow> count_cores performance hw topology \<le> int (length (t_allowed t))"
proof -
  show "1 \<le> count_cores performance hw topology"
    by (auto simp: count_cores_def Let_def split: option.splits)
  assume t: "topology = Some t" "t_allowed t \<noteq> []"
  then have "1 \<le> int (length (t_allowed t))" by (cases "t_allowed t") auto
  then show "count_cores performance hw topology \<le> int (length (t_allowed t))"
    using t by (auto simp: count_cores_def Let_def)
qed

section \<open>Round trip of CPU lists\<close>

fun show_decimal :: "nat \<Rightarrow> string" where
  "show_decimal n = (if n < 10 then [char_of (n + 48)] else show_decimal (n div 10) @ [char_of (n mod 10 + 48)])"

declare show_decimal.simps [simp del]

definition show_cpus :: "nat \<times> nat \<Rightarrow> string" where
  "show_cpus = (\<lambda>(lo, hi). if lo = hi then show_decimal lo else show_decimal lo @ ''-'' @ show_decimal hi)"

fun show_cpulist :: "(nat \<times> nat) list \<Rightarrow> string" where
  "show_cpulist [] = []"
| "show_cpulist [r] = show_cpus r"
| "show_cpulist (r # rs) = show_cpus r @ '','' @ show_cpulist rs"

lemma digit_char:
  assumes "d < 10"
  shows "digit_value (char_of (d + 48)) = int d" "is_digit (char_of (d + 48))"
proof -
  have "\<forall>d \<in> set [0..<10]. digit_value (char_of (d + 48)) = int d" by code_simp
  then have v: "digit_value (char_of (d + 48)) = int d" if "d < 10" for d using that by simp
  show "digit_value (char_of (d + 48)) = int d" by (rule v [OF assms])
  then show "is_digit (char_of (d + 48))" using assms by (simp add: is_digit_def)
qed

text \<open>The characters that may follow a number.\<close>

definition ends_number :: "string \<Rightarrow> bool" where
  "ends_number rest \<longleftrightarrow> (rest = [] \<or> \<not> is_digit (hd rest))"

lemma digits_append: "cpulist_digits v s = Some (w, []) \<Longrightarrow> cpulist_digits v (s @ t) = cpulist_digits w t"
  by (induction v s rule: cpulist_digits.induct) (auto simp: Let_def split: if_splits)

lemma digits_end: "ends_number rest \<Longrightarrow> cpulist_digits v rest = Some (v, rest)"
  by (cases rest) (auto simp: ends_number_def)

lemma digits_show: "n \<le> 2 ^ 20 \<Longrightarrow> cpulist_digits 0 (show_decimal n) = Some (int n, [])"
proof (induction n rule: show_decimal.induct)
  case (1 n)
  show ?case
  proof (cases "n < 10")
    case True
    then show ?thesis using digit_char [OF True] by (subst show_decimal.simps) (simp add: Let_def)
  next
    case False
    have d: "n mod 10 < 10" by simp
    have "cpulist_digits 0 (show_decimal (n div 10)) = Some (int (n div 10), [])"
      using 1 False by simp
    moreover have "int (n div 10) * 10 + int (n mod 10) = int n"
      by (metis add.commute mod_div_mult_eq of_nat_add of_nat_mult of_nat_numeral)
    moreover have "int n \<le> 2 ^ 20" using 1(2) by simp
    ultimately show ?thesis
      using False digit_char [OF d]
      by (subst show_decimal.simps) (simp add: digits_append Let_def)
  qed
qed

lemma show_decimal_digit: "show_decimal n \<noteq> [] \<and> is_digit (hd (show_decimal n))"
proof (induction n rule: show_decimal.induct)
  case (1 n)
  show ?case
  proof (cases "n < 10")
    case True
    then show ?thesis using digit_char(2) [OF True] by (subst (1 2) show_decimal.simps) simp
  next
    case False
    then show ?thesis using 1 by (subst (1 2) show_decimal.simps) simp
  qed
qed

lemma number_show:
  assumes "n \<le> 2 ^ 20" "ends_number rest"
  shows "cpulist_number (show_decimal n @ rest) = Some (int n, rest)"
  using digits_append [OF digits_show [OF assms(1)], of rest] digits_end [OF assms(2)] show_decimal_digit [of n]
  by (cases "show_decimal n") (simp_all add: cpulist_number_def)

definition ends_item :: "string \<Rightarrow> bool" where
  "ends_item rest \<longleftrightarrow> (rest = [] \<or> hd rest = CHR '','')"

lemma ends_item: "ends_item rest \<Longrightarrow> ends_number rest \<and> (\<forall>cs. rest \<noteq> CHR ''-'' # cs)"
proof -
  have "\<not> is_digit CHR '',''" by code_simp
  then show "ends_item rest \<Longrightarrow> ends_number rest \<and> (\<forall>cs. rest \<noteq> CHR ''-'' # cs)"
    by (auto simp: ends_item_def ends_number_def)
qed

lemma item_show:
  assumes "lo \<le> hi" "hi \<le> 2 ^ 20" "ends_item rest"
  shows "cpulist_item (show_cpus (lo, hi) @ rest) = Some ([int lo..int hi], rest)"
proof (cases "lo = hi")
  case True
  then have "cpulist_number (show_cpus (lo, hi) @ rest) = Some (int lo, rest)"
    using assms ends_item [OF assms(3)] by (simp add: show_cpus_def number_show)
  then show ?thesis using True assms(3)
    by (auto simp: cpulist_item_def ends_item_def split: list.splits)
next
  case False
  have "\<not> is_digit CHR ''-''" by code_simp
  then have "ends_number (''-'' @ show_decimal hi @ rest)" by (simp add: ends_number_def)
  then have "cpulist_number (show_cpus (lo, hi) @ rest) = Some (int lo, CHR ''-'' # show_decimal hi @ rest)"
    using assms(1,2) False number_show [of lo "''-'' @ show_decimal hi @ rest"] by (simp add: show_cpus_def)
  moreover have "cpulist_number (show_decimal hi @ rest) = Some (int hi, rest)"
    using assms(2) ends_item [OF assms(3)] by (simp add: number_show)
  ultimately show ?thesis using assms(1) by (simp add: cpulist_item_def)
qed

lemma loop_show:
  assumes "\<forall>(lo, hi) \<in> set rs. lo \<le> hi \<and> hi \<le> 2 ^ 20"
  shows "cpulist_loop (show_cpulist rs) acc = Some (acc @ concat (map (\<lambda>(lo, hi). [int lo..int hi]) rs))"
  using assms
proof (induction rs arbitrary: acc rule: show_cpulist.induct)
  case 1
  then show ?case by (simp add: cpulist_loop.simps)
next
  case (2 r)
  obtain lo hi where r: "r = (lo, hi)" by (cases r)
  have "cpulist_item (show_cpus r) = Some ([int lo..int hi], [])"
    using 2 r item_show [of lo hi "[]"] by (simp add: ends_item_def)
  moreover have "show_cpus r \<noteq> []" using r show_decimal_digit by (simp add: show_cpus_def)
  ultimately show ?case using r by (subst cpulist_loop.simps) simp
next
  case (3 r r' rs)
  obtain lo hi where r: "r = (lo, hi)" by (cases r)
  have "cpulist_item (show_cpulist (r # r' # rs)) = Some ([int lo..int hi], '','' @ show_cpulist (r' # rs))"
    using "3.prems" r item_show [of lo hi "'','' @ show_cpulist (r' # rs)"] by (simp add: ends_item_def)
  moreover have "show_cpulist (r # r' # rs) \<noteq> []" using r show_decimal_digit by (simp add: show_cpus_def)
  ultimately show ?case using r "3.IH" "3.prems" by (subst cpulist_loop.simps) simp
qed

section \<open>The ordered map of cores\<close>

definition key_less :: "int \<times> int \<Rightarrow> int \<times> int \<Rightarrow> bool" where
  "key_less k k' \<longleftrightarrow> fst k < fst k' \<or> fst k = fst k' \<and> snd k < snd k'"

definition keys_sorted :: "((int \<times> int) \<times> int list) list \<Rightarrow> bool" where
  "keys_sorted m \<longleftrightarrow> sorted_wrt key_less (map fst m)"

definition cpus_at :: "((int \<times> int) \<times> int list) list \<Rightarrow> int \<times> int \<Rightarrow> int list" where
  "cpus_at m k = (case map_of m k of None \<Rightarrow> [] | Some ps \<Rightarrow> ps)"

lemma key_less_linear: "k = k' \<or> key_less k k' \<or> key_less k' k"
  by (cases k; cases k') (auto simp: key_less_def)

lemma key_less_trans: "key_less a b \<Longrightarrow> key_less b c \<Longrightarrow> key_less a c"
  by (auto simp: key_less_def)

lemma core_add_keys: "fst ` set (core_add k p m) = insert k (fst ` set m)"
  by (induction k p m rule: core_add.induct) auto

lemma core_add_sorted: "keys_sorted m \<Longrightarrow> keys_sorted (core_add k p m)"
proof (induction k p m rule: core_add.induct)
  case (2 k p k' ps m)
  show ?case
  proof (cases "k = k'")
    case False
    show ?thesis
    proof (cases "key_less k k'")
      case True
      then show ?thesis using 2(2) False key_less_trans [OF True] by (auto simp: keys_sorted_def key_less_def)
    next
      case less: False
      then have "key_less k' k" using False key_less_linear [of k k'] by blast
      moreover have "keys_sorted (core_add k p m)" using 2 False less by (simp add: keys_sorted_def key_less_def)
      ultimately show ?thesis
        using 2(2) False less core_add_keys [of k p m] by (auto simp: keys_sorted_def key_less_def image_iff)
    qed
  qed (use 2(2) in \<open>simp add: keys_sorted_def\<close>)
qed (simp add: keys_sorted_def)

lemma cpus_at_core_add: "keys_sorted m \<Longrightarrow> cpus_at (core_add k p m) j = (if j = k then cpus_at m k @ [p] else cpus_at m j)"
proof (induction k p m rule: core_add.induct)
  case (2 k p k' ps m)
  show ?case
  proof (cases "k \<noteq> k' \<and> key_less k k'")
    case True
    have "k \<notin> fst ` set m" using 2(2) True key_less_trans [of k k' k] by (auto simp: keys_sorted_def key_less_def)
    then have "map_of m k = None" by (simp add: map_of_eq_None_iff)
    then show ?thesis using True by (auto simp: cpus_at_def key_less_def)
  next
    case False
    then show ?thesis using 2 by (auto simp: cpus_at_def keys_sorted_def key_less_def)
  qed
qed (simp add: cpus_at_def)

section \<open>A printed \<open>/proc/cpuinfo\<close>\<close>

text \<open>One logical CPU: its number, the physical and core ids (a virtual machine may have no physical
  id line) and the other lines of its block.\<close>

record cpu_entry =
  e_cpu :: nat
  e_phys :: "nat option"
  e_core :: nat
  e_before :: "string list"
  e_between :: "string list"
  e_after :: "string list"

definition show_field :: "string \<Rightarrow> nat \<Rightarrow> string" where
  "show_field name n = name @ [CHR 0x09] @ '': '' @ show_decimal n"

definition show_entry :: "cpu_entry \<Rightarrow> string list" where
  "show_entry e = show_field ''processor'' (e_cpu e) # e_before e
     @ (case e_phys e of None \<Rightarrow> [] | Some q \<Rightarrow> [show_field ''physical id'' q])
     @ e_between e @ show_field ''core id'' (e_core e) # e_after e"

definition entry_key :: "cpu_entry \<Rightarrow> int \<times> int" where
  "entry_key e = (case e_phys e of None \<Rightarrow> 0 | Some q \<Rightarrow> int q, int (e_core e))"

text \<open>A line with another name, whose number is readable.\<close>

definition other_line :: "string \<Rightarrow> bool" where
  "other_line line \<longleftrightarrow> \<not> starts_with ''processor'' line \<and> \<not> starts_with ''physical id'' line \<and> \<not> starts_with ''core id'' line
     \<and> (case dropWhile (\<lambda>c. c \<noteq> CHR '':'') line of [] \<Rightarrow> True | _ # value \<Rightarrow> atoi value \<noteq> None)"

definition entry_ok :: "cpu_entry \<Rightarrow> bool" where
  "entry_ok e \<longleftrightarrow> e_cpu e < 2 ^ 31 \<and> e_core e < 2 ^ 31 \<and> (case e_phys e of None \<Rightarrow> True | Some q \<Rightarrow> q < 2 ^ 31)
     \<and> (\<forall>line \<in> set (e_before e @ e_between e @ e_after e). other_line line)"

lemma show_decimal_digits: "\<forall>c \<in> set (show_decimal n). is_digit c"
proof (induction n rule: show_decimal.induct)
  case (1 n)
  then show ?case using digit_char(2) [of n] digit_char(2) [of "n mod 10"] by (subst show_decimal.simps) auto
qed

lemma atoi_digits_append: "\<forall>c \<in> set s. is_digit c \<Longrightarrow> atoi_digits v (s @ t) = atoi_digits (atoi_digits v s) t"
  by (induction v s rule: atoi_digits.induct) simp_all

lemma atoi_digits_show: "atoi_digits 0 (show_decimal n) = int n"
proof (induction n rule: show_decimal.induct)
  case (1 n)
  show ?case
  proof (cases "n < 10")
    case True
    then show ?thesis using digit_char [OF True] by (subst show_decimal.simps) simp
  next
    case False
    have "atoi_digits 0 (show_decimal n) = int (n div 10) * 10 + int (n mod 10)"
      using False 1 digit_char [of "n mod 10"] atoi_digits_append [OF show_decimal_digits] by (subst show_decimal.simps) simp
    then show ?thesis by (metis add.commute mod_div_mult_eq of_nat_add of_nat_mult of_nat_numeral)
  qed
qed

lemma sign_case:
  assumes "c \<noteq> CHR ''-''" "c \<noteq> CHR ''+''"
  shows "(case c # cs of CHR ''-'' # cs \<Rightarrow> f cs | CHR ''+'' # cs \<Rightarrow> g cs | cs \<Rightarrow> h cs) = h (c # cs)"
  using assms by (cases c) (auto split: bool.splits)

lemma atoi_show:
  assumes "n < 2 ^ 31"
  shows "atoi ('' '' @ show_decimal n) = Some (int n)"
proof -
  obtain c cs where s: "show_decimal n = c # cs" "is_digit c" using show_decimal_digit [of n] by (cases "show_decimal n") auto
  have "\<forall>c \<in> set [CHR ''-'', CHR ''+'', CHR '' '', CHR 0x09, CHR 0x0A, CHR 0x0B, CHR 0x0C, CHR 0x0D]. \<not> is_digit c" by code_simp
  then have c: "c \<noteq> CHR ''-''" "c \<noteq> CHR ''+''" "\<not> is_space c" using s(2) by (auto simp: is_space_def)
  have "is_space CHR '' ''" by (simp add: is_space_def)
  then have d: "dropWhile is_space ('' '' @ show_decimal n) = c # cs" using s(1) c(3) by simp
  have "atoi_digits 0 (c # cs) = int n" unfolding s(1) [symmetric] by (rule atoi_digits_show)
  moreover have "(case c # cs of CHR ''-'' # cs \<Rightarrow> - atoi_digits 0 cs | CHR ''+'' # cs \<Rightarrow> atoi_digits 0 cs | cs \<Rightarrow> atoi_digits 0 cs)
      = atoi_digits 0 (c # cs)"
    by (rule sign_case [OF c(1,2)])
  moreover have "in_int32 (int n)" using assms by (simp add: in_int32_def)
  ultimately show ?thesis unfolding atoi_def d Let_def by (simp only: if_True)
qed

lemma field_lines:
  assumes "n < 2 ^ 31"
  shows "cpuinfo_line (show_field ''processor'' n) (proc, phys, m) = Some (int n, 0, m)"
    "cpuinfo_line (show_field ''physical id'' n) (proc, phys, m) = Some (proc, int n, m)"
    "0 \<le> proc \<Longrightarrow> cpuinfo_line (show_field ''core id'' n) (proc, phys, m) = Some (proc, phys, core_add (phys, int n) proc m)"
  using atoi_show [OF assms] by (simp_all add: cpuinfo_line_def show_field_def starts_with_def)

lemma other_line_skip:
  assumes "other_line l"
  shows "cpuinfo_line l s = Some s"
proof -
  obtain proc phys m where s: "s = (proc, phys, m)" by (cases s)
  note o = assms [unfolded other_line_def]
  show ?thesis
  proof (cases "dropWhile (\<lambda>c. c \<noteq> CHR '':'') l")
    case Nil
    show ?thesis unfolding s cpuinfo_line_def prod.case Nil list.case ..
  next
    case (Cons c w)
    then obtain v where "atoi w = Some v" using o by auto
    then show ?thesis using o unfolding s cpuinfo_line_def Cons by simp
  qed
qed

lemma other_lines: "\<forall>line \<in> set ls. other_line line \<Longrightarrow> forM ls cpuinfo_line s = Some s"
proof (induction ls)
  case (Cons l ls)
  have "cpuinfo_line l s = Some s"
    by (rule other_line_skip) (use Cons.prems in simp)
  then show ?case using Cons by simp
qed simp

lemma entry_lines:
  assumes "entry_ok e"
  shows "forM (show_entry e) cpuinfo_line (proc, phys, m)
    = Some (int (e_cpu e), fst (entry_key e), core_add (entry_key e) (int (e_cpu e)) m)"
proof -
  have o: "forM (e_before e) cpuinfo_line s = Some s" "forM (e_between e) cpuinfo_line s = Some s" "forM (e_after e) cpuinfo_line s = Some s" for s
    by (rule other_lines, use assms in \<open>simp add: entry_ok_def\<close>)+
  show ?thesis
    using assms by (cases "e_phys e") (simp_all add: show_entry_def entry_ok_def entry_key_def forM_append o field_lines)
qed

lemma entries_lines:
  "\<forall>e \<in> set es. entry_ok e \<Longrightarrow> \<exists>proc' phys'. forM (concat (map show_entry es)) cpuinfo_line (proc, phys, m)
    = Some (proc', phys', fold (\<lambda>e. core_add (entry_key e) (int (e_cpu e))) es m)"
  by (induction es arbitrary: proc phys m) (simp_all add: forM_append entry_lines)

lemma fold_core_add:
  assumes "keys_sorted m"
  shows "keys_sorted (fold (\<lambda>e. core_add (entry_key e) (int (e_cpu e))) es m)"
    "fst ` set (fold (\<lambda>e. core_add (entry_key e) (int (e_cpu e))) es m) = fst ` set m \<union> entry_key ` set es"
    "cpus_at (fold (\<lambda>e. core_add (entry_key e) (int (e_cpu e))) es m) k
      = cpus_at m k @ map (\<lambda>e. int (e_cpu e)) (filter (\<lambda>e. entry_key e = k) es)"
  using assms by (induction es arbitrary: m) (auto simp: core_add_sorted core_add_keys cpus_at_core_add)

lemma key_less_irrefl: "\<not> key_less k k"
  by (simp add: key_less_def)

lemma sorted_cpus_at: "keys_sorted m \<Longrightarrow> map snd m = map (cpus_at m) (map fst m)"
proof -
  assume "keys_sorted m"
  then have "distinct (map fst m)" unfolding keys_sorted_def by (induction m) (auto simp: key_less_irrefl)
  then show ?thesis by (auto simp: cpus_at_def)
qed

lemma class_fold: "fold (\<lambda>c cls. if P c then 1 else cls) cs z = (if \<exists>c \<in> set cs. P c then 1 else z :: int)"
  by (induction cs arbitrary: z) auto

section \<open>Properties\<close>

text \<open>the core counts. A core is usable when the process may run on one of its CPUs (no
  affinity list: on every CPU). \<open>count_allowed_cores\<close> counts the usable cores, the performance
  count those of the highest class among the usable ones, or all of them when the classes are
  unknown. So \<open>performance_core_count() <= physical_core_count()\<close>, both are at least 1, and
  neither exceeds the number of CPUs in the affinity mask, whatever the topology holds.\<close>

theorem core_counts_correct:
  "count_allowed_cores cores al = int (length (filter (usable al) cores))
   \<and> count_allowed_performance_cores cores cls al =
      (if length cls = length cores
       then int (length (filter (\<lambda>(cpus, c). usable al cpus \<and> c = top_class cores cls al) (zip cores cls)))
       else int (length (filter (usable al) cores)))
   \<and> 1 \<le> count_cores True hw topology \<and> count_cores True hw topology \<le> count_cores False hw topology
   \<and> (case topology of None \<Rightarrow> count_cores False hw topology = (if hw > 0 then hw else 1)
      | Some t \<Rightarrow> t_allowed t = [] \<or> count_cores False hw topology \<le> int (length (t_allowed t)))"
proof (intro conjI)
  show "count_allowed_performance_cores cores cls al =
      (if length cls = length cores
       then int (length (filter (\<lambda>(cpus, c). usable al cpus \<and> c = top_class cores cls al) (zip cores cls)))
       else int (length (filter (usable al) cores)))"
    using count_performance_eq [of cls cores al] count_allowed_cores_eq [of cores al]
    by (cases "length cls = length cores") (simp_all only: if_True if_False count_allowed_performance_cores_def simp_thms)
  show "case topology of None \<Rightarrow> count_cores False hw topology = (if hw > 0 then hw else 1)
      | Some t \<Rightarrow> t_allowed t = [] \<or> count_cores False hw topology \<le> int (length (t_allowed t))"
  proof (cases topology)
    case (Some t)
    then show ?thesis using count_cores_bounds(2) [OF Some] by auto
  qed (simp add: count_cores_def)
qed (rule count_allowed_cores_eq count_cores_bounds count_cores_performance_le)+

text \<open>C38: \<open>read_cpulist\<close> reads back every CPU list: for ranges \<open>lo-hi\<close> or single CPUs up to
  \<open>2^20\<close>, printed in decimal and separated by commas, it returns the listed CPUs in ascending
  order.\<close>

theorem read_cpulist_roundtrip:
  assumes "\<forall>(lo, hi) \<in> set rs. lo \<le> hi \<and> hi \<le> 2 ^ 20"
  shows "read_cpulist (Some (show_cpulist rs)) = sort (concat (map (\<lambda>(lo, hi). [int lo..int hi]) rs))"
  using loop_show [OF assms, of "[]"] by (simp add: read_cpulist_def)

theorem read_cpulist_roundtrip_witness:
  "show_cpulist [(16, 16), (0, 3)] = ''16,0-3'' \<and> read_cpulist (Some ''16,0-3'') = [0, 1, 2, 3, 16]"
proof -
  have s: "show_cpulist [(16, 16), (0, 3)] = ''16,0-3''" by code_simp
  have "read_cpulist (Some (show_cpulist [(16, 16), (0, 3)])) =
      sort (concat (map (\<lambda>(lo, hi). [int lo..int hi]) [(16 :: nat, 16), (0, 3 :: nat)]))"
    by (rule read_cpulist_roundtrip) simp
  also have "\<dots> = [0, 1, 2, 3, 16]" by code_simp
  finally show ?thesis unfolding s using s by simp
qed

text \<open>C37: \<open>read_topology\<close> reads back every printed \<open>/proc/cpuinfo\<close>: for blocks with processor
  numbers and ids that are \<open>int\<close>s, a physical id line or none (then 0), and any other lines in any
  place, the cores come in ascending order of (physical id, core id), each once, with its logical CPUs
  in file order; with the P-core and E-core lists printed to sysfs, a core has class 1 exactly when one
  of its CPUs is in the P-core list, and without both lists there are no classes.\<close>

theorem read_topology_roundtrip:
  assumes e: "\<forall>e \<in> set es. entry_ok e"
    and P: "\<forall>(lo, hi) \<in> set ps. lo \<le> hi \<and> hi \<le> 2 ^ 20" and E: "\<forall>(lo, hi) \<in> set as. lo \<le> hi \<and> hi \<le> 2 ^ 20"
  shows "\<exists>t keys. read_topology (concat (map show_entry es)) (Some (show_cpulist ps)) (Some (show_cpulist as)) affinity = Some t
    \<and> sorted_wrt (\<lambda>k k'. fst k < fst k' \<or> fst k = fst k' \<and> snd k < snd k') keys \<and> set keys = entry_key ` set es
    \<and> t_core_cpus t = map (\<lambda>k. map (\<lambda>e. int (e_cpu e)) (filter (\<lambda>e. entry_key e = k) es)) keys
    \<and> t_core_class t = (if ps = [] \<or> as = [] then []
        else map (\<lambda>k. if \<exists>e \<in> set es. entry_key e = k \<and> (\<exists>(lo, hi) \<in> set ps. lo \<le> e_cpu e \<and> e_cpu e \<le> hi) then 1 else 0) keys)
    \<and> t_allowed t = (case affinity of None \<Rightarrow> [] | Some cpus \<Rightarrow> cpus)"
proof -
  let ?m = "fold (\<lambda>e. core_add (entry_key e) (int (e_cpu e))) es []"
  obtain proc phys where run: "forM (concat (map show_entry es)) cpuinfo_line (-1, 0, []) = Some (proc, phys, ?m)"
    using entries_lines [OF e, of "-1" 0 "[]"] by blast
  have srt: "keys_sorted ([] :: ((int \<times> int) \<times> int list) list)" by (simp add: keys_sorted_def)
  note m = fold_core_add [OF srt, of es]
  have lists: "read_cpulist (Some (show_cpulist rs)) = sort (concat (map (\<lambda>(lo, hi). [int lo..int hi]) rs))"
    if "\<forall>(lo, hi) \<in> set rs. lo \<le> hi \<and> hi \<le> 2 ^ 20" for rs
    using loop_show [OF that, of "[]"] by (simp add: read_cpulist_def)
  have none: "read_cpulist (Some (show_cpulist rs)) = [] \<longleftrightarrow> rs = []" if "\<forall>(lo, hi) \<in> set rs. lo \<le> hi \<and> hi \<le> 2 ^ 20" for rs
  proof -
    have "set (read_cpulist (Some (show_cpulist rs))) = {} \<longleftrightarrow> rs = []" unfolding lists [OF that] using that by (cases rs) (auto intro: exI [of _ "int _"])
    then show ?thesis by simp
  qed
  have mem: "binary_search (read_cpulist (Some (show_cpulist ps))) (int c) \<longleftrightarrow> (\<exists>(lo, hi) \<in> set ps. lo \<le> c \<and> c \<le> hi)" for c
    unfolding lists [OF P] binary_search_def by auto
  have at: "cpus_at ?m k = map (\<lambda>e. int (e_cpu e)) (filter (\<lambda>e. entry_key e = k) es)" for k
    using m(3) by (simp add: cpus_at_def [of "[]"])
  have cls: "map (\<lambda>cpus. fold (\<lambda>c cls. if binary_search (read_cpulist (Some (show_cpulist ps))) c then 1 else cls) cpus 0) (map snd ?m)
      = map (\<lambda>k. if \<exists>e \<in> set es. entry_key e = k \<and> (\<exists>(lo, hi) \<in> set ps. lo \<le> e_cpu e \<and> e_cpu e \<le> hi) then 1 else (0 :: int)) (map fst ?m)"
    unfolding class_fold sorted_cpus_at [OF m(1)] map_map by (rule map_cong [OF HOL.refl]) (auto simp: at mem)
  show ?thesis
    unfolding read_topology_def run bind.simps prod.case Let_def none [OF P] none [OF E]
    by (rule exI, rule exI [of _ "map fst ?m"], rule conjI [OF HOL.refl])
      (use m(1,2) cls sorted_cpus_at [OF m(1)] in \<open>simp add: at keys_sorted_def key_less_def [abs_def]\<close>)
qed

definition example_cpus :: "cpu_entry list" where
  "example_cpus =
    [\<lparr>e_cpu = 0, e_phys = Some 0, e_core = 4, e_before = [''model name : x86''], e_between = [], e_after = [''flags : fpu'']\<rparr>,
     \<lparr>e_cpu = 1, e_phys = Some 0, e_core = 0, e_before = [], e_between = [''siblings : 3''], e_after = []\<rparr>,
     \<lparr>e_cpu = 2, e_phys = Some 0, e_core = 4, e_before = [], e_between = [], e_after = []\<rparr>]"

theorem read_topology_roundtrip_witness:
  "\<exists>t. read_topology (concat (map show_entry example_cpus)) (Some ''1'') (Some ''0,2'') None = Some t \<and> 0 \<in> set (t_core_class t)"
proof -
  have "other_line ''model name : x86''" "other_line ''siblings : 3''" "other_line ''flags : fpu''" by code_simp+
  then have ok: "\<forall>e \<in> set example_cpus. entry_ok e" by (simp add: example_cpus_def entry_ok_def)
  have s: "show_cpulist [(1, 1)] = ''1''" "show_cpulist [(0, 0), (2, 2)] = ''0,2''" by code_simp+
  obtain t keys where t: "read_topology (concat (map show_entry example_cpus)) (Some ''1'') (Some ''0,2'') None = Some t"
    "set keys = entry_key ` set example_cpus"
    "t_core_class t = map (\<lambda>k. if \<exists>e \<in> set example_cpus. entry_key e = k \<and> (\<exists>(lo, hi) \<in> set [(1, 1 :: nat)]. lo \<le> e_cpu e \<and> e_cpu e \<le> hi) then 1 else 0) keys"
    using read_topology_roundtrip [OF ok, of "[(1, 1)]" "[(0, 0), (2, 2)]" None] unfolding s by auto
  have "(0, 4) \<in> set keys" by (simp add: t(2) example_cpus_def entry_key_def)
  moreover have "\<not> (\<exists>e \<in> set example_cpus. entry_key e = (0, 4) \<and> (\<exists>(lo, hi) \<in> set [(1, 1 :: nat)]. lo \<le> e_cpu e \<and> e_cpu e \<le> hi))"
    by (simp add: example_cpus_def entry_key_def)
  ultimately have "0 \<in> set (t_core_class t)" unfolding t(3) by force
  then show ?thesis using t(1) by blast
qed

end
