(* ===== verification/TreeView.thy ===== *)
theory TreeView
  imports ChildrenCsr
begin

text \<open>
  The view of the assembly tree that the thread plan walks, and the sums of work over its
  subtrees: \<open>tree_view\<close> and \<open>subtree_sums\<close> of \<open>thread_plan.cpp\<close>. Work is \<open>double\<close> in the code
  and rational here: front sizes make it an integer, and sums below \<open>2^53\<close> are exact.
\<close>

section \<open>The code\<close>

record tree_view =
  tv_postorder :: "int list"
  tv_parent :: "int list"
  tv_work :: "rat list"
  tv_split :: "int list"

definition kSplitTiles :: int where "kSplitTiles = 1"
definition kSplitBlas :: int where "kSplitBlas = 2"
definition kTopBlasMinFront :: int where "kTopBlasMinFront = 1024"
definition kTopTileMinFront :: int where "kTopTileMinFront = 512"
definition kTopTileMinFrontParallel :: int where "kTopTileMinFrontParallel = 2048"
definition kTreeParallelMinWork :: rat where "kTreeParallelMinWork = 20000000"

definition top_tile_min_front :: "bool \<Rightarrow> int" where
  "top_tile_min_front deterministic = (if deterministic then kTopTileMinFront else kTopTileMinFrontParallel)"

definition tiles_front :: "bool \<Rightarrow> int \<Rightarrow> int \<Rightarrow> bool" where
  "tiles_front tiles_on front_rows min_rows \<longleftrightarrow> tiles_on \<and> front_rows \<ge> min_rows"

text \<open>\<open>front_row_ptr\<close>, \<open>snodes\<close> and \<open>postorder\<close> are the fields of \<open>AnalysisKeep\<close> that
  \<open>tree_view\<close> reads; \<open>front_size\<close> is its method.\<close>

definition front_size :: "int list \<Rightarrow> int \<Rightarrow> int option" where
  "front_size front_row_ptr s = do { hi \<leftarrow> vget front_row_ptr (s + 1); lo \<leftarrow> vget front_row_ptr s; Some (hi - lo) }"

definition tree_view ::
  "supernode list \<Rightarrow> int list \<Rightarrow> int list \<Rightarrow> bool \<Rightarrow> bool \<Rightarrow> int \<Rightarrow> tree_view option" where
  "tree_view snodes front_row_ptr postorder tiles_on blas_parallel tile_min = do {
     let ns = length snodes;
     (parent, work, split) \<leftarrow> for_range 0 (int ns) (\<lambda>s (parent, work, split). do {
       f \<leftarrow> front_size front_row_ptr s;
       sn \<leftarrow> vget snodes s;
       parent \<leftarrow> vset parent s (sn_parent sn);
       work \<leftarrow> vset work s (of_int f * of_int f * of_int (width sn));
       split \<leftarrow> vset split s (if tiles_front tiles_on f tile_min then kSplitTiles
                             else if blas_parallel \<and> f \<ge> kTopBlasMinFront then kSplitBlas else 0);
       Some (parent, work, split)
     }) (replicate ns 0, replicate ns 0, replicate ns 0);
     Some \<lparr>tv_postorder = postorder, tv_parent = parent, tv_work = work, tv_split = split\<rparr>
   }"

record subtree_sums =
  ss_cptr :: "int list"
  ss_cidx :: "int list"
  ss_work :: "rat list"
  ss_first :: "int list"
  ss_at :: "int list"
  ss_total :: rat

definition ss_children :: "int list \<Rightarrow> int list \<Rightarrow> int \<Rightarrow> int list option" where
  "ss_children cptr cidx s = do {
     lo \<leftarrow> vget cptr s;
     hi \<leftarrow> vget cptr (s + 1);
     if 0 \<le> lo \<and> lo \<le> hi \<and> hi \<le> int (length cidx) then Some (segment cidx lo hi) else None
   }"

definition children_lists :: "tree_view \<Rightarrow> (int list \<times> int list) option" where
  "children_lists t = do {
     let ns = length (tv_parent t);
     let np = int (length (tv_postorder t));
     cptr \<leftarrow> for_range 0 (int ns) (\<lambda>s cptr. do {
       p \<leftarrow> vget (tv_parent t) s;
       if p \<ge> 0 then bump cptr (p + 1) else Some cptr
     }) (replicate (ns + 1) 0);
     cptr \<leftarrow> for_range 0 (int ns) prefix_inplace cptr;
     size \<leftarrow> vget cptr (int ns);
     (_, cidx) \<leftarrow> for_range 0 np (\<lambda>j st. do {
       s \<leftarrow> vget (tv_postorder t) (np - 1 - j);
       p \<leftarrow> vget (tv_parent t) s;
       if p \<ge> 0 then place (\<lambda>_. p) (\<lambda>s. s) s st else Some st
     }) (take ns cptr, replicate (nat size) 0);
     Some (cptr, cidx)
   }"

definition sum_child :: "int \<Rightarrow> int \<Rightarrow> rat list \<times> int list \<Rightarrow> (rat list \<times> int list) option" where
  "sum_child si c = (\<lambda>(work, first). do {
     w \<leftarrow> vget work si;
     wc \<leftarrow> vget work c;
     work \<leftarrow> vset work si (w + wc);
     f \<leftarrow> vget first si;
     fc \<leftarrow> vget first c;
     first \<leftarrow> vset first si (min f fc);
     Some (work, first)
   })"

definition sum_node ::
  "tree_view \<Rightarrow> int list \<Rightarrow> int list \<Rightarrow> int \<Rightarrow> rat list \<times> int list \<times> int list \<Rightarrow> (rat list \<times> int list \<times> int list) option" where
  "sum_node t cptr cidx k = (\<lambda>(work, first, at'). do {
     si \<leftarrow> vget (tv_postorder t) k;
     w \<leftarrow> vget (tv_work t) si;
     work \<leftarrow> vset work si w;
     first \<leftarrow> vset first si k;
     at' \<leftarrow> vset at' si k;
     cs \<leftarrow> ss_children cptr cidx si;
     (work, first) \<leftarrow> forM cs (sum_child si) (work, first);
     Some (work, first, at')
   })"

definition subtree_sums :: "tree_view \<Rightarrow> subtree_sums option" where
  "subtree_sums t = do {
     let ns = length (tv_parent t);
     (cptr, cidx) \<leftarrow> children_lists t;
     (work, first, at') \<leftarrow> for_range 0 (int (length (tv_postorder t))) (sum_node t cptr cidx)
       (replicate ns 0, replicate ns 0, replicate ns 0);
     total \<leftarrow> for_range 0 (int ns) (\<lambda>s acc. do {
       p \<leftarrow> vget (tv_parent t) s;
       if p < 0 then do { w \<leftarrow> vget work s; Some (acc + w) } else Some acc
     }) 0;
     Some \<lparr>ss_cptr = cptr, ss_cidx = cidx, ss_work = work, ss_first = first, ss_at = at', ss_total = total\<rparr>
   }"

section \<open>Well-formed trees\<close>

definition tree_wf :: "tree_view \<Rightarrow> bool" where
  "tree_wf t \<longleftrightarrow> (let n = int (length (tv_parent t)) in
     ordered_forest (elt (tv_parent t)) n \<and> length (tv_work t) = length (tv_parent t)
     \<and> length (tv_split t) = length (tv_parent t)
     \<and> distinct (tv_postorder t) \<and> set (tv_postorder t) = {v. 0 \<le> v \<and> v < n}
     \<and> children_first (elt (tv_parent t)) (tv_postorder t))"

abbreviation tv_n :: "tree_view \<Rightarrow> int" where
  "tv_n t \<equiv> int (length (tv_parent t))"

abbreviation tv_P :: "tree_view \<Rightarrow> int \<Rightarrow> int" where
  "tv_P t \<equiv> elt (tv_parent t)"

lemma tree_wfD:
  assumes "tree_wf t"
  shows "ordered_forest (tv_P t) (tv_n t)" "length (tv_work t) = length (tv_parent t)"
    "length (tv_split t) = length (tv_parent t)" "distinct (tv_postorder t)"
    "set (tv_postorder t) = {v. 0 \<le> v \<and> v < tv_n t}" "children_first (tv_P t) (tv_postorder t)"
    "length (tv_postorder t) = length (tv_parent t)"
proof -
  show "ordered_forest (tv_P t) (tv_n t)" "length (tv_work t) = length (tv_parent t)"
    "length (tv_split t) = length (tv_parent t)" "children_first (tv_P t) (tv_postorder t)"
    using assms by (simp_all add: tree_wf_def Let_def)
  show d: "distinct (tv_postorder t)" and s: "set (tv_postorder t) = {v. 0 \<le> v \<and> v < tv_n t}"
    using assms by (simp_all add: tree_wf_def Let_def)
  have "{v. 0 \<le> v \<and> v < tv_n t} = {0..<tv_n t}" by auto
  then show "length (tv_postorder t) = length (tv_parent t)" using distinct_card [OF d] s by simp
qed

text \<open>The work of a subtree, and the position of a node in the postorder.\<close>

definition sub_work :: "tree_view \<Rightarrow> int \<Rightarrow> rat" where
  "sub_work t v = sum_list (map (elt (tv_work t)) (post (tv_P t) v))"

definition pos_of :: "int list \<Rightarrow> int \<Rightarrow> int" where
  "pos_of xs v = int (length (takeWhile (\<lambda>u. u \<noteq> v) xs))"

definition first_pos :: "tree_view \<Rightarrow> int \<Rightarrow> int" where
  "first_pos t v = Min (pos_of (tv_postorder t) ` set (post (tv_P t) v))"

definition tv_kids :: "tree_view \<Rightarrow> int \<Rightarrow> int list" where
  "tv_kids t p = filter (\<lambda>s. tv_P t s = p) (rev (tv_postorder t))"

lemma pos_of_nth: "distinct xs \<Longrightarrow> k < length xs \<Longrightarrow> pos_of xs (xs ! k) = int k"
  by (simp add: pos_of_def takeWhile_eq_take_P_nth [of k] nth_eq_iff_index_eq)

lemma sub_work_unfold:
  "sub_work t v = sum_list (map (sub_work t) (children_of (tv_P t) v)) + elt (tv_work t) v"
proof -
  have "sum_list (map W (concat (map f xs))) = sum_list (map (\<lambda>x. sum_list (map W (f x))) xs)"
    for W :: "int \<Rightarrow> rat" and f and xs :: "int list" by (induction xs) simp_all
  then show ?thesis unfolding sub_work_def by (subst post_unfold) simp
qed

lemma tv_kids_mset:
  assumes "tree_wf t" "0 \<le> p" "p < tv_n t"
  shows "mset (tv_kids t p) = mset (children_of (tv_P t) p)"
proof (rule iffD1 [OF set_eq_iff_mset_eq_distinct])
  note wf = tree_wfD [OF assms(1)]
  show "distinct (tv_kids t p)" using wf(4) by (simp add: tv_kids_def)
  show "distinct (children_of (tv_P t) p)" by (simp add: children_of_def)
  have "c < p" if "0 \<le> c" "c < tv_n t" "tv_P t c = p" for c
    using wf(1) that assms(2) by (auto simp: ordered_forest_def)
  then show "set (tv_kids t p) = set (children_of (tv_P t) p)"
    using wf(5) assms(3) by (auto simp: tv_kids_def children_of_iff)
qed

lemma tv_kids_iff:
  assumes "tree_wf t" "0 \<le> p" "p < tv_n t"
  shows "c \<in> set (tv_kids t p) \<longleftrightarrow> 0 \<le> c \<and> c < p \<and> tv_P t c = p"
  using mset_eq_setD [OF tv_kids_mset [OF assms]] by (auto simp: children_of_iff)

lemma sub_work_kids:
  assumes "tree_wf t" "0 \<le> p" "p < tv_n t"
  shows "sub_work t p = elt (tv_work t) p + sum_list (map (sub_work t) (tv_kids t p))"
proof -
  have "mset (map (sub_work t) (tv_kids t p)) = mset (map (sub_work t) (children_of (tv_P t) p))"
    using tv_kids_mset [OF assms] by simp
  then have "sum_list (map (sub_work t) (tv_kids t p)) = sum_list (map (sub_work t) (children_of (tv_P t) p))"
    by (metis sum_mset_sum_list)
  then show ?thesis by (subst sub_work_unfold) simp
qed

lemma first_pos_kids:
  assumes "tree_wf t" "0 \<le> p" "p < tv_n t"
  shows "first_pos t p = fold (\<lambda>c f. min f (first_pos t c)) (tv_kids t p) (pos_of (tv_postorder t) p)"
proof -
  let ?pos = "pos_of (tv_postorder t)" and ?Q = "\<lambda>c. set (post (tv_P t) c)"
  have fold: "fold (\<lambda>c f. min f (g c)) cs f = Min (insert f (g ` set cs))" for g :: "int \<Rightarrow> int" and cs f
  proof (induction cs arbitrary: f)
    case (Cons c cs)
    have "Min (insert (min f (g c)) (g ` set cs)) = Min (insert f (insert (g c) (g ` set cs)))"
      by (cases "set cs = {}") (simp_all add: min.assoc)
    then show ?case using Cons by simp
  qed simp
  have ne: "?Q c \<noteq> {}" for c by (subst post_unfold) simp
  have "?Q p = insert p (\<Union>c \<in> set (tv_kids t p). ?Q c)"
    using mset_eq_setD [OF tv_kids_mset [OF assms]] by (subst post_unfold) auto
  then have eq: "?pos ` ?Q p = insert (?pos p) (\<Union>c \<in> set (tv_kids t p). ?pos ` ?Q c)" by auto
  have "Min (insert x (\<Union>c \<in> S. ?pos ` ?Q c)) = Min (insert x ((\<lambda>c. Min (?pos ` ?Q c)) ` S))" if "finite S" for x S
    using that
  proof (induction S)
    case (insert c S)
    have fin: "finite (\<Union>c \<in> S. ?pos ` ?Q c)" using insert(1) by simp
    have "Min (insert x (?pos ` ?Q c \<union> (\<Union>c \<in> S. ?pos ` ?Q c))) =
        Min (?pos ` ?Q c \<union> insert x (\<Union>c \<in> S. ?pos ` ?Q c))" by simp
    also have "\<dots> = min (Min (?pos ` ?Q c)) (Min (insert x (\<Union>c \<in> S. ?pos ` ?Q c)))"
      using ne fin by (intro Min_Un) auto
    also have "\<dots> = min (Min (?pos ` ?Q c)) (Min (insert x ((\<lambda>c. Min (?pos ` ?Q c)) ` S)))"
      using insert.IH by simp
    also have "\<dots> = Min (insert (Min (?pos ` ?Q c)) (insert x ((\<lambda>c. Min (?pos ` ?Q c)) ` S)))"
      using insert(1) by simp
    also have "\<dots> = Min (insert x ((\<lambda>c. Min (?pos ` ?Q c)) ` insert c S))" by (simp add: insert_commute)
    finally show ?case by simp
  qed simp
  then have "Min (insert (?pos p) (\<Union>c \<in> set (tv_kids t p). ?pos ` ?Q c)) =
      Min (insert (?pos p) (first_pos t ` set (tv_kids t p)))" unfolding first_pos_def by simp
  then show ?thesis unfolding fold by (simp add: first_pos_def eq)
qed

section \<open>The children lists\<close>

lemma children_lists_ok:
  assumes "tree_wf t"
  shows "ok (children_lists t) (\<lambda>(cptr, cidx). \<forall>p. 0 \<le> p \<and> p < tv_n t \<longrightarrow> ss_children cptr cidx p = Some (tv_kids t p))"
proof -
  note wf = tree_wfD [OF assms]
  let ?n = "tv_n t" and ?P = "tv_P t" and ?po = "tv_postorder t"
  let ?xs = "filter (\<lambda>s. ?P s \<ge> 0) (rev ?po)" and ?ys = "filter (\<lambda>s. ?P s \<ge> 0) [0..?n - 1]"
  have keys: "\<forall>s \<in> set ?xs. 0 \<le> ?P s \<and> ?P s < ?n"
  proof
    fix s assume s: "s \<in> set ?xs"
    then have "s \<in> {v. 0 \<le> v \<and> v < ?n}" unfolding wf(5) [symmetric] by simp
    then have "?P s = -1 \<or> s < ?P s \<and> ?P s < ?n" using wf(1) unfolding ordered_forest_def by blast
    then show "0 \<le> ?P s \<and> ?P s < ?n" using s by auto
  qed
  have "set [0..?n - 1] = set ?po" unfolding wf(5) by auto
  then have m: "mset [0..?n - 1] = mset ?po" using wf(4) set_eq_iff_mset_eq_distinct [of "[0..?n - 1]" ?po] by simp
  then have same: "mset ?ys = mset ?xs" by (metis mset_filter mset_rev)
  then have cnt_same: "bcount ?P ?ys j = bcount ?P ?xs j" for j
    unfolding bcount_def by (metis mset_filter size_mset)
  have keys': "\<forall>s \<in> set ?ys. 0 \<le> ?P s \<and> ?P s < ?n" using keys mset_eq_setD [OF same] by metis
  have l1: "for_range 0 ?n (\<lambda>s cptr. do { p \<leftarrow> vget (tv_parent t) s; if p \<ge> 0 then bump cptr (p + 1) else Some cptr }) c =
      forM ?ys (\<lambda>s cptr. bump cptr (?P s + 1)) c" for c
  proof -
    have "for_range 0 ?n (\<lambda>s cptr. do { p \<leftarrow> vget (tv_parent t) s; if p \<ge> 0 then bump cptr (p + 1) else Some cptr }) c =
       forM [0..?n - 1] (\<lambda>s cptr. if \<not> ?P s \<ge> 0 then Some cptr else bump cptr (?P s + 1)) c"
      unfolding for_range_def by (rule forM_cong) (simp add: vget_at)
    then show ?thesis unfolding forM_skip by simp
  qed
  obtain cnt where cnt: "forM ?ys (\<lambda>s cnt. bump cnt (?P s + 1)) (replicate (nat (?n + 1)) 0) = Some cnt"
    "int (length cnt) = ?n + 1" "elt cnt 0 = 0" "\<And>j. 0 \<le> j \<Longrightarrow> j < ?n \<Longrightarrow> elt cnt (j + 1) = bcount ?P ?xs j"
    using ok_ex [OF count_shift_ok [OF keys']] unfolding cnt_same by auto
  obtain ptr where ptr: "for_range 0 ?n prefix_inplace cnt = Some ptr" "int (length ptr) = ?n + 1"
    "\<And>j. 0 \<le> j \<Longrightarrow> j \<le> ?n \<Longrightarrow> elt ptr j = bptr ?P ?xs j"
    using ok_ex [OF prefix_inplace_ok [OF _ cnt(2-4)]] by auto
  have tot: "vget ptr ?n = Some (int (length ?xs))" using ptr bptr_total [OF keys] by (simp add: vget_at)
  have l2: "for_range 0 (int (length ?po)) (\<lambda>j st. do {
       s \<leftarrow> vget ?po (int (length ?po) - 1 - j);
       p \<leftarrow> vget (tv_parent t) s;
       if p \<ge> 0 then place (\<lambda>_. p) (\<lambda>s. s) s st else Some st
     }) st = forM ?xs (place ?P (\<lambda>s. s)) st" for st
  proof -
    have "rev ?po = map (\<lambda>j. elt ?po (int (length ?po) - 1 - j)) [0..int (length ?po) - 1]"
      by (rule nth_equalityI) (auto simp: rev_nth elt_def intro!: arg_cong [where f = "nth ?po"])
    then have "forM (rev ?po) (\<lambda>s st. if \<not> ?P s \<ge> 0 then Some st else place ?P (\<lambda>s. s) s st) st =
      forM [0..int (length ?po) - 1] (\<lambda>j st. if \<not> ?P (elt ?po (int (length ?po) - 1 - j)) \<ge> 0 then Some st
         else place ?P (\<lambda>s. s) (elt ?po (int (length ?po) - 1 - j)) st) st"
      by (simp only: forM_map)
    moreover have "forM [0..int (length ?po) - 1] (\<lambda>j st. do {
       s \<leftarrow> vget ?po (int (length ?po) - 1 - j);
       p \<leftarrow> vget (tv_parent t) s;
       if p \<ge> 0 then place (\<lambda>_. p) (\<lambda>s. s) s st else Some st
     }) st = forM [0..int (length ?po) - 1] (\<lambda>j st. if \<not> ?P (elt ?po (int (length ?po) - 1 - j)) \<ge> 0 then Some st
         else place ?P (\<lambda>s. s) (elt ?po (int (length ?po) - 1 - j)) st) st"
    proof (rule forM_cong)
      fix j st assume "j \<in> set [0..int (length ?po) - 1]"
      then have j: "0 \<le> int (length ?po) - 1 - j" "int (length ?po) - 1 - j < int (length ?po)" by auto
      then have "elt ?po (int (length ?po) - 1 - j) \<in> set ?po" by (simp add: elt_def)
      then have "0 \<le> elt ?po (int (length ?po) - 1 - j)" "elt ?po (int (length ?po) - 1 - j) < ?n" using wf(5) by auto
      then show "do {
         s \<leftarrow> vget ?po (int (length ?po) - 1 - j);
         p \<leftarrow> vget (tv_parent t) s;
         if p \<ge> 0 then place (\<lambda>_. p) (\<lambda>s. s) s st else Some st
       } = (if \<not> ?P (elt ?po (int (length ?po) - 1 - j)) \<ge> 0 then Some st
         else place ?P (\<lambda>s. s) (elt ?po (int (length ?po) - 1 - j)) st)"
        using j by (simp add: vget_at place_def)
    qed
    ultimately show ?thesis unfolding for_range_def forM_skip by simp
  qed
  obtain cur idx where pl: "forM ?xs (place ?P (\<lambda>s. s)) (take (length (tv_parent t)) ptr, replicate (nat (int (length ?xs))) 0) = Some (cur, idx)"
    "idx = map (\<lambda>s. s) (concat (buckets ?P ?n ?xs))"
  proof -
    let ?cur = "take (nat ?n) ptr" and ?out = "replicate (nat (int (length ?xs))) 0"
    have c: "?n \<le> int (length ?cur)" "\<And>j. 0 \<le> j \<Longrightarrow> j < ?n \<Longrightarrow> elt ?cur j = bptr ?P ?xs j"
      using take_xadj [OF ptr(2)] ptr(3) by simp_all
    have "ok (forM ?xs (place ?P (\<lambda>s. s)) (?cur, ?out)) (\<lambda>(cur', out'). length cur' = length ?cur
      \<and> (\<forall>j. 0 \<le> j \<and> j < ?n \<longrightarrow> elt cur' j = bptr ?P ?xs (j + 1)) \<and> out' = map (\<lambda>s. s) (concat (buckets ?P ?n ?xs)))"
      by (rule place_ok [OF keys _ c]) simp_all
    from ok_ex [OF this] show thesis using that by auto
  qed
  have "ss_children ptr idx p = Some (tv_kids t p)" if p: "0 \<le> p" "p < ?n" for p
  proof -
    have "filter (\<lambda>s. ?P s = p) ?xs = tv_kids t p" unfolding tv_kids_def filter_filter by (rule filter_cong) (use p in auto)
    then show ?thesis
      using bucket_segment(1) [OF keys p, of "\<lambda>s. s"] bucket_segment(2,3) [OF keys p] bucket_segment(4) [OF keys p, of "\<lambda>s. s"]
        ptr(2,3) p pl(2) by (simp add: ss_children_def vget_at)
  qed
  moreover have "nat (?n + 1) = length (tv_parent t) + 1" by simp
  ultimately show ?thesis
    unfolding children_lists_def Let_def l1 l2 using cnt(1) ptr(1) tot pl(1) by simp
qed

end
