(* ===== verification/PostIntervals.thy ===== *)
theory PostIntervals
  imports EtreePost
begin

text \<open>
  A postorder numbers every subtree consecutively. \<open>intervals P n ps f\<close> is that fact for the positions \<open>ps\<close>: the subtree of
  \<open>v\<close> holds exactly the nodes at the positions from \<open>f v\<close> to \<open>ps v\<close>. Sums over subtrees, and the accumulation loop that
  computes them, are here too.
\<close>

definition pos :: "'a list \<Rightarrow> 'a \<Rightarrow> int" where
  "pos xs v = int (length (takeWhile (\<lambda>u. u \<noteq> v) xs))"

lemma pos_append: "pos (xs @ ys) v = (if v \<in> set xs then pos xs v else int (length xs) + pos ys v)"
  by (induction xs) (auto simp: pos_def)

lemma pos_less: "v \<in> set xs \<longleftrightarrow> pos xs v < int (length xs)"
  by (induction xs) (auto simp: pos_def)

lemma pos_nonneg: "0 \<le> pos xs v"
  by (simp add: pos_def)

lemma pos_elt: "v \<in> set xs \<Longrightarrow> elt xs (pos xs v) = v"
  by (induction xs) (auto simp: pos_def elt_def)

lemma elt_pos: "distinct xs \<Longrightarrow> 0 \<le> k \<Longrightarrow> k < int (length xs) \<Longrightarrow> pos xs (elt xs k) = k"
proof (induction xs arbitrary: k)
  case (Cons x xs)
  show ?case
  proof (cases "k = 0")
    case False
    have "elt xs (k - 1) \<in> set xs" using Cons.prems False by (simp add: elt_def nat_less_iff)
    moreover have "elt (x # xs) k = elt xs (k - 1)" using Cons.prems False by (simp add: elt_def nth_Cons' nat_diff_distrib)
    moreover have "pos xs (elt xs (k - 1)) = k - 1" using Cons False by simp
    ultimately show ?thesis using Cons.prems by (auto simp: pos_def)
  qed (simp add: pos_def elt_def)
qed simp

lemma pos_last: "v \<notin> set xs \<Longrightarrow> pos (xs @ [v]) v = int (length xs)"
  by (simp add: pos_append) (simp add: pos_def)

section \<open>Subtrees are consecutive\<close>

definition intervals :: "(int \<Rightarrow> int) \<Rightarrow> int \<Rightarrow> (int \<Rightarrow> int) \<Rightarrow> (int \<Rightarrow> int) \<Rightarrow> bool" where
  "intervals P n ps f \<longleftrightarrow> (\<forall>v u. 0 \<le> v \<and> v < n \<and> 0 \<le> u \<and> u < n \<longrightarrow> (below P v u \<longleftrightarrow> f v \<le> ps u \<and> ps u \<le> ps v))
     \<and> (\<forall>v. 0 \<le> v \<and> v < n \<longrightarrow> 0 \<le> f v \<and> f v \<le> ps v \<and> ps v < n)
     \<and> (\<forall>k. 0 \<le> k \<and> k < n \<longrightarrow> (\<exists>v. 0 \<le> v \<and> v < n \<and> ps v = k))
     \<and> (\<forall>v u. 0 \<le> v \<and> v < n \<and> 0 \<le> u \<and> u < n \<and> ps u = ps v \<longrightarrow> u = v)"

lemma post_infix:
  assumes f: "ordered_forest P n" and "0 \<le> v" "v < n"
  shows "\<exists>a b. full_post P n = a @ post P v @ b"
  using assms(2,3)
proof (induction "nat (n - v)" arbitrary: v rule: less_induct)
  case less
  show ?case
  proof (cases "P v = -1")
    case True
    then have "v \<in> set (roots_of P n)" using less.prems by (simp add: roots_of_def)
    then obtain r1 r2 where "roots_of P n = r1 @ v # r2" by (meson split_list)
    then show ?thesis by (auto simp: full_post_def)
  next
    case False
    then have p: "v < P v" "P v < n" using f less.prems by (auto simp: ordered_forest_def)
    then obtain a b where ab: "full_post P n = a @ post P (P v) @ b" using less.hyps [of "P v"] less.prems by auto
    have "v \<in> set (children_of P (P v))" using less.prems p by (simp add: children_of_iff)
    then obtain c1 c2 where c: "children_of P (P v) = c1 @ v # c2" by (meson split_list)
    have "post P (P v) = concat (map (post P) c1) @ post P v @ concat (map (post P) c2) @ [P v]"
      unfolding post_unfold [of P "P v"] c by simp
    then have "full_post P n = (a @ concat (map (post P) c1)) @ post P v @ (concat (map (post P) c2) @ P v # b)" using ab by simp
    then show ?thesis by blast
  qed
qed

lemma post_snoc: "\<exists>xs. post P v = xs @ [v]"
  unfolding post_unfold [of P v] by blast

lemma full_post_intervals:
  assumes fo: "ordered_forest P n" and n: "0 \<le> n"
  shows "\<exists>f. intervals P n (pos (full_post P n)) f"
proof -
  let ?po = "full_post P n"
  note fp = full_post_set [OF fo]
  have len: "int (length ?po) = n" using fp(3) n by simp
  define f where "f v = pos ?po v - int (length (post P v)) + 1" for v
  have seg: "(below P v u \<longleftrightarrow> f v \<le> pos ?po u \<and> pos ?po u \<le> pos ?po v) \<and> 0 \<le> f v \<and> f v \<le> pos ?po v"
    if v: "0 \<le> v" "v < n" and u: "0 \<le> u" "u < n" for v u
  proof -
    obtain a b where ab: "?po = a @ post P v @ b" using post_infix [OF fo v] by blast
    obtain xs where xs: "post P v = xs @ [v]" using post_snoc by blast
    have d: "distinct (a @ (xs @ [v]) @ b)" using fp(2) unfolding ab xs .
    have pv: "pos ?po v = int (length a) + int (length xs)"
      unfolding ab xs using d by (simp add: pos_append) (simp add: pos_def)
    then have fv: "f v = int (length a)" unfolding f_def xs by simp
    have upo: "u \<in> set (a @ (xs @ [v]) @ b)" using fp(1) u unfolding ab xs by auto
    have "below P v u \<longleftrightarrow> u \<in> set (xs @ [v])" using set_post [of P v] unfolding xs by auto
    also have "\<dots> \<longleftrightarrow> f v \<le> pos ?po u \<and> pos ?po u \<le> pos ?po v"
    proof -
      consider "u \<in> set a" | "u \<in> set (xs @ [v])" "u \<notin> set a" | "u \<in> set b" "u \<notin> set a" "u \<notin> set (xs @ [v])"
        using upo by auto
      then show ?thesis
      proof cases
        case 1
        then have "pos ?po u < int (length a)" unfolding ab by (simp add: pos_append pos_less [symmetric])
        then show ?thesis using 1 d fv by auto
      next
        case 2
        then have "pos ?po u = int (length a) + pos (xs @ [v]) u" unfolding ab xs
          using pos_append [of a "(xs @ [v]) @ b" u] pos_append [of "xs @ [v]" b u] by (simp only: if_False if_True)
        moreover have "pos (xs @ [v]) u < int (length (xs @ [v]))" using 2(1) by (simp only: pos_less [symmetric])
        ultimately show ?thesis using 2 fv pv pos_nonneg [of "xs @ [v]" u] by simp
      next
        case 3
        then have "pos ?po u = int (length a) + (int (length (xs @ [v])) + pos b u)" unfolding ab xs
          using pos_append [of a "(xs @ [v]) @ b" u] pos_append [of "xs @ [v]" b u] by (simp only: if_False)
        then show ?thesis using 3 fv pv pos_nonneg [of b u] by simp
      qed
    qed
    finally show ?thesis using fv pv by simp
  qed
  have "intervals P n (pos ?po) f"
    unfolding intervals_def
  proof (intro conjI allI impI)
    fix v assume v: "0 \<le> v \<and> v < n"
    then show "0 \<le> f v" "f v \<le> pos ?po v" using seg [of v v] by auto
    have "v \<in> set ?po" using fp(1) v by simp
    then show "pos ?po v < n" using pos_less [of v ?po] len by simp
  next
    fix k assume k: "0 \<le> k \<and> k < n"
    then have "elt ?po k \<in> set ?po" using len by (simp add: elt_def nat_less_iff)
    then have "0 \<le> elt ?po k \<and> elt ?po k < n" unfolding fp(1) by simp
    moreover have "pos ?po (elt ?po k) = k" by (rule elt_pos [OF fp(2)]) (use k len in simp_all)
    ultimately show "\<exists>v. 0 \<le> v \<and> v < n \<and> pos ?po v = k" by blast
  next
    fix v u assume a: "0 \<le> v \<and> v < n \<and> 0 \<le> u \<and> u < n \<and> pos ?po u = pos ?po v"
    have "u \<in> set ?po" "v \<in> set ?po" unfolding fp(1) using a by simp_all
    then have "elt ?po (pos ?po u) = u" "elt ?po (pos ?po v) = v" by (simp_all only: pos_elt)
    moreover have "pos ?po u = pos ?po v" using a by blast
    ultimately show "u = v" by metis
  next
    fix v u assume a: "0 \<le> v \<and> v < n \<and> 0 \<le> u \<and> u < n"
    show "below P v u \<longleftrightarrow> f v \<le> pos ?po u \<and> pos ?po u \<le> pos ?po v" using seg [of v u] a by blast
  qed
  then show ?thesis by blast
qed

lemma intervalsD:
  assumes "intervals P n ps f"
  shows "0 \<le> v \<Longrightarrow> v < n \<Longrightarrow> 0 \<le> u \<Longrightarrow> u < n \<Longrightarrow> below P v u \<longleftrightarrow> f v \<le> ps u \<and> ps u \<le> ps v"
    "0 \<le> v \<Longrightarrow> v < n \<Longrightarrow> 0 \<le> f v \<and> f v \<le> ps v \<and> ps v < n"
    "0 \<le> k \<Longrightarrow> k < n \<Longrightarrow> \<exists>v. 0 \<le> v \<and> v < n \<and> ps v = k"
    "0 \<le> v \<Longrightarrow> v < n \<Longrightarrow> 0 \<le> u \<Longrightarrow> u < n \<Longrightarrow> ps u = ps v \<Longrightarrow> u = v"
  using assms unfolding intervals_def by blast+

lemma intervals_nested:
  assumes i: "intervals P n ps f" and "0 \<le> v" "v < n" "0 \<le> u" "u < n" "below P v u"
  shows "f v \<le> f u"
proof -
  have fu: "0 \<le> f u" "f u \<le> ps u" "ps u < n" using intervalsD(2) [OF i, of u] assms by auto
  obtain w where w: "0 \<le> w" "w < n" "ps w = f u" using intervalsD(3) [OF i, of "f u"] fu by auto
  then have "below P u w" using intervalsD(1) [OF i, of u w] assms fu by simp
  then have "below P v w" using below_trans assms(6) by blast
  then show ?thesis using intervalsD(1) [OF i, of v w] assms w by simp
qed

lemma below_range: "ordered_forest P n \<Longrightarrow> 0 \<le> v \<Longrightarrow> v < n \<Longrightarrow> below P v u \<Longrightarrow> 0 \<le> u \<and> u < n"
proof -
  assume "ordered_forest P n" "0 \<le> v" "v < n" "below P v u"
  moreover have "below P v u \<Longrightarrow> 0 \<le> v \<Longrightarrow> 0 \<le> u" for v u by (induction rule: below.induct) simp_all
  ultimately show ?thesis using below_le by force
qed

lemma below_up:
  assumes "below P v u" "v \<noteq> u"
  shows "below P v (P u) \<and> 0 \<le> u \<and> u < P u"
  using assms by cases simp_all

section \<open>Sums over subtrees\<close>

definition wsum :: "(int \<Rightarrow> int) \<Rightarrow> (int \<Rightarrow> int) \<Rightarrow> int \<Rightarrow> int" where
  "wsum P d v = sum_list (map d (post P v))"

lemma wsum_unfold: "wsum P d v = (\<Sum>c \<leftarrow> children_of P v. wsum P d c) + d v"
proof -
  have "sum_list (map d (concat (map f cs))) = (\<Sum>c \<leftarrow> cs. sum_list (map d (f c)))" for f and cs :: "int list"
    by (induction cs) simp_all
  then show ?thesis unfolding wsum_def post_unfold [of P v] by simp
qed

lemma wsum_sum: "wsum P d v = (\<Sum>u | below P v u. d u)"
  unfolding wsum_def using sum_list_distinct_conv_sum_set [OF distinct_post] by (simp add: set_post)

lemma finite_below: "finite {u. below P v u}"
  using set_post [of P v] by (metis List.finite_set)

lemma wsum_cong: "(\<And>u. below P v u \<Longrightarrow> d u = e u) \<Longrightarrow> wsum P d v = wsum P e v"
  unfolding wsum_sum by (rule sum.cong) auto

lemma wsum_add: "wsum P (\<lambda>u. d u + (if u = j then x else 0)) v = wsum P d v + (if below P v j then x else 0)"
proof -
  have "(\<Sum>u | below P v u. d u + (if u = j then x else 0)) = (\<Sum>u | below P v u. d u) + (\<Sum>u | below P v u. if u = j then x else 0)"
    by (rule sum.distrib)
  also have "(\<Sum>u | below P v u. if u = j then x else 0) = (if below P v j then x else 0)"
    using finite_below [of P v] by (simp add: sum.delta)
  finally show ?thesis by (simp add: wsum_sum)
qed

lemma wsum_indicator: "wsum P (\<lambda>u. if Q u then 1 else 0) v = int (card {u. below P v u \<and> Q u})"
proof -
  have "(\<Sum>u | below P v u. if Q u then 1 else 0) = (\<Sum>u | below P v u \<and> Q u. 1 :: int)"
    using finite_below [of P v] by (simp add: sum.inter_filter [symmetric])
  then show ?thesis by (simp add: wsum_sum)
qed


lemma wsum_children: "wsum P d v = (\<Sum>c | 0 \<le> c \<and> c < v \<and> P c = v. wsum P d c) + d v"
proof -
  have "distinct (children_of P v)" by (simp add: children_of_def)
  then have "(\<Sum>c \<leftarrow> children_of P v. wsum P d c) = (\<Sum>c \<in> set (children_of P v). wsum P d c)" by (rule sum_list_distinct_conv_sum_set)
  moreover have "set (children_of P v) = {c. 0 \<le> c \<and> c < v \<and> P c = v}" by (auto simp: children_of_def)
  ultimately show ?thesis using wsum_unfold [of P d v] by simp
qed

text \<open>The loop that adds every node's value to its parent's computes the sums over the subtrees.\<close>

definition acc_inv :: "int \<Rightarrow> (int \<Rightarrow> int) \<Rightarrow> (int \<Rightarrow> int) \<Rightarrow> int \<Rightarrow> int list \<Rightarrow> bool" where
  "acc_inv n P d j cur \<longleftrightarrow> int (length cur) = n
     \<and> (\<forall>v. 0 \<le> v \<and> v < n \<longrightarrow> elt cur v = (\<Sum>c | (0 \<le> c \<and> c < v \<and> P c = v) \<and> c < j. wsum P d c) + d v)"

lemma acc_step:
  assumes P: "P j = -1 \<or> j < P j \<and> P j < n" and j: "0 \<le> j" "j < n" and i: "acc_inv n P d j cur"
  shows "elt cur j = wsum P d j" "P j = -1 \<Longrightarrow> acc_inv n P d (j + 1) cur"
    "P j \<noteq> -1 \<Longrightarrow> acc_inv n P d (j + 1) (cur[nat (P j) := elt cur (P j) + elt cur j])"
proof -
  have l: "int (length cur) = n" and e: "\<And>v. 0 \<le> v \<Longrightarrow> v < n \<Longrightarrow> elt cur v = (\<Sum>c | (0 \<le> c \<and> c < v \<and> P c = v) \<and> c < j. wsum P d c) + d v"
    using i unfolding acc_inv_def by blast+
  have "{c. (0 \<le> c \<and> c < j \<and> P c = j) \<and> c < j} = {c. 0 \<le> c \<and> c < j \<and> P c = j}" by auto
  then show w: "elt cur j = wsum P d j" using e [OF j] wsum_children [of P d j] by simp
  have same: "{c. (0 \<le> c \<and> c < v \<and> P c = v) \<and> c < j + 1} = {c. (0 \<le> c \<and> c < v \<and> P c = v) \<and> c < j}" if "v \<noteq> P j" for v
  proof (intro Collect_cong conj_cong HOL.refl)
    fix c assume c: "0 \<le> c \<and> c < v \<and> P c = v"
    then have "c \<noteq> j" using that by auto
    then show "c < j + 1 \<longleftrightarrow> c < j" by auto
  qed
  show "acc_inv n P d (j + 1) cur" if r: "P j = -1"
    unfolding acc_inv_def
  proof (intro conjI allI impI)
    fix v assume v: "0 \<le> v \<and> v < n"
    then have "v \<noteq> P j" using r by simp
    then show "elt cur v = (\<Sum>c | (0 \<le> c \<and> c < v \<and> P c = v) \<and> c < j + 1. wsum P d c) + d v"
      using same [of v] e [of v] v by simp
  qed (rule l)
  show "acc_inv n P d (j + 1) (cur[nat (P j) := elt cur (P j) + elt cur j])" if r: "P j \<noteq> -1"
    unfolding acc_inv_def
  proof (intro conjI allI impI)
    have p: "0 \<le> P j" "j < P j" "P j < n" using P r j by auto
    fix v assume v: "0 \<le> v \<and> v < n"
    show "elt (cur[nat (P j) := elt cur (P j) + elt cur j]) v = (\<Sum>c | (0 \<le> c \<and> c < v \<and> P c = v) \<and> c < j + 1. wsum P d c) + d v"
    proof (cases "v = P j")
      case True
      have "{c. (0 \<le> c \<and> c < v \<and> P c = v) \<and> c < j + 1} = insert j {c. (0 \<le> c \<and> c < v \<and> P c = v) \<and> c < j}"
      proof (intro set_eqI)
        fix c show "c \<in> {c. (0 \<le> c \<and> c < v \<and> P c = v) \<and> c < j + 1} \<longleftrightarrow> c \<in> insert j {c. (0 \<le> c \<and> c < v \<and> P c = v) \<and> c < j}"
          using True p j by (cases "c = j") auto
      qed
      moreover have "finite {c. (0 \<le> c \<and> c < v \<and> P c = v) \<and> c < j}" by (rule finite_subset [of _ "{0..<v}"]) auto
      ultimately show ?thesis using True p l e [of "P j"] w at_update [of v "P j" cur] by simp
    next
      case False
      then show ?thesis using same [OF False] e [of v] v p l at_update [of v "P j" cur] by simp
    qed
  qed (use l in simp)
qed

end
