(* ===== verification/SubtreeSums.thy ===== *)
theory SubtreeSums
  imports TreeView PostIntervals
begin

text \<open>
  \<open>subtree_sums\<close> computes the work and the first postorder position of every subtree, and the
  work of the whole tree.
\<close>

lemma sum_children_ok:
  assumes "\<And>c. c \<in> set cs \<Longrightarrow> 0 \<le> c \<and> c < int (length work) \<and> c \<noteq> s" "length first = length work"
    "0 \<le> s" "s < int (length work)"
  shows "forM cs (sum_child s) (work, first) =
    Some (work[nat s := elt work s + sum_list (map (elt work) cs)],
          first[nat s := fold (\<lambda>c f. min f (elt first c)) cs (elt first s)])"
  using assms
proof (induction cs arbitrary: work first)
  case Nil
  then show ?case by (simp add: elt_def)
next
  case (Cons c cs)
  let ?w = "work[nat s := elt work s + elt work c]" and ?f = "first[nat s := min (elt first s) (elt first c)]"
  have c: "0 \<le> c" "c < int (length work)" "c \<noteq> s" using Cons.prems(1) [of c] by simp_all
  have step: "sum_child s c (work, first) = Some (?w, ?f)"
    using c Cons.prems(2-4) by (simp add: sum_child_def vget_at vset_def)
  have ew: "elt ?w d = elt work d" "elt ?f d = elt first d" if "d \<in> set cs" for d
    using Cons.prems(1) [of d] that Cons.prems(2-4) by (simp_all add: at_update)
  have "sum_list (map (elt ?w) cs) = sum_list (map (elt work) cs)"
    by (rule arg_cong [where f = sum_list]) (simp add: ew(1))
  moreover have "fold (\<lambda>c f. min f (elt ?f c)) cs x = fold (\<lambda>c f. min f (elt first c)) cs x" for x
    by (rule fold_cong) (simp_all add: ew(2))
  moreover have "elt ?w s = elt work s + elt work c" "elt ?f s = min (elt first s) (elt first c)"
    using Cons.prems(2-4) by (simp_all add: at_update)
  moreover have "forM cs (sum_child s) (?w, ?f) =
      Some (?w[nat s := elt ?w s + sum_list (map (elt ?w) cs)], ?f[nat s := fold (\<lambda>c f. min f (elt ?f c)) cs (elt ?f s)])"
    by (rule Cons.IH) (use Cons.prems in auto)
  ultimately show ?case by (simp add: step add.assoc)
qed

definition sums_inv :: "tree_view \<Rightarrow> int \<Rightarrow> rat list \<times> int list \<times> int list \<Rightarrow> bool" where
  "sums_inv t k = (\<lambda>(work, first, at'). int (length work) = tv_n t \<and> int (length first) = tv_n t \<and> int (length at') = tv_n t
     \<and> (\<forall>v \<in> set (take (nat k) (tv_postorder t)). elt work v = sub_work t v \<and> elt first v = first_pos t v
          \<and> elt at' v = pos_of (tv_postorder t) v))"

lemma sum_node_ok:
  assumes wf: "tree_wf t" and ch: "\<And>p. 0 \<le> p \<Longrightarrow> p < tv_n t \<Longrightarrow> ss_children cptr cidx p = Some (tv_kids t p)"
    and k: "0 \<le> k" "k < int (length (tv_postorder t))" and inv: "sums_inv t k s"
  shows "ok (sum_node t cptr cidx k s) (sums_inv t (k + 1))"
proof -
  note wfs = tree_wfD [OF wf]
  obtain work first at' where s: "s = (work, first, at')" by (cases s)
  let ?po = "tv_postorder t" and ?v = "tv_postorder t ! nat k"
  have kl: "nat k < length ?po" using k by linarith
  have "?v \<in> set ?po" using kl by simp
  then have v: "0 \<le> ?v" "?v < tv_n t" unfolding wfs(5) by simp_all
  have I: "int (length work) = tv_n t" "int (length first) = tv_n t" "int (length at') = tv_n t"
    "\<And>u. u \<in> set (take (nat k) ?po) \<Longrightarrow> elt work u = sub_work t u \<and> elt first u = first_pos t u \<and> elt at' u = pos_of ?po u"
    using inv s by (simp_all add: sums_inv_def)
  have split: "?po = take (nat k) ?po @ ?v # drop (Suc (nat k)) ?po" by (rule id_take_nth_drop [OF kl])
  have fresh: "?v \<notin> set (take (nat k) ?po)" using wfs(4) split by (metis distinct_append IntI list.set_intros(1) empty_iff)
  have kid: "c \<in> set (take (nat k) ?po) \<and> 0 \<le> c \<and> c < tv_n t \<and> c \<noteq> ?v" if "c \<in> set (tv_kids t ?v)" for c
  proof -
    have c: "0 \<le> c" "c < ?v" "tv_P t c = ?v" using that tv_kids_iff [OF wf v] by simp_all
    then show ?thesis using wfs(6) split v unfolding children_first_def by fastforce
  qed
  let ?w = "work[nat ?v := elt (tv_work t) ?v]" and ?f = "first[nat ?v := k]" and ?a = "at'[nat ?v := k]"
  have "forM (tv_kids t ?v) (sum_child ?v) (?w, ?f) =
    Some (?w[nat ?v := elt ?w ?v + sum_list (map (elt ?w) (tv_kids t ?v))],
          ?f[nat ?v := fold (\<lambda>c f. min f (elt ?f c)) (tv_kids t ?v) (elt ?f ?v)])"
    by (rule sum_children_ok) (use kid v I in auto)
  moreover have "elt ?w ?v + sum_list (map (elt ?w) (tv_kids t ?v)) = sub_work t ?v"
  proof -
    have "elt ?w c = sub_work t c" if "c \<in> set (tv_kids t ?v)" for c
      using kid [OF that] I v by (simp add: at_update)
    then have "sum_list (map (elt ?w) (tv_kids t ?v)) = sum_list (map (sub_work t) (tv_kids t ?v))"
      by (intro arg_cong [where f = sum_list]) simp
    moreover have "elt ?w ?v = elt (tv_work t) ?v" using v I(1) by (simp add: at_update)
    ultimately show ?thesis using sub_work_kids [OF wf v] by simp
  qed
  moreover have "fold (\<lambda>c f. min f (elt ?f c)) (tv_kids t ?v) (elt ?f ?v) = first_pos t ?v"
  proof -
    have "fold (\<lambda>c f. min f (elt ?f c)) (tv_kids t ?v) x = fold (\<lambda>c f. min f (first_pos t c)) (tv_kids t ?v) x" for x
    proof (rule fold_cong [OF HOL.refl HOL.refl])
      fix c assume "c \<in> set (tv_kids t ?v)"
      then have "elt ?f c = first_pos t c" using kid I v by (simp add: at_update)
      then show "(\<lambda>f. min f (elt ?f c)) = (\<lambda>f. min f (first_pos t c))" by simp
    qed
    moreover have "elt ?f ?v = pos_of ?po ?v" using v I(2) k pos_of_nth [OF wfs(4) kl] by (simp add: at_update)
    ultimately show ?thesis using first_pos_kids [OF wf v] by simp
  qed
  ultimately have kids: "forM (tv_kids t ?v) (sum_child ?v) (?w, ?f) = Some (work[nat ?v := sub_work t ?v], first[nat ?v := first_pos t ?v])"
    by simp
  have get: "vget ?po k = Some ?v" "vget (tv_work t) ?v = Some (elt (tv_work t) ?v)"
    using k v wfs(2) by (simp_all add: vget_def elt_def)
  have set: "vset work ?v (elt (tv_work t) ?v) = Some ?w" "vset first ?v k = Some ?f" "vset at' ?v k = Some ?a"
    using v I by (simp_all add: vset_def)
  have run: "sum_node t cptr cidx k s = Some (work[nat ?v := sub_work t ?v], first[nat ?v := first_pos t ?v], ?a)"
    unfolding sum_node_def s prod.case get bind.simps set ch [OF v] kids ..
  have "set (take (nat (k + 1)) ?po) = insert ?v (set (take (nat k) ?po))"
    using kl k(1) by (simp add: nat_add_distrib take_Suc_conv_app_nth)
  moreover have "elt (work[nat ?v := sub_work t ?v]) u = (if u = ?v then sub_work t ?v else elt work u)"
    "elt (first[nat ?v := first_pos t ?v]) u = (if u = ?v then first_pos t ?v else elt first u)"
    "elt ?a u = (if u = ?v then k else elt at' u)" if "0 \<le> u" for u
    using v I that by (simp_all add: at_update)
  moreover have "u \<in> set (take (nat k) ?po) \<Longrightarrow> 0 \<le> u" for u using wfs(5) set_take_subset [of "nat k" ?po] by auto
  moreover have "pos_of ?po ?v = k" using pos_of_nth [OF wfs(4) kl] k by simp
  ultimately show ?thesis unfolding run ok_Some sums_inv_def prod.case using I v by auto
qed

definition sums_ok :: "tree_view \<Rightarrow> subtree_sums \<Rightarrow> bool" where
  "sums_ok t u \<longleftrightarrow> int (length (ss_work u)) = tv_n t \<and> int (length (ss_first u)) = tv_n t \<and> int (length (ss_at u)) = tv_n t
     \<and> (\<forall>v. 0 \<le> v \<and> v < tv_n t \<longrightarrow> elt (ss_work u) v = sub_work t v \<and> elt (ss_first u) v = first_pos t v
          \<and> elt (ss_at u) v = pos_of (tv_postorder t) v \<and> ss_children (ss_cptr u) (ss_cidx u) v = Some (tv_kids t v))
     \<and> ss_total u = sum_list (tv_work t)"

lemma sum_list_mset: "mset xs = mset ys \<Longrightarrow> sum_list xs = sum_list (ys :: 'a::comm_monoid_add list)"
  by (metis sum_mset_sum_list)

lemma elt_upto: "map (elt xs) [0..int (length xs) - 1] = xs"
  by (rule nth_equalityI) (simp_all add: elt_def)

lemma sub_work_roots:
  assumes "tree_wf t"
  shows "sum_list (map (sub_work t) (roots_of (tv_P t) (tv_n t))) = sum_list (tv_work t)"
proof -
  note wf = tree_wfD [OF assms]
  have sum: "sum_list (map (sub_work t) rs) = sum_list (map (elt (tv_work t)) (concat (map (post (tv_P t)) rs)))" for rs
    by (induction rs) (simp_all add: sub_work_def)
  have "set (full_post (tv_P t) (tv_n t)) = set [0..tv_n t - 1]" unfolding full_post_set(1) [OF wf(1)] by auto
  then have "mset (full_post (tv_P t) (tv_n t)) = mset [0..tv_n t - 1]"
    using full_post_set(2) [OF wf(1)] set_eq_iff_mset_eq_distinct [of "full_post (tv_P t) (tv_n t)" "[0..tv_n t - 1]"] by simp
  then have "mset (map (elt (tv_work t)) (full_post (tv_P t) (tv_n t))) = mset (map (elt (tv_work t)) [0..tv_n t - 1])"
    by simp
  then show ?thesis unfolding sum full_post_def [symmetric] using sum_list_mset elt_upto [of "tv_work t"] wf(2) by metis
qed

lemma total_ok:
  assumes wf: "tree_wf t" and work: "int (length work) = tv_n t" "\<And>v. 0 \<le> v \<Longrightarrow> v < tv_n t \<Longrightarrow> elt work v = sub_work t v"
  shows "for_range 0 (tv_n t) (\<lambda>s acc. do {
       p \<leftarrow> vget (tv_parent t) s;
       if p < 0 then do { w \<leftarrow> vget work s; Some (acc + w) } else Some acc
     }) 0 = Some (sum_list (tv_work t))"
proof -
  have root: "tv_P t s < 0 \<longleftrightarrow> tv_P t s = -1" if "0 \<le> s" "s < tv_n t" for s
  proof -
    have "tv_P t s = -1 \<or> s < tv_P t s" using tree_wfD(1) [OF wf] that unfolding ordered_forest_def by blast
    then show ?thesis using that(1) by auto
  qed
  have "for_range 0 (tv_n t) (\<lambda>s acc. do {
       p \<leftarrow> vget (tv_parent t) s;
       if p < 0 then do { w \<leftarrow> vget work s; Some (acc + w) } else Some acc
     }) 0 = forM [0..tv_n t - 1] (\<lambda>s acc. if \<not> tv_P t s = -1 then Some acc else Some (acc + sub_work t s)) 0"
    unfolding for_range_def
  proof (rule forM_cong)
    fix s acc assume "s \<in> set [0..tv_n t - 1]"
    then have s: "0 \<le> s" "s < tv_n t" by simp_all
    have "vget (tv_parent t) s = Some (tv_P t s)" "vget work s = Some (sub_work t s)"
      using s work(1) work(2) [OF s] by (simp_all add: vget_at)
    then show "do {
       p \<leftarrow> vget (tv_parent t) s;
       if p < 0 then do { w \<leftarrow> vget work s; Some (acc + w) } else Some acc
     } = (if \<not> tv_P t s = -1 then Some acc else Some (acc + sub_work t s))"
      using root [OF s] by simp
  qed
  also have "\<dots> = forM (roots_of (tv_P t) (tv_n t)) (\<lambda>s acc. Some (acc + sub_work t s)) 0"
    unfolding forM_skip roots_of_def by simp
  also have "forM rs (\<lambda>s acc. Some (acc + sub_work t s)) a = Some (a + sum_list (map (sub_work t) rs))" for rs a
    by (induction rs arbitrary: a) (simp_all add: add.assoc)
  finally show ?thesis using sub_work_roots [OF wf] by simp
qed

lemma subtree_sums_ok:
  assumes wf: "tree_wf t"
  shows "ok (subtree_sums t) (sums_ok t)"
proof -
  note wfs = tree_wfD [OF wf]
  obtain cptr cidx where ch: "children_lists t = Some (cptr, cidx)"
    "\<And>p. 0 \<le> p \<Longrightarrow> p < tv_n t \<Longrightarrow> ss_children cptr cidx p = Some (tv_kids t p)"
    using ok_ex [OF children_lists_ok [OF wf]] by auto
  let ?z = "replicate (length (tv_parent t)) (0 :: int)" and ?np = "int (length (tv_postorder t))"
  have "ok (for_range 0 ?np (sum_node t cptr cidx) (replicate (length (tv_parent t)) 0, ?z, ?z)) (sums_inv t ?np)"
  proof (rule for_range_ok [where I = "\<lambda>k s. 0 \<le> k \<and> sums_inv t k s"])
    show "0 \<le> (0 :: int) \<and> sums_inv t 0 (replicate (length (tv_parent t)) 0, ?z, ?z)" by (simp add: sums_inv_def)
    fix k s assume "0 \<le> k" "k < ?np" "0 \<le> k \<and> sums_inv t k s"
    then have "ok (sum_node t cptr cidx k s) (sums_inv t (k + 1))" using sum_node_ok [OF wf ch(2)] by blast
    then show "ok (sum_node t cptr cidx k s) (\<lambda>s. 0 \<le> k + 1 \<and> sums_inv t (k + 1) s)"
      by (rule ok_mono) (use \<open>0 \<le> k\<close> in simp)
  qed simp
  then obtain work first at' where r: "for_range 0 ?np (sum_node t cptr cidx) (replicate (length (tv_parent t)) 0, ?z, ?z) = Some (work, first, at')"
    "sums_inv t ?np (work, first, at')" by (auto simp: ok_def)
  have v: "v \<in> set (take (nat ?np) (tv_postorder t))" if "0 \<le> v" "v < tv_n t" for v using that wfs(5) by simp
  have inv: "int (length work) = tv_n t" "int (length first) = tv_n t" "int (length at') = tv_n t"
    "\<And>v. 0 \<le> v \<Longrightarrow> v < tv_n t \<Longrightarrow> elt work v = sub_work t v \<and> elt first v = first_pos t v \<and> elt at' v = pos_of (tv_postorder t) v"
    using r(2) v by (simp_all add: sums_inv_def)
  have "for_range 0 (tv_n t) (\<lambda>s acc. do {
       p \<leftarrow> vget (tv_parent t) s;
       if p < 0 then do { w \<leftarrow> vget work s; Some (acc + w) } else Some acc
     }) 0 = Some (sum_list (tv_work t))"
    by (rule total_ok [OF wf inv(1)]) (use inv(4) in blast)
  then show ?thesis
    unfolding subtree_sums_def Let_def ch(1) bind.simps prod.case r(1) using inv ch(2) by (simp add: sums_ok_def)
qed

section \<open>Contiguous postorders\<close>

text \<open>In a postorder proper the subtree of a node is the stretch of positions that ends at it.\<close>

definition contiguous :: "tree_view \<Rightarrow> bool" where
  "contiguous t \<longleftrightarrow> (\<forall>v. 0 \<le> v \<and> v < tv_n t \<longrightarrow>
     (\<forall>k. 0 \<le> k \<and> k < tv_n t \<longrightarrow>
        (below (tv_P t) v (elt (tv_postorder t) k) \<longleftrightarrow> first_pos t v \<le> k \<and> k \<le> pos_of (tv_postorder t) v)))"

lemma contiguous_full_post:
  assumes wf: "tree_wf t" and po: "tv_postorder t = full_post (tv_P t) (tv_n t)"
  shows "contiguous t"
proof -
  let ?P = "tv_P t" and ?n = "tv_n t" and ?po = "tv_postorder t"
  have eq: "pos_of ?po = pos ?po" by (intro ext) (simp add: pos_of_def pos_def)
  have fo: "ordered_forest ?P ?n" by (rule tree_wfD(1) [OF wf])
  obtain f where f: "intervals ?P ?n (pos ?po) f" using full_post_intervals [OF fo] unfolding po by auto
  have sub: "below ?P v u \<longleftrightarrow> f v \<le> pos ?po u \<and> pos ?po u \<le> pos ?po v" if "0 \<le> v" "v < ?n" "0 \<le> u" "u < ?n" for v u
    using f that by (simp add: intervals_def)
  have fv: "first_pos t v = f v" if v: "0 \<le> v" "v < ?n" for v
    unfolding first_pos_def eq set_post
  proof (rule Min_eqI)
    show "finite (pos ?po ` {u. below ?P v u})" using finite_below by simp
    show "f v \<le> y" if y: "y \<in> pos ?po ` {u. below ?P v u}" for y
    proof -
      obtain u where u: "below ?P v u" "y = pos ?po u" using y by blast
      then show ?thesis using sub [OF v] below_range [OF fo v u(1)] by simp
    qed
    have "0 \<le> f v" "f v \<le> pos ?po v" "pos ?po v < ?n" using f v by (simp_all add: intervals_def)
    then obtain u where "0 \<le> u" "u < ?n" "pos ?po u = f v" using f unfolding intervals_def by (metis order_le_less_trans)
    then show "f v \<in> pos ?po ` {u. below ?P v u}" using sub [OF v] \<open>f v \<le> pos ?po v\<close> by force
  qed
  show ?thesis
    unfolding contiguous_def
  proof (intro allI impI)
    fix v k assume v: "0 \<le> v \<and> v < ?n" and k: "0 \<le> k \<and> k < ?n"
    have len: "int (length ?po) = ?n" using tree_wfD(7) [OF wf] by simp
    then have "elt ?po k \<in> set ?po" using k by (simp add: elt_def nat_less_iff)
    then have u: "0 \<le> elt ?po k" "elt ?po k < ?n" unfolding tree_wfD(5) [OF wf] by simp_all
    have "pos ?po (elt ?po k) = k" by (rule elt_pos [OF tree_wfD(4) [OF wf]]) (use k len in simp_all)
    then show "below ?P v (elt ?po k) \<longleftrightarrow> first_pos t v \<le> k \<and> k \<le> pos_of ?po v"
      using sub [of v "elt ?po k"] fv [of v] v u eq by simp
  qed
qed

text \<open>C29: \<open>subtree_sums\<close> on a forest whose parents have larger indices and a postorder with children
  before parents: every access is in range; the children of a node are listed in descending
  postorder, \<open>work\<close> holds the work of the whole subtree (node included), \<open>at\<close> the node's position,
  \<open>first\<close> the least position in its subtree, and \<open>total\<close> is the work of all nodes.\<close>

theorem subtree_sums_correct:
  assumes "tree_wf t"
  shows "\<exists>u. subtree_sums t = Some u \<and> ss_total u = sum_list (tv_work t)
    \<and> (\<forall>v. 0 \<le> v \<and> v < tv_n t \<longrightarrow>
        ss_children (ss_cptr u) (ss_cidx u) v = Some (filter (\<lambda>s. tv_P t s = v) (rev (tv_postorder t)))
        \<and> elt (ss_work u) v = (\<Sum>w \<in> {w. below (tv_P t) v w}. elt (tv_work t) w)
        \<and> elt (ss_at u) v = pos_of (tv_postorder t) v
        \<and> elt (ss_first u) v = Min (pos_of (tv_postorder t) ` {w. below (tv_P t) v w}))"
proof -
  have "sub_work t v = (\<Sum>w \<in> {w. below (tv_P t) v w}. elt (tv_work t) w)" for v
    unfolding sub_work_def set_post [symmetric] by (rule sum_list_distinct_conv_sum_set [OF distinct_post])
  moreover obtain u where "subtree_sums t = Some u" "sums_ok t u" using ok_ex [OF subtree_sums_ok [OF assms]] by blast
  ultimately show ?thesis
    by (intro exI [of _ u]) (simp add: sums_ok_def first_pos_def set_post tv_kids_def)
qed

definition example_tree :: tree_view where
  "example_tree = \<lparr>tv_postorder = [0, 1, 2, 3, 4], tv_parent = [2, 2, 4, 4, -1],
     tv_work = [4, 6, 30, 50, 10], tv_split = [0, 0, 1, 0, 2]\<rparr>"

lemma example_tree_wf: "tree_wf example_tree"
proof -
  have "ordered_forest (tv_P example_tree) 5"
    unfolding ordered_forest_def all_int_set by code_simp
  moreover have "{0, 1, 2, 3, 4} = {v :: int. 0 \<le> v \<and> v < 5}" by auto
  moreover have "full_post (tv_P example_tree) 5 = [0, 1, 2, 3, 4]" by code_simp
  then have "children_first (tv_P example_tree) [0, 1, 2, 3, 4]" using children_first_full by metis
  ultimately show ?thesis by (simp add: tree_wf_def Let_def example_tree_def)
qed

theorem subtree_sums_correct_witness:
  "\<exists>u. subtree_sums example_tree = Some u \<and> ss_total u = 100 \<and> elt (ss_at u) 2 = 2"
proof -
  have "tv_n example_tree = 5" by (simp add: example_tree_def)
  then obtain u where u: "subtree_sums example_tree = Some u" "ss_total u = sum_list (tv_work example_tree)"
    "elt (ss_at u) 2 = pos_of (tv_postorder example_tree) 2"
    using subtree_sums_correct [OF example_tree_wf] by auto
  have "sum_list (tv_work example_tree) = 100" "pos_of (tv_postorder example_tree) 2 = 2" by code_simp+
  then show ?thesis using u by simp
qed

end
