(* ===== verification/TreePartition.thy ===== *)
theory TreePartition
  imports SubtreeSums "HOL-Library.Product_Lexorder"
begin

text \<open>
  The partition of the assembly tree into independent subtrees and a top part
  (\<open>partition_subtrees\<close> of \<open>thread_plan.cpp\<close>), which pops the heaviest subtree root off a priority
  queue until every remaining subtree is light. The queue's interface is a locale; the model of
  \<open>std::priority_queue\<close> is a descending list.
\<close>

section \<open>The priority queue\<close>

text \<open>What the partition relies on: the queue is a multiset that gives up its greatest element.\<close>

locale max_queue =
  fixes new :: 'q and push :: "'a::linorder \<Rightarrow> 'q \<Rightarrow> 'q" and is_empty :: "'q \<Rightarrow> bool"
    and front :: "'q \<Rightarrow> 'a" and pop :: "'q \<Rightarrow> 'q" and invar :: "'q \<Rightarrow> bool" and items :: "'q \<Rightarrow> 'a multiset"
  assumes items_new: "invar new" "items new = {#}"
    and items_push: "invar q \<Longrightarrow> invar (push x q)" "invar q \<Longrightarrow> items (push x q) = add_mset x (items q)"
    and is_empty_iff: "invar q \<Longrightarrow> is_empty q \<longleftrightarrow> items q = {#}"
    and front_Max: "invar q \<Longrightarrow> \<not> is_empty q \<Longrightarrow> front q \<in># items q \<and> (\<forall>x \<in># items q. x \<le> front q)"
    and items_pop: "invar q \<Longrightarrow> \<not> is_empty q \<Longrightarrow> invar (pop q)"
      "invar q \<Longrightarrow> \<not> is_empty q \<Longrightarrow> items (pop q) = items q - {#front q#}"
begin

lemma push_all:
  assumes "invar q"
  shows "invar (fold push xs q)" "items (fold push xs q) = items q + mset xs"
  using assms by (induction xs arbitrary: q) (simp_all add: items_push)

text \<open>Popping \<open>k\<close> times a queue that holds a descending list leaves its tail.\<close>

lemma pop_tail: "invar q \<Longrightarrow> items q = mset xs \<Longrightarrow> sorted_wrt (\<ge>) xs \<Longrightarrow> xs \<noteq> [] \<Longrightarrow>
   front q = hd xs \<and> items (pop q) = mset (tl xs)"
proof -
  assume a: "invar q" "items q = mset xs" "sorted_wrt (\<ge>) xs" "xs \<noteq> []"
  then obtain x ys where xs: "xs = x # ys" by (cases xs) auto
  have ne: "\<not> is_empty q" using a is_empty_iff by simp
  have "front q = x"
    using front_Max [OF a(1) ne] a(2,3) xs by (auto intro: antisym)
  then show ?thesis using items_pop(2) [OF a(1) ne] a(2) xs by simp
qed

end

fun heap_push :: "'a::linorder \<Rightarrow> 'a list \<Rightarrow> 'a list" where
  "heap_push x [] = [x]"
| "heap_push x (y # ys) = (if y \<le> x then x # y # ys else y # heap_push x ys)"

lemma mset_heap_push [simp]: "mset (heap_push x q) = add_mset x (mset q)"
  by (induction x q rule: heap_push.induct) simp_all

lemma set_heap_push [simp]: "set (heap_push x q) = insert x (set q)"
  by (induction x q rule: heap_push.induct) auto

lemma sorted_heap_push: "sorted_wrt (\<ge>) q \<Longrightarrow> sorted_wrt (\<ge>) (heap_push x q)"
  by (induction x q rule: heap_push.induct) (auto dest: order_trans)

lemma Min_first: "sorted_wrt (\<ge>) q \<Longrightarrow> q \<noteq> [] \<Longrightarrow> hd q \<in> set q \<and> (\<forall>x \<in> set q. x \<le> hd q)" for q :: "'a::linorder list"
  by (cases q) auto

interpretation pq: max_queue "[] :: 'a::linorder list" heap_push "\<lambda>q. q = []" hd tl "sorted_wrt (\<ge>)" mset
proof
  fix q :: "'a list"
  assume q: "sorted_wrt (\<ge>) q" "q \<noteq> []"
  then show "hd q \<in># mset q \<and> (\<forall>x \<in># mset q. x \<le> hd q)" using Min_first [OF q] by simp
  show "sorted_wrt (\<ge>) (tl q)" "mset (tl q) = mset q - {#hd q#}" using q by (cases q; simp)+
qed (simp_all add: sorted_heap_push)

section \<open>The code\<close>

text \<open>\<open>while (!heap.empty() && heap.top().first > target)\<close>: the heaviest root joins the top part and
  its children enter the queue.\<close>

definition split_heaviest ::
  "subtree_sums \<Rightarrow> rat \<Rightarrow> (rat \<times> int) list \<times> bool list \<Rightarrow> ((rat \<times> int) list \<times> bool list) option" where
  "split_heaviest u target = loop (\<lambda>(heap, tp).
     if heap \<noteq> [] \<and> fst (hd heap) > target then do {
       let s = snd (hd heap);
       let heap = tl heap;
       tp \<leftarrow> vset tp s True;
       cs \<leftarrow> ss_children (ss_cptr u) (ss_cidx u) s;
       heap \<leftarrow> forM cs (\<lambda>c heap. do { w \<leftarrow> vget (ss_work u) c; Some (heap_push (w, c) heap) }) heap;
       Some (Inr (heap, tp))
     } else Some (Inl (heap, tp)))"

definition root_heap :: "tree_view \<Rightarrow> subtree_sums \<Rightarrow> (rat \<times> int) list option" where
  "root_heap t u = for_range 0 (int (length (tv_parent t))) (\<lambda>s heap. do {
       p \<leftarrow> vget (tv_parent t) s;
       if p < 0 then do { w \<leftarrow> vget (ss_work u) s; Some (heap_push (w, s) heap) } else Some heap
     }) []"

definition node_ranges :: "subtree_sums \<Rightarrow> (rat \<times> int) list \<Rightarrow> (int \<times> int) list option" where
  "node_ranges u heap = forM heap (\<lambda>(_, s) acc. do {
       a \<leftarrow> vget (ss_first u) s;
       b \<leftarrow> vget (ss_at u) s;
       Some (acc @ [(a, b)])
     }) []"

text \<open>Without a thread the quotient of the code is infinite; that case is left undefined.\<close>

definition partition_subtrees ::
  "tree_view \<Rightarrow> subtree_sums \<Rightarrow> int \<Rightarrow> rat \<Rightarrow> ((int \<times> int) list \<times> bool list) option" where
  "partition_subtrees t u threads min_work = do {
     heap \<leftarrow> root_heap t u;
     let tp = replicate (length (tv_parent t)) False;
     if ss_total u < min_work then Some ([], tp)
     else if threads = 0 then None
     else do {
       let target = ss_total u / (4 * of_int threads);
       (heap, tp) \<leftarrow> split_heaviest u target (heap, tp);
       subtrees \<leftarrow> node_ranges u heap;
       Some (subtrees, tp)
     }
   }"

section \<open>The top part is the heavy nodes\<close>

definition nonneg :: "tree_view \<Rightarrow> bool" where
  "nonneg t \<longleftrightarrow> (\<forall>w \<in> set (tv_work t). 0 \<le> w)"

lemma sub_work_nonneg:
  assumes "nonneg t" "tree_wf t" "0 \<le> v" "v < tv_n t"
  shows "0 \<le> sub_work t v"
proof -
  have "set (post (tv_P t) v) \<subseteq> {u. 0 \<le> u \<and> u < tv_n t}"
  proof
    fix u assume "u \<in> set (post (tv_P t) v)"
    then have b: "below (tv_P t) v u" by (simp add: set_post)
    then have "0 \<le> u" using assms(3) by (induction rule: below.induct) simp_all
    then show "u \<in> {u. 0 \<le> u \<and> u < tv_n t}" using below_le [OF b] assms(4) by simp
  qed
  moreover have "0 \<le> elt (tv_work t) u" if "0 \<le> u" "u < tv_n t" for u
    using assms(1) that tree_wfD(2) [OF assms(2)] by (simp add: nonneg_def elt_def)
  ultimately show ?thesis unfolding sub_work_def by (intro sum_list_nonneg) auto
qed

lemma sub_work_parent:
  assumes nn: "nonneg t" and wf: "tree_wf t" and v: "0 \<le> v" "v < tv_n t" "tv_P t v \<noteq> -1"
  shows "sub_work t v \<le> sub_work t (tv_P t v)"
proof -
  have p: "v < tv_P t v" "tv_P t v < tv_n t" using tree_wfD(1) [OF wf] v unfolding ordered_forest_def by auto
  have "v \<in> set (tv_kids t (tv_P t v))" using tv_kids_iff [OF wf, of "tv_P t v" v] p v(1) by simp
  moreover have "0 \<le> sub_work t c" if "c \<in> set (tv_kids t (tv_P t v))" for c
    using tv_kids_iff [OF wf, of "tv_P t v" c] p v(1) that by (intro sub_work_nonneg [OF nn wf]) auto
  ultimately have "sub_work t v \<le> sum_list (map (sub_work t) (tv_kids t (tv_P t v)))"
    by (intro member_le_sum_list) auto
  moreover have "0 \<le> elt (tv_work t) (tv_P t v)"
    using nn p v(1) tree_wfD(2) [OF wf] by (simp add: nonneg_def elt_def)
  ultimately show ?thesis using sub_work_kids [OF wf, of "tv_P t v"] p v(1) by simp
qed

definition heavy :: "tree_view \<Rightarrow> rat \<Rightarrow> int \<Rightarrow> bool" where
  "heavy t target v \<longleftrightarrow> 0 \<le> v \<and> v < tv_n t \<and> sub_work t v > target"

text \<open>The roots of the light subtrees: light nodes whose parent is heavy, or that have none.\<close>

definition light_root :: "tree_view \<Rightarrow> rat \<Rightarrow> int \<Rightarrow> bool" where
  "light_root t target v \<longleftrightarrow> 0 \<le> v \<and> v < tv_n t \<and> \<not> heavy t target v
     \<and> (tv_P t v = -1 \<or> heavy t target (tv_P t v))"

definition frontier :: "tree_view \<Rightarrow> int set \<Rightarrow> int set" where
  "frontier t T = {v. 0 \<le> v \<and> v < tv_n t \<and> v \<notin> T \<and> (tv_P t v = -1 \<or> tv_P t v \<in> T)}"

definition marks :: "bool list \<Rightarrow> int set" where
  "marks tp = {v. 0 \<le> v \<and> v < int (length tp) \<and> elt tp v}"

definition split_inv :: "tree_view \<Rightarrow> rat \<Rightarrow> (rat \<times> int) list \<times> bool list \<Rightarrow> bool" where
  "split_inv t target = (\<lambda>(heap, tp). int (length tp) = tv_n t
     \<and> (\<forall>v \<in> marks tp. heavy t target v \<and> (tv_P t v = -1 \<or> tv_P t v \<in> marks tp))
     \<and> sorted_wrt (\<ge>) heap \<and> distinct heap
     \<and> set heap = (\<lambda>s. (sub_work t s, s)) ` frontier t (marks tp))"

lemma marks_update:
  assumes "0 \<le> s" "s < int (length tp)"
  shows "marks (tp[nat s := True]) = insert s (marks tp)"
  using assms by (auto simp: marks_def at_update)

lemma frontier_step:
  assumes wf: "tree_wf t" and s: "s \<in> frontier t T" and closed: "\<forall>v \<in> T. tv_P t v = -1 \<or> tv_P t v \<in> T"
  shows "frontier t (insert s T) = frontier t T - {s} \<union> set (tv_kids t s)" "set (tv_kids t s) \<inter> frontier t T = {}"
proof -
  have sr: "0 \<le> s" "s < tv_n t" "s \<notin> T" using s by (simp_all add: frontier_def)
  have kid: "c \<in> set (tv_kids t s) \<longleftrightarrow> 0 \<le> c \<and> c < s \<and> tv_P t c = s" for c by (rule tv_kids_iff [OF wf sr(1,2)])
  have lt: "c < s" if "0 \<le> c" "c < tv_n t" "tv_P t c = s" for c
  proof -
    have "tv_P t c = -1 \<or> c < tv_P t c" using tree_wfD(1) [OF wf] that(1,2) unfolding ordered_forest_def by blast
    then show ?thesis using that(3) sr(1) by simp
  qed
  have new: "c \<notin> T" if "tv_P t c = s" for c
  proof
    assume "c \<in> T"
    then have "s = -1 \<or> s \<in> T" using closed that by blast
    then show False using sr by simp
  qed
  show "set (tv_kids t s) \<inter> frontier t T = {}"
  proof (intro equals0I, elim IntE)
    fix c assume "c \<in> set (tv_kids t s)" "c \<in> frontier t T"
    then have "tv_P t c = s" "s = -1 \<or> s \<in> T" unfolding kid frontier_def by blast+
    then show False using sr by simp
  qed
  show "frontier t (insert s T) = frontier t T - {s} \<union> set (tv_kids t s)"
  proof (intro set_eqI iffI)
    fix c assume c: "c \<in> frontier t (insert s T)"
    then have cr: "0 \<le> c" "c < tv_n t" "c \<noteq> s" "c \<notin> T" "tv_P t c = -1 \<or> tv_P t c = s \<or> tv_P t c \<in> T"
      by (simp_all add: frontier_def)
    show "c \<in> frontier t T - {s} \<union> set (tv_kids t s)"
    proof (cases "tv_P t c = s")
      case True
      then show ?thesis using lt [OF cr(1,2) True] cr(1) kid by simp
    next
      case False
      then show ?thesis using cr by (simp add: frontier_def)
    qed
  next
    fix c assume "c \<in> frontier t T - {s} \<union> set (tv_kids t s)"
    then show "c \<in> frontier t (insert s T)"
    proof
      assume "c \<in> set (tv_kids t s)"
      then have "0 \<le> c" "c < s" "tv_P t c = s" unfolding kid by simp_all
      then show ?thesis using new sr(2) by (simp add: frontier_def)
    qed (auto simp: frontier_def)
  qed
qed

abbreviation keyed :: "tree_view \<Rightarrow> int \<Rightarrow> rat \<times> int" where
  "keyed t \<equiv> \<lambda>s. (sub_work t s, s)"

lemma push_children_eq:
  assumes "sums_ok t u" "\<And>c. c \<in> set cs \<Longrightarrow> 0 \<le> c \<and> c < tv_n t"
  shows "forM cs (\<lambda>c heap. do { w \<leftarrow> vget (ss_work u) c; Some (heap_push (w, c) heap) }) heap =
    Some (fold heap_push (map (keyed t) cs) heap)"
proof -
  have "vget (ss_work u) c = Some (sub_work t c)" if "c \<in> set cs" for c
    using assms(1) assms(2) [OF that] by (simp add: sums_ok_def vget_at)
  then show ?thesis by (induction cs arbitrary: heap) simp_all
qed

lemma split_step:
  assumes wf: "tree_wf t" and u: "sums_ok t u" and inv: "split_inv t target (heap, tp)"
    and go: "heap \<noteq> []" "fst (hd heap) > target"
  shows "\<exists>heap' s. vset tp (snd (hd heap)) True = Some (tp[nat s := True])
    \<and> ss_children (ss_cptr u) (ss_cidx u) (snd (hd heap)) = Some (tv_kids t s)
    \<and> forM (tv_kids t s) (\<lambda>c heap. do { w \<leftarrow> vget (ss_work u) c; Some (heap_push (w, c) heap) }) (tl heap) = Some heap'
    \<and> split_inv t target (heap', tp[nat s := True]) \<and> card (marks (tp[nat s := True])) = card (marks tp) + 1
    \<and> marks (tp[nat s := True]) \<subseteq> {0..<tv_n t}"
proof -
  let ?T = "marks tp"
  have I: "int (length tp) = tv_n t" "\<forall>v \<in> ?T. heavy t target v \<and> (tv_P t v = -1 \<or> tv_P t v \<in> ?T)"
    "sorted_wrt (\<ge>) heap" "distinct heap" "set heap = keyed t ` frontier t ?T"
    using inv by (simp_all add: split_inv_def)
  have "hd heap \<in> set heap" using go(1) by simp
  then obtain s where s: "s \<in> frontier t ?T" "hd heap = (sub_work t s, s)" unfolding I(5) by blast
  have sr: "0 \<le> s" "s < tv_n t" "s \<notin> ?T" "tv_P t s = -1 \<or> tv_P t s \<in> ?T" using s(1) by (simp_all add: frontier_def)
  have heap: "heap = keyed t s # tl heap" using go(1) s(2) by (cases heap) simp_all
  have kids: "\<And>c. c \<in> set (tv_kids t s) \<Longrightarrow> 0 \<le> c \<and> c < tv_n t" using tv_kids_iff [OF wf sr(1,2)] sr(2) by fastforce
  let ?tp = "tp[nat s := True]" and ?cs = "map (keyed t) (tv_kids t s)"
  have tail: "sorted_wrt (\<ge>) (tl heap)" using I(3) heap by (metis sorted_wrt.simps(2))
  have tail_set: "set (tl heap) = keyed t ` (frontier t ?T - {s})" "distinct (tl heap)"
  proof -
    have "distinct (keyed t s # tl heap)" using I(4) heap by simp
    moreover have "insert (keyed t s) (set (tl heap)) = keyed t ` frontier t ?T" using I(5) heap by (metis list.set(2))
    ultimately show "set (tl heap) = keyed t ` (frontier t ?T - {s})" "distinct (tl heap)" by auto
  qed
  have fs: "frontier t (insert s ?T) = frontier t ?T - {s} \<union> set (tv_kids t s)" "set (tv_kids t s) \<inter> frontier t ?T = {}"
    using frontier_step [OF wf s(1)] I(2) by blast+
  have m: "mset (fold heap_push ?cs (tl heap)) = mset (tl heap) + mset ?cs" using pq.push_all(2) [OF tail] .
  have mk: "marks ?tp = insert s ?T" using sr I(1) by (intro marks_update) simp_all
  have sub: "marks tp' \<subseteq> {0..<int (length tp')}" for tp' by (auto simp: marks_def)
  have "split_inv t target (fold heap_push ?cs (tl heap), ?tp)"
    unfolding split_inv_def prod.case mk
  proof (intro conjI ballI)
    show "int (length ?tp) = tv_n t" using I(1) by simp
    show "sorted_wrt (\<ge>) (fold heap_push ?cs (tl heap))" using pq.push_all(1) [OF tail] .
    show "set (fold heap_push ?cs (tl heap)) = keyed t ` frontier t (insert s ?T)"
      using mset_eq_setD [OF m [unfolded mset_append [symmetric]]] tail_set(1) unfolding fs(1) by (simp add: image_Un)
    have "distinct (tl heap @ ?cs)"
      using tail_set fs(2) by (auto simp: distinct_map inj_on_def tv_kids_def tree_wfD(4) [OF wf])
    then show "distinct (fold heap_push ?cs (tl heap))"
      using m mset_eq_imp_distinct_iff [of "fold heap_push ?cs (tl heap)" "tl heap @ ?cs"] by simp
    have "heavy t target s" using go(2) s(2) sr by (simp add: heavy_def)
    then show "heavy t target v" "tv_P t v = -1 \<or> tv_P t v \<in> insert s ?T" if "v \<in> insert s ?T" for v
      using that I(2) sr(4) by auto
  qed
  moreover have "card (insert s ?T) = card ?T + 1"
    using sr(3) finite_subset [OF sub [of tp]] by simp
  moreover have "vset tp s True = Some ?tp" using sr I(1) by (simp add: vset_def)
  moreover have "ss_children (ss_cptr u) (ss_cidx u) s = Some (tv_kids t s)" using u sr by (simp add: sums_ok_def)
  moreover have "marks ?tp \<subseteq> {0..<tv_n t}" using sub [of ?tp] I(1) by simp
  ultimately show ?thesis
    using s(2) mk push_children_eq [OF u kids, where heap = "tl heap"] by (intro exI [of _ "fold heap_push ?cs (tl heap)"] exI [of _ s]) simp
qed

lemma split_exit:
  assumes wf: "tree_wf t" and nn: "nonneg t" and inv: "split_inv t target (heap, tp)"
    and stop: "heap = [] \<or> fst (hd heap) \<le> target"
  shows "marks tp = {v. heavy t target v}" "set heap = keyed t ` {v. light_root t target v}"
proof -
  let ?T = "marks tp"
  have I: "\<forall>v \<in> ?T. heavy t target v \<and> (tv_P t v = -1 \<or> tv_P t v \<in> ?T)"
    "sorted_wrt (\<ge>) heap" "set heap = keyed t ` frontier t ?T"
    using inv by (simp_all add: split_inv_def)
  have light: "\<not> heavy t target v" if "v \<in> frontier t ?T" for v
  proof -
    have m: "keyed t v \<in> set heap" using that I(3) by simp
    then have ne: "heap \<noteq> []" by auto
    have "keyed t v \<le> hd heap" using Min_first [OF I(2) ne] m by blast
    then have "sub_work t v \<le> fst (hd heap)" by (auto simp: less_eq_prod_def)
    then show ?thesis using stop ne by (auto simp: heavy_def)
  qed
  have up: "v \<in> ?T" if "heavy t target v" for v
    using that
  proof (induction "nat (tv_n t - v)" arbitrary: v rule: less_induct)
    case less
    have v: "0 \<le> v" "v < tv_n t" using less.prems by (simp_all add: heavy_def)
    show ?case
    proof (rule ccontr)
      assume out: "v \<notin> ?T"
      then have p: "tv_P t v \<noteq> -1" using light [of v] less.prems v by (auto simp: frontier_def)
      then have r: "v < tv_P t v" "tv_P t v < tv_n t" using tree_wfD(1) [OF wf] v unfolding ordered_forest_def by auto
      have "heavy t target (tv_P t v)"
        using sub_work_parent [OF nn wf v p] less.prems r v by (simp add: heavy_def)
      then have "tv_P t v \<in> ?T" using less.hyps [of "tv_P t v"] r v by simp
      then show False using light [of v] less.prems v out by (simp add: frontier_def)
    qed
  qed
  then show T: "?T = {v. heavy t target v}" using I(1) by blast
  show "set heap = keyed t ` {v. light_root t target v}"
    unfolding I(3) T frontier_def light_root_def by (intro arg_cong [where f = "image _"]) auto
qed

lemma split_heaviest_ok:
  assumes wf: "tree_wf t" and nn: "nonneg t" and u: "sums_ok t u" and inv: "split_inv t target s"
  shows "ok (split_heaviest u target s) (\<lambda>(heap, tp). int (length tp) = tv_n t
    \<and> marks tp = {v. heavy t target v} \<and> set heap = keyed t ` {v. light_root t target v}
    \<and> sorted_wrt (\<ge>) heap \<and> distinct heap)"
  unfolding split_heaviest_def
proof (rule loop_ok [where I = "split_inv t target" and m = "\<lambda>(heap, tp). nat (tv_n t - int (card (marks tp)))"], goal_cases)
  case 1
  show ?case by (rule inv)
next
  case (2 st)
  obtain heap tp where st: "st = (heap, tp)" by (cases st)
  show ?case
  proof (cases "heap \<noteq> [] \<and> fst (hd heap) > target")
    case True
    obtain heap' s where step: "vset tp (snd (hd heap)) True = Some (tp[nat s := True])"
      "ss_children (ss_cptr u) (ss_cidx u) (snd (hd heap)) = Some (tv_kids t s)"
      "forM (tv_kids t s) (\<lambda>c heap. do { w \<leftarrow> vget (ss_work u) c; Some (heap_push (w, c) heap) }) (tl heap) = Some heap'"
      "split_inv t target (heap', tp[nat s := True])" "card (marks (tp[nat s := True])) = card (marks tp) + 1"
      "marks (tp[nat s := True]) \<subseteq> {0..<tv_n t}"
      using split_step [OF wf u] 2 st True by blast
    have "card (marks (tp[nat s := True])) \<le> nat (tv_n t)"
      using card_mono [OF _ step(6)] by simp
    then have "nat (tv_n t - int (card (marks (tp[nat s := True])))) < nat (tv_n t - int (card (marks tp)))"
      using step(5) by simp
    then show ?thesis using True st step(1-4) by (simp add: Let_def)
  next
    case False
    have stop: "heap = [] \<or> fst (hd heap) \<le> target" using False by auto
    have inv: "split_inv t target (heap, tp)" using 2 st by simp
    have "int (length tp) = tv_n t" "sorted_wrt (\<ge>) heap" "distinct heap"
      using inv by (simp_all add: split_inv_def)
    then show ?thesis
      unfolding st prod.case if_not_P [OF False] ok_Some sum.case
      using split_exit [OF wf nn inv stop] by blast
  qed
qed

lemma heap_roots_inv:
  assumes wf: "tree_wf t" and u: "sums_ok t u"
  shows "ok (root_heap t u) (\<lambda>heap. split_inv t target (heap, replicate (length (tv_parent t)) False))"
proof -
  let ?roots = "filter (\<lambda>s. tv_P t s = -1) [0..tv_n t - 1]"
  have "root_heap t u = forM [0..tv_n t - 1] (\<lambda>s heap. if \<not> tv_P t s = -1 then Some heap else Some (heap_push (keyed t s) heap)) []"
    unfolding root_heap_def for_range_def
  proof (rule forM_cong)
    fix s heap assume "s \<in> set [0..int (length (tv_parent t)) - 1]"
    then have s: "0 \<le> s" "s < tv_n t" by simp_all
    have get: "vget (tv_parent t) s = Some (tv_P t s)" "vget (ss_work u) s = Some (sub_work t s)"
      using s u by (simp_all add: vget_at sums_ok_def)
    have "tv_P t s = -1 \<or> s < tv_P t s" using tree_wfD(1) [OF wf] s unfolding ordered_forest_def by blast
    then show "do {
       p \<leftarrow> vget (tv_parent t) s;
       if p < 0 then do { w \<leftarrow> vget (ss_work u) s; Some (heap_push (w, s) heap) } else Some heap
     } = (if \<not> tv_P t s = -1 then Some heap else Some (heap_push (keyed t s) heap))"
      using get s by auto
  qed
  also have "\<dots> = forM ?roots (\<lambda>s heap. Some (heap_push (keyed t s) heap)) []" unfolding forM_skip by simp
  also have "\<dots> = Some (fold heap_push (map (keyed t) ?roots) [])"
  proof -
    have "forM xs (\<lambda>s heap. Some (heap_push (keyed t s) heap)) h = Some (fold heap_push (map (keyed t) xs) h)" for xs h
      by (induction xs arbitrary: h) simp_all
    then show ?thesis .
  qed
  finally have run: "root_heap t u = Some (fold heap_push (map (keyed t) ?roots) [])" .
  have m: "mset (fold heap_push (map (keyed t) ?roots) []) = mset (map (keyed t) ?roots)"
    using pq.push_all(2) [of "[]" "map (keyed t) ?roots"] by simp
  have none: "marks (replicate (length (tv_parent t)) False) = {}" by (auto simp: marks_def elt_def)
  have "frontier t {} = set ?roots" by (auto simp: frontier_def)
  then have "set (fold heap_push (map (keyed t) ?roots) []) = keyed t ` frontier t {}"
    using mset_eq_setD [OF m] by simp
  moreover have "distinct (fold heap_push (map (keyed t) ?roots) [])"
    using mset_eq_imp_distinct_iff [OF m] by (simp add: distinct_map inj_on_def)
  moreover have "sorted_wrt (\<ge>) (fold heap_push (map (keyed t) ?roots) [])"
    using pq.push_all(1) [of "[]" "map (keyed t) ?roots"] by simp
  ultimately show ?thesis unfolding run by (simp add: split_inv_def none)
qed

lemma node_ranges_eq:
  assumes "sums_ok t u" "\<And>w s. (w, s) \<in> set heap \<Longrightarrow> 0 \<le> s \<and> s < tv_n t"
  shows "node_ranges u heap = Some (map (\<lambda>(w, s). (first_pos t s, pos_of (tv_postorder t) s)) heap)"
proof -
  let ?g = "\<lambda>(w :: rat, s). (first_pos t s, pos_of (tv_postorder t) s)"
  have "node_ranges u heap = forM heap (\<lambda>x acc. Some (acc @ [?g x])) []"
    unfolding node_ranges_def
  proof (rule forM_cong)
    fix x acc assume x: "x \<in> set heap"
    obtain w s where ws: "x = (w, s)" by (cases x)
    have "vget (ss_first u) s = Some (first_pos t s)" "vget (ss_at u) s = Some (pos_of (tv_postorder t) s)"
      using assms(1) assms(2) [of w s] x ws by (simp_all add: sums_ok_def vget_at)
    then show "(case x of (_, s) \<Rightarrow> \<lambda>acc. do { a \<leftarrow> vget (ss_first u) s; b \<leftarrow> vget (ss_at u) s; Some (acc @ [(a, b)]) }) acc =
        Some (acc @ [?g x])" using ws by simp
  qed
  also have "\<dots> = Some (map ?g heap)"
  proof -
    have "forM xs (\<lambda>x acc. Some (acc @ [?g x])) acc = Some (acc @ map ?g xs)" for xs acc
      by (induction xs arbitrary: acc) simp_all
    then show ?thesis by simp
  qed
  finally show ?thesis .
qed

definition target_of :: "tree_view \<Rightarrow> int \<Rightarrow> rat" where
  "target_of t threads = sum_list (tv_work t) / (4 * of_int threads)"

lemma partition_subtrees_ok:
  assumes wf: "tree_wf t" and nn: "nonneg t" and u: "sums_ok t u" and th: "threads \<noteq> 0" and big: "min_work \<le> sum_list (tv_work t)"
  shows "\<exists>heap tp. partition_subtrees t u threads min_work =
      Some (map (\<lambda>(w, s). (first_pos t s, pos_of (tv_postorder t) s)) heap, tp)
    \<and> length tp = length (tv_parent t) \<and> marks tp = {v. heavy t (target_of t threads) v}
    \<and> set heap = keyed t ` {v. light_root t (target_of t threads) v} \<and> sorted_wrt (\<ge>) heap \<and> distinct heap"
proof -
  let ?target = "target_of t threads"
  have target: "?target = ss_total u / (4 * of_int threads)" using u by (simp add: sums_ok_def target_of_def)
  obtain h0 where h0: "root_heap t u = Some h0" "split_inv t ?target (h0, replicate (length (tv_parent t)) False)"
    using ok_ex [OF heap_roots_inv [OF wf u]] by blast
  obtain heap tp where r: "split_heaviest u ?target (h0, replicate (length (tv_parent t)) False) = Some (heap, tp)"
    "int (length tp) = tv_n t" "marks tp = {v. heavy t ?target v}" "set heap = keyed t ` {v. light_root t ?target v}"
    "sorted_wrt (\<ge>) heap" "distinct heap"
    using ok_ex [OF split_heaviest_ok [OF wf nn u h0(2)]] by auto
  have "node_ranges u heap = Some (map (\<lambda>(w, s). (first_pos t s, pos_of (tv_postorder t) s)) heap)"
    by (rule node_ranges_eq [OF u]) (use r(4) in \<open>auto simp: light_root_def\<close>)
  moreover have "\<not> ss_total u < min_work" using u big by (simp add: sums_ok_def)
  ultimately show ?thesis
    unfolding partition_subtrees_def h0(1) bind.simps Let_def if_not_P [OF th] target [symmetric]
    using r by auto
qed

section \<open>The light subtrees cover the rest of the tree\<close>

lemma heavy_up:
  assumes "nonneg t" "tree_wf t" "heavy t target v" "tv_P t v \<noteq> -1"
  shows "heavy t target (tv_P t v)"
proof -
  have v: "0 \<le> v" "v < tv_n t" using assms(3) by (simp_all add: heavy_def)
  then have "v < tv_P t v" "tv_P t v < tv_n t" using tree_wfD(1) [OF assms(2)] assms(4) unfolding ordered_forest_def by auto
  then show ?thesis using sub_work_parent [OF assms(1,2) v assms(4)] assms(3) by (simp add: heavy_def)
qed

lemma light_down:
  assumes nn: "nonneg t" and wf: "tree_wf t" and b: "below (tv_P t) r w" and "\<not> heavy t target r" "0 \<le> r" "r < tv_n t"
  shows "\<not> heavy t target w"
  using b assms(4-6)
proof (induction rule: below.induct)
  case (below_child v u)
  have "tv_P t u \<noteq> -1" using below_child.hyps by simp
  then show ?case using heavy_up [OF nn wf, of target u] below_child by blast
qed simp

lemma light_root_above:
  assumes nn: "nonneg t" and wf: "tree_wf t" and "0 \<le> w" "w < tv_n t" "\<not> heavy t target w"
  shows "\<exists>r. light_root t target r \<and> below (tv_P t) r w"
  using assms(3-5)
proof (induction "nat (tv_n t - w)" arbitrary: w rule: less_induct)
  case less
  show ?case
  proof (cases "light_root t target w")
    case True
    then show ?thesis using below.below_refl by blast
  next
    case False
    then have p: "tv_P t w \<noteq> -1" "\<not> heavy t target (tv_P t w)" using less.prems by (auto simp: light_root_def)
    then have r: "w < tv_P t w" "tv_P t w < tv_n t" using tree_wfD(1) [OF wf] less.prems unfolding ordered_forest_def by auto
    then obtain r' where "light_root t target r'" "below (tv_P t) r' (tv_P t w)"
      using less.hyps [of "tv_P t w"] p(2) less.prems by auto
    then show ?thesis using r less.prems by (blast intro: below.below_child)
  qed
qed

lemma light_root_unique:
  assumes nn: "nonneg t" and wf: "tree_wf t" and a: "light_root t target a" and b: "light_root t target b"
    and w: "below (tv_P t) a w" "below (tv_P t) b w"
  shows "a = b"
proof -
  have step: "x = y" if x: "light_root t target x" and y: "light_root t target y" and "below (tv_P t) y x" for x y
    using \<open>below (tv_P t) y x\<close>
  proof (cases rule: below.cases)
    case below_child
    have "\<not> heavy t target (tv_P t x)"
      by (rule light_down [OF nn wf below_child(1)]) (use y in \<open>simp_all add: light_root_def\<close>)
    moreover have "tv_P t x \<noteq> -1" using below_child by simp
    ultimately show ?thesis using x by (simp add: light_root_def)
  qed simp
  show ?thesis using below_linear [OF w] step [OF a b] step [OF b a] by blast
qed

lemma light_ranges:
  assumes wf: "tree_wf t" and nn: "nonneg t" and c: "contiguous t"
  shows "light_root t T a \<Longrightarrow> light_root t T b \<Longrightarrow> a \<noteq> b \<Longrightarrow>
      pos_of (tv_postorder t) a < first_pos t b \<or> pos_of (tv_postorder t) b < first_pos t a"
    "0 \<le> k \<Longrightarrow> k < tv_n t \<Longrightarrow>
      (\<exists>s. light_root t T s \<and> first_pos t s \<le> k \<and> k \<le> pos_of (tv_postorder t) s) \<longleftrightarrow> \<not> heavy t T (elt (tv_postorder t) k)"
proof -
  let ?po = "tv_postorder t"
  have iv: "below (tv_P t) v (elt ?po k) \<longleftrightarrow> first_pos t v \<le> k \<and> k \<le> pos_of ?po v"
    if "light_root t T v" "0 \<le> k" "k < tv_n t" for v k
    using c that by (simp add: contiguous_def light_root_def)
  have rng: "0 \<le> pos_of ?po v \<and> pos_of ?po v < tv_n t \<and> elt ?po (pos_of ?po v) = v" if "light_root t T v" for v
  proof -
    have "v \<in> set ?po" using that tree_wfD(5) [OF wf] by (simp add: light_root_def)
    then obtain k where k: "k < length ?po" "?po ! k = v" by (auto simp: in_set_conv_nth)
    then have "pos_of ?po v = int k" using pos_of_nth [OF tree_wfD(4) [OF wf]] by blast
    then show ?thesis using k tree_wfD(7) [OF wf] by (simp add: elt_def)
  qed
  show "pos_of ?po a < first_pos t b \<or> pos_of ?po b < first_pos t a" if a: "light_root t T a" and b: "light_root t T b" and "a \<noteq> b"
  proof (rule ccontr)
    assume n: "\<not> ?thesis"
    define k where "k = min (pos_of ?po a) (pos_of ?po b)"
    have k: "0 \<le> k" "k < tv_n t" using rng [OF a] rng [OF b] by (auto simp: k_def)
    have self: "first_pos t v \<le> pos_of ?po v" if v: "light_root t T v" for v
      using iv [OF v, of "pos_of ?po v"] rng [OF v] below.below_refl [of "tv_P t" v] by simp
    have "first_pos t a \<le> k \<and> k \<le> pos_of ?po a" "first_pos t b \<le> k \<and> k \<le> pos_of ?po b"
      using n self [OF a] self [OF b] by (auto simp: k_def min_def)
    then have "below (tv_P t) a (elt ?po k)" "below (tv_P t) b (elt ?po k)" using iv [OF a k] iv [OF b k] by blast+
    then show False using light_root_unique [OF nn wf a b] \<open>a \<noteq> b\<close> by blast
  qed
  show "(\<exists>s. light_root t T s \<and> first_pos t s \<le> k \<and> k \<le> pos_of ?po s) \<longleftrightarrow> \<not> heavy t T (elt ?po k)" if k: "0 \<le> k" "k < tv_n t"
  proof
    assume "\<exists>s. light_root t T s \<and> first_pos t s \<le> k \<and> k \<le> pos_of ?po s"
    then obtain s where s: "light_root t T s" "below (tv_P t) s (elt ?po k)" using iv [OF _ k] by blast
    show "\<not> heavy t T (elt ?po k)" by (rule light_down [OF nn wf s(2)]) (use s(1) in \<open>simp_all add: light_root_def\<close>)
  next
    assume n: "\<not> heavy t T (elt ?po k)"
    have "elt ?po k \<in> set ?po" using k tree_wfD(7) [OF wf] by (intro elt_in_set) simp_all
    then have "0 \<le> elt ?po k" "elt ?po k < tv_n t" unfolding tree_wfD(5) [OF wf] by simp_all
    then obtain s where "light_root t T s" "below (tv_P t) s (elt ?po k)" using light_root_above [OF nn wf _ _ n] by blast
    then show "\<exists>s. light_root t T s \<and> first_pos t s \<le> k \<and> k \<le> pos_of ?po s" using iv [OF _ k] by blast
  qed
qed

section \<open>Properties\<close>

text \<open>C30: \<open>partition_subtrees\<close> with at least one thread, on a tree of nonnegative work at least \<open>min_work\<close> whose
  postorder numbers every subtree consecutively, marks as top part exactly the nodes whose subtree weighs more than
  \<open>total / (4 threads)\<close>. It returns the position ranges of the remaining subtrees (light nodes with a heavy parent or none),
  heaviest first and at equal work the larger node first; the ranges are disjoint and cover exactly the positions of the
  nodes outside the top part. Taking the heaviest root off the queue always ends.\<close>

theorem partition_subtrees_correct:
  assumes "tree_wf t" "nonneg t" "subtree_sums t = Some u" "min_work \<le> sum_list (tv_work t)" "1 \<le> threads" "contiguous t"
  shows "\<exists>roots tp. partition_subtrees t u threads min_work =
      Some (map (\<lambda>s. (first_pos t s, pos_of (tv_postorder t) s)) roots, tp)
    \<and> distinct roots \<and> set roots = {v. light_root t (target_of t threads) v}
    \<and> sorted_wrt (\<lambda>a b. (sub_work t a, a) \<ge> (sub_work t b, b)) roots
    \<and> length tp = length (tv_parent t)
    \<and> (\<forall>v. 0 \<le> v \<and> v < tv_n t \<longrightarrow> (elt tp v \<longleftrightarrow> sub_work t v > target_of t threads))
    \<and> (\<forall>a \<in> set roots. \<forall>b \<in> set roots. a \<noteq> b \<longrightarrow>
         pos_of (tv_postorder t) a < first_pos t b \<or> pos_of (tv_postorder t) b < first_pos t a)
    \<and> (\<forall>k. 0 \<le> k \<and> k < tv_n t \<longrightarrow>
         ((\<exists>s \<in> set roots. first_pos t s \<le> k \<and> k \<le> pos_of (tv_postorder t) s) \<longleftrightarrow> \<not> elt tp (elt (tv_postorder t) k)))"
proof -
  let ?T = "target_of t threads"
  have u: "sums_ok t u" by (rule ok_the [OF subtree_sums_ok [OF assms(1)] assms(3)])
  obtain heap tp where r: "partition_subtrees t u threads min_work =
      Some (map (\<lambda>(w, s). (first_pos t s, pos_of (tv_postorder t) s)) heap, tp)"
    "length tp = length (tv_parent t)" "marks tp = {v. heavy t ?T v}"
    "set heap = keyed t ` {v. light_root t ?T v}" "sorted_wrt (\<ge>) heap" "distinct heap"
    using partition_subtrees_ok [OF assms(1,2) u _ assms(4), of threads] assms(5) by auto
  have heap: "heap = map (keyed t) (map snd heap)"
    unfolding map_map by (rule map_idI [symmetric]) (use r(4) in auto)
  have marks: "elt tp v \<longleftrightarrow> heavy t ?T v" if "0 \<le> v" "v < tv_n t" for v
    using r(2,3) that by (auto simp: marks_def set_eq_iff)
  then have "elt tp v \<longleftrightarrow> sub_work t v > ?T" if "0 \<le> v" "v < tv_n t" for v
    using that by (simp add: heavy_def)
  moreover have "distinct (map snd heap)" using r(6) heap by (metis distinct_map)
  moreover have roots: "set (map snd heap) = {v. light_root t ?T v}" unfolding set_map r(4) image_image by simp
  moreover have "pos_of (tv_postorder t) a < first_pos t b \<or> pos_of (tv_postorder t) b < first_pos t a"
    if "a \<in> set (map snd heap)" "b \<in> set (map snd heap)" "a \<noteq> b" for a b
    using light_ranges(1) [OF assms(1,2,6) _ _ that(3)] that(1,2) unfolding roots by blast
  moreover have "(\<exists>s \<in> set (map snd heap). first_pos t s \<le> k \<and> k \<le> pos_of (tv_postorder t) s) \<longleftrightarrow> \<not> elt tp (elt (tv_postorder t) k)"
    if k: "0 \<le> k" "k < tv_n t" for k
  proof -
    have "elt (tv_postorder t) k \<in> set (tv_postorder t)" using k tree_wfD(7) [OF assms(1)] by (intro elt_in_set) simp_all
    then have "0 \<le> elt (tv_postorder t) k" "elt (tv_postorder t) k < tv_n t" unfolding tree_wfD(5) [OF assms(1)] by simp_all
    then show ?thesis using light_ranges(2) [OF assms(1,2,6) k, of ?T] marks unfolding roots by auto
  qed
  moreover have "sorted_wrt (\<lambda>a b. keyed t a \<ge> keyed t b) (map snd heap)"
    using r(5) heap sorted_wrt_map [of "(\<ge>)" "keyed t" "map snd heap"] by simp
  moreover have "map (\<lambda>(w, s). (first_pos t s, pos_of (tv_postorder t) s)) heap =
      map (\<lambda>s. (first_pos t s, pos_of (tv_postorder t) s)) (map snd heap)" by (simp add: case_prod_unfold)
  ultimately show ?thesis using r(1,2)
    by (intro exI [of _ "map snd heap"] exI [of _ tp] conjI allI ballI impI) (simp_all only:)
qed

theorem partition_subtrees_correct_witness:
  "\<exists>u roots tp. subtree_sums example_tree = Some u \<and> target_of example_tree 1 = 25
     \<and> partition_subtrees example_tree u 1 50 = Some (map (\<lambda>s. (first_pos example_tree s, pos_of (tv_postorder example_tree) s)) roots, tp)
     \<and> elt tp 2 \<and> \<not> elt tp 0"
proof -
  have nn: "nonneg example_tree" by (simp add: nonneg_def example_tree_def)
  obtain u where u: "subtree_sums example_tree = Some u" using ok_ex [OF subtree_sums_ok [OF example_tree_wf]] by blast
  have big: "50 \<le> sum_list (tv_work example_tree)" by (simp add: example_tree_def)
  have vals: "target_of example_tree 1 = 25" "sub_work example_tree 2 = 40" "sub_work example_tree 0 = 4" "tv_n example_tree = 5"
    by code_simp+
  have c: "contiguous example_tree"
    by (rule contiguous_full_post [OF example_tree_wf]) code_simp
  obtain roots tp where r: "partition_subtrees example_tree u 1 50 =
      Some (map (\<lambda>s. (first_pos example_tree s, pos_of (tv_postorder example_tree) s)) roots, tp)"
    "\<And>v. 0 \<le> v \<Longrightarrow> v < 5 \<Longrightarrow> elt tp v \<longleftrightarrow> sub_work example_tree v > 25"
    using partition_subtrees_correct [OF example_tree_wf nn u big order_refl c] unfolding vals(1,4) by blast
  have "elt tp 2" "\<not> elt tp 0" using r(2) [of 2] r(2) [of 0] unfolding vals(2,3) by simp_all
  then show ?thesis
    using u vals(1) r(1) by (intro exI [of _ u] exI [of _ roots] exI [of _ tp] conjI) assumption+
qed

end
