(* ===== verification/TreeTasks.thy ===== *)
theory TreeTasks
  imports TreePartition
begin

text \<open>
  The tasks of the tree-parallel factorization (\<open>merged_tasks\<close>, \<open>partition_tasks\<close>) and the phase
  terms their cost model needs (\<open>phase_terms\<close>, \<open>partition_count\<close>), all of \<open>thread_plan.cpp\<close>: the
  same split as \<open>partition_subtrees\<close>, without its queue.
\<close>

section \<open>The code\<close>

record work_range =
  rg_lo :: int
  rg_hi :: int
  rg_work :: rat

definition kTaskGrainsPerThread :: rat where "kTaskGrainsPerThread = 16"

definition task_grain :: "rat \<Rightarrow> int \<Rightarrow> rat" where
  "task_grain sub_total threads = sub_total / (kTaskGrainsPerThread * of_int threads)"

text \<open>\<open>u.work[s] > target || (p >= 0 && !(u.work[p] > target))\<close>.\<close>

definition skip_node :: "tree_view \<Rightarrow> subtree_sums \<Rightarrow> rat \<Rightarrow> int \<Rightarrow> bool option" where
  "skip_node t u target s = do {
     p \<leftarrow> vget (tv_parent t) s;
     w \<leftarrow> vget (ss_work u) s;
     if w > target then Some True
     else if p \<ge> 0 then do { wp \<leftarrow> vget (ss_work u) p; Some (\<not> wp > target) }
     else Some False
   }"

definition merge_range :: "rat \<Rightarrow> work_range \<Rightarrow> work_range list \<Rightarrow> work_range list" where
  "merge_range grain r out =
     (if out \<noteq> [] \<and> rg_hi (last out) + 1 = rg_lo r \<and> rg_work (last out) + rg_work r \<le> grain
      then butlast out @ [(last out)\<lparr>rg_hi := rg_hi r, rg_work := rg_work (last out) + rg_work r\<rparr>]
      else out @ [r])"

definition merged_tasks ::
  "tree_view \<Rightarrow> subtree_sums \<Rightarrow> rat \<Rightarrow> rat \<Rightarrow> int \<Rightarrow> work_range list option" where
  "merged_tasks t u target sub_total threads =
     forM (tv_postorder t) (\<lambda>s out. do {
       skip \<leftarrow> skip_node t u target s;
       if skip then Some out
       else do {
         lo \<leftarrow> vget (ss_first u) s;
         hi \<leftarrow> vget (ss_at u) s;
         w \<leftarrow> vget (ss_work u) s;
         Some (merge_range (task_grain sub_total threads) \<lparr>rg_lo = lo, rg_hi = hi, rg_work = w\<rparr> out)
       }
     }) []"

record phase_terms =
  pt_subtrees :: int
  pt_top :: int
  pt_sub_total :: rat
  pt_max_subtree :: rat
  pt_top_total :: rat
  pt_cp_top :: rat
  pt_split_top :: int
  pt_split_top_work :: rat

definition pt_init :: phase_terms where
  "pt_init = \<lparr>pt_subtrees = 0, pt_top = 0, pt_sub_total = 0, pt_max_subtree = 0, pt_top_total = 0,
     pt_cp_top = 0, pt_split_top = 0, pt_split_top_work = 0\<rparr>"

definition phase_top_node ::
  "tree_view \<Rightarrow> int \<Rightarrow> int \<Rightarrow> int \<Rightarrow> rat list \<times> phase_terms \<Rightarrow> (rat list \<times> phase_terms) option" where
  "phase_top_node t threads s p = (\<lambda>(below, pt). do {
     w \<leftarrow> vget (tv_work t) s;
     sp \<leftarrow> vget (tv_split t) s;
     let pt = pt\<lparr>pt_top := pt_top pt + 1, pt_top_total := pt_top_total pt + w\<rparr>;
     let pt = (if sp = kSplitTiles
               then pt\<lparr>pt_split_top := pt_split_top pt + 1, pt_split_top_work := pt_split_top_work pt + w\<rparr> else pt);
     b \<leftarrow> vget below s;
     let path = (if sp \<noteq> 0 then w / of_int threads else w) + b;
     if p \<ge> 0 then do {
       bp \<leftarrow> vget below p;
       below \<leftarrow> vset below p (max bp path);
       Some (below, pt)
     } else Some (below, pt\<lparr>pt_cp_top := max (pt_cp_top pt) path\<rparr>)
   })"

definition phase_node ::
  "tree_view \<Rightarrow> subtree_sums \<Rightarrow> rat \<Rightarrow> int \<Rightarrow> int \<Rightarrow> rat list \<times> phase_terms \<Rightarrow> (rat list \<times> phase_terms) option" where
  "phase_node t u target threads s = (\<lambda>(below, pt). do {
     p \<leftarrow> vget (tv_parent t) s;
     ws \<leftarrow> vget (ss_work u) s;
     if ws > target then phase_top_node t threads s p (below, pt)
     else do {
       subtree \<leftarrow> (if p < 0 then Some True else do { wp \<leftarrow> vget (ss_work u) p; Some (wp > target) });
       Some (below, if subtree then pt\<lparr>pt_sub_total := pt_sub_total pt + ws\<rparr> else pt)
     }
   })"

definition phase_terms_of :: "tree_view \<Rightarrow> subtree_sums \<Rightarrow> rat \<Rightarrow> int \<Rightarrow> phase_terms option" where
  "phase_terms_of t u target threads = do {
     (_, pt) \<leftarrow> forM (tv_postorder t) (phase_node t u target threads)
       (replicate (length (tv_parent t)) 0, pt_init);
     ranges \<leftarrow> merged_tasks t u target (pt_sub_total pt) threads;
     Some (pt\<lparr>pt_subtrees := int (length ranges),
              pt_max_subtree := fold (\<lambda>r m. max m (rg_work r)) ranges (pt_max_subtree pt)\<rparr>)
   }"

text \<open>\<open>std::sort\<close> with \<open>a.work != b.work ? a.work > b.work : postorder[a.hi] > postorder[b.hi]\<close>.\<close>

definition partition_tasks ::
  "tree_view \<Rightarrow> subtree_sums \<Rightarrow> int \<Rightarrow> rat \<Rightarrow> ((int \<times> int) list \<times> bool list) option" where
  "partition_tasks t u threads min_work = do {
     let tp = replicate (length (tv_parent t)) False;
     if ss_total u < min_work then Some ([], tp)
     else if threads = 0 then None
     else do {
       let target = ss_total u / (4 * of_int threads);
       (tp, sub_total) \<leftarrow> forM (tv_postorder t) (\<lambda>s (tp, sub_total). do {
         p \<leftarrow> vget (tv_parent t) s;
         w \<leftarrow> vget (ss_work u) s;
         if w > target then do { tp \<leftarrow> vset tp s True; Some (tp, sub_total) }
         else do {
           subtree \<leftarrow> (if p < 0 then Some True else do { wp \<leftarrow> vget (ss_work u) p; Some (wp > target) });
           Some (tp, if subtree then sub_total + w else sub_total)
         }
       }) (tp, 0);
       ranges \<leftarrow> merged_tasks t u target sub_total threads;
       ends \<leftarrow> forM ranges (\<lambda>r acc. do { v \<leftarrow> vget (tv_postorder t) (rg_hi r); Some (acc @ [(v, r)]) }) [];
       Some (map (\<lambda>(_, r). (rg_lo r, rg_hi r)) (sort_key (\<lambda>(v, r). (- rg_work r, - v)) ends), tp)
     }
   }"

definition partition_count :: "tree_view \<Rightarrow> subtree_sums \<Rightarrow> int \<Rightarrow> rat \<Rightarrow> (int \<times> int) option" where
  "partition_count t u threads min_work =
     (if ss_total u < min_work then Some (0, 0)
      else if threads = 0 then None
      else do {
        pt \<leftarrow> phase_terms_of t u (ss_total u / (4 * of_int threads)) threads;
        Some (pt_subtrees pt, pt_top pt)
      })"

section \<open>The work of the two parts\<close>

lemma split_work:
  assumes nn: "nonneg t" and wf: "tree_wf t"
  shows "(\<Sum>r \<in> {r. light_root t target r}. sub_work t r) + (\<Sum>v \<in> {v. heavy t target v}. elt (tv_work t) v) = sum_list (tv_work t)"
proof -
  let ?W = "elt (tv_work t)" and ?B = "\<lambda>r. {w. below (tv_P t) r w}" and ?N = "{0..<tv_n t}"
  let ?R = "{r. light_root t target r}" and ?H = "{v. heavy t target v}"
  have fin: "finite ?R" "finite ?H" by (rule finite_subset [of _ ?N], auto simp: light_root_def heavy_def)+
  have sub: "sub_work t r = sum ?W (?B r)" for r
    unfolding sub_work_def set_post [symmetric] by (rule sum_list_distinct_conv_sum_set [OF distinct_post])
  have finB: "finite (?B r)" for r unfolding set_post [symmetric] by simp
  have B: "w \<in> ?N" if "light_root t target r" "below (tv_P t) r w" for r w
  proof -
    have "0 \<le> r" "r < tv_n t" using that(1) by (simp_all add: light_root_def)
    moreover have "0 \<le> r \<Longrightarrow> 0 \<le> w" using that(2) by (induction rule: below.induct) simp_all
    ultimately show ?thesis using below_le [OF that(2)] by simp
  qed
  have dis: "?B a \<inter> ?B b = {}" if "a \<in> ?R" "b \<in> ?R" "a \<noteq> b" for a b
  proof (rule ccontr)
    assume "?B a \<inter> ?B b \<noteq> {}"
    then obtain w where "below (tv_P t) a w" "below (tv_P t) b w" by blast
    then show False using light_root_unique [OF nn wf, of target a b w] that by simp
  qed
  have "(\<Sum>r \<in> ?R. sub_work t r) = sum ?W (\<Union>r \<in> ?R. ?B r)"
    unfolding sub using fin(1) finB dis by (intro sum.UNION_disjoint [symmetric]) auto
  moreover have "(\<Union>r \<in> ?R. ?B r) = ?N - ?H"
  proof (intro set_eqI iffI)
    fix w assume "w \<in> (\<Union>r \<in> ?R. ?B r)"
    then obtain r where r: "light_root t target r" "below (tv_P t) r w" by blast
    have "\<not> heavy t target w" by (rule light_down [OF nn wf r(2)]) (use r(1) in \<open>simp_all add: light_root_def\<close>)
    then show "w \<in> ?N - ?H" using B [OF r] by simp
  next
    fix w assume "w \<in> ?N - ?H"
    then show "w \<in> (\<Union>r \<in> ?R. ?B r)" using light_root_above [OF nn wf, of w target] by auto
  qed
  moreover have "?H \<subseteq> ?N" by (auto simp: heavy_def)
  then have "sum ?W (?N - ?H) + sum ?W ?H = sum ?W ?N" by (rule sum.subset_diff [symmetric]) simp
  moreover have "sum ?W ?N = sum_list (tv_work t)"
  proof -
    have "sum ?W ?N = sum_list (map ?W [0..tv_n t - 1])"
    proof -
      have "set [0..tv_n t - 1] = ?N" by auto
      then show ?thesis using sum_list_distinct_conv_sum_set [of "[0..tv_n t - 1]" ?W] by simp
    qed
    then show ?thesis using elt_upto [of "tv_work t"] tree_wfD(2) [OF wf] by simp
  qed
  ultimately show ?thesis by simp
qed

section \<open>Merging adjacent light subtrees\<close>

definition light_roots :: "tree_view \<Rightarrow> rat \<Rightarrow> int list" where
  "light_roots t target = filter (light_root t target) (tv_postorder t)"

definition node_range :: "tree_view \<Rightarrow> int \<Rightarrow> work_range" where
  "node_range t s = \<lparr>rg_lo = first_pos t s, rg_hi = pos_of (tv_postorder t) s, rg_work = sub_work t s\<rparr>"

definition group_range :: "tree_view \<Rightarrow> int list \<Rightarrow> work_range" where
  "group_range t g = \<lparr>rg_lo = first_pos t (hd g), rg_hi = pos_of (tv_postorder t) (last g),
     rg_work = sum_list (map (sub_work t) g)\<rparr>"

text \<open>A group of adjacent subtrees within the grain, or a single subtree.\<close>

definition group_ok :: "tree_view \<Rightarrow> rat \<Rightarrow> int list \<Rightarrow> bool" where
  "group_ok t grain g \<longleftrightarrow> g \<noteq> [] \<and> (length g = 1 \<or> sum_list (map (sub_work t) g) \<le> grain)
     \<and> (\<forall>i. i + 1 < length g \<longrightarrow> pos_of (tv_postorder t) (g ! i) + 1 = first_pos t (g ! (i + 1)))"

lemma group_ok_single: "group_ok t grain [s]"
  by (simp add: group_ok_def)

lemma group_ok_extend:
  assumes "group_ok t grain g" "pos_of (tv_postorder t) (last g) + 1 = first_pos t s"
    "sum_list (map (sub_work t) g) + sub_work t s \<le> grain"
  shows "group_ok t grain (g @ [s])"
  unfolding group_ok_def
proof (intro conjI allI impI)
  show "g @ [s] \<noteq> []" by simp
  show "length (g @ [s]) = 1 \<or> sum_list (map (sub_work t) (g @ [s])) \<le> grain" using assms(3) by simp
  fix i assume i: "i + 1 < length (g @ [s])"
  show "pos_of (tv_postorder t) ((g @ [s]) ! i) + 1 = first_pos t ((g @ [s]) ! (i + 1))"
  proof (cases "i + 1 < length g")
    case True
    then show ?thesis using assms(1) by (simp add: group_ok_def nth_append)
  next
    case False
    then have "i = length g - 1" "g \<noteq> []" using i assms(1) by (auto simp: group_ok_def)
    then show ?thesis using assms(2) by (simp add: nth_append last_conv_nth)
  qed
qed

text \<open>The next subtree would still fit into the group, and no group of a list could have taken the next one's first subtree.\<close>

definition joins :: "tree_view \<Rightarrow> rat \<Rightarrow> int list \<Rightarrow> int \<Rightarrow> bool" where
  "joins t grain g s \<longleftrightarrow> pos_of (tv_postorder t) (last g) + 1 = first_pos t s \<and> sum_list (map (sub_work t) g) + sub_work t s \<le> grain"

fun separated :: "tree_view \<Rightarrow> rat \<Rightarrow> int list list \<Rightarrow> bool" where
  "separated t grain (g # h # gs) \<longleftrightarrow> \<not> joins t grain g (hd h) \<and> separated t grain (h # gs)"
| "separated t grain gs \<longleftrightarrow> True"

lemma separated_snoc:
  "separated t grain (gs @ [g, h]) \<longleftrightarrow> separated t grain (gs @ [g]) \<and> \<not> joins t grain g (hd h)"
proof (induction gs)
  case (Cons x gs)
  then show ?case by (cases gs) auto
qed simp

lemma separated_last:
  assumes "g \<noteq> []"
  shows "separated t grain (gs @ [g @ [s]]) = separated t grain (gs @ [g])"
  using assms by (cases gs rule: rev_cases) (simp_all add: separated_snoc)

lemma merge_groups:
  assumes "out = map (group_range t) gs" "\<forall>g \<in> set gs. group_ok t grain g" "separated t grain gs"
  shows "\<exists>gs'. merge_range grain (node_range t s) out = map (group_range t) gs'
    \<and> concat gs' = concat gs @ [s] \<and> (\<forall>g \<in> set gs'. group_ok t grain g) \<and> separated t grain gs'"
proof (cases "out \<noteq> [] \<and> rg_hi (last out) + 1 = rg_lo (node_range t s)
    \<and> rg_work (last out) + rg_work (node_range t s) \<le> grain")
  case True
  then have "gs \<noteq> []" using assms(1) by auto
  then obtain hs g where gs: "gs = hs @ [g]" by (metis rev_exhaust)
  have last: "last out = group_range t g" "butlast out = map (group_range t) hs" using assms(1) gs by simp_all
  have g: "group_ok t grain g" using assms(2) gs by simp
  then have "g \<noteq> []" by (simp add: group_ok_def)
  then have ext: "(group_range t g)\<lparr>rg_hi := rg_hi (node_range t s),
      rg_work := rg_work (group_range t g) + rg_work (node_range t s)\<rparr> = group_range t (g @ [s])"
    by (simp add: group_range_def node_range_def)
  have "group_ok t grain (g @ [s])"
    by (rule group_ok_extend [OF g]) (use True last in \<open>simp_all add: group_range_def node_range_def\<close>)
  moreover have "separated t grain (hs @ [g @ [s]])" using assms(3) separated_last [OF \<open>g \<noteq> []\<close>] gs by simp
  ultimately show ?thesis
    using True assms(2) gs unfolding merge_range_def if_P [OF True] last ext
    by (intro exI [of _ "hs @ [g @ [s]]"]) auto
next
  case False
  have "separated t grain (gs @ [[s]])"
  proof (cases gs rule: rev_cases)
    case (snoc hs g)
    then have "\<not> joins t grain g s" using False assms(1) by (simp add: joins_def group_range_def node_range_def)
    then show ?thesis using assms(3) snoc by (simp add: separated_snoc)
  qed simp
  moreover have "node_range t s = group_range t [s]" by (simp add: node_range_def group_range_def)
  ultimately show ?thesis
    using assms group_ok_single unfolding merge_range_def if_not_P [OF False]
    by (intro exI [of _ "gs @ [[s]]"]) auto
qed

lemma fold_merge_groups:
  "\<exists>gs. fold (merge_range grain) (map (node_range t) ss) [] = map (group_range t) gs
    \<and> concat gs = ss \<and> (\<forall>g \<in> set gs. group_ok t grain g) \<and> separated t grain gs"
proof (induction ss rule: rev_induct)
  case Nil
  then show ?case by (intro exI [of _ "[]"]) simp
next
  case (snoc s ss)
  then obtain gs where "fold (merge_range grain) (map (node_range t) ss) [] = map (group_range t) gs"
    "concat gs = ss" "\<forall>g \<in> set gs. group_ok t grain g" "separated t grain gs" by blast
  then show ?case using merge_groups [of "map (group_range t) gs" t gs grain s] by auto
qed

lemma skip_node_eq:
  assumes wf: "tree_wf t" and u: "sums_ok t u" and s: "0 \<le> s" "s < tv_n t"
  shows "skip_node t u target s = Some (\<not> light_root t target s)"
proof -
  have P: "tv_P t s = -1 \<or> s < tv_P t s \<and> tv_P t s < tv_n t" using tree_wfD(1) [OF wf] s unfolding ordered_forest_def by blast
  have get: "vget (tv_parent t) s = Some (tv_P t s)" "vget (ss_work u) s = Some (sub_work t s)"
    using s u by (simp_all add: vget_at sums_ok_def)
  show ?thesis
  proof (cases "tv_P t s = -1")
    case True
    then show ?thesis using get s by (simp add: skip_node_def light_root_def heavy_def)
  next
    case False
    then have p: "0 \<le> tv_P t s" "tv_P t s < tv_n t" "s < tv_P t s" using P s by auto
    then have "vget (ss_work u) (tv_P t s) = Some (sub_work t (tv_P t s))" using u by (simp add: vget_at sums_ok_def)
    then show ?thesis using get s p False by (simp add: skip_node_def light_root_def heavy_def)
  qed
qed

lemma merged_tasks_eq:
  assumes wf: "tree_wf t" and u: "sums_ok t u"
  shows "merged_tasks t u target sub_total threads =
    Some (fold (merge_range (task_grain sub_total threads)) (map (node_range t) (light_roots t target)) [])"
proof -
  let ?g = "task_grain sub_total threads"
  have "merged_tasks t u target sub_total threads =
      forM (tv_postorder t) (\<lambda>s out. if \<not> light_root t target s then Some out else Some (merge_range ?g (node_range t s) out)) []"
    unfolding merged_tasks_def
  proof (rule forM_cong)
    fix s out assume "s \<in> set (tv_postorder t)"
    then have s: "0 \<le> s" "s < tv_n t" unfolding tree_wfD(5) [OF wf] by simp_all
    have "vget (ss_first u) s = Some (first_pos t s)" "vget (ss_at u) s = Some (pos_of (tv_postorder t) s)"
      "vget (ss_work u) s = Some (sub_work t s)" using s u by (simp_all add: vget_at sums_ok_def)
    then show "do {
       skip \<leftarrow> skip_node t u target s;
       if skip then Some out
       else do {
         lo \<leftarrow> vget (ss_first u) s;
         hi \<leftarrow> vget (ss_at u) s;
         w \<leftarrow> vget (ss_work u) s;
         Some (merge_range ?g \<lparr>rg_lo = lo, rg_hi = hi, rg_work = w\<rparr> out)
       }
     } = (if \<not> light_root t target s then Some out else Some (merge_range ?g (node_range t s) out))"
      unfolding skip_node_eq [OF wf u s] by (simp add: node_range_def)
  qed
  also have "\<dots> = forM (light_roots t target) (\<lambda>s out. Some (merge_range ?g (node_range t s) out)) []"
    unfolding forM_skip light_roots_def by simp
  also have "\<dots> = Some (fold (merge_range ?g) (map (node_range t) (light_roots t target)) [])"
  proof -
    have "forM ss (\<lambda>s out. Some (merge_range ?g (node_range t s) out)) a = Some (fold (merge_range ?g) (map (node_range t) ss) a)" for ss a
      by (induction ss arbitrary: a) simp_all
    then show ?thesis .
  qed
  finally show ?thesis .
qed

section \<open>The phase terms\<close>

lemma light_check:
  assumes wf: "tree_wf t" and u: "sums_ok t u" and s: "0 \<le> s" "s < tv_n t" and nh: "\<not> heavy t target s"
  shows "(if tv_P t s < 0 then Some True else do { wp \<leftarrow> vget (ss_work u) (tv_P t s); Some (wp > target) }) =
    Some (light_root t target s)"
proof -
  have P: "tv_P t s = -1 \<or> s < tv_P t s \<and> tv_P t s < tv_n t" using tree_wfD(1) [OF wf] s unfolding ordered_forest_def by blast
  show ?thesis
  proof (cases "tv_P t s < 0")
    case True
    then have "tv_P t s = -1" using P s by auto
    then show ?thesis using s nh by (simp add: light_root_def)
  next
    case p: False
    then have pr: "0 \<le> tv_P t s" "tv_P t s < tv_n t" using P by auto
    then have "vget (ss_work u) (tv_P t s) = Some (sub_work t (tv_P t s))" using u by (simp add: vget_at sums_ok_def)
    moreover have "tv_P t s \<noteq> -1" using pr by simp
    ultimately show ?thesis using p s nh pr by (simp add: light_root_def) (simp add: heavy_def)
  qed
qed

definition phase_inv :: "tree_view \<Rightarrow> rat \<Rightarrow> int list \<Rightarrow> rat list \<times> phase_terms \<Rightarrow> bool" where
  "phase_inv t target pre = (\<lambda>(below, pt). length below = length (tv_parent t)
     \<and> pt_subtrees pt = 0 \<and> pt_max_subtree pt = 0
     \<and> pt_top pt = int (length (filter (heavy t target) pre))
     \<and> pt_top_total pt = sum_list (map (elt (tv_work t)) (filter (heavy t target) pre))
     \<and> pt_sub_total pt = sum_list (map (sub_work t) (filter (light_root t target) pre))
     \<and> 0 \<le> pt_split_top_work pt \<and> 0 \<le> pt_split_top pt \<and> 0 \<le> pt_cp_top pt)"

lemma phase_node_ok:
  assumes wf: "tree_wf t" and u: "sums_ok t u" and nn: "nonneg t" and s: "0 \<le> s" "s < tv_n t"
    and inv: "phase_inv t target pre st"
  shows "ok (phase_node t u target threads s st) (phase_inv t target (pre @ [s]))"
proof -
  obtain below pt where st: "st = (below, pt)" by (cases st)
  have len: "length below = length (tv_parent t)" using inv st by (simp add: phase_inv_def)
  have P: "tv_P t s = -1 \<or> s < tv_P t s \<and> tv_P t s < tv_n t" using tree_wfD(1) [OF wf] s unfolding ordered_forest_def by blast
  have get: "vget (tv_parent t) s = Some (tv_P t s)" "vget (ss_work u) s = Some (sub_work t s)"
    "vget (tv_work t) s = Some (elt (tv_work t) s)" "vget (tv_split t) s = Some (elt (tv_split t) s)"
    "vget below s = Some (elt below s)"
    using s u len tree_wfD(2,3) [OF wf] by (simp_all add: vget_at sums_ok_def)
  have w: "0 \<le> elt (tv_work t) s" using nn s tree_wfD(2) [OF wf] by (simp add: nonneg_def elt_def)
  show ?thesis
  proof (cases "sub_work t s > target")
    case True
    then have h: "heavy t target s" "\<not> light_root t target s" using s by (simp_all add: heavy_def light_root_def)
    show ?thesis
    proof (cases "tv_P t s \<ge> 0")
      case p: True
      then have pr: "tv_P t s < tv_n t" using P by auto
      then have gp: "vget below (tv_P t s) = Some (elt below (tv_P t s))" "\<And>x. vset below (tv_P t s) x = Some (below[nat (tv_P t s) := x])"
        using p len by (simp_all add: vget_at vset_def)
      show ?thesis
        using inv h w
        unfolding st phase_node_def phase_top_node_def prod.case get bind.simps if_P [OF True] Let_def gp if_P [OF p]
        by (simp add: phase_inv_def)
    next
      case p: False
      show ?thesis
        using inv h w
        unfolding st phase_node_def phase_top_node_def prod.case get bind.simps if_P [OF True] Let_def if_not_P [OF p]
        by (simp add: phase_inv_def le_max_iff_disj)
    qed
  next
    case False
    have nh: "\<not> heavy t target s" using False by (simp add: heavy_def)
    show ?thesis
      using inv nh
      unfolding st phase_node_def prod.case get bind.simps if_not_P [OF False] light_check [OF wf u s nh]
      by (simp add: phase_inv_def)
  qed
qed

lemma phase_loop_ok:
  assumes wf: "tree_wf t" and u: "sums_ok t u" and nn: "nonneg t"
  shows "ok (forM (tv_postorder t) (phase_node t u target threads) (replicate (length (tv_parent t)) 0, pt_init))
    (phase_inv t target (tv_postorder t))"
proof (rule forM_ok [where I = "\<lambda>pre _. phase_inv t target pre"])
  show "phase_inv t target [] (replicate (length (tv_parent t)) 0, pt_init)" by (simp add: phase_inv_def pt_init_def)
  fix pre s suf st assume a: "tv_postorder t = pre @ s # suf" "phase_inv t target pre st"
  then have "s \<in> set (tv_postorder t)" by simp
  then have "0 \<le> s" "s < tv_n t" unfolding tree_wfD(5) [OF wf] by simp_all
  then show "ok (phase_node t u target threads s st) (phase_inv t target (pre @ [s]))"
    using phase_node_ok [OF wf u nn _ _ a(2)] by blast
qed

lemma list_sum_filter:
  assumes wf: "tree_wf t" and Q: "\<And>v. Q v \<Longrightarrow> 0 \<le> v \<and> v < tv_n t"
  shows "sum_list (map f (filter Q (tv_postorder t))) = sum f {v. Q v}"
    "length (filter Q (tv_postorder t)) = card {v. Q v}"
proof -
  have d: "distinct (filter Q (tv_postorder t))" using tree_wfD(4) [OF wf] by simp
  have s: "set (filter Q (tv_postorder t)) = {v. Q v}" using tree_wfD(5) [OF wf] Q by auto
  show "sum_list (map f (filter Q (tv_postorder t))) = sum f {v. Q v}"
    using sum_list_distinct_conv_sum_set [OF d, of f] unfolding s .
  show "length (filter Q (tv_postorder t)) = card {v. Q v}" using distinct_card [OF d] unfolding s by simp
qed

lemma phase_terms_ok:
  assumes wf: "tree_wf t" and u: "sums_ok t u" and nn: "nonneg t"
  shows "\<exists>pt gs sub_total. phase_terms_of t u target threads = Some pt
    \<and> sub_total = (\<Sum>r \<in> {r. light_root t target r}. sub_work t r)
    \<and> merged_tasks t u target sub_total threads = Some (map (group_range t) gs)
    \<and> concat gs = light_roots t target \<and> (\<forall>g \<in> set gs. group_ok t (task_grain sub_total threads) g)
    \<and> separated t (task_grain sub_total threads) gs \<and> pt_subtrees pt = int (length gs) \<and> pt_top pt = int (card {v. heavy t target v})
    \<and> pt_sub_total pt = sub_total \<and> pt_sub_total pt + pt_top_total pt = sum_list (tv_work t)
    \<and> 0 \<le> pt_split_top_work pt \<and> 0 \<le> pt_split_top pt \<and> 0 \<le> pt_cp_top pt"
proof -
  let ?st = "\<Sum>r \<in> {r. light_root t target r}. sub_work t r"
  obtain below pt where r: "forM (tv_postorder t) (phase_node t u target threads) (replicate (length (tv_parent t)) 0, pt_init) = Some (below, pt)"
    "phase_inv t target (tv_postorder t) (below, pt)"
    using ok_ex [OF phase_loop_ok [OF wf u nn]] by (metis surj_pair)
  have light: "sum_list (map (sub_work t) (filter (light_root t target) (tv_postorder t))) = ?st"
    by (rule list_sum_filter(1) [OF wf]) (simp add: light_root_def)
  have heavies: "sum_list (map (elt (tv_work t)) (filter (heavy t target) (tv_postorder t))) = sum (elt (tv_work t)) {v. heavy t target v}"
    "length (filter (heavy t target) (tv_postorder t)) = card {v. heavy t target v}"
    by (rule list_sum_filter [OF wf], simp add: heavy_def)+
  have pt: "pt_sub_total pt = ?st" "pt_top pt = int (card {v. heavy t target v})"
    "pt_sub_total pt + pt_top_total pt = sum_list (tv_work t)"
    "0 \<le> pt_split_top_work pt" "0 \<le> pt_split_top pt" "0 \<le> pt_cp_top pt"
    using r(2) light heavies split_work [OF nn wf, of target] by (simp_all add: phase_inv_def)
  obtain gs where g: "fold (merge_range (task_grain ?st threads)) (map (node_range t) (light_roots t target)) [] = map (group_range t) gs"
    "concat gs = light_roots t target" "\<forall>g \<in> set gs. group_ok t (task_grain ?st threads) g" "separated t (task_grain ?st threads) gs"
    using fold_merge_groups by blast
  have m: "merged_tasks t u target ?st threads = Some (map (group_range t) gs)"
    using merged_tasks_eq [OF wf u] g(1) by simp
  let ?pt = "pt\<lparr>pt_subtrees := int (length gs),
     pt_max_subtree := fold (\<lambda>r m. max m (rg_work r)) (map (group_range t) gs) (pt_max_subtree pt)\<rparr>"
  have "phase_terms_of t u target threads = Some ?pt"
    unfolding phase_terms_of_def r(1) bind.simps prod.case pt(1) m by simp
  then show ?thesis using m g(2-4) pt by (intro exI [of _ ?pt] exI [of _ gs] exI [of _ ?st]) simp
qed

section \<open>The tasks\<close>

definition top_marks :: "tree_view \<Rightarrow> rat \<Rightarrow> bool list" where
  "top_marks t target = map (heavy t target) [0..tv_n t - 1]"

lemma top_marks_count: "length (filter (\<lambda>b. b) (top_marks t target)) = card {v. heavy t target v}"
proof -
  have "length (filter (\<lambda>b. b) (top_marks t target)) = length (filter (heavy t target) [0..tv_n t - 1])"
    by (simp add: top_marks_def filter_map comp_def)
  also have "\<dots> = card (set (filter (heavy t target) [0..tv_n t - 1]))" by (rule distinct_card [symmetric]) simp
  also have "set (filter (heavy t target) [0..tv_n t - 1]) = {v. heavy t target v}" by (auto simp: heavy_def)
  finally show ?thesis .
qed

lemma top_marks_eqI:
  assumes "length tp = length (tv_parent t)" "\<And>v. 0 \<le> v \<Longrightarrow> v < tv_n t \<Longrightarrow> elt tp v \<longleftrightarrow> heavy t target v"
  shows "tp = top_marks t target"
proof (rule nth_equalityI)
  show "length tp = length (top_marks t target)" using assms(1) by (simp add: top_marks_def)
  fix i assume "i < length tp"
  then show "tp ! i = top_marks t target ! i" using assms(1) assms(2) [of "int i"] by (simp add: top_marks_def elt_def)
qed

definition task_inv :: "tree_view \<Rightarrow> rat \<Rightarrow> int list \<Rightarrow> bool list \<times> rat \<Rightarrow> bool" where
  "task_inv t target pre = (\<lambda>(tp, sub_total). length tp = length (tv_parent t)
     \<and> (\<forall>v. 0 \<le> v \<and> v < tv_n t \<longrightarrow> (elt tp v \<longleftrightarrow> heavy t target v \<and> v \<in> set pre))
     \<and> sub_total = sum_list (map (sub_work t) (filter (light_root t target) pre)))"

definition task_node ::
  "tree_view \<Rightarrow> subtree_sums \<Rightarrow> rat \<Rightarrow> int \<Rightarrow> bool list \<times> rat \<Rightarrow> (bool list \<times> rat) option" where
  "task_node t u target s = (\<lambda>(tp, sub_total). do {
         p \<leftarrow> vget (tv_parent t) s;
         w \<leftarrow> vget (ss_work u) s;
         if w > target then do { tp \<leftarrow> vset tp s True; Some (tp, sub_total) }
         else do {
           subtree \<leftarrow> (if p < 0 then Some True else do { wp \<leftarrow> vget (ss_work u) p; Some (wp > target) });
           Some (tp, if subtree then sub_total + w else sub_total)
         }
       })"

lemma task_node_ok:
  assumes wf: "tree_wf t" and u: "sums_ok t u" and s: "0 \<le> s" "s < tv_n t" and inv: "task_inv t target pre st"
  shows "ok (task_node t u target s st) (task_inv t target (pre @ [s]))"
proof -
  obtain tp sub_total where st: "st = (tp, sub_total)" by (cases st)
  have len: "length tp = length (tv_parent t)" using inv st by (simp add: task_inv_def)
  have get: "vget (tv_parent t) s = Some (tv_P t s)" "vget (ss_work u) s = Some (sub_work t s)"
    "vset tp s True = Some (tp[nat s := True])"
    using s u len by (simp_all add: vget_at vset_def sums_ok_def)
  show ?thesis
  proof (cases "sub_work t s > target")
    case True
    then have h: "heavy t target s" "\<not> light_root t target s" using s by (simp_all add: heavy_def light_root_def)
    have "elt (tp[nat s := True]) v = (if v = s then True else elt tp v)" if "0 \<le> v" for v
      using that s len by (simp add: at_update)
    then show ?thesis
      using inv h unfolding st task_node_def prod.case get bind.simps if_P [OF True] by (auto simp: task_inv_def)
  next
    case False
    have nh: "\<not> heavy t target s" using False by (simp add: heavy_def)
    show ?thesis
      using inv nh
      unfolding st task_node_def prod.case get bind.simps if_not_P [OF False] light_check [OF wf u s nh]
      by (auto simp: task_inv_def)
  qed
qed

lemma task_loop_eq:
  assumes wf: "tree_wf t" and u: "sums_ok t u"
  shows "forM (tv_postorder t) (task_node t u target) (replicate (length (tv_parent t)) False, 0) =
    Some (top_marks t target, \<Sum>r \<in> {r. light_root t target r}. sub_work t r)"
proof -
  have "ok (forM (tv_postorder t) (task_node t u target) (replicate (length (tv_parent t)) False, 0))
    (task_inv t target (tv_postorder t))"
  proof (rule forM_ok [where I = "\<lambda>pre _. task_inv t target pre"])
    show "task_inv t target [] (replicate (length (tv_parent t)) False, 0)" by (auto simp: task_inv_def elt_def)
    fix pre s suf st assume a: "tv_postorder t = pre @ s # suf" "task_inv t target pre st"
    then have "s \<in> set (tv_postorder t)" by simp
    then have "0 \<le> s" "s < tv_n t" unfolding tree_wfD(5) [OF wf] by simp_all
    then show "ok (task_node t u target s st) (task_inv t target (pre @ [s]))" using task_node_ok [OF wf u _ _ a(2)] by blast
  qed
  then obtain tp sub_total where r: "forM (tv_postorder t) (task_node t u target) (replicate (length (tv_parent t)) False, 0) = Some (tp, sub_total)"
    "task_inv t target (tv_postorder t) (tp, sub_total)" by (auto simp: ok_def)
  have "elt tp v \<longleftrightarrow> heavy t target v" if "0 \<le> v" "v < tv_n t" for v
    using r(2) that tree_wfD(5) [OF wf] by (simp add: task_inv_def)
  then have "tp = top_marks t target" using r(2) by (intro top_marks_eqI) (simp_all add: task_inv_def)
  moreover have "sub_total = (\<Sum>r \<in> {r. light_root t target r}. sub_work t r)"
    using r(2) list_sum_filter(1) [OF wf, of "light_root t target" "sub_work t"] by (simp add: task_inv_def light_root_def)
  ultimately show ?thesis using r(1) by simp
qed

text \<open>The position range of a task, and the order of the tasks.\<close>

definition group_span :: "tree_view \<Rightarrow> int list \<Rightarrow> int \<times> int" where
  "group_span t g = (first_pos t (hd g), pos_of (tv_postorder t) (last g))"

definition group_key :: "tree_view \<Rightarrow> int list \<Rightarrow> rat \<times> int" where
  "group_key t g = (- sum_list (map (sub_work t) g), - last g)"

lemma pos_of_get:
  assumes wf: "tree_wf t" and v: "0 \<le> v" "v < tv_n t"
  shows "vget (tv_postorder t) (pos_of (tv_postorder t) v) = Some v"
proof -
  have "v \<in> set (tv_postorder t)" using v tree_wfD(5) [OF wf] by simp
  then obtain k where k: "k < length (tv_postorder t)" "tv_postorder t ! k = v" by (auto simp: in_set_conv_nth)
  then have "pos_of (tv_postorder t) v = int k" using pos_of_nth [OF tree_wfD(4) [OF wf]] by blast
  then show ?thesis using k by (simp add: vget_def)
qed

lemma partition_tasks_ok:
  assumes wf: "tree_wf t" and u: "sums_ok t u" and th: "threads \<noteq> 0" and big: "min_work \<le> sum_list (tv_work t)"
    and st: "sub_total = (\<Sum>r \<in> {r. light_root t (target_of t threads) r}. sub_work t r)"
    and gs: "merged_tasks t u (target_of t threads) sub_total threads = Some (map (group_range t) gs)"
      "concat gs = light_roots t (target_of t threads)" "\<forall>g \<in> set gs. group_ok t (task_grain sub_total threads) g"
  shows "partition_tasks t u threads min_work =
    Some (map (group_span t) (sort_key (group_key t) gs), top_marks t (target_of t threads))"
proof -
  let ?T = "target_of t threads"
  have target: "?T = ss_total u / (4 * of_int threads)" using u by (simp add: sums_ok_def target_of_def)
  have nb: "\<not> ss_total u < min_work" using u big by (simp add: sums_ok_def)
  have "vget (tv_postorder t) (rg_hi (group_range t g)) = Some (last g)" if "g \<in> set gs" for g
  proof -
    have "g \<noteq> []" using gs(3) that by (simp add: group_ok_def)
    then have "\<exists>x \<in> set gs. last g \<in> set x" using that last_in_set [of g] by blast
    then have "last g \<in> set (concat gs)" by simp
    then have "0 \<le> last g" "last g < tv_n t" unfolding gs(2) by (simp_all add: light_roots_def light_root_def)
    then show ?thesis using pos_of_get [OF wf] by (simp add: group_range_def)
  qed
  then have "forM (map (group_range t) gs) (\<lambda>r acc. do { v \<leftarrow> vget (tv_postorder t) (rg_hi r); Some (acc @ [(v, r)]) }) acc =
      Some (acc @ map (\<lambda>g. (last g, group_range t g)) gs)" for acc
    by (induction gs arbitrary: acc) simp_all
  then have ends: "forM (map (group_range t) gs) (\<lambda>r acc. do { v \<leftarrow> vget (tv_postorder t) (rg_hi r); Some (acc @ [(v, r)]) }) [] =
      Some (map (\<lambda>g. (last g, group_range t g)) gs)" by simp
  have "sort_key (\<lambda>(v, r). (- rg_work r, - v)) (map (\<lambda>g. (last g, group_range t g)) gs) =
      map (\<lambda>g. (last g, group_range t g)) (sort_key (group_key t) gs)"
  proof -
    have k: "(\<lambda>(v, r). (- rg_work r, - v)) \<circ> (\<lambda>g. (last g, group_range t g)) = group_key t"
      by (intro ext) (simp add: group_key_def group_range_def)
    have ins: "insort_key f (h x) (map h xs) = map h (insort_key (\<lambda>a. f (h a)) x xs)" for f :: "int \<times> work_range \<Rightarrow> rat \<times> int" and h :: "int list \<Rightarrow> int \<times> work_range" and x xs
      by (induction xs) simp_all
    have "sort_key f (map h xs) = map h (sort_key (f \<circ> h) xs)" for f :: "int \<times> work_range \<Rightarrow> rat \<times> int" and h :: "int list \<Rightarrow> int \<times> work_range" and xs
      by (induction xs) (simp_all add: ins comp_def)
    then show ?thesis by (simp add: k)
  qed
  then have "map (\<lambda>(_, r). (rg_lo r, rg_hi r)) (sort_key (\<lambda>(v, r). (- rg_work r, - v)) (map (\<lambda>g. (last g, group_range t g)) gs)) =
      map (group_span t) (sort_key (group_key t) gs)"
    by (simp add: group_span_def group_range_def)
  then show ?thesis
    unfolding partition_tasks_def Let_def if_not_P [OF nb] if_not_P [OF th] target [symmetric] task_node_def [symmetric]
      task_loop_eq [OF wf u] bind.simps prod.case st [symmetric] gs(1) ends
    by simp
qed

section \<open>Properties\<close>

text \<open>C18: for at least one thread \<open>partition_tasks\<close> splits the tree where \<open>partition_subtrees\<close> does (the same top part).
  Its tasks are the light subtrees in postorder with adjacent ones merged greedily: each task is one subtree or a run within
  the grain whose positions follow one another, and no task could have taken the first subtree of the task after it, since
  that is not adjacent or would exceed the grain; this determines the tasks. They come heaviest first, at equal work with
  the larger last node first. \<open>partition_count\<close> counts the tasks and the top part without building them.\<close>

theorem partition_tasks_correct:
  assumes "tree_wf t" "nonneg t" "subtree_sums t = Some u" "min_work \<le> sum_list (tv_work t)" "1 \<le> threads"
  shows "\<exists>groups ranges tp grain. partition_tasks t u threads min_work = Some (map (group_span t) (sort_key (group_key t) groups), tp)
    \<and> partition_subtrees t u threads min_work = Some (ranges, tp)
    \<and> partition_count t u threads min_work = Some (int (length groups), int (length (filter (\<lambda>b. b) tp)))
    \<and> grain = task_grain (\<Sum>r \<in> {r. light_root t (target_of t threads) r}. sub_work t r) threads
    \<and> (\<forall>g \<in> set groups. group_ok t grain g) \<and> separated t grain groups
    \<and> concat groups = light_roots t (target_of t threads)"
proof -
  let ?T = "target_of t threads"
  have u: "sums_ok t u" by (rule ok_the [OF subtree_sums_ok [OF assms(1)] assms(3)])
  have nb: "\<not> ss_total u < min_work" using u assms(4) by (simp add: sums_ok_def)
  have th: "threads \<noteq> 0" using assms(5) by simp
  have target: "?T = ss_total u / (4 * of_int threads)" using u by (simp add: sums_ok_def target_of_def)
  obtain pt gs sub_total where p: "phase_terms_of t u ?T threads = Some pt"
    "sub_total = (\<Sum>r \<in> {r. light_root t ?T r}. sub_work t r)"
    "merged_tasks t u ?T sub_total threads = Some (map (group_range t) gs)"
    "concat gs = light_roots t ?T" "\<forall>g \<in> set gs. group_ok t (task_grain sub_total threads) g"
    "pt_subtrees pt = int (length gs)" "pt_top pt = int (card {v. heavy t ?T v})" "separated t (task_grain sub_total threads) gs"
    using phase_terms_ok [OF assms(1) u assms(2), of ?T threads] by blast
  have tasks: "partition_tasks t u threads min_work = Some (map (group_span t) (sort_key (group_key t) gs), top_marks t ?T)"
    by (rule partition_tasks_ok [OF assms(1) u th assms(4) p(2-5)])
  obtain heap tp where ps: "partition_subtrees t u threads min_work =
      Some (map (\<lambda>(w :: rat, s). (first_pos t s, pos_of (tv_postorder t) s)) heap, tp)"
    "length tp = length (tv_parent t)" "marks tp = {v. heavy t ?T v}"
    using partition_subtrees_ok [OF assms(1,2) u th assms(4)] by blast
  have "tp = top_marks t ?T"
    by (rule top_marks_eqI [OF ps(2)]) (use ps(2,3) in \<open>auto simp: marks_def set_eq_iff\<close>)
  moreover have "partition_count t u threads min_work = Some (int (length gs), int (card {v. heavy t ?T v}))"
    unfolding partition_count_def if_not_P [OF nb] if_not_P [OF th] target [symmetric] p(1) bind.simps p(6,7) ..
  ultimately show ?thesis
    using tasks ps(1) p(2,4,5,8) top_marks_count [of t ?T] by (intro exI [of _ gs]) auto
qed

text \<open>Two adjacent light leaves within the grain become one task, after the two heavier leaves.\<close>

definition example_leaves :: tree_view where
  "example_leaves = \<lparr>tv_postorder = [0, 1, 2, 3, 4], tv_parent = [4, 4, 4, 4, -1],
     tv_work = [1, 1, 20, 20, 60], tv_split = [0, 0, 0, 0, 0]\<rparr>"

lemma example_leaves_wf: "tree_wf example_leaves"
proof -
  have "ordered_forest (tv_P example_leaves) 5"
    unfolding ordered_forest_def all_int_set by code_simp
  moreover have "{0, 1, 2, 3, 4} = {v :: int. 0 \<le> v \<and> v < 5}" by auto
  moreover have "full_post (tv_P example_leaves) 5 = [0, 1, 2, 3, 4]" by code_simp
  then have "children_first (tv_P example_leaves) [0, 1, 2, 3, 4]" using children_first_full by metis
  ultimately show ?thesis by (simp add: tree_wf_def Let_def example_leaves_def)
qed

theorem partition_tasks_correct_witness:
  "\<exists>u groups tp. subtree_sums example_leaves = Some u
     \<and> partition_tasks example_leaves u 1 50 = Some (map (group_span example_leaves) (sort_key (group_key example_leaves) groups), tp)
     \<and> concat groups = [0, 1, 2, 3] \<and> length groups = 3"
proof -
  have nn: "nonneg example_leaves" by (simp add: nonneg_def example_leaves_def)
  obtain u where u: "subtree_sums example_leaves = Some u" using ok_ex [OF subtree_sums_ok [OF example_leaves_wf]] by blast
  have big: "50 \<le> sum_list (tv_work example_leaves)" by (simp add: example_leaves_def)
  have "map_option (\<lambda>u. map_option fst (partition_tasks example_leaves u 1 50)) (subtree_sums example_leaves) = Some (Some [(3, 3), (2, 2), (0, 1)])"
    by code_simp
  then obtain tp where t: "partition_tasks example_leaves u 1 50 = Some ([(3, 3), (2, 2), (0, 1)], tp)" using u by auto
  have l: "light_roots example_leaves (target_of example_leaves 1) = [0, 1, 2, 3]" by code_simp
  obtain groups tp' where g: "partition_tasks example_leaves u 1 50 = Some (map (group_span example_leaves) (sort_key (group_key example_leaves) groups), tp')"
    "concat groups = [0, 1, 2, 3]"
    using partition_tasks_correct [OF example_leaves_wf nn u big order_refl] unfolding l by blast
  have "map (group_span example_leaves) (sort_key (group_key example_leaves) groups) = [(3, 3), (2, 2), (0, 1)]" using g(1) t by simp
  from arg_cong [OF this, of length] have "length groups = 3" by simp
  then show ?thesis using u g by blast
qed

end
