(* ===== verification/ThreadPlan.thy ===== *)
theory ThreadPlan
  imports TreeTasks SmfTypes
begin

text \<open>
  The thread count of the tree-parallel factorization (\<open>thread_plan.cpp\<close>): the candidate counts,
  the cost model of the two phases, the tie rule, and the shortcut \<open>plan_is_serial\<close>.
\<close>

section \<open>The code\<close>

text \<open>\<open>for (int T = 2; T < max_threads; T *= 2)\<close>; \<open>T *= 2\<close> is undefined past \<open>INT_MAX\<close>.\<close>

function doubling :: "int \<Rightarrow> int \<Rightarrow> int list option" where
  "doubling T mx =
     (if T < mx then (if 0 < T \<and> in_int32 (T * 2) then do { ts \<leftarrow> doubling (T * 2) mx; Some (T # ts) } else None)
      else Some [])"
  by pat_completeness auto
termination
  by (relation "measure (\<lambda>(T, mx). nat (mx - T))") auto

declare doubling.simps [simp del]

definition candidate_threads :: "int \<Rightarrow> int list option" where
  "candidate_threads max_threads =
     (if max_threads < 2 then Some [1] else do { ts \<leftarrow> doubling 2 max_threads; Some (1 # ts @ [max_threads]) })"

record factor_plan_terms =
  f_threads :: int
  f_ok :: bool
  f_sub_total :: rat
  f_max_subtree :: rat
  f_top_total :: rat
  f_cp_top :: rat
  f_top_fronts :: int
  f_split_top_fronts :: int
  f_split_top_work :: rat
  f_total :: rat

definition terms_init :: factor_plan_terms where
  "terms_init = \<lparr>f_threads = 1, f_ok = True, f_sub_total = 0, f_max_subtree = 0, f_top_total = 0, f_cp_top = 0,
     f_top_fronts = 0, f_split_top_fronts = 0, f_split_top_work = 0, f_total = 0\<rparr>"

definition terms_of :: "int \<Rightarrow> rat \<Rightarrow> phase_terms \<Rightarrow> factor_plan_terms" where
  "terms_of T tot pt = \<lparr>f_threads = T, f_ok = (pt_subtrees pt \<ge> 2), f_sub_total = pt_sub_total pt,
     f_max_subtree = pt_max_subtree pt, f_top_total = pt_top_total pt, f_cp_top = pt_cp_top pt,
     f_top_fronts = pt_top pt, f_split_top_fronts = pt_split_top pt, f_split_top_work = pt_split_top_work pt,
     f_total = tot\<rparr>"

definition factor_plan_terms :: "tree_view \<Rightarrow> subtree_sums \<Rightarrow> int \<Rightarrow> factor_plan_terms list option" where
  "factor_plan_terms t u max_threads =
     (let tot = ss_total u; out = [terms_init\<lparr>f_total := tot\<rparr>] in
      if max_threads < 2 \<or> tot < kTreeParallelMinWork \<or> \<not> tot > 0 then Some out
      else do {
        ts \<leftarrow> candidate_threads max_threads;
        forM ts (\<lambda>T out. if T = 1 then Some out else do {
          pt \<leftarrow> phase_terms_of t u (tot / (4 * of_int T)) T;
          Some (out @ [terms_of T tot pt])
        }) out
      })"

record thread_costs =
  per_thread :: rat
  per_top_front :: rat
  per_split_front_thread :: rat
  split_cap :: int

definition default_costs :: thread_costs where
  "default_costs = \<lparr>per_thread = 700000, per_top_front = 5000, per_split_front_thread = 500000, split_cap = 8\<rparr>"

definition factor_plan_cost :: "factor_plan_terms \<Rightarrow> thread_costs \<Rightarrow> rat" where
  "factor_plan_cost k c =
     (if f_threads k \<le> 1 then f_total k
      else if \<not> f_ok k then -1
      else let T = of_int (f_threads k);
             cap = max 1 (split_cap c);
             top_cost = max (f_cp_top k)
               ((f_top_total k - f_split_top_work k) / T + f_split_top_work k / of_int (min (f_threads k) cap))
           in max (f_max_subtree k) (f_sub_total k / T) + top_cost + T * per_thread c
              + of_int (f_top_fronts k) * per_top_front c
              + of_int (f_split_top_fronts k) * T * per_split_front_thread c)"

definition tie_share :: rat where "tie_share = 102 / 100"

definition least_cost_threads :: "(int \<times> rat) list \<Rightarrow> (int \<times> rat) option" where
  "least_cost_threads costs = (case costs of
     [] \<Rightarrow> None
   | k0 # _ \<Rightarrow>
       let least = fold (\<lambda>k m. if snd k \<ge> 0 then min m (snd k) else m) costs (snd k0) in
       Some (case filter (\<lambda>k. snd k \<ge> 0 \<and> snd k \<le> least * tie_share) costs of [] \<Rightarrow> k0 | k # _ \<Rightarrow> k))"

definition plan_is_serial :: "rat \<Rightarrow> thread_costs \<Rightarrow> bool" where
  "plan_is_serial tot c =
     (if tot < kTreeParallelMinWork \<or> \<not> tot > 0 then True
      else (per_thread c \<ge> 0 \<and> per_top_front c \<ge> 0 \<and> per_split_front_thread c \<ge> 0) \<and> tot \<le> 4 * per_thread c)"

text \<open>\<open>ThreadPlan\<close> is the pair of \<open>threads\<close> and \<open>predicted_speedup\<close>; the trace to stderr is left out.\<close>

definition plan_threads :: "tree_view \<Rightarrow> subtree_sums \<Rightarrow> int \<Rightarrow> thread_costs \<Rightarrow> (int \<times> rat) option" where
  "plan_threads t u max_threads c = do {
     ks \<leftarrow> factor_plan_terms t u max_threads;
     (threads, cost) \<leftarrow> least_cost_threads (map (\<lambda>k. (f_threads k, factor_plan_cost k c)) ks);
     Some (threads, if cost > 0 then f_total (hd ks) / cost else 1)
   }"

section \<open>Candidates\<close>

text \<open>The powers of two from \<open>T\<close> on that stay below \<open>mx\<close>.\<close>

lemma doubling_ok:
  "T = 2 ^ k \<Longrightarrow> mx \<le> 2 ^ 30 \<Longrightarrow> \<exists>m. k \<le> m \<and> doubling T mx = Some (map ((^) 2) [k..<m])
     \<and> mx \<le> 2 ^ m \<and> (k < m \<longrightarrow> 2 ^ (m - 1) < mx)"
proof (induction T mx arbitrary: k rule: doubling.induct)
  case (1 T mx)
  show ?case
  proof (cases "T < mx")
    case True
    have T: "0 < T" "T * 2 \<le> 2 ^ 31 - 1" using True 1(2,3) by simp_all
    then have i: "in_int32 (T * 2)" by (simp add: in_int32_def)
    obtain m where m: "Suc k \<le> m" "doubling (T * 2) mx = Some (map ((^) 2) [Suc k..<m])" "mx \<le> 2 ^ m" "Suc k < m \<longrightarrow> 2 ^ (m - 1) < mx"
      using "1.IH" [of "Suc k"] True T i 1(2,3) by auto
    have "map ((^) 2) [k..<m] = T # map ((^) 2) [Suc k..<m]" using m(1) 1(2) by (simp add: upt_conv_Cons)
    moreover have "2 ^ (m - 1) < mx" using m(1,4) True 1(2) by (cases "Suc k < m") (auto simp: le_less)
    ultimately show ?thesis using True T i m by (intro exI [of _ m]) (subst doubling.simps, simp)
  next
    case False
    then show ?thesis using 1(2) by (intro exI [of _ k]) (subst doubling.simps, simp)
  qed
qed

lemma candidate_threads_ok:
  assumes "max_threads \<le> 2 ^ 30"
  shows "\<exists>m. candidate_threads max_threads =
      Some (if max_threads < 2 then [1] else map ((^) 2) [0..<m] @ [max_threads])
    \<and> (2 \<le> max_threads \<longrightarrow> 0 < m \<and> 2 ^ (m - 1) < max_threads \<and> max_threads \<le> 2 ^ m)"
proof (cases "max_threads < 2")
  case False
  obtain m where m: "1 \<le> m" "doubling 2 max_threads = Some (map ((^) 2) [1..<m])" "max_threads \<le> 2 ^ m" "1 < m \<longrightarrow> 2 ^ (m - 1) < max_threads"
    using doubling_ok [of 2 1 max_threads] assms by auto
  have "map ((^) 2) [0..<m] = (1 :: int) # map ((^) 2) [1..<m]" using m(1) by (simp add: upt_conv_Cons)
  moreover have "2 ^ (m - 1) < max_threads" using m(1,4) False by (cases "m = 1") auto
  ultimately show ?thesis using False m by (intro exI [of _ m]) (simp add: candidate_threads_def)
qed (simp add: candidate_threads_def)

section \<open>The tie rule\<close>

lemma fold_least:
  "fold (\<lambda>k m. if snd k \<ge> 0 then min m (snd k) else m) ks m0 = Min (insert m0 (snd ` {k \<in> set ks. snd k \<ge> (0 :: rat)}))"
proof (induction ks arbitrary: m0)
  case (Cons k ks)
  have fin: "finite (snd ` {k \<in> set ks. snd k \<ge> (0 :: rat)})" by simp
  show ?case
  proof (cases "snd k \<ge> 0")
    case True
    then have "snd ` {x \<in> set (k # ks). snd x \<ge> 0} = insert (snd k) (snd ` {x \<in> set ks. snd x \<ge> 0})" by auto
    moreover have "Min (insert (min m0 (snd k)) S) = Min (insert m0 (insert (snd k) S))" if "finite S" for S :: "rat set"
      using that by (cases "S = {}") (simp_all add: min.assoc)
    ultimately show ?thesis using Cons True fin by simp
  next
    case False
    then have "{x \<in> set (k # ks). snd x \<ge> 0} = {x \<in> set ks. snd x \<ge> 0}" by auto
    then show ?thesis using Cons False by simp
  qed
qed simp

text \<open>The first candidate within 2% of the least cost.\<close>

definition tie_rule :: "(int \<times> rat) list \<Rightarrow> int \<times> rat \<Rightarrow> bool" where
  "tie_rule costs k \<longleftrightarrow> (\<exists>pre suf. costs = pre @ k # suf \<and> snd k \<ge> 0
     \<and> (\<forall>k' \<in> set costs. snd k' \<ge> 0 \<longrightarrow> snd k \<le> snd k' * tie_share)
     \<and> (\<forall>k' \<in> set pre. snd k' \<ge> 0 \<longrightarrow> (\<exists>l \<in> set costs. snd l \<ge> 0 \<and> snd l * tie_share < snd k')))"

lemma tie_rule_mem: "tie_rule costs k \<Longrightarrow> k \<in> set costs"
  unfolding tie_rule_def by (elim exE conjE) simp

lemma filter_first: "filter Q xs = y # ys \<Longrightarrow> \<exists>pre suf. xs = pre @ y # suf \<and> Q y \<and> (\<forall>x \<in> set pre. \<not> Q x)"
  by (auto simp: filter_eq_Cons_iff)

lemma least_cost_ok:
  assumes "costs \<noteq> []" "snd (hd costs) \<ge> 0"
  shows "\<exists>k. least_cost_threads costs = Some k \<and> tie_rule costs k"
proof -
  obtain k0 ks where c: "costs = k0 # ks" using assms(1) by (cases costs) auto
  let ?S = "snd ` {k \<in> set costs. snd k \<ge> 0}"
  define least where "least = fold (\<lambda>k m. if snd k \<ge> 0 then min m (snd k) else m) costs (snd k0)"
  have k0: "k0 \<in> {k \<in> set costs. snd k \<ge> 0}" using c assms(2) by simp
  then have "insert (snd k0) ?S = ?S" by auto
  then have least: "least = Min ?S" unfolding least_def fold_least by simp
  have fin: "finite ?S" by simp
  have "snd k0 \<in> ?S" using k0 by (rule imageI)
  then have ne: "?S \<noteq> {}" by (rule ex_in_conv [THEN iffD1, OF exI])
  have "least \<in> ?S" unfolding least by (rule Min_in [OF fin ne])
  then obtain l where l: "l \<in> set costs" "snd l \<ge> 0" "snd l = least" by (elim imageE CollectE conjE) simp
  have below: "least \<le> snd k" if "k \<in> set costs" "snd k \<ge> 0" for k
    unfolding least using that by (intro Min_le [OF fin] imageI) simp
  let ?Q = "\<lambda>k. snd k \<ge> 0 \<and> snd k \<le> least * tie_share"
  have "?Q l" using l by (simp add: tie_share_def)
  then have "filter ?Q costs \<noteq> []" using l(1) by (auto simp: filter_empty_conv)
  then obtain k ys where f: "filter ?Q costs = k # ys" by (cases "filter ?Q costs") auto
  obtain pre suf where split: "costs = pre @ k # suf" "?Q k" "\<forall>x \<in> set pre. \<not> ?Q x"
  proof -
    have "\<exists>pre suf. costs = pre @ k # suf \<and> ?Q k \<and> (\<forall>x \<in> set pre. \<not> ?Q x)" by (rule filter_first [OF f])
    then show thesis using that by (elim exE) (elim conjE, rule that, simp_all only: simp_thms)
  qed
  have "tie_rule costs k"
    unfolding tie_rule_def
  proof (intro exI conjI ballI impI)
    show "costs = pre @ k # suf" "snd k \<ge> 0" using split by simp_all
    fix k' assume "k' \<in> set costs" "snd k' \<ge> 0"
    then have "least * tie_share \<le> snd k' * tie_share" using below by (simp add: tie_share_def)
    then show "snd k \<le> snd k' * tie_share" using split(2) by simp
  next
    fix k' assume "k' \<in> set pre" "snd k' \<ge> 0"
    then have "least * tie_share < snd k'" using split(3) by auto
    then show "\<exists>l \<in> set costs. snd l \<ge> 0 \<and> snd l * tie_share < snd k'" using l by auto
  qed
  moreover have "least_cost_threads costs = Some k"
    unfolding least_cost_threads_def c list.case Let_def
    using f unfolding c [symmetric] least_def [symmetric] by simp
  ultimately show ?thesis by blast
qed

section \<open>The plan\<close>

lemma plan_terms_ok:
  assumes wf: "tree_wf t" and u: "sums_ok t u" and nn: "nonneg t" and mx: "max_threads \<le> 2 ^ 30"
  shows "\<exists>rest. factor_plan_terms t u max_threads = Some (terms_init\<lparr>f_total := sum_list (tv_work t)\<rparr> # rest)
    \<and> (\<forall>k \<in> set rest. 2 \<le> f_threads k \<and> f_threads k \<le> max_threads \<and> f_sub_total k + f_top_total k = sum_list (tv_work t)
        \<and> 0 \<le> f_split_top_work k \<and> 0 \<le> f_split_top_fronts k \<and> 0 \<le> f_top_fronts k \<and> f_total k = sum_list (tv_work t))
    \<and> (rest \<noteq> [] \<longrightarrow> 2 \<le> max_threads \<and> kTreeParallelMinWork \<le> sum_list (tv_work t))"
proof -
  let ?tot = "sum_list (tv_work t)" and ?first = "terms_init\<lparr>f_total := sum_list (tv_work t)\<rparr>"
  have tot: "ss_total u = ?tot" using u by (simp add: sums_ok_def)
  show ?thesis
  proof (cases "max_threads < 2 \<or> ?tot < kTreeParallelMinWork \<or> \<not> ?tot > 0")
    case True
    then show ?thesis by (simp add: factor_plan_terms_def Let_def tot)
  next
    case False
    obtain m where m: "candidate_threads max_threads = Some (map ((^) 2) [0..<m] @ [max_threads])" "2 ^ (m - 1) < max_threads"
      using candidate_threads_ok [OF mx] False by auto
    let ?ts = "map ((^) 2) [0..<m] @ [max_threads]"
    let ?f = "\<lambda>T out. if T = 1 then Some out else do {
          pt \<leftarrow> phase_terms_of t u (?tot / (4 * of_int T)) T;
          Some (out @ [terms_of T ?tot pt])
        }"
    let ?good = "\<lambda>k. 2 \<le> f_threads k \<and> f_threads k \<le> max_threads \<and> f_sub_total k + f_top_total k = ?tot
        \<and> 0 \<le> f_split_top_work k \<and> 0 \<le> f_split_top_fronts k \<and> 0 \<le> f_top_fronts k \<and> f_total k = ?tot"
    have ts: "1 \<le> T \<and> T \<le> max_threads" if "T \<in> set ?ts" for T
    proof -
      have "2 ^ i \<le> max_threads" if "i < m" for i
      proof -
        have "(2 :: int) ^ i \<le> 2 ^ (m - 1)" using that by (intro power_increasing) auto
        also have "\<dots> \<le> max_threads" using m(2) by (rule less_imp_le)
        finally show ?thesis .
      qed
      then show ?thesis using that False by auto
    qed
    have "ok (forM ?ts ?f [?first]) (\<lambda>out. \<exists>rest. out = ?first # rest \<and> (\<forall>k \<in> set rest. ?good k))"
    proof (rule forM_ok [where I = "\<lambda>_ _ out. \<exists>rest. out = ?first # rest \<and> (\<forall>k \<in> set rest. ?good k)"])
      fix pre T suf out assume a: "?ts = pre @ T # suf" "\<exists>rest. out = ?first # rest \<and> (\<forall>k \<in> set rest. ?good k)"
      have T: "1 \<le> T" "T \<le> max_threads" using ts [of T] a(1) by simp_all
      obtain rest where rest: "out = ?first # rest" "\<forall>k \<in> set rest. ?good k" using a(2) by blast
      show "ok (?f T out) (\<lambda>out. \<exists>rest. out = ?first # rest \<and> (\<forall>k \<in> set rest. ?good k))"
      proof (cases "T = 1")
        case True
        then show ?thesis using a(2) by simp
      next
        case neq: False
        obtain pt where pt: "phase_terms_of t u (?tot / (4 * of_int T)) T = Some pt"
          "pt_sub_total pt + pt_top_total pt = ?tot" "0 \<le> pt_split_top_work pt" "0 \<le> pt_split_top pt" "0 \<le> pt_top pt"
          using phase_terms_ok [OF wf u nn, of "?tot / (4 * of_int T)" T] by auto
        have "?good (terms_of T ?tot pt)" using pt T neq by (simp add: terms_of_def)
        then show ?thesis using rest pt(1) neq by simp
      qed
    qed simp_all
    then obtain rest where "forM ?ts ?f [?first] = Some (?first # rest)" "\<forall>k \<in> set rest. ?good k" by (auto simp: ok_def)
    then show ?thesis using False m(1) unfolding factor_plan_terms_def Let_def tot by simp
  qed
qed

text \<open>A candidate of more than one thread costs at least its share of the work and the threads.\<close>

lemma cost_lower_bound:
  assumes k: "2 \<le> f_threads k" "f_sub_total k + f_top_total k = f_total k" "0 \<le> f_split_top_work k"
    "0 \<le> f_split_top_fronts k" "0 \<le> f_top_fronts k"
    and c: "0 \<le> per_thread c" "0 \<le> per_top_front c" "0 \<le> per_split_front_thread c" and ok: "f_ok k"
  shows "f_total k / of_int (f_threads k) + of_int (f_threads k) * per_thread c \<le> factor_plan_cost k c"
proof -
  let ?T = "of_int (f_threads k) :: rat" and ?m = "min (f_threads k) (max 1 (split_cap c))"
  have T: "0 < ?T" using k(1) by simp
  have m: "0 < (of_int ?m :: rat)" "(of_int ?m :: rat) \<le> ?T" using k(1) by simp_all
  have "f_split_top_work k / ?T \<le> f_split_top_work k / of_int ?m"
    using m T k(3) by (intro divide_left_mono) simp_all
  then have top_share: "f_top_total k / ?T \<le> (f_top_total k - f_split_top_work k) / ?T + f_split_top_work k / of_int ?m"
    by (simp add: diff_divide_distrib)
  have "f_total k / ?T = f_sub_total k / ?T + f_top_total k / ?T"
    using k(2) by (metis add_divide_distrib)
  also have "\<dots> \<le> max (f_max_subtree k) (f_sub_total k / ?T) + max (f_cp_top k)
      ((f_top_total k - f_split_top_work k) / ?T + f_split_top_work k / of_int ?m)"
    using top_share by (intro add_mono) (simp_all add: le_max_iff_disj)
  finally have a: "f_total k / ?T \<le> max (f_max_subtree k) (f_sub_total k / ?T) + max (f_cp_top k)
      ((f_top_total k - f_split_top_work k) / ?T + f_split_top_work k / of_int ?m)" .
  have b: "0 \<le> of_int (f_top_fronts k) * per_top_front c" using k(5) c(2) by simp
  have d: "0 \<le> of_int (f_split_top_fronts k) * ?T * per_split_front_thread c" using k(4) c(3) T by simp
  have cost: "factor_plan_cost k c = max (f_max_subtree k) (f_sub_total k / ?T) + max (f_cp_top k)
      ((f_top_total k - f_split_top_work k) / ?T + f_split_top_work k / of_int ?m) + ?T * per_thread c
      + of_int (f_top_fronts k) * per_top_front c + of_int (f_split_top_fronts k) * ?T * per_split_front_thread c"
    using k(1) ok by (simp add: factor_plan_cost_def Let_def)
  show ?thesis unfolding cost using a b d by linarith
qed

lemma serial_bound:
  fixes T tot pt :: rat
  assumes "2 \<le> T" "0 \<le> tot" "tot \<le> 4 * pt"
  shows "tot \<le> tot / T + T * pt"
proof -
  have "0 \<le> (T - 2) * (T - 2)" by (rule zero_le_square)
  then have "4 * (T - 1) \<le> T * T" by (simp add: algebra_simps)
  moreover have "0 \<le> pt" using assms by simp
  ultimately have "pt * (4 * (T - 1)) \<le> pt * (T * T)" by (rule mult_left_mono)
  moreover have "tot * (T - 1) \<le> 4 * pt * (T - 1)" using assms by (intro mult_right_mono) simp_all
  ultimately have "tot * (T - 1) \<le> T * T * pt" by (simp add: algebra_simps)
  then have "tot * T \<le> tot + T * T * pt" by (simp add: algebra_simps)
  then have "tot * T / T \<le> (tot + T * T * pt) / T" using assms(1) by (intro divide_right_mono) simp_all
  then show ?thesis using assms(1) by (simp add: add_divide_distrib)
qed

lemma plan_is_serial_ok:
  assumes wf: "tree_wf t" and u: "sums_ok t u" and nn: "nonneg t" and mx: "max_threads \<le> 2 ^ 30"
    and serial: "plan_is_serial (sum_list (tv_work t)) c"
  shows "plan_threads t u max_threads c = Some (1, 1)"
proof -
  let ?tot = "sum_list (tv_work t)" and ?first = "terms_init\<lparr>f_total := sum_list (tv_work t)\<rparr>"
  let ?kc = "\<lambda>k. (f_threads k, factor_plan_cost k c)"
  have tot: "0 \<le> ?tot" using nn by (intro sum_list_nonneg) (simp add: nonneg_def)
  obtain rest where r: "factor_plan_terms t u max_threads = Some (?first # rest)"
    "\<And>k. k \<in> set rest \<Longrightarrow> 2 \<le> f_threads k \<and> f_sub_total k + f_top_total k = ?tot
        \<and> 0 \<le> f_split_top_work k \<and> 0 \<le> f_split_top_fronts k \<and> 0 \<le> f_top_fronts k \<and> f_total k = ?tot"
    "rest \<noteq> [] \<Longrightarrow> kTreeParallelMinWork \<le> ?tot"
    using plan_terms_ok [OF wf u nn mx] by blast
  have first: "?kc ?first = (1, ?tot)" by (simp add: factor_plan_cost_def terms_init_def)
  have dear: "?tot \<le> factor_plan_cost k c" if k: "k \<in> set rest" "factor_plan_cost k c \<ge> 0" for k
  proof -
    note K = r(2) [OF k(1)]
    have "rest \<noteq> []" using k(1) by auto
    then have "kTreeParallelMinWork \<le> ?tot" by (rule r(3))
    then have c: "0 \<le> per_thread c" "0 \<le> per_top_front c" "0 \<le> per_split_front_thread c" "?tot \<le> 4 * per_thread c"
      using serial by (auto simp: plan_is_serial_def kTreeParallelMinWork_def)
    have "f_ok k"
    proof (rule ccontr)
      assume "\<not> f_ok k"
      then have "factor_plan_cost k c = -1" using K by (simp add: factor_plan_cost_def)
      then show False using k(2) by simp
    qed
    then have "?tot / of_int (f_threads k) + of_int (f_threads k) * per_thread c \<le> factor_plan_cost k c"
      using cost_lower_bound [of k c] K c by simp
    moreover have "?tot \<le> ?tot / of_int (f_threads k) + of_int (f_threads k) * per_thread c"
      by (rule serial_bound) (use K tot c in simp_all)
    ultimately show ?thesis by simp
  qed
  let ?costs = "map ?kc (?first # rest)"
  obtain k where k: "least_cost_threads ?costs = Some k" "tie_rule ?costs k"
    using least_cost_ok [of ?costs] first tot by auto
  have "k = (1, ?tot)"
  proof -
    obtain pre suf where s: "?costs = pre @ k # suf"
      "\<forall>k' \<in> set pre. snd k' \<ge> 0 \<longrightarrow> (\<exists>l \<in> set ?costs. snd l \<ge> 0 \<and> snd l * tie_share < snd k')"
      using k(2) unfolding tie_rule_def by blast
    show ?thesis
    proof (cases pre)
      case Nil
      then show ?thesis using s(1) first by simp
    next
      case (Cons x xs)
      then have x: "x = (1, ?tot)" using s(1) first by simp
      then have "x \<in> set pre" "snd x = ?tot" using Cons by (simp only: list.set_intros, simp only: snd_conv)
      then have "\<exists>l \<in> set ?costs. snd l \<ge> 0 \<and> snd l * tie_share < ?tot" using s(2) tot by metis
      then obtain l where l: "l \<in> set ?costs" "snd l \<ge> 0" "snd l * tie_share < ?tot" by blast
      have "?tot \<le> snd l"
      proof (cases "l = ?kc ?first")
        case False
        then obtain k' where k': "k' \<in> set rest" "l = ?kc k'" using l(1) by auto
        then show ?thesis using dear [OF k'(1)] l(2) by simp
      qed (simp only: first snd_conv order_refl)
      moreover have "snd l \<le> snd l * tie_share" using l(2) by (simp add: tie_share_def)
      ultimately show ?thesis using l(3) by simp
    qed
  qed
  then show ?thesis
    unfolding plan_threads_def r(1) bind.simps k(1) using tot by (simp add: terms_init_def)
qed

section \<open>Properties\<close>

text \<open>C19: \<open>plan_is_serial\<close> is sound: when it says so, \<open>plan_threads\<close> picks one thread, with
  predicted speedup 1, on every tree of that total work and for every \<open>max_threads\<close> up to \<open>2^30\<close>,
  so the plan need not be built.\<close>

theorem plan_is_serial_sound:
  assumes "tree_wf t" "nonneg t" "subtree_sums t = Some u" "max_threads \<le> 2 ^ 30"
    and "plan_is_serial (sum_list (tv_work t)) c"
  shows "plan_threads t u max_threads c = Some (1, 1)"
  by (rule plan_is_serial_ok [OF assms(1) ok_the [OF subtree_sums_ok [OF assms(1)] assms(3)] assms(2,4,5)])

theorem plan_is_serial_sound_witness:
  "\<exists>u. subtree_sums example_tree = Some u \<and> plan_threads example_tree u 8 default_costs = Some (1, 1)"
proof -
  have nn: "nonneg example_tree" by (simp add: nonneg_def example_tree_def)
  obtain u where u: "subtree_sums example_tree = Some u" using ok_ex [OF subtree_sums_ok [OF example_tree_wf]] by blast
  have serial: "plan_is_serial (sum_list (tv_work example_tree)) default_costs" by code_simp
  then show ?thesis using plan_is_serial_sound [OF example_tree_wf nn u _ serial, of 8] u by auto
qed

text \<open>C31: \<open>plan_threads\<close> returns for every tree and every \<open>max_threads\<close> up to \<open>2^30\<close>: its choice is 1
  or between 2 and \<open>max_threads\<close>, no candidate costs less by more than 2%, and every smaller
  candidate costs more than 2% above the least; the speedup is the total work over the cost.\<close>

theorem plan_threads_correct:
  assumes "tree_wf t" "nonneg t" "subtree_sums t = Some u" "max_threads \<le> 2 ^ 30"
  shows "\<exists>ks threads cost. factor_plan_terms t u max_threads = Some ks
    \<and> tie_rule (map (\<lambda>k. (f_threads k, factor_plan_cost k c)) ks) (threads, cost)
    \<and> plan_threads t u max_threads c = Some (threads, if cost > 0 then sum_list (tv_work t) / cost else 1)
    \<and> 1 \<le> threads \<and> (threads = 1 \<or> threads \<le> max_threads)"
proof -
  let ?tot = "sum_list (tv_work t)" and ?kc = "\<lambda>k. (f_threads k, factor_plan_cost k c)"
  have u: "sums_ok t u" by (rule ok_the [OF subtree_sums_ok [OF assms(1)] assms(3)])
  have tot: "0 \<le> ?tot" using assms(2) by (intro sum_list_nonneg) (simp add: nonneg_def)
  obtain rest where r: "factor_plan_terms t u max_threads = Some (terms_init\<lparr>f_total := ?tot\<rparr> # rest)"
    "\<forall>k \<in> set rest. 2 \<le> f_threads k \<and> f_threads k \<le> max_threads"
    using plan_terms_ok [OF assms(1) u assms(2,4)] by blast
  let ?ks = "terms_init\<lparr>f_total := ?tot\<rparr> # rest"
  obtain k where k: "least_cost_threads (map ?kc ?ks) = Some k" "tie_rule (map ?kc ?ks) k"
    using least_cost_ok [of "map ?kc ?ks"] tot by (auto simp: factor_plan_cost_def terms_init_def)
  have "k \<in> set (map ?kc ?ks)" by (rule tie_rule_mem [OF k(2)])
  then have "fst k \<in> f_threads ` set ?ks" by force
  then have "1 \<le> fst k \<and> (fst k = 1 \<or> fst k \<le> max_threads)" using r(2) by (auto simp: terms_init_def)
  moreover have "plan_threads t u max_threads c = Some (fst k, if snd k > 0 then ?tot / snd k else 1)"
    unfolding plan_threads_def r(1) bind.simps k(1) by (simp add: case_prod_unfold)
  ultimately show ?thesis using r(1) k(2) by (intro exI [of _ ?ks] exI [of _ "fst k"] exI [of _ "snd k"]) simp
qed

theorem plan_threads_correct_witness:
  "\<exists>u threads cost. subtree_sums example_tree = Some u
     \<and> plan_threads example_tree u 4 default_costs = Some (threads, if cost > 0 then 100 / cost else 1)
     \<and> 1 \<le> threads \<and> (threads = 1 \<or> threads \<le> 4)"
proof -
  have nn: "nonneg example_tree" by (simp add: nonneg_def example_tree_def)
  obtain u where u: "subtree_sums example_tree = Some u" using ok_ex [OF subtree_sums_ok [OF example_tree_wf]] by blast
  have "sum_list (tv_work example_tree) = 100" by code_simp
  moreover obtain ks threads cost where
    "plan_threads example_tree u 4 default_costs = Some (threads, if cost > 0 then sum_list (tv_work example_tree) / cost else 1)"
    "1 \<le> threads" "threads = 1 \<or> threads \<le> 4"
    using plan_threads_correct [OF example_tree_wf nn u, of 4 default_costs] by force
  ultimately show ?thesis using u by (intro exI [of _ u] exI [of _ threads] exI [of _ cost] conjI) simp_all
qed

end
