(* ===== verification/MinHeap.thy ===== *)
theory MinHeap
  imports Prelude "HOL-Library.Product_Lexorder"
begin

text \<open>
  The addressable 4-ary min-heap of the matching's searches (\<open>indexed_min_heap.hpp\<close>): an array of
  (key, id) entries and the position of every id, with \<open>sift_up\<close> and \<open>sift_down\<close> moving a hole
  through the array. Keys are of any linear order (the searches never push a NaN). The heap is
  a map from ids to keys: the interface \<open>priority_map\<close> states what each operation does to that map, and
  \<open>mh\<close> interprets it on the code.
\<close>

record 'k min_heap =
  mh_heap :: "('k \<times> int) list"
  mh_pos :: "int list"

definition kArity :: int where "kArity = 4"

definition mh_before :: "'k::linorder \<times> int \<Rightarrow> 'k \<times> int \<Rightarrow> bool" where
  "mh_before a b \<longleftrightarrow> fst a < fst b \<or> (fst a = fst b \<and> snd a < snd b)"

definition mh_reset :: "int \<Rightarrow> 'k min_heap" where
  "mh_reset n = \<lparr>mh_heap = [], mh_pos = replicate (nat n) (-1)\<rparr>"

definition mh_contains :: "'k min_heap \<Rightarrow> int \<Rightarrow> bool option" where
  "mh_contains h i = do { p \<leftarrow> vget (mh_pos h) i; Some (p \<ge> 0) }"

definition mh_top :: "'k min_heap \<Rightarrow> ('k \<times> int) option" where
  "mh_top h = vget (mh_heap h) 0"

definition mh_place :: "int \<Rightarrow> 'k \<times> int \<Rightarrow> 'k min_heap \<Rightarrow> 'k min_heap option" where
  "mh_place k e h = do {
     xs \<leftarrow> vset (mh_heap h) k e;
     ps \<leftarrow> vset (mh_pos h) (snd e) k;
     Some \<lparr>mh_heap = xs, mh_pos = ps\<rparr>
   }"

definition sift_up :: "int \<Rightarrow> 'k::linorder min_heap \<Rightarrow> 'k min_heap option" where
  "sift_up k h = do {
     x \<leftarrow> vget (mh_heap h) k;
     (h, k) \<leftarrow> loop (\<lambda>(h, k).
       if k > 0 then do {
         let up = (k - 1) div kArity;
         e \<leftarrow> vget (mh_heap h) up;
         if \<not> mh_before x e then Some (Inl (h, k))
         else do { h \<leftarrow> mh_place k e h; Some (Inr (h, up)) }
       } else Some (Inl (h, k))) (h, k);
     mh_place k x h
   }"

text \<open>The least entry among the children \<open>c0, ..., c1 - 1\<close>.\<close>

definition best_child :: "('k::linorder \<times> int) list \<Rightarrow> int \<Rightarrow> int \<Rightarrow> int option" where
  "best_child xs c0 c1 = for_range (c0 + 1) c1 (\<lambda>c best. do {
     a \<leftarrow> vget xs c;
     b \<leftarrow> vget xs best;
     Some (if mh_before a b then c else best)
   }) c0"

definition sift_down :: "'k::linorder \<times> int \<Rightarrow> 'k min_heap \<Rightarrow> 'k min_heap option" where
  "sift_down x h = do {
     (h, k) \<leftarrow> loop (\<lambda>(h, k). do {
       let n = int (length (mh_heap h));
       let c0 = kArity * k + 1;
       if c0 \<ge> n then Some (Inl (h, k))
       else do {
         let c1 = (if c0 + kArity < n then c0 + kArity else n);
         best \<leftarrow> best_child (mh_heap h) c0 c1;
         e \<leftarrow> vget (mh_heap h) best;
         if \<not> mh_before e x then Some (Inl (h, k))
         else do { h \<leftarrow> mh_place k e h; Some (Inr (h, best)) }
       }
     }) (h, 0);
     mh_place k x h
   }"

definition push_or_decrease :: "int \<Rightarrow> 'k::linorder \<Rightarrow> 'k min_heap \<Rightarrow> 'k min_heap option" where
  "push_or_decrease i key h = do {
     p \<leftarrow> vget (mh_pos h) i;
     if p < 0 then sift_up (int (length (mh_heap h))) (h\<lparr>mh_heap := mh_heap h @ [(key, i)]\<rparr>)
     else do {
       xs \<leftarrow> vget (mh_heap h) p;
       ys \<leftarrow> vset (mh_heap h) p (key, snd xs);
       sift_up p (h\<lparr>mh_heap := ys\<rparr>)
     }
   }"

definition mh_pop :: "'k::linorder min_heap \<Rightarrow> 'k min_heap option" where
  "mh_pop h = do {
     front \<leftarrow> vget (mh_heap h) 0;
     ps \<leftarrow> vset (mh_pos h) (snd front) (-1);
     let lst = last (mh_heap h);
     let h = \<lparr>mh_heap = butlast (mh_heap h), mh_pos = ps\<rparr>;
     if mh_heap h \<noteq> [] then sift_down lst h else Some h
   }"

definition mh_clear :: "'k min_heap \<Rightarrow> 'k min_heap option" where
  "mh_clear h = do {
     ps \<leftarrow> forM (mh_heap h) (\<lambda>e ps. vset ps (snd e) (-1)) (mh_pos h);
     Some \<lparr>mh_heap = [], mh_pos = ps\<rparr>
   }"

section \<open>The state: every id knows its place\<close>

lemma before_less: "mh_before a b \<longleftrightarrow> a < b"
  by (auto simp: mh_before_def less_prod_def)

text \<open>\<open>placed n xs ps k\<close>: ids are distinct, in range, and at their positions, the hole \<open>k\<close> apart.\<close>

definition placed :: "int \<Rightarrow> ('k \<times> int) list \<Rightarrow> int list \<Rightarrow> int \<Rightarrow> bool" where
  "placed n xs ps k \<longleftrightarrow> int (length ps) = n \<and> distinct (map snd xs)
     \<and> (\<forall>j < length xs. 0 \<le> snd (xs ! j) \<and> snd (xs ! j) < n)
     \<and> (\<forall>j < length xs. int j \<noteq> k \<longrightarrow> ps ! nat (snd (xs ! j)) = int j)
     \<and> (\<forall>i. 0 \<le> i \<and> i < n \<and> i \<notin> snd ` set xs \<longrightarrow> ps ! nat i = -1)"

definition heap_par :: "nat \<Rightarrow> nat" where
  "heap_par j = (j - 1) div 4"

definition heap_ord :: "'a::linorder list \<Rightarrow> bool" where
  "heap_ord xs \<longleftrightarrow> (\<forall>j. 0 < j \<and> j < length xs \<longrightarrow> xs ! heap_par j \<le> xs ! j)"

definition mh_inv :: "int \<Rightarrow> 'k::linorder min_heap \<Rightarrow> bool" where
  "mh_inv n h \<longleftrightarrow> placed n (mh_heap h) (mh_pos h) (-1) \<and> heap_ord (mh_heap h)"

definition mh_map :: "'k min_heap \<Rightarrow> int \<Rightarrow> 'k option" where
  "mh_map h = map_of (map (\<lambda>(k, i). (i, k)) (mh_heap h))"

lemma heap_par_less: "0 < j \<Longrightarrow> heap_par j < j"
  by (simp add: heap_par_def)

lemma heap_par_int: "0 < j \<Longrightarrow> (int j - 1) div kArity = int (heap_par j)"
  by (simp add: heap_par_def kArity_def of_nat_diff zdiv_int)

lemma placed_swap:
  assumes p: "placed n xs ps (int k)" and k: "k < length xs" "j < length xs" "j \<noteq> k"
  shows "placed n (xs[k := xs ! j, j := xs ! k]) (ps[nat (snd (xs ! j)) := int k]) (int j)"
proof -
  have d: "distinct (map snd xs)" and r: "\<And>i. i < length xs \<Longrightarrow> 0 \<le> snd (xs ! i) \<and> snd (xs ! i) < n"
    and len: "int (length ps) = n" using p by (simp_all add: placed_def)
  have set: "set (xs[k := xs ! j, j := xs ! k]) = set xs"
    using k by (metis list_update_swap set_swap)
  have ids: "distinct (map snd (xs[k := xs ! j, j := xs ! k]))"
    using d k distinct_swap [of k "map snd xs" j] by (simp add: map_update)
  have neq: "snd (xs ! a) \<noteq> snd (xs ! b)" if "a < length xs" "b < length xs" "a \<noteq> b" for a b
    using d that by (metis distinct_conv_nth length_map nth_map)
  have sn: "nat (snd (xs ! j)) < length ps" using r [OF k(2)] len by linarith
  have at_pos: "ps[nat (snd (xs ! j)) := int k] ! nat (snd (xs[k := xs ! j, j := xs ! k] ! i)) = int i"
    if i: "i < length xs" "i \<noteq> j" for i
  proof (cases "i = k")
    case True
    then show ?thesis using k i sn by simp
  next
    case False
    then have "nat (snd (xs ! i)) \<noteq> nat (snd (xs ! j))" using neq [OF i(1) k(2) i(2)] r [OF i(1)] r [OF k(2)] by (simp add: eq_nat_nat_iff)
    then show ?thesis using False i p by (simp add: placed_def)
  qed
  have other: "ps[nat (snd (xs ! j)) := int k] ! nat i = -1" if i: "0 \<le> i" "i < n" "i \<notin> snd ` set xs" for i
  proof -
    have "snd (xs ! j) \<in> snd ` set xs" using k(2) by simp
    then have "nat i \<noteq> nat (snd (xs ! j))" using i r [OF k(2)] by (metis nat_eq_iff2 int_nat_eq)
    then show ?thesis using i p by (simp add: placed_def)
  qed
  have rng: "0 \<le> snd (xs[k := xs ! j, j := xs ! k] ! i) \<and> snd (xs[k := xs ! j, j := xs ! k] ! i) < n"
    if "i < length xs" for i using that r k by (simp add: nth_list_update)
  show ?thesis
    unfolding placed_def set using ids at_pos other rng len by simp
qed

text \<open>Filling the hole restores every position.\<close>

lemma placed_fill:
  assumes "placed n xs ps (int k)" "k < length xs"
  shows "placed n xs (ps[nat (snd (xs ! k)) := int k]) (-1)"
proof -
  have "xs[k := xs ! k] = xs" by simp
  have d: "distinct (map snd xs)" and r: "\<And>i. i < length xs \<Longrightarrow> 0 \<le> snd (xs ! i) \<and> snd (xs ! i) < n"
    and len: "int (length ps) = n" using assms(1) by (simp_all add: placed_def)
  have neq: "snd (xs ! a) \<noteq> snd (xs ! b)" if "a < length xs" "b < length xs" "a \<noteq> b" for a b
    using d that by (metis distinct_conv_nth length_map nth_map)
  have "ps[nat (snd (xs ! k)) := int k] ! nat (snd (xs ! i)) = int i" if i: "i < length xs" for i
  proof (cases "i = k")
    case True
    then show ?thesis using r [OF i] len by (simp add: nat_less_iff)
  next
    case False
    then have "nat (snd (xs ! i)) \<noteq> nat (snd (xs ! k))"
      using neq [OF i assms(2) False] r [OF i] r [OF assms(2)] by (simp add: eq_nat_nat_iff)
    then show ?thesis using False i assms(1) by (simp add: placed_def)
  qed
  moreover have "ps[nat (snd (xs ! k)) := int k] ! nat i = -1" if i: "0 \<le> i" "i < n" "i \<notin> snd ` set xs" for i
  proof -
    have "snd (xs ! k) \<in> snd ` set xs" using assms(2) by simp
    then have "nat i \<noteq> nat (snd (xs ! k))" using i r [OF assms(2)] by (metis nat_eq_iff2 int_nat_eq)
    then show ?thesis using i assms(1) by (simp add: placed_def)
  qed
  ultimately show ?thesis using assms(1) d r len by (simp add: placed_def)
qed

lemma placed_any: "placed n xs ps (-1) \<Longrightarrow> placed n xs ps k"
  by (simp add: placed_def)


section \<open>Moving the hole\<close>

text \<open>\<open>up_ord xs k\<close>: ordered but for the entry \<open>k\<close> and its parent. \<open>down_ord xs k\<close>: ordered but for
  \<open>k\<close> and its children.\<close>

definition up_ord :: "'a::linorder list \<Rightarrow> nat \<Rightarrow> bool" where
  "up_ord xs k \<longleftrightarrow> (\<forall>j. 0 < j \<and> j < length xs \<longrightarrow> (j \<noteq> k \<longrightarrow> xs ! heap_par j \<le> xs ! j)
     \<and> (heap_par j = k \<and> 0 < k \<longrightarrow> xs ! heap_par k \<le> xs ! j))"

definition down_ord :: "'a::linorder list \<Rightarrow> nat \<Rightarrow> bool" where
  "down_ord xs k \<longleftrightarrow> (\<forall>j. 0 < j \<and> j < length xs \<longrightarrow> (heap_par j \<noteq> k \<longrightarrow> xs ! heap_par j \<le> xs ! j)
     \<and> (heap_par j = k \<and> 0 < k \<longrightarrow> xs ! heap_par k \<le> xs ! j))"

lemma up_ord_swap:
  assumes o: "up_ord xs k" and k: "0 < k" "k < length xs" and less: "xs ! k < xs ! heap_par k"
  shows "up_ord (xs[k := xs ! heap_par k, heap_par k := xs ! k]) (heap_par k)"
proof -
  let ?u = "heap_par k" and ?ys = "xs[k := xs ! heap_par k, heap_par k := xs ! k]"
  have u: "?u < k" using k(1) by (rule heap_par_less)
  have at_u: "?ys ! ?u = xs ! k" and at_k: "?ys ! k = xs ! ?u"
    and other: "\<And>i. i \<noteq> k \<Longrightarrow> i \<noteq> ?u \<Longrightarrow> ?ys ! i = xs ! i"
    using k u by (simp_all add: nth_list_update)
  have one: "j \<noteq> k \<Longrightarrow> xs ! heap_par j \<le> xs ! j" and two: "heap_par j = k \<Longrightarrow> xs ! ?u \<le> xs ! j"
    if "0 < j" "j < length xs" for j using o that k(1) unfolding up_ord_def by blast+
  show ?thesis
    unfolding up_ord_def length_list_update
  proof (intro allI impI conjI)
    fix j assume j: "0 < j \<and> j < length xs"
    have pj: "heap_par j < j" using j by (simp add: heap_par_less)
    show "?ys ! heap_par j \<le> ?ys ! j" if jn: "j \<noteq> ?u"
    proof -
      consider "j = k" | "j \<noteq> k" "heap_par j = k" | "j \<noteq> k" "heap_par j = ?u" | "j \<noteq> k" "heap_par j \<noteq> k" "heap_par j \<noteq> ?u" by blast
      then show ?thesis
      proof cases
        case 1
        then show ?thesis using less by (simp only: at_u at_k less_imp_le)
      next
        case 2
        have "?ys ! j = xs ! j" using 2(1) jn by (rule other)
        then show ?thesis using two [of j] j 2(2) at_k by simp
      next
        case 3
        then have "xs ! ?u \<le> xs ! j" using one [of j] j by simp
        moreover have "?ys ! j = xs ! j" using 3(1) jn by (rule other)
        ultimately show ?thesis using less 3(2) at_u by simp
      next
        case 4
        have "?ys ! j = xs ! j" "?ys ! heap_par j = xs ! heap_par j" using 4 jn by (auto intro!: other)
        then show ?thesis using one [of j] j 4(1) by simp
      qed
    qed
    assume "heap_par j = ?u \<and> 0 < ?u"
    then have ju: "heap_par j = ?u" "0 < ?u" by blast+
    have pu: "heap_par ?u < ?u" using ju(2) by (rule heap_par_less)
    have up: "xs ! heap_par ?u \<le> xs ! ?u" using one [of ?u] u ju(2) k by simp
    have "?ys ! j = xs ! j \<and> xs ! ?u \<le> xs ! j \<or> j = k"
      using one [of j] j ju pj other [of j] by (cases "j = k") auto
    then have "xs ! ?u \<le> ?ys ! j" using at_k by auto
    moreover have "?ys ! heap_par ?u = xs ! heap_par ?u" using pu u by (intro other) simp_all
    ultimately show "?ys ! heap_par ?u \<le> ?ys ! j" using up by simp
  qed
qed

lemma up_ord_stop: "up_ord xs k \<Longrightarrow> k = 0 \<or> xs ! heap_par k \<le> xs ! k \<Longrightarrow> heap_ord xs"
  unfolding up_ord_def heap_ord_def by (metis gr_implies_not0)

lemma down_ord_swap:
  assumes o: "down_ord xs k" and b: "heap_par b = k" "0 < b" "b < length xs"
    and least: "\<And>j. heap_par j = k \<Longrightarrow> 0 < j \<Longrightarrow> j < length xs \<Longrightarrow> xs ! b \<le> xs ! j" and less: "xs ! b < xs ! k"
  shows "down_ord (xs[k := xs ! b, b := xs ! k]) b"
proof -
  let ?ys = "xs[k := xs ! b, b := xs ! k]"
  have k: "k < b" using b heap_par_less by blast
  have at_b: "?ys ! b = xs ! k" and at_k: "?ys ! k = xs ! b"
    and other: "\<And>i. i \<noteq> k \<Longrightarrow> i \<noteq> b \<Longrightarrow> ?ys ! i = xs ! i"
    using k b by (simp_all add: nth_list_update)
  have one: "heap_par j \<noteq> k \<Longrightarrow> xs ! heap_par j \<le> xs ! j" and two: "heap_par j = k \<Longrightarrow> 0 < k \<Longrightarrow> xs ! heap_par k \<le> xs ! j"
    if "0 < j" "j < length xs" for j using o that unfolding down_ord_def by blast+
  show ?thesis
    unfolding down_ord_def length_list_update
  proof (intro allI impI conjI)
    fix j assume j: "0 < j \<and> j < length xs"
    have pj: "heap_par j < j" using j by (simp add: heap_par_less)
    show "?ys ! heap_par j \<le> ?ys ! j" if jn: "heap_par j \<noteq> b"
    proof -
      consider "j = b" | "j \<noteq> b" "heap_par j = k" | "j = k" | "j \<noteq> b" "j \<noteq> k" "heap_par j \<noteq> k" by blast
      then show ?thesis
      proof cases
        case 1
        then show ?thesis using less b by (simp only: at_b at_k less_imp_le)
      next
        case 2
        then have "?ys ! j = xs ! j" using pj by (intro other) simp_all
        then show ?thesis using least [of j] j 2 at_k by simp
      next
        case 3
        then have kj: "0 < k" "heap_par k \<noteq> k" "heap_par k \<noteq> b" using j pj jn by auto
        then have "xs ! heap_par k \<le> xs ! b" using two [of b] b by simp
        moreover have "?ys ! heap_par k = xs ! heap_par k" using kj(2,3) by (rule other)
        ultimately show ?thesis using 3 at_k by simp
      next
        case 4
        have "?ys ! j = xs ! j" "?ys ! heap_par j = xs ! heap_par j" using 4 jn by (auto intro!: other)
        then show ?thesis using one [of j] j 4(3) by simp
      qed
    qed
    assume "heap_par j = b \<and> 0 < b"
    then have jb: "heap_par j = b" by blast
    then have "?ys ! j = xs ! j" using pj k by (intro other) simp_all
    moreover have "xs ! b \<le> xs ! j" using one [of j] jb j k by simp
    ultimately show "?ys ! heap_par b \<le> ?ys ! j" using b(1) at_k by simp
  qed
qed

lemma down_ord_stop:
  "down_ord xs k \<Longrightarrow> (\<And>j. heap_par j = k \<Longrightarrow> 0 < j \<Longrightarrow> j < length xs \<Longrightarrow> xs ! k \<le> xs ! j) \<Longrightarrow> heap_ord xs"
  unfolding down_ord_def heap_ord_def by metis

lemma heap_ord_min:
  assumes "heap_ord xs" "j < length xs"
  shows "xs ! 0 \<le> xs ! j"
  using assms(2)
proof (induction j rule: less_induct)
  case (less j)
  show ?case
  proof (cases "j = 0")
    case False
    then have "xs ! 0 \<le> xs ! heap_par j" "xs ! heap_par j \<le> xs ! j"
      using less assms(1) heap_par_less [of j] by (auto simp: heap_ord_def)
    then show ?thesis by (rule order.trans)
  qed simp
qed


section \<open>The loops\<close>

lemma mset_swap2: "i < length xs \<Longrightarrow> j < length xs \<Longrightarrow> mset (xs[i := xs ! j, j := xs ! i]) = mset xs"
  by (metis mset_swap)

lemma placed_id:
  "placed n xs ps k \<Longrightarrow> j < length xs \<Longrightarrow> 0 \<le> snd (xs ! j) \<and> snd (xs ! j) < int (length ps)"
  by (simp add: placed_def)

lemma mh_place_eq:
  assumes "placed n xs ps q" "k < length xs" "xs ! k = e"
    and h: "length (mh_heap h) = length xs" "mh_pos h = ps"
  shows "mh_place (int k) e h = Some \<lparr>mh_heap = (mh_heap h)[k := e], mh_pos = ps[nat (snd e) := int k]\<rparr>"
  using placed_id [OF assms(1,2)] assms by (simp add: mh_place_def vset_def)

text \<open>\<open>filled h k x\<close>: the array with the hole filled.\<close>

definition hole_inv :: "(('k::linorder \<times> int) list \<Rightarrow> nat \<Rightarrow> bool) \<Rightarrow> int \<Rightarrow> ('k \<times> int) multiset \<Rightarrow> 'k \<times> int
    \<Rightarrow> 'k min_heap \<times> int \<Rightarrow> bool" where
  "hole_inv R n M x = (\<lambda>(h, k). 0 \<le> k \<and> k < int (length (mh_heap h))
     \<and> placed n ((mh_heap h)[nat k := x]) (mh_pos h) k \<and> mset ((mh_heap h)[nat k := x]) = M
     \<and> R ((mh_heap h)[nat k := x]) (nat k))"

lemma hole_fill:
  assumes "hole_inv (\<lambda>xs k. heap_ord xs) n M x (h, k)"
  shows "ok (mh_place k x h) (\<lambda>h. mh_inv n h \<and> mset (mh_heap h) = M)"
proof -
  let ?xs = "(mh_heap h)[nat k := x]"
  have k: "0 \<le> k" "k < int (length (mh_heap h))" and p: "placed n ?xs (mh_pos h) (int (nat k))"
    and m: "mset ?xs = M" and o: "heap_ord ?xs"
    using assms by (simp_all add: hole_inv_def)
  have kl: "nat k < length ?xs" using k by simp
  have e: "mh_place (int (nat k)) x h = Some \<lparr>mh_heap = ?xs, mh_pos = (mh_pos h)[nat (snd x) := int (nat k)]\<rparr>"
    by (rule mh_place_eq [OF p kl]) (use k in simp_all)
  have "placed n ?xs ((mh_pos h)[nat (snd x) := int (nat k)]) (-1)" using placed_fill [OF p kl] k by simp
  then show ?thesis using e k m o by (simp add: mh_inv_def)
qed

lemma hole_move:
  assumes i: "hole_inv R n M x (h, int k)" and j: "j < length (mh_heap h)" "j \<noteq> k"
    and R: "R' ((mh_heap h)[k := mh_heap h ! j, j := x]) j"
  shows "ok (mh_place (int k) (mh_heap h ! j) h) (\<lambda>h'. hole_inv R' n M x (h', int j) \<and> length (mh_heap h') = length (mh_heap h))"
proof -
  let ?H = "mh_heap h" and ?xs = "(mh_heap h)[k := x]"
  have k: "k < length ?H" and p: "placed n ?xs (mh_pos h) (int k)" and m: "mset ?xs = M"
    using i by (simp_all add: hole_inv_def)
  have sw: "?xs[k := ?xs ! j, j := ?xs ! k] = ?H[k := ?H ! j, j := x]" using k j by simp
  have e: "mh_place (int k) (?H ! j) h = Some \<lparr>mh_heap = ?H[k := ?H ! j], mh_pos = (mh_pos h)[nat (snd (?H ! j)) := int k]\<rparr>"
    using placed_id [OF p, of j] j k by (simp add: mh_place_def vset_def)
  have "placed n (?H[k := ?H ! j, j := x]) ((mh_pos h)[nat (snd (?H ! j)) := int k]) (int j)"
    using placed_swap [OF p, of j] k j sw by simp
  moreover have "mset (?H[k := ?H ! j, j := x]) = M"
    using mset_swap2 [of k ?xs j] k j sw m by simp
  ultimately show ?thesis using e R j k by (simp add: hole_inv_def)
qed

lemma sift_up_ok:
  assumes "placed n xs ps (int k)" "k < length xs" "up_ord xs k"
  shows "ok (sift_up (int k) \<lparr>mh_heap = xs, mh_pos = ps\<rparr>) (\<lambda>h. mh_inv n h \<and> mset (mh_heap h) = mset xs)"
proof -
  let ?x = "xs ! k"
  have "ok (loop (\<lambda>(h, k).
       if k > 0 then do {
         let up = (k - 1) div kArity;
         e \<leftarrow> vget (mh_heap h) up;
         if \<not> mh_before ?x e then Some (Inl (h, k))
         else do { h \<leftarrow> mh_place k e h; Some (Inr (h, up)) }
       } else Some (Inl (h, k))) (\<lparr>mh_heap = xs, mh_pos = ps\<rparr>, int k))
     (hole_inv (\<lambda>xs k. heap_ord xs) n (mset xs) ?x)"
  proof (rule loop_ok [where I = "hole_inv up_ord n (mset xs) ?x" and m = "\<lambda>s. nat (snd s)"])
    show "hole_inv up_ord n (mset xs) ?x (\<lparr>mh_heap = xs, mh_pos = ps\<rparr>, int k)"
      using assms by (simp add: hole_inv_def)
  next
    fix s assume i: "hole_inv up_ord n (mset xs) ?x s"
    obtain h ki where s: "s = (h, ki)" by (cases s)
    have "0 \<le> ki" using i s by (simp add: hole_inv_def)
    then obtain k where ki: "ki = int k" by (rule nonneg_int_cases)
    let ?H = "mh_heap h" and ?F = "(mh_heap h)[k := ?x]" and ?u = "heap_par k"
    have k: "k < length ?H" and o: "up_ord ?F k" using i s ki by (simp_all add: hole_inv_def)
    have stop: "hole_inv (\<lambda>xs k. heap_ord xs) n (mset xs) ?x (h, int k)" if "k = 0 \<or> ?F ! ?u \<le> ?F ! k"
      using up_ord_stop [OF o that] i s ki by (simp add: hole_inv_def)
    show "ok (case s of (h, k) \<Rightarrow>
       if k > 0 then do {
         let up = (k - 1) div kArity;
         e \<leftarrow> vget (mh_heap h) up;
         if \<not> mh_before ?x e then Some (Inl (h, k))
         else do { h \<leftarrow> mh_place k e h; Some (Inr (h, up)) }
       } else Some (Inl (h, k)))
      (\<lambda>r. case r of Inl t \<Rightarrow> hole_inv (\<lambda>xs k. heap_ord xs) n (mset xs) ?x t
           | Inr t \<Rightarrow> hole_inv up_ord n (mset xs) ?x t \<and> nat (snd t) < nat (snd s))"
    proof (cases "k = 0")
      case True
      then show ?thesis using stop s ki by simp
    next
      case False
      then have u: "?u < k" "(int k - 1) div kArity = int ?u" by (simp_all add: heap_par_less heap_par_int)
      have at_u: "?F ! ?u = ?H ! ?u" and at_k: "?F ! k = ?x" using u k by simp_all
      show ?thesis
      proof (cases "?x < ?H ! ?u")
        case True
        have "up_ord (?F[k := ?F ! ?u, ?u := ?F ! k]) ?u"
          by (rule up_ord_swap [OF o]) (use False k True at_u at_k in simp_all)
        then have "up_ord (?H[k := ?H ! ?u, ?u := ?x]) ?u" using u k by simp
        then have "ok (mh_place (int k) (?H ! ?u) h)
            (\<lambda>h'. hole_inv up_ord n (mset xs) ?x (h', int ?u) \<and> length (mh_heap h') = length ?H)"
          by (intro hole_move) (use i s ki u k in simp_all)
        then have "ok (mh_place (int k) (?H ! ?u) h) (\<lambda>h'. hole_inv up_ord n (mset xs) ?x (h', int ?u) \<and> ?u < k)"
          by (rule ok_mono) (use u in simp)
        then show ?thesis using s ki False u k True by (simp add: before_less Let_def)
      next
        case nl: False
        then have "?F ! ?u \<le> ?F ! k" using at_u at_k by simp
        then show ?thesis using stop s ki False u k nl by (simp add: before_less Let_def)
      qed
    qed
  qed
  then have "ok (loop (\<lambda>(h, k).
       if k > 0 then do {
         let up = (k - 1) div kArity;
         e \<leftarrow> vget (mh_heap h) up;
         if \<not> mh_before ?x e then Some (Inl (h, k))
         else do { h \<leftarrow> mh_place k e h; Some (Inr (h, up)) }
       } else Some (Inl (h, k))) (\<lparr>mh_heap = xs, mh_pos = ps\<rparr>, int k))
     (\<lambda>(h, k). ok (mh_place k ?x h) (\<lambda>h. mh_inv n h \<and> mset (mh_heap h) = mset xs))"
    by (rule ok_mono) (clarify, rule hole_fill)
  moreover have "vget xs (int k) = Some ?x" using assms(2) by (simp add: vget_def)
  ultimately show ?thesis by (simp add: sift_up_def del: ok_vget)
qed

lemma best_child_ok:
  assumes "0 \<le> c0" "c0 < c1" "c1 \<le> int (length xs)"
  shows "ok (best_child xs c0 c1) (\<lambda>b. c0 \<le> b \<and> b < c1 \<and> (\<forall>j. c0 \<le> j \<and> j < c1 \<longrightarrow> xs ! nat b \<le> xs ! nat j))"
  unfolding best_child_def
proof (rule for_range_ok [where I = "\<lambda>c b. c0 \<le> b \<and> b < c \<and> (\<forall>j. c0 \<le> j \<and> j < c \<longrightarrow> xs ! nat b \<le> xs ! nat j)"])
  show "c0 \<le> c0 \<and> c0 < c0 + 1 \<and> (\<forall>j. c0 \<le> j \<and> j < c0 + 1 \<longrightarrow> xs ! nat c0 \<le> xs ! nat j)"
    by (simp add: all_below_Suc)
next
  fix c b assume c: "c0 + 1 \<le> c" "c < c1" and i: "c0 \<le> b \<and> b < c \<and> (\<forall>j. c0 \<le> j \<and> j < c \<longrightarrow> xs ! nat b \<le> xs ! nat j)"
  have "c0 \<le> c" using c by simp
  then show "ok (do { a \<leftarrow> vget xs c; b' \<leftarrow> vget xs b; Some (if mh_before a b' then c else b) })
     (\<lambda>b. c0 \<le> b \<and> b < c + 1 \<and> (\<forall>j. c0 \<le> j \<and> j < c + 1 \<longrightarrow> xs ! nat b \<le> xs ! nat j))"
    unfolding all_below_Suc [OF \<open>c0 \<le> c\<close>] using assms c i
    by (auto simp: before_less not_less intro: order.trans [OF less_imp_le])
qed (use assms in simp)


text \<open>The children of \<open>k\<close> are \<open>4k+1, ..., 4k+4\<close>.\<close>

lemma heap_par_children: "0 < j \<Longrightarrow> heap_par j = k \<longleftrightarrow> kArity * int k + 1 \<le> int j \<and> int j < kArity * int k + 1 + kArity"
  unfolding heap_par_def kArity_def by linarith

lemma sift_down_ok:
  assumes "placed n (xs[0 := x]) ps 0" "xs \<noteq> []" "down_ord (xs[0 := x]) 0"
  shows "ok (sift_down x \<lparr>mh_heap = xs, mh_pos = ps\<rparr>) (\<lambda>h. mh_inv n h \<and> mset (mh_heap h) = mset (xs[0 := x]))"
proof -
  let ?M = "mset (xs[0 := x])"
  let ?body = "\<lambda>(h, k). do {
       let n = int (length (mh_heap h));
       let c0 = kArity * k + 1;
       if c0 \<ge> n then Some (Inl (h, k))
       else do {
         let c1 = (if c0 + kArity < n then c0 + kArity else n);
         best \<leftarrow> best_child (mh_heap h) c0 c1;
         e \<leftarrow> vget (mh_heap h) best;
         if \<not> mh_before e x then Some (Inl (h, k))
         else do { h \<leftarrow> mh_place k e h; Some (Inr (h, best)) }
       }
     }"
  let ?I = "\<lambda>s. hole_inv down_ord n ?M x s \<and> length (mh_heap (fst s)) = length xs"
  have "ok (loop ?body (\<lparr>mh_heap = xs, mh_pos = ps\<rparr>, 0)) (hole_inv (\<lambda>xs k. heap_ord xs) n ?M x)"
  proof (rule loop_ok [where I = ?I and m = "\<lambda>s. length xs - nat (snd s)"])
    show "?I (\<lparr>mh_heap = xs, mh_pos = ps\<rparr>, 0)" using assms by (simp add: hole_inv_def)
  next
    fix s assume i: "?I s"
    obtain h ki where s: "s = (h, ki)" by (cases s)
    have "0 \<le> ki" using i s by (simp add: hole_inv_def)
    then obtain k where ki: "ki = int k" by (rule nonneg_int_cases)
    let ?H = "mh_heap h" and ?F = "(mh_heap h)[k := x]"
    have k: "k < length ?H" and o: "down_ord ?F k" and len: "length ?H = length xs" using i s ki by (simp_all add: hole_inv_def)
    have stop: "hole_inv (\<lambda>xs k. heap_ord xs) n ?M x (h, int k)"
      if "\<And>j. heap_par j = k \<Longrightarrow> 0 < j \<Longrightarrow> j < length ?H \<Longrightarrow> x \<le> ?H ! j"
    proof -
      have "heap_ord ?F"
      proof (rule down_ord_stop [OF o])
        fix j assume j: "heap_par j = k" "0 < j" "j < length ?F"
        then have "j \<noteq> k" using heap_par_less [OF j(2)] by simp
        then show "?F ! k \<le> ?F ! j" using that [OF j(1,2)] j(3) k by simp
      qed
      then show ?thesis using i s ki by (simp add: hole_inv_def)
    qed
    let ?n = "int (length ?H)" and ?c0 = "kArity * int k + 1"
    show "ok (?body s) (\<lambda>r. case r of Inl t \<Rightarrow> hole_inv (\<lambda>xs k. heap_ord xs) n ?M x t
           | Inr t \<Rightarrow> ?I t \<and> length xs - nat (snd t) < length xs - nat (snd s))"
    proof (cases "?c0 \<ge> ?n")
      case True
      have "hole_inv (\<lambda>xs k. heap_ord xs) n ?M x (h, int k)"
      proof (rule stop)
        fix j assume "heap_par j = k" "0 < j" "j < length ?H"
        then show "x \<le> ?H ! j" using heap_par_children [of j k] True by simp
      qed
      then show ?thesis using s ki True by (simp add: Let_def)
    next
      case False
      let ?c1 = "if ?c0 + kArity < ?n then ?c0 + kArity else ?n"
      have c: "0 \<le> ?c0" "?c0 < ?c1" "?c1 \<le> ?n" using False by (simp_all add: kArity_def)
      obtain bi where bi: "best_child ?H ?c0 ?c1 = Some bi" "?c0 \<le> bi" "bi < ?c1"
        "\<And>j. ?c0 \<le> j \<Longrightarrow> j < ?c1 \<Longrightarrow> ?H ! nat bi \<le> ?H ! nat j"
        using best_child_ok [OF c] unfolding ok_def by blast
      have "0 \<le> bi" using bi(2) c(1) by (rule order.trans [rotated])
      then obtain b where b: "bi = int b" by (rule nonneg_int_cases)
      have "bi < ?n" using bi(3) c(3) by (rule less_le_trans)
      then have bl: "b < length ?H" using b by simp
      have bp: "0 < b" "heap_par b = k" using bi(2,3) b c heap_par_children [of b k] by (auto simp: kArity_def split: if_splits)
      have bk: "k < b" using heap_par_less [OF bp(1)] bp(2) by simp
      have least: "?H ! b \<le> ?H ! j" if "heap_par j = k" "0 < j" "j < length ?H" for j
        using bi(4) [of "int j"] heap_par_children [OF that(2), of k] that b by (simp split: if_splits)
      show ?thesis
      proof (cases "?H ! b < x")
        case True
        have "down_ord (?F[k := ?F ! b, b := ?F ! k]) b"
        proof (rule down_ord_swap [OF o bp(2,1)])
          show "b < length ?F" using bl by simp
          show "?F ! b < ?F ! k" using True bk k by simp
          fix j assume j: "heap_par j = k" "0 < j" "j < length ?F"
          then have "j \<noteq> k" using heap_par_less [OF j(2)] by simp
          then show "?F ! b \<le> ?F ! j" using least [OF j(1,2)] j(3) bk by simp
        qed
        then have "down_ord (?H[k := ?H ! b, b := x]) b" using bk k by simp
        then have "ok (mh_place (int k) (?H ! b) h)
            (\<lambda>h'. hole_inv down_ord n ?M x (h', int b) \<and> length (mh_heap h') = length ?H)"
          by (intro hole_move [where R = down_ord]) (use i s ki bk bl in simp_all)
        then have "ok (mh_place (int k) (?H ! b) h) (\<lambda>h'. (hole_inv down_ord n ?M x (h', int b) \<and> length (mh_heap h') = length xs)
            \<and> length xs - b < length xs - k)"
          by (rule ok_mono) (use bk bl len in simp)
        then show ?thesis using s ki False bi(1) b bl True by (simp add: before_less Let_def)
      next
        case nl: False
        have "hole_inv (\<lambda>xs k. heap_ord xs) n ?M x (h, int k)"
        proof (rule stop)
          fix j assume "heap_par j = k" "0 < j" "j < length ?H"
          then show "x \<le> ?H ! j" using least [of j] nl by simp
        qed
        then show ?thesis using s ki False bi(1) b bl nl by (simp add: before_less Let_def)
      qed
    qed
  qed
  then have "ok (loop ?body (\<lparr>mh_heap = xs, mh_pos = ps\<rparr>, 0))
     (\<lambda>(h, k). ok (mh_place k x h) (\<lambda>h. mh_inv n h \<and> mset (mh_heap h) = ?M))"
    by (rule ok_mono) (clarify, rule hole_fill)
  then show ?thesis by (simp add: sift_down_def)
qed


section \<open>The operations on the map\<close>

lemma mh_map_iff: "placed n (mh_heap h) ps k \<Longrightarrow> mh_map h i = Some key \<longleftrightarrow> (key, i) \<in> set (mh_heap h)"
proof -
  assume "placed n (mh_heap h) ps k"
  then have "distinct (map fst (map (\<lambda>(k, i). (i, k)) (mh_heap h)))"
    by (simp add: placed_def comp_def split_beta)
  then have "mh_map h i = Some key \<longleftrightarrow> (i, key) \<in> set (map (\<lambda>(k, i). (i, k)) (mh_heap h))"
    unfolding mh_map_def by (rule map_of_eq_Some_iff)
  then show ?thesis by auto
qed

lemma mh_map_eqI:
  assumes "mh_inv n h" "\<And>i key. m i = Some key \<longleftrightarrow> (key, i) \<in> set (mh_heap h)"
  shows "mh_map h = m"
proof
  fix i
  have "mh_map h i = Some key \<longleftrightarrow> m i = Some key" for key
    using assms(1) mh_map_iff [of n h "mh_pos h" "-1" i key] assms(2) [of i key] by (simp add: mh_inv_def)
  then show "mh_map h i = m i" by (metis not_Some_eq)
qed

lemma mh_empty: "mh_inv n h \<Longrightarrow> mh_heap h = [] \<longleftrightarrow> mh_map h = Map.empty"
  by (cases "mh_heap h") (auto simp: mh_map_def fun_eq_iff split: prod.splits)

lemma mh_pos_member:
  assumes "mh_inv n h" "0 \<le> i" "i < n"
  obtains (absent) "mh_pos h ! nat i = -1" "i \<notin> snd ` set (mh_heap h)" "mh_map h i = None"
  | (present) j where "j < length (mh_heap h)" "mh_pos h ! nat i = int j" "snd (mh_heap h ! j) = i"
      "mh_map h i = Some (fst (mh_heap h ! j))"
proof -
  have p: "placed n (mh_heap h) (mh_pos h) (-1)" using assms by (simp add: mh_inv_def)
  show thesis
  proof (cases "i \<in> snd ` set (mh_heap h)")
    case True
    then obtain j where j: "j < length (mh_heap h)" "snd (mh_heap h ! j) = i" by (metis imageE in_set_conv_nth)
    have "mh_pos h ! nat i = int j" using p j by (auto simp: placed_def)
    moreover have "mh_map h i = Some (fst (mh_heap h ! j))"
      using mh_map_iff [OF p, of i] j by (metis nth_mem prod.collapse)
    ultimately show thesis using present j by blast
  next
    case False
    moreover have "mh_map h i = None"
    proof (rule ccontr)
      assume "mh_map h i \<noteq> None"
      then obtain key where "(key, i) \<in> set (mh_heap h)" using mh_map_iff [OF p, of i] by blast
      then show False using False by (metis image_eqI snd_conv)
    qed
    ultimately show thesis using absent p assms by (simp add: placed_def)
  qed
qed

lemma mh_contains_ok: "mh_inv n h \<Longrightarrow> 0 \<le> i \<Longrightarrow> i < n \<Longrightarrow> mh_contains h i = Some (mh_map h i \<noteq> None)"
proof -
  assume a: "mh_inv n h" "0 \<le> i" "i < n"
  then have "vget (mh_pos h) i = Some (mh_pos h ! nat i)" by (simp add: vget_def mh_inv_def placed_def)
  then show ?thesis by (cases rule: mh_pos_member [OF a]) (simp_all add: mh_contains_def)
qed

lemma mh_reset_ok: "0 \<le> n \<Longrightarrow> mh_inv n (mh_reset n) \<and> mh_map (mh_reset n) = Map.empty"
  by (simp add: mh_inv_def mh_reset_def placed_def heap_ord_def mh_map_def)

lemma push_ok:
  assumes h: "mh_inv n h" and i: "0 \<le> i" "i < n" and key: "\<And>k. mh_map h i = Some k \<Longrightarrow> key \<le> k"
  shows "ok (push_or_decrease i key h) (\<lambda>h'. mh_inv n h' \<and> mh_map h' = (mh_map h)(i \<mapsto> key))"
proof -
  let ?H = "mh_heap h" and ?P = "mh_pos h"
  have p: "placed n ?H ?P (-1)" and o: "heap_ord ?H" using h by (simp_all add: mh_inv_def)
  have get: "vget ?P i = Some (?P ! nat i)" using i p by (simp add: vget_def placed_def)
  note miff = mh_map_iff [OF p]
  show ?thesis
    using h i
  proof (cases rule: mh_pos_member)
    case absent
    let ?X = "?H @ [(key, i)]"
    have "placed n ?X ?P (int (length ?H))"
      using p absent(2) i unfolding placed_def by (auto simp: nth_append less_Suc_eq)
    moreover have "up_ord ?X (length ?H)"
      unfolding up_ord_def
    proof (intro allI impI conjI)
      fix a assume a: "0 < a \<and> a < length ?X"
      then have pa: "heap_par a < a" by (simp add: heap_par_less)
      show "?X ! heap_par a \<le> ?X ! a" if "a \<noteq> length ?H"
        using that a pa o by (simp add: nth_append heap_ord_def)
      assume "heap_par a = length ?H \<and> 0 < length ?H"
      then show "?X ! heap_par (length ?H) \<le> ?X ! a" using a pa by simp
    qed
    ultimately have "ok (sift_up (int (length ?H)) \<lparr>mh_heap = ?X, mh_pos = ?P\<rparr>)
        (\<lambda>h'. mh_inv n h' \<and> mset (mh_heap h') = mset ?X)"
      by (intro sift_up_ok) simp_all
    then have "ok (sift_up (int (length ?H)) \<lparr>mh_heap = ?X, mh_pos = ?P\<rparr>)
        (\<lambda>h'. mh_inv n h' \<and> mh_map h' = (mh_map h)(i \<mapsto> key))"
    proof (rule ok_mono)
      fix h' assume h': "mh_inv n h' \<and> mset (mh_heap h') = mset ?X"
      then have "set (mh_heap h') = insert (key, i) (set ?H)" by (metis mset_eq_setD set_append empty_set list.simps(15) Un_insert_right sup_bot.right_neutral)
      then show "mh_inv n h' \<and> mh_map h' = (mh_map h)(i \<mapsto> key)"
        using h' absent(2) by (intro conjI mh_map_eqI [of n]) (auto simp: miff image_iff)
    qed
    then show ?thesis using absent(1) get by (cases h) (simp add: push_or_decrease_def del: ok_vget)
  next
    case (present j)
    let ?X = "?H[j := (key, i)]"
    have le: "(key, i) \<le> ?H ! j"
      using key [OF present(4)] present(3) by (cases "?H ! j") (auto simp: less_eq_prod_def)
    have ids: "map snd ?X = map snd ?H" using present(1,3) by (simp add: map_update list_update_same_conv)
    have sets: "snd ` set ?X = snd ` set ?H" using ids by (metis set_map)
    have idj: "snd (?X ! a) = snd (?H ! a)" if "a < length ?H" for a
      using arg_cong [OF ids, of "\<lambda>xs. xs ! a"] that by simp
    have "placed n ?X ?P (int j)" using p idj unfolding placed_def sets ids by simp
    moreover have "up_ord ?X j"
      unfolding up_ord_def
    proof (intro allI impI conjI)
      fix a assume a: "0 < a \<and> a < length ?X"
      then have pa: "heap_par a < a" "?H ! heap_par a \<le> ?H ! a" using o heap_par_less by (simp_all add: heap_ord_def)
      show "?X ! heap_par a \<le> ?X ! a" if "a \<noteq> j"
      proof (cases "heap_par a = j")
        case True
        then have "(key, i) \<le> ?H ! a" using le pa(2) by simp
        then show ?thesis using that True present(1) by simp
      qed (use that pa in simp)
      assume b: "heap_par a = j \<and> 0 < j"
      then have "?H ! heap_par j \<le> ?H ! j" "heap_par j < j" using o present(1) heap_par_less by (simp_all add: heap_ord_def)
      moreover have "?H ! j \<le> ?H ! a" "a \<noteq> j" using pa b by auto
      ultimately have "?H ! heap_par j \<le> ?H ! a" "heap_par j \<noteq> j" "a \<noteq> j" by auto
      then show "?X ! heap_par j \<le> ?X ! a" by simp
    qed
    ultimately have "ok (sift_up (int j) \<lparr>mh_heap = ?X, mh_pos = ?P\<rparr>)
        (\<lambda>h'. mh_inv n h' \<and> mset (mh_heap h') = mset ?X)"
      using present(1) by (intro sift_up_ok) simp_all
    then have "ok (sift_up (int j) \<lparr>mh_heap = ?X, mh_pos = ?P\<rparr>)
        (\<lambda>h'. mh_inv n h' \<and> mh_map h' = (mh_map h)(i \<mapsto> key))"
    proof (rule ok_mono)
      fix h' assume h': "mh_inv n h' \<and> mset (mh_heap h') = mset ?X"
      then have s: "set (mh_heap h') = set ?X" by (metis mset_eq_setD)
      have mem: "(k, l) \<in> set ?X \<longleftrightarrow> (if l = i then k = key else (k, l) \<in> set ?H)" for k l
      proof (cases "l = i")
        case True
        have "b = j" if "b < length ?X" "?X ! b = (k, i)" for b
        proof -
          have "map snd ?H ! b = map snd ?H ! j" using that idj [of b] present(1,3) by simp
          then show ?thesis using that(1) present(1) p nth_eq_iff_index_eq [of "map snd ?H" b j] by (simp add: placed_def)
        qed
        then have "k = key" if "(k, i) \<in> set ?X" using that present(1) unfolding in_set_conv_nth by force
        moreover have "(key, i) \<in> set ?X" using present(1) by (rule set_update_memI)
        ultimately have "(k, i) \<in> set ?X \<longleftrightarrow> k = key" by blast
        then show ?thesis using True by simp
      next
        case False
        have "(k, l) = ?X ! b \<longleftrightarrow> (k, l) = ?H ! b" if "b < length ?H" for b
          using False present(1,3) that by (cases "b = j") (auto dest: sym)
        then show ?thesis using False by (metis in_set_conv_nth length_list_update)
      qed
      show "mh_inv n h' \<and> mh_map h' = (mh_map h)(i \<mapsto> key)"
        using h' s mem by (intro conjI mh_map_eqI [of n]) (auto simp: miff)
    qed
    moreover have "vget ?H (int j) = Some (?H ! j)" "vset ?H (int j) (key, i) = Some ?X"
      using present(1) by (simp_all add: vget_def vset_def)
    ultimately show ?thesis using present(2,3) get by (cases h) (simp add: push_or_decrease_def del: ok_vget)
  qed
qed


text \<open>Popping: the last entry fills the hole at the root.\<close>

lemma pop_split:
  assumes "length xs \<ge> 2"
  shows "\<exists>mid. xs = hd xs # mid @ [last xs] \<and> butlast xs = hd xs # mid"
proof -
  obtain x ys where x: "xs = x # ys" "ys \<noteq> []" using assms by (cases xs) (auto simp: Suc_le_length_iff)
  then have "ys = butlast ys @ [last ys]" by simp
  then show ?thesis using x by (intro exI [of _ "butlast ys"]) simp
qed

lemma pop_ok:
  assumes h: "mh_inv n h" and ne: "mh_heap h \<noteq> []"
  shows "ok (mh_pop h) (\<lambda>h'. mh_inv n h' \<and> mset (mh_heap h') = mset (tl (mh_heap h)))"
proof -
  let ?H = "mh_heap h" and ?P = "mh_pos h"
  let ?i = "snd (?H ! 0)" let ?Q = "?P[nat ?i := -1]"
  have p: "placed n ?H ?P (-1)" and o: "heap_ord ?H" using h by (simp_all add: mh_inv_def)
  have i: "0 \<le> ?i" "?i < int (length ?P)" using placed_id [OF p, of 0] ne by auto
  have len: "int (length ?P) = n" and d: "distinct (map snd ?H)" using p by (simp_all add: placed_def)
  have hd: "?H ! 0 = hd ?H" using ne by (simp add: hd_conv_nth)
  have pop: "mh_pop h = (if butlast ?H \<noteq> [] then sift_down (last ?H) \<lparr>mh_heap = butlast ?H, mh_pos = ?Q\<rparr>
      else Some \<lparr>mh_heap = butlast ?H, mh_pos = ?Q\<rparr>)"
    using ne i by (simp add: mh_pop_def vget_def vset_def)
  have dead: "?Q ! nat j = -1" if j: "0 \<le> j" "j < n" "j \<notin> snd ` set (tl ?H)" for j
  proof (cases "j = ?i")
    case False
    then have "j \<notin> snd ` set ?H" using j(3) hd ne by (cases ?H) auto
    then have "?P ! nat j = -1" using j p by (simp add: placed_def)
    moreover have "nat j \<noteq> nat ?i" using False j i by (simp add: eq_nat_nat_iff)
    ultimately show ?thesis by simp
  qed (use i in simp)
  show ?thesis
  proof (cases "butlast ?H = []")
    case True
    then obtain x where "?H = [x]" using ne by (cases ?H) (auto split: if_splits)
    then have "placed n [] ?Q (-1)" using dead len by (simp add: placed_def)
    then show ?thesis using pop True \<open>?H = [x]\<close> by (simp add: mh_inv_def heap_ord_def)
  next
    case False
    then have "length ?H \<ge> 2" by (cases ?H; cases "tl ?H") auto
    then obtain mid where mid: "?H = hd ?H # mid @ [last ?H]" "butlast ?H = hd ?H # mid" using pop_split by blast
    let ?l = "last ?H" and ?B = "butlast ?H"
    have B: "?B[0 := ?l] = ?l # mid" using mid(2) by simp
    have tl: "tl ?H = mid @ [?l]" by (subst mid(1)) simp
    have lenH: "length ?H = length mid + 2" by (subst mid(1)) simp
    have at_j: "(?l # mid) ! j = ?H ! j" if "0 < j" "j < length (?l # mid)" for j
      using that by (subst mid(1)) (auto simp: nth_append nth_Cons')
    have "placed n (?l # mid) ?Q 0"
      unfolding placed_def
    proof (intro conjI allI impI)
      show "int (length ?Q) = n" using len by simp
      have "distinct (map snd (hd ?H # mid @ [?l]))" using d mid(1) by simp
      then show "distinct (map snd (?l # mid))" by auto
      have all: "set (?l # mid) = set (tl ?H)" unfolding tl by auto
      have sub: "set (?l # mid) \<subseteq> set ?H" unfolding all by (cases ?H) auto
      show "0 \<le> snd ((?l # mid) ! j)" "snd ((?l # mid) ! j) < n" if "j < length (?l # mid)" for j
      proof -
        have "(?l # mid) ! j \<in> set ?H" using that sub nth_mem by blast
        then obtain a where "a < length ?H" "(?l # mid) ! j = ?H ! a" by (metis in_set_conv_nth)
        then show "0 \<le> snd ((?l # mid) ! j)" "snd ((?l # mid) ! j) < n" using placed_id [OF p, of a] len by simp_all
      qed
      show "?Q ! nat (snd ((?l # mid) ! j)) = int j" if "j < length (?l # mid)" "int j \<noteq> 0" for j
      proof -
        have j: "0 < j" "j < length ?H" using that lenH by simp_all
        have "snd (?H ! j) \<noteq> ?i" using d j ne nth_eq_iff_index_eq [of "map snd ?H" j 0] by simp
        then have "nat (snd (?H ! j)) \<noteq> nat ?i" using placed_id [OF p j(2)] i by (simp add: eq_nat_nat_iff)
        then show ?thesis using at_j [OF j(1) that(1)] j(2) p by (simp add: placed_def)
      qed
      show "?Q ! nat j = -1" if "0 \<le> j \<and> j < n \<and> j \<notin> snd ` set (?l # mid)" for j
        using that dead [of j] unfolding all by blast
    qed
    moreover have "down_ord (?l # mid) 0"
      unfolding down_ord_def
    proof (intro allI impI conjI)
      fix j assume j: "0 < j \<and> j < length (?l # mid)"
      then have pj: "heap_par j < j" "?H ! heap_par j \<le> ?H ! j" using o heap_par_less lenH by (simp_all add: heap_ord_def)
      show "(?l # mid) ! heap_par j \<le> (?l # mid) ! j" if "heap_par j \<noteq> 0"
        using that pj j at_j [of j] at_j [of "heap_par j"] by simp
    qed simp
    ultimately have "ok (sift_down ?l \<lparr>mh_heap = ?B, mh_pos = ?Q\<rparr>) (\<lambda>h. mh_inv n h \<and> mset (mh_heap h) = mset (?B[0 := ?l]))"
      using False by (intro sift_down_ok) (simp_all only: B not_False_eq_True)
    then show ?thesis using pop False unfolding B tl by simp
  qed
qed


lemma pop_map:
  assumes h: "mh_inv n h" and ne: "mh_heap h \<noteq> []"
  shows "ok (mh_pop h) (\<lambda>h'. mh_inv n h' \<and> mh_map h' = (mh_map h)(snd (hd (mh_heap h)) := None))"
proof (rule ok_mono [OF pop_ok [OF assms]])
  fix h' assume h': "mh_inv n h' \<and> mset (mh_heap h') = mset (tl (mh_heap h))"
  obtain e xs where H: "mh_heap h = e # xs" using ne by (cases "mh_heap h") auto
  have p: "placed n (mh_heap h) (mh_pos h) (-1)" using h by (simp add: mh_inv_def)
  then have "snd e \<notin> snd ` set xs" by (simp add: placed_def H)
  moreover have "set (mh_heap h') = set xs" using h' H by (metis list.sel(3) mset_eq_setD)
  ultimately have "mh_map h' = (mh_map h)(snd e := None)"
    using h' by (intro mh_map_eqI [of n]) (auto simp: mh_map_iff [OF p] H image_iff split: if_splits)
  then show "mh_inv n h' \<and> mh_map h' = (mh_map h)(snd (hd (mh_heap h)) := None)" using h' H by simp
qed

lemma top_ok:
  assumes h: "mh_inv n h" and ne: "mh_heap h \<noteq> []"
  shows "mh_top h = Some (hd (mh_heap h)) \<and> mh_map h (snd (hd (mh_heap h))) = Some (fst (hd (mh_heap h)))
    \<and> (\<forall>i k. mh_map h i = Some k \<longrightarrow> hd (mh_heap h) \<le> (k, i))"
proof -
  have p: "placed n (mh_heap h) (mh_pos h) (-1)" and o: "heap_ord (mh_heap h)" using h by (simp_all add: mh_inv_def)
  have "hd (mh_heap h) \<le> (k, i)" if "(k, i) \<in> set (mh_heap h)" for i k
    using that heap_ord_min [OF o] ne by (metis hd_conv_nth in_set_conv_nth)
  then show ?thesis using ne mh_map_iff [OF p] by (simp add: mh_top_def vget_def hd_conv_nth)
qed

lemma clear_ok:
  assumes h: "mh_inv n h"
  shows "ok (mh_clear h) (\<lambda>h'. mh_inv n h' \<and> mh_map h' = Map.empty)"
proof -
  have p: "placed n (mh_heap h) (mh_pos h) (-1)" using h by (simp add: mh_inv_def)
  then have len: "int (length (mh_pos h)) = n" by (simp add: placed_def)
  have "ok (forM (mh_heap h) (\<lambda>e ps. vset ps (snd e) (-1)) (mh_pos h))
     (\<lambda>ps. int (length ps) = n \<and> (\<forall>i. 0 \<le> i \<and> i < n \<longrightarrow> ps ! nat i = -1))"
  proof (rule forM_ok [where I = "\<lambda>pre suf ps. int (length ps) = n
      \<and> (\<forall>i. 0 \<le> i \<and> i < n \<and> i \<notin> snd ` set suf \<longrightarrow> ps ! nat i = -1)"])
    fix pre e suf ps
    assume e: "mh_heap h = pre @ e # suf" and i: "int (length ps) = n \<and> (\<forall>i. 0 \<le> i \<and> i < n \<and> i \<notin> snd ` set (e # suf) \<longrightarrow> ps ! nat i = -1)"
    have "e \<in> set (mh_heap h)" using e by simp
    then have "0 \<le> snd e" "snd e < n" using placed_id [OF p] len by (auto simp: in_set_conv_nth)
    then show "ok (vset ps (snd e) (-1)) (\<lambda>ps. int (length ps) = n \<and> (\<forall>i. 0 \<le> i \<and> i < n \<and> i \<notin> snd ` set suf \<longrightarrow> ps ! nat i = -1))"
      using i by (auto simp: nth_list_update nat_eq_iff2)
  qed (use p in \<open>simp_all add: placed_def\<close>)
  then show ?thesis by (auto simp: mh_clear_def mh_inv_def placed_def heap_ord_def mh_map_def ok_def)
qed

section \<open>The interface\<close>

text \<open>A priority map over the ids \<open>0, ..., n - 1\<close>: what the searches rely on.\<close>

locale priority_map =
  fixes n :: int
    and invar :: "'h \<Rightarrow> bool"
    and lookup :: "'h \<Rightarrow> int \<Rightarrow> 'k::linorder option"
    and push :: "int \<Rightarrow> 'k \<Rightarrow> 'h \<Rightarrow> 'h option"
    and least :: "'h \<Rightarrow> ('k \<times> int) option"
    and pop :: "'h \<Rightarrow> 'h option"
  assumes push_law: "invar h \<Longrightarrow> 0 \<le> i \<Longrightarrow> i < n \<Longrightarrow> (\<And>k. lookup h i = Some k \<Longrightarrow> key \<le> k) \<Longrightarrow>
      ok (push i key h) (\<lambda>h'. invar h' \<and> lookup h' = (lookup h)(i \<mapsto> key))"
    and least_law: "invar h \<Longrightarrow> lookup h \<noteq> Map.empty \<Longrightarrow>
      ok (least h) (\<lambda>(k, i). lookup h i = Some k \<and> (\<forall>j l. lookup h j = Some l \<longrightarrow> (k, i) \<le> (l, j)))"
    and pop_law: "invar h \<Longrightarrow> least h = Some (k, i) \<Longrightarrow> lookup h \<noteq> Map.empty \<Longrightarrow>
      ok (pop h) (\<lambda>h'. invar h' \<and> lookup h' = (lookup h)(i := None))"
begin

text \<open>The least entry depends on the map alone, and the pops come in ascending order.\<close>

lemma least_unique:
  assumes "invar h" "invar h'" "lookup h = lookup h'" "lookup h \<noteq> Map.empty"
  shows "least h = least h'"
proof -
  obtain k i where a: "least h = Some (k, i)" "lookup h i = Some k" "\<And>j l. lookup h j = Some l \<Longrightarrow> (k, i) \<le> (l, j)"
    using least_law [OF assms(1,4)] unfolding ok_def by auto
  obtain k' i' where b: "least h' = Some (k', i')" "lookup h' i' = Some k'" "\<And>j l. lookup h' j = Some l \<Longrightarrow> (k', i') \<le> (l, j)"
    using least_law [OF assms(2)] assms(3,4) unfolding ok_def by auto
  have "(k, i) \<le> (k', i')" using a(3) b(2) assms(3) by simp
  moreover have "(k', i') \<le> (k, i)" using b(3) a(2) assms(3) by simp
  ultimately show ?thesis using a(1) b(1) by auto
qed

lemma pops_ascend:
  assumes "invar h" "lookup h \<noteq> Map.empty" "least h = Some e" "pop h = Some h'" "lookup h' \<noteq> Map.empty"
  shows "\<exists>e'. least h' = Some e' \<and> e < e'"
proof -
  obtain k i where e: "e = (k, i)" by (cases e)
  have a: "lookup h i = Some k" "\<And>j l. lookup h j = Some l \<Longrightarrow> (k, i) \<le> (l, j)"
    using ok_the [OF least_law [OF assms(1,2)] assms(3)] e by simp_all
  have h': "invar h'" "lookup h' = (lookup h)(i := None)"
    using ok_the [OF pop_law [OF assms(1) assms(3) [unfolded e] assms(2)] assms(4)] by simp_all
  obtain k' i' where b: "least h' = Some (k', i')" "lookup h' i' = Some k'"
    using least_law [OF h'(1) assms(5)] unfolding ok_def by auto
  then have "i' \<noteq> i" "lookup h i' = Some k'" using h'(2) by (auto split: if_splits)
  then have "e \<noteq> (k', i')" "e \<le> (k', i')" using a(2) e by auto
  then show ?thesis using b(1) by auto
qed

end

interpretation mh: priority_map n "mh_inv n" mh_map push_or_decrease mh_top mh_pop for n
proof
  fix h :: "'a min_heap" assume h: "mh_inv n h"
  show "ok (push_or_decrease i key h) (\<lambda>h'. mh_inv n h' \<and> mh_map h' = (mh_map h)(i \<mapsto> key))"
    if "0 \<le> i" "i < n" "\<And>k. mh_map h i = Some k \<Longrightarrow> key \<le> k" for i key
    by (rule push_ok [OF h that])
  assume "mh_map h \<noteq> Map.empty"
  then have ne: "mh_heap h \<noteq> []" using mh_empty [OF h] by simp
  show "ok (mh_top h) (\<lambda>(k, i). mh_map h i = Some k \<and> (\<forall>j l. mh_map h j = Some l \<longrightarrow> (k, i) \<le> (l, j)))"
    using top_ok [OF h ne] by (cases "hd (mh_heap h)") simp
  fix k i assume "mh_top h = Some (k, i)"
  then have "hd (mh_heap h) = (k, i)" using top_ok [OF h ne] by simp
  then show "ok (mh_pop h) (\<lambda>h'. mh_inv n h' \<and> mh_map h' = (mh_map h)(i := None))"
    using pop_map [OF h ne] by simp
qed


section \<open>Properties\<close>

text \<open>C17: the heap is a map from the ids \<open>0, ..., n - 1\<close> to keys: \<open>reset\<close> and \<open>clear\<close> empty it,
  \<open>contains\<close> looks an id up, \<open>push_or_decrease\<close> with no larger key sets the id's key, the top is the
  least entry by (key, id) and \<open>pop\<close> removes it; every access is inside the arrays, both loops end,
  and the invariant (ids at their positions, every entry no smaller than its parent) is kept.\<close>

theorem min_heap_refines_map:
  fixes h :: "'k::linorder min_heap"
  assumes h: "mh_inv n h" and i: "0 \<le> i" "i < n"
  shows "mh_inv n (mh_reset n :: 'k min_heap) \<and> mh_map (mh_reset n :: 'k min_heap) = Map.empty
    \<and> ok (mh_clear h) (\<lambda>h'. mh_inv n h' \<and> mh_map h' = Map.empty)
    \<and> mh_contains h i = Some (mh_map h i \<noteq> None)
    \<and> ((\<forall>k. mh_map h i = Some k \<longrightarrow> key \<le> k)
        \<longrightarrow> ok (push_or_decrease i key h) (\<lambda>h'. mh_inv n h' \<and> mh_map h' = (mh_map h)(i \<mapsto> key)))
    \<and> (mh_map h \<noteq> Map.empty
        \<longrightarrow> ok (mh_top h) (\<lambda>(k, j). mh_map h j = Some k \<and> (\<forall>j' k'. mh_map h j' = Some k' \<longrightarrow> (k, j) \<le> (k', j'))
              \<and> ok (mh_pop h) (\<lambda>h'. mh_inv n h' \<and> mh_map h' = (mh_map h)(j := None))))"
proof (intro conjI impI)
  have "0 \<le> n" using i by simp
  then have "mh_inv n (mh_reset n :: 'k min_heap) \<and> mh_map (mh_reset n :: 'k min_heap) = Map.empty" by (rule mh_reset_ok)
  then show "mh_inv n (mh_reset n :: 'k min_heap)" "mh_map (mh_reset n :: 'k min_heap) = Map.empty" by blast+
  show "ok (mh_clear h) (\<lambda>h'. mh_inv n h' \<and> mh_map h' = Map.empty)" by (rule clear_ok [OF h])
  show "mh_contains h i = Some (mh_map h i \<noteq> None)" by (rule mh_contains_ok [OF h i])
  show "ok (push_or_decrease i key h) (\<lambda>h'. mh_inv n h' \<and> mh_map h' = (mh_map h)(i \<mapsto> key))"
    if "\<forall>k. mh_map h i = Some k \<longrightarrow> key \<le> k"
    by (rule mh.push_law [OF h i]) (use that in blast)
  assume ne: "mh_map h \<noteq> Map.empty"
  have "ok (mh_top h) (\<lambda>(k, j). (mh_map h j = Some k \<and> (\<forall>j' k'. mh_map h j' = Some k' \<longrightarrow> (k, j) \<le> (k', j'))) \<and> mh_top h = Some (k, j))"
    using mh.least_law [OF h ne] by (auto simp: ok_def)
  then show "ok (mh_top h) (\<lambda>(k, j). mh_map h j = Some k \<and> (\<forall>j' k'. mh_map h j' = Some k' \<longrightarrow> (k, j) \<le> (k', j'))
              \<and> ok (mh_pop h) (\<lambda>h'. mh_inv n h' \<and> mh_map h' = (mh_map h)(j := None)))"
    by (rule ok_mono) (use mh.pop_law [OF h _ ne] in auto)
qed

theorem min_heap_refines_map_witness:
  "\<exists>h. push_or_decrease 2 (5 :: int) (mh_reset 4) = Some h \<and> mh_inv 4 h \<and> mh_map h 2 = Some 5
    \<and> ok (push_or_decrease 2 3 h) (\<lambda>h'. mh_inv 4 h' \<and> mh_map h' = (mh_map h)(2 \<mapsto> 3))"
proof -
  have "mh_inv 4 (mh_reset 4 :: int min_heap) \<and> mh_map (mh_reset 4 :: int min_heap) = Map.empty"
    by (rule mh_reset_ok) simp
  then have "ok (push_or_decrease 2 (5 :: int) (mh_reset 4)) (\<lambda>h'. mh_inv 4 h' \<and> mh_map h' = (mh_map (mh_reset 4))(2 \<mapsto> 5))"
    using min_heap_refines_map [of 4 "mh_reset 4 :: int min_heap" 2 5] by simp
  then obtain h where h: "push_or_decrease 2 (5 :: int) (mh_reset 4) = Some h" "mh_inv 4 h" "mh_map h 2 = Some 5"
    by (auto simp: ok_def)
  then show ?thesis using min_heap_refines_map [of 4 h 2 3] by simp
qed

text \<open>the sequence of pops is determined by the pushed keys: two heaps with the same map have the
  same top and, after popping both, again the same map, and each top is greater than the one before.\<close>

theorem pop_sequence_determined:
  assumes "mh_inv n h" "mh_inv n h'" "mh_map h = mh_map h'" "mh_map h \<noteq> Map.empty"
  shows "\<exists>e p p'. mh_top h = Some e \<and> mh_top h' = Some e \<and> mh_pop h = Some p \<and> mh_pop h' = Some p'
    \<and> mh_map p = mh_map p' \<and> (mh_map p \<noteq> Map.empty \<longrightarrow> (\<exists>e'. mh_top p = Some e' \<and> e < e'))"
proof -
  obtain k i where e: "mh_top h = Some (k, i)" using mh.least_law [OF assms(1,4)] by (auto simp: ok_def)
  have e': "mh_top h' = Some (k, i)" using mh.least_unique [OF assms] e by simp
  have ne: "mh_map h' \<noteq> Map.empty" using assms(3,4) by simp
  obtain p p' where p: "mh_pop h = Some p" "mh_map p = (mh_map h)(i := None)"
    "mh_pop h' = Some p'" "mh_map p' = (mh_map h')(i := None)"
    using mh.pop_law [OF assms(1) e assms(4)] mh.pop_law [OF assms(2) e' ne] unfolding ok_def by blast
  show ?thesis
    using e e' p assms(3) mh.pops_ascend [OF assms(1,4) e p(1)] by auto
qed

theorem pop_sequence_determined_witness:
  "\<exists>h h' :: int min_heap. mh_heap h \<noteq> mh_heap h' \<and> mh_map h = mh_map h' \<and> mh_top h = mh_top h' \<and> mh_top h = Some (1, 0)"
proof -
  let ?h = "\<lparr>mh_heap = [(1, 0), (2, 1), (3, 2)], mh_pos = [0, 1, 2]\<rparr> :: int min_heap"
  let ?h' = "\<lparr>mh_heap = [(1, 0), (3, 2), (2, 1)], mh_pos = [0, 2, 1]\<rparr> :: int min_heap"
  have three: "a < Suc (Suc (Suc 0)) \<longleftrightarrow> a = 0 \<or> a = 1 \<or> a = 2" for a :: nat by auto
  have threei: "0 \<le> i \<and> i < 3 \<and> Q i \<longleftrightarrow> (i = 0 \<or> i = 1 \<or> i = 2) \<and> Q i" for i :: int and Q by auto
  have inv: "mh_inv 3 ?h" "mh_inv 3 ?h'"
    unfolding mh_inv_def placed_def heap_ord_def by (auto simp: three threei heap_par_def)
  have m: "mh_map ?h = mh_map ?h'" "mh_map ?h \<noteq> Map.empty" by (auto simp: mh_map_def fun_eq_iff)
  have "mh_top ?h = mh_top ?h'" using pop_sequence_determined [OF inv m] by auto
  moreover have "mh_top ?h = Some (1, 0)" by (simp add: mh_top_def vget_def)
  ultimately show ?thesis using m by (intro exI [of _ ?h] exI [of _ ?h']) simp
qed

end
