(* ===== verification/AssemblyTree.thy ===== *)
theory AssemblyTree
  imports ChildrenCsr
begin

text \<open>
  \<open>build_assembly_tree\<close> (\<open>assembly_tree.cpp\<close>): the sorted rows of every front in one array, and the
  predictions of \<open>Info\<close>. A front's rows are its columns, the rows of its columns' entries and the
  rows its children pass on, given by the rules of \<open>front_row\<close>. The offsets are \<open>Int\<close>s, so the
  theorem asks for fewer than \<open>2^31\<close> rows in all; beyond it the conversion of the size wraps.
\<close>

section \<open>The code\<close>

definition mark_row :: "int \<Rightarrow> int \<Rightarrow> int list \<times> int list \<Rightarrow> (int list \<times> int list) option" where
  "mark_row s r = (\<lambda>(mark, rows). do {
     m \<leftarrow> vget mark r;
     if m \<noteq> s then do { mark \<leftarrow> vset mark r s; Some (mark, rows @ [r]) } else Some (mark, rows)
   })"

text \<open>Step 2: the rows of the entries of column \<open>j\<close>. Step 3: the rows of child \<open>c\<close> past its columns.\<close>

definition mark_pattern :: "'v csc \<Rightarrow> int \<Rightarrow> int \<Rightarrow> int list \<times> int list \<Rightarrow> (int list \<times> int list) option" where
  "mark_pattern A s j st = do {
     lo \<leftarrow> vget (col_ptr A) j;
     hi \<leftarrow> vget (col_ptr A) (j + 1);
     for_range lo hi (\<lambda>p st. do { r \<leftarrow> vget (row_idx A) p; mark_row s r st }) st
   }"

definition mark_child ::
  "supernode list \<Rightarrow> int list \<Rightarrow> int \<Rightarrow> int \<Rightarrow> int list \<times> int list \<Rightarrow> (int list \<times> int list) option" where
  "mark_child snodes ptr s c st = do {
     sc \<leftarrow> vget snodes c;
     r1 \<leftarrow> vget ptr (c + 1);
     r0 \<leftarrow> vget ptr c;
     for_range r0 r1 (\<lambda>k (mark, rows). do {
       r \<leftarrow> vget rows k;
       if r \<ge> sn_end sc then mark_row s r (mark, rows) else Some (mark, rows)
     }) st
   }"

definition front_step ::
  "'v csc \<Rightarrow> supernode list \<Rightarrow> int list \<Rightarrow> int list \<Rightarrow> int \<Rightarrow> int list \<times> int list \<times> int list
    \<Rightarrow> (int list \<times> int list \<times> int list) option" where
  "front_step A snodes child_ptr child_idx s = (\<lambda>(ptr, rows, mark). do {
     sn \<leftarrow> vget snodes s;
     let base = length rows;
     st \<leftarrow> for_range (sn_start sn) (sn_end sn) (mark_row s) (mark, rows);
     st \<leftarrow> for_range (sn_start sn) (sn_end sn) (mark_pattern A s) st;
     t0 \<leftarrow> vget child_ptr s;
     t1 \<leftarrow> vget child_ptr (s + 1);
     (mark, rows) \<leftarrow> for_range t0 t1 (\<lambda>t st. do {
       c \<leftarrow> vget child_idx t;
       mark_child snodes ptr s c st
     }) st;
     let rows = take base rows @ sort (drop base rows);
     ptr \<leftarrow> vset ptr (s + 1) (narrow32 (int (length rows)));
     Some (ptr, rows, mark)
   })"

definition tree_depths :: "supernode list \<Rightarrow> (int list \<times> int) option" where
  "tree_depths snodes = for_range 0 (int (length snodes)) (\<lambda>s (depth, max_depth). do {
     sn \<leftarrow> vget snodes s;
     let par = sn_parent sn;
     depth \<leftarrow> (if par \<ge> 0 then do {
         dp \<leftarrow> vget depth par;
         ds \<leftarrow> vget depth s;
         vset depth par (max dp (ds + 1))
       } else Some depth);
     ds \<leftarrow> vget depth s;
     Some (depth, max max_depth ds)
   }) (replicate (length snodes) 0, 0)"

record front_info =
  predicted_factor_entries :: int
  predicted_flops :: rat
  max_front_size :: int
  max_supernode_size :: int
  max_tree_depth :: int

definition front_sizes :: "supernode list \<Rightarrow> int list \<Rightarrow> front_info \<Rightarrow> front_info option" where
  "front_sizes snodes ptr = for_range 0 (int (length snodes)) (\<lambda>s info. do {
     sn \<leftarrow> vget snodes s;
     e \<leftarrow> vget ptr (s + 1);
     b \<leftarrow> vget ptr s;
     let f = e - b;
     let p = width sn;
     Some (info\<lparr>predicted_factor_entries := predicted_factor_entries info + f,
       predicted_flops := predicted_flops info + of_int p * of_int f * of_int f,
       max_front_size := max (max_front_size info) f,
       max_supernode_size := max (max_supernode_size info) p\<rparr>)
   })"

definition build_assembly_tree ::
  "'v csc \<Rightarrow> supernode list \<Rightarrow> int list \<Rightarrow> int list \<Rightarrow> (int list \<times> int list \<times> front_info) option" where
  "build_assembly_tree A snodes child_ptr child_idx = do {
     let nsn = int (length snodes);
     let ptr = replicate (length snodes + 1) 0;
     let info = \<lparr>predicted_factor_entries = 0, predicted_flops = 0, max_front_size = 0,
       max_supernode_size = 0, max_tree_depth = 0\<rparr>;
     if nsn = 0 then Some (ptr, [], info)
     else do {
       (ptr, rows, mark) \<leftarrow> for_range 0 nsn (front_step A snodes child_ptr child_idx)
         (ptr, [], replicate (nat (csc_n A)) (-1));
       (depth, max_depth) \<leftarrow> tree_depths snodes;
       max_depth \<leftarrow> for_range 0 nsn (\<lambda>s md. do { d \<leftarrow> vget depth s; Some (max md d) }) max_depth;
       info \<leftarrow> front_sizes snodes ptr info;
       Some (ptr, rows, info\<lparr>max_tree_depth := max_depth\<rparr>)
     }
   }"

section \<open>The rows of a front\<close>

inductive front_row :: "'v csc \<Rightarrow> supernode list \<Rightarrow> (int \<Rightarrow> int list) \<Rightarrow> int \<Rightarrow> int \<Rightarrow> bool"
  for A :: "'v csc" and snodes :: "supernode list" and ch :: "int \<Rightarrow> int list" where
  own: "sn_start (elt snodes s) \<le> j \<Longrightarrow> j < sn_end (elt snodes s) \<Longrightarrow> front_row A snodes ch s j"
| entry: "sn_start (elt snodes s) \<le> j \<Longrightarrow> j < sn_end (elt snodes s)
    \<Longrightarrow> elt (col_ptr A) j \<le> p \<Longrightarrow> p < elt (col_ptr A) (j + 1) \<Longrightarrow> front_row A snodes ch s (elt (row_idx A) p)"
| passed: "c \<in> set (ch s) \<Longrightarrow> front_row A snodes ch c r \<Longrightarrow> sn_end (elt snodes c) \<le> r
    \<Longrightarrow> front_row A snodes ch s r"

inductive_simps front_row_simps: "front_row A snodes ch s r"

definition front_rows :: "'v csc \<Rightarrow> supernode list \<Rightarrow> (int \<Rightarrow> int list) \<Rightarrow> int \<Rightarrow> int set" where
  "front_rows A snodes ch s = {r. front_row A snodes ch s r}"

definition csr_kids :: "int list \<Rightarrow> int list \<Rightarrow> int \<Rightarrow> int list" where
  "csr_kids ptr idx s = segment idx (elt ptr s) (elt ptr (s + 1))"

text \<open>What the caller guarantees: supernodes of columns of \<open>A\<close>, and children lists that name earlier
  supernodes.\<close>

definition snodes_ok :: "int \<Rightarrow> supernode list \<Rightarrow> bool" where
  "snodes_ok n snodes \<longleftrightarrow> (\<forall>s. 0 \<le> s \<and> s < int (length snodes) \<longrightarrow>
     0 \<le> sn_start (elt snodes s) \<and> sn_start (elt snodes s) \<le> sn_end (elt snodes s) \<and> sn_end (elt snodes s) \<le> n)"

definition kids_ok :: "supernode list \<Rightarrow> int list \<Rightarrow> int list \<Rightarrow> bool" where
  "kids_ok snodes ptr idx \<longleftrightarrow> int (length ptr) = int (length snodes) + 1
     \<and> (\<forall>s. 0 \<le> s \<and> s < int (length snodes) \<longrightarrow> 0 \<le> elt ptr s \<and> elt ptr s \<le> elt ptr (s + 1)
          \<and> elt ptr (s + 1) \<le> int (length idx) \<and> (\<forall>c \<in> set (csr_kids ptr idx s). 0 \<le> c \<and> c < s))"

lemma front_row_bounds:
  assumes "csc_valid A" "snodes_ok (csc_n A) snodes" "kids_ok snodes ptr idx"
    and "front_row A snodes (csr_kids ptr idx) s r" "0 \<le> s" "s < int (length snodes)"
  shows "0 \<le> r \<and> r < csc_n A"
  using assms(4-6)
proof (induction rule: front_row.induct)
  case (own s j)
  then show ?case using assms(2) by (fastforce simp: snodes_ok_def)
next
  case (entry s j p)
  then have "0 \<le> j" "j < csc_n A" using assms(2) by (fastforce simp: snodes_ok_def)+
  then show ?case using assms(1) entry by (force simp: csc_valid_def csc_rows_ok_def)
next
  case (passed c s r)
  then show ?case using assms(3) by (force simp: kids_ok_def)
qed

lemma front_rows_finite:
  assumes "csc_valid A" "snodes_ok (csc_n A) snodes" "kids_ok snodes ptr idx" "0 \<le> s" "s < int (length snodes)"
  shows "front_rows A snodes (csr_kids ptr idx) s \<subseteq> {0..<csc_n A}" "finite (front_rows A snodes (csr_kids ptr idx) s)"
proof -
  show "front_rows A snodes (csr_kids ptr idx) s \<subseteq> {0..<csc_n A}"
    using front_row_bounds [OF assms(1-3) _ assms(4,5)] by (auto simp: front_rows_def)
  then show "finite (front_rows A snodes (csr_kids ptr idx) s)" by (rule finite_subset) simp
qed

text \<open>The rows as the code meets them.\<close>

lemma front_rows_unfold:
  "front_rows A snodes ch s = {sn_start (elt snodes s)..<sn_end (elt snodes s)}
     \<union> (\<Union>j \<in> {sn_start (elt snodes s)..<sn_end (elt snodes s)}. elt (row_idx A) ` {elt (col_ptr A) j..<elt (col_ptr A) (j + 1)})
     \<union> (\<Union>c \<in> set (ch s). {r \<in> front_rows A snodes ch c. sn_end (elt snodes c) \<le> r})"
  (is "?L = ?R")
proof (intro set_eqI)
  fix r
  have "r \<in> ?L \<longleftrightarrow> front_row A snodes ch s r" by (simp add: front_rows_def)
  also have "\<dots> \<longleftrightarrow> r \<in> ?R"
    unfolding front_rows_def UN_iff Un_iff image_iff atLeastLessThan_iff mem_Collect_eq bex_simps
    by (subst front_row_simps) (simp only: Bex_def atLeastLessThan_iff, blast)
  finally show "r \<in> ?L \<longleftrightarrow> r \<in> ?R" .
qed

section \<open>Marking\<close>

definition mark_inv :: "int \<Rightarrow> int \<Rightarrow> int list \<Rightarrow> int set \<Rightarrow> int list \<times> int list \<Rightarrow> bool" where
  "mark_inv n s old X = (\<lambda>(mark, rows). int (length mark) = n \<and> X \<subseteq> {0..<n}
     \<and> (\<forall>r. 0 \<le> r \<and> r < n \<longrightarrow> elt mark r \<le> s \<and> (elt mark r = s \<longleftrightarrow> r \<in> X))
     \<and> (\<exists>new. rows = old @ new \<and> distinct new \<and> set new = X))"

lemma mark_row_ok:
  assumes "mark_inv n s old X st" "0 \<le> r" "r < n"
  shows "ok (mark_row s r st) (mark_inv n s old (insert r X))"
proof -
  obtain mark rows where st: "st = (mark, rows)" by (cases st)
  obtain new where i: "int (length mark) = n" "X \<subseteq> {0..<n}"
    "\<And>r. 0 \<le> r \<Longrightarrow> r < n \<Longrightarrow> elt mark r \<le> s \<and> (elt mark r = s \<longleftrightarrow> r \<in> X)"
    "rows = old @ new" "distinct new" "set new = X"
    using assms(1) unfolding st mark_inv_def by auto
  have get: "vget mark r = Some (elt mark r)" using assms i(1) by (simp add: vget_at)
  show ?thesis
  proof (cases "elt mark r = s")
    case True
    then have "insert r X = X" using i(3) [OF assms(2,3)] by auto
    then show ?thesis using True assms(1) get by (simp add: mark_row_def st)
  next
    case False
    then have r: "r \<notin> X" using i(3) [OF assms(2,3)] by simp
    have "mark_inv n s old (insert r X) (mark[nat r := s], rows @ [r])"
      unfolding mark_inv_def prod.case
    proof (intro conjI exI [of _ "new @ [r]"])
      show "\<forall>r'. 0 \<le> r' \<and> r' < n \<longrightarrow> elt (mark[nat r := s]) r' \<le> s \<and> (elt (mark[nat r := s]) r' = s \<longleftrightarrow> r' \<in> insert r X)"
        using i(1,3) assms(2,3) by (auto simp: at_update)
    qed (use i r assms in simp_all)
    then show ?thesis using False get assms i(1) by (simp add: mark_row_def st vset_def)
  qed
qed


lemma mark_range_ok:
  assumes "mark_inv n s old X st" "\<And>k st X. lo \<le> k \<Longrightarrow> k < hi \<Longrightarrow> mark_inv n s old X st \<Longrightarrow>
      ok (f k st) (mark_inv n s old (X \<union> g k))"
  shows "ok (for_range lo hi f st) (mark_inv n s old (X \<union> (\<Union>k \<in> {lo..<hi}. g k)))"
proof (rule for_range_ok [where I = "\<lambda>k. mark_inv n s old (X \<union> (\<Union>k \<in> {lo..<k}. g k))"])
  show "mark_inv n s old (X \<union> (\<Union>k \<in> {lo..<lo}. g k)) st" using assms(1) by simp
next
  fix k st assume k: "lo \<le> k" "k < hi" and i: "mark_inv n s old (X \<union> (\<Union>k \<in> {lo..<k}. g k)) st"
  have "{lo..<k + 1} = insert k {lo..<k}" using k by auto
  then have "X \<union> (\<Union>k \<in> {lo..<k + 1}. g k) = (X \<union> (\<Union>k \<in> {lo..<k}. g k)) \<union> g k" by auto
  then show "ok (f k st) (mark_inv n s old (X \<union> (\<Union>k \<in> {lo..<k + 1}. g k)))"
    using assms(2) [OF k i] by simp
next
  fix st assume "mark_inv n s old (X \<union> (\<Union>k \<in> {lo..<max lo hi}. g k)) st"
  moreover have "{lo..<max lo hi} = {lo..<hi}" by auto
  ultimately show "mark_inv n s old (X \<union> (\<Union>k \<in> {lo..<hi}. g k)) st" by simp
qed

lemma mark_pattern_ok:
  assumes A: "csc_valid A" and j: "0 \<le> j" "j < csc_n A" and i: "mark_inv (csc_n A) s old X st"
  shows "ok (mark_pattern A s j st) (mark_inv (csc_n A) s old (X \<union> elt (row_idx A) ` {elt (col_ptr A) j..<elt (col_ptr A) (j + 1)}))"
proof -
  have P: "csc_ptr_ok A" "csc_rows_ok A" using A by (simp_all add: csc_valid_def)
  have "ok (for_range (elt (col_ptr A) j) (elt (col_ptr A) (j + 1)) (\<lambda>p st. do { r \<leftarrow> vget (row_idx A) p; mark_row s r st }) st)
      (mark_inv (csc_n A) s old (X \<union> (\<Union>p \<in> {elt (col_ptr A) j..<elt (col_ptr A) (j + 1)}. {elt (row_idx A) p})))"
  proof (rule mark_range_ok [OF i])
    fix p st X assume p: "elt (col_ptr A) j \<le> p" "p < elt (col_ptr A) (j + 1)" and st: "mark_inv (csc_n A) s old X st"
    have "vget (row_idx A) p = Some (elt (row_idx A) p)" using csc_slot_bounds [OF P(1) j p] by (simp add: vget_at)
    moreover have "0 \<le> elt (row_idx A) p" "elt (row_idx A) p < csc_n A"
      using P(2) j p by (force simp: csc_rows_ok_def)+
    ultimately show "ok (do { r \<leftarrow> vget (row_idx A) p; mark_row s r st }) (mark_inv (csc_n A) s old (X \<union> {elt (row_idx A) p}))"
      using mark_row_ok [OF st] by (simp del: ok_vget)
  qed
  moreover have "(\<Union>p \<in> {elt (col_ptr A) j..<elt (col_ptr A) (j + 1)}. {elt (row_idx A) p}) = elt (row_idx A) ` {elt (col_ptr A) j..<elt (col_ptr A) (j + 1)}" by auto
  moreover have "vget (col_ptr A) j = Some (elt (col_ptr A) j)" "vget (col_ptr A) (j + 1) = Some (elt (col_ptr A) (j + 1))"
    using csc_len_ptr [OF P(1)] j by (simp_all add: vget_at)
  ultimately show ?thesis by (simp add: mark_pattern_def del: ok_vget)
qed

lemma segment_elts:
  assumes "0 \<le> a" "b \<le> int (length xs)"
  shows "elt xs ` {a..<b} = set (segment xs a b)"
proof -
  have "x \<in> set (segment xs a b) \<longleftrightarrow> (\<exists>k. a \<le> k \<and> k < b \<and> x = elt xs k)" for x
  proof
    assume "x \<in> set (segment xs a b)"
    then obtain i where "i < length (segment xs a b)" "x = segment xs a b ! i" by (metis in_set_conv_nth)
    then show "\<exists>k. a \<le> k \<and> k < b \<and> x = elt xs k"
      using assms by (intro exI [of _ "a + int i"]) (auto simp: segment_def elt_def nat_add_distrib)
  next
    assume "\<exists>k. a \<le> k \<and> k < b \<and> x = elt xs k"
    then obtain k where k: "a \<le> k" "k < b" "x = elt xs k" by blast
    have "segment xs a b ! nat (k - a) = x" "nat (k - a) < length (segment xs a b)"
      using assms k by (simp_all add: segment_def elt_def nat_diff_distrib)
    then show "x \<in> set (segment xs a b)" by (metis nth_mem)
  qed
  then show ?thesis by auto
qed


lemma mark_child_ok:
  assumes c: "0 \<le> c" "c < int (length snodes)" and len: "int (length ptr) = int (length snodes) + 1"
    and b: "0 \<le> elt ptr c" "elt ptr (c + 1) \<le> int (length old)"
    and F: "set (segment old (elt ptr c) (elt ptr (c + 1))) = F" "F \<subseteq> {0..<n}"
    and i: "mark_inv n s old X st"
  shows "ok (mark_child snodes ptr s c st) (mark_inv n s old (X \<union> {r \<in> F. sn_end (elt snodes c) \<le> r}))"
proof -
  let ?e = "sn_end (elt snodes c)" and ?lo = "elt ptr c" and ?hi = "elt ptr (c + 1)"
  have F': "F = elt old ` {?lo..<?hi}" using segment_elts [OF b] F(1) by simp
  have "ok (for_range ?lo ?hi (\<lambda>k (mark, rows). do {
       r \<leftarrow> vget rows k;
       if r \<ge> ?e then mark_row s r (mark, rows) else Some (mark, rows)
     }) st) (mark_inv n s old (X \<union> (\<Union>k \<in> {?lo..<?hi}. {r. r = elt old k \<and> ?e \<le> r})))"
  proof (rule mark_range_ok [OF i])
    fix k st X assume k: "?lo \<le> k" "k < ?hi" and st: "mark_inv n s old X st"
    obtain mark rows where m: "st = (mark, rows)" by (cases st)
    obtain new where "rows = old @ new" using st by (auto simp: m mark_inv_def)
    then have get: "vget rows k = Some (elt old k)" using k b by (simp add: vget_def elt_def nth_append nat_less_iff)
    have "elt old k \<in> F" unfolding F' using k by simp
    then have r: "0 \<le> elt old k" "elt old k < n" using F(2) by auto
    show "ok (case st of (mark, rows) \<Rightarrow> do {
       r \<leftarrow> vget rows k;
       if r \<ge> ?e then mark_row s r (mark, rows) else Some (mark, rows)
     }) (mark_inv n s old (X \<union> {r. r = elt old k \<and> ?e \<le> r}))"
    proof (cases "?e \<le> elt old k")
      case True
      then have "X \<union> {r. r = elt old k \<and> ?e \<le> r} = insert (elt old k) X" by auto
      then show ?thesis using mark_row_ok [OF st r] True get by (simp add: m del: ok_vget)
    next
      case False
      then have "X \<union> {r. r = elt old k \<and> ?e \<le> r} = X" by auto
      then show ?thesis using st False get by (simp add: m del: ok_vget)
    qed
  qed
  moreover have "(\<Union>k \<in> {?lo..<?hi}. {r. r = elt old k \<and> ?e \<le> r}) = {r \<in> F. ?e \<le> r}" unfolding F' by auto
  moreover have "vget snodes c = Some (elt snodes c)" "vget ptr (c + 1) = Some ?hi" "vget ptr c = Some ?lo"
    using c len by (simp_all add: vget_at)
  ultimately show ?thesis by (simp add: mark_child_def del: ok_vget)
qed

definition fronts_inv :: "'v csc \<Rightarrow> supernode list \<Rightarrow> (int \<Rightarrow> int list) \<Rightarrow> int \<Rightarrow> int list \<times> int list \<times> int list \<Rightarrow> bool" where
  "fronts_inv A snodes ch s = (\<lambda>(ptr, rows, mark). int (length ptr) = int (length snodes) + 1
     \<and> int (length mark) = csc_n A \<and> (\<forall>r. 0 \<le> r \<and> r < csc_n A \<longrightarrow> elt mark r < s)
     \<and> elt ptr 0 = 0 \<and> elt ptr s = int (length rows)
     \<and> (\<forall>t. 0 \<le> t \<and> t < s \<longrightarrow> 0 \<le> elt ptr t \<and> elt ptr t \<le> elt ptr (t + 1) \<and> elt ptr (t + 1) \<le> int (length rows)
          \<and> segment rows (elt ptr t) (elt ptr (t + 1)) = sorted_list_of_set (front_rows A snodes ch t))
     \<and> length rows = (\<Sum>t \<in> {0..<s}. card (front_rows A snodes ch t)))"

lemma segment_append_left: "0 \<le> a \<Longrightarrow> 0 \<le> b \<Longrightarrow> b \<le> int (length xs) \<Longrightarrow> segment (xs @ ys) a b = segment xs a b"
proof -
  assume b: "0 \<le> a" "0 \<le> b" "b \<le> int (length xs)"
  show ?thesis
  proof (cases "nat a \<le> length xs")
    case True
    have "nat (b - a) \<le> length xs - nat a" using b by linarith
    then show ?thesis using True by (simp add: segment_def)
  next
    case False
    then have "b - a \<le> 0" using b by simp
    then show ?thesis by (simp add: segment_def)
  qed
qed

lemma segment_append_right: "segment (xs @ ys) (int (length xs)) (int (length xs) + int (length ys)) = ys"
  by (simp add: segment_def)

definition total_rows :: "'v csc \<Rightarrow> supernode list \<Rightarrow> (int \<Rightarrow> int list) \<Rightarrow> nat" where
  "total_rows A snodes ch = (\<Sum>t \<in> {0..<int (length snodes)}. card (front_rows A snodes ch t))"

lemma front_step_ok:
  assumes A: "csc_valid A" "snodes_ok (csc_n A) snodes" "kids_ok snodes cptr cidx"
    and s: "0 \<le> s" "s < int (length snodes)" and small: "total_rows A snodes (csr_kids cptr cidx) < 2 ^ 31"
    and i: "fronts_inv A snodes (csr_kids cptr cidx) s st"
  shows "ok (front_step A snodes cptr cidx s st) (fronts_inv A snodes (csr_kids cptr cidx) (s + 1))"
proof -
  let ?ch = "csr_kids cptr cidx" and ?n = "csc_n A"
  obtain ptr old mark where st: "st = (ptr, old, mark)" by (cases st)
  have I: "int (length ptr) = int (length snodes) + 1" "int (length mark) = ?n"
    "\<And>r. 0 \<le> r \<Longrightarrow> r < ?n \<Longrightarrow> elt mark r < s" "elt ptr 0 = 0" "elt ptr s = int (length old)"
    "\<And>t. 0 \<le> t \<Longrightarrow> t < s \<Longrightarrow> 0 \<le> elt ptr t \<and> elt ptr t \<le> elt ptr (t + 1) \<and> elt ptr (t + 1) \<le> int (length old)
          \<and> segment old (elt ptr t) (elt ptr (t + 1)) = sorted_list_of_set (front_rows A snodes ?ch t)"
    "length old = (\<Sum>t \<in> {0..<s}. card (front_rows A snodes ?ch t))"
    using i unfolding st fronts_inv_def by auto
  let ?sn = "elt snodes s"
  have sn: "0 \<le> sn_start ?sn" "sn_end ?sn \<le> ?n" using A(2) s by (simp_all add: snodes_ok_def)
  have fin: "finite (front_rows A snodes ?ch t)" "front_rows A snodes ?ch t \<subseteq> {0..<?n}" if "0 \<le> t" "t < int (length snodes)" for t
    using front_rows_finite [OF A that] by blast+
  have start: "mark_inv ?n s old {} (mark, old)"
    unfolding mark_inv_def using I(2,3) by (auto dest: less_imp_le)
  have "ok (for_range (sn_start ?sn) (sn_end ?sn) (mark_row s) (mark, old))
      (mark_inv ?n s old ({} \<union> (\<Union>j \<in> {sn_start ?sn..<sn_end ?sn}. {j})))"
    by (rule mark_range_ok [OF start]) (use mark_row_ok sn in auto)
  then obtain st1 where st1: "for_range (sn_start ?sn) (sn_end ?sn) (mark_row s) (mark, old) = Some st1"
    "mark_inv ?n s old {sn_start ?sn..<sn_end ?sn} st1" by (auto simp: ok_def)
  let ?P = "\<Union>j \<in> {sn_start ?sn..<sn_end ?sn}. elt (row_idx A) ` {elt (col_ptr A) j..<elt (col_ptr A) (j + 1)}"
  have "ok (for_range (sn_start ?sn) (sn_end ?sn) (mark_pattern A s) st1) (mark_inv ?n s old ({sn_start ?sn..<sn_end ?sn} \<union> ?P))"
    by (rule mark_range_ok [OF st1(2)]) (rule mark_pattern_ok [OF A(1)], use sn in simp_all)
  then obtain st2 where st2: "for_range (sn_start ?sn) (sn_end ?sn) (mark_pattern A s) st1 = Some st2"
    "mark_inv ?n s old ({sn_start ?sn..<sn_end ?sn} \<union> ?P) st2" by (auto simp: ok_def)
  have K: "int (length cptr) = int (length snodes) + 1" "0 \<le> elt cptr s" "elt cptr (s + 1) \<le> int (length cidx)"
    "\<And>c. c \<in> set (?ch s) \<Longrightarrow> 0 \<le> c \<and> c < s" using A(3) s by (auto simp: kids_ok_def)
  have chs: "set (?ch s) = elt cidx ` {elt cptr s..<elt cptr (s + 1)}"
    unfolding csr_kids_def segment_elts [OF K(2,3)] ..
  let ?F = "\<lambda>c. {r \<in> front_rows A snodes ?ch c. sn_end (elt snodes c) \<le> r}"
  have "ok (for_range (elt cptr s) (elt cptr (s + 1)) (\<lambda>t st. do { c \<leftarrow> vget cidx t; mark_child snodes ptr s c st }) st2)
      (mark_inv ?n s old ({sn_start ?sn..<sn_end ?sn} \<union> ?P \<union> (\<Union>t \<in> {elt cptr s..<elt cptr (s + 1)}. ?F (elt cidx t))))"
  proof (rule mark_range_ok [OF st2(2)])
    fix t st X assume t: "elt cptr s \<le> t" "t < elt cptr (s + 1)" and m: "mark_inv ?n s old X st"
    let ?c = "elt cidx t"
    have "?c \<in> set (?ch s)" unfolding chs using t by simp
    then have c: "0 \<le> ?c" "?c < s" using K(4) by blast+
    have "ok (mark_child snodes ptr s ?c st) (mark_inv ?n s old (X \<union> ?F ?c))"
    proof (rule mark_child_ok [OF c(1) _ I(1) _ _ _ _ m])
      show "set (segment old (elt ptr ?c) (elt ptr (?c + 1))) = front_rows A snodes ?ch ?c"
        using I(6) [OF c] fin(1) [of ?c] c s by simp
      show "front_rows A snodes ?ch ?c \<subseteq> {0..<?n}" using fin(2) [of ?c] c s by simp
    qed (use I(6) [OF c] c s in simp_all)
    moreover have "vget cidx t = Some ?c" using t K by (simp add: vget_at)
    ultimately show "ok (do { c \<leftarrow> vget cidx t; mark_child snodes ptr s c st }) (mark_inv ?n s old (X \<union> ?F ?c))"
      by (simp del: ok_vget)
  qed
  moreover have "{sn_start ?sn..<sn_end ?sn} \<union> ?P \<union> (\<Union>t \<in> {elt cptr s..<elt cptr (s + 1)}. ?F (elt cidx t)) = front_rows A snodes ?ch s"
    by (subst (2) front_rows_unfold) (simp add: chs)
  ultimately obtain mark' rows where st3: "for_range (elt cptr s) (elt cptr (s + 1))
       (\<lambda>t st. do { c \<leftarrow> vget cidx t; mark_child snodes ptr s c st }) st2 = Some (mark', rows)"
    "mark_inv ?n s old (front_rows A snodes ?ch s) (mark', rows)" by (auto simp: ok_def)
  obtain new where new: "rows = old @ new" "distinct new" "set new = front_rows A snodes ?ch s"
    "int (length mark') = ?n" "\<And>r. 0 \<le> r \<Longrightarrow> r < ?n \<Longrightarrow> elt mark' r \<le> s"
    using st3(2) unfolding mark_inv_def by auto
  let ?new = "sort new"
  have srt: "?new = sorted_list_of_set (front_rows A snodes ?ch s)"
    unfolding new(3) [symmetric] sorted_list_of_set_sort_remdups using new(2) by (simp add: distinct_remdups_id)
  have len: "length new = card (front_rows A snodes ?ch s)"
    using new(2,3) by (metis distinct_card)
  have "{0..<s + 1} = insert s {0..<s}" using s by auto
  then have sum: "length (old @ ?new) = (\<Sum>t \<in> {0..<s + 1}. card (front_rows A snodes ?ch t))"
    using I(7) len by simp
  also have "\<dots> \<le> total_rows A snodes ?ch"
    unfolding total_rows_def using s by (intro sum_mono2) auto
  finally have "length (old @ ?new) < 2 ^ 31" using small by (rule le_less_trans)
  then have small': "int (length (old @ ?new)) < 2 ^ 31" by (simp only: of_nat_less_numeral_power_cancel_iff)
  then have nar: "narrow32 (int (length (old @ ?new))) = int (length (old @ ?new))"
    by (simp add: narrow32_def)
  let ?ptr = "ptr[nat (s + 1) := int (length (old @ ?new))]"
  have at_ptr: "elt ?ptr t = (if t = s + 1 then int (length (old @ ?new)) else elt ptr t)" if "0 \<le> t" for t
    using at_update [of t "s + 1" ptr] that s I(1) by auto
  have "fronts_inv A snodes ?ch (s + 1) (?ptr, old @ ?new, mark')"
    unfolding fronts_inv_def prod.case
  proof (intro conjI allI impI)
    show "int (length ?ptr) = int (length snodes) + 1" using I(1) by simp
    show "int (length mark') = ?n" by (rule new(4))
    show "elt ?ptr 0 = 0" using at_ptr [of 0] s I(4) by simp
    show "elt ?ptr (s + 1) = int (length (old @ ?new))" using at_ptr [of "s + 1"] s by simp
    show "length (old @ ?new) = (\<Sum>t \<in> {0..<s + 1}. card (front_rows A snodes ?ch t))" by (rule sum)
  next
    fix t assume t: "0 \<le> t \<and> t < s + 1"
    show "segment (old @ ?new) (elt ?ptr t) (elt ?ptr (t + 1)) = sorted_list_of_set (front_rows A snodes ?ch t)"
    proof (cases "t = s")
      case True
      then have "elt ?ptr t = int (length old)" "elt ?ptr (t + 1) = int (length old) + int (length ?new)"
        using at_ptr [of s] at_ptr [of "s + 1"] s I(5) by simp_all
      then show ?thesis using srt True segment_append_right [of old ?new] by simp
    next
      case False
      then have t: "0 \<le> t" "t < s" using t by simp_all
      have "elt ?ptr t = elt ptr t" "elt ?ptr (t + 1) = elt ptr (t + 1)" using at_ptr [of t] at_ptr [of "t + 1"] t by simp_all
      then show ?thesis using I(6) [OF t] segment_append_left [of "elt ptr t" "elt ptr (t + 1)" old] by simp
    qed
    have "t = s \<or> (0 \<le> t \<and> t < s)" using t by auto
    then show "0 \<le> elt ?ptr t" "elt ?ptr t \<le> elt ?ptr (t + 1)" "elt ?ptr (t + 1) \<le> int (length (old @ ?new))"
      using at_ptr [of t] at_ptr [of "t + 1"] I(5) I(6) [of t] s by (elim disjE; simp)+
  next
    fix r assume "0 \<le> r \<and> r < ?n"
    then show "elt mark' r < s + 1" using new(5) [of r] by simp
  qed
  moreover have "vset ptr (s + 1) (int (length (old @ ?new))) = Some ?ptr" using I(1) s by (simp add: vset_def)
  moreover have "vget snodes s = Some ?sn" "vget cptr s = Some (elt cptr s)" "vget cptr (s + 1) = Some (elt cptr (s + 1))"
    using s K(1) by (simp_all add: vget_at)
  moreover have "take (length old) rows @ sort (drop (length old) rows) = old @ ?new" using new(1) by simp
  ultimately show ?thesis
    unfolding st front_step_def prod.case Let_def by (simp only: bind.simps st1(1) st2(1) st3(1) prod.case nar ok_Some)
qed


section \<open>The depth of the tree and the totals\<close>

definition child_rel :: "supernode list \<Rightarrow> (int \<times> int) set" where
  "child_rel snodes = {(c, p). 0 \<le> c \<and> c < int (length snodes) \<and> sn_parent (elt snodes c) = p \<and> 0 \<le> p}"

definition parents_later :: "supernode list \<Rightarrow> bool" where
  "parents_later snodes \<longleftrightarrow> (\<forall>s. 0 \<le> s \<and> s < int (length snodes) \<longrightarrow>
     sn_parent (elt snodes s) < 0 \<or> (s < sn_parent (elt snodes s) \<and> sn_parent (elt snodes s) < int (length snodes)))"

definition height_inv :: "supernode list \<Rightarrow> int \<Rightarrow> int list \<times> int \<Rightarrow> bool" where
  "height_inv snodes s = (\<lambda>(depth, md). length depth = length snodes
     \<and> (\<forall>t. 0 \<le> t \<and> t < int (length snodes) \<longrightarrow> 0 \<le> elt depth t \<and> (\<exists>d. (d, t) \<in> child_rel snodes ^^ nat (elt depth t)))
     \<and> (\<forall>c p. (c, p) \<in> child_rel snodes \<and> c < s \<longrightarrow> elt depth c + 1 \<le> elt depth p)
     \<and> (md = 0 \<or> (\<exists>t. 0 \<le> t \<and> t < s \<and> md = elt depth t)) \<and> (\<forall>t. 0 \<le> t \<and> t < s \<longrightarrow> elt depth t \<le> md))"

lemma tree_depths_ok:
  assumes "parents_later snodes"
  shows "ok (tree_depths snodes) (height_inv snodes (int (length snodes)))"
  unfolding tree_depths_def
proof (rule for_range_ok [where I = "\<lambda>s st. 0 \<le> s \<and> height_inv snodes s st"])
  show "0 \<le> (0 :: int) \<and> height_inv snodes 0 (replicate (length snodes) 0, 0)"
    by (auto simp: height_inv_def elt_def child_rel_def)
next
  fix s st assume s: "0 \<le> s" "s < int (length snodes)" and i: "0 \<le> s \<and> height_inv snodes s st"
  obtain depth md where st: "st = (depth, md)" by (cases st)
  have I: "length depth = length snodes"
    "\<And>t. 0 \<le> t \<Longrightarrow> t < int (length snodes) \<Longrightarrow> 0 \<le> elt depth t \<and> (\<exists>d. (d, t) \<in> child_rel snodes ^^ nat (elt depth t))"
    "\<And>c p. (c, p) \<in> child_rel snodes \<Longrightarrow> c < s \<Longrightarrow> elt depth c + 1 \<le> elt depth p"
    "md = 0 \<or> (\<exists>t. 0 \<le> t \<and> t < s \<and> md = elt depth t)" "\<And>t. 0 \<le> t \<Longrightarrow> t < s \<Longrightarrow> elt depth t \<le> md"
    using i unfolding st height_inv_def by auto
  let ?p = "sn_parent (elt snodes s)"
  have rel: "c < s + 1 \<longleftrightarrow> c < s \<or> c = s" for c :: int by auto
  show "ok (case st of (depth, max_depth) \<Rightarrow> do {
     sn \<leftarrow> vget snodes s;
     let par = sn_parent sn;
     depth \<leftarrow> (if par \<ge> 0 then do {
         dp \<leftarrow> vget depth par;
         ds \<leftarrow> vget depth s;
         vset depth par (max dp (ds + 1))
       } else Some depth);
     ds \<leftarrow> vget depth s;
     Some (depth, max max_depth ds)
   }) (\<lambda>st. 0 \<le> s + 1 \<and> height_inv snodes (s + 1) st)"
  proof (cases "?p \<ge> 0")
    case False
    then have none: "(s, p) \<notin> child_rel snodes" for p by (auto simp: child_rel_def)
    have "height_inv snodes (s + 1) (depth, max md (elt depth s))"
      unfolding height_inv_def prod.case
    proof (intro conjI allI impI)
      show "elt depth c + 1 \<le> elt depth p" if "(c, p) \<in> child_rel snodes \<and> c < s + 1" for c p
        using that none [of p] I(3) [of c p] rel [of c] by metis
      show "max md (elt depth s) = 0 \<or> (\<exists>t. 0 \<le> t \<and> t < s + 1 \<and> max md (elt depth s) = elt depth t)"
        using I(4) s(1) by (cases "md \<le> elt depth s") (auto simp: max_def intro: exI [of _ s])
      show "elt depth t \<le> max md (elt depth s)" if "0 \<le> t \<and> t < s + 1" for t
        using that I(5) [of t] rel [of t] by (metis max.coboundedI1 max.coboundedI2 order_refl)
    qed (use I in auto)
    moreover have "vget snodes s = Some (elt snodes s)" "vget depth s = Some (elt depth s)"
      using s I(1) by (simp_all add: vget_at)
    ultimately show ?thesis using False s by (simp add: st del: ok_vget)
  next
    case True
    then have p: "s < ?p" "?p < int (length snodes)" using assms s by (auto simp: parents_later_def)
    let ?v = "max (elt depth ?p) (elt depth s + 1)" let ?d = "depth[nat ?p := ?v]"
    have at_d: "elt ?d t = (if t = ?p then ?v else elt depth t)" if "0 \<le> t" for t
      using at_update [of t ?p depth] that True p I(1) by auto
    have ds: "elt ?d s = elt depth s" using at_d s p by simp
    have "(s, ?p) \<in> child_rel snodes" using s True by (simp add: child_rel_def)
    then have step: "(x, ?p) \<in> child_rel snodes ^^ Suc k" if "(x, s) \<in> child_rel snodes ^^ k" for x k
      using that by auto
    have only: "q = ?p" if "(s, q) \<in> child_rel snodes" for q using that by (simp add: child_rel_def)
    have cpos: "0 \<le> c" if "(c, q) \<in> child_rel snodes" for c q using that by (simp add: child_rel_def)
    have qpos: "0 \<le> q" if "(c, q) \<in> child_rel snodes" for c q using that by (simp add: child_rel_def)
    have "height_inv snodes (s + 1) (?d, max md (elt ?d s))"
      unfolding height_inv_def prod.case
    proof (intro conjI allI impI)
      show "length ?d = length snodes" using I(1) by simp
      fix t assume t: "0 \<le> t \<and> t < int (length snodes)"
      show "0 \<le> elt ?d t" using at_d [of t] I(2) [of t] I(2) [of s] s t by auto
      show "\<exists>d. (d, t) \<in> child_rel snodes ^^ nat (elt ?d t)"
      proof (cases "t = ?p \<and> elt depth ?p < elt depth s + 1")
        case True
        then have e: "nat (elt ?d t) = Suc (nat (elt depth s))" using at_d [of t] I(2) [of s] s t by (simp add: nat_add_distrib)
        obtain d where "(d, s) \<in> child_rel snodes ^^ nat (elt depth s)" using I(2) [of s] s by auto
        then show ?thesis unfolding e using step True by blast
      next
        case False
        then have "elt ?d t = elt depth t" using at_d [of t] t by auto
        then show ?thesis using I(2) [of t] t by simp
      qed
    next
      fix c q assume c: "(c, q) \<in> child_rel snodes \<and> c < s + 1"
      have cp: "elt ?d c = elt depth c" using at_d [of c] cpos [of c q] c p by simp
      show "elt ?d c + 1 \<le> elt ?d q"
      proof (cases "c = s")
        case True
        then show ?thesis using cp only [of q] c at_d [of q] qpos [of c q] by simp
      next
        case False
        then have "elt depth c + 1 \<le> elt depth q" using I(3) c by simp
        then show ?thesis using cp at_d [of q] qpos [of c q] c by auto
      qed
    next
      have same: "elt ?d t = elt depth t" if "0 \<le> t" "t < s + 1" for t using at_d [of t] that p by simp
      show "max md (elt ?d s) = 0 \<or> (\<exists>t. 0 \<le> t \<and> t < s + 1 \<and> max md (elt ?d s) = elt ?d t)"
      proof (cases "md \<le> elt ?d s")
        case True
        then have "max md (elt ?d s) = elt ?d s" by (rule max_absorb2)
        then show ?thesis using s(1) by (intro disjI2 exI [of _ s]) simp
      next
        case False
        then have m: "max md (elt ?d s) = md" by simp
        show ?thesis unfolding m using I(4)
        proof (elim disjE exE conjE)
          fix t assume "0 \<le> t" "t < s" "md = elt depth t"
          then show "md = 0 \<or> (\<exists>t. 0 \<le> t \<and> t < s + 1 \<and> md = elt ?d t)"
            using same [of t] by (intro disjI2 exI [of _ t]) simp
        qed simp
      qed
      show "elt ?d t \<le> max md (elt ?d s)" if "0 \<le> t \<and> t < s + 1" for t
      proof (cases "t = s")
        case False
        then have "0 \<le> t" "t < s" using that by simp_all
        then have "elt ?d t \<le> md" using I(5) same [of t] by simp
        then show ?thesis by (rule max.coboundedI1)
      qed simp
    qed
    moreover have "vget snodes s = Some (elt snodes s)" "vget depth s = Some (elt depth s)" "vget depth ?p = Some (elt depth ?p)"
      "vset depth ?p ?v = Some ?d" "vget ?d s = Some (elt ?d s)"
      using s p True I(1) by (simp_all add: vget_at vset_def)
    ultimately show ?thesis using True s by (simp add: st Let_def del: ok_vget ok_vset)
  qed
next
  fix st assume "0 \<le> max 0 (int (length snodes)) \<and> height_inv snodes (max 0 (int (length snodes))) st"
  then show "height_inv snodes (int (length snodes)) st" by simp
qed


text \<open>The greatest distance of a supernode from one of its descendants.\<close>

definition tree_height :: "supernode list \<Rightarrow> int \<Rightarrow> bool" where
  "tree_height snodes h \<longleftrightarrow> 0 \<le> h \<and> (h = 0 \<or> (\<exists>d t. (d, t) \<in> child_rel snodes ^^ nat h))
     \<and> (\<forall>k d t. (d, t) \<in> child_rel snodes ^^ k \<longrightarrow> int k \<le> h)"

lemma relpow_depth:
  assumes "height_inv snodes (int (length snodes)) (depth, md)" "parents_later snodes"
  shows "(d, t) \<in> child_rel snodes ^^ k \<Longrightarrow> k = 0 \<or> (0 \<le> t \<and> t < int (length snodes) \<and> int k \<le> elt depth t)"
proof (induction k arbitrary: t)
  case (Suc k)
  then obtain c where c: "(d, c) \<in> child_rel snodes ^^ k" "(c, t) \<in> child_rel snodes" by auto
  then have ct: "0 \<le> c" "c < int (length snodes)" "0 \<le> t" "sn_parent (elt snodes c) = t" by (simp_all add: child_rel_def)
  then have "t < int (length snodes)" using assms(2) by (auto simp: parents_later_def)
  moreover have "elt depth c + 1 \<le> elt depth t" "0 \<le> elt depth c"
    using assms(1) c(2) ct by (auto simp: height_inv_def)
  ultimately show ?case using Suc.IH [OF c(1)] ct by auto
qed simp

lemma height_inv_height:
  assumes i: "height_inv snodes (int (length snodes)) (depth, md)" and p: "parents_later snodes"
  shows "tree_height snodes md"
proof -
  have I: "\<And>t. 0 \<le> t \<Longrightarrow> t < int (length snodes) \<Longrightarrow> 0 \<le> elt depth t \<and> elt depth t \<le> md \<and> (\<exists>d. (d, t) \<in> child_rel snodes ^^ nat (elt depth t))"
    "md = 0 \<or> (\<exists>t. 0 \<le> t \<and> t < int (length snodes) \<and> md = elt depth t)"
    using i by (auto simp: height_inv_def)
  have "0 \<le> md" using I by fastforce
  moreover have "md = 0 \<or> (\<exists>d t. (d, t) \<in> child_rel snodes ^^ nat md)" using I by blast
  moreover have "int k \<le> md" if "(d, t) \<in> child_rel snodes ^^ k" for k d t
    using relpow_depth [OF i p that] I(1) [of t] \<open>0 \<le> md\<close> by auto
  ultimately show ?thesis by (simp add: tree_height_def)
qed

text \<open>\<open>greatest S m\<close>: \<open>m\<close> is the maximum of \<open>S\<close> and 0.\<close>

definition greatest :: "int set \<Rightarrow> int \<Rightarrow> bool" where
  "greatest S m \<longleftrightarrow> m \<in> insert 0 S \<and> 0 \<le> m \<and> (\<forall>x \<in> S. x \<le> m)"

lemma greatest_insert: "greatest S m \<Longrightarrow> greatest (insert x S) (max m x)"
  by (auto simp: greatest_def max_def)

definition info_ok :: "supernode list \<Rightarrow> (int \<Rightarrow> int) \<Rightarrow> int set \<Rightarrow> front_info \<Rightarrow> bool" where
  "info_ok snodes f S info \<longleftrightarrow> predicted_factor_entries info = (\<Sum>s \<in> S. f s)
     \<and> predicted_flops info = (\<Sum>s \<in> S. of_int (width (elt snodes s)) * of_int (f s) * of_int (f s))
     \<and> greatest (f ` S) (max_front_size info) \<and> greatest ((\<lambda>s. width (elt snodes s)) ` S) (max_supernode_size info)"

lemma front_sizes_ok:
  assumes "int (length ptr) = int (length snodes) + 1"
    and f: "\<And>s. 0 \<le> s \<Longrightarrow> s < int (length snodes) \<Longrightarrow> elt ptr (s + 1) - elt ptr s = f s"
    and start: "info_ok snodes f {} info"
  shows "ok (front_sizes snodes ptr info) (info_ok snodes f {0..<int (length snodes)})"
  unfolding front_sizes_def
proof (rule for_range_ok [where I = "\<lambda>s. info_ok snodes f {0..<s}"])
  show "info_ok snodes f {0..<0} info" using start by simp
next
  fix s info assume s: "0 \<le> s" "s < int (length snodes)" and i: "info_ok snodes f {0..<s} info"
  have "{0..<s + 1} = insert s {0..<s}" using s by auto
  moreover have "vget snodes s = Some (elt snodes s)" "vget ptr (s + 1) = Some (elt ptr (s + 1))" "vget ptr s = Some (elt ptr s)"
    using s assms(1) by (simp_all add: vget_at)
  ultimately show "ok (do {
     sn \<leftarrow> vget snodes s;
     e \<leftarrow> vget ptr (s + 1);
     b \<leftarrow> vget ptr s;
     let f = e - b;
     let p = width sn;
     Some (info\<lparr>predicted_factor_entries := predicted_factor_entries info + f,
       predicted_flops := predicted_flops info + of_int p * of_int f * of_int f,
       max_front_size := max (max_front_size info) f,
       max_supernode_size := max (max_supernode_size info) p\<rparr>)
   }) (info_ok snodes f {0..<s + 1})"
    using i f [OF s, symmetric] by (simp add: info_ok_def greatest_insert Let_def del: ok_vget)
next
  fix info assume "info_ok snodes f {0..<max 0 (int (length snodes))} info"
  then show "info_ok snodes f {0..<int (length snodes)} info" by simp
qed

lemma fold_max_height:
  assumes "height_inv snodes (int (length snodes)) (depth, md)"
  shows "for_range 0 (int (length snodes)) (\<lambda>s md. do { d \<leftarrow> vget depth s; Some (max md d) }) md = Some md"
proof -
  have "ok (for_range 0 (int (length snodes)) (\<lambda>s md. do { d \<leftarrow> vget depth s; Some (max md d) }) md) (\<lambda>m. m = md)"
    by (rule for_range_ok [where I = "\<lambda>_ m. m = md"])
      (use assms in \<open>auto simp: height_inv_def elt_def [symmetric] max_def intro: antisym\<close>)
  then show ?thesis by (auto simp: ok_def)
qed

text \<open>The whole routine, for any children lists that name earlier supernodes.\<close>

definition fronts_ok :: "'v csc \<Rightarrow> supernode list \<Rightarrow> (int \<Rightarrow> int list) \<Rightarrow> int list \<times> int list \<times> front_info \<Rightarrow> bool" where
  "fronts_ok A snodes ch = (\<lambda>(ptr, rows, info). length ptr = length snodes + 1 \<and> elt ptr 0 = 0
     \<and> elt ptr (int (length snodes)) = int (length rows)
     \<and> (\<forall>s. 0 \<le> s \<and> s < int (length snodes) \<longrightarrow> elt ptr s \<le> elt ptr (s + 1)
          \<and> segment rows (elt ptr s) (elt ptr (s + 1)) = sorted_list_of_set (front_rows A snodes ch s))
     \<and> info_ok snodes (\<lambda>s. int (card (front_rows A snodes ch s))) {0..<int (length snodes)} info
     \<and> tree_height snodes (max_tree_depth info))"

lemma build_assembly_tree_ok:
  assumes A: "csc_valid A" "snodes_ok (csc_n A) snodes" "kids_ok snodes cptr cidx" and later: "parents_later snodes"
    and small: "total_rows A snodes (csr_kids cptr cidx) < 2 ^ 31"
  shows "ok (build_assembly_tree A snodes cptr cidx) (fronts_ok A snodes (csr_kids cptr cidx))"
proof (cases "snodes = []")
  case True
  have "child_rel snodes = {}" by (auto simp: child_rel_def True)
  then have "child_rel snodes ^^ k = (if k = 0 then Id else {})" for k by (cases k) simp_all
  then have "tree_height snodes 0" by (simp add: tree_height_def)
  then show ?thesis using True
    by (auto simp: build_assembly_tree_def fronts_ok_def info_ok_def greatest_def elt_def Let_def)
next
  case False
  let ?ch = "csr_kids cptr cidx" and ?n = "int (length snodes)" let ?f = "\<lambda>s. int (card (front_rows A snodes ?ch s))"
  have n: "0 \<le> csc_n A" using A(1) by (simp add: csc_valid_def csc_ptr_ok_def)
  have "ok (for_range 0 ?n (front_step A snodes cptr cidx) (replicate (length snodes + 1) 0, [], replicate (nat (csc_n A)) (-1)))
      (fronts_inv A snodes ?ch ?n)"
  proof (rule for_range_ok [where I = "\<lambda>s st. fronts_inv A snodes ?ch s st"])
    show "fronts_inv A snodes ?ch 0 (replicate (length snodes + 1) 0, [], replicate (nat (csc_n A)) (-1))"
      using n by (auto simp: fronts_inv_def elt_def simp del: replicate_Suc)
  next
    fix s st assume "0 \<le> s" "s < ?n" "fronts_inv A snodes ?ch s st"
    then show "ok (front_step A snodes cptr cidx s st) (fronts_inv A snodes ?ch (s + 1))"
      by (rule front_step_ok [OF A _ _ small])
  qed simp
  then obtain ptr rows mark where f: "for_range 0 ?n (front_step A snodes cptr cidx)
      (replicate (length snodes + 1) 0, [], replicate (nat (csc_n A)) (-1)) = Some (ptr, rows, mark)"
    "fronts_inv A snodes ?ch ?n (ptr, rows, mark)" by (auto simp: ok_def)
  have F: "int (length ptr) = ?n + 1" "elt ptr 0 = 0" "elt ptr ?n = int (length rows)"
    "\<And>s. 0 \<le> s \<Longrightarrow> s < ?n \<Longrightarrow> 0 \<le> elt ptr s \<and> elt ptr s \<le> elt ptr (s + 1) \<and> elt ptr (s + 1) \<le> int (length rows)
        \<and> segment rows (elt ptr s) (elt ptr (s + 1)) = sorted_list_of_set (front_rows A snodes ?ch s)"
    using f(2) unfolding fronts_inv_def by auto
  have sz: "elt ptr (s + 1) - elt ptr s = ?f s" if "0 \<le> s" "s < ?n" for s
    using F(4) [OF that] segment_length [of "elt ptr s" "elt ptr (s + 1)" rows] by simp
  obtain depth md where d: "tree_depths snodes = Some (depth, md)" "height_inv snodes ?n (depth, md)"
    using ok_ex [OF tree_depths_ok [OF later]] by auto
  let ?info = "\<lparr>predicted_factor_entries = 0, predicted_flops = 0, max_front_size = 0,
       max_supernode_size = 0, max_tree_depth = 0\<rparr>"
  have "info_ok snodes ?f {} ?info" by (simp add: info_ok_def greatest_def)
  then obtain info where i: "front_sizes snodes ptr ?info = Some info" "info_ok snodes ?f {0..<?n} info"
    using ok_ex [OF front_sizes_ok [OF F(1) sz]] by blast
  have "fronts_ok A snodes ?ch (ptr, rows, info\<lparr>max_tree_depth := md\<rparr>)"
    using F i(2) height_inv_height [OF d(2) later] by (simp add: fronts_ok_def info_ok_def)
  moreover have "build_assembly_tree A snodes cptr cidx = Some (ptr, rows, info\<lparr>max_tree_depth := md\<rparr>)"
    using False f(1) d(1) i(1) fold_max_height [OF d(2)] by (simp add: build_assembly_tree_def Let_def)
  ultimately show ?thesis by simp
qed


section \<open>With the children lists of \<open>build_children_csr\<close>\<close>

lemma children_kids:
  assumes later: "parents_later snodes" and b: "build_children_csr snodes = Some (cptr, cidx)"
  shows "kids_ok snodes cptr cidx
    \<and> (\<forall>s. 0 \<le> s \<and> s < int (length snodes) \<longrightarrow> csr_kids cptr cidx s = snode_children snodes s)"
proof -
  have "sn_parent (snodes ! i) < int (length snodes)" if "i < length snodes" for i
    using later [unfolded parents_later_def, rule_format, of "int i"] that by (auto simp: elt_def)
  then have "parents_in_range snodes" by (auto simp: parents_in_range_def in_set_conv_nth)
  from ok_the [OF build_children_csr_ok [OF this] b] have
    P: "int (length cptr) = int (length snodes) + 1"
    "\<And>p. 0 \<le> p \<Longrightarrow> p \<le> int (length snodes) \<Longrightarrow> elt cptr p = bptr (snode_parent snodes) (linked snodes) p"
    "length cidx = length (linked snodes)"
    "\<And>p. 0 \<le> p \<Longrightarrow> p < int (length snodes) \<Longrightarrow> csr_kids cptr cidx p = snode_children snodes p"
    by (auto simp: csr_kids_def)
  have keys: "\<forall>s \<in> set (linked snodes). 0 \<le> snode_parent snodes s \<and> snode_parent snodes s < int (length snodes)"
    using later by (auto simp: linked_def snode_parent_def parents_later_def elt_def)
  show ?thesis
    unfolding kids_ok_def
  proof (intro conjI allI impI ballI)
    fix s assume s: "0 \<le> s \<and> s < int (length snodes)"
    show "csr_kids cptr cidx s = snode_children snodes s" using P(4) s by simp
    show "0 \<le> elt cptr s" "elt cptr s \<le> elt cptr (s + 1)" using P(2) [of s] P(2) [of "s + 1"] s
      by (simp_all add: bptr_nonneg bptr_Suc bcount_nonneg)
    have "elt cptr (s + 1) \<le> elt cptr (int (length snodes))" using P(2) s by (simp add: bptr_mono)
    then show "elt cptr (s + 1) \<le> int (length cidx)" using P(2) [of "int (length snodes)"] bptr_total [OF keys] P(3) by simp
    fix c assume c: "c \<in> set (csr_kids cptr cidx s)"
    then have "0 \<le> c \<and> c < int (length snodes) \<and> sn_parent (elt snodes c) = s"
      using P(4) s by (auto simp: snode_children_def snode_parent_def elt_def)
    then show "0 \<le> c" "c < s" using later s by (auto simp: parents_later_def)
  qed (use P(1) in simp)
qed


lemma front_row_cong:
  assumes "front_row A snodes ch s r" "0 \<le> s" "s < int (length snodes)"
    and "\<And>s. 0 \<le> s \<Longrightarrow> s < int (length snodes) \<Longrightarrow> ch s = ch' s \<and> (\<forall>c \<in> set (ch s). 0 \<le> c \<and> c < int (length snodes))"
  shows "front_row A snodes ch' s r"
  using assms(1-3)
proof (induction rule: front_row.induct)
  case (passed c s r)
  then have "ch s = ch' s" "0 \<le> c" "c < int (length snodes)" using assms(4) [of s] by auto
  then show ?case using passed(1,3,4) by - (rule front_row.passed [of c], simp_all)
next
  case (own s j)
  show ?case by (rule front_row.own [OF own(1,2)])
next
  case (entry s j p)
  show ?case by (rule front_row.entry [OF entry(1-4)])
qed

lemma front_rows_cong:
  assumes "0 \<le> s" "s < int (length snodes)"
    and "\<And>s. 0 \<le> s \<Longrightarrow> s < int (length snodes) \<Longrightarrow> ch s = ch' s \<and> (\<forall>c \<in> set (ch s). 0 \<le> c \<and> c < int (length snodes))"
  shows "front_rows A snodes ch s = front_rows A snodes ch' s"
proof -
  have swap: "ch' s = ch s \<and> (\<forall>c \<in> set (ch' s). 0 \<le> c \<and> c < int (length snodes))" if "0 \<le> s" "s < int (length snodes)" for s
    using assms(3) [OF that] by simp
  have "front_row A snodes ch s r" if "front_row A snodes ch' s r" for r
    by (rule front_row_cong [OF that assms(1,2) swap])
  moreover have "front_row A snodes ch' s r" if "front_row A snodes ch s r" for r
    by (rule front_row_cong [OF that assms(1,2)]) (rule assms(3))
  ultimately have "front_row A snodes ch s r \<longleftrightarrow> front_row A snodes ch' s r" for r by blast
  then show ?thesis by (simp add: front_rows_def)
qed

lemma total_rows_bound:
  assumes "csc_valid A" "snodes_ok (csc_n A) snodes" "kids_ok snodes ptr idx"
  shows "total_rows A snodes (csr_kids ptr idx) \<le> length snodes * nat (csc_n A)"
proof -
  have "card (front_rows A snodes (csr_kids ptr idx) t) \<le> nat (csc_n A)" if "t \<in> {0..<int (length snodes)}" for t
    using card_mono [OF _ front_rows_finite(1) [OF assms, of t]] that by simp
  then have "total_rows A snodes (csr_kids ptr idx) \<le> of_nat (card {0..<int (length snodes)}) * nat (csc_n A)"
    unfolding total_rows_def by (rule sum_bounded_above)
  then show ?thesis by simp
qed

section \<open>Properties\<close>

text \<open>C7: with the children lists of \<open>build_children_csr\<close>, \<open>build_assembly_tree\<close> of a valid matrix and
  supernodes whose parents come later stays inside its arrays (the work array is \<open>n\<close> marks and one depth
  per supernode) and gives every front its rows, strictly ascending: the supernode's columns, the rows of their
  entries, and what the children pass on. \<open>predicted_factor_entries\<close> is the number of those rows,
  \<open>predicted_flops\<close> the sum of width times front size squared, the sizes are maxima, and \<open>max_tree_depth\<close>
  is the length of the longest parent chain, provided that the number of rows in all fronts is below \<open>2^31\<close>.\<close>

theorem build_assembly_tree_correct:
  assumes A: "csc_valid A" "snodes_ok (csc_n A) snodes" "parents_later snodes"
    and b: "build_children_csr snodes = Some (cptr, cidx)"
    and small: "total_rows A snodes (snode_children snodes) < 2 ^ 31"
  shows "\<exists>ptr rows info. build_assembly_tree A snodes cptr cidx = Some (ptr, rows, info)
    \<and> fronts_ok A snodes (snode_children snodes) (ptr, rows, info)"
proof -
  have k: "kids_ok snodes cptr cidx" and same: "\<And>s. 0 \<le> s \<Longrightarrow> s < int (length snodes) \<Longrightarrow> csr_kids cptr cidx s = snode_children snodes s"
    using children_kids [OF A(3) b] by blast+
  have eq: "front_rows A snodes (csr_kids cptr cidx) s = front_rows A snodes (snode_children snodes) s"
    if "0 \<le> s" "s < int (length snodes)" for s
    by (rule front_rows_cong [OF that]) (use same k in \<open>force simp: kids_ok_def\<close>)
  have "total_rows A snodes (csr_kids cptr cidx) = total_rows A snodes (snode_children snodes)"
    unfolding total_rows_def by (rule sum.cong) (use eq in auto)
  then obtain ptr rows info where r: "build_assembly_tree A snodes cptr cidx = Some (ptr, rows, info)"
    "fronts_ok A snodes (csr_kids cptr cidx) (ptr, rows, info)"
    using ok_ex [OF build_assembly_tree_ok [OF A(1,2) k A(3)]] small by auto
  have "info_ok snodes (\<lambda>s. int (card (front_rows A snodes (snode_children snodes) s))) {0..<int (length snodes)} info"
  proof -
    let ?S = "{0..<int (length snodes)}"
    let ?f = "\<lambda>s. int (card (front_rows A snodes (csr_kids cptr cidx) s))" and ?g = "\<lambda>s. int (card (front_rows A snodes (snode_children snodes) s))"
    have fg: "?f s = ?g s" if "s \<in> ?S" for s using eq that by simp
    have "(\<Sum>s \<in> ?S. ?f s) = (\<Sum>s \<in> ?S. ?g s)" "?f ` ?S = ?g ` ?S"
      "(\<Sum>s \<in> ?S. of_int (width (elt snodes s)) * of_int (?f s) * of_int (?f s)) = (\<Sum>s \<in> ?S. of_int (width (elt snodes s)) * of_int (?g s) * (of_int (?g s) :: rat))"
      using fg by (auto intro!: sum.cong image_cong)
    then show ?thesis using r(2) by (simp add: fronts_ok_def info_ok_def)
  qed
  then have "fronts_ok A snodes (snode_children snodes) (ptr, rows, info)"
    using r(2) eq by (simp add: fronts_ok_def)
  then show ?thesis using r(1) by blast
qed

definition example_matrix :: "int csc" where
  "example_matrix = \<lparr>csc_n = 6, col_ptr = [0, 3, 4, 6, 7, 8, 9], row_idx = [0, 1, 4, 1, 2, 5, 3, 4, 5],
     vals = [4, 1, 1, 4, 4, 1, 4, 4, 4]\<rparr>"

theorem build_assembly_tree_correct_witness:
  "\<exists>cptr cidx ptr rows info. build_children_csr example_snodes = Some (cptr, cidx)
    \<and> build_assembly_tree example_matrix example_snodes cptr cidx = Some (ptr, rows, info)
    \<and> segment rows 0 3 = [0, 1, 4] \<and> fronts_ok example_matrix example_snodes (snode_children example_snodes) (ptr, rows, info)"
proof -
  have A: "csc_valid example_matrix"
  proof -
    have "csc_machine example_matrix" by (simp add: example_matrix_def csc_machine_def in_int32_def)
    moreover have "validate_shape example_matrix = Some Success" by code_simp
    ultimately show ?thesis using validate_shape_eq [of example_matrix] by (simp split: if_splits)
  qed
  have S: "snodes_ok 6 example_snodes" "parents_later example_snodes"
    unfolding snodes_ok_def parents_later_def all_int_set by code_simp+
  let ?c = "([0, 0, 0, 2], [1, 0])"
  have b: "build_children_csr example_snodes = Some ?c" by code_simp
  have k: "kids_ok example_snodes (fst ?c) (snd ?c)" and same: "\<And>s. 0 \<le> s \<Longrightarrow> s < 3 \<Longrightarrow> csr_kids (fst ?c) (snd ?c) s = snode_children example_snodes s"
    using children_kids [OF S(2) b] by (auto simp: example_snodes_def)
  have "example_snodes \<noteq> []" "int (length example_snodes) = 3" "csc_n example_matrix = 6" by (simp_all add: example_snodes_def example_matrix_def)
  note len = this
  have "total_rows example_matrix example_snodes (csr_kids (fst ?c) (snd ?c)) \<le> 18"
    using total_rows_bound [OF A _ k] S(1) by (simp add: len) (simp add: example_snodes_def)
  moreover have "total_rows example_matrix example_snodes (csr_kids (fst ?c) (snd ?c)) = total_rows example_matrix example_snodes (snode_children example_snodes)"
    unfolding total_rows_def len
    by (rule sum.cong [OF HOL.refl], rule arg_cong [where f = card], rule front_rows_cong) (use same k len in \<open>force simp: kids_ok_def\<close>)+
  ultimately have small: "total_rows example_matrix example_snodes (snode_children example_snodes) < 2 ^ 31" by simp
  obtain ptr rows info where r: "build_assembly_tree example_matrix example_snodes (fst ?c) (snd ?c) = Some (ptr, rows, info)"
    "fronts_ok example_matrix example_snodes (snode_children example_snodes) (ptr, rows, info)"
    using build_assembly_tree_correct [OF A _ S(2) b small] S(1) len by auto
  have "(case build_assembly_tree example_matrix example_snodes (fst ?c) (snd ?c) of Some (ptr, rows, info) \<Rightarrow> segment rows 0 3) = [0, 1, 4]"
    by code_simp
  then show ?thesis using b r by auto
qed

end
