(* ===== verification/MinDegree.thy ===== *)
theory MinDegree
  imports SymGraph
begin

text \<open>
  \<open>fallback_minimum_degree_ordering\<close> (\<open>ordering_amd.cpp\<close>), the ordering used without the AMD library:
  exact minimum degree on sorted adjacency lists. Its specification is vertex elimination on a
  graph given by neighbour sets: \<open>eliminate\<close> joins the neighbours of the pivot pairwise.
\<close>

section \<open>The code\<close>

text \<open>The search for the pivot; it stops early at an isolated vertex.\<close>

definition md_pivot :: "int \<Rightarrow> bool list \<Rightarrow> int list \<Rightarrow> int option" where
  "md_pivot n eliminated deg = do {
     r \<leftarrow> for_brk 0 n (\<lambda>v (pivot, best_deg). do {
       e \<leftarrow> vget eliminated v;
       d \<leftarrow> vget deg v;
       Some (if \<not> e \<and> d < best_deg then (if d = 0 then Inl (v, d) else Inr (v, d)) else Inr (pivot, best_deg))
     }) (-1, n + 1);
     Some (case r of Inl s \<Rightarrow> fst s | Inr s \<Rightarrow> fst s)
   }"

definition live :: "bool list \<Rightarrow> int list \<Rightarrow> int list option" where
  "live eliminated us = forM us (\<lambda>u acc. do {
     e \<leftarrow> vget eliminated u;
     Some (if e then acc else acc @ [u])
   }) []"

text \<open>Insertion at \<open>std::lower_bound\<close> unless \<open>std::binary_search\<close> finds the element; both need the
  list partitioned, so a list out of order is undefined.\<close>

definition insert_sorted :: "int \<Rightarrow> int list \<Rightarrow> int list option" where
  "insert_sorted w xs =
     (if \<not> sorted xs then None
      else Some (if w \<in> set xs then xs else takeWhile (\<lambda>x. x < w) xs @ w # dropWhile (\<lambda>x. x < w) xs))"

definition md_update :: "bool list \<Rightarrow> int list \<Rightarrow> int \<Rightarrow> int list list \<times> int list \<Rightarrow> (int list list \<times> int list) option" where
  "md_update eliminated nbrs a = (\<lambda>(adj, deg). do {
     u \<leftarrow> vget nbrs a;
     list \<leftarrow> vget adj u;
     list \<leftarrow> live eliminated list;
     list \<leftarrow> for_range 0 (int (length nbrs)) (\<lambda>b list.
       if a = b then Some list else do { w \<leftarrow> vget nbrs b; insert_sorted w list }) list;
     adj \<leftarrow> vset adj u list;
     deg \<leftarrow> vset deg u (int (length list));
     Some (adj, deg)
   })"

record md_state =
  md_adj :: "int list list"
  md_elim :: "bool list"
  md_deg :: "int list"
  md_perm :: "int list"

definition md_step :: "int \<Rightarrow> md_state \<Rightarrow> (md_state + md_state) option" where
  "md_step n st = do {
     pivot \<leftarrow> md_pivot n (md_elim st) (md_deg st);
     if pivot < 0 then Some (Inl st)
     else do {
       eliminated \<leftarrow> vset (md_elim st) pivot True;
       list \<leftarrow> vget (md_adj st) pivot;
       nbrs \<leftarrow> live eliminated list;
       adj \<leftarrow> vset (md_adj st) pivot [];
       (adj, deg) \<leftarrow> for_range 0 (int (length nbrs)) (md_update eliminated nbrs) (adj, md_deg st);
       Some (Inr \<lparr>md_adj = adj, md_elim = eliminated, md_deg = deg, md_perm = md_perm st @ [pivot]\<rparr>)
     }
   }"

definition md_init :: "int \<Rightarrow> int list \<Rightarrow> int list \<Rightarrow> (int list list \<times> int list) option" where
  "md_init n xadj adjncy = for_range 0 n (\<lambda>i (adj, deg). do {
     start \<leftarrow> vget xadj i;
     end \<leftarrow> vget xadj (i + 1);
     if 0 \<le> start \<and> start \<le> end \<and> end \<le> int (length adjncy) then do {
       adj \<leftarrow> vset adj i (segment adjncy start end);
       deg \<leftarrow> vset deg i (end - start);
       Some (adj, deg)
     } else None
   }) (replicate (nat n) [], replicate (nat n) 0)"

definition fallback_minimum_degree_ordering :: "int \<Rightarrow> int list \<Rightarrow> int list \<Rightarrow> int list option" where
  "fallback_minimum_degree_ordering n xadj adjncy =
     (if n < 0 then None
      else if n = 0 then Some []
      else if adjncy = [] \<or> int (length xadj) < n + 1 then Some [0..n - 1]
      else do {
        (adj, deg) \<leftarrow> md_init n xadj adjncy;
        r \<leftarrow> for_brk 0 n (\<lambda>_. md_step n)
          \<lparr>md_adj = adj, md_elim = replicate (nat n) False, md_deg = deg, md_perm = []\<rparr>;
        Some (case r of Inl st \<Rightarrow> md_perm st | Inr st \<Rightarrow> md_perm st)
      })"

section \<open>Vertex elimination\<close>

type_synonym graph = "int \<Rightarrow> int set"

definition eliminate :: "int \<Rightarrow> graph \<Rightarrow> graph" where
  "eliminate p G = (\<lambda>u. if u = p then {} else if u \<in> G p then (G u \<union> G p) - {u, p} else G u)"

text \<open>A symmetric graph without loops on the vertices of \<open>L\<close>.\<close>

definition graph_on :: "int set \<Rightarrow> graph \<Rightarrow> bool" where
  "graph_on L G \<longleftrightarrow> (\<forall>u v. v \<in> G u \<longrightarrow> u \<in> G v \<and> u \<noteq> v \<and> u \<in> L)"

lemma graph_on_sub: "graph_on L G \<Longrightarrow> G u \<subseteq> L"
  unfolding graph_on_def by blast

lemma eliminate_graph: "graph_on L G \<Longrightarrow> graph_on (L - {p}) (eliminate p G)"
  unfolding graph_on_def eliminate_def by (auto split: if_splits)

lemma eliminate_nbr: "graph_on L G \<Longrightarrow> u \<in> G p \<Longrightarrow> eliminate p G u = (G u - {p}) \<union> (G p - {u})"
  unfolding graph_on_def eliminate_def by auto

definition csr_graph :: "int \<Rightarrow> int list \<Rightarrow> int list \<Rightarrow> graph \<Rightarrow> bool" where
  "csr_graph n xadj adjncy G \<longleftrightarrow> int (length xadj) = n + 1 \<and> graph_on {0..<n} G
     \<and> (\<forall>v. 0 \<le> v \<and> v < n \<longrightarrow> 0 \<le> elt xadj v \<and> elt xadj v \<le> elt xadj (v + 1) \<and> elt xadj (v + 1) \<le> int (length adjncy)
          \<and> sorted_wrt (<) (segment adjncy (elt xadj v) (elt xadj (v + 1)))
          \<and> set (segment adjncy (elt xadj v) (elt xadj (v + 1))) = G v)"

text \<open>\<open>min_degree L G p\<close>: the first vertex of least degree.\<close>

definition min_degree :: "int set \<Rightarrow> graph \<Rightarrow> int \<Rightarrow> bool" where
  "min_degree L G p \<longleftrightarrow> p \<in> L \<and> (\<forall>v \<in> L. card (G p) < card (G v) \<or> (card (G p) = card (G v) \<and> p \<le> v))"

fun min_degree_order :: "int set \<Rightarrow> graph \<Rightarrow> int list \<Rightarrow> bool" where
  "min_degree_order L G [] \<longleftrightarrow> True"
| "min_degree_order L G (p # ps) \<longleftrightarrow> min_degree L G p \<and> min_degree_order (L - {p}) (eliminate p G) ps"

lemma min_degree_order_snoc:
  "min_degree_order L G (ps @ [p]) \<longleftrightarrow>
     min_degree_order L G ps \<and> min_degree (L - set ps) (fold eliminate ps G) p"
proof (induction L G ps rule: min_degree_order.induct)
  case (2 L G q ps)
  have "L - {q} - set ps = L - set (q # ps)" by auto
  then show ?case using 2 by simp
qed simp

section \<open>The invariant\<close>

definition md_inv :: "int \<Rightarrow> graph \<Rightarrow> md_state \<Rightarrow> bool" where
  "md_inv n G st \<longleftrightarrow> (let ps = md_perm st; L = {0..<n} - set ps; H = fold eliminate ps G in
     int (length (md_adj st)) = n \<and> int (length (md_elim st)) = n \<and> int (length (md_deg st)) = n
     \<and> distinct ps \<and> set ps \<subseteq> {0..<n} \<and> graph_on L H \<and> min_degree_order {0..<n} G ps
     \<and> (\<forall>v. 0 \<le> v \<and> v < n \<longrightarrow> (elt (md_elim st) v \<longleftrightarrow> v \<in> set ps))
     \<and> (\<forall>v \<in> L. sorted_wrt (<) (elt (md_adj st) v) \<and> set (elt (md_adj st) v) = H v \<and> elt (md_deg st) v = int (card (H v))))"

lemma live_eq:
  assumes "\<And>u. u \<in> set us \<Longrightarrow> 0 \<le> u \<and> u < int (length el)"
  shows "live el us = Some (filter (\<lambda>u. \<not> elt el u) us)"
proof -
  have "forM us (\<lambda>u acc. do { e \<leftarrow> vget el u; Some (if e then acc else acc @ [u]) }) acc
      = Some (acc @ filter (\<lambda>u. \<not> elt el u) us)" for acc
    using assms by (induction us arbitrary: acc) (simp_all add: vget_at)
  then show ?thesis by (simp add: live_def)
qed

lemma insert_sorted_ok:
  assumes "sorted_wrt (<) xs"
  shows "\<exists>ys. insert_sorted w xs = Some ys \<and> sorted_wrt (<) ys \<and> set ys = insert w (set xs)"
proof -
  have srt: "sorted xs" using assms by (rule strict_sorted_le)
  show ?thesis
  proof (cases "w \<in> set xs")
    case True
    then show ?thesis using srt assms by (auto simp: insert_sorted_def)
  next
    case False
    let ?a = "takeWhile (\<lambda>x. x < w) xs" and ?b = "dropWhile (\<lambda>x. x < w) xs"
    have ab: "?a @ ?b = xs" by simp
    have s: "sorted_wrt (<) (?a @ ?b)" using assms by simp
    have hi: "w < x" if "x \<in> set ?b" for x
    proof -
      have "?b \<noteq> []" using that by (intro notI) (simp only: list.set(1) empty_iff)
      then obtain y ys where b: "?b = y # ys" by (elim neq_Nil_conv [THEN iffD1, elim_format] exE)
      have "\<not> y < w" using hd_dropWhile [of "\<lambda>x. x < w" xs] b by auto
      moreover have "y \<in> set xs" using b by (metis list.set_intros(1) set_dropWhileD)
      ultimately have "w < y" using False by (metis linorder_neqE)
      moreover have "sorted_wrt (<) (y # ys)" using s b by (metis sorted_wrt_append)
      then have "y \<le> x" using that b by auto
      ultimately show "w < x" by simp
    qed
    have lo: "x < w" if "x \<in> set ?a" for x using set_takeWhileD [OF that] by simp
    have parts: "sorted_wrt (<) ?a" "sorted_wrt (<) ?b" using s by (metis sorted_wrt_append)+
    have "\<forall>x \<in> set ?a. \<forall>y \<in> set (w # ?b). x < y"
    proof (intro ballI)
      fix x y assume "x \<in> set ?a" "y \<in> set (w # ?b)"
      then show "x < y" using lo [of x] hi [of y] by (cases "y = w") simp_all
    qed
    moreover have "sorted_wrt (<) (w # ?b)" using parts(2) hi by simp
    ultimately have "sorted_wrt (<) (?a @ w # ?b)" using parts(1) by (simp only: sorted_wrt_append)
    moreover have "set (?a @ w # ?b) = insert w (set xs)" 
    proof -
      have "set (?a @ ?b) = set xs" by (simp only: ab)
      then show ?thesis by (simp only: set_append list.set Un_insert_right)
    qed
    ultimately show ?thesis using srt False by (auto simp: insert_sorted_def)
  qed
qed

lemma md_pivot_ok:
  assumes len: "int (length el) = n" "int (length deg) = n"
    and deg: "\<And>v. 0 \<le> v \<Longrightarrow> v < n \<Longrightarrow> \<not> elt el v \<Longrightarrow> 0 \<le> elt deg v \<and> elt deg v \<le> n"
    and ex: "0 \<le> w" "w < n" "\<not> elt el w"
  shows "ok (md_pivot n el deg) (\<lambda>p. 0 \<le> p \<and> p < n \<and> \<not> elt el p
    \<and> (\<forall>v. 0 \<le> v \<and> v < n \<and> \<not> elt el v \<longrightarrow> elt deg p < elt deg v \<or> (elt deg p = elt deg v \<and> p \<le> v)))"
proof -
  let ?best = "\<lambda>j p. 0 \<le> p \<and> p < n \<and> \<not> elt el p
    \<and> (\<forall>v. 0 \<le> v \<and> v < j \<and> \<not> elt el v \<longrightarrow> elt deg p < elt deg v \<or> (elt deg p = elt deg v \<and> p \<le> v))"
  let ?I = "\<lambda>j (p, b). (p = -1 \<and> b = n + 1 \<and> (\<forall>v. 0 \<le> v \<and> v < j \<longrightarrow> elt el v)) \<or> (?best j p \<and> p < j \<and> b = elt deg p)"
  have "ok (for_brk 0 n (\<lambda>v (pivot, best_deg). do {
       e \<leftarrow> vget el v;
       d \<leftarrow> vget deg v;
       Some (if \<not> e \<and> d < best_deg then (if d = 0 then Inl (v, d) else Inr (v, d)) else Inr (pivot, best_deg))
     }) (-1, n + 1)) (\<lambda>r. ?best n (case r of Inl s \<Rightarrow> fst s | Inr s \<Rightarrow> fst s))"
  proof (rule for_brk_ok [where I = ?I])
    show "?I 0 (-1, n + 1)" by auto
  next
    fix j s assume j: "0 \<le> j" "j < n" and i: "?I j s"
    obtain p b where s: "s = (p, b)" by (cases s)
    have get: "vget el j = Some (elt el j)" "vget deg j = Some (elt deg j)" using j len by (simp_all add: vget_at)
    have below: "(\<forall>v. 0 \<le> v \<and> v < j + 1 \<longrightarrow> P v) \<longleftrightarrow> (\<forall>v. 0 \<le> v \<and> v < j \<longrightarrow> P v) \<and> P j" for P
      by (rule all_below_Suc(1) [OF j(1)])
    have below': "(\<forall>v. 0 \<le> v \<and> v < j + 1 \<and> \<not> elt el v \<longrightarrow> P v) \<longleftrightarrow> (\<forall>v. 0 \<le> v \<and> v < j \<and> \<not> elt el v \<longrightarrow> P v) \<and> (\<not> elt el j \<longrightarrow> P j)" for P
      using below [of "\<lambda>v. \<not> elt el v \<longrightarrow> P v"] by auto
    consider (skip) "elt el j" | (worse) "\<not> elt el j" "\<not> elt deg j < b" | (zero) "\<not> elt el j" "elt deg j < b" "elt deg j = 0"
      | (better) "\<not> elt el j" "elt deg j < b" "elt deg j \<noteq> 0" by blast
    then show "ok (case s of (pivot, best_deg) \<Rightarrow> do {
       e \<leftarrow> vget el j;
       d \<leftarrow> vget deg j;
       Some (if \<not> e \<and> d < best_deg then (if d = 0 then Inl (j, d) else Inr (j, d)) else Inr (pivot, best_deg))
     }) (\<lambda>r. case r of Inl a \<Rightarrow> ?best n (case Inl a of Inl s \<Rightarrow> fst s | Inr s \<Rightarrow> fst s) | Inr s' \<Rightarrow> ?I (j + 1) s')"
    proof cases
      case skip
      then have "?I (j + 1) s" using i unfolding s below below' by auto
      then show ?thesis using skip get by (simp add: s del: ok_vget)
    next
      case worse
      then have "p \<noteq> -1" using i deg [OF j] unfolding s by auto
      then have "?I (j + 1) s" using i worse unfolding s below below' by auto
      then show ?thesis using worse get by (simp add: s del: ok_vget)
    next
      case zero
      have before: "elt deg v > 0" if v: "0 \<le> v" "v < j" "\<not> elt el v" for v
      proof -
        have "?best j p" "b = elt deg p" using i v unfolding s by auto
        then have "b \<le> elt deg v" using v by force
        then show ?thesis using zero by simp
      qed
      have "?best n j"
      proof (intro conjI allI impI)
        fix v assume v: "0 \<le> v \<and> v < n \<and> \<not> elt el v"
        show "elt deg j < elt deg v \<or> (elt deg j = elt deg v \<and> j \<le> v)"
          using before [of v] deg [of v] v zero(3) by (cases "v < j") auto
      qed (use j zero in simp_all)
      then show ?thesis using zero get by (simp add: s del: ok_vget)
    next
      case better
      have before: "elt deg v > elt deg j" if v: "0 \<le> v" "v < j" "\<not> elt el v" for v
      proof -
        have "?best j p" "b = elt deg p" using i v unfolding s by auto
        then have "b \<le> elt deg v" using v by force
        then show ?thesis using better by simp
      qed
      then have "?I (j + 1) (j, elt deg j)" using better j unfolding below below' by auto
      then show ?thesis using better get by (simp add: s del: ok_vget)
    qed
  next
    fix s assume "?I (max 0 n) s"
    moreover have "max 0 n = n" using ex by simp
    ultimately show "?best n (case Inr s of Inl s \<Rightarrow> fst s | Inr s \<Rightarrow> fst s)"
      using ex by (cases s) auto
  qed
  then show ?thesis unfolding md_pivot_def by simp
qed


section \<open>One elimination\<close>

lemma live_rest:
  assumes g: "graph_on L H" "L \<subseteq> {0..<n}" and el: "int (length el) = n" "\<And>v. 0 \<le> v \<Longrightarrow> v < n \<Longrightarrow> elt el v \<longleftrightarrow> v \<notin> L - {p}"
    and xs: "sorted_wrt (<) xs" "set xs = H u"
  shows "\<exists>ys. live el xs = Some ys \<and> sorted_wrt (<) ys \<and> set ys = H u - {p}"
proof -
  have sub: "v \<in> L" if "v \<in> set xs" for v using graph_on_sub [OF g(1)] xs(2) that by auto
  have "live el xs = Some (filter (\<lambda>u. \<not> elt el u) xs)"
    by (rule live_eq) (use sub g(2) el(1) in force)
  moreover have "sorted_wrt (<) (filter (\<lambda>u. \<not> elt el u) xs)" using xs(1) by (rule sorted_wrt_filter)
  moreover have "v \<in> set (filter (\<lambda>u. \<not> elt el u) xs) \<longleftrightarrow> v \<in> H u - {p}" for v
  proof (cases "v \<in> set xs")
    case True
    then have "v \<in> L" by (rule sub)
    then have "elt el v \<longleftrightarrow> v = p" using el(2) [of v] g(2) by auto
    then show ?thesis using True xs(2) by simp
  qed (use xs(2) in simp)
  then have "set (filter (\<lambda>u. \<not> elt el u) xs) = H u - {p}" by blast
  ultimately show ?thesis by blast
qed

lemma strict_distinct: "sorted_wrt (<) xs \<Longrightarrow> distinct xs" for xs :: "int list"
  by (simp add: strict_sorted_iff)

lemma insert_all_ok:
  assumes "sorted_wrt (<) xs" "distinct nbrs" "0 \<le> a" "a < int (length nbrs)"
  shows "ok (for_range 0 (int (length nbrs)) (\<lambda>b list.
       if a = b then Some list else do { w \<leftarrow> vget nbrs b; insert_sorted w list }) xs)
     (\<lambda>ys. sorted_wrt (<) ys \<and> set ys = set xs \<union> (set nbrs - {elt nbrs a}))"
proof (rule for_range_ok [where I = "\<lambda>b ys. sorted_wrt (<) ys \<and> set ys = set xs \<union> {elt nbrs c |c. 0 \<le> c \<and> c < b \<and> c \<noteq> a}"])
  show "sorted_wrt (<) xs \<and> set xs = set xs \<union> {elt nbrs c |c. 0 \<le> c \<and> c < 0 \<and> c \<noteq> a}" using assms(1) by auto
next
  fix b ys assume b: "0 \<le> b" "b < int (length nbrs)"
    and i: "sorted_wrt (<) ys \<and> set ys = set xs \<union> {elt nbrs c |c. 0 \<le> c \<and> c < b \<and> c \<noteq> a}"
  have split: "c < b + 1 \<longleftrightarrow> c < b \<or> c = b" for c by auto
  show "ok (if a = b then Some ys else do { w \<leftarrow> vget nbrs b; insert_sorted w ys })
     (\<lambda>ys. sorted_wrt (<) ys \<and> set ys = set xs \<union> {elt nbrs c |c. 0 \<le> c \<and> c < b + 1 \<and> c \<noteq> a})"
  proof (cases "a = b")
    case True
    then have "{elt nbrs c |c. 0 \<le> c \<and> c < b + 1 \<and> c \<noteq> a} = {elt nbrs c |c. 0 \<le> c \<and> c < b \<and> c \<noteq> a}"
      unfolding split by auto
    then show ?thesis using True i by simp
  next
    case False
    obtain zs where "insert_sorted (elt nbrs b) ys = Some zs" "sorted_wrt (<) zs" "set zs = insert (elt nbrs b) (set ys)"
      using insert_sorted_ok [OF conjunct1 [OF i], of "elt nbrs b"] by (elim exE conjE)
    moreover have "{elt nbrs c |c. 0 \<le> c \<and> c < b + 1 \<and> c \<noteq> a} = insert (elt nbrs b) {elt nbrs c |c. 0 \<le> c \<and> c < b \<and> c \<noteq> a}"
      unfolding split using False b by auto
    ultimately show ?thesis using False b i by (simp add: vget_at del: ok_vget)
  qed
next
  fix ys assume i: "sorted_wrt (<) ys \<and> set ys = set xs \<union> {elt nbrs c |c. 0 \<le> c \<and> c < max 0 (int (length nbrs)) \<and> c \<noteq> a}"
  have "{elt nbrs c |c. 0 \<le> c \<and> c < max 0 (int (length nbrs)) \<and> c \<noteq> a} = set nbrs - {elt nbrs a}"
  proof (intro set_eqI iffI)
    fix w assume "w \<in> {elt nbrs c |c. 0 \<le> c \<and> c < max 0 (int (length nbrs)) \<and> c \<noteq> a}"
    then obtain c where c: "w = elt nbrs c" "0 \<le> c" "c < int (length nbrs)" "c \<noteq> a" by auto
    have "nat c < length nbrs" "nat a < length nbrs" "nat c \<noteq> nat a" using c assms(3,4) by (simp_all add: nat_less_iff eq_nat_nat_iff)
    then have "elt nbrs c \<noteq> elt nbrs a" "elt nbrs c \<in> set nbrs" unfolding elt_def using assms(2) by (simp_all add: nth_eq_iff_index_eq)
    then show "w \<in> set nbrs - {elt nbrs a}" using c(1) by simp
  next
    fix w assume w: "w \<in> set nbrs - {elt nbrs a}"
    then obtain k where "k < length nbrs" "w = nbrs ! k" by (auto simp: in_set_conv_nth)
    then have "w = elt nbrs (int k)" "int k < max 0 (int (length nbrs))" "int k \<noteq> a" using w by (auto simp: elt_def)
    then show "w \<in> {elt nbrs c |c. 0 \<le> c \<and> c < max 0 (int (length nbrs)) \<and> c \<noteq> a}"
      by (intro CollectI exI [of _ "int k"]) simp
  qed
  then show "sorted_wrt (<) ys \<and> set ys = set xs \<union> (set nbrs - {elt nbrs a})" using i by simp
qed

lemma md_step_ok:
  assumes i: "md_inv n G st" and more: "int (length (md_perm st)) < n"
  shows "ok (md_step n st) (\<lambda>r. \<exists>st'. r = Inr st' \<and> md_inv n G st' \<and> length (md_perm st') = Suc (length (md_perm st)))"
proof -
  let ?ps = "md_perm st" let ?L = "{0..<n} - set ?ps" and ?H = "fold eliminate ?ps G"
  let ?el = "md_elim st" and ?adj = "md_adj st" and ?deg = "md_deg st"
  have I: "int (length ?adj) = n" "int (length ?el) = n" "int (length ?deg) = n" "distinct ?ps" "set ?ps \<subseteq> {0..<n}"
    "graph_on ?L ?H" "min_degree_order {0..<n} G ?ps" "\<And>v. 0 \<le> v \<Longrightarrow> v < n \<Longrightarrow> elt ?el v \<longleftrightarrow> v \<in> set ?ps"
    "\<And>v. v \<in> ?L \<Longrightarrow> sorted_wrt (<) (elt ?adj v) \<and> set (elt ?adj v) = ?H v \<and> elt ?deg v = int (card (?H v))"
    using i unfolding md_inv_def Let_def by blast+
  have "card (set ?ps) < card {0..<n}" using more distinct_card [OF I(4)] by simp
  then have "\<not> {0..<n} \<subseteq> set ?ps" using card_mono [of "set ?ps" "{0..<n}"] by auto
  then obtain w where w': "w \<in> {0..<n}" "w \<notin> set ?ps" by blast
  then have w: "0 \<le> w" "w < n" "\<not> elt ?el w" using I(8) by simp_all
  have dg: "0 \<le> elt ?deg v \<and> elt ?deg v \<le> n" if "0 \<le> v" "v < n" "\<not> elt ?el v" for v
  proof -
    have "v \<in> ?L" using that I(8) by simp
    moreover have "card (?H v) \<le> card {0..<n}" using graph_on_sub [OF I(6), of v] by (intro card_mono) auto
    ultimately show ?thesis using I(9) that by simp
  qed
  obtain p where p: "md_pivot n ?el ?deg = Some p" "0 \<le> p" "p < n" "\<not> elt ?el p"
    "\<And>v. 0 \<le> v \<Longrightarrow> v < n \<Longrightarrow> \<not> elt ?el v \<Longrightarrow> elt ?deg p < elt ?deg v \<or> (elt ?deg p = elt ?deg v \<and> p \<le> v)"
    using md_pivot_ok [OF I(2,3) dg w] unfolding ok_def by blast
  have pL: "p \<in> ?L" using p(2-4) I(8) by simp
  have least: "min_degree ?L ?H p"
    unfolding min_degree_def
  proof (intro conjI ballI)
    fix v assume v: "v \<in> ?L"
    then have "elt ?deg p < elt ?deg v \<or> (elt ?deg p = elt ?deg v \<and> p \<le> v)" using p(5) I(8) by simp
    then show "card (?H p) < card (?H v) \<or> (card (?H p) = card (?H v) \<and> p \<le> v)" using I(9) [OF v] I(9) [OF pL] by simp
  qed (rule pL)
  let ?E = "?el[nat p := True]"
  have E: "int (length ?E) = n" "\<And>v. 0 \<le> v \<Longrightarrow> v < n \<Longrightarrow> elt ?E v \<longleftrightarrow> v \<notin> ?L - {p}"
    using I(2) at_update [of _ p ?el True] p(2,3) I(8) by auto
  have sub: "?L \<subseteq> {0..<n}" by blast
  obtain nbrs where nb: "live ?E (elt ?adj p) = Some nbrs" "sorted_wrt (<) nbrs" "set nbrs = ?H p - {p}"
    using live_rest [OF I(6) sub E] I(9) [OF pL] by blast
  have nbs: "set nbrs = ?H p" using nb(3) I(6) unfolding graph_on_def by blast
  have dist: "distinct nbrs" using nb(2) by (rule strict_distinct)
  let ?N = "eliminate p ?H"
  let ?A0 = "?adj[nat p := []]"
  let ?J = "\<lambda>a (adj, deg). int (length adj) = n \<and> int (length deg) = n \<and> (\<forall>v \<in> ?L - {p}.
     (if \<exists>c. 0 \<le> c \<and> c < a \<and> elt nbrs c = v then sorted_wrt (<) (elt adj v) \<and> set (elt adj v) = ?N v \<and> elt deg v = int (card (?N v))
      else elt adj v = elt ?adj v \<and> elt deg v = elt ?deg v))"
  have "ok (for_range 0 (int (length nbrs)) (md_update ?E nbrs) (?A0, ?deg)) (?J (int (length nbrs)))"
  proof (rule for_range_ok [where I = ?J])
    have "elt ?A0 v = elt ?adj v" if "v \<in> ?L - {p}" for v using at_update [of v p ?adj] that p(2,3) I(1) by auto
    then show "?J 0 (?A0, ?deg)" using I(1,3) by auto
  next
    fix a s assume a: "0 \<le> a" "a < int (length nbrs)" and j: "?J a s"
    obtain adj deg where s: "s = (adj, deg)" by (cases s)
    let ?u = "elt nbrs a"
    have J: "int (length adj) = n" "int (length deg) = n" using j unfolding s by auto
    have "?u \<in> set nbrs" using a by (simp add: elt_def)
    then have uH: "?u \<in> ?H p" using nbs by simp
    then have uL: "?u \<in> ?L - {p}" using I(6) graph_on_sub [OF I(6)] unfolding graph_on_def by blast
    then have ub: "0 \<le> ?u" "?u < n" by auto
    have once: "elt nbrs c = ?u \<longleftrightarrow> c = a" if "0 \<le> c" "c < int (length nbrs)" for c
      using that a dist nth_eq_iff_index_eq [of nbrs "nat c" "nat a"] by (auto simp: elt_def nat_less_iff eq_nat_nat_iff)
    have "\<not> (\<exists>c. 0 \<le> c \<and> c < a \<and> elt nbrs c = ?u)" using once a by force
    then have same: "elt adj ?u = elt ?adj ?u" using j uL unfolding s by auto
    obtain xs where xs: "live ?E (elt adj ?u) = Some xs" "sorted_wrt (<) xs" "set xs = ?H ?u - {p}"
      using live_rest [OF I(6) sub E, of "elt ?adj ?u" ?u] I(9) [of ?u] uL same by auto
    obtain ys where ys: "for_range 0 (int (length nbrs)) (\<lambda>b list.
       if a = b then Some list else do { w \<leftarrow> vget nbrs b; insert_sorted w list }) xs = Some ys"
      "sorted_wrt (<) ys" "set ys = set xs \<union> (set nbrs - {?u})"
      using insert_all_ok [OF xs(2) dist a] unfolding ok_def by blast
    have N: "set ys = ?N ?u" unfolding ys(3) xs(3) nbs eliminate_nbr [OF I(6) uH] ..
    have card: "length ys = card (?N ?u)"
      using distinct_card [OF strict_distinct [OF ys(2)]] N by simp
    have get: "vget nbrs a = Some ?u" "vget adj ?u = Some (elt adj ?u)" "vset adj ?u ys = Some (adj[nat ?u := ys])"
      "vset deg ?u (int (length ys)) = Some (deg[nat ?u := int (length ys)])"
      using a ub J by (simp_all add: vget_at vset_def)
    have "?J (a + 1) (adj[nat ?u := ys], deg[nat ?u := int (length ys)])"
      unfolding prod.case
    proof (intro conjI ballI)
      fix v assume v: "v \<in> ?L - {p}"
      then have vb: "0 \<le> v" by auto
      have upd: "elt (adj[nat ?u := ys]) v = (if v = ?u then ys else elt adj v)"
        "elt (deg[nat ?u := int (length ys)]) v = (if v = ?u then int (length ys) else elt deg v)"
        using at_update [of v ?u adj ys] at_update [of v ?u deg "int (length ys)"] vb ub J by simp_all
      show "if \<exists>c. 0 \<le> c \<and> c < a + 1 \<and> elt nbrs c = v then sorted_wrt (<) (elt (adj[nat ?u := ys]) v)
          \<and> set (elt (adj[nat ?u := ys]) v) = ?N v \<and> elt (deg[nat ?u := int (length ys)]) v = int (card (?N v))
        else elt (adj[nat ?u := ys]) v = elt ?adj v \<and> elt (deg[nat ?u := int (length ys)]) v = elt ?deg v"
      proof (cases "v = ?u")
        case True
        then have "\<exists>c. 0 \<le> c \<and> c < a + 1 \<and> elt nbrs c = v" using a by (intro exI [of _ a]) simp
        then show ?thesis unfolding upd using True ys(2) N card by simp
      next
        case False
        have "c < a + 1 \<longleftrightarrow> c < a \<or> c = a" for c by auto
        then have "(\<exists>c. 0 \<le> c \<and> c < a + 1 \<and> elt nbrs c = v) \<longleftrightarrow> (\<exists>c. 0 \<le> c \<and> c < a \<and> elt nbrs c = v)" using False by auto
        then show ?thesis unfolding upd using j v False unfolding s by simp
      qed
    qed (use J in simp_all)
    then show "ok (md_update ?E nbrs a s) (?J (a + 1))"
      unfolding s md_update_def prod.case get bind.simps xs(1) ys(1) ok_Some .
  qed simp
  then obtain adj deg where ad: "for_range 0 (int (length nbrs)) (md_update ?E nbrs) (?A0, ?deg) = Some (adj, deg)"
    "?J (int (length nbrs)) (adj, deg)" unfolding ok_def by blast
  let ?st = "\<lparr>md_adj = adj, md_elim = ?E, md_deg = deg, md_perm = ?ps @ [p]\<rparr>"
  have reach: "(\<exists>c. 0 \<le> c \<and> c < int (length nbrs) \<and> elt nbrs c = v) \<longleftrightarrow> v \<in> ?H p" for v
    unfolding nbs [symmetric] in_set_conv_nth elt_def
    by (metis nat_int nonneg_int_cases of_nat_0_le_iff of_nat_less_iff)
  have "md_inv n G ?st"
    unfolding md_inv_def Let_def md_state.simps fold_append comp_apply fold.simps id_apply
  proof (intro conjI)
    have LL: "{0..<n} - set (?ps @ [p]) = ?L - {p}" by auto
    show "int (length adj) = n" "int (length deg) = n" using ad(2) by simp_all
    show "distinct (?ps @ [p])" using I(4) pL by simp
    show "set (?ps @ [p]) \<subseteq> {0..<n}" using I(5) p(2,3) by simp
    show "graph_on ({0..<n} - set (?ps @ [p])) ?N" unfolding LL by (rule eliminate_graph [OF I(6)])
    show "min_degree_order {0..<n} G (?ps @ [p])" using I(7) least by (simp add: min_degree_order_snoc)
    show "\<forall>v. 0 \<le> v \<and> v < n \<longrightarrow> (elt ?E v \<longleftrightarrow> v \<in> set (?ps @ [p]))" using E(2) by auto
    show "\<forall>v \<in> {0..<n} - set (?ps @ [p]). sorted_wrt (<) (elt adj v) \<and> set (elt adj v) = ?N v \<and> elt deg v = int (card (?N v))"
      unfolding LL
    proof
      fix v assume v: "v \<in> ?L - {p}"
      show "sorted_wrt (<) (elt adj v) \<and> set (elt adj v) = ?N v \<and> elt deg v = int (card (?N v))"
      proof (cases "v \<in> ?H p")
        case True
        then show ?thesis using ad(2) v reach [of v] by simp
      next
        case False
        then have "?N v = ?H v" using v by (simp add: eliminate_def)
        then show ?thesis using ad(2) v reach [of v] False I(9) [of v] by simp
      qed
    qed
  qed (use E in simp_all)
  moreover have "vset ?el p True = Some ?E" "vget ?adj p = Some (elt ?adj p)" "vset ?adj p [] = Some ?A0"
    using p I by (simp_all add: vget_at vset_def)
  ultimately show ?thesis
    unfolding md_step_def using p(1,2) nb(1) ad(1) by (simp del: ok_vget ok_vset)
qed


section \<open>The ordering\<close>

lemma md_init_ok:
  assumes "csr_graph n xadj adjncy G" "0 \<le> n"
  shows "ok (md_init n xadj adjncy) (\<lambda>(adj, deg). int (length adj) = n \<and> int (length deg) = n
    \<and> (\<forall>v. 0 \<le> v \<and> v < n \<longrightarrow> elt adj v = segment adjncy (elt xadj v) (elt xadj (v + 1)) \<and> elt deg v = elt xadj (v + 1) - elt xadj v))"
  unfolding md_init_def
proof (rule for_range_ok [where I = "\<lambda>i (adj, deg). int (length adj) = n \<and> int (length deg) = n
    \<and> (\<forall>v. 0 \<le> v \<and> v < i \<longrightarrow> elt adj v = segment adjncy (elt xadj v) (elt xadj (v + 1)) \<and> elt deg v = elt xadj (v + 1) - elt xadj v)"],
    goal_cases)
  case 1
  then show ?case using assms(2) by auto
next
  case (2 i s)
  have g: "vget xadj i = Some (elt xadj i)" "vget xadj (i + 1) = Some (elt xadj (i + 1))"
    "0 \<le> elt xadj i \<and> elt xadj i \<le> elt xadj (i + 1) \<and> elt xadj (i + 1) \<le> int (length adjncy)"
    using assms(1) 2 by (auto simp: csr_graph_def vget_at)
  obtain adj deg where s: "s = (adj, deg)" by (cases s)
  have upd: "elt (adj[nat i := x]) v = (if v = i then x else elt adj v)" "elt (deg[nat i := y]) v = (if v = i then y else elt deg v)"
    if "0 \<le> v" for v x y using at_update [of v i adj x] at_update [of v i deg y] that 2 s by simp_all
  show ?case
    using 2 g upd by (simp add: s del: ok_vget)
next
  case (3 s)
  then show ?case using assms(2) by (cases s) simp
qed

lemma fallback_ok:
  assumes g: "csr_graph n xadj adjncy G" and n: "0 \<le> n"
  shows "ok (fallback_minimum_degree_ordering n xadj adjncy)
    (\<lambda>perm. distinct perm \<and> set perm = {0..<n} \<and> min_degree_order {0..<n} G perm)"
proof -
  have perm_set: "set ps = {0..<n}" if "distinct ps" "set ps \<subseteq> {0..<n}" "int (length ps) = n" for ps
  proof (rule card_subset_eq)
    show "card (set ps) = card {0..<n}" using that distinct_card by fastforce
  qed (use that in simp_all)
  consider "n = 0" | "n \<noteq> 0" "adjncy = []" | "n \<noteq> 0" "adjncy \<noteq> []" by blast
  then show ?thesis
  proof cases
    case 1
    then show ?thesis by (simp add: fallback_minimum_degree_ordering_def)
  next
    case 2
    have none: "G u = {}" for u
    proof (cases "0 \<le> u \<and> u < n")
      case True
      then show ?thesis using g 2 by (auto simp: csr_graph_def segment_def)
    next
      case False
      then show ?thesis using g unfolding csr_graph_def graph_on_def by fastforce
    qed
    have "min_degree_order (set ps) G ps" if "sorted_wrt (<) ps" for ps
      using that
    proof (induction ps)
      case (Cons p ps)
      have "eliminate p G = G" using none by (auto simp: eliminate_def fun_eq_iff)
      moreover have "set (p # ps) - {p} = set ps" using Cons.prems by auto
      moreover have "min_degree (set (p # ps)) G p" using Cons.prems none by (auto simp: min_degree_def)
      ultimately show ?case using Cons by (simp only: min_degree_order.simps sorted_wrt.simps simp_thms)
    qed simp
    from this [of "[0..n - 1]"] have "min_degree_order (set [0..n - 1]) G [0..n - 1]" by simp
    moreover have "set [0..n - 1] = {0..<n}" by auto
    moreover have "fallback_minimum_degree_ordering n xadj adjncy = Some [0..n - 1]"
      using 2 n by (simp add: fallback_minimum_degree_ordering_def)
    ultimately show ?thesis by (simp only: ok_Some distinct_upto simp_thms)
  next
    case 3
    obtain adj deg where a: "md_init n xadj adjncy = Some (adj, deg)" "int (length adj) = n" "int (length deg) = n"
      "\<And>v. 0 \<le> v \<Longrightarrow> v < n \<Longrightarrow> elt adj v = segment adjncy (elt xadj v) (elt xadj (v + 1)) \<and> elt deg v = elt xadj (v + 1) - elt xadj v"
      using ok_ex [OF md_init_ok [OF g n]] by auto
    let ?st = "\<lparr>md_adj = adj, md_elim = replicate (nat n) False, md_deg = deg, md_perm = []\<rparr>"
    have start: "md_inv n G ?st"
      unfolding md_inv_def Let_def md_state.simps fold.simps id_apply
    proof (intro conjI)
      show "graph_on ({0..<n} - set []) G" using g by (simp add: csr_graph_def)
      show "\<forall>v. 0 \<le> v \<and> v < n \<longrightarrow> (elt (replicate (nat n) False) v \<longleftrightarrow> v \<in> set [])" by (simp add: elt_def nat_less_iff)
      show "\<forall>v \<in> {0..<n} - set []. sorted_wrt (<) (elt adj v) \<and> set (elt adj v) = G v \<and> elt deg v = int (card (G v))"
      proof
        fix v assume "v \<in> {0..<n} - set []"
        then have v: "0 \<le> v" "v < n" by auto
        let ?s = "segment adjncy (elt xadj v) (elt xadj (v + 1))"
        have s: "sorted_wrt (<) ?s" "set ?s = G v" "0 \<le> elt xadj v" "elt xadj v \<le> elt xadj (v + 1)" "elt xadj (v + 1) \<le> int (length adjncy)"
          using g v by (auto simp: csr_graph_def)
        have "int (length ?s) = elt xadj (v + 1) - elt xadj v" using s(3-5) by (simp add: segment_def)
        moreover have "length ?s = card (G v)" using distinct_card [OF strict_distinct [OF s(1)]] s(2) by simp
        ultimately show "sorted_wrt (<) (elt adj v) \<and> set (elt adj v) = G v \<and> elt deg v = int (card (G v))"
          using a(4) [OF v] s(1,2) by simp
      qed
    qed (use a n in simp_all)
    have "ok (for_brk 0 n (\<lambda>_. md_step n) ?st) (\<lambda>r. \<exists>st. r = Inr st \<and> md_inv n G st \<and> int (length (md_perm st)) = n)"
    proof (rule for_brk_ok [where I = "\<lambda>k st. md_inv n G st \<and> int (length (md_perm st)) = k"])
      show "md_inv n G ?st \<and> int (length (md_perm ?st)) = 0" using start by simp
    next
      fix k st assume k: "0 \<le> k" "k < n" and i: "md_inv n G st \<and> int (length (md_perm st)) = k"
      show "ok (md_step n st) (\<lambda>r. case r of Inl a \<Rightarrow> \<exists>st. Inl a = Inr st \<and> md_inv n G st \<and> int (length (md_perm st)) = n
          | Inr st \<Rightarrow> md_inv n G st \<and> int (length (md_perm st)) = k + 1)"
        by (rule ok_mono [OF md_step_ok]) (use i k in auto)
    qed (use n in auto)
    then obtain st where st: "for_brk 0 n (\<lambda>_. md_step n) ?st = Some (Inr st)" "md_inv n G st" "int (length (md_perm st)) = n"
      by (auto simp: ok_def)
    have "distinct (md_perm st)" "set (md_perm st) \<subseteq> {0..<n}" "min_degree_order {0..<n} G (md_perm st)"
      using st(2) by (simp_all add: md_inv_def Let_def)
    moreover have "fallback_minimum_degree_ordering n xadj adjncy = Some (md_perm st)"
      using 3 n g a(1) st(1) by (simp add: fallback_minimum_degree_ordering_def csr_graph_def)
    ultimately show ?thesis using perm_set st(3) by simp
  qed
qed

section \<open>Properties\<close>

text \<open>C14: on the symmetric graph of a matrix \<open>fallback_minimum_degree_ordering\<close> returns a permutation of
  the vertices, stays inside its arrays, keeps every list sorted for its binary searches, and is an exact
  minimum-degree order: every pivot is the first vertex of least degree in the graph left by eliminating
  the pivots before it.\<close>

theorem fallback_minimum_degree_correct:
  assumes "csr_graph n xadj adjncy G" "0 \<le> n"
  shows "\<exists>perm. fallback_minimum_degree_ordering n xadj adjncy = Some perm
    \<and> distinct perm \<and> set perm = {0..<n} \<and> min_degree_order {0..<n} G perm"
  by (rule ok_ex [OF fallback_ok [OF assms]])

definition path_graph :: graph where
  "path_graph v = (if v = 0 then {1} else if v = 1 then {0, 2} else if v = 2 then {1, 3} else if v = 3 then {2} else {})"

theorem fallback_minimum_degree_correct_witness:
  "\<exists>perm. fallback_minimum_degree_ordering 4 [0, 1, 3, 5, 6] [1, 0, 2, 1, 3, 2] = Some perm
    \<and> min_degree_order {0..<4} path_graph perm \<and> perm = [0, 1, 2, 3]"
proof -
  have "graph_on {0..<4} path_graph" by (auto simp: graph_on_def path_graph_def split: if_splits)
  then have g: "csr_graph 4 [0, 1, 3, 5, 6] [1, 0, 2, 1, 3, 2] path_graph"
    unfolding csr_graph_def all_int_set by (auto simp: upto_rec1 segment_def elt_def path_graph_def)
  obtain perm where p: "fallback_minimum_degree_ordering 4 [0, 1, 3, 5, 6] [1, 0, 2, 1, 3, 2] = Some perm"
    "min_degree_order {0..<4} path_graph perm"
    using fallback_minimum_degree_correct [OF g] by auto
  moreover have "fallback_minimum_degree_ordering 4 [0, 1, 3, 5, 6] [1, 0, 2, 1, 3, 2] = Some [0, 1, 2, 3]" by code_simp
  ultimately show ?thesis by simp
qed

end
