(* ===== verification/ColMajor.thy ===== *)
theory ColMajor
  imports SmfTypes
begin

text \<open>
  Dense column-major arrays as the kernels address them: entry \<open>(i, j)\<close> is \<open>A[i + j * lda]\<close>, the offset computed in \<open>int\<close>
  (an overflow is undefined: \<open>None\<close>) and the bounds of the array checked (\<open>FrontalMatrix::at\<close> is the case
  \<open>lda = front_size()\<close>). \<open>cm\<close> relates an array to the matrix it holds, and says that the offsets of the matrix fit in \<open>int\<close>;
  the storage limit \<open>kMaxFactorStorageEntries\<close> of \<open>2 ^ 29\<close> entries keeps every front below that. The rules for one read, one write and one swap are all the kernels' proofs
  use. Values are of an ordered field: the arithmetic of the code without its rounding, where every
  number is finite, so the code's tests \<open>std::isfinite\<close> hold.
\<close>

definition offset32 :: "int \<Rightarrow> int \<Rightarrow> int \<Rightarrow> int option" where
  "offset32 lda i j = (let c = j * lda in if in_int32 c then iadd32 i c else None)"

definition mget :: "int \<Rightarrow> 'a list \<Rightarrow> int \<Rightarrow> int \<Rightarrow> 'a option" where
  "mget lda A i j = do { k \<leftarrow> offset32 lda i j; vget A k }"

definition mset_at :: "int \<Rightarrow> 'a list \<Rightarrow> int \<Rightarrow> int \<Rightarrow> 'a \<Rightarrow> 'a list option" where
  "mset_at lda A i j x = do { k \<leftarrow> offset32 lda i j; vset A k x }"

definition mswap :: "int \<Rightarrow> int \<Rightarrow> int \<Rightarrow> int \<Rightarrow> int \<Rightarrow> 'a list \<Rightarrow> 'a list option" where
  "mswap lda i j i' j' A = do {
     x \<leftarrow> mget lda A i j;
     y \<leftarrow> mget lda A i' j';
     A \<leftarrow> mset_at lda A i j y;
     mset_at lda A i' j' x
   }"

text \<open>\<open>cm lda rows cols A F\<close>: the array holds the matrix \<open>F\<close> of \<open>rows\<close> rows and \<open>cols\<close> columns, at offsets below \<open>2 ^ 31\<close>.\<close>

definition cm :: "int \<Rightarrow> int \<Rightarrow> int \<Rightarrow> 'a list \<Rightarrow> (int \<Rightarrow> int \<Rightarrow> 'a) \<Rightarrow> bool" where
  "cm lda rows cols A F \<longleftrightarrow> rows \<le> lda \<and> (\<forall>i j. 0 \<le> i \<and> i < rows \<and> 0 \<le> j \<and> j < cols \<longrightarrow>
     i + j * lda < int (length A) \<and> i + j * lda < 2 ^ 31 \<and> elt A (i + j * lda) = F i j)"

lemma index_inj:
  fixes i j lda :: int
  assumes "0 \<le> i" "i < lda" "0 \<le> i'" "i' < lda"
  shows "i + j * lda = i' + j' * lda \<longleftrightarrow> i = i' \<and> j = j'"
proof
  assume e: "i + j * lda = i' + j' * lda"
  have "(i + j * lda) mod lda = i" "(i' + j' * lda) mod lda = i'" using assms by simp_all
  then have "i = i'" using e by simp
  then show "i = i' \<and> j = j'" using e assms by simp
qed simp

lemma index_nonneg: "0 \<le> i \<Longrightarrow> i < lda \<Longrightarrow> 0 \<le> j \<Longrightarrow> 0 \<le> i + j * lda" for i j lda :: int
  by simp

lemma offset32_cm:
  assumes "0 \<le> i" "i < lda" "0 \<le> j" "i + j * lda < 2 ^ 31"
  shows "offset32 lda i j = Some (i + j * lda)"
proof -
  have c: "0 \<le> j * lda" using assms by simp
  have "in_int32 (j * lda)" "in_int32 (i + j * lda)" unfolding in_int32_def using c assms(1,4) by linarith+
  then show ?thesis by (simp add: offset32_def iadd32_def)
qed

lemma cm_get:
  assumes "cm lda rows cols A F" "0 \<le> i" "i < rows" "0 \<le> j" "j < cols"
  shows "mget lda A i j = Some (F i j)"
proof -
  have "i < lda" "i + j * lda < int (length A)" "i + j * lda < 2 ^ 31" "elt A (i + j * lda) = F i j" using assms by (auto simp: cm_def)
  then show ?thesis using assms index_nonneg [of i lda j] offset32_cm [of i lda j] by (simp add: mget_def vget_at)
qed

definition upd :: "(int \<Rightarrow> int \<Rightarrow> 'a) \<Rightarrow> int \<Rightarrow> int \<Rightarrow> 'a \<Rightarrow> int \<Rightarrow> int \<Rightarrow> 'a" where
  "upd F i j x = (\<lambda>a b. if a = i \<and> b = j then x else F a b)"

lemma cm_set:
  assumes "cm lda rows cols A F" "0 \<le> i" "i < rows" "0 \<le> j" "j < cols"
  shows "ok (mset_at lda A i j x) (\<lambda>A'. cm lda rows cols A' (upd F i j x))"
proof -
  have l: "i < lda" "rows \<le> lda" "i + j * lda < int (length A)" "i + j * lda < 2 ^ 31" using assms by (auto simp: cm_def)
  have k: "0 \<le> i + j * lda" using assms l(1) by (simp add: index_nonneg)
  have "cm lda rows cols (A[nat (i + j * lda) := x]) (upd F i j x)"
    unfolding cm_def
  proof (intro conjI allI impI)
    fix a b assume ab: "0 \<le> a \<and> a < rows \<and> 0 \<le> b \<and> b < cols"
    then have F: "a + b * lda < int (length A)" "elt A (a + b * lda) = F a b" "a + b * lda < 2 ^ 31" using assms(1) by (auto simp: cm_def)
    have al: "a < lda" using ab l(2) by simp
    show "a + b * lda < int (length (A[nat (i + j * lda) := x]))" "a + b * lda < 2 ^ 31" using F(1,3) by simp_all
    have "0 \<le> a + b * lda" using ab al by (simp add: index_nonneg)
    then show "elt (A[nat (i + j * lda) := x]) (a + b * lda) = upd F i j x a b"
      using at_update [of "a + b * lda" "i + j * lda" A x] k l(1,3) F(2) index_inj [of a lda i b j] ab al assms(2)
      by (simp add: upd_def)
  qed (rule l(2))
  then show ?thesis using k l(3) offset32_cm [OF assms(2) l(1) assms(4) l(4)] by (simp add: mset_at_def)
qed

lemma cm_cong:
  "cm lda rows cols A F \<Longrightarrow> (\<And>i j. 0 \<le> i \<Longrightarrow> i < rows \<Longrightarrow> 0 \<le> j \<Longrightarrow> j < cols \<Longrightarrow> F i j = G i j) \<Longrightarrow> cm lda rows cols A G"
  by (simp add: cm_def)

lemma cm_swap:
  assumes c: "cm lda rows cols A F" and i: "0 \<le> i" "i < rows" "0 \<le> j" "j < cols" "0 \<le> i'" "i' < rows" "0 \<le> j'" "j' < cols"
  shows "ok (mswap lda i j i' j' A) (\<lambda>A'. cm lda rows cols A' (upd (upd F i j (F i' j')) i' j' (F i j)))"
proof -
  obtain A1 where a: "mset_at lda A i j (F i' j') = Some A1" "cm lda rows cols A1 (upd F i j (F i' j'))"
    using ok_ex [OF cm_set [OF c i(1-4)]] by blast
  show ?thesis
    using cm_set [OF a(2) i(5-8), of "F i j"] by (simp add: mswap_def cm_get [OF c] i a(1))
qed

text \<open>A loop that overwrites one entry per iteration, the value given by the entries it leaves alone.\<close>

lemma cm_for_col:
  assumes c: "cm lda rows cols A F"
    and step: "\<And>i A'. lo \<le> i \<Longrightarrow> i < hi \<Longrightarrow>
        cm lda rows cols A' (\<lambda>a b. if b = j \<and> lo \<le> a \<and> a < i then g a else F a b) \<Longrightarrow>
        ok (f i A') (\<lambda>A''. cm lda rows cols A'' (upd (\<lambda>a b. if b = j \<and> lo \<le> a \<and> a < i then g a else F a b) i j (g i)))"
  shows "ok (for_range lo hi f A) (\<lambda>A'. cm lda rows cols A' (\<lambda>a b. if b = j \<and> lo \<le> a \<and> a < hi then g a else F a b))"
proof (rule for_range_ok [where I = "\<lambda>i A'. cm lda rows cols A' (\<lambda>a b. if b = j \<and> lo \<le> a \<and> a < i then g a else F a b)"])
  show "cm lda rows cols A (\<lambda>a b. if b = j \<and> lo \<le> a \<and> a < lo then g a else F a b)"
    by (rule cm_cong [OF c]) auto
next
  fix i A' assume i: "lo \<le> i" "i < hi" and I: "cm lda rows cols A' (\<lambda>a b. if b = j \<and> lo \<le> a \<and> a < i then g a else F a b)"
  show "ok (f i A') (\<lambda>A''. cm lda rows cols A'' (\<lambda>a b. if b = j \<and> lo \<le> a \<and> a < i + 1 then g a else F a b))"
    by (rule ok_mono [OF step [OF i I]], erule cm_cong) (use i in \<open>auto simp: upd_def\<close>)
next
  fix A' assume "cm lda rows cols A' (\<lambda>a b. if b = j \<and> lo \<le> a \<and> a < max lo hi then g a else F a b)"
  then show "cm lda rows cols A' (\<lambda>a b. if b = j \<and> lo \<le> a \<and> a < hi then g a else F a b)"
    by (rule cm_cong) (auto simp: max_def)
qed

text \<open>A loop over columns, each iteration rewriting column \<open>j\<close>.\<close>

lemma cm_for_cols:
  assumes c: "cm lda rows cols A F"
    and step: "\<And>j A'. lo \<le> j \<Longrightarrow> j < hi \<Longrightarrow>
        cm lda rows cols A' (\<lambda>a b. if lo \<le> b \<and> b < j then g a b else F a b) \<Longrightarrow>
        ok (f j A') (\<lambda>A''. cm lda rows cols A'' (\<lambda>a b. if lo \<le> b \<and> b < j + 1 then g a b else F a b))"
  shows "ok (for_range lo hi f A) (\<lambda>A'. cm lda rows cols A' (\<lambda>a b. if lo \<le> b \<and> b < hi then g a b else F a b))"
proof (rule for_range_ok [where I = "\<lambda>j A'. cm lda rows cols A' (\<lambda>a b. if lo \<le> b \<and> b < j then g a b else F a b)"])
  show "cm lda rows cols A (\<lambda>a b. if lo \<le> b \<and> b < lo then g a b else F a b)"
    by (rule cm_cong [OF c]) auto
next
  fix A' assume "cm lda rows cols A' (\<lambda>a b. if lo \<le> b \<and> b < max lo hi then g a b else F a b)"
  then show "cm lda rows cols A' (\<lambda>a b. if lo \<le> b \<and> b < hi then g a b else F a b)"
    by (rule cm_cong) (auto simp: max_def)
qed (rule step)

text \<open>The symmetric matrix a lower triangle stands for, and a transposition of its indices.\<close>

definition sy :: "(int \<Rightarrow> int \<Rightarrow> 'a) \<Rightarrow> int \<Rightarrow> int \<Rightarrow> 'a" where
  "sy F a b = (if b \<le> a then F a b else F b a)"

lemma sy_sym: "sy F a b = sy F b a"
  by (auto simp: sy_def)

definition swp :: "int \<Rightarrow> int \<Rightarrow> int \<Rightarrow> int" where
  "swp p q a = (if a = p then q else if a = q then p else a)"

lemma swp_commute: "swp p q a = swp q p a"
  by (simp add: swp_def)

text \<open>The four stretches of a symmetric exchange of \<open>p < q\<close> in a lower triangle.\<close>

definition swap_ghost :: "int \<Rightarrow> int \<Rightarrow> (int \<Rightarrow> int \<Rightarrow> 'a) \<Rightarrow> int \<Rightarrow> int \<Rightarrow> 'a" where
  "swap_ghost p q F a b = (if b \<le> a then sy F (swp p q a) (swp p q b) else F a b)"


definition swap_rest :: "int \<Rightarrow> int \<Rightarrow> int \<Rightarrow> int \<Rightarrow> int \<Rightarrow> 'a list \<Rightarrow> 'a list option" where
  "swap_rest lda p q lo hi = for_range lo hi (\<lambda>m. mswap lda m p m q)"

definition swap_low :: "int \<Rightarrow> int \<Rightarrow> int \<Rightarrow> 'a list \<Rightarrow> 'a list option" where
  "swap_low lda p q A = do {
     A \<leftarrow> mswap lda p p q q A;
     A \<leftarrow> for_range 0 p (\<lambda>m. mswap lda p m q m) A;
     for_range (p + 1) q (\<lambda>m. mswap lda m p q m) A
   }"

definition half :: "(int \<Rightarrow> int \<Rightarrow> bool) \<Rightarrow> int \<Rightarrow> int \<Rightarrow> (int \<Rightarrow> int \<Rightarrow> 'a) \<Rightarrow> int \<Rightarrow> int \<Rightarrow> 'a" where
  "half S p q F a b = (if S a b then swap_ghost p q F a b else F a b)"

lemma half_swap:
  assumes c: "cm lda rows cols A (half S p q F)"
    and i: "0 \<le> i" "i < rows" "0 \<le> j" "j < cols" "0 \<le> i'" "i' < rows" "0 \<le> j'" "j' < cols"
    and new: "\<not> S i j" "\<not> S i' j'" "(i, j) \<noteq> (i', j')"
    and W: "swap_ghost p q F i j = F i' j'" "swap_ghost p q F i' j' = F i j"
    and S': "\<And>a b. 0 \<le> a \<Longrightarrow> 0 \<le> b \<Longrightarrow> S' a b \<longleftrightarrow> S a b \<or> (a = i \<and> b = j) \<or> (a = i' \<and> b = j')"
  shows "ok (mswap lda i j i' j' A) (\<lambda>A'. cm lda rows cols A' (half S' p q F))"
  by (rule ok_mono [OF cm_swap [OF c i]], erule cm_cong)
    (use new W in \<open>auto simp: upd_def half_def S'\<close>)

definition low_done :: "int \<Rightarrow> int \<Rightarrow> int \<Rightarrow> int \<Rightarrow> bool" where
  "low_done p q a b \<longleftrightarrow> (a = p \<and> b = p) \<or> (a = q \<and> b = q) \<or> ((a = p \<or> a = q) \<and> b < p)
     \<or> (b = p \<and> p < a \<and> a < q) \<or> (a = q \<and> p < b \<and> b < q)"

lemma swap_low_ok:
  assumes c: "cm lda rows cols A F" and p: "0 \<le> p" "p < q" "q < rows" "q < cols"
  shows "ok (swap_low lda p q A) (\<lambda>A'. cm lda rows cols A' (half (low_done p q) p q F))"
proof -
  have "cm lda rows cols A (half (\<lambda>_ _. False) p q F)" by (rule cm_cong [OF c]) (simp add: half_def)
  then have "ok (mswap lda p p q q A) (\<lambda>A'. cm lda rows cols A' (half (\<lambda>a b. (a = p \<and> b = p) \<or> (a = q \<and> b = q)) p q F))"
    by (rule half_swap) (use p in \<open>auto simp: swap_ghost_def swp_def sy_def\<close>)
  then obtain A1 where a1: "mswap lda p p q q A = Some A1"
    "cm lda rows cols A1 (half (\<lambda>a b. (a = p \<and> b = p) \<or> (a = q \<and> b = q)) p q F)" by (auto simp: ok_def)
  let ?S1 = "\<lambda>m a b. (a = p \<and> b = p) \<or> (a = q \<and> b = q) \<or> ((a = p \<or> a = q) \<and> 0 \<le> b \<and> b < m)"
  have "ok (for_range 0 p (\<lambda>m. mswap lda p m q m) A1) (\<lambda>A'. cm lda rows cols A' (half (?S1 p) p q F))"
  proof (rule for_range_ok [where I = "\<lambda>m A'. cm lda rows cols A' (half (?S1 m) p q F)"])
    show "cm lda rows cols A1 (half (?S1 0) p q F)" by (rule cm_cong [OF a1(2)]) (simp add: half_def)
  next
    fix m A' assume m: "0 \<le> m" "m < p" and I: "cm lda rows cols A' (half (?S1 m) p q F)"
    show "ok (mswap lda p m q m A') (\<lambda>A'. cm lda rows cols A' (half (?S1 (m + 1)) p q F))"
      by (rule half_swap [OF I]) (use p m in \<open>auto simp: swap_ghost_def swp_def sy_def\<close>)
  qed (use p in simp)
  then obtain A2 where a2: "for_range 0 p (\<lambda>m. mswap lda p m q m) A1 = Some A2" "cm lda rows cols A2 (half (?S1 p) p q F)"
    by (auto simp: ok_def)
  let ?S2 = "\<lambda>m a b. ?S1 p a b \<or> (b = p \<and> p < a \<and> a < m) \<or> (a = q \<and> p < b \<and> b < m)"
  have "ok (for_range (p + 1) q (\<lambda>m. mswap lda m p q m) A2) (\<lambda>A'. cm lda rows cols A' (half (low_done p q) p q F))"
  proof (rule for_range_ok [where I = "\<lambda>m A'. cm lda rows cols A' (half (?S2 m) p q F)"])
    show "cm lda rows cols A2 (half (?S2 (p + 1)) p q F)" by (rule cm_cong [OF a2(2)]) (auto simp: half_def)
  next
    fix m A' assume m: "p + 1 \<le> m" "m < q" and I: "cm lda rows cols A' (half (?S2 m) p q F)"
    show "ok (mswap lda m p q m A') (\<lambda>A'. cm lda rows cols A' (half (?S2 (m + 1)) p q F))"
      by (rule half_swap [OF I]) (use p m in \<open>auto simp: swap_ghost_def swp_def sy_def\<close>)
  next
    fix A' assume I: "cm lda rows cols A' (half (?S2 (max (p + 1) q)) p q F)"
    have "max (p + 1) q = q" using p by simp
    then show "cm lda rows cols A' (half (low_done p q) p q F)"
      using I by (elim cm_cong) (simp add: half_def low_done_def)
  qed
  then show ?thesis by (simp add: swap_low_def a1(1) a2(1))
qed

lemma swap_rest_ok:
  assumes c: "cm lda rows cols A (half S p q F)" and p: "0 \<le> p" "p < q" "q < lo" "hi \<le> rows" "q < cols"
    and S: "\<And>m. lo \<le> m \<Longrightarrow> \<not> S m p \<and> \<not> S m q"
  shows "ok (swap_rest lda p q lo hi A) (\<lambda>A'. cm lda rows cols A'
    (half (\<lambda>a b. S a b \<or> ((b = p \<or> b = q) \<and> lo \<le> a \<and> a < hi)) p q F))"
  unfolding swap_rest_def
proof (rule for_range_ok [where I = "\<lambda>m A'. cm lda rows cols A' (half (\<lambda>a b. S a b \<or> ((b = p \<or> b = q) \<and> lo \<le> a \<and> a < m)) p q F)"])
  show "cm lda rows cols A (half (\<lambda>a b. S a b \<or> ((b = p \<or> b = q) \<and> lo \<le> a \<and> a < lo)) p q F)"
    by (rule cm_cong [OF c]) (auto simp: half_def)
next
  fix m A' assume m: "lo \<le> m" "m < hi" and I: "cm lda rows cols A' (half (\<lambda>a b. S a b \<or> ((b = p \<or> b = q) \<and> lo \<le> a \<and> a < m)) p q F)"
  show "ok (mswap lda m p m q A') (\<lambda>A'. cm lda rows cols A' (half (\<lambda>a b. S a b \<or> ((b = p \<or> b = q) \<and> lo \<le> a \<and> a < m + 1)) p q F))"
    by (rule half_swap [OF I]) (use p m S [OF m(1)] in \<open>auto simp: swap_ghost_def swp_def sy_def\<close>)
next
  fix A' assume "cm lda rows cols A' (half (\<lambda>a b. S a b \<or> ((b = p \<or> b = q) \<and> lo \<le> a \<and> a < max lo hi)) p q F)"
  then show "cm lda rows cols A' (half (\<lambda>a b. S a b \<or> ((b = p \<or> b = q) \<and> lo \<le> a \<and> a < hi)) p q F)"
    by (rule cm_cong) (auto simp: half_def max_def)
qed

text \<open>When every entry below the diagonal in rows or columns \<open>p\<close> and \<open>q\<close> is done, the exchange is complete.\<close>

lemma half_complete:
  assumes "cm lda rows cols A (half S p q F)" "p < q"
    and "\<And>a b. 0 \<le> b \<Longrightarrow> b \<le> a \<Longrightarrow> a < rows \<Longrightarrow> a = p \<or> a = q \<or> b = p \<or> b = q \<Longrightarrow> S a b \<or> (a = q \<and> b = p)"
    and "\<And>a b. S a b \<Longrightarrow> b \<le> a"
  shows "cm lda rows cols A (swap_ghost p q F)"
proof (rule cm_cong [OF assms(1)])
  fix a b assume ab: "0 \<le> a" "a < rows" "0 \<le> b" "b < cols"
  show "half S p q F a b = swap_ghost p q F a b"
    using assms(2) assms(3) [of b a] assms(4) [of a b] ab
    by (auto simp: half_def swap_ghost_def swp_def sy_def)
qed

end
