(* ===== verification/Pivoting.thy ===== *)
theory Pivoting
  imports ColMajor
begin

text \<open>
  Threshold pivoting on a front (\<open>pivoting.cpp\<close>): the scaled 2x2 solve, the symmetric exchange, the choice of
  the next pivot and the two elimination steps, on the column-major array of a front with \<open>f\<close> rows
  whose first \<open>num_fs\<close> columns are fully summed. Arithmetic is that of an ordered field.
\<close>

section \<open>The code\<close>

definition max3_abs :: "'a::linordered_field \<Rightarrow> 'a \<Rightarrow> 'a \<Rightarrow> 'a" where
  "max3_abs a b c = (let m = \<bar>a\<bar>; m = (if m < \<bar>b\<bar> then \<bar>b\<bar> else m) in if m < \<bar>c\<bar> then \<bar>c\<bar> else m)"

text \<open>The determinant of the block divided by its largest entry, and that entry (\<open>scale_out\<close>).\<close>

definition scaled_det_2x2 :: "'a::linordered_field \<Rightarrow> 'a \<Rightarrow> 'a \<Rightarrow> 'a \<times> 'a" where
  "scaled_det_2x2 d00 d10 d11 = (let s = max3_abs d00 d10 d11 in
     if s = 0 then (0, s) else (let a = d00 / s; b = d10 / s; c = d11 / s in (a * c - b * b, s)))"

definition solve_2x2_scaled :: "'a::linordered_field \<Rightarrow> 'a \<Rightarrow> 'a \<Rightarrow> 'a \<Rightarrow> 'a \<Rightarrow> bool \<times> 'a \<times> 'a" where
  "solve_2x2_scaled d00 d10 d11 rhs0 rhs1 = (let (det_s, s) = scaled_det_2x2 d00 d10 d11 in
     if s = 0 \<or> det_s = 0 then (False, 0, 0)
     else let rhs_scale = max \<bar>rhs0\<bar> \<bar>rhs1\<bar> in
       if rhs_scale = 0 then (True, 0, 0)
       else let a = d00 / s; b = d10 / s; c = d11 / s; r0 = rhs0 / rhs_scale; r1 = rhs1 / rhs_scale;
         u0 = (c * r0 - b * r1) / det_s; u1 = (- b * r0 + a * r1) / det_s; ratio = rhs_scale / s
       in (True, u0 * ratio, u1 * ratio))"

definition sym_swap_front :: "int \<Rightarrow> 'a list \<Rightarrow> int \<Rightarrow> int \<Rightarrow> int \<Rightarrow> 'a list option" where
  "sym_swap_front f A p q num_fs =
     (if p = q then Some A
      else let (p, q) = (if p > q then (q, p) else (p, q)) in do {
        A \<leftarrow> swap_low f p q A;
        A \<leftarrow> swap_rest f p q (q + 1) num_fs A;
        swap_rest f p q num_fs f A
      })"

datatype pivot_decision = Accept1x1 | Accept2x2 | Reject

type_synonym pivot_result = "pivot_decision \<times> int \<times> int"

text \<open>The greatest magnitude the loop meets, from \<open>m\<close> on.\<close>

definition max_abs_loop :: "int \<Rightarrow> int \<Rightarrow> (int \<Rightarrow> 'a::linordered_field option) \<Rightarrow> 'a \<Rightarrow> 'a option" where
  "max_abs_loop lo hi g = for_range lo hi (\<lambda>i m. do { x \<leftarrow> g i; let v = \<bar>x\<bar>; Some (if v > m then v else m) })"

definition front_max_abs :: "int \<Rightarrow> 'a::linordered_field list \<Rightarrow> int \<Rightarrow> int \<Rightarrow> 'a option" where
  "front_max_abs f A k num_fs = for_range k num_fs (\<lambda>j m. max_abs_loop j f (\<lambda>i. mget f A i j) m) 0"

text \<open>The entry of row \<open>i\<close> and column \<open>r\<close> of the symmetric matrix, read from the lower triangle.\<close>

definition at_sym :: "int \<Rightarrow> 'a list \<Rightarrow> int \<Rightarrow> int \<Rightarrow> 'a option" where
  "at_sym f A r i = (if i < r then mget f A r i else mget f A i r)"

definition two_by_two_ok :: "int \<Rightarrow> 'a::linordered_field list \<Rightarrow> int \<Rightarrow> int \<Rightarrow> int \<Rightarrow> 'a \<Rightarrow> 'a \<Rightarrow> 'a \<Rightarrow> bool option" where
  "two_by_two_ok f A k r num_fs u small eff_small = do {
     d00 \<leftarrow> mget f A k k;
     d10 \<leftarrow> mget f A r k;
     d11 \<leftarrow> mget f A r r;
     let (det_s, s2) = scaled_det_2x2 d00 d10 d11;
     if s2 < eff_small \<or> \<bar>det_s\<bar> \<le> small then Some False
     else do {
       (off_k, off_r) \<leftarrow> for_range k f (\<lambda>i (off_k, off_r).
         if i = k \<or> i = r then Some (off_k, off_r)
         else do {
           xk \<leftarrow> (if i < num_fs then at_sym f A k i else mget f A i k);
           xr \<leftarrow> (if i < num_fs then at_sym f A r i else mget f A i r);
           let vk = \<bar>xk\<bar>;
           let vr = \<bar>xr\<bar>;
           Some (if vk > off_k then vk else off_k, if vr > off_r then vr else off_r)
         }) (0, 0);
       if off_k > 0 \<or> off_r > 0 then do {
         let a = \<bar>d00\<bar> / s2;
         let b = \<bar>d10\<bar> / s2;
         let c = \<bar>d11\<bar> / s2;
         let bound0 = (c * off_k + b * off_r) / s2;
         let bound1 = (b * off_k + a * off_r) / s2;
         Some (\<not> u * max bound0 bound1 > \<bar>det_s\<bar>)
       } else Some True
     }
   }"

definition choose_pivot :: "int \<Rightarrow> 'a::linordered_field list \<Rightarrow> int \<Rightarrow> int \<Rightarrow> 'a \<Rightarrow> 'a \<Rightarrow> pivot_result option" where
  "choose_pivot f A k num_fs u small =
     (if k < 0 \<or> k \<ge> num_fs then Some (Reject, -1, -1)
      else do {
        fmax \<leftarrow> front_max_abs f A k num_fs;
        let eff_small = (if fmax > 0 \<and> fmax < small then small * fmax else small);
        (omega1, r) \<leftarrow> for_range (k + 1) num_fs (\<lambda>i (omega1, r). do {
          x \<leftarrow> mget f A i k;
          let v = \<bar>x\<bar>;
          Some (if v > omega1 then (v, i) else (omega1, r))
        }) (0, k + 1);
        omega1_ext \<leftarrow> max_abs_loop num_fs f (\<lambda>i. mget f A i k) 0;
        let omega1_full = max omega1 omega1_ext;
        dk \<leftarrow> mget f A k k;
        let akk = \<bar>dk\<bar>;
        if omega1 = 0 \<or> k + 1 \<ge> num_fs then
          Some (if akk < eff_small \<or> (omega1_full > 0 \<and> akk < u * omega1_full) then (Reject, -1, -1) else (Accept1x1, k, -1))
        else if akk \<ge> eff_small \<and> akk \<ge> u * omega1_full then Some (Accept1x1, k, -1)
        else do {
          omega2 \<leftarrow> for_range k num_fs (\<lambda>i m.
            if i = r then Some m
            else do { x \<leftarrow> at_sym f A r i; let v = \<bar>x\<bar>; Some (if v > m then v else m) }) 0;
          omega2 \<leftarrow> max_abs_loop num_fs f (\<lambda>i. mget f A i r) omega2;
          two \<leftarrow> two_by_two_ok f A k r num_fs u small eff_small;
          if two then Some (Accept2x2, k, r)
          else do {
            dr \<leftarrow> mget f A r r;
            let arr = \<bar>dr\<bar>;
            Some (if arr \<ge> eff_small \<and> arr \<ge> u * omega2 then (Accept1x1, r, -1) else (Reject, -1, -1))
          }
        }
      })"

definition form_column :: "int \<Rightarrow> int \<Rightarrow> int \<Rightarrow> 'a::linordered_field \<Rightarrow> 'a list \<Rightarrow> 'a list option" where
  "form_column lda k hi d = for_range (k + 1) hi (\<lambda>i A. do {
     x \<leftarrow> mget lda A i k;
     mset_at lda A i k (x / d)
   })"

definition schur_1x1 :: "int \<Rightarrow> int \<Rightarrow> int \<Rightarrow> int \<Rightarrow> 'a::linordered_field \<Rightarrow> 'a list \<Rightarrow> 'a list option" where
  "schur_1x1 lda k hi cols d = for_range (k + 1) cols (\<lambda>j A. do {
     ljk \<leftarrow> mget lda A j k;
     let w_jk = d * ljk;
     for_range j hi (\<lambda>i A. do {
       x \<leftarrow> mget lda A i j;
       lik \<leftarrow> mget lda A i k;
       mset_at lda A i j (x - lik * w_jk)
     }) A
   })"

definition apply_pivot_1x1 :: "int \<Rightarrow> 'a::linordered_field list \<Rightarrow> int \<Rightarrow> int \<Rightarrow> 'a list option" where
  "apply_pivot_1x1 f A k num_fs = do {
     d \<leftarrow> mget f A k k;
     A \<leftarrow> form_column f k f d A;
     schur_1x1 f k f num_fs d A
   }"

definition form_columns2 :: "int \<Rightarrow> int \<Rightarrow> int \<Rightarrow> 'a::linordered_field \<Rightarrow> 'a \<Rightarrow> 'a \<Rightarrow> 'a list \<Rightarrow> 'a list option" where
  "form_columns2 lda k hi d00 d10 d11 = for_range (k + 2) hi (\<lambda>i A. do {
     a0 \<leftarrow> mget lda A i k;
     a1 \<leftarrow> mget lda A i (k + 1);
     let (_, l0, l1) = solve_2x2_scaled d00 d10 d11 a0 a1;
     A \<leftarrow> mset_at lda A i k l0;
     mset_at lda A i (k + 1) l1
   })"

definition schur_2x2 :: "int \<Rightarrow> int \<Rightarrow> int \<Rightarrow> int \<Rightarrow> 'a::linordered_field \<Rightarrow> 'a \<Rightarrow> 'a \<Rightarrow> 'a list \<Rightarrow> 'a list option" where
  "schur_2x2 lda k hi cols d00 d10 d11 = for_range (k + 2) cols (\<lambda>j A. do {
     lj0 \<leftarrow> mget lda A j k;
     lj1 \<leftarrow> mget lda A j (k + 1);
     let wj0 = d00 * lj0 + d10 * lj1;
     let wj1 = d10 * lj0 + d11 * lj1;
     for_range j hi (\<lambda>i A. do {
       li0 \<leftarrow> mget lda A i k;
       li1 \<leftarrow> mget lda A i (k + 1);
       x \<leftarrow> mget lda A i j;
       mset_at lda A i j (x - (li0 * wj0 + li1 * wj1))
     }) A
   })"

definition apply_pivot_2x2 :: "int \<Rightarrow> 'a::linordered_field list \<Rightarrow> int \<Rightarrow> int \<Rightarrow> 'a \<Rightarrow> 'a list option" where
  "apply_pivot_2x2 f A k num_fs small = do {
     d00 \<leftarrow> mget f A k k;
     d10 \<leftarrow> mget f A (k + 1) k;
     d11 \<leftarrow> mget f A (k + 1) (k + 1);
     let (det_s, s2) = scaled_det_2x2 d00 d10 d11;
     if s2 = 0 \<or> \<bar>det_s\<bar> \<le> small then Some A
     else do {
       A \<leftarrow> form_columns2 f k f d00 d10 d11 A;
       schur_2x2 f k f num_fs d00 d10 d11 A
     }
   }"

section \<open>The 2x2 block\<close>

lemma max3_abs_eq: "max3_abs a b c = max (max \<bar>a\<bar> \<bar>b\<bar>) \<bar>c\<bar>"
  by (simp add: max3_abs_def max_def Let_def)

lemma scaled_det_eq:
  assumes "s \<noteq> 0" "scaled_det_2x2 d00 d10 d11 = (det_s, s)"
  shows "0 < s" "det_s * s ^ 2 = d00 * d11 - d10 ^ 2" "\<bar>d00\<bar> \<le> s" "\<bar>d10\<bar> \<le> s" "\<bar>d11\<bar> \<le> s"
proof -
  have s: "s = max3_abs d00 d10 d11" using assms(2) by (auto simp: scaled_det_2x2_def Let_def split: if_splits)
  show "0 < s" using assms(1) unfolding s max3_abs_eq by (auto simp: max_def split: if_splits)
  show "\<bar>d00\<bar> \<le> s" "\<bar>d10\<bar> \<le> s" "\<bar>d11\<bar> \<le> s" unfolding s max3_abs_eq by (simp_all add: le_max_iff_disj)
  have "det_s = (d00 / s) * (d11 / s) - (d10 / s) * (d10 / s)"
    using assms s by (simp add: scaled_det_2x2_def Let_def)
  then have "det_s = (d00 * d11 - d10 ^ 2) / s ^ 2" by (simp add: power2_eq_square diff_divide_distrib)
  then show "det_s * s ^ 2 = d00 * d11 - d10 ^ 2" using assms(1) by simp
qed

lemma scaled_det_scale_0: "scaled_det_2x2 d00 d10 d11 = (det_s, 0) \<Longrightarrow> d00 = 0 \<and> d10 = 0 \<and> d11 = 0"
  by (auto simp: scaled_det_2x2_def Let_def max3_abs_eq max_def split: if_splits)

lemma solve_2x2_ok:
  fixes d00 :: "'a::linordered_field"
  assumes "d00 * d11 - d10 ^ 2 \<noteq> 0" "solve_2x2_scaled d00 d10 d11 rhs0 rhs1 = (b, y0, y1)"
  shows "b" "d00 * y0 + d10 * y1 = rhs0" "d10 * y0 + d11 * y1 = rhs1"
    "(d00 * d11 - d10 ^ 2) * y0 = d11 * rhs0 - d10 * rhs1" "(d00 * d11 - d10 ^ 2) * y1 = d00 * rhs1 - d10 * rhs0"
proof -
  obtain det_s s where ds: "scaled_det_2x2 d00 d10 d11 = (det_s, s)" by (cases "scaled_det_2x2 d00 d10 d11")
  let ?det = "d00 * d11 - d10 ^ 2"
  have s: "s \<noteq> 0" using assms(1) scaled_det_scale_0 ds by fastforce
  have det: "det_s * s ^ 2 = ?det" by (rule scaled_det_eq [OF s ds])
  then have d: "det_s \<noteq> 0" using assms(1) by auto
  have r: "b \<and> y0 = (d11 * rhs0 - d10 * rhs1) / ?det \<and> y1 = (d00 * rhs1 - d10 * rhs0) / ?det"
  proof (cases "max \<bar>rhs0\<bar> \<bar>rhs1\<bar> = 0")
    case True
    then have z: "rhs0 = 0" "rhs1 = 0" by (auto simp: max_def split: if_splits)
    then show ?thesis using assms(2) ds s d by (simp add: solve_2x2_scaled_def)
  next
    case False
    let ?m = "max \<bar>rhs0\<bar> \<bar>rhs1\<bar>"
    have y: "b" "y0 = (d11 / s * (rhs0 / ?m) - d10 / s * (rhs1 / ?m)) / det_s * (?m / s)"
      "y1 = (- (d10 / s) * (rhs0 / ?m) + d00 / s * (rhs1 / ?m)) / det_s * (?m / s)"
      using assms(2) ds s d False by (simp_all add: solve_2x2_scaled_def Let_def)
    have g: "(x / s * (v / m) - y / s * (w / m)) / det_s * (m / s) = (x * v - y * w) / (det_s * s ^ 2)" if "m \<noteq> 0" for x y v w m
      using that s d by (simp add: field_simps power2_eq_square)
    show ?thesis using y g [OF False, of d11 rhs0 d10 rhs1] g [OF False, of d00 rhs1 d10 rhs0] unfolding det
      by (simp add: algebra_simps)
  qed
  then show "b" by simp
  show e: "?det * y0 = d11 * rhs0 - d10 * rhs1" "?det * y1 = d00 * rhs1 - d10 * rhs0" using r assms(1) by simp_all
  have "?det * (d00 * y0 + d10 * y1) = d00 * (?det * y0) + d10 * (?det * y1)" by (simp add: algebra_simps)
  also have "\<dots> = ?det * rhs0" unfolding e by (simp add: algebra_simps power2_eq_square)
  finally show "d00 * y0 + d10 * y1 = rhs0" using assms(1) by simp
  have "?det * (d10 * y0 + d11 * y1) = d10 * (?det * y0) + d11 * (?det * y1)" by (simp add: algebra_simps)
  also have "\<dots> = ?det * rhs1" unfolding e by (simp add: algebra_simps power2_eq_square)
  finally show "d10 * y0 + d11 * y1 = rhs1" using assms(1) by simp
qed


section \<open>The symmetric exchange\<close>

lemma swap_front_less:
  assumes c: "cm f f cols A F" and p: "0 \<le> p" "p < q" "q < n" "n \<le> f" "n \<le> cols"
  shows "ok (do { A \<leftarrow> swap_low f p q A; A \<leftarrow> swap_rest f p q (q + 1) n A; swap_rest f p q n f A })
    (\<lambda>A'. cm f f cols A' (swap_ghost p q F))"
proof -
  have pq: "q < f" "q < cols" using p by simp_all
  obtain A1 where a1: "swap_low f p q A = Some A1" "cm f f cols A1 (half (low_done p q) p q F)"
    using ok_ex [OF swap_low_ok [OF c p(1,2) pq]] by blast
  let ?S1 = "\<lambda>a b. low_done p q a b \<or> ((b = p \<or> b = q) \<and> q + 1 \<le> a \<and> a < n)"
  have "ok (swap_rest f p q (q + 1) n A1) (\<lambda>A'. cm f f cols A' (half ?S1 p q F))"
    by (rule swap_rest_ok [OF a1(2) p(1,2)]) (use pq p in \<open>auto simp: low_done_def\<close>)
  then obtain A2 where a2: "swap_rest f p q (q + 1) n A1 = Some A2" "cm f f cols A2 (half ?S1 p q F)"
    by (auto simp: ok_def)
  let ?S2 = "\<lambda>a b. ?S1 a b \<or> ((b = p \<or> b = q) \<and> n \<le> a \<and> a < f)"
  have rest: "ok (swap_rest f p q n f A2) (\<lambda>A'. cm f f cols A' (half ?S2 p q F))"
    by (rule swap_rest_ok [OF a2(2) p(1,2)]) (use pq p in \<open>auto simp: low_done_def\<close>)
  have all: "?S2 a b \<or> (a = q \<and> b = p)" if "0 \<le> b" "b \<le> a" "a < f" "a = p \<or> a = q \<or> b = p \<or> b = q" for a b
    using that p unfolding low_done_def by smt
  have low: "b \<le> a" if "?S2 a b" for a b
    using that p unfolding low_done_def by (elim disjE conjE) simp_all
  have "ok (swap_rest f p q n f A2) (\<lambda>A'. cm f f cols A' (swap_ghost p q F))"
    by (rule ok_mono [OF rest], rule half_complete [OF _ p(2)], assumption, rule all, assumption+, rule low)
  then show ?thesis by (simp add: a1(1) a2(1))
qed

lemma sym_swap_front_ok:
  assumes c: "cm f f cols A F" and p: "0 \<le> p" "p < num_fs" "0 \<le> q" "q < num_fs" "num_fs \<le> f" "num_fs \<le> cols"
  shows "ok (sym_swap_front f A p q num_fs) (\<lambda>A'. cm f f cols A' (if p = q then F else swap_ghost (min p q) (max p q) F))"
proof -
  consider "p = q" | "p < q" | "q < p" by linarith
  then show ?thesis
  proof cases
    case 1
    then show ?thesis using c by (simp add: sym_swap_front_def)
  next
    case 2
    then show ?thesis using swap_front_less [OF c p(1) 2 p(4-6)] by (simp add: sym_swap_front_def min_def max_def)
  next
    case 3
    then show ?thesis using swap_front_less [OF c p(3) 3 p(2,5,6)] by (simp add: sym_swap_front_def min_def max_def)
  qed
qed

section \<open>One elimination step\<close>

lemma form_column_ok:
  assumes c: "cm lda rows cols A F" and k: "0 \<le> k" "k < cols" "hi \<le> rows"
  shows "ok (form_column lda k hi d A) (\<lambda>A'. cm lda rows cols A' (\<lambda>a b. if b = k \<and> k + 1 \<le> a \<and> a < hi then F a k / d else F a b))"
  unfolding form_column_def
proof (rule cm_for_col [OF c])
  fix i A' assume i: "k + 1 \<le> i" "i < hi"
    and I: "cm lda rows cols A' (\<lambda>a b. if b = k \<and> k + 1 \<le> a \<and> a < i then F a k / d else F a b)"
  have r: "0 \<le> i" "i < rows" using i k by simp_all
  show "ok (do { x \<leftarrow> mget lda A' i k; mset_at lda A' i k (x / d) })
     (\<lambda>A''. cm lda rows cols A'' (upd (\<lambda>a b. if b = k \<and> k + 1 \<le> a \<and> a < i then F a k / d else F a b) i k (F i k / d)))"
    using cm_set [OF I r k(1,2)] cm_get [OF I r k(1,2)] by simp
qed

lemma schur_1x1_ok:
  assumes c: "cm lda rows cols A G" and k: "0 \<le> k" "k < cols" "n \<le> cols" "n \<le> hi" "hi \<le> rows"
  shows "ok (schur_1x1 lda k hi n d A)
    (\<lambda>A'. cm lda rows cols A' (\<lambda>a b. if k + 1 \<le> b \<and> b < n then (if b \<le> a \<and> a < hi then G a b - G a k * (d * G b k) else G a b) else G a b))"
  unfolding schur_1x1_def
proof (rule cm_for_cols [OF c])
  let ?g = "\<lambda>a b. if b \<le> a \<and> a < hi then G a b - G a k * (d * G b k) else G a b"
  fix j A' assume j: "k + 1 \<le> j" "j < n"
    and I: "cm lda rows cols A' (\<lambda>a b. if k + 1 \<le> b \<and> b < j then ?g a b else G a b)"
  have r: "0 \<le> j" "j < rows" "j < cols" using j k by simp_all
  have ljk: "mget lda A' j k = Some (G j k)" using cm_get [OF I r(1,2) k(1,2)] by simp
  let ?H = "\<lambda>a b. if k + 1 \<le> b \<and> b < j then ?g a b else G a b"
  have "ok (for_range j hi (\<lambda>i A. do {
       x \<leftarrow> mget lda A i j;
       lik \<leftarrow> mget lda A i k;
       mset_at lda A i j (x - lik * (d * G j k))
     }) A') (\<lambda>A''. cm lda rows cols A'' (\<lambda>a b. if b = j \<and> j \<le> a \<and> a < hi then G a j - G a k * (d * G j k) else ?H a b))"
  proof (rule cm_for_col [OF I])
    fix i A'' assume i: "j \<le> i" "i < hi"
      and I2: "cm lda rows cols A'' (\<lambda>a b. if b = j \<and> j \<le> a \<and> a < i then G a j - G a k * (d * G j k) else ?H a b)"
    have ri: "0 \<le> i" "i < rows" using i r k by simp_all
    have "mget lda A'' i j = Some (G i j)" "mget lda A'' i k = Some (G i k)"
      using cm_get [OF I2 ri r(1,3)] cm_get [OF I2 ri k(1,2)] j by simp_all
    then show "ok (do {
       x \<leftarrow> mget lda A'' i j;
       lik \<leftarrow> mget lda A'' i k;
       mset_at lda A'' i j (x - lik * (d * G j k))
     }) (\<lambda>A3. cm lda rows cols A3 (upd (\<lambda>a b. if b = j \<and> j \<le> a \<and> a < i then G a j - G a k * (d * G j k) else ?H a b) i j (G i j - G i k * (d * G j k))))"
      using cm_set [OF I2 ri r(1,3)] by simp
  qed
  then have "ok (for_range j hi (\<lambda>i A. do {
       x \<leftarrow> mget lda A i j;
       lik \<leftarrow> mget lda A i k;
       mset_at lda A i j (x - lik * (d * G j k))
     }) A') (\<lambda>A''. cm lda rows cols A'' (\<lambda>a b. if k + 1 \<le> b \<and> b < j + 1 then ?g a b else G a b))"
    by (rule ok_mono, elim cm_cong) (use j in auto)
  then show "ok (do {
     ljk \<leftarrow> mget lda A' j k;
     let w_jk = d * ljk;
     for_range j hi (\<lambda>i A. do {
       x \<leftarrow> mget lda A i j;
       lik \<leftarrow> mget lda A i k;
       mset_at lda A i j (x - lik * w_jk)
     }) A'
   }) (\<lambda>A''. cm lda rows cols A'' (\<lambda>a b. if k + 1 \<le> b \<and> b < j + 1 then ?g a b else G a b))"
    by (simp add: ljk Let_def)
qed

text \<open>After a 1x1 step with a nonzero pivot the column holds the multipliers and the rest the Schur complement.\<close>

definition elim1 :: "int \<Rightarrow> int \<Rightarrow> int \<Rightarrow> (int \<Rightarrow> int \<Rightarrow> 'a::field) \<Rightarrow> int \<Rightarrow> int \<Rightarrow> 'a" where
  "elim1 hi k n F a b =
     (if a < hi \<and> b = k \<and> k < a then F a k / F k k
      else if a < hi \<and> k < b \<and> b < n \<and> b \<le> a then F a b - F a k * F b k / F k k
      else F a b)"

lemma elim1_ok:
  assumes c: "cm lda rows cols A F" and k: "0 \<le> k" "k < n" "n \<le> cols" "n \<le> hi" "hi \<le> rows" and d: "F k k \<noteq> 0"
  shows "ok (do { A \<leftarrow> form_column lda k hi (F k k) A; schur_1x1 lda k hi n (F k k) A })
    (\<lambda>A'. cm lda rows cols A' (elim1 hi k n F))"
proof -
  let ?d = "F k k" let ?G = "\<lambda>a b. if b = k \<and> k + 1 \<le> a \<and> a < hi then F a k / ?d else F a b"
  have kc: "k < cols" using k by simp
  obtain A1 where a1: "form_column lda k hi ?d A = Some A1" "cm lda rows cols A1 ?G"
    using ok_ex [OF form_column_ok [OF c k(1) kc k(5), of ?d]] by blast
  have "ok (schur_1x1 lda k hi n ?d A1) (\<lambda>A'. cm lda rows cols A' (elim1 hi k n F))"
    by (rule ok_mono [OF schur_1x1_ok [OF a1(2) k(1) kc k(3-5)]], elim cm_cong) (use k d in \<open>auto simp: elim1_def\<close>)
  then show ?thesis by (simp add: a1(1))
qed

lemma apply_pivot_1x1_ok:
  assumes c: "cm f f cols A F" and k: "0 \<le> k" "k < num_fs" "num_fs \<le> cols" "num_fs \<le> f" and d: "F k k \<noteq> 0"
  shows "ok (apply_pivot_1x1 f A k num_fs) (\<lambda>A'. cm f f cols A' (elim1 f k num_fs F))"
proof -
  have "mget f A k k = Some (F k k)" using cm_get [OF c] k by simp
  then show ?thesis using elim1_ok [where F = F, OF c k _ d] by (simp add: apply_pivot_1x1_def)
qed


text \<open>A 2x2 step on columns \<open>k\<close> and \<open>k + 1\<close>: the multipliers of a row are its two entries times the inverse of the block.\<close>

definition inv2_0 :: "(int \<Rightarrow> int \<Rightarrow> 'a::field) \<Rightarrow> int \<Rightarrow> 'a \<Rightarrow> 'a \<Rightarrow> 'a" where
  "inv2_0 F k x y = (F (k + 1) (k + 1) * x - F (k + 1) k * y) / (F k k * F (k + 1) (k + 1) - F (k + 1) k ^ 2)"

definition inv2_1 :: "(int \<Rightarrow> int \<Rightarrow> 'a::field) \<Rightarrow> int \<Rightarrow> 'a \<Rightarrow> 'a \<Rightarrow> 'a" where
  "inv2_1 F k x y = (F k k * y - F (k + 1) k * x) / (F k k * F (k + 1) (k + 1) - F (k + 1) k ^ 2)"

definition elim2 :: "int \<Rightarrow> int \<Rightarrow> int \<Rightarrow> (int \<Rightarrow> int \<Rightarrow> 'a::field) \<Rightarrow> int \<Rightarrow> int \<Rightarrow> 'a" where
  "elim2 hi k n F a b =
     (if a < hi \<and> k + 1 < a \<and> b = k then inv2_0 F k (F a k) (F a (k + 1))
      else if a < hi \<and> k + 1 < a \<and> b = k + 1 then inv2_1 F k (F a k) (F a (k + 1))
      else if a < hi \<and> k + 1 < b \<and> b < n \<and> b \<le> a then
        F a b - (inv2_0 F k (F a k) (F a (k + 1)) * F b k + inv2_1 F k (F a k) (F a (k + 1)) * F b (k + 1))
      else F a b)"

lemma solve_2x2_eq:
  fixes F :: "int \<Rightarrow> int \<Rightarrow> 'a::linordered_field"
  assumes "F k k * F (k + 1) (k + 1) - F (k + 1) k ^ 2 \<noteq> 0"
  shows "\<exists>b. solve_2x2_scaled (F k k) (F (k + 1) k) (F (k + 1) (k + 1)) x y = (b, inv2_0 F k x y, inv2_1 F k x y)"
proof -
  obtain b l0 l1 where s: "solve_2x2_scaled (F k k) (F (k + 1) k) (F (k + 1) (k + 1)) x y = (b, l0, l1)"
    by (cases "solve_2x2_scaled (F k k) (F (k + 1) k) (F (k + 1) (k + 1)) x y") auto
  have "l0 = inv2_0 F k x y" "l1 = inv2_1 F k x y"
    unfolding inv2_0_def inv2_1_def eq_divide_eq using solve_2x2_ok(4,5) [OF assms s] assms by (simp_all add: mult.commute)
  then show ?thesis using s by simp
qed

lemma form_columns2_ok:
  fixes F :: "int \<Rightarrow> int \<Rightarrow> 'a::linordered_field"
  assumes c: "cm lda rows cols A F" and k: "0 \<le> k" "k + 1 < cols" "hi \<le> rows"
    and det: "F k k * F (k + 1) (k + 1) - F (k + 1) k ^ 2 \<noteq> 0"
  shows "ok (form_columns2 lda k hi (F k k) (F (k + 1) k) (F (k + 1) (k + 1)) A)
    (\<lambda>A'. cm lda rows cols A' (\<lambda>a b. if k + 2 \<le> a \<and> a < hi \<and> b = k then inv2_0 F k (F a k) (F a (k + 1))
      else if k + 2 \<le> a \<and> a < hi \<and> b = k + 1 then inv2_1 F k (F a k) (F a (k + 1)) else F a b))"
  unfolding form_columns2_def
proof (rule for_range_ok [where I = "\<lambda>i A'. cm lda rows cols A' (\<lambda>a b. if k + 2 \<le> a \<and> a < i \<and> b = k then inv2_0 F k (F a k) (F a (k + 1))
      else if k + 2 \<le> a \<and> a < i \<and> b = k + 1 then inv2_1 F k (F a k) (F a (k + 1)) else F a b)"])
  let ?G = "\<lambda>i a b. if k + 2 \<le> a \<and> a < i \<and> b = k then inv2_0 F k (F a k) (F a (k + 1))
      else if k + 2 \<le> a \<and> a < i \<and> b = k + 1 then inv2_1 F k (F a k) (F a (k + 1)) else F a b"
  show "cm lda rows cols A (?G (k + 2))" by (rule cm_cong [OF c]) auto
  fix i A' assume i: "k + 2 \<le> i" "i < hi" and I: "cm lda rows cols A' (?G i)"
  have r: "0 \<le> i" "i < rows" "0 \<le> k" "k < cols" "0 \<le> k + 1" "k + 1 < cols" using i k by simp_all
  have get: "mget lda A' i k = Some (F i k)" "mget lda A' i (k + 1) = Some (F i (k + 1))"
    using cm_get [OF I r(1-4)] cm_get [OF I r(1,2,5,6)] by simp_all
  obtain b where b: "solve_2x2_scaled (F k k) (F (k + 1) k) (F (k + 1) (k + 1)) (F i k) (F i (k + 1))
      = (b, inv2_0 F k (F i k) (F i (k + 1)), inv2_1 F k (F i k) (F i (k + 1)))"
    using solve_2x2_eq [OF det] by blast
  obtain A1 where a1: "mset_at lda A' i k (inv2_0 F k (F i k) (F i (k + 1))) = Some A1"
    "cm lda rows cols A1 (upd (?G i) i k (inv2_0 F k (F i k) (F i (k + 1))))"
    using ok_ex [OF cm_set [OF I r(1-4)]] by blast
  have "ok (mset_at lda A1 i (k + 1) (inv2_1 F k (F i k) (F i (k + 1)))) (\<lambda>A2. cm lda rows cols A2 (?G (i + 1)))"
    by (rule ok_mono [OF cm_set [OF a1(2) r(1,2,5,6)]], elim cm_cong) (use i in \<open>auto simp: upd_def\<close>)
  then show "ok (do {
     a0 \<leftarrow> mget lda A' i k;
     a1 \<leftarrow> mget lda A' i (k + 1);
     let (_, l0, l1) = solve_2x2_scaled (F k k) (F (k + 1) k) (F (k + 1) (k + 1)) a0 a1;
     A \<leftarrow> mset_at lda A' i k l0;
     mset_at lda A i (k + 1) l1
   }) (\<lambda>A2. cm lda rows cols A2 (?G (i + 1)))"
    by (simp only: get bind.simps b Let_def prod.case a1(1))
next
  fix A' assume I: "cm lda rows cols A' (\<lambda>a b. if k + 2 \<le> a \<and> a < max (k + 2) hi \<and> b = k then inv2_0 F k (F a k) (F a (k + 1))
      else if k + 2 \<le> a \<and> a < max (k + 2) hi \<and> b = k + 1 then inv2_1 F k (F a k) (F a (k + 1)) else F a b)"
  show "cm lda rows cols A' (\<lambda>a b. if k + 2 \<le> a \<and> a < hi \<and> b = k then inv2_0 F k (F a k) (F a (k + 1))
      else if k + 2 \<le> a \<and> a < hi \<and> b = k + 1 then inv2_1 F k (F a k) (F a (k + 1)) else F a b)"
    by (rule cm_cong [OF I]) (auto simp: max_def)
qed

lemma schur_2x2_ok:
  assumes c: "cm lda rows cols A G" and k: "0 \<le> k" "k + 1 < cols" "n \<le> cols" "n \<le> hi" "hi \<le> rows"
  shows "ok (schur_2x2 lda k hi n d00 d10 d11 A)
    (\<lambda>A'. cm lda rows cols A' (\<lambda>a b. if k + 2 \<le> b \<and> b < n then (if b \<le> a \<and> a < hi then
        G a b - (G a k * (d00 * G b k + d10 * G b (k + 1)) + G a (k + 1) * (d10 * G b k + d11 * G b (k + 1))) else G a b) else G a b))"
  unfolding schur_2x2_def
proof (rule cm_for_cols [OF c])
  let ?w = "\<lambda>j a. G a j - (G a k * (d00 * G j k + d10 * G j (k + 1)) + G a (k + 1) * (d10 * G j k + d11 * G j (k + 1)))"
  let ?g = "\<lambda>a b. if b \<le> a \<and> a < hi then ?w b a else G a b"
  fix j A' assume j: "k + 2 \<le> j" "j < n" and I: "cm lda rows cols A' (\<lambda>a b. if k + 2 \<le> b \<and> b < j then ?g a b else G a b)"
  have r: "0 \<le> j" "j < rows" "j < cols" "0 \<le> k" "k < cols" "0 \<le> k + 1" "k + 1 < cols" using j k by simp_all
  let ?H = "\<lambda>a b. if k + 2 \<le> b \<and> b < j then ?g a b else G a b"
  have get: "mget lda A' j k = Some (G j k)" "mget lda A' j (k + 1) = Some (G j (k + 1))"
    using cm_get [OF I r(1,2,4,5)] cm_get [OF I r(1,2,6,7)] by simp_all
  let ?wa = "d00 * G j k + d10 * G j (k + 1)" and ?wb = "d10 * G j k + d11 * G j (k + 1)"
  have "ok (for_range j hi (\<lambda>i A. do {
       li0 \<leftarrow> mget lda A i k;
       li1 \<leftarrow> mget lda A i (k + 1);
       x \<leftarrow> mget lda A i j;
       mset_at lda A i j (x - (li0 * ?wa + li1 * ?wb))
     }) A') (\<lambda>A''. cm lda rows cols A'' (\<lambda>a b. if b = j \<and> j \<le> a \<and> a < hi then ?w j a else ?H a b))"
  proof (rule cm_for_col [OF I])
    fix i A'' assume i: "j \<le> i" "i < hi"
      and I2: "cm lda rows cols A'' (\<lambda>a b. if b = j \<and> j \<le> a \<and> a < i then ?w j a else ?H a b)"
    have ri: "0 \<le> i" "i < rows" using i r k by simp_all
    have "mget lda A'' i k = Some (G i k)" "mget lda A'' i (k + 1) = Some (G i (k + 1))" "mget lda A'' i j = Some (G i j)"
      using cm_get [OF I2 ri r(4,5)] cm_get [OF I2 ri r(6,7)] cm_get [OF I2 ri r(1,3)] j by simp_all
    then show "ok (do {
       li0 \<leftarrow> mget lda A'' i k;
       li1 \<leftarrow> mget lda A'' i (k + 1);
       x \<leftarrow> mget lda A'' i j;
       mset_at lda A'' i j (x - (li0 * ?wa + li1 * ?wb))
     }) (\<lambda>A3. cm lda rows cols A3 (upd (\<lambda>a b. if b = j \<and> j \<le> a \<and> a < i then ?w j a else ?H a b) i j (?w j i)))"
      using cm_set [OF I2 ri r(1,3)] by (simp only: bind.simps)
  qed
  then have "ok (for_range j hi (\<lambda>i A. do {
       li0 \<leftarrow> mget lda A i k;
       li1 \<leftarrow> mget lda A i (k + 1);
       x \<leftarrow> mget lda A i j;
       mset_at lda A i j (x - (li0 * ?wa + li1 * ?wb))
     }) A') (\<lambda>A''. cm lda rows cols A'' (\<lambda>a b. if k + 2 \<le> b \<and> b < j + 1 then ?g a b else G a b))"
    by (rule ok_mono, elim cm_cong) (use j in auto)
  then show "ok (do {
     lj0 \<leftarrow> mget lda A' j k;
     lj1 \<leftarrow> mget lda A' j (k + 1);
     let wj0 = d00 * lj0 + d10 * lj1;
     let wj1 = d10 * lj0 + d11 * lj1;
     for_range j hi (\<lambda>i A. do {
       li0 \<leftarrow> mget lda A i k;
       li1 \<leftarrow> mget lda A i (k + 1);
       x \<leftarrow> mget lda A i j;
       mset_at lda A i j (x - (li0 * wj0 + li1 * wj1))
     }) A'
   }) (\<lambda>A''. cm lda rows cols A'' (\<lambda>a b. if k + 2 \<le> b \<and> b < j + 1 then ?g a b else G a b))"
    by (simp only: get bind.simps Let_def)
qed

lemma elim2_ok:
  fixes F :: "int \<Rightarrow> int \<Rightarrow> 'a::linordered_field"
  assumes c: "cm lda rows cols A F" and k: "0 \<le> k" "k + 1 < n" "n \<le> cols" "n \<le> hi" "hi \<le> rows"
    and det: "F k k * F (k + 1) (k + 1) - F (k + 1) k ^ 2 \<noteq> 0"
  shows "ok (do { A \<leftarrow> form_columns2 lda k hi (F k k) (F (k + 1) k) (F (k + 1) (k + 1)) A;
      schur_2x2 lda k hi n (F k k) (F (k + 1) k) (F (k + 1) (k + 1)) A })
    (\<lambda>A'. cm lda rows cols A' (elim2 hi k n F))"
proof -
  let ?d = "F k k * F (k + 1) (k + 1) - F (k + 1) k ^ 2"
  let ?G = "\<lambda>a b. if k + 2 \<le> a \<and> a < hi \<and> b = k then inv2_0 F k (F a k) (F a (k + 1))
      else if k + 2 \<le> a \<and> a < hi \<and> b = k + 1 then inv2_1 F k (F a k) (F a (k + 1)) else F a b"
  have kc: "k + 1 < cols" using k by simp
  obtain A1 where a1: "form_columns2 lda k hi (F k k) (F (k + 1) k) (F (k + 1) (k + 1)) A = Some A1" "cm lda rows cols A1 ?G"
    using ok_ex [OF form_columns2_ok [OF c k(1) kc k(5) det]] by blast
  have undo: "F k k * inv2_0 F k x y + F (k + 1) k * inv2_1 F k x y = x" "F (k + 1) k * inv2_0 F k x y + F (k + 1) (k + 1) * inv2_1 F k x y = y" for x y
  proof -
    obtain b where "solve_2x2_scaled (F k k) (F (k + 1) k) (F (k + 1) (k + 1)) x y = (b, inv2_0 F k x y, inv2_1 F k x y)"
      using solve_2x2_eq [OF det] by blast
    from solve_2x2_ok(2,3) [OF det this]
    show "F k k * inv2_0 F k x y + F (k + 1) k * inv2_1 F k x y = x" "F (k + 1) k * inv2_0 F k x y + F (k + 1) (k + 1) * inv2_1 F k x y = y" .
  qed
  have "ok (schur_2x2 lda k hi n (F k k) (F (k + 1) k) (F (k + 1) (k + 1)) A1) (\<lambda>A'. cm lda rows cols A' (elim2 hi k n F))"
  proof (rule ok_mono [OF schur_2x2_ok [OF a1(2) k(1) kc k(3-5)]], elim cm_cong)
    fix a b assume ab: "0 \<le> a" "a < rows" "0 \<le> b" "b < cols"
    show "(if k + 2 \<le> b \<and> b < n then (if b \<le> a \<and> a < hi then
        ?G a b - (?G a k * (F k k * ?G b k + F (k + 1) k * ?G b (k + 1)) + ?G a (k + 1) * (F (k + 1) k * ?G b k + F (k + 1) (k + 1) * ?G b (k + 1))) else ?G a b) else ?G a b)
      = elim2 hi k n F a b"
    proof (cases "k + 2 \<le> b \<and> b < n \<and> b \<le> a \<and> a < hi")
      case True
      then have c: "k + 2 \<le> a" "k + 2 \<le> b" "a < hi" "b < hi" "b \<noteq> k" "b \<noteq> k + 1" "k + 1 \<noteq> k" using k by simp_all
      then have "?G a b = F a b" "?G a k = inv2_0 F k (F a k) (F a (k + 1))" "?G a (k + 1) = inv2_1 F k (F a k) (F a (k + 1))"
        "?G b k = inv2_0 F k (F b k) (F b (k + 1))" "?G b (k + 1) = inv2_1 F k (F b k) (F b (k + 1))" by simp_all
      then have "?G a b - (?G a k * (F k k * ?G b k + F (k + 1) k * ?G b (k + 1)) + ?G a (k + 1) * (F (k + 1) k * ?G b k + F (k + 1) (k + 1) * ?G b (k + 1)))
          = F a b - (inv2_0 F k (F a k) (F a (k + 1)) * F b k + inv2_1 F k (F a k) (F a (k + 1)) * F b (k + 1))"
        by (simp only: undo)
      moreover have "elim2 hi k n F a b = F a b - (inv2_0 F k (F a k) (F a (k + 1)) * F b k + inv2_1 F k (F a k) (F a (k + 1)) * F b (k + 1))"
        using True c by (simp add: elim2_def)
      ultimately show ?thesis using True by (simp only: if_True simp_thms)
    next
      case False
      then have "(if k + 2 \<le> b \<and> b < n then (if b \<le> a \<and> a < hi then x else y) else y) = y" for x y :: 'a by auto
      moreover have "?G a b = elim2 hi k n F a b"
        using False k by (cases "b = k"; cases "b = k + 1") (auto simp: elim2_def)
      ultimately show ?thesis by (simp only:)
    qed
  qed
  then show ?thesis by (simp add: a1(1))
qed

lemma apply_pivot_2x2_ok:
  assumes c: "cm f f cols A F" and k: "0 \<le> k" "k + 1 < num_fs" "num_fs \<le> cols" "num_fs \<le> f"
    and det: "scaled_det_2x2 (F k k) (F (k + 1) k) (F (k + 1) (k + 1)) = (det_s, s2)" and small: "0 \<le> small"
  shows "ok (apply_pivot_2x2 f A k num_fs small) (\<lambda>A'. cm f f cols A' (if s2 = 0 \<or> \<bar>det_s\<bar> \<le> small then F else elim2 f k num_fs F))"
proof -
  have get: "mget f A k k = Some (F k k)" "mget f A (k + 1) k = Some (F (k + 1) k)" "mget f A (k + 1) (k + 1) = Some (F (k + 1) (k + 1))"
    using k by (simp_all add: cm_get [OF c])
  show ?thesis
  proof (cases "s2 = 0 \<or> \<bar>det_s\<bar> \<le> small")
    case True
    then show ?thesis using get det c by (simp add: apply_pivot_2x2_def)
  next
    case False
    then have "det_s \<noteq> 0" "s2 \<noteq> 0" using small by auto
    then have "F k k * F (k + 1) (k + 1) - F (k + 1) k ^ 2 \<noteq> 0" using scaled_det_eq(2) [OF _ det] by auto
    from elim2_ok [OF c k _ this] False show ?thesis using get det by (simp add: apply_pivot_2x2_def)
  qed
qed


section \<open>The choice of a pivot\<close>

lemma max_abs_loop_ok:
  fixes h :: "int \<Rightarrow> 'a::linordered_field"
  assumes "\<And>i. lo \<le> i \<Longrightarrow> i < hi \<Longrightarrow> g i = Some (h i)"
  shows "ok (max_abs_loop lo hi g m) (\<lambda>r. m \<le> r \<and> (\<forall>i. lo \<le> i \<and> i < hi \<longrightarrow> \<bar>h i\<bar> \<le> r)
    \<and> (r = m \<or> (\<exists>i. lo \<le> i \<and> i < hi \<and> r = \<bar>h i\<bar>)))"
  unfolding max_abs_loop_def
proof (rule for_range_ok [where I = "\<lambda>j r. m \<le> r \<and> (\<forall>i. lo \<le> i \<and> i < j \<longrightarrow> \<bar>h i\<bar> \<le> r)
    \<and> (r = m \<or> (\<exists>i. lo \<le> i \<and> i < j \<and> r = \<bar>h i\<bar>))"])
  fix j r assume j: "lo \<le> j" "j < hi" and i: "m \<le> r \<and> (\<forall>i. lo \<le> i \<and> i < j \<longrightarrow> \<bar>h i\<bar> \<le> r) \<and> (r = m \<or> (\<exists>i. lo \<le> i \<and> i < j \<and> r = \<bar>h i\<bar>))"
  let ?r = "if \<bar>h j\<bar> > r then \<bar>h j\<bar> else r"
  have "m \<le> ?r" using i by auto
  moreover have "\<forall>i. lo \<le> i \<and> i < j + 1 \<longrightarrow> \<bar>h i\<bar> \<le> ?r"
    unfolding all_below_Suc(1) [OF j(1)] using i by (auto intro: order.trans less_imp_le)
  moreover have "?r = m \<or> (\<exists>i. lo \<le> i \<and> i < j + 1 \<and> ?r = \<bar>h i\<bar>)"
  proof (cases "\<bar>h j\<bar> > r")
    case True
    then show ?thesis using j by (intro disjI2 exI [of _ j]) simp
  next
    case False
    then show ?thesis using i by (auto intro: less_trans)
  qed
  ultimately show "ok (do { x \<leftarrow> g j; let v = \<bar>x\<bar>; Some (if v > r then v else r) })
     (\<lambda>r. m \<le> r \<and> (\<forall>i. lo \<le> i \<and> i < j + 1 \<longrightarrow> \<bar>h i\<bar> \<le> r) \<and> (r = m \<or> (\<exists>i. lo \<le> i \<and> i < j + 1 \<and> r = \<bar>h i\<bar>)))"
    by (simp only: assms [OF j] bind.simps Let_def ok_Some simp_thms)
next
  fix r assume "m \<le> r \<and> (\<forall>i. lo \<le> i \<and> i < max lo hi \<longrightarrow> \<bar>h i\<bar> \<le> r) \<and> (r = m \<or> (\<exists>i. lo \<le> i \<and> i < max lo hi \<and> r = \<bar>h i\<bar>))"
  then show "m \<le> r \<and> (\<forall>i. lo \<le> i \<and> i < hi \<longrightarrow> \<bar>h i\<bar> \<le> r) \<and> (r = m \<or> (\<exists>i. lo \<le> i \<and> i < hi \<and> r = \<bar>h i\<bar>))"
    by (cases "lo \<le> hi") (auto simp: max_def)
qed auto

lemma front_max_abs_ok:
  assumes c: "cm f f cols A F" and k: "0 \<le> k" "num_fs \<le> cols"
  shows "ok (front_max_abs f A k num_fs) (\<lambda>m. 0 \<le> m)"
  unfolding front_max_abs_def
proof (rule for_range_ok [where I = "\<lambda>_ m. 0 \<le> m"])
  fix j and m :: 'a assume j: "k \<le> j" "j < num_fs" and m: "0 \<le> m"
  have g: "mget f A i j = Some (F i j)" if "j \<le> i" "i < f" for i using cm_get [OF c] that j k by simp
  show "ok (max_abs_loop j f (\<lambda>i. mget f A i j) m) (\<lambda>m. 0 \<le> m)"
    by (rule ok_mono [OF max_abs_loop_ok [where h = "\<lambda>i. F i j", OF g]]) (use m in auto)
qed simp_all

text \<open>What the choice promises of the pivot, \<open>u\<close> the threshold.\<close>

definition stable_1x1 :: "int \<Rightarrow> int \<Rightarrow> 'a::linordered_field \<Rightarrow> (int \<Rightarrow> int \<Rightarrow> 'a) \<Rightarrow> int \<Rightarrow> bool" where
  "stable_1x1 f k u F c \<longleftrightarrow> F c c \<noteq> 0 \<and> (\<forall>i. k \<le> i \<and> i < f \<and> i \<noteq> c \<longrightarrow> u * \<bar>sy F i c\<bar> \<le> \<bar>F c c\<bar>)"

definition block_det :: "(int \<Rightarrow> int \<Rightarrow> 'a::field) \<Rightarrow> int \<Rightarrow> int \<Rightarrow> 'a" where
  "block_det F k r = F k k * F r r - F r k ^ 2"

definition stable_2x2 :: "int \<Rightarrow> 'a::linordered_field \<Rightarrow> 'a \<Rightarrow> (int \<Rightarrow> int \<Rightarrow> 'a) \<Rightarrow> int \<Rightarrow> int \<Rightarrow> bool" where
  "stable_2x2 f u small F k r \<longleftrightarrow> small < \<bar>fst (scaled_det_2x2 (F k k) (F r k) (F r r))\<bar> \<and> block_det F k r \<noteq> 0 \<and> (\<forall>i. k \<le> i \<and> i < f \<and> i \<noteq> k \<and> i \<noteq> r \<longrightarrow>
     u * \<bar>F r r * sy F i k - F r k * sy F i r\<bar> \<le> \<bar>block_det F k r\<bar>
     \<and> u * \<bar>F k k * sy F i r - F r k * sy F i k\<bar> \<le> \<bar>block_det F k r\<bar>)"

lemma at_sym_eq:
  assumes c: "cm f f cols A F" and r: "0 \<le> r" "r < f" "r < cols" and i: "0 \<le> i" "i < f" "i < r \<longrightarrow> i < cols"
  shows "at_sym f A r i = Some (sy F i r)"
  using cm_get [OF c] r i by (simp add: at_sym_def sy_def)

lemma two_by_two_ok_sound:
  fixes F :: "int \<Rightarrow> int \<Rightarrow> 'a::linordered_field"
  assumes c: "cm f f cols A F" and k: "0 \<le> k" "k < r" "r < num_fs" "num_fs \<le> cols" "num_fs \<le> f"
    and eff: "0 < eff" "0 \<le> small" "0 \<le> u"
  shows "ok (two_by_two_ok f A k r num_fs u small eff) (\<lambda>b. b \<longrightarrow> stable_2x2 f u small F k r)"
proof -
  obtain det_s s2 where ds: "scaled_det_2x2 (F k k) (F r k) (F r r) = (det_s, s2)" by (cases "scaled_det_2x2 (F k k) (F r k) (F r r)")
  have get: "mget f A k k = Some (F k k)" "mget f A r k = Some (F r k)" "mget f A r r = Some (F r r)"
    using cm_get [OF c] k by simp_all
  show ?thesis
  proof (cases "s2 < eff \<or> \<bar>det_s\<bar> \<le> small")
    case True
    then show ?thesis using get ds by (simp add: two_by_two_ok_def)
  next
    case False
    then have s2: "0 < s2" "s2 \<noteq> 0" and det_s: "det_s \<noteq> 0" using eff by auto
    have det: "det_s * s2 ^ 2 = block_det F k r" unfolding block_det_def by (rule scaled_det_eq(2) [OF s2(2) ds])
    then have dne: "block_det F k r \<noteq> 0" using det_s s2 by (metis mult_eq_0_iff power_not_zero)
    let ?body = "\<lambda>i (off_k, off_r).
         if i = k \<or> i = r then Some (off_k, off_r)
         else do {
           xk \<leftarrow> (if i < num_fs then at_sym f A k i else mget f A i k);
           xr \<leftarrow> (if i < num_fs then at_sym f A r i else mget f A i r);
           let vk = \<bar>xk\<bar>;
           let vr = \<bar>xr\<bar>;
           Some (if vk > off_k then vk else off_k, if vr > off_r then vr else off_r)
         }"
    let ?I = "\<lambda>j (mk, mr). 0 \<le> mk \<and> 0 \<le> mr \<and> (\<forall>i. k \<le> i \<and> i < j \<longrightarrow> i \<noteq> k \<and> i \<noteq> r \<longrightarrow> \<bar>sy F i k\<bar> \<le> mk \<and> \<bar>sy F i r\<bar> \<le> mr)"
    have "ok (for_range k f ?body (0, 0)) (?I f)"
    proof (rule for_range_ok [where I = ?I])
      show "?I k (0, 0)" by simp
    next
      fix j st assume j: "k \<le> j" "j < f" and i: "?I j st"
      obtain p q where st: "st = (p, q)" by (cases st)
      show "ok (?body j st) (?I (j + 1))"
      proof (cases "j = k \<or> j = r")
        case True
        have "?I (j + 1) (p, q)" unfolding prod.case all_below_Suc(1) [OF j(1)] using i True unfolding st by auto
        then show ?thesis using True unfolding st by simp
      next
        case f: False
        have x: "(if j < num_fs then at_sym f A k j else mget f A j k) = Some (sy F j k)"
          "(if j < num_fs then at_sym f A r j else mget f A j r) = Some (sy F j r)"
          using at_sym_eq [OF c, of k j] at_sym_eq [OF c, of r j] cm_get [OF c, of j k] cm_get [OF c, of j r] j k by (auto simp: sy_def)
        have "?I (j + 1) (if \<bar>sy F j k\<bar> > p then \<bar>sy F j k\<bar> else p, if \<bar>sy F j r\<bar> > q then \<bar>sy F j r\<bar> else q)"
          unfolding prod.case all_below_Suc(1) [OF j(1)] using i unfolding st by (auto intro: order.trans less_imp_le)
        moreover have "?body j st = Some (if \<bar>sy F j k\<bar> > p then \<bar>sy F j k\<bar> else p, if \<bar>sy F j r\<bar> > q then \<bar>sy F j r\<bar> else q)"
          using f x unfolding st by (simp only: prod.case if_False bind.simps Let_def)
        ultimately show ?thesis by (simp only: ok_Some)
      qed
    next
      fix st assume "?I (max k f) st"
      then show "?I f st" using k by (cases st) (simp add: max_def)
    qed
    then obtain p q where l: "for_range k f ?body (0, 0) = Some (p, q)" "?I f (p, q)" unfolding ok_def by auto
    have off: "0 \<le> p" "0 \<le> q" "\<And>i. k \<le> i \<Longrightarrow> i < f \<Longrightarrow> i \<noteq> k \<Longrightarrow> i \<noteq> r \<Longrightarrow> \<bar>sy F i k\<bar> \<le> p \<and> \<bar>sy F i r\<bar> \<le> q"
      using l(2) by auto
    let ?b0 = "(\<bar>F r r\<bar> / s2 * p + \<bar>F r k\<bar> / s2 * q) / s2" and ?b1 = "(\<bar>F r k\<bar> / s2 * p + \<bar>F k k\<bar> / s2 * q) / s2"
    have res: "two_by_two_ok f A k r num_fs u small eff = Some (if p > 0 \<or> q > 0 then \<not> u * max ?b0 ?b1 > \<bar>det_s\<bar> else True)"
      using get ds False l(1) by (simp add: two_by_two_ok_def Let_def)
    have stable: "stable_2x2 f u small F k r" if acc: "p > 0 \<or> q > 0 \<Longrightarrow> u * max ?b0 ?b1 \<le> \<bar>det_s\<bar>"
      unfolding stable_2x2_def
    proof (intro conjI allI impI dne)
      show "small < \<bar>fst (scaled_det_2x2 (F k k) (F r k) (F r r))\<bar>" using ds False by simp
      fix i assume i: "k \<le> i \<and> i < f \<and> i \<noteq> k \<and> i \<noteq> r"
      have o: "\<bar>sy F i k\<bar> \<le> p" "\<bar>sy F i r\<bar> \<le> q" using off(3) [of i] i by simp_all
      have m: "u * max ?b0 ?b1 \<le> \<bar>det_s\<bar>"
      proof (cases "p > 0 \<or> q > 0")
        case False
        then have "p = 0" "q = 0" using off by simp_all
        then show ?thesis by simp
      qed (rule acc)
      have comb: "u * \<bar>x * sy F i k - y * sy F i r\<bar> \<le> \<bar>block_det F k r\<bar>"
        if xy: "(\<bar>x\<bar> / s2 * p + \<bar>y\<bar> / s2 * q) / s2 \<le> max ?b0 ?b1" for x y
      proof -
        have "\<bar>x * sy F i k - y * sy F i r\<bar> \<le> \<bar>x\<bar> * \<bar>sy F i k\<bar> + \<bar>y\<bar> * \<bar>sy F i r\<bar>"
          using abs_triangle_ineq4 [of "x * sy F i k" "y * sy F i r"] by (simp add: abs_mult)
        also have "\<dots> \<le> \<bar>x\<bar> * p + \<bar>y\<bar> * q" using o by (intro add_mono mult_left_mono) simp_all
        also have "\<dots> = (\<bar>x\<bar> / s2 * p + \<bar>y\<bar> / s2 * q) / s2 * s2 ^ 2" using s2 by (simp add: field_simps power2_eq_square)
        also have "\<dots> \<le> max ?b0 ?b1 * s2 ^ 2" using xy by (intro mult_right_mono) simp_all
        finally have "u * \<bar>x * sy F i k - y * sy F i r\<bar> \<le> u * (max ?b0 ?b1 * s2 ^ 2)" using eff(3) by (rule mult_left_mono)
        also have "\<dots> = (u * max ?b0 ?b1) * s2 ^ 2" by simp
        also have "\<dots> \<le> \<bar>det_s\<bar> * s2 ^ 2" using m by (intro mult_right_mono) simp_all
        also have "\<dots> = \<bar>block_det F k r\<bar>" using det by (metis abs_mult abs_power2)
        finally show ?thesis .
      qed
      show "u * \<bar>F r r * sy F i k - F r k * sy F i r\<bar> \<le> \<bar>block_det F k r\<bar>"
        by (rule comb) (simp add: le_max_iff_disj)
      have "u * \<bar>F r k * sy F i k - F k k * sy F i r\<bar> \<le> \<bar>block_det F k r\<bar>"
        by (rule comb) (simp add: le_max_iff_disj)
      then show "u * \<bar>F k k * sy F i r - F r k * sy F i k\<bar> \<le> \<bar>block_det F k r\<bar>" by (simp only: abs_minus_commute)
    qed
    show ?thesis unfolding res ok_Some using stable by (auto split: if_splits simp: not_less)
  qed
qed


definition pivot_ok :: "int \<Rightarrow> int \<Rightarrow> int \<Rightarrow> 'a::linordered_field \<Rightarrow> 'a \<Rightarrow> (int \<Rightarrow> int \<Rightarrow> 'a) \<Rightarrow> pivot_result \<Rightarrow> bool" where
  "pivot_ok f k num_fs u small F res \<longleftrightarrow> (case res of
     (Accept1x1, c, e) \<Rightarrow> k \<le> c \<and> c < num_fs \<and> e = -1 \<and> stable_1x1 f k u F c
   | (Accept2x2, c, r) \<Rightarrow> c = k \<and> k < r \<and> r < num_fs \<and> stable_2x2 f u small F k r
   | (Reject, c, e) \<Rightarrow> c = -1 \<and> e = -1
       \<and> (0 \<le> k \<and> k < num_fs \<longrightarrow> \<bar>F k k\<bar> < small \<or> (\<exists>i. k < i \<and> i < f \<and> \<bar>F k k\<bar> < u * \<bar>F i k\<bar>)))"

lemma choose_pivot_ok:
  fixes F :: "int \<Rightarrow> int \<Rightarrow> 'a::linordered_field"
  assumes c: "cm f f cols A F" and n: "num_fs \<le> cols" "num_fs \<le> f"
    and u: "0 \<le> u" and small: "0 < small" "small \<le> 1"
  shows "ok (choose_pivot f A k num_fs u small) (pivot_ok f k num_fs u small F)"
proof (cases "k < 0 \<or> k \<ge> num_fs")
  case True
  then show ?thesis by (auto simp: choose_pivot_def pivot_ok_def)
next
  case False
  then have k: "0 \<le> k" "k < num_fs" by simp_all
  obtain fm where fm: "front_max_abs f A k num_fs = Some fm" "0 \<le> fm" using ok_ex [OF front_max_abs_ok [OF c k(1) n(1)]] by blast
  let ?eff = "if fm > 0 \<and> fm < small then small * fm else small"
  have eff: "0 < ?eff" "?eff \<le> small" using small fm(2) mult_left_le [of fm small] by auto
  let ?loop = "for_range (k + 1) num_fs (\<lambda>i (omega1, r). do {
          x \<leftarrow> mget f A i k;
          let v = \<bar>x\<bar>;
          Some (if v > omega1 then (v, i) else (omega1, r))
        }) (0, k + 1)"
  let ?I = "\<lambda>j (w, r). 0 \<le> w \<and> (\<forall>i. k + 1 \<le> i \<and> i < j \<longrightarrow> \<bar>F i k\<bar> \<le> w) \<and> ((w = 0 \<and> r = k + 1) \<or> (k < r \<and> r < num_fs \<and> w = \<bar>F r k\<bar>))"
  have "ok ?loop (?I num_fs)"
  proof (rule for_range_ok [where I = ?I])
    show "?I (k + 1) (0, k + 1)" by auto
  next
    fix j st assume j: "k + 1 \<le> j" "j < num_fs" and i: "?I j st"
    obtain w r where st: "st = (w, r)" by (cases st)
    have g: "mget f A j k = Some (F j k)" using cm_get [OF c] j k n by simp
    have "?I (j + 1) (if \<bar>F j k\<bar> > w then (\<bar>F j k\<bar>, j) else (w, r))"
    proof (cases "\<bar>F j k\<bar> > w")
      case True
      then have "\<forall>i. k + 1 \<le> i \<and> i < j + 1 \<longrightarrow> \<bar>F i k\<bar> \<le> \<bar>F j k\<bar>"
        unfolding all_below_Suc(1) [OF j(1)] using i unfolding st by (auto intro: order.trans less_imp_le)
      then show ?thesis using True j by simp
    next
      case False
      then have "\<forall>i. k + 1 \<le> i \<and> i < j + 1 \<longrightarrow> \<bar>F i k\<bar> \<le> w"
        unfolding all_below_Suc(1) [OF j(1)] using i unfolding st by auto
      then show ?thesis using False i unfolding st by simp
    qed
    then show "ok (case st of (omega1, r) \<Rightarrow> do {
          x \<leftarrow> mget f A j k;
          let v = \<bar>x\<bar>;
          Some (if v > omega1 then (v, j) else (omega1, r))
        }) (?I (j + 1))" unfolding st by (simp only: prod.case g bind.simps Let_def ok_Some)
  next
    fix st assume "?I (max (k + 1) num_fs) st"
    then show "?I num_fs st" using k by (cases st) (simp add: max_def)
  qed
  then obtain w1 r where l: "?loop = Some (w1, r)" "?I num_fs (w1, r)" unfolding ok_def by auto
  have W: "0 \<le> w1" "\<And>i. k < i \<Longrightarrow> i < num_fs \<Longrightarrow> \<bar>F i k\<bar> \<le> w1" "(w1 = 0 \<and> r = k + 1) \<or> (k < r \<and> r < num_fs \<and> w1 = \<bar>F r k\<bar>)"
    using l(2) by auto
  have gk: "mget f A i k = Some (F i k)" if "num_fs \<le> i" "i < f" for i using cm_get [OF c] that k n by simp
  obtain we where we: "max_abs_loop num_fs f (\<lambda>i. mget f A i k) 0 = Some we" "0 \<le> we"
    "\<And>i. num_fs \<le> i \<Longrightarrow> i < f \<Longrightarrow> \<bar>F i k\<bar> \<le> we" "we = 0 \<or> (\<exists>i. num_fs \<le> i \<and> i < f \<and> we = \<bar>F i k\<bar>)"
    using ok_ex [OF max_abs_loop_ok [of num_fs f "\<lambda>i. mget f A i k" "\<lambda>i. F i k" 0, OF gk]] by blast
  let ?full = "max w1 we"
  have full: "\<bar>F i k\<bar> \<le> ?full" if "k < i" "i < f" for i
    using W(2) [of i] we(3) [of i] that by (cases "i < num_fs") (simp_all add: le_max_iff_disj)
  have full_at: "?full = 0 \<or> (\<exists>i. k < i \<and> i < f \<and> ?full = \<bar>F i k\<bar>)"
  proof (cases "w1 \<le> we")
    case True
    then have "?full = we" by simp
    then show ?thesis using we(4) k by (metis le_less_trans less_le_trans)
  next
    case False
    then have "?full = w1" by simp
    then show ?thesis using W(3) n by (metis less_le_trans)
  qed
  have dk: "mget f A k k = Some (F k k)" using cm_get [OF c] k n by simp
  let ?akk = "\<bar>F k k\<bar>"
  have acc: "stable_1x1 f k u F k" if "?eff \<le> ?akk" "u * ?full \<le> ?akk"
    unfolding stable_1x1_def
  proof (intro conjI allI impI)
    show "F k k \<noteq> 0" using that(1) eff(1) by auto
    fix i assume i: "k \<le> i \<and> i < f \<and> i \<noteq> k"
    then have "u * \<bar>F i k\<bar> \<le> u * ?full" using full [of i] u by (intro mult_left_mono) simp_all
    then show "u * \<bar>sy F i k\<bar> \<le> ?akk" using that(2) i by (simp add: sy_def)
  qed
  have rej: "?akk < small \<or> (\<exists>i. k < i \<and> i < f \<and> ?akk < u * \<bar>F i k\<bar>)" if "\<not> (?eff \<le> ?akk \<and> u * ?full \<le> ?akk)"
  proof (cases "?eff \<le> ?akk")
    case True
    then have "?akk < u * ?full" using that by simp
    then have "?full \<noteq> 0" by (auto simp: not_less)
    then show ?thesis using full_at \<open>?akk < u * ?full\<close> by auto
  next
    case False
    then have "?akk < small" using eff(2) by (simp only: not_le)
    then show ?thesis by simp
  qed
  show ?thesis
  proof (cases "w1 = 0 \<or> k + 1 \<ge> num_fs")
    case True
    let ?r = "if ?akk < ?eff \<or> (?full > 0 \<and> ?akk < u * ?full) then (Reject, -1, -1) else (Accept1x1, k, -1) :: pivot_result"
    have "choose_pivot f A k num_fs u small = Some ?r"
      using False True fm(1) l(1) we(1) dk by (simp add: choose_pivot_def Let_def)
    moreover have "pivot_ok f k num_fs u small F ?r"
    proof (cases "?akk < ?eff \<or> (?full > 0 \<and> ?akk < u * ?full)")
      case True
      then have "\<not> (?eff \<le> ?akk \<and> u * ?full \<le> ?akk)" by auto
      then show ?thesis using rej True by (simp add: pivot_ok_def)
    next
      case ne: False
      have "u * ?full \<le> ?akk"
      proof (cases "?full > 0")
        case False
        then have "?full = 0" using W(1) by (simp add: max_def split: if_splits)
        then show ?thesis by simp
      qed (use ne in simp)
      then show ?thesis using acc ne k by (simp add: pivot_ok_def)
    qed
    ultimately show ?thesis by (simp only: ok_Some)
  next
    case two: False
    show ?thesis
    proof (cases "?eff \<le> ?akk \<and> u * ?full \<le> ?akk")
      case True
      then have "choose_pivot f A k num_fs u small = Some (Accept1x1, k, -1)"
        using False two fm(1) l(1) we(1) dk by (simp add: choose_pivot_def Let_def)
      then show ?thesis using acc True k by (simp add: pivot_ok_def)
    next
      case no1: False
      have r: "k < r" "r < num_fs" using W(3) two by auto
      have rb: "0 \<le> r" "r < f" "r < cols" using r k n by simp_all
      let ?l2 = "for_range k num_fs (\<lambda>i m.
            if i = r then Some m
            else do { x \<leftarrow> at_sym f A r i; let v = \<bar>x\<bar>; Some (if v > m then v else m) }) 0"
      have "ok ?l2 (\<lambda>m. \<forall>i. k \<le> i \<and> i < num_fs \<longrightarrow> i \<noteq> r \<longrightarrow> \<bar>sy F i r\<bar> \<le> m)"
      proof (rule for_range_ok [where I = "\<lambda>j m. \<forall>i. k \<le> i \<and> i < j \<longrightarrow> i \<noteq> r \<longrightarrow> \<bar>sy F i r\<bar> \<le> m"])
        fix j and m :: 'a assume j: "k \<le> j" "j < num_fs" and i: "\<forall>i. k \<le> i \<and> i < j \<longrightarrow> i \<noteq> r \<longrightarrow> \<bar>sy F i r\<bar> \<le> m"
        have g: "at_sym f A r j = Some (sy F j r)" by (rule at_sym_eq [OF c rb]) (use j k n in simp_all)
        have "\<forall>i. k \<le> i \<and> i < j + 1 \<longrightarrow> i \<noteq> r \<longrightarrow> \<bar>sy F i r\<bar> \<le> (if j = r then m else if \<bar>sy F j r\<bar> > m then \<bar>sy F j r\<bar> else m)"
          unfolding all_below_Suc(1) [OF j(1)] using i by (auto intro: order.trans less_imp_le)
        then show "ok (if j = r then Some m else do { x \<leftarrow> at_sym f A r j; let v = \<bar>x\<bar>; Some (if v > m then v else m) })
            (\<lambda>m. \<forall>i. k \<le> i \<and> i < j + 1 \<longrightarrow> i \<noteq> r \<longrightarrow> \<bar>sy F i r\<bar> \<le> m)"
          by (cases "j = r") (simp_all only: g bind.simps Let_def ok_Some if_True if_False simp_thms)
      qed (use k in \<open>auto simp: max_def\<close>)
      then obtain m where m: "?l2 = Some m" "\<And>i. k \<le> i \<Longrightarrow> i < num_fs \<Longrightarrow> i \<noteq> r \<Longrightarrow> \<bar>sy F i r\<bar> \<le> m" unfolding ok_def by blast
      have gr: "mget f A i r = Some (F i r)" if "num_fs \<le> i" "i < f" for i using cm_get [OF c] that rb r k by simp
      obtain w2 where w2: "max_abs_loop num_fs f (\<lambda>i. mget f A i r) m = Some w2" "m \<le> w2" "\<And>i. num_fs \<le> i \<Longrightarrow> i < f \<Longrightarrow> \<bar>F i r\<bar> \<le> w2"
        using ok_ex [OF max_abs_loop_ok [of num_fs f "\<lambda>i. mget f A i r" "\<lambda>i. F i r" m, OF gr]] by blast
      have w2_all: "\<bar>sy F i r\<bar> \<le> w2" if "k \<le> i" "i < f" "i \<noteq> r" for i
      proof (cases "i < num_fs")
        case True
        show ?thesis using m(2) [OF that(1) True that(3)] w2(2) by (rule order.trans)
      next
        case False
        then show ?thesis using w2(3) [of i] that r by (simp add: sy_def)
      qed
      obtain b where b: "two_by_two_ok f A k r num_fs u small ?eff = Some b" "b \<longrightarrow> stable_2x2 f u small F k r"
        using ok_ex [OF two_by_two_ok_sound [OF c k(1) r n eff(1) less_imp_le [OF small(1)] u]] by blast
      have dr: "mget f A r r = Some (F r r)" using cm_get [OF c rb(1,2) rb(1,3)] .
      let ?r = "if b then (Accept2x2, k, r) else if \<bar>F r r\<bar> \<ge> ?eff \<and> \<bar>F r r\<bar> \<ge> u * w2 then (Accept1x1, r, -1) else (Reject, -1, -1) :: pivot_result"
      have "choose_pivot f A k num_fs u small = Some ?r"
        using False two no1 unfolding choose_pivot_def fm(1) bind.simps Let_def l(1) [unfolded Let_def] prod.case we(1) dk
        by (simp only: if_False m(1) [unfolded Let_def] bind.simps w2(1) b(1) dr) (cases b; simp)
      moreover have "pivot_ok f k num_fs u small F ?r"
      proof -
        have "stable_1x1 f k u F r" if s: "\<bar>F r r\<bar> \<ge> ?eff" "\<bar>F r r\<bar> \<ge> u * w2"
          unfolding stable_1x1_def
        proof (intro conjI allI impI)
          show "F r r \<noteq> 0" using s(1) eff(1) by auto
          fix i assume i: "k \<le> i \<and> i < f \<and> i \<noteq> r"
          then have "u * \<bar>sy F i r\<bar> \<le> u * w2" using w2_all [of i] u by (intro mult_left_mono) simp_all
          then show "u * \<bar>sy F i r\<bar> \<le> \<bar>F r r\<bar>" using s(2) by simp
        qed
        then show ?thesis using b(2) r rej [OF no1] k by (auto simp: pivot_ok_def)
      qed
      ultimately show ?thesis by (simp only: ok_Some)
    qed
  qed
qed


section \<open>What the steps keep\<close>

lemma sy_swap: "sy (swap_ghost p q F) a b = sy F (swp p q a) (swp p q b)"
  by (auto simp: sy_def swap_ghost_def)

lemma swp_same [simp]: "swp k k a = a"
  by (simp add: swp_def)

text \<open>The multipliers of a step, with the identity in the pivot rows.\<close>

definition mult1 :: "int \<Rightarrow> (int \<Rightarrow> int \<Rightarrow> 'a::field) \<Rightarrow> int \<Rightarrow> 'a" where
  "mult1 k G a = (if a = k then 1 else G a k)"

definition mult2_0 :: "int \<Rightarrow> (int \<Rightarrow> int \<Rightarrow> 'a::field) \<Rightarrow> int \<Rightarrow> 'a" where
  "mult2_0 k G a = (if a = k then 1 else if a = k + 1 then 0 else G a k)"

definition mult2_1 :: "int \<Rightarrow> (int \<Rightarrow> int \<Rightarrow> 'a::field) \<Rightarrow> int \<Rightarrow> 'a" where
  "mult2_1 k G a = (if a = k then 0 else if a = k + 1 then 1 else G a (k + 1))"

lemma elim1_id:
  assumes "F k k \<noteq> 0" "k \<le> b" "b \<le> a" "a < hi" "b < n"
  shows "F a b = mult1 k (elim1 hi k n F) a * F k k * mult1 k (elim1 hi k n F) b + (if k < b then elim1 hi k n F a b else 0)"
  using assms by (auto simp: mult1_def elim1_def)

lemma inv2_undo:
  fixes F :: "int \<Rightarrow> int \<Rightarrow> 'a::linordered_field"
  assumes "F k k * F (k + 1) (k + 1) - F (k + 1) k ^ 2 \<noteq> 0"
  shows "F k k * inv2_0 F k x y + F (k + 1) k * inv2_1 F k x y = x"
    "F (k + 1) k * inv2_0 F k x y + F (k + 1) (k + 1) * inv2_1 F k x y = y"
proof -
  obtain b where "solve_2x2_scaled (F k k) (F (k + 1) k) (F (k + 1) (k + 1)) x y = (b, inv2_0 F k x y, inv2_1 F k x y)"
    using solve_2x2_eq [OF assms] by blast
  from solve_2x2_ok(2,3) [OF assms this]
  show "F k k * inv2_0 F k x y + F (k + 1) k * inv2_1 F k x y = x"
    "F (k + 1) k * inv2_0 F k x y + F (k + 1) (k + 1) * inv2_1 F k x y = y" .
qed

lemma elim2_id:
  fixes F :: "int \<Rightarrow> int \<Rightarrow> 'a::linordered_field"
  assumes d: "F k k * F (k + 1) (k + 1) - F (k + 1) k ^ 2 \<noteq> 0" and b: "k \<le> b" "b \<le> a" "a < hi" "b < n" "n \<le> hi"
  defines "G \<equiv> elim2 hi k n F"
  shows "F a b = mult2_0 k G a * (F k k * mult2_0 k G b + F (k + 1) k * mult2_1 k G b)
    + mult2_1 k G a * (F (k + 1) k * mult2_0 k G b + F (k + 1) (k + 1) * mult2_1 k G b) + (if k + 1 < b then G a b else 0)"
proof -
  note undo = inv2_undo [OF d]
  have low: "G x k = inv2_0 F k (F x k) (F x (k + 1))" "G x (k + 1) = inv2_1 F k (F x k) (F x (k + 1))" if "k + 1 < x" "x < hi" for x
    using that by (simp_all add: G_def elim2_def)
  have comm: "inv2_0 F k x y * F k k + inv2_1 F k x y * F (k + 1) k = x" "inv2_0 F k x y * F (k + 1) k + inv2_1 F k x y * F (k + 1) (k + 1) = y" for x y
    using undo [of x y] by (simp_all add: mult.commute)
  consider "b = k" "a = k" | "b = k" "a = k + 1" | "b = k" "k + 1 < a" | "b = k + 1" "a = k + 1" | "b = k + 1" "k + 1 < a" | "k + 1 < b"
    using b(1,2) by linarith
  then show ?thesis
  proof cases
    case 3
    then show ?thesis using low [of a] b comm(1) [of "F a k" "F a (k + 1)"] by (simp add: mult2_0_def mult2_1_def)
  next
    case 5
    then show ?thesis using low [of a] b comm(2) [of "F a k" "F a (k + 1)"] by (simp add: mult2_0_def mult2_1_def)
  next
    case 6
    then have "F k k * mult2_0 k G b + F (k + 1) k * mult2_1 k G b = F b k"
      "F (k + 1) k * mult2_0 k G b + F (k + 1) (k + 1) * mult2_1 k G b = F b (k + 1)"
      using low [of b] b undo [of "F b k" "F b (k + 1)"] by (simp_all add: mult2_0_def mult2_1_def)
    moreover have "mult2_0 k G a = inv2_0 F k (F a k) (F a (k + 1))" "mult2_1 k G a = inv2_1 F k (F a k) (F a (k + 1))"
      using low [of a] b 6 by (simp_all add: mult2_0_def mult2_1_def)
    moreover have "G a b = F a b - (inv2_0 F k (F a k) (F a (k + 1)) * F b k + inv2_1 F k (F a k) (F a (k + 1)) * F b (k + 1))"
      using 6 b by (simp add: G_def elim2_def)
    ultimately show ?thesis using 6 by simp
  qed (simp_all add: mult2_0_def mult2_1_def)
qed

section \<open>Properties\<close>

text \<open>the scaled 2x2 solve is exact: with a nonzero determinant it answers true and the solution, otherwise
  false and zeros; the scale is the largest magnitude and the scaled determinant times its square is the
  determinant.\<close>

theorem solve_2x2_scaled_correct:
  fixes d00 d10 d11 rhs0 rhs1 :: "'a::linordered_field"
  shows "case solve_2x2_scaled d00 d10 d11 rhs0 rhs1 of (b, y0, y1) \<Rightarrow>
    if d00 * d11 - d10 ^ 2 \<noteq> 0 then b \<and> d00 * y0 + d10 * y1 = rhs0 \<and> d10 * y0 + d11 * y1 = rhs1
    else \<not> b \<and> y0 = 0 \<and> y1 = 0"
proof (cases "d00 * d11 - d10 ^ 2 = 0")
  case False
  obtain b y0 y1 where s: "solve_2x2_scaled d00 d10 d11 rhs0 rhs1 = (b, y0, y1)" by (cases "solve_2x2_scaled d00 d10 d11 rhs0 rhs1") auto
  show ?thesis using False solve_2x2_ok(1-3) [OF False s] by (simp add: s)
next
  case True
  obtain det_s s where ds: "scaled_det_2x2 d00 d10 d11 = (det_s, s)" by (cases "scaled_det_2x2 d00 d10 d11")
  have "s = 0 \<or> det_s = 0" using scaled_det_eq(2) [OF _ ds] True by auto
  then show ?thesis using True ds by (auto simp: solve_2x2_scaled_def)
qed

text \<open>C32: on a front whose offsets fit in \<open>int\<close>, \<open>choose_pivot\<close> reads inside the front and what it accepts is stable for the threshold \<open>u\<close>: a 1x1 pivot
  is nonzero and at least \<open>u\<close> times every entry of its column of the remaining symmetric matrix; a 2x2 pivot
  has a determinant above the tolerance and multipliers of at most \<open>1/u\<close>; it rejects only when the diagonal fails the test.\<close>

theorem choose_pivot_stable:
  fixes F :: "int \<Rightarrow> int \<Rightarrow> 'a::linordered_field"
  assumes "cm f f cols A F" "num_fs \<le> cols" "num_fs \<le> f" "0 \<le> u" "0 < small" "small \<le> 1"
  shows "\<exists>res. choose_pivot f A k num_fs u small = Some res \<and> pivot_ok f k num_fs u small F res"
  by (rule ok_ex [OF choose_pivot_ok [OF assms]])

text \<open>The 3x3 front with rows (0, 2, 1), (2, 1, 0) and (1, 0, 5).\<close>

definition example_front :: "rat list" where
  "example_front = [0, 2, 1, 2, 1, 0, 1, 0, 5]"

definition example_entry :: "int \<Rightarrow> int \<Rightarrow> rat" where
  "example_entry i j = elt example_front (i + j * 3)"

lemma example_front_cm: "cm 3 3 3 example_front example_entry"
  unfolding cm_def example_entry_def by (auto simp: example_front_def)

theorem choose_pivot_stable_witness:
  "choose_pivot 3 example_front 0 3 (1/10) (1/1000) = Some (Accept2x2, 0, 1)
   \<and> stable_2x2 3 (1/10) (1/1000) example_entry 0 1"
proof -
  have c: "choose_pivot 3 example_front 0 3 (1/10) (1/1000) = Some (Accept2x2, 0, 1)" by code_simp
  then show ?thesis
    using choose_pivot_stable [OF example_front_cm, of 3 "1/10" "1/1000" 0] by (auto simp: pivot_ok_def)
qed


text \<open>The matrix after the exchange, also when there is nothing to exchange.\<close>

definition exchanged :: "int \<Rightarrow> int \<Rightarrow> (int \<Rightarrow> int \<Rightarrow> 'a) \<Rightarrow> int \<Rightarrow> int \<Rightarrow> 'a" where
  "exchanged p q F = (if p = q then F else swap_ghost (min p q) (max p q) F)"

lemma sy_exchanged: "sy (exchanged p q F) a b = sy F (swp p q a) (swp p q b)"
  by (cases "p \<le> q") (auto simp: exchanged_def sy_swap min_def max_def swp_commute)

lemma exchanged_low: "b \<le> a \<Longrightarrow> exchanged p q F a b = sy F (swp p q a) (swp p q b)"
  using sy_exchanged [of p q F a b] by (simp add: sy_def)

lemma div_bound:
  fixes u x d :: "'a::linordered_field"
  assumes "u * \<bar>x\<bar> \<le> \<bar>d\<bar>" "d \<noteq> 0"
  shows "u * \<bar>x / d\<bar> \<le> 1"
proof -
  have "u * \<bar>x / d\<bar> = u * \<bar>x\<bar> / \<bar>d\<bar>" by simp
  also have "\<dots> \<le> \<bar>d\<bar> / \<bar>d\<bar>" using assms by (intro divide_right_mono) simp_all
  finally show ?thesis using assms(2) by simp
qed

text \<open>The finished columns \<open>b < k\<close> follow the exchange of the rows, the columns of the contribution block are left alone.\<close>

definition others_exchanged :: "int \<Rightarrow> int \<Rightarrow> int \<Rightarrow> int \<Rightarrow> int \<Rightarrow> (int \<Rightarrow> int \<Rightarrow> 'a) \<Rightarrow> (int \<Rightarrow> int \<Rightarrow> 'a) \<Rightarrow> bool" where
  "others_exchanged f k num_fs p q F G \<longleftrightarrow>
     (\<forall>a b. b \<le> a \<and> a < f \<longrightarrow> (0 \<le> b \<and> b < k \<longrightarrow> G a b = F (swp p q a) b) \<and> (num_fs \<le> b \<longrightarrow> G a b = F a b))"

lemma exchanged_others:
  assumes "k \<le> p" "p < num_fs" "k \<le> q" "q < num_fs" "b \<le> a"
  shows "b < k \<Longrightarrow> exchanged p q F a b = F (swp p q a) b" "num_fs \<le> b \<Longrightarrow> exchanged p q F a b = F a b"
  unfolding exchanged_low [OF assms(5)] using assms by (auto simp: sy_def swp_def)

definition step1_ok :: "int \<Rightarrow> int \<Rightarrow> int \<Rightarrow> 'a::linordered_field \<Rightarrow> (int \<Rightarrow> int \<Rightarrow> 'a) \<Rightarrow> int \<Rightarrow> (int \<Rightarrow> int \<Rightarrow> 'a) \<Rightarrow> bool" where
  "step1_ok f k num_fs u F c G \<longleftrightarrow>
     (\<forall>a b. k \<le> b \<and> b \<le> a \<and> a < f \<and> b < num_fs \<longrightarrow> sy F (swp k c a) (swp k c b)
        = mult1 k G a * F c c * mult1 k G b + (if k < b then G a b else 0))
     \<and> (\<forall>a. k < a \<and> a < f \<longrightarrow> u * \<bar>G a k\<bar> \<le> 1)
     \<and> G k k = F c c \<and> others_exchanged f k num_fs k c F G"

definition step2_ok :: "int \<Rightarrow> int \<Rightarrow> int \<Rightarrow> 'a::linordered_field \<Rightarrow> (int \<Rightarrow> int \<Rightarrow> 'a) \<Rightarrow> int \<Rightarrow> (int \<Rightarrow> int \<Rightarrow> 'a) \<Rightarrow> bool" where
  "step2_ok f k num_fs u F r G \<longleftrightarrow>
     (\<forall>a b. k \<le> b \<and> b \<le> a \<and> a < f \<and> b < num_fs \<longrightarrow> sy F (swp (k + 1) r a) (swp (k + 1) r b)
        = mult2_0 k G a * (F k k * mult2_0 k G b + F r k * mult2_1 k G b)
          + mult2_1 k G a * (F r k * mult2_0 k G b + F r r * mult2_1 k G b) + (if k + 1 < b then G a b else 0))
     \<and> (\<forall>a. k + 1 < a \<and> a < f \<longrightarrow> u * \<bar>G a k\<bar> \<le> 1 \<and> u * \<bar>G a (k + 1)\<bar> \<le> 1)
     \<and> G k k = F k k \<and> G (k + 1) k = F r k \<and> G (k + 1) (k + 1) = F r r \<and> others_exchanged f k num_fs (k + 1) r F G"

lemma swp_range: "k \<le> p \<Longrightarrow> p < f \<Longrightarrow> k \<le> q \<Longrightarrow> q < f \<Longrightarrow> k \<le> a \<Longrightarrow> a < f \<Longrightarrow> k \<le> swp p q a \<and> swp p q a < f"
  by (simp add: swp_def)

lemma swp_neq: "a \<noteq> p \<Longrightarrow> swp p q a \<noteq> q"
  by (simp add: swp_def)

lemma step1:
  assumes c: "cm f f cols A F" and n: "num_fs \<le> cols" "num_fs \<le> f" and k: "0 \<le> k" "k \<le> c" "c < num_fs"
    and stable: "stable_1x1 f k u F c"
  shows "\<exists>A1 A2 G. sym_swap_front f A k c num_fs = Some A1 \<and> apply_pivot_1x1 f A1 k num_fs = Some A2
    \<and> cm f f cols A2 G \<and> step1_ok f k num_fs u F c G"
proof -
  let ?S = "exchanged k c F" let ?G = "elim1 f k num_fs ?S"
  have kn: "k < num_fs" "0 \<le> c" using k by simp_all
  obtain A1 where a1: "sym_swap_front f A k c num_fs = Some A1" "cm f f cols A1 ?S"
    using ok_ex [OF sym_swap_front_ok [OF c k(1) kn(1) kn(2) k(3) n(2,1)]] unfolding exchanged_def by blast
  have d: "?S k k = F c c" by (simp add: exchanged_low swp_def sy_def)
  have ne: "F c c \<noteq> 0" using stable by (simp add: stable_1x1_def)
  obtain A2 where a2: "apply_pivot_1x1 f A1 k num_fs = Some A2" "cm f f cols A2 ?G"
    using ok_ex [OF apply_pivot_1x1_ok [OF a1(2) k(1) kn(1) n]] d ne by auto
  have "step1_ok f k num_fs u F c ?G"
    unfolding step1_ok_def
  proof (intro conjI allI impI)
    fix a b assume ab: "k \<le> b \<and> b \<le> a \<and> a < f \<and> b < num_fs"
    show "sy F (swp k c a) (swp k c b) = mult1 k ?G a * F c c * mult1 k ?G b + (if k < b then ?G a b else 0)"
      using elim1_id [of ?S k b a f num_fs] ab d ne exchanged_low [of b a k c F] by simp
  next
    fix a assume a: "k < a \<and> a < f"
    have r: "k \<le> swp k c a" "swp k c a < f" "swp k c a \<noteq> c" using swp_range [of k k f c a] swp_neq [of a k c] a k n by auto
    have "?G a k = ?S a k / F c c" using a d by (simp add: elim1_def)
    moreover have "?S a k = sy F (swp k c a) c" using a exchanged_low [of k a k c F] by (simp add: swp_def)
    moreover have "u * \<bar>sy F (swp k c a) c\<bar> \<le> \<bar>F c c\<bar>" using stable r by (simp add: stable_1x1_def)
    ultimately show "u * \<bar>?G a k\<bar> \<le> 1" using div_bound ne by metis
  next
    show "?G k k = F c c" using d by (simp add: elim1_def)
    have "?G a b = ?S a b" if "b < k \<or> num_fs \<le> b" for a b using that kn by (auto simp: elim1_def)
    then show "others_exchanged f k num_fs k c F ?G"
      using exchanged_others [of k k num_fs c _ _ F] kn k unfolding others_exchanged_def by simp
  qed
  then show ?thesis using a1(1) a2 by blast
qed

lemma step2:
  fixes F :: "int \<Rightarrow> int \<Rightarrow> 'a::linordered_field"
  assumes c: "cm f f cols A F" and n: "num_fs \<le> cols" "num_fs \<le> f" and k: "0 \<le> k" "k < r" "r < num_fs"
    and stable: "stable_2x2 f u small F k r" and small: "0 \<le> small"
  shows "\<exists>A1 A2 G. sym_swap_front f A (k + 1) r num_fs = Some A1 \<and> apply_pivot_2x2 f A1 k num_fs small = Some A2
    \<and> cm f f cols A2 G \<and> step2_ok f k num_fs u F r G"
proof -
  let ?S = "exchanged (k + 1) r F" let ?G = "elim2 f k num_fs ?S"
  have kn: "0 \<le> k + 1" "k + 1 < num_fs" "0 \<le> r" using k by simp_all
  obtain A1 where a1: "sym_swap_front f A (k + 1) r num_fs = Some A1" "cm f f cols A1 ?S"
    using ok_ex [OF sym_swap_front_ok [OF c kn(1,2,3) k(3) n(2,1)]] unfolding exchanged_def by blast
  have S: "?S k k = F k k" "?S (k + 1) k = F r k" "?S (k + 1) (k + 1) = F r r"
    using k by (simp_all add: exchanged_low swp_def sy_def)
  obtain det_s s2 where ds: "scaled_det_2x2 (F k k) (F r k) (F r r) = (det_s, s2)" by (cases "scaled_det_2x2 (F k k) (F r k) (F r r)")
  have det: "block_det F k r \<noteq> 0" "small < \<bar>det_s\<bar>" using stable ds by (simp_all add: stable_2x2_def)
  have s2: "s2 \<noteq> 0" using det(1) scaled_det_scale_0 [of "F k k" "F r k" "F r r" det_s] ds by (auto simp: block_det_def)
  have detS: "?S k k * ?S (k + 1) (k + 1) - ?S (k + 1) k ^ 2 \<noteq> 0" using det(1) S by (simp add: block_det_def)
  obtain A2 where a2: "apply_pivot_2x2 f A1 k num_fs small = Some A2" "cm f f cols A2 ?G"
    using ok_ex [OF apply_pivot_2x2_ok [OF a1(2) k(1) kn(2) n _ small]] S ds s2 det(2) by fastforce
  have "step2_ok f k num_fs u F r ?G"
    unfolding step2_ok_def
  proof (intro conjI allI impI)
    fix a b assume ab: "k \<le> b \<and> b \<le> a \<and> a < f \<and> b < num_fs"
    show "sy F (swp (k + 1) r a) (swp (k + 1) r b) = mult2_0 k ?G a * (F k k * mult2_0 k ?G b + F r k * mult2_1 k ?G b)
          + mult2_1 k ?G a * (F r k * mult2_0 k ?G b + F r r * mult2_1 k ?G b) + (if k + 1 < b then ?G a b else 0)"
      using elim2_id [of ?S k b a f num_fs, OF detS] ab n S exchanged_low [of b a "k + 1" r F] by simp
  next
    fix a assume a: "k + 1 < a \<and> a < f"
    let ?a = "swp (k + 1) r a"
    have r: "k \<le> ?a" "?a < f" "?a \<noteq> r" "?a \<noteq> k"
      using swp_range [of "k + 1" "k + 1" f r a] swp_neq [of a "k + 1" r] a k n by auto
    have e: "?S a k = sy F ?a k" "?S a (k + 1) = sy F ?a r"
      using a k exchanged_low [of k a "k + 1" r F] exchanged_low [of "k + 1" a "k + 1" r F] by (simp_all add: swp_def)
    have b: "u * \<bar>F r r * sy F ?a k - F r k * sy F ?a r\<bar> \<le> \<bar>block_det F k r\<bar>"
      "u * \<bar>F k k * sy F ?a r - F r k * sy F ?a k\<bar> \<le> \<bar>block_det F k r\<bar>"
      using stable r by (simp_all add: stable_2x2_def)
    have "?G a k = (F r r * sy F ?a k - F r k * sy F ?a r) / block_det F k r"
      using a S e by (simp add: elim2_def inv2_0_def block_det_def)
    then show "u * \<bar>?G a k\<bar> \<le> 1" using div_bound [OF b(1) det(1)] by (simp only:)
    have "?G a (k + 1) = (F k k * sy F ?a r - F r k * sy F ?a k) / block_det F k r"
      using a S e by (simp add: elim2_def inv2_1_def block_det_def)
    then show "u * \<bar>?G a (k + 1)\<bar> \<le> 1" using div_bound [OF b(2) det(1)] by (simp only:)
  next
    show "?G k k = F k k" "?G (k + 1) k = F r k" "?G (k + 1) (k + 1) = F r r" using S by (simp_all add: elim2_def)
    have "?G a b = ?S a b" if "b < k \<or> num_fs \<le> b" for a b using that kn by (auto simp: elim2_def)
    then show "others_exchanged f k num_fs (k + 1) r F ?G"
      using exchanged_others [of k "k + 1" num_fs r _ _ F] kn k unfolding others_exchanged_def by simp
  qed
  then show ?thesis using a1(1) a2 by blast
qed

text \<open>C11: choosing, exchanging and eliminating is one exact step of the symmetric factorization: the remaining
  matrix, its rows and columns exchanged, equals the multipliers times the pivot block times the multipliers, plus
  the Schur complement left in the front, the pivot block stays in place, no multiplier exceeds \<open>1/u\<close>, the rows of the
  finished columns are exchanged alike, and the contribution block is left alone. All offsets stay in the array and in \<open>int\<close>.\<close>

theorem pivot_step_correct:
  fixes F :: "int \<Rightarrow> int \<Rightarrow> 'a::linordered_field"
  assumes "cm f f cols A F" "num_fs \<le> cols" "num_fs \<le> f" "0 \<le> u" "0 < small" "small \<le> 1" "0 \<le> k"
    and "choose_pivot f A k num_fs u small = Some (dec, c, r)"
  shows "case dec of
      Accept1x1 \<Rightarrow> \<exists>A1 A2 G. sym_swap_front f A k c num_fs = Some A1 \<and> apply_pivot_1x1 f A1 k num_fs = Some A2
        \<and> cm f f cols A2 G \<and> step1_ok f k num_fs u F c G
    | Accept2x2 \<Rightarrow> \<exists>A1 A2 G. sym_swap_front f A (k + 1) r num_fs = Some A1 \<and> apply_pivot_2x2 f A1 k num_fs small = Some A2
        \<and> cm f f cols A2 G \<and> step2_ok f k num_fs u F r G
    | Reject \<Rightarrow> True"
proof -
  have p: "pivot_ok f k num_fs u small F (dec, c, r)" by (rule ok_the [OF choose_pivot_ok [OF assms(1-6)] assms(8)])
  show ?thesis
  proof (cases dec)
    case Accept1x1
    then show ?thesis using p step1 [OF assms(1-3,7)] by (simp add: pivot_ok_def)
  next
    case Accept2x2
    then show ?thesis using p step2 [OF assms(1-3,7)] assms(5) by (simp add: pivot_ok_def)
  qed simp
qed

theorem pivot_step_correct_witness:
  "\<exists>A1 A2 G. sym_swap_front 3 example_front 1 1 3 = Some A1 \<and> apply_pivot_2x2 3 A1 0 3 (1/1000) = Some A2
     \<and> cm 3 3 3 A2 G \<and> step2_ok 3 0 3 (1/10) example_entry 1 G"
proof -
  have c: "choose_pivot 3 example_front 0 3 (1/10) (1/1000) = Some (Accept2x2, 0, 1)" by code_simp
  show ?thesis
    using pivot_step_correct [OF example_front_cm _ _ _ _ _ _ c] by simp
qed

end
