(* ===== verification/DenseLdlt.thy ===== *)
theory DenseLdlt
  imports Pivoting
begin

text \<open>
  \<open>src/dense_indef.cpp\<close>: the inertia of a pivot block (\<open>add_inertia_1x1\<close>, \<open>add_inertia_2x2\<close>) and
  \<open>dense_ldlt_indef\<close>, the threshold-pivoted factorization of a dense symmetric matrix kept in the lower
  triangle of a column-major array. The specification rebuilds the permutation and the block diagonal from the
  list of pivots, the way the solve reads them, and states the product \<open>P A P^T = L D L^T\<close> entry by entry.
\<close>

datatype pivot_type = OneByOne | TwoByTwo

record 'a pivot =
  ptype :: pivot_type
  col0 :: int
  col1 :: int
  pd00 :: 'a
  pd10 :: 'a
  pd11 :: 'a

record inertia_counts =
  positive :: int
  negative :: int
  zero_count :: int

datatype ldlt_status = Success | Singular

definition add_inertia_1x1 :: "'a::linordered_field \<Rightarrow> 'a \<Rightarrow> inertia_counts \<Rightarrow> inertia_counts" where
  "add_inertia_1x1 d small c =
     (if \<bar>d\<bar> < small then c\<lparr>zero_count := zero_count c + 1\<rparr>
      else if d > 0 then c\<lparr>positive := positive c + 1\<rparr>
      else c\<lparr>negative := negative c + 1\<rparr>)"

definition add_inertia_2x2 :: "'a::linordered_field \<Rightarrow> 'a \<Rightarrow> 'a \<Rightarrow> 'a \<Rightarrow> inertia_counts \<Rightarrow> inertia_counts" where
  "add_inertia_2x2 d00 d10 d11 small c =
     (if d10 = 0 then add_inertia_1x1 d11 small (add_inertia_1x1 d00 small c)
      else let (det_s, s) = scaled_det_2x2 d00 d10 d11 in
        if s = 0 then c\<lparr>zero_count := zero_count c + 2\<rparr>
        else let tr_s = d00 / s + d11 / s in
          if det_s < - small then c\<lparr>positive := positive c + 1, negative := negative c + 1\<rparr>
          else if \<bar>det_s\<bar> \<le> small then
            (let c = c\<lparr>zero_count := zero_count c + 1\<rparr> in
             if tr_s > small then c\<lparr>positive := positive c + 1\<rparr>
             else if tr_s < - small then c\<lparr>negative := negative c + 1\<rparr>
             else c\<lparr>zero_count := zero_count c + 1\<rparr>)
          else if tr_s > 0 then c\<lparr>positive := positive c + 2\<rparr>
          else if tr_s < 0 then c\<lparr>negative := negative c + 2\<rparr>
          else c\<lparr>zero_count := zero_count c + 2\<rparr>)"

section \<open>The factorization\<close>

text \<open>The largest magnitude of the lower triangle, and the threshold derived from it.\<close>

definition dense_max_abs :: "int \<Rightarrow> int \<Rightarrow> 'a::linordered_field list \<Rightarrow> 'a option" where
  "dense_max_abs lda n A = for_range 0 n (\<lambda>j m. max_abs_loop j n (\<lambda>i. mget lda A i j) m) 0"

definition dense_eff_small :: "'a::linordered_field \<Rightarrow> 'a \<Rightarrow> 'a" where
  "dense_eff_small small max_abs = (if max_abs > 0 \<and> max_abs < 1 then small * max_abs else small)"

definition dense_sym_swap :: "int \<Rightarrow> int \<Rightarrow> 'a list \<Rightarrow> int \<Rightarrow> int \<Rightarrow> 'a list option" where
  "dense_sym_swap lda n A p q =
     (if p = q then Some A
      else do {
        let (p, q) = (if p > q then (q, p) else (p, q));
        A \<leftarrow> swap_low lda p q A;
        swap_rest lda p q (q + 1) n A
      })"

text \<open>The largest entry \<open>omega1\<close> below the diagonal of column \<open>k\<close> and its row.\<close>

definition dense_partner :: "int \<Rightarrow> int \<Rightarrow> 'a::linordered_field list \<Rightarrow> int \<Rightarrow> ('a \<times> int) option" where
  "dense_partner lda n A k =
     (if k + 1 < n then do {
        x \<leftarrow> mget lda A (k + 1) k;
        for_range (k + 2) n (\<lambda>i (omega1, r). do {
          x \<leftarrow> mget lda A i k;
          let v = \<bar>x\<bar>;
          Some (if v > omega1 then (v, i) else (omega1, r))
        }) (\<bar>x\<bar>, k + 1)
      } else Some (0, k + 1))"

definition dense_omega2 :: "int \<Rightarrow> int \<Rightarrow> 'a::linordered_field list \<Rightarrow> int \<Rightarrow> int \<Rightarrow> 'a option" where
  "dense_omega2 lda n A k r = for_range k n (\<lambda>i omega2.
     if i = r then Some omega2
     else do {
       let lo = (if i < r then i else r);
       let hi = (if i < r then r else i);
       x \<leftarrow> mget lda A hi lo;
       let v = \<bar>x\<bar>;
       Some (if v > omega2 then v else omega2)
     }) 0"

record 'a ldlt_state =
  lmat :: "'a list"
  lcol :: int
  lpivots :: "'a pivot list"
  linertia :: inertia_counts
  lsingular :: bool

text \<open>A 1x1 pivot on column \<open>k\<close>, \<open>c\<close> the column it came from.\<close>

definition eliminate_1x1 :: "int \<Rightarrow> int \<Rightarrow> 'a::linordered_field \<Rightarrow> int \<Rightarrow> 'a ldlt_state \<Rightarrow> 'a ldlt_state option" where
  "eliminate_1x1 lda n eff_small c st = do {
     let k = lcol st;
     d \<leftarrow> mget lda (lmat st) k k;
     let inertia = add_inertia_1x1 d eff_small (linertia st);
     let pivots = lpivots st @ [\<lparr>ptype = OneByOne, col0 = c, col1 = -1, pd00 = d, pd10 = 0, pd11 = 0\<rparr>];
     if \<bar>d\<bar> \<ge> eff_small then do {
       A \<leftarrow> form_column lda k n d (lmat st);
       A \<leftarrow> schur_1x1 lda k n n d A;
       Some \<lparr>lmat = A, lcol = k + 1, lpivots = pivots, linertia = inertia, lsingular = lsingular st\<rparr>
     } else Some \<lparr>lmat = lmat st, lcol = k + 1, lpivots = pivots, linertia = inertia, lsingular = True\<rparr>
   }"

definition eliminate_2x2 :: "int \<Rightarrow> int \<Rightarrow> 'a::linordered_field \<Rightarrow> 'a \<Rightarrow> int \<Rightarrow> 'a ldlt_state \<Rightarrow> 'a ldlt_state option" where
  "eliminate_2x2 lda n eff_small small r st = do {
     let k = lcol st;
     A \<leftarrow> (if r \<noteq> k + 1 then dense_sym_swap lda n (lmat st) (k + 1) r else Some (lmat st));
     d00 \<leftarrow> mget lda A k k;
     d10 \<leftarrow> mget lda A (k + 1) k;
     d11 \<leftarrow> mget lda A (k + 1) (k + 1);
     let inertia = add_inertia_2x2 d00 d10 d11 small (linertia st);
     let pivots = lpivots st @ [\<lparr>ptype = TwoByTwo, col0 = k, col1 = r, pd00 = d00, pd10 = d10, pd11 = d11\<rparr>];
     let (det_s, s2) = scaled_det_2x2 d00 d10 d11;
     if s2 \<ge> eff_small \<and> \<bar>det_s\<bar> > small then do {
       A \<leftarrow> form_columns2 lda k n d00 d10 d11 A;
       A \<leftarrow> schur_2x2 lda k n n d00 d10 d11 A;
       A \<leftarrow> mset_at lda A (k + 1) k 0;
       Some \<lparr>lmat = A, lcol = k + 2, lpivots = pivots, linertia = inertia, lsingular = lsingular st\<rparr>
     } else Some \<lparr>lmat = A, lcol = k + 2, lpivots = pivots, linertia = inertia, lsingular = True\<rparr>
   }"

definition ldlt_step :: "int \<Rightarrow> int \<Rightarrow> 'a::linordered_field \<Rightarrow> 'a \<Rightarrow> 'a \<Rightarrow> 'a ldlt_state \<Rightarrow> 'a ldlt_state option" where
  "ldlt_step lda n u small eff_small st = do {
     let A = lmat st;
     let k = lcol st;
     (omega1, r) \<leftarrow> dense_partner lda n A k;
     x \<leftarrow> mget lda A k k;
     let akk = \<bar>x\<bar>;
     if omega1 = 0 \<or> (akk \<ge> eff_small \<and> akk \<ge> u * omega1) then eliminate_1x1 lda n eff_small k st
     else do {
       omega2 \<leftarrow> dense_omega2 lda n A k r;
       x1 \<leftarrow> mget lda A r k;
       y \<leftarrow> mget lda A r r;
       let (det_r, s2r) = scaled_det_2x2 x x1 y;
       let two_ok = (s2r \<ge> eff_small \<and> \<bar>det_r\<bar> > small);
       let arr = \<bar>y\<bar>;
       if \<not> two_ok \<and> arr \<ge> eff_small \<and> arr \<ge> u * omega2 then do {
         A \<leftarrow> dense_sym_swap lda n A k r;
         eliminate_1x1 lda n eff_small r (st\<lparr>lmat := A\<rparr>)
       } else eliminate_2x2 lda n eff_small small r st
     }
   }"

definition dense_ldlt_indef ::
  "'a::linordered_field list \<Rightarrow> int \<Rightarrow> int \<Rightarrow> 'a \<Rightarrow> 'a \<Rightarrow> 'a pivot list \<Rightarrow> inertia_counts
    \<Rightarrow> ('a list \<times> 'a pivot list \<times> inertia_counts \<times> ldlt_status) option" where
  "dense_ldlt_indef A n lda u small pivots inertia = do {
     max_abs \<leftarrow> dense_max_abs lda n A;
     let eff_small = dense_eff_small small max_abs;
     st \<leftarrow> loop (\<lambda>st. if lcol st < n then do { st \<leftarrow> ldlt_step lda n u small eff_small st; Some (Inr st) }
                  else Some (Inl st))
       \<lparr>lmat = A, lcol = 0, lpivots = pivots, linertia = inertia, lsingular = False\<rparr>;
     Some (lmat st, lpivots st, linertia st, if lsingular st then Singular else Success)
   }"

section \<open>The permutation and the product the pivots stand for\<close>

fun pwidth :: "'a pivot \<Rightarrow> int" where
  "pwidth P = (case ptype P of OneByOne \<Rightarrow> 1 | TwoByTwo \<Rightarrow> 2)"

text \<open>The exchange a pivot at position \<open>p\<close> made: of \<open>p\<close>, or of \<open>p + 1\<close> for a 2x2.\<close>

fun piv_swap :: "int \<Rightarrow> 'a pivot \<Rightarrow> int \<Rightarrow> int" where
  "piv_swap p P = (case ptype P of OneByOne \<Rightarrow> swp p (col0 P) | TwoByTwo \<Rightarrow> swp (p + 1) (col1 P))"

fun piv_perm :: "int \<Rightarrow> 'a pivot list \<Rightarrow> int \<Rightarrow> int" where
  "piv_perm p [] a = a"
| "piv_perm p (P # ps) a = piv_swap p P (piv_perm (p + pwidth P) ps a)"

definition unit_col :: "int \<Rightarrow> (int \<Rightarrow> int \<Rightarrow> 'a::field) \<Rightarrow> int \<Rightarrow> 'a" where
  "unit_col p G a = (if a < p then 0 else mult1 p G a)"

definition unit_col0 :: "int \<Rightarrow> (int \<Rightarrow> int \<Rightarrow> 'a::field) \<Rightarrow> int \<Rightarrow> 'a" where
  "unit_col0 p G a = (if a < p then 0 else mult2_0 p G a)"

definition unit_col1 :: "int \<Rightarrow> (int \<Rightarrow> int \<Rightarrow> 'a::field) \<Rightarrow> int \<Rightarrow> 'a" where
  "unit_col1 p G a = (if a < p then 0 else mult2_1 p G a)"

definition block_term :: "(int \<Rightarrow> int \<Rightarrow> 'a::field) \<Rightarrow> int \<Rightarrow> 'a pivot \<Rightarrow> int \<Rightarrow> int \<Rightarrow> 'a" where
  "block_term G p P a b = (case ptype P of
      OneByOne \<Rightarrow> unit_col p G a * pd00 P * unit_col p G b
    | TwoByTwo \<Rightarrow> unit_col0 p G a * (pd00 P * unit_col0 p G b + pd10 P * unit_col1 p G b)
        + unit_col1 p G a * (pd10 P * unit_col0 p G b + pd11 P * unit_col1 p G b))"

text \<open>Entry \<open>(a, b)\<close> of \<open>L D L^T\<close>, the blocks at \<open>p\<close> and on.\<close>

fun ldl :: "(int \<Rightarrow> int \<Rightarrow> 'a::field) \<Rightarrow> int \<Rightarrow> 'a pivot list \<Rightarrow> int \<Rightarrow> int \<Rightarrow> 'a" where
  "ldl G p [] a b = 0"
| "ldl G p (P # ps) a b = block_term G p P a b + ldl G (p + pwidth P) ps a b"

definition pwidths :: "'a pivot list \<Rightarrow> int" where
  "pwidths ps = sum_list (map pwidth ps)"

lemma pwidths_simps [simp]: "pwidths [] = 0" "pwidths (P # ps) = pwidth P + pwidths ps" "pwidths (ps @ qs) = pwidths ps + pwidths qs"
  by (simp_all add: pwidths_def)

lemma pwidth_pos: "1 \<le> pwidth P"
  by (simp split: pivot_type.split)

lemma pwidths_nonneg: "0 \<le> pwidths ps"
proof (induction ps)
  case (Cons P ps)
  then show ?case using pwidth_pos [of P] by (simp only: pwidths_simps)
qed simp

lemma ldl_append: "ldl G p (ps @ [P]) a b = ldl G p ps a b + block_term G (p + pwidths ps) P a b"
proof (induction ps arbitrary: p)
  case (Cons Q ps)
  then show ?case by (simp add: add.assoc del: pwidth.simps)
qed simp

lemma piv_perm_append: "piv_perm p (ps @ [P]) a = piv_perm p ps (piv_swap (p + pwidths ps) P a)"
proof (induction ps arbitrary: p)
  case (Cons Q ps)
  then show ?case by (simp add: add.assoc del: pwidth.simps piv_swap.simps)
qed (simp del: piv_swap.simps)

lemma block_term_sym: "block_term G p P a b = block_term G p P b a"
  by (simp add: block_term_def algebra_simps split: pivot_type.split)

lemma ldl_sym: "ldl G p ps a b = ldl G p ps b a"
proof (induction ps arbitrary: p)
  case (Cons P ps)
  then show ?case using block_term_sym [of G p P a b] by (simp del: pwidth.simps)
qed simp

lemma block_term_map:
  assumes "\<And>x c. x = a \<or> x = b \<Longrightarrow> 0 \<le> c \<Longrightarrow> c < k \<Longrightarrow> G' x c = G (s x) c"
    and "\<And>x. x = a \<or> x = b \<Longrightarrow> (s x < k \<longleftrightarrow> x < k) \<and> (x < k \<longrightarrow> s x = x)"
    and "0 \<le> p" "p + pwidth P \<le> k"
  shows "block_term G' p P a b = block_term G p P (s a) (s b)"
proof (cases "ptype P")
  case OneByOne
  then have p: "p < k" using assms(4) by simp
  have "unit_col p G' x = unit_col p G (s x)" if "x = a \<or> x = b" for x
    using assms(1) [OF that assms(3) p] assms(2) [OF that] p by (auto simp: unit_col_def mult1_def)
  then show ?thesis using OneByOne by (simp add: block_term_def)
next
  case TwoByTwo
  then have p: "p < k" "p + 1 < k" "0 \<le> p + 1" using assms(3,4) by simp_all
  have "unit_col0 p G' x = unit_col0 p G (s x) \<and> unit_col1 p G' x = unit_col1 p G (s x)" if "x = a \<or> x = b" for x
  proof (cases "x < k")
    case True
    then have "s x = x" using assms(2) [OF that] by simp
    then show ?thesis
      using assms(1) [OF that assms(3) p(1)] assms(1) [OF that p(3,2)]
      by (simp add: unit_col0_def unit_col1_def mult2_0_def mult2_1_def)
  next
    case False
    then have "k \<le> x" "k \<le> s x" using assms(2) [OF that] by simp_all
    then have "\<not> x < p" "x \<noteq> p" "x \<noteq> p + 1" "\<not> s x < p" "s x \<noteq> p" "s x \<noteq> p + 1" using p by linarith+
    then show ?thesis
      using assms(1) [OF that assms(3) p(1)] assms(1) [OF that p(3,2)]
      by (simp add: unit_col0_def unit_col1_def mult2_0_def mult2_1_def)
  qed
  then show ?thesis using TwoByTwo by (simp add: block_term_def)
qed

lemma ldl_map:
  assumes "\<And>x c. x = a \<or> x = b \<Longrightarrow> 0 \<le> c \<Longrightarrow> c < k \<Longrightarrow> G' x c = G (s x) c"
    and "\<And>x. x = a \<or> x = b \<Longrightarrow> (s x < k \<longleftrightarrow> x < k) \<and> (x < k \<longrightarrow> s x = x)"
    and "0 \<le> p" "p + pwidths ps \<le> k"
  shows "ldl G' p ps a b = ldl G p ps (s a) (s b)"
  using assms(3,4)
proof (induction ps arbitrary: p)
  case (Cons P ps)
  have w: "0 \<le> p + pwidth P" "p + pwidth P + pwidths ps \<le> k" "p + pwidth P \<le> k"
    using Cons.prems pwidth_pos [of P] pwidths_nonneg [of ps] unfolding pwidths_simps by linarith+
  show ?case
    using block_term_map [where a = a and b = b and s = s and k = k and G = G and G' = G' and p = p, OF assms(1,2) Cons.prems(1) w(3)] Cons.IH [OF w(1,2)] by (simp del: pwidth.simps)
qed simp

section \<open>The steps keep the product\<close>

text \<open>\<open>sg\<close> is the permutation so far, \<open>k\<close> the columns done.\<close>

definition part_fact :: "int \<Rightarrow> (int \<Rightarrow> int \<Rightarrow> 'a::field) \<Rightarrow> (int \<Rightarrow> int) \<Rightarrow> 'a pivot list \<Rightarrow> int \<Rightarrow> (int \<Rightarrow> int \<Rightarrow> 'a) \<Rightarrow> bool" where
  "part_fact n F sg ps k G \<longleftrightarrow> pwidths ps = k \<and> (\<forall>a b. 0 \<le> a \<and> a < n \<and> 0 \<le> b \<and> b < n \<longrightarrow>
     sy F (sg a) (sg b) = ldl G 0 ps a b + (if k \<le> a \<and> k \<le> b then sy G a b else 0))"

lemma part_fact_swap:
  assumes f: "part_fact n F sg ps k G" and p: "0 \<le> k" "k \<le> p" "p < n" "k \<le> q" "q < n"
  shows "part_fact n F (\<lambda>a. sg (swp p q a)) ps k (exchanged p q G)"
  unfolding part_fact_def
proof (intro conjI allI impI)
  show w: "pwidths ps = k" using f by (simp add: part_fact_def)
  fix a b assume ab: "0 \<le> a \<and> a < n \<and> 0 \<le> b \<and> b < n"
  let ?s = "swp p q"
  have s: "(?s x < k \<longleftrightarrow> x < k) \<and> (x < k \<longrightarrow> ?s x = x)" for x using p by (auto simp: swp_def)
  have low: "exchanged p q G x c = G (?s x) c" if "0 \<le> c" "c < k" for x c
  proof (cases "c \<le> x")
    case True
    then have "c \<le> ?s x" using s [of x] that p by (auto simp: swp_def)
    then show ?thesis using exchanged_low [OF True, of p q G] s [of c] that by (simp add: sy_def)
  next
    case False
    then have "x \<noteq> p" "x \<noteq> q" using that p by auto
    then show ?thesis using False by (auto simp: exchanged_def swap_ghost_def swp_def)
  qed
  have "ldl (exchanged p q G) 0 ps a b = ldl G 0 ps (?s a) (?s b)"
    by (rule ldl_map [where k = k]) (use low s w in auto)
  moreover have "0 \<le> ?s a" "?s a < n" "0 \<le> ?s b" "?s b < n" using ab p by (auto simp: swp_def)
  moreover have "k \<le> ?s x \<longleftrightarrow> k \<le> x" for x using s [of x] by linarith
  ultimately show "sy F (sg (?s a)) (sg (?s b)) = ldl (exchanged p q G) 0 ps a b
      + (if k \<le> a \<and> k \<le> b then sy (exchanged p q G) a b else 0)"
    using f by (simp add: part_fact_def sy_exchanged)
qed

lemma part_fact_step:
  assumes f: "part_fact n F sg ps k G" and P: "pwidth P = w" and k: "0 \<le> k"
    and low: "\<And>x c. 0 \<le> c \<Longrightarrow> c < k \<Longrightarrow> G' x c = G x c"
    and id: "\<And>a b. k \<le> b \<Longrightarrow> b \<le> a \<Longrightarrow> a < n \<Longrightarrow> G a b = block_term G' k P a b + (if k + w \<le> b then G' a b else 0)"
    and below: "\<And>a b. a < k \<or> b < k \<Longrightarrow> block_term G' k P a b = 0"
  shows "part_fact n F sg (ps @ [P]) (k + w) G'"
  unfolding part_fact_def
proof (intro conjI allI impI)
  have w: "pwidths ps = k" using f by (simp add: part_fact_def)
  then show "pwidths (ps @ [P]) = k + w" using P by simp
  fix a b assume ab: "0 \<le> a \<and> a < n \<and> 0 \<le> b \<and> b < n"
  have w1: "1 \<le> w" using pwidth_pos [of P] P by linarith
  have l: "ldl G' 0 (ps @ [P]) a b = ldl G 0 ps a b + block_term G' k P a b"
    using ldl_map [of a b k G' G "\<lambda>x. x" 0 ps] low w by (simp add: ldl_append del: ldl.simps)
  have "(if k \<le> a \<and> k \<le> b then sy G a b else 0)
      = block_term G' k P a b + (if k + w \<le> a \<and> k + w \<le> b then sy G' a b else 0)"
  proof (cases "k \<le> a \<and> k \<le> b")
    case True
    show ?thesis
    proof (cases "b \<le> a")
      case le: True
      then show ?thesis using id [of b a] True ab by (auto simp: sy_def)
    next
      case False
      then show ?thesis using id [of a b] True ab block_term_sym [of G' k P a b] by (auto simp: sy_def)
    qed
  next
    case False
    then have "block_term G' k P a b = 0" by (intro below) auto
    moreover have "\<not> (k + w \<le> a \<and> k + w \<le> b)" using False w1 by linarith
    ultimately show ?thesis using False by (simp only: if_False add_0_left)
  qed
  then show "sy F (sg a) (sg b) = ldl G' 0 (ps @ [P]) a b + (if k + w \<le> a \<and> k + w \<le> b then sy G' a b else 0)"
    using f ab l by (simp add: part_fact_def)
qed

lemma part_fact_elim1:
  fixes G :: "int \<Rightarrow> int \<Rightarrow> 'a::linordered_field"
  assumes f: "part_fact n F sg ps k G" and k: "0 \<le> k" "k < n" and d: "G k k \<noteq> 0"
    and P: "ptype P = OneByOne" "pd00 P = G k k"
  shows "part_fact n F sg (ps @ [P]) (k + 1) (elim1 n k n G)"
proof (rule part_fact_step [OF f])
  show "pwidth P = 1" using P by simp
  show "elim1 n k n G x c = G x c" if "0 \<le> c" "c < k" for x c using that by (simp add: elim1_def)
  show "G a b = block_term (elim1 n k n G) k P a b + (if k + 1 \<le> b then elim1 n k n G a b else 0)"
    if "k \<le> b" "b \<le> a" "a < n" for a b
  proof -
    have "k < b \<longleftrightarrow> k + 1 \<le> b" "b < n" using that by linarith+
    then show ?thesis using elim1_id [of G k b a n n, OF d that(1,2,3)] that P by (simp add: block_term_def unit_col_def)
  qed
  show "block_term (elim1 n k n G) k P a b = 0" if "a < k \<or> b < k" for a b
    using that P by (auto simp: block_term_def unit_col_def)
qed (rule k)

lemma part_fact_elim2:
  fixes G :: "int \<Rightarrow> int \<Rightarrow> 'a::linordered_field"
  assumes f: "part_fact n F sg ps k G" and k: "0 \<le> k" "k + 1 < n"
    and d: "G k k * G (k + 1) (k + 1) - G (k + 1) k ^ 2 \<noteq> 0"
    and P: "ptype P = TwoByTwo" "pd00 P = G k k" "pd10 P = G (k + 1) k" "pd11 P = G (k + 1) (k + 1)"
  shows "part_fact n F sg (ps @ [P]) (k + 2) (upd (elim2 n k n G) (k + 1) k 0)"
proof (rule part_fact_step [OF f])
  let ?E = "elim2 n k n G" let ?G = "upd ?E (k + 1) k 0"
  show "pwidth P = 2" using P by simp
  show "?G x c = G x c" if "0 \<le> c" "c < k" for x c using that by (simp add: elim2_def upd_def)
  have m: "mult2_0 k ?G x = mult2_0 k ?E x" "mult2_1 k ?G x = mult2_1 k ?E x" for x
    by (simp_all add: mult2_0_def mult2_1_def upd_def)
  show "G a b = block_term ?G k P a b + (if k + 2 \<le> b then ?G a b else 0)"
    if "k \<le> b" "b \<le> a" "a < n" for a b
  proof -
    have "k + 1 < b \<longleftrightarrow> k + 2 \<le> b" by linarith
    moreover have "k + 2 \<le> b \<Longrightarrow> ?G a b = ?E a b" by (simp add: upd_def)
    ultimately show ?thesis
      using elim2_id [of G k b a n n, OF d that(1,2,3)] that P
      by (simp add: block_term_def unit_col0_def unit_col1_def m)
  qed
  show "block_term ?G k P a b = 0" if "a < k \<or> b < k" for a b
    using that P by (auto simp: block_term_def unit_col0_def unit_col1_def)
qed (rule k)

section \<open>Inertia\<close>

definition block_det2 :: "'a::field pivot \<Rightarrow> 'a" where
  "block_det2 P = pd00 P * pd11 P - pd10 P ^ 2"

definition pos_count :: "'a::linordered_field pivot \<Rightarrow> int" where
  "pos_count P = (case ptype P of
      OneByOne \<Rightarrow> if pd00 P > 0 then 1 else 0
    | TwoByTwo \<Rightarrow> if block_det2 P < 0 then 1 else if pd00 P > 0 then 2 else 0)"

definition neg_count :: "'a::linordered_field pivot \<Rightarrow> int" where
  "neg_count P = (case ptype P of
      OneByOne \<Rightarrow> if pd00 P > 0 then 0 else 1
    | TwoByTwo \<Rightarrow> if block_det2 P < 0 then 1 else if pd00 P > 0 then 0 else 2)"

definition counts :: "inertia_counts \<Rightarrow> int" where
  "counts c = positive c + negative c + zero_count c"

lemma add_inertia_1x1_counts [simp]: "counts (add_inertia_1x1 d small c) = counts c + 1"
  by (simp add: add_inertia_1x1_def counts_def)

lemma add_inertia_2x2_counts [simp]: "counts (add_inertia_2x2 d00 d10 d11 small c) = counts c + 2"
proof (cases "d10 = 0")
  case False
  then show ?thesis unfolding add_inertia_2x2_def Let_def
    by (auto split: prod.split) (simp_all add: counts_def)
qed (simp add: add_inertia_2x2_def)

lemma pos_det_trace:
  fixes a b c :: "'a::linordered_field"
  assumes "a * c - b ^ 2 > 0"
  shows "a > 0 \<and> c > 0 \<or> a < 0 \<and> c < 0"
proof -
  have "0 < a * c" using assms zero_le_power2 [of b] by linarith
  then show ?thesis by (simp add: zero_less_mult_iff)
qed

lemma add_inertia_2x2_signs:
  fixes d00 :: "'a::linordered_field"
  assumes d10: "d10 \<noteq> 0" and ds: "scaled_det_2x2 d00 d10 d11 = (det_s, s)" and big: "0 < small" "small < \<bar>det_s\<bar>"
  defines "d \<equiv> d00 * d11 - d10 ^ 2"
  shows "d \<noteq> 0" "add_inertia_2x2 d00 d10 d11 small c = (if d < 0 then c\<lparr>positive := positive c + 1, negative := negative c + 1\<rparr>
    else if d00 > 0 then c\<lparr>positive := positive c + 2\<rparr> else c\<lparr>negative := negative c + 2\<rparr>)"
proof -
  have s0: "s \<noteq> 0" using scaled_det_scale_0 ds d10 by fastforce
  note s = scaled_det_eq [OF s0 ds]
  have d: "d = det_s * s ^ 2" using s(2) by (simp add: d_def)
  then show "d \<noteq> 0" using big s0 by auto
  have s2: "0 < s ^ 2" using s(1) by simp
  have sg: "d < 0 \<longleftrightarrow> det_s < 0" using d s2 by (simp add: mult_less_0_iff)
  show "add_inertia_2x2 d00 d10 d11 small c = (if d < 0 then c\<lparr>positive := positive c + 1, negative := negative c + 1\<rparr>
    else if d00 > 0 then c\<lparr>positive := positive c + 2\<rparr> else c\<lparr>negative := negative c + 2\<rparr>)"
  proof (cases "d < 0")
    case True
    then have "det_s < - small" using sg big by linarith
    then show ?thesis using True d10 ds s0 by (simp add: add_inertia_2x2_def)
  next
    case False
    then have p: "\<not> det_s < - small" "\<not> \<bar>det_s\<bar> \<le> small" "0 < d" using sg big \<open>d \<noteq> 0\<close> by linarith+
    have "d00 / s + d11 / s = (d00 + d11) / s" by (simp add: add_divide_distrib)
    moreover have "d00 > 0 \<and> d11 > 0 \<or> d00 < 0 \<and> d11 < 0" by (rule pos_det_trace [of d00 d11 d10]) (use p(3) d_def in simp)
    ultimately have "(d00 / s + d11 / s > 0 \<longleftrightarrow> d00 > 0) \<and> (d00 > 0 \<or> d00 / s + d11 / s < 0)"
      using s(1) by (auto simp: zero_less_divide_iff divide_less_0_iff)
    then show ?thesis using False d10 ds s0 p by (auto simp: add_inertia_2x2_def Let_def)
  qed
qed

section \<open>The loops of the factorization\<close>

lemma dense_max_abs_ok: "cm lda n n A F \<Longrightarrow> ok (dense_max_abs lda n A) (\<lambda>m. 0 \<le> m)"
  unfolding dense_max_abs_def
proof (rule for_range_ok [where I = "\<lambda>_ m. 0 \<le> m"])
  fix j and m :: 'a assume c: "cm lda n n A F" and j: "0 \<le> j" "j < n" and m: "0 \<le> m"
  have g: "mget lda A i j = Some (F i j)" if "j \<le> i" "i < n" for i using cm_get [OF c] that j by simp
  show "ok (max_abs_loop j n (\<lambda>i. mget lda A i j) m) (\<lambda>m. 0 \<le> m)"
    by (rule ok_mono [OF max_abs_loop_ok [where h = "\<lambda>i. F i j", OF g]]) (use m in auto)
qed simp_all

lemma dense_sym_swap_ok:
  assumes c: "cm lda n n A F" and p: "0 \<le> p" "p < n" "0 \<le> q" "q < n"
  shows "ok (dense_sym_swap lda n A p q) (\<lambda>A'. cm lda n n A' (exchanged p q F))"
proof -
  have less: "ok (do { A \<leftarrow> swap_low lda p q A; swap_rest lda p q (q + 1) n A }) (\<lambda>A'. cm lda n n A' (swap_ghost p q F))"
    if pq: "0 \<le> p" "p < q" "q < n" for p q
  proof -
    obtain A1 where a1: "swap_low lda p q A = Some A1" "cm lda n n A1 (half (low_done p q) p q F)"
      using ok_ex [OF swap_low_ok [OF c pq pq(3)]] by blast
    have q1: "q < q + 1" by simp
    have "ok (swap_rest lda p q (q + 1) n A1) (\<lambda>A'. cm lda n n A' (swap_ghost p q F))"
    proof (rule ok_mono [OF swap_rest_ok [OF a1(2) pq(1,2) q1 order.refl pq(3)]])
      show "\<not> low_done p q m p \<and> \<not> low_done p q m q" if "q + 1 \<le> m" for m using that pq by (auto simp: low_done_def)
      fix A' assume "cm lda n n A' (half (\<lambda>a b. low_done p q a b \<or> (b = p \<or> b = q) \<and> q + 1 \<le> a \<and> a < n) p q F)"
      then show "cm lda n n A' (swap_ghost p q F)"
      proof (rule half_complete [OF _ pq(2)])
        fix a b assume ab: "0 \<le> b" "b \<le> a" "a < n" "a = p \<or> a = q \<or> b = p \<or> b = q"
        show "(low_done p q a b \<or> (b = p \<or> b = q) \<and> q + 1 \<le> a \<and> a < n) \<or> (a = q \<and> b = p)"
          unfolding low_done_def using ab pq by (cases "a < p"; cases "a < q"; cases "b < p"; cases "b < q") (simp; linarith)+
      next
        fix a b assume "low_done p q a b \<or> (b = p \<or> b = q) \<and> q + 1 \<le> a \<and> a < n"
        then show "b \<le> a" using pq unfolding low_done_def by linarith
      qed
    qed
    then show ?thesis by (simp add: a1(1))
  qed
  consider "p = q" | "p < q" | "q < p" by linarith
  then show ?thesis
    by cases (use c p less [of p q] less [of q p] in \<open>simp_all add: dense_sym_swap_def exchanged_def\<close>)
qed

lemma dense_partner_ok:
  assumes c: "cm lda n n A F" and k: "0 \<le> k" "k < n"
  shows "ok (dense_partner lda n A k) (\<lambda>(w, r). (w \<noteq> 0 \<longrightarrow> k < r \<and> r < n \<and> F r k \<noteq> 0))"
proof (cases "k + 1 < n")
  case True
  let ?I = "\<lambda>j (w, r). k < r \<and> r < n \<and> w = \<bar>F r k\<bar>"
  have get: "mget lda A i k = Some (F i k)" if "k < i" "i < n" for i using cm_get [OF c] that k by simp
  have "ok (for_range (k + 2) n (\<lambda>i (omega1, r). do {
          x \<leftarrow> mget lda A i k;
          let v = \<bar>x\<bar>;
          Some (if v > omega1 then (v, i) else (omega1, r))
        }) (\<bar>F (k + 1) k\<bar>, k + 1)) (?I n)"
  proof (rule for_range_ok [where I = ?I])
    show "?I (k + 2) (\<bar>F (k + 1) k\<bar>, k + 1)" using True by simp
  next
    fix j st assume j: "k + 2 \<le> j" "j < n" and i: "?I j st"
    obtain w r where st: "st = (w, r)" by (cases st)
    show "ok ((\<lambda>(omega1, r). do {
          x \<leftarrow> mget lda A j k;
          let v = \<bar>x\<bar>;
          Some (if v > omega1 then (v, j) else (omega1, r))
        }) st) (?I (j + 1))"
      using i j by (simp add: st get Let_def)
  qed (use True in auto)
  then have "ok (dense_partner lda n A k) (?I n)" using True get [of "k + 1"] by (simp add: dense_partner_def)
  then show ?thesis by (rule ok_mono) auto
qed (simp add: dense_partner_def)

lemma dense_omega2_ok:
  assumes c: "cm lda n n A F" and k: "0 \<le> k" "k < r" "r < n"
  shows "ok (dense_omega2 lda n A k r) (\<lambda>_. True)"
  unfolding dense_omega2_def
proof (rule for_range_ok [where I = "\<lambda>_ _. True"])
  fix j and w :: 'a assume "k \<le> j" "j < n"
  then have "mget lda A j r = Some (F j r)" "mget lda A r j = Some (F r j)" using cm_get [OF c] k by simp_all
  then show "ok (if j = r then Some w
     else do {
       let lo = (if j < r then j else r);
       let hi = (if j < r then r else j);
       x \<leftarrow> mget lda A hi lo;
       let v = \<bar>x\<bar>;
       Some (if v > w then v else w)
     }) (\<lambda>_. True)" by (simp add: Let_def)
qed simp_all

section \<open>The invariant\<close>

text \<open>Every recorded exchange stays in the trailing block, and every block is nonsingular.\<close>

definition pivot_at :: "int \<Rightarrow> int \<Rightarrow> 'a::field pivot \<Rightarrow> bool" where
  "pivot_at n p P \<longleftrightarrow> (case ptype P of
      OneByOne \<Rightarrow> p \<le> col0 P \<and> col0 P < n \<and> pd00 P \<noteq> 0
    | TwoByTwo \<Rightarrow> p < col1 P \<and> col1 P < n \<and> block_det2 P \<noteq> 0)"

fun pivots_ok :: "int \<Rightarrow> int \<Rightarrow> 'a::field pivot list \<Rightarrow> bool" where
  "pivots_ok n p [] \<longleftrightarrow> True"
| "pivots_ok n p (P # ps) \<longleftrightarrow> pivot_at n p P \<and> pivots_ok n (p + pwidth P) ps"

lemma pivots_ok_append: "pivots_ok n p (ps @ [P]) \<longleftrightarrow> pivots_ok n p ps \<and> pivot_at n (p + pwidths ps) P"
proof (induction ps arbitrary: p)
  case (Cons Q ps)
  then show ?case by (simp add: add.assoc del: pwidth.simps)
qed simp

lemma piv_perm_bij:
  assumes "pivots_ok n p ps" "0 \<le> p" "p + pwidths ps \<le> n"
  shows "bij_betw (piv_perm p ps) {0..<n} {0..<n}"
  using assms
proof (induction ps arbitrary: p)
  case (Cons P ps)
  have w: "0 \<le> p + pwidth P" "p + pwidth P + pwidths ps \<le> n" "p + pwidth P \<le> n"
    using Cons.prems pwidth_pos [of P] pwidths_nonneg [of ps] unfolding pwidths_simps by linarith+
  have sb: "bij_betw (swp a b) {0..<n} {0..<n}" if "0 \<le> a" "a < n" "0 \<le> b" "b < n" for a b
    by (rule bij_betw_byWitness [where f' = "swp a b"]) (use that in \<open>auto simp: swp_def\<close>)
  have "bij_betw (piv_swap p P) {0..<n} {0..<n}"
  proof (cases "ptype P")
    case OneByOne
    then show ?thesis using sb [of p "col0 P"] Cons.prems w(3) by (simp add: pivot_at_def)
  next
    case TwoByTwo
    then show ?thesis using sb [of "p + 1" "col1 P"] Cons.prems w(3) by (simp add: pivot_at_def)
  qed
  moreover have "bij_betw (piv_perm (p + pwidth P) ps) {0..<n} {0..<n}" using Cons.IH Cons.prems(1) w by simp
  ultimately have "bij_betw (piv_swap p P \<circ> piv_perm (p + pwidth P) ps) {0..<n} {0..<n}" by (rule bij_betw_trans [rotated])
  moreover have "piv_perm p (P # ps) = piv_swap p P \<circ> piv_perm (p + pwidth P) ps" by (rule ext) simp
  ultimately show ?case by (simp only:)
qed (simp add: bij_betw_def inj_on_def)

definition inertia_ok :: "inertia_counts \<Rightarrow> 'a::linordered_field pivot list \<Rightarrow> inertia_counts \<Rightarrow> bool" where
  "inertia_ok c0 ps c \<longleftrightarrow> positive c = positive c0 + sum_list (map pos_count ps)
     \<and> negative c = negative c0 + sum_list (map neg_count ps) \<and> zero_count c = zero_count c0"

definition ldlt_inv ::
  "int \<Rightarrow> int \<Rightarrow> (int \<Rightarrow> int \<Rightarrow> 'a::linordered_field) \<Rightarrow> 'a pivot list \<Rightarrow> inertia_counts \<Rightarrow> 'a ldlt_state \<Rightarrow> bool" where
  "ldlt_inv lda n F P0 c0 st \<longleftrightarrow> 0 \<le> lcol st \<and> lcol st \<le> n \<and> counts (linertia st) = counts c0 + lcol st
     \<and> (\<exists>ps G. lpivots st = P0 @ ps \<and> pwidths ps = lcol st \<and> cm lda n n (lmat st) G
        \<and> (\<not> lsingular st \<longrightarrow> part_fact n F (piv_perm 0 ps) ps (lcol st) G \<and> pivots_ok n 0 ps \<and> inertia_ok c0 ps (linertia st)))"

lemma eliminate_1x1_ok:
  fixes F :: "int \<Rightarrow> int \<Rightarrow> 'a::linordered_field"
  assumes e: "0 < eff" and k: "lcol st = k" "0 \<le> k" "k < n" "k \<le> c" "c < n" "counts (linertia st) = counts c0 + k"
    and st: "lpivots st = P0 @ ps" "pwidths ps = k" "cm lda n n (lmat st) G"
    and f: "\<not> lsingular st \<Longrightarrow> part_fact n F (\<lambda>a. piv_perm 0 ps (swp k c a)) ps k G \<and> pivots_ok n 0 ps \<and> inertia_ok c0 ps (linertia st)"
  shows "ok (eliminate_1x1 lda n eff c st) (\<lambda>st'. ldlt_inv lda n F P0 c0 st' \<and> lcol st < lcol st')"
proof -
  have d: "mget lda (lmat st) k k = Some (G k k)" by (rule cm_get [OF st(3)]) (use k in simp_all)
  let ?P = "\<lparr>ptype = OneByOne, col0 = c, col1 = -1, pd00 = G k k, pd10 = 0, pd11 = 0\<rparr>"
  have w: "pwidths (ps @ [?P]) = k + 1" using st(2) by simp
  show ?thesis
  proof (cases "\<bar>G k k\<bar> \<ge> eff")
    case True
    then have d0: "G k k \<noteq> 0" using e by auto
    obtain A' where A': "do { A \<leftarrow> form_column lda k n (G k k) (lmat st); schur_1x1 lda k n n (G k k) A } = Some A'"
      "cm lda n n A' (elim1 n k n G)"
      using ok_ex [OF elim1_ok [OF st(3) k(2,3) order.refl order.refl order.refl d0]] by blast
    obtain A1 where A1: "form_column lda k n (G k k) (lmat st) = Some A1" "schur_1x1 lda k n n (G k k) A1 = Some A'"
      using A'(1) by (auto simp: Option.bind_eq_Some_conv)
    let ?st = "\<lparr>lmat = A', lcol = k + 1, lpivots = lpivots st @ [?P], linertia = add_inertia_1x1 (G k k) eff (linertia st), lsingular = lsingular st\<rparr>"
    have "part_fact n F (piv_perm 0 (ps @ [?P])) (ps @ [?P]) (k + 1) (elim1 n k n G) \<and> pivots_ok n 0 (ps @ [?P])
        \<and> inertia_ok c0 (ps @ [?P]) (linertia ?st)" if "\<not> lsingular st"
    proof (intro conjI)
      have "piv_perm 0 (ps @ [?P]) = (\<lambda>a. piv_perm 0 ps (swp k c a))" using st(2) by (intro ext) (simp add: piv_perm_append del: piv_perm.simps)
      then show "part_fact n F (piv_perm 0 (ps @ [?P])) (ps @ [?P]) (k + 1) (elim1 n k n G)"
        using part_fact_elim1 [where P = ?P and G = G and k = k, OF _ k(2,3) d0] f [OF that] by simp
      show "pivots_ok n 0 (ps @ [?P])" using f [OF that] k d0 st(2) by (simp add: pivots_ok_append pivot_at_def)
      show "inertia_ok c0 (ps @ [?P]) (linertia ?st)"
        using f [OF that] True d0 by (auto simp: inertia_ok_def add_inertia_1x1_def pos_count_def neg_count_def)
    qed
    then have "ldlt_inv lda n F P0 c0 ?st" unfolding ldlt_inv_def using k st w A'(2)
      by (intro conjI exI [of _ "ps @ [?P]"] exI [of _ "elim1 n k n G"]) simp_all
    then show ?thesis using k(1) d True A1 by (simp add: eliminate_1x1_def Let_def)
  next
    case False
    let ?st = "\<lparr>lmat = lmat st, lcol = k + 1, lpivots = lpivots st @ [?P], linertia = add_inertia_1x1 (G k k) eff (linertia st), lsingular = True\<rparr>"
    have "ldlt_inv lda n F P0 c0 ?st" unfolding ldlt_inv_def using k st w
      by (intro conjI exI [of _ "ps @ [?P]"] exI [of _ G]) simp_all
    then show ?thesis using k(1) d False by (simp add: eliminate_1x1_def Let_def)
  qed
qed


lemma eliminate_2x2_ok:
  fixes F :: "int \<Rightarrow> int \<Rightarrow> 'a::linordered_field"
  assumes e: "0 < eff" "0 < small" and k: "lcol st = k" "0 \<le> k" "k < r" "r < n" "counts (linertia st) = counts c0 + k"
    and st: "lpivots st = P0 @ ps" "pwidths ps = k" "cm lda n n (lmat st) G" and off: "G r k \<noteq> 0"
    and f: "\<not> lsingular st \<Longrightarrow> part_fact n F (piv_perm 0 ps) ps k G \<and> pivots_ok n 0 ps \<and> inertia_ok c0 ps (linertia st)"
  shows "ok (eliminate_2x2 lda n eff small r st) (\<lambda>st'. ldlt_inv lda n F P0 c0 st' \<and> lcol st < lcol st')"
proof -
  let ?S = "exchanged (k + 1) r G"
  have k1: "0 \<le> k + 1" "k + 1 < n" "0 \<le> r" "k \<le> k + 1" "k \<le> r" using k by simp_all
  obtain A where A: "(if r \<noteq> k + 1 then dense_sym_swap lda n (lmat st) (k + 1) r else Some (lmat st)) = Some A" "cm lda n n A ?S"
    using ok_ex [OF dense_sym_swap_ok [OF st(3) k1(1,2,3) k(4)]] st(3) by (cases "r = k + 1") (auto simp: exchanged_def)
  let ?a = "?S k k" and ?b = "?S (k + 1) k" and ?d = "?S (k + 1) (k + 1)"
  have get: "mget lda A k k = Some ?a" "mget lda A (k + 1) k = Some ?b" "mget lda A (k + 1) (k + 1) = Some ?d"
    using k k1 by (simp_all add: cm_get [OF A(2)])
  have b: "?b \<noteq> 0" using off k by (simp add: exchanged_low swp_def sy_def)
  obtain det_s s2 where ds: "scaled_det_2x2 ?a ?b ?d = (det_s, s2)" by (cases "scaled_det_2x2 ?a ?b ?d")
  let ?P = "\<lparr>ptype = TwoByTwo, col0 = k, col1 = r, pd00 = ?a, pd10 = ?b, pd11 = ?d\<rparr>"
  have w: "pwidths (ps @ [?P]) = k + 2" using st(2) by simp
  let ?i = "add_inertia_2x2 ?a ?b ?d small (linertia st)"
  show ?thesis
  proof (cases "s2 \<ge> eff \<and> \<bar>det_s\<bar> > small")
    case True
    note signs = add_inertia_2x2_signs [OF b ds e(2) conjunct2 [OF True]]
    let ?E = "elim2 n k n ?S" let ?G = "upd ?E (k + 1) k 0"
    obtain A' where A': "do { A \<leftarrow> form_columns2 lda k n ?a ?b ?d A; schur_2x2 lda k n n ?a ?b ?d A } = Some A'"
      "cm lda n n A' ?E"
      using ok_ex [OF elim2_ok [OF A(2) k(2) k1(2) order.refl order.refl order.refl signs(1)]] by blast
    obtain A1 where A1: "form_columns2 lda k n ?a ?b ?d A = Some A1" "schur_2x2 lda k n n ?a ?b ?d A1 = Some A'"
      using A'(1) by (auto simp: Option.bind_eq_Some_conv)
    have kn: "k < n" using k1(2) by simp
    obtain A2 where A2: "mset_at lda A' (k + 1) k 0 = Some A2" "cm lda n n A2 ?G"
      using ok_ex [OF cm_set [OF A'(2) k1(1,2) k(2) kn]] by blast
    let ?st = "\<lparr>lmat = A2, lcol = k + 2, lpivots = lpivots st @ [?P], linertia = ?i, lsingular = lsingular st\<rparr>"
    have "part_fact n F (piv_perm 0 (ps @ [?P])) (ps @ [?P]) (k + 2) ?G \<and> pivots_ok n 0 (ps @ [?P])
        \<and> inertia_ok c0 (ps @ [?P]) (linertia ?st)" if ns: "\<not> lsingular st"
    proof (intro conjI)
      have "piv_perm 0 (ps @ [?P]) = (\<lambda>a. piv_perm 0 ps (swp (k + 1) r a))" using st(2) by (intro ext) (simp add: piv_perm_append del: piv_perm.simps)
      moreover have "part_fact n F (\<lambda>a. piv_perm 0 ps (swp (k + 1) r a)) ps k ?S"
        by (rule part_fact_swap [OF conjunct1 [OF f [OF ns]] k(2) k1(4,2,5) k(4)])
      ultimately show "part_fact n F (piv_perm 0 (ps @ [?P])) (ps @ [?P]) (k + 2) ?G"
        using part_fact_elim2 [where P = ?P and G = ?S and k = k, OF _ k(2) k1(2) signs(1)] by simp
      show "pivots_ok n 0 (ps @ [?P])" using f [OF ns] k signs(1) st(2) by (simp add: pivots_ok_append pivot_at_def block_det2_def)
      show "inertia_ok c0 (ps @ [?P]) (linertia ?st)"
        using f [OF ns] signs by (simp add: inertia_ok_def pos_count_def neg_count_def block_det2_def)
    qed
    then have "ldlt_inv lda n F P0 c0 ?st" unfolding ldlt_inv_def using k k1 st w A2(2)
      by (intro conjI exI [of _ "ps @ [?P]"] exI [of _ ?G]) simp_all
    then show ?thesis using k(1) A(1) get ds True A1 A2(1) by (simp add: eliminate_2x2_def Let_def)
  next
    case False
    let ?st = "\<lparr>lmat = A, lcol = k + 2, lpivots = lpivots st @ [?P], linertia = ?i, lsingular = True\<rparr>"
    have "ldlt_inv lda n F P0 c0 ?st" unfolding ldlt_inv_def using k k1 st w A(2)
      by (intro conjI exI [of _ "ps @ [?P]"] exI [of _ ?S]) simp_all
    then show ?thesis using k(1) A(1) get ds False by (auto simp: eliminate_2x2_def Let_def)
  qed
qed

lemma ldlt_step_ok:
  fixes F :: "int \<Rightarrow> int \<Rightarrow> 'a::linordered_field"
  assumes e: "0 < eff" "0 < small" and I: "ldlt_inv lda n F P0 c0 st" and kn: "lcol st < n"
  shows "ok (ldlt_step lda n u small eff st) (\<lambda>st'. ldlt_inv lda n F P0 c0 st' \<and> lcol st < lcol st')"
proof -
  let ?k = "lcol st"
  have k: "0 \<le> ?k" "counts (linertia st) = counts c0 + ?k" using I by (simp_all add: ldlt_inv_def)
  obtain ps G where st: "lpivots st = P0 @ ps" "pwidths ps = ?k" "cm lda n n (lmat st) G"
    and f: "\<not> lsingular st \<Longrightarrow> part_fact n F (piv_perm 0 ps) ps ?k G \<and> pivots_ok n 0 ps \<and> inertia_ok c0 ps (linertia st)"
    using I unfolding ldlt_inv_def by blast
  obtain w r where r: "dense_partner lda n (lmat st) ?k = Some (w, r)" "w \<noteq> 0 \<Longrightarrow> ?k < r \<and> r < n \<and> G r ?k \<noteq> 0"
    using ok_ex [OF dense_partner_ok [OF st(3) k(1) kn]] by auto
  have gk: "mget lda (lmat st) ?k ?k = Some (G ?k ?k)" by (rule cm_get [OF st(3)]) (use k kn in simp_all)
  show ?thesis
  proof (cases "w = 0 \<or> (\<bar>G ?k ?k\<bar> \<ge> eff \<and> \<bar>G ?k ?k\<bar> \<ge> u * w)")
    case True
    have "ok (eliminate_1x1 lda n eff ?k st) (\<lambda>st'. ldlt_inv lda n F P0 c0 st' \<and> lcol st < lcol st')"
      by (rule eliminate_1x1_ok [OF e(1) HOL.refl k(1) kn order.refl kn k(2) st]) (use f in simp)
    then show ?thesis using True r(1) gk by (simp add: ldlt_step_def Let_def)
  next
    case False
    then have r2: "?k < r" "r < n" "G r ?k \<noteq> 0" using r(2) by auto
    obtain w2 where w2: "dense_omega2 lda n (lmat st) ?k r = Some w2" using ok_ex [OF dense_omega2_ok [OF st(3) k(1) r2(1,2)]] by blast
    have g: "mget lda (lmat st) r ?k = Some (G r ?k)" "mget lda (lmat st) r r = Some (G r r)"
      using k kn r2 by (simp_all add: cm_get [OF st(3)])
    obtain det_r s2r where ds: "scaled_det_2x2 (G ?k ?k) (G r ?k) (G r r) = (det_r, s2r)" by (cases "scaled_det_2x2 (G ?k ?k) (G r ?k) (G r r)")
    note eval = False r(1) gk w2 g ds
    show ?thesis
    proof (cases "\<not> (s2r \<ge> eff \<and> \<bar>det_r\<bar> > small) \<and> \<bar>G r r\<bar> \<ge> eff \<and> \<bar>G r r\<bar> \<ge> u * w2")
      case True
      have r0: "0 \<le> r" "?k \<le> r" using k r2 by simp_all
      obtain A where A: "dense_sym_swap lda n (lmat st) ?k r = Some A" "cm lda n n A (exchanged ?k r G)"
        using ok_ex [OF dense_sym_swap_ok [OF st(3) k(1) kn r0(1) r2(2)]] by blast
      let ?st = "st\<lparr>lmat := A\<rparr>"
      have "ok (eliminate_1x1 lda n eff r ?st) (\<lambda>st'. ldlt_inv lda n F P0 c0 st' \<and> lcol ?st < lcol st')"
      proof (rule eliminate_1x1_ok [OF e(1) _ k(1) kn r0(2) r2(2)])
        show "part_fact n F (\<lambda>a. piv_perm 0 ps (swp ?k r a)) ps ?k (exchanged ?k r G) \<and> pivots_ok n 0 ps \<and> inertia_ok c0 ps (linertia ?st)"
          if "\<not> lsingular ?st"
        proof -
          have ns: "\<not> lsingular st" using that by simp
          then show ?thesis using part_fact_swap [OF conjunct1 [OF f [OF ns]] k(1) order.refl kn r0(2) r2(2)] f [OF ns] by simp
        qed
      qed (use k st A(2) in simp_all)
      then show ?thesis using True A(1) eval by (auto simp: ldlt_step_def Let_def)
    next
      case two: False
      have "ok (eliminate_2x2 lda n eff small r st) (\<lambda>st'. ldlt_inv lda n F P0 c0 st' \<and> lcol st < lcol st')"
        by (rule eliminate_2x2_ok [OF e HOL.refl k(1) r2(1,2) k(2) st r2(3)]) (use f in simp)
      then show ?thesis using two eval by (auto simp: ldlt_step_def Let_def)
    qed
  qed
qed

text \<open>What a result means: \<open>P A P^T = L D L^T\<close> with nonsingular blocks, and the counts of their eigenvalues' signs.\<close>

definition factorizes :: "int \<Rightarrow> int \<Rightarrow> (int \<Rightarrow> int \<Rightarrow> 'a::linordered_field) \<Rightarrow> inertia_counts \<Rightarrow> 'a list \<Rightarrow> 'a pivot list \<Rightarrow> inertia_counts \<Rightarrow> bool" where
  "factorizes lda n F c0 A ps c \<longleftrightarrow> (\<exists>L. cm lda n n A L \<and> pivots_ok n 0 ps \<and> pwidths ps = n
     \<and> bij_betw (piv_perm 0 ps) {0..<n} {0..<n}
     \<and> (\<forall>a b. 0 \<le> a \<and> a < n \<and> 0 \<le> b \<and> b < n \<longrightarrow> sy F (piv_perm 0 ps a) (piv_perm 0 ps b) = ldl L 0 ps a b)
     \<and> inertia_ok c0 ps c)"

lemma dense_ldlt_ok:
  fixes F :: "int \<Rightarrow> int \<Rightarrow> 'a::linordered_field"
  assumes c: "cm lda n n A F" and n: "0 \<le> n" and small: "0 < small"
  shows "ok (dense_ldlt_indef A n lda u small P0 c0) (\<lambda>(A', P, c, status). counts c = counts c0 + n
    \<and> (\<exists>ps. P = P0 @ ps \<and> pwidths ps = n \<and> (status = Success \<longrightarrow> factorizes lda n F c0 A' ps c)))"
proof -
  obtain m where m: "dense_max_abs lda n A = Some m" using ok_ex [OF dense_max_abs_ok [OF c]] by blast
  let ?e = "dense_eff_small small m"
  have e: "0 < ?e" using small by (simp add: dense_eff_small_def)
  let ?st = "\<lparr>lmat = A, lcol = 0, lpivots = P0, linertia = c0, lsingular = False\<rparr>"
  have "ok (loop (\<lambda>st. if lcol st < n then do { st \<leftarrow> ldlt_step lda n u small ?e st; Some (Inr st) } else Some (Inl st)) ?st)
    (\<lambda>st. ldlt_inv lda n F P0 c0 st \<and> lcol st = n)"
  proof (rule loop_ok [where I = "ldlt_inv lda n F P0 c0" and m = "\<lambda>st. nat (n - lcol st)"])
    show "ldlt_inv lda n F P0 c0 ?st" unfolding ldlt_inv_def using c n
      by (intro conjI exI [of _ "[]"] exI [of _ F]) (simp_all add: part_fact_def inertia_ok_def)
  next
    fix st assume I: "ldlt_inv lda n F P0 c0 st"
    show "ok (if lcol st < n then do { st \<leftarrow> ldlt_step lda n u small ?e st; Some (Inr st) } else Some (Inl st))
      (\<lambda>x. case x of Inl st \<Rightarrow> ldlt_inv lda n F P0 c0 st \<and> lcol st = n
        | Inr st' \<Rightarrow> ldlt_inv lda n F P0 c0 st' \<and> nat (n - lcol st') < nat (n - lcol st))"
    proof (cases "lcol st < n")
      case True
      have "ok (ldlt_step lda n u small ?e st) (\<lambda>st'. ldlt_inv lda n F P0 c0 st' \<and> nat (n - lcol st') < nat (n - lcol st))"
        by (rule ok_mono [OF ldlt_step_ok [OF e small I True]]) (use True in auto)
      then show ?thesis using True by simp
    next
      case False
      then have "lcol st = n" using I by (simp add: ldlt_inv_def)
      then show ?thesis using I by simp
    qed
  qed
  then obtain st where st: "loop (\<lambda>st. if lcol st < n then do { st \<leftarrow> ldlt_step lda n u small ?e st; Some (Inr st) } else Some (Inl st)) ?st = Some st"
    "ldlt_inv lda n F P0 c0 st" "lcol st = n" unfolding ok_def by blast
  obtain ps G where ps: "lpivots st = P0 @ ps" "pwidths ps = n" "cm lda n n (lmat st) G"
    and f: "\<not> lsingular st \<Longrightarrow> part_fact n F (piv_perm 0 ps) ps n G \<and> pivots_ok n 0 ps \<and> inertia_ok c0 ps (linertia st)"
    using st(2) unfolding ldlt_inv_def st(3) by blast
  have "factorizes lda n F c0 (lmat st) ps (linertia st)" if "\<not> lsingular st"
    unfolding factorizes_def using f [OF that] ps piv_perm_bij [of n 0 ps]
    by (intro exI [of _ G]) (simp add: part_fact_def)
  then show ?thesis using m st ps(1,2) by (auto simp: dense_ldlt_indef_def Let_def ldlt_inv_def)
qed


section \<open>The meaning of the inertia of a block\<close>

definition quad_form :: "'a::field \<Rightarrow> 'a \<Rightarrow> 'a \<Rightarrow> 'a \<Rightarrow> 'a \<Rightarrow> 'a" where
  "quad_form a b d x y = a * x * x + 2 * b * x * y + d * y * y"

lemma quad_form_square:
  "a * quad_form a b d x y = (a * x + b * y) ^ 2 + (a * d - b ^ 2) * y ^ 2" for a :: "'a::linordered_field"
  by (simp add: quad_form_def power2_eq_square algebra_simps)

lemma definite_iff:
  fixes a :: "'a::linordered_field"
  assumes "a * d - b ^ 2 > 0" "x \<noteq> 0 \<or> y \<noteq> 0"
  shows "0 < a * quad_form a b d x y"
proof (cases "y = 0")
  case True
  have "a \<noteq> 0" using assms(1) by (auto simp: not_less)
  then show ?thesis using True assms(2) by (simp add: quad_form_square)
next
  case False
  then have "0 < (a * d - b ^ 2) * y ^ 2" using assms(1) by simp
  then show ?thesis unfolding quad_form_square by (rule add_nonneg_pos [OF zero_le_power2])
qed

lemma indefinite:
  fixes a :: "'a::linordered_field"
  assumes "a * d - b ^ 2 < 0"
  shows "\<exists>x y. 0 < quad_form a b d x y" "\<exists>x y. quad_form a b d x y < 0"
proof -
  let ?q = "quad_form a b d"
  have "(\<exists>x y. 0 < ?q x y) \<and> (\<exists>x y. ?q x y < 0)"
  proof (cases "a = 0")
    case True
    then have b: "b \<noteq> 0" using assms by auto
    have "?q ((s - d) / (2 * b)) 1 = s" for s using True b by (simp add: quad_form_def field_simps)
    from this [of 1] this [of "-1"] show ?thesis by (metis zero_less_one neg_less_0_iff_less)
  next
    case False
    have "a * ?q (- b) a = (a * d - b ^ 2) * a ^ 2" unfolding quad_form_square by (simp add: power2_eq_square)
    then have m: "a * ?q (- b) a < 0" using assms False by (simp add: mult_neg_pos)
    have p: "?q 1 0 = a" by (simp add: quad_form_def)
    show ?thesis
    proof (cases "a > 0")
      case True
      then have "?q (- b) a < 0" using m by (simp add: mult_less_0_iff)
      then show ?thesis using True p by metis
    next
      case f: False
      then have "?q (- b) a > 0" using m False by (auto simp: mult_less_0_iff)
      then show ?thesis using f False p by (metis not_less_iff_gr_or_eq)
    qed
  qed
  then show "\<exists>x y. 0 < ?q x y" "\<exists>x y. ?q x y < 0" by blast+
qed

section \<open>Properties\<close>

text \<open>The counts added for one block: \<open>p\<close> positive, \<open>m\<close> negative and \<open>z\<close> zero eigenvalues of \<open>[[a, b], [b, d]]\<close>.\<close>

definition signs_sound :: "'a::linordered_field \<Rightarrow> 'a \<Rightarrow> 'a \<Rightarrow> int \<Rightarrow> int \<Rightarrow> int \<Rightarrow> bool" where
  "signs_sound a b d p m z \<longleftrightarrow> 0 \<le> p \<and> 0 \<le> m \<and> 0 \<le> z \<and> p + m + z = 2
     \<and> (p = 2 \<longrightarrow> (\<forall>x y. x \<noteq> 0 \<or> y \<noteq> 0 \<longrightarrow> 0 < quad_form a b d x y))
     \<and> (m = 2 \<longrightarrow> (\<forall>x y. x \<noteq> 0 \<or> y \<noteq> 0 \<longrightarrow> quad_form a b d x y < 0))
     \<and> (0 < p \<longrightarrow> (\<exists>x y. 0 < quad_form a b d x y)) \<and> (0 < m \<longrightarrow> (\<exists>x y. quad_form a b d x y < 0))"

lemma quad_form_axes: "quad_form a b d 1 0 = a" "quad_form a b d 0 1 = d"
  by (simp_all add: quad_form_def)

lemma signs_diagonal:
  fixes a d :: "'a::linordered_field"
  shows "0 < a \<Longrightarrow> 0 < d \<Longrightarrow> signs_sound a 0 d 2 0 0" "a < 0 \<Longrightarrow> d < 0 \<Longrightarrow> signs_sound a 0 d 0 2 0"
    "0 < a \<or> 0 < d \<Longrightarrow> signs_sound a b d 1 0 1" "a < 0 \<or> d < 0 \<Longrightarrow> signs_sound a b d 0 1 1"
    "0 < a \<and> d < 0 \<or> a < 0 \<and> 0 < d \<Longrightarrow> signs_sound a b d 1 1 0" "signs_sound a b d 0 0 2"
proof -
  have ex: "\<exists>x y. 0 < quad_form a b d x y" if "0 < a \<or> 0 < d" for a b d :: 'a
    using that quad_form_axes [of a b d] by metis
  have ex': "\<exists>x y. quad_form a b d x y < 0" if "a < 0 \<or> d < 0" for a b d :: 'a
    using that quad_form_axes [of a b d] by metis
  have q: "quad_form a 0 d x y = a * x ^ 2 + d * y ^ 2" for x y by (simp add: quad_form_def power2_eq_square)
  show "signs_sound a 0 d 2 0 0" if p: "0 < a" "0 < d"
  proof -
    have "0 < quad_form a 0 d x y" if "x \<noteq> 0 \<or> y \<noteq> 0" for x y
      unfolding q using that p by (auto intro: add_pos_nonneg add_nonneg_pos)
    then show ?thesis using ex p by (simp add: signs_sound_def)
  qed
  show "signs_sound a 0 d 0 2 0" if p: "a < 0" "d < 0"
  proof -
    have "quad_form a 0 d x y < 0" if "x \<noteq> 0 \<or> y \<noteq> 0" for x y
      unfolding q using that p by (auto intro: add_neg_nonpos add_nonpos_neg simp: mult_neg_pos mult_nonpos_nonneg)
    then show ?thesis using ex' p by (simp add: signs_sound_def)
  qed
qed (use quad_form_axes [of a b d] in \<open>simp_all add: signs_sound_def\<close>, metis+)

lemma signs_regular:
  fixes a :: "'a::linordered_field"
  assumes "a * d - b ^ 2 \<noteq> 0"
  shows "signs_sound a b d (if a * d - b ^ 2 < 0 then 1 else if a > 0 then 2 else 0) (if a * d - b ^ 2 < 0 then 1 else if a > 0 then 0 else 2) 0"
proof (cases "a * d - b ^ 2 < 0")
  case True
  then show ?thesis using indefinite [OF True] by (simp add: signs_sound_def)
next
  case False
  then have p: "0 < a * d - b ^ 2" using assms by simp
  note q = definite_iff [OF p]
  from pos_det_trace [OF p] consider "a > 0" | "a < 0" by blast
  then show ?thesis
  proof cases
    case 1
    then have "\<forall>x y. x \<noteq> 0 \<or> y \<noteq> 0 \<longrightarrow> 0 < quad_form a b d x y" using q by (simp add: zero_less_mult_iff)
    then show ?thesis using False 1 quad_form_axes(1) [of a b d] by (auto simp: signs_sound_def intro: exI [of _ 1] exI [of _ 0])
  next
    case 2
    then have "\<forall>x y. x \<noteq> 0 \<or> y \<noteq> 0 \<longrightarrow> quad_form a b d x y < 0" using q by (fastforce simp: zero_less_mult_iff)
    then show ?thesis using False 2 quad_form_axes(1) [of a b d] by (auto simp: signs_sound_def intro: exI [of _ 1] exI [of _ 0])
  qed
qed

definition add_counts :: "inertia_counts \<Rightarrow> int \<Rightarrow> int \<Rightarrow> int \<Rightarrow> inertia_counts" where
  "add_counts c p m z = \<lparr>positive = positive c + p, negative = negative c + m, zero_count = zero_count c + z\<rparr>"

lemma add_inertia_diagonal:
  assumes "0 < small"
  shows "\<exists>p m z. add_inertia_2x2 d00 0 d11 small c = add_counts c p m z \<and> signs_sound d00 0 d11 p m z
    \<and> (z = 0 \<longleftrightarrow> small \<le> \<bar>d00\<bar> \<and> small \<le> \<bar>d11\<bar>)"
proof -
  let ?p = "\<lambda>x. if small \<le> \<bar>x\<bar> \<and> 0 < x then 1 else 0" and ?m = "\<lambda>x. if small \<le> \<bar>x\<bar> \<and> x < 0 then 1 else 0"
    and ?z = "\<lambda>x. if small \<le> \<bar>x\<bar> then 0 else 1"
  have sg: "\<bar>x\<bar> < small \<or> small \<le> \<bar>x\<bar> \<and> 0 < x \<or> small \<le> \<bar>x\<bar> \<and> x < 0 \<and> \<not> 0 < x" for x using assms by auto
  have "add_inertia_2x2 d00 0 d11 small c = add_counts c (?p d00 + ?p d11) (?m d00 + ?m d11) (?z d00 + ?z d11)"
    using sg [of d00] sg [of d11] by (auto simp: add_inertia_2x2_def add_inertia_1x1_def add_counts_def)
  moreover have "signs_sound d00 0 d11 (?p d00 + ?p d11) (?m d00 + ?m d11) (?z d00 + ?z d11)"
    using sg [of d00] sg [of d11] by (elim disjE conjE) (simp_all add: signs_diagonal)
  moreover have "(?z d00 + ?z d11 = (0 :: int)) = (small \<le> \<bar>d00\<bar> \<and> small \<le> \<bar>d11\<bar>)" by simp
  ultimately show ?thesis by blast
qed

lemma add_inertia_near_singular:
  fixes d00 :: "'a::linordered_field"
  assumes d10: "d10 \<noteq> 0" and ds: "scaled_det_2x2 d00 d10 d11 = (det_s, s)" and small: "0 < small" "\<bar>det_s\<bar> \<le> small"
  shows "\<exists>p m z. add_inertia_2x2 d00 d10 d11 small c = add_counts c p m z \<and> signs_sound d00 d10 d11 p m z \<and> z \<noteq> 0"
proof -
  have s0: "s \<noteq> 0" using scaled_det_scale_0 ds d10 by fastforce
  note s = scaled_det_eq [OF s0 ds]
  have tr: "d00 / s + d11 / s = (d00 + d11) / s" by (simp add: add_divide_distrib)
  have nd: "\<not> det_s < - small" using small by linarith
  consider "(d00 + d11) / s > small" | "(d00 + d11) / s < - small" "\<not> (d00 + d11) / s > small"
    | "\<not> (d00 + d11) / s > small" "\<not> (d00 + d11) / s < - small" by blast
  then show ?thesis
  proof cases
    case 1
    then have "0 < (d00 + d11) / s" using small(1) by simp
    then have "0 < d00 \<or> 0 < d11" using s(1) by (auto simp: zero_less_divide_iff)
    then show ?thesis using signs_diagonal(3) [of d00 d11 d10] 1 d10 ds s0 nd small(2)
      by (intro exI [of _ 1] exI [of _ 0] exI [of _ 1]) (simp add: add_inertia_2x2_def tr add_counts_def Let_def)
  next
    case 2
    then have "(d00 + d11) / s < 0" using small(1) by simp
    then have "d00 < 0 \<or> d11 < 0" using s(1) by (auto simp: divide_less_0_iff)
    then show ?thesis using signs_diagonal(4) [of d00 d11 d10] 2 d10 ds s0 nd small(2)
      by (intro exI [of _ 0] exI [of _ 1] exI [of _ 1]) (simp add: add_inertia_2x2_def tr add_counts_def Let_def)
  next
    case 3
    then show ?thesis using signs_diagonal(6) [of d00 d10 d11] d10 ds s0 nd small(2)
      by (intro exI [of _ 0] exI [of _ 0] exI [of _ 2]) (simp add: add_inertia_2x2_def tr add_counts_def Let_def)
  qed
qed



text \<open>C10: \<open>dense_ldlt_indef\<close> of a symmetric matrix of order \<open>n\<close> in an array of leading dimension at least
  \<open>n\<close>, whose offsets fit in \<open>int\<close>, stays inside the array, computes no offset that overflows, and ends; it records pivots of total width \<open>n\<close> and counts \<open>n\<close> eigenvalues. When
  it answers \<open>Success\<close> the recorded exchanges form a permutation \<open>P\<close>, every block of \<open>D\<close> is nonsingular,
  \<open>P A P^T = L D L^T\<close> holds entry by entry with the unit lower triangular \<open>L\<close> left in the array, and the
  positive and negative counts grow by the numbers of positive and negative eigenvalues of \<open>D\<close>.\<close>

theorem dense_ldlt_indef_correct:
  fixes F :: "int \<Rightarrow> int \<Rightarrow> 'a::linordered_field"
  assumes "cm lda n n A F" "0 \<le> n" "0 < small"
  shows "\<exists>A' ps c status. dense_ldlt_indef A n lda u small P0 c0 = Some (A', P0 @ ps, c, status)
    \<and> pwidths ps = n \<and> counts c = counts c0 + n \<and> (status = Success \<longrightarrow> factorizes lda n F c0 A' ps c)"
  using ok_ex [OF dense_ldlt_ok [OF assms, of u P0 c0]] by auto

theorem dense_ldlt_indef_correct_witness:
  "\<exists>A' ps c. dense_ldlt_indef example_front 3 3 (1/10) (1/1000) [] \<lparr>positive = 0, negative = 0, zero_count = 0\<rparr>
      = Some (A', ps, c, Success) \<and> factorizes 3 3 example_entry \<lparr>positive = 0, negative = 0, zero_count = 0\<rparr> A' ps c
      \<and> positive c = 2 \<and> negative c = 1"
proof -
  let ?c = "\<lparr>positive = 0, negative = 0, zero_count = 0\<rparr>"
  have r: "map_option (\<lambda>(_, _, c, s). (positive c, negative c, s)) (dense_ldlt_indef example_front 3 3 (1/10) (1/1000) [] ?c) = Some (2, 1, Success)"
    by code_simp
  show ?thesis
    using dense_ldlt_indef_correct [OF example_front_cm, of "1/1000" "1/10" "[]" ?c] r by auto
qed

end
