(* ===== verification/DenseCholesky.thy ===== *)
theory DenseCholesky
  imports DenseLdlt
begin

text \<open>
  \<open>dense_cholesky_lower\<close> of \<open>src/dense_indef.cpp\<close>, over the real numbers (exact arithmetic and square root;
  every value is finite). It is compared with its abstract specification: it succeeds exactly on the matrices that
  have a Cholesky factor, and computes it.
\<close>

text \<open>\<open>s - sum of A(i, col) A(j, col)\<close> over the columns before \<open>j\<close>.\<close>

definition minus_dot :: "int \<Rightarrow> real list \<Rightarrow> int \<Rightarrow> int \<Rightarrow> real \<Rightarrow> real option" where
  "minus_dot lda A i j s = for_range 0 j (\<lambda>col s. do {
     x \<leftarrow> mget lda A i col;
     y \<leftarrow> mget lda A j col;
     Some (s - x * y)
   }) s"

text \<open>One column; \<open>Inl ()\<close> is the return of \<open>NotPositiveDefinite\<close>.\<close>

definition cholesky_column :: "int \<Rightarrow> int \<Rightarrow> int \<Rightarrow> real list \<Rightarrow> (unit + real list) option" where
  "cholesky_column n lda j A = do {
     s \<leftarrow> mget lda A j j;
     s \<leftarrow> minus_dot lda A j j s;
     if s \<le> 0 then Some (Inl ())
     else do {
       A \<leftarrow> mset_at lda A j j (sqrt s);
       d \<leftarrow> mget lda A j j;
       let inv_diag = 1 / d;
       A \<leftarrow> for_range (j + 1) n (\<lambda>i A. do {
         v \<leftarrow> mget lda A i j;
         v \<leftarrow> minus_dot lda A i j v;
         mset_at lda A i j (v * inv_diag)
       }) A;
       Some (Inr A)
     }
   }"

text \<open>\<open>Inl ()\<close> for \<open>NotPositiveDefinite\<close>, \<open>Inr\<close> the array for \<open>Success\<close>.\<close>

definition dense_cholesky_lower :: "real list \<Rightarrow> int \<Rightarrow> int \<Rightarrow> (unit + real list) option" where
  "dense_cholesky_lower A n lda = for_brk 0 n (cholesky_column n lda) A"

section \<open>Cholesky factors\<close>

definition dot :: "(int \<Rightarrow> int \<Rightarrow> real) \<Rightarrow> int \<Rightarrow> int \<Rightarrow> int \<Rightarrow> real" where
  "dot L a b k = (\<Sum>m \<in> {0..<k}. L a m * L b m)"

lemma dot_0 [simp]: "dot L a b 0 = 0"
  by (simp add: dot_def)

lemma dot_Suc:
  assumes "0 \<le> k"
  shows "dot L a b (k + 1) = dot L a b k + L a k * L b k"
proof -
  have "{0..<k + 1} = insert k {0..<k}" using assms by auto
  then show ?thesis by (simp add: dot_def)
qed

lemma dot_cong: "(\<And>m. 0 \<le> m \<Longrightarrow> m < k \<Longrightarrow> L a m = G a m \<and> L b m = G b m) \<Longrightarrow> dot L a b k = dot G a b k"
  by (simp add: dot_def)

text \<open>The first \<open>k\<close> columns of a lower triangular factor with positive diagonal.\<close>

definition chol_upto :: "int \<Rightarrow> int \<Rightarrow> (int \<Rightarrow> int \<Rightarrow> real) \<Rightarrow> (int \<Rightarrow> int \<Rightarrow> real) \<Rightarrow> bool" where
  "chol_upto n k F L \<longleftrightarrow> (\<forall>b. 0 \<le> b \<and> b < k \<longrightarrow> 0 < L b b \<and> (\<forall>a. b \<le> a \<and> a < n \<longrightarrow> F a b = dot L a b (b + 1)))"

lemma chol_mono: "chol_upto n k F L \<Longrightarrow> j \<le> k \<Longrightarrow> chol_upto n j F L"
  by (simp add: chol_upto_def)

lemma chol_unique:
  assumes L: "chol_upto n k F L" and G: "chol_upto n k F G" and b: "0 \<le> b" "b < k" "b \<le> a" "a < n"
  shows "L a b = G a b"
proof -
  have "\<forall>a. b \<le> a \<and> a < n \<longrightarrow> L a b = G a b" if "0 \<le> b" "b < k" for b
    using that
  proof (induction "nat b" arbitrary: b rule: less_induct)
    case less
    have IH: "L x m = G x m" if "0 \<le> m" "m < b" "m \<le> x" "x < n" for x m
      using less.hyps [of m] that less.prems by auto
    show ?case
    proof (intro allI impI)
      fix a assume a: "b \<le> a \<and> a < n"
      have d: "dot L x b b = dot G x b b" if "b \<le> x" "x < n" for x
        by (rule dot_cong) (use IH that a in auto)
      have F: "F x b = dot L x b b + L x b * L b b" "F x b = dot G x b b + G x b * G b b" if "b \<le> x" "x < n" for x
      proof -
        have "F x b = dot L x b (b + 1)" "F x b = dot G x b (b + 1)" using L G that less.prems by (simp_all add: chol_upto_def)
        then show "F x b = dot L x b b + L x b * L b b" "F x b = dot G x b b + G x b * G b b"
          unfolding dot_Suc [OF less.prems(1)] by simp_all
      qed
      have pos: "0 < L b b" "0 < G b b" using L G less.prems by (simp_all add: chol_upto_def)
      have "L b b * L b b = G b b * G b b" using F [of b] d [of b] a by simp
      then have "L b b ^ 2 = G b b ^ 2" by (simp add: power2_eq_square)
      then have e: "L b b = G b b" using pos by (simp add: power2_eq_iff_nonneg)
      have "L a b * L b b = G a b * G b b" using F [of a] d [of a] a by simp
      then show "L a b = G a b" using e pos by simp
    qed
  qed
  then show ?thesis using b by simp
qed

section \<open>The loops\<close>

lemma minus_dot_ok:
  assumes c: "cm lda n n A G" and i: "0 \<le> j" "j \<le> i" "i < n"
  shows "minus_dot lda A i j s = Some (s - dot G i j j)"
proof -
  have "ok (minus_dot lda A i j s) (\<lambda>r. r = s - dot G i j j)"
    unfolding minus_dot_def
  proof (rule for_range_ok [where I = "\<lambda>k r. r = s - dot G i j k"])
    fix k r assume k: "0 \<le> k" "k < j" and r: "r = s - dot G i j k"
    have "mget lda A i k = Some (G i k)" "mget lda A j k = Some (G j k)" using cm_get [OF c] k i by simp_all
    then show "ok (do { x \<leftarrow> mget lda A i k; y \<leftarrow> mget lda A j k; Some (r - x * y) }) (\<lambda>r. r = s - dot G i j (k + 1))"
      using r dot_Suc [OF k(1)] by simp
  qed (use i in \<open>simp_all add: max_def\<close>)
  then show ?thesis by (auto simp: ok_def)
qed

definition chol_inv :: "int \<Rightarrow> int \<Rightarrow> (int \<Rightarrow> int \<Rightarrow> real) \<Rightarrow> int \<Rightarrow> real list \<Rightarrow> bool" where
  "chol_inv lda n F j A \<longleftrightarrow> (\<exists>G. cm lda n n A G \<and> chol_upto n j F G \<and> (\<forall>a b. j \<le> b \<and> b \<le> a \<longrightarrow> G a b = F a b))"

lemma cholesky_column_ok:
  assumes I: "chol_inv lda n F j A" and j: "0 \<le> j" "j < n"
  shows "ok (cholesky_column n lda j A) (\<lambda>r. case r of Inl _ \<Rightarrow> \<not> (\<exists>L. chol_upto n n F L) | Inr A' \<Rightarrow> chol_inv lda n F (j + 1) A')"
proof -
  obtain G where G: "cm lda n n A G" "chol_upto n j F G" "\<And>a b. j \<le> b \<Longrightarrow> b \<le> a \<Longrightarrow> G a b = F a b"
    using I unfolding chol_inv_def by blast
  let ?s = "F j j - dot G j j j"
  have s: "mget lda A j j = Some (F j j)" "minus_dot lda A j j (F j j) = Some ?s"
    using cm_get [OF G(1)] G(3) [of j j] minus_dot_ok [OF G(1)] j by simp_all
  show ?thesis
  proof (cases "?s \<le> 0")
    case True
    have False if L: "chol_upto n n F L" for L
    proof -
      have "dot L j j j = dot G j j j"
      proof (rule dot_cong)
        fix m assume m: "0 \<le> m" "m < j"
        have "j \<le> n" using j by simp
        then have "L j m = G j m" using chol_unique [OF chol_mono [OF L] G(2) m] m j by simp
        then show "L j m = G j m \<and> L j m = G j m" by simp
      qed
      moreover have e: "F j j = dot L j j j + L j j * L j j" "0 < L j j"
        using L j dot_Suc [OF j(1)] by (simp_all add: chol_upto_def)
      moreover have "0 < L j j * L j j" using e(2) by simp
      ultimately show False using True by linarith
    qed
    then show ?thesis using s True by (auto simp: cholesky_column_def)
  next
    case False
    let ?d = "sqrt ?s"
    have d: "0 < ?d" "?d * ?d = ?s" using False by simp_all
    obtain A1 where A1: "mset_at lda A j j ?d = Some A1" "cm lda n n A1 (upd G j j ?d)"
      using ok_ex [OF cm_set [OF G(1) j j]] by blast
    let ?g = "\<lambda>i. (F i j - dot G i j j) * (1 / ?d)"
    let ?H = "\<lambda>i a b. if b = j \<and> j + 1 \<le> a \<and> a < i then ?g a else upd G j j ?d a b"
    have "ok (for_range (j + 1) n (\<lambda>i A. do {
         v \<leftarrow> mget lda A i j;
         v \<leftarrow> minus_dot lda A i j v;
         mset_at lda A i j (v * (1 / ?d))
       }) A1) (\<lambda>A'. cm lda n n A' (?H n))"
    proof (rule cm_for_col [OF A1(2)])
      fix i A' assume i: "j + 1 \<le> i" "i < n" and c: "cm lda n n A' (?H i)"
      have "dot (?H i) i j j = dot G i j j" by (rule dot_cong) (simp add: upd_def)
      then have "mget lda A' i j = Some (F i j)" "minus_dot lda A' i j (F i j) = Some (F i j - dot G i j j)"
        using cm_get [OF c, of i j] minus_dot_ok [OF c, of j i "F i j"] G(3) [of j i] i j by (simp_all add: upd_def)
      then show "ok (do {
         v \<leftarrow> mget lda A' i j;
         v \<leftarrow> minus_dot lda A' i j v;
         mset_at lda A' i j (v * (1 / ?d))
       }) (\<lambda>A''. cm lda n n A'' (upd (?H i) i j (?g i)))"
        using cm_set [OF c, of i j "?g i"] i j by simp
    qed
    then obtain A2 where A2: "for_range (j + 1) n (\<lambda>i A. do {
         v \<leftarrow> mget lda A i j;
         v \<leftarrow> minus_dot lda A i j v;
         mset_at lda A i j (v * (1 / ?d))
       }) A1 = Some A2" "cm lda n n A2 (?H n)" by (auto simp: ok_def)
    let ?G = "?H n"
    have old: "?G a b = G a b" if "b \<noteq> j" for a b using that by (simp add: upd_def)
    have new: "?G j j = ?d" "\<And>a. j < a \<Longrightarrow> a < n \<Longrightarrow> ?G a j = ?g a" by (simp_all add: upd_def)
    have "chol_inv lda n F (j + 1) A2" unfolding chol_inv_def
    proof (intro exI conjI allI impI)
      show "cm lda n n A2 ?G" by (rule A2(2))
      show "chol_upto n (j + 1) F ?G" unfolding chol_upto_def
      proof (intro allI impI)
        fix b assume b: "0 \<le> b \<and> b < j + 1"
        have dt: "dot ?G a b b = dot G a b b" for a by (rule dot_cong) (use b old in simp)
        show "0 < ?G b b \<and> (\<forall>a. b \<le> a \<and> a < n \<longrightarrow> F a b = dot ?G a b (b + 1))"
        proof (cases "b = j")
          case True
          have "F a j = dot G a j j + ?G a j * ?G j j" if "j \<le> a" "a < n" for a
            using that d new by (cases "a = j") simp_all
          then show ?thesis using True d(1) new(1) dt dot_Suc [OF j(1)] by simp
        next
          case False
          then have "b < j" "0 \<le> b" using b by simp_all
          then show ?thesis using G(2) dt dot_Suc [of b] old [OF False] by (simp add: chol_upto_def)
        qed
      qed
      show "?G a b = F a b" if "j + 1 \<le> b \<and> b \<le> a" for a b using that G(3) [of b a] old [of b a] by simp
    qed
    moreover have "mget lda A1 j j = Some ?d" using cm_get [OF A1(2) j j] by (simp add: upd_def)
    ultimately show ?thesis using s False A1(1) A2(1) by (simp add: cholesky_column_def Let_def)
  qed
qed

section \<open>Properties\<close>

text \<open>C16: on an array whose offsets fit in \<open>int\<close>, \<open>dense_cholesky_lower\<close> stays inside the array, computes no offset
  that overflows, and succeeds exactly when the symmetric matrix has a
  lower triangular factor \<open>L\<close> with positive diagonal and \<open>A = L L^T\<close>; then the array holds that factor, which
  is unique.\<close>

theorem dense_cholesky_lower_correct:
  assumes "cm lda n n A F"
  shows "ok (dense_cholesky_lower A n lda) (\<lambda>r. case r of
      Inl _ \<Rightarrow> \<not> (\<exists>L. chol_upto n n F L)
    | Inr A' \<Rightarrow> \<exists>G. cm lda n n A' G \<and> chol_upto n n F G
        \<and> (\<forall>L. chol_upto n n F L \<longrightarrow> (\<forall>a b. 0 \<le> b \<and> b \<le> a \<and> a < n \<longrightarrow> L a b = G a b)))"
  unfolding dense_cholesky_lower_def
proof (rule for_brk_ok [where I = "chol_inv lda n F"])
  show "chol_inv lda n F 0 A" using assms by (auto simp: chol_inv_def chol_upto_def)
  show "ok (cholesky_column n lda j A) (\<lambda>r. case r of
      Inl a \<Rightarrow> (case Inl a of Inl _ \<Rightarrow> \<not> (\<exists>L. chol_upto n n F L) | Inr A' \<Rightarrow> \<exists>G. cm lda n n A' G \<and> chol_upto n n F G
        \<and> (\<forall>L. chol_upto n n F L \<longrightarrow> (\<forall>a b. 0 \<le> b \<and> b \<le> a \<and> a < n \<longrightarrow> L a b = G a b)))
    | Inr A' \<Rightarrow> chol_inv lda n F (j + 1) A')" if "0 \<le> j" "j < n" "chol_inv lda n F j A" for j A
    using cholesky_column_ok [OF that(3,1,2)] by (simp cong: sum.case_cong)
  fix A assume "chol_inv lda n F (max 0 n) A"
  then obtain G where G: "cm lda n n A G" "chol_upto n (max 0 n) F G" unfolding chol_inv_def by blast
  have g: "chol_upto n n F G" by (rule chol_mono [OF G(2)]) simp
  have "L a b = G a b" if "chol_upto n n F L" "0 \<le> b" "b \<le> a" "a < n" for L a b
    using chol_unique [OF that(1) g that(2) _ that(3,4)] that by simp
  then show "case Inr A of Inl (_ :: unit) \<Rightarrow> \<not> (\<exists>L. chol_upto n n F L) | Inr A' \<Rightarrow> \<exists>G. cm lda n n A' G \<and> chol_upto n n F G
        \<and> (\<forall>L. chol_upto n n F L \<longrightarrow> (\<forall>a b. 0 \<le> b \<and> b \<le> a \<and> a < n \<longrightarrow> L a b = G a b))"
    using G(1) g by auto
qed

theorem dense_cholesky_lower_correct_witness:
  "\<exists>A' G. dense_cholesky_lower [4, 2, 0, 5] 2 2 = Some (Inr A') \<and> cm 2 2 2 A' G \<and> G 0 0 = 2 \<and> G 1 0 = 1 \<and> G 1 1 = 2"
proof -
  let ?F = "\<lambda>a b. if a = 0 then (if b = 0 then 4 else 0) else (if b = 0 then 2 else 5 :: real)"
  let ?L = "\<lambda>a b. if a = 0 then (if b = 0 then 2 else 0) else (if b = 0 then 1 else 2 :: real)"
  have two: "0 \<le> i \<and> i < 2 \<Longrightarrow> i = 0 \<or> i = 1" for i :: int by auto
  have c: "cm 2 2 2 [4, 2, 0, 5] ?F" unfolding cm_def by (auto dest!: two simp: elt_def)
  have set2: "{0..<1 + 1} = {0 :: int, 1}" "{0..<1} = {0 :: int}" by auto
  have L: "chol_upto 2 2 ?F ?L" unfolding chol_upto_def dot_def
  proof (intro allI impI)
    fix b :: int assume "0 \<le> b \<and> b < 2"
    then consider "b = 0" | "b = 1" using two by auto
    then show "0 < ?L b b \<and> (\<forall>a. b \<le> a \<and> a < 2 \<longrightarrow> ?F a b = (\<Sum>m \<in> {0..<b + 1}. ?L a m * ?L b m))"
    proof cases
      case 1
      then show ?thesis using set2 by (auto dest!: two)
    next
      case 2
      then show ?thesis using set2 by auto
    qed
  qed
  obtain r where r: "dense_cholesky_lower [4, 2, 0, 5] 2 2 = Some r" "case r of
      Inl _ \<Rightarrow> \<not> (\<exists>L. chol_upto 2 2 ?F L)
    | Inr A' \<Rightarrow> \<exists>G. cm 2 2 2 A' G \<and> chol_upto 2 2 ?F G
        \<and> (\<forall>L. chol_upto 2 2 ?F L \<longrightarrow> (\<forall>a b. 0 \<le> b \<and> b \<le> a \<and> a < 2 \<longrightarrow> L a b = G a b))"
    using ok_ex [OF dense_cholesky_lower_correct [OF c]] by blast
  then obtain A' G where A': "r = Inr A'" "cm 2 2 2 A' G" "\<forall>a b. 0 \<le> b \<and> b \<le> a \<and> a < 2 \<longrightarrow> ?L a b = G a b"
    using L by (cases r) auto
  have "G 0 0 = 2" "G 1 0 = 1" "G 1 1 = 2"
    using A'(3) [rule_format, of 0 0] A'(3) [rule_format, of 0 1] A'(3) [rule_format, of 1 1] by simp_all
  then show ?thesis using r(1) A'(1,2) by blast
qed

end
