(* ===== verification/Reach.thy ===== *)
theory Reach
  imports Prelude
begin

text \<open>
  Transition systems: the reachable states of a step relation, and the interface by which a component's invariant
  is used. A component interprets \<open>transition_invariant\<close> on its own initial states, steps and invariant.
\<close>

inductive reachable :: "('s \<Rightarrow> bool) \<Rightarrow> ('s \<Rightarrow> 's \<Rightarrow> bool) \<Rightarrow> 's \<Rightarrow> bool" for start step where
  reach_init: "start s \<Longrightarrow> reachable start step s"
| reach_step: "reachable start step s \<Longrightarrow> step s s' \<Longrightarrow> reachable start step s'"

locale transition_invariant =
  fixes start :: "'s \<Rightarrow> bool" and step :: "'s \<Rightarrow> 's \<Rightarrow> bool" and inv :: "'s \<Rightarrow> bool"
  assumes inv_start: "start s \<Longrightarrow> inv s"
    and inv_step: "inv s \<Longrightarrow> step s s' \<Longrightarrow> inv s'"
begin

lemma reachable_inv: "reachable start step s \<Longrightarrow> inv s"
  by (induction rule: reachable.induct) (auto intro: inv_start inv_step)

lemma steps_inv: "step\<^sup>*\<^sup>* s s' \<Longrightarrow> inv s \<Longrightarrow> inv s'"
  by (induction rule: rtranclp_induct) (auto intro: inv_step)

end

text \<open>Sums over the workers \<open>0, ..., W - 1\<close>, and what one worker's change does to them.\<close>

definition tot :: "nat \<Rightarrow> ('w \<Rightarrow> int) \<Rightarrow> (nat \<Rightarrow> 'w) \<Rightarrow> int" where
  "tot W f ws = (\<Sum>i<W. f (ws i))"

lemma tot_upd: "i < W \<Longrightarrow> tot W f (ws(i := x)) = tot W f ws - f (ws i) + f x"
proof -
  assume i: "i < W"
  have u: "{..<W} = insert i ({..<W} - {i})" using i by auto
  have "tot W f (ws(i := x)) = f x + (\<Sum>j \<in> {..<W} - {i}. f (ws j))"
    unfolding tot_def by (subst u) (simp add: sum.insert_remove)
  moreover have "tot W f ws = f (ws i) + (\<Sum>j \<in> {..<W} - {i}. f (ws j))"
    unfolding tot_def by (subst u) (simp add: sum.insert_remove)
  ultimately show ?thesis by simp
qed

lemma tot_cong: "(\<And>i. i < W \<Longrightarrow> f (ws i) = f (ws' i)) \<Longrightarrow> tot W f ws = tot W f ws'"
  by (simp add: tot_def)

lemma tot_nonneg: "(\<And>i. i < W \<Longrightarrow> 0 \<le> f (ws i)) \<Longrightarrow> 0 \<le> tot W f ws"
  unfolding tot_def by (rule sum_nonneg) simp

lemma tot_ge: "i < W \<Longrightarrow> (\<And>j. j < W \<Longrightarrow> 0 \<le> f (ws j)) \<Longrightarrow> f (ws i) \<le> tot W f ws"
  unfolding tot_def by (rule member_le_sum) simp_all

lemma tot_pos: "0 < tot W f ws \<Longrightarrow> (\<And>j. j < W \<Longrightarrow> 0 \<le> f (ws j)) \<Longrightarrow> \<exists>i<W. 0 < f (ws i)"
proof (rule ccontr)
  assume a: "0 < tot W f ws" "\<not> (\<exists>i<W. 0 < f (ws i))"
  have "f (ws x) \<le> 0" if "x < W" for x using a(2) that by (meson not_less)
  then have "tot W f ws \<le> 0" unfolding tot_def by (intro sum_nonpos) simp
  then show False using a(1) by simp
qed

end
