(* ===== verification/TopScheduler.thy ===== *)
theory TopScheduler
  imports Reach
begin

text \<open>
  \<open>src/parallel/top_scheduler.cpp\<close>: the scheduler of the top fronts, a DAG of nodes on a pool of workers. The
  scheduler's data are a record; \<open>sched_init\<close>, \<open>acquire_task\<close>, \<open>finish_node\<close>, \<open>stop_node\<close>, \<open>offer_job\<close>
  and \<open>withdraw_job\<close> are the constructor and the critical sections under its mutex. \<open>sched_step\<close> interleaves
  them between workers, one critical section a step; the store of \<open>stopped_\<close>, which a failing worker makes before
  it takes the mutex, is a step of its own. A worker that waits on the condition variable is woken by a notification
  or spuriously and tests \<open>runnable\<close> again. The lock-free mirrors are hints that only decide how long a worker
  spins and are left out. A node is the local id of a front, \<open>'j\<close> a tile job.
\<close>

record 'j sched =
  parent_of :: "int list"
  pending :: "int list"
  ready :: "int list"
  offers :: "('j \<times> int) list"
  completed :: "(int \<times> nat) list"
  free_threads :: int
  remaining :: int
  sleepers :: int
  queue_pops :: int
  stopped :: bool

definition sched_init :: "int list \<Rightarrow> int \<Rightarrow> 'j sched option" where
  "sched_init par threads = do {
     let n = int (length par);
     pend \<leftarrow> for_range 0 n (\<lambda>i pend. do {
       p \<leftarrow> vget par i;
       if p \<ge> 0 then do { x \<leftarrow> vget pend p; vset pend p (x + 1) } else Some pend
     }) (replicate (length par) 0);
     rdy \<leftarrow> for_range 0 n (\<lambda>i rdy. do {
       x \<leftarrow> vget pend i;
       Some (if x = 0 then rdy @ [i] else rdy)
     }) [];
     Some \<lparr>parent_of = par, pending = pend, ready = rdy, offers = [], completed = [], free_threads = max 1 threads,
       remaining = n, sleepers = 0, queue_pops = 0, stopped = False\<rparr>
   }"

definition takeable :: "'j sched \<Rightarrow> bool" where
  "takeable st \<longleftrightarrow> (ready st \<noteq> [] \<and> free_threads st > 0) \<or> offers st \<noteq> []"

definition runnable :: "'j sched \<Rightarrow> bool" where
  "runnable st \<longleftrightarrow> takeable st \<or> remaining st = 0 \<or> stopped st"

text \<open>Which sleepers a critical section wakes.\<close>

datatype notification = NotifyNone | NotifyOne | NotifyAll

definition wake_one_if_runnable :: "'j sched \<Rightarrow> notification" where
  "wake_one_if_runnable st = (if sleepers st > 0 \<and> takeable st then NotifyOne else NotifyNone)"

definition thread_share :: "int \<Rightarrow> int \<Rightarrow> int" where
  "thread_share free k = max 1 (free div (k + 1))"

datatype 'j task = Node int int | Job 'j | NoTask

text \<open>\<open>acquire\<close> once \<open>runnable\<close> holds.\<close>

definition acquire_task :: "'j sched \<Rightarrow> ('j sched \<times> 'j task \<times> notification) option" where
  "acquire_task st =
     (if stopped st \<or> remaining st = 0 then Some (st, NoTask, NotifyNone)
      else if ready st \<noteq> [] \<and> free_threads st > 0 then
        (let v = last (ready st);
             rdy = butlast (ready st);
             t = thread_share (free_threads st) (int (length rdy));
             st = st\<lparr>ready := rdy, free_threads := free_threads st - t, queue_pops := queue_pops st + 1\<rparr>
         in Some (st, Node v t, wake_one_if_runnable st))
      else if offers st = [] then None
      else
        (let (j, slots) = last (offers st);
             st = st\<lparr>offers := butlast (offers st) @ (if slots - 1 = 0 then [] else [(j, slots - 1)])\<rparr>
         in Some (st, Job j, wake_one_if_runnable st)))"

text \<open>\<open>finish\<close> of a node that completed: the new state, the parent to run next and its threads (\<open>-1\<close>: none).\<close>

definition finish_node :: "int \<Rightarrow> nat \<Rightarrow> int \<Rightarrow> 'j sched \<Rightarrow> ('j sched \<times> int \<times> int \<times> notification) option" where
  "finish_node v tid threads st = do {
     let st = st\<lparr>free_threads := free_threads st + threads, completed := completed st @ [(v, tid)], remaining := remaining st - 1\<rparr>;
     if remaining st = 0 then Some (st, -1, threads, NotifyAll)
     else if stopped st then Some (st, -1, threads, NotifyNone)
     else do {
       p \<leftarrow> vget (parent_of st) v;
       if p \<ge> 0 then do {
         x \<leftarrow> vget (pending st) p;
         pend \<leftarrow> vset (pending st) p (x - 1);
         let st = st\<lparr>pending := pend\<rparr>;
         if x - 1 = 0 then do {
           let t = thread_share (free_threads st) (int (length (ready st)));
           let st = st\<lparr>free_threads := free_threads st - t\<rparr>;
           Some (st, p, t, wake_one_if_runnable st)
         } else Some (st, -1, threads, wake_one_if_runnable st)
       } else Some (st, -1, threads, wake_one_if_runnable st)
     }
   }"

text \<open>\<open>finish\<close> of a node that failed, under the mutex.\<close>

definition stop_node :: "int \<Rightarrow> 'j sched \<Rightarrow> 'j sched \<times> notification" where
  "stop_node threads st = (st\<lparr>free_threads := free_threads st + threads\<rparr>, NotifyAll)"

definition offer_job :: "'j \<Rightarrow> int \<Rightarrow> 'j sched \<Rightarrow> 'j sched \<times> notification" where
  "offer_job j slots st =
     (if slots \<le> 0 then (st, NotifyNone)
      else let st = st\<lparr>offers := offers st @ [(j, slots)]\<rparr> in (st, wake_one_if_runnable st))"

fun drop_offer :: "'j \<Rightarrow> ('j \<times> int) list \<Rightarrow> ('j \<times> int) list" where
  "drop_offer j [] = []"
| "drop_offer j ((k, s) # os) = (if k = j then os else (k, s) # drop_offer j os)"

definition withdraw_job :: "'j \<Rightarrow> 'j sched \<Rightarrow> 'j sched" where
  "withdraw_job j st = st\<lparr>offers := drop_offer j (offers st)\<rparr>"

section \<open>Workers\<close>

text \<open>A worker of \<open>work\<close>: polling, waiting on the condition variable, woken, running a node with its threads,
  about to take the mutex after a node failed, helping a tile job, returned.\<close>

datatype 'j worker = Polling | Asleep | Woken | Running int int | Failing int int | Helping 'j | Returned

definition notified :: "nat \<Rightarrow> notification \<Rightarrow> (nat \<Rightarrow> 'j worker) \<Rightarrow> (nat \<Rightarrow> 'j worker) \<Rightarrow> bool" where
  "notified W nf ws ws' \<longleftrightarrow> (case nf of
      NotifyNone \<Rightarrow> ws' = ws
    | NotifyOne \<Rightarrow> (\<exists>i<W. ws i = Asleep \<and> ws' = ws(i := Woken)) \<or> ((\<forall>i<W. ws i \<noteq> Asleep) \<and> ws' = ws)
    | NotifyAll \<Rightarrow> ws' = (\<lambda>i. if ws i = Asleep then Woken else ws i))"

fun task_worker :: "'j task \<Rightarrow> 'j worker" where
  "task_worker (Node v t) = Running v t"
| "task_worker (Job j) = Helping j"
| "task_worker NoTask = Returned"

inductive sched_step :: "nat \<Rightarrow> 'j sched \<times> (nat \<Rightarrow> 'j worker) \<Rightarrow> 'j sched \<times> (nat \<Rightarrow> 'j worker) \<Rightarrow> bool" for W where
  step_take: "i < W \<Longrightarrow> ws i = Polling \<Longrightarrow> runnable st \<Longrightarrow> acquire_task st = Some (st', t, nf)
    \<Longrightarrow> notified W nf (ws(i := task_worker t)) ws' \<Longrightarrow> sched_step W (st, ws) (st', ws')"
| step_sleep: "i < W \<Longrightarrow> ws i = Polling \<Longrightarrow> \<not> runnable st
    \<Longrightarrow> sched_step W (st, ws) (st\<lparr>sleepers := sleepers st + 1\<rparr>, ws(i := Asleep))"
| step_spurious: "i < W \<Longrightarrow> ws i = Asleep \<Longrightarrow> sched_step W (st, ws) (st, ws(i := Woken))"
| step_rewait: "i < W \<Longrightarrow> ws i = Woken \<Longrightarrow> \<not> runnable st \<Longrightarrow> sched_step W (st, ws) (st, ws(i := Asleep))"
| step_wake: "i < W \<Longrightarrow> ws i = Woken \<Longrightarrow> runnable st \<Longrightarrow> acquire_task (st\<lparr>sleepers := sleepers st - 1\<rparr>) = Some (st', t, nf)
    \<Longrightarrow> notified W nf (ws(i := task_worker t)) ws' \<Longrightarrow> sched_step W (st, ws) (st', ws')"
| step_finish: "i < W \<Longrightarrow> ws i = Running v t \<Longrightarrow> finish_node v i t st = Some (st', p, t', nf)
    \<Longrightarrow> notified W nf (ws(i := (if p \<ge> 0 then Running p t' else Polling))) ws' \<Longrightarrow> sched_step W (st, ws) (st', ws')"
| step_fail: "i < W \<Longrightarrow> ws i = Running v t \<Longrightarrow> sched_step W (st, ws) (st\<lparr>stopped := True\<rparr>, ws(i := Failing v t))"
| step_stop: "i < W \<Longrightarrow> ws i = Failing v t \<Longrightarrow> stop_node t st = (st', nf)
    \<Longrightarrow> notified W nf (ws(i := Polling)) ws' \<Longrightarrow> sched_step W (st, ws) (st', ws')"
| step_offer: "i < W \<Longrightarrow> ws i = Running v t \<Longrightarrow> offer_job j slots st = (st', nf)
    \<Longrightarrow> notified W nf ws ws' \<Longrightarrow> sched_step W (st, ws) (st', ws')"
| step_withdraw: "i < W \<Longrightarrow> ws i = Running v t \<Longrightarrow> sched_step W (st, ws) (withdraw_job j st, ws)"
| step_helped: "i < W \<Longrightarrow> ws i = Helping j \<Longrightarrow> sched_step W (st, ws) (st, ws(i := Polling))"

inductive_cases sched_stepE: "sched_step W (st, ws) (st', ws')"

definition sched_start :: "int list \<Rightarrow> int \<Rightarrow> 'j sched \<times> (nat \<Rightarrow> 'j worker) \<Rightarrow> bool" where
  "sched_start par threads s \<longleftrightarrow> sched_init par threads = Some (fst s) \<and> snd s = (\<lambda>_. Polling)"


section \<open>Nodes: each waits, is ready, runs or has completed\<close>

definition node_range :: "int list \<Rightarrow> int set" where
  "node_range par = {0..<int (length par)}"

text \<open>The uncompleted children of a node.\<close>

definition open_kids :: "int list \<Rightarrow> (int \<times> nat) list \<Rightarrow> int \<Rightarrow> int set" where
  "open_kids par cl p = {c \<in> node_range par. elt par c = p \<and> c \<notin> fst ` set cl}"

lemma open_kids_finite [simp]: "finite (open_kids par cl p)"
  unfolding open_kids_def node_range_def by (rule finite_subset [of _ "{0..<int (length par)}"]) auto

text \<open>A forest whose parents have larger numbers.\<close>

definition sched_forest :: "int list \<Rightarrow> bool" where
  "sched_forest par \<longleftrightarrow> (\<forall>i \<in> node_range par. elt par i = -1 \<or> i < elt par i \<and> elt par i < int (length par))"

definition live :: "'j sched \<Rightarrow> bool" where
  "live st \<longleftrightarrow> \<not> stopped st \<and> remaining st > 0"

text \<open>In how many of its states node \<open>v\<close> is, \<open>R v\<close> workers running it.\<close>

definition places :: "'j sched \<Rightarrow> (int \<Rightarrow> int) \<Rightarrow> int \<Rightarrow> int" where
  "places st R v = (if elt (pending st) v > 0 then 1 else 0) + int (count_list (ready st) v) + R v
     + int (count_list (map fst (completed st)) v)"

text \<open>Every node after its children.\<close>

definition topological :: "int list \<Rightarrow> (int \<times> nat) list \<Rightarrow> bool" where
  "topological par cl \<longleftrightarrow> (\<forall>k<length cl. open_kids par (take k cl) (fst (cl ! k)) = {})"

definition nodes_inv :: "int list \<Rightarrow> 'j sched \<Rightarrow> (int \<Rightarrow> int) \<Rightarrow> bool" where
  "nodes_inv par st R \<longleftrightarrow> parent_of st = par \<and> length (pending st) = length par
     \<and> (\<forall>p \<in> node_range par. int (card (open_kids par (completed st) p)) \<le> elt (pending st) p
          \<and> (live st \<longrightarrow> int (card (open_kids par (completed st) p)) = elt (pending st) p))
     \<and> (\<forall>v \<in> node_range par. places st R v \<le> 1 \<and> (live st \<longrightarrow> places st R v = 1))
     \<and> (\<forall>v. 0 \<le> R v \<and> (v \<notin> node_range par \<longrightarrow> R v = 0))
     \<and> set (ready st) \<subseteq> node_range par \<and> fst ` set (completed st) \<subseteq> node_range par
     \<and> remaining st = int (length par) - int (length (completed st))
     \<and> topological par (completed st)"

lemma count_list_snoc [simp]: "count_list (xs @ [y]) v = count_list xs v + (if y = v then 1 else 0)"
  by simp

lemma nodes_take:
  assumes I: "nodes_inv par st R" and r: "ready st = rdy @ [v]" and st': "ready st' = rdy" "parent_of st' = parent_of st"
    "pending st' = pending st" "completed st' = completed st" "remaining st' = remaining st" "stopped st' = stopped st"
    and R': "\<And>u. R' u = R u + (if u = v then 1 else 0)"
  shows "nodes_inv par st' R'"
proof -
  have v: "v \<in> node_range par" using I r by (auto simp: nodes_inv_def)
  have p: "places st' R' u = places st R u" for u using st' r R' by (simp add: places_def)
  have l: "live st' = live st" using st' by (simp add: live_def)
  have "(\<forall>u. 0 \<le> R' u \<and> (u \<notin> node_range par \<longrightarrow> R' u = 0)) \<and> set (ready st') \<subseteq> node_range par"
    using I r R' v st'(1) by (auto simp: nodes_inv_def)
  then show ?thesis using I st'(2-5) by (simp add: nodes_inv_def p l)
qed

lemma nodes_unchanged:
  assumes I: "nodes_inv par st R" and st': "ready st' = ready st" "parent_of st' = parent_of st"
    "pending st' = pending st" "completed st' = completed st" "remaining st' = remaining st" "stopped st \<longrightarrow> stopped st'"
  shows "nodes_inv par st' R"
proof -
  have "places st' R u = places st R u" for u using st' by (simp add: places_def)
  moreover have "live st' \<longrightarrow> live st" using st' by (auto simp: live_def)
  ultimately show ?thesis using I st' by (auto simp: nodes_inv_def)
qed

lemma nodes_drop:
  assumes I: "nodes_inv par st R" and s: "stopped st" and R': "\<And>u. 0 \<le> R' u \<and> R' u \<le> R u"
  shows "nodes_inv par st R'"
proof -
  have "places st R' u \<le> places st R u" for u using R' by (simp add: places_def)
  then have "\<forall>v \<in> node_range par. places st R' v \<le> 1"
    using I unfolding nodes_inv_def by (meson order_trans)
  moreover have "R' u = 0" if "R u = 0" for u using R' [of u] that by simp
  moreover have "\<not> live st" using s by (simp add: live_def)
  ultimately show ?thesis using I R' unfolding nodes_inv_def by simp
qed

text \<open>What a running node is known to satisfy.\<close>

lemma nodes_running:
  assumes I: "nodes_inv par st R" and v: "1 \<le> R v"
  shows "v \<in> node_range par" "R v = 1" "elt (pending st) v \<le> 0" "v \<notin> set (ready st)" "v \<notin> fst ` set (completed st)"
    "open_kids par (completed st) v = {}"
proof -
  show vr: "v \<in> node_range par" using I v by (auto simp: nodes_inv_def)
  then have "places st R v \<le> 1" using I by (simp add: nodes_inv_def)
  moreover define w where "w = (if elt (pending st) v > 0 then 1 else 0 :: int)"
  ultimately have b: "w + int (count_list (ready st) v) + R v + int (count_list (map fst (completed st)) v) \<le> 1" "0 \<le> w"
    by (simp_all add: places_def w_def)
  have c: "count_list (ready st) v = 0" "count_list (map fst (completed st)) v = 0" "R v = 1" "w = 0"
    using b v by linarith+
  then have pend: "elt (pending st) v \<le> 0" by (simp add: w_def split: if_splits)
  show "R v = 1" "elt (pending st) v \<le> 0" by (rule c(3), rule pend)
  show "v \<notin> set (ready st)" using c(1) by (simp add: count_list_0_iff)
  show "v \<notin> fst ` set (completed st)" using c(2) unfolding count_list_0_iff by simp
  have "int (card (open_kids par (completed st) v)) \<le> elt (pending st) v" using I vr unfolding nodes_inv_def by blast
  then have "card (open_kids par (completed st) v) = 0" using pend by linarith
  then show "open_kids par (completed st) v = {}" by simp
qed

lemma open_kids_snoc:
  assumes "v \<in> node_range par" "v \<notin> fst ` set cl"
  shows "int (card (open_kids par (cl @ [(v, tid)]) p)) = int (card (open_kids par cl p)) - (if elt par v = p then 1 else 0)"
proof -
  have e: "open_kids par (cl @ [(v, tid)]) p = open_kids par cl p - {v}" by (auto simp: open_kids_def)
  show ?thesis
  proof (cases "elt par v = p")
    case True
    then have "v \<in> open_kids par cl p" using assms by (simp add: open_kids_def)
    moreover have "0 < card (open_kids par cl p)" using calculation by (auto simp: card_gt_0_iff)
    ultimately show ?thesis using e True by simp
  next
    case False
    then have "v \<notin> open_kids par cl p" by (simp add: open_kids_def)
    then show ?thesis using e False by simp
  qed
qed

lemma topological_snoc: "topological par cl \<Longrightarrow> open_kids par cl v = {} \<Longrightarrow> topological par (cl @ [(v, tid)])"
  unfolding topological_def
proof (intro allI impI)
  fix k assume a: "\<forall>k<length cl. open_kids par (take k cl) (fst (cl ! k)) = {}" "open_kids par cl v = {}"
    and k: "k < length (cl @ [(v, tid)])"
  show "open_kids par (take k (cl @ [(v, tid)])) (fst ((cl @ [(v, tid)]) ! k)) = {}"
    using a k by (cases "k = length cl") (simp_all add: nth_append)
qed


lemma nodes_complete:
  assumes I: "nodes_inv par st R" and v: "1 \<le> R v" and R': "\<And>u. R' u = R u - (if u = v then 1 else 0)"
    and st': "parent_of st' = par" "pending st' = pending st" "ready st' = ready st" "completed st' = completed st @ [(v, i)]"
      "remaining st' = remaining st - 1" "stopped st' = stopped st"
    and no: "\<not> live st' \<or> elt par v \<notin> node_range par"
  shows "nodes_inv par st' R'"
proof -
  note run = nodes_running [OF I v]
  have p: "places st' R' u = places st R u" for u using st' R' by (simp add: places_def)
  have l: "live st' \<Longrightarrow> live st" using st' I by (auto simp: live_def nodes_inv_def)
  have k: "int (card (open_kids par (completed st') p)) = int (card (open_kids par (completed st) p)) - (if elt par v = p then 1 else 0)" for p
    unfolding st'(4) by (rule open_kids_snoc [OF run(1,5)])
  have "\<forall>p \<in> node_range par. int (card (open_kids par (completed st') p)) \<le> elt (pending st') p
          \<and> (live st' \<longrightarrow> int (card (open_kids par (completed st') p)) = elt (pending st') p)"
  proof
    fix p assume p: "p \<in> node_range par"
    have a: "int (card (open_kids par (completed st) p)) \<le> elt (pending st) p"
      "live st \<Longrightarrow> int (card (open_kids par (completed st) p)) = elt (pending st) p"
      using I p by (simp_all add: nodes_inv_def)
    show "int (card (open_kids par (completed st') p)) \<le> elt (pending st') p
          \<and> (live st' \<longrightarrow> int (card (open_kids par (completed st') p)) = elt (pending st') p)"
      using a l no p unfolding k st'(2) by auto
  qed
  moreover have "\<forall>u. 0 \<le> R' u \<and> (u \<notin> node_range par \<longrightarrow> R' u = 0)" using I v R' run(1) by (auto simp: nodes_inv_def)
  moreover have "\<forall>u \<in> node_range par. places st' R' u \<le> 1 \<and> (live st' \<longrightarrow> places st' R' u = 1)"
    using I l unfolding p nodes_inv_def by blast
  moreover have "topological par (completed st')" unfolding st'(4) by (rule topological_snoc [OF _ run(6)]) (use I in \<open>simp add: nodes_inv_def\<close>)
  ultimately show ?thesis using I st' run(1) unfolding nodes_inv_def by auto
qed

lemma nodes_complete_parent:
  assumes I: "nodes_inv par st R" and f: "sched_forest par" and v: "1 \<le> R v" and p: "elt par v = p" "p \<in> node_range par"
    and st': "parent_of st' = par" "pending st' = (pending st)[nat p := elt (pending st) p - 1]" "ready st' = ready st"
      "completed st' = completed st @ [(v, i)]" "remaining st' = remaining st - 1" "stopped st' = stopped st"
    and R': "\<And>u. R' u = R u - (if u = v then 1 else 0) + (if u = p \<and> elt (pending st) p = 1 then 1 else 0)"
  shows "nodes_inv par st' R'"
proof -
  note run = nodes_running [OF I v]
  have "elt par v = -1 \<or> v < elt par v" using f run(1) unfolding sched_forest_def by blast
  then have pv: "p \<noteq> v" using p by (auto simp: node_range_def)
  have len: "0 \<le> p" "p < int (length (pending st))" using I p by (simp_all add: nodes_inv_def node_range_def)
  have e: "elt (pending st') u = (if u = p then elt (pending st) p - 1 else elt (pending st) u)" if "u \<in> node_range par" for u
    unfolding st'(2) using len that by (simp add: at_update node_range_def)
  have l: "live st' \<Longrightarrow> live st" using st' I by (auto simp: live_def nodes_inv_def)
  have k: "int (card (open_kids par (completed st') q)) = int (card (open_kids par (completed st) q)) - (if elt par v = q then 1 else 0)" for q
    unfolding st'(4) by (rule open_kids_snoc [OF run(1,5)])
  have "v \<in> open_kids par (completed st) p" using run(1,5) p(1) by (simp add: open_kids_def)
  then have "0 < card (open_kids par (completed st) p)" by (auto simp: card_gt_0_iff)
  moreover have a: "int (card (open_kids par (completed st) q)) \<le> elt (pending st) q"
      "live st \<Longrightarrow> int (card (open_kids par (completed st) q)) = elt (pending st) q" if "q \<in> node_range par" for q
    using I that by (simp_all add: nodes_inv_def)
  ultimately have x: "1 \<le> elt (pending st) p" using a(1) [OF p(2)] by linarith
  have pl: "places st' R' u = places st R u" if "u \<in> node_range par" for u
    using e [OF that] x st' R' pv by (auto simp: places_def)
  have "\<forall>q \<in> node_range par. int (card (open_kids par (completed st') q)) \<le> elt (pending st') q
          \<and> (live st' \<longrightarrow> int (card (open_kids par (completed st') q)) = elt (pending st') q)"
  proof
    fix q assume q: "q \<in> node_range par"
    show "int (card (open_kids par (completed st') q)) \<le> elt (pending st') q
          \<and> (live st' \<longrightarrow> int (card (open_kids par (completed st') q)) = elt (pending st') q)"
      unfolding k e [OF q] using a [OF q] l p(1) by auto
  qed
  moreover have "\<forall>u \<in> node_range par. places st' R' u \<le> 1 \<and> (live st' \<longrightarrow> places st' R' u = 1)"
    using I l pl unfolding nodes_inv_def by simp
  moreover have "\<forall>u. 0 \<le> R' u \<and> (u \<notin> node_range par \<longrightarrow> R' u = 0)" using I v R' run(1) p(2) by (auto simp: nodes_inv_def)
  moreover have "topological par (completed st')" unfolding st'(4) by (rule topological_snoc [OF _ run(6)]) (use I in \<open>simp add: nodes_inv_def\<close>)
  ultimately show ?thesis using I st' run(1) unfolding nodes_inv_def by auto
qed

text \<open>What \<open>finish\<close> leaves: \<open>q\<close> the parent to continue with, \<open>t'\<close> its threads.\<close>

definition finish_spec :: "int list \<Rightarrow> 'j sched \<Rightarrow> (int \<Rightarrow> int) \<Rightarrow> int \<Rightarrow> int \<Rightarrow> 'j sched \<times> int \<times> int \<times> notification \<Rightarrow> bool" where
  "finish_spec par st R v t = (\<lambda>(st', q, t', nf).
     nodes_inv par st' (\<lambda>u. R u - (if u = v then 1 else 0) + (if u = q \<and> 0 \<le> q then 1 else 0))
     \<and> offers st' = offers st \<and> sleepers st' = sleepers st \<and> stopped st' = stopped st
     \<and> free_threads st' = free_threads st + t - (if 0 \<le> q then t' else 0)
     \<and> (0 \<le> q \<longrightarrow> (\<exists>k\<ge>0. t' = thread_share (free_threads st + t) k))
     \<and> (nf = NotifyAll \<and> remaining st' = 0 \<or> nf = NotifyNone \<and> stopped st \<or> nf = wake_one_if_runnable st' \<and> remaining st' \<noteq> 0 \<and> \<not> stopped st))"

lemma finish_node_ok:
  assumes I: "nodes_inv par st R" and f: "sched_forest par" and v: "1 \<le> R v"
  shows "ok (finish_node v i t st) (finish_spec par st R v t)"
proof -
  let ?st = "st\<lparr>free_threads := free_threads st + t, completed := completed st @ [(v, i)], remaining := remaining st - 1\<rparr>"
  let ?R = "\<lambda>u. R u - (if u = v then 1 else 0)"
  note run = nodes_running [OF I v]
  have par: "parent_of st = par" using I by (simp add: nodes_inv_def)
  show ?thesis
  proof (cases "remaining st - 1 = 0 \<or> stopped st")
    case True
    have "nodes_inv par ?st ?R" by (rule nodes_complete [OF I v]) (use True par in \<open>auto simp: live_def\<close>)
    then show ?thesis using True by (auto simp: finish_node_def finish_spec_def Let_def)
  next
    case False
    have g: "vget (parent_of ?st) v = Some (elt par v)" using run(1) par by (simp add: vget_at node_range_def)
    show ?thesis
    proof (cases "elt par v \<ge> 0")
      case p: False
      then have "nodes_inv par ?st ?R" by (intro nodes_complete [OF I v]) (use par in \<open>auto simp: node_range_def\<close>)
      then show ?thesis using False g p by (simp add: finish_node_def finish_spec_def Let_def)
    next
      case True
      let ?p = "elt par v"
      have "?p = -1 \<or> v < ?p \<and> ?p < int (length par)" using f run(1) unfolding sched_forest_def by blast
      then have p: "?p \<in> node_range par" using True by (auto simp: node_range_def)
      have len: "?p < int (length (pending st))" using I p by (simp add: nodes_inv_def node_range_def)
      let ?x = "elt (pending st) ?p"
      have gx: "vget (pending ?st) ?p = Some ?x" "vset (pending ?st) ?p (?x - 1) = Some ((pending st)[nat ?p := ?x - 1])"
        using True len by (simp_all add: vget_at vset_def)
      let ?st2 = "?st\<lparr>pending := (pending st)[nat ?p := ?x - 1]\<rparr>"
      have inv: "nodes_inv par st' (\<lambda>u. ?R u + (if u = ?p \<and> ?x = 1 then 1 else 0))"
        if "parent_of st' = parent_of ?st2" "pending st' = pending ?st2" "ready st' = ready ?st2" "completed st' = completed ?st2"
          "remaining st' = remaining ?st2" "stopped st' = stopped ?st2" for st'
        by (rule nodes_complete_parent [OF I f v HOL.refl p]) (use that par in simp_all)
      show ?thesis
      proof (cases "?x = 1")
        case x: True
        let ?t = "thread_share (free_threads ?st2) (int (length (ready ?st2)))"
        have "finish_node v i t st = Some (?st2\<lparr>free_threads := free_threads ?st2 - ?t\<rparr>, ?p, ?t, wake_one_if_runnable (?st2\<lparr>free_threads := free_threads ?st2 - ?t\<rparr>))"
          using False g True gx x by (simp add: finish_node_def Let_def)
        moreover have "finish_spec par st R v t (?st2\<lparr>free_threads := free_threads ?st2 - ?t\<rparr>, ?p, ?t, wake_one_if_runnable (?st2\<lparr>free_threads := free_threads ?st2 - ?t\<rparr>))"
          unfolding finish_spec_def prod.case
        proof (intro conjI)
          show "nodes_inv par (?st2\<lparr>free_threads := free_threads ?st2 - ?t\<rparr>) (\<lambda>u. ?R u + (if u = ?p \<and> 0 \<le> ?p then 1 else 0))"
            using inv [of "?st2\<lparr>free_threads := free_threads ?st2 - ?t\<rparr>"] x True by simp
          show "0 \<le> ?p \<longrightarrow> (\<exists>k\<ge>0. ?t = thread_share (free_threads st + t) k)" by (auto intro!: exI [of _ "int (length (ready st))"])
        qed (use True False in simp_all)
        ultimately show ?thesis by simp
      next
        case x: False
        have "finish_node v i t st = Some (?st2, -1, t, wake_one_if_runnable ?st2)"
          using False g True gx x by (simp add: finish_node_def Let_def)
        moreover have "finish_spec par st R v t (?st2, -1, t, wake_one_if_runnable ?st2)"
          using inv [of ?st2] x False by (simp add: finish_spec_def)
        ultimately show ?thesis by simp
      qed
    qed
  qed
qed


lemma count_le_distinct: "(\<And>v. count_list ys v \<le> 1) \<Longrightarrow> distinct ys"
proof (induction ys)
  case (Cons y ys)
  have "count_list ys v \<le> 1" for v using Cons.prems [of v] by (simp split: if_splits)
  moreover have "count_list ys y = 0" using Cons.prems [of y] by simp
  ultimately show ?case using Cons.IH by (simp add: count_list_0_iff)
qed simp

lemma nodes_distinct:
  assumes I: "nodes_inv par st R"
  shows "distinct (map fst (completed st))" "0 \<le> remaining st"
    "remaining st = 0 \<Longrightarrow> fst ` set (completed st) = node_range par"
proof -
  let ?xs = "map fst (completed st)"
  have "count_list ?xs v \<le> 1" for v
  proof (cases "v \<in> node_range par")
    case True
    then have "places st R v \<le> 1" "0 \<le> R v" using I by (simp_all add: nodes_inv_def)
    moreover have "(0 :: int) \<le> (if elt (pending st) v > 0 then 1 else 0)" by simp
    ultimately have "int (count_list ?xs v) \<le> 1" unfolding places_def by linarith
    then show ?thesis by simp
  next
    case False
    then have "v \<notin> set ?xs" using I by (auto simp: nodes_inv_def)
    then show ?thesis by (simp add: count_list_0_iff)
  qed
  then show d: "distinct ?xs" by (rule count_le_distinct)
  have sub: "set ?xs \<subseteq> node_range par" using I by (auto simp: nodes_inv_def)
  have c: "card (set ?xs) = length (completed st)" using distinct_card [OF d] by simp
  have fin: "finite (node_range par)" and cn: "card (node_range par) = length par" by (simp_all add: node_range_def)
  have "length (completed st) \<le> length par" using card_mono [OF fin sub] c cn by simp
  then show "0 \<le> remaining st" using I by (simp add: nodes_inv_def)
  show "fst ` set (completed st) = node_range par" if "remaining st = 0"
  proof -
    have "card (set ?xs) = card (node_range par)" using c cn that I by (simp add: nodes_inv_def)
    then have "set ?xs = node_range par" using card_subset_eq [OF fin sub] by simp
    then show ?thesis by simp
  qed
qed

section \<open>Workers: their shares, their sleep\<close>

fun runs :: "int \<Rightarrow> 'j worker \<Rightarrow> int" where
  "runs v (Running u t) = (if u = v then 1 else 0)"
| "runs v (Failing u t) = (if u = v then 1 else 0)"
| "runs v _ = 0"

fun held :: "'j worker \<Rightarrow> int" where
  "held (Running u t) = t"
| "held (Failing u t) = t"
| "held _ = 0"

fun sleeping :: "'j worker \<Rightarrow> int" where
  "sleeping Asleep = 1"
| "sleeping Woken = 1"
| "sleeping _ = 0"

fun worker_ok :: "'j sched \<Rightarrow> 'j worker \<Rightarrow> bool" where
  "worker_ok st (Running u t) \<longleftrightarrow> 1 \<le> t"
| "worker_ok st (Failing u t) \<longleftrightarrow> 1 \<le> t \<and> stopped st"
| "worker_ok st Returned \<longleftrightarrow> \<not> live st"
| "worker_ok st _ \<longleftrightarrow> True"

definition core_inv :: "nat \<Rightarrow> int list \<Rightarrow> int \<Rightarrow> 'j sched \<Rightarrow> (nat \<Rightarrow> 'j worker) \<Rightarrow> bool" where
  "core_inv W par T st ws \<longleftrightarrow> nodes_inv par st (\<lambda>v. tot W (runs v) ws)
     \<and> free_threads st + tot W held ws = T \<and> 0 \<le> free_threads st \<and> sleepers st = tot W sleeping ws
     \<and> (\<forall>x \<in> set (offers st). 0 < snd x) \<and> (\<forall>i<W. worker_ok st (ws i))"

text \<open>No wake-up is lost: while a worker sleeps, whatever can be taken has an awake worker to take it, and a stop
  has its notification still to come.\<close>

definition wake_inv :: "nat \<Rightarrow> 'j sched \<Rightarrow> (nat \<Rightarrow> 'j worker) \<Rightarrow> bool" where
  "wake_inv W st ws \<longleftrightarrow> (\<exists>i<W. ws i = Asleep) \<longrightarrow>
     (live st \<longrightarrow> takeable st \<longrightarrow> (\<exists>k<W. ws k = Polling \<or> ws k = Woken))
     \<and> (\<not> live st \<longrightarrow> (\<exists>k<W. \<exists>v t. ws k = Failing v t))"

definition sched_inv :: "nat \<Rightarrow> int list \<Rightarrow> int \<Rightarrow> 'j sched \<times> (nat \<Rightarrow> 'j worker) \<Rightarrow> bool" where
  "sched_inv W par T = (\<lambda>(st, ws). core_inv W par T st ws \<and> wake_inv W st ws)"

lemma notified_at: "notified W nf ws ws' \<Longrightarrow> ws' i = ws i \<or> (ws i = Asleep \<and> ws' i = Woken)"
  by (auto simp: notified_def split: notification.splits if_splits)

lemma notified_tot: "notified W nf ws ws' \<Longrightarrow> f Asleep = f Woken \<Longrightarrow> tot W f ws' = tot W f ws"
  by (rule tot_cong) (metis notified_at)

lemma core_notified:
  assumes "core_inv W par T st ws" "notified W nf ws ws'"
  shows "core_inv W par T st ws'"
proof -
  have "worker_ok st (ws' i)" if "i < W" for i
    using assms(1) notified_at [OF assms(2), of i] that by (auto simp: core_inv_def)
  then show ?thesis using assms(1) notified_tot [OF assms(2)] by (simp add: core_inv_def)
qed

lemma wake_all: "notified W NotifyAll ws ws' \<Longrightarrow> wake_inv W st ws'"
  by (simp add: notified_def wake_inv_def)

lemma wake_one:
  assumes c: "core_inv W par T st ws" and n: "notified W (wake_one_if_runnable st) ws ws'" and l: "live st"
  shows "wake_inv W st ws'"
proof -
  have "\<exists>k<W. ws' k = Polling \<or> ws' k = Woken" if i: "i < W" "ws' i = Asleep" and t: "takeable st" for i
  proof -
    have a: "ws i = Asleep" using notified_at [OF n, of i] i(2) by auto
    have "sleeping (ws i) \<le> tot W sleeping ws"
    proof (rule tot_ge [OF i(1)])
      show "0 \<le> sleeping (ws j)" for j by (cases "ws j") simp_all
    qed
    then have "0 < sleepers st" using c a by (simp add: core_inv_def)
    then have "(\<exists>i<W. ws i = Asleep \<and> ws' = ws(i := Woken)) \<or> (\<forall>i<W. ws i \<noteq> Asleep)"
      using n t by (auto simp: wake_one_if_runnable_def notified_def)
    then show ?thesis using a i(1) by (metis fun_upd_same)
  qed
  then show ?thesis using l by (auto simp: wake_inv_def)
qed

lemma thread_share_bounds: "1 \<le> free \<Longrightarrow> 0 \<le> k \<Longrightarrow> 1 \<le> thread_share free k \<and> thread_share free k \<le> free"
  using zdiv_mono2 [of free 1 "k + 1"] by (auto simp: thread_share_def max_def)


section \<open>Every step keeps the invariant\<close>

lemma acquire_cases:
  assumes "acquire_task st = Some (st', t, nf)"
  obtains (none) "stopped st \<or> remaining st = 0" "st' = st" "t = NoTask" "nf = NotifyNone"
  | (node) v rdy where "\<not> stopped st" "remaining st \<noteq> 0" "ready st = rdy @ [v]" "free_threads st > 0"
      "t = Node v (thread_share (free_threads st) (int (length rdy)))"
      "st' = st\<lparr>ready := rdy, free_threads := free_threads st - thread_share (free_threads st) (int (length rdy)), queue_pops := queue_pops st + 1\<rparr>"
      "nf = wake_one_if_runnable st'"
  | (job) os j s where "\<not> stopped st" "remaining st \<noteq> 0" "offers st = os @ [(j, s)]" "t = Job j"
      "st' = st\<lparr>offers := os @ (if s - 1 = 0 then [] else [(j, s - 1)])\<rparr>" "nf = wake_one_if_runnable st'"
proof (cases "stopped st \<or> remaining st = 0")
  case True
  then have "acquire_task st = Some (st, NoTask, NotifyNone)" by (simp add: acquire_task_def)
  then have "st' = st" "t = NoTask" "nf = NotifyNone" using assms by simp_all
  then show thesis by (rule none [OF True])
next
  case False
  show thesis
  proof (cases "ready st \<noteq> [] \<and> free_threads st > 0")
    case True
    obtain rdy v where r: "ready st = rdy @ [v]" using True by (cases "ready st" rule: rev_cases) simp_all
    let ?t = "thread_share (free_threads st) (int (length rdy))"
    let ?st = "st\<lparr>ready := rdy, free_threads := free_threads st - ?t, queue_pops := queue_pops st + 1\<rparr>"
    have "acquire_task st = Some (?st, Node v ?t, wake_one_if_runnable ?st)"
      using False True r by (simp add: acquire_task_def Let_def)
    then have e: "st' = ?st" "t = Node v ?t" "nf = wake_one_if_runnable ?st" using assms by simp_all
    show thesis by (rule node [of rdy v]) (use False True r e in auto)
  next
    case nr: False
    then have o: "offers st \<noteq> []" using assms False by (auto simp: acquire_task_def split: if_splits)
    obtain os x where "offers st = os @ [x]" using o by (cases "offers st" rule: rev_cases) simp_all
    then obtain j s where l: "offers st = os @ [(j, s)]" by (cases x) simp
    let ?st = "st\<lparr>offers := os @ (if s - 1 = 0 then [] else [(j, s - 1)])\<rparr>"
    have "acquire_task st = Some (?st, Job j, wake_one_if_runnable ?st)"
      using False nr l by (simp add: acquire_task_def Let_def)
    then have e: "st' = ?st" "t = Job j" "nf = wake_one_if_runnable ?st" using assms by simp_all
    show thesis by (rule job [of os j s]) (use False l e in auto)
  qed
qed

text \<open>Replacing the state of worker \<open>i\<close>.\<close>

lemma core_upd:
  assumes c: "core_inv W par T st ws" and i: "i < W"
    and n: "nodes_inv par st' (\<lambda>v. tot W (runs v) ws - runs v (ws i) + runs v w)"
    and fr: "free_threads st' = free_threads st + held (ws i) - held w" "0 \<le> free_threads st'"
    and sl: "sleepers st' = sleepers st - sleeping (ws i) + sleeping w"
    and of: "\<forall>x \<in> set (offers st'). 0 < snd x" and ok: "worker_ok st' w"
    and mono: "live st' \<longrightarrow> live st" "stopped st \<longrightarrow> stopped st'"
  shows "core_inv W par T st' (ws(i := w))"
proof -
  have "worker_ok st' ((ws(i := w)) j)" if "j < W" for j
  proof (cases "j = i")
    case False
    then have "worker_ok st (ws j)" using c that by (simp add: core_inv_def)
    then show ?thesis using False mono by (cases "ws j") auto
  qed (use ok in simp)
  then show ?thesis using c n fr sl of by (simp add: core_inv_def tot_upd [OF i])
qed

lemma core_running:
  assumes "core_inv W par T st ws" "i < W" "ws i = Running v t \<or> ws i = Failing v t"
  shows "1 \<le> tot W (runs v) ws" "1 \<le> t"
proof -
  have "runs v (ws i) \<le> tot W (runs v) ws"
  proof (rule tot_ge [OF assms(2)])
    show "0 \<le> runs v (ws j)" for j by (cases "ws j") simp_all
  qed
  then show "1 \<le> tot W (runs v) ws" using assms(3) by auto
  have "worker_ok st (ws i)" using assms(1,2) by (simp add: core_inv_def)
  then show "1 \<le> t" using assms(3) by auto
qed

lemma inv_take:
  assumes I: "sched_inv W par T (st, ws)" and i: "i < W" "ws i = Polling" and a: "acquire_task st = Some (st', t, nf)"
    and n: "notified W nf (ws(i := task_worker t)) ws'"
  shows "sched_inv W par T (st', ws')"
proof -
  have c: "core_inv W par T st ws" and w: "wake_inv W st ws" using I by (simp_all add: sched_inv_def)
  have N: "nodes_inv par st (\<lambda>v. tot W (runs v) ws)" using c by (simp add: core_inv_def)
  show ?thesis
    using a
  proof (cases rule: acquire_cases)
    case none
    have nl: "\<not> live st" using none(1) nodes_distinct(2) [OF N] by (auto simp: live_def)
    have c': "core_inv W par T st (ws(i := Returned))"
      by (rule core_upd [OF c i(1)]) (use c N i nl in \<open>simp_all add: core_inv_def\<close>)
    have "wake_inv W st (ws(i := Returned))" unfolding wake_inv_def
    proof (intro impI conjI)
      assume "\<exists>j<W. (ws(i := Returned)) j = Asleep"
      then have "\<exists>j<W. ws j = Asleep" by (auto split: if_splits)
      then obtain k v u where "k < W" "ws k = Failing v u" using w nl unfolding wake_inv_def by blast
      then show "\<exists>k<W. \<exists>v t. (ws(i := Returned)) k = Failing v t" using i by (intro exI [of _ k]) auto
    qed (use nl in simp)
    then show ?thesis using c' n none by (simp add: sched_inv_def notified_def)
  next
    case (node v rdy)
    let ?t = "thread_share (free_threads st) (int (length rdy))"
    have l: "live st'" "live st" using node nodes_distinct(2) [OF N] by (simp_all add: live_def)
    have ts: "1 \<le> ?t" "?t \<le> free_threads st" using thread_share_bounds node(4) by auto
    have "core_inv W par T st' (ws(i := Running v ?t))"
    proof (rule core_upd [OF c i(1)])
      show "nodes_inv par st' (\<lambda>u. tot W (runs u) ws - runs u (ws i) + runs u (Running v ?t))"
        by (rule nodes_take [OF N node(3)]) (use node i in simp_all)
    qed (use c ts node i l in \<open>simp_all add: core_inv_def\<close>)
    then have c': "core_inv W par T st' (ws(i := task_worker t))" using node(5) by simp
    have "wake_inv W st' ws'" by (rule wake_one [OF c' _ l(1)]) (use n node(7) in simp)
    then show ?thesis using core_notified [OF c' n] by (simp add: sched_inv_def)
  next
    case (job os j s)
    have l: "live st'" "live st" using job nodes_distinct(2) [OF N] by (simp_all add: live_def)
    have of: "\<forall>x \<in> set (offers st'). 0 < snd x" using c job by (auto simp: core_inv_def split: if_splits)
    have "core_inv W par T st' (ws(i := Helping j))"
    proof (rule core_upd [OF c i(1)])
      show "nodes_inv par st' (\<lambda>u. tot W (runs u) ws - runs u (ws i) + runs u (Helping j))"
        using nodes_unchanged [OF N, of st'] job(5) i(2) by simp
    qed (use c job i of in \<open>simp_all add: core_inv_def live_def\<close>)
    then have c': "core_inv W par T st' (ws(i := task_worker t))" using job(4) by simp
    have "wake_inv W st' ws'" by (rule wake_one [OF c' _ l(1)]) (use n job(6) in simp)
    then show ?thesis using core_notified [OF c' n] by (simp add: sched_inv_def)
  qed
qed

lemma inv_unblock:
  assumes I: "sched_inv W par T (st, ws)" and i: "i < W" "ws i = Woken"
  shows "sched_inv W par T (st\<lparr>sleepers := sleepers st - 1\<rparr>, ws(i := Polling))"
proof -
  let ?st = "st\<lparr>sleepers := sleepers st - 1\<rparr>"
  have c: "core_inv W par T st ws" and w: "wake_inv W st ws" using I by (simp_all add: sched_inv_def)
  have N: "nodes_inv par st (\<lambda>v. tot W (runs v) ws)" using c by (simp add: core_inv_def)
  have "core_inv W par T ?st (ws(i := Polling))"
  proof (rule core_upd [OF c i(1)])
    have "(\<lambda>u. tot W (runs u) ws - runs u (ws i) + runs u Polling) = (\<lambda>u. tot W (runs u) ws)" using i(2) by simp
    then show "nodes_inv par ?st (\<lambda>u. tot W (runs u) ws - runs u (ws i) + runs u Polling)"
      using nodes_unchanged [OF N, of ?st] by simp
  qed (use c i in \<open>simp_all add: core_inv_def live_def\<close>)
  moreover have "wake_inv W ?st (ws(i := Polling))" unfolding wake_inv_def
  proof (intro impI conjI)
    assume "\<exists>j<W. (ws(i := Polling)) j = Asleep"
    then have a: "\<exists>j<W. ws j = Asleep" by (auto split: if_splits)
    show "\<exists>k<W. (ws(i := Polling)) k = Polling \<or> (ws(i := Polling)) k = Woken" using i(1) by (intro exI [of _ i]) simp
    assume "\<not> live ?st"
    then have "\<not> live st" by (simp add: live_def)
    then obtain k v u where "k < W" "ws k = Failing v u" using w a unfolding wake_inv_def by blast
    then show "\<exists>k<W. \<exists>v t. (ws(i := Polling)) k = Failing v t" using i by (intro exI [of _ k]) auto
  qed
  ultimately show ?thesis by (simp add: sched_inv_def)
qed

text \<open>A worker other than a failing one changes state, nothing else does.\<close>

lemma inv_local:
  assumes I: "sched_inv W par T (st, ws)" and i: "i < W" and w: "\<And>u. runs u w = runs u (ws i)"
    "held w = held (ws i)" "\<nexists>u t. ws i = Failing u t" "worker_ok st w"
    and sl: "sleeping w = sleeping (ws i)"
    and as: "w = Asleep \<longrightarrow> \<not> takeable st \<and> live st" and aw: "w = Polling \<or> w = Woken \<or> w = Asleep"
  shows "sched_inv W par T (st, ws(i := w))"
proof -
  have c: "core_inv W par T st ws" and wk: "wake_inv W st ws" using I by (simp_all add: sched_inv_def)
  have "core_inv W par T st (ws(i := w))"
    by (rule core_upd [OF c i]) (use c w sl in \<open>simp_all add: core_inv_def\<close>)
  moreover have "wake_inv W st (ws(i := w))" unfolding wake_inv_def
  proof (intro impI conjI)
    assume a: "\<exists>j<W. (ws(i := w)) j = Asleep"
    { assume "live st" "takeable st"
      then have "w = Polling \<or> w = Woken" using as aw by blast
      then show "\<exists>k<W. (ws(i := w)) k = Polling \<or> (ws(i := w)) k = Woken" using i by (intro exI [of _ i]) auto }
    assume nl: "\<not> live st"
    then have "w \<noteq> Asleep" using as by blast
    then have "\<exists>j<W. ws j = Asleep" using a by (auto split: if_splits)
    then obtain k v u where "k < W" "ws k = Failing v u" using wk nl unfolding wake_inv_def by blast
    then show "\<exists>k<W. \<exists>v t. (ws(i := w)) k = Failing v t" using w(3) by (intro exI [of _ k]) auto
  qed
  ultimately show ?thesis by (simp add: sched_inv_def)
qed

lemma not_runnable:
  assumes "nodes_inv par st R" "\<not> runnable st"
  shows "\<not> takeable st" "live st"
  using assms nodes_distinct(2) [OF assms(1)] by (simp_all add: runnable_def live_def)

lemma inv_sleep:
  assumes I: "sched_inv W par T (st, ws)" and i: "i < W" "ws i = Polling" and r: "\<not> runnable st"
  shows "sched_inv W par T (st\<lparr>sleepers := sleepers st + 1\<rparr>, ws(i := Asleep))"
proof -
  let ?st = "st\<lparr>sleepers := sleepers st + 1\<rparr>"
  have c: "core_inv W par T st ws" using I by (simp add: sched_inv_def)
  have N: "nodes_inv par st (\<lambda>v. tot W (runs v) ws)" using c by (simp add: core_inv_def)
  have "core_inv W par T ?st (ws(i := Asleep))"
  proof (rule core_upd [OF c i(1)])
    have "(\<lambda>u. tot W (runs u) ws - runs u (ws i) + runs u Asleep) = (\<lambda>u. tot W (runs u) ws)" using i(2) by simp
    then show "nodes_inv par ?st (\<lambda>u. tot W (runs u) ws - runs u (ws i) + runs u Asleep)"
      using nodes_unchanged [OF N, of ?st] by simp
  qed (use c i in \<open>simp_all add: core_inv_def live_def\<close>)
  moreover have "\<not> takeable ?st" "live ?st" using not_runnable [OF N r] by (simp_all add: takeable_def live_def)
  ultimately show ?thesis by (simp add: sched_inv_def wake_inv_def)
qed

lemma inv_finish:
  assumes I: "sched_inv W par T (st, ws)" and f: "sched_forest par" and i: "i < W" "ws i = Running v t"
    and a: "finish_node v i t st = Some (st', q, t', nf)"
    and n: "notified W nf (ws(i := (if q \<ge> 0 then Running q t' else Polling))) ws'"
  shows "sched_inv W par T (st', ws')"
proof -
  let ?w = "if q \<ge> 0 then Running q t' else Polling"
  have c: "core_inv W par T st ws" and w: "wake_inv W st ws" using I by (simp_all add: sched_inv_def)
  have N: "nodes_inv par st (\<lambda>v. tot W (runs v) ws)" and fr: "0 \<le> free_threads st" using c by (simp_all add: core_inv_def)
  note run = core_running [OF c i(1) disjI1 [OF i(2)]]
  have F: "finish_spec par st (\<lambda>v. tot W (runs v) ws) v t (st', q, t', nf)"
    by (rule ok_the [OF finish_node_ok [OF N f run(1)] a])
  have ts: "1 \<le> t' \<and> t' \<le> free_threads st + t" if "0 \<le> q"
    using F that thread_share_bounds [of "free_threads st + t"] fr run(2) by (auto simp: finish_spec_def)
  have st: "offers st' = offers st" "sleepers st' = sleepers st" "stopped st' = stopped st" "free_threads st' = free_threads st + t - (if 0 \<le> q then t' else 0)"
    "nodes_inv par st' (\<lambda>u. tot W (runs u) ws - (if u = v then 1 else 0) + (if u = q \<and> 0 \<le> q then 1 else 0))"
    using F by (simp_all add: finish_spec_def)
  have e: "(\<lambda>u. tot W (runs u) ws - (if u = v then 1 else 0) + (if u = q \<and> 0 \<le> q then 1 else 0))
      = (\<lambda>u. tot W (runs u) ws - runs u (ws i) + runs u ?w)" using i(2) by auto
  have N': "nodes_inv par st' (\<lambda>u. tot W (runs u) ws - runs u (ws i) + runs u ?w)" by (rule iffD1 [OF arg_cong [OF e, of "nodes_inv par st'"] st(5)])
  have rem: "remaining st' \<le> remaining st"
  proof -
    have "remaining st' = remaining st - 1" using a by (auto simp: finish_node_def Let_def Option.bind_eq_Some_conv split: if_splits)
    then show ?thesis by simp
  qed
  have "0 \<le> free_threads st'" using ts fr run(2) st(4) by auto
  then have c': "core_inv W par T st' (ws(i := ?w))"
    by (intro core_upd [OF c i(1) N']) (use c st i ts rem in \<open>auto simp: core_inv_def live_def\<close>)
  have "wake_inv W st' ws'"
  proof -
    from F consider "nf = NotifyAll" | "nf = NotifyNone" "stopped st" | "nf = wake_one_if_runnable st'" "remaining st' \<noteq> 0" "\<not> stopped st"
      by (auto simp: finish_spec_def)
    then show ?thesis
    proof cases
      case 1
      then show ?thesis using wake_all n by simp
    next
      case 2
      then have ws': "ws' = ws(i := ?w)" using n by (simp add: notified_def)
      have nl: "\<not> live st'" "\<not> live st" using 2 st(3) by (simp_all add: live_def)
      show ?thesis unfolding wake_inv_def
      proof (intro impI conjI)
        assume "\<exists>j<W. ws' j = Asleep"
        then have "\<exists>j<W. ws j = Asleep" unfolding ws' by (auto split: if_splits)
        then obtain k x u where "k < W" "ws k = Failing x u" using w nl(2) unfolding wake_inv_def by blast
        then show "\<exists>k<W. \<exists>v t. ws' k = Failing v t" unfolding ws' using i by (intro exI [of _ k]) auto
      qed (use nl in simp)
    next
      case 3
      have "live st'" using 3 st(3) nodes_distinct(2) [OF N'] by (simp add: live_def)
      then show ?thesis by (intro wake_one [OF c']) (use n 3 in simp_all)
    qed
  qed
  then show ?thesis using core_notified [OF c' n] by (simp add: sched_inv_def)
qed


lemma wake_dead:
  assumes w: "wake_inv W st ws" and l: "\<not> live st" "\<not> live st'" and n: "notified W nf ws ws'"
  shows "wake_inv W st' ws'"
  unfolding wake_inv_def
proof (intro impI conjI)
  assume "\<exists>j<W. ws' j = Asleep"
  then have "\<exists>j<W. ws j = Asleep" using notified_at [OF n] by (metis worker.distinct(9))
  then obtain k v t where "k < W" "ws k = Failing v t" using w l(1) unfolding wake_inv_def by blast
  then show "\<exists>k<W. \<exists>v t. ws' k = Failing v t" using notified_at [OF n, of k] by (intro exI [of _ k]) auto
qed (use l in simp)

lemma inv_fail:
  assumes I: "sched_inv W par T (st, ws)" and i: "i < W" "ws i = Running v t"
  shows "sched_inv W par T (st\<lparr>stopped := True\<rparr>, ws(i := Failing v t))"
proof -
  let ?st = "st\<lparr>stopped := True\<rparr>"
  have c: "core_inv W par T st ws" using I by (simp add: sched_inv_def)
  have N: "nodes_inv par st (\<lambda>v. tot W (runs v) ws)" using c by (simp add: core_inv_def)
  have t: "1 \<le> t" using core_running [OF c i(1)] i(2) by blast
  have "core_inv W par T ?st (ws(i := Failing v t))"
  proof (rule core_upd [OF c i(1)])
    have "(\<lambda>u. tot W (runs u) ws - runs u (ws i) + runs u (Failing v t)) = (\<lambda>u. tot W (runs u) ws)" using i(2) by simp
    then show "nodes_inv par ?st (\<lambda>u. tot W (runs u) ws - runs u (ws i) + runs u (Failing v t))"
      using nodes_unchanged [OF N, of ?st] by simp
  qed (use c i t in \<open>simp_all add: core_inv_def live_def\<close>)
  moreover have "wake_inv W ?st (ws(i := Failing v t))" unfolding wake_inv_def
    using i(1) by (auto simp: live_def intro!: exI [of _ i])
  ultimately show ?thesis by (simp add: sched_inv_def)
qed

lemma inv_stop:
  assumes I: "sched_inv W par T (st, ws)" and i: "i < W" "ws i = Failing v t" and a: "stop_node t st = (st', nf)"
    and n: "notified W nf (ws(i := Polling)) ws'"
  shows "sched_inv W par T (st', ws')"
proof -
  have st': "st' = st\<lparr>free_threads := free_threads st + t\<rparr>" "nf = NotifyAll" using a by (simp_all add: stop_node_def)
  have c: "core_inv W par T st ws" using I by (simp add: sched_inv_def)
  have N: "nodes_inv par st (\<lambda>v. tot W (runs v) ws)" and "worker_ok st (ws i)" using c i(1) by (simp_all add: core_inv_def)
  then have s: "stopped st" "1 \<le> t" using i(2) by simp_all
  have "core_inv W par T st' (ws(i := Polling))"
  proof (rule core_upd [OF c i(1)])
    have r: "0 \<le> tot W (runs u) ws - runs u (ws i) \<and> tot W (runs u) ws - runs u (ws i) \<le> tot W (runs u) ws" for u
    proof -
      have "runs u (ws i) \<le> tot W (runs u) ws"
      proof (rule tot_ge [OF i(1)])
        show "0 \<le> runs u (ws j)" for j by (cases "ws j") simp_all
      qed
      moreover have "0 \<le> runs u (ws i)" by (cases "ws i") simp_all
      ultimately show ?thesis by simp
    qed
    have "nodes_inv par st (\<lambda>u. tot W (runs u) ws - runs u (ws i) + runs u Polling)"
      by (rule nodes_drop [OF N s(1)]) (use r in simp)
    then show "nodes_inv par st' (\<lambda>u. tot W (runs u) ws - runs u (ws i) + runs u Polling)"
      by (rule nodes_unchanged) (simp_all add: st')
  qed (use c i s st' in \<open>simp_all add: core_inv_def live_def\<close>)
  then show ?thesis using core_notified n wake_all st'(2) by (auto simp: sched_inv_def)
qed

lemma inv_offers:
  assumes I: "sched_inv W par T (st, ws)" and i: "i < W" and st': "st' = st\<lparr>offers := os\<rparr>" and os: "\<forall>x \<in> set os. 0 < snd x"
  shows "core_inv W par T st' ws"
proof -
  have c: "core_inv W par T st ws" using I by (simp add: sched_inv_def)
  have N: "nodes_inv par st (\<lambda>v. tot W (runs v) ws)" using c by (simp add: core_inv_def)
  have ok: "worker_ok st' (ws i)"
  proof -
    have "worker_ok st (ws i)" using c i by (simp add: core_inv_def)
    then show ?thesis unfolding st' by (cases "ws i") (simp_all add: live_def)
  qed
  have "core_inv W par T st' (ws(i := ws i))"
  proof (rule core_upd [OF c i])
    show "nodes_inv par st' (\<lambda>u. tot W (runs u) ws - runs u (ws i) + runs u (ws i))"
      using nodes_unchanged [OF N, of st'] st' by simp
  qed (use c ok os st' in \<open>simp_all add: core_inv_def live_def\<close>)
  then show ?thesis by simp
qed

lemma inv_offer:
  assumes I: "sched_inv W par T (st, ws)" and i: "i < W" and a: "offer_job j slots st = (st', nf)" and n: "notified W nf ws ws'"
  shows "sched_inv W par T (st', ws')"
proof (cases "slots \<le> 0")
  case True
  then show ?thesis using a n I by (simp add: offer_job_def notified_def)
next
  case False
  then have st': "st' = st\<lparr>offers := offers st @ [(j, slots)]\<rparr>" "nf = wake_one_if_runnable st'" using a by (auto simp: offer_job_def Let_def)
  have "\<forall>x \<in> set (offers st). 0 < snd x" using I by (simp add: sched_inv_def core_inv_def)
  then have c: "core_inv W par T st' ws" by (intro inv_offers [OF I i st'(1)]) (use False in auto)
  have l: "live st' = live st" using st'(1) by (simp add: live_def)
  have "wake_inv W st' ws'"
  proof (cases "live st'")
    case True
    then show ?thesis using wake_one [OF c] n st'(2) by blast
  next
    case dead: False
    then show ?thesis using wake_dead [of W st ws st' nf ws'] I l n by (simp add: sched_inv_def)
  qed
  then show ?thesis using core_notified [OF c n] by (simp add: sched_inv_def)
qed

lemma drop_offer_sub: "set (drop_offer j os) \<subseteq> set os"
  by (induction j os rule: drop_offer.induct) auto

lemma inv_withdraw:
  assumes I: "sched_inv W par T (st, ws)" and i: "i < W"
  shows "sched_inv W par T (withdraw_job j st, ws)"
proof -
  let ?st = "withdraw_job j st"
  have "\<forall>x \<in> set (offers st). 0 < snd x" using I by (simp add: sched_inv_def core_inv_def)
  then have c: "core_inv W par T ?st ws"
    by (intro inv_offers [OF I i withdraw_job_def]) (use drop_offer_sub in fast)
  have "live ?st = live st" "takeable ?st \<longrightarrow> takeable st" using drop_offer_sub [of j "offers st"]
    by (auto simp: live_def takeable_def withdraw_job_def)
  then have "wake_inv W ?st ws" using I by (auto simp: sched_inv_def wake_inv_def)
  then show ?thesis using c by (simp add: sched_inv_def)
qed

lemma inv_step:
  assumes f: "sched_forest par" and I: "sched_inv W par T s" and st: "sched_step W s s'"
  shows "sched_inv W par T s'"
  using st I
proof (cases rule: sched_step.cases)
  case (step_take i ws st st' t nf ws')
  then show ?thesis using inv_take I by blast
next
  case (step_sleep i ws st)
  then show ?thesis using inv_sleep I by blast
next
  case (step_spurious i ws st)
  then show ?thesis using inv_local [of W par T st ws i Woken] I by simp
next
  case (step_rewait i ws st)
  have N: "nodes_inv par st (\<lambda>v. tot W (runs v) ws)" using I step_rewait(1) by (simp add: sched_inv_def core_inv_def)
  show ?thesis using inv_local [of W par T st ws i Asleep] I step_rewait not_runnable [OF N step_rewait(5)] by simp
next
  case (step_wake i ws st st' t nf ws')
  have "sched_inv W par T (st\<lparr>sleepers := sleepers st - 1\<rparr>, ws(i := Polling))"
    using inv_unblock I step_wake(1,3,4) by blast
  then show ?thesis using inv_take [of W par T "st\<lparr>sleepers := sleepers st - 1\<rparr>" "ws(i := Polling)" i st' t nf ws'] step_wake by simp
next
  case (step_finish i ws v t st st' p t' nf ws')
  then show ?thesis using inv_finish [OF _ f] I by blast
next
  case (step_fail i ws v t st)
  then show ?thesis using inv_fail I by blast
next
  case (step_stop i ws v t st st' nf ws')
  then show ?thesis using inv_stop I by blast
next
  case (step_offer i ws v t j slots st st' nf ws')
  then show ?thesis using inv_offer [of W par T st ws i j slots st' nf ws'] I by simp
next
  case (step_withdraw i ws v t st j)
  then show ?thesis using inv_withdraw [of W par T st ws i j] I by simp
next
  case (step_helped i ws j st)
  then show ?thesis using inv_local [of W par T st ws i Polling] I by simp
qed


section \<open>The constructor\<close>

lemma sched_init_ok:
  assumes f: "sched_forest par"
  shows "ok (sched_init par threads :: 'j sched option) (\<lambda>st. nodes_inv par st (\<lambda>_. 0) \<and> offers st = [] \<and> free_threads st = max 1 threads
    \<and> sleepers st = 0 \<and> stopped st = False \<and> completed st = [])"
proof -
  let ?n = "int (length par)"
  let ?K = "\<lambda>i p. {c. 0 \<le> c \<and> c < i \<and> elt par c = p}"
  have par: "elt par i = -1 \<or> 0 \<le> elt par i \<and> elt par i < ?n" if "0 \<le> i" "i < ?n" for i
  proof -
    have "elt par i = -1 \<or> i < elt par i \<and> elt par i < ?n" using f that unfolding sched_forest_def node_range_def by simp
    then show ?thesis using that by linarith
  qed
  have fin: "finite (?K i p)" for i p by (rule finite_subset [of _ "{0..<i}"]) auto
  have K: "?K (i + 1) p = (if elt par i = p then insert i (?K i p) else ?K i p)" if "0 \<le> i" for i p
    using that by (auto simp: le_less)
  have Kc: "int (card (?K (i + 1) p)) = int (card (?K i p)) + (if elt par i = p then 1 else 0)" if "0 \<le> i" for i p
    unfolding K [OF that] using fin [of i p] by simp
  have "ok (for_range 0 ?n (\<lambda>i pend. do {
       p \<leftarrow> vget par i;
       if p \<ge> 0 then do { x \<leftarrow> vget pend p; vset pend p (x + 1) } else Some pend
     }) (replicate (length par) 0)) (\<lambda>pend. length pend = length par \<and> (\<forall>p \<in> node_range par. elt pend p = int (card (?K ?n p))))"
  proof (rule for_range_ok [where I = "\<lambda>i pend. length pend = length par \<and> (\<forall>p \<in> node_range par. elt pend p = int (card (?K i p)))"])
    have z: "?K 0 p = {}" for p by auto
    have "card (?K 0 p) = 0" for p unfolding z by simp
    moreover have "elt (replicate (length par) (0 :: int)) p = 0" if "p \<in> node_range par" for p using that by (simp add: node_range_def elt_def nat_less_iff)
    ultimately show "length (replicate (length par) 0) = length par \<and> (\<forall>p \<in> node_range par. elt (replicate (length par) 0) p = int (card (?K 0 p)))"
      by simp
  next
    fix i pend assume i: "0 \<le> i" "i < ?n" and I: "length pend = length par \<and> (\<forall>p \<in> node_range par. elt pend p = int (card (?K i p)))"
    have g: "vget par i = Some (elt par i)" using i by (simp add: vget_at)
    show "ok (do {
       p \<leftarrow> vget par i;
       if p \<ge> 0 then do { x \<leftarrow> vget pend p; vset pend p (x + 1) } else Some pend
     }) (\<lambda>pend. length pend = length par \<and> (\<forall>p \<in> node_range par. elt pend p = int (card (?K (i + 1) p))))"
    proof (cases "elt par i \<ge> 0")
      case True
      then have b: "elt par i < int (length pend)" using par [OF i] I by auto
      let ?x = "elt pend (elt par i)"
      have "vget pend (elt par i) = Some ?x" "vset pend (elt par i) (?x + 1) = Some (pend[nat (elt par i) := ?x + 1])"
        using True b by (simp_all add: vget_at vset_def)
      moreover have "elt (pend[nat (elt par i) := ?x + 1]) p = int (card (?K (i + 1) p))" if "p \<in> node_range par" for p
        unfolding Kc [OF i(1)] using that I b True by (auto simp: at_update node_range_def)
      ultimately show ?thesis using g True I by simp
    next
      case False
      then have "int (card (?K (i + 1) p)) = int (card (?K i p))" if "p \<in> node_range par" for p
        unfolding Kc [OF i(1)] using that by (auto simp: node_range_def)
      then show ?thesis using g False I by simp
    qed
  qed (simp add: max_def)
  then obtain pend where pend: "for_range 0 ?n (\<lambda>i pend. do {
       p \<leftarrow> vget par i;
       if p \<ge> 0 then do { x \<leftarrow> vget pend p; vset pend p (x + 1) } else Some pend
     }) (replicate (length par) 0) = Some pend" "length pend = length par" "\<And>p. p \<in> node_range par \<Longrightarrow> elt pend p = int (card (?K ?n p))"
    unfolding ok_def by blast
  let ?I = "\<lambda>i rdy. set rdy \<subseteq> {0..<i} \<and> (\<forall>v. 0 \<le> v \<and> v < i \<longrightarrow> count_list rdy v = (if elt pend v = 0 then 1 else 0))"
  have "ok (for_range 0 ?n (\<lambda>i rdy. do { x \<leftarrow> vget pend i; Some (if x = 0 then rdy @ [i] else rdy) }) []) (?I ?n)"
  proof (rule for_range_ok [where I = ?I])
    fix i rdy assume i: "0 \<le> i" "i < ?n" and I: "?I i rdy"
    have g: "vget pend i = Some (elt pend i)" using i pend(2) by (simp add: vget_at)
    have sub: "set rdy \<subseteq> {0..<i}" and cnt: "\<And>v. 0 \<le> v \<Longrightarrow> v < i \<Longrightarrow> count_list rdy v = (if elt pend v = 0 then 1 else 0)"
      using I by simp_all
    have ci: "count_list rdy i = 0" unfolding count_list_0_iff using sub by auto
    have "?I (i + 1) (if elt pend i = 0 then rdy @ [i] else rdy)"
    proof (intro conjI allI impI)
      show "set (if elt pend i = 0 then rdy @ [i] else rdy) \<subseteq> {0..<i + 1}" using sub i(1) by (auto dest!: subsetD)
      fix v assume v: "0 \<le> v \<and> v < i + 1"
      show "count_list (if elt pend i = 0 then rdy @ [i] else rdy) v = (if elt pend v = 0 then 1 else 0)"
        using cnt [of v] ci v by (cases "v = i") auto
    qed
    then show "ok (do { x \<leftarrow> vget pend i; Some (if x = 0 then rdy @ [i] else rdy) }) (?I (i + 1))" using g by simp
  qed (simp_all add: max_def)
  then obtain rdy where rdy: "for_range 0 ?n (\<lambda>i rdy. do { x \<leftarrow> vget pend i; Some (if x = 0 then rdy @ [i] else rdy) }) [] = Some rdy" "?I ?n rdy"
    by (auto simp: ok_def)
  let ?st = "\<lparr>parent_of = par, pending = pend, ready = rdy, offers = [], completed = [], free_threads = max 1 threads,
       remaining = ?n, sleepers = 0, queue_pops = 0, stopped = False\<rparr> :: 'j sched"
  have open_eq: "open_kids par [] p = ?K ?n p" for p by (auto simp: open_kids_def node_range_def)
  have pos: "0 \<le> elt pend v" if "v \<in> node_range par" for v using pend(3) [OF that] by simp
  have "nodes_inv par ?st (\<lambda>_. 0)" unfolding nodes_inv_def
  proof (intro conjI ballI allI impI)
    fix v assume v: "v \<in> node_range par"
    have "places ?st (\<lambda>_. 0) v = 1" using rdy(2) v pos [OF v] by (auto simp: places_def node_range_def)
    then show "places ?st (\<lambda>_. 0) v \<le> 1" "places ?st (\<lambda>_. 0) v = 1" by simp_all
  qed (use pend(2,3) rdy(2) open_eq in \<open>auto simp: node_range_def topological_def\<close>)
  moreover have "sched_init par threads = Some ?st" unfolding sched_init_def Let_def pend(1) bind.simps rdy(1) ..
  ultimately show ?thesis by simp
qed

lemma tot_Polling: "f Polling = 0 \<Longrightarrow> tot W f (\<lambda>_. Polling) = 0"
  by (simp add: tot_def)

lemma inv_init:
  assumes f: "sched_forest par" and s: "sched_start par threads s"
  shows "sched_inv W par (max 1 threads) s"
proof -
  obtain st where st: "sched_init par threads = Some st" "s = (st, \<lambda>_. Polling)" using s by (cases s) (simp add: sched_start_def)
  note i = ok_the [OF sched_init_ok [OF f] st(1)]
  show ?thesis using i st(2) by (simp add: sched_inv_def core_inv_def wake_inv_def tot_Polling)
qed


interpretation sched: transition_invariant "sched_start par threads" "sched_step W"
    "\<lambda>s. sched_forest par \<longrightarrow> sched_inv W par (max 1 threads) s" for par threads W
  by unfold_locales (use inv_init inv_step in blast)+

lemma reachable_sched_inv:
  "sched_forest par \<Longrightarrow> reachable (sched_start par threads) (sched_step W) s \<Longrightarrow> sched_inv W par (max 1 threads) s"
  using sched.reachable_inv by blast

section \<open>Progress\<close>

lemma notified_ex: "\<exists>ws'. notified W nf ws ws'"
  by (cases nf) (auto simp: notified_def)

lemma acquire_defined:
  assumes "runnable st"
  shows "\<exists>st' t nf. acquire_task st = Some (st', t, nf)"
proof (cases "offers st = []")
  case True
  then show ?thesis using assms by (auto simp: acquire_task_def runnable_def takeable_def Let_def)
next
  case False
  obtain j s where "last (offers st) = (j, s)" by (cases "last (offers st)")
  then show ?thesis using assms False by (auto simp: acquire_task_def runnable_def takeable_def Let_def)
qed

lemma awake_steps:
  assumes f: "sched_forest par" and I: "sched_inv W par T (st, ws)" and i: "i < W" "ws i \<noteq> Asleep" "ws i \<noteq> Returned"
  shows "\<exists>s'. sched_step W (st, ws) s'"
proof (cases "ws i")
  case Polling
  show ?thesis
  proof (cases "runnable st")
    case True
    obtain st' t nf where a: "acquire_task st = Some (st', t, nf)" using acquire_defined [OF True] by blast
    obtain ws' where "notified W nf (ws(i := task_worker t)) ws'" using notified_ex by blast
    then show ?thesis using sched_step.step_take [of i W ws st st' t nf ws'] i(1) Polling True a by auto
  next
    case False
    then show ?thesis using sched_step.step_sleep [of i W ws st] i(1) Polling by blast
  qed
next
  case Woken
  show ?thesis
  proof (cases "runnable st")
    case True
    then have "runnable (st\<lparr>sleepers := sleepers st - 1\<rparr>)" by (simp add: runnable_def takeable_def)
    then obtain st' t nf where a: "acquire_task (st\<lparr>sleepers := sleepers st - 1\<rparr>) = Some (st', t, nf)" using acquire_defined by blast
    obtain ws' where "notified W nf (ws(i := task_worker t)) ws'" using notified_ex by blast
    then show ?thesis using sched_step.step_wake [of i W ws st st' t nf ws'] i(1) Woken True a by auto
  next
    case False
    then show ?thesis using sched_step.step_rewait [of i W ws st] i(1) Woken by blast
  qed
next
  case (Running v t)
  then show ?thesis using sched_step.step_fail [of i W ws v t st] i(1) by blast
next
  case (Failing v t)
  obtain st' nf where a: "stop_node t st = (st', nf)" by (cases "stop_node t st")
  obtain ws' where "notified W nf (ws(i := Polling)) ws'" using notified_ex by blast
  then show ?thesis using sched_step.step_stop [of i W ws v t st st' nf ws'] i(1) Failing a by auto
next
  case (Helping j)
  then show ?thesis using sched_step.step_helped [of i W ws j st] i(1) by blast
qed (use i in simp_all)

text \<open>A running node can also complete.\<close>

lemma running_completes:
  assumes f: "sched_forest par" and I: "sched_inv W par T (st, ws)" and i: "i < W" "ws i = Running v t"
  shows "\<exists>st' ws'. sched_step W (st, ws) (st', ws') \<and> completed st' = completed st @ [(v, i)]"
proof -
  have c: "core_inv W par T st ws" using I by (simp add: sched_inv_def)
  then have N: "nodes_inv par st (\<lambda>v. tot W (runs v) ws)" by (simp add: core_inv_def)
  obtain st' q t' nf where a: "finish_node v i t st = Some (st', q, t', nf)"
    using ok_ex [OF finish_node_ok [OF N f core_running(1) [OF c i(1) disjI1 [OF i(2)]]]] by (metis prod_cases4)
  obtain ws' where "notified W nf (ws(i := (if q \<ge> 0 then Running q t' else Polling))) ws'" using notified_ex by blast
  moreover have "completed st' = completed st @ [(v, i)]"
    using a by (auto simp: finish_node_def Let_def Option.bind_eq_Some_conv split: if_splits)
  ultimately show ?thesis using sched_step.step_finish [of i W ws v t st st' q t' nf ws'] i a by blast
qed

lemma all_asleep_returned:
  assumes f: "sched_forest par" and I: "sched_inv W par T (st, ws)" and T: "1 \<le> T"
    and all: "\<And>i. i < W \<Longrightarrow> ws i = Asleep \<or> ws i = Returned" and i: "i < W"
  shows "ws i = Returned"
proof (rule ccontr)
  assume "ws i \<noteq> Returned"
  then have a: "\<exists>i<W. ws i = Asleep" using all [OF i] i by blast
  have c: "core_inv W par T st ws" and w: "wake_inv W st ws" using I by (simp_all add: sched_inv_def)
  have N: "nodes_inv par st (\<lambda>v. tot W (runs v) ws)" using c by (simp add: core_inv_def)
  have l: "live st"
  proof (rule ccontr)
    assume "\<not> live st"
    then obtain k v t where k: "k < W" "ws k = Failing v t" using w a unfolding wake_inv_def by blast
    then show False using all [OF k(1)] by simp
  qed
  have z: "tot W f ws = 0" if "f Asleep = 0" "f Returned = 0" for f :: "'a worker \<Rightarrow> int"
    unfolding tot_def by (rule sum.neutral) (use all that in force)
  have "free_threads st = T" using c z [of held] by (simp add: core_inv_def)
  moreover have "ready st \<noteq> []"
  proof
    assume e: "ready st = []"
    have pl: "places st (\<lambda>v. tot W (runs v) ws) v = 1" if "v \<in> node_range par" for v using N l that by (simp add: nodes_inv_def)
    have "\<exists>v \<in> node_range par. v \<notin> fst ` set (completed st)"
    proof (rule ccontr)
      assume "\<not> ?thesis"
      then have "node_range par \<subseteq> set (map fst (completed st))" by auto
      then have "card (node_range par) \<le> length (completed st)" using card_mono card_length by (metis List.finite_set length_map order_trans)
      then show False using N l by (simp add: nodes_inv_def live_def node_range_def)
    qed
    then obtain v0 where v0: "v0 \<in> node_range par" "v0 \<notin> fst ` set (completed st)" by blast
    let ?P = "\<lambda>k. int k \<in> node_range par \<and> int k \<notin> fst ` set (completed st)"
    have "?P (nat v0)" using v0 by (simp add: node_range_def)
    then obtain k where k: "?P k" "\<forall>m<k. \<not> ?P m" using exists_least_iff [of ?P] by blast
    define v where "v = int k"
    have v: "v \<in> node_range par" "v \<notin> fst ` set (completed st)" using k(1) by (simp_all add: v_def)
    have least: "u \<in> fst ` set (completed st)" if "u < v" "u \<in> node_range par" for u
    proof -
      have "nat u < k" "int (nat u) = u" using that by (auto simp: v_def node_range_def)
      then show ?thesis using k(2) that(2) by metis
    qed
    have "open_kids par (completed st) v = {}"
    proof -
      have "c < v" if "c \<in> node_range par" "elt par c = v" for c
      proof -
        have "elt par c = -1 \<or> c < elt par c" using f that(1) unfolding sched_forest_def by blast
        then show ?thesis using that v(1) by (auto simp: node_range_def)
      qed
      then show ?thesis using least unfolding open_kids_def by blast
    qed
    moreover have "int (card (open_kids par (completed st) v)) = elt (pending st) v" using N l v(1) unfolding nodes_inv_def by blast
    ultimately have "elt (pending st) v = 0" by simp
    moreover have "count_list (map fst (completed st)) v = 0" unfolding count_list_0_iff using v(2) by simp
    ultimately show False using pl [OF v(1)] e z [of "runs v"] by (simp add: places_def)
  qed
  ultimately have "takeable st" using T by (simp add: takeable_def)
  then have "\<exists>k<W. ws k = Polling \<or> ws k = Woken" using w a l unfolding wake_inv_def by blast
  then obtain k where "k < W" "ws k = Polling \<or> ws k = Woken" by blast
  then show False using all [of k] by auto
qed


section \<open>Properties\<close>

text \<open>C8: in every reachable state of any number of workers, whatever the interleaving: a running node has all
  its children completed, no node is run twice or by two workers, the thread shares of the running nodes together
  with the free threads are the pool's threads, and the completion order is topological.\<close>

theorem scheduler_safe:
  assumes f: "sched_forest par" and r: "reachable (sched_start par threads) (sched_step W) (st, ws)"
  shows "(\<forall>i<W. \<forall>v t. ws i = Running v t \<longrightarrow> v \<in> node_range par \<and> 1 \<le> t \<and> open_kids par (completed st) v = {}
      \<and> v \<notin> fst ` set (completed st) \<and> (\<forall>j<W. \<forall>t'. ws j = Running v t' \<longrightarrow> j = i))
    \<and> tot W held ws + free_threads st = max 1 threads \<and> 0 \<le> free_threads st
    \<and> distinct (map fst (completed st)) \<and> topological par (completed st)"
proof -
  have I: "sched_inv W par (max 1 threads) (st, ws)" by (rule reachable_sched_inv [OF f r])
  then have c: "core_inv W par (max 1 threads) st ws" by (simp add: sched_inv_def)
  then have N: "nodes_inv par st (\<lambda>v. tot W (runs v) ws)" by (simp add: core_inv_def)
  have run: "v \<in> node_range par \<and> 1 \<le> t \<and> open_kids par (completed st) v = {} \<and> v \<notin> fst ` set (completed st)
      \<and> (\<forall>j<W. \<forall>t'. ws j = Running v t' \<longrightarrow> j = i)" if i: "i < W" "ws i = Running v t" for i v t
  proof -
    note cr = core_running [OF c i(1) disjI1 [OF i(2)]]
    note nr = nodes_running [OF N cr(1)]
    have "j = i" if j: "j < W" "ws j = Running v t'" for j t'
    proof (rule ccontr)
      assume ne: "j \<noteq> i"
      have pos: "0 \<le> runs v (ws k)" for k by (cases "ws k") simp_all
      have "tot W (runs v) (ws(i := Polling)) = tot W (runs v) ws - 1" using tot_upd [OF i(1), of "runs v" ws Polling] i(2) by simp
      moreover have "runs v ((ws(i := Polling)) j) \<le> tot W (runs v) (ws(i := Polling))"
        by (rule tot_ge [OF j(1)]) (use pos in simp)
      ultimately show False using nr(2) j(2) ne by simp
    qed
    then show ?thesis using cr(2) nr by blast
  qed
  then show ?thesis using c N nodes_distinct(1) [OF N] by (auto simp: core_inv_def nodes_inv_def)
qed

definition example_tree :: "int list" where
  "example_tree = [2, 2, -1]"

definition example_sched :: "nat sched" where
  "example_sched = \<lparr>parent_of = [2, 2, -1], pending = [0, 0, 2], ready = [0], offers = [], completed = [], free_threads = 1,
     remaining = 3, sleepers = 0, queue_pops = 1, stopped = False\<rparr>"

definition example_workers :: "nat \<Rightarrow> nat worker" where
  "example_workers = (\<lambda>_. Polling)(0 := Running 1 1)"

lemma example_reachable:
  "reachable (sched_start example_tree 2) (sched_step 2) (example_sched, example_workers)"
proof (rule reach_step)
  let ?st = "\<lparr>parent_of = [2, 2, -1], pending = [0, 0, 2], ready = [0, 1], offers = [], completed = [], free_threads = 2,
     remaining = 3, sleepers = 0, queue_pops = 0, stopped = False\<rparr> :: nat sched"
  have "sched_init example_tree 2 = Some ?st" by code_simp
  then show "reachable (sched_start example_tree 2) (sched_step 2) (?st, \<lambda>_. Polling)"
    by (intro reach_init) (simp add: sched_start_def)
  have a: "acquire_task ?st = Some (example_sched, Node 1 1, NotifyNone)"
    by (simp add: acquire_task_def Let_def example_sched_def thread_share_def wake_one_if_runnable_def)
  have "notified 2 NotifyNone ((\<lambda>_. Polling)(0 := task_worker (Node 1 1))) example_workers"
    by (simp add: notified_def example_workers_def)
  then show "sched_step 2 (?st, \<lambda>_. Polling) (example_sched, example_workers)"
    by (rule sched_step.step_take [rotated 4]) (use a in \<open>simp_all add: runnable_def takeable_def\<close>)
qed

lemma example_forest: "sched_forest example_tree"
  by (simp add: sched_forest_def node_range_def example_tree_def elt_def all_int_set)
    (code_simp)

theorem scheduler_safe_witness:
  "open_kids example_tree [] 1 = {} \<and> 1 \<in> node_range example_tree
    \<and> tot 2 held example_workers + free_threads example_sched = 2"
proof -
  note s = scheduler_safe [OF example_forest example_reachable]
  have w: "example_workers 0 = Running 1 1" by (simp add: example_workers_def)
  have "completed example_sched = []" by (simp add: example_sched_def)
  then have "open_kids example_tree [] 1 = {} \<and> 1 \<in> node_range example_tree"
    using conjunct1 [OF s, rule_format, OF _ w] by simp
  then show ?thesis using s by simp
qed

text \<open>C9: no deadlock and no lost wake-up. In every reachable state each worker that neither sleeps nor has
  returned can take a step, a running node can complete, and when all workers sleep or have returned, all have
  returned; then, unless a node failed, every node has completed. While some worker sleeps: if the run goes on and
  a node or an offered job can be taken, a worker is polling or has been notified, so the notifications of
  \<open>acquire\<close>, \<open>finish\<close> and \<open>offer\<close> never leave work that only sleepers could take; if the run is over, the worker
  whose notification wakes all sleepers has still to send it.\<close>

theorem scheduler_progress:
  assumes f: "sched_forest par" and r: "reachable (sched_start par threads) (sched_step W) (st, ws)"
  shows "(\<forall>i<W. ws i \<noteq> Asleep \<and> ws i \<noteq> Returned \<longrightarrow> (\<exists>s'. sched_step W (st, ws) s'))
    \<and> (\<forall>i<W. \<forall>v t. ws i = Running v t \<longrightarrow> (\<exists>st' ws'. sched_step W (st, ws) (st', ws') \<and> completed st' = completed st @ [(v, i)]))
    \<and> ((\<forall>i<W. ws i = Asleep \<or> ws i = Returned) \<longrightarrow> (\<forall>i<W. ws i = Returned))
    \<and> ((\<forall>i<W. ws i = Returned) \<and> 0 < W \<and> \<not> stopped st \<longrightarrow> fst ` set (completed st) = node_range par)
    \<and> ((\<exists>i<W. ws i = Asleep) \<and> \<not> stopped st \<and> remaining st > 0 \<and> (ready st \<noteq> [] \<and> free_threads st > 0 \<or> offers st \<noteq> [])
        \<longrightarrow> (\<exists>k<W. ws k = Polling \<or> ws k = Woken))
    \<and> ((\<exists>i<W. ws i = Asleep) \<and> (stopped st \<or> remaining st = 0) \<longrightarrow> (\<exists>k<W. \<exists>v t. ws k = Failing v t))"
proof -
  have I: "sched_inv W par (max 1 threads) (st, ws)" by (rule reachable_sched_inv [OF f r])
  have c: "core_inv W par (max 1 threads) st ws" using I by (simp add: sched_inv_def)
  then have N: "nodes_inv par st (\<lambda>v. tot W (runs v) ws)" by (simp add: core_inv_def)
  have T: "1 \<le> max 1 threads" by simp
  have "fst ` set (completed st) = node_range par" if "\<forall>i<W. ws i = Returned" "0 < W" "\<not> stopped st"
  proof -
    have "worker_ok st (ws 0)" using c that(2) by (simp add: core_inv_def)
    then have "remaining st \<le> 0" using that by (simp add: live_def)
    then have "remaining st = 0" using nodes_distinct(2) [OF N] by simp
    then show ?thesis by (rule nodes_distinct(3) [OF N])
  qed
  moreover have "wake_inv W st ws" using I by (simp add: sched_inv_def)
  then have "((\<exists>i<W. ws i = Asleep) \<and> \<not> stopped st \<and> remaining st > 0 \<and> (ready st \<noteq> [] \<and> free_threads st > 0 \<or> offers st \<noteq> [])
        \<longrightarrow> (\<exists>k<W. ws k = Polling \<or> ws k = Woken))
    \<and> ((\<exists>i<W. ws i = Asleep) \<and> (stopped st \<or> remaining st = 0) \<longrightarrow> (\<exists>k<W. \<exists>v t. ws k = Failing v t))"
    unfolding wake_inv_def live_def takeable_def by (metis less_irrefl)
  ultimately show ?thesis using awake_steps [OF f I] running_completes [OF f I] all_asleep_returned [OF f I T] by blast
qed

theorem scheduler_progress_witness:
  "\<exists>st ws. sched_step 2 (example_sched, example_workers) (st, ws) \<and> completed st = [(1, 0)]"
proof -
  note p = scheduler_progress [OF example_forest example_reachable]
  have w: "example_workers 0 = Running 1 1" by (simp add: example_workers_def)
  have "completed example_sched = []" by (simp add: example_sched_def)
  then show ?thesis using conjunct1 [OF conjunct2 [OF p], rule_format, OF _ w] by simp
qed

end
