(* ===== verification/PassLanes.thy ===== *)
theory PassLanes
  imports Prelude
begin

text \<open>
  \<open>PassLanes\<close> of \<open>src/parallel/top_scheduler.hpp\<close>: the lanes (buffer sets) handed to the chains of fronts.
  \<open>room\<close> is the room of each lane, which the caller measures; it does not change while \<open>pick\<close> holds the mutex.
  \<open>None\<close> is \<open>std::abort\<close>.
\<close>

definition lanes_init :: "int \<Rightarrow> bool list" where
  "lanes_init n = replicate (nat (max 1 n)) False"

text \<open>The free lane with the most room, the first of equals, and its room.\<close>

definition best_lane :: "(int \<Rightarrow> nat) \<Rightarrow> bool list \<Rightarrow> (int \<times> nat) option" where
  "best_lane room busy = for_range 0 (int (length busy)) (\<lambda>l (best, best_room). do {
     b \<leftarrow> vget busy l;
     if b then Some (best, best_room)
     else do {
       let r = room l;
       Some (if best < 0 \<or> r > best_room then (l, r) else (best, best_room))
     }
   }) (-1, 0)"

definition pick_lane :: "int \<Rightarrow> int \<Rightarrow> nat \<Rightarrow> (int \<Rightarrow> nat) \<Rightarrow> bool list \<Rightarrow> (int \<times> bool list) option" where
  "pick_lane held home need room busy =
     (if held \<ge> 0 \<and> room held \<ge> need then Some (held, busy)
      else do {
        home_ok \<leftarrow> (if held < 0 \<and> home \<ge> 0 \<and> home < int (length busy)
          then do { b \<leftarrow> vget busy home; Some (\<not> b \<and> room home \<ge> need) } else Some False);
        if home_ok then do { busy \<leftarrow> vset busy home True; Some (home, busy) }
        else do {
          (best, best_room) \<leftarrow> best_lane room busy;
          if held \<ge> 0 \<and> (best < 0 \<or> best_room < need) then Some (held, busy)
          else do {
            busy \<leftarrow> (if held \<ge> 0 then vset busy held False else Some busy);
            if best < 0 then None
            else do { busy \<leftarrow> vset busy best True; Some (best, busy) }
          }
        }
      })"

definition release_lane :: "int \<Rightarrow> bool list \<Rightarrow> bool list option" where
  "release_lane lane busy = (if lane < 0 then Some busy else vset busy lane False)"

section \<open>The lanes in use\<close>

definition busy_lanes :: "bool list \<Rightarrow> int set" where
  "busy_lanes busy = {l. 0 \<le> l \<and> l < int (length busy) \<and> elt busy l}"

definition free_lane :: "bool list \<Rightarrow> int \<Rightarrow> bool" where
  "free_lane busy l \<longleftrightarrow> 0 \<le> l \<and> l < int (length busy) \<and> \<not> elt busy l"

lemma busy_set:
  assumes "0 \<le> l" "l < int (length busy)"
  shows "busy_lanes (busy[nat l := b]) = (if b then insert l (busy_lanes busy) else busy_lanes busy - {l})"
  using assms by (auto simp: busy_lanes_def at_update split: if_splits)

lemma best_lane_ok:
  "ok (best_lane room busy) (\<lambda>(best, r). (best < 0 \<and> (\<forall>l. \<not> free_lane busy l))
     \<or> (free_lane busy best \<and> r = room best \<and> (\<forall>l. free_lane busy l \<longrightarrow> room l \<le> r)))"
proof -
  let ?I = "\<lambda>i (best, r). (best = -1 \<and> (\<forall>l. 0 \<le> l \<and> l < i \<longrightarrow> \<not> free_lane busy l))
     \<or> (free_lane busy best \<and> r = room best \<and> (\<forall>l. 0 \<le> l \<and> l < i \<longrightarrow> free_lane busy l \<longrightarrow> room l \<le> r))"
  have "ok (best_lane room busy) (?I (int (length busy)))"
    unfolding best_lane_def
  proof (rule for_range_ok [where I = ?I])
    fix l s assume l: "0 \<le> l" "l < int (length busy)" and I: "?I l s"
    obtain best r where s: "s = (best, r)" by (cases s)
    have g: "vget busy l = Some (elt busy l)" using l by (simp add: vget_at)
    have "?I (l + 1) (if elt busy l then s else if best < 0 \<or> room l > r then (l, room l) else s)"
    proof (cases "elt busy l")
      case True
      then have "\<not> free_lane busy l" by (simp add: free_lane_def)
      then show ?thesis using I True unfolding s prod.case all_below_Suc(1) [OF l(1)] by simp
    next
      case False
      then have f: "free_lane busy l" using l by (simp add: free_lane_def)
      show ?thesis
      proof (cases "best < 0 \<or> room l > r")
        case True
        have "\<not> free_lane busy best" if "best < 0" using that by (simp add: free_lane_def)
        then have "\<forall>k. 0 \<le> k \<and> k < l \<longrightarrow> free_lane busy k \<longrightarrow> room k \<le> room l"
          using I True unfolding s prod.case by (meson less_imp_le order_trans)
        then show ?thesis using True False f unfolding s by (simp add: all_below_Suc [OF l(1)])
      next
        case b: False
        then have "best \<noteq> -1" by auto
        then show ?thesis using I b False f by (auto simp: s all_below_Suc [OF l(1)])
      qed
    qed
    moreover have "(\<lambda>(best, best_room). do {
       b \<leftarrow> vget busy l;
       if b then Some (best, best_room)
       else do {
         let r = room l;
         Some (if best < 0 \<or> r > best_room then (l, r) else (best, best_room))
       }
     }) s = Some (if elt busy l then s else if best < 0 \<or> room l > r then (l, room l) else s)"
      by (simp add: s g Let_def)
    ultimately show "ok ((\<lambda>(best, best_room). do {
       b \<leftarrow> vget busy l;
       if b then Some (best, best_room)
       else do {
         let r = room l;
         Some (if best < 0 \<or> r > best_room then (l, r) else (best, best_room))
       }
     }) s) (?I (l + 1))" by (simp only: ok_Some)
  qed (auto simp: max_def)
  then show ?thesis by (rule ok_mono) (auto simp: free_lane_def)
qed

section \<open>Properties\<close>

text \<open>C34: a chain that holds a lane, or starts while a lane is free, always gets a lane (\<open>pick\<close> does not abort):
  the one it holds, or a free one, which it then holds instead; the lanes of the other chains stay theirs. The lane
  has the room the front needs, or no free lane has, and then a chain keeps its lane and a new chain takes the free
  lane with the most room. \<open>release\<close> frees a lane.\<close>

theorem pick_lane_correct:
  assumes "0 \<le> held \<and> held \<in> busy_lanes busy \<or> held = -1 \<and> (\<exists>l. free_lane busy l)"
  shows "\<exists>l busy'. pick_lane held home need room busy = Some (l, busy') \<and> length busy' = length busy
    \<and> (l = held \<or> free_lane busy l) \<and> l \<in> busy_lanes busy' \<and> busy_lanes busy' = insert l (busy_lanes busy - {held})
    \<and> (need \<le> room l \<or> (\<forall>k. free_lane busy k \<longrightarrow> room k < need)
        \<and> (if 0 \<le> held then l = held else \<forall>k. free_lane busy k \<longrightarrow> room k \<le> room l))
    \<and> release_lane l busy' = Some (busy'[nat l := False]) \<and> busy_lanes (busy'[nat l := False]) = busy_lanes busy - {held}"
proof -
  have fl: "0 \<le> l" "l < int (length busy)" "l \<notin> busy_lanes busy" if "free_lane busy l" for l
    using that by (simp_all add: free_lane_def busy_lanes_def)
  have held: "0 \<le> held \<Longrightarrow> held < int (length busy) \<and> held \<in> busy_lanes busy" using assms by (auto simp: busy_lanes_def)
  have minus1: "-1 \<notin> busy_lanes busy" by (simp add: busy_lanes_def)
  have key: "\<exists>l busy'. pick_lane held home need room busy = Some (l, busy') \<and> length busy' = length busy
    \<and> (l = held \<and> 0 \<le> held \<or> free_lane busy l) \<and> busy_lanes busy' = insert l (busy_lanes busy - {held})
    \<and> (need \<le> room l \<or> (\<forall>k. free_lane busy k \<longrightarrow> room k < need)
        \<and> (if 0 \<le> held then l = held else \<forall>k. free_lane busy k \<longrightarrow> room k \<le> room l))"
  proof (cases "held \<ge> 0 \<and> room held \<ge> need")
    case True
    then have "insert held (busy_lanes busy - {held}) = busy_lanes busy" using held by auto
    then show ?thesis using True by (simp add: pick_lane_def)
  next
    case grow: False
    show ?thesis
    proof (cases "held < 0 \<and> free_lane busy home \<and> room home \<ge> need")
      case True
      then have h: "held = -1" and f: "free_lane busy home" using assms by auto
      note hb = fl [OF f]
      have "vget busy home = Some False" "vset busy home True = Some (busy[nat home := True])"
        using f hb by (simp_all add: vget_at vset_def free_lane_def)
      then have "pick_lane held home need room busy = Some (home, busy[nat home := True])"
        using True h hb by (simp add: pick_lane_def)
      then show ?thesis using True h f busy_set [OF hb(1,2), of True] minus1 by simp
    next
      case nh: False
      obtain b r where b: "best_lane room busy = Some (b, r)" "(b < 0 \<and> (\<forall>l. \<not> free_lane busy l))
          \<or> (free_lane busy b \<and> r = room b \<and> (\<forall>l. free_lane busy l \<longrightarrow> room l \<le> r))"
        using ok_ex [OF best_lane_ok [of room busy]] by auto
      have home: "(if held < 0 \<and> home \<ge> 0 \<and> home < int (length busy)
          then do { b \<leftarrow> vget busy home; Some (\<not> b \<and> room home \<ge> need) } else Some False) = Some False"
        using nh by (auto simp: vget_at free_lane_def)
      have eval: "pick_lane held home need room busy = (if held \<ge> 0 \<and> (b < 0 \<or> r < need) then Some (held, busy)
          else do {
            busy \<leftarrow> (if held \<ge> 0 then vset busy held False else Some busy);
            if b < 0 then None else do { busy \<leftarrow> vset busy b True; Some (b, busy) }
          })"
        using grow unfolding pick_lane_def home by (simp only: b(1) if_False bind.simps prod.case)
      show ?thesis
      proof (cases "held \<ge> 0 \<and> (b < 0 \<or> r < need)")
        case True
        then have "insert held (busy_lanes busy - {held}) = busy_lanes busy" using held by auto
        moreover have "\<forall>k. free_lane busy k \<longrightarrow> room k < need" using True b(2) by (auto simp: free_lane_def)
        ultimately show ?thesis using True by (simp add: eval)
      next
        case move: False
        have fb: "free_lane busy b" using move b(2) assms by auto
        note bb = fl [OF fb]
        have rest: "need \<le> room b \<or> (\<forall>k. free_lane busy k \<longrightarrow> room k < need)
          \<and> (if 0 \<le> held then b = held else \<forall>k. free_lane busy k \<longrightarrow> room k \<le> room b)"
          using move b(2) bb(1) by (auto simp: not_le)
        show ?thesis
        proof (cases "held \<ge> 0")
          case True
          have ne: "b \<noteq> held" using held [OF True] bb(3) by auto
          have "vset busy held False = Some (busy[nat held := False])" "vset (busy[nat held := False]) b True = Some (busy[nat held := False, nat b := True])"
            using True held bb by (simp_all add: vset_def)
          moreover have "busy_lanes (busy[nat held := False, nat b := True]) = insert b (busy_lanes busy - {held})"
            using True held bb by (simp add: busy_set)
          ultimately show ?thesis using True move bb(1) fb rest by (simp add: eval)
        next
          case False
          then have "held = -1" using assms by auto
          moreover have "vset busy b True = Some (busy[nat b := True])" "busy_lanes (busy[nat b := True]) = insert b (busy_lanes busy)"
            using bb by (simp_all add: vset_def busy_set)
          moreover have "pick_lane held home need room busy = Some (b, busy[nat b := True])"
            using False bb(1) calculation(2) by (simp add: eval)
          ultimately show ?thesis using fb rest minus1 False by simp
        qed
      qed
    qed
  qed
  then obtain l busy' where l: "pick_lane held home need room busy = Some (l, busy')" "length busy' = length busy"
    "l = held \<and> 0 \<le> held \<or> free_lane busy l" "busy_lanes busy' = insert l (busy_lanes busy - {held})"
    "need \<le> room l \<or> (\<forall>k. free_lane busy k \<longrightarrow> room k < need)
        \<and> (if 0 \<le> held then l = held else \<forall>k. free_lane busy k \<longrightarrow> room k \<le> room l)" by blast
  have b: "0 \<le> l" "l < int (length busy')" using l(2,3) held fl by auto
  have "busy_lanes (busy'[nat l := False]) = busy_lanes busy - {held}"
    unfolding busy_set [OF b] l(4) using l(3) fl [of l] by auto
  moreover have "release_lane l busy' = Some (busy'[nat l := False])" using b by (simp add: release_lane_def vset_def)
  ultimately show ?thesis using l by blast
qed

theorem pick_lane_correct_witness:
  "\<exists>l busy'. pick_lane 0 0 7 (\<lambda>l. if l = 2 then 9 else 5) [True, False, False] = Some (l, busy') \<and> l = 2 \<and> busy_lanes busy' = {2}"
proof -
  have b: "busy_lanes [True, False, False] = {0}" 
  proof -
    have "0 \<le> l \<and> l < 3 \<longleftrightarrow> l = 0 \<or> l = 1 \<or> l = 2" for l :: int by linarith
    moreover have "busy_lanes [True, False, False] = {l. (0 \<le> l \<and> l < 3) \<and> elt [True, False, False] l}"
      unfolding busy_lanes_def by simp
    ultimately have "busy_lanes [True, False, False] = {l. (l = 0 \<or> l = 1 \<or> l = 2) \<and> elt [True, False, False] l}"
      by (simp only:)
    moreover have "elt [True, False, False] 0" "\<not> elt [True, False, False] 1" "\<not> elt [True, False, False] 2" by (simp_all add: elt_def)
    ultimately show ?thesis by fastforce
  qed
  have e: "pick_lane 0 0 7 (\<lambda>l. if l = 2 then 9 else 5) [True, False, False] = Some (2, [False, False, True])" by code_simp
  have h: "0 \<le> (0 :: int) \<and> 0 \<in> busy_lanes [True, False, False] \<or> (0 :: int) = -1 \<and> (\<exists>l. free_lane [True, False, False] l)" using b by simp
  obtain l busy' where p: "pick_lane 0 0 7 (\<lambda>l. if l = 2 then 9 else 5) [True, False, False] = Some (l, busy')"
    "busy_lanes busy' = insert l (busy_lanes [True, False, False] - {0})"
    using pick_lane_correct [OF h, of 0 7 "\<lambda>l. if l = 2 then 9 else 5"] by (elim exE conjE) (rule that)
  have l: "l = 2" using p(1) unfolding e by simp
  have "busy_lanes busy' = {2}" using p(2) unfolding b l by simp
  then show ?thesis using p(1) l by blast
qed

end
