(* ===== verification/TaskTree.thy ===== *)
theory TaskTree
  imports AssemblyTree TreeView
begin

text \<open>
  \<open>src/parallel/task_tree.cpp\<close>: the processing of the supernode tree, children before parents. The two explicit
  stacks (\<open>serial_postorder\<close>, \<open>execute_subtree_iterative\<close>) share \<open>walk_step\<close>; the callback and the memory
  tracker are the state the walk threads through. The OpenMP tasks are a relation: \<open>costed_task\<close> gives every order
  in which the tasks below a node may call the callback, the tasks between two \<open>taskwait\<close>s interleaved. Flops and
  bytes are unbounded integers (exact for the code while front size squared times width is below \<open>2^63\<close>).
\<close>

record analysis_keep =
  ak_snodes :: "supernode list"
  ak_child_ptr :: "int list"
  ak_child_idx :: "int list"
  ak_front_row_ptr :: "int list"

definition ak_children :: "analysis_keep \<Rightarrow> int \<Rightarrow> int list option" where
  "ak_children ak s = ss_children (ak_child_ptr ak) (ak_child_idx ak) s"

section \<open>Walks with an explicit stack\<close>

text \<open>One iteration, the top of the stack first: descend to the next child, or finish the node.\<close>

definition walk_step ::
  "analysis_keep \<Rightarrow> (int \<Rightarrow> 's \<Rightarrow> 's option) \<Rightarrow> (int \<times> int) list \<times> 's \<Rightarrow> ('s + (int \<times> int) list \<times> 's) option" where
  "walk_step ak finish = (\<lambda>(stk, st). case stk of
      [] \<Rightarrow> Some (Inl st)
    | (nd, ci) # rest \<Rightarrow> do {
        ch \<leftarrow> ak_children ak nd;
        if ci < int (length ch) then do {
          child \<leftarrow> vget ch ci;
          Some (Inr ((child, 0) # (nd, ci + 1) # rest, st))
        } else do {
          st \<leftarrow> finish nd st;
          Some (Inr (rest, st))
        }
      })"

definition root_nodes :: "analysis_keep \<Rightarrow> int list option" where
  "root_nodes ak = for_range 0 (int (length (ak_snodes ak))) (\<lambda>i roots. do {
     sn \<leftarrow> vget (ak_snodes ak) i;
     Some (if sn_parent sn = -1 then roots @ [i] else roots)
   }) []"

definition serial_postorder :: "analysis_keep \<Rightarrow> int list option" where
  "serial_postorder ak = do {
     roots \<leftarrow> root_nodes ak;
     loop (walk_step ak (\<lambda>nd order. Some (order @ [nd]))) (rev (map (\<lambda>i. (i, 0)) roots), [])
   }"

section \<open>Costs and live memory\<close>

record cost_model =
  node_flops :: "int list"
  subtree_flops :: "int list"
  contrib_bytes :: "int list"

definition build_cost_model :: "analysis_keep \<Rightarrow> int list \<Rightarrow> cost_model option" where
  "build_cost_model ak postorder = do {
     let ns = length (ak_snodes ak);
     let have_fronts = (length (ak_front_row_ptr ak) = ns + 1);
     (nf, cb) \<leftarrow> for_range 0 (int ns) (\<lambda>s (nf, cb). do {
       sn \<leftarrow> vget (ak_snodes ak) s;
       let p = max 1 (width sn);
       f \<leftarrow> (if have_fronts then do { fs \<leftarrow> front_size (ak_front_row_ptr ak) s; Some (max p fs) } else Some p);
       let q = max 0 (f - p);
       nf \<leftarrow> vset nf s (f * f * p);
       cb \<leftarrow> (if sn_parent sn \<ge> 0 \<and> q > 0 then vset cb s (q * q * 8) else Some cb);
       Some (nf, cb)
     }) (replicate ns 1, replicate ns 0);
     sf \<leftarrow> forM postorder (\<lambda>s sf. do {
       x \<leftarrow> vget nf s;
       ch \<leftarrow> ak_children ak s;
       x \<leftarrow> forM ch (\<lambda>c x. do { y \<leftarrow> vget sf c; Some (x + y) }) x;
       vset sf s x
     }) (replicate ns 1);
     Some \<lparr>node_flops = nf, subtree_flops = sf, contrib_bytes = cb\<rparr>
   }"

record tracker =
  current_bytes :: int
  peak_bytes :: int

definition on_node_complete :: "analysis_keep \<Rightarrow> cost_model \<Rightarrow> int \<Rightarrow> tracker \<Rightarrow> tracker option" where
  "on_node_complete ak cm s t = do {
     ch \<leftarrow> ak_children ak s;
     consumed \<leftarrow> forM ch (\<lambda>c x. do { y \<leftarrow> vget (contrib_bytes cm) c; Some (x + y) }) 0;
     produced \<leftarrow> vget (contrib_bytes cm) s;
     let cur = (if current_bytes t \<ge> consumed then current_bytes t - consumed else 0) + produced;
     Some \<lparr>current_bytes = cur, peak_bytes = (if cur > peak_bytes t then cur else peak_bytes t)\<rparr>
   }"

text \<open>\<open>fn\<close> is the caller's callback on its own state.\<close>

definition finish_fn ::
  "analysis_keep \<Rightarrow> cost_model \<Rightarrow> (int \<Rightarrow> 's \<Rightarrow> 's option) \<Rightarrow> int \<Rightarrow> 's \<times> tracker \<Rightarrow> ('s \<times> tracker) option" where
  "finish_fn ak cm fn nd = (\<lambda>(st, t). do {
     st \<leftarrow> fn nd st;
     t \<leftarrow> on_node_complete ak cm nd t;
     Some (st, t)
   })"

definition execute_subtree_iterative ::
  "analysis_keep \<Rightarrow> cost_model \<Rightarrow> (int \<Rightarrow> 's \<Rightarrow> 's option) \<Rightarrow> int \<Rightarrow> 's \<times> tracker \<Rightarrow> ('s \<times> tracker) option" where
  "execute_subtree_iterative ak cm fn r st = loop (walk_step ak (finish_fn ak cm fn)) ([(r, 0)], st)"

text \<open>The serial branch of \<open>run_costed_postorder\<close>: the callback's state, the peak and the coarsened leaves.\<close>

definition run_serial ::
  "analysis_keep \<Rightarrow> int \<Rightarrow> (int \<Rightarrow> 's \<Rightarrow> 's option) \<Rightarrow> 's \<Rightarrow> ('s \<times> int \<times> int) option" where
  "run_serial ak min_task_flops process_node st =
     (if ak_snodes ak = [] then Some (st, 0, 0)
      else do {
        postorder \<leftarrow> serial_postorder ak;
        cm \<leftarrow> build_cost_model ak postorder;
        (st, t, coarsened) \<leftarrow> forM postorder (\<lambda>s (st, t, coarsened). do {
          ch \<leftarrow> ak_children ak s;
          nf \<leftarrow> vget (node_flops cm) s;
          let coarsened = (if ch = [] \<and> nf < min_task_flops then coarsened + 1 else coarsened);
          (st, t) \<leftarrow> finish_fn ak cm process_node s (st, t);
          Some (st, t, coarsened)
        }) (st, \<lparr>current_bytes = 0, peak_bytes = 0\<rparr>, 0);
        Some (st, peak_bytes t, coarsened)
      })"

section \<open>Tasks\<close>

record execution_policy =
  memory_budget :: int
  min_task_flops :: int

text \<open>The children that run as tasks, cut at the \<open>taskwait\<close>s the budget asks for (\<open>cur\<close> the open batch).\<close>

fun batches :: "int \<Rightarrow> (int \<Rightarrow> int) \<Rightarrow> int list \<Rightarrow> int \<Rightarrow> int list \<Rightarrow> int list list" where
  "batches budget bytes cur bb [] = [cur]"
| "batches budget bytes cur bb (c # cs) =
     (if budget > 0 \<and> bb > 0 \<and> bb + bytes c > budget then cur # batches budget bytes [c] (bytes c) cs
      else batches budget bytes (cur @ [c]) (bb + bytes c) cs)"

definition over_budget :: "execution_policy \<Rightarrow> (int \<Rightarrow> int) \<Rightarrow> int list \<Rightarrow> bool" where
  "over_budget pol bytes par \<longleftrightarrow> memory_budget pol > 0 \<and> length par > 1 \<and> sum_list (map bytes par) > memory_budget pol"

definition runs_inline :: "analysis_keep \<Rightarrow> cost_model \<Rightarrow> execution_policy \<Rightarrow> int \<Rightarrow> int \<Rightarrow> bool" where
  "runs_inline ak cm pol node depth \<longleftrightarrow>
     ak_children ak node = Some [] \<or> elt (subtree_flops cm) node < min_task_flops pol \<or> depth \<ge> 32"

definition tiny :: "cost_model \<Rightarrow> execution_policy \<Rightarrow> int \<Rightarrow> bool" where
  "tiny cm pol c \<longleftrightarrow> elt (subtree_flops cm) c < min_task_flops pol"

text \<open>The calls a subtree makes when it runs on one thread.\<close>

definition subtree_calls :: "analysis_keep \<Rightarrow> cost_model \<Rightarrow> int \<Rightarrow> int list option" where
  "subtree_calls ak cm r = map_option fst
     (execute_subtree_iterative ak cm (\<lambda>nd tr. Some (tr @ [nd])) r ([], \<lparr>current_bytes = 0, peak_bytes = 0\<rparr>))"

inductive interleaved :: "'a list list \<Rightarrow> 'a list \<Rightarrow> bool" where
  interleaved_Nil: "interleaved [] []"
| interleaved_Cons: "interleaved ts u \<Longrightarrow> v \<in> shuffles t u \<Longrightarrow> interleaved (t # ts) v"

inductive_simps interleaved_simps: "interleaved [] tr" "interleaved (t # ts) tr"

inductive costed_task :: "analysis_keep \<Rightarrow> cost_model \<Rightarrow> execution_policy \<Rightarrow> int \<Rightarrow> int \<Rightarrow> int list \<Rightarrow> bool"
  for ak cm pol where
  task_inline: "runs_inline ak cm pol node depth \<Longrightarrow> subtree_calls ak cm node = Some tr \<Longrightarrow> costed_task ak cm pol node depth tr"
| task_over_budget: "\<not> runs_inline ak cm pol node depth \<Longrightarrow> ak_children ak node = Some ch
    \<Longrightarrow> list_all2 (\<lambda>c tr. subtree_calls ak cm c = Some tr) (filter (tiny cm pol) ch) tiny_trs
    \<Longrightarrow> par = filter (\<lambda>c. \<not> tiny cm pol c) ch \<Longrightarrow> over_budget pol (elt (contrib_bytes cm)) par
    \<Longrightarrow> costed_task ak cm pol node depth (concat tiny_trs @ par @ [node])"
| task_spawn: "\<not> runs_inline ak cm pol node depth \<Longrightarrow> ak_children ak node = Some ch
    \<Longrightarrow> list_all2 (\<lambda>c tr. subtree_calls ak cm c = Some tr) (filter (tiny cm pol) ch) tiny_trs
    \<Longrightarrow> par = filter (\<lambda>c. \<not> tiny cm pol c) ch \<Longrightarrow> \<not> over_budget pol (elt (contrib_bytes cm)) par
    \<Longrightarrow> list_all2 (\<lambda>batch btr. \<exists>trs. list_all2 (\<lambda>c tr. costed_task ak cm pol c (depth + 1) tr) batch trs \<and> interleaved trs btr)
          (batches (memory_budget pol) (elt (contrib_bytes cm)) [] 0 par) batch_trs
    \<Longrightarrow> costed_task ak cm pol node depth (concat tiny_trs @ concat batch_trs @ [node])"

text \<open>The parallel branch of \<open>run_costed_postorder\<close>: small roots inline, the others as tasks, all interleaved.\<close>

definition run_parallel :: "analysis_keep \<Rightarrow> execution_policy \<Rightarrow> int list \<Rightarrow> bool" where
  "run_parallel ak pol tr \<longleftrightarrow> (\<exists>postorder cm roots trs. serial_postorder ak = Some postorder
     \<and> build_cost_model ak postorder = Some cm \<and> root_nodes ak = Some roots
     \<and> list_all2 (\<lambda>r t. if tiny cm pol r then subtree_calls ak cm r = Some t else costed_task ak cm pol r 0 t) roots trs
     \<and> interleaved trs tr)"


section \<open>The walks visit a subtree children first\<close>

abbreviation ak_kids :: "analysis_keep \<Rightarrow> int \<Rightarrow> int list" where
  "ak_kids ak \<equiv> csr_kids (ak_child_ptr ak) (ak_child_idx ak)"

definition ak_size :: "analysis_keep \<Rightarrow> int" where
  "ak_size ak = int (length (ak_snodes ak))"

abbreviation ak_parent :: "analysis_keep \<Rightarrow> int \<Rightarrow> int" where
  "ak_parent ak \<equiv> snode_parent (ak_snodes ak)"

text \<open>Parents follow their children, and the children lists are those of \<open>build_children_csr\<close>.\<close>

definition keep_ok :: "analysis_keep \<Rightarrow> bool" where
  "keep_ok ak \<longleftrightarrow> ordered_forest (ak_parent ak) (ak_size ak)
     \<and> build_children_csr (ak_snodes ak) = Some (ak_child_ptr ak, ak_child_idx ak)"

lemma keep_kids:
  assumes "keep_ok ak" "0 \<le> s" "s < ak_size ak"
  shows "ak_children ak s = Some (ak_kids ak s)" "ak_kids ak s = snode_children (ak_snodes ak) s"
    "\<And>c. c \<in> set (ak_kids ak s) \<Longrightarrow> 0 \<le> c \<and> c < s"
proof -
  have "parents_later (ak_snodes ak)" using assms(1) by (auto simp: keep_ok_def ordered_forest_def parents_later_def snode_parent_def ak_size_def)
  then have k: "kids_ok (ak_snodes ak) (ak_child_ptr ak) (ak_child_idx ak)"
    "csr_kids (ak_child_ptr ak) (ak_child_idx ak) s = snode_children (ak_snodes ak) s"
    using children_kids [of "ak_snodes ak"] assms by (auto simp: keep_ok_def ak_size_def)
  show "ak_kids ak s = snode_children (ak_snodes ak) s" by (rule k(2))
  show "\<And>c. c \<in> set (ak_kids ak s) \<Longrightarrow> 0 \<le> c \<and> c < s" using k(1) assms by (simp add: kids_ok_def ak_size_def)
  have "0 \<le> elt (ak_child_ptr ak) s \<and> elt (ak_child_ptr ak) s \<le> elt (ak_child_ptr ak) (s + 1)
      \<and> elt (ak_child_ptr ak) (s + 1) \<le> int (length (ak_child_idx ak))" "int (length (ak_child_ptr ak)) = ak_size ak + 1"
    using k(1) assms by (simp_all add: kids_ok_def ak_size_def)
  then show "ak_children ak s = Some (ak_kids ak s)" using assms
    by (simp add: ak_children_def ss_children_def csr_kids_def vget_at)
qed

text \<open>The subtree below \<open>v\<close> in the order the walks finish it.\<close>

function postd :: "(int \<Rightarrow> int list) \<Rightarrow> int \<Rightarrow> int list" where
  "postd K v = concat (map (\<lambda>c. if 0 \<le> c \<and> c < v then postd K c else []) (K v)) @ [v]"
  by auto
termination by (relation "measure (\<lambda>(K, v). nat v)") auto

declare postd.simps [simp del]

lemma keep_postd:
  assumes "keep_ok ak" "0 \<le> s" "s < ak_size ak"
  shows "postd (ak_kids ak) s = concat (map (postd (ak_kids ak)) (ak_kids ak s)) @ [s]"
proof -
  have e: "map (\<lambda>c. if 0 \<le> c \<and> c < s then postd (ak_kids ak) c else []) (ak_kids ak s) = map (postd (ak_kids ak)) (ak_kids ak s)"
    by (rule map_cong [OF HOL.refl]) (use keep_kids(3) [OF assms] in simp)
  show ?thesis unfolding postd.simps [of _ s] e ..
qed

lemma walk_subtree:
  assumes k: "keep_ok ak" and v: "0 \<le> v" "v < ak_size ak" and ci: "0 \<le> ci"
  shows "loop (walk_step ak fin) ((v, ci) # rest, st)
    = Option.bind (forM (concat (map (postd (ak_kids ak)) (drop (nat ci) (ak_kids ak v))) @ [v]) fin st)
        (\<lambda>st. loop (walk_step ak fin) (rest, st))"
  using v ci
proof (induction "nat v" arbitrary: v ci rest st rule: less_induct)
  case less
  note ks = keep_kids [OF k less.prems(1,2)]
  show ?case
    using less.prems(3)
  proof (induction "length (ak_kids ak v) - nat ci" arbitrary: ci st)
    case 0
    then have c: "\<not> ci < int (length (ak_kids ak v))" by simp
    then have e: "walk_step ak fin ((v, ci) # rest, st) = Option.bind (fin v st) (\<lambda>st. Some (Inr (rest, st)))"
      by (simp add: walk_step_def ks(1))
    have d: "drop (nat ci) (ak_kids ak v) = []" using c 0 by simp
    show ?case
      by (subst loop.simps) (cases "fin v st"; simp add: e d)
  next
    case (Suc j)
    then have c: "ci < int (length (ak_kids ak v))" by simp
    define c0 where "c0 = ak_kids ak v ! nat ci"
    have d: "drop (nat ci) (ak_kids ak v) = c0 # drop (nat (ci + 1)) (ak_kids ak v)"
      using c Suc.prems by (simp add: c0_def Cons_nth_drop_Suc [symmetric] nat_add_distrib)
    have c0: "0 \<le> c0" "c0 < v" using ks(3) [of c0] c Suc.prems by (simp_all add: c0_def nat_less_iff)
    have e: "walk_step ak fin ((v, ci) # rest, st) = Some (Inr ((c0, 0) # (v, ci + 1) # rest, st))"
      using c Suc.prems by (simp add: walk_step_def ks(1) vget_def c0_def)
    have "nat c0 < nat v" "c0 < ak_size ak" using c0 less.prems by simp_all
    then have sub: "loop (walk_step ak fin) ((c0, 0) # (v, ci + 1) # rest, st)
      = Option.bind (forM (postd (ak_kids ak) c0) fin st) (\<lambda>st. loop (walk_step ak fin) ((v, ci + 1) # rest, st))"
      using less.hyps [of c0 0] c0 keep_postd [OF k c0(1)] by simp
    have rest: "loop (walk_step ak fin) ((v, ci + 1) # rest, st')
      = Option.bind (forM (concat (map (postd (ak_kids ak)) (drop (nat (ci + 1)) (ak_kids ak v))) @ [v]) fin st')
        (\<lambda>st. loop (walk_step ak fin) (rest, st))" for st'
    proof (rule Suc.hyps(1))
      show "j = length (ak_kids ak v) - nat (ci + 1)" using Suc.hyps(2) Suc.prems by (simp add: nat_add_distrib)
      show "0 \<le> ci + 1" using Suc.prems by simp
    qed
    have "loop (walk_step ak fin) ((v, ci) # rest, st) = loop (walk_step ak fin) ((c0, 0) # (v, ci + 1) # rest, st)"
      by (subst loop.simps) (simp add: e)
    then show ?case unfolding sub rest d by (simp add: forM_append)
  qed
qed

lemma walk_nodes:
  assumes k: "keep_ok ak" and "\<And>v. v \<in> set vs \<Longrightarrow> 0 \<le> v \<and> v < ak_size ak"
  shows "loop (walk_step ak fin) (map (\<lambda>v. (v, 0)) vs, st) = forM (concat (map (postd (ak_kids ak)) vs)) fin st"
  using assms(2)
proof (induction vs arbitrary: st)
  case Nil
  show ?case by (subst loop.simps) (simp add: walk_step_def)
next
  case (Cons v vs)
  have v: "0 \<le> v" "v < ak_size ak" using Cons.prems by simp_all
  have "loop (walk_step ak fin) (map (\<lambda>v. (v, 0)) (v # vs), st)
      = Option.bind (forM (postd (ak_kids ak) v) fin st) (\<lambda>st. loop (walk_step ak fin) (map (\<lambda>v. (v, 0)) vs, st))"
    using walk_subtree [OF k v, of 0 fin "map (\<lambda>v. (v, 0)) vs" st] keep_postd [OF k v] by simp
  then show ?case using Cons by (simp add: forM_append)
qed


lemma keep_kids_mset:
  assumes "keep_ok ak" "0 \<le> v" "v < ak_size ak"
  shows "mset (ak_kids ak v) = mset (children_of (ak_parent ak) v)"
proof -
  have "filter (\<lambda>s. ak_parent ak s = v) [0..ak_size ak - 1] = children_of (ak_parent ak) v"
  proof -
    have "[0..ak_size ak - 1] = [0..v - 1] @ [v..ak_size ak - 1]" using assms by (intro upto_split1) simp_all
    moreover have "filter (\<lambda>s. ak_parent ak s = v) [v..ak_size ak - 1] = []"
      unfolding filter_empty_conv
    proof
      fix x assume x: "x \<in> set [v..ak_size ak - 1]"
      then have "0 \<le> x \<and> x < ak_size ak" using assms(2) by simp
      then have "ak_parent ak x = -1 \<or> x < ak_parent ak x" using assms(1) unfolding keep_ok_def ordered_forest_def by blast
      then show "ak_parent ak x \<noteq> v" using x assms(2) by auto
    qed
    ultimately show ?thesis by (simp add: children_of_def)
  qed
  then show ?thesis unfolding keep_kids(2) [OF assms] snode_children_def ak_size_def by simp
qed

lemma mset_concat_map: "mset (concat (map f xs)) = (\<Sum>x \<in># mset xs. mset (f x))"
  by (induction xs) simp_all

lemma postd_mset:
  assumes "keep_ok ak" "0 \<le> v" "v < ak_size ak"
  shows "mset (postd (ak_kids ak) v) = mset (post (ak_parent ak) v)"
  using assms(2,3)
proof (induction "nat v" arbitrary: v rule: less_induct)
  case less
  note ks = keep_kids [OF assms(1) less.prems]
  have "(\<Sum>c \<in># mset (ak_kids ak v). mset (postd (ak_kids ak) c)) = (\<Sum>c \<in># mset (ak_kids ak v). mset (post (ak_parent ak) c))"
  proof (rule arg_cong [where f = sum_mset], rule image_mset_cong)
    fix c assume "c \<in># mset (ak_kids ak v)"
    then have "0 \<le> c" "c < v" using ks(3) by simp_all
    then show "mset (postd (ak_kids ak) c) = mset (post (ak_parent ak) c)" using less by simp
  qed
  also have "\<dots> = (\<Sum>c \<in># mset (children_of (ak_parent ak) v). mset (post (ak_parent ak) c))"
    unfolding keep_kids_mset [OF assms(1) less.prems] ..
  finally show ?case
    unfolding keep_postd [OF assms(1) less.prems] post_unfold [of _ v] by (simp add: mset_concat_map)
qed

section \<open>Children first, whatever the interleaving\<close>

text \<open>The children of every entry are in \<open>S\<close> or earlier.\<close>

fun after_kids :: "(int \<Rightarrow> int) \<Rightarrow> int set \<Rightarrow> int list \<Rightarrow> bool" where
  "after_kids P S [] \<longleftrightarrow> True"
| "after_kids P S (x # xs) \<longleftrightarrow> (\<forall>u. 0 \<le> u \<and> u < x \<and> P u = x \<longrightarrow> u \<in> S) \<and> after_kids P (insert x S) xs"

lemma after_kids_mono: "after_kids P S xs \<Longrightarrow> S \<subseteq> T \<Longrightarrow> after_kids P T xs"
proof (induction xs arbitrary: S T)
  case (Cons x xs)
  then have "after_kids P (insert x T) xs" using Cons.IH [of "insert x S" "insert x T"] by auto
  then show ?case using Cons.prems by auto
qed simp

lemma after_kids_append: "after_kids P S (xs @ ys) \<longleftrightarrow> after_kids P S xs \<and> after_kids P (S \<union> set xs) ys"
  by (induction xs arbitrary: S) simp_all

lemma after_kids_concat: "(\<And>xs. xs \<in> set xss \<Longrightarrow> after_kids P S xs) \<Longrightarrow> after_kids P S (concat xss)"
proof (induction xss arbitrary: S)
  case (Cons xs xss)
  have "after_kids P (S \<union> set xs) (concat xss)"
    by (rule Cons.IH) (use Cons.prems after_kids_mono [of P S] in auto)
  then show ?case using Cons.prems by (simp add: after_kids_append)
qed simp

lemma after_kids_shuffles:
  "zs \<in> shuffles xs ys \<Longrightarrow> after_kids P S xs \<Longrightarrow> after_kids P S ys \<Longrightarrow> after_kids P S zs"
proof (induction xs ys arbitrary: S zs rule: shuffles.induct)
  case (3 x xs y ys)
  from 3(3) consider zs' where "zs = x # zs'" "zs' \<in> shuffles xs (y # ys)" | zs' where "zs = y # zs'" "zs' \<in> shuffles (x # xs) ys"
    by auto
  then show ?case
  proof cases
    case (1 zs')
    have "after_kids P (insert x S) (y # ys)" using after_kids_mono [OF 3(5), of "insert x S"] by blast
    then have "after_kids P (insert x S) zs'" using 3(1) [OF 1(2)] 3(4) by simp
    then show ?thesis using 1(1) 3(4) by simp
  next
    case (2 zs')
    have "after_kids P (insert y S) (x # xs)" using after_kids_mono [OF 3(4), of "insert y S"] by blast
    then have "after_kids P (insert y S) zs'" using 3(2) [OF 2(2)] 3(5) by simp
    then show ?thesis using 2(1) 3(5) by simp
  qed
qed simp_all

lemma after_kids_interleaved: "interleaved ts tr \<Longrightarrow> (\<And>t. t \<in> set ts \<Longrightarrow> after_kids P S t) \<Longrightarrow> after_kids P S tr"
  by (induction rule: interleaved.induct) (simp_all add: after_kids_shuffles)

lemma mset_interleaved: "interleaved ts tr \<Longrightarrow> mset tr = mset (concat ts)"
  by (induction rule: interleaved.induct) (simp_all add: mset_shuffles)

lemma after_kids_first: "after_kids P {} xs \<Longrightarrow> children_first P xs"
  unfolding children_first_def by (auto simp: after_kids_append)

lemma after_kids_last:
  assumes "\<And>u. 0 \<le> u \<Longrightarrow> u < v \<Longrightarrow> P u = v \<Longrightarrow> u \<in> set xs" "after_kids P S xs"
  shows "after_kids P S (xs @ [v])"
  using assms by (auto simp: after_kids_append)

lemma kid_of:
  assumes "keep_ok ak" "0 \<le> v" "v < ak_size ak"
  shows "c \<in> set (ak_kids ak v) \<longleftrightarrow> 0 \<le> c \<and> c < v \<and> ak_parent ak c = v"
proof -
  have "set (ak_kids ak v) = set (children_of (ak_parent ak) v)" using mset_eq_setD [OF keep_kids_mset [OF assms]] .
  then show ?thesis by (auto simp: children_of_def)
qed

lemma postd_after_kids:
  assumes "keep_ok ak" "0 \<le> v" "v < ak_size ak"
  shows "after_kids (ak_parent ak) S (postd (ak_kids ak) v)"
  using assms(2,3)
proof (induction "nat v" arbitrary: v S rule: less_induct)
  case less
  note ks = keep_kids(3) [OF assms(1) less.prems]
  have "after_kids (ak_parent ak) S (concat (map (postd (ak_kids ak)) (ak_kids ak v)))"
  proof (rule after_kids_concat)
    fix xs assume "xs \<in> set (map (postd (ak_kids ak)) (ak_kids ak v))"
    then obtain c where "xs = postd (ak_kids ak) c" "0 \<le> c" "c < v" using ks by auto
    then show "after_kids (ak_parent ak) S xs" using less by simp
  qed
  moreover have "u \<in> set (concat (map (postd (ak_kids ak)) (ak_kids ak v)))"
    if "0 \<le> u" "u < v" "ak_parent ak u = v" for u
  proof -
    have "u \<in> set (ak_kids ak v)" using that kid_of [OF assms(1) less.prems] by blast
    moreover have "u \<in> set (postd (ak_kids ak) u)" by (simp add: postd.simps [of _ u])
    ultimately show ?thesis by auto
  qed
  ultimately show ?case unfolding keep_postd [OF assms(1) less.prems] by (intro after_kids_last) simp_all
qed

text \<open>The whole tree: the roots, later ones first.\<close>

lemma root_nodes_eq: "root_nodes ak = Some (roots_of (ak_parent ak) (ak_size ak))"
proof -
  let ?n = "ak_size ak" and ?P = "ak_parent ak"
  have "ok (root_nodes ak) (\<lambda>r. r = filter (\<lambda>j. ?P j = -1) [0..?n - 1])"
    unfolding root_nodes_def ak_size_def [symmetric]
  proof (rule for_range_ok [where I = "\<lambda>i r. r = filter (\<lambda>j. ?P j = -1) [0..i - 1]"])
    fix i r assume i: "0 \<le> i" "i < ?n" "r = filter (\<lambda>j. ?P j = -1) [0..i - 1]"
    have "[0..i + 1 - 1] = [0..i - 1] @ [i]" using i(1) upto_rec2 [of 0 i] by simp
    then show "ok (do { sn \<leftarrow> vget (ak_snodes ak) i; Some (if sn_parent sn = -1 then r @ [i] else r) })
        (\<lambda>r. r = filter (\<lambda>j. ?P j = -1) [0..i + 1 - 1])"
      using i by (simp add: vget_at ak_size_def snode_parent_def)
  qed (simp_all add: max_def)
  then show ?thesis by (auto simp: ok_def roots_of_def)
qed

definition full_postd :: "analysis_keep \<Rightarrow> int list" where
  "full_postd ak = concat (map (postd (ak_kids ak)) (rev (roots_of (ak_parent ak) (ak_size ak))))"

lemma forM_snoc: "forM xs (\<lambda>nd order. Some (order @ [nd])) ys = Some (ys @ xs)"
  by (induction xs arbitrary: ys) simp_all

lemma roots_range: "r \<in> set (roots_of (ak_parent ak) (ak_size ak)) \<Longrightarrow> 0 \<le> r \<and> r < ak_size ak"
  by (simp add: roots_of_def)

lemma serial_postorder_ok:
  assumes k: "keep_ok ak"
  shows "serial_postorder ak = Some (full_postd ak)"
    "mset (full_postd ak) = mset (full_post (ak_parent ak) (ak_size ak))"
    "after_kids (ak_parent ak) {} (full_postd ak)"
proof -
  let ?R = "roots_of (ak_parent ak) (ak_size ak)"
  have "rev (map (\<lambda>i. (i, 0 :: int)) ?R) = map (\<lambda>i. (i, 0)) (rev ?R)" by (simp add: rev_map)
  then show "serial_postorder ak = Some (full_postd ak)"
    using walk_nodes [OF k, of "rev ?R" "\<lambda>nd order. Some (order @ [nd])" "[]"] roots_range
    by (simp add: serial_postorder_def root_nodes_eq forM_snoc full_postd_def)
  have "(\<Sum>r \<in># mset ?R. mset (postd (ak_kids ak) r)) = (\<Sum>r \<in># mset ?R. mset (post (ak_parent ak) r))"
    by (rule arg_cong [where f = sum_mset], rule image_mset_cong) (use postd_mset [OF k] roots_range in simp)
  then show "mset (full_postd ak) = mset (full_post (ak_parent ak) (ak_size ak))"
    by (simp add: full_postd_def full_post_def mset_concat_map)
  show "after_kids (ak_parent ak) {} (full_postd ak)" unfolding full_postd_def
    by (rule after_kids_concat) (use postd_after_kids [OF k] roots_range in auto)
qed


section \<open>Costs\<close>

definition lengths_ok :: "analysis_keep \<Rightarrow> cost_model \<Rightarrow> bool" where
  "lengths_ok ak cm \<longleftrightarrow> int (length (node_flops cm)) = ak_size ak \<and> int (length (subtree_flops cm)) = ak_size ak
     \<and> int (length (contrib_bytes cm)) = ak_size ak"

text \<open>A node's block has a size when it has a parent.\<close>

definition cost_ok :: "analysis_keep \<Rightarrow> cost_model \<Rightarrow> bool" where
  "cost_ok ak cm \<longleftrightarrow> lengths_ok ak cm
     \<and> (\<forall>s. 0 \<le> s \<and> s < ak_size ak \<longrightarrow> 0 \<le> elt (contrib_bytes cm) s \<and> (ak_parent ak s = -1 \<longrightarrow> elt (contrib_bytes cm) s = 0)
          \<and> elt (subtree_flops cm) s = sum_list (map (elt (node_flops cm)) (postd (ak_kids ak) s)))"

lemma forM_sum:
  assumes "\<And>c. c \<in> set cs \<Longrightarrow> 0 \<le> c \<and> c < int (length xs)"
  shows "forM cs (\<lambda>c x. do { y \<leftarrow> vget xs c; Some (x + y) }) x = Some (x + sum_list (map (elt xs) cs))"
  using assms by (induction cs arbitrary: x) (simp_all add: vget_at add.assoc)

lemma sum_list_postd:
  "sum_list (map w (concat (map f cs))) = sum_list (map (\<lambda>c. sum_list (map w (f c))) cs)" for w :: "int \<Rightarrow> int"
  by (induction cs) simp_all

lemma after_kids_split: "after_kids P {} (pre @ v # suf) \<Longrightarrow> 0 \<le> u \<Longrightarrow> u < v \<Longrightarrow> P u = v \<Longrightarrow> u \<in> set pre"
  by (simp add: after_kids_append)

lemma full_postd_set:
  assumes k: "keep_ok ak"
  shows "set (full_postd ak) = {u. 0 \<le> u \<and> u < ak_size ak}" "distinct (full_postd ak)"
proof -
  have f: "ordered_forest (ak_parent ak) (ak_size ak)" using k by (simp add: keep_ok_def)
  show "set (full_postd ak) = {u. 0 \<le> u \<and> u < ak_size ak}"
    using mset_eq_setD [OF serial_postorder_ok(2) [OF k]] full_post_set(1) [OF f] by simp
  show "distinct (full_postd ak)"
    using mset_eq_imp_distinct_iff [OF serial_postorder_ok(2) [OF k]] full_post_set(2) [OF f] by simp
qed

lemma subtree_flops_ok:
  fixes nf :: "int list"
  assumes k: "keep_ok ak" and nf: "int (length nf) = ak_size ak" and sf0: "int (length sf0) = ak_size ak"
  shows "ok (forM (full_postd ak) (\<lambda>s sf. do {
       x \<leftarrow> vget nf s;
       ch \<leftarrow> ak_children ak s;
       x \<leftarrow> forM ch (\<lambda>c x. do { y \<leftarrow> vget sf c; Some (x + y) }) x;
       vset sf s x
     }) sf0) (\<lambda>sf. int (length sf) = ak_size ak \<and> (\<forall>s. 0 \<le> s \<and> s < ak_size ak \<longrightarrow> elt sf s = sum_list (map (elt nf) (postd (ak_kids ak) s))))"
proof -
  let ?S = "\<lambda>s. sum_list (map (elt nf) (postd (ak_kids ak) s))"
  let ?I = "\<lambda>pre sf. int (length sf) = ak_size ak \<and> (\<forall>s \<in> set pre. elt sf s = ?S s)"
  note fp = full_postd_set [OF k]
  show ?thesis
  proof (rule forM_ok [where I = "\<lambda>pre suf. ?I pre"])
    fix pre v suf sf assume xs: "full_postd ak = pre @ v # suf" and I: "?I pre sf"
    have v: "0 \<le> v" "v < ak_size ak" using fp(1) xs by auto
    note ks = keep_kids [OF k v]
    have kin: "c \<in> set pre" if "c \<in> set (ak_kids ak v)" for c
      using after_kids_split [of "ak_parent ak" pre v suf c] serial_postorder_ok(3) [OF k] xs kid_of [OF k v] that by simp
    have "elt sf c = ?S c" if "c \<in> set (ak_kids ak v)" for c using kin [OF that] I by blast
    then have m: "map (elt sf) (ak_kids ak v) = map ?S (ak_kids ak v)" by simp
    have "forM (ak_kids ak v) (\<lambda>c x. do { y \<leftarrow> vget sf c; Some (x + y) }) (elt nf v) = Some (elt nf v + sum_list (map (elt sf) (ak_kids ak v)))"
      by (rule forM_sum) (use ks(3) v I in force)
    also have "elt nf v + sum_list (map (elt sf) (ak_kids ak v)) = ?S v"
      unfolding m keep_postd [OF k v] by (simp add: sum_list_postd)
    finally have s: "forM (ak_kids ak v) (\<lambda>c x. do { y \<leftarrow> vget sf c; Some (x + y) }) (elt nf v) = Some (?S v)" .
    have nd: "v \<notin> set pre" using fp(2) xs by simp
    have "?I (pre @ [v]) (sf[nat v := ?S v])"
    proof (intro conjI ballI)
      fix s assume s: "s \<in> set (pre @ [v])"
      then have "0 \<le> s" using fp(1) xs by auto
      then show "elt (sf[nat v := ?S v]) s = ?S s" using I s v at_update [of s v sf "?S v"] by auto
    qed (use I in simp)
    moreover have "vset sf v (?S v) = Some (sf[nat v := ?S v])" using v I by (simp add: vset_def)
    ultimately show "ok (do {
       x \<leftarrow> vget nf v;
       ch \<leftarrow> ak_children ak v;
       x \<leftarrow> forM ch (\<lambda>c x. do { y \<leftarrow> vget sf c; Some (x + y) }) x;
       vset sf v x
     }) (?I (pre @ [v]))" using v nf by (simp add: vget_at ks(1) s)
  qed (use sf0 fp(1) in auto)
qed

lemma build_cost_model_ok:
  assumes k: "keep_ok ak"
  shows "ok (build_cost_model ak (full_postd ak)) (cost_ok ak)"
proof -
  let ?n = "ak_size ak" let ?ns = "length (ak_snodes ak)"
  let ?hf = "length (ak_front_row_ptr ak) = ?ns + 1"
  let ?I = "\<lambda>(i :: int) (nf :: int list, cb :: int list). int (length nf) = ?n \<and> int (length cb) = ?n
    \<and> (\<forall>s. 0 \<le> s \<and> s < ?n \<longrightarrow> 0 \<le> elt cb s \<and> (ak_parent ak s = -1 \<longrightarrow> elt cb s = 0))"
  have n: "?n = int ?ns" by (simp add: ak_size_def)
  have "ok (for_range 0 (int ?ns) (\<lambda>s (nf, cb). do {
       sn \<leftarrow> vget (ak_snodes ak) s;
       let p = max 1 (width sn);
       f \<leftarrow> (if ?hf then do { fs \<leftarrow> front_size (ak_front_row_ptr ak) s; Some (max p fs) } else Some p);
       let q = max 0 (f - p);
       nf \<leftarrow> vset nf s (f * f * p);
       cb \<leftarrow> (if sn_parent sn \<ge> 0 \<and> q > 0 then vset cb s (q * q * 8) else Some cb);
       Some (nf, cb)
     }) (replicate ?ns 1, replicate ?ns (0 :: int))) (?I ?n)"
  proof (rule for_range_ok [where I = ?I])
    show "?I 0 (replicate ?ns 1, replicate ?ns (0 :: int))" by (simp add: n elt_replicate)
  next
    fix s st assume s: "0 \<le> s" "s < int ?ns" and I: "?I s st"
    obtain nf cb where st: "st = (nf, cb)" by (cases st)
    define p where "p = max 1 (width (elt (ak_snodes ak) s))"
    obtain f where f: "(if ?hf then do { fs \<leftarrow> front_size (ak_front_row_ptr ak) s; Some (max p fs) } else Some p) = Some f"
      using s by (cases ?hf) (simp_all add: front_size_def vget_at)
    define q where "q = max 0 (f - p)"
    have g: "vget (ak_snodes ak) s = Some (elt (ak_snodes ak) s)" using s by (simp add: vget_at)
    have v: "vset nf s x = Some (nf[nat s := x])" "vset cb s y = Some (cb[nat s := y])" for x y using I s n by (simp_all add: st vset_def)
    let ?cb = "if sn_parent (elt (ak_snodes ak) s) \<ge> 0 \<and> q > 0 then cb[nat s := q * q * 8] else cb"
    have e: "(case st of (nf, cb) \<Rightarrow> do {
       sn \<leftarrow> vget (ak_snodes ak) s;
       let p = max 1 (width sn);
       f \<leftarrow> (if ?hf then do { fs \<leftarrow> front_size (ak_front_row_ptr ak) s; Some (max p fs) } else Some p);
       let q = max 0 (f - p);
       nf \<leftarrow> vset nf s (f * f * p);
       cb \<leftarrow> (if sn_parent sn \<ge> 0 \<and> q > 0 then vset cb s (q * q * 8) else Some cb);
       Some (nf, cb)
     }) = Some (nf[nat s := f * f * p], ?cb)"
      unfolding st prod.case g bind.simps Let_def p_def [symmetric] f q_def [symmetric] v by simp
    have "?I (s + 1) (nf[nat s := f * f * p], ?cb)"
      using I s n by (auto simp: st at_update snode_parent_def)
    then show "ok ((\<lambda>(nf, cb). do {
       sn \<leftarrow> vget (ak_snodes ak) s;
       let p = max 1 (width sn);
       f \<leftarrow> (if ?hf then do { fs \<leftarrow> front_size (ak_front_row_ptr ak) s; Some (max p fs) } else Some p);
       let q = max 0 (f - p);
       nf \<leftarrow> vset nf s (f * f * p);
       cb \<leftarrow> (if sn_parent sn \<ge> 0 \<and> q > 0 then vset cb s (q * q * 8) else Some cb);
       Some (nf, cb)
     }) st) (?I (s + 1))" unfolding e by simp
  qed simp
  then obtain nf cb where b: "for_range 0 (int ?ns) (\<lambda>s (nf, cb). do {
       sn \<leftarrow> vget (ak_snodes ak) s;
       let p = max 1 (width sn);
       f \<leftarrow> (if ?hf then do { fs \<leftarrow> front_size (ak_front_row_ptr ak) s; Some (max p fs) } else Some p);
       let q = max 0 (f - p);
       nf \<leftarrow> vset nf s (f * f * p);
       cb \<leftarrow> (if sn_parent sn \<ge> 0 \<and> q > 0 then vset cb s (q * q * 8) else Some cb);
       Some (nf, cb)
     }) (replicate ?ns 1, replicate ?ns 0) = Some (nf, cb)" "?I ?n (nf, cb)" by (auto simp: ok_def)
  have nfl: "int (length nf) = ?n" using b(2) by simp
  obtain sf where sf: "forM (full_postd ak) (\<lambda>s sf. do {
       x \<leftarrow> vget nf s;
       ch \<leftarrow> ak_children ak s;
       x \<leftarrow> forM ch (\<lambda>c x. do { y \<leftarrow> vget sf c; Some (x + y) }) x;
       vset sf s x
     }) (replicate ?ns 1) = Some sf" "int (length sf) = ?n" "\<forall>s. 0 \<le> s \<and> s < ?n \<longrightarrow> elt sf s = sum_list (map (elt nf) (postd (ak_kids ak) s))"
    using ok_ex [OF subtree_flops_ok [OF k nfl, of "replicate ?ns 1"]] n by auto
  have "build_cost_model ak (full_postd ak) = Some \<lparr>node_flops = nf, subtree_flops = sf, contrib_bytes = cb\<rparr>"
    unfolding build_cost_model_def Let_def b(1) [unfolded Let_def] bind.simps prod.case sf(1) ..
  then show ?thesis using b(2) sf(2,3) by (simp add: cost_ok_def lengths_ok_def)
qed


section \<open>The serial schedule\<close>

definition track :: "analysis_keep \<Rightarrow> cost_model \<Rightarrow> int \<Rightarrow> tracker \<Rightarrow> tracker" where
  "track ak cm s t =
     (let consumed = sum_list (map (elt (contrib_bytes cm)) (ak_kids ak s));
          cur = (if current_bytes t \<ge> consumed then current_bytes t - consumed else 0) + elt (contrib_bytes cm) s
      in \<lparr>current_bytes = cur, peak_bytes = (if cur > peak_bytes t then cur else peak_bytes t)\<rparr>)"

lemma on_node_complete_eq:
  assumes k: "keep_ok ak" and l: "lengths_ok ak cm" and s: "0 \<le> s" "s < ak_size ak"
  shows "on_node_complete ak cm s t = Some (track ak cm s t)"
proof -
  note ks = keep_kids [OF k s]
  have len: "int (length (contrib_bytes cm)) = ak_size ak" using l by (simp add: lengths_ok_def)
  have "forM (ak_kids ak s) (\<lambda>c x. do { y \<leftarrow> vget (contrib_bytes cm) c; Some (x + y) }) 0
      = Some (0 + sum_list (map (elt (contrib_bytes cm)) (ak_kids ak s)))"
    by (rule forM_sum) (use ks(3) s len in force)
  moreover have "vget (contrib_bytes cm) s = Some (elt (contrib_bytes cm) s)" using s len by (simp add: vget_at)
  ultimately show ?thesis by (simp add: on_node_complete_def ks(1) track_def Let_def)
qed

lemma forM_product:
  assumes "\<And>x s t. x \<in> set xs \<Longrightarrow> body x (s, t) = Option.bind (f x s) (\<lambda>s. Some (s, g x t))"
  shows "forM xs body (s, t) = map_option (\<lambda>s. (s, fold g xs t)) (forM xs f s)"
  using assms
proof (induction xs arbitrary: s t)
  case (Cons x xs)
  then show ?case by (cases "f x s") simp_all
qed simp

text \<open>The contribution blocks alive after \<open>xs\<close>: those of finished nodes whose parent is not finished.\<close>

definition live_bytes :: "(int \<Rightarrow> int) \<Rightarrow> (int \<Rightarrow> int) \<Rightarrow> int list \<Rightarrow> int" where
  "live_bytes P cb xs = sum_list (map cb (filter (\<lambda>u. P u \<notin> set xs) xs))"

lemma sum_list_map_mset: "mset xs = mset ys \<Longrightarrow> sum_list (map w xs) = sum_list (map w ys)" for w :: "int \<Rightarrow> int"
  by (metis mset_map sum_mset_sum_list)

lemma sum_list_split: "sum_list (map w xs) = sum_list (map w (filter p xs)) + sum_list (map w (filter (\<lambda>u. \<not> p u) xs))" for w :: "int \<Rightarrow> int"
  by (induction xs) simp_all

lemma live_step:
  assumes k: "keep_ok ak" and e: "full_postd ak = pre @ v # suf"
  shows "live_bytes (ak_parent ak) w (pre @ [v])
      = live_bytes (ak_parent ak) w pre - sum_list (map w (ak_kids ak v)) + w v"
    "sum_list (map w (ak_kids ak v)) = sum_list (map w (filter (\<lambda>u. ak_parent ak u = v) (filter (\<lambda>u. ak_parent ak u \<notin> set pre) pre)))"
proof -
  let ?P = "ak_parent ak"
  let ?A = "filter (\<lambda>u. ?P u \<notin> set pre) pre"
  note fp = full_postd_set [OF k]
  have v: "0 \<le> v" "v < ak_size ak" using fp(1) e by auto
  have d: "v \<notin> set pre" "distinct pre" using fp(2) e by simp_all
  have P: "?P u = -1 \<or> u < ?P u" if "0 \<le> u" "u < ak_size ak" for u
    using k that unfolding keep_ok_def ordered_forest_def by blast
  have af: "after_kids ?P {} (full_postd ak)" by (rule serial_postorder_ok(3) [OF k])
  have Pv: "?P v \<notin> set pre"
  proof
    assume a: "?P v \<in> set pre"
    then obtain p1 p2 where p: "pre = p1 @ ?P v # p2" by (meson split_list)
    have "?P v \<in> set (full_postd ak)" unfolding e using a by simp
    then have "?P v \<noteq> -1" unfolding fp(1) by simp
    then have "v < ?P v" using P [OF v] by simp
    then have "v \<in> set p1" using after_kids_split [of ?P p1 "?P v" "p2 @ v # suf" v] af e p v(1) by simp
    then show False using d(1) p by simp
  qed
  have Pvv: "?P v \<noteq> v" using P [OF v] v by auto
  have f: "filter (\<lambda>u. ?P u \<notin> set (pre @ [v])) (pre @ [v]) = filter (\<lambda>u. ?P u \<noteq> v) ?A @ [v]"
  proof -
    have "filter (\<lambda>u. ?P u \<notin> set (pre @ [v])) pre = filter (\<lambda>u. ?P u \<noteq> v) ?A"
      unfolding filter_filter by (rule filter_cong) auto
    then show ?thesis using Pv Pvv by simp
  qed
  have "mset (ak_kids ak v) = mset (filter (\<lambda>u. ?P u = v) ?A)"
  proof (rule iffD1 [OF set_eq_iff_mset_eq_distinct])
    show "distinct (ak_kids ak v)" unfolding keep_kids(2) [OF k v] by (simp add: snode_children_def)
    show "distinct (filter (\<lambda>u. ?P u = v) ?A)" using d(2) by simp
    have "u \<in> set pre" if "0 \<le> u" "u < v" "?P u = v" for u
      using after_kids_split [of ?P pre v suf u] af e that by simp
    moreover have "0 \<le> u \<and> u < v" if "u \<in> set pre" "?P u = v" for u
    proof -
      have "0 \<le> u" "u < ak_size ak" using that(1) fp(1) e by auto
      then show ?thesis using P [of u] that(2) v(1) by auto
    qed
    ultimately have "u \<in> set (ak_kids ak v) \<longleftrightarrow> u \<in> set pre \<and> ?P u = v" for u unfolding kid_of [OF k v] by blast
    then show "set (ak_kids ak v) = set (filter (\<lambda>u. ?P u = v) ?A)" using d(1) by auto
  qed
  then show s: "sum_list (map w (ak_kids ak v)) = sum_list (map w (filter (\<lambda>u. ?P u = v) ?A))" by (rule sum_list_map_mset)
  have "sum_list (map w ?A) = sum_list (map w (filter (\<lambda>u. ?P u = v) ?A)) + sum_list (map w (filter (\<lambda>u. ?P u \<noteq> v) ?A))"
    by (rule sum_list_split)
  then show "live_bytes ?P w (pre @ [v]) = live_bytes ?P w pre - sum_list (map w (ak_kids ak v)) + w v"
    unfolding live_bytes_def f s by simp
qed


definition peak_live :: "(int \<Rightarrow> int) \<Rightarrow> (int \<Rightarrow> int) \<Rightarrow> int list \<Rightarrow> int" where
  "peak_live P cb xs = Max (set (map (\<lambda>k. live_bytes P cb (take k xs)) [0..<length xs + 1]))"

lemma live_nonneg: "(\<And>u. u \<in> set xs \<Longrightarrow> 0 \<le> w u) \<Longrightarrow> 0 \<le> sum_list (map w (filter p xs))" for w :: "int \<Rightarrow> int"
  by (induction xs) simp_all

lemma track_prefix:
  assumes k: "keep_ok ak" and c: "cost_ok ak cm" and e: "full_postd ak = pre @ suf"
  shows "fold (track ak cm) pre \<lparr>current_bytes = 0, peak_bytes = 0\<rparr>
    = \<lparr>current_bytes = live_bytes (ak_parent ak) (elt (contrib_bytes cm)) pre,
       peak_bytes = peak_live (ak_parent ak) (elt (contrib_bytes cm)) pre\<rparr>"
  using e
proof (induction pre arbitrary: suf rule: rev_induct)
  case Nil
  then show ?case by (simp add: live_bytes_def peak_live_def)
next
  case (snoc v pre)
  let ?w = "elt (contrib_bytes cm)"
  let ?L = "live_bytes (ak_parent ak) ?w"
  have w: "0 \<le> ?w u" if "u \<in> set pre" for u
  proof -
    have "u \<in> set (full_postd ak)" unfolding snoc.prems using that by simp
    then show ?thesis using c full_postd_set(1) [OF k] by (simp add: cost_ok_def)
  qed
  note st = live_step [OF k, of pre v suf ?w]
  have e: "full_postd ak = pre @ v # suf" using snoc.prems by simp
  have "sum_list (map ?w (ak_kids ak v)) \<le> ?L pre"
    unfolding st(2) [OF e] live_bytes_def
    using sum_list_split [of ?w "filter (\<lambda>u. ak_parent ak u \<notin> set pre) pre" "\<lambda>u. ak_parent ak u = v"]
      live_nonneg [of "filter (\<lambda>u. ak_parent ak u \<notin> set pre) pre" ?w "\<lambda>u. ak_parent ak u \<noteq> v"] w by simp
  moreover have "peak_live (ak_parent ak) ?w (pre @ [v]) = max (?L (pre @ [v])) (peak_live (ak_parent ak) ?w pre)"
  proof -
    have "map (\<lambda>k. ?L (take k (pre @ [v]))) [0..<length (pre @ [v]) + 1] = map (\<lambda>k. ?L (take k pre)) [0..<length pre + 1] @ [?L (pre @ [v])]"
      by simp
    then show ?thesis unfolding peak_live_def by (simp del: upt_Suc add: max.commute)
  qed
  ultimately show ?case using snoc.IH [OF e] st(1) [OF e] by (simp add: track_def Let_def max_def)
qed

text \<open>The children of a node come before it in the serial schedule, every node once; the callback is called in that
  order, and the peak is the most bytes ever alive between two calls.\<close>

lemma run_serial_eq:
  assumes k: "keep_ok ak"
  shows "\<exists>cm. build_cost_model ak (full_postd ak) = Some cm \<and> cost_ok ak cm
     \<and> run_serial ak m f st = map_option (\<lambda>st. (st, peak_live (ak_parent ak) (elt (contrib_bytes cm)) (full_postd ak),
          int (length (filter (\<lambda>s. ak_kids ak s = [] \<and> elt (node_flops cm) s < m) (full_postd ak))))) (forM (full_postd ak) f st)"
proof -
  obtain cm where b: "build_cost_model ak (full_postd ak) = Some cm" and c: "cost_ok ak cm"
    using ok_ex [OF build_cost_model_ok [OF k]] by blast
  have l: "lengths_ok ak cm" using c by (simp add: cost_ok_def)
  let ?cnt = "\<lambda>s co. if ak_kids ak s = [] \<and> elt (node_flops cm) s < m then co + 1 else (co :: int)"
  let ?body = "\<lambda>s (st, t, coarsened :: int). do {
          ch \<leftarrow> ak_children ak s;
          nf \<leftarrow> vget (node_flops cm) s;
          let coarsened = (if ch = [] \<and> nf < m then coarsened + 1 else coarsened);
          (st, t) \<leftarrow> finish_fn ak cm f s (st, t);
          Some (st, t, coarsened)
        }"
  let ?g = "\<lambda>s (t, co). (track ak cm s t, ?cnt s co)"
  have body: "?body s (st, tc) = Option.bind (f s st) (\<lambda>st. Some (st, ?g s tc))" if "s \<in> set (full_postd ak)" for s st and tc :: "tracker \<times> int"
  proof -
    have s: "0 \<le> s" "s < ak_size ak" using that full_postd_set(1) [OF k] by simp_all
    obtain t co where tc: "tc = (t, co)" by (cases tc)
    have nf: "vget (node_flops cm) s = Some (elt (node_flops cm) s)" using s l by (simp add: lengths_ok_def vget_at)
    show ?thesis
      by (cases "f s st") (simp_all add: tc keep_kids(1) [OF k s] nf finish_fn_def on_node_complete_eq [OF k l s] Let_def)
  qed
  have fg: "fold ?g xs (t, co) = (fold (track ak cm) xs t, fold ?cnt xs co)" for xs t and co :: int
    by (induction xs arbitrary: t co) simp_all
  have cnt: "fold ?cnt xs co = co + int (length (filter (\<lambda>s. ak_kids ak s = [] \<and> elt (node_flops cm) s < m) xs))" for xs co
    by (induction xs arbitrary: co) simp_all
  show ?thesis
  proof (cases "ak_snodes ak = []")
    case True
    then have "full_postd ak = []" by (simp add: full_postd_def roots_of_def ak_size_def)
    then have "run_serial ak m f st = map_option (\<lambda>st. (st, peak_live (ak_parent ak) (elt (contrib_bytes cm)) (full_postd ak),
          int (length (filter (\<lambda>s. ak_kids ak s = [] \<and> elt (node_flops cm) s < m) (full_postd ak))))) (forM (full_postd ak) f st)"
      by (simp add: run_serial_def True peak_live_def live_bytes_def)
    then show ?thesis using b c by blast
  next
    case False
    have F: "forM (full_postd ak) ?body (st, \<lparr>current_bytes = 0, peak_bytes = 0\<rparr>, 0)
      = map_option (\<lambda>st. (st, fold ?g (full_postd ak) (\<lparr>current_bytes = 0, peak_bytes = 0\<rparr>, 0))) (forM (full_postd ak) f st)"
      by (rule forM_product) (rule body)
    have "run_serial ak m f st = map_option (\<lambda>st. (st, peak_live (ak_parent ak) (elt (contrib_bytes cm)) (full_postd ak),
          int (length (filter (\<lambda>s. ak_kids ak s = [] \<and> elt (node_flops cm) s < m) (full_postd ak))))) (forM (full_postd ak) f st)"
      unfolding run_serial_def using False serial_postorder_ok(1) [OF k] b F
      by (cases "forM (full_postd ak) f st") (simp_all add: fg cnt track_prefix [OF k c, of _ "[]"])
    then show ?thesis using b c by blast
  qed
qed


section \<open>The parallel schedules\<close>

text \<open>No node's children that run as tasks hold more than the budget.\<close>

definition within_budget :: "analysis_keep \<Rightarrow> cost_model \<Rightarrow> execution_policy \<Rightarrow> bool" where
  "within_budget ak cm pol \<longleftrightarrow> (\<forall>v \<in> set [0..ak_size ak - 1].
     \<not> over_budget pol (elt (contrib_bytes cm)) (filter (\<lambda>c. \<not> tiny cm pol c) (ak_kids ak v)))"

lemma postd_set:
  assumes "keep_ok ak" "0 \<le> r" "r < ak_size ak"
  shows "set (postd (ak_kids ak) r) = {u. below (ak_parent ak) r u}" "distinct (postd (ak_kids ak) r)"
    "u \<in> set (postd (ak_kids ak) r) \<Longrightarrow> 0 \<le> u \<and> u \<le> r"
proof -
  show s: "set (postd (ak_kids ak) r) = {u. below (ak_parent ak) r u}"
    using mset_eq_setD [OF postd_mset [OF assms]] by (simp add: set_post)
  show "distinct (postd (ak_kids ak) r)" using mset_eq_imp_distinct_iff [OF postd_mset [OF assms]] distinct_post by simp
  have "below P a b \<Longrightarrow> 0 \<le> a \<Longrightarrow> 0 \<le> b" for P a b by (induction rule: below.induct) simp_all
  then show "u \<in> set (postd (ak_kids ak) r) \<Longrightarrow> 0 \<le> u \<and> u \<le> r" using assms(2) below_le unfolding s by blast
qed

lemma subtree_calls_eq:
  assumes k: "keep_ok ak" and l: "lengths_ok ak cm" and r: "0 \<le> r" "r < ak_size ak"
  shows "subtree_calls ak cm r = Some (postd (ak_kids ak) r)"
proof -
  let ?t0 = "\<lparr>current_bytes = 0, peak_bytes = 0\<rparr>" and ?fn = "\<lambda>nd tr. Some (tr @ [nd])"
  have range: "0 \<le> x \<and> x < ak_size ak" if "x \<in> set (postd (ak_kids ak) r)" for x
    using postd_set(3) [OF k r that] r by simp
  have "execute_subtree_iterative ak cm ?fn r ([], ?t0) = forM (postd (ak_kids ak) r) (finish_fn ak cm ?fn) ([], ?t0)"
    using walk_nodes [OF k, of "[r]" "finish_fn ak cm ?fn" "([], ?t0)"] r by (simp add: execute_subtree_iterative_def)
  also have "\<dots> = map_option (\<lambda>s. (s, fold (track ak cm) (postd (ak_kids ak) r) ?t0)) (forM (postd (ak_kids ak) r) ?fn [])"
    by (rule forM_product) (use range on_node_complete_eq [OF k l] in \<open>simp add: finish_fn_def\<close>)
  finally show ?thesis by (simp add: subtree_calls_def forM_snoc)
qed


lemma concat_batches: "concat (batches b w cur bb cs) = cur @ cs"
  by (induction b w cur bb cs rule: batches.induct) simp_all

lemma mset_filter_concat:
  "mset (concat (map f (filter p xs))) + mset (concat (map f (filter (\<lambda>c. \<not> p c) xs))) = mset (concat (map f xs))"
  by (induction xs) simp_all

lemma list_all2_mset: "list_all2 (\<lambda>c tr. mset tr = mset (f c)) cs trs \<Longrightarrow> mset (concat trs) = mset (concat (map f cs))"
  by (induction rule: list_all2_induct) simp_all

lemma list_all2_memb: "list_all2 R xs ys \<Longrightarrow> y \<in> set ys \<Longrightarrow> \<exists>x \<in> set xs. R x y"
  by (induction rule: list_all2_induct) auto

lemma list_all2_conj: "list_all2 R xs ys \<Longrightarrow> (\<And>x y. x \<in> set xs \<Longrightarrow> R x y \<Longrightarrow> Q x y) \<Longrightarrow> list_all2 Q xs ys"
  by (induction rule: list_all2_induct) simp_all

lemma list_all2_Some_map: "list_all2 (\<lambda>c tr. g c = Some tr) xs ys \<Longrightarrow> (\<And>c. c \<in> set xs \<Longrightarrow> g c = Some (f c)) \<Longrightarrow> ys = map f xs"
  by (induction rule: list_all2_induct) simp_all

text \<open>A list of calls that covers the subtrees of \<open>vs\<close>, every node once and after its children.\<close>

definition covers :: "analysis_keep \<Rightarrow> int list \<Rightarrow> int list \<Rightarrow> bool" where
  "covers ak vs tr \<longleftrightarrow> mset tr = mset (concat (map (postd (ak_kids ak)) vs)) \<and> after_kids (ak_parent ak) {} tr"

lemma covers_postd: "keep_ok ak \<Longrightarrow> 0 \<le> v \<Longrightarrow> v < ak_size ak \<Longrightarrow> covers ak [v] (postd (ak_kids ak) v)"
  by (simp add: covers_def postd_after_kids)

lemma covers_concat: "list_all2 (covers ak) vss trs \<Longrightarrow> covers ak (concat vss) (concat trs)"
proof -
  assume a: "list_all2 (covers ak) vss trs"
  have "mset (concat trs) = mset (concat (map (\<lambda>vs. concat (map (postd (ak_kids ak)) vs)) vss))"
    by (rule list_all2_mset, rule list_all2_mono [OF a]) (simp add: covers_def)
  moreover have "concat (map (\<lambda>vs. concat (map (postd (ak_kids ak)) vs)) vss) = concat (map (postd (ak_kids ak)) (concat vss))"
    by (induction vss) simp_all
  moreover have "after_kids (ak_parent ak) {} (concat trs)"
    by (rule after_kids_concat) (use list_all2_memb [OF a] in \<open>auto simp: covers_def\<close>)
  ultimately show ?thesis by (simp add: covers_def)
qed

lemma covers_interleaved:
  assumes "list_all2 (\<lambda>v. covers ak [v]) vs trs" "interleaved trs tr"
  shows "covers ak vs tr"
proof -
  have "mset (concat trs) = mset (concat (map (postd (ak_kids ak)) vs))"
    by (rule list_all2_mset, rule list_all2_mono [OF assms(1)]) (simp add: covers_def)
  moreover have "after_kids (ak_parent ak) {} tr"
    by (rule after_kids_interleaved [OF assms(2)]) (use list_all2_memb [OF assms(1)] in \<open>auto simp: covers_def\<close>)
  ultimately show ?thesis using mset_interleaved [OF assms(2)] by (simp add: covers_def)
qed

lemma covers_node:
  assumes k: "keep_ok ak" and v: "0 \<le> v" "v < ak_size ak"
    and a: "covers ak (filter p (ak_kids ak v)) xs" and b: "covers ak (filter (\<lambda>c. \<not> p c) (ak_kids ak v)) ys"
  shows "covers ak [v] (xs @ ys @ [v])"
proof -
  have m: "mset (xs @ ys) = mset (concat (map (postd (ak_kids ak)) (ak_kids ak v)))"
    using a b mset_filter_concat [of "postd (ak_kids ak)" p "ak_kids ak v"] by (simp add: covers_def)
  have af: "after_kids (ak_parent ak) {} (xs @ ys)"
    using a b after_kids_mono [of "ak_parent ak" "{}" ys "set xs"] by (simp add: covers_def after_kids_append)
  have "u \<in> set (xs @ ys)" if "0 \<le> u" "u < v" "ak_parent ak u = v" for u
  proof -
    have "u \<in> set (ak_kids ak v)" using kid_of [OF k v] that by simp
    moreover have "u \<in> set (postd (ak_kids ak) u)" by (simp add: postd.simps [of _ u])
    ultimately show ?thesis unfolding mset_eq_setD [OF m] by auto
  qed
  then have "after_kids (ak_parent ak) {} ((xs @ ys) @ [v])" using af by (rule after_kids_last)
  then show ?thesis using m by (simp add: covers_def keep_postd [OF k v])
qed

lemma costed_task_covers:
  assumes "costed_task ak cm pol v d tr" and k: "keep_ok ak" and l: "lengths_ok ak cm" and w: "within_budget ak cm pol"
    and "0 \<le> v" "v < ak_size ak"
  shows "covers ak [v] tr"
  using assms(1,5,6)
proof (induction rule: costed_task.induct)
  case (task_inline v d tr)
  have "tr = postd (ak_kids ak) v" using task_inline subtree_calls_eq [OF k l, of v] by simp
  then show ?case using covers_postd [OF k task_inline(3,4)] by (simp only:)
next
  case (task_over_budget v d ch tiny_trs par)
  then have "ch = ak_kids ak v" using keep_kids(1) [OF k] by simp
  then show ?case using w task_over_budget by (simp add: within_budget_def)
next
  case (task_spawn v d ch tiny_trs par batch_trs)
  have v: "0 \<le> v" "v < ak_size ak" by fact+
  have ch: "ch = ak_kids ak v" using keep_kids(1) [OF k v] task_spawn by simp
  have kid: "0 \<le> c \<and> c < ak_size ak" if "c \<in> set (ak_kids ak v)" for c using keep_kids(3) [OF k v that] v by simp
  have "list_all2 (\<lambda>c. covers ak [c]) (filter (tiny cm pol) ch) tiny_trs"
    by (rule list_all2_conj [OF task_spawn(3)])
       (use kid subtree_calls_eq [OF k l] covers_postd [OF k] in \<open>auto simp: ch\<close>)
  then have "list_all2 (covers ak) (map (\<lambda>c. [c]) (filter (tiny cm pol) ch)) tiny_trs" by (simp add: list_all2_map1)
  then have "covers ak (concat (map (\<lambda>c. [c]) (filter (tiny cm pol) ch))) (concat tiny_trs)" by (rule covers_concat)
  then have a: "covers ak (filter (tiny cm pol) ch) (concat tiny_trs)" by (simp only: concat_map_singleton map_ident)
  let ?bs = "batches (memory_budget pol) (elt (contrib_bytes cm)) [] 0 par"
  have "list_all2 (covers ak) ?bs batch_trs"
  proof (rule list_all2_conj [OF task_spawn(6)])
    fix batch btr assume B: "batch \<in> set ?bs"
      "\<exists>trs. list_all2 (\<lambda>c tr. costed_task ak cm pol c (d + 1) tr \<and> (0 \<le> c \<longrightarrow> c < ak_size ak \<longrightarrow> covers ak [c] tr)) batch trs
        \<and> interleaved trs btr"
    have "set batch \<subseteq> set (concat ?bs)" using B(1) by auto
    then have "set batch \<subseteq> set par" by (simp add: concat_batches)
    then have r: "0 \<le> c \<and> c < ak_size ak" if "c \<in> set batch" for c using that kid task_spawn(4) ch by auto
    obtain trs where t: "list_all2 (\<lambda>c tr. costed_task ak cm pol c (d + 1) tr \<and> (0 \<le> c \<longrightarrow> c < ak_size ak \<longrightarrow> covers ak [c] tr)) batch trs"
      "interleaved trs btr" using B(2) by blast
    have "list_all2 (\<lambda>c. covers ak [c]) batch trs" by (rule list_all2_conj [OF t(1)]) (use r in blast)
    then show "covers ak batch btr" using t(2) by (rule covers_interleaved)
  qed
  then have "covers ak (concat ?bs) (concat batch_trs)" by (rule covers_concat)
  then have "covers ak (filter (\<lambda>c. \<not> tiny cm pol c) (ak_kids ak v)) (concat batch_trs)"
    unfolding concat_batches task_spawn(4) ch append_Nil .
  then show ?case by (rule covers_node [OF k v a [unfolded ch]])
qed


lemma run_parallel_covers:
  assumes k: "keep_ok ak" and b: "build_cost_model ak (full_postd ak) = Some cm" and w: "within_budget ak cm pol"
    and r: "run_parallel ak pol tr"
  shows "mset tr = mset (full_postd ak)" "after_kids (ak_parent ak) {} tr"
proof -
  have l: "lengths_ok ak cm" using ok_the [OF build_cost_model_ok [OF k] b] by (simp add: cost_ok_def)
  let ?R = "roots_of (ak_parent ak) (ak_size ak)"
  obtain trs where t: "list_all2 (\<lambda>r t. if tiny cm pol r then subtree_calls ak cm r = Some t else costed_task ak cm pol r 0 t) ?R trs"
    "interleaved trs tr"
  proof -
    obtain po cm' roots trs where x: "serial_postorder ak = Some po" "build_cost_model ak po = Some cm'" "root_nodes ak = Some roots"
      "list_all2 (\<lambda>r t. if tiny cm' pol r then subtree_calls ak cm' r = Some t else costed_task ak cm' pol r 0 t) roots trs"
      "interleaved trs tr" using r unfolding run_parallel_def by blast
    have "po = full_postd ak" "roots = ?R" using x(1,3) serial_postorder_ok(1) [OF k] root_nodes_eq [of ak] by simp_all
    moreover have "cm' = cm" using x(2) b calculation by simp
    ultimately show ?thesis using x(4,5) that by blast
  qed
  have "list_all2 (\<lambda>v. covers ak [v]) ?R trs"
  proof (rule list_all2_conj [OF t(1)])
    fix v t assume v: "v \<in> set ?R" and e: "if tiny cm pol v then subtree_calls ak cm v = Some t else costed_task ak cm pol v 0 t"
    have vr: "0 \<le> v" "v < ak_size ak" using roots_range [OF v] by simp_all
    show "covers ak [v] t"
    proof (cases "tiny cm pol v")
      case True
      then have "t = postd (ak_kids ak) v" using e subtree_calls_eq [OF k l vr] by simp
      then show ?thesis using covers_postd [OF k vr] by (simp only:)
    next
      case False
      then have "costed_task ak cm pol v 0 t" using e by simp
      then show ?thesis by (rule costed_task_covers [OF _ k l w vr])
    qed
  qed
  then have c: "covers ak ?R tr" using t(2) by (rule covers_interleaved)
  then show "after_kids (ak_parent ak) {} tr" by (simp add: covers_def)
  have "mset tr = mset (concat (map (postd (ak_kids ak)) ?R))" using c by (simp add: covers_def)
  also have "\<dots> = mset (full_postd ak)" by (simp add: full_postd_def mset_concat_map)
  finally show "mset tr = mset (full_postd ak)" .
qed

text \<open>The budget's shortcut calls the large children and none of their descendants.\<close>

lemma over_budget_calls:
  assumes k: "keep_ok ak" and l: "lengths_ok ak cm" and v: "0 \<le> v" "v < ak_size ak"
    and ni: "\<not> runs_inline ak cm pol v d" and ob: "over_budget pol (elt (contrib_bytes cm)) (filter (\<lambda>c. \<not> tiny cm pol c) (ak_kids ak v))"
    and t: "costed_task ak cm pol v d tr" and c: "c \<in> set (ak_kids ak v)" "\<not> tiny cm pol c"
    and u: "below (ak_parent ak) c u" "u \<noteq> c"
  shows "u \<notin> set tr"
proof -
  note ks = keep_kids [OF k v]
  have kid: "0 \<le> c \<and> c < ak_size ak" if "c \<in> set (ak_kids ak v)" for c using ks(3) [OF that] v by simp
  have "\<exists>trs. list_all2 (\<lambda>c tr. subtree_calls ak cm c = Some tr) (filter (tiny cm pol) (ak_kids ak v)) trs
      \<and> tr = concat trs @ filter (\<lambda>c. \<not> tiny cm pol c) (ak_kids ak v) @ [v]"
    using t by cases (use ni ob ks(1) in auto)
  then obtain trs where tr: "list_all2 (\<lambda>c tr. subtree_calls ak cm c = Some tr) (filter (tiny cm pol) (ak_kids ak v)) trs"
    "tr = concat trs @ filter (\<lambda>c. \<not> tiny cm pol c) (ak_kids ak v) @ [v]" by blast
  have e: "trs = map (postd (ak_kids ak)) (filter (tiny cm pol) (ak_kids ak v))"
    by (rule list_all2_Some_map [OF tr(1)]) (use kid subtree_calls_eq [OF k l] in simp)
  have par: "ak_parent ak a = v" "a < v" if "a \<in> set (ak_kids ak v)" for a using kid_of [OF k v, of a] that by simp_all
  have same: "a = c" if "a \<in> set (ak_kids ak v)" "below (ak_parent ak) a u" for a
    using below_sibling [of "ak_parent ak" a c u] that u(1) c(1) par [of a] par [of c] by simp
  have "u \<notin> set (concat trs)"
  proof
    assume "u \<in> set (concat trs)"
    then obtain a where a: "a \<in> set (ak_kids ak v)" "tiny cm pol a" "u \<in> set (postd (ak_kids ak) a)" by (auto simp: e)
    have r: "0 \<le> a" "a < ak_size ak" using kid [OF a(1)] by simp_all
    have "below (ak_parent ak) a u" using a(3) postd_set(1) [OF k r] by simp
    then show False using same [OF a(1)] a(2) c(2) by simp
  qed
  moreover have "u \<notin> set (ak_kids ak v)" using same [of u] below_refl [of "ak_parent ak" u] u(2) by auto
  moreover have "u \<noteq> v" using below_le [OF u(1)] par(2) [OF c(1)] by simp
  ultimately show ?thesis by (simp add: tr(2))
qed


section \<open>Properties\<close>

text \<open>C35: on one thread \<open>run_costed_postorder\<close> calls the callback on every supernode once, children before
  parents; the callback's state is the fold over that order (and the run fails only where a call does), and the peak
  it reports is the most contribution bytes alive after any prefix of the order.\<close>

theorem serial_schedule_correct:
  assumes "keep_ok ak"
  shows "\<exists>order cm. serial_postorder ak = Some order \<and> build_cost_model ak order = Some cm
     \<and> distinct order \<and> set order = {s. 0 \<le> s \<and> s < ak_size ak} \<and> children_first (ak_parent ak) order
     \<and> run_serial ak m f st = map_option (\<lambda>st. (st, peak_live (ak_parent ak) (elt (contrib_bytes cm)) order,
          int (length (filter (\<lambda>s. ak_kids ak s = [] \<and> elt (node_flops cm) s < m) order)))) (forM order f st)"
proof -
  obtain cm where "build_cost_model ak (full_postd ak) = Some cm"
    "run_serial ak m f st = map_option (\<lambda>st. (st, peak_live (ak_parent ak) (elt (contrib_bytes cm)) (full_postd ak),
          int (length (filter (\<lambda>s. ak_kids ak s = [] \<and> elt (node_flops cm) s < m) (full_postd ak))))) (forM (full_postd ak) f st)"
    using run_serial_eq [OF assms, of m f st] by blast
  then show ?thesis using serial_postorder_ok(1) [OF assms] full_postd_set [OF assms]
      after_kids_first [OF serial_postorder_ok(3) [OF assms]] by blast
qed

abbreviation demo_tree :: analysis_keep where
  "demo_tree \<equiv> \<lparr>ak_snodes = [\<lparr>sn_start = 0, sn_end = 1, sn_parent = 1\<rparr>, \<lparr>sn_start = 1, sn_end = 2, sn_parent = 3\<rparr>,
      \<lparr>sn_start = 2, sn_end = 3, sn_parent = 3\<rparr>, \<lparr>sn_start = 3, sn_end = 4, sn_parent = -1\<rparr>],
    ak_child_ptr = [0, 0, 1, 1, 3], ak_child_idx = [0, 2, 1], ak_front_row_ptr = [0, 2, 4, 6, 7]\<rparr>"

abbreviation demo_costs :: cost_model where
  "demo_costs \<equiv> \<lparr>node_flops = [4, 4, 4, 1], subtree_flops = [4, 8, 4, 13], contrib_bytes = [8, 8, 8, 0]\<rparr>"

lemma demo_keep: "keep_ok demo_tree"
  unfolding keep_ok_def ordered_forest_def all_int_set by code_simp

theorem serial_schedule_correct_witness:
  "\<exists>order cm. serial_postorder demo_tree = Some order \<and> build_cost_model demo_tree order = Some cm
     \<and> distinct order \<and> set order = {s. 0 \<le> s \<and> s < ak_size demo_tree} \<and> children_first (ak_parent demo_tree) order
     \<and> run_serial demo_tree 5 (\<lambda>s x. Some (x + s)) 0 = map_option (\<lambda>st. (st, peak_live (ak_parent demo_tree) (elt (contrib_bytes cm)) order,
          int (length (filter (\<lambda>s. ak_kids demo_tree s = [] \<and> elt (node_flops cm) s < 5) order)))) (forM order (\<lambda>s x. Some (x + s)) 0)"
  by (rule serial_schedule_correct [OF demo_keep])

text \<open>C12: with a policy that no node's task children exceed the memory budget of, whatever the tasks' interleaving
  the callback is called on every supernode once, children before parents.\<close>

theorem parallel_schedule_correct:
  assumes "keep_ok ak" "serial_postorder ak = Some order" "build_cost_model ak order = Some cm" "within_budget ak cm pol"
    and "run_parallel ak pol tr"
  shows "distinct tr \<and> set tr = {s. 0 \<le> s \<and> s < ak_size ak} \<and> children_first (ak_parent ak) tr"
proof -
  have "order = full_postd ak" using assms(2) serial_postorder_ok(1) [OF assms(1)] by simp
  note r = run_parallel_covers [OF assms(1) assms(3) [unfolded this] assms(4,5)]
  show ?thesis
    using mset_eq_setD [OF r(1)] mset_eq_imp_distinct_iff [OF r(1)] full_postd_set [OF assms(1)] after_kids_first [OF r(2)] by simp
qed

lemma demo_task: "costed_task demo_tree demo_costs \<lparr>memory_budget = 16, min_task_flops = 4\<rparr> 3 0 [0, 2, 1, 3]"
proof -
  let ?p = "\<lparr>memory_budget = 16, min_task_flops = 4\<rparr>"
  have i: "costed_task demo_tree demo_costs ?p 0 2 [0]" "costed_task demo_tree demo_costs ?p 2 1 [2]"
    by (rule task_inline, code_simp, code_simp)+
  have "costed_task demo_tree demo_costs ?p 1 1 (concat [] @ concat [[0]] @ [1])"
  proof (rule task_spawn [where ch = "[0]" and par = "[0]"])
    have "batches (memory_budget ?p) (elt (contrib_bytes demo_costs)) [] 0 [0] = [[0]]" by code_simp
    moreover have "interleaved [[0]] [0 :: int]" by (simp add: interleaved_simps)
    ultimately show "list_all2 (\<lambda>batch btr. \<exists>trs. list_all2 (\<lambda>c tr. costed_task demo_tree demo_costs ?p c (1 + 1) tr) batch trs
        \<and> interleaved trs btr) (batches (memory_budget ?p) (elt (contrib_bytes demo_costs)) [] 0 [0]) [[0]]"
      using i(1) by (auto intro!: exI [of _ "[[0]]"])
    have "filter (tiny demo_costs ?p) [0] = []" by code_simp
    then show "list_all2 (\<lambda>c tr. subtree_calls demo_tree demo_costs c = Some tr) (filter (tiny demo_costs ?p) [0]) []" by simp
  qed code_simp+
  then have j: "costed_task demo_tree demo_costs ?p 1 1 [0, 1]" by simp
  have "costed_task demo_tree demo_costs ?p 3 0 (concat [] @ concat [[0, 2, 1]] @ [3])"
  proof (rule task_spawn [where ch = "[2, 1]" and par = "[2, 1]"])
    have "batches (memory_budget ?p) (elt (contrib_bytes demo_costs)) [] 0 [2, 1] = [[2, 1]]" by code_simp
    moreover have "interleaved [[2], [0, 1]] [0, 2, 1 :: int]"
      by (auto simp: interleaved_simps intro!: exI [of _ "[0, 1]"])
    ultimately show "list_all2 (\<lambda>batch btr. \<exists>trs. list_all2 (\<lambda>c tr. costed_task demo_tree demo_costs ?p c (0 + 1) tr) batch trs
        \<and> interleaved trs btr) (batches (memory_budget ?p) (elt (contrib_bytes demo_costs)) [] 0 [2, 1]) [[0, 2, 1]]"
      using i(2) j by (auto intro!: exI [of _ "[[2], [0, 1]]"])
    have "filter (tiny demo_costs ?p) [2, 1] = []" by code_simp
    then show "list_all2 (\<lambda>c tr. subtree_calls demo_tree demo_costs c = Some tr) (filter (tiny demo_costs ?p) [2, 1]) []" by simp
  qed code_simp+
  then show ?thesis by simp
qed

theorem parallel_schedule_correct_witness:
  "run_parallel demo_tree \<lparr>memory_budget = 16, min_task_flops = 4\<rparr> [0, 2, 1, 3] \<and> distinct [0, 2, 1, 3 :: int]
     \<and> set [0, 2, 1, 3] = {s. 0 \<le> s \<and> s < ak_size demo_tree} \<and> children_first (ak_parent demo_tree) [0, 2, 1, 3]"
proof -
  let ?p = "\<lparr>memory_budget = 16, min_task_flops = 4\<rparr>"
  have o: "serial_postorder demo_tree = Some [2, 0, 1, 3]" by code_simp
  have c: "build_cost_model demo_tree [2, 0, 1, 3] = Some demo_costs" by code_simp
  have r: "root_nodes demo_tree = Some [3]" by code_simp
  have "\<not> tiny demo_costs ?p 3" by code_simp
  then have "list_all2 (\<lambda>r t. if tiny demo_costs ?p r then subtree_calls demo_tree demo_costs r = Some t
      else costed_task demo_tree demo_costs ?p r 0 t) [3] [[0, 2, 1, 3]]" using demo_task by simp
  moreover have "interleaved [[0, 2, 1, 3]] [0, 2, 1, 3 :: int]" by (simp add: interleaved_simps)
  ultimately have p: "run_parallel demo_tree ?p [0, 2, 1, 3]" unfolding run_parallel_def using o c r by blast
  have "within_budget demo_tree demo_costs ?p" by code_simp
  then show ?thesis using parallel_schedule_correct [OF demo_keep o c _ p] p by blast
qed

text \<open>C36: when the contribution blocks of a node's task children together exceed the memory budget, the task calls the
  callback on those children themselves and on none of their descendants: the fronts below them are never processed.\<close>

theorem over_budget_skips_descendants:
  assumes "keep_ok ak" "serial_postorder ak = Some order" "build_cost_model ak order = Some cm"
    and "0 \<le> v" "v < ak_size ak" "\<not> runs_inline ak cm pol v d"
    and "over_budget pol (elt (contrib_bytes cm)) (filter (\<lambda>c. \<not> tiny cm pol c) (ak_kids ak v))"
    and "costed_task ak cm pol v d tr" "c \<in> set (ak_kids ak v)" "\<not> tiny cm pol c" "below (ak_parent ak) c u" "u \<noteq> c"
  shows "u \<notin> set tr"
proof -
  have "order = full_postd ak" using assms(2) serial_postorder_ok(1) [OF assms(1)] by simp
  then have "lengths_ok ak cm" using ok_the [OF build_cost_model_ok [OF assms(1)]] assms(3) by (simp add: cost_ok_def)
  then show ?thesis by (rule over_budget_calls [OF assms(1) _ assms(4-12)])
qed

theorem over_budget_skips_descendants_witness:
  "costed_task demo_tree demo_costs \<lparr>memory_budget = 10, min_task_flops = 4\<rparr> 3 0 [2, 1, 3] \<and> below (ak_parent demo_tree) 1 0
     \<and> 0 \<notin> set [2, 1, 3 :: int]"
proof -
  let ?p = "\<lparr>memory_budget = 10, min_task_flops = 4\<rparr>"
  have o: "serial_postorder demo_tree = Some [2, 0, 1, 3]" by code_simp
  have c: "build_cost_model demo_tree [2, 0, 1, 3] = Some demo_costs" by code_simp
  have t: "costed_task demo_tree demo_costs ?p 3 0 (concat [] @ [2, 1] @ [3])"
  proof (rule task_over_budget [where ch = "[2, 1]"])
    have "filter (tiny demo_costs ?p) [2, 1] = []" by code_simp
    then show "list_all2 (\<lambda>c tr. subtree_calls demo_tree demo_costs c = Some tr) (filter (tiny demo_costs ?p) [2, 1]) []" by simp
  qed code_simp+
  have b: "below (ak_parent demo_tree) 1 0"
  proof (rule below_child)
    have "ak_parent demo_tree 0 = 1" by code_simp
    then show "below (ak_parent demo_tree) 1 (ak_parent demo_tree 0)" "(0 :: int) < ak_parent demo_tree 0" by (simp_all add: below_refl)
  qed simp
  have s: "(3 :: int) < ak_size demo_tree" by code_simp
  have i: "\<not> runs_inline demo_tree demo_costs ?p 3 0" by code_simp
  have ob: "over_budget ?p (elt (contrib_bytes demo_costs)) (filter (\<lambda>c. \<not> tiny demo_costs ?p c) (ak_kids demo_tree 3))" by code_simp
  have k: "1 \<in> set (ak_kids demo_tree 3)" by code_simp
  have nt: "\<not> tiny demo_costs ?p 1" by code_simp
  have "0 \<notin> set (concat [] @ [2, 1] @ [3 :: int])"
    by (rule over_budget_skips_descendants [OF demo_keep o c _ s i ob t k nt b]) simp_all
  then show ?thesis using t b by simp
qed

end
