(* ===== verification/ColumnCounts.thy ===== *)
theory ColumnCounts
  imports EtreeBuild PostIntervals
begin

text \<open>
  The column counts of \<open>src/supernode_detection.cpp\<close> (Gilbert, Ng and Peyton): \<open>gnp_column_counts\<close> and the three
  functions that call it. The strict lower triangle is given as the rows below the diagonal of each column.
  The theorem: entry \<open>j\<close> is the number of rows of column \<open>j\<close> of the factor, by the fill paths of \<open>Etree\<close>.
\<close>

section \<open>The code\<close>

text \<open>First descendants: the climb from \<open>j\<close> to the first node that has one.\<close>

definition gnp_climb :: "int list \<Rightarrow> int \<Rightarrow> int \<times> int list \<Rightarrow> int list option" where
  "gnp_climb parent k = loop (\<lambda>(j, first).
     if j = -1 then Some (Inl first)
     else do {
       f \<leftarrow> vget first j;
       if f = -1 then do {
         first \<leftarrow> vset first j k;
         p \<leftarrow> vget parent j;
         Some (Inr (p, first))
       } else Some (Inl first)
     })"

definition gnp_leaves :: "int \<Rightarrow> int list \<Rightarrow> int list \<Rightarrow> int list \<times> int list \<Rightarrow> (int list \<times> int list) option" where
  "gnp_leaves n parent post_order = for_range 0 n (\<lambda>k (first, delta). do {
     j \<leftarrow> vget post_order k;
     f \<leftarrow> vget first j;
     delta \<leftarrow> vset delta j (if f = -1 then 1 else 0);
     first \<leftarrow> gnp_climb parent k (j, first);
     Some (first, delta)
   })"

definition uf_find :: "int list \<Rightarrow> int \<Rightarrow> int option" where
  "uf_find ancestor = loop (\<lambda>q. do {
     a \<leftarrow> vget ancestor q;
     Some (if q \<noteq> a then Inr a else Inl q)
   })"

definition uf_compress :: "int \<Rightarrow> int \<times> int list \<Rightarrow> int list option" where
  "uf_compress q = loop (\<lambda>(s, ancestor).
     if s \<noteq> q then do {
       sparent \<leftarrow> vget ancestor s;
       ancestor \<leftarrow> vset ancestor s q;
       Some (Inr (sparent, ancestor))
     } else Some (Inl ancestor))"

definition add_at :: "int list \<Rightarrow> int \<Rightarrow> int \<Rightarrow> int list option" where
  "add_at xs j d = do { x \<leftarrow> vget xs j; vset xs j (x + d) }"

text \<open>The callback of \<open>for_each_below\<close>: entry \<open>(i, j)\<close>.\<close>

definition gnp_entry :: "int list \<Rightarrow> int \<Rightarrow> int \<Rightarrow> int list \<times> int list \<times> int list \<times> int list
    \<Rightarrow> (int list \<times> int list \<times> int list \<times> int list) option" where
  "gnp_entry first j i = (\<lambda>(maxfirst, prevleaf, ancestor, delta). do {
     fj \<leftarrow> vget first j;
     mi \<leftarrow> vget maxfirst i;
     if fj \<le> mi then Some (maxfirst, prevleaf, ancestor, delta)
     else do {
       maxfirst \<leftarrow> vset maxfirst i fj;
       jprev \<leftarrow> vget prevleaf i;
       prevleaf \<leftarrow> vset prevleaf i j;
       delta \<leftarrow> add_at delta j 1;
       if jprev = -1 then Some (maxfirst, prevleaf, ancestor, delta)
       else do {
         q \<leftarrow> uf_find ancestor jprev;
         ancestor \<leftarrow> uf_compress q (jprev, ancestor);
         delta \<leftarrow> add_at delta q (-1);
         Some (maxfirst, prevleaf, ancestor, delta)
       }
     }
   })"

definition gnp_column :: "int list \<Rightarrow> int list \<Rightarrow> int list \<Rightarrow> (int \<Rightarrow> int list option) \<Rightarrow> int
    \<Rightarrow> int list \<times> int list \<times> int list \<times> int list \<Rightarrow> (int list \<times> int list \<times> int list \<times> int list) option" where
  "gnp_column parent post_order first rows_below k = (\<lambda>(maxfirst, prevleaf, ancestor, delta). do {
     j \<leftarrow> vget post_order k;
     p \<leftarrow> vget parent j;
     delta \<leftarrow> (if p \<noteq> -1 then add_at delta p (-1) else Some delta);
     rows \<leftarrow> rows_below j;
     (maxfirst, prevleaf, ancestor, delta) \<leftarrow> forM rows (gnp_entry first j) (maxfirst, prevleaf, ancestor, delta);
     ancestor \<leftarrow> (if p \<noteq> -1 then vset ancestor j p else Some ancestor);
     Some (maxfirst, prevleaf, ancestor, delta)
   })"

definition gnp_column_counts :: "int \<Rightarrow> int list \<Rightarrow> int list \<Rightarrow> int list \<Rightarrow> (int \<Rightarrow> int list option) \<Rightarrow> int list option" where
  "gnp_column_counts n parent post_order delta rows_below = do {
     let unset = replicate (nat n) (-1);
     (first, delta) \<leftarrow> gnp_leaves n parent post_order (unset, delta);
     let ancestor = [0..n - 1];
     (maxfirst, prevleaf, ancestor, delta) \<leftarrow> for_range 0 n (gnp_column parent post_order first rows_below) (unset, unset, ancestor, delta);
     for_range 0 n (\<lambda>j delta. do {
       p \<leftarrow> vget parent j;
       if p \<noteq> -1 then do { d \<leftarrow> vget delta j; add_at delta p d } else Some delta
     }) delta
   }"

text \<open>\<open>filled_column_counts_from_rows\<close>: the column form of the compressed rows first.\<close>

definition row_entries :: "int list \<Rightarrow> int list \<Rightarrow> (int \<Rightarrow> int \<Rightarrow> 's \<Rightarrow> 's option) \<Rightarrow> int \<Rightarrow> 's \<Rightarrow> 's option" where
  "row_entries row_ptr row_col f i s = do {
     lo \<leftarrow> vget row_ptr i;
     hi \<leftarrow> vget row_ptr (i + 1);
     for_range lo hi (\<lambda>p s. do { c \<leftarrow> vget row_col p; if c < i then f c i s else Some s }) s
   }"

definition columns_of_rows :: "int \<Rightarrow> int list \<Rightarrow> int list \<Rightarrow> (int list \<times> int list) option" where
  "columns_of_rows n row_ptr row_col = do {
     cp \<leftarrow> for_range 0 n (row_entries row_ptr row_col (\<lambda>c i cp. bump cp (c + 1))) (replicate (nat (n + 1)) 0);
     cp \<leftarrow> for_range 0 n prefix_inplace cp;
     entries \<leftarrow> vget cp n;
     (_, ci) \<leftarrow> for_range 0 n (row_entries row_ptr row_col (\<lambda>c i s. place fst snd (c, i) s))
       (take (nat n) cp, replicate (nat entries) 0);
     Some (cp, ci)
   }"

definition csc_rows_below :: "int list \<Rightarrow> int list \<Rightarrow> int \<Rightarrow> int list option" where
  "csc_rows_below cp ci j = do {
     lo \<leftarrow> vget cp j;
     hi \<leftarrow> vget cp (j + 1);
     for_range lo hi (\<lambda>p rows. do { i \<leftarrow> vget ci p; Some (rows @ [i]) }) []
   }"

definition filled_column_counts_from_rows :: "int \<Rightarrow> int list \<Rightarrow> int list \<Rightarrow> elimination_tree \<Rightarrow> int list option" where
  "filled_column_counts_from_rows n row_ptr row_col etree = do {
     (cp, ci) \<leftarrow> columns_of_rows n row_ptr row_col;
     gnp_column_counts n (et_parent etree) (et_postorder etree) (replicate (nat n) 0) (csc_rows_below cp ci)
   }"

text \<open>\<open>filled_column_counts_from_adjacency\<close>: the neighbours of old vertex \<open>perm[j]\<close> numbered above \<open>j\<close>.\<close>

definition adjacency_below :: "int list \<Rightarrow> int list \<Rightarrow> int list \<Rightarrow> int list \<Rightarrow> int \<Rightarrow> int list option" where
  "adjacency_below xadj adj perm iperm j = do {
     v \<leftarrow> vget perm j;
     lo \<leftarrow> vget xadj v;
     hi \<leftarrow> vget xadj (v + 1);
     for_range lo hi (\<lambda>p rows. do {
       u \<leftarrow> vget adj p;
       i \<leftarrow> vget iperm u;
       Some (if i > j then rows @ [i] else rows)
     }) []
   }"

definition filled_column_counts_from_adjacency ::
  "int \<Rightarrow> int list \<Rightarrow> int list \<Rightarrow> int list \<Rightarrow> int list \<Rightarrow> int list \<Rightarrow> int list \<Rightarrow> int list \<Rightarrow> int list option" where
  "filled_column_counts_from_adjacency n xadj adj perm iperm parent postorder colcount =
     gnp_column_counts n parent postorder colcount (adjacency_below xadj adj perm iperm)"

text \<open>\<open>filled_col_counts\<close>: rows of the strict lower triangle of a compressed lower triangle.\<close>

definition strict_rows :: "'v csc \<Rightarrow> (int list \<times> int list) option" where
  "strict_rows A = do {
     let n = csc_n A;
     ucol \<leftarrow> for_range 0 n (column_entries A (\<lambda>i k ucol. if i > k then bump ucol (i + 1) else Some ucol)) (replicate (nat (n + 1)) 0);
     ucol \<leftarrow> for_range 0 n prefix_inplace ucol;
     entries \<leftarrow> vget ucol n;
     (_, urow) \<leftarrow> for_range 0 n (column_entries A (\<lambda>i k s. if i > k then place fst snd (i, k) s else Some s))
       (take (nat n) ucol, replicate (nat entries) 0);
     Some (ucol, urow)
   }"

definition filled_col_counts :: "'v csc \<Rightarrow> elimination_tree \<Rightarrow> int list option" where
  "filled_col_counts A etree = do {
     (ucol, urow) \<leftarrow> strict_rows A;
     filled_column_counts_from_rows (csc_n A) ucol urow etree
   }"


section \<open>First descendants\<close>

text \<open>The setting of the proofs: a forest, its postorder and the intervals of the subtrees.\<close>

definition gnp_setting :: "int \<Rightarrow> int list \<Rightarrow> int list \<Rightarrow> (int \<Rightarrow> int) \<Rightarrow> (int \<Rightarrow> int) \<Rightarrow> bool" where
  "gnp_setting n parent po ps f \<longleftrightarrow> 0 \<le> n \<and> int (length parent) = n \<and> int (length po) = n
     \<and> ordered_forest (elt parent) n \<and> intervals (elt parent) n ps f
     \<and> (\<forall>k. 0 \<le> k \<and> k < n \<longrightarrow> 0 \<le> elt po k \<and> elt po k < n \<and> ps (elt po k) = k)"

lemma gnp_settingI:
  assumes "0 \<le> n" "int (length parent) = n" "ordered_forest (elt parent) n" "po = full_post (elt parent) n"
  shows "\<exists>f. gnp_setting n parent po (pos po) f"
proof -
  note fp = full_post_set [OF assms(3)]
  have len: "int (length po) = n" using fp(3) assms by simp
  have "0 \<le> elt po k \<and> elt po k < n \<and> pos po (elt po k) = k" if "0 \<le> k" "k < n" for k
  proof -
    have "elt po k \<in> set po" using that len by (simp add: elt_def nat_less_iff)
    then show ?thesis using elt_pos [of po k] fp(1,2) that len assms(4) by simp
  qed
  then show ?thesis using full_post_intervals [OF assms(3,1)] assms len unfolding gnp_setting_def by blast
qed

lemma gnp_settingD:
  assumes "gnp_setting n parent po ps f"
  shows "0 \<le> n" "int (length parent) = n" "int (length po) = n" "ordered_forest (elt parent) n"
    "intervals (elt parent) n ps f" "\<And>k. 0 \<le> k \<Longrightarrow> k < n \<Longrightarrow> 0 \<le> elt po k \<and> elt po k < n \<and> ps (elt po k) = k"
  using assms unfolding gnp_setting_def by blast+

text \<open>After \<open>k\<close> nodes of the postorder: the first descendants seen so far.\<close>

definition first_inv :: "int \<Rightarrow> (int \<Rightarrow> int) \<Rightarrow> int \<Rightarrow> int list \<Rightarrow> bool" where
  "first_inv n f k first \<longleftrightarrow> int (length first) = n \<and> (\<forall>v. 0 \<le> v \<and> v < n \<longrightarrow> elt first v = (if f v < k then f v else -1))"

definition climb_inv :: "int \<Rightarrow> (int \<Rightarrow> int) \<Rightarrow> (int \<Rightarrow> int) \<Rightarrow> int \<Rightarrow> int \<Rightarrow> int list \<Rightarrow> int \<times> int list \<Rightarrow> bool" where
  "climb_inv n P f k j first = (\<lambda>(x, first'). (x = -1 \<or> 0 \<le> x \<and> x < n \<and> below P x j) \<and> int (length first') = n
     \<and> (\<forall>v. 0 \<le> v \<and> v < n \<longrightarrow> elt first' v = (if below P v j \<and> (x = -1 \<or> v < x) then k else elt first v))
     \<and> (\<forall>v. 0 \<le> v \<and> v < n \<and> below P v j \<and> (x = -1 \<or> v < x) \<longrightarrow> f v = k))"

lemma gnp_climb_ok:
  assumes s: "gnp_setting n parent po ps f" and j: "0 \<le> j" "j < n" "ps j = k" and fst: "first_inv n f k first"
  shows "ok (gnp_climb parent k (j, first)) (first_inv n f (k + 1))"
proof -
  let ?P = "elt parent"
  note D = gnp_settingD [OF s] and I = intervalsD [OF gnp_settingD(5) [OF s]]
  have len: "int (length first) = n" and fv: "\<And>v. 0 \<le> v \<Longrightarrow> v < n \<Longrightarrow> elt first v = (if f v < k then f v else -1)"
    using fst unfolding first_inv_def by blast+
  have fj: "f v \<le> k" if "0 \<le> v" "v < n" "below ?P v j" for v using I(1) [OF that(1,2) j(1,2)] that j by simp
  show ?thesis
    unfolding gnp_climb_def
  proof (rule loop_ok [where I = "climb_inv n ?P f k j first" and m = "\<lambda>(x, _). if x = -1 then 0 else nat (n - x)"])
    have "\<not> v < j" if "below ?P v j" for v using below_le [OF that] by simp
    then show "climb_inv n ?P f k j first (j, first)" using j len below_refl [of ?P j] by (auto simp: climb_inv_def)
  next
    fix st assume i: "climb_inv n ?P f k j first st"
    obtain x first' where st: "st = (x, first')" by (cases st)
    have x: "x = -1 \<or> 0 \<le> x \<and> x < n \<and> below ?P x j" and l: "int (length first') = n"
      and e: "\<And>v. 0 \<le> v \<Longrightarrow> v < n \<Longrightarrow> elt first' v = (if below ?P v j \<and> (x = -1 \<or> v < x) then k else elt first v)"
      and g: "\<And>v. 0 \<le> v \<Longrightarrow> v < n \<Longrightarrow> below ?P v j \<Longrightarrow> x = -1 \<or> v < x \<Longrightarrow> f v = k"
      using i unfolding st climb_inv_def by blast+
    have fin: "first_inv n f (k + 1) first'"
      if stop: "\<And>v. 0 \<le> v \<Longrightarrow> v < n \<Longrightarrow> below ?P v j \<Longrightarrow> \<not> (x = -1 \<or> v < x) \<Longrightarrow> f v < k"
      unfolding first_inv_def
    proof (intro conjI allI impI)
      fix v assume v: "0 \<le> v \<and> v < n"
      have "f v = k \<Longrightarrow> below ?P v j" using I(1) [of v j] I(2) [of v] I(3) [of k] I(4) [of j] v j
        by (metis order_refl)
      then show "elt first' v = (if f v < k + 1 then f v else -1)"
        using e [of v] g [of v] stop [of v] fv [of v] fj [of v] v by (cases "below ?P v j") auto
    qed (rule l)
    show "ok (case st of (j, first) \<Rightarrow> if j = -1 then Some (Inl first) else do {
       f \<leftarrow> vget first j;
       if f = -1 then do { first \<leftarrow> vset first j k; p \<leftarrow> vget parent j; Some (Inr (p, first)) } else Some (Inl first)
     }) (\<lambda>y. case y of Inl r \<Rightarrow> first_inv n f (k + 1) r | Inr s' \<Rightarrow> climb_inv n ?P f k j first s'
       \<and> (case s' of (x, _) \<Rightarrow> if x = -1 then 0 else nat (n - x)) < (case st of (x, _) \<Rightarrow> if x = -1 then 0 else nat (n - x)))"
    proof (cases "x = -1")
      case True
      then show ?thesis using fin by (simp add: st)
    next
      case False
      then have xr: "0 \<le> x" "x < n" "below ?P x j" using x by simp_all
      have ex: "elt first' x = elt first x" using e [of x] xr False by simp
      show ?thesis
      proof (cases "elt first x = -1")
        case False
        then have "f x < k" using fv [OF xr(1,2)] by (auto split: if_splits)
        then have "f v < k" if "0 \<le> v" "v < n" "below ?P v j" "\<not> v < x" for v
        proof -
          have "below ?P v x" using below_linear [OF that(3) xr(3)] below_le [of ?P x v] that(4) below_refl by (metis antisym_conv not_less)
          then show ?thesis using intervals_nested [OF D(5) that(1,2) xr(1,2)] \<open>f x < k\<close> by simp
        qed
        then have "first_inv n f (k + 1) first'" by (intro fin) auto
        then show ?thesis using xr l \<open>x \<noteq> -1\<close> False ex by (simp add: st vget_at)
      next
        case un: True
        have fx: "f x = k" using fv [OF xr(1,2)] fj [OF xr] I(2) [OF xr(1,2)] un by (auto split: if_splits)
        let ?f' = "first'[nat x := k]"
        have vx: "v = x \<or> v < x" if "0 \<le> v" "v < n" "below ?P v j" "?P x = -1 \<or> v < ?P x" for v
        proof (rule ccontr)
          assume a: "\<not> ?thesis"
          then have "x < v" by auto
          then have "below ?P v x" using below_linear [OF that(3) xr(3)] below_le [of ?P x v] by force
          then have "below ?P v (?P x)" "x < ?P x" using below_up [of ?P v x] \<open>x < v\<close> by auto
          then show False using below_le [of ?P v "?P x"] that(4) xr by auto
        qed
        have Px: "?P x = -1 \<or> x < ?P x \<and> ?P x < n" using D(4) xr unfolding ordered_forest_def by blast
        have new: "climb_inv n ?P f k j first (?P x, ?f')"
          unfolding climb_inv_def prod.case
        proof (intro conjI allI impI)
          have "below ?P (?P x) j" if "?P x \<noteq> -1"
          proof (rule below_trans [OF xr(3)])
            show "below ?P (?P x) x" using Px that xr by (intro below_child [OF below_refl]) auto
          qed
          then show "?P x = -1 \<or> 0 \<le> ?P x \<and> ?P x < n \<and> below ?P (?P x) j" using Px xr by auto
          show "int (length ?f') = n" using l by simp
        next
          fix v assume v: "0 \<le> v \<and> v < n"
          show "elt ?f' v = (if below ?P v j \<and> (?P x = -1 \<or> v < ?P x) then k else elt first v)"
          proof (cases "v = x")
            case True
            then show ?thesis using xr l Px by (auto simp: at_update)
          next
            case nx: False
            have "elt ?f' v = elt first' v" using xr l v nx by (simp add: at_update)
            also have "\<dots> = (if below ?P v j \<and> v < x then k else elt first v)" using e [of v] v False by simp
            also have "\<dots> = (if below ?P v j \<and> (?P x = -1 \<or> v < ?P x) then k else elt first v)"
              using vx [of v] v nx Px by auto
            finally show ?thesis .
          qed
        next
          fix v assume "0 \<le> v \<and> v < n \<and> below ?P v j \<and> (?P x = -1 \<or> v < ?P x)"
          then show "f v = k" using vx [of v] g [of v] fx by auto
        qed
        have "vget first' x = Some (-1)" using xr l ex un by (simp add: vget_at)
        moreover have "vset first' x k = Some ?f'" using xr l by (simp add: vset_def)
        moreover have "vget parent x = Some (?P x)" using xr D(2) by (simp add: vget_at)
        ultimately show ?thesis using new False Px xr by (auto simp: st)
      qed
    qed
  qed
qed

definition leaves_inv :: "int \<Rightarrow> (int \<Rightarrow> int) \<Rightarrow> (int \<Rightarrow> int) \<Rightarrow> int \<Rightarrow> int list \<times> int list \<Rightarrow> bool" where
  "leaves_inv n ps f k = (\<lambda>(first, delta). first_inv n f k first \<and> int (length delta) = n
     \<and> (\<forall>u. 0 \<le> u \<and> u < n \<and> ps u < k \<longrightarrow> elt delta u = (if f u = ps u then 1 else 0)))"

lemma gnp_leaves_ok:
  assumes s: "gnp_setting n parent po ps f" and delta: "int (length delta) = n"
  shows "ok (gnp_leaves n parent po (replicate (nat n) (-1), delta)) (leaves_inv n ps f n)"
proof -
  note D = gnp_settingD [OF s] and I = intervalsD [OF gnp_settingD(5) [OF s]]
  show ?thesis unfolding gnp_leaves_def
  proof (rule for_range_ok [where I = "leaves_inv n ps f"])
    have "elt (replicate (nat n) (-1)) v = (-1 :: int)" if "0 \<le> v" "v < n" for v using that by (simp add: elt_def nat_less_iff)
    moreover have "\<not> f v < 0" "\<not> ps v < 0" if "0 \<le> v" "v < n" for v using I(2) [OF that] by simp_all
    ultimately show "leaves_inv n ps f 0 (replicate (nat n) (-1), delta)" using D(1) delta by (auto simp: leaves_inv_def first_inv_def)
  next
    fix k st assume k: "0 \<le> k" "k < n" and i: "leaves_inv n ps f k st"
    obtain first del where st: "st = (first, del)" by (cases st)
    have fi: "first_inv n f k first" and l: "int (length del) = n"
      and e: "\<And>u. 0 \<le> u \<Longrightarrow> u < n \<Longrightarrow> ps u < k \<Longrightarrow> elt del u = (if f u = ps u then 1 else 0)"
      using i unfolding st leaves_inv_def by blast+
    let ?j = "elt po k"
    have j: "0 \<le> ?j" "?j < n" "ps ?j = k" using D(6) [OF k] by simp_all
    have ff: "int (length first) = n" "elt first ?j = (if f ?j < k then f ?j else -1)" using fi j by (simp_all add: first_inv_def)
    have lf: "elt first ?j = -1 \<longleftrightarrow> f ?j = ps ?j" using ff(2) I(2) [OF j(1,2)] j(3) by auto
    let ?d = "del[nat ?j := if elt first ?j = -1 then 1 else 0]"
    obtain first' where c: "gnp_climb parent k (?j, first) = Some first'" "first_inv n f (k + 1) first'"
      using ok_ex [OF gnp_climb_ok [OF s j fi]] by blast
    have "elt ?d u = (if f u = ps u then 1 else 0)" if u: "0 \<le> u" "u < n" "ps u < k + 1" for u
    proof (cases "u = ?j")
      case True
      then show ?thesis using j l lf by (simp add: at_update)
    next
      case False
      then have "ps u \<noteq> k" using I(4) [of ?j u] j u by auto
      then show ?thesis using e [of u] u False j l by (simp add: at_update)
    qed
    then have "leaves_inv n ps f (k + 1) (first', ?d)" using c(2) l by (simp add: leaves_inv_def)
    then show "ok (case st of (first, delta) \<Rightarrow> do {
       j \<leftarrow> vget po k;
       f \<leftarrow> vget first j;
       delta \<leftarrow> vset delta j (if f = -1 then 1 else 0);
       first \<leftarrow> gnp_climb parent k (j, first);
       Some (first, delta)
     }) (leaves_inv n ps f (k + 1))"
      using k j l D(3) ff(1) c(1) by (simp add: st vget_at vset_def)
  qed (use D(1) in \<open>simp add: max_def\<close>)
qed


section \<open>Least common ancestors by union-find\<close>

text \<open>Every pointer leads up, past finished nodes only; unfinished nodes point to themselves.\<close>

definition uf_inv :: "int \<Rightarrow> (int \<Rightarrow> int) \<Rightarrow> (int \<Rightarrow> int) \<Rightarrow> int \<Rightarrow> int list \<Rightarrow> bool" where
  "uf_inv n P ps k anc \<longleftrightarrow> int (length anc) = n \<and> (\<forall>v. 0 \<le> v \<and> v < n \<longrightarrow> 0 \<le> elt anc v \<and> elt anc v < n \<and> below P (elt anc v) v
     \<and> (\<forall>w. below P (elt anc v) w \<and> below P w v \<and> w \<noteq> elt anc v \<longrightarrow> ps w < k)
     \<and> (k \<le> ps v \<longrightarrow> elt anc v = v) \<and> (ps v < k \<and> elt anc v = v \<longrightarrow> P v = -1))"

lemma uf_invD:
  assumes "uf_inv n P ps k anc"
  shows "int (length anc) = n" "0 \<le> v \<Longrightarrow> v < n \<Longrightarrow> 0 \<le> elt anc v \<and> elt anc v < n \<and> below P (elt anc v) v"
    "0 \<le> v \<Longrightarrow> v < n \<Longrightarrow> below P (elt anc v) w \<Longrightarrow> below P w v \<Longrightarrow> w \<noteq> elt anc v \<Longrightarrow> ps w < k"
    "0 \<le> v \<Longrightarrow> v < n \<Longrightarrow> k \<le> ps v \<Longrightarrow> elt anc v = v"
    "0 \<le> v \<Longrightarrow> v < n \<Longrightarrow> ps v < k \<Longrightarrow> elt anc v = v \<Longrightarrow> P v = -1"
  using assms unfolding uf_inv_def by blast+

text \<open>\<open>q\<close> is the lowest unfinished ancestor of \<open>p\<close>.\<close>

definition lowest_open :: "int \<Rightarrow> (int \<Rightarrow> int) \<Rightarrow> (int \<Rightarrow> int) \<Rightarrow> int \<Rightarrow> int \<Rightarrow> int \<Rightarrow> bool" where
  "lowest_open n P ps k p q \<longleftrightarrow> 0 \<le> q \<and> q < n \<and> below P q p \<and> k \<le> ps q
     \<and> (\<forall>w. below P q w \<and> below P w p \<and> w \<noteq> q \<longrightarrow> ps w < k)"

lemma uf_find_ok:
  assumes s: "gnp_setting n parent po ps f" and u: "uf_inv n (elt parent) ps k anc"
    and p: "0 \<le> p" "p < n" and i: "0 \<le> i" "i < n" "below (elt parent) i p" "k \<le> ps i"
  shows "ok (uf_find anc p) (lowest_open n (elt parent) ps k p)"
proof -
  let ?P = "elt parent"
  note D = gnp_settingD [OF s] and I = intervalsD [OF gnp_settingD(5) [OF s]] and U = uf_invD [OF u]
  show ?thesis unfolding uf_find_def
  proof (rule loop_ok [where I = "\<lambda>q. 0 \<le> q \<and> q < n \<and> below ?P q p \<and> (\<forall>w. below ?P q w \<and> below ?P w p \<and> w \<noteq> q \<longrightarrow> ps w < k)"
      and m = "\<lambda>q. nat (n - q)"])
    have "w = p" if "below ?P p w" "below ?P w p" for w using below_le [OF that(1)] below_le [OF that(2)] by simp
    then show "0 \<le> p \<and> p < n \<and> below ?P p p \<and> (\<forall>w. below ?P p w \<and> below ?P w p \<and> w \<noteq> p \<longrightarrow> ps w < k)"
      using p below_refl by blast
  next
    fix q assume "0 \<le> q \<and> q < n \<and> below ?P q p \<and> (\<forall>w. below ?P q w \<and> below ?P w p \<and> w \<noteq> q \<longrightarrow> ps w < k)"
    then have q: "0 \<le> q" "q < n" "below ?P q p" and bt: "\<And>w. below ?P q w \<Longrightarrow> below ?P w p \<Longrightarrow> w \<noteq> q \<Longrightarrow> ps w < k" by blast+
    let ?a = "elt anc q"
    have a: "0 \<le> ?a" "?a < n" "below ?P ?a q" using U(2) [OF q(1,2)] by simp_all
    have g: "vget anc q = Some ?a" using q U(1) by (simp add: vget_at)
    show "ok (do { a \<leftarrow> vget anc q; Some (if q \<noteq> a then Inr a else Inl q) })
      (\<lambda>x. case x of Inl r \<Rightarrow> lowest_open n ?P ps k p r
        | Inr q' \<Rightarrow> (0 \<le> q' \<and> q' < n \<and> below ?P q' p \<and> (\<forall>w. below ?P q' w \<and> below ?P w p \<and> w \<noteq> q' \<longrightarrow> ps w < k)) \<and> nat (n - q') < nat (n - q))"
    proof (cases "q = ?a")
      case True
      have "k \<le> ps q"
      proof (rule ccontr)
        assume "\<not> k \<le> ps q"
        then have c: "ps q < k" "?P q = -1" using U(5) [OF q(1,2)] True by simp_all
        from below_linear [OF i(3) q(3)] show False
        proof
          assume "below ?P i q"
          then have "i = q" using below_up [of ?P i q] c(2) q(1) by auto
          then show False using c(1) i(4) by simp
        next
          assume "below ?P q i"
          then show False using I(1) [OF q(1,2) i(1,2)] c(1) i(4) by simp
        qed
      qed
      then have "lowest_open n ?P ps k p q" using q bt unfolding lowest_open_def by blast
      then show ?thesis using True g by simp
    next
      case False
      have lt: "q < ?a" using below_le [OF a(3)] False by simp
      have "ps w < k" if w: "below ?P ?a w" "below ?P w p" "w \<noteq> ?a" for w
      proof (cases "below ?P w q")
        case True
        then show ?thesis by (rule U(3) [OF q(1,2) w(1) _ w(3)])
      next
        case False
        then have "below ?P q w" "w \<noteq> q" using below_linear [OF w(2) q(3)] below_refl by auto
        then show ?thesis using bt w(2) by blast
      qed
      moreover have "below ?P ?a p" by (rule below_trans [OF q(3) a(3)])
      ultimately show ?thesis using False g a lt q by simp
    qed
  qed
qed

lemma uf_compress_ok:
  assumes s: "gnp_setting n parent po ps f" and u: "uf_inv n (elt parent) ps k anc"
    and p: "0 \<le> p" "p < n" and q: "lowest_open n (elt parent) ps k p q"
  shows "ok (uf_compress q (p, anc)) (uf_inv n (elt parent) ps k)"
proof -
  let ?P = "elt parent"
  note D = gnp_settingD [OF s] and I = intervalsD [OF gnp_settingD(5) [OF s]]
  have qq: "0 \<le> q" "q < n" "below ?P q p" "k \<le> ps q" and bt: "\<And>w. below ?P q w \<Longrightarrow> below ?P w p \<Longrightarrow> w \<noteq> q \<Longrightarrow> ps w < k"
    using q unfolding lowest_open_def by blast+
  show ?thesis unfolding uf_compress_def
  proof (rule loop_ok [where I = "\<lambda>(x, anc). uf_inv n ?P ps k anc \<and> 0 \<le> x \<and> x < n \<and> below ?P q x \<and> below ?P x p" and m = "\<lambda>(x, _). nat (n - x)"])
    show "case (p, anc) of (x, anc) \<Rightarrow> uf_inv n ?P ps k anc \<and> 0 \<le> x \<and> x < n \<and> below ?P q x \<and> below ?P x p"
      using u p qq below_refl by simp
  next
    fix st assume i: "case st of (x, anc) \<Rightarrow> uf_inv n ?P ps k anc \<and> 0 \<le> x \<and> x < n \<and> below ?P q x \<and> below ?P x p"
    obtain x an where st: "st = (x, an)" by (cases st)
    have x: "0 \<le> x" "x < n" "below ?P q x" "below ?P x p" and ui: "uf_inv n ?P ps k an" using i by (simp_all add: st)
    note U = uf_invD [OF ui]
    show "ok (case st of (s, ancestor) \<Rightarrow> if s \<noteq> q then do {
       sparent \<leftarrow> vget ancestor s;
       ancestor \<leftarrow> vset ancestor s q;
       Some (Inr (sparent, ancestor))
     } else Some (Inl ancestor)) (\<lambda>y. case y of Inl r \<Rightarrow> uf_inv n ?P ps k r
       | Inr s' \<Rightarrow> (case s' of (x, anc) \<Rightarrow> uf_inv n ?P ps k anc \<and> 0 \<le> x \<and> x < n \<and> below ?P q x \<and> below ?P x p)
         \<and> (case s' of (x, _) \<Rightarrow> nat (n - x)) < (case st of (x, _) \<Rightarrow> nat (n - x)))"
    proof (cases "x = q")
      case True
      then show ?thesis using ui by (simp add: st)
    next
      case False
      let ?a = "elt an x"
      have a: "0 \<le> ?a" "?a < n" "below ?P ?a x" using U(2) [OF x(1,2)] by simp_all
      have psx: "ps x < k" using bt [OF x(3,4) False] .
      have up: "?P x \<noteq> -1" using below_up [OF x(3)] False x(1) by auto
      then have ax: "x < ?a" using U(5) [OF x(1,2) psx] below_le [OF a(3)] by force
      have qa: "below ?P q ?a"
        using below_linear [OF x(3) a(3)] U(3) [OF x(1,2) _ x(3)] qq(4) below_refl by force
      have ap: "below ?P ?a p" by (rule below_trans [OF x(4) a(3)])
      have "uf_inv n ?P ps k (an[nat x := q])"
        unfolding uf_inv_def
      proof (intro conjI allI impI)
        show "int (length (an[nat x := q])) = n" using U(1) by simp
      next
        fix v assume v: "0 \<le> v \<and> v < n"
        have e: "elt (an[nat x := q]) v = (if v = x then q else elt an v)" using at_update [of v x an q] v x U(1) by simp
        show "0 \<le> elt (an[nat x := q]) v" "elt (an[nat x := q]) v < n" "below ?P (elt (an[nat x := q]) v) v"
          using e U(2) [of v] v qq x by auto
        show "ps w < k" if "below ?P (elt (an[nat x := q]) v) w \<and> below ?P w v \<and> w \<noteq> elt (an[nat x := q]) v" for w
          using that e U(3) [of v w] v bt [of w] below_trans [OF x(4), of w] by (cases "v = x") auto
        show "elt (an[nat x := q]) v = v" if "k \<le> ps v" using that e U(4) [of v] v psx by auto
        show "?P v = -1" if "ps v < k \<and> elt (an[nat x := q]) v = v" using that e U(5) [of v] v False by (cases "v = x") auto
      qed
      moreover have "vget an x = Some ?a" "vset an x q = Some (an[nat x := q])" using x U(1) by (simp_all add: vget_at vset_def)
      ultimately show ?thesis using False a qa ap ax x by (simp add: st)
    qed
  qed
qed

text \<open>For \<open>j\<close> the node being finished, the lowest unfinished ancestor of a finished \<open>p\<close> is the least common ancestor.\<close>

lemma lowest_open_lca:
  assumes s: "gnp_setting n parent po ps f" and p: "0 \<le> p" "p < n" "ps p < k" and j: "0 \<le> j" "j < n" "ps j = k"
    and q: "lowest_open n (elt parent) ps k p q" and v: "0 \<le> v" "v < n"
  shows "below (elt parent) v q \<longleftrightarrow> below (elt parent) v p \<and> below (elt parent) v j"
proof -
  let ?P = "elt parent"
  note D = gnp_settingD [OF s] and I = intervalsD [OF gnp_settingD(5) [OF s]]
  have qq: "0 \<le> q" "q < n" "below ?P q p" "k \<le> ps q" and bt: "\<And>w. below ?P q w \<Longrightarrow> below ?P w p \<Longrightarrow> w \<noteq> q \<Longrightarrow> ps w < k"
    using q unfolding lowest_open_def by blast+
  have qj: "below ?P q j" using I(1) [OF qq(1,2) p(1,2)] I(1) [OF qq(1,2) j(1,2)] qq p j by simp
  show ?thesis
  proof
    assume "below ?P v q"
    then show "below ?P v p \<and> below ?P v j" using below_trans qq(3) qj by blast
  next
    assume a: "below ?P v p \<and> below ?P v j"
    then have "k \<le> ps v" using I(1) [OF v j(1,2)] j by simp
    moreover have "below ?P v q \<or> below ?P q v" using below_linear a qq(3) by blast
    ultimately show "below ?P v q" using bt [of v] a below_refl [of ?P q] by force
  qed
qed


section \<open>One entry, one column\<close>

text \<open>\<open>C i\<close> are the columns of row \<open>i\<close> seen so far: \<open>maxfirst\<close> is their latest first descendant, \<open>prevleaf\<close> has it.\<close>

definition rows_inv :: "int \<Rightarrow> (int \<Rightarrow> int) \<Rightarrow> (int \<Rightarrow> int set) \<Rightarrow> int list \<Rightarrow> int list \<Rightarrow> bool" where
  "rows_inv n f C maxfirst prevleaf \<longleftrightarrow> int (length maxfirst) = n \<and> int (length prevleaf) = n
     \<and> (\<forall>i. 0 \<le> i \<and> i < n \<longrightarrow> (\<forall>u \<in> C i. f u \<le> elt maxfirst i)
         \<and> (if C i = {} then elt maxfirst i = -1 \<and> elt prevleaf i = -1
            else elt prevleaf i \<in> C i \<and> f (elt prevleaf i) = elt maxfirst i))"

definition touched :: "int \<Rightarrow> (int \<Rightarrow> int) \<Rightarrow> (int \<Rightarrow> int set) \<Rightarrow> int \<Rightarrow> int set" where
  "touched n P C v = {i. 0 \<le> i \<and> i < n \<and> (\<exists>u \<in> C i. below P v u)}"

text \<open>The counts after the columns in \<open>C\<close>, with \<open>base\<close> from the other terms.\<close>

definition delta_inv :: "int \<Rightarrow> (int \<Rightarrow> int) \<Rightarrow> (int \<Rightarrow> int) \<Rightarrow> (int \<Rightarrow> int set) \<Rightarrow> int list \<Rightarrow> bool" where
  "delta_inv n P base C delta \<longleftrightarrow> int (length delta) = n
     \<and> (\<forall>v. 0 \<le> v \<and> v < n \<longrightarrow> wsum P (elt delta) v = base v + int (card (touched n P C v)))"

lemma touched_insert:
  assumes "0 \<le> i" "i < n"
  shows "int (card (touched n P (C(i := insert j (C i))) v))
    = int (card (touched n P C v)) + (if below P v j \<and> \<not> (\<exists>u \<in> C i. below P v u) then 1 else 0)"
proof -
  have fin: "finite (touched n P C v)" by (rule finite_subset [of _ "{0..<n}"]) (auto simp: touched_def)
  have "touched n P (C(i := insert j (C i))) v = (if below P v j then insert i (touched n P C v) else touched n P C v)"
    using assms by (auto simp: touched_def split: if_splits)
  moreover have "i \<in> touched n P C v \<longleftrightarrow> (\<exists>u \<in> C i. below P v u)" using assms by (simp add: touched_def)
  ultimately show ?thesis using fin by (simp add: card_insert_if)
qed

lemma add_at_ok:
  assumes "int (length xs) = n" "0 \<le> j" "j < n"
  shows "add_at xs j d = Some (xs[nat j := elt xs j + d])"
  using assms by (simp add: add_at_def vget_at vset_def)

lemma wsum_add_at:
  assumes "ordered_forest P n" "int (length xs) = n" "0 \<le> j" "j < n" "0 \<le> v" "v < n"
  shows "wsum P (elt (xs[nat j := elt xs j + d])) v = wsum P (elt xs) v + (if below P v j then d else 0)"
proof -
  have "wsum P (elt (xs[nat j := elt xs j + d])) v = wsum P (\<lambda>u. elt xs u + (if u = j then d else 0)) v"
  proof (rule wsum_cong)
    fix u assume "below P v u"
    then have "0 \<le> u" "u < n" using below_range [OF assms(1,5,6)] by simp_all
    then show "elt (xs[nat j := elt xs j + d]) u = elt xs u + (if u = j then d else 0)" using assms at_update [of u j xs] by auto
  qed
  then show ?thesis unfolding wsum_add .
qed

lemma gnp_entry_ok:
  assumes s: "gnp_setting n parent po ps f" and fi: "first_inv n f n first"
    and j: "0 \<le> j" "j < n" "ps j = k" and i: "0 \<le> i" "i < n" "below (elt parent) i j"
    and C: "\<And>u. u \<in> C i \<Longrightarrow> 0 \<le> u \<and> u < n \<and> below (elt parent) i u \<and> (ps u < k \<or> u = j)"
    and R: "rows_inv n f C maxfirst prevleaf" and U: "uf_inv n (elt parent) ps k anc"
    and W: "delta_inv n (elt parent) base C delta"
  shows "ok (gnp_entry first j i (maxfirst, prevleaf, anc, delta)) (\<lambda>(maxfirst, prevleaf, anc, delta).
    rows_inv n f (C(i := insert j (C i))) maxfirst prevleaf \<and> uf_inv n (elt parent) ps k anc
    \<and> delta_inv n (elt parent) base (C(i := insert j (C i))) delta)"
proof -
  let ?P = "elt parent" and ?C = "C(i := insert j (C i))"
  note D = gnp_settingD [OF s] and I = intervalsD [OF gnp_settingD(5) [OF s]]
  have fj: "vget first j = Some (f j)" using fi j I(2) [OF j(1,2)] by (simp add: first_inv_def vget_at)
  have lr: "int (length maxfirst) = n" "int (length prevleaf) = n" using R by (simp_all add: rows_inv_def)
  have mi: "vget maxfirst i = Some (elt maxfirst i)" using lr i by (simp add: vget_at)
  have Ri: "\<And>u. u \<in> C i \<Longrightarrow> f u \<le> elt maxfirst i" "C i = {} \<Longrightarrow> elt maxfirst i = -1 \<and> elt prevleaf i = -1"
    "C i \<noteq> {} \<Longrightarrow> elt prevleaf i \<in> C i \<and> f (elt prevleaf i) = elt maxfirst i"
    using R i unfolding rows_inv_def by (auto split: if_splits)
  have ld: "int (length delta) = n" and Wv: "\<And>v. 0 \<le> v \<Longrightarrow> v < n \<Longrightarrow> wsum ?P (elt delta) v = base v + int (card (touched n ?P C v))"
    using W by (simp_all add: delta_inv_def)
  show ?thesis
  proof (cases "f j \<le> elt maxfirst i")
    case True
    have ne: "C i \<noteq> {}" using True Ri(2) I(2) [OF j(1,2)] by force
    let ?p = "elt prevleaf i"
    have p: "?p \<in> C i" "f ?p = elt maxfirst i" using Ri(3) ne by simp_all
    have pr: "0 \<le> ?p" "?p < n" using C [OF p(1)] by simp_all
    have "below ?P j ?p" using I(1) [OF j(1,2) pr] I(2) [OF pr] C [OF p(1)] p(2) True j(3) by auto
    then have "below ?P v ?p" if "below ?P v j" for v using below_trans that by blast
    then have t: "card (touched n ?P ?C v) = card (touched n ?P C v)" for v
      using touched_insert [OF i(1,2), of ?P C j v] p(1) by (auto split: if_splits)
    have "rows_inv n f ?C maxfirst prevleaf" using R True ne unfolding rows_inv_def by auto
    moreover have "delta_inv n ?P base ?C delta" using W by (simp add: delta_inv_def t)
    ultimately show ?thesis using True U by (simp add: gnp_entry_def fj mi)
  next
    case leaf: False
    let ?mf = "maxfirst[nat i := f j]" and ?pl = "prevleaf[nat i := j]" and ?d = "delta[nat j := elt delta j + 1]"
    let ?p = "elt prevleaf i"
    have R': "rows_inv n f ?C ?mf ?pl"
      unfolding rows_inv_def
    proof (intro conjI allI impI)
      show "int (length ?mf) = n" "int (length ?pl) = n" using lr by simp_all
    next
      fix r assume r: "0 \<le> r \<and> r < n"
      have e: "elt ?mf r = (if r = i then f j else elt maxfirst r)" "elt ?pl r = (if r = i then j else elt prevleaf r)"
        using at_update [of r i maxfirst "f j"] at_update [of r i prevleaf j] r i lr by simp_all
      show "\<forall>u \<in> ?C r. f u \<le> elt ?mf r" using e Ri(1) leaf R r unfolding rows_inv_def by fastforce
      show "if ?C r = {} then elt ?mf r = -1 \<and> elt ?pl r = -1 else elt ?pl r \<in> ?C r \<and> f (elt ?pl r) = elt ?mf r"
        using e R r unfolding rows_inv_def by auto
    qed
    have sets: "vset maxfirst i (f j) = Some ?mf" "vget prevleaf i = Some ?p" "vset prevleaf i j = Some ?pl"
      using i lr by (simp_all add: vset_def vget_at)
    have d1: "add_at delta j 1 = Some ?d" by (rule add_at_ok [OF ld j(1,2)])
    have ld': "int (length ?d) = n" using ld by simp
    have w1: "wsum ?P (elt ?d) v = wsum ?P (elt delta) v + (if below ?P v j then 1 else 0)" if "0 \<le> v" "v < n" for v
      by (rule wsum_add_at [OF D(4) ld j(1,2) that])
    show ?thesis
    proof (cases "C i = {}")
      case True
      have "delta_inv n ?P base ?C ?d"
        using touched_insert [OF i(1,2), of ?P C j] w1 Wv ld' True by (simp add: delta_inv_def)
      then show ?thesis using leaf sets d1 R' U Ri(2) [OF True] by (simp add: gnp_entry_def fj mi)
    next
      case False
      then have p: "?p \<in> C i" "f ?p = elt maxfirst i" using Ri(3) by simp_all
      have pj: "?p \<noteq> j" using p(2) leaf by auto
      have pr: "0 \<le> ?p" "?p < n" "ps ?p < k" "below ?P i ?p" using C [OF p(1)] pj by auto
      have psi: "k \<le> ps i" using I(1) [OF i(1,2) j(1,2)] i(3) j(3) by simp
      obtain q where q: "uf_find anc ?p = Some q" "lowest_open n ?P ps k ?p q"
        using ok_ex [OF uf_find_ok [OF s U pr(1,2) i(1,2) pr(4) psi]] by blast
      obtain anc' where a: "uf_compress q (?p, anc) = Some anc'" "uf_inv n ?P ps k anc'"
        using ok_ex [OF uf_compress_ok [OF s U pr(1,2) q(2)]] by blast
      have qr: "0 \<le> q" "q < n" using q(2) by (simp_all add: lowest_open_def)
      let ?e = "?d[nat q := elt ?d q + (-1)]"
      have d2: "add_at ?d q (-1) = Some ?e" by (rule add_at_ok [OF ld' qr])
      have "wsum ?P (elt ?e) v = base v + int (card (touched n ?P ?C v))" if v: "0 \<le> v" "v < n" for v
      proof -
        have w2: "wsum ?P (elt ?e) v = wsum ?P (elt ?d) v + (if below ?P v q then -1 else 0)"
          by (rule wsum_add_at [OF D(4) ld' qr v])
        have "below ?P v ?p" if u: "u \<in> C i" "below ?P v u" "below ?P v j" for u
        proof -
          have "0 \<le> u" "u < n" using C [OF u(1)] by simp_all
          then have "f v \<le> f ?p" using intervals_nested [OF D(5) v _ _ u(2)] Ri(1) [OF u(1)] p(2) by simp
          moreover have "k \<le> ps v" using I(1) [OF v j(1,2)] u(3) j(3) by simp
          ultimately show ?thesis using I(1) [OF v pr(1,2)] I(2) [OF pr(1,2)] pr(3) by simp
        qed
        then have "(\<exists>u \<in> C i. below ?P v u) \<and> below ?P v j \<longleftrightarrow> below ?P v ?p \<and> below ?P v j" using p(1) by blast
        then show ?thesis
          using w2 w1 [OF v] Wv [OF v] touched_insert [OF i(1,2), of ?P C j v] lowest_open_lca [OF s pr(1-3) j q(2) v] by auto
      qed
      then have "delta_inv n ?P base ?C ?e" using ld' by (simp add: delta_inv_def)
      then show ?thesis using leaf sets d1 d2 R' a q(1) pr(1) by (simp add: gnp_entry_def fj mi)
    qed
  qed
qed


text \<open>The columns of row \<open>i\<close> among the first \<open>k\<close> nodes, and the two other terms of the counts: the leaves below
  \<open>v\<close> less the nodes whose parent is below \<open>v\<close>.\<close>

definition cols_before :: "int \<Rightarrow> (int \<Rightarrow> int) \<Rightarrow> (int \<Rightarrow> int list) \<Rightarrow> int \<Rightarrow> int \<Rightarrow> int set" where
  "cols_before n ps rb k i = {u. 0 \<le> u \<and> u < n \<and> ps u < k \<and> i \<in> set (rb u)}"

definition linked_before :: "int \<Rightarrow> (int \<Rightarrow> int) \<Rightarrow> (int \<Rightarrow> int) \<Rightarrow> int \<Rightarrow> int \<Rightarrow> int set" where
  "linked_before n P ps k v = {u. 0 \<le> u \<and> u < n \<and> ps u < k \<and> P u \<noteq> -1 \<and> below P v (P u)}"

definition base_count :: "int \<Rightarrow> (int \<Rightarrow> int) \<Rightarrow> (int \<Rightarrow> int) \<Rightarrow> (int \<Rightarrow> int) \<Rightarrow> int \<Rightarrow> int \<Rightarrow> int" where
  "base_count n P ps f k v = int (card {u. below P v u \<and> f u = ps u}) - int (card (linked_before n P ps k v))"

lemma next_position:
  assumes "intervals P n ps f" "0 \<le> j" "j < n" "ps j = k"
  shows "0 \<le> u \<and> u < n \<and> ps u < k + 1 \<longleftrightarrow> 0 \<le> u \<and> u < n \<and> ps u < k \<or> u = j"
proof -
  have "ps u < k + 1 \<longleftrightarrow> ps u < k \<or> ps u = k" by arith
  moreover have "u = j" if "0 \<le> u" "u < n" "ps u = k" using intervalsD(4) [OF assms(1), of j u] that assms by simp
  ultimately show ?thesis using assms by blast
qed

lemma linked_step:
  assumes i: "intervals P n ps f" and j: "0 \<le> j" "j < n" "ps j = k"
  shows "base_count n P ps f (k + 1) v = base_count n P ps f k v - (if P j \<noteq> -1 \<and> below P v (P j) then 1 else 0)"
proof -
  have fin: "finite (linked_before n P ps k v)" by (rule finite_subset [of _ "{0..<n}"]) (auto simp: linked_before_def)
  have e: "0 \<le> u \<and> u < n \<and> ps u < k + 1 \<longleftrightarrow> 0 \<le> u \<and> u < n \<and> ps u < k \<or> u = j" for u
    by (rule next_position [OF i j])
  have "linked_before n P ps (k + 1) v
      = (if P j \<noteq> -1 \<and> below P v (P j) then insert j (linked_before n P ps k v) else linked_before n P ps k v)"
    unfolding linked_before_def conj_assoc [symmetric] e [unfolded conj_assoc [symmetric]] by auto
  moreover have "j \<notin> linked_before n P ps k v" using j by (simp add: linked_before_def)
  ultimately show ?thesis using fin by (simp add: base_count_def)
qed

lemma cols_step:
  assumes i: "intervals P n ps f" and j: "0 \<le> j" "j < n" "ps j = k"
  shows "cols_before n ps rb (k + 1) = (\<lambda>i. cols_before n ps rb k i \<union> (if i \<in> set (rb j) then {j} else {}))"
proof
  fix r
  have e: "0 \<le> u \<and> u < n \<and> ps u < k + 1 \<longleftrightarrow> 0 \<le> u \<and> u < n \<and> ps u < k \<or> u = j" for u
    by (rule next_position [OF i j])
  show "cols_before n ps rb (k + 1) r = cols_before n ps rb k r \<union> (if r \<in> set (rb j) then {j} else {})"
    unfolding cols_before_def conj_assoc [symmetric] e [unfolded conj_assoc [symmetric]] by auto
qed

definition rows_given :: "int \<Rightarrow> (int \<Rightarrow> int) \<Rightarrow> (int \<Rightarrow> int list option) \<Rightarrow> (int \<Rightarrow> int list) \<Rightarrow> bool" where
  "rows_given n P rows_below rb \<longleftrightarrow> (\<forall>j. 0 \<le> j \<and> j < n \<longrightarrow> rows_below j = Some (rb j)
     \<and> (\<forall>i \<in> set (rb j). 0 \<le> i \<and> i < n \<and> below P i j))"

definition gnp_inv :: "int \<Rightarrow> (int \<Rightarrow> int) \<Rightarrow> (int \<Rightarrow> int) \<Rightarrow> (int \<Rightarrow> int) \<Rightarrow> (int \<Rightarrow> int list) \<Rightarrow> int
    \<Rightarrow> int list \<times> int list \<times> int list \<times> int list \<Rightarrow> bool" where
  "gnp_inv n P ps f rb k = (\<lambda>(maxfirst, prevleaf, anc, delta). rows_inv n f (cols_before n ps rb k) maxfirst prevleaf
     \<and> uf_inv n P ps k anc \<and> delta_inv n P (base_count n P ps f k) (cols_before n ps rb k) delta)"

lemma gnp_column_ok:
  assumes s: "gnp_setting n parent po ps f" and fi: "first_inv n f n first"
    and rb: "rows_given n (elt parent) rows_below rb" and k: "0 \<le> k" "k < n"
    and inv: "gnp_inv n (elt parent) ps f rb k st"
  shows "ok (gnp_column parent po first rows_below k st) (gnp_inv n (elt parent) ps f rb (k + 1))"
proof -
  let ?P = "elt parent" let ?j = "elt po k"
  note D = gnp_settingD [OF s] and I = intervalsD [OF gnp_settingD(5) [OF s]]
  have j: "0 \<le> ?j" "?j < n" "ps ?j = k" using D(6) [OF k] by simp_all
  obtain maxfirst prevleaf anc delta where st: "st = (maxfirst, prevleaf, anc, delta)" by (cases st) auto
  let ?C = "cols_before n ps rb k" and ?b = "base_count n ?P ps f"
  have R: "rows_inv n f ?C maxfirst prevleaf" and U: "uf_inv n ?P ps k anc" and W: "delta_inv n ?P (?b k) ?C delta"
    using inv unfolding st gnp_inv_def by blast+
  have ld: "int (length delta) = n" using W by (simp add: delta_inv_def)
  have rj: "rows_below ?j = Some (rb ?j)" and rr: "\<And>i. i \<in> set (rb ?j) \<Longrightarrow> 0 \<le> i \<and> i < n \<and> below ?P i ?j"
    using rb j unfolding rows_given_def by blast+
  have Pj: "?P ?j = -1 \<or> 0 \<le> ?P ?j \<and> ?P ?j < n \<and> ?j < ?P ?j" using D(4) j unfolding ordered_forest_def by force
  let ?dl = "if ?P ?j \<noteq> -1 then delta[nat (?P ?j) := elt delta (?P ?j) + (-1)] else delta"
  have d1: "(if ?P ?j \<noteq> -1 then add_at delta (?P ?j) (-1) else Some delta) = Some ?dl"
    using Pj add_at_ok [OF ld, of "?P ?j"] by auto
  have W1: "delta_inv n ?P (?b (k + 1)) ?C ?dl"
  proof -
    have "wsum ?P (elt ?dl) v = ?b (k + 1) v + int (card (touched n ?P ?C v))" if v: "0 \<le> v" "v < n" for v
      using W v wsum_add_at [OF D(4) ld, of "?P ?j" v "-1"] Pj linked_step [OF D(5) j, of v]
      by (auto simp: delta_inv_def)
    then show ?thesis using ld by (simp add: delta_inv_def)
  qed
  let ?Cp = "\<lambda>pre i. ?C i \<union> (if i \<in> set pre then {?j} else {})"
  let ?J = "\<lambda>pre (maxfirst, prevleaf, anc, delta). rows_inv n f (?Cp pre) maxfirst prevleaf \<and> uf_inv n ?P ps k anc
      \<and> delta_inv n ?P (?b (k + 1)) (?Cp pre) delta"
  have "ok (forM (rb ?j) (gnp_entry first ?j) (maxfirst, prevleaf, anc, ?dl)) (?J (rb ?j))"
  proof (rule forM_ok [where I = "\<lambda>pre suf. ?J pre"])
    show "?J [] (maxfirst, prevleaf, anc, ?dl)" using R U W1 by simp
  next
    fix pre i suf x assume xs: "rb ?j = pre @ i # suf" and J: "?J pre x"
    obtain mf pl an de where x: "x = (mf, pl, an, de)" by (cases x) auto
    have i: "0 \<le> i" "i < n" "below ?P i ?j" using rr [of i] xs by auto
    have Cin: "0 \<le> u \<and> u < n \<and> below ?P i u \<and> (ps u < k \<or> u = ?j)" if "u \<in> ?Cp pre i" for u
    proof (cases "u = ?j")
      case True
      then show ?thesis using i j by simp
    next
      case False
      then have "u \<in> ?C i" using that by (auto split: if_splits)
      then have u: "0 \<le> u" "u < n" "ps u < k" "i \<in> set (rb u)" by (simp_all add: cols_before_def)
      then show ?thesis using rb unfolding rows_given_def by blast
    qed
    have e: "(?Cp pre)(i := insert ?j (?Cp pre i)) = ?Cp (pre @ [i])" by (auto simp: fun_eq_iff)
    have J': "rows_inv n f (?Cp pre) mf pl" "uf_inv n ?P ps k an" "delta_inv n ?P (?b (k + 1)) (?Cp pre) de"
      using J unfolding x prod.case by blast+
    have "ok (gnp_entry first ?j i (mf, pl, an, de)) (?J (pre @ [i]))"
      using gnp_entry_ok [OF s fi j i Cin J'] unfolding e .
    then show "ok (gnp_entry first ?j i x) (?J (pre @ [i]))" unfolding x .
  qed
  then obtain mf pl an de where F: "forM (rb ?j) (gnp_entry first ?j) (maxfirst, prevleaf, anc, ?dl) = Some (mf, pl, an, de)"
    and J: "?J (rb ?j) (mf, pl, an, de)" by (auto simp: ok_def)
  have c: "?Cp (rb ?j) = cols_before n ps rb (k + 1)" using cols_step [OF D(5) j] by simp
  have J': "rows_inv n f (cols_before n ps rb (k + 1)) mf pl" "uf_inv n ?P ps k an"
    "delta_inv n ?P (?b (k + 1)) (cols_before n ps rb (k + 1)) de"
    using J unfolding c prod.case by blast+
  let ?an = "if ?P ?j \<noteq> -1 then an[nat ?j := ?P ?j] else an"
  note A = uf_invD [OF J'(2)]
  have e: "elt ?an v = (if v = ?j \<and> ?P ?j \<noteq> -1 then ?P ?j else elt an v)" if "0 \<le> v" for v
    using at_update [of v ?j an] j that A(1) by auto
  have pj: "below ?P (?P ?j) ?j" if "?P ?j \<noteq> -1" using below_child [OF below_refl, of ?j ?P] Pj that j by auto
  have "uf_inv n ?P ps (k + 1) ?an"
    unfolding uf_inv_def
  proof (intro conjI allI impI)
    show "int (length ?an) = n" using A(1) by simp
  next
    fix v assume v: "0 \<le> v \<and> v < n"
    show "0 \<le> elt ?an v" "elt ?an v < n" "below ?P (elt ?an v) v" using e A(2) [of v] v Pj pj by auto
    show "ps w < k + 1" if w: "below ?P (elt ?an v) w \<and> below ?P w v \<and> w \<noteq> elt ?an v" for w
    proof (cases "v = ?j \<and> ?P ?j \<noteq> -1")
      case True
      then have "w = ?j" using w e [of v] v below_up [of ?P w ?j] below_le [of ?P "?P ?j" w] below_le [of ?P w "?P ?j"] by force
      then show ?thesis using j by simp
    next
      case False
      then have "elt ?an v = elt an v" using e [of v] v by auto
      then show ?thesis using A(3) [of v w] w v by simp
    qed
    show "elt ?an v = v" if "k + 1 \<le> ps v" using that e A(4) [of v] v j by auto
    show "?P v = -1" if a: "ps v < k + 1 \<and> elt ?an v = v"
    proof (cases "v = ?j")
      case True
      then show ?thesis using a e [of v] Pj v by (auto split: if_splits)
    next
      case False
      then have "ps v \<noteq> k" using I(4) [of ?j v] j v by auto
      then show ?thesis using a e [of v] A(5) [of v] v False by simp
    qed
  qed
  moreover have "(if ?P ?j \<noteq> -1 then vset an ?j (?P ?j) else Some an) = Some ?an" using j A(1) by (simp add: vset_def)
  moreover have "vget po k = Some ?j" "vget parent ?j = Some (?P ?j)" using k j D(2,3) by (simp_all add: vget_at)
  ultimately show ?thesis using d1 rj F J'(1,3)
    by (simp add: gnp_column_def st gnp_inv_def)
qed


section \<open>The counts\<close>

lemma gnp_accumulate_ok:
  assumes n: "0 \<le> n" and l: "int (length parent) = n" and f: "ordered_forest (elt parent) n" and d: "int (length delta) = n"
  shows "ok (for_range 0 n (\<lambda>j delta. do {
       p \<leftarrow> vget parent j;
       if p \<noteq> -1 then do { d \<leftarrow> vget delta j; add_at delta p d } else Some delta
     }) delta) (\<lambda>r. int (length r) = n \<and> (\<forall>v. 0 \<le> v \<and> v < n \<longrightarrow> elt r v = wsum (elt parent) (elt delta) v))"
proof (rule for_range_ok [where I = "acc_inv n (elt parent) (elt delta)"])
  have "(\<Sum>c | (0 \<le> c \<and> c < v \<and> elt parent c = v) \<and> c < 0. wsum (elt parent) (elt delta) c) = 0" for v
    by (rule sum.neutral) auto
  then show "acc_inv n (elt parent) (elt delta) 0 delta" using d unfolding acc_inv_def by simp
next
  fix j cur assume j: "0 \<le> j" "j < n" and i: "acc_inv n (elt parent) (elt delta) j cur"
  have P: "elt parent j = -1 \<or> j < elt parent j \<and> elt parent j < n" using f j unfolding ordered_forest_def by blast
  have lc: "int (length cur) = n" using i by (simp add: acc_inv_def)
  have g: "vget parent j = Some (elt parent j)" "vget cur j = Some (elt cur j)" using j l lc by (simp_all add: vget_at)
  show "ok (do {
       p \<leftarrow> vget parent j;
       if p \<noteq> -1 then do { d \<leftarrow> vget cur j; add_at cur p d } else Some cur
     }) (acc_inv n (elt parent) (elt delta) (j + 1))"
    using acc_step(2,3) [OF P j i] P j g add_at_ok [OF lc, of "elt parent j"] by (cases "elt parent j = -1") simp_all
next
  fix cur assume i: "acc_inv n (elt parent) (elt delta) (max 0 n) cur"
  have m: "max 0 n = n" using n by simp
  show "int (length cur) = n \<and> (\<forall>v. 0 \<le> v \<and> v < n \<longrightarrow> elt cur v = wsum (elt parent) (elt delta) v)"
  proof (intro conjI allI impI)
    show "int (length cur) = n" using i by (simp add: acc_inv_def)
    fix v assume v: "0 \<le> v \<and> v < n"
    have s: "{c :: int. (0 \<le> c \<and> c < v \<and> elt parent c = v) \<and> c < n} = {c. 0 \<le> c \<and> c < v \<and> elt parent c = v}"
      using v by auto
    have "elt cur v = (\<Sum>c | (0 \<le> c \<and> c < v \<and> elt parent c = v) \<and> c < n. wsum (elt parent) (elt delta) c) + elt delta v"
      using i v unfolding m acc_inv_def by blast
    then show "elt cur v = wsum (elt parent) (elt delta) v" unfolding s wsum_children [of "elt parent" "elt delta" v] .
  qed
qed

text \<open>Row \<open>i\<close> of the factor has an entry in column \<open>v\<close> exactly when row \<open>i\<close> of the matrix has one below \<open>v\<close>.\<close>

lemma rows_okD: "rows_ok nb n \<Longrightarrow> 0 \<le> i \<Longrightarrow> i < n \<Longrightarrow> u \<in> set (nb i) \<Longrightarrow> 0 \<le> u \<and> u < i"
  unfolding rows_ok_def by blast

lemma fills_row:
  assumes f: "forest nb n P" and r: "rows_ok nb n" and v: "0 \<le> v" and i: "v < i" "i < n"
  shows "fills nb i v \<longleftrightarrow> (\<exists>u \<in> set (nb i). above P u v)"
proof
  assume "fills nb i v"
  then obtain u where u: "reach nb v v u" "edge nb u i" by (auto simp: fills_def)
  have "0 \<le> u" "u \<le> v" using reach_bounds [OF u(1)] by simp_all
  then have "u \<in> set (nb i)" using u(2) i by (auto simp: edge_def)
  moreover have "above P u v" using reach_above [OF f reach_sym [OF u(1)]] i by simp
  ultimately show "\<exists>u \<in> set (nb i). above P u v" by blast
next
  assume "\<exists>u \<in> set (nb i). above P u v"
  then obtain u where u: "u \<in> set (nb i)" "above P u v" by blast
  have b: "0 \<le> u" "u < i" using rows_okD [OF r _ i(2) u(1)] v i by simp_all
  then have "reach nb v v u" using reach_sym forest_above(3) [OF f u(2)] by blast
  moreover have "edge nb u i" using b u(1) by (simp add: edge_def)
  ultimately show "fills nb i v" using i by (auto simp: fills_def)
qed

lemma above_below:
  assumes fo: "ordered_forest P n" and u: "0 \<le> u" "u < n" and v: "0 \<le> v"
  shows "above P u v \<longleftrightarrow> below P v u"
proof
  assume "above P u v"
  then show "below P v u" using u
  proof (induction rule: converse_rtranclp_induct)
    case base
    show ?case by (rule below_refl)
  next
    case (step x y)
    then have "P x = y" "x < P x" "P x < n" using fo by (auto simp: stepP_def ordered_forest_def)
    then show ?case using step by (auto intro: below_child)
  qed
next
  assume "below P v u"
  then show "above P u v" using v
  proof (induction rule: below.induct)
    case (below_child v u)
    then have "stepP P u (P u)" by (auto simp: stepP_def)
    then show ?case using below_child by (meson converse_rtranclp_into_rtranclp)
  qed simp
qed

text \<open>The number of rows below the diagonal of column \<open>v\<close> of the factor.\<close>

definition fill_rows :: "(int \<Rightarrow> int list) \<Rightarrow> int \<Rightarrow> int \<Rightarrow> int set" where
  "fill_rows nb n v = {i. i < n \<and> fills nb i v}"

lemma gnp_count:
  assumes i: "intervals P n ps f" and fo: "forest nb n P" and ord: "ordered_forest P n" and r: "rows_ok nb n"
    and rb: "\<And>u i. 0 \<le> u \<Longrightarrow> u < n \<Longrightarrow> i \<in> set (rb u) \<longleftrightarrow> 0 \<le> i \<and> i < n \<and> u \<in> set (nb i)" and v: "0 \<le> v" "v < n"
  shows "base_count n P ps f n v + int (card (touched n P (cols_before n ps rb n) v)) = 1 + int (card (fill_rows nb n v))"
proof -
  note I = intervalsD [OF i]
  let ?S = "{u. below P v u}" let ?L = "{u. below P v u \<and> f u = ps u}"
  have range: "0 \<le> u \<and> u < n" if "below P v u" for u using below_range [OF ord v that] .
  have finS: "finite ?S" by (rule finite_below)
  have "linked_before n P ps n v = ?S - {v}"
  proof (intro set_eqI iffI)
    fix u assume "u \<in> linked_before n P ps n v"
    then have u: "0 \<le> u" "u < n" "P u \<noteq> -1" "below P v (P u)" by (simp_all add: linked_before_def)
    then have "u < P u" using ord by (auto simp: ordered_forest_def)
    then show "u \<in> ?S - {v}" using u below_child [of P v u] below_le [OF u(4)] by auto
  next
    fix u assume "u \<in> ?S - {v}"
    then have u: "below P v u" "v \<noteq> u" by auto
    then show "u \<in> linked_before n P ps n v" using below_up [OF u] range [OF u(1)] I(2) [of u] by (simp add: linked_before_def)
  qed
  then have B: "int (card (linked_before n P ps n v)) = int (card ?S) - 1"
    using finS below_refl [of P v] card_Suc_Diff1 [OF finS, of v] by simp
  have touch: "i \<in> touched n P (cols_before n ps rb n) v \<longleftrightarrow> 0 \<le> i \<and> i < n \<and> (\<exists>u \<in> set (nb i). below P v u)" for i
  proof -
    have "(\<exists>u \<in> cols_before n ps rb n i. below P v u) \<longleftrightarrow> (\<exists>u \<in> set (nb i). below P v u)" if "0 \<le> i" "i < n"
    proof -
      have "u \<in> cols_before n ps rb n i \<longleftrightarrow> u \<in> set (nb i)" if u: "below P v u" for u
        using rb [of u i] range [OF u] I(2) [of u] \<open>0 \<le> i\<close> \<open>i < n\<close> by (simp add: cols_before_def)
      then show ?thesis by blast
    qed
    then show ?thesis unfolding touched_def by blast
  qed
  have low: "below P i u" if "u \<in> set (nb i)" "0 \<le> i" "i < n" for u i
  proof -
    have u: "0 \<le> u" "u < i" using rows_okD [OF r that(2,3,1)] by simp_all
    then have "fills nb i u" using fills_row [OF fo r u(1) u(2) that(3)] that(1) by blast
    then have "above P u i" using reach_above [OF fo fills_reach] that(3) by blast
    then show ?thesis using above_below [OF ord] u that by simp
  qed
  have fillS: "fills nb i v \<longleftrightarrow> (\<exists>u \<in> set (nb i). below P v u)" if "v < i" "i < n" for i
  proof -
    have "above P u v \<longleftrightarrow> below P v u" if u: "u \<in> set (nb i)" for u
      by (rule above_below [OF ord _ _ v(1)]) (use rows_okD [OF r _ \<open>i < n\<close> u] \<open>v < i\<close> \<open>i < n\<close> v(1) in simp_all)
    then show ?thesis using fills_row [OF fo r v(1) that] by blast
  qed
  have inner: "(\<exists>u \<in> set (nb i). below P v u) \<longleftrightarrow> f i \<noteq> ps i" if iS: "below P v i" for i
  proof
    note ir = range [OF iS]
    assume "\<exists>u \<in> set (nb i). below P v u"
    then obtain u where u: "u \<in> set (nb i)" by blast
    then have l: "below P i u" "u \<noteq> i" "0 \<le> u" "u < n" using low [OF u] ir rows_okD [OF r _ _ u] by auto
    then have "ps u \<noteq> ps i" using I(4) [of i u] ir by auto
    then show "f i \<noteq> ps i" using I(1) [of i u] l ir by auto
  next
    note ir = range [OF iS]
    assume a: "f i \<noteq> ps i"
    then have fi: "0 \<le> f i" "f i < ps i" "ps i < n" using I(2) [of i] ir by auto
    then obtain w where w: "0 \<le> w" "w < n" "ps w = f i" using I(3) [of "f i"] by auto
    then have bw: "below P i w" "i \<noteq> w" using I(1) [of i w] ir fi by auto
    have "\<exists>c. 0 \<le> c \<and> c < i \<and> P c = i"
      using bw
    proof (induction rule: below.induct)
      case (below_child v u)
      then show ?case by (cases "v = P u") auto
    qed simp
    then obtain c where c: "0 \<le> c" "c < i" "P c = i" by blast
    then have "fills nb i c" using fo ir by (auto simp: forest_def min_fill_def dest!: spec [of _ c])
    then obtain u where u: "u \<in> set (nb i)" "above P u c" using fills_row [OF fo r c(1,2)] ir by blast
    have "0 \<le> u" "u < n" using rows_okD [OF r _ _ u(1)] ir by auto
    then have "below P c u" using above_below [OF ord] u(2) c(1) by simp
    moreover have "below P v c" using below_child [of P v c] iS c by simp
    ultimately show "\<exists>u \<in> set (nb i). below P v u" using u(1) below_trans by blast
  qed
  have split: "touched n P (cols_before n ps rb n) v = fill_rows nb n v \<union> (?S - ?L)"
  proof (intro set_eqI iffI)
    fix i assume "i \<in> touched n P (cols_before n ps rb n) v"
    then obtain u where u: "0 \<le> i" "i < n" "u \<in> set (nb i)" "below P v u" using touch by blast
    then have "below P v i \<or> below P i v" using below_linear low by blast
    then show "i \<in> fill_rows nb n v \<union> (?S - ?L)"
      using inner [of i] fillS [of i] u below_le [of P i v] below_refl [of P v] by (cases "i = v") (auto simp: fill_rows_def)
  next
    fix i assume "i \<in> fill_rows nb n v \<union> (?S - ?L)"
    then show "i \<in> touched n P (cols_before n ps rb n) v"
      unfolding touch using inner [of i] fillS [of i] range [of i] v by (auto simp: fill_rows_def fills_def)
  qed
  have "fill_rows nb n v \<inter> (?S - ?L) = {}"
  proof (intro equals0I, elim IntE)
    fix i assume "i \<in> fill_rows nb n v" "i \<in> ?S - ?L"
    then have "v < i" "below P v i" by (simp_all add: fill_rows_def fills_def)
    then show False using below_le [of P v i] by simp
  qed
  moreover have "finite (fill_rows nb n v)" by (rule finite_subset [of _ "{v..<n}"]) (auto simp: fill_rows_def fills_def)
  ultimately have "card (touched n P (cols_before n ps rb n) v) = card (fill_rows nb n v) + card (?S - ?L)"
    unfolding split using finS by (simp add: card_Un_disjoint)
  moreover have "?L \<subseteq> ?S" by blast
  then have "int (card (?S - ?L)) = int (card ?S) - int (card ?L)" using finS card_mono [of ?S ?L] by (simp add: card_Diff_subset finite_subset)
  ultimately show ?thesis using B by (simp add: base_count_def)
qed


definition counts_ok :: "(int \<Rightarrow> int list) \<Rightarrow> int \<Rightarrow> int list \<Rightarrow> bool" where
  "counts_ok nb n counts \<longleftrightarrow> int (length counts) = n
     \<and> (\<forall>v. 0 \<le> v \<and> v < n \<longrightarrow> elt counts v = 1 + int (card (fill_rows nb n v)))"

lemma below_cong:
  assumes "\<And>u. 0 \<le> u \<Longrightarrow> u < n \<Longrightarrow> P u = Q u" "below P v u" "v < n"
  shows "below Q v u"
  using assms(2,3)
proof (induction rule: below.induct)
  case (below_child v u)
  then have "P u < n" using below_le [of P v "P u"] by simp
  then have "P u = Q u" using assms(1) [of u] below_child by simp
  then show ?case using below_child by (metis below.below_child)
qed (rule below_refl)

lemma below_agree: "(\<And>u. 0 \<le> u \<Longrightarrow> u < n \<Longrightarrow> P u = Q u) \<Longrightarrow> v < n \<Longrightarrow> below P v u \<longleftrightarrow> below Q v u"
  using below_cong [of n P Q v u] below_cong [of n Q P v u] by auto

lemma gnp_column_counts_ok:
  assumes n: "0 \<le> n" and l: "int (length parent) = n" and d: "int (length delta) = n"
    and mf: "\<And>j. 0 \<le> j \<Longrightarrow> j < n \<Longrightarrow> min_fill nb n j (elt parent j)" and r: "rows_ok nb n"
    and rows: "\<And>j. 0 \<le> j \<Longrightarrow> j < n \<Longrightarrow> rows_below j = Some (rb j)"
    and rb: "\<And>u i. 0 \<le> u \<Longrightarrow> u < n \<Longrightarrow> i \<in> set (rb u) \<longleftrightarrow> 0 \<le> i \<and> i < n \<and> u \<in> set (nb i)"
  shows "ok (gnp_column_counts n parent (full_post (elt parent) n) delta rows_below) (counts_ok nb n)"
proof -
  let ?P = "elt parent" and ?Q = "parent_fun parent" and ?po = "full_post (elt parent) n"
  note ord = min_fill_forest [OF mf]
  have agree: "?Q u = ?P u" if "0 \<le> u" "u < n" for u using that l by (simp add: parent_fun_def)
  have fo: "forest nb n ?Q"
    unfolding forest_def
  proof (intro allI impI)
    fix j :: int assume j: "0 \<le> j"
    show "min_fill nb n j (?Q j)"
    proof (cases "j < n")
      case True
      then show ?thesis using mf j agree by simp
    next
      case False
      then show ?thesis using l by (simp add: parent_fun_def min_fill_def fills_def)
    qed
  qed
  have ordQ: "ordered_forest ?Q n" using ord agree unfolding ordered_forest_def by auto
  have bq: "below ?Q v u \<longleftrightarrow> below ?P v u" if "v < n" for v u by (rule below_agree [OF agree that])
  obtain f where s: "gnp_setting n parent ?po (pos ?po) f" using gnp_settingI [OF n l ord HOL.refl] by blast
  let ?ps = "pos ?po"
  note D = gnp_settingD [OF s] and I = intervalsD [OF gnp_settingD(5) [OF s]]
  have iQ: "intervals ?Q n ?ps f" unfolding intervals_def
  proof (intro conjI)
    show "\<forall>v u. 0 \<le> v \<and> v < n \<and> 0 \<le> u \<and> u < n \<longrightarrow> (below ?Q v u \<longleftrightarrow> f v \<le> ?ps u \<and> ?ps u \<le> ?ps v)"
      using I(1) bq by simp
  qed (insert D(5) [unfolded intervals_def], (elim conjE, assumption)+)
  have low: "below ?P i j" if "i \<in> set (rb j)" "0 \<le> j" "j < n" for i j
  proof -
    have i: "0 \<le> i" "i < n" "j \<in> set (nb i)" using rb [OF that(2,3)] that(1) by simp_all
    have ji: "j < i" using rows_okD [OF r i] by simp
    have "fills nb i j" using fills_row [OF fo r that(2) ji i(2)] i(3) by blast
    then have "above ?Q j i" using reach_above [OF fo fills_reach] i(2) by blast
    then show ?thesis using above_below [OF ordQ that(2,3) i(1)] bq [OF i(2)] by simp
  qed
  have given: "rows_given n ?P rows_below rb" unfolding rows_given_def
  proof (intro allI impI conjI ballI)
    fix j assume "0 \<le> j \<and> j < n"
    then show "rows_below j = Some (rb j)" using rows by blast
  next
    fix j i assume "0 \<le> j \<and> j < n" "i \<in> set (rb j)"
    then show "0 \<le> i" "i < n" "below ?P i j" using rb [of j i] low [of i j] by simp_all
  qed
  obtain first del where L: "gnp_leaves n parent ?po (replicate (nat n) (-1), delta) = Some (first, del)" "leaves_inv n ?ps f n (first, del)"
    using ok_ex [OF gnp_leaves_ok [OF s d]] by auto
  have fi: "first_inv n f n first" and ld: "int (length del) = n"
    and dv: "\<And>u. 0 \<le> u \<Longrightarrow> u < n \<Longrightarrow> elt del u = (if f u = ?ps u then 1 else 0)"
    using L(2) I(2) by (simp_all add: leaves_inv_def)
  have psn: "0 \<le> ?ps u" for u by (rule pos_nonneg)
  have "\<not> ?ps u < 0" for u using psn [of u] by simp
  then have c0: "cols_before n ?ps rb 0 = (\<lambda>_. {})" and l0: "linked_before n ?P ?ps 0 v = {}" for v
    by (auto simp: cols_before_def linked_before_def)
  have W0: "wsum ?P (elt del) v = int (card {u. below ?P v u \<and> f u = ?ps u})" if v: "0 \<le> v" "v < n" for v
  proof -
    have "wsum ?P (elt del) v = wsum ?P (\<lambda>u. if f u = ?ps u then 1 else 0) v"
      by (rule wsum_cong) (use dv below_range [OF ord v] in simp)
    then show ?thesis by (simp add: wsum_indicator)
  qed
  have un: "int (length (replicate (nat n) (-1 :: int))) = n" "\<And>i. 0 \<le> i \<Longrightarrow> i < n \<Longrightarrow> elt (replicate (nat n) (-1 :: int)) i = -1"
    using n by (simp_all add: elt_def nat_less_iff)
  have R0: "rows_inv n f (\<lambda>_. {}) (replicate (nat n) (-1)) (replicate (nat n) (-1))" using un by (simp add: rows_inv_def)
  have e0: "elt [0..n - 1] v = v" if "0 \<le> v" "v < n" for v using that by (simp add: elt_def)
  have U0: "uf_inv n ?P ?ps 0 [0..n - 1]" unfolding uf_inv_def
  proof (intro conjI allI impI)
    show "int (length [0..n - 1]) = n" using n by simp
    fix v assume v: "0 \<le> v \<and> v < n"
    then have e: "elt [0..n - 1] v = v" using e0 by simp
    show "0 \<le> elt [0..n - 1] v" "elt [0..n - 1] v < n" "elt [0..n - 1] v = v" using v unfolding e by simp_all
    show "below ?P (elt [0..n - 1] v) v" unfolding e by (rule below_refl)
    show "?ps w < 0" if "below ?P (elt [0..n - 1] v) w \<and> below ?P w v \<and> w \<noteq> elt [0..n - 1] v" for w
      using that below_le [of ?P v w] below_le [of ?P w v] unfolding e by auto
    show "?P v = -1" if "?ps v < 0 \<and> elt [0..n - 1] v = v" using that psn [of v] by simp
  qed
  have t0: "touched n ?P (\<lambda>_. {}) v = {}" for v by (simp add: touched_def)
  have G0: "gnp_inv n ?P ?ps f rb 0 (replicate (nat n) (-1), replicate (nat n) (-1), [0..n - 1], del)"
    using R0 U0 W0 ld by (simp add: gnp_inv_def c0 delta_inv_def t0 base_count_def l0)
  obtain mf' pl an de where M: "for_range 0 n (gnp_column parent ?po first rows_below)
      (replicate (nat n) (-1), replicate (nat n) (-1), [0..n - 1], del) = Some (mf', pl, an, de)"
    "gnp_inv n ?P ?ps f rb n (mf', pl, an, de)"
  proof -
    have "ok (for_range 0 n (gnp_column parent ?po first rows_below) (replicate (nat n) (-1), replicate (nat n) (-1), [0..n - 1], del))
        (gnp_inv n ?P ?ps f rb n)"
      by (rule for_range_ok [where I = "gnp_inv n ?P ?ps f rb", OF G0 gnp_column_ok [OF s fi given]]) (use n in \<open>simp_all add: max_def\<close>)
    then obtain y where y: "for_range 0 n (gnp_column parent ?po first rows_below)
      (replicate (nat n) (-1), replicate (nat n) (-1), [0..n - 1], del) = Some y" "gnp_inv n ?P ?ps f rb n y" unfolding ok_def by blast
    show ?thesis by (cases y) (use that y in blast)
  qed
  have lde: "int (length de) = n" and wde: "\<And>v. 0 \<le> v \<Longrightarrow> v < n \<Longrightarrow>
      wsum ?P (elt de) v = base_count n ?P ?ps f n v + int (card (touched n ?P (cols_before n ?ps rb n) v))"
    using M(2) by (simp_all add: gnp_inv_def delta_inv_def)
  have fin: "wsum ?P (elt de) v = 1 + int (card (fill_rows nb n v))" if v: "0 \<le> v" "v < n" for v
  proof -
    have "linked_before n ?Q ?ps n v = linked_before n ?P ?ps n v" using agree bq [OF v(2)] by (auto simp: linked_before_def)
    then have "base_count n ?Q ?ps f n v = base_count n ?P ?ps f n v" using bq [OF v(2)] by (simp add: base_count_def)
    moreover have "touched n ?Q (cols_before n ?ps rb n) v = touched n ?P (cols_before n ?ps rb n) v" using bq [OF v(2)] by (simp add: touched_def)
    ultimately show ?thesis using gnp_count [OF iQ fo ordQ r rb v] wde [OF v] by simp
  qed
  obtain counts where A: "for_range 0 n (\<lambda>j delta. do {
       p \<leftarrow> vget parent j;
       if p \<noteq> -1 then do { d \<leftarrow> vget delta j; add_at delta p d } else Some delta
     }) de = Some counts" "int (length counts) = n" "\<And>v. 0 \<le> v \<Longrightarrow> v < n \<Longrightarrow> elt counts v = wsum ?P (elt de) v"
    using ok_ex [OF gnp_accumulate_ok [OF n l ord lde]] by blast
  have "gnp_column_counts n parent ?po delta rows_below = Some counts"
    unfolding gnp_column_counts_def Let_def L(1) bind.simps prod.case M(1) A(1) ..
  then show ?thesis using A(2,3) fin by (simp add: counts_ok_def)
qed


section \<open>The callers\<close>

text \<open>The entries left of the diagonal, row by row, and their buckets by column.\<close>

definition row_list :: "(int \<Rightarrow> int list) \<Rightarrow> int \<Rightarrow> (int \<times> int) list" where
  "row_list nb n = concat (map (\<lambda>i. map (\<lambda>c. (c, i)) (nb i)) [0..n - 1])"

lemma row_list_iff: "(c, i) \<in> set (row_list nb n) \<longleftrightarrow> 0 \<le> i \<and> i < n \<and> c \<in> set (nb i)"
  by (auto simp: row_list_def)

lemma row_entries_eq:
  assumes "csr_ok n ptr idx" "0 \<le> i" "i < n"
  shows "row_entries ptr idx f i s = forM (map (\<lambda>c. (c, i)) (csr_row ptr idx i)) (\<lambda>e. f (fst e) (snd e)) s"
proof -
  have get: "vget ptr i = Some (elt ptr i)" "vget ptr (i + 1) = Some (elt ptr (i + 1))"
    and b: "0 \<le> elt ptr i" "elt ptr i \<le> elt ptr (i + 1)" "elt ptr (i + 1) \<le> int (length idx)"
    using assms by (simp_all add: csr_ok_def vget_at)
  have "forM (segment idx (elt ptr i) (elt ptr (i + 1))) (\<lambda>c s. if c < i then f c i s else Some s) s
      = forM (segment idx (elt ptr i) (elt ptr (i + 1))) (\<lambda>c s. if \<not> c < i then Some s else f c i s) s"
    by (rule forM_cong) simp
  then show ?thesis
    unfolding row_entries_def get bind.simps for_range_segment [OF b] forM_skip forM_map csr_row_def by (simp add: comp_def)
qed

lemma row_entries_all:
  assumes "csr_ok n ptr idx"
  shows "for_range 0 n (row_entries ptr idx f) s = forM (row_list (csr_row ptr idx) n) (\<lambda>e. f (fst e) (snd e)) s"
  unfolding for_range_def row_list_def forM_concat by (rule forM_cong) (simp add: row_entries_eq [OF assms])

lemma for_range_list:
  fixes xs :: "int list"
  assumes "0 \<le> a" "a \<le> b" "b \<le> int (length xs)"
  shows "for_range a b (\<lambda>p rows. do { i \<leftarrow> vget xs p; Some (rows @ [i]) }) [] = Some (segment xs a b)"
proof -
  have "forM ys (\<lambda>i rows. Some (rows @ [i])) zs = Some (zs @ ys)" for ys zs :: "int list"
    by (induction ys arbitrary: zs) simp_all
  then show ?thesis unfolding for_range_segment [OF assms, of "\<lambda>i rows. Some (rows @ [i])"] by simp
qed

lemma columns_of_rows_ok:
  assumes csr: "csr_ok n ptr idx"
  shows "ok (columns_of_rows n ptr idx) (\<lambda>(cp, ci). \<forall>j. 0 \<le> j \<and> j < n \<longrightarrow>
    csc_rows_below cp ci j = Some (map snd (filter (\<lambda>e. fst e = j) (row_list (csr_row ptr idx) n))))"
proof -
  let ?E = "row_list (csr_row ptr idx) n"
  have n: "0 \<le> n" using csr by (simp add: csr_ok_def)
  note rows = csr_rows_ok [OF csr]
  have keys: "\<forall>e \<in> set ?E. 0 \<le> fst e \<and> fst e < n"
  proof
    fix e assume "e \<in> set ?E"
    then have "(fst e, snd e) \<in> set ?E" by simp
    then have e: "0 \<le> snd e" "snd e < n" "fst e \<in> set (csr_row ptr idx (snd e))" unfolding row_list_iff by simp_all
    show "0 \<le> fst e \<and> fst e < n" using rows_okD [OF rows e] e(2) by simp
  qed
  obtain cnt where cnt: "forM ?E (\<lambda>e cnt. bump cnt (fst e + 1)) (replicate (nat (n + 1)) 0) = Some cnt"
    "int (length cnt) = n + 1" "elt cnt 0 = 0" "\<And>j. 0 \<le> j \<Longrightarrow> j < n \<Longrightarrow> elt cnt (j + 1) = bcount fst ?E j"
    using ok_ex [OF count_shift_ok [OF keys n]] by blast
  obtain cp where cp: "for_range 0 n prefix_inplace cnt = Some cp" "int (length cp) = n + 1"
    "\<And>j. 0 \<le> j \<Longrightarrow> j \<le> n \<Longrightarrow> elt cp j = bptr fst ?E j"
    using ok_ex [OF prefix_inplace_ok [OF n cnt(2-4)]] by blast
  have last: "vget cp n = Some (int (length ?E))" using cp(2,3) n bptr_total [OF keys] by (simp add: vget_at)
  obtain cur ci where pl: "forM ?E (place fst snd) (take (nat n) cp, replicate (nat (int (length ?E))) 0) = Some (cur, ci)"
    "ci = map snd (concat (buckets fst n ?E))"
    using ok_ex [OF place_ok [OF keys n, of "take (nat n) cp" "replicate (nat (int (length ?E))) 0" snd]]
      take_xadj [OF cp(2) n] cp(3) n by auto
  have pair: "(\<lambda>e. place fst snd (fst e, snd e)) = (place fst snd :: int \<times> int \<Rightarrow> _)" by simp
  have "columns_of_rows n ptr idx = Some (cp, ci)"
    unfolding columns_of_rows_def row_entries_all [OF csr] cnt(1) bind.simps cp(1) last pair pl(1) prod.case ..
  moreover have "csc_rows_below cp ci j = Some (map snd (filter (\<lambda>e. fst e = j) ?E))" if j: "0 \<le> j" "j < n" for j
  proof -
    have get: "vget cp j = Some (bptr fst ?E j)" "vget cp (j + 1) = Some (bptr fst ?E (j + 1))" using j cp(2,3) by (simp_all add: vget_at)
    note seg = bucket_segment(1) [OF keys j, of snd] bucket_segment(2,3) [OF keys j] bucket_segment(4) [OF keys j, of snd]
    show ?thesis unfolding csc_rows_below_def get bind.simps pl(2) for_range_list [OF seg(2,3,4)] seg(1) ..
  qed
  ultimately show ?thesis by simp
qed

lemma finish_postorder:
  assumes "finish_elimination_tree n parent = Some t" "0 \<le> n" "int (length parent) = n" "ordered_forest (elt parent) n"
  shows "et_parent t = parent" "et_postorder t = full_post (elt parent) n"
proof -
  have "etree_postorder n parent (replicate (nat n) 0) (replicate (nat (4 * n + 1)) 0) = Some (full_post (elt parent) n, max_height (elt parent) n)"
    by (rule etree_postorder_ok [OF assms(2,4,3)]) (use assms(2) in simp_all)
  then show "et_parent t = parent" "et_postorder t = full_post (elt parent) n"
    using assms(1) by (auto simp: finish_elimination_tree_def)
qed

text \<open>A tree that \<open>gnp_column_counts\<close> can be given: the elimination tree, with the depth-first postorder.\<close>

definition tree_for :: "(int \<Rightarrow> int list) \<Rightarrow> int \<Rightarrow> elimination_tree \<Rightarrow> bool" where
  "tree_for nb n t \<longleftrightarrow> int (length (et_parent t)) = n
     \<and> (\<forall>j. 0 \<le> j \<and> j < n \<longrightarrow> min_fill nb n j (elt (et_parent t) j)) \<and> et_postorder t = full_post (elt (et_parent t)) n"

lemma rows_tree_for:
  assumes n: "0 \<le> n" and rows: "rows_ok nb n"
    and t: "(if n = 0 then Some empty_etree else do {
      (parent, _) \<leftarrow> for_range 0 n (\<lambda>k. forM (nb k) (liu_link k)) (replicate (nat n) (-1), replicate (nat n) (-1));
      finish_elimination_tree n parent }) = Some t"
  shows "tree_for nb n t"
proof (cases "n = 0")
  case True
  then show ?thesis using t by (auto simp: tree_for_def empty_etree_def full_post_def roots_of_def)
next
  case False
  obtain parent anc where l: "for_range 0 n (\<lambda>k. forM (nb k) (liu_link k)) (replicate (nat n) (-1), replicate (nat n) (-1)) = Some (parent, anc)"
    "int (length parent) = n" "\<And>j. 0 \<le> j \<Longrightarrow> j < n \<Longrightarrow> min_fill nb n j (elt parent j)"
    using ok_ex [OF liu_ok [OF n rows]] by auto
  have "finish_elimination_tree n parent = Some t" using t l(1) False by simp
  then show ?thesis using finish_postorder [OF _ n l(2) min_fill_forest [OF l(3)]] l(2,3) by (simp add: tree_for_def)
qed

lemma from_rows_ok:
  assumes csr: "csr_ok n ptr idx" and t: "tree_for (csr_row ptr idx) n t"
  shows "ok (filled_column_counts_from_rows n ptr idx t) (counts_ok (csr_row ptr idx) n)"
proof -
  let ?E = "row_list (csr_row ptr idx) n"
  have n: "0 \<le> n" using csr by (simp add: csr_ok_def)
  obtain cp ci where c: "columns_of_rows n ptr idx = Some (cp, ci)"
    "\<And>j. 0 \<le> j \<Longrightarrow> j < n \<Longrightarrow> csc_rows_below cp ci j = Some (map snd (filter (\<lambda>e. fst e = j) ?E))"
    using ok_ex [OF columns_of_rows_ok [OF csr]] by auto
  have rb: "i \<in> set (map snd (filter (\<lambda>e. fst e = u) ?E)) \<longleftrightarrow> 0 \<le> i \<and> i < n \<and> u \<in> set (csr_row ptr idx i)" for u i
  proof -
    have "i \<in> set (map snd (filter (\<lambda>e. fst e = u) ?E)) \<longleftrightarrow> (u, i) \<in> set ?E" by force
    then show ?thesis by (simp only: row_list_iff)
  qed
  have mf: "\<And>j. 0 \<le> j \<Longrightarrow> j < n \<Longrightarrow> min_fill (csr_row ptr idx) n j (elt (et_parent t) j)" and l: "int (length (et_parent t)) = n"
    and po: "et_postorder t = full_post (elt (et_parent t)) n"
    using t by (simp_all add: tree_for_def)
  show ?thesis
    unfolding filled_column_counts_from_rows_def c(1) bind.simps prod.case po
    by (rule gnp_column_counts_ok [OF n l _ mf csr_rows_ok [OF csr] c(2) rb]) (use n in simp)
qed

lemma from_adjacency_ok:
  assumes A: "csc_clean A" and p: "inverse_perms (csc_n A) perm iperm" and g: "build_symmetric_adjacency A = Some (xadj, adj)"
    and l: "int (length parent) = csc_n A" and d: "int (length colcount) = csc_n A"
    and mf: "\<And>j. 0 \<le> j \<Longrightarrow> j < csc_n A \<Longrightarrow> min_fill (perm_row A perm iperm) (csc_n A) j (elt parent j)"
  shows "ok (filled_column_counts_from_adjacency (csc_n A) xadj adj perm iperm parent (full_post (elt parent) (csc_n A)) colcount)
    (counts_ok (perm_row A perm iperm) (csc_n A))"
proof -
  let ?n = "csc_n A" let ?rb = "\<lambda>j. filter (\<lambda>i. i > j) (map (elt iperm) (neighbours A (elt perm j)))"
  note n = csc_cleanD(2) [OF A]
  have rows: "rows_ok (perm_row A perm iperm) ?n" using perm_row_iff [OF A p] by (auto simp: rows_ok_def)
  have adj: "adj = graph_adj A" and x: "int (length xadj) = ?n + 1" "\<And>v. 0 \<le> v \<Longrightarrow> v \<le> ?n \<Longrightarrow> elt xadj v = offset A v"
    by (rule build_symmetric_adjacency_Some [OF A g])+
  have below: "adjacency_below xadj adj perm iperm j = Some (?rb j)" if j: "0 \<le> j" "j < ?n" for j
  proof -
    let ?v = "elt perm j"
    have v: "0 \<le> ?v" "?v < ?n" "int (length perm) = ?n" using p j by (simp_all add: inverse_perms_def)
    have get: "vget perm j = Some ?v" "vget xadj ?v = Some (offset A ?v)" "vget xadj (?v + 1) = Some (offset A (?v + 1))"
      using v j x by (simp_all add: vget_at)
    note seg = graph_segment [OF A v(1,2)]
    let ?f = "\<lambda>u rows. do { i \<leftarrow> vget iperm u; Some (if i > j then rows @ [i] else rows) }"
    have "forM us ?f rows = Some (rows @ filter (\<lambda>i. i > j) (map (elt iperm) us))" if "\<And>u. u \<in> set us \<Longrightarrow> 0 \<le> u \<and> u < int (length iperm)" for us rows
      using that by (induction us arbitrary: rows) (simp_all add: vget_at)
    moreover have "0 \<le> u \<and> u < int (length iperm)" if "u \<in> set (neighbours A ?v)" for u
      using set_neighbours [OF A v(1,2)] that p by (auto simp: adjacent_def inverse_perms_def)
    ultimately have "forM (neighbours A ?v) ?f [] = Some (?rb j)" by simp
    moreover have "for_range (offset A ?v) (offset A (?v + 1)) (\<lambda>p rows. do {
        u \<leftarrow> vget adj p; i \<leftarrow> vget iperm u; Some (if i > j then rows @ [i] else rows) }) [] = forM (neighbours A ?v) ?f []"
      unfolding adj seg(1) [symmetric] by (rule for_range_segment [OF seg(2,3,4)])
    ultimately show ?thesis by (simp add: adjacency_below_def get)
  qed
  have rb: "i \<in> set (?rb u) \<longleftrightarrow> 0 \<le> i \<and> i < ?n \<and> u \<in> set (perm_row A perm iperm i)" if u: "0 \<le> u" "u < ?n" for u i
  proof -
    have v: "0 \<le> elt perm u" "elt perm u < ?n" using p u by (simp_all add: inverse_perms_def)
    have "i \<in> set (?rb u) \<longleftrightarrow> u < i \<and> (\<exists>w. adjacent A (elt perm u) w \<and> i = elt iperm w)"
      using set_neighbours [OF A v] by auto
    also have "\<dots> \<longleftrightarrow> u < i \<and> i < ?n \<and> adjacent A (elt perm u) (elt perm i)"
    proof
      assume "u < i \<and> (\<exists>w. adjacent A (elt perm u) w \<and> i = elt iperm w)"
      then obtain w where w: "u < i" "adjacent A (elt perm u) w" "i = elt iperm w" by blast
      have "0 \<le> w" "w < ?n" using w(2) by (simp_all add: adjacent_def)
      then show "u < i \<and> i < ?n \<and> adjacent A (elt perm u) (elt perm i)" using p w by (simp add: inverse_perms_def)
    next
      assume a: "u < i \<and> i < ?n \<and> adjacent A (elt perm u) (elt perm i)"
      have "elt iperm (elt perm i) = i" using p a u by (simp add: inverse_perms_def)
      then show "u < i \<and> (\<exists>w. adjacent A (elt perm u) w \<and> i = elt iperm w)" using a by metis
    qed
    finally have "i \<in> set (?rb u) \<longleftrightarrow> u < i \<and> i < ?n \<and> adjacent A (elt perm u) (elt perm i)" .
    then show ?thesis using perm_row_iff [OF A p, of i u] u adjacent_sym [of A "elt perm u" "elt perm i"] by (cases "0 \<le> i \<and> i < ?n") auto
  qed
  show ?thesis unfolding filled_column_counts_from_adjacency_def
    by (rule gnp_column_counts_ok [OF n l d mf rows below rb])
qed


text \<open>Below the diagonal of a clean matrix \<open>i > k\<close> and \<open>i \<noteq> k\<close> are the same test.\<close>

lemma strict_rows_eq:
  assumes A: "csc_clean A"
  shows "strict_rows A = upper_csc A"
proof -
  let ?n = "csc_n A"
  have same: "for_range 0 ?n (column_entries A (\<lambda>i k s. if i > k then f i k s else Some s)) s
      = for_range 0 ?n (column_entries A (\<lambda>i k s. if i = k then Some s else f i k s)) s" for f :: "int \<Rightarrow> int \<Rightarrow> 's \<Rightarrow> 's option" and s
    unfolding for_range_def [of 0]
  proof (rule forM_cong)
    fix k s assume "k \<in> set [0..?n - 1]"
    then have k: "0 \<le> k" "k < ?n" by simp_all
    show "column_entries A (\<lambda>i k s. if i > k then f i k s else Some s) k s = column_entries A (\<lambda>i k s. if i = k then Some s else f i k s) k s"
      unfolding column_entries_eq [OF csc_cleanD(1) [OF A] k]
    proof (rule forM_cong)
      fix i s assume "i \<in> set (col_rows A k)"
      then have "k \<le> i" using col_rows_bounds(1) [OF A k] by simp
      then show "(if i > k then f i k s else Some s) = (if i = k then Some s else f i k s)" by auto
    qed
  qed
  show ?thesis unfolding strict_rows_def upper_csc_def same Let_def ..
qed

lemma upper_rows:
  assumes A: "csc_clean A" and u: "upper_csc A = Some (ucol, urow)"
  shows "csr_ok (csc_n A) ucol urow" "0 \<le> k \<Longrightarrow> k < csc_n A \<Longrightarrow> csr_row ucol urow k = row_cols A k"
proof -
  let ?n = "csc_n A" and ?E = "lower_entries A (csc_n A)"
  note n = csc_cleanD(2) [OF A] and keys = lower_entries_keys [OF A]
  have U: "int (length ucol) = ?n + 1" "\<And>j. 0 \<le> j \<Longrightarrow> j \<le> ?n \<Longrightarrow> elt ucol j = bptr fst ?E j"
    "urow = map snd (concat (buckets fst ?n ?E))"
    using ok_the [OF upper_csc_ok [OF A] u] by auto
  have seg: "0 \<le> elt ucol k" "elt ucol k \<le> elt ucol (k + 1)" "elt ucol (k + 1) \<le> int (length urow)"
    "segment urow (elt ucol k) (elt ucol (k + 1)) = row_cols A k" if k: "0 \<le> k" "k < ?n" for k
    using bucket_segment(1) [OF keys k, of snd] bucket_segment(2,3) [OF keys k] bucket_segment(4) [OF keys k, of snd]
      U k lower_entries_row [OF A k] by simp_all
  have "0 \<le> c" if c: "c \<in> set urow" for c
  proof -
    obtain k where "0 \<le> k" "k < ?n" "c \<in> snd ` set (filter (\<lambda>e. fst e = k) ?E)"
    proof -
      obtain e where e: "e \<in> set (concat (buckets fst ?n ?E))" "c = snd e" using c unfolding U(3) by auto
      obtain k where "k \<in> set [0..?n - 1]" "e \<in> set (filter (\<lambda>e. fst e = k) ?E)"
        using e(1) unfolding buckets_def set_concat set_map by blast
      then show ?thesis using that [of k] e(2) by auto
    qed
    then have "c \<in> set (row_cols A k)" unfolding lower_entries_row [OF A \<open>0 \<le> k\<close> \<open>k < ?n\<close>, symmetric] by simp
    then show ?thesis by (simp add: row_cols_def)
  qed
  then show "csr_ok ?n ucol urow" using n U(1) seg by (simp add: csr_ok_def)
  show "csr_row ucol urow k = row_cols A k" if k: "0 \<le> k" "k < ?n"
  proof -
    have "filter (\<lambda>r. r < k) (row_cols A k) = row_cols A k" unfolding filter_id_conv by (simp add: row_cols_def)
    then show ?thesis unfolding csr_row_def seg(4) [OF k] .
  qed
qed

lemma reach_cong:
  assumes "\<And>u v. 0 \<le> u \<Longrightarrow> u < n \<Longrightarrow> 0 \<le> v \<Longrightarrow> v < n \<Longrightarrow> edge nb u v \<Longrightarrow> edge nb' u v" "reach nb m u v" "m < n"
  shows "reach nb' m u v"
  using assms(2,3)
proof (induction rule: reach.induct)
  case (step u v w)
  have "0 \<le> v" "v \<le> m" using reach_bounds [OF step(1)] by simp_all
  moreover have "0 \<le> w" using step(2) by (simp add: edge_def)
  ultimately have "edge nb' v w" using step assms(1) by simp
  then show ?case using step reach.step by blast
qed (rule reach.refl)

lemma fills_cong:
  assumes e: "\<And>u v. 0 \<le> u \<Longrightarrow> u < n \<Longrightarrow> 0 \<le> v \<Longrightarrow> v < n \<Longrightarrow> edge nb u v \<Longrightarrow> edge nb' u v" and f: "fills nb i v" "i < n"
  shows "fills nb' i v"
proof -
  obtain u where u: "v < i" "reach nb v v u" "edge nb u i" using f by (auto simp: fills_def)
  have "0 \<le> u" "u < n" "0 \<le> i" using reach_bounds [OF u(2)] u f by (auto simp: edge_def)
  then have "edge nb' u i" using e u(3) f(2) by simp
  moreover have "reach nb' v v u" by (rule reach_cong [OF e u(2)]) (use u(1) f(2) in simp_all)
  ultimately show ?thesis using u(1) by (auto simp: fills_def)
qed

lemma counts_ok_rows:
  assumes "\<And>k. 0 \<le> k \<Longrightarrow> k < n \<Longrightarrow> set (nb k) = set (nb' k)"
  shows "counts_ok nb n c \<longleftrightarrow> counts_ok nb' n c"
proof -
  have "edge nb u v \<longleftrightarrow> edge nb' u v" if "0 \<le> u" "u < n" "0 \<le> v" "v < n" for u v using assms that by (simp add: edge_def)
  then have "fills nb i v \<longleftrightarrow> fills nb' i v" if "i < n" for i v
    using fills_cong [of n nb nb' i v] fills_cong [of n nb' nb i v] that by blast
  then have "fill_rows nb n v = fill_rows nb' n v" for v by (auto simp: fill_rows_def)
  then show ?thesis by (simp add: counts_ok_def)
qed

lemma filled_col_counts_ok:
  assumes A: "csc_clean A" and t: "build_elimination_tree A = Some t"
  shows "ok (filled_col_counts A t) (counts_ok (row_cols A) (csc_n A))"
proof -
  let ?n = "csc_n A"
  note n = csc_cleanD(2) [OF A] and rows = row_cols_ok(1) [OF A]
  obtain ucol urow where u: "upper_csc A = Some (ucol, urow)" using ok_ex [OF upper_csc_ok [OF A]] by auto
  note ur = upper_rows [OF A u]
  have "(if ?n = 0 then Some empty_etree else do {
      (parent, _) \<leftarrow> for_range 0 ?n (\<lambda>k. forM (row_cols A k) (liu_link k)) (replicate (nat ?n) (-1), replicate (nat ?n) (-1));
      finish_elimination_tree ?n parent }) = Some t"
    using t unfolding build_elimination_tree_def u bind.simps prod.case liu_columns_eq [OF A u] .
  note eq = this
  have "(if ?n = 0 then Some empty_etree else do {
      (parent, _) \<leftarrow> for_range 0 ?n (\<lambda>k. forM (csr_row ucol urow k) (liu_link k)) (replicate (nat ?n) (-1), replicate (nat ?n) (-1));
      finish_elimination_tree ?n parent }) = Some t"
  proof -
    have fe: "for_range 0 ?n (\<lambda>k. forM (csr_row ucol urow k) (liu_link k)) s = for_range 0 ?n (\<lambda>k. forM (row_cols A k) (liu_link k)) s" for s
      unfolding for_range_def by (rule forM_cong) (simp add: ur(2))
    show ?thesis unfolding fe by (rule eq)
  qed
  then have "tree_for (csr_row ucol urow) ?n t" by (rule rows_tree_for [OF n csr_rows_ok [OF ur(1)]])
  then have "ok (filled_column_counts_from_rows ?n ucol urow t) (counts_ok (csr_row ucol urow) ?n)" by (rule from_rows_ok [OF ur(1)])
  moreover have "counts_ok (csr_row ucol urow) ?n c \<longleftrightarrow> counts_ok (row_cols A) ?n c" for c
    by (rule counts_ok_rows) (simp add: ur(2))
  ultimately have "ok (filled_column_counts_from_rows ?n ucol urow t) (counts_ok (row_cols A) ?n)" by (simp add: ok_def)
  then show ?thesis unfolding filled_col_counts_def strict_rows_eq [OF A] u by simp
qed

section \<open>Properties\<close>

text \<open>C1: \<open>filled_col_counts\<close>, given a clean lower triangle and its elimination tree, returns for every column the exact
  number of entries of that column of the factor: 1 for the diagonal and one for each row below it that a path through
  vertices numbered at most the column's leads to. The climbs, the union-find walks and the transposes end and stay in bounds.\<close>

theorem filled_col_counts_correct:
  assumes "csc_clean A" "build_elimination_tree A = Some t"
  shows "\<exists>counts. filled_col_counts A t = Some counts \<and> int (length counts) = csc_n A
    \<and> (\<forall>v. 0 \<le> v \<and> v < csc_n A \<longrightarrow> elt counts v = 1 + int (card {i. i < csc_n A \<and> fills (row_cols A) i v}))"
  using ok_ex [OF filled_col_counts_ok [OF assms]] by (simp add: counts_ok_def fill_rows_def)

theorem filled_col_counts_correct_witness:
  "\<exists>t counts. build_elimination_tree example_clean = Some t \<and> filled_col_counts example_clean t = Some counts \<and> int (length counts) = 4
    \<and> (\<forall>v. 0 \<le> v \<and> v < 4 \<longrightarrow> elt counts v = 1 + int (card {i. i < 4 \<and> fills (row_cols example_clean) i v}))"
proof -
  have n: "csc_n example_clean = 4" by (simp add: example_clean_def)
  obtain t where "build_elimination_tree example_clean = Some t" using ok_ex [OF build_elimination_tree_ok [OF example_clean_ok]] by blast
  then show ?thesis using filled_col_counts_correct [OF example_clean_ok] unfolding n by blast
qed

text \<open>C20: \<open>filled_column_counts_from_adjacency\<close>, given the symmetric graph of a clean matrix, a permutation with its inverse
  and the permuted matrix's elimination tree and postorder, returns the exact column counts of the permuted factor without
  forming the permuted matrix.\<close>

theorem counts_from_adjacency_correct:
  assumes "csc_clean A" "inverse_perms (csc_n A) perm iperm" "build_symmetric_adjacency A = Some (xadj, adj)"
    and "etree_from_adjacency (csc_n A) xadj adj perm iperm = Some (parent, ancestor)"
    and "etree_postorder (csc_n A) parent po work = Some (postorder, depth)" "int (length po) = csc_n A" "4 * csc_n A + 1 \<le> int (length work)"
    and "int (length colcount) = csc_n A"
  shows "\<exists>counts. filled_column_counts_from_adjacency (csc_n A) xadj adj perm iperm parent postorder colcount = Some counts
    \<and> int (length counts) = csc_n A \<and> (\<forall>v. 0 \<le> v \<and> v < csc_n A \<longrightarrow>
      elt counts v = 1 + int (card {i. i < csc_n A \<and> fills (perm_row A perm iperm) i v}))"
proof -
  have rows: "rows_ok (perm_row A perm iperm) (csc_n A)" using perm_row_iff [OF assms(1,2)] by (auto simp: rows_ok_def)
  note n = csc_cleanD(2) [OF assms(1)]
  have l: "int (length parent) = csc_n A" and mf: "\<And>j. 0 \<le> j \<Longrightarrow> j < csc_n A \<Longrightarrow> min_fill (perm_row A perm iperm) (csc_n A) j (elt parent j)"
    using ok_the [OF liu_ok [OF n rows] assms(4) [unfolded etree_from_adjacency_eq [OF assms(1-3)]]] by simp_all
  have "postorder = full_post (elt parent) (csc_n A)"
    using assms(5) etree_postorder_ok [OF n min_fill_forest [OF mf] l assms(6,7)] by simp
  then show ?thesis
    using ok_ex [OF from_adjacency_ok [OF assms(1-3) l assms(8) mf]] by (simp add: counts_ok_def fill_rows_def)
qed

theorem counts_from_adjacency_correct_witness:
  "\<exists>counts. filled_column_counts_from_adjacency 4 [0, 2, 3, 4, 6] [2, 3, 3, 0, 0, 1] [3, 1, 0, 2] [2, 1, 3, 0] [1, 2, 3, -1] [0, 1, 2, 3] [0, 0, 0, 0] = Some counts
    \<and> int (length counts) = 4 \<and> (\<forall>v. 0 \<le> v \<and> v < 4 \<longrightarrow>
      elt counts v = 1 + int (card {i. i < 4 \<and> fills (perm_row example_clean [3, 1, 0, 2] [2, 1, 3, 0]) i v}))"
proof -
  have n: "csc_n example_clean = 4" by (simp add: example_clean_def)
  have i: "inverse_perms (csc_n example_clean) [3, 1, 0, 2] [2, 1, 3, 0]" unfolding inverse_perms_def all_int_set n by code_simp
  have g: "build_symmetric_adjacency example_clean = Some ([0, 2, 3, 4, 6], [2, 3, 3, 0, 0, 1])" by code_simp
  have e: "map_option fst (etree_from_adjacency 4 [0, 2, 3, 4, 6] [2, 3, 3, 0, 0, 1] [3, 1, 0, 2] [2, 1, 3, 0]) = Some [1, 2, 3, -1]" by code_simp
  then obtain anc where e: "etree_from_adjacency 4 [0, 2, 3, 4, 6] [2, 3, 3, 0, 0, 1] [3, 1, 0, 2] [2, 1, 3, 0] = Some ([1, 2, 3, -1], anc)" by auto
  have p: "map_option fst (etree_postorder 4 [1, 2, 3, -1] [0, 0, 0, 0] (replicate 17 0)) = Some [0, 1, 2, 3]" by code_simp
  then obtain d where "etree_postorder 4 [1, 2, 3, -1] [0, 0, 0, 0] (replicate 17 0) = Some ([0, 1, 2, 3], d)" by auto
  from counts_from_adjacency_correct [OF example_clean_ok i g _ _ , unfolded n, OF e this, of "[0, 0, 0, 0]"] show ?thesis by simp
qed

end
