(* ===== verification/Supernodes.thy ===== *)
theory Supernodes
  imports ColumnCounts ChildrenCsr AssemblyTree
begin

text \<open>
  Fundamental supernodes of \<open>src/supernode_detection.cpp\<close>: \<open>detect_fundamental_supernodes\<close>. \<open>snode_scan\<close>, which cuts the
  columns, is shared with \<open>amalgamate_relaxed\<close>. The theorem: the supernodes are the maximal chains of columns with the
  same rows below them in the factor.
\<close>

section \<open>The code\<close>

definition count_children :: "int \<Rightarrow> int list \<Rightarrow> int list option" where
  "count_children n parent = for_range 0 n (\<lambda>j nchildren. do {
     p \<leftarrow> vget parent j;
     if p \<ge> 0 then bump nchildren p else Some nchildren
   }) (replicate (nat n) 0)"

definition new_snode :: "int list \<Rightarrow> int list \<Rightarrow> int list \<Rightarrow> int \<Rightarrow> bool option" where
  "new_snode parent nchildren colcount j =
     (if j = 0 then Some True
      else do {
        par_prev \<leftarrow> vget parent (j - 1);
        if par_prev \<noteq> j then Some True
        else do {
          c \<leftarrow> vget nchildren j;
          if c \<noteq> 1 then Some True
          else do {
            a \<leftarrow> vget colcount (j - 1);
            b \<leftarrow> vget colcount j;
            Some (a \<noteq> b + 1)
          }
        }
      })"

definition snode_scan :: "int \<Rightarrow> int list \<Rightarrow> int list \<Rightarrow> int list \<Rightarrow> (int list \<times> int list) option" where
  "snode_scan n parent nchildren colcount = for_range 0 n (\<lambda>j (snode_id, snode_start). do {
     new \<leftarrow> new_snode parent nchildren colcount j;
     if new then do {
       snode_id \<leftarrow> vset snode_id j (int (length snode_start));
       Some (snode_id, snode_start @ [j])
     } else do {
       snode_id \<leftarrow> vset snode_id j (int (length snode_start) - 1);
       Some (snode_id, snode_start)
     }
   }) (replicate (nat n) (-1), [])"

definition detect_fundamental_supernodes :: "'v csc \<Rightarrow> elimination_tree \<Rightarrow> supernode list option" where
  "detect_fundamental_supernodes A etree =
     (if csc_n A = 0 then Some []
      else do {
        let n = csc_n A;
        let parent = et_parent etree;
        nchildren \<leftarrow> count_children n parent;
        colcount \<leftarrow> filled_col_counts A etree;
        (snode_id, snode_start) \<leftarrow> snode_scan n parent nchildren colcount;
        let nsn = int (length snode_start);
        result \<leftarrow> for_range 0 nsn (\<lambda>s result. do {
          a \<leftarrow> vget snode_start s;
          b \<leftarrow> (if s + 1 < nsn then vget snode_start (s + 1) else Some n);
          Some (result @ [\<lparr>sn_start = a, sn_end = b, sn_parent = -1\<rparr>])
        }) [];
        for_range 0 nsn (\<lambda>s result. do {
          sn \<leftarrow> vget result s;
          par_col \<leftarrow> vget parent (sn_end sn - 1);
          if par_col < 0 then Some result
          else do {
            par_sn \<leftarrow> vget snode_id par_col;
            vset result s (sn\<lparr>sn_parent := par_sn\<rparr>)
          }
        }) result
      })"

section \<open>Cutting the columns\<close>

definition num_children :: "(int \<Rightarrow> int) \<Rightarrow> int \<Rightarrow> int \<Rightarrow> int" where
  "num_children P n v = int (card {c. 0 \<le> c \<and> c < n \<and> P c = v})"

lemma count_children_ok:
  assumes n: "0 \<le> n" and l: "int (length parent) = n" and f: "ordered_forest (elt parent) n"
  shows "ok (count_children n parent) (\<lambda>c. int (length c) = n \<and> (\<forall>v. 0 \<le> v \<and> v < n \<longrightarrow> elt c v = num_children (elt parent) n v))"
  unfolding count_children_def
proof (rule for_range_ok [where I = "\<lambda>j c. int (length c) = n
    \<and> (\<forall>v. 0 \<le> v \<and> v < n \<longrightarrow> elt c v = int (card {c. 0 \<le> c \<and> c < j \<and> elt parent c = v}))"])
  have "card {c :: int. 0 \<le> c \<and> c < 0 \<and> elt parent c = v} = 0" for v by (rule card_eq_0_iff [THEN iffD2]) auto
  then show "int (length (replicate (nat n) 0)) = n
      \<and> (\<forall>v. 0 \<le> v \<and> v < n \<longrightarrow> elt (replicate (nat n) 0) v = int (card {c. 0 \<le> c \<and> c < 0 \<and> elt parent c = v}))"
    using n by (simp add: elt_replicate)
next
  fix j c assume j: "0 \<le> j" "j < n" and I: "int (length c) = n
    \<and> (\<forall>v. 0 \<le> v \<and> v < n \<longrightarrow> elt c v = int (card {c. 0 \<le> c \<and> c < j \<and> elt parent c = v}))"
  let ?p = "elt parent j"
  have p: "?p = -1 \<or> j < ?p \<and> ?p < n" using f j unfolding ordered_forest_def by blast
  have fin: "finite {c. 0 \<le> c \<and> c < j \<and> elt parent c = v}" for v by (rule finite_subset [of _ "{0..<j}"]) auto
  have s: "{c. 0 \<le> c \<and> c < j + 1 \<and> elt parent c = v}
      = (if v = ?p then insert j {c. 0 \<le> c \<and> c < j \<and> elt parent c = v} else {c. 0 \<le> c \<and> c < j \<and> elt parent c = v})" for v
  proof (intro set_eqI)
    fix c show "c \<in> {c. 0 \<le> c \<and> c < j + 1 \<and> elt parent c = v} \<longleftrightarrow>
      c \<in> (if v = ?p then insert j {c. 0 \<le> c \<and> c < j \<and> elt parent c = v} else {c. 0 \<le> c \<and> c < j \<and> elt parent c = v})"
      using j by (cases "c = j") auto
  qed
  have g: "vget parent j = Some ?p" using j l by (simp add: vget_at)
  show "ok (do { p \<leftarrow> vget parent j; if p \<ge> 0 then bump c p else Some c }) (\<lambda>c. int (length c) = n
    \<and> (\<forall>v. 0 \<le> v \<and> v < n \<longrightarrow> elt c v = int (card {c. 0 \<le> c \<and> c < j + 1 \<and> elt parent c = v})))"
  proof (cases "?p = -1")
    case True
    have "elt c v = int (card {c. 0 \<le> c \<and> c < j + 1 \<and> elt parent c = v})" if v: "0 \<le> v" "v < n" for v
      unfolding s using I v True by simp
    then show ?thesis using I g True by simp
  next
    case False
    then have pr: "0 \<le> ?p" "?p < n" using p j by simp_all
    have b: "bump c ?p = Some (c[nat ?p := elt c ?p + 1])" using pr I by (simp add: bump_def vget_at vset_def)
    have "elt (c[nat ?p := elt c ?p + 1]) v = int (card {c. 0 \<le> c \<and> c < j + 1 \<and> elt parent c = v})" if "0 \<le> v" "v < n" for v
    proof -
      have "card (insert j {c. 0 \<le> c \<and> c < j \<and> elt parent c = v}) = Suc (card {c. 0 \<le> c \<and> c < j \<and> elt parent c = v})" for v
        using fin [of v] by (intro card_insert_disjoint) simp_all
      then show ?thesis unfolding s using I that pr at_update [of v ?p c "elt c ?p + 1"] by simp
    qed
    then show ?thesis using g pr b I by simp
  qed
qed (use n in \<open>simp add: num_children_def max_def\<close>)

definition snode_break :: "(int \<Rightarrow> int) \<Rightarrow> int \<Rightarrow> int list \<Rightarrow> int \<Rightarrow> bool" where
  "snode_break P n colcount j \<longleftrightarrow> j = 0 \<or> P (j - 1) \<noteq> j \<or> num_children P n j \<noteq> 1 \<or> elt colcount (j - 1) \<noteq> elt colcount j + 1"

text \<open>The columns cut at \<open>starts\<close>: \<open>ids\<close> is the piece of each.\<close>

definition cut_at :: "int \<Rightarrow> int list \<Rightarrow> int list \<Rightarrow> bool" where
  "cut_at n ids starts \<longleftrightarrow> (0 < n \<longrightarrow> starts \<noteq> [] \<and> hd starts = 0) \<and> sorted_wrt (<) starts
     \<and> (\<forall>j \<in> set starts. 0 \<le> j \<and> j < n)
     \<and> (\<forall>j. 0 \<le> j \<and> j < n \<longrightarrow> 0 \<le> elt ids j \<and> elt ids j < int (length starts) \<and> elt starts (elt ids j) \<le> j
          \<and> (elt ids j + 1 < int (length starts) \<longrightarrow> j < elt starts (elt ids j + 1)))"

lemma cut_at_snoc:
  assumes "cut_at n ids starts" "0 \<le> n" "n < int (length ids)"
  shows "cut_at (n + 1) (ids[nat n := int (length starts)]) (starts @ [n])"
    "0 < n \<Longrightarrow> cut_at (n + 1) (ids[nat n := int (length starts) - 1]) starts"
proof -
  have c: "0 < n \<Longrightarrow> starts \<noteq> [] \<and> hd starts = 0" "sorted_wrt (<) starts" "\<And>j. j \<in> set starts \<Longrightarrow> 0 \<le> j \<and> j < n"
    "\<And>j. 0 \<le> j \<Longrightarrow> j < n \<Longrightarrow> 0 \<le> elt ids j \<and> elt ids j < int (length starts) \<and> elt starts (elt ids j) \<le> j
          \<and> (elt ids j + 1 < int (length starts) \<longrightarrow> j < elt starts (elt ids j + 1))"
    using assms(1) unfolding cut_at_def by blast+
  have e: "elt (ids[nat n := x]) j = (if j = n then x else elt ids j)" if "0 \<le> j" for j x
    using at_update [of j n ids x] that assms by auto
  have a: "elt (starts @ [n]) i = (if i < int (length starts) then elt starts i else n)" if "0 \<le> i" "i \<le> int (length starts)" for i
    using elt_snoc [OF that] .
  show "cut_at (n + 1) (ids[nat n := int (length starts)]) (starts @ [n])"
    unfolding cut_at_def
  proof (intro conjI impI allI ballI)
    show "hd (starts @ [n]) = 0" using c(1,3) assms(2) by (cases "n = 0") (cases starts; force)+
    show "sorted_wrt (<) (starts @ [n])" using c(2,3) by (simp add: sorted_wrt_append)
  next
    fix j assume j: "0 \<le> j \<and> j < n + 1"
    let ?i = "elt (ids[nat n := int (length starts)]) j"
    show "0 \<le> ?i" "?i < int (length (starts @ [n]))" "elt (starts @ [n]) ?i \<le> j"
      using e [of j] j c(4) [of j] a [of ?i] by auto
    show "j < elt (starts @ [n]) (?i + 1)" if "?i + 1 < int (length (starts @ [n]))"
      using e [of j] j c(4) [of j] a [of "?i + 1"] that by (auto split: if_splits)
  qed (use c(3) assms(2) in force)+
  show "cut_at (n + 1) (ids[nat n := int (length starts) - 1]) starts" if n: "0 < n"
    unfolding cut_at_def
  proof (intro conjI impI allI ballI)
    fix j assume j: "0 \<le> j \<and> j < n + 1"
    let ?i = "elt (ids[nat n := int (length starts) - 1]) j"
    have l: "0 < int (length starts)" using c(1) n by simp
    have "elt starts (int (length starts) - 1) \<in> set starts" using l by (intro elt_in_set) simp_all
    then have "elt starts (int (length starts) - 1) < n" using c(3) by blast
    then show "0 \<le> ?i" "?i < int (length starts)" "elt starts ?i \<le> j" using e [of j] j c(4) [of j] l by auto
    show "j < elt starts (?i + 1)" if "?i + 1 < int (length starts)"
      using e [of j] j c(4) [of j] that by (auto split: if_splits)
  qed (use c n in force)+
qed

lemma snode_scan_ok:
  assumes n: "0 \<le> n" and l: "int (length parent) = n" "int (length nchildren) = n" "int (length colcount) = n"
    and c: "\<And>v. 0 \<le> v \<Longrightarrow> v < n \<Longrightarrow> elt nchildren v = num_children (elt parent) n v"
  shows "ok (snode_scan n parent nchildren colcount) (\<lambda>(ids, starts). int (length ids) = n \<and> cut_at n ids starts
    \<and> (\<forall>j. 0 \<le> j \<and> j < n \<longrightarrow> (j \<in> set starts \<longleftrightarrow> snode_break (elt parent) n colcount j)))"
  unfolding snode_scan_def
proof (rule for_range_ok [where I = "\<lambda>k (ids, starts). int (length ids) = n \<and> cut_at k ids starts
    \<and> (\<forall>j. 0 \<le> j \<and> j < k \<longrightarrow> (j \<in> set starts \<longleftrightarrow> snode_break (elt parent) n colcount j))"])
  show "case (replicate (nat n) (-1), []) of (ids, starts) \<Rightarrow> int (length ids) = n \<and> cut_at 0 ids starts
    \<and> (\<forall>j. 0 \<le> j \<and> j < 0 \<longrightarrow> (j \<in> set starts \<longleftrightarrow> snode_break (elt parent) n colcount j))"
    using n by (auto simp: cut_at_def)
next
  fix k st assume k: "0 \<le> k" "k < n" and I: "case st of (ids, starts) \<Rightarrow> int (length ids) = n \<and> cut_at k ids starts
    \<and> (\<forall>j. 0 \<le> j \<and> j < k \<longrightarrow> (j \<in> set starts \<longleftrightarrow> snode_break (elt parent) n colcount j))"
  obtain ids starts where st: "st = (ids, starts)" by (cases st)
  have li: "int (length ids) = n" and cu: "cut_at k ids starts"
    and br: "\<And>j. 0 \<le> j \<Longrightarrow> j < k \<Longrightarrow> j \<in> set starts \<longleftrightarrow> snode_break (elt parent) n colcount j" using I by (simp_all add: st)
  have kn: "k \<notin> set starts" using cu by (auto simp: cut_at_def)
  have new: "new_snode parent nchildren colcount k = Some (snode_break (elt parent) n colcount k)"
    using k l c [of k] by (auto simp: new_snode_def snode_break_def vget_at)
  have v: "vset ids k x = Some (ids[nat k := x])" for x using k li by (simp add: vset_def)
  note s = cut_at_snoc [OF cu k(1)]
  show "ok (case st of (snode_id, snode_start) \<Rightarrow> do {
     new \<leftarrow> new_snode parent nchildren colcount k;
     if new then do {
       snode_id \<leftarrow> vset snode_id k (int (length snode_start));
       Some (snode_id, snode_start @ [k])
     } else do {
       snode_id \<leftarrow> vset snode_id k (int (length snode_start) - 1);
       Some (snode_id, snode_start)
     }
   }) (\<lambda>(ids, starts). int (length ids) = n \<and> cut_at (k + 1) ids starts
    \<and> (\<forall>j. 0 \<le> j \<and> j < k + 1 \<longrightarrow> (j \<in> set starts \<longleftrightarrow> snode_break (elt parent) n colcount j)))"
  proof (cases "snode_break (elt parent) n colcount k")
    case True
    have "j \<in> set (starts @ [k]) \<longleftrightarrow> snode_break (elt parent) n colcount j" if "0 \<le> j" "j < k + 1" for j
      using br [of j] True that by (cases "j = k") auto
    then show ?thesis using s(1) k li by (simp add: st new True v)
  next
    case False
    then have "k \<noteq> 0" by (simp add: snode_break_def)
    have "j \<in> set starts \<longleftrightarrow> snode_break (elt parent) n colcount j" if "0 \<le> j" "j < k + 1" for j
      using br [of j] False that kn by (cases "j = k") auto
    then show ?thesis using s(2) k li \<open>k \<noteq> 0\<close> by (simp add: st new False v)
  qed
qed (use n in \<open>simp add: max_def\<close>)


section \<open>Chains of supernodes\<close>

text \<open>Consecutive, nonempty, from \<open>a\<close> to \<open>b\<close>.\<close>

fun sn_chain :: "int \<Rightarrow> int \<Rightarrow> supernode list \<Rightarrow> bool" where
  "sn_chain a b [] \<longleftrightarrow> a = b"
| "sn_chain a b (s # ss) \<longleftrightarrow> sn_start s = a \<and> a < sn_end s \<and> sn_chain (sn_end s) b ss"

lemma sn_chain_append: "sn_chain a b (xs @ ys) \<longleftrightarrow> (\<exists>m. sn_chain a m xs \<and> sn_chain m b ys)"
  by (induction xs arbitrary: a) auto

lemma sn_chain_le: "sn_chain a b ss \<Longrightarrow> a \<le> b"
  by (induction ss arbitrary: a) force+

lemma sn_chain_range: "sn_chain a b ss \<Longrightarrow> s \<in> set ss \<Longrightarrow> a \<le> sn_start s \<and> sn_start s < sn_end s \<and> sn_end s \<le> b"
proof (induction ss arbitrary: a)
  case (Cons x ss)
  have "sn_end x \<le> b" using sn_chain_le [of "sn_end x" b ss] Cons.prems by simp
  then show ?case using Cons by fastforce
qed simp

text \<open>\<open>in_snode snodes s j\<close>: column \<open>j\<close> belongs to supernode \<open>s\<close>.\<close>

definition in_snode :: "supernode list \<Rightarrow> int \<Rightarrow> int \<Rightarrow> bool" where
  "in_snode snodes s j \<longleftrightarrow> 0 \<le> s \<and> s < int (length snodes) \<and> sn_start (elt snodes s) \<le> j \<and> j < sn_end (elt snodes s)"

lemma in_snode_Cons: "in_snode (x # ss) s j \<longleftrightarrow> s = 0 \<and> sn_start x \<le> j \<and> j < sn_end x \<or> 0 < s \<and> in_snode ss (s - 1) j"
proof -
  have "elt (x # ss) s = elt ss (s - 1)" if "0 < s" using that by (simp add: elt_def nth_Cons' nat_diff_distrib)
  then show ?thesis by (cases "s = 0") (auto simp: in_snode_def elt_def)
qed

lemma sn_chain_cover:
  assumes "sn_chain a b snodes"
  shows "a \<le> j \<Longrightarrow> j < b \<Longrightarrow> \<exists>s. in_snode snodes s j" "in_snode snodes s j \<Longrightarrow> a \<le> j \<and> j < b"
    "in_snode snodes s j \<Longrightarrow> in_snode snodes t k \<Longrightarrow> s < t \<Longrightarrow> j < k"
    "in_snode snodes s j \<Longrightarrow> in_snode snodes t j \<Longrightarrow> s = t"
proof -
  show "\<exists>s. in_snode snodes s j" if "a \<le> j" "j < b"
    using assms that
  proof (induction snodes arbitrary: a)
    case (Cons x ss)
    show ?case
    proof (cases "j < sn_end x")
      case True
      then show ?thesis using Cons.prems by (auto simp: in_snode_Cons)
    next
      case False
      then obtain s where "in_snode ss s j" using Cons.IH [of "sn_end x"] Cons.prems by auto
      then have "in_snode (x # ss) (s + 1) j" by (simp add: in_snode_Cons) (simp add: in_snode_def)
      then show ?thesis by blast
    qed
  qed simp
  have r: "\<And>snodes a s j. sn_chain a b snodes \<Longrightarrow> in_snode snodes s j \<Longrightarrow> a \<le> j \<and> j < b"
  proof -
    fix snodes a s j assume c: "sn_chain a b snodes" "in_snode snodes s j"
    then have "elt snodes s \<in> set snodes" by (simp add: in_snode_def elt_in_set)
    then show "a \<le> j \<and> j < b" using sn_chain_range [OF c(1)] c(2) by (fastforce simp: in_snode_def)
  qed
  then show "in_snode snodes s j \<Longrightarrow> a \<le> j \<and> j < b" using assms by blast
  have m: "\<And>j k s t. in_snode snodes s j \<Longrightarrow> in_snode snodes t k \<Longrightarrow> s < t \<Longrightarrow> j < k"
    using assms
  proof (induction snodes arbitrary: a)
    case (Cons x ss)
    then have c: "sn_chain (sn_end x) b ss" by simp
    have "0 \<le> s" using Cons.prems(1) by (simp add: in_snode_def)
    show ?case
    proof (cases "s = 0")
      case True
      then show ?thesis using Cons.prems r [OF c, of "t - 1" k] by (auto simp: in_snode_Cons)
    next
      case False
      then show ?thesis using Cons.IH [of "s - 1" j "t - 1" k, OF _ _ _ c] Cons.prems \<open>0 \<le> s\<close> by (auto simp: in_snode_Cons)
    qed
  qed (simp add: in_snode_def)
  then show "in_snode snodes s j \<Longrightarrow> in_snode snodes t k \<Longrightarrow> s < t \<Longrightarrow> j < k" by blast
  show "in_snode snodes s j \<Longrightarrow> in_snode snodes t j \<Longrightarrow> s = t" using m [of s j t j] m [of t j s j] by force
qed

text \<open>The chain between consecutive entries of \<open>starts @ [n]\<close>.\<close>

definition cut_snodes :: "int \<Rightarrow> int list \<Rightarrow> (int \<Rightarrow> int) \<Rightarrow> supernode list" where
  "cut_snodes n starts par = map (\<lambda>s. \<lparr>sn_start = elt starts s, sn_end = elt (starts @ [n]) (s + 1), sn_parent = par s\<rparr>)
     [0..int (length starts) - 1]"

lemma cut_snodes_elt:
  assumes "0 \<le> s" "s < int (length starts)"
  shows "elt (cut_snodes n starts par) s = \<lparr>sn_start = elt starts s, sn_end = elt (starts @ [n]) (s + 1), sn_parent = par s\<rparr>"
  using assms nth_upto [of 0 "nat s" "int (length starts) - 1"] by (simp add: cut_snodes_def elt_def)

lemma cut_snodes_length [simp]: "length (cut_snodes n starts par) = length starts"
  by (simp add: cut_snodes_def)

lemma cut_snodes_chain:
  assumes "sorted_wrt (<) starts" "\<And>j. j \<in> set starts \<Longrightarrow> j < n"
  shows "sn_chain (hd (starts @ [n])) n (cut_snodes n starts par)"
  using assms
proof (induction starts arbitrary: par)
  case Nil
  then show ?case by (simp add: cut_snodes_def)
next
  case (Cons x xs)
  have sh: "elt (x # ys) (s + 1) = elt ys s" if "0 \<le> s" for ys s using that by (simp add: elt_def nat_add_distrib)
  have "[0..int (length (x # xs)) - 1] = 0 # map (\<lambda>s. s + 1) [0..int (length xs) - 1]"
  proof -
    have "[1..int (length xs)] = map (\<lambda>s. s + 1) [0..int (length xs) - 1]" by (rule nth_equalityI) simp_all
    then show ?thesis by (simp add: upto_rec1 [of 0])
  qed
  then have "cut_snodes n (x # xs) par = \<lparr>sn_start = x, sn_end = hd (xs @ [n]), sn_parent = par 0\<rparr> # cut_snodes n xs (\<lambda>s. par (s + 1))"
    by (cases xs) (simp_all add: cut_snodes_def sh elt_def comp_def nat_add_distrib)
  moreover have "x < hd (xs @ [n])" using Cons.prems by (cases xs) auto
  ultimately show ?case using Cons by simp
qed

lemma cut_at_unique:
  assumes c: "cut_at n ids starts" and j: "0 \<le> j" "j < n" and s: "0 \<le> s" "s < int (length starts)"
  shows "in_snode (cut_snodes n starts par) s j \<longleftrightarrow> elt ids j = s"
proof -
  have so: "sorted_wrt (<) starts" and r: "\<And>j. j \<in> set starts \<Longrightarrow> j < n"
    and i: "0 \<le> elt ids j" "elt ids j < int (length starts)" "elt starts (elt ids j) \<le> j"
      "elt ids j + 1 < int (length starts) \<Longrightarrow> j < elt starts (elt ids j + 1)"
    using c j unfolding cut_at_def by blast+
  have nx: "elt (starts @ [n]) (s + 1) = (if s + 1 < int (length starts) then elt starts (s + 1) else n)" if "0 \<le> s" "s < int (length starts)" for s
    using elt_snoc [of "s + 1" starts n] that by simp
  have "in_snode (cut_snodes n starts par) (elt ids j) j"
    using i j nx [OF i(1,2)] cut_snodes_elt [OF i(1,2), of n par] by (simp add: in_snode_def)
  then show ?thesis using sn_chain_cover(4) [OF cut_snodes_chain [OF so r], of par s j "elt ids j"] by blast
qed


section \<open>The supernodes\<close>

definition snode_parent_of :: "(int \<Rightarrow> int) \<Rightarrow> int \<Rightarrow> int list \<Rightarrow> int list \<Rightarrow> int \<Rightarrow> int" where
  "snode_parent_of P n ids starts s =
     (if P (elt (starts @ [n]) (s + 1) - 1) < 0 then -1 else elt ids (P (elt (starts @ [n]) (s + 1) - 1)))"

lemma cut_last:
  assumes c: "cut_at n ids starts" and s: "0 \<le> s" "s < int (length starts)"
  shows "0 \<le> elt (starts @ [n]) (s + 1) - 1" "elt (starts @ [n]) (s + 1) - 1 < n" "elt starts s < elt (starts @ [n]) (s + 1)"
    "elt ids (elt (starts @ [n]) (s + 1) - 1) = s"
proof -
  have so: "sorted_wrt (<) starts" and r: "\<And>j. j \<in> set starts \<Longrightarrow> 0 \<le> j \<and> j < n" using c unfolding cut_at_def by blast+
  have ch: "sn_chain (hd (starts @ [n])) n (cut_snodes n starts (\<lambda>_. 0))" by (rule cut_snodes_chain) (use so r in auto)
  have "elt (cut_snodes n starts (\<lambda>_. 0)) s \<in> set (cut_snodes n starts (\<lambda>_. 0))" using s by (intro elt_in_set) simp_all
  from sn_chain_range [OF ch this] show lt: "elt starts s < elt (starts @ [n]) (s + 1)" and "elt (starts @ [n]) (s + 1) - 1 < n"
    using cut_snodes_elt [OF s] by simp_all
  have "0 \<le> elt starts s" using r elt_in_set [OF s] by blast
  then show "0 \<le> elt (starts @ [n]) (s + 1) - 1" using lt by simp
  have "in_snode (cut_snodes n starts (\<lambda>_. 0)) s (elt (starts @ [n]) (s + 1) - 1)" using s lt cut_snodes_elt [OF s] by (simp add: in_snode_def)
  then show "elt ids (elt (starts @ [n]) (s + 1) - 1) = s"
    using cut_at_unique [OF c _ _ s] \<open>0 \<le> elt (starts @ [n]) (s + 1) - 1\<close> \<open>elt (starts @ [n]) (s + 1) - 1 < n\<close> by blast
qed

text \<open>The parent supernode of a cut is later than the supernode, and holds the parent of its last column.\<close>

lemma snode_parent_later:
  assumes c: "cut_at n ids starts" and fo: "ordered_forest P n" and s: "0 \<le> s" "s < int (length starts)"
  shows "P (elt (starts @ [n]) (s + 1) - 1) = -1 \<and> snode_parent_of P n ids starts s = -1
    \<or> P (elt (starts @ [n]) (s + 1) - 1) \<noteq> -1 \<and> s < snode_parent_of P n ids starts s \<and> snode_parent_of P n ids starts s < int (length starts)
      \<and> in_snode (cut_snodes n starts par) (snode_parent_of P n ids starts s) (P (elt (starts @ [n]) (s + 1) - 1))"
proof -
  let ?last = "elt (starts @ [n]) (s + 1) - 1" and ?par = "snode_parent_of P n ids starts s" and ?sn = "cut_snodes n starts par"
  note la = cut_last [OF c s]
  have so: "sorted_wrt (<) starts" and r: "\<And>j. j \<in> set starts \<Longrightarrow> j < n" using c unfolding cut_at_def by blast+
  note ch = cut_snodes_chain [OF so r, of par]
  have p: "P ?last = -1 \<or> ?last < P ?last \<and> P ?last < n" using fo la(1,2) unfolding ordered_forest_def by blast
  show ?thesis
  proof (cases "P ?last = -1")
    case True
    then show ?thesis by (simp add: snode_parent_of_def)
  next
    case F: False
    then have q: "0 \<le> P ?last" "P ?last < n" "?last < P ?last" using p la(1) by auto
    then have ps: "?par = elt ids (P ?last)" by (simp add: snode_parent_of_def)
    have i: "0 \<le> ?par" "?par < int (length starts)" using c q(1,2) unfolding ps cut_at_def by blast+
    have inp: "in_snode ?sn ?par (P ?last)" using cut_at_unique [OF c q(1,2) i] ps by simp
    moreover have ins: "in_snode ?sn s ?last" using cut_at_unique [OF c la(1,2) s] la(4) by simp
    ultimately have "\<not> ?par < s" "?par \<noteq> s"
      using sn_chain_cover(3) [OF ch inp ins] q(3) la(3) cut_snodes_elt [OF s, of n par] by (auto simp: in_snode_def)
    then show ?thesis using F inp i by simp
  qed
qed

lemma cut_snodes_update:
  assumes "0 \<le> s" "s < int (length starts)"
  shows "(cut_snodes n starts f)[nat s := elt (cut_snodes n starts f) s\<lparr>sn_parent := x\<rparr>] = cut_snodes n starts (f(s := x))"
proof (rule nth_equalityI)
  fix i assume i: "i < length ((cut_snodes n starts f)[nat s := elt (cut_snodes n starts f) s\<lparr>sn_parent := x\<rparr>])"
  have "cut_snodes n starts g ! i = elt (cut_snodes n starts g) (int i)" for g by (simp add: elt_def)
  then show "(cut_snodes n starts f)[nat s := elt (cut_snodes n starts f) s\<lparr>sn_parent := x\<rparr>] ! i = cut_snodes n starts (f(s := x)) ! i"
    using i assms cut_snodes_elt [of "int i" starts n] cut_snodes_elt [OF assms, of n f] by (auto simp: nth_list_update)
qed simp

lemma cut_snodes_cong:
  assumes "\<And>s. 0 \<le> s \<Longrightarrow> s < int (length starts) \<Longrightarrow> f s = g s"
  shows "cut_snodes n starts f = cut_snodes n starts g"
  unfolding cut_snodes_def by (rule map_cong) (use assms in auto)

lemma detect_ok:
  assumes A: "csc_clean A" and t: "build_elimination_tree A = Some t" and n: "csc_n A \<noteq> 0"
  shows "\<exists>ids starts colcount. counts_ok (row_cols A) (csc_n A) colcount \<and> int (length ids) = csc_n A \<and> cut_at (csc_n A) ids starts
    \<and> (\<forall>j. 0 \<le> j \<and> j < csc_n A \<longrightarrow> (j \<in> set starts \<longleftrightarrow> snode_break (elt (et_parent t)) (csc_n A) colcount j))
    \<and> detect_fundamental_supernodes A t = Some (cut_snodes (csc_n A) starts (snode_parent_of (elt (et_parent t)) (csc_n A) ids starts))"
proof -
  let ?n = "csc_n A" and ?P = "elt (et_parent t)"
  note n0 = csc_cleanD(2) [OF A]
  have tr: "tree_ok (row_cols A) ?n t" by (rule ok_the [OF build_elimination_tree_ok [OF A] t])
  then have l: "int (length (et_parent t)) = ?n" and mf: "\<And>j. 0 \<le> j \<Longrightarrow> j < ?n \<Longrightarrow> min_fill (row_cols A) ?n j (?P j)"
    by (simp_all add: tree_ok_def)
  note fo = min_fill_forest [OF mf]
  obtain nc where nc: "count_children ?n (et_parent t) = Some nc" "int (length nc) = ?n" "\<And>v. 0 \<le> v \<Longrightarrow> v < ?n \<Longrightarrow> elt nc v = num_children ?P ?n v"
    using ok_ex [OF count_children_ok [OF n0 l fo]] by blast
  obtain cc where cc: "filled_col_counts A t = Some cc" "counts_ok (row_cols A) ?n cc" using ok_ex [OF filled_col_counts_ok [OF A t]] by blast
  have lc: "int (length cc) = ?n" using cc(2) by (simp add: counts_ok_def)
  obtain ids starts where sc: "snode_scan ?n (et_parent t) nc cc = Some (ids, starts)" "int (length ids) = ?n" "cut_at ?n ids starts"
    "\<forall>j. 0 \<le> j \<and> j < ?n \<longrightarrow> (j \<in> set starts \<longleftrightarrow> snode_break ?P ?n cc j)"
    using ok_ex [OF snode_scan_ok [OF n0 l nc(2) lc nc(3)]] by auto
  let ?m = "int (length starts)" and ?par = "snode_parent_of ?P ?n ids starts"
  have L1: "for_range 0 ?m (\<lambda>s result. do {
          a \<leftarrow> vget starts s;
          b \<leftarrow> (if s + 1 < ?m then vget starts (s + 1) else Some ?n);
          Some (result @ [\<lparr>sn_start = a, sn_end = b, sn_parent = -1\<rparr>])
        }) [] = Some (cut_snodes ?n starts (\<lambda>_. -1))"
  proof -
    have "for_range 0 ?m (\<lambda>s result. do {
          a \<leftarrow> vget starts s;
          b \<leftarrow> (if s + 1 < ?m then vget starts (s + 1) else Some ?n);
          Some (result @ [\<lparr>sn_start = a, sn_end = b, sn_parent = -1\<rparr>])
        }) [] = Some ([] @ map (\<lambda>s. \<lparr>sn_start = elt starts s, sn_end = elt (starts @ [?n]) (s + 1), sn_parent = -1\<rparr>) [0..?m - 1])"
    proof (rule for_range_collect)
      fix s acc assume s: "0 \<le> s" "s < ?m"
      have "(if s + 1 < ?m then vget starts (s + 1) else Some ?n) = Some (elt (starts @ [?n]) (s + 1))"
        using s elt_snoc [of "s + 1" starts ?n] by (simp add: vget_at)
      then show "do {
          a \<leftarrow> vget starts s;
          b \<leftarrow> (if s + 1 < ?m then vget starts (s + 1) else Some ?n);
          Some (acc @ [\<lparr>sn_start = a, sn_end = b, sn_parent = -1\<rparr>])
        } = Some (acc @ [\<lparr>sn_start = elt starts s, sn_end = elt (starts @ [?n]) (s + 1), sn_parent = -1\<rparr>])"
        using s by (simp add: vget_at)
    qed
    then show ?thesis by (simp add: cut_snodes_def)
  qed
  have L2: "ok (for_range 0 ?m (\<lambda>s result. do {
          sn \<leftarrow> vget result s;
          par_col \<leftarrow> vget (et_parent t) (sn_end sn - 1);
          if par_col < 0 then Some result
          else do {
            par_sn \<leftarrow> vget ids par_col;
            vset result s (sn\<lparr>sn_parent := par_sn\<rparr>)
          }
        }) (cut_snodes ?n starts (\<lambda>_. -1))) (\<lambda>r. r = cut_snodes ?n starts ?par)"
  proof (rule for_range_ok [where I = "\<lambda>k r. r = cut_snodes ?n starts (\<lambda>s. if s < k then ?par s else -1)"])
    show "cut_snodes ?n starts (\<lambda>_. -1) = cut_snodes ?n starts (\<lambda>s. if s < 0 then ?par s else -1)" by (rule cut_snodes_cong) simp
    show "r = cut_snodes ?n starts ?par" if "r = cut_snodes ?n starts (\<lambda>s. if s < max 0 ?m then ?par s else -1)" for r
      unfolding that by (rule cut_snodes_cong) simp
  next
    fix s r assume s: "0 \<le> s" "s < ?m" and r: "r = cut_snodes ?n starts (\<lambda>t. if t < s then ?par t else -1)"
    let ?f = "\<lambda>t. if t < s then ?par t else -1" and ?last = "elt (starts @ [?n]) (s + 1) - 1"
    note la = cut_last [OF sc(3) s]
    have g: "vget r s = Some (elt r s)" using s by (simp add: r vget_at)
    have en: "sn_end (elt r s) - 1 = ?last" using s by (simp add: r cut_snodes_elt)
    have gp: "vget (et_parent t) ?last = Some (?P ?last)" using la(1,2) l by (simp add: vget_at)
    have upd: "cut_snodes ?n starts (?f(s := ?par s)) = cut_snodes ?n starts (\<lambda>t. if t < s + 1 then ?par t else -1)"
      by (rule arg_cong [where f = "cut_snodes ?n starts"]) auto
    show "ok (do {
          sn \<leftarrow> vget r s;
          par_col \<leftarrow> vget (et_parent t) (sn_end sn - 1);
          if par_col < 0 then Some r
          else do {
            par_sn \<leftarrow> vget ids par_col;
            vset r s (sn\<lparr>sn_parent := par_sn\<rparr>)
          }
        }) (\<lambda>r. r = cut_snodes ?n starts (\<lambda>t. if t < s + 1 then ?par t else -1))"
    proof (cases "?P ?last < 0")
      case True
      then have "?par s = -1" by (simp add: snode_parent_of_def)
      then have "(\<lambda>t. if t < s + 1 then ?par t else -1) = ?f" by auto
      then show ?thesis using True r unfolding g bind.simps en gp by simp
    next
      case False
      moreover have "?P ?last = -1 \<or> ?last < ?P ?last \<and> ?P ?last < ?n" using fo la(1,2) unfolding ordered_forest_def by blast
      ultimately have p: "0 \<le> ?P ?last" "?P ?last < ?n" by auto
      have "vget ids (?P ?last) = Some (?par s)" using p sc(2) False by (simp add: vget_at snode_parent_of_def)
      moreover have "vset r s (elt r s\<lparr>sn_parent := ?par s\<rparr>) = Some (cut_snodes ?n starts (?f(s := ?par s)))"
        unfolding r cut_snodes_update [OF s, symmetric] using s by (simp add: vset_def)
      ultimately show ?thesis using False unfolding g bind.simps en gp upd by simp
    qed
  qed
  from ok_ex [OF L2] have "detect_fundamental_supernodes A t = Some (cut_snodes ?n starts ?par)"
    using n unfolding detect_fundamental_supernodes_def Let_def nc(1) cc(1) sc(1) bind.simps prod.case L1 by simp
  then show ?thesis using cc(2) sc(2-4) by blast
qed

text \<open>When \<open>j\<close> is the parent of \<open>j - 1\<close>, the rows of column \<open>j - 1\<close> are \<open>j\<close> and rows of column \<open>j\<close>.\<close>

lemma fill_rows_parent:
  assumes "fills nb j (j - 1)"
  shows "fill_rows nb n (j - 1) \<subseteq> insert j (fill_rows nb n j)"
proof
  fix i assume "i \<in> fill_rows nb n (j - 1)"
  then have i: "i < n" "fills nb i (j - 1)" by (simp_all add: fill_rows_def)
  show "i \<in> insert j (fill_rows nb n j)"
  proof (cases "i = j")
    case False
    then have ij: "j < i" using i(2) by (simp add: fills_def)
    obtain u w where u: "reach nb (j - 1) (j - 1) u" "edge nb u i" and w: "reach nb (j - 1) (j - 1) w" "edge nb w j"
      using i(2) assms by (auto simp: fills_def)
    have m: "reach nb j (j - 1) u" "reach nb j (j - 1) w" using reach_mono [OF u(1)] reach_mono [OF w(1)] by simp_all
    have "w \<le> j" using reach_bounds [OF w(1)] by simp
    then have "reach nb j w j" using reach_edge [OF w(2)] by simp
    then have "reach nb j j u" using m reach_sym reach_trans by blast
    then show ?thesis using ij u(2) i(1) by (auto simp: fill_rows_def fills_def)
  qed simp
qed

lemma break_iff:
  assumes mf: "\<And>j. 0 \<le> j \<Longrightarrow> j < n \<Longrightarrow> min_fill nb n j (P j)" and c: "counts_ok nb n cc" and j: "0 < j" "j < n"
  shows "snode_break P n cc j \<longleftrightarrow> \<not> (P (j - 1) = j \<and> (\<forall>c. 0 \<le> c \<and> c < n \<and> P c = j \<longrightarrow> c = j - 1)
    \<and> fill_rows nb n (j - 1) = insert j (fill_rows nb n j))"
proof (cases "P (j - 1) = j")
  case True
  have f: "fills nb j (j - 1)" using mf [of "j - 1"] True j by (simp add: min_fill_def split: if_splits)
  note sub = fill_rows_parent [OF f, of n]
  have fin: "finite (fill_rows nb n j)" by (rule finite_subset [of _ "{j..<n}"]) (auto simp: fill_rows_def fills_def)
  have nj: "j \<notin> fill_rows nb n j" by (simp add: fill_rows_def fills_def)
  have "elt cc (j - 1) = elt cc j + 1 \<longleftrightarrow> card (fill_rows nb n (j - 1)) = card (insert j (fill_rows nb n j))"
  proof -
    have "elt cc (j - 1) = 1 + int (card (fill_rows nb n (j - 1)))" "elt cc j = 1 + int (card (fill_rows nb n j))"
      using c j by (simp_all add: counts_ok_def)
    moreover have "card (insert j (fill_rows nb n j)) = Suc (card (fill_rows nb n j))" using fin nj by simp
    ultimately show ?thesis by linarith
  qed
  also have "\<dots> \<longleftrightarrow> fill_rows nb n (j - 1) = insert j (fill_rows nb n j)"
    using sub fin card_subset_eq [of "insert j (fill_rows nb n j)" "fill_rows nb n (j - 1)"] by auto
  finally have e: "elt cc (j - 1) = elt cc j + 1 \<longleftrightarrow> fill_rows nb n (j - 1) = insert j (fill_rows nb n j)" .
  have "num_children P n j = 1 \<longleftrightarrow> (\<forall>c. 0 \<le> c \<and> c < n \<and> P c = j \<longrightarrow> c = j - 1)"
  proof
    assume "num_children P n j = 1"
    then have "card {c. 0 \<le> c \<and> c < n \<and> P c = j} = 1" by (simp add: num_children_def)
    then obtain x where x: "{c. 0 \<le> c \<and> c < n \<and> P c = j} = {x}" by (rule card_1_singletonE)
    have m: "c = x" if "0 \<le> c" "c < n" "P c = j" for c
    proof -
      have "c \<in> {c. 0 \<le> c \<and> c < n \<and> P c = j}" using that by simp
      then show ?thesis unfolding x by simp
    qed
    have "j - 1 = x" by (rule m) (use True j in auto)
    then show "\<forall>c. 0 \<le> c \<and> c < n \<and> P c = j \<longrightarrow> c = j - 1" using m by blast
  next
    assume "\<forall>c. 0 \<le> c \<and> c < n \<and> P c = j \<longrightarrow> c = j - 1"
    then have "{c. 0 \<le> c \<and> c < n \<and> P c = j} = {j - 1}" using True j by auto
    then show "num_children P n j = 1" by (simp add: num_children_def)
  qed
  then show ?thesis using True e j by (auto simp: snode_break_def)
qed (use j in \<open>simp add: snode_break_def\<close>)

lemma cut_same:
  assumes c: "cut_at n ids starts" and j: "0 < j" "j < n"
  shows "(\<exists>s. in_snode (cut_snodes n starts par) s (j - 1) \<and> in_snode (cut_snodes n starts par) s j) \<longleftrightarrow> j \<notin> set starts"
proof -
  let ?sn = "cut_snodes n starts par" let ?i = "elt ids j"
  have so: "sorted_wrt (<) starts" and r: "\<And>j. j \<in> set starts \<Longrightarrow> j < n"
    and i: "0 \<le> ?i" "?i < int (length starts)" "elt starts ?i \<le> j" "?i + 1 < int (length starts) \<Longrightarrow> j < elt starts (?i + 1)"
    using c j unfolding cut_at_def by (blast dest: less_imp_le)+
  note ch = cut_snodes_chain [OF so r]
  have inj: "in_snode ?sn ?i j" using cut_at_unique [OF c _ j(2) i(1,2)] j by simp
  show ?thesis
  proof
    assume "\<exists>s. in_snode ?sn s (j - 1) \<and> in_snode ?sn s j"
    then obtain s where s: "in_snode ?sn s (j - 1)" "in_snode ?sn s j" by blast
    show "j \<notin> set starts"
    proof
      assume "j \<in> set starts"
      then obtain t where t: "0 \<le> t" "t < int (length starts)" "elt starts t = j" by (auto simp: in_set_elt)
      have "in_snode ?sn t j" using cut_last(3) [OF c t(1,2)] t cut_snodes_elt [OF t(1,2)] by (simp add: in_snode_def)
      then have "t = s" using sn_chain_cover(4) [OF ch _ s(2)] by blast
      then show False using s(1) t cut_snodes_elt [OF t(1,2)] by (simp add: in_snode_def)
    qed
  next
    assume "j \<notin> set starts"
    then have "elt starts ?i \<noteq> j" using elt_in_set [OF i(1,2)] by auto
    then have "in_snode ?sn ?i (j - 1)" using inj i cut_snodes_elt [OF i(1,2)] by (auto simp: in_snode_def)
    then show "\<exists>s. in_snode ?sn s (j - 1) \<and> in_snode ?sn s j" using inj by blast
  qed
qed

section \<open>Properties\<close>

text \<open>C2: \<open>detect_fundamental_supernodes\<close>, given a clean lower triangle and its elimination tree, cuts the columns into
  consecutive nonempty supernodes that cover them; two neighbouring columns are in one supernode exactly when the left
  one is the right one's only child and has the same rows in the factor (but for the diagonal). The parent of a supernode
  is the one holding the parent of its last column, a later one, or -1 at a root.\<close>

theorem detect_fundamental_correct:
  assumes A: "csc_clean A" and t: "build_elimination_tree A = Some t"
  shows "\<exists>snodes. detect_fundamental_supernodes A t = Some snodes \<and> sn_chain 0 (csc_n A) snodes \<and> parents_later snodes
    \<and> (\<forall>j. 0 < j \<and> j < csc_n A \<longrightarrow> ((\<exists>s. in_snode snodes s (j - 1) \<and> in_snode snodes s j) \<longleftrightarrow>
        elt (et_parent t) (j - 1) = j \<and> (\<forall>c. 0 \<le> c \<and> c < csc_n A \<and> elt (et_parent t) c = j \<longrightarrow> c = j - 1)
        \<and> (\<forall>i < csc_n A. fills (row_cols A) i (j - 1) \<longleftrightarrow> i = j \<or> fills (row_cols A) i j)))
    \<and> (\<forall>s. 0 \<le> s \<and> s < int (length snodes) \<longrightarrow>
        (if elt (et_parent t) (sn_end (elt snodes s) - 1) = -1 then sn_parent (elt snodes s) = -1
         else in_snode snodes (sn_parent (elt snodes s)) (elt (et_parent t) (sn_end (elt snodes s) - 1))))"
proof (cases "csc_n A = 0")
  case True
  then have "detect_fundamental_supernodes A t = Some []" "parents_later []" "sn_chain 0 (csc_n A) []"
    by (simp_all add: detect_fundamental_supernodes_def parents_later_def)
  moreover have "\<not> (0 < j \<and> j < csc_n A)" for j using True by simp
  moreover have "\<not> (0 \<le> s \<and> s < int (length ([] :: supernode list)))" for s by simp
  ultimately show ?thesis by blast
next
  case False
  let ?n = "csc_n A" and ?P = "elt (et_parent t)" and ?nb = "row_cols A"
  obtain ids starts cc where d: "counts_ok ?nb ?n cc" "int (length ids) = ?n" "cut_at ?n ids starts"
    "\<And>j. 0 \<le> j \<Longrightarrow> j < ?n \<Longrightarrow> j \<in> set starts \<longleftrightarrow> snode_break ?P ?n cc j"
    "detect_fundamental_supernodes A t = Some (cut_snodes ?n starts (snode_parent_of ?P ?n ids starts))"
    using detect_ok [OF A t False] by blast
  let ?par = "snode_parent_of ?P ?n ids starts" let ?sn = "cut_snodes ?n starts ?par"
  have n: "0 < ?n" using False csc_cleanD(2) [OF A] by simp
  have mf: "\<And>j. 0 \<le> j \<Longrightarrow> j < ?n \<Longrightarrow> min_fill ?nb ?n j (?P j)"
    using ok_the [OF build_elimination_tree_ok [OF A] t] by (simp add: tree_ok_def)
  note fo = min_fill_forest [OF mf]
  have st: "starts \<noteq> []" "hd starts = 0" "sorted_wrt (<) starts" "\<And>j. j \<in> set starts \<Longrightarrow> j < ?n" using d(3) n unfolding cut_at_def by blast+
  have ch: "sn_chain 0 ?n ?sn" using cut_snodes_chain [OF st(3,4), of ?par] st(1,2) by (cases starts) simp_all
  have par: "(if ?P (sn_end (elt ?sn s) - 1) = -1 then sn_parent (elt ?sn s) = -1
      else in_snode ?sn (sn_parent (elt ?sn s)) (?P (sn_end (elt ?sn s) - 1)))
      \<and> (sn_parent (elt ?sn s) < 0 \<or> s < sn_parent (elt ?sn s) \<and> sn_parent (elt ?sn s) < int (length starts))"
    if s: "0 \<le> s" "s < int (length starts)" for s
    using snode_parent_later [OF d(3) fo s, of ?par] cut_snodes_elt [OF s, of ?n ?par] by auto
  have same: "(\<exists>s. in_snode ?sn s (j - 1) \<and> in_snode ?sn s j) \<longleftrightarrow> ?P (j - 1) = j \<and> (\<forall>c. 0 \<le> c \<and> c < ?n \<and> ?P c = j \<longrightarrow> c = j - 1)
      \<and> (\<forall>i < ?n. fills ?nb i (j - 1) \<longleftrightarrow> i = j \<or> fills ?nb i j)" if j: "0 < j" "j < ?n" for j
  proof -
    have "fill_rows ?nb ?n (j - 1) = insert j (fill_rows ?nb ?n j) \<longleftrightarrow> (\<forall>i < ?n. fills ?nb i (j - 1) \<longleftrightarrow> i = j \<or> fills ?nb i j)"
      using j(2) by (auto simp: fill_rows_def set_eq_iff)
    note rw = this
    have "j \<in> set starts \<longleftrightarrow> snode_break ?P ?n cc j" by (rule d(4)) (use j in auto)
    then show ?thesis unfolding cut_same [OF d(3) j, of ?par] rw [symmetric] using break_iff [OF mf d(1) j] by blast
  qed
  have "parents_later ?sn" using par by (simp add: parents_later_def)
  then show ?thesis using d(5) ch same par by (intro exI [of _ ?sn]) simp
qed

theorem detect_fundamental_correct_witness:
  "\<exists>t snodes. build_elimination_tree example_clean = Some t \<and> detect_fundamental_supernodes example_clean t = Some snodes
    \<and> sn_chain 0 4 snodes \<and> parents_later snodes"
proof -
  have n: "csc_n example_clean = 4" by (simp add: example_clean_def)
  obtain t where t: "build_elimination_tree example_clean = Some t" using ok_ex [OF build_elimination_tree_ok [OF example_clean_ok]] by blast
  show ?thesis using t detect_fundamental_correct [OF example_clean_ok t] unfolding n by blast
qed

end
