(* ===== verification/Amalgamate.thy ===== *)
theory Amalgamate
  imports Supernodes
begin

text \<open>
  \<open>amalgamate_supernodes\<close> of \<open>src/supernode_detection.cpp\<close>: one bottom-up sweep merges a supernode into the parent that
  directly follows it when both are narrower than \<open>nemin\<close>. The sweep's state is the supernodes, whose first columns it
  moves, and the marks of the merged ones. The theorem describes the result completely: which neighbours share an output,
  and the parents.
\<close>

section \<open>The code\<close>

definition merge_into_parent :: "int \<Rightarrow> int list \<Rightarrow> int \<Rightarrow> supernode list \<times> bool list \<Rightarrow> (supernode list \<times> bool list) option" where
  "merge_into_parent nemin new_parent s = (\<lambda>(supernodes, dead). do {
     d \<leftarrow> vget dead s;
     if d then Some (supernodes, dead)
     else do {
       p \<leftarrow> vget new_parent s;
       if p < 0 then Some (supernodes, dead)
       else do {
         dp \<leftarrow> vget dead p;
         if dp then Some (supernodes, dead)
         else do {
           sn \<leftarrow> vget supernodes s;
           pn \<leftarrow> vget supernodes p;
           if width sn < nemin \<and> width pn < nemin \<and> sn_end sn = sn_start pn then do {
             supernodes \<leftarrow> vset supernodes p (pn\<lparr>sn_start := sn_start sn\<rparr>);
             dead \<leftarrow> vset dead s True;
             Some (supernodes, dead)
           } else Some (supernodes, dead)
         }
       }
     }
   })"

definition survivors :: "int \<Rightarrow> bool list \<Rightarrow> int list option" where
  "survivors nsn dead = for_range 0 nsn (\<lambda>s valid. do {
     d \<leftarrow> vget dead s;
     Some (if d then valid else valid @ [s])
   }) []"

definition live_parent :: "bool list \<Rightarrow> int list \<Rightarrow> int \<Rightarrow> int option" where
  "live_parent dead new_parent = loop (\<lambda>par.
     if par \<ge> 0 then do {
       d \<leftarrow> vget dead par;
       if d then do {
         q \<leftarrow> vget new_parent par;
         Some (Inr q)
       } else Some (Inl par)
     } else Some (Inl par))"

definition amalgamate_supernodes :: "supernode list \<Rightarrow> int \<Rightarrow> supernode list option" where
  "amalgamate_supernodes supernodes nemin =
     (if nemin \<le> 1 then Some supernodes
      else do {
        let nsn = int (length supernodes);
        let new_parent = map sn_parent supernodes;
        (supernodes, dead) \<leftarrow> for_range 0 nsn (merge_into_parent nemin new_parent) (supernodes, replicate (nat nsn) False);
        valid \<leftarrow> survivors nsn dead;
        let nr = int (length valid);
        orig_to_ri \<leftarrow> for_range 0 nr (\<lambda>i orig_to_ri. do {
          s \<leftarrow> vget valid i;
          vset orig_to_ri s i
        }) (replicate (nat nsn) (-1));
        result \<leftarrow> for_range 0 nr (\<lambda>i result. do {
          s \<leftarrow> vget valid i;
          sn \<leftarrow> vget supernodes s;
          Some (result @ [\<lparr>sn_start = sn_start sn, sn_end = sn_end sn, sn_parent = -1\<rparr>])
        }) [];
        for_range 0 nr (\<lambda>i result. do {
          s \<leftarrow> vget valid i;
          q \<leftarrow> vget new_parent s;
          par \<leftarrow> live_parent dead new_parent q;
          if par < 0 then Some result
          else do {
            ri_par \<leftarrow> vget orig_to_ri par;
            r \<leftarrow> vget result i;
            vset result i (r\<lparr>sn_parent := ri_par\<rparr>)
          }
        }) result
      })"

section \<open>The groups the sweep forms\<close>

text \<open>The first column of the group that ends with the \<open>k\<close>th supernode, and whether that supernode joins the next one.\<close>

fun group_start :: "int \<Rightarrow> supernode list \<Rightarrow> nat \<Rightarrow> int" where
  "group_start nemin sns 0 = sn_start (sns ! 0)"
| "group_start nemin sns (Suc k) =
     (if sn_parent (sns ! k) = int k + 1 \<and> sn_end (sns ! k) - group_start nemin sns k < nemin \<and> width (sns ! Suc k) < nemin
      then group_start nemin sns k else sn_start (sns ! Suc k))"

definition joins :: "int \<Rightarrow> supernode list \<Rightarrow> int \<Rightarrow> bool" where
  "joins nemin sns s \<longleftrightarrow> sn_parent (elt sns s) = s + 1 \<and> sn_end (elt sns s) - group_start nemin sns (nat s) < nemin
     \<and> width (elt sns (s + 1)) < nemin"

definition group_no :: "int \<Rightarrow> supernode list \<Rightarrow> int \<Rightarrow> int" where
  "group_no nemin sns s = int (length (filter (\<lambda>t. \<not> joins nemin sns t) [0..s - 1]))"

lemma group_start_next:
  assumes "0 \<le> s"
  shows "group_start nemin sns (nat (s + 1)) = (if joins nemin sns s then group_start nemin sns (nat s) else sn_start (elt sns (s + 1)))"
proof -
  have "nat (s + 1) = Suc (nat s)" using assms by simp
  then show ?thesis using assms by (simp add: joins_def elt_def)
qed

lemma upto_snoc: "lo \<le> hi \<Longrightarrow> [lo..hi] = [lo..hi - 1] @ [hi]" for lo :: int
  by (rule upto_rec2)

lemma group_no_next: "0 \<le> s \<Longrightarrow> group_no nemin sns (s + 1) = group_no nemin sns s + (if joins nemin sns s then 0 else 1)"
  unfolding group_no_def using upto_snoc [of 0 s] by simp

lemma group_no_mono:
  assumes "0 \<le> s" "s \<le> t"
  shows "group_no nemin sns s \<le> group_no nemin sns t"
  using assms(2) by (induction t rule: int_ge_induct) (use assms(1) group_no_next in force)+

text \<open>Neighbours in a chain touch; others do not.\<close>

lemma sn_chain_elt:
  assumes "sn_chain a b sns" "0 \<le> s" "s < int (length sns)"
  shows "sn_start (elt sns s) = (if s = 0 then a else sn_end (elt sns (s - 1)))" "sn_start (elt sns s) < sn_end (elt sns s)"
    "s = int (length sns) - 1 \<Longrightarrow> sn_end (elt sns s) = b"
proof -
  have "sn_start (sns ! k) = (if k = 0 then a else sn_end (sns ! (k - 1))) \<and> sn_start (sns ! k) < sn_end (sns ! k)
      \<and> (k = length sns - 1 \<longrightarrow> sn_end (sns ! k) = b)" if "k < length sns" for k
    using assms(1) that
  proof (induction sns arbitrary: a k)
    case (Cons x xs)
    show ?case
    proof (cases k)
      case 0
      then show ?thesis using Cons.prems by (cases xs) simp_all
    next
      case (Suc i)
      then have "i < length xs" using Cons.prems by simp
      moreover have "Suc i = length (x # xs) - 1 \<longleftrightarrow> i = length xs - 1" using \<open>i < length xs\<close> by auto
      moreover have "sn_chain (sn_end x) b xs" using Cons.prems(1) by simp
      ultimately show ?thesis using Cons.IH [of "sn_end x" i] unfolding Suc nth_Cons_Suc by (cases i) simp_all
    qed
  qed simp
  note K = this
  have ns: "nat s < length sns" using assms(2,3) by simp
  show "sn_start (elt sns s) = (if s = 0 then a else sn_end (elt sns (s - 1)))" using K [OF ns] assms(2) by (simp add: elt_def nat_diff_distrib)
  show "sn_start (elt sns s) < sn_end (elt sns s)" using K [OF ns] unfolding elt_def by blast
  show "sn_end (elt sns s) = b" if "s = int (length sns) - 1"
  proof -
    have "nat s = length sns - 1" using that by simp
    then show ?thesis using K [OF ns] unfolding elt_def by blast
  qed
qed

lemma sn_chain_touch:
  assumes c: "sn_chain a b sns" and s: "0 \<le> s" "s < p" "p < int (length sns)"
  shows "sn_end (elt sns s) = sn_start (elt sns p) \<longleftrightarrow> p = s + 1"
proof -
  have "s + 1 \<le> p \<Longrightarrow> p < int (length sns) \<Longrightarrow> sn_end (elt sns s) \<le> sn_start (elt sns p) \<and> (s + 1 < p \<longrightarrow> sn_end (elt sns s) < sn_start (elt sns p))"
  proof (induction p rule: int_ge_induct)
    case base
    then show ?case using sn_chain_elt(1) [OF c, of "s + 1"] s by simp
  next
    case (step p)
    have "sn_start (elt sns (p + 1)) = sn_end (elt sns p)" using sn_chain_elt(1) [OF c, of "p + 1"] step.prems step.hyps s by simp
    moreover have "sn_start (elt sns p) < sn_end (elt sns p)" using sn_chain_elt(2) [OF c, of p] step.prems step.hyps s by simp
    ultimately show ?case using step by simp
  qed
  then show ?thesis using s sn_chain_elt(1) [OF c, of "s + 1"] by auto
qed

section \<open>The sweep\<close>

definition sweep_inv :: "int \<Rightarrow> supernode list \<Rightarrow> int \<Rightarrow> supernode list \<times> bool list \<Rightarrow> bool" where
  "sweep_inv nemin sns k = (\<lambda>(cur, dead). length cur = length sns \<and> length dead = length sns
     \<and> (\<forall>s. 0 \<le> s \<and> s < int (length sns) \<longrightarrow>
         elt cur s = elt sns s\<lparr>sn_start := if s \<le> k then group_start nemin sns (nat s) else sn_start (elt sns s)\<rparr>
         \<and> (elt dead s \<longleftrightarrow> s < k \<and> joins nemin sns s)))"

lemma width_set_start [simp]: "width (sn\<lparr>sn_start := a\<rparr>) = sn_end sn - a"
  by (simp add: width_def)

lemma sweep_step:
  assumes c: "sn_chain a b sns" and p: "parents_later sns" and k: "0 \<le> k" "k < int (length sns)" and I: "sweep_inv nemin sns k (cur, dead)"
  shows "ok (merge_into_parent nemin (map sn_parent sns) k (cur, dead)) (sweep_inv nemin sns (k + 1))"
proof -
  let ?m = "int (length sns)" and ?p = "sn_parent (elt sns k)"
  have l: "length cur = length sns" "length dead = length sns" using I by (simp_all add: sweep_inv_def)
  have cur: "elt cur s = elt sns s\<lparr>sn_start := if s \<le> k then group_start nemin sns (nat s) else sn_start (elt sns s)\<rparr>"
    and dead: "elt dead s \<longleftrightarrow> s < k \<and> joins nemin sns s" if "0 \<le> s" "s < ?m" for s
    using I that by (simp_all add: sweep_inv_def)
  have gd: "vget dead k = Some False" using k l dead [OF k] by (simp add: vget_at)
  have gp: "vget (map sn_parent sns) k = Some ?p" using k by (simp add: vget_at elt_def)
  have stay: "sweep_inv nemin sns (k + 1) (cur, dead)" if n: "\<not> joins nemin sns k"
  proof -
    have "elt cur s = elt sns s\<lparr>sn_start := if s \<le> k + 1 then group_start nemin sns (nat s) else sn_start (elt sns s)\<rparr>"
      if s: "0 \<le> s" "s < ?m" for s
      using cur [OF s] group_start_next [OF k(1), of nemin sns] n by (cases "s = k + 1") auto
    moreover have "elt dead s \<longleftrightarrow> s < k + 1 \<and> joins nemin sns s" if s: "0 \<le> s" "s < ?m" for s
      using dead [OF s] n by (cases "s = k") auto
    ultimately show ?thesis using l by (simp add: sweep_inv_def)
  qed
  show ?thesis
  proof (cases "?p < 0")
    case True
    then show ?thesis using stay k by (simp add: merge_into_parent_def gd gp joins_def del: ok_bind)
  next
    case False
    then have q: "k < ?p" "?p < ?m" "0 \<le> ?p" using p k by (auto simp: parents_later_def)
    have dp: "vget dead ?p = Some False" using q l dead [of ?p] by (simp add: vget_at)
    have gs: "vget cur k = Some (elt sns k\<lparr>sn_start := group_start nemin sns (nat k)\<rparr>)" using k l cur [OF k] by (simp add: vget_at)
    have gq: "vget cur ?p = Some (elt sns ?p)" using q l cur [of ?p] by (simp add: vget_at)
    let ?c = "sn_end (elt sns k) - group_start nemin sns (nat k) < nemin \<and> width (elt sns ?p) < nemin \<and> sn_end (elt sns k) = sn_start (elt sns ?p)"
    have iff: "?c \<longleftrightarrow> joins nemin sns k" using sn_chain_touch [OF c k(1) q(1,2)] by (auto simp: joins_def)
    show ?thesis
    proof (cases "joins nemin sns k")
      case j: True
      then have pk: "?p = k + 1" by (simp add: joins_def)
      let ?cur = "cur[nat ?p := elt sns ?p\<lparr>sn_start := group_start nemin sns (nat k)\<rparr>]" and ?dead = "dead[nat k := True]"
      have "elt ?cur s = elt sns s\<lparr>sn_start := if s \<le> k + 1 then group_start nemin sns (nat s) else sn_start (elt sns s)\<rparr>"
        if s: "0 \<le> s" "s < ?m" for s
        using cur [OF s] group_start_next [OF k(1), of nemin sns] j at_update [of s ?p cur] s q l pk by (cases "s = k + 1") auto
      moreover have "elt ?dead s \<longleftrightarrow> s < k + 1 \<and> joins nemin sns s" if s: "0 \<le> s" "s < ?m" for s
        using dead [OF s] j at_update [of s k dead] s k l by (cases "s = k") auto
      ultimately have "sweep_inv nemin sns (k + 1) (?cur, ?dead)" using l by (simp add: sweep_inv_def)
      moreover have "vset cur ?p (elt sns ?p\<lparr>sn_start := group_start nemin sns (nat k)\<rparr>) = Some ?cur" "vset dead k True = Some ?dead"
        using q k l by (simp_all add: vset_def inb_def)
      ultimately show ?thesis using False iff j by (simp add: merge_into_parent_def gd gp dp gs gq del: ok_bind)
    next
      case nj: False
      then have "\<not> ?c" using iff by blast
      then show ?thesis using stay [OF nj] False by (auto simp: merge_into_parent_def gd gp dp gs gq simp del: ok_bind)
    qed
  qed
qed

section \<open>Collecting the groups\<close>

definition group_ends :: "int \<Rightarrow> supernode list \<Rightarrow> int list" where
  "group_ends nemin sns = filter (\<lambda>s. \<not> joins nemin sns s) [0..int (length sns) - 1]"

definition group_parent :: "int \<Rightarrow> supernode list \<Rightarrow> int \<Rightarrow> int" where
  "group_parent nemin sns s = (if sn_parent (elt sns s) < 0 then -1 else group_no nemin sns (sn_parent (elt sns s)))"

definition group_snode :: "int \<Rightarrow> supernode list \<Rightarrow> int \<Rightarrow> supernode" where
  "group_snode nemin sns s = \<lparr>sn_start = group_start nemin sns (nat s), sn_end = sn_end (elt sns s), sn_parent = group_parent nemin sns s\<rparr>"

lemma group_ends_elt:
  assumes "0 \<le> s" "s < int (length sns)" "\<not> joins nemin sns s"
  shows "elt (group_ends nemin sns) (group_no nemin sns s) = s" "0 \<le> group_no nemin sns s"
    "group_no nemin sns s < int (length (group_ends nemin sns))"
proof -
  have "[0..int (length sns) - 1] = [0..s - 1] @ s # [s + 1..int (length sns) - 1]"
    by (rule upto_split3) (use assms(1,2) in simp_all)
  then have e: "group_ends nemin sns = filter (\<lambda>t. \<not> joins nemin sns t) [0..s - 1] @ s # filter (\<lambda>t. \<not> joins nemin sns t) [s + 1..int (length sns) - 1]"
    using assms(3) by (simp add: group_ends_def)
  show "elt (group_ends nemin sns) (group_no nemin sns s) = s" unfolding e by (simp add: group_no_def elt_def)
  show "0 \<le> group_no nemin sns s" "group_no nemin sns s < int (length (group_ends nemin sns))" unfolding e by (simp_all add: group_no_def)
qed

lemma group_ends_cases:
  assumes "0 \<le> i" "i < int (length (group_ends nemin sns))"
  obtains s where "elt (group_ends nemin sns) i = s" "0 \<le> s" "s < int (length sns)" "\<not> joins nemin sns s" "group_no nemin sns s = i"
proof -
  let ?v = "group_ends nemin sns" let ?s = "elt ?v i"
  have "?s \<in> set ?v" using assms by (rule elt_in_set)
  then have s: "0 \<le> ?s" "?s < int (length sns)" "\<not> joins nemin sns ?s" by (auto simp: group_ends_def)
  have d: "distinct ?v" by (simp add: group_ends_def)
  have "nat (group_no nemin sns ?s) = nat i"
    using group_ends_elt [OF s] assms nth_eq_iff_index_eq [OF d, of "nat (group_no nemin sns ?s)" "nat i"] by (simp add: elt_def)
  then have "group_no nemin sns ?s = i" using group_ends_elt(2) [OF s] assms(1) by simp
  then show ?thesis using that [OF HOL.refl s] by blast
qed

lemma survivors_ok:
  assumes I: "sweep_inv nemin sns (int (length sns)) (cur, dead)"
  shows "survivors (int (length sns)) dead = Some (group_ends nemin sns)"
proof -
  have "ok (survivors (int (length sns)) dead) (\<lambda>v. v = group_ends nemin sns)"
    unfolding survivors_def
  proof (rule for_range_ok [where I = "\<lambda>k v. v = filter (\<lambda>s. \<not> joins nemin sns s) [0..k - 1]"])
    fix s v assume s: "0 \<le> s" "s < int (length sns)" and v: "v = filter (\<lambda>s. \<not> joins nemin sns s) [0..s - 1]"
    have "vget dead s = Some (joins nemin sns s)" using I s by (simp add: sweep_inv_def vget_at)
    then show "ok (do { d \<leftarrow> vget dead s; Some (if d then v else v @ [s]) }) (\<lambda>v. v = filter (\<lambda>s. \<not> joins nemin sns s) [0..s + 1 - 1])"
      using v upto_snoc [of 0 s] s by (simp del: ok_bind)
  qed (simp_all add: group_ends_def)
  from ok_ex [OF this] show ?thesis by simp
qed

lemma joins_next: "joins nemin sns s \<Longrightarrow> sn_parent (elt sns s) = s + 1"
  by (simp add: joins_def)

lemma live_parent_ok:
  assumes p: "parents_later sns" and I: "sweep_inv nemin sns (int (length sns)) (cur, dead)"
    and q: "q < 0 \<or> q < int (length sns)"
  shows "ok (live_parent dead (map sn_parent sns) q)
    (\<lambda>r. if q < 0 then r = q else 0 \<le> r \<and> r < int (length sns) \<and> \<not> joins nemin sns r \<and> group_no nemin sns r = group_no nemin sns q)"
  unfolding live_parent_def
proof (rule loop_ok [where I = "\<lambda>r. if q < 0 then r = q else 0 \<le> r \<and> r < int (length sns) \<and> group_no nemin sns r = group_no nemin sns q"
    and m = "\<lambda>r. nat (int (length sns) - r)"])
  fix r assume r: "if q < 0 then r = q else 0 \<le> r \<and> r < int (length sns) \<and> group_no nemin sns r = group_no nemin sns q"
  show "ok (if r \<ge> 0 then do { d \<leftarrow> vget dead r; if d then do { q \<leftarrow> vget (map sn_parent sns) r; Some (Inr q) } else Some (Inl r) } else Some (Inl r))
    (\<lambda>x. case x of
        Inl r \<Rightarrow> if q < 0 then r = q else 0 \<le> r \<and> r < int (length sns) \<and> \<not> joins nemin sns r \<and> group_no nemin sns r = group_no nemin sns q
      | Inr r' \<Rightarrow> (if q < 0 then r' = q else 0 \<le> r' \<and> r' < int (length sns) \<and> group_no nemin sns r' = group_no nemin sns q)
          \<and> nat (int (length sns) - r') < nat (int (length sns) - r))"
  proof (cases "q < 0")
    case False
    then have r: "0 \<le> r" "r < int (length sns)" "group_no nemin sns r = group_no nemin sns q" using r by simp_all
    have d: "vget dead r = Some (joins nemin sns r)" using I r by (simp add: sweep_inv_def vget_at)
    have g: "vget (map sn_parent sns) r = Some (sn_parent (elt sns r))" using r by (simp add: vget_at elt_def)
    show ?thesis
    proof (cases "joins nemin sns r")
      case True
      then have pr: "sn_parent (elt sns r) = r + 1" by (rule joins_next)
      have "r + 1 < int (length sns)" using p r(1,2) pr unfolding parents_later_def by force
      then show ?thesis using True False r g d pr group_no_next [OF r(1), of nemin sns] by simp
    qed (use False r d in simp)
  qed (use r in simp)
qed (use q in auto)

definition indexed_upto :: "int \<Rightarrow> supernode list \<Rightarrow> int \<Rightarrow> int list \<Rightarrow> bool" where
  "indexed_upto nemin sns i o' \<longleftrightarrow> length o' = length sns
     \<and> (\<forall>s. 0 \<le> s \<and> s < int (length sns) \<and> \<not> joins nemin sns s \<and> group_no nemin sns s < i \<longrightarrow> elt o' s = group_no nemin sns s)"

lemma indexed_step:
  assumes i: "0 \<le> i" "i < int (length (group_ends nemin sns))" and o': "indexed_upto nemin sns i o'"
  shows "ok (do { s \<leftarrow> vget (group_ends nemin sns) i; vset o' s i }) (indexed_upto nemin sns (i + 1))"
proof -
  obtain s where s: "elt (group_ends nemin sns) i = s" "0 \<le> s" "s < int (length sns)" "\<not> joins nemin sns s" "group_no nemin sns s = i"
    by (rule group_ends_cases [OF i])
  have l: "length o' = length sns" and e: "\<And>t. 0 \<le> t \<Longrightarrow> t < int (length sns) \<Longrightarrow> \<not> joins nemin sns t \<Longrightarrow> group_no nemin sns t < i \<Longrightarrow> elt o' t = group_no nemin sns t"
    using o' unfolding indexed_upto_def by blast+
  have "elt (o'[nat s := i]) t = group_no nemin sns t"
    if t: "0 \<le> t" "t < int (length sns)" "\<not> joins nemin sns t" "group_no nemin sns t < i + 1" for t
  proof (cases "group_no nemin sns t = i")
    case True
    then have "t = s" using group_ends_elt(1) [OF t(1-3)] s(1) by metis
    then show ?thesis using at_update [of t s o' i] t(1) s(2,3) l True by simp
  next
    case False
    then have "t \<noteq> s" "group_no nemin sns t < i" using s(5) t(4) by auto
    then show ?thesis using at_update [of t s o' i] t(1) s(2,3) l e [OF t(1-3)] by simp
  qed
  then have "indexed_upto nemin sns (i + 1) (o'[nat s := i])" using l unfolding indexed_upto_def by simp
  moreover have "vget (group_ends nemin sns) i = Some s" "vset o' s i = Some (o'[nat s := i])" using i s(1-3) l by (simp_all add: vget_at vset_def)
  ultimately show ?thesis by (simp only: bind.simps ok_Some)
qed

lemma index_groups_ok:
  "ok (for_range 0 (int (length (group_ends nemin sns))) (\<lambda>i orig_to_ri. do { s \<leftarrow> vget (group_ends nemin sns) i; vset orig_to_ri s i }) (replicate (length sns) (-1)))
    (\<lambda>o'. length o' = length sns \<and> (\<forall>s. 0 \<le> s \<and> s < int (length sns) \<and> \<not> joins nemin sns s \<longrightarrow> elt o' s = group_no nemin sns s))"
proof (rule for_range_ok [where I = "indexed_upto nemin sns", OF _ indexed_step])
  have "0 \<le> group_no nemin sns s" for s by (simp add: group_no_def)
  then have "\<not> group_no nemin sns s < 0" for s by (simp add: not_less)
  then show "indexed_upto nemin sns 0 (replicate (length sns) (-1))" unfolding indexed_upto_def by (simp only: length_replicate) blast
next
  fix o' assume o': "indexed_upto nemin sns (max 0 (int (length (group_ends nemin sns)))) o'"
  have "elt o' s = group_no nemin sns s" if "0 \<le> s" "s < int (length sns)" "\<not> joins nemin sns s" for s
    using o' that group_ends_elt(3) [OF that] unfolding indexed_upto_def by simp
  then show "length o' = length sns \<and> (\<forall>s. 0 \<le> s \<and> s < int (length sns) \<and> \<not> joins nemin sns s \<longrightarrow> elt o' s = group_no nemin sns s)"
    using o' unfolding indexed_upto_def by blast
qed

definition fresh_snode :: "int \<Rightarrow> supernode list \<Rightarrow> int \<Rightarrow> supernode" where
  "fresh_snode nemin sns s = \<lparr>sn_start = group_start nemin sns (nat s), sn_end = sn_end (elt sns s), sn_parent = -1\<rparr>"

definition linked_upto :: "int \<Rightarrow> supernode list \<Rightarrow> int \<Rightarrow> supernode list \<Rightarrow> bool" where
  "linked_upto nemin sns k r \<longleftrightarrow> length r = length (group_ends nemin sns) \<and> (\<forall>i. 0 \<le> i \<and> i < int (length (group_ends nemin sns)) \<longrightarrow>
     elt r i = (if i < k then group_snode else fresh_snode) nemin sns (elt (group_ends nemin sns) i))"

lemma linked_upto_start: "linked_upto nemin sns 0 (map (\<lambda>i. fresh_snode nemin sns (elt (group_ends nemin sns) i)) [0..int (length (group_ends nemin sns)) - 1])"
  by (auto simp: linked_upto_def elt_def)

lemma linked_upto_end:
  assumes "linked_upto nemin sns (int (length (group_ends nemin sns))) r"
  shows "r = map (group_snode nemin sns) (group_ends nemin sns)"
proof (rule nth_equalityI)
  fix i assume "i < length r"
  then show "r ! i = map (group_snode nemin sns) (group_ends nemin sns) ! i"
    using assms [unfolded linked_upto_def, THEN conjunct2, rule_format, of "int i"] assms by (simp add: elt_def linked_upto_def)
qed (use assms in \<open>simp add: linked_upto_def\<close>)

lemma linked_upto_next:
  assumes r: "linked_upto nemin sns i r" and i: "0 \<le> i" "i < int (length (group_ends nemin sns))"
  shows "linked_upto nemin sns (i + 1) (r[nat i := group_snode nemin sns (elt (group_ends nemin sns) i)])"
  using r at_update [of _ i r] i unfolding linked_upto_def by auto

lemma link_ok:
  assumes p: "parents_later sns" and I: "sweep_inv nemin sns (int (length sns)) (cur, dead)"
    and oi: "length oi = length sns" "\<And>s. 0 \<le> s \<Longrightarrow> s < int (length sns) \<Longrightarrow> \<not> joins nemin sns s \<Longrightarrow> elt oi s = group_no nemin sns s"
    and i: "0 \<le> i" "i < int (length (group_ends nemin sns))" and r: "linked_upto nemin sns i r"
  shows "ok (do {
          s \<leftarrow> vget (group_ends nemin sns) i;
          q \<leftarrow> vget (map sn_parent sns) s;
          par \<leftarrow> live_parent dead (map sn_parent sns) q;
          if par < 0 then Some r
          else do {
            ri_par \<leftarrow> vget oi par;
            x \<leftarrow> vget r i;
            vset r i (x\<lparr>sn_parent := ri_par\<rparr>)
          }
        }) (linked_upto nemin sns (i + 1))"
proof -
  obtain s where s: "elt (group_ends nemin sns) i = s" "0 \<le> s" "s < int (length sns)" by (rule group_ends_cases [OF i])
  let ?q = "sn_parent (elt sns s)"
  have gs: "vget (group_ends nemin sns) i = Some s" using i s(1) by (simp add: vget_at)
  have gq: "vget (map sn_parent sns) s = Some ?q" using s by (simp add: vget_at elt_def)
  have q: "?q < 0 \<or> ?q < int (length sns)" using p s unfolding parents_later_def by force
  obtain par where par: "live_parent dead (map sn_parent sns) ?q = Some par"
    "if ?q < 0 then par = ?q else 0 \<le> par \<and> par < int (length sns) \<and> \<not> joins nemin sns par \<and> group_no nemin sns par = group_no nemin sns ?q"
    using ok_ex [OF live_parent_ok [OF p I q]] by blast
  have er: "elt r i = fresh_snode nemin sns s" "i < int (length r)" using r i s(1) by (simp_all add: linked_upto_def)
  then have gr: "vget r i = Some (fresh_snode nemin sns s)" using i by (simp add: vget_at)
  note next' = linked_upto_next [OF r i, unfolded s(1)]
  show ?thesis
  proof (cases "?q < 0")
    case True
    then have "fresh_snode nemin sns s = group_snode nemin sns s" by (simp add: fresh_snode_def group_snode_def group_parent_def)
    then have "r[nat i := group_snode nemin sns s] = r" using er(1) unfolding elt_def by (metis list_update_id)
    then show ?thesis using next' True par unfolding gs gq par(1) bind.simps by simp
  next
    case False
    then have pr: "0 \<le> par" "elt oi par = group_no nemin sns ?q" "vget oi par = Some (elt oi par)" using par(2) oi by (simp_all add: vget_at)
    have "fresh_snode nemin sns s\<lparr>sn_parent := group_no nemin sns ?q\<rparr> = group_snode nemin sns s" using False by (simp add: fresh_snode_def group_snode_def group_parent_def)
    then show ?thesis using next' pr(1) i er(2) unfolding gs gq par(1) bind.simps pr(3) gr pr(2) by (simp add: vset_def)
  qed
qed

lemma amalgamate_ok:
  assumes c: "sn_chain a b sns" and p: "parents_later sns" and n: "1 < nemin"
  shows "amalgamate_supernodes sns nemin = Some (map (group_snode nemin sns) (group_ends nemin sns))"
proof -
  let ?m = "int (length sns)" and ?v = "group_ends nemin sns" let ?nr = "int (length ?v)" and ?np = "map sn_parent sns"
  have "ok (for_range 0 ?m (merge_into_parent nemin ?np) (sns, replicate (length sns) False)) (sweep_inv nemin sns ?m)"
  proof (rule for_range_ok [where I = "sweep_inv nemin sns"])
    show "sweep_inv nemin sns 0 (sns, replicate (length sns) False)" by (auto simp: sweep_inv_def elt_replicate elt_def)
  next
    fix k st assume "0 \<le> k" "k < ?m" "sweep_inv nemin sns k st"
    then show "ok (merge_into_parent nemin ?np k st) (sweep_inv nemin sns (k + 1))" using sweep_step [OF c p] by (cases st) blast
  qed simp
  then obtain cur dead where sw: "for_range 0 ?m (merge_into_parent nemin ?np) (sns, replicate (length sns) False) = Some (cur, dead)"
    and I: "sweep_inv nemin sns ?m (cur, dead)" by (metis ok_ex surj_pair)
  obtain oi where oi: "for_range 0 ?nr (\<lambda>i orig_to_ri. do { s \<leftarrow> vget ?v i; vset orig_to_ri s i }) (replicate (length sns) (-1)) = Some oi"
    "length oi = length sns" "\<And>s. 0 \<le> s \<Longrightarrow> s < ?m \<Longrightarrow> \<not> joins nemin sns s \<Longrightarrow> elt oi s = group_no nemin sns s"
    using ok_ex [OF index_groups_ok [of nemin sns]] by blast
  have R: "for_range 0 ?nr (\<lambda>i result. do {
          s \<leftarrow> vget ?v i;
          sn \<leftarrow> vget cur s;
          Some (result @ [\<lparr>sn_start = sn_start sn, sn_end = sn_end sn, sn_parent = -1\<rparr>])
        }) [] = Some ([] @ map (\<lambda>i. fresh_snode nemin sns (elt ?v i)) [0..?nr - 1])"
  proof (rule for_range_collect)
    fix i acc assume i: "0 \<le> i" "i < ?nr"
    obtain s where s: "elt ?v i = s" "0 \<le> s" "s < ?m" by (rule group_ends_cases [OF i])
    then have "vget cur s = Some (elt sns s\<lparr>sn_start := group_start nemin sns (nat s)\<rparr>)" using I by (simp add: sweep_inv_def vget_at)
    then show "do {
          s \<leftarrow> vget ?v i;
          sn \<leftarrow> vget cur s;
          Some (acc @ [\<lparr>sn_start = sn_start sn, sn_end = sn_end sn, sn_parent = -1\<rparr>])
        } = Some (acc @ [fresh_snode nemin sns (elt ?v i)])"
      using s vget_at [OF i] by (simp add: fresh_snode_def)
  qed
  have "ok (for_range 0 ?nr (\<lambda>i result. do {
          s \<leftarrow> vget ?v i;
          q \<leftarrow> vget ?np s;
          par \<leftarrow> live_parent dead ?np q;
          if par < 0 then Some result
          else do {
            ri_par \<leftarrow> vget oi par;
            r \<leftarrow> vget result i;
            vset result i (r\<lparr>sn_parent := ri_par\<rparr>)
          }
        }) (map (\<lambda>i. fresh_snode nemin sns (elt ?v i)) [0..?nr - 1])) (\<lambda>r. r = map (group_snode nemin sns) ?v)"
    by (rule for_range_ok [where I = "linked_upto nemin sns", OF linked_upto_start link_ok [OF p I oi(2,3)]]) (simp_all add: linked_upto_end)
  from ok_ex [OF this] show ?thesis
    using n unfolding amalgamate_supernodes_def Let_def by (simp add: sw survivors_ok [OF I] oi(1) R)
qed

section \<open>The groups as supernodes\<close>

lemma group_start_le:
  assumes c: "sn_chain a b sns" and "0 \<le> s" "s < int (length sns)"
  shows "group_start nemin sns (nat s) \<le> sn_start (elt sns s)"
  using assms(2,3)
proof (induction s rule: int_ge_induct)
  case base
  then show ?case by (simp add: elt_def)
next
  case (step s)
  then have "sn_start (elt sns s) < sn_end (elt sns s)" "sn_start (elt sns (s + 1)) = sn_end (elt sns s)"
    using sn_chain_elt(2) [OF c, of s] sn_chain_elt(1) [OF c, of "s + 1"] by simp_all
  then show ?case using step group_start_next [of s nemin sns] by simp
qed

lemma last_not_joins: "parents_later sns \<Longrightarrow> 0 \<le> s \<Longrightarrow> s < int (length sns) \<Longrightarrow> joins nemin sns s \<Longrightarrow> s + 1 < int (length sns)"
  unfolding parents_later_def joins_def by force

lemma group_chain:
  assumes c: "sn_chain a b sns" and p: "parents_later sns"
  shows "sn_chain a b (map (group_snode nemin sns) (group_ends nemin sns))"
proof (cases "sns = []")
  case True
  then show ?thesis using c by (simp add: group_ends_def)
next
  case False
  let ?g = "\<lambda>k. map (group_snode nemin sns) (filter (\<lambda>t. \<not> joins nemin sns t) [0..k])"
  have one: "sn_chain (group_start nemin sns (nat s)) (sn_end (elt sns s)) [group_snode nemin sns s]" if "0 \<le> s" "s < int (length sns)" for s
    using group_start_le [OF c that, of nemin] sn_chain_elt(2) [OF c that] by (simp add: group_snode_def)
  have "sn_chain a (group_start nemin sns (nat s)) (?g (s - 1))" if "0 \<le> s" "s < int (length sns)" for s
    using that
  proof (induction s rule: int_ge_induct)
    case base
    then show ?case using sn_chain_elt(1) [OF c, of 0] by (simp add: elt_def)
  next
    case (step s)
    have "sn_start (elt sns (s + 1)) = sn_end (elt sns s)" using sn_chain_elt(1) [OF c, of "s + 1"] step by simp
    then show ?case using step one [of s] group_start_next [of s nemin sns] upto_snoc [of 0 s] by (auto simp: sn_chain_append)
  qed
  moreover have l: "0 \<le> int (length sns) - 1" "int (length sns) - 1 < int (length sns)" using False by simp_all
  ultimately have "sn_chain a (group_start nemin sns (nat (int (length sns) - 1))) (?g (int (length sns) - 1 - 1))" by blast
  moreover have "\<not> joins nemin sns (int (length sns) - 1)" using last_not_joins [OF p l, of nemin] by auto
  moreover have "sn_end (elt sns (int (length sns) - 1)) = b" using sn_chain_elt(3) [OF c l] by simp
  ultimately show ?thesis using one [OF l] upto_snoc [OF l(1)] unfolding group_ends_def by (auto simp: sn_chain_append)
qed

lemma group_of:
  assumes c: "sn_chain a b sns" and p: "parents_later sns" and s: "0 \<le> s" "s < int (length sns)"
  obtains e where "elt (map (group_snode nemin sns) (group_ends nemin sns)) (group_no nemin sns s) = group_snode nemin sns e"
    "s \<le> e" "e < int (length sns)" "\<not> joins nemin sns e" "group_no nemin sns e = group_no nemin sns s"
    "group_start nemin sns (nat e) = group_start nemin sns (nat s)" "e = s \<longleftrightarrow> \<not> joins nemin sns s"
    "group_no nemin sns s < int (length (group_ends nemin sns))"
proof -
  let ?J = "joins nemin sns" and ?N = "group_no nemin sns" let ?last = "int (length sns) - 1"
  have l: "0 \<le> ?last" "?last < int (length sns)" using s by linarith+
  have nl: "\<not> ?J ?last" using last_not_joins [OF p l, of nemin] by auto
  have nn: "0 \<le> ?N s" by (simp add: group_no_def)
  have lt: "?N s < int (length (group_ends nemin sns))" using group_no_mono [of s ?last nemin sns] s group_ends_elt(3) [OF l nl] by simp
  obtain e where e: "elt (group_ends nemin sns) (?N s) = e" "0 \<le> e" "e < int (length sns)" "\<not> ?J e" "?N e = ?N s"
    by (rule group_ends_cases [OF nn lt])
  have se: "s \<le> e"
  proof (rule ccontr)
    assume "\<not> s \<le> e"
    then have "?N (e + 1) \<le> ?N s" using group_no_mono [of "e + 1" s] e(2) by simp
    then show False using group_no_next [OF e(2), of nemin sns] e(4,5) by simp
  qed
  have mid: "?J t" if t: "s \<le> t" "t < e" for t
  proof (rule ccontr)
    assume nj: "\<not> ?J t"
    have "?N s \<le> ?N t" "?N (t + 1) \<le> ?N e" using group_no_mono [of s t] group_no_mono [of "t + 1" e] t s(1) by simp_all
    moreover have "?N (t + 1) = ?N t + 1" using group_no_next [of t nemin sns] t(1) s(1) nj by simp
    ultimately show False using e(5) by simp
  qed
  have "group_start nemin sns (nat t) = group_start nemin sns (nat s)" if "s \<le> t" "t \<le> e" for t
    using that
  proof (induction t rule: int_ge_induct)
    case (step t)
    then show ?case using group_start_next [of t nemin sns] mid [of t] s(1) by simp
  qed simp
  then have gs: "group_start nemin sns (nat e) = group_start nemin sns (nat s)" using se by blast
  have "elt (map (group_snode nemin sns) (group_ends nemin sns)) (?N s) = group_snode nemin sns e"
    using e(1) nn lt unfolding elt_def by (simp add: nat_less_iff)
  moreover have "e = s \<longleftrightarrow> \<not> ?J s" using mid [of s] e(4) se by (cases "e = s") auto
  ultimately show ?thesis by (rule that [OF _ se e(3-5) gs _ lt])
qed

section \<open>Properties\<close>

text \<open>Output \<open>i\<close> holds the columns of the input supernode \<open>s\<close>.\<close>

definition holds_snode :: "supernode list \<Rightarrow> supernode list \<Rightarrow> int \<Rightarrow> int \<Rightarrow> bool" where
  "holds_snode sns out i s \<longleftrightarrow> 0 \<le> i \<and> i < int (length out) \<and> sn_start (elt out i) \<le> sn_start (elt sns s) \<and> sn_end (elt sns s) \<le> sn_end (elt out i)"

lemma holds_unique:
  assumes "sn_chain a b sns" "sn_chain a b out" "0 \<le> s" "s < int (length sns)" "holds_snode sns out i s" "holds_snode sns out j s"
  shows "i = j"
proof -
  have "in_snode out i (sn_start (elt sns s))" "in_snode out j (sn_start (elt sns s))"
    using assms(5,6) sn_chain_elt(2) [OF assms(1,3,4)] by (auto simp: holds_snode_def in_snode_def)
  then show ?thesis using sn_chain_cover(4) [OF assms(2)] by blast
qed

lemma sn_end_mono:
  assumes c: "sn_chain a b sns" and "0 \<le> s" "s \<le> t" "t < int (length sns)"
  shows "sn_end (elt sns s) \<le> sn_end (elt sns t)"
  using assms(3,4)
proof (induction t rule: int_ge_induct)
  case (step t)
  then show ?case using sn_chain_elt(1,2) [OF c, of "t + 1"] assms(2) by simp
qed simp

lemma group_holds:
  assumes c: "sn_chain a b sns" and p: "parents_later sns" and s: "0 \<le> s" "s < int (length sns)"
  shows "holds_snode sns (map (group_snode nemin sns) (group_ends nemin sns)) (group_no nemin sns s) s"
proof -
  obtain e where e: "elt (map (group_snode nemin sns) (group_ends nemin sns)) (group_no nemin sns s) = group_snode nemin sns e"
    "s \<le> e" "e < int (length sns)" "group_start nemin sns (nat e) = group_start nemin sns (nat s)"
    "group_no nemin sns s < int (length (group_ends nemin sns))" by (rule group_of [OF c p s])
  have "0 \<le> group_no nemin sns s" by (simp add: group_no_def)
  then show ?thesis unfolding holds_snode_def e(1)
    using e(4,5) group_start_le [OF c s, of nemin] sn_end_mono [OF c s(1) e(2,3)] by (simp add: group_snode_def)
qed

text \<open>C4: \<open>amalgamate_supernodes\<close>, given supernodes that cut the columns with every parent later, ends and returns such
  supernodes again. Each input lies in one output, whose parent holds the input's parent unless the output itself does.
  Two neighbours share an output exactly when the second is the first one's parent, is narrower than \<open>nemin\<close>, and the
  columns gathered up to the first are fewer than \<open>nemin\<close>.\<close>

theorem amalgamate_supernodes_correct:
  assumes c: "sn_chain 0 n snodes" and p: "parents_later snodes"
  shows "\<exists>out. amalgamate_supernodes snodes nemin = Some out \<and> sn_chain 0 n out \<and> parents_later out
    \<and> (\<forall>s. 0 \<le> s \<and> s < int (length snodes) \<longrightarrow> (\<exists>i. holds_snode snodes out i s
        \<and> (if sn_parent (elt snodes s) < 0 then sn_parent (elt out i) < 0
           else holds_snode snodes out i (sn_parent (elt snodes s)) \<or> holds_snode snodes out (sn_parent (elt out i)) (sn_parent (elt snodes s)))))
    \<and> (\<forall>s i. 0 \<le> s \<and> s + 1 < int (length snodes) \<and> holds_snode snodes out i s \<longrightarrow>
        (holds_snode snodes out i (s + 1) \<longleftrightarrow> sn_parent (elt snodes s) = s + 1
          \<and> sn_end (elt snodes s) - sn_start (elt out i) < nemin \<and> width (elt snodes (s + 1)) < nemin))"
proof (cases "nemin \<le> 1")
  case True
  have self: "holds_snode snodes snodes s s" if "0 \<le> s" "s < int (length snodes)" for s using that by (simp add: holds_snode_def)
  have par: "sn_parent (elt snodes s) < 0 \<or> 0 \<le> sn_parent (elt snodes s) \<and> sn_parent (elt snodes s) < int (length snodes)"
    if "0 \<le> s" "s < int (length snodes)" for s using p that unfolding parents_later_def by force
  have apart: "\<not> holds_snode snodes snodes i (s + 1)" "\<not> width (elt snodes (s + 1)) < nemin"
    if s: "0 \<le> s" "s + 1 < int (length snodes)" "holds_snode snodes snodes i s" for s i
  proof -
    have w: "sn_start (elt snodes (s + 1)) < sn_end (elt snodes (s + 1))" "sn_start (elt snodes (s + 1)) = sn_end (elt snodes s)"
      using sn_chain_elt(1,2) [OF c, of "s + 1"] s(1,2) by simp_all
    have "i = s" using holds_unique [OF c c s(1) _ s(3) self [OF s(1)]] s(2) by simp
    then show "\<not> holds_snode snodes snodes i (s + 1)" using w by (simp add: holds_snode_def)
    show "\<not> width (elt snodes (s + 1)) < nemin" using w True by (simp add: width_def)
  qed
  have "\<exists>i. holds_snode snodes snodes i s \<and> (if sn_parent (elt snodes s) < 0 then sn_parent (elt snodes i) < 0
      else holds_snode snodes snodes i (sn_parent (elt snodes s)) \<or> holds_snode snodes snodes (sn_parent (elt snodes i)) (sn_parent (elt snodes s)))"
    if s: "0 \<le> s" "s < int (length snodes)" for s
    using self [OF s] self [of "sn_parent (elt snodes s)"] par [OF s] by (intro exI [of _ s]) auto
  moreover have "holds_snode snodes snodes i (s + 1) \<longleftrightarrow> sn_parent (elt snodes s) = s + 1
      \<and> sn_end (elt snodes s) - sn_start (elt snodes i) < nemin \<and> width (elt snodes (s + 1)) < nemin"
    if "0 \<le> s" "s + 1 < int (length snodes)" "holds_snode snodes snodes i s" for s i
    using apart [OF that] by blast
  ultimately show ?thesis using True c p by (intro exI [of _ snodes]) (simp add: amalgamate_supernodes_def)
next
  case False
  let ?out = "map (group_snode nemin snodes) (group_ends nemin snodes)" and ?N = "group_no nemin snodes" and ?J = "joins nemin snodes"
  let ?m = "int (length snodes)"
  note out = amalgamate_ok [OF c p, of nemin] and ch = group_chain [OF c p, of nemin] and h = group_holds [OF c p, of _ nemin]
  have par: "sn_parent (elt snodes s) < 0 \<or> s < sn_parent (elt snodes s) \<and> sn_parent (elt snodes s) < ?m"
    if "0 \<le> s" "s < ?m" for s using p that unfolding parents_later_def by blast
  have later: "parents_later ?out"
    unfolding parents_later_def
  proof (intro allI impI, elim conjE)
    fix i assume i: "0 \<le> i" "i < int (length ?out)"
    obtain s where s: "elt (group_ends nemin snodes) i = s" "0 \<le> s" "s < ?m" "\<not> ?J s" "?N s = i"
      by (rule group_ends_cases [of i nemin snodes]) (use i in auto)
    have e: "elt ?out i = group_snode nemin snodes s" using i s(1) unfolding elt_def by (simp add: nat_less_iff)
    show "sn_parent (elt ?out i) < 0 \<or> i < sn_parent (elt ?out i) \<and> sn_parent (elt ?out i) < int (length ?out)"
    proof (cases "sn_parent (elt snodes s) < 0")
      case True
      then show ?thesis unfolding e by (simp add: group_snode_def group_parent_def)
    next
      case F: False
      then have q: "s < sn_parent (elt snodes s)" "sn_parent (elt snodes s) < ?m" using par [OF s(2,3)] by simp_all
      have "?N s + 1 \<le> ?N (sn_parent (elt snodes s))"
        using group_no_mono [of "s + 1" "sn_parent (elt snodes s)" nemin snodes] group_no_next [OF s(2), of nemin snodes] s(2,4) q(1) by simp
      moreover have "?N (sn_parent (elt snodes s)) < int (length ?out)" using h [of "sn_parent (elt snodes s)"] q s(2) by (simp add: holds_snode_def)
      ultimately show ?thesis unfolding e using F s(5) by (simp add: group_snode_def group_parent_def)
    qed
  qed
  have up: "\<exists>i. holds_snode snodes ?out i s \<and> (if sn_parent (elt snodes s) < 0 then sn_parent (elt ?out i) < 0
      else holds_snode snodes ?out i (sn_parent (elt snodes s)) \<or> holds_snode snodes ?out (sn_parent (elt ?out i)) (sn_parent (elt snodes s)))"
    if s: "0 \<le> s" "s < ?m" for s
  proof -
    obtain e where e: "elt ?out (?N s) = group_snode nemin snodes e" "e = s \<longleftrightarrow> \<not> ?J s" by (rule group_of [OF c p s])
    show ?thesis
    proof (cases "?J s")
      case True
      then have q: "sn_parent (elt snodes s) = s + 1" "?N (s + 1) = ?N s" using joins_next group_no_next [OF s(1), of nemin snodes] by simp_all
      then show ?thesis using h [OF s] h [of "s + 1"] s last_not_joins [OF p s True] by (intro exI [of _ "?N s"]) simp
    next
      case nj: False
      then have "elt ?out (?N s) = group_snode nemin snodes s" using e by simp
      then show ?thesis using h [OF s] h [of "sn_parent (elt snodes s)"] par [OF s] s(1)
        by (intro exI [of _ "?N s"]) (auto simp: group_snode_def group_parent_def)
    qed
  qed
  have same: "holds_snode snodes ?out i (s + 1) \<longleftrightarrow> sn_parent (elt snodes s) = s + 1
      \<and> sn_end (elt snodes s) - sn_start (elt ?out i) < nemin \<and> width (elt snodes (s + 1)) < nemin"
    if s: "0 \<le> s" "s + 1 < ?m" and i: "holds_snode snodes ?out i s" for s i
  proof -
    have s': "s < ?m" "0 \<le> s + 1" using s by simp_all
    have iN: "i = ?N s" using holds_unique [OF c ch s(1) s'(1) i h [OF s(1) s'(1)]] .
    obtain e where e: "elt ?out (?N s) = group_snode nemin snodes e" "group_start nemin snodes (nat e) = group_start nemin snodes (nat s)"
      by (rule group_of [OF c p s(1) s'(1)])
    have "holds_snode snodes ?out i (s + 1) \<longleftrightarrow> ?N (s + 1) = ?N s"
      using holds_unique [OF c ch s'(2) s(2) _ h [OF s'(2) s(2)]] h [OF s'(2) s(2)] iN by metis
    also have "\<dots> \<longleftrightarrow> ?J s" using group_no_next [OF s(1), of nemin snodes] by simp
    finally show ?thesis unfolding joins_def iN e(1) using e(2) by (simp add: group_snode_def)
  qed
  show ?thesis using out False ch later up same by (intro exI [of _ ?out]) simp
qed

theorem amalgamate_supernodes_correct_witness:
  "\<exists>out. amalgamate_supernodes [\<lparr>sn_start = 0, sn_end = 1, sn_parent = 2\<rparr>, \<lparr>sn_start = 1, sn_end = 2, sn_parent = 2\<rparr>, \<lparr>sn_start = 2, sn_end = 4, sn_parent = -1\<rparr>] 3 = Some out
    \<and> sn_chain 0 4 out \<and> parents_later out"
proof -
  have "sn_chain 0 4 [\<lparr>sn_start = 0, sn_end = 1, sn_parent = 2\<rparr>, \<lparr>sn_start = 1, sn_end = 2, sn_parent = 2\<rparr>, \<lparr>sn_start = 2, sn_end = 4, sn_parent = -1\<rparr>]"
    by simp
  moreover have "parents_later [\<lparr>sn_start = 0, sn_end = 1, sn_parent = 2\<rparr>, \<lparr>sn_start = 1, sn_end = 2, sn_parent = 2\<rparr>, \<lparr>sn_start = 2, sn_end = 4, sn_parent = -1\<rparr>]"
    unfolding parents_later_def all_int_set by code_simp
  ultimately show ?thesis using amalgamate_supernodes_correct [of 4 _ 3] by blast
qed

text \<open>The header says the merging is repeated until stable, the source that cascading merges settle in one sweep. A second
  sweep can merge more: here the first child only touches its parent once the second one has been absorbed.\<close>

lemma amalgamation_not_settled:
  "amalgamate_supernodes [\<lparr>sn_start = 0, sn_end = 1, sn_parent = 2\<rparr>, \<lparr>sn_start = 1, sn_end = 2, sn_parent = 2\<rparr>, \<lparr>sn_start = 2, sn_end = 3, sn_parent = -1\<rparr>] 8
     = Some [\<lparr>sn_start = 0, sn_end = 1, sn_parent = 1\<rparr>, \<lparr>sn_start = 1, sn_end = 3, sn_parent = -1\<rparr>]"
  "amalgamate_supernodes [\<lparr>sn_start = 0, sn_end = 1, sn_parent = 1\<rparr>, \<lparr>sn_start = 1, sn_end = 3, sn_parent = -1\<rparr>] 8
     = Some [\<lparr>sn_start = 0, sn_end = 3, sn_parent = -1\<rparr>]"
  by code_simp+

end
