(* ===== verification/RelaxedCode.thy ===== *)
theory RelaxedCode
  imports Supernodes
begin

text \<open>
  The code of \<open>amalgamate_relaxed\<close> (\<open>src/supernode_detection.cpp\<close>), one definition per phase: the fundamental pieces and
  their forest, the forced merges, the bottom-up merging with its three rules, the resolution to survivors, the group
  tree, the columns of each group, the depth-first search and the output. The workspace slices are separate lists of
  their lengths. Shares of zeros, doubles in the source, are compared exactly.
\<close>

section \<open>The merge rules\<close>

definition cb_merge_pays :: "int \<Rightarrow> int \<Rightarrow> int \<Rightarrow> bool" where
  "cb_merge_pays pc qc fp =
     (if qc < 128 then False
      else let z = max (fp - qc) 0;
               added = of_int pc * of_int z * (of_int pc + of_int fp + of_int qc + 2 :: rat)
           in added < 3 * 2 * of_int qc * of_int qc)"

text \<open>\<open>stored(g, cols)\<close>: the values kept for \<open>cols\<close> columns above the rows below the last column of piece \<open>g\<close>.\<close>

definition stored_values :: "int list \<Rightarrow> int list \<Rightarrow> int \<Rightarrow> int \<Rightarrow> int option" where
  "stored_values first colcount g cols = do {
     e \<leftarrow> vget first (g + 1);
     c \<leftarrow> vget colcount (e - 1);
     Some (cols * (cols + (c - 1)))
   }"

definition merge_pays :: "int list \<Rightarrow> int list \<Rightarrow> int \<Rightarrow> amalgamation \<Rightarrow> int list \<Rightarrow> int list \<Rightarrow> int \<Rightarrow> int \<Rightarrow> bool option" where
  "merge_pays first colcount nemin rule nelim fill s p = do {
     ns \<leftarrow> vget nelim s;
     np \<leftarrow> vget nelim p;
     let k = ns + np;
     entries \<leftarrow> stored_values first colcount p k;
     fs \<leftarrow> vget fill s;
     fp \<leftarrow> vget fill p;
     let zeros = entries - fs - fp;
     ss \<leftarrow> stored_values first colcount s ns;
     sp \<leftarrow> stored_values first colcount p np;
     let added = entries - ss - sp;
     let take1 = (ns < nemin \<and> np < nemin \<and> \<not> (added > 16 \<and> (of_int zeros :: rat) > 3 / 10 * of_int entries));
     take2 \<leftarrow> (if \<not> take1 \<and> rule = CostModel \<and> nemin > 1 then do {
         es \<leftarrow> vget first (s + 1);
         cs \<leftarrow> vget colcount (es - 1);
         ep \<leftarrow> vget first (p + 1);
         cp \<leftarrow> vget colcount (ep - 1);
         Some (cb_merge_pays ns (cs - 1) (np + (cp - 1)))
       } else Some take1);
     if \<not> take2 \<and> rule = SmfPlusCholmod \<and> nemin > 1 then do {
       let z = (of_int zeros / of_int entries :: rat);
       Some (k \<le> 4 \<or> added \<le> 0 \<or> (k \<le> 16 \<and> z < 8 / 10) \<or> (k \<le> 48 \<and> z < 1 / 10) \<or> z < 5 / 100)
     } else Some take2
   }"

section \<open>Pieces, forced merges, merging\<close>

definition relaxed_pieces :: "int \<Rightarrow> int list \<Rightarrow> int list \<Rightarrow> (int list \<times> int list) option" where
  "relaxed_pieces n parent colcount = do {
     nchildren \<leftarrow> count_children n parent;
     (snode_of, first) \<leftarrow> snode_scan n parent nchildren colcount;
     Some (snode_of, first @ [n])
   }"

definition piece_links :: "int \<Rightarrow> int list \<Rightarrow> int list \<Rightarrow> int list \<Rightarrow> (int list \<times> int list) option" where
  "piece_links nsn parent snode_of first = for_range 0 nsn (\<lambda>s (sparent, nelim). do {
     b \<leftarrow> vget first (s + 1);
     a \<leftarrow> vget first s;
     nelim \<leftarrow> vset nelim s (b - a);
     pc \<leftarrow> vget parent (b - 1);
     if pc \<ge> 0 then do {
       ps \<leftarrow> vget snode_of pc;
       sparent \<leftarrow> vset sparent s ps;
       Some (sparent, nelim)
     } else Some (sparent, nelim)
   }) (replicate (nat nsn) (-1), replicate (nat nsn) 0)"

definition forced_merges :: "int \<Rightarrow> int \<Rightarrow> int list \<Rightarrow> int list \<Rightarrow> bool list option \<Rightarrow> bool list option" where
  "forced_merges n nsn parent snode_of keep_with_parent = (case keep_with_parent of
       None \<Rightarrow> Some []
     | Some keep \<Rightarrow> for_range 0 n (\<lambda>j forced. do {
         pj \<leftarrow> vget parent j;
         sj \<leftarrow> vget snode_of j;
         kj \<leftarrow> vget keep j;
         if kj \<and> pj \<ge> 0 then do {
           sp \<leftarrow> vget snode_of pj;
           if sp \<noteq> sj then vset forced sj True else Some forced
         } else Some forced
       }) (replicate (nat nsn) False))"

definition piece_fill :: "int \<Rightarrow> int \<Rightarrow> int list \<Rightarrow> int list \<Rightarrow> int list option" where
  "piece_fill n nsn snode_of colcount = for_range 0 n (\<lambda>j fill. do {
     s \<leftarrow> vget snode_of j;
     c \<leftarrow> vget colcount j;
     f \<leftarrow> vget fill s;
     vset fill s (f + c)
   }) (replicate (nat nsn) 0)"

definition merge_piece :: "int list \<Rightarrow> int list \<Rightarrow> int \<Rightarrow> amalgamation \<Rightarrow> int list \<Rightarrow> bool list \<Rightarrow> int
    \<Rightarrow> int list \<times> int list \<times> int list \<Rightarrow> (int list \<times> int list \<times> int list) option" where
  "merge_piece first colcount nemin rule sparent forced s = (\<lambda>(grp, nelim, fill). do {
     p \<leftarrow> vget sparent s;
     if p < 0 then Some (grp, nelim, fill)
     else do {
       f \<leftarrow> (if forced = [] then Some False else vget forced s);
       tk \<leftarrow> (if f then Some True else merge_pays first colcount nemin rule nelim fill s p);
       if tk then do {
         grp \<leftarrow> vset grp s p;
         np \<leftarrow> vget nelim p;
         ns \<leftarrow> vget nelim s;
         nelim \<leftarrow> vset nelim p (np + ns);
         fp \<leftarrow> vget fill p;
         fs \<leftarrow> vget fill s;
         fill \<leftarrow> vset fill p (fp + fs);
         Some (grp, nelim, fill)
       } else Some (grp, nelim, fill)
     }
   })"

definition merge_pieces :: "int \<Rightarrow> int \<Rightarrow> int list \<Rightarrow> int list \<Rightarrow> int list \<Rightarrow> int \<Rightarrow> amalgamation \<Rightarrow> int list \<Rightarrow> int list \<Rightarrow> bool list \<Rightarrow> int list option" where
  "merge_pieces n nsn snode_of first colcount nemin rule sparent nelim forced = do {
     let grp = [0..nsn - 1];
     if nemin > 1 \<or> forced \<noteq> [] then do {
       fill \<leftarrow> piece_fill n nsn snode_of colcount;
       (grp, nelim, fill) \<leftarrow> for_range 0 nsn (merge_piece first colcount nemin rule sparent forced) (grp, nelim, fill);
       Some grp
     } else Some grp
   }"

definition resolve_groups :: "int \<Rightarrow> int list \<Rightarrow> int list option" where
  "resolve_groups nsn grp = for_range 0 nsn (\<lambda>t grp. do {
     let s = nsn - 1 - t;
     g \<leftarrow> vget grp s;
     gg \<leftarrow> vget grp g;
     vset grp s gg
   }) grp"

section \<open>The group tree and its postorder\<close>

definition group_links :: "int \<Rightarrow> int list \<Rightarrow> int list \<Rightarrow> (int list \<times> int list) option" where
  "group_links nsn sparent grp = for_range 0 nsn (\<lambda>g (gparent, ch_ptr). do {
     gg \<leftarrow> vget grp g;
     if gg \<noteq> g then Some (gparent, ch_ptr)
     else do {
       p \<leftarrow> vget sparent g;
       if p \<ge> 0 then do {
         gp \<leftarrow> vget grp p;
         gparent \<leftarrow> vset gparent g gp;
         ch_ptr \<leftarrow> bump ch_ptr (gp + 1);
         Some (gparent, ch_ptr)
       } else Some (gparent, ch_ptr)
     }
   }) (replicate (nat nsn) (-1), replicate (nat (nsn + 1)) 0)"

definition group_children :: "int \<Rightarrow> int list \<Rightarrow> int list \<Rightarrow> int list \<Rightarrow> (int list \<times> int list) option" where
  "group_children nsn grp gparent ch_ptr = do {
     ch_ptr \<leftarrow> for_range 0 nsn prefix_inplace ch_ptr;
     (_, ch) \<leftarrow> for_range 0 nsn (\<lambda>g st. do {
       gg \<leftarrow> vget grp g;
       gp \<leftarrow> vget gparent g;
       if gg = g \<and> gp \<ge> 0 then place (\<lambda>_. gp) (\<lambda>g. g) g st else Some st
     }) (take (nat nsn) ch_ptr, replicate (nat nsn) 0);
     Some (ch_ptr, ch)
   }"

definition group_columns :: "int \<Rightarrow> int \<Rightarrow> int list \<Rightarrow> int list \<Rightarrow> int list \<Rightarrow> (int list \<times> int list) option" where
  "group_columns n nsn snode_of first grp = do {
     gcol_ptr \<leftarrow> for_range 0 nsn (\<lambda>s gcol_ptr. do {
       g \<leftarrow> vget grp s;
       b \<leftarrow> vget first (s + 1);
       a \<leftarrow> vget first s;
       c \<leftarrow> vget gcol_ptr (g + 1);
       vset gcol_ptr (g + 1) (c + (b - a))
     }) (replicate (nat (nsn + 1)) 0);
     gcol_ptr \<leftarrow> for_range 0 nsn prefix_inplace gcol_ptr;
     (_, gcols) \<leftarrow> for_range 0 n (\<lambda>j st. do {
       s \<leftarrow> vget snode_of j;
       g \<leftarrow> vget grp s;
       place (\<lambda>_. g) (\<lambda>j. j) j st
     }) (take (nat nsn) gcol_ptr, replicate (nat n) 0);
     Some (gcol_ptr, gcols)
   }"

definition group_roots :: "int \<Rightarrow> int list \<Rightarrow> int list \<Rightarrow> (int list \<times> int list \<times> int) option" where
  "group_roots nsn grp gparent = for_range 0 nsn (\<lambda>t (node, ci, tp). do {
     let g = nsn - 1 - t;
     gg \<leftarrow> vget grp g;
     gp \<leftarrow> vget gparent g;
     if gg = g \<and> gp < 0 then do {
       node \<leftarrow> vset node tp g;
       ci \<leftarrow> vset ci tp 0;
       Some (node, ci, tp + 1)
     } else Some (node, ci, tp)
   }) (replicate (nat nsn) 0, replicate (nat nsn) 0, 0)"

definition group_dfs :: "int list \<Rightarrow> int list \<Rightarrow> int list \<times> int list \<times> int \<times> int list \<times> int \<times> int list \<Rightarrow> (int list \<times> int \<times> int list) option" where
  "group_dfs ch_ptr ch = loop (\<lambda>(node, ci, tp, po, ng, new_id).
     if tp > 0 then do {
       g \<leftarrow> vget node (tp - 1);
       c0 \<leftarrow> vget ch_ptr g;
       c1 \<leftarrow> vget ch_ptr (g + 1);
       c \<leftarrow> vget ci (tp - 1);
       if c0 + c < c1 then do {
         ci \<leftarrow> vset ci (tp - 1) (c + 1);
         child \<leftarrow> vget ch (c0 + c);
         node \<leftarrow> vset node tp child;
         ci \<leftarrow> vset ci tp 0;
         Some (Inr (node, ci, tp + 1, po, ng, new_id))
       } else do {
         new_id \<leftarrow> vset new_id g ng;
         po \<leftarrow> vset po ng g;
         Some (Inr (node, ci, tp - 1, po, ng + 1, new_id))
       }
     } else Some (Inl (po, ng, new_id)))"

definition emit_groups :: "int \<Rightarrow> int \<Rightarrow> int list \<Rightarrow> int list \<Rightarrow> int list \<Rightarrow> int list \<Rightarrow> int list \<Rightarrow> (int list \<times> supernode list) option" where
  "emit_groups n ng po gcol_ptr gcols gparent new_id = do {
     (_, order, snodes) \<leftarrow> for_range 0 ng (\<lambda>i (ps, order, snodes). do {
       g \<leftarrow> vget po i;
       let col_start = ps;
       a \<leftarrow> vget gcol_ptr g;
       b \<leftarrow> vget gcol_ptr (g + 1);
       (ps, order) \<leftarrow> for_range a b (\<lambda>t (ps, order). do {
         c \<leftarrow> vget gcols t;
         order \<leftarrow> vset order ps c;
         Some (ps + 1, order)
       }) (ps, order);
       gp \<leftarrow> vget gparent g;
       par \<leftarrow> (if gp \<ge> 0 then vget new_id gp else Some (-1));
       Some (ps, order, snodes @ [\<lparr>sn_start = col_start, sn_end = ps, sn_parent = par\<rparr>])
     }) (0, replicate (nat n) 0, []);
     Some (order, snodes)
   }"

definition amalgamate_relaxed_work_size :: "int \<Rightarrow> int" where
  "amalgamate_relaxed_work_size n = 16 * n + 6"

definition amalgamate_relaxed :: "int \<Rightarrow> int list \<Rightarrow> int list \<Rightarrow> int \<Rightarrow> bool list option \<Rightarrow> amalgamation \<Rightarrow> (int list \<times> supernode list) option" where
  "amalgamate_relaxed n parent colcount nemin keep_with_parent rule =
     (if n = 0 then Some ([], [])
      else do {
        (snode_of, first) \<leftarrow> relaxed_pieces n parent colcount;
        let nsn = int (length first) - 1;
        (sparent, nelim) \<leftarrow> piece_links nsn parent snode_of first;
        forced \<leftarrow> forced_merges n nsn parent snode_of keep_with_parent;
        grp \<leftarrow> merge_pieces n nsn snode_of first colcount nemin rule sparent nelim forced;
        grp \<leftarrow> resolve_groups nsn grp;
        (gparent, ch_ptr) \<leftarrow> group_links nsn sparent grp;
        (ch_ptr, ch) \<leftarrow> group_children nsn grp gparent ch_ptr;
        (gcol_ptr, gcols) \<leftarrow> group_columns n nsn snode_of first grp;
        (node, ci, tp) \<leftarrow> group_roots nsn grp gparent;
        (po, ng, new_id) \<leftarrow> group_dfs ch_ptr ch (node, ci, tp, replicate (nat nsn) 0, 0, replicate (nat nsn) (-1));
        emit_groups n ng po gcol_ptr gcols gparent new_id
      })"

text \<open>The slices of the caller's workspace, the aligned \<open>fill\<close> at its end included, fit into the announced size.\<close>

lemma relaxed_work_fits:
  assumes "0 < n" "0 < nsn" "nsn \<le> n"
  shows "n + n + (n + 1) + (11 * nsn + 2) + 1 + 2 * nsn \<le> amalgamate_relaxed_work_size n"
  using assms by (simp add: amalgamate_relaxed_work_size_def)

end
