(* ===== verification/RelaxedGroups.thy ===== *)
theory RelaxedGroups
  imports RelaxedCode
begin

text \<open>
  The first phases of \<open>amalgamate_relaxed\<close>: the pieces, the forest of their parents, the forced merges, and the group each
  piece ends in, whatever the merge rule decides.
\<close>

section \<open>Pieces and their parents\<close>

lemma relaxed_pieces_ok:
  assumes n: "0 \<le> n" and l: "int (length parent) = n" "int (length colcount) = n" and f: "ordered_forest (elt parent) n"
  shows "ok (relaxed_pieces n parent colcount) (\<lambda>(ids, first). \<exists>starts. first = starts @ [n] \<and> int (length ids) = n \<and> cut_at n ids starts
    \<and> (\<forall>j. 0 \<le> j \<and> j < n \<longrightarrow> (j \<in> set starts \<longleftrightarrow> snode_break (elt parent) n colcount j)))"
proof -
  obtain nc where nc: "count_children n parent = Some nc" "int (length nc) = n"
    "\<And>v. 0 \<le> v \<Longrightarrow> v < n \<Longrightarrow> elt nc v = num_children (elt parent) n v"
    using ok_ex [OF count_children_ok [OF n l(1) f]] by blast
  from snode_scan_ok [OF n l(1) nc(2) l(2) nc(3)] show ?thesis
    unfolding relaxed_pieces_def nc(1) bind.simps ok_bind by (rule ok_mono) auto
qed

lemma piece_iff:
  assumes c: "cut_at n ids starts" and j: "0 \<le> j" "j < n" and s: "0 \<le> s" "s < int (length starts)"
  shows "elt ids j = s \<longleftrightarrow> elt (starts @ [n]) s \<le> j \<and> j < elt (starts @ [n]) (s + 1)"
  using cut_at_unique [OF c j s, of "\<lambda>_. 0"] cut_snodes_elt [OF s, of n "\<lambda>_. 0"] elt_snoc [of s starts n] s
  by (simp add: in_snode_def)

lemma piece_bounds:
  assumes c: "cut_at n ids starts" and j: "0 \<le> j" "j < n"
  shows "0 \<le> elt ids j" "elt ids j < int (length starts)"
  using c j unfolding cut_at_def by blast+

text \<open>A column whose parent lies in another piece is the last one of its piece.\<close>

lemma piece_last:
  assumes c: "cut_at n ids starts" and b: "\<And>j. 0 \<le> j \<Longrightarrow> j < n \<Longrightarrow> j \<in> set starts \<longleftrightarrow> snode_break P n cc j"
    and j: "0 \<le> j" "j < n" and p: "P j < 0 \<or> elt ids (P j) \<noteq> elt ids j"
  shows "elt (starts @ [n]) (elt ids j + 1) - 1 = j"
proof (rule ccontr)
  let ?s = "elt ids j"
  note s = piece_bounds [OF c j]
  have r: "elt (starts @ [n]) ?s \<le> j" "j < elt (starts @ [n]) (?s + 1)" using piece_iff [OF c j s] by simp_all
  assume "elt (starts @ [n]) (?s + 1) - 1 \<noteq> j"
  then have j1: "j + 1 < elt (starts @ [n]) (?s + 1)" using r(2) by simp
  then have jn: "j + 1 < n" using cut_last(2) [OF c s] by simp
  have same: "elt ids (j + 1) = ?s" using piece_iff [OF c _ jn s] j(1) j1 r(1) by simp
  have "j + 1 \<notin> set starts"
  proof
    assume "j + 1 \<in> set starts"
    then obtain t where t: "0 \<le> t" "t < int (length starts)" "elt starts t = j + 1" by (auto simp: in_set_elt)
    have "elt (starts @ [n]) t = j + 1" using elt_snoc [of t starts n] t by simp
    then have "elt ids (j + 1) = t" using piece_iff [OF c _ jn t(1,2)] cut_last(3) [OF c t(1,2)] t(3) j(1) by simp
    then have "elt (starts @ [n]) ?s = j + 1" using same \<open>elt (starts @ [n]) t = j + 1\<close> by simp
    then show False using r(1) by simp
  qed
  then have "\<not> snode_break P n cc (j + 1)" using b [of "j + 1"] jn j(1) by simp
  then have "P j = j + 1" using j(1) by (simp add: snode_break_def)
  then show False using p same j(1) by simp
qed

definition piece_parent :: "int list \<Rightarrow> int \<Rightarrow> int list \<Rightarrow> int list \<Rightarrow> int \<Rightarrow> int" where
  "piece_parent parent n ids starts = snode_parent_of (elt parent) n ids starts"

lemma piece_parent_later:
  assumes "cut_at n ids starts" "ordered_forest (elt parent) n" "0 \<le> s" "s < int (length starts)"
  shows "piece_parent parent n ids starts s = -1 \<or> s < piece_parent parent n ids starts s \<and> piece_parent parent n ids starts s < int (length starts)"
  using snode_parent_later [OF assms] unfolding piece_parent_def by blast

lemma piece_links_ok:
  assumes c: "cut_at n ids starts" and l: "int (length parent) = n" "int (length ids) = n" and f: "ordered_forest (elt parent) n"
  shows "ok (piece_links (int (length starts)) parent ids (starts @ [n])) (\<lambda>(sparent, nelim). length sparent = length starts \<and> length nelim = length starts
    \<and> (\<forall>s. 0 \<le> s \<and> s < int (length starts) \<longrightarrow> elt sparent s = piece_parent parent n ids starts s))"
  unfolding piece_links_def
proof (rule for_range_ok [where I = "\<lambda>k (sparent, nelim). length sparent = length starts \<and> length nelim = length starts
    \<and> (\<forall>s. 0 \<le> s \<and> s < int (length starts) \<longrightarrow> elt sparent s = (if s < k then piece_parent parent n ids starts s else -1))"])
  fix k and st :: "int list \<times> int list" assume k: "0 \<le> k" "k < int (length starts)" and I: "case st of (sparent, nelim) \<Rightarrow> length sparent = length starts \<and> length nelim = length starts
    \<and> (\<forall>s. 0 \<le> s \<and> s < int (length starts) \<longrightarrow> elt sparent s = (if s < k then piece_parent parent n ids starts s else -1))"
  obtain sp and ne :: "int list" where st: "st = (sp, ne)" by (cases st)
  let ?b = "elt (starts @ [n]) (k + 1)" let ?pc = "elt parent (?b - 1)"
  note la = cut_last [OF c k]
  have g: "vget (starts @ [n]) (k + 1) = Some ?b" "vget (starts @ [n]) k = Some (elt (starts @ [n]) k)" "vget parent (?b - 1) = Some ?pc"
    using k la(1,2) l(1) by (simp_all add: vget_at)
  have ne: "vset ne k (?b - elt (starts @ [n]) k) = Some (ne[nat k := ?b - elt (starts @ [n]) k])" using k I st by (simp add: vset_def)
  have pc: "?pc = -1 \<or> ?b - 1 < ?pc \<and> ?pc < n" using f la(1,2) unfolding ordered_forest_def by blast
  show "ok (case st of (sparent, nelim) \<Rightarrow> do {
     b \<leftarrow> vget (starts @ [n]) (k + 1);
     a \<leftarrow> vget (starts @ [n]) k;
     nelim \<leftarrow> vset nelim k (b - a);
     pc \<leftarrow> vget parent (b - 1);
     if pc \<ge> 0 then do {
       ps \<leftarrow> vget ids pc;
       sparent \<leftarrow> vset sparent k ps;
       Some (sparent, nelim)
     } else Some (sparent, nelim)
   }) (\<lambda>(sparent, nelim). length sparent = length starts \<and> length nelim = length starts
    \<and> (\<forall>s. 0 \<le> s \<and> s < int (length starts) \<longrightarrow> elt sparent s = (if s < k + 1 then piece_parent parent n ids starts s else -1)))"
  proof (cases "?pc \<ge> 0")
    case True
    then have pk: "piece_parent parent n ids starts k = elt ids ?pc" by (simp add: piece_parent_def snode_parent_of_def)
    have i: "vget ids ?pc = Some (elt ids ?pc)" using True pc l(2) by (simp add: vget_at)
    have v: "vset sp k (elt ids ?pc) = Some (sp[nat k := elt ids ?pc])" using k I st by (simp add: vset_def)
    have "elt (sp[nat k := elt ids ?pc]) s = (if s < k + 1 then piece_parent parent n ids starts s else -1)" if "0 \<le> s" "s < int (length starts)" for s
      using at_update [of s k sp] k I st that pk by auto
    then show ?thesis using True I unfolding st prod.case g bind.simps ne i v by simp
  next
    case False
    then have "piece_parent parent n ids starts k = -1" by (simp add: piece_parent_def snode_parent_of_def)
    then have "elt sp s = (if s < k + 1 then piece_parent parent n ids starts s else -1)" if "0 \<le> s" "s < int (length starts)" for s
      using I st that by (cases "s = k") auto
    then show ?thesis using False I unfolding st prod.case g bind.simps ne by simp
  qed
qed (auto simp: elt_replicate)

section \<open>Forced merges\<close>

lemma ex_below_Suc: "0 \<le> j \<Longrightarrow> (\<exists>i. 0 \<le> i \<and> i < j + 1 \<and> R i) \<longleftrightarrow> (\<exists>i. 0 \<le> i \<and> i < j \<and> R i) \<or> R j" for j :: int
proof -
  assume j: "0 \<le> j"
  have "0 \<le> i \<and> i < j + 1 \<longleftrightarrow> 0 \<le> i \<and> i < j \<or> i = j" for i using j by auto
  then show ?thesis by blast
qed

definition forced_piece :: "int list \<Rightarrow> int list \<Rightarrow> int \<Rightarrow> bool list \<Rightarrow> int \<Rightarrow> bool" where
  "forced_piece parent ids k keep s \<longleftrightarrow> (\<exists>j. 0 \<le> j \<and> j < k \<and> elt ids j = s \<and> elt keep j \<and> 0 \<le> elt parent j \<and> elt ids (elt parent j) \<noteq> s)"

lemma forced_merges_ok:
  assumes c: "cut_at n ids starts" and l: "int (length parent) = n" "int (length ids) = n" and f: "ordered_forest (elt parent) n"
    and k: "\<And>keep. kw = Some keep \<Longrightarrow> int (length keep) = n"
  shows "ok (forced_merges n (int (length starts)) parent ids kw) (\<lambda>forced. case kw of None \<Rightarrow> forced = []
    | Some keep \<Rightarrow> length forced = length starts \<and> (\<forall>s. 0 \<le> s \<and> s < int (length starts) \<longrightarrow> (elt forced s \<longleftrightarrow> forced_piece parent ids n keep s)))"
proof (cases kw)
  case None
  then show ?thesis by (simp add: forced_merges_def)
next
  case (Some keep)
  have n: "0 \<le> n" using l(1) by simp
  have step: "forced_piece parent ids (j + 1) keep s \<longleftrightarrow> forced_piece parent ids j keep s
      \<or> elt ids j = s \<and> elt keep j \<and> 0 \<le> elt parent j \<and> elt ids (elt parent j) \<noteq> s" if "0 \<le> j" for j s
    unfolding forced_piece_def by (rule ex_below_Suc [OF that])
  have "ok (for_range 0 n (\<lambda>j forced. do {
         pj \<leftarrow> vget parent j;
         sj \<leftarrow> vget ids j;
         kj \<leftarrow> vget keep j;
         if kj \<and> pj \<ge> 0 then do {
           sp \<leftarrow> vget ids pj;
           if sp \<noteq> sj then vset forced sj True else Some forced
         } else Some forced
       }) (replicate (length starts) False))
    (\<lambda>forced. length forced = length starts \<and> (\<forall>s. 0 \<le> s \<and> s < int (length starts) \<longrightarrow> (elt forced s \<longleftrightarrow> forced_piece parent ids n keep s)))"
  proof (rule for_range_ok [where I = "\<lambda>j forced. length forced = length starts
      \<and> (\<forall>s. 0 \<le> s \<and> s < int (length starts) \<longrightarrow> (elt forced s \<longleftrightarrow> forced_piece parent ids j keep s))"])
    show "length (replicate (length starts) False) = length starts
      \<and> (\<forall>s. 0 \<le> s \<and> s < int (length starts) \<longrightarrow> (elt (replicate (length starts) False) s \<longleftrightarrow> forced_piece parent ids 0 keep s))"
      by (auto simp: elt_replicate forced_piece_def)
  next
    fix j fo assume j: "0 \<le> j" "j < n" and I: "length fo = length starts \<and> (\<forall>s. 0 \<le> s \<and> s < int (length starts) \<longrightarrow> (elt fo s \<longleftrightarrow> forced_piece parent ids j keep s))"
    let ?pj = "elt parent j" and ?sj = "elt ids j"
    have g: "vget parent j = Some ?pj" "vget ids j = Some ?sj" "vget keep j = Some (elt keep j)" using j l k [OF Some] by (simp_all add: vget_at)
    note sj = piece_bounds [OF c j]
    have pj: "?pj = -1 \<or> j < ?pj \<and> ?pj < n" using f j unfolding ordered_forest_def by blast
    have v: "vset fo ?sj True = Some (fo[nat ?sj := True])" using sj I by (simp add: vset_def)
    let ?c = "elt keep j \<and> 0 \<le> ?pj \<and> elt ids ?pj \<noteq> ?sj"
    have T: "length (fo[nat ?sj := True]) = length starts \<and> (\<forall>s. 0 \<le> s \<and> s < int (length starts) \<longrightarrow> (elt (fo[nat ?sj := True]) s \<longleftrightarrow> forced_piece parent ids (j + 1) keep s))" if ?c
      using that step [OF j(1)] I at_update [of _ ?sj fo True] sj by auto
    have F: "length fo = length starts \<and> (\<forall>s. 0 \<le> s \<and> s < int (length starts) \<longrightarrow> (elt fo s \<longleftrightarrow> forced_piece parent ids (j + 1) keep s))" if "\<not> ?c"
      using that step [OF j(1)] I by auto
    show "ok (do {
         pj \<leftarrow> vget parent j;
         sj \<leftarrow> vget ids j;
         kj \<leftarrow> vget keep j;
         if kj \<and> pj \<ge> 0 then do {
           sp \<leftarrow> vget ids pj;
           if sp \<noteq> sj then vset fo sj True else Some fo
         } else Some fo
       }) (\<lambda>forced. length forced = length starts \<and> (\<forall>s. 0 \<le> s \<and> s < int (length starts) \<longrightarrow> (elt forced s \<longleftrightarrow> forced_piece parent ids (j + 1) keep s)))"
    proof (cases "elt keep j \<and> 0 \<le> ?pj")
      case True
      then have "vget ids ?pj = Some (elt ids ?pj)" using pj l(2) by (simp add: vget_at)
      then show ?thesis using True T F unfolding g bind.simps by (simp add: v)
    next
      case False
      then show ?thesis using F unfolding g bind.simps by auto
    qed
  qed (use n in simp)
  then show ?thesis using Some by (simp add: forced_merges_def)
qed

section \<open>Merging\<close>

text \<open>The merge rule answers, whatever it says, and a rule that asks for more than one column never fires below that.\<close>

lemma merge_pays_ok:
  assumes c: "cut_at n ids starts" and l: "int (length colcount) = n" "length nelim = length starts" "length fill = length starts"
    and s: "0 \<le> s" "s < int (length starts)" and p: "0 \<le> p" "p < int (length starts)"
  shows "\<exists>b. merge_pays (starts @ [n]) colcount nemin rule nelim fill s p = Some b"
proof -
  have st: "\<exists>v. stored_values (starts @ [n]) colcount g cols = Some v" if "0 \<le> g" "g < int (length starts)" for g cols
    using cut_last(1,2) [OF c that] that l(1) by (simp add: stored_values_def vget_at)
  have vc: "vget (starts @ [n]) (g + 1) = Some (elt (starts @ [n]) (g + 1))" "vget colcount (elt (starts @ [n]) (g + 1) - 1) = Some (elt colcount (elt (starts @ [n]) (g + 1) - 1))"
    if "0 \<le> g" "g < int (length starts)" for g
    using cut_last(1,2) [OF c that] that l(1) by (simp_all add: vget_at)
  have v: "vget nelim s = Some (elt nelim s)" "vget nelim p = Some (elt nelim p)" "vget fill s = Some (elt fill s)" "vget fill p = Some (elt fill p)"
    using l s p by (simp_all add: vget_at)
  obtain x y z where xyz: "stored_values (starts @ [n]) colcount p (elt nelim s + elt nelim p) = Some x"
    "stored_values (starts @ [n]) colcount s (elt nelim s) = Some y" "stored_values (starts @ [n]) colcount p (elt nelim p) = Some z"
    using st [OF s] st [OF p] by blast
  show ?thesis unfolding merge_pays_def Let_def by (simp add: v xyz vc [OF s] vc [OF p])
qed

definition merge_inv :: "int list \<Rightarrow> bool list \<Rightarrow> int \<Rightarrow> int list \<times> int list \<times> int list \<Rightarrow> bool" where
  "merge_inv sparent forced k = (\<lambda>(grp, nelim, fill). length grp = length sparent \<and> length nelim = length sparent \<and> length fill = length sparent
     \<and> (\<forall>s. 0 \<le> s \<and> s < int (length sparent) \<longrightarrow> elt grp s = s \<or> s < k \<and> 0 \<le> elt sparent s \<and> elt grp s = elt sparent s)
     \<and> (\<forall>s. 0 \<le> s \<and> s < k \<and> forced \<noteq> [] \<and> elt forced s \<and> 0 \<le> elt sparent s \<longrightarrow> elt grp s = elt sparent s))"

lemma merge_piece_ok:
  assumes c: "cut_at n ids starts" and l: "int (length colcount) = n" "length sparent = length starts" "forced = [] \<or> length forced = length starts"
    and sp: "\<And>s. 0 \<le> s \<Longrightarrow> s < int (length starts) \<Longrightarrow> elt sparent s = -1 \<or> s < elt sparent s \<and> elt sparent s < int (length starts)"
    and k: "0 \<le> k" "k < int (length starts)" and I: "merge_inv sparent forced k (grp, nelim, fill)"
  shows "ok (merge_piece (starts @ [n]) colcount nemin rule sparent forced k (grp, nelim, fill)) (merge_inv sparent forced (k + 1))"
proof -
  let ?p = "elt sparent k"
  have L: "length grp = length starts" "length nelim = length starts" "length fill = length starts" using I l by (simp_all add: merge_inv_def)
  have G: "elt grp s = s \<or> s < k \<and> 0 \<le> elt sparent s \<and> elt grp s = elt sparent s" if "0 \<le> s" "s < int (length starts)" for s
    using I that l(2) by (simp add: merge_inv_def)
  have Fo: "elt grp s = elt sparent s" if "0 \<le> s" "s < k" "forced \<noteq> []" "elt forced s" "0 \<le> elt sparent s" for s
    using I that by (simp add: merge_inv_def)
  have gp: "vget sparent k = Some ?p" using k l(2) by (simp add: vget_at)
  note pk = sp [OF k]
  have stay: "merge_inv sparent forced (k + 1) (grp, nelim, fill)" if "\<not> (forced \<noteq> [] \<and> elt forced k \<and> 0 \<le> ?p)"
    unfolding merge_inv_def prod.case
  proof (intro conjI allI impI)
    fix s assume "0 \<le> s \<and> s < int (length sparent)"
    then show "elt grp s = s \<or> s < k + 1 \<and> 0 \<le> elt sparent s \<and> elt grp s = elt sparent s" using G [of s] l(2) by auto
  next
    fix s assume "0 \<le> s \<and> s < k + 1 \<and> forced \<noteq> [] \<and> elt forced s \<and> 0 \<le> elt sparent s"
    then show "elt grp s = elt sparent s" using Fo [of s] that by (cases "s = k") auto
  qed (use L l in simp_all)
  have move: "merge_inv sparent forced (k + 1) (grp[nat k := ?p], ne, fi)" if "0 \<le> ?p" "length ne = length starts" "length fi = length starts" for ne fi
    unfolding merge_inv_def prod.case
  proof (intro conjI allI impI)
    fix s assume "0 \<le> s \<and> s < int (length sparent)"
    then show "elt (grp[nat k := ?p]) s = s \<or> s < k + 1 \<and> 0 \<le> elt sparent s \<and> elt (grp[nat k := ?p]) s = elt sparent s"
      using G [of s] at_update [of s k grp ?p] k L l(2) that(1) by auto
  next
    fix s assume "0 \<le> s \<and> s < k + 1 \<and> forced \<noteq> [] \<and> elt forced s \<and> 0 \<le> elt sparent s"
    then show "elt (grp[nat k := ?p]) s = elt sparent s"
      using Fo [of s] at_update [of s k grp ?p] k L by (cases "s = k") auto
  qed (use L l that in simp_all)
  show ?thesis
  proof (cases "?p < 0")
    case True
    then show ?thesis using stay unfolding merge_piece_def prod.case gp bind.simps by simp
  next
    case False
    then have p: "0 \<le> ?p" "?p < int (length starts)" using pk by auto
    obtain f where f: "(if forced = [] then Some False else vget forced k) = Some f" "f \<longleftrightarrow> forced \<noteq> [] \<and> elt forced k"
      using l(3) k by (cases "forced = []") (auto simp: vget_at)
    obtain b where b: "(if f then Some True else merge_pays (starts @ [n]) colcount nemin rule nelim fill k ?p) = Some b" "f \<Longrightarrow> b"
      using merge_pays_ok [OF c l(1) L(2,3) k p, of nemin rule] by (cases f) auto
    have v: "vset grp k ?p = Some (grp[nat k := ?p])" "vget nelim ?p = Some (elt nelim ?p)" "vget nelim k = Some (elt nelim k)"
      "vget fill ?p = Some (elt fill ?p)" "vget fill k = Some (elt fill k)" "\<And>x. vset nelim ?p x = Some (nelim[nat ?p := x])"
      "\<And>x. vset fill ?p x = Some (fill[nat ?p := x])"
      using k p L by (simp_all add: vset_def vget_at)
    show ?thesis
    proof (cases b)
      case True
      then show ?thesis using False move [OF p(1)] L unfolding merge_piece_def prod.case gp bind.simps f(1) b(1) by (simp add: v)
    next
      case nb: False
      then have "\<not> (forced \<noteq> [] \<and> elt forced k \<and> 0 \<le> ?p)" using f(2) b(2) by blast
      from stay [OF this] show ?thesis using False nb unfolding merge_piece_def prod.case gp bind.simps f(1) b(1) by simp
    qed
  qed
qed

lemma piece_fill_ok:
  assumes c: "cut_at n ids starts" and l: "int (length ids) = n" "int (length colcount) = n"
  shows "ok (piece_fill n (int (length starts)) ids colcount) (\<lambda>fill. length fill = length starts)"
  unfolding piece_fill_def
proof (rule for_range_ok [where I = "\<lambda>_ fill. length fill = length starts"])
  fix j and fill :: "int list" assume j: "0 \<le> j" "j < n" and lf: "length fill = length starts"
  have "vget ids j = Some (elt ids j)" "vget colcount j = Some (elt colcount j)" using j l by (simp_all add: vget_at)
  then show "ok (do { s \<leftarrow> vget ids j; c \<leftarrow> vget colcount j; f \<leftarrow> vget fill s; vset fill s (f + c) }) (\<lambda>fill. length fill = length starts)"
    using piece_bounds [OF c j] lf by simp
qed simp_all

lemma merge_pieces_ok:
  assumes c: "cut_at n ids starts" and l: "int (length ids) = n" "int (length colcount) = n" "length sparent = length starts" "length nelim = length starts"
    "forced = [] \<or> length forced = length starts"
    and sp: "\<And>s. 0 \<le> s \<Longrightarrow> s < int (length starts) \<Longrightarrow> elt sparent s = -1 \<or> s < elt sparent s \<and> elt sparent s < int (length starts)"
  shows "ok (merge_pieces n (int (length starts)) ids (starts @ [n]) colcount nemin rule sparent nelim forced) (\<lambda>grp. length grp = length starts
    \<and> (\<forall>s. 0 \<le> s \<and> s < int (length starts) \<longrightarrow> elt grp s = s \<or> 0 \<le> elt sparent s \<and> elt grp s = elt sparent s)
    \<and> (\<forall>s. 0 \<le> s \<and> s < int (length starts) \<and> forced \<noteq> [] \<and> elt forced s \<and> 0 \<le> elt sparent s \<longrightarrow> elt grp s = elt sparent s)
    \<and> (nemin \<le> 1 \<and> forced = [] \<longrightarrow> (\<forall>s. 0 \<le> s \<and> s < int (length starts) \<longrightarrow> elt grp s = s)))"
proof -
  let ?m = "int (length starts)"
  have e: "elt [0..?m - 1] s = s" if "0 \<le> s" "s < ?m" for s using that by (simp add: elt_def)
  show ?thesis
  proof (cases "nemin > 1 \<or> forced \<noteq> []")
    case False
    then show ?thesis unfolding merge_pieces_def Let_def by (simp add: e)
  next
    case True
    obtain fill where fill: "piece_fill n ?m ids colcount = Some fill" "length fill = length starts" using ok_ex [OF piece_fill_ok [OF c l(1,2)]] by blast
    have "ok (for_range 0 ?m (merge_piece (starts @ [n]) colcount nemin rule sparent forced) ([0..?m - 1], nelim, fill)) (merge_inv sparent forced ?m)"
    proof (rule for_range_ok [where I = "merge_inv sparent forced"])
      show "merge_inv sparent forced 0 ([0..?m - 1], nelim, fill)" using l fill e by (simp add: merge_inv_def)
    next
      fix k st assume "0 \<le> k" "k < ?m" "merge_inv sparent forced k st"
      then show "ok (merge_piece (starts @ [n]) colcount nemin rule sparent forced k st) (merge_inv sparent forced (k + 1))"
        using merge_piece_ok [OF c l(2,3,5) sp] by (cases st) blast
    qed simp
    then obtain grp ne fi where g: "for_range 0 ?m (merge_piece (starts @ [n]) colcount nemin rule sparent forced) ([0..?m - 1], nelim, fill) = Some (grp, ne, fi)"
      "merge_inv sparent forced ?m (grp, ne, fi)" by (metis ok_ex surj_pair)
    have "length grp = length starts \<and> (\<forall>s. 0 \<le> s \<and> s < ?m \<longrightarrow> elt grp s = s \<or> 0 \<le> elt sparent s \<and> elt grp s = elt sparent s)
      \<and> (\<forall>s. 0 \<le> s \<and> s < ?m \<and> forced \<noteq> [] \<and> elt forced s \<and> 0 \<le> elt sparent s \<longrightarrow> elt grp s = elt sparent s)"
      using g(2) l(3) by (simp add: merge_inv_def)
    moreover have "\<not> (nemin \<le> 1 \<and> forced = [])" using True by auto
    moreover have "merge_pieces n ?m ids (starts @ [n]) colcount nemin rule sparent nelim forced = Some grp"
      using True unfolding merge_pieces_def Let_def by (simp add: fill(1) g(1))
    ultimately show ?thesis by (simp only: ok_Some) blast
  qed
qed

section \<open>Survivors\<close>

text \<open>\<open>survives G m\<close>: every piece points to a survivor at or above it.\<close>

definition groups_ok :: "(int \<Rightarrow> int) \<Rightarrow> (int \<Rightarrow> int) \<Rightarrow> int \<Rightarrow> bool" where
  "groups_ok SP G m \<longleftrightarrow> (\<forall>s. 0 \<le> s \<and> s < m \<longrightarrow> s \<le> G s \<and> G s < m \<and> G (G s) = G s \<and> (G s \<noteq> s \<longrightarrow> 0 \<le> SP s \<and> SP s < m \<and> G s = G (SP s)))"

lemma resolve_groups_ok:
  assumes m: "0 \<le> m" and l: "int (length grp) = m"
    and g: "\<And>s. 0 \<le> s \<Longrightarrow> s < m \<Longrightarrow> elt grp s = s \<or> s < SP s \<and> SP s < m \<and> elt grp s = SP s"
  shows "ok (resolve_groups m grp) (\<lambda>G. int (length G) = m \<and> groups_ok SP (elt G) m
    \<and> (\<forall>s. 0 \<le> s \<and> s < m \<longrightarrow> (if elt grp s = s then elt G s = s else elt G s = elt G (SP s))))"
  unfolding resolve_groups_def
proof (rule for_range_ok [where I = "\<lambda>t G. int (length G) = m \<and> (\<forall>s. 0 \<le> s \<and> s < m - t \<longrightarrow> elt G s = elt grp s)
    \<and> (\<forall>s. 0 \<le> s \<and> m - t \<le> s \<and> s < m \<longrightarrow> s \<le> elt G s \<and> elt G s < m \<and> elt G (elt G s) = elt G s
       \<and> (if elt grp s = s then elt G s = s else elt G s = elt G (SP s)))"])
  show "int (length grp) = m \<and> (\<forall>s. 0 \<le> s \<and> s < m - 0 \<longrightarrow> elt grp s = elt grp s)
    \<and> (\<forall>s. 0 \<le> s \<and> m - 0 \<le> s \<and> s < m \<longrightarrow> s \<le> elt grp s \<and> elt grp s < m \<and> elt grp (elt grp s) = elt grp s
       \<and> (if elt grp s = s then elt grp s = s else elt grp s = elt grp (SP s)))"
    using l by simp
next
  fix t G assume t: "0 \<le> t" "t < m" and I: "int (length G) = m \<and> (\<forall>s. 0 \<le> s \<and> s < m - t \<longrightarrow> elt G s = elt grp s)
    \<and> (\<forall>s. 0 \<le> s \<and> m - t \<le> s \<and> s < m \<longrightarrow> s \<le> elt G s \<and> elt G s < m \<and> elt G (elt G s) = elt G s
       \<and> (if elt grp s = s then elt G s = s else elt G s = elt G (SP s)))"
  let ?k = "m - 1 - t" let ?p = "elt grp ?k"
  have k: "0 \<le> ?k" "?k < m" "?k < m - t" using t by simp_all
  have lG: "int (length G) = m" and lo: "\<And>s. 0 \<le> s \<Longrightarrow> s < m - t \<Longrightarrow> elt G s = elt grp s"
    and hi: "\<And>s. 0 \<le> s \<Longrightarrow> m - t \<le> s \<Longrightarrow> s < m \<Longrightarrow> s \<le> elt G s \<and> elt G s < m \<and> elt G (elt G s) = elt G s
       \<and> (if elt grp s = s then elt G s = s else elt G s = elt G (SP s))"
    using I by blast+
  have gk: "vget G ?k = Some ?p" using lo [OF k(1,3)] k lG by (simp add: vget_at)
  have p: "?p = ?k \<or> ?k < SP ?k \<and> SP ?k < m \<and> ?p = SP ?k" by (rule g [OF k(1,2)])
  then have pb: "0 \<le> ?p" "?p < m" using k by auto
  let ?x = "elt G ?p" let ?G = "G[nat ?k := ?x]"
  have v: "vget G ?p = Some ?x" "vset G ?k ?x = Some ?G" using pb k lG by (simp_all add: vget_at vset_def)
  have e: "elt ?G s = (if s = ?k then ?x else elt G s)" if "0 \<le> s" for s using at_update [OF that k(1), of G ?x] k(2) lG by simp
  have new: "?k \<le> elt ?G ?k \<and> elt ?G ?k < m \<and> elt ?G (elt ?G ?k) = elt ?G ?k
       \<and> (if elt grp ?k = ?k then elt ?G ?k = ?k else elt ?G ?k = elt ?G (SP ?k))"
  proof (cases "?p = ?k")
    case True
    then have "?x = ?k" using lo [OF k(1,3)] by simp
    then show ?thesis using True k e [OF k(1)] by simp
  next
    case False
    then have q: "?k < SP ?k" "SP ?k < m" "?p = SP ?k" using p by auto
    have "m - t \<le> SP ?k" using q(1) by simp
    note h = hi [OF _ this q(2)]
    have h1: "SP ?k \<le> ?x" "?x < m" "elt G ?x = ?x" using h k(1) q by simp_all
    then show ?thesis using False e [OF k(1)] e [of "SP ?k"] e [of ?x] q k(1) by simp
  qed
  have old: "s \<le> elt ?G s \<and> elt ?G s < m \<and> elt ?G (elt ?G s) = elt ?G s
       \<and> (if elt grp s = s then elt ?G s = s else elt ?G s = elt ?G (SP s))" if s: "0 \<le> s" "m - t \<le> s" "s < m" for s
  proof -
    note h = hi [OF s]
    have "elt G s \<noteq> ?k" "s \<noteq> ?k" "0 \<le> elt G s" using h s k by auto
    moreover have "elt grp s \<noteq> s \<longrightarrow> s < SP s" using g [OF s(1,3)] by auto
    then have "elt grp s \<noteq> s \<longrightarrow> SP s \<noteq> ?k \<and> 0 \<le> SP s" using s k by auto
    ultimately show ?thesis using h e [OF s(1)] e [of "elt G s"] e [of "SP s"] by auto
  qed
  have all: "s \<le> elt ?G s \<and> elt ?G s < m \<and> elt ?G (elt ?G s) = elt ?G s
       \<and> (if elt grp s = s then elt ?G s = s else elt ?G s = elt ?G (SP s))" if s: "0 \<le> s" "m - (t + 1) \<le> s" "s < m" for s
  proof (cases "s = ?k")
    case True
    then show ?thesis using new by blast
  next
    case False
    show ?thesis by (rule old) (use s False in auto)
  qed
  have "elt ?G s = elt grp s" if "0 \<le> s" "s < m - (t + 1)" for s using e [OF that(1)] lo [OF that(1)] that(2) by simp
  then have "int (length ?G) = m \<and> (\<forall>s. 0 \<le> s \<and> s < m - (t + 1) \<longrightarrow> elt ?G s = elt grp s)
    \<and> (\<forall>s. 0 \<le> s \<and> m - (t + 1) \<le> s \<and> s < m \<longrightarrow> s \<le> elt ?G s \<and> elt ?G s < m \<and> elt ?G (elt ?G s) = elt ?G s
       \<and> (if elt grp s = s then elt ?G s = s else elt ?G s = elt ?G (SP s)))"
    using all lG by (simp only: length_list_update) blast
  then show "ok (do { let s = m - 1 - t; g \<leftarrow> vget G s; gg \<leftarrow> vget G g; vset G s gg })
    (\<lambda>G. int (length G) = m \<and> (\<forall>s. 0 \<le> s \<and> s < m - (t + 1) \<longrightarrow> elt G s = elt grp s)
    \<and> (\<forall>s. 0 \<le> s \<and> m - (t + 1) \<le> s \<and> s < m \<longrightarrow> s \<le> elt G s \<and> elt G s < m \<and> elt G (elt G s) = elt G s
       \<and> (if elt grp s = s then elt G s = s else elt G s = elt G (SP s))))"
    unfolding Let_def gk bind.simps v ok_Some .
next
  fix G assume I: "int (length G) = m \<and> (\<forall>s. 0 \<le> s \<and> s < m - max 0 m \<longrightarrow> elt G s = elt grp s)
    \<and> (\<forall>s. 0 \<le> s \<and> m - max 0 m \<le> s \<and> s < m \<longrightarrow> s \<le> elt G s \<and> elt G s < m \<and> elt G (elt G s) = elt G s
       \<and> (if elt grp s = s then elt G s = s else elt G s = elt G (SP s)))"
  have A: "s \<le> elt G s \<and> elt G s < m \<and> elt G (elt G s) = elt G s \<and> (if elt grp s = s then elt G s = s else elt G s = elt G (SP s))"
    if "0 \<le> s" "s < m" for s using I that m by simp
  have "groups_ok SP (elt G) m"
    unfolding groups_ok_def
  proof (intro allI impI, elim conjE)
    fix s assume s: "0 \<le> s" "s < m"
    show "s \<le> elt G s \<and> elt G s < m \<and> elt G (elt G s) = elt G s \<and> (elt G s \<noteq> s \<longrightarrow> 0 \<le> SP s \<and> SP s < m \<and> elt G s = elt G (SP s))"
      using A [OF s] g [OF s] s(1) by (cases "elt grp s = s") auto
  qed
  then show "int (length G) = m \<and> groups_ok SP (elt G) m
    \<and> (\<forall>s. 0 \<le> s \<and> s < m \<longrightarrow> (if elt grp s = s then elt G s = s else elt G s = elt G (SP s)))"
    using A I by blast
qed

end
