(* ===== verification/RelaxedTree.thy ===== *)
theory RelaxedTree
  imports RelaxedGroups
begin

text \<open>
  The group tree of \<open>amalgamate_relaxed\<close>: its links, its children lists, its roots and its depth-first postorder. A piece
  merged away is given the link -2, neither a root nor a child, so that the lemmas on postorders apply.
\<close>

section \<open>The links\<close>

definition group_forest :: "(int \<Rightarrow> int) \<Rightarrow> int list \<Rightarrow> int \<Rightarrow> int list" where
  "group_forest SP G m = map (\<lambda>g. if elt G g = g then if SP g < 0 then -1 else elt G (SP g) else -2) [0..m - 1]"

lemma group_forest_elt: "0 \<le> g \<Longrightarrow> g < m \<Longrightarrow>
    elt (group_forest SP G m) g = (if elt G g = g then if SP g < 0 then -1 else elt G (SP g) else -2)"
  by (simp add: group_forest_def elt_def)

lemma group_forest_length: "0 \<le> m \<Longrightarrow> int (length (group_forest SP G m)) = m"
  by (simp add: group_forest_def)

lemma groups_okD:
  assumes "groups_ok SP G m" "0 \<le> s" "s < m"
  shows "s \<le> G s" "G s < m" "G (G s) = G s" "G s \<noteq> s \<Longrightarrow> 0 \<le> SP s \<and> SP s < m \<and> G s = G (SP s)"
  using assms unfolding groups_ok_def by blast+

lemma group_forest_up:
  assumes g: "groups_ok SP (elt G) m" and sp: "\<And>s. 0 \<le> s \<Longrightarrow> s < m \<Longrightarrow> SP s = -1 \<or> s < SP s \<and> SP s < m"
  shows "up_links (elt (group_forest SP G m)) m"
  unfolding up_links_def
proof (intro allI impI, elim conjE)
  fix j assume j: "0 \<le> j" "j < m"
  show "elt (group_forest SP G m) j < 0 \<or> j < elt (group_forest SP G m) j \<and> elt (group_forest SP G m) j < m"
  proof (cases "elt G j = j \<and> 0 \<le> SP j")
    case True
    then have "j < SP j" "SP j < m" using sp [OF j] by auto
    then show ?thesis using True groups_okD(1,2) [OF g, of "SP j"] j(1) by (simp add: group_forest_elt [OF j])
  next
    case False
    then show ?thesis by (auto simp: group_forest_elt [OF j])
  qed
qed

definition links_inv :: "int list \<Rightarrow> int \<Rightarrow> int \<Rightarrow> int list \<times> int list \<Rightarrow> bool" where
  "links_inv Q m k = (\<lambda>(gparent, ch). int (length gparent) = m \<and> int (length ch) = m + 1
     \<and> (\<forall>g. 0 \<le> g \<and> g < m \<longrightarrow> elt gparent g = (if g < k \<and> 0 \<le> elt Q g then elt Q g else -1))
     \<and> elt ch 0 = 0 \<and> (\<forall>j. 0 \<le> j \<and> j < m \<longrightarrow> elt ch (j + 1) = bcount (elt Q) (kids Q k) j))"

lemma kids_next: "0 \<le> k \<Longrightarrow> kids Q (k + 1) = kids Q k @ (if 0 \<le> elt Q k then [k] else [])"
  using upto_rec2 [of 0 k] by (simp add: kids_def)

lemma group_links_ok:
  assumes m: "0 \<le> m" and l: "int (length sparent) = m" "int (length G) = m"
    and g: "groups_ok SP (elt G) m" and sp: "\<And>s. 0 \<le> s \<Longrightarrow> s < m \<Longrightarrow> SP s = -1 \<or> s < SP s \<and> SP s < m"
    and e: "\<And>s. 0 \<le> s \<Longrightarrow> s < m \<Longrightarrow> elt sparent s = SP s"
  shows "ok (group_links m sparent G) (links_inv (group_forest SP G m) m m)"
  unfolding group_links_def
proof (rule for_range_ok [where I = "links_inv (group_forest SP G m) m"])
  show "links_inv (group_forest SP G m) m 0 (replicate (nat m) (-1), replicate (nat (m + 1)) 0)"
    using m by (auto simp: links_inv_def elt_replicate kids_def)
next
  let ?Q = "group_forest SP G m"
  fix k st assume k: "0 \<le> k" "k < m" and I: "links_inv ?Q m k st"
  obtain gp ch where st: "st = (gp, ch)" by (cases st)
  have L: "int (length gp) = m" "int (length ch) = m + 1" "elt ch 0 = 0" using I st by (simp_all add: links_inv_def)
  have P: "elt gp t = (if t < k \<and> 0 \<le> elt ?Q t then elt ?Q t else -1)" if "0 \<le> t" "t < m" for t using I st that by (simp add: links_inv_def)
  have C: "elt ch (j + 1) = bcount (elt ?Q) (kids ?Q k) j" if "0 \<le> j" "j < m" for j using I st that by (simp add: links_inv_def)
  have gG: "vget G k = Some (elt G k)" and gS: "vget sparent k = Some (SP k)" using k l e by (simp_all add: vget_at)
  have stay: "links_inv ?Q m (k + 1) (gp, ch)" if "\<not> 0 \<le> elt ?Q k"
    unfolding links_inv_def prod.case
  proof (intro conjI allI impI L)
    fix t assume t: "0 \<le> t \<and> t < m"
    then show "elt gp t = (if t < k + 1 \<and> 0 \<le> elt ?Q t then elt ?Q t else -1)" using P [of t] that by (cases "t = k") auto
  next
    fix j assume "0 \<le> j \<and> j < m"
    then show "elt ch (j + 1) = bcount (elt ?Q) (kids ?Q (k + 1)) j" using C [of j] that by (simp add: kids_next [OF k(1)])
  qed
  show "ok (case st of (gparent, ch_ptr) \<Rightarrow> do {
     gg \<leftarrow> vget G k;
     if gg \<noteq> k then Some (gparent, ch_ptr)
     else do {
       p \<leftarrow> vget sparent k;
       if p \<ge> 0 then do {
         gp \<leftarrow> vget G p;
         gparent \<leftarrow> vset gparent k gp;
         ch_ptr \<leftarrow> bump ch_ptr (gp + 1);
         Some (gparent, ch_ptr)
       } else Some (gparent, ch_ptr)
     }
   }) (links_inv ?Q m (k + 1))"
  proof (cases "elt G k = k \<and> 0 \<le> SP k")
    case False
    then have "\<not> 0 \<le> elt ?Q k" by (auto simp: group_forest_elt [OF k])
    from stay [OF this] show ?thesis using False unfolding st prod.case gG gS bind.simps by auto
  next
    case True
    then have q: "elt ?Q k = elt G (SP k)" by (simp add: group_forest_elt [OF k])
    have s: "k < SP k" "SP k < m" "0 \<le> SP k" using sp [OF k] True by auto
    let ?q = "elt G (SP k)"
    have qb: "0 \<le> ?q" "?q < m" using groups_okD(1,2) [OF g s(3,2)] s by auto
    let ?gp = "gp[nat k := ?q]" and ?ch = "ch[nat (?q + 1) := elt ch (?q + 1) + 1]"
    have v: "vget G (SP k) = Some ?q" "vset gp k ?q = Some ?gp" "bump ch (?q + 1) = Some ?ch"
      using s l L k qb by (simp_all add: vget_at vset_def bump_def)
    have "links_inv ?Q m (k + 1) (?gp, ?ch)"
      unfolding links_inv_def prod.case
    proof (intro conjI allI impI)
      show "elt ?ch 0 = 0" using at_update [of 0 "?q + 1" ch] qb L by simp
    next
      fix t assume t: "0 \<le> t \<and> t < m"
      then show "elt ?gp t = (if t < k + 1 \<and> 0 \<le> elt ?Q t then elt ?Q t else -1)"
        using P [of t] at_update [of t k gp ?q] k L q qb(1) by (cases "t = k") auto
    next
      fix j assume j: "0 \<le> j \<and> j < m"
      then show "elt ?ch (j + 1) = bcount (elt ?Q) (kids ?Q (k + 1)) j"
        using C [of j] at_update [of "j + 1" "?q + 1" ch] L qb q by (auto simp: kids_next [OF k(1)])
    qed (use L in simp_all)
    then show ?thesis using True unfolding st prod.case gG gS bind.simps v by (simp add: v)
  qed
qed (use m in simp)

section \<open>The children lists\<close>

lemma group_children_ok:
  assumes m: "0 \<le> m" and l: "int (length G) = m" and g: "groups_ok SP (elt G) m"
    and sp: "\<And>s. 0 \<le> s \<Longrightarrow> s < m \<Longrightarrow> SP s = -1 \<or> s < SP s \<and> SP s < m"
    and I: "links_inv (group_forest SP G m) m m (gparent, ch)"
  shows "ok (group_children m G gparent ch) (\<lambda>(ch_ptr, chl). child_table (group_forest SP G m) m ch_ptr chl)"
proof -
  let ?Q = "group_forest SP G m" let ?kids = "kids ?Q m"
  note up = group_forest_up [OF g sp] note keys = kids_keys [OF up]
  have L: "int (length gparent) = m" "int (length ch) = m + 1" "elt ch 0 = 0" "\<And>j. 0 \<le> j \<Longrightarrow> j < m \<Longrightarrow> elt ch (j + 1) = bcount (elt ?Q) ?kids j"
    using I by (simp_all add: links_inv_def)
  have P: "elt gparent t = (if 0 \<le> elt ?Q t then elt ?Q t else -1)" if "0 \<le> t" "t < m" for t using I that by (simp add: links_inv_def)
  have "for_range 0 m (\<lambda>g st. do { gg \<leftarrow> vget G g; gp \<leftarrow> vget gparent g; if gg = g \<and> gp \<ge> 0 then place (\<lambda>_. gp) (\<lambda>g. g) g st else Some st }) s =
      forM [0..m - 1] (\<lambda>g s. if \<not> elt ?Q g \<ge> 0 then Some s else place (elt ?Q) (\<lambda>g. g) g s) s" for s :: "int list \<times> int list"
    unfolding for_range_def
  proof (rule forM_cong)
    fix x and st :: "int list \<times> int list" assume "x \<in> set [0..m - 1]"
    then have x: "0 \<le> x" "x < m" by auto
    have v: "vget G x = Some (elt G x)" "vget gparent x = Some (if 0 \<le> elt ?Q x then elt ?Q x else -1)" using x l L(1) P [OF x] by (simp_all add: vget_at)
    have "elt G x = x" if "0 \<le> elt ?Q x" using that by (auto simp: group_forest_elt [OF x] split: if_splits)
    then show "do { gg \<leftarrow> vget G x; gp \<leftarrow> vget gparent x; if gg = x \<and> gp \<ge> 0 then place (\<lambda>_. gp) (\<lambda>g. g) x st else Some st }
        = (if \<not> elt ?Q x \<ge> 0 then Some st else place (elt ?Q) (\<lambda>g. g) x st)"
      unfolding v bind.simps by (auto simp: place_def)
  qed
  then have loop2: "for_range 0 m (\<lambda>g st. do { gg \<leftarrow> vget G g; gp \<leftarrow> vget gparent g; if gg = g \<and> gp \<ge> 0 then place (\<lambda>_. gp) (\<lambda>g. g) g st else Some st }) s =
      forM ?kids (place (elt ?Q) (\<lambda>g. g)) s" for s :: "int list \<times> int list"
    unfolding forM_skip kids_def by simp
  obtain cp where cp: "for_range 0 m prefix_inplace ch = Some cp" "int (length cp) = m + 1"
    "\<And>j. 0 \<le> j \<Longrightarrow> j \<le> m \<Longrightarrow> elt cp j = bptr (elt ?Q) ?kids j"
    using ok_ex [OF prefix_inplace_ok [OF m L(2-4)]] by blast
  have "length ?kids \<le> length [0..m - 1]" unfolding kids_def by (rule length_filter_le)
  then have fits: "length ?kids \<le> length (replicate (nat m) (0 :: int))" using m by simp
  obtain ci chl where pl: "forM ?kids (place (elt ?Q) (\<lambda>g. g)) (take (nat m) cp, replicate (nat m) 0) = Some (ci, chl)"
    "length chl = length (replicate (nat m) (0 :: int))" "take (length ?kids) chl = map (\<lambda>g. g) (concat (buckets (elt ?Q) m ?kids))"
    using ok_ex [OF place_ge_ok [OF keys m, of "take (nat m) cp" "replicate (nat m) 0" "\<lambda>g. g"]] take_xadj [OF cp(2) m] cp(3) m fits by auto
  have "child_table ?Q m cp chl" by (rule child_tableI [OF up cp(2,3)]) (use pl fits in simp_all)
  then show ?thesis unfolding group_children_def cp(1) bind.simps loop2 pl(1) by simp
qed

section \<open>The columns of each group\<close>

definition group_key :: "int list \<Rightarrow> int list \<Rightarrow> int \<Rightarrow> int" where
  "group_key G ids j = elt G (elt ids j)"

lemma group_key_bounds:
  assumes c: "cut_at n ids starts" and g: "groups_ok SP (elt G) (int (length starts))" and j: "0 \<le> j" "j < n"
  shows "0 \<le> group_key G ids j" "group_key G ids j < int (length starts)"
  using piece_bounds [OF c j] groups_okD(1,2) [OF g, of "elt ids j"] by (simp_all add: group_key_def)

lemma upto_cut: "a \<le> b \<Longrightarrow> b \<le> c \<Longrightarrow> [a..c - 1] = [a..b - 1] @ [b..c - 1]" for a b c :: int
  using upto_split1 [of a b "c - 1"] by (cases "b = c") simp_all

lemma group_columns_ok:
  assumes c: "cut_at n ids starts" and n: "0 < n" and l: "int (length ids) = n" "length G = length starts"
    and g: "groups_ok SP (elt G) (int (length starts))"
  shows "ok (group_columns n (int (length starts)) ids (starts @ [n]) G) (\<lambda>(gcol_ptr, gcols). int (length gcol_ptr) = int (length starts) + 1
    \<and> (\<forall>j. 0 \<le> j \<and> j \<le> int (length starts) \<longrightarrow> elt gcol_ptr j = bptr (group_key G ids) [0..n - 1] j)
    \<and> gcols = map (\<lambda>j. j) (concat (buckets (group_key G ids) (int (length starts)) [0..n - 1])))"
proof -
  let ?m = "int (length starts)" and ?key = "group_key G ids" and ?F = "elt (starts @ [n])"
  have st: "starts \<noteq> []" "hd starts = 0" using c n unfolding cut_at_def by blast+
  have F0: "?F 0 = 0" using st by (cases starts) (simp_all add: elt_def)
  have Fm: "?F ?m = n" using elt_snoc [of ?m starts n] by simp
  have keys: "\<forall>x \<in> set [0..n - 1]. 0 \<le> ?key x \<and> ?key x < ?m" using group_key_bounds [OF c g] by simp
  have "ok (for_range 0 ?m (\<lambda>s gcol_ptr. do {
       g \<leftarrow> vget G s;
       b \<leftarrow> vget (starts @ [n]) (s + 1);
       a \<leftarrow> vget (starts @ [n]) s;
       c \<leftarrow> vget gcol_ptr (g + 1);
       vset gcol_ptr (g + 1) (c + (b - a))
     }) (replicate (nat (?m + 1)) 0)) (\<lambda>p. int (length p) = ?m + 1 \<and> elt p 0 = 0 \<and> (\<forall>j. 0 \<le> j \<and> j < ?m \<longrightarrow> elt p (j + 1) = bcount ?key [0..n - 1] j))"
  proof (rule for_range_ok [where I = "\<lambda>s p. int (length p) = ?m + 1 \<and> elt p 0 = 0 \<and> 0 \<le> ?F s
      \<and> (\<forall>j. 0 \<le> j \<and> j < ?m \<longrightarrow> elt p (j + 1) = bcount ?key [0..?F s - 1] j)"])
    show "int (length (replicate (nat (?m + 1)) 0)) = ?m + 1 \<and> elt (replicate (nat (?m + 1)) 0) 0 = (0 :: int) \<and> 0 \<le> ?F 0
      \<and> (\<forall>j. 0 \<le> j \<and> j < ?m \<longrightarrow> elt (replicate (nat (?m + 1)) 0) (j + 1) = bcount ?key [0..?F 0 - 1] j)"
      by (simp add: F0 elt_replicate)
  next
    fix s and p :: "int list" assume s: "0 \<le> s" "s < ?m" and I: "int (length p) = ?m + 1 \<and> elt p 0 = 0 \<and> 0 \<le> ?F s
      \<and> (\<forall>j. 0 \<le> j \<and> j < ?m \<longrightarrow> elt p (j + 1) = bcount ?key [0..?F s - 1] j)"
    let ?a = "?F s" and ?b = "?F (s + 1)" and ?g = "elt G s"
    have ab: "?a < ?b" using cut_last(3) [OF c s] elt_snoc [of s starts n] s by simp
    have bn: "?b \<le> n" using cut_last(2) [OF c s] by simp
    have gb: "0 \<le> ?g" "?g < ?m" using groups_okD(1,2) [OF g s] s by simp_all
    have k: "?key j = ?g" if "?a \<le> j" "j < ?b" for j
      using piece_iff [OF c _ _ s, of j] that I bn by (simp add: group_key_def)
    have "filter (\<lambda>x. ?key x = j) [?a..?b - 1] = (if j = ?g then [?a..?b - 1] else [])" for j
      using k by (auto simp: filter_empty_conv filter_id_conv)
    then have cnt: "bcount ?key [?a..?b - 1] j = (if j = ?g then ?b - ?a else 0)" for j using ab by (simp add: bcount_def)
    have sp: "[0..?b - 1] = [0..?a - 1] @ [?a..?b - 1]" by (rule upto_cut) (use I ab in auto)
    let ?p = "p[nat (?g + 1) := elt p (?g + 1) + (?b - ?a)]"
    have v: "vget G s = Some ?g" "vget (starts @ [n]) (s + 1) = Some ?b" "vget (starts @ [n]) s = Some ?a" "vget p (?g + 1) = Some (elt p (?g + 1))"
      "vset p (?g + 1) (elt p (?g + 1) + (?b - ?a)) = Some ?p" using s l gb I by (simp_all add: vget_at vset_def)
    have "elt ?p 0 = 0" using at_update [of 0 "?g + 1" p] gb I by simp
    moreover have "elt ?p (j + 1) = bcount ?key [0..?b - 1] j" if "0 \<le> j" "j < ?m" for j
      using at_update [of "j + 1" "?g + 1" p] gb I that cnt [of j] unfolding sp by auto
    ultimately show "ok (do {
       g \<leftarrow> vget G s;
       b \<leftarrow> vget (starts @ [n]) (s + 1);
       a \<leftarrow> vget (starts @ [n]) s;
       c \<leftarrow> vget p (g + 1);
       vset p (g + 1) (c + (b - a))
     }) (\<lambda>p. int (length p) = ?m + 1 \<and> elt p 0 = 0 \<and> 0 \<le> ?b \<and> (\<forall>j. 0 \<le> j \<and> j < ?m \<longrightarrow> elt p (j + 1) = bcount ?key [0..?b - 1] j))"
      using I ab unfolding v bind.simps by simp
  qed (simp add: Fm)
  then obtain p where p: "for_range 0 ?m (\<lambda>s gcol_ptr. do {
       g \<leftarrow> vget G s;
       b \<leftarrow> vget (starts @ [n]) (s + 1);
       a \<leftarrow> vget (starts @ [n]) s;
       c \<leftarrow> vget gcol_ptr (g + 1);
       vset gcol_ptr (g + 1) (c + (b - a))
     }) (replicate (nat (?m + 1)) 0) = Some p" "int (length p) = ?m + 1" "elt p 0 = 0" "\<And>j. 0 \<le> j \<Longrightarrow> j < ?m \<Longrightarrow> elt p (j + 1) = bcount ?key [0..n - 1] j"
    by (blast dest: ok_ex)
  have m0: "0 \<le> ?m" by simp
  obtain cp where cp: "for_range 0 ?m prefix_inplace p = Some cp" "int (length cp) = ?m + 1"
    "\<And>j. 0 \<le> j \<Longrightarrow> j \<le> ?m \<Longrightarrow> elt cp j = bptr ?key [0..n - 1] j"
    using ok_ex [OF prefix_inplace_ok [OF m0 p(2-4)]] by blast
  have loop: "for_range 0 n (\<lambda>j st. do { s \<leftarrow> vget ids j; g \<leftarrow> vget G s; place (\<lambda>_. g) (\<lambda>j. j) j st }) s
      = forM [0..n - 1] (place ?key (\<lambda>j. j)) s" for s :: "int list \<times> int list"
    unfolding for_range_def
  proof (rule forM_cong)
    fix j and st :: "int list \<times> int list" assume "j \<in> set [0..n - 1]"
    then have j: "0 \<le> j" "j < n" by auto
    have "vget ids j = Some (elt ids j)" "vget G (elt ids j) = Some (?key j)"
      using j l piece_bounds [OF c j] by (simp_all add: vget_at group_key_def)
    then show "do { s \<leftarrow> vget ids j; g \<leftarrow> vget G s; place (\<lambda>_. g) (\<lambda>j. j) j st } = place ?key (\<lambda>j. j) j st" by (simp add: place_def)
  qed
  obtain cu gc where pl: "forM [0..n - 1] (place ?key (\<lambda>j. j)) (take (nat ?m) cp, replicate (nat n) 0) = Some (cu, gc)"
    "gc = map (\<lambda>j. j) (concat (buckets ?key ?m [0..n - 1]))"
    using ok_ex [OF place_ok [OF keys m0, of "take (nat ?m) cp" "replicate (nat n) 0" "\<lambda>j. j"]] take_xadj [OF cp(2) m0] cp(2,3) n by auto
  show ?thesis unfolding group_columns_def p(1) bind.simps cp(1) loop pl(1) using cp(2,3) pl(2) by simp
qed

section \<open>The search\<close>

lemma group_roots_ok:
  assumes m: "0 \<le> m" and l: "int (length G) = m" and I: "links_inv (group_forest SP G m) m m (gparent, ch)"
    and g: "groups_ok SP (elt G) m" and sp: "\<And>s. 0 \<le> s \<Longrightarrow> s < m \<Longrightarrow> SP s = -1 \<or> s < SP s \<and> SP s < m"
  shows "ok (group_roots m G gparent) (\<lambda>(node, ci, tp). int (length node) = m \<and> int (length ci) = m
     \<and> 0 \<le> tp \<and> frames node ci tp = map (\<lambda>v. (v, 0)) (roots_of (elt (group_forest SP G m)) m))"
  unfolding group_roots_def
proof (rule for_range_ok [where I = "\<lambda>t (node, ci, tp). 0 \<le> t \<and> int (length node) = m \<and> int (length ci) = m
     \<and> 0 \<le> tp \<and> tp \<le> t \<and> frames node ci tp = map (\<lambda>v. (v, 0)) (filter (\<lambda>j. elt (group_forest SP G m) j = -1) [m - t..m - 1])"],
    goal_cases)
  case 1
  then show ?case using m by simp
next
  case (2 t s)
  obtain node ci tp where s: "s = (node, ci, tp)" by (cases s)
  let ?g = "m - 1 - t" let ?Q = "elt (group_forest SP G m)"
  have k: "0 \<le> ?g" "?g < m" using 2 by simp_all
  have "[m - (t + 1)..m - 1] = ?g # [m - t..m - 1]" using 2 by (subst upto_rec1) (simp_all add: algebra_simps)
  moreover have gp: "elt gparent ?g = (if 0 \<le> ?Q ?g then ?Q ?g else -1)" using I k by (simp add: links_inv_def)
  have "elt G ?g = ?g \<and> elt gparent ?g < 0 \<longleftrightarrow> ?Q ?g = -1"
  proof (cases "elt G ?g = ?g \<and> 0 \<le> SP ?g")
    case True
    then have "0 \<le> elt G (SP ?g)" using groups_okD(1) [OF g, of "SP ?g"] sp [OF k] by force
    then show ?thesis using True gp by (simp add: group_forest_elt [OF k])
  next
    case False
    then show ?thesis using gp by (auto simp: group_forest_elt [OF k])
  qed
  moreover have "vget G ?g = Some (elt G ?g)" "vget gparent ?g = Some (elt gparent ?g)" using k l I by (simp_all add: vget_at links_inv_def)
  ultimately show ?case using 2 s
    by (auto simp: Let_def vset_def frames_push simp del: upto.simps)
next
  case (3 s)
  then show ?case using m by (auto simp: roots_of_def max_def)
qed

lemma group_dfs_ok:
  assumes m: "0 \<le> m" and table: "child_table Q m ch_ptr ch" and inv: "dfs_inv Q m (node, ci, tp, po, 0)" and l: "int (length new_id) = m"
  shows "ok (group_dfs ch_ptr ch (node, ci, tp, po, 0, new_id)) (\<lambda>(po, ng, new_id). ng = int (length (full_post (elt Q) m))
    \<and> ng \<le> int (length po) \<and> (\<forall>i. 0 \<le> i \<and> i < ng \<longrightarrow> elt po i = elt (full_post (elt Q) m) i)
    \<and> int (length new_id) = m \<and> (\<forall>i. 0 \<le> i \<and> i < ng \<longrightarrow> elt new_id (elt (full_post (elt Q) m) i) = i))"
  unfolding group_dfs_def
proof (rule loop_ok [where I = "\<lambda>(node, ci, tp, po, np, new_id). dfs_inv Q m (node, ci, tp, po, np) \<and> int (length new_id) = m
      \<and> (\<forall>i. 0 \<le> i \<and> i < np \<longrightarrow> elt new_id (elt (full_post (elt Q) m) i) = i)"
      and m = "\<lambda>(node, ci, tp, po, np, new_id). nat (2 * (m - np) - tp)"], goal_cases)
  case 1
  show ?case using inv l by simp
next
  case (2 s)
  let ?fp = "full_post (elt Q) m"
  obtain node ci tp po np new_id where s: "s = (node, ci, tp, po, np, new_id)" by (cases s)
  have inv: "dfs_inv Q m (node, ci, tp, po, np)" and ln: "int (length new_id) = m"
    and ni: "\<And>i. 0 \<le> i \<Longrightarrow> i < np \<Longrightarrow> elt new_id (elt ?fp i) = i" using 2 s by simp_all
  have I: "int (length node) = m" "int (length ci) = m" "int (length po) = m" "0 \<le> tp" "0 \<le> np" "np \<le> m" using inv by (simp_all add: dfs_inv_def)
  show ?case
  proof (cases "0 < tp")
    case False
    note d = dfs_done [OF inv False]
    have "elt po i = elt ?fp i" if "0 \<le> i" "i < np" for i
    proof -
      have "elt (take (nat np) po) i = elt po i" using that by (simp add: elt_def)
      then show ?thesis unfolding d(2) by simp
    qed
    then show ?thesis using s False d(1) ni ln I by simp
  next
    case True
    from dfs_get [OF inv table True] obtain c0 where g: "vget node (tp - 1) = Some (elt node (tp - 1))" "vget ci (tp - 1) = Some (elt ci (tp - 1))"
      "0 \<le> elt node (tp - 1)" "elt node (tp - 1) < m" "0 \<le> elt ci (tp - 1)" "vget ch_ptr (elt node (tp - 1)) = Some c0"
      "vget ch_ptr (elt node (tp - 1) + 1) = Some (c0 + int (length (children_of (elt Q) (elt node (tp - 1)))))"
      "\<And>c. 0 \<le> c \<Longrightarrow> c < int (length (children_of (elt Q) (elt node (tp - 1)))) \<Longrightarrow>
         vget ch (c0 + c) = Some (children_of (elt Q) (elt node (tp - 1)) ! nat c)"
      by metis
    show ?thesis
    proof (cases "elt ci (tp - 1) < int (length (children_of (elt Q) (elt node (tp - 1))))")
      case push: True
      note dp = dfs_push [OF inv True push]
      then show ?thesis using s True g push I ni ln by (simp add: vset_def)
    next
      case pop: False
      let ?v = "elt node (tp - 1)"
      note dp = dfs_pop [OF inv True pop]
      have tk: "take (nat (np + 1)) (po[nat np := ?v]) @ frames_rest (elt Q) (frames node ci (tp - 1)) = ?fp"
        using dp(1) by (simp add: dfs_inv_def)
      have lt: "nat np < length (take (nat (np + 1)) (po[nat np := ?v]))" using dp(2,3) I(3) by simp
      have "?fp ! nat np = take (nat (np + 1)) (po[nat np := ?v]) ! nat np" unfolding tk [symmetric] using lt by (simp add: nth_append)
      then have v: "elt ?fp np = ?v" using dp(2,3) I(3) by (simp add: elt_def)
      have lf: "np < int (length ?fp)" unfolding tk [symmetric] using lt dp(3) by simp
      have "elt (new_id[nat ?v := np]) (elt ?fp i) = i" if i: "0 \<le> i" "i < np + 1" for i
      proof (cases "i = np")
        case True
        then show ?thesis using v at_update [of ?v ?v new_id np] g(3,4) ln by simp
      next
        case False
        have "?fp ! nat i \<noteq> ?fp ! nat np"
          using nth_eq_iff_index_eq [OF full_post_bounds(2) [of "elt Q" m], of "nat i" "nat np"] i False lf by simp
        then have "elt ?fp i \<noteq> ?v" using v by (simp add: elt_def)
        moreover have "0 \<le> elt ?fp i" using full_post_bounds(1) [OF elt_in_set, of i "elt Q" m] i lf by simp
        ultimately show ?thesis using at_update [of "elt ?fp i" ?v new_id np] g(3,4) ln ni [of i] i False by simp
      qed
      then show ?thesis using s True g pop dp dfs_count(3) [OF inv] I ln by (simp add: vset_def)
    qed
  qed
qed

end
