(* ===== verification/Relaxed.thy ===== *)
theory Relaxed
  imports RelaxedTree
begin

text \<open>
  The output of \<open>amalgamate_relaxed\<close> and what it promises: a topological column order, the supernodes that cut it, the
  pieces and the forced pairs kept together.
\<close>

section \<open>Writing the groups\<close>

definition group_cols :: "(int \<Rightarrow> int) \<Rightarrow> int \<Rightarrow> int \<Rightarrow> int list" where
  "group_cols key n g = filter (\<lambda>j. key j = g) [0..n - 1]"

definition group_off :: "(int \<Rightarrow> int) \<Rightarrow> int \<Rightarrow> int list \<Rightarrow> int \<Rightarrow> int" where
  "group_off key n fp a = int (length (concat (map (group_cols key n) (take (nat a) fp))))"

lemma write_run:
  assumes "0 \<le> ps" "ps + int (length cs) \<le> int (length xs)"
  shows "forM cs (\<lambda>c (ps, order). do { order \<leftarrow> vset order ps c; Some (ps + 1, order) }) (ps, xs)
    = Some (ps + int (length cs), take (nat ps) xs @ cs @ drop (nat ps + length cs) xs)"
  using assms
proof (induction cs arbitrary: ps xs)
  case (Cons c cs)
  have v: "vset xs ps c = Some (xs[nat ps := c])" using Cons.prems by (simp add: vset_def)
  have l: "nat ps < length xs" using Cons.prems by simp
  have t: "take (nat (ps + 1)) (xs[nat ps := c]) = take (nat ps) xs @ [c]"
    using l Cons.prems(1) by (simp add: nat_add_distrib take_Suc_conv_app_nth)
  have "drop (nat (ps + 1) + length cs) (xs[nat ps := c]) = drop (nat ps + length (c # cs)) xs"
    using Cons.prems(1) by (simp add: nat_add_distrib)
  then show ?case using Cons.IH [of "ps + 1" "xs[nat ps := c]"] Cons.prems t by (simp add: v)
qed simp

lemma group_off_next: "0 \<le> a \<Longrightarrow> a < int (length fp) \<Longrightarrow> group_off key n fp (a + 1) = group_off key n fp a + int (length (group_cols key n (elt fp a)))"
  by (simp add: group_off_def nat_add_distrib take_Suc_conv_app_nth elt_def)

lemma group_off_mono:
  assumes "0 \<le> a" "a \<le> b" "b \<le> int (length fp)"
  shows "group_off key n fp a \<le> group_off key n fp b"
  using assms(2,3)
proof (induction b rule: int_ge_induct)
  case (step b)
  then show ?case using group_off_next [of b fp key n] assms(1) by simp
qed simp

definition out_snode :: "(int \<Rightarrow> int) \<Rightarrow> int \<Rightarrow> int list \<Rightarrow> int list \<Rightarrow> int list \<Rightarrow> int \<Rightarrow> supernode" where
  "out_snode key n fp Q new_id a = \<lparr>sn_start = group_off key n fp a, sn_end = group_off key n fp (a + 1),
     sn_parent = if 0 \<le> elt Q (elt fp a) then elt new_id (elt Q (elt fp a)) else -1\<rparr>"

lemma emit_groups_ok:
  assumes fp: "\<And>i. 0 \<le> i \<Longrightarrow> i < ng \<Longrightarrow> elt po i = elt fp i" "ng = int (length fp)" "ng \<le> int (length po)"
    and fpb: "\<And>g. g \<in> set fp \<Longrightarrow> 0 \<le> g \<and> g < m"
    and ptr: "int (length gcol_ptr) = m + 1" "\<And>j. 0 \<le> j \<Longrightarrow> j \<le> m \<Longrightarrow> elt gcol_ptr j = bptr key [0..n - 1] j"
    and gc: "gcols = map (\<lambda>j. j) (concat (buckets key m [0..n - 1]))" and keys: "\<And>j. 0 \<le> j \<Longrightarrow> j < n \<Longrightarrow> 0 \<le> key j \<and> key j < m"
    and I: "links_inv Q m m (gparent, ch)" and up: "up_links (elt Q) m" and nl: "int (length new_id) = m"
    and tot: "length (concat (map (group_cols key n) fp)) = nat n"
  shows "emit_groups n ng po gcol_ptr gcols gparent new_id = Some (concat (map (group_cols key n) fp), map (out_snode key n fp Q new_id) [0..ng - 1])"
proof -
  let ?cols = "group_cols key n" and ?off = "group_off key n fp"
  have off_end: "?off ng = int (nat n)" using tot by (simp add: group_off_def fp(2))
  have ks: "\<forall>x \<in> set [0..n - 1]. 0 \<le> key x \<and> key x < m" using keys by simp
  have "ok (for_range 0 ng (\<lambda>i (ps, order, snodes). do {
       g \<leftarrow> vget po i;
       let col_start = ps;
       a \<leftarrow> vget gcol_ptr g;
       b \<leftarrow> vget gcol_ptr (g + 1);
       (ps, order) \<leftarrow> for_range a b (\<lambda>t (ps, order). do {
         c \<leftarrow> vget gcols t;
         order \<leftarrow> vset order ps c;
         Some (ps + 1, order)
       }) (ps, order);
       gp \<leftarrow> vget gparent g;
       par \<leftarrow> (if gp \<ge> 0 then vget new_id gp else Some (-1));
       Some (ps, order, snodes @ [\<lparr>sn_start = col_start, sn_end = ps, sn_parent = par\<rparr>])
     }) (0, replicate (nat n) 0, [])) (\<lambda>(ps, order, snodes). ps = ?off ng \<and> length order = nat n
       \<and> take (nat (?off ng)) order = concat (map ?cols (take (nat ng) fp)) \<and> snodes = map (out_snode key n fp Q new_id) [0..ng - 1])"
  proof (rule for_range_ok [where I = "\<lambda>i (ps, order, snodes). ps = ?off i \<and> length order = nat n
       \<and> take (nat (?off i)) order = concat (map ?cols (take (nat i) fp)) \<and> snodes = map (out_snode key n fp Q new_id) [0..i - 1]"])
    show "case (0, replicate (nat n) 0, []) of (ps, order, snodes) \<Rightarrow> ps = ?off 0 \<and> length order = nat n
       \<and> take (nat (?off 0)) order = concat (map ?cols (take (nat 0) fp)) \<and> snodes = map (out_snode key n fp Q new_id) [0..0 - 1]"
      by (simp add: group_off_def)
  next
    fix i and st :: "int \<times> int list \<times> supernode list"
    assume i: "0 \<le> i" "i < ng" and S: "case st of (ps, order, snodes) \<Rightarrow> ps = ?off i \<and> length order = nat n
       \<and> take (nat (?off i)) order = concat (map ?cols (take (nat i) fp)) \<and> snodes = map (out_snode key n fp Q new_id) [0..i - 1]"
    obtain ord sns where st: "st = (?off i, ord, sns)" and lo: "length ord = nat n"
      and tk: "take (nat (?off i)) ord = concat (map ?cols (take (nat i) fp))" and sns: "sns = map (out_snode key n fp Q new_id) [0..i - 1]"
      using S by (cases st) auto
    let ?g = "elt fp i"
    have gb: "0 \<le> ?g" "?g < m" using fpb [OF elt_in_set [of i fp]] i fp(2) by simp_all
    have go: "vget po i = Some ?g" using i fp by (simp add: vget_at)
    have gab: "vget gcol_ptr ?g = Some (bptr key [0..n - 1] ?g)" "vget gcol_ptr (?g + 1) = Some (bptr key [0..n - 1] (?g + 1))"
      using gb ptr by (simp_all add: vget_at)
    note bs = bucket_segment(1) [OF ks gb, of "\<lambda>j. j"] bucket_segment(2,3) [OF ks gb] bucket_segment(4) [OF ks gb, of "\<lambda>j. j"]
    have on: "?off (i + 1) = ?off i + int (length (?cols ?g))" using group_off_next [of i fp key n] i fp(2) by simp
    have le: "?off (i + 1) \<le> ?off ng" by (rule group_off_mono) (use i fp(2) in auto)
    have o0: "0 \<le> ?off i" by (simp add: group_off_def)
    have inner: "for_range (bptr key [0..n - 1] ?g) (bptr key [0..n - 1] (?g + 1)) (\<lambda>t (ps, order). do {
         c \<leftarrow> vget gcols t;
         order \<leftarrow> vset order ps c;
         Some (ps + 1, order)
       }) (?off i, ord) = Some (?off (i + 1), take (nat (?off i)) ord @ ?cols ?g @ drop (nat (?off i) + length (?cols ?g)) ord)"
    proof -
      have e: "(\<lambda>t (ps, order). do { c \<leftarrow> vget gcols t; order \<leftarrow> vset order ps c; Some (ps + 1, order) })
        = (\<lambda>t st. do { c \<leftarrow> vget gcols t; (\<lambda>c (ps, order). do { order \<leftarrow> vset order ps c; Some (ps + 1, order) }) c st })"
        by (intro ext) (simp add: case_prod_unfold)
      have "segment gcols (bptr key [0..n - 1] ?g) (bptr key [0..n - 1] (?g + 1)) = ?cols ?g"
        unfolding gc bs(1) by (simp add: group_cols_def)
      moreover have "for_range (bptr key [0..n - 1] ?g) (bptr key [0..n - 1] (?g + 1))
          (\<lambda>t st. do { c \<leftarrow> vget gcols t; (\<lambda>c (ps, order). do { order \<leftarrow> vset order ps c; Some (ps + 1, order) }) c st }) (?off i, ord)
        = forM (segment gcols (bptr key [0..n - 1] ?g) (bptr key [0..n - 1] (?g + 1))) (\<lambda>c (ps, order). do { order \<leftarrow> vset order ps c; Some (ps + 1, order) }) (?off i, ord)"
        by (rule for_range_segment) (use bs(2-4) gc in auto)
      ultimately show ?thesis unfolding e using write_run [of "?off i" "?cols ?g" ord] o0 on le off_end lo by simp
    qed
    have tk': "take (nat (?off (i + 1))) (take (nat (?off i)) ord @ ?cols ?g @ drop (nat (?off i) + length (?cols ?g)) ord)
        = concat (map ?cols (take (nat (i + 1)) fp))"
    proof -
      have l: "length (take (nat (?off i)) ord) = nat (?off i)" unfolding tk by (simp add: group_off_def)
      have "nat (?off (i + 1)) = nat (?off i) + length (?cols ?g)" using on o0 by simp
      then show ?thesis using i fp(2) l unfolding tk by (simp add: nat_add_distrib take_Suc_conv_app_nth elt_def)
    qed
    have ln: "length (take (nat (?off i)) ord @ ?cols ?g @ drop (nat (?off i) + length (?cols ?g)) ord) = nat n"
    proof -
      have "int (nat (?off i) + length (?cols ?g)) \<le> int (nat n)" using on le off_end o0 by simp
      then have "nat (?off i) + length (?cols ?g) \<le> nat n" by (simp only: of_nat_le_iff)
      then show ?thesis using lo by simp
    qed
    let ?q = "elt Q ?g"
    have gq: "vget gparent ?g = Some (if 0 \<le> ?q then ?q else -1)" using I gb by (simp add: links_inv_def vget_at)
    have "?q < 0 \<or> ?q < m" using up gb unfolding up_links_def by blast
    then have par: "(if (if 0 \<le> ?q then ?q else -1) \<ge> 0 then vget new_id (if 0 \<le> ?q then ?q else -1) else Some (-1))
        = Some (if 0 \<le> ?q then elt new_id ?q else -1)" using nl by (auto simp: vget_at)
    have "sns @ [\<lparr>sn_start = ?off i, sn_end = ?off (i + 1), sn_parent = if 0 \<le> ?q then elt new_id ?q else -1\<rparr>]
        = map (out_snode key n fp Q new_id) [0..i + 1 - 1]"
      using upto_rec2 [OF i(1)] unfolding sns by (simp add: out_snode_def)
    then show "ok ((\<lambda>(ps, order, snodes). do {
       g \<leftarrow> vget po i;
       let col_start = ps;
       a \<leftarrow> vget gcol_ptr g;
       b \<leftarrow> vget gcol_ptr (g + 1);
       (ps, order) \<leftarrow> for_range a b (\<lambda>t (ps, order). do {
         c \<leftarrow> vget gcols t;
         order \<leftarrow> vset order ps c;
         Some (ps + 1, order)
       }) (ps, order);
       gp \<leftarrow> vget gparent g;
       par \<leftarrow> (if gp \<ge> 0 then vget new_id gp else Some (-1));
       Some (ps, order, snodes @ [\<lparr>sn_start = col_start, sn_end = ps, sn_parent = par\<rparr>])
     }) st) (\<lambda>(ps, order, snodes). ps = ?off (i + 1) \<and> length order = nat n
       \<and> take (nat (?off (i + 1))) order = concat (map ?cols (take (nat (i + 1)) fp)) \<and> snodes = map (out_snode key n fp Q new_id) [0..i + 1 - 1])"
      unfolding st prod.case go bind.simps Let_def gab inner gq par using tk' ln by simp
  next
    fix st :: "int \<times> int list \<times> supernode list"
    have "max 0 ng = ng" using fp(2) by simp
    then show "case st of (ps, order, snodes) \<Rightarrow> ps = ?off (max 0 ng) \<and> length order = nat n
       \<and> take (nat (?off (max 0 ng))) order = concat (map ?cols (take (nat (max 0 ng)) fp)) \<and> snodes = map (out_snode key n fp Q new_id) [0..max 0 ng - 1]
      \<Longrightarrow> case st of (ps, order, snodes) \<Rightarrow> ps = ?off ng \<and> length order = nat n
       \<and> take (nat (?off ng)) order = concat (map ?cols (take (nat ng) fp)) \<and> snodes = map (out_snode key n fp Q new_id) [0..ng - 1]" by simp
  qed
  from ok_ex [OF this] obtain ps order snodes where e: "for_range 0 ng (\<lambda>i (ps, order, snodes). do {
       g \<leftarrow> vget po i;
       let col_start = ps;
       a \<leftarrow> vget gcol_ptr g;
       b \<leftarrow> vget gcol_ptr (g + 1);
       (ps, order) \<leftarrow> for_range a b (\<lambda>t (ps, order). do {
         c \<leftarrow> vget gcols t;
         order \<leftarrow> vset order ps c;
         Some (ps + 1, order)
       }) (ps, order);
       gp \<leftarrow> vget gparent g;
       par \<leftarrow> (if gp \<ge> 0 then vget new_id gp else Some (-1));
       Some (ps, order, snodes @ [\<lparr>sn_start = col_start, sn_end = ps, sn_parent = par\<rparr>])
     }) (0, replicate (nat n) 0, []) = Some (ps, order, snodes)"
    "length order = nat n" "take (nat (?off ng)) order = concat (map ?cols (take (nat ng) fp))" "snodes = map (out_snode key n fp Q new_id) [0..ng - 1]"
    by auto
  have "order = concat (map ?cols fp)" using e(2,3) off_end fp(2) by simp
  then show ?thesis unfolding emit_groups_def e(1) bind.simps prod.case using e(4) by simp
qed

section \<open>The survivors in postorder\<close>

lemma survivor_post:
  assumes m: "0 \<le> m" and g: "groups_ok SP (elt G) m" and sp: "\<And>s. 0 \<le> s \<Longrightarrow> s < m \<Longrightarrow> SP s = -1 \<or> s < SP s \<and> SP s < m"
  shows "set (full_post (elt (group_forest SP G m)) m) = {g. 0 \<le> g \<and> g < m \<and> elt G g = g}"
proof (intro set_eqI iffI)
  let ?Q = "elt (group_forest SP G m)"
  fix u assume u: "u \<in> set (full_post ?Q m)"
  note b = full_post_bounds(1) [OF u]
  obtain r where r: "r \<in> set (roots_of ?Q m)" "below ?Q r u" using u by (auto simp: full_post_def set_post)
  have "elt G u = u"
    using r(2)
  proof (cases rule: below.cases)
    case below_refl
    then have "?Q u = -1" using r(1) by (simp add: roots_of_def)
    then show ?thesis using group_forest_elt [of u m SP G] b by (auto split: if_splits)
  next
    case below_child
    then show ?thesis using group_forest_elt [of u m SP G] b by (auto split: if_splits)
  qed
  then show "u \<in> {g. 0 \<le> g \<and> g < m \<and> elt G g = g}" using b by simp
next
  let ?Q = "elt (group_forest SP G m)"
  fix u assume u: "u \<in> {g. 0 \<le> g \<and> g < m \<and> elt G g = g}"
  have "\<exists>r \<in> set (roots_of ?Q m). below ?Q r u" if "0 \<le> u" "u < m" "elt G u = u" for u
    using that
  proof (induction "nat (m - u)" arbitrary: u rule: less_induct)
    case less
    show ?case
    proof (cases "?Q u = -1")
      case True
      then show ?thesis using less.prems by (auto simp: roots_of_def intro: below.below_refl)
    next
      case False
      then have "0 \<le> SP u" and q: "?Q u = elt G (SP u)" using group_forest_elt [of u m SP G] less.prems sp [of u] by (auto split: if_splits)
      then have s: "u < SP u" "SP u < m" using sp [of u] less.prems by auto
      then have "u < ?Q u" "?Q u < m" "elt G (?Q u) = ?Q u" using groups_okD(1-3) [OF g, of "SP u"] less.prems(1) q by simp_all
      then show ?thesis using less.hyps [of "?Q u"] less.prems by (auto intro: below.below_child)
    qed
  qed
  then show "u \<in> set (full_post ?Q m)" using u by (auto simp: full_post_def set_post)
qed

lemma group_order_perm:
  assumes d: "distinct fp" and k: "\<And>j. 0 \<le> j \<Longrightarrow> j < n \<Longrightarrow> key j \<in> set fp"
  shows "distinct (concat (map (group_cols key n) fp))" "set (concat (map (group_cols key n) fp)) = {j. 0 \<le> j \<and> j < n}"
    "length (concat (map (group_cols key n) fp)) = nat n"
proof -
  show d: "distinct (concat (map (group_cols key n) fp))" by (rule distinct_concat_map) (use d in \<open>auto simp: group_cols_def\<close>)
  show s: "set (concat (map (group_cols key n) fp)) = {j. 0 \<le> j \<and> j < n}" using k by (auto simp: group_cols_def)
  have "{j. 0 \<le> j \<and> j < n} = {0..<n}" by auto
  then show "length (concat (map (group_cols key n) fp)) = nat n" using distinct_card [OF d] s by simp
qed

section \<open>The supernodes cut the new order\<close>

definition out_snodes :: "(int \<Rightarrow> int) \<Rightarrow> int \<Rightarrow> int list \<Rightarrow> int list \<Rightarrow> int list \<Rightarrow> supernode list" where
  "out_snodes key n fp Q new_id = map (out_snode key n fp Q new_id) [0..int (length fp) - 1]"

lemma out_snodes_elt: "0 \<le> a \<Longrightarrow> a < int (length fp) \<Longrightarrow> elt (out_snodes key n fp Q new_id) a = out_snode key n fp Q new_id a"
  by (simp add: out_snodes_def elt_def)

lemma out_snodes_length [simp]: "length (out_snodes key n fp Q new_id) = length fp"
  by (simp add: out_snodes_def)

lemma out_snodes_chain:
  assumes "\<And>g. g \<in> set fp \<Longrightarrow> group_cols key n g \<noteq> []"
  shows "sn_chain 0 (int (length (concat (map (group_cols key n) fp)))) (out_snodes key n fp Q new_id)"
proof -
  have "sn_chain 0 (group_off key n fp k) (map (out_snode key n fp Q new_id) [0..k - 1])" if "0 \<le> k" "k \<le> int (length fp)" for k
    using that
  proof (induction k rule: int_ge_induct)
    case base
    then show ?case by (simp add: group_off_def)
  next
    case (step k)
    have "group_cols key n (elt fp k) \<noteq> []" by (rule assms, rule elt_in_set) (use step in auto)
    then have "group_off key n fp k < group_off key n fp (k + 1)" using group_off_next [of k fp key n] step by simp
    then show ?case using step upto_rec2 [of 0 k] by (auto simp: sn_chain_append out_snode_def)
  qed
  from this [of "int (length fp)"] show ?thesis by (simp add: out_snodes_def group_off_def)
qed

lemma order_at:
  assumes a: "0 \<le> a" "a < int (length fp)" and i: "group_off key n fp a \<le> i" "i < group_off key n fp (a + 1)"
  shows "elt (concat (map (group_cols key n) fp)) i = elt (group_cols key n (elt fp a)) (i - group_off key n fp a)"
proof -
  let ?xs = "map (group_cols key n) fp"
  have k: "nat a < length ?xs" using a by simp
  have off: "group_off key n fp a = int (length (concat (take (nat a) ?xs)))" by (simp add: group_off_def take_map)
  have p: "nat (i - group_off key n fp a) < length (?xs ! nat a)" using i group_off_next [OF a, of key n] a by (simp add: elt_def)
  have "nat i = length (concat (take (nat a) ?xs)) + nat (i - group_off key n fp a)" using i(1) off by simp
  then show ?thesis using nth_concat_at [OF k p] a by (simp add: elt_def)
qed

lemma in_out_snode:
  assumes d: "distinct fp" and k: "\<And>j. 0 \<le> j \<Longrightarrow> j < n \<Longrightarrow> key j \<in> set fp" and ne: "\<And>g. g \<in> set fp \<Longrightarrow> group_cols key n g \<noteq> []" and n: "0 \<le> n"
  shows "in_snode (out_snodes key n fp Q new_id) a i \<longleftrightarrow> 0 \<le> i \<and> i < n \<and> 0 \<le> a \<and> a < int (length fp)
    \<and> key (elt (concat (map (group_cols key n) fp)) i) = elt fp a"
proof -
  let ?sn = "out_snodes key n fp Q new_id" and ?order = "concat (map (group_cols key n) fp)"
  have ch: "sn_chain 0 n ?sn" using out_snodes_chain [of fp key n Q new_id] ne group_order_perm(3) [of fp n key] d k n by simp
  have to: "0 \<le> i \<and> i < n \<and> 0 \<le> a \<and> a < int (length fp) \<and> key (elt ?order i) = elt fp a" if i: "in_snode ?sn a i" for a
  proof -
    have a: "0 \<le> a" "a < int (length fp)" using i by (simp_all add: in_snode_def)
    have r: "group_off key n fp a \<le> i" "i < group_off key n fp (a + 1)" using i out_snodes_elt [OF a, of key n Q new_id] by (simp_all add: in_snode_def out_snode_def)
    have "elt (group_cols key n (elt fp a)) (i - group_off key n fp a) \<in> set (group_cols key n (elt fp a))"
      by (rule elt_in_set) (use r group_off_next [OF a, of key n] in auto)
    then have "key (elt ?order i) = elt fp a" unfolding order_at [OF a r] by (simp add: group_cols_def)
    then show ?thesis using sn_chain_cover(2) [OF ch i] a by simp
  qed
  show ?thesis
  proof
    assume i: "0 \<le> i \<and> i < n \<and> 0 \<le> a \<and> a < int (length fp) \<and> key (elt ?order i) = elt fp a"
    then obtain b where b: "in_snode ?sn b i" using sn_chain_cover(1) [OF ch] by blast
    have "elt fp a = elt fp b" "0 \<le> b" "b < int (length fp)" using to [OF b] i by simp_all
    moreover have "nat a < length fp" "nat b < length fp" using i \<open>b < int (length fp)\<close> \<open>0 \<le> b\<close> by (simp_all add: nat_less_iff)
    ultimately have "nat a = nat b" using nth_eq_iff_index_eq [OF d, of "nat a" "nat b"] by (simp add: elt_def)
    then show "in_snode ?sn a i" using b i \<open>0 \<le> b\<close> by (simp add: eq_nat_nat_iff)
  qed (rule to)
qed

text \<open>Inside one supernode the columns keep their input order.\<close>

lemma order_ascending:
  assumes i: "in_snode (out_snodes key n fp Q new_id) a i" and k: "in_snode (out_snodes key n fp Q new_id) a k"
  shows "elt (concat (map (group_cols key n) fp)) i < elt (concat (map (group_cols key n) fp)) k \<longleftrightarrow> i < k"
proof -
  have a: "0 \<le> a" "a < int (length fp)" using i by (simp_all add: in_snode_def)
  have r: "group_off key n fp a \<le> i" "i < group_off key n fp (a + 1)" "group_off key n fp a \<le> k" "k < group_off key n fp (a + 1)"
    using i k out_snodes_elt [OF a, of key n Q new_id] by (simp_all add: in_snode_def out_snode_def)
  let ?c = "group_cols key n (elt fp a)" and ?o = "group_off key n fp a"
  have so: "sorted_wrt (<) ?c" unfolding group_cols_def by (rule sorted_wrt_filter) simp
  have l: "nat (i - ?o) < length ?c" "nat (k - ?o) < length ?c" using r group_off_next [OF a, of key n] by simp_all
  have lt: "?c ! x < ?c ! y" if "x < y" "y < length ?c" for x y using sorted_wrt_nth_less [OF so that] .
  have "elt ?c (i - ?o) < elt ?c (k - ?o) \<longleftrightarrow> nat (i - ?o) < nat (k - ?o)"
    unfolding elt_def [of ?c] using lt [OF _ l(1), of "nat (k - ?o)"] lt [OF _ l(2), of "nat (i - ?o)"] by (metis less_asym' nat_neq_iff)
  then show ?thesis unfolding order_at [OF a r(1,2)] order_at [OF a r(3,4)] using r(1,3) by auto
qed

section \<open>The whole function\<close>

text \<open>What the phases leave behind: the cut into pieces, the groups \<open>G\<close> and the survivors \<open>fp\<close> in postorder.\<close>

definition relaxed_result :: "int \<Rightarrow> int list \<Rightarrow> int list \<Rightarrow> int \<Rightarrow> bool list option \<Rightarrow> int list \<Rightarrow> int list \<Rightarrow> int list \<Rightarrow> int list \<Rightarrow> bool" where
  "relaxed_result n parent colcount nemin kw ids starts G new_id \<longleftrightarrow> (let m = int (length starts); SP = piece_parent parent n ids starts in
     int (length ids) = n \<and> cut_at n ids starts \<and> (\<forall>j. 0 \<le> j \<and> j < n \<longrightarrow> (j \<in> set starts \<longleftrightarrow> snode_break (elt parent) n colcount j))
     \<and> int (length G) = m \<and> groups_ok SP (elt G) m
     \<and> (case kw of None \<Rightarrow> nemin \<le> 1 \<longrightarrow> (\<forall>s. 0 \<le> s \<and> s < m \<longrightarrow> elt G s = s)
        | Some keep \<Rightarrow> \<forall>s. 0 \<le> s \<and> s < m \<and> forced_piece parent ids n keep s \<and> 0 \<le> SP s \<longrightarrow> elt G s = elt G (SP s))
     \<and> (\<forall>i. 0 \<le> i \<and> i < int (length (full_post (elt (group_forest SP G m)) m)) \<longrightarrow> elt new_id (elt (full_post (elt (group_forest SP G m)) m) i) = i))"

lemma group_key_survivor:
  assumes c: "cut_at n ids starts" and g: "groups_ok SP (elt G) (int (length starts))"
    and sp: "\<And>s. 0 \<le> s \<Longrightarrow> s < int (length starts) \<Longrightarrow> SP s = -1 \<or> s < SP s \<and> SP s < int (length starts)" and j: "0 \<le> j" "j < n"
  shows "group_key G ids j \<in> set (full_post (elt (group_forest SP G (int (length starts)))) (int (length starts)))"
proof -
  have "set (full_post (elt (group_forest SP G (int (length starts)))) (int (length starts))) = {g. 0 \<le> g \<and> g < int (length starts) \<and> elt G g = g}"
    by (rule survivor_post [OF _ g sp]) auto
  then show ?thesis using group_key_bounds [OF c g j] groups_okD(3) [OF g] piece_bounds [OF c j] by (simp add: group_key_def)
qed

lemma amalgamate_relaxed_ok:
  assumes n: "0 < n" and l: "int (length parent) = n" "int (length colcount) = n" and f: "ordered_forest (elt parent) n"
    and k: "\<And>keep. kw = Some keep \<Longrightarrow> int (length keep) = n"
  shows "\<exists>ids starts G new_id. relaxed_result n parent colcount nemin kw ids starts G new_id
    \<and> (let m = int (length starts); Q = group_forest (piece_parent parent n ids starts) G m; fp = full_post (elt Q) m in
       amalgamate_relaxed n parent colcount nemin kw rule
         = Some (concat (map (group_cols (group_key G ids) n) fp), out_snodes (group_key G ids) n fp Q new_id))"
proof -
  have n0: "0 \<le> n" using n by simp
  obtain ids starts where P: "relaxed_pieces n parent colcount = Some (ids, starts @ [n])" "int (length ids) = n" "cut_at n ids starts"
    "\<forall>j. 0 \<le> j \<and> j < n \<longrightarrow> (j \<in> set starts \<longleftrightarrow> snode_break (elt parent) n colcount j)"
    using ok_ex [OF relaxed_pieces_ok [OF n0 l f]] by auto
  let ?m = "int (length starts)" and ?SP = "piece_parent parent n ids starts"
  have m0: "0 \<le> ?m" by simp
  note sp = piece_parent_later [OF P(3) f]
  obtain spl nel where S: "piece_links ?m parent ids (starts @ [n]) = Some (spl, nel)" "length spl = length starts" "length nel = length starts"
    "\<And>s. 0 \<le> s \<Longrightarrow> s < ?m \<Longrightarrow> elt spl s = ?SP s"
    using ok_ex [OF piece_links_ok [OF P(3) l(1) P(2) f]] by auto
  obtain fo where F: "forced_merges n ?m parent ids kw = Some fo" "case kw of None \<Rightarrow> fo = []
    | Some keep \<Rightarrow> length fo = length starts \<and> (\<forall>s. 0 \<le> s \<and> s < int (length starts) \<longrightarrow> (elt fo s \<longleftrightarrow> forced_piece parent ids n keep s))"
    using ok_ex [OF forced_merges_ok [OF P(3) l(1) P(2) f k]] by blast
  have lf: "fo = [] \<or> length fo = length starts" using F(2) by (cases kw) simp_all
  have sps: "elt spl s = -1 \<or> s < elt spl s \<and> elt spl s < ?m" if "0 \<le> s" "s < ?m" for s using sp [OF that] S(4) [OF that] by simp
  obtain grp where M: "merge_pieces n ?m ids (starts @ [n]) colcount nemin rule spl nel fo = Some grp" "length grp = length starts"
    "\<And>s. 0 \<le> s \<Longrightarrow> s < ?m \<Longrightarrow> elt grp s = s \<or> 0 \<le> elt spl s \<and> elt grp s = elt spl s"
    "\<And>s. 0 \<le> s \<Longrightarrow> s < ?m \<Longrightarrow> fo \<noteq> [] \<Longrightarrow> elt fo s \<Longrightarrow> 0 \<le> elt spl s \<Longrightarrow> elt grp s = elt spl s"
    "nemin \<le> 1 \<Longrightarrow> fo = [] \<Longrightarrow> 0 \<le> s \<Longrightarrow> s < ?m \<Longrightarrow> elt grp s = s" for s
    using ok_ex [OF merge_pieces_ok [OF P(3,2) l(2) S(2,3) lf sps, of nemin rule]] by blast
  have gr: "elt grp s = s \<or> s < ?SP s \<and> ?SP s < ?m \<and> elt grp s = ?SP s" if "0 \<le> s" "s < ?m" for s
    using M(3) [OF that] S(4) [OF that] sp [OF that] that(1) by auto
  have lg: "int (length grp) = ?m" using M(2) by simp
  obtain G where R: "resolve_groups ?m grp = Some G" "int (length G) = ?m" "groups_ok ?SP (elt G) ?m"
    "\<forall>s. 0 \<le> s \<and> s < ?m \<longrightarrow> (if elt grp s = s then elt G s = s else elt G s = elt G (?SP s))"
    using ok_ex [OF resolve_groups_ok [OF m0 lg gr]] by blast
  let ?Q = "group_forest ?SP G ?m" let ?fp = "full_post (elt ?Q) ?m" and ?key = "group_key G ids"
  have lspl: "int (length spl) = ?m" and lG: "length G = length starts" using S(2) R(2) by simp_all
  obtain gpar ch where K: "group_links ?m spl G = Some (gpar, ch)" "links_inv ?Q ?m ?m (gpar, ch)"
    using ok_ex [OF group_links_ok [OF m0 lspl R(2,3) sp S(4)]] by (metis surj_pair)
  obtain cp chl where C: "group_children ?m G gpar ch = Some (cp, chl)" "child_table ?Q ?m cp chl"
    using ok_ex [OF group_children_ok [OF m0 R(2,3) sp K(2)]] by (metis case_prodE)
  obtain gcp gc where W: "group_columns n ?m ids (starts @ [n]) G = Some (gcp, gc)" "int (length gcp) = ?m + 1"
    "\<And>j. 0 \<le> j \<Longrightarrow> j \<le> ?m \<Longrightarrow> elt gcp j = bptr ?key [0..n - 1] j" "gc = map (\<lambda>j. j) (concat (buckets ?key ?m [0..n - 1]))"
    using ok_ex [OF group_columns_ok [OF P(3) n P(2) lG R(3)]] by auto
  obtain node ci tp where T: "group_roots ?m G gpar = Some (node, ci, tp)" "int (length node) = ?m" "int (length ci) = ?m" "0 \<le> tp"
    "frames node ci tp = map (\<lambda>v. (v, 0)) (roots_of (elt ?Q) ?m)"
    using ok_ex [OF group_roots_ok [OF m0 R(2) K(2) R(3) sp]] by auto
  have inv: "dfs_inv ?Q ?m (node, ci, tp, replicate (length starts) 0, 0)" by (rule dfs_inv_start [OF m0 T(2,3) _ T(4,5)]) simp
  obtain po ng new_id where D: "group_dfs cp chl (node, ci, tp, replicate (length starts) 0, 0, replicate (length starts) (-1)) = Some (po, ng, new_id)"
    "ng = int (length ?fp)" "ng \<le> int (length po)" "\<And>i. 0 \<le> i \<Longrightarrow> i < ng \<Longrightarrow> elt po i = elt ?fp i" "int (length new_id) = ?m"
    "\<And>i. 0 \<le> i \<Longrightarrow> i < ng \<Longrightarrow> elt new_id (elt ?fp i) = i"
    using ok_ex [OF group_dfs_ok [OF m0 C(2) inv, of "replicate (length starts) (-1)"]] by auto
  have sv: "?key j \<in> set ?fp" if "0 \<le> j" "j < n" for j by (rule group_key_survivor [OF P(3) R(3) sp that])
  have tot: "length (concat (map (group_cols ?key n) ?fp)) = nat n" using group_order_perm(3) [of ?fp n ?key] full_post_bounds(2) sv by blast
  have kb: "0 \<le> ?key j \<and> ?key j < ?m" if "0 \<le> j" "j < n" for j using group_key_bounds [OF P(3) R(3) that] by simp
  have E: "emit_groups n ng po gcp gc gpar new_id = Some (concat (map (group_cols ?key n) ?fp), map (out_snode ?key n ?fp ?Q new_id) [0..ng - 1])"
    by (rule emit_groups_ok [OF D(4,2,3) full_post_bounds(1) W(2-4) kb K(2) group_forest_up [OF R(3) sp] D(5) tot])
  have "amalgamate_relaxed n parent colcount nemin kw rule = Some (concat (map (group_cols ?key n) ?fp), out_snodes ?key n ?fp ?Q new_id)"
    using n unfolding amalgamate_relaxed_def Let_def
    by (simp add: P(1) S(1) F(1) M(1) R(1) K(1) C(1) W(1) T(1) D(1) E [unfolded D(2)] out_snodes_def D(2))
  moreover have "case kw of None \<Rightarrow> nemin \<le> 1 \<longrightarrow> (\<forall>s. 0 \<le> s \<and> s < ?m \<longrightarrow> elt G s = s)
        | Some keep \<Rightarrow> \<forall>s. 0 \<le> s \<and> s < ?m \<and> forced_piece parent ids n keep s \<and> 0 \<le> ?SP s \<longrightarrow> elt G s = elt G (?SP s)"
  proof (cases kw)
    case None
    have "elt G s = s" if "nemin \<le> 1" "0 \<le> s" "s < ?m" for s
      using M(5) [of s] R(4) that F(2) None by simp
    then show ?thesis using None by simp
  next
    case (Some keep)
    have "elt G s = elt G (?SP s)" if s: "0 \<le> s" "s < ?m" "forced_piece parent ids n keep s" "0 \<le> ?SP s" for s
    proof -
      have "fo \<noteq> []" "elt fo s" using F(2) Some s by auto
      then have "elt grp s = ?SP s" using M(4) [OF s(1,2)] S(4) [OF s(1,2)] s(4) by simp
      moreover have "?SP s \<noteq> s" using sp [OF s(1,2)] s(4) by auto
      ultimately show ?thesis using R(4) s(1,2) by auto
    qed
    then show ?thesis using Some by simp
  qed
  ultimately show ?thesis using P R D(2,6) unfolding relaxed_result_def Let_def by blast
qed

section \<open>What the order and the supernodes promise\<close>

definition same_snode :: "supernode list \<Rightarrow> int \<Rightarrow> int \<Rightarrow> bool" where
  "same_snode snodes i k \<longleftrightarrow> (\<exists>s. in_snode snodes s i \<and> in_snode snodes s k)"

text \<open>The contract: the order is a permutation, the supernodes cut it in postorder, and the parent of a column comes later,
  in the column's supernode or in that one's parent.\<close>

definition topological_cut :: "int \<Rightarrow> (int \<Rightarrow> int) \<Rightarrow> int list \<Rightarrow> supernode list \<Rightarrow> bool" where
  "topological_cut n P order snodes \<longleftrightarrow> distinct order \<and> set order = {j. 0 \<le> j \<and> j < n} \<and> sn_chain 0 n snodes \<and> parents_later snodes
     \<and> (\<forall>i k. 0 \<le> i \<and> i < n \<and> 0 \<le> k \<and> k < n \<and> P (elt order i) = elt order k \<longrightarrow>
          i < k \<and> (\<exists>s. in_snode snodes s i \<and> (in_snode snodes s k \<or> in_snode snodes (sn_parent (elt snodes s)) k)))
     \<and> (\<forall>i. 0 \<le> i \<and> i < n \<and> P (elt order i) = -1 \<longrightarrow> (\<exists>s. in_snode snodes s i \<and> sn_parent (elt snodes s) = -1))"

lemma post_index_later:
  assumes fp: "fp = full_post Q m" and a: "0 \<le> a" "a < int (length fp)" and b: "0 \<le> b" "b < int (length fp)"
    and l: "elt fp a < elt fp b" "Q (elt fp a) = elt fp b"
  shows "a < b"
proof -
  have d: "distinct fp" unfolding fp by (rule full_post_bounds(2))
  have "nat b < length fp" using b by simp
  then have s: "fp = take (nat b) fp @ elt fp b # drop (Suc (nat b)) fp" unfolding elt_def by (rule id_take_nth_drop)
  have "0 \<le> elt fp a" using full_post_bounds(1) [of "elt fp a" Q m] elt_in_set [OF a] fp by simp
  then have "elt fp a \<in> set (take (nat b) fp)" using children_first_full [of Q m] s l unfolding children_first_def fp by blast
  then obtain i where i: "i < nat b" "i < length fp" "fp ! i = elt fp a" by (auto simp: in_set_conv_nth)
  then have "i = nat a" using nth_eq_iff_index_eq [OF d, of i "nat a"] a by (simp add: elt_def)
  then show ?thesis using i(1) a(1) by simp
qed

lemma relaxed_promises:
  assumes n: "0 < n" and l: "int (length parent) = n" and f: "ordered_forest (elt parent) n"
    and R: "relaxed_result n parent colcount nemin kw ids starts G new_id"
    and Q: "Q = group_forest (piece_parent parent n ids starts) G (int (length starts))" and fp: "fp = full_post (elt Q) (int (length starts))"
    and order: "order = concat (map (group_cols (group_key G ids) n) fp)" and sns: "snodes = out_snodes (group_key G ids) n fp Q new_id"
  shows "topological_cut n (elt parent) order snodes"
    "\<And>i k. 0 \<le> i \<Longrightarrow> i < n \<Longrightarrow> 0 \<le> k \<Longrightarrow> k < n \<Longrightarrow> same_snode snodes i k \<longleftrightarrow> group_key G ids (elt order i) = group_key G ids (elt order k)"
    "\<And>i. 0 \<le> i \<Longrightarrow> i < n \<Longrightarrow> 0 \<le> elt order i \<and> elt order i < n"
proof -
  let ?m = "int (length starts)" and ?SP = "piece_parent parent n ids starts" and ?key = "group_key G ids" and ?P = "elt parent"
  have c: "cut_at n ids starts" and br: "\<And>j. 0 \<le> j \<Longrightarrow> j < n \<Longrightarrow> j \<in> set starts \<longleftrightarrow> snode_break ?P n colcount j"
    and g: "groups_ok ?SP (elt G) ?m" and ni: "\<And>i. 0 \<le> i \<Longrightarrow> i < int (length fp) \<Longrightarrow> elt new_id (elt fp i) = i"
    using R unfolding relaxed_result_def Let_def fp Q by blast+
  note sp = piece_parent_later [OF c f]
  have m0: "0 \<le> ?m" by simp
  have fps: "set fp = {g. 0 \<le> g \<and> g < ?m \<and> elt G g = g}" unfolding fp Q by (rule survivor_post [OF m0 g sp])
  have d: "distinct fp" unfolding fp by (rule full_post_bounds(2))
  have kf: "?key j \<in> set fp" if "0 \<le> j" "j < n" for j unfolding fp Q by (rule group_key_survivor [OF c g sp that])
  have ne: "group_cols ?key n s \<noteq> []" if "s \<in> set fp" for s
  proof -
    have s: "0 \<le> s" "s < ?m" "elt G s = s" using that fps by simp_all
    let ?j = "elt (starts @ [n]) (s + 1) - 1"
    note la = cut_last [OF c s(1,2)]
    have "?j \<in> set (group_cols ?key n s)" using la(1,2,4) s(3) by (simp add: group_cols_def group_key_def)
    then show ?thesis by auto
  qed
  have n0: "0 \<le> n" using n by simp
  have ins: "in_snode snodes a i \<longleftrightarrow> 0 \<le> i \<and> i < n \<and> 0 \<le> a \<and> a < int (length fp) \<and> ?key (elt order i) = elt fp a" for a i
    unfolding sns order by (rule in_out_snode [OF d kf ne n0])
  have dis: "distinct order" and set': "set order = {j. 0 \<le> j \<and> j < n}" and len: "length order = nat n"
    unfolding order using group_order_perm [of fp n ?key] d kf by simp_all
  show ob: "0 \<le> elt order i \<and> elt order i < n" if "0 \<le> i" "i < n" for i using elt_in_set [of i order] set' len that by simp
  have idx: "\<exists>a. 0 \<le> a \<and> a < int (length fp) \<and> elt fp a = x" if "x \<in> set fp" for x using that by (auto simp: in_set_elt)
  show same: "same_snode snodes i k \<longleftrightarrow> ?key (elt order i) = ?key (elt order k)" if ik: "0 \<le> i" "i < n" "0 \<le> k" "k < n" for i k
  proof -
    obtain a where a: "0 \<le> a" "a < int (length fp)" "elt fp a = ?key (elt order i)" using idx kf ob [OF ik(1,2)] by metis
    show ?thesis unfolding same_snode_def ins using ik a by metis
  qed
  have ch: "sn_chain 0 n snodes" unfolding sns using out_snodes_chain [of fp ?key n Q new_id] ne len n0 order by simp
  have lsn: "length snodes = length fp" by (simp add: sns)
  have Qs: "elt Q s = (if ?SP s < 0 then -1 else elt G (?SP s))" if "s \<in> set fp" for s
    using that fps group_forest_elt [of s ?m ?SP G] by (simp add: Q)
  have par: "sn_parent (elt snodes a) = (if 0 \<le> elt Q (elt fp a) then elt new_id (elt Q (elt fp a)) else -1)" if "0 \<le> a" "a < int (length fp)" for a
    unfolding sns out_snodes_elt [OF that] by (simp add: out_snode_def)
  have up: "\<exists>b. 0 \<le> b \<and> b < int (length fp) \<and> elt fp b = elt Q (elt fp a) \<and> sn_parent (elt snodes a) = b \<and> a < b"
    if a: "0 \<le> a" "a < int (length fp)" "0 \<le> ?SP (elt fp a)" for a
  proof -
    have s: "elt fp a \<in> set fp" by (rule elt_in_set [OF a(1,2)])
    then have sb: "0 \<le> elt fp a" "elt fp a < ?m" using fps by simp_all
    have q: "elt Q (elt fp a) = elt G (?SP (elt fp a))" using Qs [OF s] a(3) by simp
    have sl: "elt fp a < ?SP (elt fp a)" "?SP (elt fp a) < ?m" using sp [OF sb] a(3) by auto
    have "elt fp a < elt Q (elt fp a)" "elt Q (elt fp a) \<in> set fp" using groups_okD(1-3) [OF g a(3) sl(2)] sl(1) sb(1) unfolding q fps by simp_all
    then obtain b where b: "0 \<le> b" "b < int (length fp)" "elt fp b = elt Q (elt fp a)" using idx by blast
    have "a < b" by (rule post_index_later [OF fp a(1,2) b(1,2)]) (use b(3) \<open>elt fp a < elt Q (elt fp a)\<close> in auto)
    then show ?thesis using b ni [OF b(1,2)] par [OF a(1,2)] \<open>elt fp a < elt Q (elt fp a)\<close> sb(1) by (intro exI [of _ b]) simp
  qed
  have none: "sn_parent (elt snodes a) = -1" if a: "0 \<le> a" "a < int (length fp)" "\<not> 0 \<le> ?SP (elt fp a)" for a
    using par [OF a(1,2)] Qs [OF elt_in_set [OF a(1,2)]] a(3) by simp
  have later: "parents_later snodes"
    unfolding parents_later_def
  proof (intro allI impI, elim conjE)
    fix a assume a: "0 \<le> a" "a < int (length snodes)"
    then show "sn_parent (elt snodes a) < 0 \<or> a < sn_parent (elt snodes a) \<and> sn_parent (elt snodes a) < int (length snodes)"
      using up [of a] none [of a] lsn by (cases "0 \<le> ?SP (elt fp a)") auto
  qed
  have child: "i < k \<and> (\<exists>s. in_snode snodes s i \<and> (in_snode snodes s k \<or> in_snode snodes (sn_parent (elt snodes s)) k))"
    if i: "0 \<le> i" "i < n" and k: "0 \<le> k" "k < n" and p: "?P (elt order i) = elt order k" for i k
  proof -
    let ?i = "elt order i" and ?k = "elt order k"
    note oi = ob [OF i, THEN conjunct1] ob [OF i, THEN conjunct2] note ok' = ob [OF k, THEN conjunct1] ob [OF k, THEN conjunct2]
    have lt: "?i < ?k" using f oi p ok' unfolding ordered_forest_def by fastforce
    obtain a where a: "in_snode snodes a i" using sn_chain_cover(1) [OF ch i] by blast
    then have av: "0 \<le> a" "a < int (length fp)" "?key ?i = elt fp a" unfolding ins by simp_all
    show ?thesis
    proof (cases "?key ?i = ?key ?k")
      case True
      then have ak: "in_snode snodes a k" unfolding ins using av k by simp
      have "i < k" using order_ascending [OF a [unfolded sns] ak [unfolded sns]] lt unfolding order by simp
      then show ?thesis using a ak by blast
    next
      case False
      let ?s = "elt ids ?i"
      note sb = piece_bounds [OF c oi]
      have "elt ids ?k \<noteq> ?s" using False by (auto simp: group_key_def)
      then have "elt (starts @ [n]) (?s + 1) - 1 = ?i" using piece_last [OF c br oi] p by simp
      then have SPs: "?SP ?s = elt ids ?k" using p ok' by (simp add: piece_parent_def snode_parent_of_def)
      then have S0: "0 \<le> ?SP ?s" using piece_bounds(1) [OF c ok'] by simp
      have "elt G ?s = ?s"
      proof (rule ccontr)
        assume "elt G ?s \<noteq> ?s"
        then have "elt G ?s = elt G (?SP ?s)" using groups_okD(4) [OF g sb] by blast
        then show False using False SPs by (simp add: group_key_def)
      qed
      then have fa: "elt fp a = ?s" using av(3) by (simp add: group_key_def)
      obtain b where b: "0 \<le> b" "b < int (length fp)" "elt fp b = elt Q (elt fp a)" "sn_parent (elt snodes a) = b" "a < b"
        using up [OF av(1,2)] S0 fa by auto
      have "elt Q ?s = ?key ?k" using Qs [OF elt_in_set [OF av(1,2)]] S0 SPs unfolding fa by (simp add: group_key_def)
      then have bk: "in_snode snodes b k" unfolding ins using b k fa by simp
      have "i < k" by (rule sn_chain_cover(3) [OF ch a bk b(5)])
      then show ?thesis using a bk b(4) by blast
    qed
  qed
  have rootp: "\<exists>s. in_snode snodes s i \<and> sn_parent (elt snodes s) = -1" if i: "0 \<le> i" "i < n" and p: "?P (elt order i) = -1" for i
  proof -
    let ?i = "elt order i" and ?s = "elt ids (elt order i)"
    note oi = ob [OF i, THEN conjunct1] ob [OF i, THEN conjunct2]
    obtain a where a: "in_snode snodes a i" using sn_chain_cover(1) [OF ch i] by blast
    then have av: "0 \<le> a" "a < int (length fp)" "?key ?i = elt fp a" unfolding ins by simp_all
    have "elt (starts @ [n]) (?s + 1) - 1 = ?i" using piece_last [OF c br oi] p by simp
    then have SPs: "?SP ?s = -1" using p by (simp add: piece_parent_def snode_parent_of_def)
    then have "elt G ?s = ?s" using groups_okD(4) [OF g piece_bounds [OF c oi]] by auto
    then have "elt fp a = ?s" using av(3) by (simp add: group_key_def)
    then show ?thesis using a none [OF av(1,2)] SPs by auto
  qed
  show "topological_cut n ?P order snodes"
    unfolding topological_cut_def using dis set' ch later child rootp by blast
qed

lemma piece_next:
  assumes c: "cut_at n ids starts" and j: "0 \<le> j" "j + 1 < n"
  shows "elt ids (j + 1) = elt ids j \<longleftrightarrow> j + 1 \<notin> set starts"
proof -
  let ?s = "elt ids j"
  have jn: "j < n" using j by simp
  have j1: "0 \<le> j + 1" using j by simp
  note s = piece_bounds [OF c j(1) jn]
  have r: "elt (starts @ [n]) ?s \<le> j" "j < elt (starts @ [n]) (?s + 1)" using piece_iff [OF c j(1) jn s] by simp_all
  show ?thesis
  proof
    assume e: "elt ids (j + 1) = ?s"
    show "j + 1 \<notin> set starts"
    proof
      assume "j + 1 \<in> set starts"
      then obtain t where t: "0 \<le> t" "t < int (length starts)" "elt starts t = j + 1" by (auto simp: in_set_elt)
      then have F: "elt (starts @ [n]) t = j + 1" using elt_snoc [of t starts n] by simp
      then have "elt ids (j + 1) = t" using piece_iff [OF c j1 j(2) t(1,2)] cut_last(3) [OF c t(1,2)] t(3) by simp
      then show False using e r(1) F by simp
    qed
  next
    assume ns: "j + 1 \<notin> set starts"
    have "elt (starts @ [n]) (?s + 1) \<noteq> j + 1"
    proof (cases "?s + 1 < int (length starts)")
      case True
      then have "elt starts (?s + 1) \<in> set starts" using s(1) by (intro elt_in_set) auto
      moreover have "elt (starts @ [n]) (?s + 1) = elt starts (?s + 1)" using elt_snoc [of "?s + 1" starts n] s True by simp
      ultimately show ?thesis using ns by auto
    next
      case False
      then have "elt (starts @ [n]) (?s + 1) = n" using elt_snoc [of "?s + 1" starts n] s by simp
      then show ?thesis using j(2) by simp
    qed
    then show "elt ids (j + 1) = ?s" using piece_iff [OF c j1 j(2) s] r by simp
  qed
qed

section \<open>Property\<close>

text \<open>C3: \<open>amalgamate_relaxed\<close>, on any elimination tree whose parents come later and any column counts, ends without
  leaving its arrays and returns a permutation of the columns, parents after children, cut into supernodes in postorder;
  the parent of a column lies in the column's supernode or in that one's parent. Columns of one fundamental supernode and
  flagged columns and their parents stay together, whatever the merge rule decides, and with \<open>nemin\<close> at most one and no
  flags nothing else is merged.\<close>

theorem amalgamate_relaxed_correct:
  assumes n: "0 \<le> n" and l: "int (length parent) = n" "int (length colcount) = n" and f: "ordered_forest (elt parent) n"
    and kw: "\<And>keep. kw = Some keep \<Longrightarrow> int (length keep) = n"
  shows "\<exists>order snodes. amalgamate_relaxed n parent colcount nemin kw rule = Some (order, snodes)
    \<and> topological_cut n (elt parent) order snodes
    \<and> (\<forall>i k. 0 \<le> i \<and> i < n \<and> 0 \<le> k \<and> k < n \<and> elt order k = elt order i + 1 \<and> \<not> snode_break (elt parent) n colcount (elt order k)
        \<longrightarrow> same_snode snodes i k)
    \<and> (\<forall>keep i k. kw = Some keep \<and> 0 \<le> i \<and> i < n \<and> 0 \<le> k \<and> k < n \<and> elt keep (elt order i) \<and> elt parent (elt order i) = elt order k
        \<longrightarrow> same_snode snodes i k)
    \<and> (kw = None \<and> nemin \<le> 1 \<longrightarrow> (\<forall>i k. 0 \<le> i \<and> i < n \<and> 0 \<le> k \<and> k < n \<and> elt order k = elt order i + 1 \<and> same_snode snodes i k
        \<longrightarrow> \<not> snode_break (elt parent) n colcount (elt order k)))"
proof (cases "n = 0")
  case True
  then have "amalgamate_relaxed n parent colcount nemin kw rule = Some ([], [])" by (simp add: amalgamate_relaxed_def)
  moreover have "topological_cut n (elt parent) [] []" using True by (auto simp: topological_cut_def parents_later_def)
  ultimately show ?thesis using True by (intro exI [of _ "[]"]) auto
next
  case False
  then have n: "0 < n" using n by simp
  obtain ids starts G new_id where R: "relaxed_result n parent colcount nemin kw ids starts G new_id"
    and A: "let m = int (length starts); Q = group_forest (piece_parent parent n ids starts) G m; fp = full_post (elt Q) m in
       amalgamate_relaxed n parent colcount nemin kw rule
         = Some (concat (map (group_cols (group_key G ids) n) fp), out_snodes (group_key G ids) n fp Q new_id)"
    using amalgamate_relaxed_ok [OF n l f kw] by blast
  define Q where "Q = group_forest (piece_parent parent n ids starts) G (int (length starts))"
  define fp where "fp = full_post (elt Q) (int (length starts))"
  define order where "order = concat (map (group_cols (group_key G ids) n) fp)"
  define snodes where "snodes = out_snodes (group_key G ids) n fp Q new_id"
  have A: "amalgamate_relaxed n parent colcount nemin kw rule = Some (order, snodes)"
    using A unfolding Let_def order_def snodes_def fp_def Q_def .
  note pr = relaxed_promises [OF n l(1) f R Q_def fp_def order_def snodes_def]
  have c: "cut_at n ids starts" and br: "\<And>j. 0 \<le> j \<Longrightarrow> j < n \<Longrightarrow> j \<in> set starts \<longleftrightarrow> snode_break (elt parent) n colcount j"
    using R unfolding relaxed_result_def Let_def by blast+
  have step: "elt ids (elt order k) = elt ids (elt order i) \<longleftrightarrow> \<not> snode_break (elt parent) n colcount (elt order k)"
    if i: "0 \<le> i" "i < n" and k: "0 \<le> k" "k < n" and e: "elt order k = elt order i + 1" for i k
    using piece_next [OF c, of "elt order i"] br [of "elt order k"] pr(3) [OF i] pr(3) [OF k] e by simp
  have whole: "same_snode snodes i k" if "0 \<le> i" "i < n" "0 \<le> k" "k < n" "elt order k = elt order i + 1" "\<not> snode_break (elt parent) n colcount (elt order k)" for i k
    using step [OF that(1-5)] that pr(2) [OF that(1-4)] by (simp add: group_key_def)
  have kept: "same_snode snodes i k" if kk: "kw = Some keep" and i: "0 \<le> i" "i < n" and k: "0 \<le> k" "k < n" and fl: "elt keep (elt order i)"
    and p: "elt parent (elt order i) = elt order k" for keep i k
  proof -
    let ?j = "elt order i" and ?p = "elt order k" let ?s = "elt ids (elt order i)"
    have j: "0 \<le> ?j" "?j < n" and q: "0 \<le> ?p" "?p < n" using pr(3) [OF i] pr(3) [OF k] by simp_all
    have "elt G ?s = elt G (elt ids ?p)"
    proof (cases "elt ids ?p = ?s")
      case F: False
      have "elt (starts @ [n]) (?s + 1) - 1 = ?j" using piece_last [OF c br j] p F by simp
      then have sp: "piece_parent parent n ids starts ?s = elt ids ?p" using p q by (simp add: piece_parent_def snode_parent_of_def)
      have "forced_piece parent ids n keep ?s" unfolding forced_piece_def using j fl p q F by (intro exI [of _ ?j]) simp
      moreover have "\<forall>s. 0 \<le> s \<and> s < int (length starts) \<and> forced_piece parent ids n keep s \<and> 0 \<le> piece_parent parent n ids starts s
          \<longrightarrow> elt G s = elt G (piece_parent parent n ids starts s)"
        using R kk unfolding relaxed_result_def Let_def by simp
      ultimately show ?thesis using piece_bounds [OF c j] piece_bounds(1) [OF c q] sp by auto
    qed simp
    then show ?thesis using pr(2) [OF i k] by (simp add: group_key_def)
  qed
  have tight: "\<not> snode_break (elt parent) n colcount (elt order k)" if kn: "kw = None" "nemin \<le> 1" and i: "0 \<le> i" "i < n" and k: "0 \<le> k" "k < n"
    and e: "elt order k = elt order i + 1" and sm: "same_snode snodes i k" for i k
  proof -
    have "elt G s = s" if "0 \<le> s" "s < int (length starts)" for s using R kn that unfolding relaxed_result_def Let_def by simp
    then have "elt ids (elt order k) = elt ids (elt order i)"
      using sm pr(2) [OF i k] piece_bounds [OF c, of "elt order i"] piece_bounds [OF c, of "elt order k"] pr(3) [OF i] pr(3) [OF k] by (simp add: group_key_def)
    then show ?thesis using step [OF i k e] by simp
  qed
  show ?thesis
  proof (intro exI conjI impI allI)
    show "amalgamate_relaxed n parent colcount nemin kw rule = Some (order, snodes)" by (rule A)
    show "topological_cut n (elt parent) order snodes" by (rule pr(1))
  next
    fix i k assume "0 \<le> i \<and> i < n \<and> 0 \<le> k \<and> k < n \<and> elt order k = elt order i + 1 \<and> \<not> snode_break (elt parent) n colcount (elt order k)"
    then show "same_snode snodes i k" by (elim conjE) (rule whole)
  next
    fix keep i k assume "kw = Some keep \<and> 0 \<le> i \<and> i < n \<and> 0 \<le> k \<and> k < n \<and> elt keep (elt order i) \<and> elt parent (elt order i) = elt order k"
    then show "same_snode snodes i k" by (elim conjE) (rule kept)
  next
    fix i k assume "kw = None \<and> nemin \<le> 1" "0 \<le> i \<and> i < n \<and> 0 \<le> k \<and> k < n \<and> elt order k = elt order i + 1 \<and> same_snode snodes i k"
    then show "\<not> snode_break (elt parent) n colcount (elt order k)" by (elim conjE) (rule tight)
  qed
qed

theorem amalgamate_relaxed_correct_witness:
  "\<exists>order snodes. amalgamate_relaxed 4 [1, 3, 3, -1] [2, 2, 2, 1] 1 (Some [False, True, False, False]) Smf = Some (order, snodes)
    \<and> topological_cut 4 (elt [1, 3, 3, -1]) order snodes"
proof -
  have f: "ordered_forest (elt [1, 3, 3, -1]) 4" unfolding ordered_forest_def all_int_set by code_simp
  show ?thesis
    using amalgamate_relaxed_correct [OF _ _ _ f, of "[2, 2, 2, 1]" "Some [False, True, False, False]" 1 Smf] by auto
qed

end
