(* ===== verification/SlackCode.thy ===== *)
theory SlackCode
  imports AssemblyTree EtreeBuild "HOL-Library.Product_Lexorder"
begin

text \<open>
  The code of \<open>src/slack_elimination.cpp\<close>: \<open>build_slack_plan\<close> up to the reduced matrix's analysis (the pairs of a slack and
  its multiplier, the reduced numbering, the reduced pattern with every pair's state block) and \<open>slack_pair_pass\<close>. Vectors
  that only grow are appended to; a cursor into the sorted block entries is the rest of the list. The counts that only
  reserve memory are left out. Values are elements of an ordered field, so nothing under- or overflows.
\<close>

section \<open>Data\<close>

record slack_control =
  sl_mode :: slack_elimination
  sl_matrix_type :: matrix_type
  sl_min_share :: rat
  sl_update_limit :: rat

record slack_pair =
  sp_s :: int
  sp_y :: int
  sp_ss :: int
  sp_ys :: int
  sp_yy :: int
  sp_nb :: int
  sp_b0 :: int
  sp_blk0 :: int

record slack_plan =
  pl_n_full :: int
  pl_nr :: int
  pl_red_to_full :: "int list"
  pl_pairs :: "slack_pair list"
  pl_b_slot :: "int list"
  pl_b_row :: "int list"
  pl_sdiag :: "int list"
  pl_blk :: "int list"
  pl_keep_src :: "int list"
  pl_keep_dst :: "int list"
  pl_reduced_nnz :: int

section \<open>Adjacency with slots\<close>

definition short_columns :: "'v csc \<Rightarrow> int option" where
  "short_columns A = for_range 0 (csc_n A) (\<lambda>j shortcols. do {
     hi \<leftarrow> vget (col_ptr A) (j + 1);
     lo \<leftarrow> vget (col_ptr A) j;
     Some (shortcols + (if hi - lo \<le> 2 then 1 else 0))
   }) 0"

text \<open>The bound both early exits use.\<close>

definition too_few :: "int \<Rightarrow> rat \<Rightarrow> int \<Rightarrow> bool" where
  "too_few cnt need n \<longleftrightarrow> cnt = 0 \<or> 2 * of_int cnt < need * of_int n"

definition slack_degrees :: "'v csc \<Rightarrow> (int list \<times> int list) option" where
  "slack_degrees A = for_range 0 (csc_n A) (\<lambda>j st. do {
     lo \<leftarrow> vget (col_ptr A) j;
     hi \<leftarrow> vget (col_ptr A) (j + 1);
     for_range lo hi (\<lambda>p (deg, diag). do {
       i \<leftarrow> vget (row_idx A) p;
       if i = j then do {
         diag \<leftarrow> vset diag j p;
         Some (deg, diag)
       } else do {
         deg \<leftarrow> bump deg i;
         deg \<leftarrow> bump deg j;
         Some (deg, diag)
       }
     }) st
   }) (replicate (nat (csc_n A)) 0, replicate (nat (csc_n A)) (-1))"

definition slack_candidates :: "int \<Rightarrow> int list \<Rightarrow> int list \<Rightarrow> int option" where
  "slack_candidates n deg diag = for_range 0 n (\<lambda>i cand. do {
     d \<leftarrow> vget deg i;
     g \<leftarrow> vget diag i;
     Some (cand + (if d = 1 \<and> g \<ge> 0 then 1 else 0))
   }) 0"

definition slack_adjacency :: "'v csc \<Rightarrow> int list \<Rightarrow> (int list \<times> int list \<times> int list) option" where
  "slack_adjacency A deg = do {
     let n = csc_n A;
     aptr \<leftarrow> for_range 0 n (prefix_step deg) (replicate (nat (n + 1)) 0);
     m \<leftarrow> vget aptr n;
     (_, anb, aslot) \<leftarrow> for_range 0 n (\<lambda>j st. do {
       lo \<leftarrow> vget (col_ptr A) j;
       hi \<leftarrow> vget (col_ptr A) (j + 1);
       for_range lo hi (\<lambda>p st. do {
         i \<leftarrow> vget (row_idx A) p;
         if i = j then Some st
         else do {
           st \<leftarrow> place2 fst (\<lambda>e. fst (snd e)) (\<lambda>e. snd (snd e)) (i, j, p) st;
           place2 fst (\<lambda>e. fst (snd e)) (\<lambda>e. snd (snd e)) (j, i, p) st
         }
       }) st
     }) (take (nat n) aptr, replicate (nat m) 0, replicate (nat m) 0);
     Some (aptr, anb, aslot)
   }"

section \<open>The pairs\<close>

text \<open>One candidate slack. The state: the roles (0 free, 1 slack, 2 multiplier, 3 state), the pairs and their state entries.\<close>

definition slack_try :: "int list \<Rightarrow> int list \<Rightarrow> int list \<Rightarrow> int list \<Rightarrow> int list \<Rightarrow> int
    \<Rightarrow> int list \<times> slack_pair list \<times> int list \<times> int list \<Rightarrow> (int list \<times> slack_pair list \<times> int list \<times> int list) option" where
  "slack_try deg diag aptr anb aslot s = (\<lambda>(role, pairs, b_slot, b_row). do {
     ds \<leftarrow> vget deg s;
     gs \<leftarrow> vget diag s;
     rs \<leftarrow> vget role s;
     if ds \<noteq> 1 \<or> gs < 0 \<or> rs \<noteq> 0 then Some (role, pairs, b_slot, b_row)
     else do {
       a0 \<leftarrow> vget aptr s;
       y \<leftarrow> vget anb a0;
       ry \<leftarrow> vget role y;
       dy \<leftarrow> vget deg y;
       if ry \<noteq> 0 \<or> dy > 8 + 1 then Some (role, pairs, b_slot, b_row)
       else do {
         lo \<leftarrow> vget aptr y;
         hi \<leftarrow> vget aptr (y + 1);
         bad \<leftarrow> for_brk lo hi (\<lambda>q _. do {
           w \<leftarrow> vget anb q;
           rw \<leftarrow> vget role w;
           dw \<leftarrow> vget deg w;
           Some (if w \<noteq> s \<and> (dw \<le> 1 \<or> rw = 1 \<or> rw = 2) then Inl () else Inr ())
         }) ();
         case bad of
           Inl _ \<Rightarrow> Some (role, pairs, b_slot, b_row)
         | Inr _ \<Rightarrow> do {
             ys \<leftarrow> vget aslot a0;
             yy \<leftarrow> vget diag y;
             let b0 = int (length b_slot);
             (b_slot, b_row) \<leftarrow> for_range lo hi (\<lambda>q (b_slot, b_row). do {
               w \<leftarrow> vget anb q;
               if w = s then Some (b_slot, b_row)
               else do {
                 p \<leftarrow> vget aslot q;
                 Some (b_slot @ [p], b_row @ [w])
               }
             }) (b_slot, b_row);
             let nb = int (length b_slot) - b0;
             role \<leftarrow> vset role s 1;
             role \<leftarrow> vset role y 2;
             role \<leftarrow> for_range 0 nb (\<lambda>t role. do {
               w \<leftarrow> vget b_row (b0 + t);
               vset role w 3
             }) role;
             Some (role, pairs @ [\<lparr>sp_s = s, sp_y = y, sp_ss = gs, sp_ys = ys, sp_yy = yy, sp_nb = nb, sp_b0 = b0, sp_blk0 = 0\<rparr>],
                   b_slot, b_row)
           }
       }
     }
   })"

definition reduced_numbering :: "int \<Rightarrow> int list \<Rightarrow> (int list \<times> int \<times> int list) option" where
  "reduced_numbering n role = for_range 0 n (\<lambda>i (red, nr, red_to_full). do {
     r \<leftarrow> vget role i;
     if r = 0 \<or> r = 3 then do {
       red \<leftarrow> vset red i nr;
       Some (red, nr + 1, red_to_full @ [i])
     } else Some (red, nr, red_to_full)
   }) (replicate (nat n) (-1), 0, [])"

definition map_rows :: "int list \<Rightarrow> int list \<Rightarrow> int list option" where
  "map_rows red b_row = for_range 0 (int (length b_row)) (\<lambda>t b_row. do {
     w \<leftarrow> vget b_row t;
     r \<leftarrow> vget red w;
     vset b_row t r
   }) b_row"

definition state_diagonals :: "int \<Rightarrow> int list \<Rightarrow> int list \<Rightarrow> int list option" where
  "state_diagonals nr red_to_full diag = for_range 0 nr (\<lambda>r sdiag. do {
     i \<leftarrow> vget red_to_full r;
     d \<leftarrow> vget diag i;
     Some (sdiag @ [d])
   }) []"

section \<open>The reduced pattern\<close>

definition block_entries :: "slack_pair list \<Rightarrow> int list \<Rightarrow> int \<Rightarrow> (int list \<times> int list \<times> int list) option" where
  "block_entries pairs b_row nr = forM pairs (\<lambda>pr st.
     for_range 0 (sp_nb pr) (\<lambda>a2 st.
       for_range 0 (a2 + 1) (\<lambda>c (bcol, brow, bcnt). do {
         ra \<leftarrow> vget b_row (sp_b0 pr + a2);
         rc \<leftarrow> vget b_row (sp_b0 pr + c);
         let col = min ra rc;
         let row = max ra rc;
         bcnt \<leftarrow> bump bcnt (col + 1);
         Some (bcol @ [col], brow @ [row], bcnt)
       }) st) st) ([], [], replicate (nat (nr + 1)) 0)"

definition bucket_blocks :: "int \<Rightarrow> int list \<Rightarrow> int list \<Rightarrow> (int list \<times> int list) option" where
  "bucket_blocks nr bcol bcnt = do {
     bcnt \<leftarrow> for_range 0 nr prefix_inplace bcnt;
     (_, border) \<leftarrow> for_range 0 (int (length bcol)) (\<lambda>e st. do {
       k \<leftarrow> vget bcol e;
       place (\<lambda>_. k) (\<lambda>e. e) e st
     }) (take (nat nr) bcnt, replicate (length bcol) 0);
     Some (bcnt, border)
   }"

fun emit_blocks_below :: "int \<Rightarrow> (int \<times> int) list \<Rightarrow> int \<Rightarrow> int list \<Rightarrow> int list \<Rightarrow> ((int \<times> int) list \<times> int \<times> int list \<times> int list) option" where
  "emit_blocks_below bound [] lst rows bslot = Some ([], lst, rows, bslot)"
| "emit_blocks_below bound ((r, e) # col) lst rows bslot =
     (if r < bound then do {
        let rows' = (if r \<noteq> lst then rows @ [r] else rows);
        bslot \<leftarrow> vset bslot e (int (length rows') - 1);
        emit_blocks_below bound col r rows' bslot
      } else Some ((r, e) # col, lst, rows, bslot))"

fun emit_blocks_at :: "int \<Rightarrow> (int \<times> int) list \<Rightarrow> int list \<Rightarrow> int list \<Rightarrow> ((int \<times> int) list \<times> int list) option" where
  "emit_blocks_at ri [] rows bslot = Some ([], bslot)"
| "emit_blocks_at ri ((r, e) # col) rows bslot =
     (if r = ri then do {
        bslot \<leftarrow> vset bslot e (int (length rows) - 1);
        emit_blocks_at ri col rows bslot
      } else Some ((r, e) # col, bslot))"

text \<open>One column of the reduced matrix: rows, kept slots and block slots.\<close>

definition reduced_entry :: "'v csc \<Rightarrow> int list \<Rightarrow> int \<Rightarrow> (int \<times> int) list \<times> int \<times> int list \<times> int list \<times> int list \<times> int list
    \<Rightarrow> ((int \<times> int) list \<times> int \<times> int list \<times> int list \<times> int list \<times> int list) option" where
  "reduced_entry A red p = (\<lambda>(col, lst, rows, keep_src, keep_dst, bslot). do {
     i \<leftarrow> vget (row_idx A) p;
     ri \<leftarrow> vget red i;
     if ri < 0 then Some (col, lst, rows, keep_src, keep_dst, bslot)
     else do {
       (col, lst, rows, bslot) \<leftarrow> emit_blocks_below ri col lst rows bslot;
       let rows = rows @ [ri];
       (col, bslot) \<leftarrow> emit_blocks_at ri col rows bslot;
       Some (col, ri, rows, keep_src @ [p], keep_dst @ [int (length rows) - 1], bslot)
     }
   })"

definition reduced_column :: "'v csc \<Rightarrow> int list \<Rightarrow> int list \<Rightarrow> int list \<Rightarrow> int list \<Rightarrow> int
    \<Rightarrow> int list \<times> int list \<times> int list \<times> int list \<times> int list \<Rightarrow> (int list \<times> int list \<times> int list \<times> int list \<times> int list) option" where
  "reduced_column A red brow bcnt border j = (\<lambda>(cptr, rows, keep_src, keep_dst, bslot). do {
     rj \<leftarrow> vget red j;
     if rj < 0 then Some (cptr, rows, keep_src, keep_dst, bslot)
     else do {
       t0 \<leftarrow> vget bcnt rj;
       t1 \<leftarrow> vget bcnt (rj + 1);
       col \<leftarrow> for_range t0 t1 (\<lambda>t col. do {
         e \<leftarrow> vget border t;
         r \<leftarrow> vget brow e;
         Some (col @ [(r, e)])
       }) [];
       lo \<leftarrow> vget (col_ptr A) j;
       hi \<leftarrow> vget (col_ptr A) (j + 1);
       (col, lst, rows, keep_src, keep_dst, bslot) \<leftarrow>
         for_range lo hi (reduced_entry A red) (sort col, -1, rows, keep_src, keep_dst, bslot);
       (col, lst, rows, bslot) \<leftarrow> emit_blocks_below (2 ^ 31 - 1) col lst rows bslot;
       cptr \<leftarrow> vset cptr (rj + 1) (narrow32 (int (length rows)));
       Some (cptr, rows, keep_src, keep_dst, bslot)
     }
   })"

definition number_blocks :: "slack_pair list \<Rightarrow> slack_pair list" where
  "number_blocks pairs = fst (fold (\<lambda>pr (out, e). (out @ [pr\<lparr>sp_blk0 := e\<rparr>], e + sp_nb pr * (sp_nb pr + 1) div 2)) pairs ([], 0))"

section \<open>The plan\<close>

definition find_pairs :: "'v csc \<Rightarrow> int list \<Rightarrow> int list \<Rightarrow> int list \<Rightarrow> int list \<Rightarrow> int list \<Rightarrow> (int list \<times> slack_pair list \<times> int list \<times> int list) option" where
  "find_pairs A deg diag aptr anb aslot =
     for_range 0 (csc_n A) (slack_try deg diag aptr anb aslot) (replicate (nat (csc_n A)) 0, [], [], [])"

text \<open>The layout: the plan and the reduced pattern (column pointers and rows). The inner \<open>None\<close> is \<open>nullptr\<close>.\<close>

definition build_slack_layout :: "'v csc \<Rightarrow> slack_control \<Rightarrow> (slack_plan \<times> int list \<times> int list) option option" where
  "build_slack_layout A ctrl =
     (if sl_mode ctrl = SlackOff \<or> sl_matrix_type ctrl \<noteq> RealSymmetricIndefinite \<or> csc_n A \<le> 0 then Some None
      else do {
        let n = csc_n A;
        let need = (if sl_mode ctrl = SlackAuto then sl_min_share ctrl else 0);
        shortcols \<leftarrow> short_columns A;
        if too_few shortcols need n then Some None
        else do {
          (deg, diag) \<leftarrow> slack_degrees A;
          cand \<leftarrow> slack_candidates n deg diag;
          if too_few cand need n then Some None
          else do {
            (aptr, anb, aslot) \<leftarrow> slack_adjacency A deg;
            (role, pairs, b_slot, b_row) \<leftarrow> find_pairs A deg diag aptr anb aslot;
            let share = 2 * of_int (int (length pairs)) / (of_int n :: rat);
            if pairs = [] \<or> (sl_mode ctrl = SlackAuto \<and> share < sl_min_share ctrl) then Some None
            else do {
              (red, nr, red_to_full) \<leftarrow> reduced_numbering n role;
              b_row \<leftarrow> map_rows red b_row;
              sdiag \<leftarrow> state_diagonals nr red_to_full diag;
              (bcol, brow, bcnt) \<leftarrow> block_entries pairs b_row nr;
              (bcnt, border) \<leftarrow> bucket_blocks nr bcol bcnt;
              (cptr, rows, keep_src, keep_dst, bslot) \<leftarrow> for_range 0 n (reduced_column A red brow bcnt border)
                (replicate (nat (nr + 1)) 0, [], [], [], replicate (length bcol) 0);
              Some (Some (\<lparr>pl_n_full = n, pl_nr = nr, pl_red_to_full = red_to_full, pl_pairs = number_blocks pairs, pl_b_slot = b_slot,
                pl_b_row = b_row, pl_sdiag = sdiag, pl_blk = bslot, pl_keep_src = keep_src, pl_keep_dst = keep_dst,
                pl_reduced_nnz = int (length rows)\<rparr>, cptr, rows))
            }
          }
        }
      })"

end
