(* ===== verification/SlackGraph.thy ===== *)
theory SlackGraph
  imports SlackCode
begin

text \<open>
  The adjacency \<open>build_slack_plan\<close> works on: every neighbour of a vertex with the slot of the edge's value, and the slot of
  each diagonal entry.
\<close>

section \<open>Slots\<close>

definition is_slot :: "'v csc \<Rightarrow> int \<Rightarrow> int \<Rightarrow> int \<Rightarrow> bool" where
  "is_slot A i j p \<longleftrightarrow> 0 \<le> j \<and> j < csc_n A \<and> elt (col_ptr A) j \<le> p \<and> p < elt (col_ptr A) (j + 1) \<and> elt (row_idx A) p = i"

definition col_slots :: "'v csc \<Rightarrow> int \<Rightarrow> int list" where
  "col_slots A j = [elt (col_ptr A) j..elt (col_ptr A) (j + 1) - 1]"

definition slot_col_edges :: "'v csc \<Rightarrow> int \<Rightarrow> int list \<Rightarrow> (int \<times> int \<times> int) list" where
  "slot_col_edges A j ps = concat (map (\<lambda>p. [(elt (row_idx A) p, j, p), (j, elt (row_idx A) p, p)]) (filter (\<lambda>p. elt (row_idx A) p \<noteq> j) ps))"

definition slot_edges :: "'v csc \<Rightarrow> int \<Rightarrow> (int \<times> int \<times> int) list" where
  "slot_edges A n = concat (map (\<lambda>j. slot_col_edges A j (col_slots A j)) [0..n - 1])"

definition adj :: "'v csc \<Rightarrow> int \<Rightarrow> (int \<times> int) list" where
  "adj A v = map snd (filter (\<lambda>e. fst e = v) (slot_edges A (csc_n A)))"

lemma is_slot_mem: "0 \<le> j \<Longrightarrow> j < csc_n A \<Longrightarrow> is_slot A i j p \<longleftrightarrow> p \<in> set (col_slots A j) \<and> elt (row_idx A) p = i"
  by (auto simp: is_slot_def col_slots_def)

lemma col_rows_slots: "col_rows A j = map (elt (row_idx A)) (col_slots A j)"
  by (simp add: col_rows_def col_slots_def)

lemma slot_rows:
  assumes "csc_clean A" "is_slot A i j p"
  shows "j \<le> i" "i < csc_n A" "0 \<le> p" "p < int (length (row_idx A))" "0 \<le> j" "j < csc_n A"
proof -
  have j: "0 \<le> j" "j < csc_n A" using assms(2) by (simp_all add: is_slot_def)
  have "i \<in> set (col_rows A j)" using assms(2) is_slot_mem [OF j] by (auto simp: col_rows_slots)
  then show "j \<le> i" "i < csc_n A" using col_rows_bounds [OF assms(1) j] by simp_all
  show "0 \<le> p" "p < int (length (row_idx A))" using csc_slot_bounds [OF csc_cleanD(1) [OF assms(1)] j] assms(2) by (simp_all add: is_slot_def)
  show "0 \<le> j" "j < csc_n A" by (rule j)+
qed

lemma slot_unique:
  assumes "csc_clean A" "is_slot A i j p" "is_slot A i j q"
  shows "p = q"
proof -
  have j: "0 \<le> j" "j < csc_n A" using assms(2) by (simp_all add: is_slot_def)
  have d: "distinct (map (elt (row_idx A)) (col_slots A j))"
    using col_rows_sorted [OF assms(1) j] unfolding col_rows_slots by (simp add: strict_sorted_iff)
  have "p \<in> set (col_slots A j)" "q \<in> set (col_slots A j)" "elt (row_idx A) p = elt (row_idx A) q" using assms(2,3) is_slot_mem [OF j] by simp_all
  then show ?thesis using d by (auto simp: distinct_map inj_on_def)
qed

text \<open>A slot belongs to one column.\<close>

lemma slot_column:
  assumes "csc_ptr_ok A" "is_slot A i j p" "is_slot A i' j' p"
  shows "j = j'" "i = i'"
proof -
  have no: "\<not> a < b" if "is_slot A x a p" "is_slot A y b p" for a b x y
  proof
    assume "a < b"
    then have "elt (col_ptr A) (a + 1) \<le> elt (col_ptr A) b" using csc_ptr_mono [OF assms(1), of "a + 1" b] that by (simp add: is_slot_def)
    then show False using that by (simp add: is_slot_def)
  qed
  show "j = j'" using no [OF assms(2,3)] no [OF assms(3,2)] by simp
  show "i = i'" using assms(2,3) by (simp add: is_slot_def)
qed

section \<open>The neighbours\<close>

lemma slot_col_edges_snoc: "slot_col_edges A j (ps @ [p]) = slot_col_edges A j ps
    @ (if elt (row_idx A) p \<noteq> j then [(elt (row_idx A) p, j, p), (j, elt (row_idx A) p, p)] else [])"
  by (simp add: slot_col_edges_def)

lemma slot_edges_next: "0 \<le> j \<Longrightarrow> slot_edges A (j + 1) = slot_edges A j @ slot_col_edges A j (col_slots A j)"
  by (simp add: slot_edges_def upto_rec2)

lemma slot_edges_mem:
  assumes "csc_clean A" "0 \<le> m" "m \<le> csc_n A"
  shows "(v, w, p) \<in> set (slot_edges A m) \<longleftrightarrow> v \<noteq> w \<and> is_slot A (max v w) (min v w) p \<and> min v w < m"
proof
  assume "(v, w, p) \<in> set (slot_edges A m)"
  then obtain j where j: "0 \<le> j" "j < m" "p \<in> set (col_slots A j)" "elt (row_idx A) p \<noteq> j"
    "v = elt (row_idx A) p \<and> w = j \<or> v = j \<and> w = elt (row_idx A) p"
    unfolding slot_edges_def slot_col_edges_def by auto
  have "is_slot A (elt (row_idx A) p) j p" using is_slot_mem [of j A] j assms(3) by simp
  moreover then have "j \<le> elt (row_idx A) p" by (rule slot_rows(1) [OF assms(1)])
  ultimately show "v \<noteq> w \<and> is_slot A (max v w) (min v w) p \<and> min v w < m" using j by (auto simp: max_def min_def)
next
  assume s: "v \<noteq> w \<and> is_slot A (max v w) (min v w) p \<and> min v w < m"
  let ?j = "min v w"
  have j: "0 \<le> ?j" "?j < m" using s by (auto simp: is_slot_def)
  have p: "p \<in> set (col_slots A ?j)" "elt (row_idx A) p = max v w" using s is_slot_mem [of ?j A] j assms(3) by simp_all
  have "(v, w, p) \<in> set (slot_col_edges A ?j (col_slots A ?j))"
    unfolding slot_col_edges_def using p s by (auto simp: max_def min_def intro!: bexI [of _ p] split: if_splits)
  then show "(v, w, p) \<in> set (slot_edges A m)" unfolding slot_edges_def using j by auto
qed

lemma adj_mem:
  assumes "csc_clean A"
  shows "(w, p) \<in> set (adj A v) \<longleftrightarrow> v \<noteq> w \<and> is_slot A (max v w) (min v w) p"
proof -
  have "(w, p) \<in> set (adj A v) \<longleftrightarrow> (v, w, p) \<in> set (slot_edges A (csc_n A))" by (force simp: adj_def)
  then show ?thesis using slot_edges_mem [OF assms csc_cleanD(2) [OF assms] order_refl, of v w p] by (auto simp: is_slot_def)
qed

lemma adj_col:
  "map (\<lambda>e. fst (snd e)) (filter (\<lambda>e. fst e = v) (slot_col_edges A j ps))
    = map snd (filter (\<lambda>e. fst e = v) (concat (map (\<lambda>i. [(j, i), (i, j)]) (filter (\<lambda>i. i \<noteq> j) (map (elt (row_idx A)) ps)))))"
  unfolding slot_col_edges_def by (induction ps) auto

lemma adj_neighbours:
  assumes "csc_clean A" "0 \<le> v" "v < csc_n A"
  shows "map fst (adj A v) = neighbours A v"
proof -
  have "map (\<lambda>e. fst (snd e)) (filter (\<lambda>e. fst e = v) (slot_edges A (csc_n A))) = map snd (filter (\<lambda>e. fst e = v) (sym_edges A (csc_n A)))"
    unfolding slot_edges_def sym_edges_def col_edges_def filter_concat map_concat map_map comp_def adj_col
    by (simp add: col_rows_slots)
  then show ?thesis using neighbours_eq [OF assms] by (simp add: adj_def comp_def)
qed

lemma adj_distinct:
  assumes "csc_clean A" "0 \<le> v" "v < csc_n A"
  shows "distinct (map fst (adj A v))"
  unfolding adj_neighbours [OF assms] using neighbours_sorted [OF assms] by (simp add: strict_sorted_iff)

lemma slot_edges_keys:
  assumes "csc_clean A"
  shows "\<forall>e \<in> set (slot_edges A (csc_n A)). 0 \<le> fst e \<and> fst e < csc_n A"
proof
  fix e assume "e \<in> set (slot_edges A (csc_n A))"
  then obtain v w p where e: "e = (v, w, p)" "v \<noteq> w" "is_slot A (max v w) (min v w) p"
    using slot_edges_mem [OF assms csc_cleanD(2) [OF assms] order_refl] by (metis prod.collapse)
  then show "0 \<le> fst e \<and> fst e < csc_n A" using slot_rows(1,2,5) [OF assms e(3)] by (auto simp: max_def min_def split: if_splits)
qed

section \<open>Degrees and diagonal slots\<close>

definition diag_ok :: "'v csc \<Rightarrow> int list \<Rightarrow> int \<Rightarrow> bool" where
  "diag_ok A diag v \<longleftrightarrow> (\<forall>p. is_slot A v v p \<longrightarrow> elt diag v = p) \<and> ((\<nexists>p. is_slot A v v p) \<longrightarrow> elt diag v = -1)"

definition degrees_inv :: "'v csc \<Rightarrow> int \<Rightarrow> int \<Rightarrow> int list \<times> int list \<Rightarrow> bool" where
  "degrees_inv A j q = (\<lambda>(deg, diag). int (length deg) = csc_n A \<and> int (length diag) = csc_n A
     \<and> (\<forall>v. 0 \<le> v \<and> v < csc_n A \<longrightarrow> elt deg v = bcount fst (slot_edges A j @ slot_col_edges A j [elt (col_ptr A) j..q - 1]) v)
     \<and> (\<forall>v. 0 \<le> v \<and> v < j \<longrightarrow> diag_ok A diag v) \<and> (\<forall>v. j < v \<and> v < csc_n A \<longrightarrow> elt diag v = -1)
     \<and> (j < csc_n A \<longrightarrow> (\<forall>p. elt (col_ptr A) j \<le> p \<and> p < q \<and> elt (row_idx A) p = j \<longrightarrow> elt diag j = p)
         \<and> ((\<forall>p. elt (col_ptr A) j \<le> p \<and> p < q \<longrightarrow> elt (row_idx A) p \<noteq> j) \<longrightarrow> elt diag j = -1)))"

lemma degrees_step:
  assumes A: "csc_clean A" and j: "0 \<le> j" "j < csc_n A" and q: "elt (col_ptr A) j \<le> q" "q < elt (col_ptr A) (j + 1)"
    and I: "degrees_inv A j q (deg, diag)"
  shows "ok (do {
       i \<leftarrow> vget (row_idx A) q;
       if i = j then do {
         diag \<leftarrow> vset diag j q;
         Some (deg, diag)
       } else do {
         deg \<leftarrow> bump deg i;
         deg \<leftarrow> bump deg j;
         Some (deg, diag)
       }
     }) (degrees_inv A j (q + 1))"
proof -
  let ?i = "elt (row_idx A) q" and ?n = "csc_n A" and ?lo = "elt (col_ptr A) j"
  have sl: "is_slot A ?i j q" using j q by (simp add: is_slot_def)
  note r = slot_rows [OF A sl]
  have gi: "vget (row_idx A) q = Some ?i" using r by (simp add: vget_at)
  have L: "int (length deg) = ?n" "int (length diag) = ?n" and D: "\<And>v. 0 \<le> v \<Longrightarrow> v < ?n \<Longrightarrow> elt deg v = bcount fst (slot_edges A j @ slot_col_edges A j [?lo..q - 1]) v"
    and G: "\<And>v. 0 \<le> v \<Longrightarrow> v < j \<Longrightarrow> diag_ok A diag v" "\<And>v. j < v \<Longrightarrow> v < ?n \<Longrightarrow> elt diag v = -1"
    "\<And>p. ?lo \<le> p \<Longrightarrow> p < q \<Longrightarrow> elt (row_idx A) p = j \<Longrightarrow> elt diag j = p" "(\<And>p. ?lo \<le> p \<Longrightarrow> p < q \<Longrightarrow> elt (row_idx A) p \<noteq> j) \<Longrightarrow> elt diag j = -1"
    using I j unfolding degrees_inv_def prod.case by blast+
  have up: "[?lo..q + 1 - 1] = [?lo..q - 1] @ [q]" using q(1) upto_rec2 [of ?lo q] by simp
  show ?thesis
  proof (cases "?i = j")
    case True
    let ?diag = "diag[nat j := q]"
    have e: "elt ?diag v = (if v = j then q else elt diag v)" if "0 \<le> v" for v using at_update [OF that j(1), of diag q] j L by simp
    have "degrees_inv A j (q + 1) (deg, ?diag)"
      unfolding degrees_inv_def prod.case
    proof (intro conjI allI impI)
      fix v assume "0 \<le> v \<and> v < ?n"
      then show "elt deg v = bcount fst (slot_edges A j @ slot_col_edges A j [?lo..q + 1 - 1]) v" using D [of v] True unfolding up slot_col_edges_snoc by simp
    next
      fix v assume "0 \<le> v \<and> v < j"
      then show "diag_ok A ?diag v" using G(1) [of v] e [of v] unfolding diag_ok_def by simp
    next
      fix v assume "j < v \<and> v < ?n"
      then show "elt ?diag v = -1" using G(2) [of v] e [of v] j(1) by simp
    next
      fix p assume p: "?lo \<le> p \<and> p < q + 1 \<and> elt (row_idx A) p = j"
      then have "is_slot A ?i j p" using j q True by (simp add: is_slot_def)
      then show "elt ?diag j = p" using slot_unique [OF A sl] e [OF j(1)] by simp
    next
      assume "\<forall>p. ?lo \<le> p \<and> p < q + 1 \<longrightarrow> elt (row_idx A) p \<noteq> j"
      then show "elt ?diag j = -1" using q(1) True by force
    qed (use L in simp_all)
    then show ?thesis using True j L unfolding gi bind.simps by (simp add: vset_def)
  next
    case False
    let ?d1 = "deg[nat ?i := elt deg ?i + 1]" let ?d2 = "?d1[nat j := elt ?d1 j + 1]"
    have b: "bump deg ?i = Some ?d1" "bump ?d1 j = Some ?d2" using r L j by (simp_all add: bump_def vget_at vset_def)
    have e: "elt ?d2 v = elt deg v + (if v = ?i then 1 else 0) + (if v = j then 1 else 0)" if "0 \<le> v" for v
      using at_update [OF that j(1), of ?d1] at_update [OF that, of ?i deg] at_update [OF j(1), of ?i deg] r L j False by auto
    have "degrees_inv A j (q + 1) (?d2, diag)"
      unfolding degrees_inv_def prod.case
    proof (intro conjI allI impI)
      fix v assume "0 \<le> v \<and> v < ?n"
      then show "elt ?d2 v = bcount fst (slot_edges A j @ slot_col_edges A j [?lo..q + 1 - 1]) v"
        using D [of v] e [of v] False unfolding up slot_col_edges_snoc by (auto simp: bcount_def)
    next
      fix p assume p: "?lo \<le> p \<and> p < q + 1 \<and> elt (row_idx A) p = j"
      then show "elt diag j = p" using G(3) [of p] False by (cases "p = q") auto
    next
      assume "\<forall>p. ?lo \<le> p \<and> p < q + 1 \<longrightarrow> elt (row_idx A) p \<noteq> j"
      then show "elt diag j = -1" using G(4) by simp
    qed (use L G in simp_all)
    then show ?thesis using False unfolding gi bind.simps by (simp add: b)
  qed
qed

lemma degrees_next:
  assumes A: "csc_clean A" and j: "0 \<le> j" "j < csc_n A" and I: "degrees_inv A j (elt (col_ptr A) (j + 1)) st"
  shows "degrees_inv A (j + 1) (elt (col_ptr A) (j + 1)) st"
proof -
  obtain deg diag where st: "st = (deg, diag)" by (cases st)
  let ?n = "csc_n A" and ?lo = "elt (col_ptr A) j" and ?hi = "elt (col_ptr A) (j + 1)"
  have L: "int (length deg) = ?n" "int (length diag) = ?n" and D: "\<And>v. 0 \<le> v \<Longrightarrow> v < ?n \<Longrightarrow> elt deg v = bcount fst (slot_edges A j @ slot_col_edges A j [?lo..?hi - 1]) v"
    and G: "\<And>v. 0 \<le> v \<Longrightarrow> v < j \<Longrightarrow> diag_ok A diag v" "\<And>v. j < v \<Longrightarrow> v < ?n \<Longrightarrow> elt diag v = -1"
    "\<And>p. ?lo \<le> p \<Longrightarrow> p < ?hi \<Longrightarrow> elt (row_idx A) p = j \<Longrightarrow> elt diag j = p" "(\<And>p. ?lo \<le> p \<Longrightarrow> p < ?hi \<Longrightarrow> elt (row_idx A) p \<noteq> j) \<Longrightarrow> elt diag j = -1"
    using I j unfolding st degrees_inv_def prod.case by blast+
  have dj: "diag_ok A diag j" unfolding diag_ok_def is_slot_def using G(3,4) j by blast
  show ?thesis
    unfolding st degrees_inv_def prod.case
  proof (intro conjI allI impI)
    fix v assume "0 \<le> v \<and> v < ?n"
    then show "elt deg v = bcount fst (slot_edges A (j + 1) @ slot_col_edges A (j + 1) [elt (col_ptr A) (j + 1)..?hi - 1]) v"
      using D [of v] unfolding slot_edges_next [OF j(1)] by (simp add: col_slots_def slot_col_edges_def)
  next
    fix v assume "0 \<le> v \<and> v < j + 1"
    then show "diag_ok A diag v" using G(1) [of v] dj by (cases "v = j") auto
  qed (use L G(2) j in auto)
qed

lemma slack_degrees_ok:
  assumes A: "csc_clean A"
  shows "ok (slack_degrees A) (\<lambda>(deg, diag). int (length deg) = csc_n A \<and> int (length diag) = csc_n A
    \<and> (\<forall>v. 0 \<le> v \<and> v < csc_n A \<longrightarrow> elt deg v = int (length (adj A v)) \<and> elt deg v = bcount fst (slot_edges A (csc_n A)) v \<and> diag_ok A diag v))"
  unfolding slack_degrees_def
proof (rule for_range_ok [where I = "\<lambda>j. degrees_inv A j (elt (col_ptr A) j)"])
  show "degrees_inv A 0 (elt (col_ptr A) 0) (replicate (nat (csc_n A)) 0, replicate (nat (csc_n A)) (-1))"
    using csc_cleanD(2) [OF A] by (auto simp: degrees_inv_def elt_replicate slot_edges_def slot_col_edges_def)
next
  fix j st assume j: "0 \<le> j" "j < csc_n A" and I: "degrees_inv A j (elt (col_ptr A) j) st"
  have p: "vget (col_ptr A) j = Some (elt (col_ptr A) j)" "vget (col_ptr A) (j + 1) = Some (elt (col_ptr A) (j + 1))"
    using j csc_len_ptr [OF csc_cleanD(1) [OF A]] by (simp_all add: vget_at)
  have le: "elt (col_ptr A) j \<le> elt (col_ptr A) (j + 1)" using csc_ptr_mono [OF csc_cleanD(1) [OF A], of j "j + 1"] j by simp
  have "ok (for_range (elt (col_ptr A) j) (elt (col_ptr A) (j + 1)) (\<lambda>p (deg, diag). do {
       i \<leftarrow> vget (row_idx A) p;
       if i = j then do {
         diag \<leftarrow> vset diag j p;
         Some (deg, diag)
       } else do {
         deg \<leftarrow> bump deg i;
         deg \<leftarrow> bump deg j;
         Some (deg, diag)
       }
     }) st) (degrees_inv A (j + 1) (elt (col_ptr A) (j + 1)))"
  proof (rule for_range_ok [where I = "degrees_inv A j", OF I])
    fix q st assume q: "elt (col_ptr A) j \<le> q" "q < elt (col_ptr A) (j + 1)" and I: "degrees_inv A j q st"
    obtain deg diag where st: "st = (deg, diag)" by (cases st)
    show "ok (case st of (deg, diag) \<Rightarrow> do {
       i \<leftarrow> vget (row_idx A) q;
       if i = j then do {
         diag \<leftarrow> vset diag j q;
         Some (deg, diag)
       } else do {
         deg \<leftarrow> bump deg i;
         deg \<leftarrow> bump deg j;
         Some (deg, diag)
       }
     }) (degrees_inv A j (q + 1))"
      unfolding st prod.case by (rule degrees_step [OF A j q I [unfolded st]])
  next
    fix st assume "degrees_inv A j (max (elt (col_ptr A) j) (elt (col_ptr A) (j + 1))) st"
    then show "degrees_inv A (j + 1) (elt (col_ptr A) (j + 1)) st" using degrees_next [OF A j] le by (simp add: max_def)
  qed
  then show "ok (do {
     lo \<leftarrow> vget (col_ptr A) j;
     hi \<leftarrow> vget (col_ptr A) (j + 1);
     for_range lo hi (\<lambda>p (deg, diag). do {
       i \<leftarrow> vget (row_idx A) p;
       if i = j then do {
         diag \<leftarrow> vset diag j p;
         Some (deg, diag)
       } else do {
         deg \<leftarrow> bump deg i;
         deg \<leftarrow> bump deg j;
         Some (deg, diag)
       }
     }) st
   }) (degrees_inv A (j + 1) (elt (col_ptr A) (j + 1)))"
    unfolding p bind.simps .
next
  fix st assume I: "degrees_inv A (max 0 (csc_n A)) (elt (col_ptr A) (max 0 (csc_n A))) st"
  obtain deg diag where st: "st = (deg, diag)" by (cases st)
  have m: "max 0 (csc_n A) = csc_n A" using csc_cleanD(2) [OF A] by simp
  have "elt deg v = int (length (adj A v)) \<and> elt deg v = bcount fst (slot_edges A (csc_n A)) v \<and> diag_ok A diag v" if "0 \<le> v" "v < csc_n A" for v
    using I that unfolding st m degrees_inv_def prod.case by (simp add: slot_col_edges_def adj_def bcount_def)
  then show "case st of (deg, diag) \<Rightarrow> int (length deg) = csc_n A \<and> int (length diag) = csc_n A
    \<and> (\<forall>v. 0 \<le> v \<and> v < csc_n A \<longrightarrow> elt deg v = int (length (adj A v)) \<and> elt deg v = bcount fst (slot_edges A (csc_n A)) v \<and> diag_ok A diag v)"
    using I unfolding st m degrees_inv_def prod.case by blast
qed

section \<open>The adjacency arrays\<close>

definition adj_off :: "'v csc \<Rightarrow> int \<Rightarrow> int" where
  "adj_off A v = bptr fst (slot_edges A (csc_n A)) v"

definition adj_arrays :: "'v csc \<Rightarrow> int list \<Rightarrow> int list \<Rightarrow> int list \<Rightarrow> bool" where
  "adj_arrays A aptr anb aslot \<longleftrightarrow> int (length aptr) = csc_n A + 1 \<and> (\<forall>v. 0 \<le> v \<and> v \<le> csc_n A \<longrightarrow> elt aptr v = adj_off A v)
     \<and> (\<forall>v. 0 \<le> v \<and> v < csc_n A \<longrightarrow> 0 \<le> adj_off A v \<and> adj_off A (v + 1) = adj_off A v + int (length (adj A v))
          \<and> adj_off A (v + 1) \<le> int (length anb) \<and> adj_off A (v + 1) \<le> int (length aslot)
          \<and> segment anb (adj_off A v) (adj_off A (v + 1)) = map fst (adj A v) \<and> segment aslot (adj_off A v) (adj_off A (v + 1)) = map snd (adj A v))"

lemma slack_adjacency_ok:
  assumes A: "csc_clean A" and l: "int (length deg) = csc_n A"
    and d: "\<And>v. 0 \<le> v \<Longrightarrow> v < csc_n A \<Longrightarrow> elt deg v = bcount fst (slot_edges A (csc_n A)) v"
  shows "ok (slack_adjacency A deg) (\<lambda>(aptr, anb, aslot). adj_arrays A aptr anb aslot)"
proof -
  let ?n = "csc_n A" and ?E = "slot_edges A (csc_n A)" and ?f = "\<lambda>e :: int \<times> int \<times> int. fst (snd e)" and ?g = "\<lambda>e :: int \<times> int \<times> int. snd (snd e)"
  note n0 = csc_cleanD(2) [OF A] note keys = slot_edges_keys [OF A]
  obtain aptr where ap: "for_range 0 ?n (prefix_step deg) (replicate (nat (?n + 1)) 0) = Some aptr" "int (length aptr) = ?n + 1"
    "\<And>v. 0 \<le> v \<Longrightarrow> v \<le> ?n \<Longrightarrow> elt aptr v = bptr fst ?E v"
    using ok_ex [OF prefix_ok [of "replicate (nat (?n + 1)) 0" ?n deg fst ?E]] n0 l d by (auto simp: elt_replicate)
  have tot: "vget aptr ?n = Some (int (length ?E))" using ap(2,3) n0 bptr_total [OF keys] by (simp add: vget_at)
  have col: "(do {
       lo \<leftarrow> vget (col_ptr A) j;
       hi \<leftarrow> vget (col_ptr A) (j + 1);
       for_range lo hi (\<lambda>p st. do {
         i \<leftarrow> vget (row_idx A) p;
         if i = j then Some st
         else do {
           st \<leftarrow> place2 fst ?f ?g (i, j, p) st;
           place2 fst ?f ?g (j, i, p) st
         }
       }) st
     }) = forM (slot_col_edges A j (col_slots A j)) (place2 fst ?f ?g) st" if j: "0 \<le> j" "j < ?n" for j and st :: "int list \<times> int list \<times> int list"
  proof -
    have p: "vget (col_ptr A) j = Some (elt (col_ptr A) j)" "vget (col_ptr A) (j + 1) = Some (elt (col_ptr A) (j + 1))"
      using j csc_len_ptr [OF csc_cleanD(1) [OF A]] by (simp_all add: vget_at)
    have "for_range (elt (col_ptr A) j) (elt (col_ptr A) (j + 1)) (\<lambda>p st. do {
         i \<leftarrow> vget (row_idx A) p;
         if i = j then Some st
         else do {
           st \<leftarrow> place2 fst ?f ?g (i, j, p) st;
           place2 fst ?f ?g (j, i, p) st
         }
       }) st = forM (col_slots A j) (\<lambda>p st. if elt (row_idx A) p = j then Some st else do {
           st \<leftarrow> place2 fst ?f ?g (elt (row_idx A) p, j, p) st;
           place2 fst ?f ?g (j, elt (row_idx A) p, p) st
         }) st"
      unfolding for_range_def col_slots_def
      by (rule forM_cong) (use csc_slot_bounds [OF csc_cleanD(1) [OF A] j] in \<open>simp add: vget_at\<close>)
    also have "\<dots> = forM (filter (\<lambda>p. elt (row_idx A) p \<noteq> j) (col_slots A j)) (\<lambda>p st. do {
           st \<leftarrow> place2 fst ?f ?g (elt (row_idx A) p, j, p) st;
           place2 fst ?f ?g (j, elt (row_idx A) p, p) st
         }) st" unfolding forM_skip ..
    also have "\<dots> = forM (slot_col_edges A j (col_slots A j)) (place2 fst ?f ?g) st"
      unfolding slot_col_edges_def using forM_pairs [where g = "place2 fst ?f ?g" and a = "\<lambda>p. (elt (row_idx A) p, j, p)"
        and b = "\<lambda>p. (j, elt (row_idx A) p, p)" and P = "\<lambda>p. elt (row_idx A) p \<noteq> j" and xs = "col_slots A j"] by (rule fun_cong)
    finally show ?thesis unfolding p bind.simps .
  qed
  have loop: "for_range 0 ?n (\<lambda>j st. do {
       lo \<leftarrow> vget (col_ptr A) j;
       hi \<leftarrow> vget (col_ptr A) (j + 1);
       for_range lo hi (\<lambda>p st. do {
         i \<leftarrow> vget (row_idx A) p;
         if i = j then Some st
         else do {
           st \<leftarrow> place2 fst ?f ?g (i, j, p) st;
           place2 fst ?f ?g (j, i, p) st
         }
       }) st
     }) st = forM ?E (place2 fst ?f ?g) st" for st :: "int list \<times> int list \<times> int list"
    unfolding slot_edges_def forM_concat for_range_def [of 0 ?n] by (rule forM_cong) (use col in simp)
  obtain cu anb aslot where pl: "forM ?E (place2 fst ?f ?g) (take (nat ?n) aptr, replicate (length ?E) 0, replicate (length ?E) 0) = Some (cu, anb, aslot)"
    "anb = map ?f (concat (buckets fst ?n ?E))" "aslot = map ?g (concat (buckets fst ?n ?E))"
    using ok_ex [OF place2_ok [OF keys n0, of "take (nat ?n) aptr" "replicate (length ?E) 0" "replicate (length ?E) 0" ?f ?g]]
      take_xadj [OF ap(2) n0] ap(2,3) n0 by auto
  have "adj_arrays A aptr anb aslot"
    unfolding adj_arrays_def adj_off_def
  proof (intro conjI allI impI)
    fix v assume v: "0 \<le> v \<and> v < ?n"
    note bs = bucket_segment(1) [OF keys v [THEN conjunct1] v [THEN conjunct2]] bucket_segment(2,3) [OF keys v [THEN conjunct1] v [THEN conjunct2]]
      bucket_segment(4) [OF keys v [THEN conjunct1] v [THEN conjunct2]]
    show "0 \<le> bptr fst ?E v" by (rule bs(2))
    show "bptr fst ?E (v + 1) = bptr fst ?E v + int (length (adj A v))" using bptr_Suc [of v fst ?E] v by (simp add: adj_def bcount_def)
    show "bptr fst ?E (v + 1) \<le> int (length anb)" "bptr fst ?E (v + 1) \<le> int (length aslot)" unfolding pl by (rule bs(4))+
    show "segment anb (bptr fst ?E v) (bptr fst ?E (v + 1)) = map fst (adj A v)"
      "segment aslot (bptr fst ?E v) (bptr fst ?E (v + 1)) = map snd (adj A v)" unfolding pl bs(1) by (simp_all add: adj_def comp_def)
  qed (use ap(2,3) in auto)
  then show ?thesis unfolding slack_adjacency_def Let_def ap(1) bind.simps tot loop using pl(1) by simp
qed

text \<open>Reading a vertex's neighbours.\<close>

lemma adj_reads:
  assumes "adj_arrays A aptr anb aslot" "0 \<le> v" "v < csc_n A"
  shows "vget aptr v = Some (adj_off A v)" "vget aptr (v + 1) = Some (adj_off A v + int (length (adj A v)))"
    "\<And>t. 0 \<le> t \<Longrightarrow> t < int (length (adj A v)) \<Longrightarrow> vget anb (adj_off A v + t) = Some (fst (elt (adj A v) t))"
    "\<And>t. 0 \<le> t \<Longrightarrow> t < int (length (adj A v)) \<Longrightarrow> vget aslot (adj_off A v + t) = Some (snd (elt (adj A v) t))"
proof -
  let ?o = "adj_off A v"
  have K: "int (length aptr) = csc_n A + 1" "elt aptr v = ?o" "elt aptr (v + 1) = adj_off A (v + 1)"
    "0 \<le> ?o" "adj_off A (v + 1) = ?o + int (length (adj A v))" "adj_off A (v + 1) \<le> int (length anb)" "adj_off A (v + 1) \<le> int (length aslot)"
    "segment anb ?o (adj_off A (v + 1)) = map fst (adj A v)" "segment aslot ?o (adj_off A (v + 1)) = map snd (adj A v)"
  proof -
    have v1: "0 \<le> v \<and> v \<le> csc_n A" "0 \<le> v + 1 \<and> v + 1 \<le> csc_n A" "0 \<le> v \<and> v < csc_n A" using assms(2,3) by auto
    show "int (length aptr) = csc_n A + 1" "elt aptr v = ?o" "elt aptr (v + 1) = adj_off A (v + 1)"
      "0 \<le> ?o" "adj_off A (v + 1) = ?o + int (length (adj A v))" "adj_off A (v + 1) \<le> int (length anb)" "adj_off A (v + 1) \<le> int (length aslot)"
      "segment anb ?o (adj_off A (v + 1)) = map fst (adj A v)" "segment aslot ?o (adj_off A (v + 1)) = map snd (adj A v)"
      using assms(1) v1 unfolding adj_arrays_def by blast+
  qed
  show "vget aptr v = Some ?o" "vget aptr (v + 1) = Some (?o + int (length (adj A v)))" using K assms(2,3) by (simp_all add: vget_at)
  have seg: "vget xs (?o + t) = Some (h (elt (adj A v) t))"
    if "0 \<le> t" "t < int (length (adj A v))" "segment xs ?o (adj_off A (v + 1)) = map h (adj A v)" "adj_off A (v + 1) \<le> int (length xs)" for t h and xs :: "int list"
  proof -
    have "segment xs ?o (adj_off A (v + 1)) ! nat t = h (elt (adj A v) t)" unfolding that(3) using that(1,2) by (simp add: elt_def)
    then have "xs ! (nat ?o + nat t) = h (elt (adj A v) t)" unfolding segment_def using that(1,2,4) K(4,5) by simp
    then show ?thesis using that(1,2,4) K(4,5) by (simp add: vget_def nat_add_distrib)
  qed
  show "vget anb (?o + t) = Some (fst (elt (adj A v) t))" if "0 \<le> t" "t < int (length (adj A v))" for t by (rule seg [OF that K(8,6)])
  show "vget aslot (?o + t) = Some (snd (elt (adj A v) t))" if "0 \<le> t" "t < int (length (adj A v))" for t by (rule seg [OF that K(9,7)])
qed

end
