(* ===== verification/SlackPairs.thy ===== *)
theory SlackPairs
  imports SlackGraph
begin

text \<open>
  The pairs \<open>build_slack_plan\<close> finds: every pair is a vertex of degree one with a stored diagonal and its only neighbour,
  pairs are disjoint, and the other neighbours of a multiplier (its states) are in no pair.
\<close>

section \<open>What a pair is\<close>

definition states :: "'v csc \<Rightarrow> int \<Rightarrow> int \<Rightarrow> (int \<times> int) list" where
  "states A s y = filter (\<lambda>e. fst e \<noteq> s) (adj A y)"

definition is_pair :: "'v csc \<Rightarrow> slack_pair \<Rightarrow> bool" where
  "is_pair A pr \<longleftrightarrow> 0 \<le> sp_s pr \<and> sp_s pr < csc_n A \<and> 0 \<le> sp_y pr \<and> sp_y pr < csc_n A
     \<and> adj A (sp_s pr) = [(sp_y pr, sp_ys pr)] \<and> is_slot A (sp_s pr) (sp_s pr) (sp_ss pr)
     \<and> (if sp_yy pr < 0 then \<nexists>p. is_slot A (sp_y pr) (sp_y pr) p else is_slot A (sp_y pr) (sp_y pr) (sp_yy pr))
     \<and> sp_nb pr = int (length (states A (sp_s pr) (sp_y pr))) \<and> sp_nb pr \<le> 8"

definition members :: "slack_pair list \<Rightarrow> int list" where
  "members pairs = concat (map (\<lambda>pr. [sp_s pr, sp_y pr]) pairs)"

definition all_states :: "'v csc \<Rightarrow> slack_pair list \<Rightarrow> (int \<times> int) list" where
  "all_states A pairs = concat (map (\<lambda>pr. states A (sp_s pr) (sp_y pr)) pairs)"

text \<open>The state entries of the pairs lie one after the other.\<close>

fun tiled :: "int \<Rightarrow> slack_pair list \<Rightarrow> bool" where
  "tiled k [] = True"
| "tiled k (pr # pairs) = (sp_b0 pr = k \<and> tiled (k + sp_nb pr) pairs)"

definition pairs_ok :: "'v csc \<Rightarrow> slack_pair list \<Rightarrow> bool" where
  "pairs_ok A pairs \<longleftrightarrow> (\<forall>pr \<in> set pairs. is_pair A pr) \<and> distinct (members pairs)
     \<and> (\<forall>e \<in> set (all_states A pairs). fst e \<notin> set (members pairs)) \<and> tiled 0 pairs"

definition role_of :: "'v csc \<Rightarrow> slack_pair list \<Rightarrow> int \<Rightarrow> int" where
  "role_of A pairs v = (if v \<in> sp_s ` set pairs then 1 else if v \<in> sp_y ` set pairs then 2
     else if v \<in> fst ` set (all_states A pairs) then 3 else 0)"

lemma members_snoc: "members (pairs @ [pr]) = members pairs @ [sp_s pr, sp_y pr]"
  by (simp add: members_def)

lemma all_states_snoc: "all_states A (pairs @ [pr]) = all_states A pairs @ states A (sp_s pr) (sp_y pr)"
  by (simp add: all_states_def)

lemma tiled_snoc: "tiled k (pairs @ [pr]) \<longleftrightarrow> tiled k pairs \<and> sp_b0 pr = k + (\<Sum>p\<leftarrow>pairs. sp_nb p)"
  by (induction pairs arbitrary: k) (auto simp: add.assoc)

lemma length_all_states: "(\<And>pr. pr \<in> set pairs \<Longrightarrow> is_pair A pr) \<Longrightarrow> (\<Sum>p\<leftarrow>pairs. sp_nb p) = int (length (all_states A pairs))"
proof (induction pairs)
  case (Cons pr pairs)
  have "sp_nb pr = int (length (states A (sp_s pr) (sp_y pr)))" using Cons.prems [of pr] by (simp add: is_pair_def)
  moreover have "(\<Sum>p\<leftarrow>pairs. sp_nb p) = int (length (all_states A pairs))" using Cons by simp
  ultimately show ?case by (simp add: all_states_def)
qed (simp add: all_states_def)

lemma set_members: "set (members pairs) = sp_s ` set pairs \<union> sp_y ` set pairs"
  by (auto simp: members_def)

text \<open>Looping over a stretch of a vector is looping over a list.\<close>

lemma for_range_elts:
  assumes "\<And>t s. 0 \<le> t \<Longrightarrow> t < int (length xs) \<Longrightarrow> f (a + t) s = g (elt xs t) s"
  shows "for_range a (a + int (length xs)) f s = forM xs g s"
  using assms
proof (induction xs arbitrary: a s)
  case (Cons x xs)
  have h: "f a s = g x s" for s using Cons.prems [of 0 s] by (simp add: elt_def)
  have t: "for_range (a + 1) (a + 1 + int (length xs)) f s = forM xs g s" for s
  proof (rule Cons.IH)
    fix t s assume "0 \<le> t" "t < int (length xs)"
    then show "f (a + 1 + t) s = g (elt xs t) s" using Cons.prems [of "t + 1" s] by (simp add: elt_def nat_add_distrib add.assoc add.left_commute add.commute)
  qed
  show ?case using for_range_step [of a "a + int (length (x # xs))" f s] h t by (cases "g x s") (simp_all add: algebra_simps)
qed simp

lemma for_brk_elts:
  assumes "\<And>t. 0 \<le> t \<Longrightarrow> t < int (length xs) \<Longrightarrow> f (a + t) s = Some (if bad (elt xs t) then Inl e else Inr s)"
  shows "for_brk a (a + int (length xs)) f s = Some (if \<exists>x \<in> set xs. bad x then Inl e else Inr s)"
proof -
  have "for_brk a (a + int (length xs)) f s = Some (if \<exists>j. a \<le> j \<and> j < a + int (length xs) \<and> bad (elt xs (j - a)) then Inl e else Inr s)"
    by (rule for_brk_search) (use assms [of "_ - a"] in auto)
  also have "(\<exists>j. a \<le> j \<and> j < a + int (length xs) \<and> bad (elt xs (j - a))) \<longleftrightarrow> (\<exists>x \<in> set xs. bad x)"
  proof
    assume "\<exists>x \<in> set xs. bad x"
    then obtain t where "0 \<le> t" "t < int (length xs)" "bad (elt xs t)" by (auto simp: in_set_elt)
    then show "\<exists>j. a \<le> j \<and> j < a + int (length xs) \<and> bad (elt xs (j - a))" by (intro exI [of _ "a + t"]) simp
  next
    assume "\<exists>j. a \<le> j \<and> j < a + int (length xs) \<and> bad (elt xs (j - a))"
    then obtain j where "a \<le> j" "j < a + int (length xs)" "bad (elt xs (j - a))" by blast
    then show "\<exists>x \<in> set xs. bad x" using elt_in_set [of "j - a" xs] by auto
  qed
  finally show ?thesis .
qed

section \<open>One candidate\<close>

definition graph_arrays :: "'v csc \<Rightarrow> int list \<Rightarrow> int list \<Rightarrow> int list \<Rightarrow> int list \<Rightarrow> int list \<Rightarrow> bool" where
  "graph_arrays A deg diag aptr anb aslot \<longleftrightarrow> int (length deg) = csc_n A \<and> int (length diag) = csc_n A
     \<and> (\<forall>v. 0 \<le> v \<and> v < csc_n A \<longrightarrow> elt deg v = int (length (adj A v)) \<and> diag_ok A diag v) \<and> adj_arrays A aptr anb aslot"

definition find_inv :: "'v csc \<Rightarrow> int list \<times> slack_pair list \<times> int list \<times> int list \<Rightarrow> bool" where
  "find_inv A = (\<lambda>(role, pairs, b_slot, b_row). int (length role) = csc_n A \<and> (\<forall>v. 0 \<le> v \<and> v < csc_n A \<longrightarrow> elt role v = role_of A pairs v)
     \<and> pairs_ok A pairs \<and> b_slot = map snd (all_states A pairs) \<and> b_row = map fst (all_states A pairs))"

lemma adj_range:
  assumes "csc_clean A" "(w, p) \<in> set (adj A v)"
  shows "0 \<le> w" "w < csc_n A" "w \<noteq> v"
proof -
  have s: "v \<noteq> w" "is_slot A (max v w) (min v w) p" using assms adj_mem by blast+
  have r: "min v w \<le> max v w" "max v w < csc_n A" "0 \<le> min v w" "min v w < csc_n A" using slot_rows [OF assms(1) s(2)] by simp_all
  show "0 \<le> w" using r(3) by simp
  show "w < csc_n A" using r(2) by simp
  show "w \<noteq> v" using s(1) by simp
qed

lemma adj_sym: "csc_clean A \<Longrightarrow> (w, p) \<in> set (adj A v) \<longleftrightarrow> (v, p) \<in> set (adj A w)"
  by (auto simp: adj_mem max.commute min.commute)

lemma role_of_snoc:
  assumes "v \<notin> set (members pairs)" "sp_s pr \<noteq> sp_y pr"
  shows "role_of A (pairs @ [pr]) v = (if v \<in> fst ` set (states A (sp_s pr) (sp_y pr)) \<and> v \<noteq> sp_s pr \<and> v \<noteq> sp_y pr then 3
    else if v = sp_y pr then 2 else if v = sp_s pr then 1 else role_of A pairs v)"
  using assms by (auto simp: role_of_def all_states_snoc set_members)

lemma role_of_old: "v \<in> set (members pairs) \<Longrightarrow> v \<noteq> sp_s pr \<Longrightarrow> v \<noteq> sp_y pr \<Longrightarrow> role_of A (pairs @ [pr]) v = role_of A pairs v"
  unfolding role_of_def set_members by (simp add: image_Un) blast

lemma pairs_ok_snoc:
  assumes P: "pairs_ok A pairs" and pr: "is_pair A pr" "sp_s pr \<noteq> sp_y pr" "sp_s pr \<notin> set (members pairs)" "sp_y pr \<notin> set (members pairs)"
    and st: "\<And>w p. (w, p) \<in> set (states A (sp_s pr) (sp_y pr)) \<Longrightarrow> w \<notin> set (members pairs) \<and> w \<noteq> sp_y pr"
    and old: "\<And>w p. (w, p) \<in> set (all_states A pairs) \<Longrightarrow> w \<noteq> sp_s pr \<and> w \<noteq> sp_y pr"
    and b0: "sp_b0 pr = int (length (all_states A pairs))"
  shows "pairs_ok A (pairs @ [pr])"
proof -
  note D = P [unfolded pairs_ok_def]
  have s: "\<And>w p. (w, p) \<in> set (states A (sp_s pr) (sp_y pr)) \<Longrightarrow> w \<noteq> sp_s pr" by (simp add: states_def)
  have "tiled 0 (pairs @ [pr])" unfolding tiled_snoc b0 using D length_all_states [of pairs A] by simp
  moreover have "distinct (members (pairs @ [pr]))" using D pr by (simp add: members_snoc)
  moreover have "\<forall>e \<in> set (all_states A (pairs @ [pr])). fst e \<notin> set (members (pairs @ [pr]))"
  proof
    fix e assume e: "e \<in> set (all_states A (pairs @ [pr]))"
    obtain w p where w: "e = (w, p)" by (cases e)
    show "fst e \<notin> set (members (pairs @ [pr]))"
      using e st [of w p] s [of w p] old [of w p] D unfolding w members_snoc all_states_snoc by fastforce
  qed
  moreover have "\<forall>x \<in> set (pairs @ [pr]). is_pair A x" using D pr(1) by simp
  ultimately show ?thesis unfolding pairs_ok_def by blast
qed

lemma role_of_cases:
  "role_of A pairs v = 0 \<longleftrightarrow> v \<notin> set (members pairs) \<and> v \<notin> fst ` set (all_states A pairs)"
  "role_of A pairs v = 1 \<or> role_of A pairs v = 2 \<longleftrightarrow> v \<in> set (members pairs)"
  by (auto simp: role_of_def set_members)

text \<open>The states are marked.\<close>

lemma mark_states_ok:
  fixes role :: "int list"
  assumes "\<And>e. e \<in> set es \<Longrightarrow> 0 \<le> fst e \<and> fst e < int (length role)" and b: "b_row = pre @ map fst es"
  shows "ok (for_range 0 (int (length es)) (\<lambda>t role. do {
      w \<leftarrow> vget b_row (int (length pre) + t);
      vset role w 3
    }) role) (\<lambda>role'. length role' = length role
      \<and> (\<forall>v. 0 \<le> v \<and> v < int (length role) \<longrightarrow> elt role' v = (if v \<in> fst ` set es then 3 else elt role v)))"
proof -
  have r: "for_range 0 (int (length es)) (\<lambda>t role. do {
      w \<leftarrow> vget b_row (int (length pre) + t);
      vset role w 3
    }) role = forM es (\<lambda>e role. vset role (fst e) 3) role"
  proof (rule for_range_elts [where a = 0, unfolded add_0])
    fix t and s :: "int list" assume t: "0 \<le> t" "t < int (length es)"
    then have "vget b_row (int (length pre) + t) = Some (fst (elt es t))"
      unfolding b by (simp add: vget_def elt_def nth_append nat_add_distrib)
    then show "(do {
      w \<leftarrow> vget b_row (int (length pre) + t);
      vset s w 3
    }) = vset s (fst (elt es t)) 3" by simp
  qed
  show ?thesis unfolding r
  proof (rule forM_ok [where I = "\<lambda>seen rest r. length r = length role
      \<and> (\<forall>v. 0 \<le> v \<and> v < int (length role) \<longrightarrow> elt r v = (if v \<in> fst ` set seen then 3 else elt role v))"])
    fix seen e rest r
    assume x: "es = seen @ e # rest" and I: "length r = length role
      \<and> (\<forall>v. 0 \<le> v \<and> v < int (length role) \<longrightarrow> elt r v = (if v \<in> fst ` set seen then 3 else elt role v))"
    have e: "0 \<le> fst e" "fst e < int (length r)" using assms(1) [of e] x I by auto
    then show "ok (vset r (fst e) 3) (\<lambda>r. length r = length role
      \<and> (\<forall>v. 0 \<le> v \<and> v < int (length role) \<longrightarrow> elt r v = (if v \<in> fst ` set (seen @ [e]) then 3 else elt role v)))"
      using I by (auto simp: at_update)
  qed auto
qed

text \<open>Collecting the states of a multiplier.\<close>

lemma gather: "forM es (\<lambda>e (bs, br). Some (if fst e = s then (bs, br) else (bs @ [snd e], br @ [fst e]))) (bs, br)
    = Some (bs @ map snd (filter (\<lambda>e. fst e \<noteq> s) es), br @ map fst (filter (\<lambda>e. fst e \<noteq> s) es))"
  by (induction es arbitrary: bs br) auto

lemma collect_states_ok:
  assumes "adj_arrays A aptr anb aslot" "0 \<le> y" "y < csc_n A"
  shows "for_range (adj_off A y) (adj_off A y + int (length (adj A y))) (\<lambda>q (b_slot, b_row). do {
      w \<leftarrow> vget anb q;
      if w = s then Some (b_slot, b_row)
      else do {
        p \<leftarrow> vget aslot q;
        Some (b_slot @ [p], b_row @ [w])
      }
    }) (bs, br) = Some (bs @ map snd (states A s y), br @ map fst (states A s y))"
proof -
  have "for_range (adj_off A y) (adj_off A y + int (length (adj A y))) (\<lambda>q (b_slot, b_row). do {
      w \<leftarrow> vget anb q;
      if w = s then Some (b_slot, b_row)
      else do {
        p \<leftarrow> vget aslot q;
        Some (b_slot @ [p], b_row @ [w])
      }
    }) (bs, br) = forM (adj A y) (\<lambda>e (bs, br). Some (if fst e = s then (bs, br) else (bs @ [snd e], br @ [fst e]))) (bs, br)"
    by (rule for_range_elts) (use adj_reads(3,4) [OF assms] in auto)
  also have "\<dots> = Some (bs @ map snd (states A s y), br @ map fst (states A s y))"
    unfolding states_def by (rule gather)
  finally show ?thesis .
qed

lemma graph_arraysD:
  assumes "graph_arrays A deg diag aptr anb aslot" "0 \<le> v" "v < csc_n A"
  shows "vget deg v = Some (int (length (adj A v)))" "vget diag v = Some (elt diag v)" "diag_ok A diag v" "adj_arrays A aptr anb aslot"
proof -
  have L: "int (length deg) = csc_n A" "int (length diag) = csc_n A" "elt deg v = int (length (adj A v))" "diag_ok A diag v" "adj_arrays A aptr anb aslot"
    using assms unfolding graph_arrays_def by blast+
  then show "vget deg v = Some (int (length (adj A v)))" "vget diag v = Some (elt diag v)" "diag_ok A diag v" "adj_arrays A aptr anb aslot"
    using assms(2,3) by (simp_all add: vget_at)
qed

text \<open>The neighbours' test.\<close>

lemma neighbour_test:
  assumes A: "csc_clean A" and G: "graph_arrays A deg diag aptr anb aslot" and y: "0 \<le> y" "y < csc_n A"
    and R: "int (length role) = csc_n A" "\<And>v. 0 \<le> v \<Longrightarrow> v < csc_n A \<Longrightarrow> elt role v = role_of A pairs v"
  shows "for_brk (adj_off A y) (adj_off A y + int (length (adj A y))) (\<lambda>q _. do {
      w \<leftarrow> vget anb q;
      rw \<leftarrow> vget role w;
      dw \<leftarrow> vget deg w;
      Some (if w \<noteq> s \<and> (dw \<le> 1 \<or> rw = 1 \<or> rw = 2) then Inl () else Inr ())
    }) () = Some (if \<exists>e \<in> set (adj A y). fst e \<noteq> s \<and> (length (adj A (fst e)) \<le> 1 \<or> fst e \<in> set (members pairs)) then Inl () else Inr ())"
proof (rule for_brk_elts)
  fix t assume t: "0 \<le> t" "t < int (length (adj A y))"
  let ?w = "fst (elt (adj A y) t)"
  have "elt (adj A y) t \<in> set (adj A y)" using t by (rule elt_in_set)
  then have w: "0 \<le> ?w" "?w < csc_n A" using adj_range [OF A, of ?w "snd (elt (adj A y) t)" y] by simp_all
  have r: "vget anb (adj_off A y + t) = Some ?w" using adj_reads(3) [OF graph_arraysD(4) [OF G y] y t] .
  have o: "vget role ?w = Some (role_of A pairs ?w)" using R w by (simp add: vget_at)
  show "(do {
      w \<leftarrow> vget anb (adj_off A y + t);
      rw \<leftarrow> vget role w;
      dw \<leftarrow> vget deg w;
      Some (if w \<noteq> s \<and> (dw \<le> 1 \<or> rw = 1 \<or> rw = 2) then Inl () else Inr ())
    }) = Some (if ?w \<noteq> s \<and> (length (adj A ?w) \<le> 1 \<or> ?w \<in> set (members pairs)) then Inl () else Inr ())"
    unfolding r bind.simps o graph_arraysD(1) [OF G w] using role_of_cases(2) [of A pairs ?w] by auto
qed

lemma slack_try_ok:
  assumes A: "csc_clean A" and G: "graph_arrays A deg diag aptr anb aslot" and s: "0 \<le> s" "s < csc_n A" and I: "find_inv A st"
  shows "ok (slack_try deg diag aptr anb aslot s st) (find_inv A)"
proof -
  obtain role pairs b_slot b_row where st: "st = (role, pairs, b_slot, b_row)" by (cases st)
  have R: "int (length role) = csc_n A" "\<And>v. 0 \<le> v \<Longrightarrow> v < csc_n A \<Longrightarrow> elt role v = role_of A pairs v"
    and P: "pairs_ok A pairs" and B: "b_slot = map snd (all_states A pairs)" "b_row = map fst (all_states A pairs)"
    using I unfolding st find_inv_def prod.case by blast+
  have rs: "vget role s = Some (role_of A pairs s)" using R s by (simp add: vget_at)
  note gs = graph_arraysD [OF G s]
  show ?thesis
  proof (cases "length (adj A s) \<noteq> 1 \<or> elt diag s < 0 \<or> role_of A pairs s \<noteq> 0")
    case True
    have "slack_try deg diag aptr anb aslot s st = Some st"
      unfolding st slack_try_def prod.case gs(1,2) bind.simps rs by (rule if_P) (use True in simp)
    then show ?thesis using I by simp
  next
    case False
    then obtain y ys where adj: "adj A s = [(y, ys)]" by (cases "adj A s") auto
    have ym: "(y, ys) \<in> set (adj A s)" by (simp add: adj)
    note y = adj_range [OF A ym]
    have sm: "(s, ys) \<in> set (adj A y)" using ym adj_sym [OF A] by blast
    have ay: "vget anb (adj_off A s) = Some y" "vget aslot (adj_off A s) = Some ys"
      using adj_reads(3,4) [OF gs(4) s, of 0] by (simp_all add: adj elt_def)
    have ry: "vget role y = Some (role_of A pairs y)" using R y by (simp add: vget_at)
    note gy = graph_arraysD [OF G y(1,2)]
    note a0 = adj_reads(1) [OF gs(4) s]
    note ptr = adj_reads(1,2) [OF gs(4) y(1,2)]
    note nt = neighbour_test [OF A G y(1,2) R, of s]
    show ?thesis
    proof (cases "role_of A pairs y \<noteq> 0 \<or> 9 < length (adj A y)
        \<or> (\<exists>e \<in> set (adj A y). fst e \<noteq> s \<and> (length (adj A (fst e)) \<le> 1 \<or> fst e \<in> set (members pairs)))")
      case True
      have "slack_try deg diag aptr anb aslot s st = Some st"
        using nt unfolding st slack_try_def prod.case gs(1,2) bind.simps rs a0 ay ry gy(1,2) ptr
        using False True by auto
      then show ?thesis using I by simp
    next
      case nb: False
      let ?S = "states A s y" and ?gs = "elt diag s" and ?gy = "elt diag y"
      define pr where "pr = \<lparr>sp_s = s, sp_y = y, sp_ss = ?gs, sp_ys = ys, sp_yy = ?gy, sp_nb = int (length ?S), sp_b0 = int (length b_slot), sp_blk0 = 0\<rparr>"
      have Sin: "\<And>w p. (w, p) \<in> set ?S \<Longrightarrow> 0 \<le> w \<and> w < csc_n A \<and> w \<noteq> y \<and> w \<noteq> s \<and> w \<notin> set (members pairs)"
      proof -
        fix w p assume "(w, p) \<in> set ?S"
        then have m: "(w, p) \<in> set (adj A y)" "w \<noteq> s" by (simp_all add: states_def)
        have "w \<notin> set (members pairs)" using nb m by force
        then show "0 \<le> w \<and> w < csc_n A \<and> w \<noteq> y \<and> w \<noteq> s \<and> w \<notin> set (members pairs)" using adj_range [OF A m(1)] m(2) by simp
      qed
      have lenS: "length ?S \<le> 8"
      proof -
        have "length ?S < length (adj A y)" unfolding states_def by (rule length_filter_less [OF sm]) simp
        then show ?thesis using nb by linarith
      qed
      have free: "s \<notin> set (members pairs)" "y \<notin> set (members pairs)" "s \<notin> fst ` set (all_states A pairs)" "y \<notin> fst ` set (all_states A pairs)"
        using False nb role_of_cases(1) by blast+
      have slot: "is_slot A s s ?gs" "if ?gy < 0 then \<nexists>p. is_slot A y y p else is_slot A y y ?gy"
      proof -
        show "is_slot A s s ?gs" using gs(3) False unfolding diag_ok_def by (cases "\<exists>p. is_slot A s s p") auto
        show "if ?gy < 0 then \<nexists>p. is_slot A y y p else is_slot A y y ?gy"
        proof (cases "\<exists>p. is_slot A y y p")
          case True
          then obtain p where p: "is_slot A y y p" by blast
          then have "?gy = p" "0 \<le> p" using gy(3) slot_rows(3) [OF A p] unfolding diag_ok_def by blast+
          then show ?thesis using p by simp
        next
          case False
          then show ?thesis using gy(3) unfolding diag_ok_def by simp
        qed
      qed
      have pair: "is_pair A pr" using s y adj slot lenS by (simp add: is_pair_def pr_def)
      have P': "pairs_ok A (pairs @ [pr])"
        by (rule pairs_ok_snoc [OF P pair]) (use y(3) free Sin in \<open>auto simp: pr_def B(1) image_iff\<close>)
      have mark: "ok (for_range 0 (int (length ?S)) (\<lambda>t role. do {
          w \<leftarrow> vget (b_row @ map fst ?S) (int (length b_slot) + t);
          vset role w 3
        }) (role[nat s := 1, nat y := 2])) (\<lambda>role'. length role' = length (role[nat s := 1, nat y := 2])
          \<and> (\<forall>v. 0 \<le> v \<and> v < int (length (role[nat s := 1, nat y := 2]))
               \<longrightarrow> elt role' v = (if v \<in> fst ` set ?S then 3 else elt (role[nat s := 1, nat y := 2]) v)))"
        using mark_states_ok [of ?S "role[nat s := 1, nat y := 2]" "b_row @ map fst ?S" b_row] Sin R(1) B by fastforce
      obtain role' where r': "for_range 0 (int (length ?S)) (\<lambda>t role. do {
          w \<leftarrow> vget (b_row @ map fst ?S) (int (length b_slot) + t);
          vset role w 3
        }) (role[nat s := 1, nat y := 2]) = Some role'" "int (length role') = csc_n A"
        "\<And>v. 0 \<le> v \<Longrightarrow> v < csc_n A \<Longrightarrow> elt role' v = (if v \<in> fst ` set ?S then 3 else elt (role[nat s := 1, nat y := 2]) v)"
        using ok_ex [OF mark] R(1) by auto
      have sets: "vset role s 1 = Some (role[nat s := 1])" "vset (role[nat s := 1]) y 2 = Some (role[nat s := 1, nat y := 2])"
        using s y R(1) by (simp_all add: vset_def inb_def)
      have roles: "elt role' v = role_of A (pairs @ [pr]) v" if "0 \<le> v" "v < csc_n A" for v
      proof -
        have "elt (role[nat s := 1, nat y := 2]) v = (if v = y then 2 else if v = s then 1 else role_of A pairs v)"
          using s y that R by (simp add: at_update)
        then have e: "elt role' v = (if v \<in> fst ` set ?S then 3 else if v = y then 2 else if v = s then 1 else role_of A pairs v)"
          using r'(3) [OF that] by simp
        have S: "v \<in> fst ` set ?S \<Longrightarrow> v \<noteq> s \<and> v \<noteq> y \<and> v \<notin> set (members pairs)" using Sin by force
        show ?thesis
        proof (cases "v \<in> set (members pairs)")
          case True
          then show ?thesis using e S role_of_old [OF True, of pr A] free by (auto simp: pr_def)
        next
          case False
          then show ?thesis using e S role_of_snoc [OF False, of pr A] y(3) by (auto simp: pr_def)
        qed
      qed
      have T: "find_inv A (role', pairs @ [pr], b_slot @ map snd ?S, b_row @ map fst ?S)"
        unfolding find_inv_def prod.case using r'(2) roles P' B by (simp add: all_states_snoc pr_def)
      have "slack_try deg diag aptr anb aslot s st = Some (role', pairs @ [pr], b_slot @ map snd ?S, b_row @ map fst ?S)"
        using nt unfolding st slack_try_def prod.case gs(1,2) bind.simps rs a0 ay ry gy(1,2) ptr
          collect_states_ok [OF gs(4) y(1,2)] Let_def
        using False nb sets r'(1) unfolding pr_def by simp
      then show ?thesis using T by simp
    qed
  qed
qed

section \<open>All candidates\<close>

lemma find_pairs_ok:
  assumes A: "csc_clean A" and G: "graph_arrays A deg diag aptr anb aslot"
  shows "ok (find_pairs A deg diag aptr anb aslot) (find_inv A)"
  unfolding find_pairs_def
proof (rule for_range_ok [where I = "\<lambda>_. find_inv A"])
  show "find_inv A (replicate (nat (csc_n A)) 0, [], [], [])"
    using csc_cleanD(2) [OF A] by (simp add: find_inv_def elt_replicate role_of_def pairs_ok_def members_def all_states_def)
qed (use slack_try_ok [OF A G] in auto)

text \<open>The pairs, their state entries and the diagonal slots of a clean matrix.\<close>

lemma slack_graph_ok:
  assumes A: "csc_clean A" and d: "slack_degrees A = Some (deg, diag)"
  shows "ok (slack_adjacency A deg) (\<lambda>(aptr, anb, aslot). graph_arrays A deg diag aptr anb aslot)"
proof -
  have D: "int (length deg) = csc_n A" "int (length diag) = csc_n A"
    "\<And>v. 0 \<le> v \<Longrightarrow> v < csc_n A \<Longrightarrow> elt deg v = int (length (adj A v))" "\<And>v. 0 \<le> v \<Longrightarrow> v < csc_n A \<Longrightarrow> diag_ok A diag v"
    "\<And>v. 0 \<le> v \<Longrightarrow> v < csc_n A \<Longrightarrow> elt deg v = bcount fst (slot_edges A (csc_n A)) v"
    using ok_the [OF slack_degrees_ok [OF A] d] unfolding prod.case by blast+
  show ?thesis
    by (rule ok_mono [OF slack_adjacency_ok [OF A D(1) D(5)]]) (use D(1-4) in \<open>auto simp: graph_arrays_def\<close>)
qed

end
