(* ===== verification/SlackNumber.thy ===== *)
theory SlackNumber
  imports SlackPairs
begin

text \<open>
  The reduced numbering of \<open>build_slack_plan\<close> (the rows in no pair, in their order) and the list of the entries the pairs'
  state blocks add, bucketed by column.
\<close>

section \<open>The rows that stay\<close>

definition kept :: "slack_pair list \<Rightarrow> int \<Rightarrow> int list" where
  "kept pairs n = filter (\<lambda>v. v \<notin> set (members pairs)) [0..n - 1]"

definition red_of :: "slack_pair list \<Rightarrow> int \<Rightarrow> int" where
  "red_of pairs v = (if v \<in> set (members pairs) then -1 else int (length (kept pairs v)))"

lemma kept_next: "0 \<le> v \<Longrightarrow> kept pairs (v + 1) = kept pairs v @ (if v \<in> set (members pairs) then [] else [v])"
  by (simp add: kept_def upto_rec2)

lemma kept_mono:
  assumes "0 \<le> v" "v \<le> m"
  shows "\<exists>ys. kept pairs m = kept pairs v @ ys"
proof -
  have "[0..m - 1] = [0..v - 1] @ [v..m - 1]" using upto_split1 [of 0 v "m - 1"] assms by (cases "v = m") auto
  then show ?thesis by (simp add: kept_def)
qed

lemma kept_mem: "v \<in> set (kept pairs n) \<longleftrightarrow> 0 \<le> v \<and> v < n \<and> v \<notin> set (members pairs)"
  by (auto simp: kept_def)

lemma red_of_bounds:
  assumes "0 \<le> v" "v < n" "v \<notin> set (members pairs)"
  shows "0 \<le> red_of pairs v" "red_of pairs v < int (length (kept pairs n))" "elt (kept pairs n) (red_of pairs v) = v"
proof -
  obtain ys where "kept pairs n = kept pairs (v + 1) @ ys" using kept_mono [of "v + 1" n pairs] assms by auto
  then have k: "kept pairs n = kept pairs v @ [v] @ ys" using kept_next [OF assms(1), of pairs] assms(3) by simp
  show "0 \<le> red_of pairs v" "red_of pairs v < int (length (kept pairs n))" "elt (kept pairs n) (red_of pairs v) = v"
    using assms(3) unfolding k by (simp_all add: red_of_def elt_def)
qed

lemma red_of_mono:
  assumes "0 \<le> v" "v < w" "v \<notin> set (members pairs)" "w \<notin> set (members pairs)"
  shows "red_of pairs v < red_of pairs w"
proof -
  obtain ys where "kept pairs w = kept pairs (v + 1) @ ys" using kept_mono [of "v + 1" w pairs] assms by auto
  then show ?thesis using kept_next [OF assms(1), of pairs] assms(3,4) by (simp add: red_of_def)
qed

lemma red_of_inj:
  assumes "0 \<le> v" "0 \<le> w" "v \<notin> set (members pairs)" "w \<notin> set (members pairs)" "red_of pairs v = red_of pairs w"
  shows "v = w"
  using red_of_mono [of v w pairs] red_of_mono [of w v pairs] assms by (cases v w rule: linorder_cases) auto

lemma red_of_kept:
  assumes "0 \<le> r" "r < int (length (kept pairs n))"
  shows "red_of pairs (elt (kept pairs n) r) = r" "0 \<le> elt (kept pairs n) r" "elt (kept pairs n) r < n" "elt (kept pairs n) r \<notin> set (members pairs)"
proof -
  let ?v = "elt (kept pairs n) r"
  have v: "0 \<le> ?v" "?v < n" "?v \<notin> set (members pairs)" using elt_in_set [OF assms] by (simp_all add: kept_mem)
  have d: "distinct (kept pairs n)" by (simp add: kept_def)
  have "kept pairs n ! nat (red_of pairs ?v) = kept pairs n ! nat r" using red_of_bounds(3) [OF v] by (simp add: elt_def)
  moreover have "nat (red_of pairs ?v) < length (kept pairs n)" "nat r < length (kept pairs n)" using red_of_bounds(1,2) [OF v] assms by linarith+
  ultimately have "nat (red_of pairs ?v) = nat r" using d by (simp add: nth_eq_iff_index_eq)
  then show "red_of pairs ?v = r" using red_of_bounds(1) [OF v] assms by simp
  show "0 \<le> ?v" "?v < n" "?v \<notin> set (members pairs)" by (rule v)+
qed

lemma reduced_numbering_ok:
  assumes n: "0 \<le> n" and l: "int (length role) = n"
    and r: "\<And>v. 0 \<le> v \<Longrightarrow> v < n \<Longrightarrow> elt role v = 0 \<or> elt role v = 3 \<longleftrightarrow> v \<notin> set (members pairs)"
  shows "ok (reduced_numbering n role) (\<lambda>(red, nr, red_to_full). int (length red) = n \<and> nr = int (length (kept pairs n))
    \<and> red_to_full = kept pairs n \<and> (\<forall>v. 0 \<le> v \<and> v < n \<longrightarrow> elt red v = red_of pairs v))"
  unfolding reduced_numbering_def
proof (rule for_range_ok [where I = "\<lambda>i (red, nr, red_to_full). int (length red) = n \<and> nr = int (length (kept pairs i))
    \<and> red_to_full = kept pairs i \<and> (\<forall>v. 0 \<le> v \<and> v < i \<longrightarrow> elt red v = red_of pairs v) \<and> (\<forall>v. i \<le> v \<and> v < n \<longrightarrow> elt red v = -1)"])
  show "case (replicate (nat n) (-1), 0, []) of (red, nr, red_to_full) \<Rightarrow> int (length red) = n \<and> nr = int (length (kept pairs 0))
    \<and> red_to_full = kept pairs 0 \<and> (\<forall>v. 0 \<le> v \<and> v < 0 \<longrightarrow> elt red v = red_of pairs v) \<and> (\<forall>v. 0 \<le> v \<and> v < n \<longrightarrow> elt red v = -1)"
    using n by (auto simp: elt_replicate kept_def)
next
  fix i and st :: "int list \<times> int \<times> int list"
  assume i: "0 \<le> i" "i < n" and "case st of (red, nr, red_to_full) \<Rightarrow> int (length red) = n \<and> nr = int (length (kept pairs i))
    \<and> red_to_full = kept pairs i \<and> (\<forall>v. 0 \<le> v \<and> v < i \<longrightarrow> elt red v = red_of pairs v) \<and> (\<forall>v. i \<le> v \<and> v < n \<longrightarrow> elt red v = -1)"
  then obtain red where st: "st = (red, int (length (kept pairs i)), kept pairs i)" and lr: "int (length red) = n"
    and R: "\<And>v. 0 \<le> v \<Longrightarrow> v < i \<Longrightarrow> elt red v = red_of pairs v" "\<And>v. i \<le> v \<Longrightarrow> v < n \<Longrightarrow> elt red v = -1"
    by (cases st) auto
  have g: "vget role i = Some (elt role i)" using i l by (simp add: vget_at)
  have ri: "red_of pairs i = (if elt role i = 0 \<or> elt role i = 3 then int (length (kept pairs i)) else -1)" using r [OF i] by (simp add: red_of_def)
  have kn: "kept pairs (i + 1) = kept pairs i @ (if elt role i = 0 \<or> elt role i = 3 then [i] else [])" using kept_next [OF i(1), of pairs] r [OF i] by simp
  have split: "\<And>v. v < i + 1 \<longleftrightarrow> v < i \<or> v = i" by auto
  show "ok (case st of (red, nr, red_to_full) \<Rightarrow> do {
      r \<leftarrow> vget role i;
      if r = 0 \<or> r = 3 then do {
        red \<leftarrow> vset red i nr;
        Some (red, nr + 1, red_to_full @ [i])
      } else Some (red, nr, red_to_full)
    }) (\<lambda>(red, nr, red_to_full). int (length red) = n \<and> nr = int (length (kept pairs (i + 1)))
    \<and> red_to_full = kept pairs (i + 1) \<and> (\<forall>v. 0 \<le> v \<and> v < i + 1 \<longrightarrow> elt red v = red_of pairs v) \<and> (\<forall>v. i + 1 \<le> v \<and> v < n \<longrightarrow> elt red v = -1))"
    unfolding st prod.case g bind.simps kn split using i lr R ri by (auto simp: at_update)
qed (use n in auto)

lemma map_rows_ok:
  assumes "\<And>w. w \<in> set b_row \<Longrightarrow> 0 \<le> w \<and> w < int (length red)"
  shows "map_rows red b_row = Some (map (elt red) b_row)"
proof -
  have "ok (map_rows red b_row) (\<lambda>b. b = map (elt red) b_row)"
    unfolding map_rows_def
  proof (rule for_range_ok [where I = "\<lambda>t b. b = map (elt red) (take (nat t) b_row) @ drop (nat t) b_row"])
    fix t and b :: "int list" assume t: "0 \<le> t" "t < int (length b_row)" and I: "b = map (elt red) (take (nat t) b_row) @ drop (nat t) b_row"
    let ?w = "b_row ! nat t"
    have d: "drop (nat t) b_row = ?w # drop (Suc (nat t)) b_row" using t by (intro Cons_nth_drop_Suc [symmetric]) simp
    have k: "take (Suc (nat t)) b_row = take (nat t) b_row @ [?w]" using t by (intro take_Suc_conv_app_nth) simp
    have g: "vget b t = Some ?w" using t unfolding I by (simp add: vget_def nth_append)
    have w: "vget red ?w = Some (elt red ?w)" using assms [of ?w] t by (simp add: vget_at)
    have s: "vset b t (elt red ?w) = Some (map (elt red) (take (Suc (nat t)) b_row) @ drop (Suc (nat t)) b_row)"
      using t unfolding I k d by (simp add: vset_def inb_def list_update_append)
    have nt: "nat (t + 1) = Suc (nat t)" using t by simp
    show "ok (do {
      w \<leftarrow> vget b t;
      r \<leftarrow> vget red w;
      vset b t r
    }) (\<lambda>b. b = map (elt red) (take (nat (t + 1)) b_row) @ drop (nat (t + 1)) b_row)"
      unfolding g bind.simps w s nt by simp
  qed auto
  then show ?thesis by (simp add: ok_def)
qed

lemma state_diagonals_ok:
  assumes "\<And>i. i \<in> set red_to_full \<Longrightarrow> 0 \<le> i \<and> i < int (length diag)"
  shows "state_diagonals (int (length red_to_full)) red_to_full diag = Some (map (elt diag) red_to_full)"
proof -
  have "for_range 0 (0 + int (length red_to_full)) (\<lambda>r sdiag. do {
      i \<leftarrow> vget red_to_full r;
      d \<leftarrow> vget diag i;
      Some (sdiag @ [d])
    }) [] = forM red_to_full (\<lambda>i sdiag. Some (sdiag @ [elt diag i])) []"
  proof (rule for_range_elts)
    fix t and s :: "int list" assume t: "0 \<le> t" "t < int (length red_to_full)"
    then show "(do {
      i \<leftarrow> vget red_to_full (0 + t);
      d \<leftarrow> vget diag i;
      Some (s @ [d])
    }) = Some (s @ [elt diag (elt red_to_full t)])" using assms [OF elt_in_set [OF t]] by (simp add: vget_at)
  qed
  moreover have "forM xs (\<lambda>i sdiag. Some (sdiag @ [elt diag i])) acc = Some (acc @ map (elt diag) xs)" for xs acc
    by (induction xs arbitrary: acc) auto
  ultimately show ?thesis by (simp add: state_diagonals_def)
qed

section \<open>The entries of the state blocks\<close>

text \<open>The lower triangle over the rows \<open>R\<close>, as (column, row) pairs.\<close>

definition tri :: "int list \<Rightarrow> (int \<times> int) list" where
  "tri R = concat (map (\<lambda>a. map (\<lambda>c. (min (elt R a) (elt R c), max (elt R a) (elt R c))) [0..a]) [0..int (length R) - 1])"

definition red_states :: "'v csc \<Rightarrow> slack_pair list \<Rightarrow> slack_pair \<Rightarrow> int list" where
  "red_states A pairs pr = map (\<lambda>e. red_of pairs (fst e)) (states A (sp_s pr) (sp_y pr))"

definition blocks :: "'v csc \<Rightarrow> slack_pair list \<Rightarrow> (int \<times> int) list" where
  "blocks A pairs = concat (map (\<lambda>pr. tri (red_states A pairs pr)) pairs)"

lemma tri_mem:
  assumes "(col, row) \<in> set (tri R)"
  shows "col \<in> set R" "row \<in> set R" "col \<le> row"
proof -
  obtain a c where ac: "0 \<le> c" "c \<le> a" "a < int (length R)" "col = min (elt R a) (elt R c)" "row = max (elt R a) (elt R c)"
    using assms by (auto simp: tri_def)
  then have "elt R a \<in> set R" "elt R c \<in> set R" by (simp_all add: elt_in_set)
  then show "col \<in> set R" "row \<in> set R" "col \<le> row" using ac(4,5) by (simp_all add: min_def max_def)
qed

text \<open>Each pair's state entries in the arrays of all pairs.\<close>

lemma tiled_append: "tiled k (pre @ pr # suf) \<Longrightarrow> sp_b0 pr = k + (\<Sum>p\<leftarrow>pre. sp_nb p)"
  by (induction pre arbitrary: k) (auto simp: add.assoc)

lemma pair_entries:
  assumes P: "pairs_ok A pairs" and pr: "pr \<in> set pairs" and t: "0 \<le> t" "t < sp_nb pr"
  shows "0 \<le> sp_b0 pr + t" "sp_b0 pr + t < int (length (all_states A pairs))" "sp_nb pr = int (length (states A (sp_s pr) (sp_y pr)))"
    "elt (all_states A pairs) (sp_b0 pr + t) = elt (states A (sp_s pr) (sp_y pr)) t"
proof -
  obtain pre suf where ps: "pairs = pre @ pr # suf" using pr by (auto simp: in_set_conv_decomp)
  have pp: "\<And>q. q \<in> set pairs \<Longrightarrow> is_pair A q" "tiled 0 pairs" using P unfolding pairs_ok_def by blast+
  have b0: "sp_b0 pr = int (length (all_states A pre))"
    using tiled_append [of 0 pre pr suf] pp length_all_states [of pre A] unfolding ps by simp
  show nb: "sp_nb pr = int (length (states A (sp_s pr) (sp_y pr)))" using pp(1) [OF pr] by (simp add: is_pair_def)
  have all: "all_states A pairs = all_states A pre @ states A (sp_s pr) (sp_y pr) @ all_states A suf" by (simp add: ps all_states_def)
  show "0 \<le> sp_b0 pr + t" "sp_b0 pr + t < int (length (all_states A pairs))" using b0 t nb unfolding all by simp_all
  show "elt (all_states A pairs) (sp_b0 pr + t) = elt (states A (sp_s pr) (sp_y pr)) t"
  proof -
    have "nat t < length (states A (sp_s pr) (sp_y pr))" using t nb by linarith
    then show ?thesis using t unfolding all b0 by (simp add: elt_def nth_append nat_add_distrib)
  qed
qed

lemma state_row_read:
  assumes P: "pairs_ok A pairs" and pr: "pr \<in> set pairs" and t: "0 \<le> t" "t < sp_nb pr"
  shows "vget (map (\<lambda>e. red_of pairs (fst e)) (all_states A pairs)) (sp_b0 pr + t) = Some (elt (red_states A pairs pr) t)"
proof -
  note e = pair_entries [OF assms]
  have "vget (map (\<lambda>e. red_of pairs (fst e)) (all_states A pairs)) (sp_b0 pr + t) = Some (red_of pairs (fst (elt (all_states A pairs) (sp_b0 pr + t))))"
    using e(1,2) by (simp add: vget_def elt_def)
  then show ?thesis using e(3,4) t by (simp add: red_states_def elt_def)
qed

lemma forM_emit:
  assumes "forM E (\<lambda>x cnt. bump cnt (fst x + 1)) cnt = Some cnt'"
  shows "forM E (\<lambda>x (bcol, brow, cnt). do {
      cnt \<leftarrow> bump cnt (fst x + 1);
      Some (bcol @ [fst x], brow @ [snd x], cnt)
    }) (bcol, brow, cnt) = Some (bcol @ map fst E, brow @ map snd E, cnt')"
  using assms
proof (induction E arbitrary: cnt bcol brow)
  case (Cons x E)
  then obtain c where "bump cnt (fst x + 1) = Some c" "forM E (\<lambda>x cnt. bump cnt (fst x + 1)) c = Some cnt'" by (cases "bump cnt (fst x + 1)") auto
  then show ?case using Cons.IH by simp
qed simp

lemma block_entries_ok:
  assumes P: "pairs_ok A pairs" and nr: "0 \<le> nr" and B: "\<And>x. x \<in> set (blocks A pairs) \<Longrightarrow> 0 \<le> fst x \<and> fst x < nr"
  shows "ok (block_entries pairs (map (\<lambda>e. red_of pairs (fst e)) (all_states A pairs)) nr) (\<lambda>(bcol, brow, cnt). bcol = map fst (blocks A pairs)
    \<and> brow = map snd (blocks A pairs) \<and> int (length cnt) = nr + 1 \<and> elt cnt 0 = 0
    \<and> (\<forall>j. 0 \<le> j \<and> j < nr \<longrightarrow> elt cnt (j + 1) = bcount fst (blocks A pairs) j))"
proof -
  let ?b = "map (\<lambda>e. red_of pairs (fst e)) (all_states A pairs)" and ?g = "\<lambda>x (bcol, brow, cnt). do {
      cnt \<leftarrow> bump cnt (fst x + 1);
      Some (bcol @ [fst x], brow @ [snd x], cnt)
    }"
  have one: "for_range 0 (sp_nb pr) (\<lambda>a2 st.
       for_range 0 (a2 + 1) (\<lambda>c (bcol, brow, bcnt). do {
         ra \<leftarrow> vget ?b (sp_b0 pr + a2);
         rc \<leftarrow> vget ?b (sp_b0 pr + c);
         let col = min ra rc;
         let row = max ra rc;
         bcnt \<leftarrow> bump bcnt (col + 1);
         Some (bcol @ [col], brow @ [row], bcnt)
       }) st) st = forM (tri (red_states A pairs pr)) ?g st" if pr: "pr \<in> set pairs" for pr and st :: "int list \<times> int list \<times> int list"
  proof -
    let ?R = "red_states A pairs pr"
    have L: "sp_nb pr = int (length ?R)" using P pr by (simp add: pairs_ok_def is_pair_def red_states_def)
    have in2: "for_range 0 (a2 + 1) (\<lambda>c (bcol, brow, bcnt). do {
         ra \<leftarrow> vget ?b (sp_b0 pr + a2);
         rc \<leftarrow> vget ?b (sp_b0 pr + c);
         let col = min ra rc;
         let row = max ra rc;
         bcnt \<leftarrow> bump bcnt (col + 1);
         Some (bcol @ [col], brow @ [row], bcnt)
       }) st = forM (map (\<lambda>c. (min (elt ?R a2) (elt ?R c), max (elt ?R a2) (elt ?R c))) [0..a2]) ?g st"
      if a2: "0 \<le> a2" "a2 < sp_nb pr" for a2 and st :: "int list \<times> int list \<times> int list"
      unfolding forM_map for_range_def add_diff_cancel_right'
    proof (rule forM_cong)
      fix c and s :: "int list \<times> int list \<times> int list" assume "c \<in> set [0..a2]"
      then have c: "0 \<le> c" "c < sp_nb pr" using a2 by auto
      show "(case s of (bcol, brow, bcnt) \<Rightarrow> do {
         ra \<leftarrow> vget ?b (sp_b0 pr + a2);
         rc \<leftarrow> vget ?b (sp_b0 pr + c);
         let col = min ra rc;
         let row = max ra rc;
         bcnt \<leftarrow> bump bcnt (col + 1);
         Some (bcol @ [col], brow @ [row], bcnt)
       }) = ?g (min (elt ?R a2) (elt ?R c), max (elt ?R a2) (elt ?R c)) s"
        unfolding state_row_read [OF P pr a2] state_row_read [OF P pr c] bind.simps Let_def fst_conv snd_conv ..
    qed
    show ?thesis unfolding tri_def forM_concat L [symmetric] for_range_def [of 0 "sp_nb pr"]
      by (rule forM_cong) (use in2 in simp)
  qed
  have "block_entries pairs ?b nr = forM (blocks A pairs) ?g ([], [], replicate (nat (nr + 1)) 0)"
    unfolding block_entries_def blocks_def forM_concat by (rule forM_cong) (use one in simp)
  moreover obtain cnt where c: "forM (blocks A pairs) (\<lambda>x cnt. bump cnt (fst x + 1)) (replicate (nat (nr + 1)) 0) = Some cnt"
    "int (length cnt) = nr + 1" "elt cnt 0 = 0" "\<And>j. 0 \<le> j \<Longrightarrow> j < nr \<Longrightarrow> elt cnt (j + 1) = bcount fst (blocks A pairs) j"
    using ok_ex [OF count_shift_ok [of "blocks A pairs" fst nr]] B nr by auto
  ultimately show ?thesis using forM_emit [OF c(1), of "[]" "[]"] c(2-4) by simp
qed

section \<open>The entries of one column\<close>

definition entry_ids :: "'a list \<Rightarrow> int list" where
  "entry_ids E = [0..int (length E) - 1]"

definition entry_col :: "(int \<times> int) list \<Rightarrow> int \<Rightarrow> int" where
  "entry_col E e = fst (elt E e)"

definition col_blocks :: "(int \<times> int) list \<Rightarrow> int \<Rightarrow> (int \<times> int) list" where
  "col_blocks E k = map (\<lambda>e. (snd (elt E e), e)) (filter (\<lambda>e. entry_col E e = k) (entry_ids E))"

lemma vget_map: "0 \<le> i \<Longrightarrow> i < int (length xs) \<Longrightarrow> vget (map f xs) i = Some (f (elt xs i))"
  by (auto simp: vget_def elt_def)

lemma map_entry_ids: "map (elt E) (entry_ids E) = E"
  by (rule nth_equalityI) (simp_all add: entry_ids_def elt_def)

lemma bcount_entries: "bcount (entry_col E) (entry_ids E) j = bcount fst E j"
proof -
  have "filter (\<lambda>x. fst x = j) E = filter (\<lambda>x. fst x = j) (map (elt E) (entry_ids E))" by (simp only: map_entry_ids)
  also have "\<dots> = map (elt E) (filter (\<lambda>e. entry_col E e = j) (entry_ids E))" by (simp add: filter_map comp_def entry_col_def)
  finally show ?thesis by (simp add: bcount_def)
qed

lemma entry_ids_keys: "(\<And>x. x \<in> set E \<Longrightarrow> 0 \<le> fst x \<and> fst x < nr) \<Longrightarrow> \<forall>e \<in> set (entry_ids E). 0 \<le> entry_col E e \<and> entry_col E e < nr"
  using elt_in_set [of _ E] by (simp add: entry_ids_def entry_col_def)

lemma bucket_blocks_ok:
  assumes B: "\<And>x. x \<in> set E \<Longrightarrow> 0 \<le> fst x \<and> fst x < nr" and nr: "0 \<le> nr"
    and c: "int (length cnt) = nr + 1" "elt cnt 0 = 0" "\<And>j. 0 \<le> j \<Longrightarrow> j < nr \<Longrightarrow> elt cnt (j + 1) = bcount fst E j"
  shows "ok (bucket_blocks nr (map fst E) cnt) (\<lambda>(bcnt, border). int (length bcnt) = nr + 1
    \<and> (\<forall>j. 0 \<le> j \<and> j \<le> nr \<longrightarrow> elt bcnt j = bptr (entry_col E) (entry_ids E) j) \<and> border = concat (buckets (entry_col E) nr (entry_ids E)))"
proof -
  let ?k = "entry_col E" and ?I = "entry_ids E"
  have keys: "\<forall>e \<in> set ?I. 0 \<le> ?k e \<and> ?k e < nr" by (rule entry_ids_keys) (rule B)
  obtain bp where bp: "for_range 0 nr prefix_inplace cnt = Some bp" "int (length bp) = nr + 1" "\<And>j. 0 \<le> j \<Longrightarrow> j \<le> nr \<Longrightarrow> elt bp j = bptr ?k ?I j"
    using ok_ex [OF prefix_inplace_ok [OF nr c(1,2), of ?k ?I]] c(3) bcount_entries by auto
  have loop: "for_range 0 (int (length (map fst E))) (\<lambda>e st. do {
       k \<leftarrow> vget (map fst E) e;
       place (\<lambda>_. k) (\<lambda>e. e) e st
     }) st = forM ?I (place ?k (\<lambda>e. e)) st" for st :: "int list \<times> int list"
    unfolding for_range_def entry_ids_def length_map
  proof (rule forM_cong)
    fix e and s :: "int list \<times> int list" assume e: "e \<in> set [0..int (length E) - 1]"
    have "vget (map fst E) e = Some (?k e)" using e by (auto simp: vget_def entry_col_def elt_def)
    then show "(do {
       k \<leftarrow> vget (map fst E) e;
       place (\<lambda>_. k) (\<lambda>e. e) e s
     }) = place ?k (\<lambda>e. e) e s" by (simp add: place_def)
  qed
  have cur: "nr \<le> int (length (take (nat nr) bp))" "\<And>j. 0 \<le> j \<Longrightarrow> j < nr \<Longrightarrow> elt (take (nat nr) bp) j = bptr ?k ?I j"
    using bp(2,3) nr by (simp_all add: elt_def)
  obtain cu border where pl: "forM ?I (place ?k (\<lambda>e. e)) (take (nat nr) bp, replicate (length (map fst E)) 0) = Some (cu, border)"
    "border = concat (buckets ?k nr ?I)"
    using ok_ex [OF place_ok [OF keys nr cur, of "replicate (length (map fst E)) 0" "\<lambda>e. e"]] by (auto simp: entry_ids_def)
  show ?thesis unfolding bucket_blocks_def bp(1) bind.simps loop pl(1) using bp(2,3) pl(2) by simp
qed

lemma col_blocks_read:
  assumes B: "\<And>x. x \<in> set E \<Longrightarrow> 0 \<le> fst x \<and> fst x < nr" and k: "0 \<le> k" "k < nr"
    and b: "border = concat (buckets (entry_col E) nr (entry_ids E))"
  shows "for_range (bptr (entry_col E) (entry_ids E) k) (bptr (entry_col E) (entry_ids E) (k + 1)) (\<lambda>t col. do {
      e \<leftarrow> vget border t;
      r \<leftarrow> vget (map snd E) e;
      Some (col @ [(r, e)])
    }) [] = Some (col_blocks E k)"
proof -
  let ?f = "entry_col E" and ?I = "entry_ids E"
  let ?es = "filter (\<lambda>e. ?f e = k) ?I" and ?o = "bptr ?f ?I k"
  have keys: "\<forall>e \<in> set ?I. 0 \<le> ?f e \<and> ?f e < nr" by (rule entry_ids_keys) (rule B)
  note seg = bucket_segment(1) [OF keys k, of id] bucket_segment(2,3) [OF keys k] bucket_segment(4) [OF keys k, of id]
  have hi: "bptr ?f ?I (k + 1) = ?o + int (length ?es)" using bptr_Suc [OF k(1), of ?f ?I] by (simp add: bcount_def)
  have "for_range ?o (?o + int (length ?es)) (\<lambda>t col. do {
      e \<leftarrow> vget border t;
      r \<leftarrow> vget (map snd E) e;
      Some (col @ [(r, e)])
    }) [] = forM ?es (\<lambda>e col. Some (col @ [(snd (elt E e), e)])) []"
  proof (rule for_range_elts)
    fix t and col :: "(int \<times> int) list" assume t: "0 \<le> t" "t < int (length ?es)"
    let ?e = "elt ?es t"
    have "segment border ?o (bptr ?f ?I (k + 1)) = ?es" using seg(1) by (simp add: b)
    then have "segment border ?o (bptr ?f ?I (k + 1)) ! nat t = ?e" by (simp add: elt_def)
    then have g: "vget border (?o + t) = Some ?e"
      using t seg(2,4) unfolding hi by (simp add: b segment_def vget_def nat_add_distrib)
    have "?e \<in> set ?I" using elt_in_set [OF t] by simp
    then have "0 \<le> ?e" "?e < int (length E)" unfolding entry_ids_def by simp_all
    then have "vget (map snd E) ?e = Some (snd (elt E ?e))" by (rule vget_map)
    then show "(do {
      e \<leftarrow> vget border (?o + t);
      r \<leftarrow> vget (map snd E) e;
      Some (col @ [(r, e)])
    }) = Some (col @ [(snd (elt E ?e), ?e)])" unfolding g bind.simps by simp
  qed
  moreover have "forM es (\<lambda>e col. Some (col @ [(snd (elt E e), e)])) acc = Some (acc @ map (\<lambda>e. (snd (elt E e), e)) es)" for es acc
    by (induction es arbitrary: acc) auto
  ultimately show ?thesis unfolding hi by (simp add: col_blocks_def)
qed

end
