(* ===== verification/SlackMerge.thy ===== *)
theory SlackMerge
  imports SlackNumber
begin

text \<open>
  One column of the reduced pattern: the kept entries and the entries of the state blocks, both ascending, are merged into
  strictly ascending rows, and every entry is given the slot of its row.
\<close>

section \<open>The state of the merge\<close>

text \<open>\<open>C\<close> is the column's block entries, \<open>rows0\<close> and \<open>bs0\<close> the rows and block slots before the column, \<open>K\<close> the kept rows so far.\<close>

definition merge_inv :: "(int \<times> int) list \<Rightarrow> int list \<Rightarrow> int list \<Rightarrow> int set \<Rightarrow> (int \<times> int) list \<times> int \<times> int list \<times> int list \<Rightarrow> bool" where
  "merge_inv C rows0 bs0 K = (\<lambda>(col, lst, rows, bslot). \<exists>pre out. C = pre @ col \<and> rows = rows0 @ out \<and> sorted_wrt (<) out
     \<and> lst = (if out = [] then -1 else last out) \<and> set out = fst ` set pre \<union> K \<and> (\<forall>x \<in> set col. lst \<le> fst x)
     \<and> length bslot = length bs0 \<and> (\<forall>e. 0 \<le> e \<and> e < int (length bs0) \<and> e \<notin> snd ` set pre \<longrightarrow> elt bslot e = elt bs0 e)
     \<and> (\<forall>x \<in> set pre. int (length rows0) \<le> elt bslot (snd x) \<and> elt bslot (snd x) < int (length rows) \<and> elt rows (elt bslot (snd x)) = fst x))"

definition block_col :: "(int \<times> int) list \<Rightarrow> int \<Rightarrow> bool" where
  "block_col C m \<longleftrightarrow> sorted (map fst C) \<and> distinct (map snd C) \<and> (\<forall>x \<in> set C. 0 \<le> fst x \<and> 0 \<le> snd x \<and> snd x < m)"

lemma sorted_snoc_lt: "sorted_wrt (<) (xs @ [x]) \<longleftrightarrow> sorted_wrt (<) xs \<and> (xs = [] \<or> last xs < x)" for x :: int
proof (cases xs rule: rev_cases)
  case (snoc ys y)
  then show ?thesis by (auto simp: sorted_wrt_append)
qed simp

lemma elt_at_end: "xs \<noteq> [] \<Longrightarrow> elt xs (int (length xs) - 1) = last xs"
  by (cases xs rule: rev_cases) (simp_all add: elt_def)

lemma merge_emit:
  assumes C: "block_col C (int (length bs0))" and I: "merge_inv C rows0 bs0 K ((r, e) # col, lst, rows, bslot)"
  shows "ok (vset bslot e (int (length (if r \<noteq> lst then rows @ [r] else rows)) - 1))
    (\<lambda>b. merge_inv C rows0 bs0 K (col, r, if r \<noteq> lst then rows @ [r] else rows, b))"
proof -
  obtain pre out where P: "C = pre @ (r, e) # col" "rows = rows0 @ out" "sorted_wrt (<) out" "lst = (if out = [] then -1 else last out)"
    "set out = fst ` set pre \<union> K" "\<forall>x \<in> set ((r, e) # col). lst \<le> fst x" "length bslot = length bs0"
    and B: "\<forall>e. 0 \<le> e \<and> e < int (length bs0) \<and> e \<notin> snd ` set pre \<longrightarrow> elt bslot e = elt bs0 e"
    and S: "\<forall>x \<in> set pre. int (length rows0) \<le> elt bslot (snd x) \<and> elt bslot (snd x) < int (length rows) \<and> elt rows (elt bslot (snd x)) = fst x"
    using I unfolding merge_inv_def prod.case by blast
  have lr: "lst \<le> r" using P(6) by simp
  have e: "0 \<le> e" "e < int (length bslot)" "0 \<le> r" and d: "e \<notin> snd ` set pre" and le: "\<And>x. x \<in> set col \<Longrightarrow> r \<le> fst x"
    using C unfolding block_col_def P(1,7) by (auto simp: sorted_append)
  let ?rows = "if r \<noteq> lst then rows @ [r] else rows"
  let ?out = "if r \<noteq> lst then out @ [r] else out"
  let ?k = "int (length ?rows) - 1"
  have last: "?out \<noteq> [] \<and> last ?out = r" using P(4) e(3) by (auto split: if_splits)
  have ro: "?rows = rows0 @ ?out" using P(2) by simp
  have k: "int (length rows0) \<le> ?k" "?k < int (length ?rows)" "elt ?rows ?k = r"
  proof -
    have "0 < length ?out" using last by simp
    then show "int (length rows0) \<le> ?k" "?k < int (length ?rows)" unfolding ro by simp_all
    have "elt ?rows ?k = last ?rows" by (rule elt_at_end) (use last ro in auto)
    then show "elt ?rows ?k = r" using last unfolding ro by simp
  qed
  have keep: "elt ?rows i = elt rows i" if "0 \<le> i" "i < int (length rows)" for i using that by (simp add: elt_snoc)
  have "merge_inv C rows0 bs0 K (col, r, ?rows, bslot[nat e := ?k])"
    unfolding merge_inv_def prod.case
  proof (intro exI [of _ "pre @ [(r, e)]"] exI [of _ ?out] conjI ballI allI impI)
    show "C = (pre @ [(r, e)]) @ col" using P(1) by simp
    show "?rows = rows0 @ ?out" by (rule ro)
    show "sorted_wrt (<) ?out" using P(3,4) lr by (auto simp: sorted_snoc_lt)
    show "r = (if ?out = [] then -1 else last ?out)" using last by simp
    show "set ?out = fst ` set (pre @ [(r, e)]) \<union> K" using P(5) last last_in_set [of ?out] by (auto split: if_splits)
    show "r \<le> fst x" if "x \<in> set col" for x using le that by simp
    show "length (bslot[nat e := ?k]) = length bs0" using P(7) by simp
    show "elt (bslot[nat e := ?k]) e' = elt bs0 e'" if "0 \<le> e' \<and> e' < int (length bs0) \<and> e' \<notin> snd ` set (pre @ [(r, e)])" for e'
      using that B [rule_format, of e'] e P(7) by (auto simp: at_update)
    show "int (length rows0) \<le> elt (bslot[nat e := ?k]) (snd x)" "elt (bslot[nat e := ?k]) (snd x) < int (length ?rows)"
      "elt ?rows (elt (bslot[nat e := ?k]) (snd x)) = fst x" if x: "x \<in> set (pre @ [(r, e)])" for x
    proof -
      have c: "x = (r, e) \<or> x \<in> set pre \<and> snd x \<noteq> e" using x d by force
      have b: "x \<in> set pre \<Longrightarrow> 0 \<le> snd x \<and> snd x < int (length bslot)" using C unfolding block_col_def P(1,7) by auto
      have u: "elt (bslot[nat e := ?k]) (snd x) = (if x = (r, e) then ?k else elt bslot (snd x))"
        using c b e by (auto simp: at_update)
      show "int (length rows0) \<le> elt (bslot[nat e := ?k]) (snd x)" "elt (bslot[nat e := ?k]) (snd x) < int (length ?rows)"
        "elt ?rows (elt (bslot[nat e := ?k]) (snd x)) = fst x"
        using c k S [rule_format, of x] keep [of "elt bslot (snd x)"] unfolding u by (cases "x = (r, e)"; force)+
    qed
  qed
  then show ?thesis using e by (simp add: vset_def inb_def)
qed

lemma emit_blocks_below_ok:
  assumes C: "block_col C (int (length bs0))" and I: "merge_inv C rows0 bs0 K (col, lst, rows, bslot)" and b: "lst < bound"
  shows "ok (emit_blocks_below bound col lst rows bslot) (\<lambda>(col, lst, rows, bslot). merge_inv C rows0 bs0 K (col, lst, rows, bslot)
    \<and> lst < bound \<and> (\<forall>x \<in> set col. bound \<le> fst x))"
  using I b
proof (induction bound col lst rows bslot rule: emit_blocks_below.induct)
  case (2 bound r e col lst rows bslot)
  show ?case
  proof (cases "r < bound")
    case True
    obtain b where b: "vset bslot e (int (length (if r \<noteq> lst then rows @ [r] else rows)) - 1) = Some b"
      "merge_inv C rows0 bs0 K (col, r, if r \<noteq> lst then rows @ [r] else rows, b)"
      using ok_ex [OF merge_emit [OF C "2.prems"(1)]] by blast
    then show ?thesis using "2.IH" [OF True HOL.refl b] True by (simp add: Let_def)
  next
    case False
    obtain pre where "C = pre @ (r, e) # col" using "2.prems"(1) unfolding merge_inv_def by auto
    then have "\<And>x. x \<in> set col \<Longrightarrow> r \<le> fst x" using C unfolding block_col_def by (auto simp: sorted_append)
    then show ?thesis using False "2.prems" by fastforce
  qed
qed simp

lemma emit_blocks_at_ok:
  assumes C: "block_col C (int (length bs0))" and I: "merge_inv C rows0 bs0 K (col, ri, rows, bslot)"
  shows "ok (emit_blocks_at ri col rows bslot) (\<lambda>(col, bslot). merge_inv C rows0 bs0 K (col, ri, rows, bslot) \<and> (\<forall>x \<in> set col. ri < fst x))"
  using I
proof (induction ri col rows bslot rule: emit_blocks_at.induct)
  case (2 ri r e col rows bslot)
  show ?case
  proof (cases "r = ri")
    case True
    obtain b where b: "vset bslot e (int (length rows) - 1) = Some b" "merge_inv C rows0 bs0 K (col, ri, rows, b)"
      using ok_ex [OF merge_emit [OF C "2.prems"]] True by auto
    then show ?thesis using "2.IH" [OF True b] True by simp
  next
    case False
    obtain pre where p: "C = pre @ (r, e) # col" "ri \<le> r" using "2.prems" unfolding merge_inv_def by auto
    then have "\<And>x. x \<in> set col \<Longrightarrow> r \<le> fst x" using C unfolding block_col_def by (auto simp: sorted_append)
    then show ?thesis using False "2.prems" p(2) by fastforce
  qed
qed simp

lemma emit_blocks_below_extends:
  "emit_blocks_below bound col lst rows bslot = Some (col', lst', rows', bslot') \<Longrightarrow> \<exists>ys. rows' = rows @ ys"
proof (induction bound col lst rows bslot rule: emit_blocks_below.induct)
  case (2 bound r e col lst rows bslot)
  then show ?case by (cases "r < bound"; cases "vset bslot e (int (length (if r \<noteq> lst then rows @ [r] else rows)) - 1)") (force simp: Let_def split: if_splits)+
qed simp

section \<open>One column\<close>

definition entry_inv :: "'v csc \<Rightarrow> slack_pair list \<Rightarrow> (int \<times> int) list \<Rightarrow> int list \<Rightarrow> int list \<Rightarrow> int list \<Rightarrow> int list \<Rightarrow> int list
    \<Rightarrow> (int \<times> int) list \<times> int \<times> int list \<times> int list \<times> int list \<times> int list \<Rightarrow> bool" where
  "entry_inv A pairs C rows0 ks0 kd0 bs0 ps = (\<lambda>(col, lst, rows, ks, kd, bslot). \<exists>ds.
     merge_inv C rows0 bs0 (red_of pairs ` elt (row_idx A) ` set (filter (\<lambda>p. elt (row_idx A) p \<notin> set (members pairs)) ps)) (col, lst, rows, bslot)
     \<and> (\<forall>x \<in> set col. lst < fst x) \<and> ks = ks0 @ filter (\<lambda>p. elt (row_idx A) p \<notin> set (members pairs)) ps \<and> kd = kd0 @ ds
     \<and> list_all2 (\<lambda>p d. int (length rows0) \<le> d \<and> d < int (length rows) \<and> elt rows d = red_of pairs (elt (row_idx A) p))
          (filter (\<lambda>p. elt (row_idx A) p \<notin> set (members pairs)) ps) ds)"

lemma list_all2_weaken: "list_all2 P xs ys \<Longrightarrow> (\<And>x y. P x y \<Longrightarrow> Q x y) \<Longrightarrow> list_all2 Q xs ys"
  by (rule list_all2_mono)

lemma merge_push:
  assumes I: "merge_inv C rows0 bs0 K (col, lst, rows, bslot)" and ri: "lst < ri" "0 \<le> ri" "\<forall>x \<in> set col. ri \<le> fst x"
  shows "merge_inv C rows0 bs0 (insert ri K) (col, ri, rows @ [ri], bslot)"
proof -
  obtain pre out where P: "C = pre @ col" "rows = rows0 @ out" "sorted_wrt (<) out" "lst = (if out = [] then -1 else last out)"
    "set out = fst ` set pre \<union> K" "length bslot = length bs0"
    and B: "\<forall>e. 0 \<le> e \<and> e < int (length bs0) \<and> e \<notin> snd ` set pre \<longrightarrow> elt bslot e = elt bs0 e"
    and S: "\<forall>x \<in> set pre. int (length rows0) \<le> elt bslot (snd x) \<and> elt bslot (snd x) < int (length rows) \<and> elt rows (elt bslot (snd x)) = fst x"
    using I unfolding merge_inv_def prod.case by blast
  show ?thesis unfolding merge_inv_def prod.case
  proof (intro exI [of _ pre] exI [of _ "out @ [ri]"] conjI ballI)
    show "sorted_wrt (<) (out @ [ri])" using P(3,4) ri(1) by (cases "out = []") (simp_all add: sorted_snoc_lt)
    show "elt (rows @ [ri]) (elt bslot (snd x)) = fst x" if "x \<in> set pre" for x
      using S [rule_format, OF that] elt_snoc [of "elt bslot (snd x)" rows ri] by simp
    show "elt bslot (snd x) < int (length (rows @ [ri]))" if "x \<in> set pre" for x using S [rule_format, OF that] by simp
  qed (use P B S ri(3) in auto)
qed

lemma entry_step:
  assumes C: "block_col C (int (length bs0))" and I: "entry_inv A pairs C rows0 ks0 kd0 bs0 ps st"
    and p: "vget (row_idx A) p = Some (elt (row_idx A) p)" "vget red (elt (row_idx A) p) = Some (red_of pairs (elt (row_idx A) p))"
    and lt: "elt (row_idx A) p \<notin> set (members pairs) \<Longrightarrow> fst (snd st) < red_of pairs (elt (row_idx A) p)"
  shows "ok (reduced_entry A red p st) (\<lambda>st'. entry_inv A pairs C rows0 ks0 kd0 bs0 (ps @ [p]) st'
    \<and> fst (snd st') = (if elt (row_idx A) p \<in> set (members pairs) then fst (snd st) else red_of pairs (elt (row_idx A) p)))"
proof -
  obtain col lst rows ks kd bslot where st: "st = (col, lst, rows, ks, kd, bslot)" by (cases st)
  let ?i = "elt (row_idx A) p"
  let ?kp = "filter (\<lambda>p. elt (row_idx A) p \<notin> set (members pairs)) ps"
  let ?at = "\<lambda>rows p d. int (length rows0) \<le> d \<and> d < int (length rows) \<and> elt rows d = red_of pairs (elt (row_idx A) p)"
  show ?thesis
  proof (cases "?i \<in> set (members pairs)")
    case True
    then have "reduced_entry A red p st = Some st" unfolding st reduced_entry_def prod.case p bind.simps by (simp add: red_of_def)
    moreover have "entry_inv A pairs C rows0 ks0 kd0 bs0 (ps @ [p]) st" using I True unfolding entry_inv_def by simp
    ultimately show ?thesis using True by simp
  next
    case False
    let ?ri = "red_of pairs ?i"
    have r0: "0 \<le> ?ri" "lst < ?ri" using False lt by (simp_all add: red_of_def st)
    obtain ds where M: "merge_inv C rows0 bs0 (red_of pairs ` elt (row_idx A) ` set ?kp) (col, lst, rows, bslot)"
      and D: "ks = ks0 @ ?kp" "kd = kd0 @ ds" "list_all2 (?at rows) ?kp ds"
      using I unfolding st entry_inv_def prod.case by blast
    obtain col1 lst1 rows1 bs1 where b: "emit_blocks_below ?ri col lst rows bslot = Some (col1, lst1, rows1, bs1)"
      "merge_inv C rows0 bs0 (red_of pairs ` elt (row_idx A) ` set ?kp) (col1, lst1, rows1, bs1)" "lst1 < ?ri" "\<forall>x \<in> set col1. ?ri \<le> fst x"
      using ok_ex [OF emit_blocks_below_ok [OF C M r0(2)]] by auto
    obtain ys where ys: "rows1 = rows @ ys" using emit_blocks_below_extends [OF b(1)] by blast
    obtain col2 bs2 where e: "emit_blocks_at ?ri col1 (rows1 @ [?ri]) bs1 = Some (col2, bs2)"
      "merge_inv C rows0 bs0 (insert ?ri (red_of pairs ` elt (row_idx A) ` set ?kp)) (col2, ?ri, rows1 @ [?ri], bs2)" "\<forall>x \<in> set col2. ?ri < fst x"
      using ok_ex [OF emit_blocks_at_ok [OF C merge_push [OF b(2,3) r0(1) b(4)]]] by auto
    have keep: "elt (rows1 @ [?ri]) d = elt rows d" if "0 \<le> d" "d < int (length rows)" for d
      using that unfolding ys by (auto simp: elt_def nth_append nat_less_iff)
    have base: "length rows0 \<le> length rows1" using b(2) unfolding merge_inv_def by auto
    have all: "list_all2 (?at (rows1 @ [?ri])) (?kp @ [p]) (ds @ [int (length rows1)])"
    proof (rule list_all2_appendI)
      show "list_all2 (?at (rows1 @ [?ri])) ?kp ds" by (rule list_all2_weaken [OF D(3)]) (use keep ys in auto)
      show "list_all2 (?at (rows1 @ [?ri])) [p] [int (length rows1)]" using base by (simp add: elt_snoc)
    qed
    have run: "reduced_entry A red p st = Some (col2, ?ri, rows1 @ [?ri], ks @ [p], kd @ [int (length rows1)], bs2)"
      unfolding st reduced_entry_def prod.case p bind.simps using r0(1) by (simp add: b(1) e(1))
    have "entry_inv A pairs C rows0 ks0 kd0 bs0 (ps @ [p]) (col2, ?ri, rows1 @ [?ri], ks @ [p], kd @ [int (length rows1)], bs2)"
      unfolding entry_inv_def prod.case
      by (intro exI [of _ "ds @ [int (length rows1)]"] conjI) (use e D(1,2) all False in simp_all)
    then show ?thesis unfolding run using False by simp
  qed
qed

definition kept_slots :: "'v csc \<Rightarrow> slack_pair list \<Rightarrow> int \<Rightarrow> int list" where
  "kept_slots A pairs j = filter (\<lambda>p. elt (row_idx A) p \<notin> set (members pairs)) (col_slots A j)"

definition column_done :: "'v csc \<Rightarrow> slack_pair list \<Rightarrow> int \<Rightarrow> (int \<times> int) list \<Rightarrow> int list \<Rightarrow> int list \<Rightarrow> int list \<Rightarrow> int list
    \<Rightarrow> int list \<times> int list \<times> int list \<times> int list \<Rightarrow> bool" where
  "column_done A pairs j C rows0 ks0 kd0 bs0 = (\<lambda>(rows, ks, kd, bslot). \<exists>out ds. rows = rows0 @ out \<and> sorted_wrt (<) out
     \<and> set out = fst ` set C \<union> red_of pairs ` elt (row_idx A) ` set (kept_slots A pairs j)
     \<and> ks = ks0 @ kept_slots A pairs j \<and> kd = kd0 @ ds
     \<and> list_all2 (\<lambda>p d. int (length rows0) \<le> d \<and> d < int (length rows) \<and> elt rows d = red_of pairs (elt (row_idx A) p)) (kept_slots A pairs j) ds
     \<and> length bslot = length bs0 \<and> (\<forall>e. 0 \<le> e \<and> e < int (length bs0) \<and> e \<notin> snd ` set C \<longrightarrow> elt bslot e = elt bs0 e)
     \<and> (\<forall>x \<in> set C. int (length rows0) \<le> elt bslot (snd x) \<and> elt bslot (snd x) < int (length rows) \<and> elt rows (elt bslot (snd x)) = fst x))"

lemma entries_ok:
  assumes A: "csc_clean A" and j: "0 \<le> j" "j < csc_n A" and C: "block_col C (int (length bs0))"
    and red: "int (length red) = csc_n A" "\<And>v. 0 \<le> v \<Longrightarrow> v < csc_n A \<Longrightarrow> elt red v = red_of pairs v"
  shows "ok (for_range (elt (col_ptr A) j) (elt (col_ptr A) (j + 1)) (reduced_entry A red) (C, -1, rows0, ks0, kd0, bs0))
    (entry_inv A pairs C rows0 ks0 kd0 bs0 (col_slots A j))"
proof (rule for_range_ok [where I = "\<lambda>q st. entry_inv A pairs C rows0 ks0 kd0 bs0 [elt (col_ptr A) j..q - 1] st
    \<and> (\<forall>p. q \<le> p \<and> p < elt (col_ptr A) (j + 1) \<and> elt (row_idx A) p \<notin> set (members pairs) \<longrightarrow> fst (snd st) < red_of pairs (elt (row_idx A) p))"])
  let ?lo = "elt (col_ptr A) j" and ?hi = "elt (col_ptr A) (j + 1)"
  have m0: "merge_inv C rows0 bs0 {} (C, -1, rows0, bs0)"
    unfolding merge_inv_def prod.case by (rule exI [of _ "[]"], rule exI [of _ "[]"]) (use C in \<open>auto simp: block_col_def\<close>)
  show "entry_inv A pairs C rows0 ks0 kd0 bs0 [?lo..?lo - 1] (C, -1, rows0, ks0, kd0, bs0)
    \<and> (\<forall>p. ?lo \<le> p \<and> p < ?hi \<and> elt (row_idx A) p \<notin> set (members pairs) \<longrightarrow> fst (snd (C, -1 :: int, rows0, ks0, kd0, bs0)) < red_of pairs (elt (row_idx A) p))"
    using m0 C by (auto simp: entry_inv_def block_col_def red_of_def)
next
  let ?lo = "elt (col_ptr A) j" and ?hi = "elt (col_ptr A) (j + 1)"
  fix q st assume q: "?lo \<le> q" "q < ?hi" and I: "entry_inv A pairs C rows0 ks0 kd0 bs0 [?lo..q - 1] st
    \<and> (\<forall>p. q \<le> p \<and> p < ?hi \<and> elt (row_idx A) p \<notin> set (members pairs) \<longrightarrow> fst (snd st) < red_of pairs (elt (row_idx A) p))"
  have sl: "is_slot A (elt (row_idx A) p) j p" if "?lo \<le> p" "p < ?hi" for p using that j by (simp add: is_slot_def)
  note r = slot_rows [OF A sl [OF q]]
  have g: "vget (row_idx A) q = Some (elt (row_idx A) q)" "vget red (elt (row_idx A) q) = Some (red_of pairs (elt (row_idx A) q))"
    using r j red by (simp_all add: vget_at)
  have up: "[?lo..q + 1 - 1] = [?lo..q - 1] @ [q]" using q by (simp add: upto_rec2)
  have later: "red_of pairs (elt (row_idx A) q) < red_of pairs (elt (row_idx A) p)"
    if "q < p" "p < ?hi" "elt (row_idx A) p \<notin> set (members pairs)" "elt (row_idx A) q \<notin> set (members pairs)" for p
  proof (rule red_of_mono)
    have "p \<in> set (col_slots A j)" "q \<in> set (col_slots A j)" using that q by (simp_all add: col_slots_def)
    have "sorted_wrt (<) (map (elt (row_idx A)) [?lo..?hi - 1])"
      using col_rows_sorted [OF A j] unfolding col_rows_slots col_slots_def by simp
    moreover have "[?lo..?hi - 1] = [?lo..q - 1] @ q # [q + 1..?hi - 1]" using q by (intro upto_split3) auto
    ultimately show "elt (row_idx A) q < elt (row_idx A) p" using that(1,2) by (simp add: sorted_wrt_append)
  qed (use that r j in auto)
  show "ok (reduced_entry A red q st) (\<lambda>st. entry_inv A pairs C rows0 ks0 kd0 bs0 [?lo..q + 1 - 1] st
    \<and> (\<forall>p. q + 1 \<le> p \<and> p < ?hi \<and> elt (row_idx A) p \<notin> set (members pairs) \<longrightarrow> fst (snd st) < red_of pairs (elt (row_idx A) p)))"
    unfolding up
  proof (rule ok_mono [OF entry_step [OF C I [THEN conjunct1] g]])
    show "fst (snd st) < red_of pairs (elt (row_idx A) q)" if "elt (row_idx A) q \<notin> set (members pairs)" using I q that by blast
  next
    fix st' assume "entry_inv A pairs C rows0 ks0 kd0 bs0 ([?lo..q - 1] @ [q]) st'
      \<and> fst (snd st') = (if elt (row_idx A) q \<in> set (members pairs) then fst (snd st) else red_of pairs (elt (row_idx A) q))"
    then show "entry_inv A pairs C rows0 ks0 kd0 bs0 ([?lo..q - 1] @ [q]) st'
      \<and> (\<forall>p. q + 1 \<le> p \<and> p < ?hi \<and> elt (row_idx A) p \<notin> set (members pairs) \<longrightarrow> fst (snd st') < red_of pairs (elt (row_idx A) p))"
      using I later by auto
  qed
next
  let ?lo = "elt (col_ptr A) j" and ?hi = "elt (col_ptr A) (j + 1)"
  have le: "?lo \<le> ?hi" using csc_ptr_mono [OF csc_cleanD(1) [OF A], of j "j + 1"] j by simp
  fix st assume "entry_inv A pairs C rows0 ks0 kd0 bs0 [?lo..max ?lo ?hi - 1] st
    \<and> (\<forall>p. max ?lo ?hi \<le> p \<and> p < ?hi \<and> elt (row_idx A) p \<notin> set (members pairs) \<longrightarrow> fst (snd st) < red_of pairs (elt (row_idx A) p))"
  then show "entry_inv A pairs C rows0 ks0 kd0 bs0 (col_slots A j) st" using le by (simp add: col_slots_def max_def)
qed

lemma column_end:
  assumes C: "block_col C (int (length bs0))" and m: "\<forall>x \<in> set C. fst x < bound" "lst < bound"
    and I: "entry_inv A pairs C rows0 ks0 kd0 bs0 (col_slots A j) (col, lst, rows, ks, kd, bslot)"
  shows "ok (emit_blocks_below bound col lst rows bslot) (\<lambda>(col, lst, rows, bslot). column_done A pairs j C rows0 ks0 kd0 bs0 (rows, ks, kd, bslot))"
proof -
  let ?kp = "kept_slots A pairs j"
  let ?K = "red_of pairs ` elt (row_idx A) ` set ?kp"
  let ?at = "\<lambda>rows p d. int (length rows0) \<le> d \<and> d < int (length rows) \<and> elt rows d = red_of pairs (elt (row_idx A) p)"
  obtain ds where M: "merge_inv C rows0 bs0 ?K (col, lst, rows, bslot)" and D: "ks = ks0 @ ?kp" "kd = kd0 @ ds" "list_all2 (?at rows) ?kp ds"
    using I unfolding entry_inv_def kept_slots_def prod.case by blast
  obtain col1 lst1 rows1 bs1 where b: "emit_blocks_below bound col lst rows bslot = Some (col1, lst1, rows1, bs1)"
    "merge_inv C rows0 bs0 ?K (col1, lst1, rows1, bs1)" "\<forall>x \<in> set col1. bound \<le> fst x"
    using ok_ex [OF emit_blocks_below_ok [OF C M m(2)]] by auto
  obtain ys where ys: "rows1 = rows @ ys" using emit_blocks_below_extends [OF b(1)] by blast
  obtain pre out where P: "C = pre @ col1" "rows1 = rows0 @ out" "sorted_wrt (<) out" "set out = fst ` set pre \<union> ?K" "length bs1 = length bs0"
    and B: "\<forall>e. 0 \<le> e \<and> e < int (length bs0) \<and> e \<notin> snd ` set pre \<longrightarrow> elt bs1 e = elt bs0 e"
    and S: "\<forall>x \<in> set pre. int (length rows0) \<le> elt bs1 (snd x) \<and> elt bs1 (snd x) < int (length rows1) \<and> elt rows1 (elt bs1 (snd x)) = fst x"
    using b(2) unfolding merge_inv_def prod.case by blast
  have "col1 = []" using b(3) m(1) P(1) by (cases col1) auto
  then have pre: "pre = C" using P(1) by simp
  have keep: "elt rows1 d = elt rows d" if "0 \<le> d" "d < int (length rows)" for d
    using that unfolding ys by (auto simp: elt_def nth_append nat_less_iff)
  have "list_all2 (?at rows1) ?kp ds" by (rule list_all2_weaken [OF D(3)]) (use keep ys in auto)
  then have "column_done A pairs j C rows0 ks0 kd0 bs0 (rows1, ks, kd, bs1)"
    unfolding column_done_def prod.case using P(2-5) B S D(1,2) unfolding pre by blast
  then show ?thesis by (simp add: b(1))
qed

end
