(* ===== verification/SlackPattern.thy ===== *)
theory SlackPattern
  imports SlackMerge
begin

text \<open>
  The reduced pattern as a whole: its columns, the slots of the kept entries and of the pairs' blocks.
\<close>

section \<open>The columns of the reduced matrix\<close>

definition red_col :: "'v csc \<Rightarrow> slack_pair list \<Rightarrow> int \<Rightarrow> int list" where
  "red_col A pairs k = sorted_list_of_set (snd ` {x \<in> set (blocks A pairs). fst x = k}
     \<union> red_of pairs ` elt (row_idx A) ` set (kept_slots A pairs (elt (kept pairs (csc_n A)) k)))"

definition red_off :: "'v csc \<Rightarrow> slack_pair list \<Rightarrow> int \<Rightarrow> int" where
  "red_off A pairs k = int (length (concat (map (red_col A pairs) [0..k - 1])))"

definition red_slot :: "'v csc \<Rightarrow> slack_pair list \<Rightarrow> int \<Rightarrow> int \<Rightarrow> int \<Rightarrow> bool" where
  "red_slot A pairs r k d \<longleftrightarrow> red_off A pairs k \<le> d \<and> d < red_off A pairs (k + 1) \<and> elt (red_col A pairs k) (d - red_off A pairs k) = r"

lemma red_off_next: "0 \<le> k \<Longrightarrow> red_off A pairs (k + 1) = red_off A pairs k + int (length (red_col A pairs k))"
  by (simp add: red_off_def upto_rec2)

lemma red_off_0 [simp]: "red_off A pairs 0 = 0"
  by (simp add: red_off_def)

definition red_rows :: "'v csc \<Rightarrow> slack_pair list \<Rightarrow> int \<Rightarrow> int list" where
  "red_rows A pairs m = concat (map (red_col A pairs) [0..m - 1])"

lemma red_rows_next: "0 \<le> m \<Longrightarrow> red_rows A pairs (m + 1) = red_rows A pairs m @ red_col A pairs m"
  by (simp add: red_rows_def upto_rec2)

lemma red_rows_length: "int (length (red_rows A pairs m)) = red_off A pairs m"
  by (simp add: red_rows_def red_off_def)

lemma red_slot_new:
  assumes "0 \<le> m" "red_off A pairs m \<le> d" "d < red_off A pairs (m + 1)"
  shows "red_slot A pairs (elt (red_rows A pairs (m + 1)) d) m d"
proof -
  have l: "red_off A pairs m = int (length (red_rows A pairs m))" by (simp add: red_rows_length)
  have "elt (red_rows A pairs (m + 1)) d = elt (red_col A pairs m) (d - red_off A pairs m)"
    using assms unfolding red_rows_next [OF assms(1)] l by (simp add: elt_def nth_append nat_diff_distrib nat_less_iff)
  then show ?thesis using assms by (simp add: red_slot_def)
qed

section \<open>All columns\<close>

definition layout_inv :: "'v csc \<Rightarrow> slack_pair list \<Rightarrow> int \<Rightarrow> int list \<times> int list \<times> int list \<times> int list \<times> int list \<Rightarrow> bool" where
  "layout_inv A pairs m = (\<lambda>(cptr, rows, ks, kd, bslot). int (length cptr) = int (length (kept pairs (csc_n A))) + 1
     \<and> (\<forall>k. 0 \<le> k \<and> k \<le> m \<longrightarrow> elt cptr k = narrow32 (red_off A pairs k)) \<and> rows = red_rows A pairs m
     \<and> ks = concat (map (\<lambda>k. kept_slots A pairs (elt (kept pairs (csc_n A)) k)) [0..m - 1])
     \<and> list_all2 (\<lambda>p d. \<exists>k. 0 \<le> k \<and> k < m \<and> p \<in> set (kept_slots A pairs (elt (kept pairs (csc_n A)) k))
          \<and> red_slot A pairs (red_of pairs (elt (row_idx A) p)) k d) ks kd
     \<and> length bslot = length (blocks A pairs)
     \<and> (\<forall>e. 0 \<le> e \<and> e < int (length (blocks A pairs)) \<and> fst (elt (blocks A pairs) e) < m
          \<longrightarrow> red_slot A pairs (snd (elt (blocks A pairs) e)) (fst (elt (blocks A pairs) e)) (elt bslot e)))"

lemma col_blocks_sorted:
  assumes "\<And>x. x \<in> set E \<Longrightarrow> 0 \<le> snd x"
  shows "block_col (sort (col_blocks E k)) (int (length E))" "fst ` set (sort (col_blocks E k)) = snd ` {x \<in> set E. fst x = k}"
    "(r, e) \<in> set (sort (col_blocks E k)) \<longleftrightarrow> 0 \<le> e \<and> e < int (length E) \<and> fst (elt E e) = k \<and> r = snd (elt E e)"
proof -
  have m: "(r, e) \<in> set (sort (col_blocks E k)) \<longleftrightarrow> 0 \<le> e \<and> e < int (length E) \<and> fst (elt E e) = k \<and> r = snd (elt E e)" for r e
    by (auto simp: col_blocks_def entry_ids_def entry_col_def)
  have s: "sorted (map fst xs)" if "sorted xs" for xs :: "(int \<times> int) list"
    using that by (induction xs) (auto simp: less_eq_prod_def)
  have "distinct (map snd (col_blocks E k))" by (simp add: col_blocks_def comp_def entry_ids_def)
  then have d: "distinct (map snd (sort (col_blocks E k)))" by (metis distinct_map mset_map mset_sort set_mset_mset mset_eq_imp_distinct_iff)
  show "block_col (sort (col_blocks E k)) (int (length E))"
    unfolding block_col_def using s [OF sorted_sort] d assms [OF elt_in_set] m by fastforce
  show "(r, e) \<in> set (sort (col_blocks E k)) \<longleftrightarrow> 0 \<le> e \<and> e < int (length E) \<and> fst (elt E e) = k \<and> r = snd (elt E e)" by (rule m)
  show "fst ` set (sort (col_blocks E k)) = snd ` {x \<in> set E. fst x = k}"
  proof (intro set_eqI iffI)
    fix r assume "r \<in> fst ` set (sort (col_blocks E k))"
    then obtain e where "(r, e) \<in> set (sort (col_blocks E k))" by auto
    then show "r \<in> snd ` {x \<in> set E. fst x = k}" unfolding m using elt_in_set [of e E] by blast
  next
    fix r assume "r \<in> snd ` {x \<in> set E. fst x = k}"
    then obtain x where x: "x \<in> set E" "fst x = k" "r = snd x" by auto
    then obtain e where "0 \<le> e" "e < int (length E)" "elt E e = x" by (auto simp: in_set_elt)
    then have "(r, e) \<in> set (sort (col_blocks E k))" unfolding m using x by simp
    then show "r \<in> fst ` set (sort (col_blocks E k))" by force
  qed
qed

lemma layout_step_kept:
  assumes A: "csc_clean A" and j: "0 \<le> j" "j < csc_n A" "j \<notin> set (members pairs)" and n: "csc_n A < 2 ^ 31"
    and red: "int (length red) = csc_n A" "\<And>v. 0 \<le> v \<Longrightarrow> v < csc_n A \<Longrightarrow> elt red v = red_of pairs v"
    and E: "\<And>x. x \<in> set (blocks A pairs) \<Longrightarrow> 0 \<le> fst x \<and> fst x < int (length (kept pairs (csc_n A)))"
      "\<And>x. x \<in> set (blocks A pairs) \<Longrightarrow> 0 \<le> snd x \<and> snd x < int (length (kept pairs (csc_n A)))"
    and b: "int (length bcnt) = int (length (kept pairs (csc_n A))) + 1"
      "\<And>k. 0 \<le> k \<Longrightarrow> k \<le> int (length (kept pairs (csc_n A))) \<Longrightarrow> elt bcnt k = bptr (entry_col (blocks A pairs)) (entry_ids (blocks A pairs)) k"
      "border = concat (buckets (entry_col (blocks A pairs)) (int (length (kept pairs (csc_n A)))) (entry_ids (blocks A pairs)))"
    and I: "layout_inv A pairs (red_of pairs j) st"
  shows "ok (reduced_column A red (map snd (blocks A pairs)) bcnt border j st) (layout_inv A pairs (red_of pairs j + 1))"
proof -
  let ?E = "blocks A pairs" and ?K = "kept pairs (csc_n A)"
  define m where "m = red_of pairs j"
  obtain cptr rows ks kd bs where st: "st = (cptr, rows, ks, kd, bs)" by (cases st)
  note m = red_of_bounds [OF j, folded m_def]
  have L: "int (length cptr) = int (length ?K) + 1" "\<And>k. 0 \<le> k \<Longrightarrow> k \<le> m \<Longrightarrow> elt cptr k = narrow32 (red_off A pairs k)" "rows = red_rows A pairs m"
    "ks = concat (map (\<lambda>k. kept_slots A pairs (elt ?K k)) [0..m - 1])" "length bs = length ?E"
    and D: "list_all2 (\<lambda>p d. \<exists>k. 0 \<le> k \<and> k < m \<and> p \<in> set (kept_slots A pairs (elt ?K k)) \<and> red_slot A pairs (red_of pairs (elt (row_idx A) p)) k d) ks kd"
    and B: "\<And>e. 0 \<le> e \<Longrightarrow> e < int (length ?E) \<Longrightarrow> fst (elt ?E e) < m \<Longrightarrow> red_slot A pairs (snd (elt ?E e)) (fst (elt ?E e)) (elt bs e)"
    using I unfolding st m_def [symmetric] layout_inv_def prod.case by blast+
  let ?C = "sort (col_blocks ?E m)"
  have C: "block_col ?C (int (length ?E))" by (rule col_blocks_sorted(1)) (use E(2) in blast)
  have Cmem: "\<And>r e. (r, e) \<in> set ?C \<longleftrightarrow> 0 \<le> e \<and> e < int (length ?E) \<and> fst (elt ?E e) = m \<and> r = snd (elt ?E e)"
    by (rule col_blocks_sorted(3)) (use E(2) in blast)
  have Cset: "fst ` set ?C = snd ` {x \<in> set ?E. fst x = m}" by (rule col_blocks_sorted(2)) (use E(2) in blast)
  have small: "int (length ?K) < 2 ^ 31"
  proof -
    have "length ?K \<le> nat (csc_n A)" unfolding kept_def using length_filter_le [of _ "[0..csc_n A - 1]"] by (metis diff_add_cancel diff_zero length_upto)
    then show ?thesis using n csc_cleanD(2) [OF A] by linarith
  qed
  have Cb: "\<forall>x \<in> set ?C. fst x < 2 ^ 31 - 1"
  proof
    fix x assume "x \<in> set ?C"
    then obtain y where "y \<in> set ?E" "fst x = snd y" using Cset by force
    then show "fst x < 2 ^ 31 - 1" using E(2) [of y] small by linarith
  qed
  have get: "vget red j = Some m" "vget bcnt m = Some (bptr (entry_col ?E) (entry_ids ?E) m)" "vget bcnt (m + 1) = Some (bptr (entry_col ?E) (entry_ids ?E) (m + 1))"
    "vget (col_ptr A) j = Some (elt (col_ptr A) j)" "vget (col_ptr A) (j + 1) = Some (elt (col_ptr A) (j + 1))"
    using j m red b(1,2) csc_len_ptr [OF csc_cleanD(1) [OF A]] by (simp_all add: vget_at m_def)
  have col: "for_range (bptr (entry_col ?E) (entry_ids ?E) m) (bptr (entry_col ?E) (entry_ids ?E) (m + 1)) (\<lambda>t col. do {
         e \<leftarrow> vget border t;
         r \<leftarrow> vget (map snd ?E) e;
         Some (col @ [(r, e)])
       }) [] = Some (col_blocks ?E m)"
    by (rule col_blocks_read [OF _ m(1,2) b(3)]) (use E(1) in blast)
  have C': "block_col ?C (int (length bs))" using C L(5) by simp
  have ee: "ok (for_range (elt (col_ptr A) j) (elt (col_ptr A) (j + 1)) (reduced_entry A red) (?C, -1, rows, ks, kd, bs))
      (entry_inv A pairs ?C rows ks kd bs (col_slots A j))" by (rule entries_ok [OF A j(1,2) C' red])
  obtain col1 l1 r1 ks1 kd1 bs1 where e: "for_range (elt (col_ptr A) j) (elt (col_ptr A) (j + 1)) (reduced_entry A red) (?C, -1, rows, ks, kd, bs)
      = Some (col1, l1, r1, ks1, kd1, bs1)" "entry_inv A pairs ?C rows ks kd bs (col_slots A j) (col1, l1, r1, ks1, kd1, bs1)"
    using ok_ex [OF ee] by auto
  have l1: "l1 < 2 ^ 31 - 1"
  proof -
    obtain pre out where o: "?C = pre @ col1" "l1 = (if out = [] then -1 else last out)"
      "set out = fst ` set pre \<union> red_of pairs ` elt (row_idx A) ` set (kept_slots A pairs j)"
      using e(2) unfolding entry_inv_def merge_inv_def prod.case kept_slots_def by blast
    have "x < 2 ^ 31 - 1" if x: "x \<in> set out" for x
    proof (cases "x \<in> fst ` set pre")
      case True
      then show ?thesis using Cb o(1) by auto
    next
      case False
      then obtain p where p: "x = red_of pairs (elt (row_idx A) p)" "p \<in> set (kept_slots A pairs j)" using o(3) x by auto
      have "is_slot A (elt (row_idx A) p) j p" using p(2) is_slot_mem [OF j(1,2), of "elt (row_idx A) p" p] by (simp add: kept_slots_def)
      then have "0 \<le> elt (row_idx A) p" "elt (row_idx A) p < csc_n A" using slot_rows [OF A] by fastforce+
      then show ?thesis using red_of_bounds(2) [of "elt (row_idx A) p" "csc_n A" pairs] p small by (simp add: kept_slots_def)
    qed
    then show ?thesis using o(2) last_in_set [of out] by (cases "out = []") simp_all
  qed
  obtain col2 l2 r2 bs2 where f: "emit_blocks_below (2 ^ 31 - 1) col1 l1 r1 bs1 = Some (col2, l2, r2, bs2)"
    "column_done A pairs j ?C rows ks kd bs (r2, ks1, kd1, bs2)"
    using ok_ex [OF column_end [OF C' Cb l1 e(2)]] by auto
  obtain out ds where o: "r2 = rows @ out" "sorted_wrt (<) out" "set out = fst ` set ?C \<union> red_of pairs ` elt (row_idx A) ` set (kept_slots A pairs j)"
    "ks1 = ks @ kept_slots A pairs j" "kd1 = kd @ ds" "length bs2 = length bs"
    and od: "list_all2 (\<lambda>p d. int (length rows) \<le> d \<and> d < int (length r2) \<and> elt r2 d = red_of pairs (elt (row_idx A) p)) (kept_slots A pairs j) ds"
    and ob: "\<forall>e. 0 \<le> e \<and> e < int (length bs) \<and> e \<notin> snd ` set ?C \<longrightarrow> elt bs2 e = elt bs e"
    and oc: "\<forall>x \<in> set ?C. int (length rows) \<le> elt bs2 (snd x) \<and> elt bs2 (snd x) < int (length r2) \<and> elt r2 (elt bs2 (snd x)) = fst x"
    using f(2) unfolding column_done_def prod.case by blast
  have out: "out = red_col A pairs m"
    unfolding red_col_def m(3) Cset [symmetric] o(3) [symmetric]
    using sorted_list_of_set.idem_if_sorted_distinct [of out] o(2) by (simp add: strict_sorted_iff)
  have r2: "r2 = red_rows A pairs (m + 1)" unfolding red_rows_next [OF m(1)] o(1) L(3) out ..
  have len: "int (length rows) = red_off A pairs m" "int (length r2) = red_off A pairs (m + 1)" unfolding L(3) r2 by (rule red_rows_length)+
  have new: "red_slot A pairs (elt r2 d) m d" if "int (length rows) \<le> d" "d < int (length r2)" for d
    unfolding r2 by (rule red_slot_new [OF m(1)]) (use that len in simp_all)
  have cp: "vset cptr (m + 1) (narrow32 (int (length r2))) = Some (cptr[nat (m + 1) := narrow32 (int (length r2))])" using m L(1) by (simp add: vset_def inb_def)
  have run: "reduced_column A red (map snd ?E) bcnt border j st = Some (cptr[nat (m + 1) := narrow32 (int (length r2))], r2, ks1, kd1, bs2)"
    unfolding st reduced_column_def prod.case get bind.simps col using m(1) by (simp add: e(1) f(1) [simplified] cp)
  have "layout_inv A pairs (m + 1) (cptr[nat (m + 1) := narrow32 (int (length r2))], r2, ks1, kd1, bs2)"
    unfolding layout_inv_def prod.case
  proof (intro conjI allI impI)
    show "int (length (cptr[nat (m + 1) := narrow32 (int (length r2))])) = int (length ?K) + 1" using L(1) by simp
    show "elt (cptr[nat (m + 1) := narrow32 (int (length r2))]) k = narrow32 (red_off A pairs k)" if "0 \<le> k \<and> k \<le> m + 1" for k
      using that L(1,2) m len(2) by (cases "k = m + 1") (auto simp: at_update)
    show "r2 = red_rows A pairs (m + 1)" by (rule r2)
    show "ks1 = concat (map (\<lambda>k. kept_slots A pairs (elt ?K k)) [0..m + 1 - 1])" using o(4) L(4) m by (simp add: upto_rec2)
    show "list_all2 (\<lambda>p d. \<exists>k. 0 \<le> k \<and> k < m + 1 \<and> p \<in> set (kept_slots A pairs (elt ?K k)) \<and> red_slot A pairs (red_of pairs (elt (row_idx A) p)) k d) ks1 kd1"
      unfolding o(4,5)
    proof (rule list_all2_appendI)
      show "list_all2 (\<lambda>p d. \<exists>k. 0 \<le> k \<and> k < m + 1 \<and> p \<in> set (kept_slots A pairs (elt ?K k)) \<and> red_slot A pairs (red_of pairs (elt (row_idx A) p)) k d) ks kd"
        by (rule list_all2_weaken [OF D]) force
      show "list_all2 (\<lambda>p d. \<exists>k. 0 \<le> k \<and> k < m + 1 \<and> p \<in> set (kept_slots A pairs (elt ?K k)) \<and> red_slot A pairs (red_of pairs (elt (row_idx A) p)) k d) (kept_slots A pairs j) ds"
        unfolding list_all2_conv_all_nth
      proof (intro conjI allI impI)
        show "length (kept_slots A pairs j) = length ds" using od by (rule list_all2_lengthD)
        fix i assume i: "i < length (kept_slots A pairs j)"
        let ?p = "kept_slots A pairs j ! i" and ?d = "ds ! i"
        have d: "int (length rows) \<le> ?d" "?d < int (length r2)" "elt r2 ?d = red_of pairs (elt (row_idx A) ?p)"
          using od i unfolding list_all2_conv_all_nth by blast+
        then have "red_slot A pairs (red_of pairs (elt (row_idx A) ?p)) m ?d" using new [of ?d] by simp
        then show "\<exists>k. 0 \<le> k \<and> k < m + 1 \<and> ?p \<in> set (kept_slots A pairs (elt ?K k)) \<and> red_slot A pairs (red_of pairs (elt (row_idx A) ?p)) k ?d"
          using m i by (intro exI [of _ m]) simp
      qed
    qed
    show "length bs2 = length ?E" using o(6) L(5) by simp
    show "red_slot A pairs (snd (elt ?E e)) (fst (elt ?E e)) (elt bs2 e)" if e: "0 \<le> e \<and> e < int (length ?E) \<and> fst (elt ?E e) < m + 1" for e
    proof (cases "fst (elt ?E e) = m")
      case True
      then have "(snd (elt ?E e), e) \<in> set ?C" unfolding Cmem using e by simp
      from oc [rule_format, OF this] show ?thesis using new [of "elt bs2 e"] True by simp
    next
      case False
      then have "e \<notin> snd ` set ?C" using Cmem by force
      then have "elt bs2 e = elt bs e" using ob e L(5) by simp
      then show ?thesis using B [of e] e False by simp
    qed
  qed
  then show ?thesis unfolding run m_def by simp
qed

lemma state_row:
  assumes A: "csc_clean A" and P: "pairs_ok A pairs" and pr: "pr \<in> set pairs" and e: "e \<in> set (states A (sp_s pr) (sp_y pr))"
  shows "0 \<le> fst e" "fst e < csc_n A" "fst e \<notin> set (members pairs)" "0 \<le> red_of pairs (fst e)" "red_of pairs (fst e) < int (length (kept pairs (csc_n A)))"
proof -
  have "(fst e, snd e) \<in> set (adj A (sp_y pr))" using e by (simp add: states_def)
  then show r: "0 \<le> fst e" "fst e < csc_n A" using adj_range [OF A] by blast+
  have "e \<in> set (all_states A pairs)" using pr e by (auto simp: all_states_def)
  then show m: "fst e \<notin> set (members pairs)" using P unfolding pairs_ok_def by blast
  show "0 \<le> red_of pairs (fst e)" "red_of pairs (fst e) < int (length (kept pairs (csc_n A)))" by (rule red_of_bounds [OF r m])+
qed

lemma blocks_range:
  assumes A: "csc_clean A" and P: "pairs_ok A pairs" and x: "x \<in> set (blocks A pairs)"
  shows "0 \<le> fst x" "fst x < int (length (kept pairs (csc_n A)))" "0 \<le> snd x" "snd x < int (length (kept pairs (csc_n A)))" "fst x \<le> snd x"
proof -
  obtain pr where pr: "pr \<in> set pairs" "(fst x, snd x) \<in> set (tri (red_states A pairs pr))" using x by (auto simp: blocks_def)
  note t = tri_mem [OF pr(2)]
  show "0 \<le> fst x" "fst x < int (length (kept pairs (csc_n A)))" "0 \<le> snd x" "snd x < int (length (kept pairs (csc_n A)))"
    using t(1,2) state_row(4,5) [OF A P pr(1)] by (auto simp: red_states_def)
  show "fst x \<le> snd x" by (rule t(3))
qed

lemma layout_loop_ok:
  assumes A: "csc_clean A" and P: "pairs_ok A pairs" and n: "csc_n A < 2 ^ 31"
    and red: "int (length red) = csc_n A" "\<And>v. 0 \<le> v \<Longrightarrow> v < csc_n A \<Longrightarrow> elt red v = red_of pairs v"
    and b: "int (length bcnt) = int (length (kept pairs (csc_n A))) + 1"
      "\<And>k. 0 \<le> k \<Longrightarrow> k \<le> int (length (kept pairs (csc_n A))) \<Longrightarrow> elt bcnt k = bptr (entry_col (blocks A pairs)) (entry_ids (blocks A pairs)) k"
      "border = concat (buckets (entry_col (blocks A pairs)) (int (length (kept pairs (csc_n A)))) (entry_ids (blocks A pairs)))"
  shows "ok (for_range 0 (csc_n A) (reduced_column A red (map snd (blocks A pairs)) bcnt border)
      (replicate (nat (int (length (kept pairs (csc_n A))) + 1)) 0, [], [], [], replicate (length (map fst (blocks A pairs))) 0))
    (layout_inv A pairs (int (length (kept pairs (csc_n A)))))"
proof (rule for_range_ok [where I = "\<lambda>j. layout_inv A pairs (int (length (kept pairs j)))"])
  let ?E = "blocks A pairs" and ?K = "kept pairs (csc_n A)"
  note E = blocks_range [OF A P]
  have k0: "int (length (kept pairs 0)) = 0" by (simp add: kept_def)
  have neg: "\<not> fst (elt ?E e) < 0" if "0 \<le> e \<and> e < int (length ?E)" for e using E(1) [OF elt_in_set [of e ?E]] that by simp
  show "layout_inv A pairs (int (length (kept pairs 0))) (replicate (nat (int (length ?K) + 1)) 0, [], [], [], replicate (length (map fst ?E)) 0)"
    unfolding k0 layout_inv_def prod.case
  proof (intro conjI allI impI)
    show "elt (replicate (nat (int (length ?K) + 1)) 0) k = narrow32 (red_off A pairs k)" if "0 \<le> k \<and> k \<le> 0" for k
      using that by (cases "k = 0") (simp_all add: elt_replicate)
  qed (use neg in \<open>auto simp: red_rows_def\<close>)
next
  fix j st assume j: "0 \<le> j" "j < csc_n A" and I: "layout_inv A pairs (int (length (kept pairs j))) st"
  let ?E = "blocks A pairs"
  show "ok (reduced_column A red (map snd ?E) bcnt border j st) (layout_inv A pairs (int (length (kept pairs (j + 1)))))"
  proof (cases "j \<in> set (members pairs)")
    case True
    have "vget red j = Some (-1)" using True j red by (simp add: vget_at red_of_def)
    then have "reduced_column A red (map snd ?E) bcnt border j st = Some st" by (cases st) (simp add: reduced_column_def)
    then show ?thesis using I True kept_next [OF j(1), of pairs] by simp
  next
    case False
    then have k: "int (length (kept pairs j)) = red_of pairs j" "int (length (kept pairs (j + 1))) = red_of pairs j + 1"
      using kept_next [OF j(1), of pairs] by (simp_all add: red_of_def)
    show ?thesis unfolding k(2)
    proof (rule layout_step_kept [OF A j False n])
      show "layout_inv A pairs (red_of pairs j) st" using I unfolding k(1) .
    qed (rule red b | assumption | use blocks_range [OF A P] in blast)+
  qed
next
  fix st assume "layout_inv A pairs (int (length (kept pairs (max 0 (csc_n A))))) st"
  then show "layout_inv A pairs (int (length (kept pairs (csc_n A)))) st" using csc_cleanD(2) [OF A] by (simp add: max_def)
qed

section \<open>The reduced pattern is a clean matrix\<close>

definition pattern :: "int \<Rightarrow> int list \<Rightarrow> int list \<Rightarrow> unit csc" where
  "pattern n cptr rows = \<lparr>csc_n = n, col_ptr = cptr, row_idx = rows, vals = replicate (length rows) ()\<rparr>"

lemma pattern_sel [simp]: "csc_n (pattern n cptr rows) = n" "col_ptr (pattern n cptr rows) = cptr" "row_idx (pattern n cptr rows) = rows"
  by (simp_all add: pattern_def)

lemma red_off_mono:
  assumes "0 \<le> a" "a \<le> b"
  shows "red_off A pairs a \<le> red_off A pairs b"
proof -
  have "[0..b - 1] = [0..a - 1] @ [a..b - 1]" using upto_split1 [of 0 a "b - 1"] assms by (cases "a = b") auto
  then show ?thesis by (simp add: red_off_def)
qed

lemma red_rows_prefix:
  assumes "0 \<le> a" "a \<le> b"
  shows "\<exists>ys. red_rows A pairs b = red_rows A pairs a @ ys"
proof -
  have "[0..b - 1] = [0..a - 1] @ [a..b - 1]" using upto_split1 [of 0 a "b - 1"] assms by (cases "a = b") auto
  then show ?thesis by (simp add: red_rows_def)
qed

text \<open>Reading the final rows.\<close>

lemma red_slot_read:
  assumes "0 \<le> k" "k < m"
  shows "red_slot A pairs r k d \<longleftrightarrow> red_off A pairs k \<le> d \<and> d < red_off A pairs (k + 1) \<and> elt (red_rows A pairs m) d = r"
proof -
  obtain ys where ys: "red_rows A pairs m = red_rows A pairs (k + 1) @ ys" using red_rows_prefix [of "k + 1" m A pairs] assms by auto
  have "elt (red_rows A pairs m) d = elt (red_col A pairs k) (d - red_off A pairs k)" if d: "red_off A pairs k \<le> d" "d < red_off A pairs (k + 1)"
  proof -
    have "0 \<le> red_off A pairs k" by (simp add: red_off_def)
    then have "elt (red_rows A pairs m) d = elt (red_rows A pairs (k + 1)) d"
      using d red_rows_length [of A pairs "k + 1"] unfolding ys by (simp add: elt_def nth_append nat_less_iff)
    then show ?thesis using red_slot_new [OF assms(1) d] by (simp add: red_slot_def)
  qed
  then show ?thesis by (auto simp: red_slot_def)
qed

lemma red_col_rows:
  assumes A: "csc_clean A" and P: "pairs_ok A pairs" and k: "0 \<le> k" "k < int (length (kept pairs (csc_n A)))" and r: "r \<in> set (red_col A pairs k)"
  shows "k \<le> r" "r < int (length (kept pairs (csc_n A)))"
proof -
  let ?j = "elt (kept pairs (csc_n A)) k"
  note j = red_of_kept [OF k]
  have "r \<in> snd ` {x \<in> set (blocks A pairs). fst x = k} \<or> r \<in> red_of pairs ` elt (row_idx A) ` set (kept_slots A pairs ?j)"
    using r by (simp add: red_col_def)
  then have "k \<le> r \<and> r < int (length (kept pairs (csc_n A)))"
  proof
    assume "r \<in> snd ` {x \<in> set (blocks A pairs). fst x = k}"
    then show ?thesis using blocks_range(4,5) [OF A P] by auto
  next
    assume "r \<in> red_of pairs ` elt (row_idx A) ` set (kept_slots A pairs ?j)"
    then obtain p where p: "r = red_of pairs (elt (row_idx A) p)" "p \<in> set (col_slots A ?j)" "elt (row_idx A) p \<notin> set (members pairs)"
      by (auto simp: kept_slots_def)
    have "is_slot A (elt (row_idx A) p) ?j p" using p(2) is_slot_mem [OF j(2,3), of "elt (row_idx A) p" p] by simp
    note sr = slot_rows [OF A this]
    have "k \<le> r"
    proof (cases "elt (row_idx A) p = ?j")
      case True
      then show ?thesis using p(1) j(1) by simp
    next
      case False
      then show ?thesis using red_of_mono [OF j(2) _ j(4) p(3)] sr(1) p(1) j(1) by simp
    qed
    moreover have "r < int (length (kept pairs (csc_n A)))" unfolding p(1) by (rule red_of_bounds(2)) (use sr p(3) in auto)
    ultimately show ?thesis by simp
  qed
  then show "k \<le> r" "r < int (length (kept pairs (csc_n A)))" by simp_all
qed

lemma reduced_pattern_clean:
  assumes A: "csc_clean A" and P: "pairs_ok A pairs" and m: "m = int (length (kept pairs (csc_n A)))"
    and c: "int (length cptr) = m + 1" "\<And>k. 0 \<le> k \<Longrightarrow> k \<le> m \<Longrightarrow> elt cptr k = red_off A pairs k"
  shows "csc_clean (pattern m cptr (red_rows A pairs m))" "0 \<le> k \<Longrightarrow> k < m \<Longrightarrow> is_slot (pattern m cptr (red_rows A pairs m)) r k d \<longleftrightarrow> red_slot A pairs r k d"
proof -
  let ?R = "pattern m cptr (red_rows A pairs m)"
  have m0: "0 \<le> m" using m by simp
  have slot: "is_slot ?R r k d \<longleftrightarrow> red_slot A pairs r k d" if k: "0 \<le> k" "k < m" for r k d
    using red_slot_read [OF k, of A pairs r d] k c(2) [of k] c(2) [of "k + 1"] by (auto simp: is_slot_def)
  have ptr: "csc_ptr_ok ?R"
    unfolding csc_ptr_ok_def pattern_sel using m0 c red_rows_length [of A pairs m] red_off_next [of _ A pairs] by (simp add: pattern_def)
  have rows: "k \<le> elt (red_rows A pairs m) d \<and> elt (red_rows A pairs m) d < m \<and> (d + 1 < elt cptr (k + 1) \<longrightarrow> elt (red_rows A pairs m) d < elt (red_rows A pairs m) (d + 1))"
    if k: "0 \<le> k" "k < m" "elt cptr k \<le> d" "d < elt cptr (k + 1)" for k d
  proof -
    let ?c = "red_col A pairs k" and ?o = "red_off A pairs k"
    have off: "elt cptr k = ?o" "elt cptr (k + 1) = ?o + int (length ?c)" using c(2) [of k] c(2) [of "k + 1"] red_off_next [OF k(1), of A pairs] k by simp_all
    have read: "elt (red_rows A pairs m) x = elt ?c (x - ?o)" if "?o \<le> x" "x < ?o + int (length ?c)" for x
      using red_slot_read [OF k(1,2), of A pairs "elt (red_rows A pairs m) x" x] that red_off_next [OF k(1), of A pairs] by (auto simp: red_slot_def)
    have i: "0 \<le> d - ?o" "d - ?o < int (length ?c)" using k off by auto
    have "elt ?c (d - ?o) < elt ?c (d + 1 - ?o)" if "d + 1 < elt cptr (k + 1)"
    proof -
      have s: "sorted_wrt (<) ?c" unfolding red_col_def by simp
      have "nat (d - ?o) < nat (d + 1 - ?o)" "nat (d + 1 - ?o) < length ?c" using i that off by simp_all
      then show ?thesis using sorted_wrt_nth_less [OF s] unfolding elt_def by blast
    qed
    then show ?thesis
      using red_col_rows [OF A P k(1) k(2) [unfolded m] elt_in_set [OF i]] read [of d] read [of "d + 1"] i off m by auto
  qed
  show "csc_clean ?R"
    unfolding csc_clean_def csc_valid_def csc_rows_ok_def csc_sorted_def pattern_sel using ptr rows by force
  show "0 \<le> k \<Longrightarrow> k < m \<Longrightarrow> is_slot ?R r k d \<longleftrightarrow> red_slot A pairs r k d" by (rule slot)
qed

end
