(* ===== verification/SlackPlan.thy ===== *)
theory SlackPlan
  imports SlackPattern
begin

text \<open>
  What \<open>build_slack_plan\<close> promises of its layout, and the proof. The early exits are part of the promise: they never turn
  down a matrix the whole search would accept.
\<close>

section \<open>Numbering the blocks\<close>

fun number :: "int \<Rightarrow> slack_pair list \<Rightarrow> slack_pair list" where
  "number k [] = []"
| "number k (pr # pairs) = pr\<lparr>sp_blk0 := k\<rparr> # number (k + sp_nb pr * (sp_nb pr + 1) div 2) pairs"

fun blk_tiled :: "int \<Rightarrow> slack_pair list \<Rightarrow> bool" where
  "blk_tiled k [] = True"
| "blk_tiled k (pr # pairs) = (sp_blk0 pr = k \<and> blk_tiled (k + sp_nb pr * (sp_nb pr + 1) div 2) pairs)"

lemma number_blocks_eq: "number_blocks pairs = number 0 pairs"
proof -
  have "fst (fold (\<lambda>pr (out, e). (out @ [pr\<lparr>sp_blk0 := e\<rparr>], e + sp_nb pr * (sp_nb pr + 1) div 2)) pairs (out, k)) = out @ number k pairs" for out k
    by (induction pairs arbitrary: out k) simp_all
  then show ?thesis by (simp add: number_blocks_def)
qed

lemma number_map: "(\<And>pr e. f (pr\<lparr>sp_blk0 := e\<rparr>) = f pr) \<Longrightarrow> map f (number k pairs) = map f pairs"
  by (induction pairs arbitrary: k) simp_all

lemma number_tiled: "blk_tiled k (number k pairs)" "tiled t (number k pairs) = tiled t pairs"
  by (induction pairs arbitrary: k t) simp_all

lemma number_ball: "(\<And>pr e. Q (pr\<lparr>sp_blk0 := e\<rparr>) = Q pr) \<Longrightarrow> (\<forall>pr \<in> set (number k pairs). Q pr) = (\<forall>pr \<in> set pairs. Q pr)"
  by (induction pairs arbitrary: k) simp_all

lemma number_members: "members (number k pairs) = members pairs"
  unfolding members_def by (rule arg_cong [of _ _ concat], rule number_map) simp

lemma number_states: "all_states A (number k pairs) = all_states A pairs"
  unfolding all_states_def by (rule arg_cong [of _ _ concat], rule number_map) simp

lemma number_red: "red_of (number k pairs) = red_of pairs" "kept (number k pairs) = kept pairs"
  by (simp_all add: fun_eq_iff red_of_def kept_def number_members)

lemma number_blocks_same: "blocks A (number k pairs) = blocks A pairs"
proof -
  have "red_states A (number k pairs) = red_states A pairs" by (simp add: fun_eq_iff red_states_def number_red)
  moreover have "map (\<lambda>pr. tri (red_states A pairs pr)) (number k pairs) = map (\<lambda>pr. tri (red_states A pairs pr)) pairs"
    by (rule number_map) (simp add: red_states_def)
  ultimately show ?thesis by (simp add: blocks_def)
qed

lemma number_pairs_ok: "pairs_ok A (number k pairs) = pairs_ok A pairs"
proof -
  have "(\<forall>pr \<in> set (number k pairs). is_pair A pr) = (\<forall>pr \<in> set pairs. is_pair A pr)" by (rule number_ball) (simp add: is_pair_def)
  then show ?thesis by (simp add: pairs_ok_def number_members number_states number_tiled)
qed

section \<open>The promise\<close>

text \<open>The search without its early exits.\<close>

definition slack_search :: "'v csc \<Rightarrow> slack_pair list option" where
  "slack_search A = do {
     (deg, diag) \<leftarrow> slack_degrees A;
     (aptr, anb, aslot) \<leftarrow> slack_adjacency A deg;
     (role, pairs, b_slot, b_row) \<leftarrow> find_pairs A deg diag aptr anb aslot;
     Some pairs
   }"

definition slack_wanted :: "'v csc \<Rightarrow> slack_control \<Rightarrow> slack_pair list \<Rightarrow> bool" where
  "slack_wanted A ctrl pairs \<longleftrightarrow> sl_mode ctrl \<noteq> SlackOff \<and> sl_matrix_type ctrl = RealSymmetricIndefinite \<and> pairs \<noteq> []
     \<and> (sl_mode ctrl = SlackAuto \<longrightarrow> sl_min_share ctrl \<le> 2 * of_int (int (length pairs)) / of_int (csc_n A))"

definition slack_layout_ok :: "'v csc \<Rightarrow> slack_plan \<Rightarrow> unit csc \<Rightarrow> bool" where
  "slack_layout_ok A plan R \<longleftrightarrow> (let pairs = pl_pairs plan; K = kept pairs (csc_n A); out = (\<lambda>v. v \<in> set (members pairs)) in
     pl_n_full plan = csc_n A \<and> pl_nr plan = int (length K) \<and> pl_red_to_full plan = K \<and> pairs_ok A pairs \<and> blk_tiled 0 pairs
     \<and> pl_b_slot plan = map snd (all_states A pairs) \<and> pl_b_row plan = map (\<lambda>e. red_of pairs (fst e)) (all_states A pairs)
     \<and> list_all2 (\<lambda>v d. if d < 0 then \<nexists>p. is_slot A v v p else is_slot A v v d) K (pl_sdiag plan)
     \<and> csc_clean R \<and> csc_n R = pl_nr plan \<and> pl_reduced_nnz plan = int (length (row_idx R))
     \<and> list_all2 (\<lambda>p d. \<exists>i j. is_slot A i j p \<and> \<not> out i \<and> \<not> out j \<and> is_slot R (red_of pairs i) (red_of pairs j) d) (pl_keep_src plan) (pl_keep_dst plan)
     \<and> (\<forall>i j p. is_slot A i j p \<and> \<not> out i \<and> \<not> out j \<longrightarrow> p \<in> set (pl_keep_src plan))
     \<and> list_all2 (\<lambda>x d. is_slot R (snd x) (fst x) d) (blocks A pairs) (pl_blk plan)
     \<and> (\<forall>r c d. is_slot R r c d \<longrightarrow> d \<in> set (pl_keep_dst plan) \<or> d \<in> set (pl_blk plan)))"

section \<open>The early exits\<close>

lemma short_columns_eq:
  assumes "csc_ptr_ok A"
  shows "short_columns A = Some (int (length (filter (\<lambda>j. elt (col_ptr A) (j + 1) - elt (col_ptr A) j \<le> 2) [0..csc_n A - 1])))"
proof -
  have "forM xs (\<lambda>j c. do {
     hi \<leftarrow> vget (col_ptr A) (j + 1);
     lo \<leftarrow> vget (col_ptr A) j;
     Some (c + (if hi - lo \<le> 2 then 1 else 0))
   }) c = Some (c + int (length (filter (\<lambda>j. elt (col_ptr A) (j + 1) - elt (col_ptr A) j \<le> 2) xs)))"
    if "\<forall>x \<in> set xs. 0 \<le> x \<and> x < csc_n A" for xs c
    using that by (induction xs arbitrary: c) (auto simp: vget_at csc_len_ptr [OF assms])
  then show ?thesis by (simp add: short_columns_def for_range_def)
qed

lemma slack_candidates_eq:
  assumes "int (length deg) = n" "int (length diag) = n"
  shows "slack_candidates n deg diag = Some (int (length (filter (\<lambda>i. elt deg i = 1 \<and> 0 \<le> elt diag i) [0..n - 1])))"
proof -
  have "forM xs (\<lambda>i c. do {
     d \<leftarrow> vget deg i;
     g \<leftarrow> vget diag i;
     Some (c + (if d = 1 \<and> g \<ge> 0 then 1 else 0))
   }) c = Some (c + int (length (filter (\<lambda>i. elt deg i = 1 \<and> 0 \<le> elt diag i) xs)))"
    if "\<forall>x \<in> set xs. 0 \<le> x \<and> x < n" for xs c
    using that assms by (induction xs arbitrary: c) (auto simp: vget_at)
  then show ?thesis by (simp add: slack_candidates_def for_range_def)
qed

text \<open>A vertex of degree one has at most two entries in its column.\<close>

lemma degree_column:
  assumes A: "csc_clean A" and v: "0 \<le> v" "v < csc_n A" "length (adj A v) \<le> 1"
  shows "elt (col_ptr A) (v + 1) - elt (col_ptr A) v \<le> 2"
proof (rule ccontr)
  let ?lo = "elt (col_ptr A) v"
  assume "\<not> elt (col_ptr A) (v + 1) - ?lo \<le> 2"
  then have s: "is_slot A (elt (row_idx A) p) v p" if "p \<in> {?lo, ?lo + 1, ?lo + 2}" for p using v that by (auto simp: is_slot_def)
  have ne: "elt (row_idx A) p \<noteq> elt (row_idx A) q" if "p \<in> {?lo, ?lo + 1, ?lo + 2}" "q \<in> {?lo, ?lo + 1, ?lo + 2}" "p \<noteq> q" for p q
    using slot_unique [OF A s [OF that(1)], of q] s [OF that(2)] that(3) by auto
  have mem: "(elt (row_idx A) p, p) \<in> set (adj A v)" if "p \<in> {?lo, ?lo + 1, ?lo + 2}" "elt (row_idx A) p \<noteq> v" for p
    using adj_mem [OF A, of "elt (row_idx A) p" p v] s [OF that(1)] slot_rows(1) [OF A s [OF that(1)]] that(2) by (simp add: max_def min_def)
  obtain p q where pq: "p \<in> {?lo, ?lo + 1, ?lo + 2}" "q \<in> {?lo, ?lo + 1, ?lo + 2}" "p \<noteq> q" "elt (row_idx A) p \<noteq> v" "elt (row_idx A) q \<noteq> v"
  proof (cases "elt (row_idx A) ?lo = v")
    case True
    then show ?thesis using that [of "?lo + 1" "?lo + 2"] ne [of ?lo "?lo + 1"] ne [of ?lo "?lo + 2"] by auto
  next
    case False
    then show ?thesis using that [of ?lo "?lo + 1"] that [of ?lo "?lo + 2"] ne [of "?lo + 1" "?lo + 2"] by (cases "elt (row_idx A) (?lo + 1) = v") auto
  qed
  have "{(elt (row_idx A) p, p), (elt (row_idx A) q, q)} \<subseteq> set (adj A v)" using mem [OF pq(1,4)] mem [OF pq(2,5)] by simp
  then have "card {(elt (row_idx A) p, p), (elt (row_idx A) q, q)} \<le> card (set (adj A v))" by (rule card_mono [OF finite_set])
  also have "\<dots> \<le> length (adj A v)" by (rule card_length)
  finally have "card {(elt (row_idx A) p, p), (elt (row_idx A) q, q)} \<le> length (adj A v)" .
  then show False using v(3) pq(3) by simp
qed

text \<open>The pairs are at most the candidates, and these at most the short columns.\<close>

lemma filter_count_mono: "(\<And>x. x \<in> set xs \<Longrightarrow> P x \<Longrightarrow> Q x) \<Longrightarrow> length (filter P xs) \<le> length (filter Q xs)"
  by (induction xs) auto

lemma slack_counts:
  assumes A: "csc_clean A" and D: "int (length deg) = csc_n A" "\<And>v. 0 \<le> v \<Longrightarrow> v < csc_n A \<Longrightarrow> elt deg v = int (length (adj A v)) \<and> diag_ok A diag v"
  shows "length (filter (\<lambda>i. elt deg i = 1 \<and> 0 \<le> elt diag i) [0..csc_n A - 1])
      \<le> length (filter (\<lambda>j. elt (col_ptr A) (j + 1) - elt (col_ptr A) j \<le> 2) [0..csc_n A - 1])"
    "pairs_ok A pairs \<Longrightarrow> length pairs \<le> length (filter (\<lambda>i. elt deg i = 1 \<and> 0 \<le> elt diag i) [0..csc_n A - 1])"
proof -
  show "length (filter (\<lambda>i. elt deg i = 1 \<and> 0 \<le> elt diag i) [0..csc_n A - 1])
      \<le> length (filter (\<lambda>j. elt (col_ptr A) (j + 1) - elt (col_ptr A) j \<le> 2) [0..csc_n A - 1])"
    by (rule filter_count_mono) (use D(2) degree_column [OF A] in auto)
  assume P: "pairs_ok A pairs"
  have "distinct (map sp_s pairs)"
  proof -
    have "distinct (members pairs)" using P unfolding pairs_ok_def by blast
    then show ?thesis unfolding members_def by (induction pairs) auto
  qed
  then have "length pairs = card (sp_s ` set pairs)" using distinct_card [of "map sp_s pairs"] by simp
  also have "\<dots> \<le> card (set (filter (\<lambda>i. elt deg i = 1 \<and> 0 \<le> elt diag i) [0..csc_n A - 1]))"
  proof (rule card_mono)
    show "sp_s ` set pairs \<subseteq> set (filter (\<lambda>i. elt deg i = 1 \<and> 0 \<le> elt diag i) [0..csc_n A - 1])"
    proof
      fix v assume "v \<in> sp_s ` set pairs"
      then obtain pr where pr: "pr \<in> set pairs" "v = sp_s pr" by auto
      have ip: "0 \<le> v" "v < csc_n A" "length (adj A v) = 1" "is_slot A v v (sp_ss pr)"
        using P pr unfolding pairs_ok_def is_pair_def by auto
      then have "elt diag v = sp_ss pr" "0 \<le> sp_ss pr" using D(2) [of v] slot_rows(3) [OF A ip(4)] unfolding diag_ok_def by auto
      then show "v \<in> set (filter (\<lambda>i. elt deg i = 1 \<and> 0 \<le> elt diag i) [0..csc_n A - 1])" using ip D(2) [of v] by simp
    qed
  qed (rule finite_set)
  also have "\<dots> \<le> length (filter (\<lambda>i. elt deg i = 1 \<and> 0 \<le> elt diag i) [0..csc_n A - 1])" by (rule card_length)
  finally show "length pairs \<le> length (filter (\<lambda>i. elt deg i = 1 \<and> 0 \<le> elt diag i) [0..csc_n A - 1])" .
qed

section \<open>The size of the reduced matrix\<close>

lemma triangle_next: "0 \<le> a \<Longrightarrow> (a + 1) * (a + 2) div 2 = a * (a + 1) div 2 + (a + 1)" for a :: int
proof -
  have "(a + 1) * (a + 2) = a * (a + 1) + (a + 1) * 2" by (simp add: algebra_simps)
  then show ?thesis by simp
qed

lemma tri_rows_length:
  assumes "0 \<le> a"
  shows "int (length (concat (map (\<lambda>a. map (f a) [0..a]) [0..a - 1]))) = a * (a + 1) div 2"
  using assms
proof (induction a rule: int_ge_induct)
  case (step a)
  have "[0..a + 1 - 1] = [0..a - 1] @ [a]" using step(1) by (simp add: upto_rec2)
  moreover have t: "(a + 1) * (a + 1 + 1) div 2 = a * (a + 1) div 2 + (a + 1)" using triangle_next [OF step(1)] by (simp add: add.assoc)
  ultimately show ?case using step(1,2) unfolding t by simp
qed simp

lemma tri_length: "int (length (tri R)) = int (length R) * (int (length R) + 1) div 2"
  unfolding tri_def by (rule tri_rows_length) simp

lemma tri_small:
  assumes "length R \<le> 8"
  shows "length (tri R) \<le> 36"
proof -
  have "int (length R) * (int (length R) + 1) \<le> 8 * 9" by (intro mult_mono) (use assms in simp_all)
  then show ?thesis using tri_length [of R] by linarith
qed

lemma blocks_length:
  assumes "\<forall>pr \<in> set pairs. is_pair A pr"
  shows "length (blocks A pairs) \<le> 36 * length pairs"
proof -
  have t: "length (tri (red_states A pairs pr)) \<le> 36" if "pr \<in> set pairs" for pr
    by (rule tri_small) (use assms that in \<open>auto simp: is_pair_def red_states_def\<close>)
  have "sum_list (map (\<lambda>pr. length (tri (red_states A pairs pr))) ps) \<le> 36 * length ps" if "set ps \<subseteq> set pairs" for ps
    using that by (induction ps) (use t in force)+
  from this [of pairs] show ?thesis by (simp add: blocks_def length_concat comp_def)
qed

lemma red_col_length:
  "length (red_col A pairs k) \<le> length (filter (\<lambda>x. fst x = k) (blocks A pairs)) + length (kept_slots A pairs (elt (kept pairs (csc_n A)) k))"
proof -
  let ?B = "filter (\<lambda>x. fst x = k) (blocks A pairs)" and ?S = "kept_slots A pairs (elt (kept pairs (csc_n A)) k)"
  have "snd ` {x \<in> set (blocks A pairs). fst x = k} \<union> red_of pairs ` elt (row_idx A) ` set ?S
      = set (map snd ?B @ map (red_of pairs) (map (elt (row_idx A)) ?S))" by auto
  then have "length (red_col A pairs k) = card (set (map snd ?B @ map (red_of pairs) (map (elt (row_idx A)) ?S)))"
    unfolding red_col_def by (simp only: length_sorted_list_of_set)
  also have "\<dots> \<le> length (map snd ?B @ map (red_of pairs) (map (elt (row_idx A)) ?S))" by (rule card_length)
  finally show ?thesis by simp
qed

lemma red_off_bound:
  assumes A: "csc_ptr_ok A" and j: "0 \<le> j" "j \<le> csc_n A"
  shows "red_off A pairs (int (length (kept pairs j))) \<le> int (length (filter (\<lambda>x. fst x < int (length (kept pairs j))) (blocks A pairs))) + elt (col_ptr A) j"
  using j
proof (induction j rule: int_ge_induct)
  case base
  then show ?case using A by (simp add: kept_def csc_ptr_ok_def)
next
  case (step j)
  have up: "elt (col_ptr A) j \<le> elt (col_ptr A) (j + 1)" using csc_ptr_mono [OF A, of j "j + 1"] step by simp
  show ?case
  proof (cases "j \<in> set (members pairs)")
    case True
    then show ?thesis using step up kept_next [of j pairs] by simp
  next
    case False
    let ?k = "int (length (kept pairs j))" and ?B = "blocks A pairs"
    have k: "int (length (kept pairs (j + 1))) = ?k + 1" using kept_next [of j pairs] step False by simp
    have "?k = red_of pairs j" using False by (simp add: red_of_def)
    then have e: "elt (kept pairs (csc_n A)) ?k = j" using red_of_bounds(3) [of j "csc_n A" pairs] step False by simp
    have f: "length (filter (\<lambda>x. fst x < ?k + 1) B) = length (filter (\<lambda>x. fst x < ?k) B) + length (filter (\<lambda>x. fst x = ?k) B)"
      for B :: "(int \<times> int) list" by (induction B) auto
    have "int (length (kept_slots A pairs j)) \<le> int (length (col_slots A j))" unfolding kept_slots_def by simp
    also have "\<dots> = elt (col_ptr A) (j + 1) - elt (col_ptr A) j" using up by (simp add: col_slots_def)
    finally have "int (length (red_col A pairs ?k)) \<le> int (length (filter (\<lambda>x. fst x = ?k) ?B)) + (elt (col_ptr A) (j + 1) - elt (col_ptr A) j)"
      using red_col_length [of A pairs ?k] unfolding e by linarith
    then show ?thesis unfolding k f using step red_off_next [of ?k A pairs] by simp
  qed
qed

lemma reduced_size:
  assumes "csc_ptr_ok A" "\<forall>pr \<in> set pairs. is_pair A pr"
  shows "int (length (red_rows A pairs (int (length (kept pairs (csc_n A)))))) \<le> int (length (row_idx A)) + 36 * int (length pairs)"
proof -
  let ?m = "int (length (kept pairs (csc_n A)))"
  have "length (filter (\<lambda>x. fst x < ?m) (blocks A pairs)) \<le> length (blocks A pairs)" by simp
  then have "int (length (filter (\<lambda>x. fst x < ?m) (blocks A pairs))) \<le> 36 * int (length pairs)" using blocks_length [OF assms(2)] by linarith
  moreover have "red_off A pairs ?m \<le> int (length (filter (\<lambda>x. fst x < ?m) (blocks A pairs))) + elt (col_ptr A) (csc_n A)"
    by (rule red_off_bound [OF assms(1) _ order_refl]) (use assms(1) in \<open>simp add: csc_ptr_ok_def\<close>)
  moreover have "elt (col_ptr A) (csc_n A) = int (length (row_idx A))" using assms(1) by (simp add: csc_ptr_ok_def)
  ultimately show ?thesis by (simp add: red_rows_length)
qed

section \<open>The layout\<close>

lemma layout_result:
  assumes A: "csc_clean A" and P: "pairs_ok A pairs" and d: "int (length diag) = csc_n A" "\<And>v. 0 \<le> v \<Longrightarrow> v < csc_n A \<Longrightarrow> diag_ok A diag v"
    and I: "layout_inv A pairs (int (length (kept pairs (csc_n A)))) (cptr, rows, ks, kd, bslot)"
    and small: "int (length rows) < 2 ^ 31"
  shows "slack_layout_ok A \<lparr>pl_n_full = csc_n A, pl_nr = int (length (kept pairs (csc_n A))), pl_red_to_full = kept pairs (csc_n A),
      pl_pairs = number_blocks pairs, pl_b_slot = map snd (all_states A pairs), pl_b_row = map (\<lambda>e. red_of pairs (fst e)) (all_states A pairs),
      pl_sdiag = map (elt diag) (kept pairs (csc_n A)), pl_blk = bslot, pl_keep_src = ks, pl_keep_dst = kd, pl_reduced_nnz = int (length rows)\<rparr>
    (pattern (int (length (kept pairs (csc_n A)))) cptr rows)"
proof -
  let ?K = "kept pairs (csc_n A)" and ?out = "\<lambda>v. v \<in> set (members pairs)"
  define m where "m = int (length ?K)"
  have L: "int (length cptr) = m + 1" "\<And>k. 0 \<le> k \<Longrightarrow> k \<le> m \<Longrightarrow> elt cptr k = narrow32 (red_off A pairs k)" "rows = red_rows A pairs m"
    "ks = concat (map (\<lambda>k. kept_slots A pairs (elt ?K k)) [0..m - 1])" "length bslot = length (blocks A pairs)"
    and D: "list_all2 (\<lambda>p d. \<exists>k. 0 \<le> k \<and> k < m \<and> p \<in> set (kept_slots A pairs (elt ?K k)) \<and> red_slot A pairs (red_of pairs (elt (row_idx A) p)) k d) ks kd"
    and B: "\<And>e. 0 \<le> e \<Longrightarrow> e < int (length (blocks A pairs)) \<Longrightarrow> fst (elt (blocks A pairs) e) < m
      \<Longrightarrow> red_slot A pairs (snd (elt (blocks A pairs) e)) (fst (elt (blocks A pairs) e)) (elt bslot e)"
    using I unfolding m_def [symmetric] layout_inv_def prod.case by blast+
  have ptrs: "elt cptr k = red_off A pairs k" if k: "0 \<le> k" "k \<le> m" for k
  proof -
    have "0 \<le> red_off A pairs k" by (simp add: red_off_def)
    moreover have "red_off A pairs k < 2 ^ 31" using red_off_mono [OF k, of A pairs] small by (simp add: L(3) red_rows_length)
    ultimately show ?thesis unfolding L(2) [OF k] by (rule narrow32_small)
  qed
  let ?R = "pattern m cptr rows"
  have R: "csc_clean ?R" "\<And>k r d. 0 \<le> k \<Longrightarrow> k < m \<Longrightarrow> is_slot ?R r k d \<longleftrightarrow> red_slot A pairs r k d"
    unfolding L(3) using reduced_pattern_clean [OF A P m_def L(1) ptrs] by blast+
  have k: "red_of pairs (elt ?K k) = k" "0 \<le> elt ?K k" "elt ?K k < csc_n A" "\<not> ?out (elt ?K k)" if "0 \<le> k" "k < m" for k
    using red_of_kept [of k pairs "csc_n A"] that by (simp_all add: m_def)
  have slot: "is_slot A (elt (row_idx A) p) (elt ?K k) p \<and> \<not> ?out (elt (row_idx A) p)" if "0 \<le> k" "k < m" "p \<in> set (kept_slots A pairs (elt ?K k))" for k p
    using that(3) is_slot_mem [OF k(2,3) [OF that(1,2)], of "elt (row_idx A) p" p] by (simp add: kept_slots_def)
  have keep: "list_all2 (\<lambda>p d. \<exists>i j. is_slot A i j p \<and> \<not> ?out i \<and> \<not> ?out j \<and> is_slot ?R (red_of pairs i) (red_of pairs j) d) ks kd"
    by (rule list_all2_weaken [OF D]) (use slot k R(2) in metis)
  have mem: "p \<in> set ks" if s: "is_slot A i j p" "\<not> ?out i" "\<not> ?out j" for i j p
  proof -
    note r = slot_rows [OF A s(1)]
    note b = red_of_bounds [OF r(5,6) s(3), folded m_def]
    have "p \<in> set (kept_slots A pairs (elt ?K (red_of pairs j)))"
      unfolding b(3) kept_slots_def using s is_slot_mem [OF r(5,6), of i p] by simp
    then show ?thesis unfolding L(4) using b(1,2) by auto
  qed
  have blk: "list_all2 (\<lambda>x d. is_slot ?R (snd x) (fst x) d) (blocks A pairs) bslot"
    unfolding list_all2_conv_all_nth
  proof (intro conjI allI impI)
    show "length (blocks A pairs) = length bslot" using L(5) by simp
    fix e assume e: "e < length (blocks A pairs)"
    note r = blocks_range [OF A P nth_mem [OF e], folded m_def]
    have "red_slot A pairs (snd (blocks A pairs ! e)) (fst (blocks A pairs ! e)) (bslot ! e)" using B [of "int e"] e r by (simp add: elt_def)
    then show "is_slot ?R (snd (blocks A pairs ! e)) (fst (blocks A pairs ! e)) (bslot ! e)" using R(2) r by blast
  qed
  have sub: "d \<in> set kd \<or> d \<in> set bslot" if s: "is_slot ?R r c d" for r c d
  proof -
    have c: "0 \<le> c" "c < m" using s by (simp_all add: is_slot_def)
    have rs: "red_slot A pairs r c d" using s R(2) [OF c] by blast
    then have i: "0 \<le> d - red_off A pairs c" "d - red_off A pairs c < int (length (red_col A pairs c))" "elt (red_col A pairs c) (d - red_off A pairs c) = r"
      using red_off_next [OF c(1), of A pairs] by (auto simp: red_slot_def)
    have "r \<in> snd ` {x \<in> set (blocks A pairs). fst x = c} \<or> r \<in> red_of pairs ` elt (row_idx A) ` set (kept_slots A pairs (elt ?K c))"
      using elt_in_set [OF i(1,2)] i(3) by (simp add: red_col_def)
    then show ?thesis
    proof
      assume "r \<in> snd ` {x \<in> set (blocks A pairs). fst x = c}"
      then have "(c, r) \<in> set (blocks A pairs)" by auto
      then obtain e where e: "e < length (blocks A pairs)" "blocks A pairs ! e = (c, r)" by (auto simp: in_set_conv_nth)
      have "is_slot ?R r c (bslot ! e)" using blk e unfolding list_all2_conv_all_nth by force
      then have "d = bslot ! e" using slot_unique [OF R(1) s] by simp
      then show ?thesis using e(1) L(5) by simp
    next
      assume "r \<in> red_of pairs ` elt (row_idx A) ` set (kept_slots A pairs (elt ?K c))"
      then obtain p where p: "p \<in> set (kept_slots A pairs (elt ?K c))" "r = red_of pairs (elt (row_idx A) p)" by auto
      have "p \<in> set ks" unfolding L(4) using p(1) c by auto
      then obtain t where t: "t < length ks" "ks ! t = p" by (auto simp: in_set_conv_nth)
      obtain i j where ij: "is_slot A i j p" "is_slot ?R (red_of pairs i) (red_of pairs j) (kd ! t)"
        using keep t unfolding list_all2_conv_all_nth by blast
      note sl = slot [OF c p(1)]
      have "j = elt ?K c" "i = elt (row_idx A) p" using slot_column [OF csc_cleanD(1) [OF A] ij(1) sl [THEN conjunct1]] by simp_all
      then have "is_slot ?R r c (kd ! t)" using ij(2) p(2) k(1) [OF c] by simp
      then have "d = kd ! t" using slot_unique [OF R(1) s] by simp
      then show ?thesis using t(1) list_all2_lengthD [OF keep] by simp
    qed
  qed
  have dg: "list_all2 (\<lambda>v d. if d < 0 then \<nexists>p. is_slot A v v p else is_slot A v v d) ?K (map (elt diag) ?K)"
    unfolding list_all2_conv_all_nth
  proof (intro conjI allI impI)
    fix t assume t: "t < length ?K"
    have v: "0 \<le> ?K ! t" "?K ! t < csc_n A" using nth_mem [OF t] by (simp_all add: kept_mem)
    note ok = d(2) [OF v, unfolded diag_ok_def]
    have "if elt diag (?K ! t) < 0 then \<nexists>p. is_slot A (?K ! t) (?K ! t) p else is_slot A (?K ! t) (?K ! t) (elt diag (?K ! t))"
    proof (cases "\<exists>p. is_slot A (?K ! t) (?K ! t) p")
      case True
      then obtain p where p: "is_slot A (?K ! t) (?K ! t) p" by blast
      then have "elt diag (?K ! t) = p" "0 \<le> p" using ok slot_rows(3) [OF A p] by blast+
      then show ?thesis using p by simp
    next
      case False
      then show ?thesis using ok by simp
    qed
    then show "if map (elt diag) ?K ! t < 0 then \<nexists>p. is_slot A (?K ! t) (?K ! t) p else is_slot A (?K ! t) (?K ! t) (map (elt diag) ?K ! t)" using t by simp
  qed simp
  have all: "\<forall>i j p. is_slot A i j p \<and> \<not> ?out i \<and> \<not> ?out j \<longrightarrow> p \<in> set ks" "\<forall>r c d. is_slot ?R r c d \<longrightarrow> d \<in> set kd \<or> d \<in> set bslot"
    using mem sub by blast+
  show ?thesis
    unfolding slack_layout_ok_def Let_def slack_plan.simps number_blocks_eq number_members number_red number_states number_blocks_same number_pairs_ok m_def [symmetric]
    using P number_tiled(1) [of 0 pairs] dg R(1) keep blk all by simp
qed

lemma too_few_pairs:
  assumes "0 < csc_n A" "length pairs \<le> c" "too_few (int c) (if sl_mode ctrl = SlackAuto then sl_min_share ctrl else 0) (csc_n A)"
  shows "\<not> slack_wanted A ctrl pairs"
proof
  assume W: "slack_wanted A ctrl pairs"
  have "pairs \<noteq> []" using W by (simp add: slack_wanted_def)
  then have c: "c \<noteq> 0" using assms(2) by (cases pairs) auto
  have n: "(0 :: rat) < of_int (csc_n A)" using assms(1) by simp
  show False
  proof (cases "sl_mode ctrl = SlackAuto")
    case True
    have "sl_min_share ctrl \<le> 2 * of_int (int (length pairs)) / of_int (csc_n A)" using W True by (simp add: slack_wanted_def)
    then have "sl_min_share ctrl * of_int (csc_n A) \<le> 2 * of_int (int (length pairs))" using n by (simp add: pos_le_divide_eq)
    also have "\<dots> \<le> 2 * of_int (int c)" using assms(2) by simp
    finally show False using assms(3) True c by (simp add: too_few_def)
  next
    case False
    then show False using assms(3) c by (simp add: too_few_def)
  qed
qed

lemma slack_layout_main:
  assumes A: "csc_clean A" and n: "csc_n A < 2 ^ 31"
  shows "\<exists>pairs r. slack_search A = Some pairs \<and> build_slack_layout A ctrl = Some r
    \<and> (case r of None \<Rightarrow> \<not> slack_wanted A ctrl pairs
       | Some (plan, cptr, rows) \<Rightarrow> slack_wanted A ctrl pairs \<and> pl_pairs plan = number_blocks pairs
           \<and> pl_reduced_nnz plan = int (length rows) \<and> pl_reduced_nnz plan \<le> int (length (row_idx A)) + 36 * int (length pairs)
           \<and> (pl_reduced_nnz plan < 2 ^ 31 \<longrightarrow> slack_layout_ok A plan (pattern (pl_nr plan) cptr rows)))"
proof -
  let ?n = "csc_n A"
  define need where "need = (if sl_mode ctrl = SlackAuto then sl_min_share ctrl else 0)"
  let ?short = "length (filter (\<lambda>j. elt (col_ptr A) (j + 1) - elt (col_ptr A) j \<le> 2) [0..?n - 1])"
  obtain deg diag where d: "slack_degrees A = Some (deg, diag)" using ok_ex [OF slack_degrees_ok [OF A]] by auto
  obtain aptr anb aslot where g: "slack_adjacency A deg = Some (aptr, anb, aslot)" "graph_arrays A deg diag aptr anb aslot"
    using ok_ex [OF slack_graph_ok [OF A d]] by auto
  obtain role pairs b_slot b_row where f: "find_pairs A deg diag aptr anb aslot = Some (role, pairs, b_slot, b_row)" "find_inv A (role, pairs, b_slot, b_row)"
    using ok_ex [OF find_pairs_ok [OF A g(2)]] by auto
  have G: "int (length deg) = ?n" "int (length diag) = ?n" "\<And>v. 0 \<le> v \<Longrightarrow> v < ?n \<Longrightarrow> elt deg v = int (length (adj A v)) \<and> diag_ok A diag v"
    using g(2) unfolding graph_arrays_def by blast+
  have F: "int (length role) = ?n" "\<And>v. 0 \<le> v \<Longrightarrow> v < ?n \<Longrightarrow> elt role v = role_of A pairs v" "pairs_ok A pairs"
    "b_slot = map snd (all_states A pairs)" "b_row = map fst (all_states A pairs)"
    using f(2) unfolding find_inv_def prod.case by blast+
  let ?cand = "length (filter (\<lambda>i. elt deg i = 1 \<and> 0 \<le> elt diag i) [0..?n - 1])"
  note cnt = slack_counts(1) [OF A G(1,3)] slack_counts(2) [OF A G(1,3) F(3)]
  have search: "slack_search A = Some pairs" by (simp add: slack_search_def d g(1) f(1))
  show ?thesis
  proof (cases "sl_mode ctrl = SlackOff \<or> sl_matrix_type ctrl \<noteq> RealSymmetricIndefinite \<or> ?n \<le> 0")
    case True
    have "pairs = []" if "?n \<le> 0"
    proof (rule ccontr)
      assume "pairs \<noteq> []"
      then have "is_pair A (hd pairs)" using F(3) by (simp add: pairs_ok_def)
      then show False using that by (simp add: is_pair_def)
    qed
    then have "\<not> slack_wanted A ctrl pairs" using True by (auto simp: slack_wanted_def)
    then show ?thesis using search True by (intro exI [of _ pairs] exI [of _ None]) (simp add: build_slack_layout_def)
  next
    case on: False
    then have n0: "0 < ?n" by simp
    show ?thesis
    proof (cases "too_few (int ?short) need ?n \<or> too_few (int ?cand) need ?n")
      case True
      then have "\<not> slack_wanted A ctrl pairs" using too_few_pairs [OF n0 cnt(2), of ctrl] too_few_pairs [OF n0 le_trans [OF cnt(2) cnt(1)], of ctrl] unfolding need_def by blast
      moreover have "build_slack_layout A ctrl = Some None"
        unfolding build_slack_layout_def Let_def short_columns_eq [OF csc_cleanD(1) [OF A]] d slack_candidates_eq [OF G(1,2)] bind.simps prod.case
          if_not_P [OF on] need_def [symmetric] using True by (elim disjE) simp_all
      ultimately show ?thesis using search by (intro exI [of _ pairs] exI [of _ None]) simp
    next
      case few: False
      have head: "build_slack_layout A ctrl = (if pairs = [] \<or> (sl_mode ctrl = SlackAuto \<and> 2 * of_int (int (length pairs)) / of_int ?n < sl_min_share ctrl) then Some None
          else do {
            (red, nr, red_to_full) \<leftarrow> reduced_numbering ?n role;
            b_row \<leftarrow> map_rows red b_row;
            sdiag \<leftarrow> state_diagonals nr red_to_full diag;
            (bcol, brow, bcnt) \<leftarrow> block_entries pairs b_row nr;
            (bcnt, border) \<leftarrow> bucket_blocks nr bcol bcnt;
            (cptr, rows, keep_src, keep_dst, bslot) \<leftarrow> for_range 0 ?n (reduced_column A red brow bcnt border)
              (replicate (nat (nr + 1)) 0, [], [], [], replicate (length bcol) 0);
            Some (Some (\<lparr>pl_n_full = ?n, pl_nr = nr, pl_red_to_full = red_to_full, pl_pairs = number_blocks pairs, pl_b_slot = b_slot,
              pl_b_row = b_row, pl_sdiag = sdiag, pl_blk = bslot, pl_keep_src = keep_src, pl_keep_dst = keep_dst,
              pl_reduced_nnz = int (length rows)\<rparr>, cptr, rows))
          })"
        unfolding build_slack_layout_def Let_def short_columns_eq [OF csc_cleanD(1) [OF A]] d slack_candidates_eq [OF G(1,2)] bind.simps prod.case g(1) f(1) if_not_P [OF on] need_def [symmetric]
        using few by simp
      show ?thesis
      proof (cases "slack_wanted A ctrl pairs")
        case False
        then have "build_slack_layout A ctrl = Some None" unfolding head using on by (auto simp: slack_wanted_def)
        then show ?thesis using search False by (intro exI [of _ pairs] exI [of _ None]) simp
      next
        case True
        then have go: "\<not> (pairs = [] \<or> (sl_mode ctrl = SlackAuto \<and> 2 * of_int (int (length pairs)) / of_int ?n < sl_min_share ctrl))"
          by (auto simp: slack_wanted_def)
        let ?K = "kept pairs ?n" and ?E = "blocks A pairs"
        define m where "m = int (length ?K)"
        have rl: "elt role v = 0 \<or> elt role v = 3 \<longleftrightarrow> v \<notin> set (members pairs)" if "0 \<le> v" "v < ?n" for v
          unfolding F(2) [OF that] by (auto simp: role_of_def set_members)
        obtain red where red: "reduced_numbering ?n role = Some (red, m, ?K)" "int (length red) = ?n" "\<And>v. 0 \<le> v \<Longrightarrow> v < ?n \<Longrightarrow> elt red v = red_of pairs v"
          using ok_ex [OF reduced_numbering_ok [OF csc_cleanD(2) [OF A] F(1) rl]] by (auto simp: m_def)
        have st: "0 \<le> fst e \<and> fst e < ?n" if e: "e \<in> set (all_states A pairs)" for e
        proof -
          obtain pr where "pr \<in> set pairs" "e \<in> set (states A (sp_s pr) (sp_y pr))" using e by (auto simp: all_states_def)
          then show ?thesis using state_row(1,2) [OF A F(3)] by blast
        qed
        have rows: "map_rows red b_row = Some (map (\<lambda>e. red_of pairs (fst e)) (all_states A pairs))"
        proof -
          have "map_rows red b_row = Some (map (elt red) b_row)" by (rule map_rows_ok) (use st red(2) in \<open>auto simp: F(5)\<close>)
          moreover have "map (elt red) b_row = map (\<lambda>e. red_of pairs (fst e)) (all_states A pairs)"
            unfolding F(5) map_map by (rule map_cong [OF HOL.refl]) (use st red(3) in simp)
          ultimately show ?thesis by simp
        qed
        have sd: "state_diagonals m ?K diag = Some (map (elt diag) ?K)"
          unfolding m_def by (rule state_diagonals_ok) (use G(2) in \<open>simp add: kept_mem\<close>)
        have E: "0 \<le> fst x \<and> fst x < m" if "x \<in> set ?E" for x using blocks_range(1,2) [OF A F(3) that] by (simp add: m_def)
        have m0: "0 \<le> m" by (simp add: m_def)
        obtain cn where be: "block_entries pairs (map (\<lambda>e. red_of pairs (fst e)) (all_states A pairs)) m = Some (map fst ?E, map snd ?E, cn)"
          "int (length cn) = m + 1" "elt cn 0 = 0" "\<And>j. 0 \<le> j \<Longrightarrow> j < m \<Longrightarrow> elt cn (j + 1) = bcount fst ?E j"
          using ok_ex [OF block_entries_ok [OF F(3) m0 E]] by auto
        obtain bp border where bb: "bucket_blocks m (map fst ?E) cn = Some (bp, border)" "int (length bp) = m + 1"
          "\<And>j. 0 \<le> j \<Longrightarrow> j \<le> m \<Longrightarrow> elt bp j = bptr (entry_col ?E) (entry_ids ?E) j" "border = concat (buckets (entry_col ?E) m (entry_ids ?E))"
          using ok_ex [OF bucket_blocks_ok [OF E m0 be(2-4)]] by auto
        have loop: "ok (for_range 0 ?n (reduced_column A red (map snd ?E) bp border) (replicate (nat (m + 1)) 0, [], [], [], replicate (length (map fst ?E)) 0))
            (layout_inv A pairs m)"
          unfolding m_def by (rule layout_loop_ok [OF A F(3) n red(2,3) bb(2-4) [unfolded m_def]])
        obtain cptr rs ks kd bs where lp: "for_range 0 ?n (reduced_column A red (map snd ?E) bp border)
            (replicate (nat (m + 1)) 0, [], [], [], replicate (length (map fst ?E)) 0) = Some (cptr, rs, ks, kd, bs)" "layout_inv A pairs m (cptr, rs, ks, kd, bs)"
          using ok_ex [OF loop] by auto
        have dg: "\<And>v. 0 \<le> v \<Longrightarrow> v < ?n \<Longrightarrow> diag_ok A diag v" using G(3) by blast
        note res = layout_result [OF A F(3) G(2) dg lp(2) [unfolded m_def], folded m_def]
        have run: "build_slack_layout A ctrl = Some (Some (\<lparr>pl_n_full = ?n, pl_nr = m, pl_red_to_full = ?K, pl_pairs = number_blocks pairs,
            pl_b_slot = map snd (all_states A pairs), pl_b_row = map (\<lambda>e. red_of pairs (fst e)) (all_states A pairs), pl_sdiag = map (elt diag) ?K,
            pl_blk = bs, pl_keep_src = ks, pl_keep_dst = kd, pl_reduced_nnz = int (length rs)\<rparr>, cptr, rs))"
          unfolding head if_not_P [OF go] red(1) bind.simps prod.case rows sd be(1) bb(1) lp(1) F(4) ..
        have "rs = red_rows A pairs m" using lp(2) unfolding layout_inv_def prod.case by blast
        moreover have "\<forall>pr \<in> set pairs. is_pair A pr" using F(3) unfolding pairs_ok_def by blast
        ultimately have size: "int (length rs) \<le> int (length (row_idx A)) + 36 * int (length pairs)"
          using reduced_size [OF csc_cleanD(1) [OF A], of pairs] by (simp add: m_def)
        show ?thesis by (rule exI, rule exI, rule conjI, rule search, rule conjI, rule run) (simp add: True res size)
      qed
    qed
  qed
qed

text \<open>C6: on a clean matrix \<open>build_slack_plan\<close> stays inside its vectors and returns no plan exactly when the full search does not
  find enough pairs, so its two early exits never turn down a matrix it would accept. The plan it returns is sound: the pairs are
  disjoint, each a vertex of degree one with a stored diagonal and its only neighbour, and the states of the pairs are in no pair; the
  reduced matrix is clean, so every analysis applies to it; the kept entries and the entries of the pairs' state blocks have the slots of
  their rows and columns, every entry between kept rows is copied, and every slot has a source. The column pointers are \<open>Int\<close>s and the sizes stored in
  them wrap from \<open>2^31\<close> reduced entries on: the layout is promised below that, and a matrix has at most its own entries and 36 for
  every pair.\<close>

theorem build_slack_layout_correct:
  assumes A: "csc_clean A" and n: "csc_n A < 2 ^ 31"
  shows "\<exists>pairs r. slack_search A = Some pairs \<and> build_slack_layout A ctrl = Some r
    \<and> (case r of None \<Rightarrow> \<not> slack_wanted A ctrl pairs
       | Some (plan, cptr, rows) \<Rightarrow> slack_wanted A ctrl pairs \<and> pl_pairs plan = number_blocks pairs
           \<and> pl_reduced_nnz plan = int (length rows) \<and> pl_reduced_nnz plan \<le> int (length (row_idx A)) + 36 * int (length pairs)
           \<and> (pl_reduced_nnz plan < 2 ^ 31 \<longrightarrow> slack_layout_ok A plan (pattern (pl_nr plan) cptr rows)))"
  by (rule slack_layout_main [OF A n])

text \<open>Two coupled variables, a constraint on both (row 2) and its slack (row 3).\<close>

definition slack_example :: "rat csc" where
  "slack_example = \<lparr>csc_n = 4, col_ptr = [0, 3, 5, 6, 7], row_idx = [0, 1, 2, 1, 2, 3, 3], vals = [4, 1, 3, 5, 7, -1, 2]\<rparr>"

lemma slack_example_clean: "csc_clean slack_example"
proof (rule csc_cleanI)
  show "csc_machine slack_example" by (simp add: slack_example_def csc_machine_def in_int32_def)
  show "clean_shape_ok slack_example = Some True" by code_simp
  show "map_option isl (fast_scan slack_example) = Some False" by code_simp
qed

definition slack_example_control :: slack_control where
  "slack_example_control = \<lparr>sl_mode = SlackOn, sl_matrix_type = RealSymmetricIndefinite, sl_min_share = 0, sl_update_limit = 0\<rparr>"

lemma slack_example_run:
  obtains plan where "build_slack_layout slack_example slack_example_control = Some (Some (plan, [0, 2, 3], [0, 1, 1]))"
    "pl_keep_src plan = [0, 1, 3]" "pl_blk plan = [0, 1, 2]"
proof -
  have "(case build_slack_layout slack_example slack_example_control of
      Some (Some (plan, cptr, rows)) \<Rightarrow> cptr = [0, 2, 3] \<and> rows = [0, 1, 1] \<and> pl_keep_src plan = [0, 1, 3] \<and> pl_blk plan = [0, 1, 2] | _ \<Rightarrow> False)"
    by code_simp
  then show thesis using that by (cases "build_slack_layout slack_example slack_example_control") (auto split: option.splits prod.splits)
qed

lemma slack_example_small: "csc_n slack_example < 2 ^ 31"
  by (simp add: slack_example_def)

theorem build_slack_layout_correct_witness:
  "csc_clean slack_example \<and> (\<exists>plan. build_slack_layout slack_example slack_example_control = Some (Some (plan, [0, 2, 3], [0, 1, 1]))
      \<and> pl_keep_src plan = [0, 1, 3] \<and> pl_blk plan = [0, 1, 2] \<and> slack_layout_ok slack_example plan (pattern (pl_nr plan) [0, 2, 3] [0, 1, 1]))"
proof -
  obtain plan where b: "build_slack_layout slack_example slack_example_control = Some (Some (plan, [0, 2, 3], [0, 1, 1]))"
    "pl_keep_src plan = [0, 1, 3]" "pl_blk plan = [0, 1, 2]" by (rule slack_example_run)
  have "slack_layout_ok slack_example plan (pattern (pl_nr plan) [0, 2, 3] [0, 1, 1])"
    using build_slack_layout_correct [OF slack_example_clean slack_example_small, of slack_example_control] unfolding b(1) by auto
  then show ?thesis using slack_example_clean b by blast
qed

end
