(* ===== verification/SlackPass.thy ===== *)
theory SlackPass
  imports SlackPlan DenseLdlt
begin

text \<open>
  \<open>slack_pair_pass\<close> of \<open>src/slack_elimination.cpp\<close>: every pair is eliminated as its 2x2 block, and its states receive the
  update of the Schur complement. Values are of an ordered field; \<open>None\<close> for the limit is no limit (infinity).
\<close>

section \<open>The code\<close>

record 'a slack_factor =
  sf_pinv :: "'a list"
  sf_bval :: "'a list"
  sf_acc :: "'a list"
  sf_fails :: int
  sf_max_growth :: 'a
  sf_max_slack :: 'a

definition resize :: "int \<Rightarrow> 'a::zero list \<Rightarrow> 'a list" where
  "resize n xs = take (nat n) xs @ replicate (nat n - length xs) 0"

definition keep_values :: "slack_plan \<Rightarrow> 'a::linordered_field list \<Rightarrow> 'a list option" where
  "keep_values plan cv = for_range 0 (int (length (pl_keep_src plan))) (\<lambda>t rv. do {
     p \<leftarrow> vget (pl_keep_src plan) t;
     v \<leftarrow> vget cv p;
     d \<leftarrow> vget (pl_keep_dst plan) t;
     vset rv d v
   }) (replicate (nat (pl_reduced_nnz plan)) 0)"

text \<open>The block normalized by its largest entry when that is near under- or overflow; the factor, the entries and the determinant.\<close>

definition pair_block :: "'a::linordered_field \<Rightarrow> 'a \<Rightarrow> 'a \<Rightarrow> 'a \<times> 'a \<times> 'a \<times> 'a \<times> 'a" where
  "pair_block ass ays ayy =
     (let amax = max (max \<bar>ass\<bar> \<bar>ays\<bar>) \<bar>ayy\<bar>;
          sc = (if amax > 1 / 10 ^ 150 \<and> amax < 10 ^ 150 then 1 else if amax > 0 then 1 / amax else 0);
          hs = ass * sc; hsy = ays * sc; hy = ayy * sc
      in (sc, hs, hsy, hy, hs * hy - hsy * hsy))"

definition pair_det_ok :: "'a::linordered_field \<Rightarrow> 'a \<Rightarrow> 'a \<Rightarrow> 'a \<Rightarrow> 'a \<Rightarrow> bool" where
  "pair_det_ok sc hs hsy hy hdet \<longleftrightarrow> sc > 0 \<and> \<bar>hdet\<bar> > 1000 * (1 / 2 ^ 52) * (\<bar>hs * hy\<bar> + hsy * hsy)"

definition load_states :: "slack_plan \<Rightarrow> 'a::linordered_field list \<Rightarrow> slack_pair \<Rightarrow> 'a list \<Rightarrow> 'a list option" where
  "load_states plan cv pr = for_range 0 (sp_nb pr) (\<lambda>t bval. do {
     slot \<leftarrow> vget (pl_b_slot plan) (sp_b0 pr + t);
     v \<leftarrow> vget cv slot;
     vset bval (sp_b0 pr + t) v
   })"

definition growth_ratio :: "slack_plan \<Rightarrow> 'a::linordered_field list \<Rightarrow> slack_pair \<Rightarrow> 'a \<Rightarrow> 'a list \<Rightarrow> 'a option" where
  "growth_ratio plan cv pr iyy bval = for_range 0 (sp_nb pr) (\<lambda>t ratio. do {
     r \<leftarrow> vget (pl_b_row plan) (sp_b0 pr + t);
     ds \<leftarrow> vget (pl_sdiag plan) r;
     d \<leftarrow> (if ds \<ge> 0 then map_option abs (vget cv ds) else Some 0);
     bv \<leftarrow> vget bval (sp_b0 pr + t);
     Some (if d > 0 then max ratio ((\<bar>iyy\<bar> * \<bar>bv\<bar>) * \<bar>bv\<bar> / d) else ratio)
   }) 0"

definition update_states :: "slack_plan \<Rightarrow> slack_pair \<Rightarrow> 'a::linordered_field \<Rightarrow> 'a list \<Rightarrow> 'a list \<times> 'a list \<Rightarrow> ('a list \<times> 'a list) option" where
  "update_states plan pr iyy bval = (\<lambda>(rv, acc). do {
     (rv, acc, t) \<leftarrow> for_range 0 (sp_nb pr) (\<lambda>a (rv, acc, t). do {
       x \<leftarrow> vget bval (sp_b0 pr + a);
       let ba = x * iyy;
       (rv, t) \<leftarrow> for_range 0 (a + 1) (\<lambda>c (rv, t). do {
         k \<leftarrow> vget (pl_blk plan) (sp_blk0 pr + t);
         old \<leftarrow> vget rv k;
         y \<leftarrow> vget bval (sp_b0 pr + c);
         rv \<leftarrow> vset rv k (old - ba * y);
         Some (rv, t + 1)
       }) (rv, t);
       r \<leftarrow> vget (pl_b_row plan) (sp_b0 pr + a);
       s \<leftarrow> vget acc r;
       acc \<leftarrow> vset acc r (s + \<bar>ba * x\<bar>);
       Some (rv, acc, t)
     }) (rv, acc, 0);
     Some (rv, acc)
   })"

definition pair_step :: "slack_plan \<Rightarrow> 'a::linordered_field list \<Rightarrow> 'a option \<Rightarrow> int
    \<Rightarrow> 'a list \<times> 'a slack_factor \<times> int \<times> int \<Rightarrow> ('a list \<times> 'a slack_factor \<times> int \<times> int) option" where
  "pair_step plan cv limit q = (\<lambda>(rv, sf, pos, neg). do {
     pr \<leftarrow> vget (pl_pairs plan) q;
     ass \<leftarrow> vget cv (sp_ss pr);
     ays \<leftarrow> vget cv (sp_ys pr);
     ayy \<leftarrow> (if sp_yy pr \<ge> 0 then vget cv (sp_yy pr) else Some 0);
     let (sc, hs, hsy, hy, hdet) = pair_block ass ays ayy;
     bval \<leftarrow> load_states plan cv pr (sf_bval sf);
     let sf = sf\<lparr>sf_bval := bval, sf_max_slack := max (sf_max_slack sf) \<bar>ass\<bar>\<rparr>;
     if \<not> pair_det_ok sc hs hsy hy hdet then Some (rv, sf\<lparr>sf_fails := sf_fails sf + 1\<rparr>, pos, neg)
     else do {
       let inv = sc / hdet;
       let iss = hy * inv;
       let isy = - hsy * inv;
       let iyy = hs * inv;
       ratio \<leftarrow> growth_ratio plan cv pr iyy bval;
       let sf = sf\<lparr>sf_max_growth := max (sf_max_growth sf) ratio\<rparr>;
       if \<not> (case limit of None \<Rightarrow> True | Some l \<Rightarrow> ratio \<le> l) then Some (rv, sf\<lparr>sf_fails := sf_fails sf + 1\<rparr>, pos, neg)
       else do {
         pinv \<leftarrow> vset (sf_pinv sf) (3 * q) iss;
         pinv \<leftarrow> vset pinv (3 * q + 1) isy;
         pinv \<leftarrow> vset pinv (3 * q + 2) iyy;
         let (pos, neg) = (if hdet < 0 then (pos + 1, neg + 1) else if ass + ayy > 0 then (pos + 2, neg) else (pos, neg + 2));
         (rv, acc) \<leftarrow> update_states plan pr iyy bval (rv, sf_acc sf);
         Some (rv, sf\<lparr>sf_pinv := pinv, sf_acc := acc\<rparr>, pos, neg)
       }
     }
   })"

definition slack_pair_pass :: "slack_plan \<Rightarrow> 'a::linordered_field list \<Rightarrow> 'a \<Rightarrow> 'a slack_factor \<Rightarrow> int \<Rightarrow> int
    \<Rightarrow> (bool \<times> 'a list \<times> 'a slack_factor \<times> int \<times> int) option" where
  "slack_pair_pass plan cv update_limit sf pos neg = do {
     rv \<leftarrow> keep_values plan cv;
     let np = int (length (pl_pairs plan));
     let sf = sf\<lparr>sf_fails := 0, sf_max_growth := 0, sf_max_slack := 0, sf_pinv := resize (3 * np) (sf_pinv sf),
       sf_bval := resize (int (length (pl_b_slot plan))) (sf_bval sf), sf_acc := replicate (nat (pl_nr plan)) 0\<rparr>;
     let limit = (if update_limit > 0 then Some update_limit else None);
     (rv, sf, pos, neg) \<leftarrow> for_range 0 np (pair_step plan cv limit) (rv, sf, pos, neg);
     Some (sf_fails sf = 0, rv, sf, pos, neg)
   }"

section \<open>The symmetric matrix and its Schur complement\<close>

definition sym_entry :: "'v csc \<Rightarrow> 'a::zero list \<Rightarrow> int \<Rightarrow> int \<Rightarrow> 'a" where
  "sym_entry A cv i j = (case filter (\<lambda>p. elt (row_idx A) p = max i j) (col_slots A (min i j)) of [] \<Rightarrow> 0 | p # ps \<Rightarrow> elt cv p)"

lemma sym_entry_sym: "sym_entry A cv i j = sym_entry A cv j i"
  by (simp add: sym_entry_def max.commute min.commute)

lemma sym_entry_slot:
  assumes A: "csc_clean A" and p: "is_slot A (max i j) (min i j) p"
  shows "sym_entry A cv i j = elt cv p"
proof -
  have j: "0 \<le> min i j" "min i j < csc_n A" using p by (auto simp: is_slot_def)
  have "p \<in> set (filter (\<lambda>p. elt (row_idx A) p = max i j) (col_slots A (min i j)))" using p is_slot_mem [OF j, of "max i j" p] by simp
  then obtain q qs where q: "filter (\<lambda>p. elt (row_idx A) p = max i j) (col_slots A (min i j)) = q # qs" by (cases "filter (\<lambda>p. elt (row_idx A) p = max i j) (col_slots A (min i j))") auto
  then have "q \<in> set (filter (\<lambda>p. elt (row_idx A) p = max i j) (col_slots A (min i j)))" by simp
  then have "is_slot A (max i j) (min i j) q" using is_slot_mem [OF j, of "max i j" q] by simp
  then have "q = p" using slot_unique [OF A p] by simp
  then show ?thesis unfolding sym_entry_def q by simp
qed

lemma sym_entry_none:
  assumes j: "0 \<le> min i j" "min i j < csc_n A" and p: "\<nexists>p. is_slot A (max i j) (min i j) p"
  shows "sym_entry A cv i j = 0"
proof -
  have "filter (\<lambda>p. elt (row_idx A) p = max i j) (col_slots A (min i j)) = []" using p is_slot_mem [OF j, of "max i j"] by (auto simp: filter_empty_conv)
  then show ?thesis by (simp add: sym_entry_def)
qed

section \<open>The slots of a state block\<close>

lemma elt_append: "0 \<le> i \<Longrightarrow> elt (xs @ ys) (int (length xs) + i) = elt ys i"
  by (simp add: elt_def nth_append nat_add_distrib)

lemma elt_append_left: "0 \<le> i \<Longrightarrow> i < int (length xs) \<Longrightarrow> elt (xs @ ys) i = elt xs i"
  by (auto simp: elt_def nth_append nat_less_iff)

lemma tri_elt:
  assumes "0 \<le> c" "c \<le> a" "a < int (length R)"
  shows "elt (tri R) (a * (a + 1) div 2 + c) = (min (elt R a) (elt R c), max (elt R a) (elt R c))"
    "0 \<le> a * (a + 1) div 2 + c" "a * (a + 1) div 2 + c < int (length (tri R))"
proof -
  let ?row = "\<lambda>a. map (\<lambda>c. (min (elt R a) (elt R c), max (elt R a) (elt R c))) [0..a]"
  have up: "[0..int (length R) - 1] = [0..a - 1] @ a # [a + 1..int (length R) - 1]" using assms by (intro upto_split3) auto
  have len: "int (length (concat (map ?row [0..a - 1]))) = a * (a + 1) div 2" by (rule tri_rows_length) (use assms in simp)
  have t: "tri R = concat (map ?row [0..a - 1]) @ ?row a @ concat (map ?row [a + 1..int (length R) - 1])" by (simp add: tri_def up)
  show "0 \<le> a * (a + 1) div 2 + c" using assms by simp
  have c: "c < int (length (?row a))" using assms by simp
  show "a * (a + 1) div 2 + c < int (length (tri R))" unfolding t using len c by simp
  have "elt (tri R) (a * (a + 1) div 2 + c) = elt (?row a) c"
    unfolding t len [symmetric] elt_append [OF assms(1)] by (rule elt_append_left [OF assms(1) c])
  also have "\<dots> = (min (elt R a) (elt R c), max (elt R a) (elt R c))" using assms by (simp add: elt_def)
  finally show "elt (tri R) (a * (a + 1) div 2 + c) = (min (elt R a) (elt R c), max (elt R a) (elt R c))" .
qed

lemma blk_tiled_append:
  assumes "\<And>p. p \<in> set pre \<Longrightarrow> sp_nb p = int (length (red_states A pairs p))" "blk_tiled k (pre @ pr # suf)"
  shows "sp_blk0 pr = k + int (length (concat (map (\<lambda>p. tri (red_states A pairs p)) pre)))"
  using assms
proof (induction pre arbitrary: k)
  case (Cons q pre)
  have "sp_nb q * (sp_nb q + 1) div 2 = int (length (tri (red_states A pairs q)))" using Cons.prems(1) [of q] by (simp add: tri_length)
  then have "blk_tiled (k + int (length (tri (red_states A pairs q)))) (pre @ pr # suf)" using Cons.prems(2) by simp
  from Cons.IH [OF _ this] Cons.prems(1) show ?case by simp
qed simp

lemma block_entry:
  assumes P: "pairs_ok A pairs" "blk_tiled 0 pairs" and pr: "pr \<in> set pairs" and ac: "0 \<le> c" "c \<le> a" "a < sp_nb pr"
  shows "0 \<le> sp_blk0 pr + (a * (a + 1) div 2 + c)" "sp_blk0 pr + (a * (a + 1) div 2 + c) < int (length (blocks A pairs))"
    "elt (blocks A pairs) (sp_blk0 pr + (a * (a + 1) div 2 + c))
      = (min (elt (red_states A pairs pr) a) (elt (red_states A pairs pr) c), max (elt (red_states A pairs pr) a) (elt (red_states A pairs pr) c))"
proof -
  obtain pre suf where ps: "pairs = pre @ pr # suf" using pr by (auto simp: in_set_conv_decomp)
  have nb: "sp_nb p = int (length (red_states A pairs p))" if "p \<in> set pairs" for p using P(1) that by (simp add: pairs_ok_def is_pair_def red_states_def)
  let ?f = "\<lambda>p. tri (red_states A pairs p)"
  have k: "sp_blk0 pr = int (length (concat (map ?f pre)))"
  proof -
    have "blk_tiled 0 (pre @ pr # suf)" using P(2) ps by simp
    from blk_tiled_append [OF _ this, of A pairs] show ?thesis using nb by (simp add: ps)
  qed
  have b: "blocks A pairs = concat (map ?f pre) @ ?f pr @ concat (map ?f suf)" unfolding blocks_def by (subst (2) ps) simp
  have a: "a < int (length (red_states A pairs pr))" using ac(3) nb [OF pr] by simp
  note t = tri_elt [OF ac(1,2) a]
  show "0 \<le> sp_blk0 pr + (a * (a + 1) div 2 + c)" "sp_blk0 pr + (a * (a + 1) div 2 + c) < int (length (blocks A pairs))"
    using t(2,3) unfolding k b by simp_all
  show "elt (blocks A pairs) (sp_blk0 pr + (a * (a + 1) div 2 + c))
      = (min (elt (red_states A pairs pr) a) (elt (red_states A pairs pr) c), max (elt (red_states A pairs pr) a) (elt (red_states A pairs pr) c))"
    unfolding b k elt_append [OF t(2)] elt_append_left [OF t(2,3)] by (rule t(1))
qed

section \<open>The accesses of one pair\<close>

definition pass_ctx :: "'v csc \<Rightarrow> slack_plan \<Rightarrow> unit csc \<Rightarrow> 'a list \<Rightarrow> bool" where
  "pass_ctx A plan R cv \<longleftrightarrow> csc_clean A \<and> slack_layout_ok A plan R \<and> length cv = length (row_idx A)"

definition state_row_of :: "'v csc \<Rightarrow> slack_plan \<Rightarrow> slack_pair \<Rightarrow> int \<Rightarrow> int" where
  "state_row_of A plan pr t = elt (red_states A (pl_pairs plan) pr) t"

definition state_value :: "'v csc \<Rightarrow> 'a list \<Rightarrow> slack_pair \<Rightarrow> int \<Rightarrow> 'a" where
  "state_value A cv pr t = elt cv (snd (elt (states A (sp_s pr) (sp_y pr)) t))"

definition state_slot :: "slack_plan \<Rightarrow> slack_pair \<Rightarrow> int \<Rightarrow> int \<Rightarrow> int" where
  "state_slot plan pr a c = elt (pl_blk plan) (sp_blk0 pr + (a * (a + 1) div 2 + c))"

lemma pass_ctxD:
  assumes "pass_ctx A plan R cv"
  shows "csc_clean A" "length cv = length (row_idx A)" "pairs_ok A (pl_pairs plan)" "blk_tiled 0 (pl_pairs plan)"
    "pl_b_slot plan = map snd (all_states A (pl_pairs plan))" "pl_b_row plan = map (\<lambda>e. red_of (pl_pairs plan) (fst e)) (all_states A (pl_pairs plan))"
    "csc_clean R" "csc_n R = pl_nr plan" "pl_nr plan = int (length (kept (pl_pairs plan) (csc_n A)))" "pl_reduced_nnz plan = int (length (row_idx R))"
    "list_all2 (\<lambda>x d. is_slot R (snd x) (fst x) d) (blocks A (pl_pairs plan)) (pl_blk plan)"
    "list_all2 (\<lambda>v d. if d < 0 then \<nexists>p. is_slot A v v p else is_slot A v v d) (kept (pl_pairs plan) (csc_n A)) (pl_sdiag plan)"
    "list_all2 (\<lambda>p d. \<exists>i j. is_slot A i j p \<and> i \<notin> set (members (pl_pairs plan)) \<and> j \<notin> set (members (pl_pairs plan))
       \<and> is_slot R (red_of (pl_pairs plan) i) (red_of (pl_pairs plan) j) d) (pl_keep_src plan) (pl_keep_dst plan)"
    "\<And>i j p. is_slot A i j p \<Longrightarrow> i \<notin> set (members (pl_pairs plan)) \<Longrightarrow> j \<notin> set (members (pl_pairs plan)) \<Longrightarrow> p \<in> set (pl_keep_src plan)"
  using assms unfolding pass_ctx_def slack_layout_ok_def Let_def by blast+

lemma slot_value: "csc_clean A \<Longrightarrow> length cv = length (row_idx A) \<Longrightarrow> is_slot A i j p \<Longrightarrow> vget cv p = Some (elt cv p)"
  using slot_rows(3,4) [of A i j p] by (simp add: vget_at)

lemma state_reads:
  assumes C: "pass_ctx A plan R cv" and pr: "pr \<in> set (pl_pairs plan)" and t: "0 \<le> t" "t < sp_nb pr"
  shows "vget (pl_b_row plan) (sp_b0 pr + t) = Some (state_row_of A plan pr t)"
    "vget (pl_b_slot plan) (sp_b0 pr + t) = Some (snd (elt (states A (sp_s pr) (sp_y pr)) t))"
    "vget cv (snd (elt (states A (sp_s pr) (sp_y pr)) t)) = Some (state_value A cv pr t)"
    "0 \<le> sp_b0 pr" "sp_b0 pr + t < int (length (pl_b_slot plan))" "0 \<le> state_row_of A plan pr t" "state_row_of A plan pr t < pl_nr plan"
proof -
  note D = pass_ctxD [OF C]
  show "vget (pl_b_row plan) (sp_b0 pr + t) = Some (state_row_of A plan pr t)"
    unfolding D(6) state_row_of_def by (rule state_row_read [OF D(3) pr t])
  note e = pair_entries [OF D(3) pr t]
  show "vget (pl_b_slot plan) (sp_b0 pr + t) = Some (snd (elt (states A (sp_s pr) (sp_y pr)) t))"
    unfolding D(5) vget_map [OF e(1,2)] e(4) ..
  have t0: "(0::int) \<le> 0" "0 < sp_nb pr" using t by auto
  show "0 \<le> sp_b0 pr" using pair_entries(1) [OF D(3) pr t0] by simp
  show "sp_b0 pr + t < int (length (pl_b_slot plan))" using e(2) by (simp add: D(5))
  have tl: "t < int (length (states A (sp_s pr) (sp_y pr)))" using t(2) e(3) by simp
  have m: "elt (states A (sp_s pr) (sp_y pr)) t \<in> set (states A (sp_s pr) (sp_y pr))" by (rule elt_in_set [OF t(1) tl])
  then have "(fst (elt (states A (sp_s pr) (sp_y pr)) t), snd (elt (states A (sp_s pr) (sp_y pr)) t)) \<in> set (adj A (sp_y pr))" by (simp add: states_def)
  then show "vget cv (snd (elt (states A (sp_s pr) (sp_y pr)) t)) = Some (state_value A cv pr t)"
    unfolding adj_mem [OF D(1)] state_value_def using slot_value [OF D(1,2)] by blast
  have "state_row_of A plan pr t = red_of (pl_pairs plan) (fst (elt (states A (sp_s pr) (sp_y pr)) t))"
    using tl t by (simp add: state_row_of_def red_states_def elt_def)
  then show "0 \<le> state_row_of A plan pr t" "state_row_of A plan pr t < pl_nr plan" using state_row(4,5) [OF D(1,3) pr m] D(9) by simp_all
qed

lemma state_slots:
  assumes C: "pass_ctx A plan R cv" and pr: "pr \<in> set (pl_pairs plan)" and ac: "0 \<le> c" "c \<le> a" "a < sp_nb pr"
  shows "vget (pl_blk plan) (sp_blk0 pr + (a * (a + 1) div 2 + c)) = Some (state_slot plan pr a c)"
    "is_slot R (max (state_row_of A plan pr a) (state_row_of A plan pr c)) (min (state_row_of A plan pr a) (state_row_of A plan pr c)) (state_slot plan pr a c)"
    "0 \<le> state_slot plan pr a c" "state_slot plan pr a c < int (length (row_idx R))"
proof -
  note D = pass_ctxD [OF C]
  note b = block_entry [OF D(3,4) pr ac]
  have l: "length (blocks A (pl_pairs plan)) = length (pl_blk plan)" using D(11) by (rule list_all2_lengthD)
  show "vget (pl_blk plan) (sp_blk0 pr + (a * (a + 1) div 2 + c)) = Some (state_slot plan pr a c)"
    unfolding state_slot_def using b(1,2) l by (simp add: vget_at)
  have "is_slot R (snd (elt (blocks A (pl_pairs plan)) (sp_blk0 pr + (a * (a + 1) div 2 + c)))) (fst (elt (blocks A (pl_pairs plan)) (sp_blk0 pr + (a * (a + 1) div 2 + c))))
      (elt (pl_blk plan) (sp_blk0 pr + (a * (a + 1) div 2 + c)))"
    using list_all2_nthD [OF D(11), of "nat (sp_blk0 pr + (a * (a + 1) div 2 + c))"] b(1,2) by (simp add: elt_def nat_less_iff)
  then show s: "is_slot R (max (state_row_of A plan pr a) (state_row_of A plan pr c)) (min (state_row_of A plan pr a) (state_row_of A plan pr c)) (state_slot plan pr a c)"
    unfolding b(3) state_row_of_def state_slot_def by simp
  show "0 \<le> state_slot plan pr a c" "state_slot plan pr a c < int (length (row_idx R))" using slot_rows(3,4) [OF D(7) s] .
qed

lemma state_row_inj:
  assumes C: "pass_ctx A plan R cv" and pr: "pr \<in> set (pl_pairs plan)" and t: "0 \<le> t" "t < sp_nb pr" "0 \<le> u" "u < sp_nb pr"
    and e: "state_row_of A plan pr t = state_row_of A plan pr u"
  shows "t = u"
proof -
  note D = pass_ctxD [OF C]
  let ?S = "states A (sp_s pr) (sp_y pr)"
  have nb: "sp_nb pr = int (length ?S)" using pair_entries(3) [OF D(3) pr t(1,2)] .
  have inS: "elt ?S t \<in> set ?S" "elt ?S u \<in> set ?S" using t nb by (simp_all add: elt_in_set)
  have "red_of (pl_pairs plan) (fst (elt ?S t)) = red_of (pl_pairs plan) (fst (elt ?S u))"
    using e t nb by (simp add: state_row_of_def red_states_def elt_def)
  then have f: "fst (elt ?S t) = fst (elt ?S u)"
    using red_of_inj state_row(1,3) [OF D(1,3) pr inS(1)] state_row(1,3) [OF D(1,3) pr inS(2)] by blast
  have "distinct (map fst (adj A (sp_y pr)))" using adj_distinct [OF D(1)] D(3) pr unfolding pairs_ok_def is_pair_def by blast
  then have "distinct (map fst ?S)" unfolding states_def by (rule distinct_map_filter)
  moreover have "map fst ?S ! nat t = map fst ?S ! nat u" "nat t < length (map fst ?S)" "nat u < length (map fst ?S)" using f t nb by (simp_all add: elt_def)
  ultimately have "nat t = nat u" using nth_eq_iff_index_eq by blast
  then show ?thesis using t by simp
qed

lemma state_slot_inj:
  assumes C: "pass_ctx A plan R cv" and pr: "pr \<in> set (pl_pairs plan)" and ac: "0 \<le> c" "c \<le> a" "a < sp_nb pr" "0 \<le> c'" "c' \<le> a'" "a' < sp_nb pr"
    and e: "state_slot plan pr a c = state_slot plan pr a' c'"
  shows "a = a' \<and> c = c'"
proof -
  note D = pass_ctxD [OF C]
  let ?r = "state_row_of A plan pr"
  have "min (?r a) (?r c) = min (?r a') (?r c')" "max (?r a) (?r c) = max (?r a') (?r c')"
    using slot_column [OF csc_cleanD(1) [OF D(7)] state_slots(2) [OF C pr ac(1-3)] state_slots(2) [OF C pr ac(4-6), folded e]] by auto
  then have "?r a = ?r a' \<and> ?r c = ?r c' \<or> ?r a = ?r c' \<and> ?r c = ?r a'" by linarith
  then show ?thesis
  proof
    assume "?r a = ?r a' \<and> ?r c = ?r c'"
    then show ?thesis using state_row_inj [OF C pr, of a a'] state_row_inj [OF C pr, of c c'] ac by simp
  next
    assume "?r a = ?r c' \<and> ?r c = ?r a'"
    then have "a = c'" "c = a'" using state_row_inj [OF C pr, of a c'] state_row_inj [OF C pr, of c a'] ac by simp_all
    then show ?thesis using ac by simp
  qed
qed

section \<open>The loops of one pair\<close>

lemma load_states_ok:
  assumes C: "pass_ctx A plan R cv" and pr: "pr \<in> set (pl_pairs plan)" and l: "length bval = length (pl_b_slot plan)"
  shows "ok (load_states plan cv pr bval) (\<lambda>b. length b = length bval \<and> (\<forall>t. 0 \<le> t \<and> t < sp_nb pr \<longrightarrow> elt b (sp_b0 pr + t) = state_value A cv pr t)
    \<and> (\<forall>i. 0 \<le> i \<and> (i < sp_b0 pr \<or> sp_b0 pr + sp_nb pr \<le> i) \<longrightarrow> elt b i = elt bval i))"
  unfolding load_states_def
proof (rule for_range_ok [where I = "\<lambda>t b. length b = length bval \<and> (\<forall>u. 0 \<le> u \<and> u < t \<longrightarrow> elt b (sp_b0 pr + u) = state_value A cv pr u)
    \<and> (\<forall>i. 0 \<le> i \<and> (i < sp_b0 pr \<or> sp_b0 pr + t \<le> i) \<longrightarrow> elt b i = elt bval i)"])
  fix t b assume t: "0 \<le> t" "t < sp_nb pr" and I: "length b = length bval \<and> (\<forall>u. 0 \<le> u \<and> u < t \<longrightarrow> elt b (sp_b0 pr + u) = state_value A cv pr u)
    \<and> (\<forall>i. 0 \<le> i \<and> (i < sp_b0 pr \<or> sp_b0 pr + t \<le> i) \<longrightarrow> elt b i = elt bval i)"
  note r = state_reads [OF C pr t]
  have s: "vset b (sp_b0 pr + t) v = Some (b[nat (sp_b0 pr + t) := v])" for v using r(4,5) t I l by (simp add: vset_def inb_def)
  show "ok (do {
      slot \<leftarrow> vget (pl_b_slot plan) (sp_b0 pr + t);
      v \<leftarrow> vget cv slot;
      vset b (sp_b0 pr + t) v
    }) (\<lambda>b. length b = length bval \<and> (\<forall>u. 0 \<le> u \<and> u < t + 1 \<longrightarrow> elt b (sp_b0 pr + u) = state_value A cv pr u)
    \<and> (\<forall>i. 0 \<le> i \<and> (i < sp_b0 pr \<or> sp_b0 pr + (t + 1) \<le> i) \<longrightarrow> elt b i = elt bval i))"
    unfolding r(2) bind.simps r(3) s ok_Some using I r(4,5) t l by (auto simp: at_update)
next
  fix b assume "length b = length bval \<and> (\<forall>u. 0 \<le> u \<and> u < max 0 (sp_nb pr) \<longrightarrow> elt b (sp_b0 pr + u) = state_value A cv pr u)
    \<and> (\<forall>i. 0 \<le> i \<and> (i < sp_b0 pr \<or> sp_b0 pr + max 0 (sp_nb pr) \<le> i) \<longrightarrow> elt b i = elt bval i)"
  moreover have "0 \<le> sp_nb pr" using pass_ctxD(3) [OF C] pr unfolding pairs_ok_def is_pair_def by auto
  ultimately show "length b = length bval \<and> (\<forall>t. 0 \<le> t \<and> t < sp_nb pr \<longrightarrow> elt b (sp_b0 pr + t) = state_value A cv pr t)
    \<and> (\<forall>i. 0 \<le> i \<and> (i < sp_b0 pr \<or> sp_b0 pr + sp_nb pr \<le> i) \<longrightarrow> elt b i = elt bval i)" by (simp add: max_def)
qed simp

text \<open>The diagonal of a state, zero when none is stored, and the largest growth over the states that have one.\<close>

definition growth_of :: "'v csc \<Rightarrow> slack_plan \<Rightarrow> 'a::linordered_field list \<Rightarrow> slack_pair \<Rightarrow> 'a \<Rightarrow> int \<Rightarrow> 'a" where
  "growth_of A plan cv pr iyy t = (let i = elt (kept (pl_pairs plan) (csc_n A)) (state_row_of A plan pr t); d = \<bar>sym_entry A cv i i\<bar> in
     if d > 0 then (\<bar>iyy\<bar> * \<bar>state_value A cv pr t\<bar>) * \<bar>state_value A cv pr t\<bar> / d else 0)"

lemma state_diagonal:
  fixes cv :: "'a::linordered_field list"
  assumes C: "pass_ctx A plan R cv" and r: "0 \<le> r" "r < pl_nr plan"
  shows "\<exists>ds. vget (pl_sdiag plan) r = Some ds \<and> (if ds \<ge> 0 then map_option abs (vget cv ds) else Some 0) = Some \<bar>sym_entry A cv (elt (kept (pl_pairs plan) (csc_n A)) r) (elt (kept (pl_pairs plan) (csc_n A)) r)\<bar>"
proof -
  note D = pass_ctxD [OF C]
  let ?K = "kept (pl_pairs plan) (csc_n A)"
  let ?v = "elt ?K r" and ?d = "elt (pl_sdiag plan) r"
  have l: "r < int (length ?K)" "length ?K = length (pl_sdiag plan)" using r(2) D(9) list_all2_lengthD [OF D(12)] by simp_all
  have v: "0 \<le> ?v" "?v < csc_n A" using red_of_kept [OF r(1) l(1)] by simp_all
  have d: "if ?d < 0 then \<nexists>p. is_slot A ?v ?v p else is_slot A ?v ?v ?d"
    using list_all2_nthD [OF D(12), of "nat r"] l r(1) by (simp add: elt_def nat_less_iff)
  have g: "vget (pl_sdiag plan) r = Some ?d" using r(1) l by (simp add: vget_at)
  have "(if ?d \<ge> 0 then map_option abs (vget cv ?d) else Some 0) = Some \<bar>sym_entry A cv ?v ?v\<bar>"
  proof (cases "?d < 0")
    case True
    then show ?thesis using d sym_entry_none [of ?v ?v A cv] v by simp
  next
    case False
    then have s: "is_slot A ?v ?v ?d" using d by simp
    show ?thesis using False slot_value [OF D(1,2) s] sym_entry_slot [OF D(1), of ?v ?v ?d cv] s by simp
  qed
  then show ?thesis using g by blast
qed

lemma growth_ratio_ok:
  fixes cv :: "'a::linordered_field list"
  assumes C: "pass_ctx A plan R cv" and pr: "pr \<in> set (pl_pairs plan)" and b: "length bval = length (pl_b_slot plan)"
    "\<And>t. 0 \<le> t \<Longrightarrow> t < sp_nb pr \<Longrightarrow> elt bval (sp_b0 pr + t) = state_value A cv pr t"
  shows "ok (growth_ratio plan cv pr iyy bval) (\<lambda>g. 0 \<le> g \<and> (\<forall>t. 0 \<le> t \<and> t < sp_nb pr \<longrightarrow> growth_of A plan cv pr iyy t \<le> g)
    \<and> (g = 0 \<or> (\<exists>t. 0 \<le> t \<and> t < sp_nb pr \<and> g = growth_of A plan cv pr iyy t)))"
  unfolding growth_ratio_def
proof (rule for_range_ok [where I = "\<lambda>t g. 0 \<le> g \<and> (\<forall>u. 0 \<le> u \<and> u < t \<longrightarrow> growth_of A plan cv pr iyy u \<le> g)
    \<and> (g = 0 \<or> (\<exists>u. 0 \<le> u \<and> u < t \<and> g = growth_of A plan cv pr iyy u))"])
  fix t g assume t: "0 \<le> t" "t < sp_nb pr" and I: "0 \<le> g \<and> (\<forall>u. 0 \<le> u \<and> u < t \<longrightarrow> growth_of A plan cv pr iyy u \<le> g)
    \<and> (g = 0 \<or> (\<exists>u. 0 \<le> u \<and> u < t \<and> g = growth_of A plan cv pr iyy u))"
  note r = state_reads [OF C pr t]
  let ?r = "state_row_of A plan pr t" and ?x = "state_value A cv pr t"
  obtain ds where d: "vget (pl_sdiag plan) ?r = Some ds"
    "(if ds \<ge> 0 then map_option abs (vget cv ds) else Some 0) = Some \<bar>sym_entry A cv (elt (kept (pl_pairs plan) (csc_n A)) ?r) (elt (kept (pl_pairs plan) (csc_n A)) ?r)\<bar>"
    using state_diagonal [OF C r(6,7)] by blast
  have bv: "vget bval (sp_b0 pr + t) = Some ?x" using b(2) [OF t] b(1) r(4,5) t by (simp add: vget_at)
  have res: "(do {
      r \<leftarrow> vget (pl_b_row plan) (sp_b0 pr + t);
      ds \<leftarrow> vget (pl_sdiag plan) r;
      d \<leftarrow> (if ds \<ge> 0 then map_option abs (vget cv ds) else Some 0);
      bv \<leftarrow> vget bval (sp_b0 pr + t);
      Some (if d > 0 then max g ((\<bar>iyy\<bar> * \<bar>bv\<bar>) * \<bar>bv\<bar> / d) else g)
    }) = Some (max g (growth_of A plan cv pr iyy t))"
    unfolding r(1) bind.simps d(1) unfolding d(2) bind.simps bv growth_of_def Let_def using I by (simp add: max_def)
  show "ok (do {
      r \<leftarrow> vget (pl_b_row plan) (sp_b0 pr + t);
      ds \<leftarrow> vget (pl_sdiag plan) r;
      d \<leftarrow> (if ds \<ge> 0 then map_option abs (vget cv ds) else Some 0);
      bv \<leftarrow> vget bval (sp_b0 pr + t);
      Some (if d > 0 then max g ((\<bar>iyy\<bar> * \<bar>bv\<bar>) * \<bar>bv\<bar> / d) else g)
    }) (\<lambda>g. 0 \<le> g \<and> (\<forall>u. 0 \<le> u \<and> u < t + 1 \<longrightarrow> growth_of A plan cv pr iyy u \<le> g)
    \<and> (g = 0 \<or> (\<exists>u. 0 \<le> u \<and> u < t + 1 \<and> g = growth_of A plan cv pr iyy u)))"
  proof -
    have split: "\<And>u. u < t + 1 \<longleftrightarrow> u < t \<or> u = t" by auto
    show ?thesis unfolding res ok_Some split using I t(1) by (auto simp: max_def)
  qed
next
  fix g assume "0 \<le> g \<and> (\<forall>u. 0 \<le> u \<and> u < max 0 (sp_nb pr) \<longrightarrow> growth_of A plan cv pr iyy u \<le> g)
    \<and> (g = 0 \<or> (\<exists>u. 0 \<le> u \<and> u < max 0 (sp_nb pr) \<and> g = growth_of A plan cv pr iyy u))"
  then show "0 \<le> g \<and> (\<forall>t. 0 \<le> t \<and> t < sp_nb pr \<longrightarrow> growth_of A plan cv pr iyy t \<le> g)
    \<and> (g = 0 \<or> (\<exists>t. 0 \<le> t \<and> t < sp_nb pr \<and> g = growth_of A plan cv pr iyy t))" by auto
qed simp

section \<open>The update of the states\<close>

text \<open>\<open>before a c\<close>: the entries of the block's lower triangle, row by row, before entry (\<open>a\<close>, \<open>c\<close>).\<close>

definition before :: "int \<Rightarrow> int \<Rightarrow> int \<Rightarrow> int \<Rightarrow> bool" where
  "before a c a' c' \<longleftrightarrow> a' < a \<or> a' = a \<and> c' < c"

definition updated :: "'v csc \<Rightarrow> slack_plan \<Rightarrow> 'a::linordered_field list \<Rightarrow> slack_pair \<Rightarrow> 'a \<Rightarrow> 'a list \<Rightarrow> (int \<Rightarrow> int \<Rightarrow> bool) \<Rightarrow> 'a list \<Rightarrow> bool" where
  "updated A plan cv pr iyy rv0 P rv \<longleftrightarrow> length rv = length rv0
     \<and> (\<forall>a c. 0 \<le> c \<and> c \<le> a \<and> a < sp_nb pr \<longrightarrow> elt rv (state_slot plan pr a c)
          = elt rv0 (state_slot plan pr a c) - (if P a c then state_value A cv pr a * iyy * state_value A cv pr c else 0))
     \<and> (\<forall>d. 0 \<le> d \<and> (\<forall>a c. 0 \<le> c \<and> c \<le> a \<and> a < sp_nb pr \<longrightarrow> d \<noteq> state_slot plan pr a c) \<longrightarrow> elt rv d = elt rv0 d)"

lemma updated_step:
  assumes C: "pass_ctx A plan R cv" and pr: "pr \<in> set (pl_pairs plan)" and l: "length rv0 = length (row_idx R)"
    and ac: "0 \<le> c" "c \<le> a" "a < sp_nb pr" and U: "updated A plan cv pr iyy rv0 (before a c) rv"
  shows "vget rv (state_slot plan pr a c) = Some (elt rv (state_slot plan pr a c))"
    "\<exists>rv'. vset rv (state_slot plan pr a c) (elt rv (state_slot plan pr a c) - state_value A cv pr a * iyy * state_value A cv pr c) = Some rv'
      \<and> updated A plan cv pr iyy rv0 (before a (c + 1)) rv'"
proof -
  let ?k = "state_slot plan pr a c"
  have k: "0 \<le> ?k" "?k < int (length rv)" using state_slots(3,4) [OF C pr ac] U l unfolding updated_def by simp_all
  show "vget rv ?k = Some (elt rv ?k)" using k by (rule vget_at)
  let ?rv = "rv[nat ?k := elt rv ?k - state_value A cv pr a * iyy * state_value A cv pr c]"
  have e: "elt ?rv d = (if d = ?k then elt rv ?k - state_value A cv pr a * iyy * state_value A cv pr c else elt rv d)" if "0 \<le> d" for d
    using k that by (simp add: at_update)
  have b: "before a (c + 1) a' c' \<longleftrightarrow> before a c a' c' \<or> a' = a \<and> c' = c" for a' c' by (auto simp: before_def)
  have n: "\<not> before a c a c" by (simp add: before_def)
  have "updated A plan cv pr iyy rv0 (before a (c + 1)) ?rv"
    unfolding updated_def
  proof (intro conjI allI impI)
    show "length ?rv = length rv0" using U by (simp add: updated_def)
  next
    fix a' c' assume ac': "0 \<le> c' \<and> c' \<le> a' \<and> a' < sp_nb pr"
    let ?k' = "state_slot plan pr a' c'"
    have k0: "0 \<le> ?k'" using state_slots(3) [OF C pr] ac' by blast
    have old: "elt rv ?k' = elt rv0 ?k' - (if before a c a' c' then state_value A cv pr a' * iyy * state_value A cv pr c' else 0)"
      using U ac' unfolding updated_def by blast
    show "elt ?rv ?k' = elt rv0 ?k' - (if before a (c + 1) a' c' then state_value A cv pr a' * iyy * state_value A cv pr c' else 0)"
    proof (cases "a' = a \<and> c' = c")
      case True
      then show ?thesis using e [OF k0] old n b [of a' c'] by simp
    next
      case False
      then have "?k' \<noteq> ?k" using state_slot_inj [OF C pr, of c' a' c a] ac ac' by blast
      moreover have "before a (c + 1) a' c' = before a c a' c'" using b [of a' c'] False by blast
      ultimately show ?thesis using e [OF k0] old by simp
    qed
  next
    fix d assume d: "0 \<le> d \<and> (\<forall>a c. 0 \<le> c \<and> c \<le> a \<and> a < sp_nb pr \<longrightarrow> d \<noteq> state_slot plan pr a c)"
    then have "d \<noteq> ?k" using ac by blast
    then show "elt ?rv d = elt rv0 d" using e [of d] d U unfolding updated_def by auto
  qed
  then show "\<exists>rv'. vset rv ?k (elt rv ?k - state_value A cv pr a * iyy * state_value A cv pr c) = Some rv' \<and> updated A plan cv pr iyy rv0 (before a (c + 1)) rv'"
    using k by (simp add: vset_def inb_def)
qed

definition acc_added :: "'v csc \<Rightarrow> slack_plan \<Rightarrow> 'a::linordered_field list \<Rightarrow> slack_pair \<Rightarrow> 'a \<Rightarrow> 'a list \<Rightarrow> int \<Rightarrow> 'a list \<Rightarrow> bool" where
  "acc_added A plan cv pr iyy acc0 m acc \<longleftrightarrow> length acc = length acc0
     \<and> (\<forall>t. 0 \<le> t \<and> t < sp_nb pr \<longrightarrow> elt acc (state_row_of A plan pr t) = elt acc0 (state_row_of A plan pr t)
          + (if t < m then \<bar>state_value A cv pr t * iyy * state_value A cv pr t\<bar> else 0))
     \<and> (\<forall>r. 0 \<le> r \<and> (\<forall>t. 0 \<le> t \<and> t < sp_nb pr \<longrightarrow> r \<noteq> state_row_of A plan pr t) \<longrightarrow> elt acc r = elt acc0 r)"

lemma acc_added_step:
  assumes C: "pass_ctx A plan R cv" and pr: "pr \<in> set (pl_pairs plan)" and l: "int (length acc0) = pl_nr plan"
    and a: "0 \<le> a" "a < sp_nb pr" and I: "acc_added A plan cv pr iyy acc0 a acc"
  shows "vget acc (state_row_of A plan pr a) = Some (elt acc (state_row_of A plan pr a))"
    "\<exists>acc'. vset acc (state_row_of A plan pr a) (elt acc (state_row_of A plan pr a) + \<bar>state_value A cv pr a * iyy * state_value A cv pr a\<bar>) = Some acc'
      \<and> acc_added A plan cv pr iyy acc0 (a + 1) acc'"
proof -
  let ?r = "state_row_of A plan pr a"
  have r: "0 \<le> ?r" "?r < int (length acc)" using state_reads(6,7) [OF C pr a] I l unfolding acc_added_def by simp_all
  show "vget acc ?r = Some (elt acc ?r)" using r by (rule vget_at)
  let ?acc = "acc[nat ?r := elt acc ?r + \<bar>state_value A cv pr a * iyy * state_value A cv pr a\<bar>]"
  have e: "elt ?acc d = (if d = ?r then elt acc ?r + \<bar>state_value A cv pr a * iyy * state_value A cv pr a\<bar> else elt acc d)" if "0 \<le> d" for d
    using r that by (simp add: at_update)
  have "acc_added A plan cv pr iyy acc0 (a + 1) ?acc"
    unfolding acc_added_def
  proof (intro conjI allI impI)
    show "length ?acc = length acc0" using I by (simp add: acc_added_def)
  next
    fix t assume t: "0 \<le> t \<and> t < sp_nb pr"
    have old: "elt acc (state_row_of A plan pr t) = elt acc0 (state_row_of A plan pr t) + (if t < a then \<bar>state_value A cv pr t * iyy * state_value A cv pr t\<bar> else 0)"
      using I t unfolding acc_added_def by blast
    have t0: "0 \<le> state_row_of A plan pr t" using state_reads(6) [OF C pr] t by blast
    show "elt ?acc (state_row_of A plan pr t) = elt acc0 (state_row_of A plan pr t) + (if t < a + 1 then \<bar>state_value A cv pr t * iyy * state_value A cv pr t\<bar> else 0)"
    proof (cases "t = a")
      case True
      then show ?thesis using e [OF t0] old by simp
    next
      case False
      then have "state_row_of A plan pr t \<noteq> ?r" using state_row_inj [OF C pr, of t a] t a by blast
      then show ?thesis using e [OF t0] old False by simp
    qed
  next
    fix r assume "0 \<le> r \<and> (\<forall>t. 0 \<le> t \<and> t < sp_nb pr \<longrightarrow> r \<noteq> state_row_of A plan pr t)"
    then show "elt ?acc r = elt acc0 r" using e [of r] a I unfolding acc_added_def by auto
  qed
  then show "\<exists>acc'. vset acc ?r (elt acc ?r + \<bar>state_value A cv pr a * iyy * state_value A cv pr a\<bar>) = Some acc' \<and> acc_added A plan cv pr iyy acc0 (a + 1) acc'"
    using r by (simp add: vset_def inb_def)
qed

lemma update_states_ok:
  assumes C: "pass_ctx A plan R cv" and pr: "pr \<in> set (pl_pairs plan)" and b: "length bval = length (pl_b_slot plan)"
    "\<And>t. 0 \<le> t \<Longrightarrow> t < sp_nb pr \<Longrightarrow> elt bval (sp_b0 pr + t) = state_value A cv pr t"
    and l: "length rv0 = length (row_idx R)" "int (length acc0) = pl_nr plan"
  shows "ok (update_states plan pr iyy bval (rv0, acc0)) (\<lambda>(rv, acc). updated A plan cv pr iyy rv0 (\<lambda>_ _. True) rv \<and> acc_added A plan cv pr iyy acc0 (sp_nb pr) acc)"
proof -
  let ?x = "state_value A cv pr"
  have bv: "vget bval (sp_b0 pr + t) = Some (?x t)" if t: "0 \<le> t" "t < sp_nb pr" for t
    using b(2) [OF t] b(1) state_reads(4,5) [OF C pr t] t by (simp add: vget_at)
  have inner: "ok (for_range 0 (a + 1) (\<lambda>c (rv, t). do {
         k \<leftarrow> vget (pl_blk plan) (sp_blk0 pr + t);
         old \<leftarrow> vget rv k;
         y \<leftarrow> vget bval (sp_b0 pr + c);
         rv \<leftarrow> vset rv k (old - ?x a * iyy * y);
         Some (rv, t + 1)
       }) (rv, a * (a + 1) div 2)) (\<lambda>(rv, t). updated A plan cv pr iyy rv0 (before (a + 1) 0) rv \<and> t = (a + 1) * (a + 2) div 2)"
    if a: "0 \<le> a" "a < sp_nb pr" and U: "updated A plan cv pr iyy rv0 (before a 0) rv" for a rv
  proof (rule for_range_ok [where I = "\<lambda>c (rv, t). updated A plan cv pr iyy rv0 (before a c) rv \<and> t = a * (a + 1) div 2 + c"])
    fix c and st :: "'b list \<times> int" assume c: "0 \<le> c" "c < a + 1" and I: "case st of (rv, t) \<Rightarrow> updated A plan cv pr iyy rv0 (before a c) rv \<and> t = a * (a + 1) div 2 + c"
    obtain rv t where st: "st = (rv, t)" by (cases st)
    have U: "updated A plan cv pr iyy rv0 (before a c) rv" and t: "t = a * (a + 1) div 2 + c" using I by (simp_all add: st)
    have ca: "c \<le> a" using c by simp
    obtain rv' where s: "vget rv (state_slot plan pr a c) = Some (elt rv (state_slot plan pr a c))"
      "vset rv (state_slot plan pr a c) (elt rv (state_slot plan pr a c) - ?x a * iyy * ?x c) = Some rv'" "updated A plan cv pr iyy rv0 (before a (c + 1)) rv'"
      using updated_step [OF C pr l(1) c(1) ca a(2) U] by blast
    have y: "vget bval (sp_b0 pr + c) = Some (?x c)" using bv c a by simp
    show "ok (case st of (rv, t) \<Rightarrow> do {
         k \<leftarrow> vget (pl_blk plan) (sp_blk0 pr + t);
         old \<leftarrow> vget rv k;
         y \<leftarrow> vget bval (sp_b0 pr + c);
         rv \<leftarrow> vset rv k (old - ?x a * iyy * y);
         Some (rv, t + 1)
       }) (\<lambda>(rv, t). updated A plan cv pr iyy rv0 (before a (c + 1)) rv \<and> t = a * (a + 1) div 2 + (c + 1))"
      unfolding st prod.case t state_slots(1) [OF C pr c(1) ca a(2)] bind.simps s(1) y s(2) using s(3) by simp
  next
    fix st :: "'b list \<times> int" assume I: "case st of (rv, t) \<Rightarrow> updated A plan cv pr iyy rv0 (before a (max 0 (a + 1))) rv \<and> t = a * (a + 1) div 2 + max 0 (a + 1)"
    obtain rv t where st: "st = (rv, t)" by (cases st)
    have U: "updated A plan cv pr iyy rv0 (before a (a + 1)) rv" and t: "t = a * (a + 1) div 2 + (a + 1)" using I a by (simp_all add: st max_def)
    have same: "before (a + 1) 0 a' c' = before a (a + 1) a' c'" if "0 \<le> c'" "c' \<le> a'" for a' c' using that by (auto simp: before_def)
    have "updated A plan cv pr iyy rv0 (before (a + 1) 0) rv" using U unfolding updated_def using same by simp
    then show "case st of (rv, t) \<Rightarrow> updated A plan cv pr iyy rv0 (before (a + 1) 0) rv \<and> t = (a + 1) * (a + 2) div 2"
      using t triangle_next [OF a(1)] by (simp add: st)
  qed (use U in simp)
  have outer: "ok (for_range 0 (sp_nb pr) (\<lambda>a (rv, acc, t). do {
       x \<leftarrow> vget bval (sp_b0 pr + a);
       let ba = x * iyy;
       (rv, t) \<leftarrow> for_range 0 (a + 1) (\<lambda>c (rv, t). do {
         k \<leftarrow> vget (pl_blk plan) (sp_blk0 pr + t);
         old \<leftarrow> vget rv k;
         y \<leftarrow> vget bval (sp_b0 pr + c);
         rv \<leftarrow> vset rv k (old - ba * y);
         Some (rv, t + 1)
       }) (rv, t);
       r \<leftarrow> vget (pl_b_row plan) (sp_b0 pr + a);
       s \<leftarrow> vget acc r;
       acc \<leftarrow> vset acc r (s + \<bar>ba * x\<bar>);
       Some (rv, acc, t)
     }) (rv0, acc0, 0)) (\<lambda>(rv, acc, t). updated A plan cv pr iyy rv0 (\<lambda>_ _. True) rv \<and> acc_added A plan cv pr iyy acc0 (sp_nb pr) acc)"
  proof (rule for_range_ok [where I = "\<lambda>a (rv, acc, t). updated A plan cv pr iyy rv0 (before a 0) rv \<and> acc_added A plan cv pr iyy acc0 a acc \<and> t = a * (a + 1) div 2"])
    have "\<not> before 0 0 a c" if "0 \<le> c" "c \<le> a" for a c using that by (simp add: before_def)
    then show "case (rv0, acc0, 0 :: int) of (rv, acc, t) \<Rightarrow> updated A plan cv pr iyy rv0 (before 0 0) rv \<and> acc_added A plan cv pr iyy acc0 0 acc \<and> t = 0 * (0 + 1) div 2"
      by (simp add: updated_def acc_added_def)
  next
    fix a and st :: "'b list \<times> 'b list \<times> int" assume a: "0 \<le> a" "a < sp_nb pr"
      and I: "case st of (rv, acc, t) \<Rightarrow> updated A plan cv pr iyy rv0 (before a 0) rv \<and> acc_added A plan cv pr iyy acc0 a acc \<and> t = a * (a + 1) div 2"
    obtain rv acc t where st: "st = (rv, acc, t)" by (cases st)
    have U: "updated A plan cv pr iyy rv0 (before a 0) rv" "acc_added A plan cv pr iyy acc0 a acc" "t = a * (a + 1) div 2" using I by (simp_all add: st)
    obtain rv' where i: "for_range 0 (a + 1) (\<lambda>c (rv, t). do {
         k \<leftarrow> vget (pl_blk plan) (sp_blk0 pr + t);
         old \<leftarrow> vget rv k;
         y \<leftarrow> vget bval (sp_b0 pr + c);
         rv \<leftarrow> vset rv k (old - ?x a * iyy * y);
         Some (rv, t + 1)
       }) (rv, t) = Some (rv', (a + 1) * (a + 2) div 2)" "updated A plan cv pr iyy rv0 (before (a + 1) 0) rv'"
      using ok_ex [OF inner [OF a U(1)]] U(3) by auto
    obtain acc' where c: "vget acc (state_row_of A plan pr a) = Some (elt acc (state_row_of A plan pr a))"
      "vset acc (state_row_of A plan pr a) (elt acc (state_row_of A plan pr a) + \<bar>?x a * iyy * ?x a\<bar>) = Some acc'" "acc_added A plan cv pr iyy acc0 (a + 1) acc'"
      using acc_added_step [OF C pr l(2) a U(2)] by blast
    show "ok (case st of (rv, acc, t) \<Rightarrow> do {
       x \<leftarrow> vget bval (sp_b0 pr + a);
       let ba = x * iyy;
       (rv, t) \<leftarrow> for_range 0 (a + 1) (\<lambda>c (rv, t). do {
         k \<leftarrow> vget (pl_blk plan) (sp_blk0 pr + t);
         old \<leftarrow> vget rv k;
         y \<leftarrow> vget bval (sp_b0 pr + c);
         rv \<leftarrow> vset rv k (old - ba * y);
         Some (rv, t + 1)
       }) (rv, t);
       r \<leftarrow> vget (pl_b_row plan) (sp_b0 pr + a);
       s \<leftarrow> vget acc r;
       acc \<leftarrow> vset acc r (s + \<bar>ba * x\<bar>);
       Some (rv, acc, t)
     }) (\<lambda>(rv, acc, t). updated A plan cv pr iyy rv0 (before (a + 1) 0) rv \<and> acc_added A plan cv pr iyy acc0 (a + 1) acc \<and> t = (a + 1) * (a + 1 + 1) div 2)"
      unfolding st prod.case bv [OF a] bind.simps Let_def i(1) state_reads(1) [OF C pr a] c(1) c(2) ok_Some using i(2) c(3) by (simp add: add.assoc)
  next
    fix st :: "'b list \<times> 'b list \<times> int" assume I: "case st of (rv, acc, t) \<Rightarrow> updated A plan cv pr iyy rv0 (before (max 0 (sp_nb pr)) 0) rv
      \<and> acc_added A plan cv pr iyy acc0 (max 0 (sp_nb pr)) acc \<and> t = max 0 (sp_nb pr) * (max 0 (sp_nb pr) + 1) div 2"
    obtain rv acc t where st: "st = (rv, acc, t)" by (cases st)
    have n: "0 \<le> sp_nb pr" using pass_ctxD(3) [OF C] pr unfolding pairs_ok_def is_pair_def by auto
    have U: "updated A plan cv pr iyy rv0 (before (sp_nb pr) 0) rv" "acc_added A plan cv pr iyy acc0 (sp_nb pr) acc" using I n by (simp_all add: st max_def)
    have "updated A plan cv pr iyy rv0 (\<lambda>_ _. True) rv" using U(1) unfolding updated_def before_def by simp
    then show "case st of (rv, acc, t) \<Rightarrow> updated A plan cv pr iyy rv0 (\<lambda>_ _. True) rv \<and> acc_added A plan cv pr iyy acc0 (sp_nb pr) acc" using U(2) by (simp add: st)
  qed
  show ?thesis unfolding update_states_def prod.case ok_bind by (rule ok_mono [OF outer]) auto
qed

end
