(* ===== verification/SlackSchur.thy ===== *)
theory SlackSchur
  imports SlackPass
begin

text \<open>
  Why \<open>slack_pair_pass\<close> is right: the reduced values are the Schur complement of the pairs in the full matrix, the inverses
  stored for the solve are those of the pairs' blocks, and the counts are their inertia.
\<close>

section \<open>The kept values\<close>

lemma keep_slots:
  assumes C: "pass_ctx A plan R cv" and t: "t < length (pl_keep_src plan)"
  obtains i j where "is_slot A i j (pl_keep_src plan ! t)" "i \<notin> set (members (pl_pairs plan))" "j \<notin> set (members (pl_pairs plan))"
    "is_slot R (red_of (pl_pairs plan) i) (red_of (pl_pairs plan) j) (pl_keep_dst plan ! t)"
  using list_all2_nthD [OF pass_ctxD(13) [OF C] t] by blast

lemma keep_same:
  assumes C: "pass_ctx A plan R cv" and t: "t < length (pl_keep_src plan)" "u < length (pl_keep_src plan)" and e: "pl_keep_dst plan ! t = pl_keep_dst plan ! u"
  shows "pl_keep_src plan ! t = pl_keep_src plan ! u"
proof -
  note D = pass_ctxD [OF C]
  obtain i j where s: "is_slot A i j (pl_keep_src plan ! t)" "i \<notin> set (members (pl_pairs plan))" "j \<notin> set (members (pl_pairs plan))"
    "is_slot R (red_of (pl_pairs plan) i) (red_of (pl_pairs plan) j) (pl_keep_dst plan ! t)" by (rule keep_slots [OF C t(1)])
  obtain i' j' where s': "is_slot A i' j' (pl_keep_src plan ! u)" "i' \<notin> set (members (pl_pairs plan))" "j' \<notin> set (members (pl_pairs plan))"
    "is_slot R (red_of (pl_pairs plan) i') (red_of (pl_pairs plan) j') (pl_keep_dst plan ! u)" by (rule keep_slots [OF C t(2)])
  note eq = slot_column [OF csc_cleanD(1) [OF D(7)] s(4) s'(4) [folded e]]
  note r = slot_rows [OF D(1) s(1)] and r' = slot_rows [OF D(1) s'(1)]
  have "i = i'" by (rule red_of_inj [OF _ _ s(2) s'(2) eq(2)]) (use r r' in auto)
  moreover have "j = j'" by (rule red_of_inj [OF r(5) r'(5) s(3) s'(3) eq(1)])
  ultimately show ?thesis using slot_unique [OF D(1) s(1)] s'(1) by simp
qed

definition full_row :: "'v csc \<Rightarrow> slack_plan \<Rightarrow> int \<Rightarrow> int" where
  "full_row A plan r = elt (kept (pl_pairs plan) (csc_n A)) r"

lemma full_row_bounds:
  assumes "pass_ctx A plan R cv" "0 \<le> r" "r < pl_nr plan"
  shows "red_of (pl_pairs plan) (full_row A plan r) = r" "0 \<le> full_row A plan r" "full_row A plan r < csc_n A" "full_row A plan r \<notin> set (members (pl_pairs plan))"
  using red_of_kept [of r "pl_pairs plan" "csc_n A"] assms(2,3) pass_ctxD(9) [OF assms(1)] by (simp_all add: full_row_def)

lemma full_row_red: "0 \<le> v \<Longrightarrow> v < csc_n A \<Longrightarrow> v \<notin> set (members (pl_pairs plan)) \<Longrightarrow> full_row A plan (red_of (pl_pairs plan) v) = v"
  unfolding full_row_def by (rule red_of_bounds(3))

lemma full_row_mono:
  assumes C: "pass_ctx A plan R cv" and r: "0 \<le> c" "c \<le> r" "r < pl_nr plan"
  shows "full_row A plan c \<le> full_row A plan r"
proof (rule ccontr)
  assume n: "\<not> full_row A plan c \<le> full_row A plan r"
  note b = full_row_bounds [OF C, of r] full_row_bounds [OF C, of c]
  have "red_of (pl_pairs plan) (full_row A plan r) < red_of (pl_pairs plan) (full_row A plan c)"
    by (rule red_of_mono) (use b n r in auto)
  then show False using b r by simp
qed

lemma keep_values_ok:
  fixes cv :: "'a::linordered_field list"
  assumes C: "pass_ctx A plan R cv"
  shows "ok (keep_values plan cv) (\<lambda>rv. length rv = length (row_idx R)
    \<and> (\<forall>r c d. is_slot R r c d \<longrightarrow> elt rv d = sym_entry A cv (full_row A plan r) (full_row A plan c)))"
proof -
  note D = pass_ctxD [OF C]
  let ?ks = "pl_keep_src plan" and ?kd = "pl_keep_dst plan"
  have l: "length ?ks = length ?kd" using D(13) by (rule list_all2_lengthD)
  have "ok (keep_values plan cv) (\<lambda>rv. length rv = length (row_idx R) \<and> (\<forall>u < length ?ks. elt rv (?kd ! u) = elt cv (?ks ! u))
      \<and> (\<forall>d. 0 \<le> d \<and> d < int (length (row_idx R)) \<and> d \<notin> set ?kd \<longrightarrow> elt rv d = 0))"
    unfolding keep_values_def
  proof (rule for_range_ok [where I = "\<lambda>t rv. length rv = length (row_idx R) \<and> (\<forall>u < nat t. elt rv (?kd ! u) = elt cv (?ks ! u))
      \<and> (\<forall>d. 0 \<le> d \<and> d < int (length (row_idx R)) \<and> d \<notin> set ?kd \<longrightarrow> elt rv d = 0)"])
    fix t and rv :: "'a list" assume t: "0 \<le> t" "t < int (length ?ks)" and I: "length rv = length (row_idx R) \<and> (\<forall>u < nat t. elt rv (?kd ! u) = elt cv (?ks ! u))
      \<and> (\<forall>d. 0 \<le> d \<and> d < int (length (row_idx R)) \<and> d \<notin> set ?kd \<longrightarrow> elt rv d = 0)"
    have nt: "nat t < length ?ks" "nat (t + 1) = Suc (nat t)" using t by simp_all
    obtain i j where s: "is_slot A i j (?ks ! nat t)" "is_slot R (red_of (pl_pairs plan) i) (red_of (pl_pairs plan) j) (?kd ! nat t)"
      by (rule keep_slots [OF C nt(1)])
    have g: "vget ?ks t = Some (?ks ! nat t)" "vget ?kd t = Some (?kd ! nat t)" using t l by (simp_all add: vget_def)
    note b = slot_rows(3,4) [OF D(7) s(2)]
    have set: "vset rv (?kd ! nat t) v = Some (rv[nat (?kd ! nat t) := v])" for v using b I by (simp add: vset_def inb_def)
    have e: "elt (rv[nat (?kd ! nat t) := v]) d = (if d = ?kd ! nat t then v else elt rv d)" if "0 \<le> d" for d v
      using b I that by (auto simp: at_update)
    have kd0: "0 \<le> ?kd ! u" if "u < length ?ks" for u using keep_slots [OF C that] slot_rows(3) [OF D(7)] by metis
    show "ok (do {
       p \<leftarrow> vget ?ks t;
       v \<leftarrow> vget cv p;
       d \<leftarrow> vget ?kd t;
       vset rv d v
     }) (\<lambda>rv. length rv = length (row_idx R) \<and> (\<forall>u < nat (t + 1). elt rv (?kd ! u) = elt cv (?ks ! u))
      \<and> (\<forall>d. 0 \<le> d \<and> d < int (length (row_idx R)) \<and> d \<notin> set ?kd \<longrightarrow> elt rv d = 0))"
      unfolding g bind.simps slot_value [OF D(1,2) s(1)] set ok_Some nt(2)
    proof (intro conjI allI impI)
      show "length (rv[nat (?kd ! nat t) := elt cv (?ks ! nat t)]) = length (row_idx R)" using I by simp
    next
      fix u assume u: "u < Suc (nat t)"
      then have ul: "u < length ?ks" using nt by simp
      show "elt (rv[nat (?kd ! nat t) := elt cv (?ks ! nat t)]) (?kd ! u) = elt cv (?ks ! u)"
      proof (cases "?kd ! u = ?kd ! nat t")
        case True
        then show ?thesis using e [OF kd0 [OF ul]] keep_same [OF C ul nt(1) True] by simp
      next
        case False
        then have "u < nat t" using u less_antisym by blast
        then show ?thesis using e [OF kd0 [OF ul]] False I by simp
      qed
    next
      fix d assume d: "0 \<le> d \<and> d < int (length (row_idx R)) \<and> d \<notin> set ?kd"
      then have "d \<noteq> ?kd ! nat t" using nt(1) l by auto
      then show "elt (rv[nat (?kd ! nat t) := elt cv (?ks ! nat t)]) d = 0" using e [of d] d I by simp
    qed
  next
    show "length (replicate (nat (pl_reduced_nnz plan)) 0) = length (row_idx R) \<and> (\<forall>u<nat 0. elt (replicate (nat (pl_reduced_nnz plan)) 0) (?kd ! u) = elt cv (?ks ! u))
      \<and> (\<forall>d. 0 \<le> d \<and> d < int (length (row_idx R)) \<and> d \<notin> set ?kd \<longrightarrow> elt (replicate (nat (pl_reduced_nnz plan)) 0) d = (0 :: 'a))"
      unfolding D(10) by (auto simp: elt_replicate)
  next
    fix rv :: "'a list" assume "length rv = length (row_idx R) \<and> (\<forall>u<nat (max 0 (int (length ?ks))). elt rv (?kd ! u) = elt cv (?ks ! u))
      \<and> (\<forall>d. 0 \<le> d \<and> d < int (length (row_idx R)) \<and> d \<notin> set ?kd \<longrightarrow> elt rv d = 0)"
    then show "length rv = length (row_idx R) \<and> (\<forall>u < length ?ks. elt rv (?kd ! u) = elt cv (?ks ! u))
      \<and> (\<forall>d. 0 \<le> d \<and> d < int (length (row_idx R)) \<and> d \<notin> set ?kd \<longrightarrow> elt rv d = 0)" by simp
  qed
  then show ?thesis
  proof (rule ok_mono)
    fix rv :: "'a list" assume I: "length rv = length (row_idx R) \<and> (\<forall>u < length ?ks. elt rv (?kd ! u) = elt cv (?ks ! u))
      \<and> (\<forall>d. 0 \<le> d \<and> d < int (length (row_idx R)) \<and> d \<notin> set ?kd \<longrightarrow> elt rv d = 0)"
    have "elt rv d = sym_entry A cv (full_row A plan r) (full_row A plan c)" if d: "is_slot R r c d" for r c d
    proof -
      note b = slot_rows [OF D(7) d]
      have rc: "0 \<le> r" "r < pl_nr plan" "0 \<le> c" "c < pl_nr plan" using b D(8) by auto
      let ?i = "full_row A plan r" and ?j = "full_row A plan c"
      note fi = full_row_bounds [OF C rc(1,2)] and fj = full_row_bounds [OF C rc(3,4)]
      have ij: "max ?i ?j = ?i" "min ?i ?j = ?j" using full_row_mono [OF C rc(3) b(1) rc(2)] by simp_all
      show ?thesis
      proof (cases "\<exists>p. is_slot A ?i ?j p")
        case True
        then obtain p where p: "is_slot A ?i ?j p" by blast
        obtain u where u: "u < length ?ks" "?ks ! u = p" using D(14) [OF p fi(4) fj(4)] by (auto simp: in_set_conv_nth)
        obtain i j where s: "is_slot A i j (?ks ! u)" "is_slot R (red_of (pl_pairs plan) i) (red_of (pl_pairs plan) j) (?kd ! u)" by (rule keep_slots [OF C u(1)])
        have "i = ?i" "j = ?j" using slot_column [OF csc_cleanD(1) [OF D(1)] s(1) p [folded u(2)]] by simp_all
        then have "is_slot R r c (?kd ! u)" using s(2) fi(1) fj(1) by simp
        then have "?kd ! u = d" using slot_unique [OF D(7) d] by simp
        then show ?thesis using I u sym_entry_slot [OF D(1), of ?i ?j p cv] ij p by auto
      next
        case False
        have "d \<notin> set ?kd"
        proof
          assume "d \<in> set ?kd"
          then obtain u where u: "u < length ?ks" "?kd ! u = d" using l by (auto simp: in_set_conv_nth)
          obtain i j where s: "is_slot A i j (?ks ! u)" "i \<notin> set (members (pl_pairs plan))" "j \<notin> set (members (pl_pairs plan))"
            "is_slot R (red_of (pl_pairs plan) i) (red_of (pl_pairs plan) j) (?kd ! u)" by (rule keep_slots [OF C u(1)])
          have e: "red_of (pl_pairs plan) i = r" "red_of (pl_pairs plan) j = c" using slot_column [OF csc_cleanD(1) [OF D(7)] s(4) d [folded u(2)]] by simp_all
          note sr = slot_rows [OF D(1) s(1)]
          have "i = ?i" "j = ?j" using full_row_red [of i A plan] full_row_red [of j A plan] sr s(2,3) unfolding e by simp_all
          then show False using s(1) False by blast
        qed
        then show ?thesis using I b(3,4) sym_entry_none [of ?i ?j A cv] ij fj(2,3) False by auto
      qed
    qed
    then show "length rv = length (row_idx R) \<and> (\<forall>r c d. is_slot R r c d \<longrightarrow> elt rv d = sym_entry A cv (full_row A plan r) (full_row A plan c))" using I by blast
  qed
qed

section \<open>One pair's part of the Schur complement\<close>

definition pair_det :: "'v csc \<Rightarrow> 'a::linordered_field list \<Rightarrow> slack_pair \<Rightarrow> 'a" where
  "pair_det A cv pr = sym_entry A cv (sp_s pr) (sp_s pr) * sym_entry A cv (sp_y pr) (sp_y pr) - sym_entry A cv (sp_s pr) (sp_y pr) ^ 2"

text \<open>\<open>[M(i,s) M(i,y)] P^-1 [M(s,j) M(y,j)]^T\<close> for the block \<open>P\<close> of the pair.\<close>

definition schur_term :: "'v csc \<Rightarrow> 'a::linordered_field list \<Rightarrow> slack_pair \<Rightarrow> int \<Rightarrow> int \<Rightarrow> 'a" where
  "schur_term A cv pr i j = (let M = sym_entry A cv; s = sp_s pr; y = sp_y pr in
     (M i s * (M y y * M s j - M s y * M y j) + M i y * (M s s * M y j - M s y * M s j)) / pair_det A cv pr)"

lemma is_pairD:
  assumes C: "pass_ctx A plan R cv" and pr: "pr \<in> set (pl_pairs plan)"
  shows "is_slot A (sp_s pr) (sp_s pr) (sp_ss pr)" "is_slot A (max (sp_s pr) (sp_y pr)) (min (sp_s pr) (sp_y pr)) (sp_ys pr)"
    "if sp_yy pr < 0 then \<nexists>p. is_slot A (sp_y pr) (sp_y pr) p else is_slot A (sp_y pr) (sp_y pr) (sp_yy pr)"
    "0 \<le> sp_y pr" "sp_y pr < csc_n A" "0 \<le> sp_s pr" "sp_s pr < csc_n A" "adj A (sp_s pr) = [(sp_y pr, sp_ys pr)]"
    "sp_s pr \<in> set (members (pl_pairs plan))" "sp_y pr \<in> set (members (pl_pairs plan))" "0 \<le> sp_nb pr"
proof -
  note D = pass_ctxD [OF C]
  have p: "is_pair A pr" using D(3) pr unfolding pairs_ok_def by blast
  then show "is_slot A (sp_s pr) (sp_s pr) (sp_ss pr)" "0 \<le> sp_y pr" "sp_y pr < csc_n A" "0 \<le> sp_s pr" "sp_s pr < csc_n A"
    "if sp_yy pr < 0 then \<nexists>p. is_slot A (sp_y pr) (sp_y pr) p else is_slot A (sp_y pr) (sp_y pr) (sp_yy pr)"
    and a: "adj A (sp_s pr) = [(sp_y pr, sp_ys pr)]" unfolding is_pair_def by blast+
  have "(sp_y pr, sp_ys pr) \<in> set (adj A (sp_s pr))" using a by simp
  then show "is_slot A (max (sp_s pr) (sp_y pr)) (min (sp_s pr) (sp_y pr)) (sp_ys pr)" using adj_mem [OF D(1)] by blast
  show "sp_s pr \<in> set (members (pl_pairs plan))" "sp_y pr \<in> set (members (pl_pairs plan))" using pr by (auto simp: set_members)
  show "0 \<le> sp_nb pr" using p by (simp add: is_pair_def)
qed

lemma pair_entries_read:
  assumes C: "pass_ctx A plan R cv" and pr: "pr \<in> set (pl_pairs plan)"
  shows "vget cv (sp_ss pr) = Some (sym_entry A cv (sp_s pr) (sp_s pr))" "vget cv (sp_ys pr) = Some (sym_entry A cv (sp_s pr) (sp_y pr))"
    "(if sp_yy pr \<ge> 0 then vget cv (sp_yy pr) else Some 0) = Some (sym_entry A cv (sp_y pr) (sp_y pr))"
proof -
  note D = pass_ctxD [OF C] and p = is_pairD [OF C pr]
  show "vget cv (sp_ss pr) = Some (sym_entry A cv (sp_s pr) (sp_s pr))"
    using slot_value [OF D(1,2) p(1)] sym_entry_slot [OF D(1), of "sp_s pr" "sp_s pr" "sp_ss pr" cv] p(1) by simp
  show "vget cv (sp_ys pr) = Some (sym_entry A cv (sp_s pr) (sp_y pr))"
    using slot_value [OF D(1,2) p(2)] sym_entry_slot [OF D(1) p(2), of cv] by simp
  show "(if sp_yy pr \<ge> 0 then vget cv (sp_yy pr) else Some 0) = Some (sym_entry A cv (sp_y pr) (sp_y pr))"
  proof (cases "sp_yy pr < 0")
    case True
    then show ?thesis using p(3) sym_entry_none [of "sp_y pr" "sp_y pr" A cv] p(4,5) by simp
  next
    case False
    then have s: "is_slot A (sp_y pr) (sp_y pr) (sp_yy pr)" using p(3) by simp
    show ?thesis using False slot_value [OF D(1,2) s] sym_entry_slot [OF D(1), of "sp_y pr" "sp_y pr" "sp_yy pr" cv] s by simp
  qed
qed

text \<open>A row that stays touches a pair only through its multiplier, and that only when it is one of the states.\<close>

lemma kept_slack_zero:
  assumes C: "pass_ctx A plan R cv" and pr: "pr \<in> set (pl_pairs plan)" and i: "0 \<le> i" "i < csc_n A" "i \<notin> set (members (pl_pairs plan))"
  shows "sym_entry A cv i (sp_s pr) = 0"
proof (rule sym_entry_none)
  note D = pass_ctxD [OF C] and p = is_pairD [OF C pr]
  show "0 \<le> min i (sp_s pr)" "min i (sp_s pr) < csc_n A" using i p(6,7) by auto
  show "\<nexists>q. is_slot A (max i (sp_s pr)) (min i (sp_s pr)) q"
  proof
    assume "\<exists>q. is_slot A (max i (sp_s pr)) (min i (sp_s pr)) q"
    then obtain q where "is_slot A (max (sp_s pr) i) (min (sp_s pr) i) q" by (auto simp: max.commute min.commute)
    moreover have "sp_s pr \<noteq> i" using p(9) i(3) by auto
    ultimately have "(i, q) \<in> set (adj A (sp_s pr))" using adj_mem [OF D(1)] by blast
    then have "i = sp_y pr" using p(8) by simp
    then show False using i(3) p(10) by simp
  qed
qed

lemma state_entry:
  assumes C: "pass_ctx A plan R cv" and pr: "pr \<in> set (pl_pairs plan)" and t: "0 \<le> t" "t < sp_nb pr"
  shows "sym_entry A cv (full_row A plan (state_row_of A plan pr t)) (sp_y pr) = state_value A cv pr t"
proof -
  note D = pass_ctxD [OF C] and p = is_pairD [OF C pr]
  let ?S = "states A (sp_s pr) (sp_y pr)"
  have nb: "sp_nb pr = int (length ?S)" using pair_entries(3) [OF D(3) pr t] .
  let ?e = "elt ?S t"
  have m: "?e \<in> set ?S" using t nb by (simp add: elt_in_set)
  have r: "state_row_of A plan pr t = red_of (pl_pairs plan) (fst ?e)" using t nb by (simp add: state_row_of_def red_states_def elt_def)
  have f: "full_row A plan (state_row_of A plan pr t) = fst ?e"
    unfolding r by (rule full_row_red) (use state_row [OF D(1,3) pr m] in auto)
  have "(fst ?e, snd ?e) \<in> set (adj A (sp_y pr))" using m by (simp add: states_def)
  then have "is_slot A (max (fst ?e) (sp_y pr)) (min (fst ?e) (sp_y pr)) (snd ?e)" using adj_mem [OF D(1)] by (metis max.commute min.commute)
  then show ?thesis unfolding f state_value_def by (rule sym_entry_slot [OF D(1)])
qed

lemma other_entry:
  assumes C: "pass_ctx A plan R cv" and pr: "pr \<in> set (pl_pairs plan)" and r: "0 \<le> r" "r < pl_nr plan"
    and n: "\<And>t. 0 \<le> t \<Longrightarrow> t < sp_nb pr \<Longrightarrow> r \<noteq> state_row_of A plan pr t"
  shows "sym_entry A cv (full_row A plan r) (sp_y pr) = 0"
proof (rule sym_entry_none)
  note D = pass_ctxD [OF C] and p = is_pairD [OF C pr]
  let ?i = "full_row A plan r" and ?S = "states A (sp_s pr) (sp_y pr)"
  note fi = full_row_bounds [OF C r]
  show "0 \<le> min ?i (sp_y pr)" "min ?i (sp_y pr) < csc_n A" using fi p(4,5) by auto
  show "\<nexists>q. is_slot A (max ?i (sp_y pr)) (min ?i (sp_y pr)) q"
  proof
    assume "\<exists>q. is_slot A (max ?i (sp_y pr)) (min ?i (sp_y pr)) q"
    then obtain q where "is_slot A (max (sp_y pr) ?i) (min (sp_y pr) ?i) q" by (auto simp: max.commute min.commute)
    moreover have "sp_y pr \<noteq> ?i" "?i \<noteq> sp_s pr" using p(9,10) fi(4) by auto
    ultimately have "(?i, q) \<in> set ?S" using adj_mem [OF D(1)] by (auto simp: states_def)
    then obtain t where t: "0 \<le> t" "t < int (length ?S)" "elt ?S t = (?i, q)" by (auto simp: in_set_elt)
    have nb: "sp_nb pr = int (length ?S)" using D(3) pr by (simp add: pairs_ok_def is_pair_def)
    have "state_row_of A plan pr t = red_of (pl_pairs plan) (fst (elt ?S t))" using t(1,2) by (simp add: state_row_of_def red_states_def elt_def)
    then have "state_row_of A plan pr t = r" unfolding t(3) using fi(1) by simp
    then show False using n [of t] t nb by simp
  qed
qed

lemma schur_term_kept:
  assumes C: "pass_ctx A plan R cv" and pr: "pr \<in> set (pl_pairs plan)" and r: "0 \<le> r" "r < pl_nr plan" "0 \<le> c" "c < pl_nr plan"
  shows "schur_term A cv pr (full_row A plan r) (full_row A plan c)
    = sym_entry A cv (full_row A plan r) (sp_y pr) * (sym_entry A cv (sp_s pr) (sp_s pr) / pair_det A cv pr) * sym_entry A cv (full_row A plan c) (sp_y pr)"
proof -
  let ?i = "full_row A plan r" and ?j = "full_row A plan c"
  have i: "sym_entry A cv ?i (sp_s pr) = 0" using kept_slack_zero [OF C pr full_row_bounds(2-4) [OF C r(1,2)]] .
  have j: "sym_entry A cv (sp_s pr) ?j = 0"
    using kept_slack_zero [OF C pr full_row_bounds(2-4) [OF C r(3,4)]] sym_entry_sym [of A cv "sp_s pr" ?j] by simp
  have y: "sym_entry A cv (sp_y pr) ?j = sym_entry A cv ?j (sp_y pr)" by (rule sym_entry_sym)
  show ?thesis unfolding schur_term_def Let_def i j y by simp
qed

text \<open>What the update subtracts from an entry of the reduced matrix.\<close>

lemma updated_entry:
  assumes C: "pass_ctx A plan R cv" and pr: "pr \<in> set (pl_pairs plan)" and d: "is_slot R r c d"
    and U: "updated A plan cv pr iyy rv0 (\<lambda>_ _. True) rv" and iyy: "iyy = sym_entry A cv (sp_s pr) (sp_s pr) / pair_det A cv pr"
  shows "elt rv d = elt rv0 d - schur_term A cv pr (full_row A plan r) (full_row A plan c)"
proof -
  note D = pass_ctxD [OF C]
  note b = slot_rows [OF D(7) d]
  have rc: "0 \<le> r" "r < pl_nr plan" "0 \<le> c" "c < pl_nr plan" using b D(8) by auto
  let ?x = "state_value A cv pr" and ?row = "state_row_of A plan pr"
  note T = schur_term_kept [OF C pr rc, folded iyy]
  show ?thesis
  proof (cases "(\<exists>t. 0 \<le> t \<and> t < sp_nb pr \<and> r = ?row t) \<and> (\<exists>u. 0 \<le> u \<and> u < sp_nb pr \<and> c = ?row u)")
    case True
    then obtain t u where t: "0 \<le> t" "t < sp_nb pr" "r = ?row t" and u: "0 \<le> u" "u < sp_nb pr" "c = ?row u" by blast
    let ?a = "max t u" and ?c = "min t u"
    have ac: "0 \<le> ?c" "?c \<le> ?a" "?a < sp_nb pr" using t u by auto
    have mm: "max (?row ?a) (?row ?c) = r" "min (?row ?a) (?row ?c) = c" using t(3) u(3) b(1) by (auto simp: max_def min_def)
    have "state_slot plan pr ?a ?c = d" using slot_unique [OF D(7) state_slots(2) [OF C pr ac, unfolded mm] d] .
    moreover have "elt rv (state_slot plan pr ?a ?c) = elt rv0 (state_slot plan pr ?a ?c) - ?x ?a * iyy * ?x ?c" using U ac unfolding updated_def by simp
    moreover have "?x ?a * iyy * ?x ?c = ?x t * iyy * ?x u" by (simp add: max_def min_def)
    ultimately show ?thesis unfolding T unfolding t(3) u(3) state_entry [OF C pr t(1,2)] state_entry [OF C pr u(1,2)] by simp
  next
    case False
    then have "sym_entry A cv (full_row A plan r) (sp_y pr) = 0 \<or> sym_entry A cv (full_row A plan c) (sp_y pr) = 0"
      using other_entry [OF C pr rc(1,2)] other_entry [OF C pr rc(3,4)] by blast
    moreover have "d \<noteq> state_slot plan pr a e" if "0 \<le> e" "e \<le> a" "a < sp_nb pr" for a e
    proof
      assume "d = state_slot plan pr a e"
      then have "r = max (?row a) (?row e)" "c = min (?row a) (?row e)"
        using slot_column [OF csc_cleanD(1) [OF D(7)] d] state_slots(2) [OF C pr that] by blast+
      then have "r = ?row a \<and> c = ?row e \<or> r = ?row e \<and> c = ?row a" by linarith
      moreover have "0 \<le> a" "e < sp_nb pr" using that by auto
      ultimately show False using False that by blast
    qed
    then have "elt rv d = elt rv0 d" using U b(3) unfolding updated_def by blast
    ultimately show ?thesis unfolding T by auto
  qed
qed

lemma added_acc:
  assumes C: "pass_ctx A plan R cv" and pr: "pr \<in> set (pl_pairs plan)" and r: "0 \<le> r" "r < pl_nr plan"
    and U: "acc_added A plan cv pr iyy acc0 (sp_nb pr) acc" and iyy: "iyy = sym_entry A cv (sp_s pr) (sp_s pr) / pair_det A cv pr"
  shows "elt acc r = elt acc0 r + \<bar>schur_term A cv pr (full_row A plan r) (full_row A plan r)\<bar>"
proof (cases "\<exists>t. 0 \<le> t \<and> t < sp_nb pr \<and> r = state_row_of A plan pr t")
  case True
  then obtain t where t: "0 \<le> t" "t < sp_nb pr" "r = state_row_of A plan pr t" by blast
  have "elt acc (state_row_of A plan pr t) = elt acc0 (state_row_of A plan pr t) + \<bar>state_value A cv pr t * iyy * state_value A cv pr t\<bar>"
    using U t(1,2) unfolding acc_added_def by simp
  then show ?thesis unfolding schur_term_kept [OF C pr r r, folded iyy] unfolding t(3) state_entry [OF C pr t(1,2)] .
next
  case False
  then have "sym_entry A cv (full_row A plan r) (sp_y pr) = 0" by (intro other_entry [OF C pr r]) blast
  moreover have "elt acc r = elt acc0 r" using U r(1) False unfolding acc_added_def by blast
  ultimately show ?thesis unfolding schur_term_kept [OF C pr r r] by simp
qed

section \<open>The block of a pair\<close>

lemma pair_block_ok:
  fixes a :: "'a::linordered_field"
  assumes e: "pair_block a b d = (sc, hs, hsy, hy, hdet)" and g: "pair_det_ok sc hs hsy hy hdet"
  shows "a * d - b ^ 2 \<noteq> 0" "hdet < 0 \<longleftrightarrow> a * d - b ^ 2 < 0"
    "hy * (sc / hdet) = d / (a * d - b ^ 2)" "- hsy * (sc / hdet) = - b / (a * d - b ^ 2)" "hs * (sc / hdet) = a / (a * d - b ^ 2)"
proof -
  have h: "hs = a * sc" "hsy = b * sc" "hy = d * sc" "hdet = hs * hy - hsy * hsy" using e by (auto simp: pair_block_def Let_def)
  have sc: "0 < sc" and big: "1000 * (1 / 2 ^ 52) * (\<bar>hs * hy\<bar> + hsy * hsy) < \<bar>hdet\<bar>" using g by (simp_all add: pair_det_ok_def)
  have "0 \<le> \<bar>hs * hy\<bar> + hsy * hsy" by simp
  then have "0 \<le> 1000 * (1 / 2 ^ 52) * (\<bar>hs * hy\<bar> + hsy * hsy)" by (intro mult_nonneg_nonneg) simp_all
  then have "0 < \<bar>hdet\<bar>" using big by (rule le_less_trans)
  then have nz: "hdet \<noteq> 0" by simp
  have det: "hdet = sc ^ 2 * (a * d - b ^ 2)" unfolding h(4) h(1-3) by (simp add: power2_eq_square algebra_simps)
  have s2: "0 < sc ^ 2" using sc by simp
  show d0: "a * d - b ^ 2 \<noteq> 0" using nz det by auto
  show "hdet < 0 \<longleftrightarrow> a * d - b ^ 2 < 0" unfolding det using s2 by (simp add: mult_less_0_iff)
  have q: "x * sc * (sc / hdet) = x / (a * d - b ^ 2)" for x
  proof -
    have "x * sc * (sc / hdet) = (sc ^ 2 * x) / (sc ^ 2 * (a * d - b ^ 2))" unfolding det by (simp add: power2_eq_square)
    also have "\<dots> = x / (a * d - b ^ 2)" using s2 by (intro mult_divide_mult_cancel_left) simp
    finally show ?thesis .
  qed
  show "hy * (sc / hdet) = d / (a * d - b ^ 2)" "- hsy * (sc / hdet) = - b / (a * d - b ^ 2)" "hs * (sc / hdet) = a / (a * d - b ^ 2)"
    unfolding h(1-3) using q [of d] q [of "- b"] q [of a] by simp_all
qed

text \<open>\<open>p\<close> positive and \<open>n\<close> negative eigenvalues of \<open>[a b; b d]\<close>, by its quadratic form.\<close>

definition block_inertia :: "'a::linordered_field \<Rightarrow> 'a \<Rightarrow> 'a \<Rightarrow> int \<times> int \<Rightarrow> bool" where
  "block_inertia a b d pn \<longleftrightarrow> pn = (2, 0) \<and> (\<forall>x y. x \<noteq> 0 \<or> y \<noteq> 0 \<longrightarrow> 0 < quad_form a b d x y)
     \<or> pn = (0, 2) \<and> (\<forall>x y. x \<noteq> 0 \<or> y \<noteq> 0 \<longrightarrow> quad_form a b d x y < 0)
     \<or> pn = (1, 1) \<and> (\<exists>x y. 0 < quad_form a b d x y) \<and> (\<exists>x y. quad_form a b d x y < 0)"

lemma block_inertia_signs:
  fixes a :: "'a::linordered_field"
  assumes "a * d - b ^ 2 \<noteq> 0"
  shows "block_inertia a b d (if a * d - b ^ 2 < 0 then (1, 1) else if a + d > 0 then (2, 0) else (0, 2))"
proof (cases "a * d - b ^ 2 < 0")
  case True
  then show ?thesis using indefinite [OF True] by (simp add: block_inertia_def)
next
  case False
  then have det: "0 < a * d - b ^ 2" using assms by simp
  note q = definite_iff [OF det]
  from pos_det_trace [OF det] consider "a > 0" "d > 0" | "a < 0" "d < 0" by blast
  then show ?thesis
  proof cases
    case 1
    then have "\<forall>x y. x \<noteq> 0 \<or> y \<noteq> 0 \<longrightarrow> 0 < quad_form a b d x y" using q by (simp add: zero_less_mult_iff)
    then show ?thesis using False 1 by (simp add: block_inertia_def)
  next
    case 2
    then have "\<forall>x y. x \<noteq> 0 \<or> y \<noteq> 0 \<longrightarrow> quad_form a b d x y < 0" using q by (fastforce simp: zero_less_mult_iff)
    moreover have "\<not> 0 < a + d" using 2 by simp
    ultimately show ?thesis using False by (simp add: block_inertia_def)
  qed
qed

text \<open>The pairs the pass accepts.\<close>

definition pair_good :: "'v csc \<Rightarrow> slack_plan \<Rightarrow> 'a::linordered_field list \<Rightarrow> 'a option \<Rightarrow> slack_pair \<Rightarrow> bool" where
  "pair_good A plan cv limit pr \<longleftrightarrow> (let M = sym_entry A cv; (sc, hs, hsy, hy, hdet) = pair_block (M (sp_s pr) (sp_s pr)) (M (sp_s pr) (sp_y pr)) (M (sp_y pr) (sp_y pr)) in
     pair_det_ok sc hs hsy hy hdet)
     \<and> (\<forall>l. limit = Some l \<longrightarrow> (\<forall>t. 0 \<le> t \<and> t < sp_nb pr \<longrightarrow> growth_of A plan cv pr (sym_entry A cv (sp_s pr) (sp_s pr) / pair_det A cv pr) t \<le> l))"

section \<open>One pair\<close>

lemma pair_step_ok:
  fixes cv :: "'a::linordered_field list"
  assumes C: "pass_ctx A plan R cv" and q: "0 \<le> q" "q < int (length (pl_pairs plan))" and lim: "\<And>l. limit = Some l \<Longrightarrow> 0 < l"
    and l: "length rv = length (row_idx R)" "int (length (sf_pinv sf)) = 3 * int (length (pl_pairs plan))"
      "length (sf_bval sf) = length (pl_b_slot plan)" "int (length (sf_acc sf)) = pl_nr plan"
  shows "ok (pair_step plan cv limit q (rv, sf, pos, neg)) (\<lambda>(rv', sf', pos', neg'). length rv' = length rv \<and> length (sf_pinv sf') = length (sf_pinv sf)
    \<and> length (sf_bval sf') = length (sf_bval sf) \<and> length (sf_acc sf') = length (sf_acc sf)
    \<and> (let pr = elt (pl_pairs plan) q; M = sym_entry A cv; a = M (sp_s pr) (sp_s pr); b = M (sp_s pr) (sp_y pr); d = M (sp_y pr) (sp_y pr); det = pair_det A cv pr in
       (\<forall>t. 0 \<le> t \<and> t < sp_nb pr \<longrightarrow> elt (sf_bval sf') (sp_b0 pr + t) = state_value A cv pr t)
       \<and> (\<forall>i. 0 \<le> i \<and> (i < sp_b0 pr \<or> sp_b0 pr + sp_nb pr \<le> i) \<longrightarrow> elt (sf_bval sf') i = elt (sf_bval sf) i)
       \<and> sf_fails sf' = sf_fails sf + (if pair_good A plan cv limit pr then 0 else 1)
       \<and> (pair_good A plan cv limit pr \<longrightarrow> det \<noteq> 0
          \<and> (\<forall>r c d. is_slot R r c d \<longrightarrow> elt rv' d = elt rv d - schur_term A cv pr (full_row A plan r) (full_row A plan c))
          \<and> (\<forall>r. 0 \<le> r \<and> r < pl_nr plan \<longrightarrow> elt (sf_acc sf') r = elt (sf_acc sf) r + \<bar>schur_term A cv pr (full_row A plan r) (full_row A plan r)\<bar>)
          \<and> elt (sf_pinv sf') (3 * q) = d / det \<and> elt (sf_pinv sf') (3 * q + 1) = - b / det \<and> elt (sf_pinv sf') (3 * q + 2) = a / det
          \<and> (\<forall>i. 0 \<le> i \<and> i < 3 * q \<longrightarrow> elt (sf_pinv sf') i = elt (sf_pinv sf) i)
          \<and> block_inertia a b d (pos' - pos, neg' - neg))))"
proof -
  define pr where "pr = elt (pl_pairs plan) q"
  have g: "vget (pl_pairs plan) q = Some pr" using q by (simp add: pr_def vget_at)
  have pr: "pr \<in> set (pl_pairs plan)" unfolding pr_def using q by (rule elt_in_set)
  define a b d where "a = sym_entry A cv (sp_s pr) (sp_s pr)" and "b = sym_entry A cv (sp_s pr) (sp_y pr)" and "d = sym_entry A cv (sp_y pr) (sp_y pr)"
  have det: "pair_det A cv pr = a * d - b ^ 2" by (simp add: pair_det_def a_def b_def d_def)
  note rd = pair_entries_read [OF C pr, folded a_def b_def d_def]
  obtain bv where bv: "load_states plan cv pr (sf_bval sf) = Some bv" "length bv = length (sf_bval sf)"
    "\<And>t. 0 \<le> t \<Longrightarrow> t < sp_nb pr \<Longrightarrow> elt bv (sp_b0 pr + t) = state_value A cv pr t"
    "\<And>i. 0 \<le> i \<Longrightarrow> i < sp_b0 pr \<or> sp_b0 pr + sp_nb pr \<le> i \<Longrightarrow> elt bv i = elt (sf_bval sf) i"
    using ok_ex [OF load_states_ok [OF C pr l(3)]] by blast
  obtain sc hs hsy hy hdet where blk: "pair_block a b d = (sc, hs, hsy, hy, hdet)" by (cases "pair_block a b d") auto
  show ?thesis
  proof (cases "pair_det_ok sc hs hsy hy hdet")
    case False
    then have "\<not> pair_good A plan cv limit pr" by (simp add: pair_good_def Let_def a_def [symmetric] b_def [symmetric] d_def [symmetric] blk)
    then show ?thesis unfolding pair_step_def prod.case g bind.simps rd bv(1) blk Let_def pr_def [symmetric] using False bv(2-4) by simp
  next
    case True
    note bo = pair_block_ok [OF blk True, folded det]
    have bl: "length bv = length (pl_b_slot plan)" using bv(2) l(3) by simp
    let ?iyy = "a / pair_det A cv pr"
    obtain gr where gr: "growth_ratio plan cv pr ?iyy bv = Some gr" "0 \<le> gr" "\<And>t. 0 \<le> t \<Longrightarrow> t < sp_nb pr \<Longrightarrow> growth_of A plan cv pr ?iyy t \<le> gr"
      "gr = 0 \<or> (\<exists>t. 0 \<le> t \<and> t < sp_nb pr \<and> gr = growth_of A plan cv pr ?iyy t)"
      using ok_ex [OF growth_ratio_ok [OF C pr bl bv(3)]] by blast
    have good: "pair_good A plan cv limit pr \<longleftrightarrow> (case limit of None \<Rightarrow> True | Some l \<Rightarrow> gr \<le> l)"
    proof (cases limit)
      case None
      then show ?thesis using True by (simp add: pair_good_def Let_def a_def [symmetric] b_def [symmetric] d_def [symmetric] blk)
    next
      case (Some l)
      have "gr \<le> l \<longleftrightarrow> (\<forall>t. 0 \<le> t \<and> t < sp_nb pr \<longrightarrow> growth_of A plan cv pr ?iyy t \<le> l)"
        using gr(2-4) lim [OF Some] by (meson less_imp_le order_trans)
      then show ?thesis using True Some by (simp add: pair_good_def Let_def a_def [symmetric] b_def [symmetric] d_def [symmetric] blk)
    qed
    show ?thesis
    proof (cases "case limit of None \<Rightarrow> True | Some l \<Rightarrow> gr \<le> l")
      case False
      then have ng: "\<not> pair_good A plan cv limit pr" using good by blast
      have "pair_step plan cv limit q (rv, sf, pos, neg) = Some (rv, sf\<lparr>sf_bval := bv, sf_max_slack := max (sf_max_slack sf) \<bar>a\<bar>,
          sf_max_growth := max (sf_max_growth sf) gr, sf_fails := sf_fails sf + 1\<rparr>, pos, neg)"
        unfolding pair_step_def prod.case g bind.simps rd bv(1) blk Let_def bo(3-5) slack_factor.simps gr(1) using True False by simp
      then show ?thesis unfolding Let_def pr_def [symmetric] using ng bv(2-4) by simp
    next
      case lm: True
      then have gd: "pair_good A plan cv limit pr" using good by blast
      obtain rv' acc' where up: "update_states plan pr ?iyy bv (rv, sf_acc sf) = Some (rv', acc')" "updated A plan cv pr ?iyy rv (\<lambda>_ _. True) rv'"
        "acc_added A plan cv pr ?iyy (sf_acc sf) (sp_nb pr) acc'"
        using ok_ex [OF update_states_ok [OF C pr bl bv(3) l(1,4), of ?iyy]] by auto
      have np: "nat (3 * q) < length (sf_pinv sf)" "nat (3 * q + 1) < length (sf_pinv sf)" "nat (3 * q + 2) < length (sf_pinv sf)" using q l(2) by linarith+
      let ?pinv = "(sf_pinv sf)[nat (3 * q) := d / pair_det A cv pr, nat (3 * q + 1) := - b / pair_det A cv pr, nat (3 * q + 2) := ?iyy]"
      have sets: "vset (sf_pinv sf) (3 * q) x = Some ((sf_pinv sf)[nat (3 * q) := x])"
        "vset ((sf_pinv sf)[nat (3 * q) := x]) (3 * q + 1) y = Some ((sf_pinv sf)[nat (3 * q) := x, nat (3 * q + 1) := y])"
        "vset ((sf_pinv sf)[nat (3 * q) := x, nat (3 * q + 1) := y]) (3 * q + 2) z = Some ((sf_pinv sf)[nat (3 * q) := x, nat (3 * q + 1) := y, nat (3 * q + 2) := z])" for x y z
        using np q(1) by (simp_all add: vset_def inb_def)
      have rd3: "elt ?pinv (3 * q) = d / pair_det A cv pr" "elt ?pinv (3 * q + 1) = - b / pair_det A cv pr" "elt ?pinv (3 * q + 2) = ?iyy"
        "\<forall>i. 0 \<le> i \<and> i < 3 * q \<longrightarrow> elt ?pinv i = elt (sf_pinv sf) i"
        using np q(1) by (simp_all add: at_update)
      let ?pn = "if hdet < 0 then (pos + 1, neg + 1) else if a + d > 0 then (pos + 2, neg) else (pos, neg + 2)"
      obtain pos' neg' where pn: "?pn = (pos', neg')" by (cases ?pn)
      have "(pos' - pos, neg' - neg) = (if a * d - b ^ 2 < 0 then (1, 1) else if a + d > 0 then (2, 0) else (0, 2))"
        using pn bo(2) det by (auto split: if_splits)
      then have inert: "block_inertia a b d (pos' - pos, neg' - neg)" using block_inertia_signs [of a d b] bo(1) det by simp
      have run: "pair_step plan cv limit q (rv, sf, pos, neg) = Some (rv', sf\<lparr>sf_bval := bv, sf_max_slack := max (sf_max_slack sf) \<bar>a\<bar>,
          sf_max_growth := max (sf_max_growth sf) gr, sf_pinv := ?pinv, sf_acc := acc'\<rparr>, pos', neg')"
        unfolding pair_step_def prod.case g bind.simps rd bv(1) blk Let_def bo(3-5) slack_factor.simps gr(1) pn using True lm by (simp add: sets up(1))
      have lens: "length rv' = length rv" "length acc' = length (sf_acc sf)" using up(2,3) by (simp_all add: updated_def acc_added_def)
      note ent = updated_entry [OF C pr _ up(2)] and acs = added_acc [OF C pr _ _ up(3)]
      show ?thesis unfolding run ok_Some prod.case Let_def pr_def [symmetric] slack_factor.simps a_def [symmetric] b_def [symmetric] d_def [symmetric]
        using lens bv(2-4) gd bo(1) rd3 inert ent acs by (simp add: a_def)
    qed
  qed
qed

section \<open>All pairs\<close>

definition schur_entry :: "'v csc \<Rightarrow> slack_plan \<Rightarrow> 'a::linordered_field list \<Rightarrow> slack_pair list \<Rightarrow> int \<Rightarrow> int \<Rightarrow> 'a" where
  "schur_entry A plan cv ps r c = sym_entry A cv (full_row A plan r) (full_row A plan c)
     - (\<Sum>pr\<leftarrow>ps. schur_term A cv pr (full_row A plan r) (full_row A plan c))"

definition inverse_at :: "'v csc \<Rightarrow> 'a::linordered_field list \<Rightarrow> slack_pair list \<Rightarrow> 'a list \<Rightarrow> int \<Rightarrow> bool" where
  "inverse_at A cv pairs pinv u \<longleftrightarrow> (let pr = elt pairs u; M = sym_entry A cv; det = pair_det A cv pr in det \<noteq> 0
     \<and> elt pinv (3 * u) = M (sp_y pr) (sp_y pr) / det \<and> elt pinv (3 * u + 1) = - M (sp_s pr) (sp_y pr) / det \<and> elt pinv (3 * u + 2) = M (sp_s pr) (sp_s pr) / det)"

definition pairs_inertia :: "'v csc \<Rightarrow> 'a::linordered_field list \<Rightarrow> slack_pair list \<Rightarrow> int \<times> int \<Rightarrow> bool" where
  "pairs_inertia A cv ps pn \<longleftrightarrow> (\<exists>sg. list_all2 (\<lambda>pr. block_inertia (sym_entry A cv (sp_s pr) (sp_s pr)) (sym_entry A cv (sp_s pr) (sp_y pr)) (sym_entry A cv (sp_y pr) (sp_y pr))) ps sg
     \<and> pn = (\<Sum>x\<leftarrow>sg. fst x, \<Sum>x\<leftarrow>sg. snd x))"

definition pass_inv :: "'v csc \<Rightarrow> slack_plan \<Rightarrow> unit csc \<Rightarrow> 'a::linordered_field list \<Rightarrow> 'a option \<Rightarrow> int \<Rightarrow> int \<Rightarrow> int
    \<Rightarrow> 'a list \<times> 'a slack_factor \<times> int \<times> int \<Rightarrow> bool" where
  "pass_inv A plan R cv limit pos0 neg0 q = (\<lambda>(rv, sf, pos, neg). let ps = take (nat q) (pl_pairs plan) in
     length rv = length (row_idx R) \<and> int (length (sf_pinv sf)) = 3 * int (length (pl_pairs plan)) \<and> length (sf_bval sf) = length (pl_b_slot plan)
     \<and> int (length (sf_acc sf)) = pl_nr plan \<and> 0 \<le> sf_fails sf \<and> (sf_fails sf = 0 \<longleftrightarrow> (\<forall>pr \<in> set ps. pair_good A plan cv limit pr))
     \<and> (\<forall>i. 0 \<le> i \<and> i < (\<Sum>p\<leftarrow>ps. sp_nb p) \<longrightarrow> elt (sf_bval sf) i = elt cv (elt (pl_b_slot plan) i))
     \<and> ((\<forall>pr \<in> set ps. pair_good A plan cv limit pr) \<longrightarrow>
          (\<forall>r c d. is_slot R r c d \<longrightarrow> elt rv d = schur_entry A plan cv ps r c)
        \<and> (\<forall>r. 0 \<le> r \<and> r < pl_nr plan \<longrightarrow> elt (sf_acc sf) r = (\<Sum>pr\<leftarrow>ps. \<bar>schur_term A cv pr (full_row A plan r) (full_row A plan r)\<bar>))
        \<and> (\<forall>u. 0 \<le> u \<and> u < q \<longrightarrow> inverse_at A cv (pl_pairs plan) (sf_pinv sf) u)
        \<and> pairs_inertia A cv ps (pos - pos0, neg - neg0)))"

lemma pairs_inertia_snoc:
  assumes "pairs_inertia A cv ps (p, n)"
    "block_inertia (sym_entry A cv (sp_s pr) (sp_s pr)) (sym_entry A cv (sp_s pr) (sp_y pr)) (sym_entry A cv (sp_y pr) (sp_y pr)) (p', n')"
  shows "pairs_inertia A cv (ps @ [pr]) (p + p', n + n')"
proof -
  obtain sg where s: "list_all2 (\<lambda>pr. block_inertia (sym_entry A cv (sp_s pr) (sp_s pr)) (sym_entry A cv (sp_s pr) (sp_y pr)) (sym_entry A cv (sp_y pr) (sp_y pr))) ps sg"
    "p = (\<Sum>x\<leftarrow>sg. fst x)" "n = (\<Sum>x\<leftarrow>sg. snd x)" using assms(1) by (auto simp: pairs_inertia_def)
  show ?thesis unfolding pairs_inertia_def
    by (rule exI [of _ "sg @ [(p', n')]"]) (use s assms(2) in \<open>auto intro: list_all2_appendI\<close>)
qed

lemma pair_offset:
  assumes P: "pairs_ok A pairs" and q: "q < length pairs"
  shows "sp_b0 (pairs ! q) = (\<Sum>p\<leftarrow>take q pairs. sp_nb p)"
proof -
  have "pairs = take q pairs @ pairs ! q # drop (Suc q) pairs" using q by (rule id_take_nth_drop)
  moreover have "tiled 0 pairs" using P by (simp add: pairs_ok_def)
  ultimately show ?thesis using tiled_append [of 0 "take q pairs" "pairs ! q" "drop (Suc q) pairs"] by simp
qed

lemma pass_step:
  fixes cv :: "'a::linordered_field list"
  assumes C: "pass_ctx A plan R cv" and q: "0 \<le> q" "q < int (length (pl_pairs plan))" and lim: "\<And>l. limit = Some l \<Longrightarrow> 0 < l"
    and I: "pass_inv A plan R cv limit pos0 neg0 q st"
  shows "ok (pair_step plan cv limit q st) (pass_inv A plan R cv limit pos0 neg0 (q + 1))"
proof -
  obtain rv sf pos neg where st: "st = (rv, sf, pos, neg)" by (cases st)
  let ?ps = "take (nat q) (pl_pairs plan)" and ?pr = "pl_pairs plan ! nat q"
  have L: "length rv = length (row_idx R)" "int (length (sf_pinv sf)) = 3 * int (length (pl_pairs plan))" "length (sf_bval sf) = length (pl_b_slot plan)"
    "int (length (sf_acc sf)) = pl_nr plan" and F: "0 \<le> sf_fails sf" "sf_fails sf = 0 \<longleftrightarrow> (\<forall>pr \<in> set ?ps. pair_good A plan cv limit pr)"
    and B: "\<And>i. 0 \<le> i \<Longrightarrow> i < (\<Sum>p\<leftarrow>?ps. sp_nb p) \<Longrightarrow> elt (sf_bval sf) i = elt cv (elt (pl_b_slot plan) i)"
    and G: "(\<forall>pr \<in> set ?ps. pair_good A plan cv limit pr) \<Longrightarrow> (\<forall>r c d. is_slot R r c d \<longrightarrow> elt rv d = schur_entry A plan cv ?ps r c)
        \<and> (\<forall>r. 0 \<le> r \<and> r < pl_nr plan \<longrightarrow> elt (sf_acc sf) r = (\<Sum>pr\<leftarrow>?ps. \<bar>schur_term A cv pr (full_row A plan r) (full_row A plan r)\<bar>))
        \<and> (\<forall>u. 0 \<le> u \<and> u < q \<longrightarrow> inverse_at A cv (pl_pairs plan) (sf_pinv sf) u) \<and> pairs_inertia A cv ?ps (pos - pos0, neg - neg0)"
    using I unfolding st pass_inv_def prod.case Let_def by blast+
  have nq: "nat q < length (pl_pairs plan)" "nat (q + 1) = Suc (nat q)" using q by simp_all
  have ps: "take (nat (q + 1)) (pl_pairs plan) = ?ps @ [?pr]" unfolding nq(2) by (rule take_Suc_conv_app_nth [OF nq(1)])
  have pr: "?pr \<in> set (pl_pairs plan)" using nq(1) by (rule nth_mem)
  have b0: "sp_b0 ?pr = (\<Sum>p\<leftarrow>?ps. sp_nb p)" by (rule pair_offset [OF pass_ctxD(3) [OF C] nq(1)])
  have el: "elt (pl_pairs plan) q = ?pr" by (simp add: elt_def)
  show ?thesis
    unfolding st
  proof (rule ok_mono [OF pair_step_ok [OF C q lim L, unfolded Let_def el]])
    fix st' :: "'a list \<times> 'a slack_factor \<times> int \<times> int"
    assume H: "case st' of (rv', sf', pos', neg') \<Rightarrow> length rv' = length rv \<and> length (sf_pinv sf') = length (sf_pinv sf)
      \<and> length (sf_bval sf') = length (sf_bval sf) \<and> length (sf_acc sf') = length (sf_acc sf)
      \<and> (\<forall>t. 0 \<le> t \<and> t < sp_nb ?pr \<longrightarrow> elt (sf_bval sf') (sp_b0 ?pr + t) = state_value A cv ?pr t)
       \<and> (\<forall>i. 0 \<le> i \<and> (i < sp_b0 ?pr \<or> sp_b0 ?pr + sp_nb ?pr \<le> i) \<longrightarrow> elt (sf_bval sf') i = elt (sf_bval sf) i)
       \<and> sf_fails sf' = sf_fails sf + (if pair_good A plan cv limit ?pr then 0 else 1)
       \<and> (pair_good A plan cv limit ?pr \<longrightarrow> pair_det A cv ?pr \<noteq> 0
          \<and> (\<forall>r c d. is_slot R r c d \<longrightarrow> elt rv' d = elt rv d - schur_term A cv ?pr (full_row A plan r) (full_row A plan c))
          \<and> (\<forall>r. 0 \<le> r \<and> r < pl_nr plan \<longrightarrow> elt (sf_acc sf') r = elt (sf_acc sf) r + \<bar>schur_term A cv ?pr (full_row A plan r) (full_row A plan r)\<bar>)
          \<and> elt (sf_pinv sf') (3 * q) = sym_entry A cv (sp_y ?pr) (sp_y ?pr) / pair_det A cv ?pr
          \<and> elt (sf_pinv sf') (3 * q + 1) = - sym_entry A cv (sp_s ?pr) (sp_y ?pr) / pair_det A cv ?pr
          \<and> elt (sf_pinv sf') (3 * q + 2) = sym_entry A cv (sp_s ?pr) (sp_s ?pr) / pair_det A cv ?pr
          \<and> (\<forall>i. 0 \<le> i \<and> i < 3 * q \<longrightarrow> elt (sf_pinv sf') i = elt (sf_pinv sf) i)
          \<and> block_inertia (sym_entry A cv (sp_s ?pr) (sp_s ?pr)) (sym_entry A cv (sp_s ?pr) (sp_y ?pr)) (sym_entry A cv (sp_y ?pr) (sp_y ?pr)) (pos' - pos, neg' - neg))"
    obtain rv' sf' pos' neg' where st': "st' = (rv', sf', pos', neg')" by (cases st')
    note H = H [unfolded st' prod.case]
    have len: "length rv' = length (row_idx R)" "int (length (sf_pinv sf')) = 3 * int (length (pl_pairs plan))" "length (sf_bval sf') = length (pl_b_slot plan)"
      "int (length (sf_acc sf')) = pl_nr plan" using H L by simp_all
    have fails: "0 \<le> sf_fails sf'" "sf_fails sf' = 0 \<longleftrightarrow> (\<forall>pr \<in> set (?ps @ [?pr]). pair_good A plan cv limit pr)"
      using H F by (auto split: if_splits)
    have bval: "elt (sf_bval sf') i = elt cv (elt (pl_b_slot plan) i)" if i: "0 \<le> i" "i < (\<Sum>p\<leftarrow>?ps @ [?pr]. sp_nb p)" for i
    proof (cases "i < sp_b0 ?pr")
      case True
      then show ?thesis using H B [of i] i b0 by simp
    next
      case False
      define t where "t = i - sp_b0 ?pr"
      have t: "0 \<le> t" "t < sp_nb ?pr" "i = sp_b0 ?pr + t" using False i b0 by (simp_all add: t_def)
      have "elt (sf_bval sf') i = state_value A cv ?pr t" using H t by blast
      moreover have "vget (pl_b_slot plan) i = Some (elt (pl_b_slot plan) i)" using i(1) state_reads(5) [OF C pr t(1,2)] t(3) by (simp add: vget_at)
      ultimately show ?thesis using state_reads(2) [OF C pr t(1,2)] unfolding state_value_def t(3) by simp
    qed
    have good: "(\<forall>r c d. is_slot R r c d \<longrightarrow> elt rv' d = schur_entry A plan cv (?ps @ [?pr]) r c)
        \<and> (\<forall>r. 0 \<le> r \<and> r < pl_nr plan \<longrightarrow> elt (sf_acc sf') r = (\<Sum>pr\<leftarrow>?ps @ [?pr]. \<bar>schur_term A cv pr (full_row A plan r) (full_row A plan r)\<bar>))
        \<and> (\<forall>u. 0 \<le> u \<and> u < q + 1 \<longrightarrow> inverse_at A cv (pl_pairs plan) (sf_pinv sf') u) \<and> pairs_inertia A cv (?ps @ [?pr]) (pos' - pos0, neg' - neg0)"
      if g: "\<forall>pr \<in> set (?ps @ [?pr]). pair_good A plan cv limit pr"
    proof -
      have g1: "\<forall>pr \<in> set ?ps. pair_good A plan cv limit pr" and g2: "pair_good A plan cv limit ?pr" using g by simp_all
      note G = G [OF g1]
      have H2: "pair_det A cv ?pr \<noteq> 0" "\<And>r c d. is_slot R r c d \<Longrightarrow> elt rv' d = elt rv d - schur_term A cv ?pr (full_row A plan r) (full_row A plan c)"
        "\<And>r. 0 \<le> r \<Longrightarrow> r < pl_nr plan \<Longrightarrow> elt (sf_acc sf') r = elt (sf_acc sf) r + \<bar>schur_term A cv ?pr (full_row A plan r) (full_row A plan r)\<bar>"
        "elt (sf_pinv sf') (3 * q) = sym_entry A cv (sp_y ?pr) (sp_y ?pr) / pair_det A cv ?pr"
        "elt (sf_pinv sf') (3 * q + 1) = - sym_entry A cv (sp_s ?pr) (sp_y ?pr) / pair_det A cv ?pr"
        "elt (sf_pinv sf') (3 * q + 2) = sym_entry A cv (sp_s ?pr) (sp_s ?pr) / pair_det A cv ?pr"
        "\<And>i. 0 \<le> i \<Longrightarrow> i < 3 * q \<Longrightarrow> elt (sf_pinv sf') i = elt (sf_pinv sf) i"
        "block_inertia (sym_entry A cv (sp_s ?pr) (sp_s ?pr)) (sym_entry A cv (sp_s ?pr) (sp_y ?pr)) (sym_entry A cv (sp_y ?pr) (sp_y ?pr)) (pos' - pos, neg' - neg)"
        using H g2 by blast+
      have inv: "inverse_at A cv (pl_pairs plan) (sf_pinv sf') u" if u: "0 \<le> u" "u < q + 1" for u
      proof (cases "u = q")
        case True
        then show ?thesis using H2(1,4-6) by (simp add: inverse_at_def Let_def el)
      next
        case False
        then have "inverse_at A cv (pl_pairs plan) (sf_pinv sf) u" using G u by simp
        then show ?thesis using H2(7) [of "3 * u"] H2(7) [of "3 * u + 1"] H2(7) [of "3 * u + 2"] u False by (simp add: inverse_at_def Let_def)
      qed
      have "pairs_inertia A cv (?ps @ [?pr]) ((pos - pos0) + (pos' - pos), (neg - neg0) + (neg' - neg))"
        using pairs_inertia_snoc [OF _ H2(8)] G by blast
      moreover have "\<forall>r c d. is_slot R r c d \<longrightarrow> elt rv' d = schur_entry A plan cv (?ps @ [?pr]) r c"
        using H2(2) G by (simp add: schur_entry_def)
      moreover have "\<forall>r. 0 \<le> r \<and> r < pl_nr plan \<longrightarrow> elt (sf_acc sf') r = (\<Sum>pr\<leftarrow>?ps @ [?pr]. \<bar>schur_term A cv pr (full_row A plan r) (full_row A plan r)\<bar>)"
        using H2(3) G by simp
      ultimately show ?thesis using inv by simp
    qed
    show "pass_inv A plan R cv limit pos0 neg0 (q + 1) st'"
      unfolding pass_inv_def Let_def st' prod.case ps using len fails bval good by blast
  qed
qed

lemma slack_pair_pass_ok:
  fixes cv :: "'a::linordered_field list"
  assumes C: "pass_ctx A plan R cv"
  shows "ok (slack_pair_pass plan cv ulimit sf pos neg) (\<lambda>(good, rv, sf', pos', neg'). good = (sf_fails sf' = 0)
    \<and> pass_inv A plan R cv (if ulimit > 0 then Some ulimit else None) pos neg (int (length (pl_pairs plan))) (rv, sf', pos', neg'))"
proof -
  note D = pass_ctxD [OF C]
  let ?limit = "if ulimit > 0 then Some ulimit else None"
  obtain rv where k: "keep_values plan cv = Some rv" "length rv = length (row_idx R)"
    "\<And>r c d. is_slot R r c d \<Longrightarrow> elt rv d = sym_entry A cv (full_row A plan r) (full_row A plan c)"
    using ok_ex [OF keep_values_ok [OF C]] by blast
  let ?np = "int (length (pl_pairs plan))"
  let ?sf = "sf\<lparr>sf_fails := 0, sf_max_growth := 0, sf_max_slack := 0, sf_pinv := resize (3 * ?np) (sf_pinv sf),
       sf_bval := resize (int (length (pl_b_slot plan))) (sf_bval sf), sf_acc := replicate (nat (pl_nr plan)) 0\<rparr>"
  have rs: "length (resize n xs) = nat n" for n and xs :: "'a list" by (simp add: resize_def)
  have start: "pass_inv A plan R cv ?limit pos neg 0 (rv, ?sf, pos, neg)"
    unfolding pass_inv_def prod.case Let_def
    using k(2,3) D(9) by (auto simp: rs schur_entry_def elt_replicate pairs_inertia_def)
  have "ok (for_range 0 ?np (pair_step plan cv ?limit) (rv, ?sf, pos, neg)) (pass_inv A plan R cv ?limit pos neg ?np)"
  proof (rule for_range_ok [where I = "pass_inv A plan R cv ?limit pos neg", OF start])
    show "ok (pair_step plan cv ?limit q st) (pass_inv A plan R cv ?limit pos neg (q + 1))"
      if "0 \<le> q" "q < ?np" "pass_inv A plan R cv ?limit pos neg q st" for q st
      by (rule pass_step [OF C that(1,2) _ that(3)]) (auto split: if_splits)
  qed simp
  then show ?thesis
    unfolding slack_pair_pass_def Let_def k(1) bind.simps ok_bind by (rule ok_mono) auto
qed

section \<open>The pairs-first order\<close>

text \<open>The elimination order of the full matrix: each pair, slack first, then the reduced matrix's order; and the list of the pairs.\<close>

definition pair_first_order :: "slack_plan \<Rightarrow> int list \<Rightarrow> (int list \<times> int list) option" where
  "pair_first_order plan rperm = do {
     (perm, pf) \<leftarrow> forM (pl_pairs plan) (\<lambda>pr (perm, pf). Some (perm @ [sp_s pr, sp_y pr], pf @ [sp_s pr, sp_y pr])) ([], []);
     perm \<leftarrow> forM rperm (\<lambda>r perm. do {
       i \<leftarrow> vget (pl_red_to_full plan) r;
       Some (perm @ [i])
     }) perm;
     Some (perm, pf)
   }"

text \<open>the order \<open>analyse_with_slack_plan\<close> gives the full matrix, the pairs first and then the rows that stay in the order of the
  reduced matrix, is a permutation of all rows whenever the reduced order is one, and the pairs it announces are its first entries.\<close>

theorem pair_first_order_correct:
  assumes A: "csc_clean A" and L: "slack_layout_ok A plan R" and p: "mset rperm = mset [0..pl_nr plan - 1]"
  shows "\<exists>perm pf. pair_first_order plan rperm = Some (perm, pf) \<and> mset perm = mset [0..csc_n A - 1]
    \<and> pf = members (pl_pairs plan) \<and> take (2 * length (pl_pairs plan)) perm = pf"
proof -
  let ?ps = "pl_pairs plan" and ?K = "kept (pl_pairs plan) (csc_n A)"
  have F: "pl_nr plan = int (length ?K)" "pl_red_to_full plan = ?K" "pairs_ok A ?ps" using L unfolding slack_layout_ok_def Let_def by blast+
  have one: "forM prs (\<lambda>pr (perm, pf). Some (perm @ [sp_s pr, sp_y pr], pf @ [sp_s pr, sp_y pr])) (a, b) = Some (a @ members prs, b @ members prs)" for prs a b
    by (induction prs arbitrary: a b) (simp_all add: members_def)
  have rin: "\<forall>r \<in> set rperm. 0 \<le> r \<and> r < int (length ?K)"
  proof -
    have "set rperm = set [0..pl_nr plan - 1]" using p by (metis set_mset_mset)
    then show ?thesis by (auto simp: F(1))
  qed
  have two: "forM rs (\<lambda>r perm. do { i \<leftarrow> vget ?K r; Some (perm @ [i]) }) a = Some (a @ map (elt ?K) rs)" if "\<forall>r \<in> set rs. 0 \<le> r \<and> r < int (length ?K)" for rs a
    using that by (induction rs arbitrary: a) (auto simp: vget_at)
  have run: "pair_first_order plan rperm = Some (members ?ps @ map (elt ?K) rperm, members ?ps)"
    unfolding pair_first_order_def one bind.simps prod.case F(2) append_Nil two [OF rin] ..
  have len: "length (members prs) = 2 * length prs" for prs by (induction prs) (simp_all add: members_def)
  have "mset (map (elt ?K) rperm) = image_mset (elt ?K) (mset [0..int (length ?K) - 1])" using p F(1) by simp
  also have "\<dots> = mset (map (elt ?K) (entry_ids ?K))" by (simp add: entry_ids_def)
  also have "\<dots> = mset ?K" by (simp add: map_entry_ids)
  finally have K: "mset (map (elt ?K) rperm) = mset ?K" .
  have m: "distinct (members ?ps)" using F(3) by (simp add: pairs_ok_def)
  have r: "set (members ?ps) \<subseteq> set [0..csc_n A - 1]" using F(3) by (auto simp: pairs_ok_def is_pair_def set_members)
  have "mset (members ?ps) = mset (filter (\<lambda>v. v \<in> set (members ?ps)) [0..csc_n A - 1])"
    by (rule set_eq_iff_mset_eq_distinct [THEN iffD1]) (use m r in auto)
  then have "mset (members ?ps) + mset ?K = mset (filter (\<lambda>v. v \<in> set (members ?ps)) [0..csc_n A - 1]) + mset (filter (\<lambda>v. v \<notin> set (members ?ps)) [0..csc_n A - 1])"
    by (simp add: kept_def)
  also have "\<dots> = mset [0..csc_n A - 1]" unfolding mset_filter by (rule multiset_partition [symmetric])
  finally show ?thesis unfolding run using K len by simp
qed

section \<open>Properties\<close>

text \<open>C5: \<open>slack_pair_pass\<close> on the layout of a plan never leaves its arrays. It succeeds exactly when every pair's block passes the
  determinant and growth tests. Then the reduced values are, entry by entry, the Schur complement of all the pairs in the matrix
  with the values \<open>cv\<close>; the stored inverses are the inverses of the (nonsingular) blocks, the stored state values those of the
  multipliers' columns, \<open>acc\<close> the magnitude added to each diagonal; and the counts grow by the inertia of the blocks.\<close>

theorem slack_pair_pass_correct:
  fixes cv :: "'a::linordered_field list"
  assumes "csc_clean A" "slack_layout_ok A plan R" "length cv = length (row_idx A)"
  shows "\<exists>good rv sf' pos' neg'. slack_pair_pass plan cv ulimit sf pos neg = Some (good, rv, sf', pos', neg') \<and> length rv = length (row_idx R)
    \<and> (good \<longleftrightarrow> (\<forall>pr \<in> set (pl_pairs plan). pair_good A plan cv (if ulimit > 0 then Some ulimit else None) pr))
    \<and> (good \<longrightarrow> (\<forall>r c d. is_slot R r c d \<longrightarrow> elt rv d = schur_entry A plan cv (pl_pairs plan) r c)
        \<and> (\<forall>u. 0 \<le> u \<and> u < int (length (pl_pairs plan)) \<longrightarrow> inverse_at A cv (pl_pairs plan) (sf_pinv sf') u)
        \<and> sf_bval sf' = map (elt cv) (pl_b_slot plan)
        \<and> (\<forall>r. 0 \<le> r \<and> r < pl_nr plan \<longrightarrow> elt (sf_acc sf') r = (\<Sum>pr\<leftarrow>pl_pairs plan. \<bar>schur_term A cv pr (full_row A plan r) (full_row A plan r)\<bar>))
        \<and> pairs_inertia A cv (pl_pairs plan) (pos' - pos, neg' - neg))"
proof -
  let ?limit = "if ulimit > 0 then Some ulimit else None" and ?np = "int (length (pl_pairs plan))"
  have C: "pass_ctx A plan R cv" using assms by (simp add: pass_ctx_def)
  obtain rv sf' pos' neg' where run: "slack_pair_pass plan cv ulimit sf pos neg = Some (sf_fails sf' = 0, rv, sf', pos', neg')"
    "pass_inv A plan R cv ?limit pos neg ?np (rv, sf', pos', neg')"
    using ok_ex [OF slack_pair_pass_ok [OF C, of ulimit sf pos neg]] by auto
  have tk: "take (nat ?np) (pl_pairs plan) = pl_pairs plan" by simp
  have I: "length rv = length (row_idx R)" "length (sf_bval sf') = length (pl_b_slot plan)"
    "sf_fails sf' = 0 \<longleftrightarrow> (\<forall>pr \<in> set (pl_pairs plan). pair_good A plan cv ?limit pr)"
    "\<And>i. 0 \<le> i \<Longrightarrow> i < (\<Sum>p\<leftarrow>pl_pairs plan. sp_nb p) \<Longrightarrow> elt (sf_bval sf') i = elt cv (elt (pl_b_slot plan) i)"
    "(\<forall>pr \<in> set (pl_pairs plan). pair_good A plan cv ?limit pr) \<longrightarrow> (\<forall>r c d. is_slot R r c d \<longrightarrow> elt rv d = schur_entry A plan cv (pl_pairs plan) r c)
        \<and> (\<forall>r. 0 \<le> r \<and> r < pl_nr plan \<longrightarrow> elt (sf_acc sf') r = (\<Sum>pr\<leftarrow>pl_pairs plan. \<bar>schur_term A cv pr (full_row A plan r) (full_row A plan r)\<bar>))
        \<and> (\<forall>u. 0 \<le> u \<and> u < ?np \<longrightarrow> inverse_at A cv (pl_pairs plan) (sf_pinv sf') u) \<and> pairs_inertia A cv (pl_pairs plan) (pos' - pos, neg' - neg)"
    using run(2) unfolding pass_inv_def prod.case Let_def tk by blast+
  have tot: "(\<Sum>p\<leftarrow>pl_pairs plan. sp_nb p) = int (length (pl_b_slot plan))"
    using length_all_states [of "pl_pairs plan" A] pass_ctxD(3,5) [OF C] by (simp add: pairs_ok_def)
  have b: "sf_bval sf' = map (elt cv) (pl_b_slot plan)"
  proof (rule nth_equalityI)
    show "length (sf_bval sf') = length (map (elt cv) (pl_b_slot plan))" using I(2) by simp
    fix i assume "i < length (sf_bval sf')"
    then show "sf_bval sf' ! i = map (elt cv) (pl_b_slot plan) ! i" using I(4) [of "int i"] I(2) tot by (simp add: elt_def)
  qed
  show ?thesis using run(1) I(1,3,5) b by blast
qed

definition slack_example_factor :: "rat slack_factor" where
  "slack_example_factor = \<lparr>sf_pinv = [], sf_bval = [], sf_acc = [], sf_fails = 0, sf_max_growth = 0, sf_max_slack = 0\<rparr>"

definition slack_example_plan :: slack_plan where
  "slack_example_plan = (case build_slack_layout slack_example slack_example_control of Some (Some (plan, _)) \<Rightarrow> plan
     | _ \<Rightarrow> \<lparr>pl_n_full = 0, pl_nr = 0, pl_red_to_full = [], pl_pairs = [], pl_b_slot = [], pl_b_row = [], pl_sdiag = [], pl_blk = [], pl_keep_src = [],
          pl_keep_dst = [], pl_reduced_nnz = 0\<rparr>)"

lemma slack_example_layout: "slack_layout_ok slack_example slack_example_plan (pattern (pl_nr slack_example_plan) [0, 2, 3] [0, 1, 1])"
proof -
  obtain plan where b: "build_slack_layout slack_example slack_example_control = Some (Some (plan, [0, 2, 3], [0, 1, 1]))" by (rule slack_example_run)
  have "slack_example_plan = plan" unfolding slack_example_plan_def b by simp
  then show ?thesis using slack_layout_main [OF slack_example_clean slack_example_small, of slack_example_control] unfolding b by auto
qed

theorem pair_first_order_correct_witness:
  "pair_first_order slack_example_plan [1, 0] = Some ([3, 2, 1, 0], [3, 2]) \<and> mset [3, 2, 1, 0] = mset [0..csc_n slack_example - 1]"
proof -
  have r: "pair_first_order slack_example_plan [1, 0] = Some ([3, 2, 1, 0], [3, 2])" by code_simp
  have "mset [1, 0] = mset [0..pl_nr slack_example_plan - 1]" by code_simp
  from pair_first_order_correct [OF slack_example_clean slack_example_layout this] show ?thesis using r by simp
qed

theorem slack_pair_pass_correct_witness:
  "\<exists>sf. slack_pair_pass slack_example_plan (vals slack_example) 0 slack_example_factor 0 0 = Some (True, [22, 43, 103], sf, 1, 1)
    \<and> schur_entry slack_example slack_example_plan (vals slack_example) (pl_pairs slack_example_plan) 1 0 = 43
    \<and> pairs_inertia slack_example (vals slack_example) (pl_pairs slack_example_plan) (1, 1)"
proof -
  let ?R = "pattern (pl_nr slack_example_plan) [0, 2, 3] [0, 1, 1]"
  have "map_option (\<lambda>(g, rv, _, p, n). (g, rv, p, n)) (slack_pair_pass slack_example_plan (vals slack_example) 0 slack_example_factor 0 0) = Some (True, [22, 43, 103], 1, 1)"
    by code_simp
  then obtain sf where r: "slack_pair_pass slack_example_plan (vals slack_example) 0 slack_example_factor 0 0 = Some (True, [22, 43, 103], sf, 1, 1)" by auto
  have len: "length (vals slack_example) = length (row_idx slack_example)" by (simp add: slack_example_def)
  have nr: "pl_nr slack_example_plan = 2" by code_simp
  have s: "is_slot ?R 1 0 1" by (simp add: is_slot_def nr elt_def)
  from slack_pair_pass_correct [OF slack_example_clean slack_example_layout len, of 0 slack_example_factor 0 0]
  have "(\<forall>r c d. is_slot ?R r c d \<longrightarrow> elt [22, 43, 103] d = schur_entry slack_example slack_example_plan (vals slack_example) (pl_pairs slack_example_plan) r c)
      \<and> pairs_inertia slack_example (vals slack_example) (pl_pairs slack_example_plan) (1, 1)" unfolding r by auto
  then show ?thesis using r s by (force simp: elt_def)
qed

end
