(* ===== verification/Spec2Isabelle.thy ===== *)
theory Spec2Isabelle
  imports CscClean CooToCsc EtreeBuild ChildrenCsr CpuTopology ThreadPlan MinHeap AssemblyTree MinDegree DenseCholesky TopScheduler PassLanes TaskTree
    Amalgamate Relaxed SlackSchur
begin

text \<open>
  The sparse symmetric solver of \<open>solver/\<close> (paths below are relative to it) factors a matrix given by its lower triangle in
  three phases. \<^emph>\<open>Analysis\<close> cleans the input, orders the columns, builds the elimination tree, the column counts, the
  supernodes and the assembly tree, and plans how many threads work on which subtrees. \<^emph>\<open>Factorization\<close> walks the assembly
  tree children first, in parallel, and factors one dense front per supernode with threshold pivoting. \<^emph>\<open>Solve\<close> substitutes.
  These theories model the symbolic core of the first phase, the scheduling of the second and its dense pivoting kernels.

  \<^bold>\<open>How the code is read.\<close> A function that indexes vectors or loops is a function into \<open>option\<close> in which every \<open>v[i]\<close> is
  checked: \<open>None\<close> is an access out of range, a loop that never ends, or \<open>std::abort\<close>. A theorem whose conclusion is
  \<open>ok m Q\<close> (\<open>Prelude\<close>) or \<open>m = Some x\<close> therefore says that the code ends, stays inside its vectors and returns
  what it should. Unbounded loops are \<open>partial_function (option)\<close>s, so no fuel is chosen anywhere; their termination is part
  of each theorem (\<open>loop_ok\<close> asks for a measure). A loop over a workspace is modelled with the workspace's slices as
  separate lists. \<open>Int\<close> and \<open>LongInt\<close> values are mathematical integers where the theorem's hypotheses keep them in
  range (indices below the order, positions in vectors that exist); where the code can leave the range the arithmetic is
  written out and the limit \<open>2^31\<close> is a hypothesis or a case of the theorem: \<open>narrow32\<close> is \<open>static_cast<Int>\<close> (sizes of the
  triplets, of a front's rows, of the reduced pattern), \<open>iadd32\<close> an addition of \<open>Int\<close>s that is undefined when it overflows (the
  offsets of the adjacency arrays, \<open>prefix_step32\<close>), \<open>offset32\<close> the product \<open>i + j * ld\<close> of the dense kernels and of
  \<open>FrontalMatrix::at\<close> (\<open>SmfTypes\<close>, \<open>ColMajor\<close>). Floating-point work estimates are rationals,
  matrix entries elements of an ordered field (reals for the Cholesky root): rounding is not modelled and every value is
  finite. \<open>std::sort\<close> by a key is \<open>sort_key\<close>.

  \<^bold>\<open>Theories and code.\<close>
  \<^item> \<open>Prelude\<close>, \<open>Bucket\<close>, \<open>PostIntervals\<close>, \<open>Reach\<close>: shared vocabulary. Checked vectors and loops with their total-correctness
    rules; the counting sort (count, prefix sum, scatter) that five components use; subtrees as intervals of a postorder;
    transition systems with an invariant (locale \<open>transition_invariant\<close>).
  \<^item> \<open>SmfTypes\<close> (\<open>include/smf/types.hpp\<close>, \<open>error.hpp\<close>): the enumerations and the overflow-checked 64-bit arithmetic.
  \<^item> \<open>Csc\<close>, \<open>CscBuild\<close>, \<open>CscClean\<close>, \<open>CooToCsc\<close> (\<open>src/csc_matrix.cpp\<close>, \<open>check_matrix.cpp\<close>, \<open>coo_to_csc.cpp\<close>): the matrix and its
    shape test, cleaning of a user's matrix on both paths, conversion of triplets. Their specification is the list of columns
    and the sum of the entries given for a position.
  \<^item> \<open>SymGraph\<close> (\<open>src/sym_graph.cpp\<close>, part of \<open>ordering_amd.cpp\<close>): adjacency arrays of the pattern by three algorithms, structural rank.
  \<^item> \<open>Etree\<close>, \<open>EtreePost\<close>, \<open>EtreeBuild\<close> (\<open>src/etree.cpp\<close>): Liu's elimination tree against the fill-path condition, the iterative
    postorder against the recursive one, and the builders that combine them.
  \<^item> \<open>MinDegree\<close> (\<open>src/ordering_amd.cpp\<close>): the built-in minimum degree ordering against vertex elimination on neighbour sets.
  \<^item> \<open>ColumnCounts\<close>, \<open>Supernodes\<close>, \<open>Amalgamate\<close>, \<open>ChildrenCsr\<close>, \<open>RelaxedCode\<close>, \<open>RelaxedGroups\<close>, \<open>RelaxedTree\<close>, \<open>Relaxed\<close>
    (\<open>src/supernode_detection.cpp\<close>): the exact counts of the factor, its fundamental supernodes, both amalgamations.
  \<^item> \<open>AssemblyTree\<close> (\<open>src/assembly_tree.cpp\<close>): the rows of every front and the predicted sizes.
  \<^item> \<open>SlackCode\<close>, \<open>SlackGraph\<close>, \<open>SlackPairs\<close>, \<open>SlackNumber\<close>, \<open>SlackMerge\<close>, \<open>SlackPattern\<close>, \<open>SlackPlan\<close>, \<open>SlackPass\<close>, \<open>SlackSchur\<close>
    (\<open>src/slack_elimination.cpp\<close>): the search for slack pairs, the pattern left when they are eliminated, with every early exit of
    the layout, and the pass that eliminates their values. The layout is specified by the pairs and the entries of the reduced
    graph, the pass by the Schur complement. The analyses of the reduced and of the full matrix, the test that arms the
    elimination and the cache under the mutex are left out.
  \<^item> \<open>CpuTopology\<close>, \<open>TreeView\<close>, \<open>SubtreeSums\<close>, \<open>TreePartition\<close>, \<open>TreeTasks\<close>, \<open>ThreadPlan\<close> (\<open>src/parallel/thread_plan.cpp\<close>): cores a
    run may use, work of the subtrees, the cut of the tree into parallel tasks and a sequential top, and the cost model that picks
    the thread count.
  \<^item> \<open>TaskTree\<close> (\<open>src/parallel/task_tree.cpp\<close>): the walk of the tree by tasks, serially and in every interleaving.
  \<^item> \<open>TopScheduler\<close>, \<open>PassLanes\<close> (\<open>src/parallel/top_scheduler.cpp\<close>, \<open>.hpp\<close>): the monitor that hands the top nodes to workers, one
    step per critical section, with waits and spurious wake-ups.
  \<^item> \<open>MinHeap\<close> (\<open>src/indexed_min_heap.hpp\<close>): the addressable 4-ary heap; locale \<open>priority_map\<close> is its contract.
  \<^item> \<open>ColMajor\<close>, \<open>Pivoting\<close>, \<open>DenseLdlt\<close>, \<open>DenseCholesky\<close> (\<open>src/pivoting.cpp\<close>, \<open>dense_indef.cpp\<close>, \<open>include/smf/frontal_matrix.hpp\<close>):
    column-major arrays as matrices, the threshold pivot choice and elimination of a front, and the dense factorizations.

  \<^bold>\<open>What the lemmas show.\<close> The data theories prove that the output is valid whatever the input, and what it denotes. The
  tree theories go from paths in a graph to the code: \<open>fills\<close> (an entry of the factor) is defined by fill paths, the parent
  of a column is its first fill row, the counts are the numbers of fill rows, a fundamental supernode is a maximal run of columns
  with one pattern, and the rows of a front contain the pattern. A subtree cut off for a task is a contiguous range of the
  postorder, and the ranges are disjoint. The planning theories bound what the plan may do for any tree.
  The concurrent theories prove invariants over all interleavings by rule induction: children before parents, no node twice, no
  deadlock, no lost wake-up (work that can be taken while a worker sleeps has a worker awake to take it), and the one behaviour found wrong (\<open>over_budget_skips_descendants\<close>). The kernels prove
  the equations \<open>P A P^T = L D L^T\<close> and \<open>A = L L^T\<close> entry by entry, the inertia, and the threshold's bound on the multipliers.

  \<^bold>\<open>Not modelled.\<close> The numeric engine (\<open>multifrontal_serial.cpp\<close>, \<open>factor_posdef.cpp\<close>, \<open>factor_indef.cpp\<close>, \<open>ldlt_kernel.cpp\<close>,
  \<open>ldlt_aptp.cpp\<close>, \<open>blocked_indef.cpp\<close>, \<open>dense_kernel_lapack.cpp\<close>) is pointer arithmetic over blocked BLAS and LAPACK calls whose
  effect is that of the modelled kernels; the solve and refinement kernels and the scalings depend on rounding; the orderings call
  METIS and AMD; \<open>symbolic_analysis.cpp\<close> is the driver that times and glues the modelled parts with its options; the IPOPT, MA97 and C
  interfaces are adapters; \<open>third_party\<close>, tests, tools and benchmarks are not the program.
\<close>

end
